(* ===== verification/Prelude.thy ===== *)
theory Prelude
  imports Main "HOL-Library.Word" "HOL-Library.AList"
begin

text \<open>
  Shared vocabulary of the development.

  \<^item> Go strings and byte slices are lists of 8-bit characters (\<^typ>\<open>string\<close>); a Go
    \<open>time.Time\<close> or \<open>time.Duration\<close> is a number of nanoseconds.
  \<^item> A Go map is an association list with distinct keys: \<open>m[k]\<close> is \<^term>\<open>map_of m k\<close>,
    \<open>m[k] = v\<close> is \<^term>\<open>AList.update k v m\<close>, \<open>delete(m, k)\<close> is \<^term>\<open>AList.delete k m\<close>
    and \<open>len(m)\<close> is \<^term>\<open>length m\<close>.
  \<^item> A \<open>container/list\<close> whose elements carry distinct keys is the list of those keys, front
    first; \<open>list.Element\<close> pointers are the keys.
  \<^item> The least recently used indexes of the proxy are such a map together with such a list;
    \<open>lru_ok\<close> says that the two agree, and the lemmas below keep it under every update.
\<close>

named_theorems lru_intros \<open>steps that keep a map and its recency list in agreement\<close>
named_theorems go_enum_simps \<open>defining equations of the functions on enumerations\<close>

type_synonym gotime = int
type_synonym goduration = int
type_synonym ('k, 'v) gomap = "('k \<times> 'v) list"

abbreviation gm_get :: "('k, 'v) gomap \<Rightarrow> 'k \<Rightarrow> 'v option" where
  "gm_get \<equiv> map_of"

abbreviation gm_put :: "'k \<Rightarrow> 'v \<Rightarrow> ('k, 'v) gomap \<Rightarrow> ('k, 'v) gomap" where
  "gm_put \<equiv> AList.update"

abbreviation gm_del :: "'k \<Rightarrow> ('k, 'v) gomap \<Rightarrow> ('k, 'v) gomap" where
  "gm_del \<equiv> AList.delete"

text \<open>Operations of \<open>container/list\<close> on element keys.\<close>

definition gl_remove :: "'k \<Rightarrow> 'k list \<Rightarrow> 'k list" where
  "gl_remove k l = filter (\<lambda>x. x \<noteq> k) l"

definition gl_move_front :: "'k \<Rightarrow> 'k list \<Rightarrow> 'k list" where
  "gl_move_front k l = (if k \<in> set l then k # gl_remove k l else l)"

definition gl_move_back :: "'k \<Rightarrow> 'k list \<Rightarrow> 'k list" where
  "gl_move_back k l = (if k \<in> set l then gl_remove k l @ [k] else l)"

definition gl_back :: "'k list \<Rightarrow> 'k option" where
  "gl_back l = (if l = [] then None else Some (last l))"

definition gl_front :: "'k list \<Rightarrow> 'k option" where
  "gl_front l = (case l of [] \<Rightarrow> None | x # _ \<Rightarrow> Some x)"

definition lru_ok :: "('k, 'v) gomap \<Rightarrow> 'k list \<Rightarrow> bool" where
  "lru_ok m l \<longleftrightarrow> distinct (map fst m) \<and> distinct l \<and> set l = fst ` set m"

lemma set_gl_remove [simp]: "set (gl_remove k l) = set l - {k}"
  by (auto simp: gl_remove_def)

lemma set_gl_move_front [simp]: "set (gl_move_front k l) = set l"
  by (auto simp: gl_move_front_def)

lemma set_gl_move_back [simp]: "set (gl_move_back k l) = set l"
  by (auto simp: gl_move_back_def)

lemma distinct_gl_remove [simp, intro]: "distinct l \<Longrightarrow> distinct (gl_remove k l)"
  by (simp add: gl_remove_def)

lemma gl_remove_last: "distinct l \<Longrightarrow> l \<noteq> [] \<Longrightarrow> gl_remove (last l) l = butlast l"
  by (induction l rule: rev_induct) (auto simp: gl_remove_def filter_id_conv)

lemma gl_remove_notin [simp]: "k \<notin> set l \<Longrightarrow> gl_remove k l = l"
  by (auto simp: gl_remove_def filter_id_conv)

lemma gl_remove_append [simp]: "gl_remove k (a @ b) = gl_remove k a @ gl_remove k b"
  by (simp add: gl_remove_def)

lemma gl_back_None [simp]: "gl_back l = None \<longleftrightarrow> l = []"
  by (simp add: gl_back_def)

lemma length_gm_put: "length (gm_put k v m) = (if k \<in> fst ` set m then length m else Suc (length m))"
  by (induction m) auto

lemma fst_set_gm_del: "fst ` set (gm_del k m) = fst ` set m - {k}"
  by (auto simp: AList.delete_eq)

lemma length_gm_del:
  assumes "distinct (map fst m)"
  shows "length (gm_del k m) = (if k \<in> fst ` set m then length m - 1 else length m)"
proof -
  have "length (gm_del k m) = length (removeAll k (map fst m))"
    by (metis AList.delete_keys length_map)
  also have "removeAll k (map fst m) = remove1 k (map fst m)"
    using assms by (simp add: distinct_remove1_removeAll)
  finally show ?thesis
    by (simp add: length_remove1)
qed

lemma set_map_gm_put: "fst ` set (gm_put k v m) = insert k (fst ` set m)"
  by (simp add: AList.dom_update)

lemma lru_ok_Nil [lru_intros]: "lru_ok [] []"
  by (simp add: lru_ok_def)

lemma lru_ok_length: "lru_ok m l \<Longrightarrow> length l = length m"
  unfolding lru_ok_def by (metis distinct_card length_map set_map)

lemma lru_ok_mem: "lru_ok m l \<Longrightarrow> k \<in> set l \<longleftrightarrow> gm_get m k \<noteq> None"
  by (simp add: lru_ok_def map_of_eq_None_iff)

lemma lru_ok_update [lru_intros]:
  "lru_ok m l \<Longrightarrow> gm_get m k \<noteq> None \<Longrightarrow> lru_ok (gm_put k v m) l"
  using map_of_eq_None_iff[of m k]
  by (auto simp: lru_ok_def AList.distinct_update set_map_gm_put insert_absorb)

lemma lru_ok_insert_front [lru_intros]:
  "lru_ok m l \<Longrightarrow> gm_get m k = None \<Longrightarrow> lru_ok (gm_put k v m) (k # l)"
  by (auto simp: lru_ok_def AList.distinct_update set_map_gm_put map_of_eq_None_iff)

lemma lru_ok_insert_back [lru_intros]:
  "lru_ok m l \<Longrightarrow> gm_get m k = None \<Longrightarrow> lru_ok (gm_put k v m) (l @ [k])"
  by (auto simp: lru_ok_def AList.distinct_update set_map_gm_put map_of_eq_None_iff)

lemma lru_ok_delete [lru_intros]: "lru_ok m l \<Longrightarrow> lru_ok (gm_del k m) (gl_remove k l)"
  by (auto simp: lru_ok_def AList.distinct_delete fst_set_gm_del)

lemma lru_ok_move_front [lru_intros]: "lru_ok m l \<Longrightarrow> lru_ok m (gl_move_front k l)"
  by (auto simp: lru_ok_def gl_move_front_def)

lemma lru_ok_move_back [lru_intros]: "lru_ok m l \<Longrightarrow> lru_ok m (gl_move_back k l)"
  by (auto simp: lru_ok_def gl_move_back_def)

section \<open>White space\<close>

text \<open>
  \<open>strings.TrimSpace\<close> on UTF-8 bytes: the number of bytes of a white-space character
  (\<open>unicode.IsSpace\<close>) at the front of a string, and of its reverse.
\<close>

definition asciiSpace :: "char \<Rightarrow> bool" where
  "asciiSpace c \<longleftrightarrow> c \<in> {CHR '' '', CHR 0x09, CHR 0x0A, CHR 0x0B, CHR 0x0C, CHR 0x0D}"

definition spaceRune3 :: "char \<Rightarrow> char \<Rightarrow> char \<Rightarrow> bool" where
  "spaceRune3 a b c \<longleftrightarrow>
     (a = CHR 0xE1 \<and> b = CHR 0x9A \<and> c = CHR 0x80) \<or>
     (a = CHR 0xE2 \<and> b = CHR 0x80 \<and>
        (0x80 \<le> (of_char c :: nat) \<and> (of_char c :: nat) \<le> 0x8A \<or> c \<in> {CHR 0xA8, CHR 0xA9, CHR 0xAF})) \<or>
     (a = CHR 0xE2 \<and> b = CHR 0x81 \<and> c = CHR 0x9F) \<or>
     (a = CHR 0xE3 \<and> b = CHR 0x80 \<and> c = CHR 0x80)"

fun leadingSpace :: "string \<Rightarrow> nat" where
  "leadingSpace [] = 0"
| "leadingSpace (a # rest) =
     (if asciiSpace a then 1
      else case rest of
        b # rest' \<Rightarrow>
          if a = CHR 0xC2 \<and> b \<in> {CHR 0x85, CHR 0xA0} then 2
          else (case rest' of c # _ \<Rightarrow> if spaceRune3 a b c then 3 else 0 | [] \<Rightarrow> 0)
      | [] \<Rightarrow> 0)"

fun trailingSpaceRev :: "string \<Rightarrow> nat" where
  "trailingSpaceRev [] = 0"
| "trailingSpaceRev (c # rest) =
     (if asciiSpace c then 1
      else case rest of
        b # rest' \<Rightarrow>
          if b = CHR 0xC2 \<and> c \<in> {CHR 0x85, CHR 0xA0} then 2
          else (case rest' of a # _ \<Rightarrow> if spaceRune3 a b c then 3 else 0 | [] \<Rightarrow> 0)
      | [] \<Rightarrow> 0)"

function trimWith :: "(string \<Rightarrow> nat) \<Rightarrow> string \<Rightarrow> string" where
  "trimWith f s = (if s = [] \<or> f s = 0 then s else trimWith f (drop (f s) s))"
  by pat_completeness auto
termination by (relation "measure (\<lambda>(f, s). length s)") auto

declare trimWith.simps [simp del]

definition trimSpace :: "string \<Rightarrow> string" where
  "trimSpace s = rev (trimWith trailingSpaceRev (rev (trimWith leadingSpace s)))"

lemma trimWith_Nil [simp]: "trimWith f [] = []"
  by (simp add: trimWith.simps)

lemma trimSpace_Nil [simp]: "trimSpace [] = []"
  by (simp add: trimSpace_def)

section \<open>Machines and their invariants\<close>

text \<open>
  A component is a set of initial states and a step relation, one rule per operation. What
  every operation keeps, every reachable state has.
\<close>

locale machine_invariant =
  fixes init :: "'s \<Rightarrow> bool" and step :: "'s \<Rightarrow> 's \<Rightarrow> bool" and inv :: "'s \<Rightarrow> bool"
  assumes init_inv: "init s \<Longrightarrow> inv s"
    and step_inv: "inv s \<Longrightarrow> step s s' \<Longrightarrow> inv s'"
begin

lemma run_inv: "step\<^sup>*\<^sup>* s s' \<Longrightarrow> inv s \<Longrightarrow> inv s'"
  by (induction rule: rtranclp_induct) (auto intro: step_inv)

lemma reachable_inv: "init s \<Longrightarrow> step\<^sup>*\<^sup>* s s' \<Longrightarrow> inv s'"
  using init_inv run_inv by blast

end

end
