(* ===== verification/State_Binding.thy ===== *)
theory State_Binding
  imports Prelude
begin

text \<open>
  The process-local store of provider-state ownership (\<open>proxy/state_binding.go\<close> and the
  conversation bootstrap of \<open>proxy/route_state_binding.go\<close>): a map from keyed digests of
  provider-issued tokens to the exact route and target that issued them, with an absolute
  lifetime, least-recently-used eviction at a capacity bound, and ownerless conflict tombstones.

  The store of \<open>*stateBindingStore\<close> is the record below; its mutex makes every method one
  atomic step, so a method is a function from the store to the store and its result.
  \<open>s.now()\<close> is the argument \<open>now\<close>; HMAC-SHA256 is the argument \<open>mac\<close> (of key and
  token). Loops that run until there is room are \<^theory_text>\<open>partial_function (option)\<close>: \<open>None\<close>
  is a loop that does not end, and the lemmas show that it ends in every well-formed store.
  The durable variant of the store and nil receivers are not part of this theory.
\<close>

section \<open>Data\<close>

datatype stateBindingLookupOutcome =
  stateBindingLookupUnknown | stateBindingLookupKnown | stateBindingLookupConflict

fun outcome_String :: "stateBindingLookupOutcome \<Rightarrow> string" where
  "outcome_String stateBindingLookupUnknown = ''unknown''"
| "outcome_String stateBindingLookupKnown = ''known''"
| "outcome_String stateBindingLookupConflict = ''conflict''"

record stateBindingOwner =
  routeID :: string
  targetID :: string
  routeKey :: string
  targetKey :: string
  ownerIdentity :: string

definition zeroBytes32 :: string where
  "zeroBytes32 = replicate 32 (CHR 0x00)"

definition zeroOwner :: stateBindingOwner where
  "zeroOwner = \<lparr>routeID = '''', targetID = '''', routeKey = zeroBytes32,
     targetKey = zeroBytes32, ownerIdentity = zeroBytes32\<rparr>"

definition memoryOwner :: "string \<Rightarrow> string \<Rightarrow> stateBindingOwner" where
  "memoryOwner r t = zeroOwner\<lparr>routeID := r, targetID := t\<rparr>"

definition owner_valid :: "stateBindingOwner \<Rightarrow> bool" where
  "owner_valid o' \<longleftrightarrow> routeID o' \<noteq> '''' \<and> targetID o' \<noteq> ''''"

text \<open>\<open>stateBindingType\<close> is a named string; its declared values:\<close>

definition stateBindingTypeResponseID :: string where
  "stateBindingTypeResponseID = ''response_id''"
definition stateBindingTypeTurnState :: string where
  "stateBindingTypeTurnState = ''codex_turn_state''"
definition stateBindingTypeEncryptedContent :: string where
  "stateBindingTypeEncryptedContent = ''encrypted_content''"
definition stateBindingTypeConversationID :: string where
  "stateBindingTypeConversationID = ''conversation_id''"

record stateBindingToken =
  stateType :: string
  tokValue :: string

record stateBindingLookupResult =
  outcome :: stateBindingLookupOutcome
  resultOwner :: stateBindingOwner

definition unknownResult :: stateBindingLookupResult where
  "unknownResult = \<lparr>outcome = stateBindingLookupUnknown, resultOwner = zeroOwner\<rparr>"
definition conflictResult :: stateBindingLookupResult where
  "conflictResult = \<lparr>outcome = stateBindingLookupConflict, resultOwner = zeroOwner\<rparr>"
definition knownResult :: "stateBindingOwner \<Rightarrow> stateBindingLookupResult" where
  "knownResult o' = \<lparr>outcome = stateBindingLookupKnown, resultOwner = o'\<rparr>"

definition knownOwner :: "stateBindingLookupResult \<Rightarrow> stateBindingOwner \<times> bool" where
  "knownOwner r = (if outcome r \<noteq> stateBindingLookupKnown then (zeroOwner, False)
     else (resultOwner r, True))"

datatype stateBindingKey = StateBindingKey (keyType: string) (keyDigest: string)

record stateBindingRecord =
  recOwner :: stateBindingOwner
  recOutcome :: stateBindingLookupOutcome
  expiresAt :: gotime

record stateBindingStore =
  maxEntries :: nat
  ttl :: goduration
  digestKey :: string
  entries :: "(stateBindingKey, stateBindingRecord) gomap"
  recency :: "stateBindingKey list"
  evictions :: "64 word"
  expirations :: "64 word"
  collisions :: "64 word"

record stateBindingStoreStats =
  st_entries :: nat
  st_tombstones :: nat
  st_evictions :: "64 word"
  st_expirations :: "64 word"
  st_collisions :: "64 word"

section \<open>Construction\<close>

datatype stateBindingError =
  errStateBindingMaxEntries | errStateBindingTTL | errStateBindingDigestKey | errDigestKeyRandom

definition defaultStateBindingMaxEntries :: int where
  "defaultStateBindingMaxEntries = 256 * 1024"
definition defaultStateBindingTTL :: goduration where
  "defaultStateBindingTTL = 24 * 3600 * 1000000000"
definition stateBindingDigestKeySize :: nat where
  "stateBindingDigestKeySize = 32"

text \<open>
  The arguments are the fields of \<open>stateBindingStoreConfig\<close>; \<open>random\<close> is what
  \<open>crypto/rand\<close> delivers (\<open>None\<close>: its read failed).
\<close>

definition newStateBindingStore ::
  "int \<Rightarrow> goduration \<Rightarrow> string \<Rightarrow> string option \<Rightarrow> stateBindingError + stateBindingStore" where
  "newStateBindingStore cfgMaxEntries cfgTTL cfgDigestKey random =
     (let m = (if cfgMaxEntries = 0 then defaultStateBindingMaxEntries else cfgMaxEntries);
          t = (if cfgTTL = 0 then defaultStateBindingTTL else cfgTTL);
          store = (\<lambda>k. \<lparr>maxEntries = nat m, ttl = t, digestKey = k, entries = [], recency = [],
                       evictions = 0, expirations = 0, collisions = 0\<rparr>)
      in if m < 0 then Inl errStateBindingMaxEntries
         else if t < 0 then Inl errStateBindingTTL
         else if length cfgDigestKey = 0 then
           (case random of None \<Rightarrow> Inl errDigestKeyRandom | Some k \<Rightarrow> Inr (store k))
         else if length cfgDigestKey = stateBindingDigestKeySize then Inr (store cfgDigestKey)
         else Inl errStateBindingDigestKey)"

section \<open>Internal operations\<close>

type_synonym mac = "string \<Rightarrow> string \<Rightarrow> string"

definition bindingKey :: "mac \<Rightarrow> stateBindingStore \<Rightarrow> stateBindingToken \<Rightarrow> stateBindingKey" where
  "bindingKey mac s t = StateBindingKey (stateType t) (mac (digestKey s) (tokValue t))"

definition record_expired :: "stateBindingRecord \<Rightarrow> gotime \<Rightarrow> bool" where
  "record_expired r now \<longleftrightarrow> \<not> now < expiresAt r"

datatype stateBindingRemovalReason = stateBindingRemovalExpired | stateBindingRemovalCapacity

fun removeLocked ::
  "stateBindingKey option \<Rightarrow> stateBindingRemovalReason \<Rightarrow> stateBindingStore \<Rightarrow> stateBindingStore" where
  "removeLocked None reason s = s"
| "removeLocked (Some k) reason s =
     (let s1 = s\<lparr>entries := gm_del k (entries s), recency := gl_remove k (recency s)\<rparr>
      in case reason of
           stateBindingRemovalExpired \<Rightarrow> s1\<lparr>expirations := expirations s1 + 1\<rparr>
         | stateBindingRemovalCapacity \<Rightarrow> s1\<lparr>evictions := evictions s1 + 1\<rparr>)"

definition lookupKeyLocked ::
  "stateBindingKey \<Rightarrow> gotime \<Rightarrow> stateBindingStore \<Rightarrow> stateBindingStore \<times> stateBindingLookupResult" where
  "lookupKeyLocked k now s =
     (case gm_get (entries s) k of
        None \<Rightarrow> (s, unknownResult)
      | Some r \<Rightarrow>
          if record_expired r now
          then (removeLocked (Some k) stateBindingRemovalExpired s, unknownResult)
          else (s\<lparr>recency := gl_move_front k (recency s)\<rparr>,
                if recOutcome r = stateBindingLookupConflict then conflictResult
                else knownResult (recOwner r)))"

definition pruneStep :: "gotime \<Rightarrow> stateBindingKey \<Rightarrow> stateBindingStore \<Rightarrow> stateBindingStore" where
  "pruneStep now k s =
     (case gm_get (entries s) k of
        None \<Rightarrow> s
      | Some r \<Rightarrow> if record_expired r now then removeLocked (Some k) stateBindingRemovalExpired s else s)"

definition pruneExpiredLocked :: "gotime \<Rightarrow> stateBindingStore \<Rightarrow> stateBindingStore" where
  "pruneExpiredLocked now s = fold (pruneStep now) (rev (recency s)) s"

partial_function (option) evictToCapacity :: "stateBindingStore \<Rightarrow> stateBindingStore option" where
  "evictToCapacity s =
     (if length (entries s) \<ge> maxEntries s
      then evictToCapacity (removeLocked (gl_back (recency s)) stateBindingRemovalCapacity s)
      else Some s)"

definition pushRecord :: "stateBindingKey \<Rightarrow> stateBindingRecord \<Rightarrow> stateBindingStore \<Rightarrow> stateBindingStore" where
  "pushRecord k r s = s\<lparr>entries := gm_put k r (entries s), recency := k # recency s\<rparr>"

definition insertWithRoom ::
  "gotime \<Rightarrow> stateBindingKey \<Rightarrow> stateBindingOwner \<Rightarrow> stateBindingStore \<Rightarrow> stateBindingStore option" where
  "insertWithRoom now k owner s =
     (let s1 = (if length (entries s) \<ge> maxEntries s then pruneExpiredLocked now s else s)
      in map_option (\<lambda>s2. pushRecord k
           \<lparr>recOwner = owner, recOutcome = stateBindingLookupKnown, expiresAt = now + ttl s2\<rparr> s2)
         (evictToCapacity s1))"

section \<open>Methods\<close>

definition store_bind ::
  "mac \<Rightarrow> gotime \<Rightarrow> stateBindingToken \<Rightarrow> stateBindingOwner \<Rightarrow> stateBindingStore \<Rightarrow>
   (stateBindingStore \<times> stateBindingLookupResult) option" where
  "store_bind mac now t owner s =
     (if stateType t = '''' \<or> tokValue t = '''' \<or> \<not> owner_valid owner then Some (s, conflictResult)
      else
        let k = bindingKey mac s t;
            insert_new = (\<lambda>s'. map_option (\<lambda>s''. (s'', knownResult owner)) (insertWithRoom now k owner s'))
        in case gm_get (entries s) k of
             None \<Rightarrow> insert_new s
           | Some r \<Rightarrow>
               if record_expired r now
               then insert_new (removeLocked (Some k) stateBindingRemovalExpired s)
               else
                 let s1 = s\<lparr>recency := gl_move_front k (recency s)\<rparr>
                 in if recOutcome r = stateBindingLookupConflict then Some (s1, conflictResult)
                    else if recOwner r = owner then
                      Some (s1\<lparr>entries := gm_put k (r\<lparr>expiresAt := now + ttl s\<rparr>) (entries s1)\<rparr>,
                            knownResult owner)
                    else
                      Some (s1\<lparr>entries := gm_put k \<lparr>recOwner = zeroOwner,
                                  recOutcome = stateBindingLookupConflict,
                                  expiresAt = now + ttl s\<rparr> (entries s1),
                               collisions := collisions s1 + 1\<rparr>,
                            conflictResult))"

definition store_lookup ::
  "mac \<Rightarrow> gotime \<Rightarrow> stateBindingToken \<Rightarrow> stateBindingStore \<Rightarrow> stateBindingStore \<times> stateBindingLookupResult" where
  "store_lookup mac now t s =
     (if stateType t = '''' \<or> tokValue t = '''' then (s, conflictResult)
      else lookupKeyLocked (bindingKey mac s t) now s)"

text \<open>The loop of \<open>resolveWithRoute\<close>; \<open>owner\<close> is \<open>Some\<close> once \<open>haveKnown\<close> is set.\<close>

fun resolveKeys ::
  "string \<Rightarrow> string \<Rightarrow> gotime \<Rightarrow> stateBindingOwner option \<Rightarrow> bool \<Rightarrow> stateBindingKey list \<Rightarrow>
   stateBindingStore \<Rightarrow> stateBindingStore \<times> stateBindingLookupResult" where
  "resolveKeys rid pin now owner haveUnknown [] s =
     (s, case owner of Some o' \<Rightarrow> if haveUnknown then unknownResult else knownResult o'
         | None \<Rightarrow> unknownResult)"
| "resolveKeys rid pin now owner haveUnknown (k # ks) s =
     (let (s1, result) = lookupKeyLocked k now s
      in case outcome result of
           stateBindingLookupConflict \<Rightarrow> (s1, conflictResult)
         | stateBindingLookupUnknown \<Rightarrow> resolveKeys rid pin now owner True ks s1
         | stateBindingLookupKnown \<Rightarrow>
             if (rid \<noteq> '''' \<and> routeID (resultOwner result) \<noteq> rid) \<or>
                (pin \<noteq> '''' \<and> targetID (resultOwner result) \<noteq> pin)
             then (s1, conflictResult)
             else (case owner of
                     None \<Rightarrow> resolveKeys rid pin now (Some (resultOwner result)) haveUnknown ks s1
                   | Some o' \<Rightarrow> if o' \<noteq> resultOwner result then (s1, conflictResult)
                               else resolveKeys rid pin now owner haveUnknown ks s1))"

definition resolveWithRoute ::
  "mac \<Rightarrow> gotime \<Rightarrow> stateBindingToken list \<Rightarrow> string \<Rightarrow> string \<Rightarrow> stateBindingStore \<Rightarrow>
   stateBindingStore \<times> stateBindingLookupResult" where
  "resolveWithRoute mac now tokens rid pin s =
     (if tokens = [] then (s, unknownResult)
      else if \<exists>t \<in> set tokens. stateType t = '''' \<or> tokValue t = '''' then (s, conflictResult)
      else resolveKeys rid pin now None False (map (bindingKey mac s) tokens) s)"

definition store_resolve ::
  "mac \<Rightarrow> gotime \<Rightarrow> stateBindingToken list \<Rightarrow> stateBindingStore \<Rightarrow>
   stateBindingStore \<times> stateBindingLookupResult" where
  "store_resolve mac now tokens s = resolveWithRoute mac now tokens '''' '''' s"

text \<open>
  \<open>ownerMatchesRoute\<close> belongs to the durable store's vocabulary; for the in-memory store it is
  equality of route identifiers, as defined in \<open>proxy/state_binding_durable.go\<close>.
\<close>

definition ownerMatchesRoute :: "stateBindingOwner \<Rightarrow> string \<Rightarrow> bool" where
  "ownerMatchesRoute o' rid \<longleftrightarrow> routeID o' = rid"

definition resolveForRoute ::
  "mac \<Rightarrow> gotime \<Rightarrow> string \<Rightarrow> string \<Rightarrow> stateBindingToken list \<Rightarrow> stateBindingStore \<Rightarrow>
   stateBindingStore \<times> stateBindingLookupResult" where
  "resolveForRoute mac now rid pin tokens s =
     (let (s1, result) = resolveWithRoute mac now tokens rid pin s
      in if outcome result \<noteq> stateBindingLookupKnown then (s1, result)
         else if rid = '''' \<or> \<not> ownerMatchesRoute (resultOwner result) rid then (s1, conflictResult)
         else (s1, result))"

definition store_stats :: "gotime \<Rightarrow> stateBindingStore \<Rightarrow> stateBindingStore \<times> stateBindingStoreStats" where
  "store_stats now s =
     (let s1 = pruneExpiredLocked now s
      in (s1, \<lparr>st_entries = length (entries s1),
               st_tombstones = length (filter (\<lambda>k. map_option recOutcome (gm_get (entries s1) k)
                                          = Some stateBindingLookupConflict) (recency s1)),
               st_evictions = evictions s1, st_expirations = expirations s1,
               st_collisions = collisions s1\<rparr>))"

subsection \<open>Atomic batches\<close>

fun firstOccurrences :: "'k list \<Rightarrow> 'k list \<Rightarrow> 'k list" where
  "firstOccurrences seen [] = []"
| "firstOccurrences seen (k # ks) =
     (if k \<in> set seen then firstOccurrences seen ks else k # firstOccurrences (k # seen) ks)"

text \<open>First loop of \<open>bindAllWithEvictionDelta\<close>: validate every key against the new owner.\<close>

fun markConflicts ::
  "gotime \<Rightarrow> stateBindingOwner \<Rightarrow> stateBindingKey list \<Rightarrow> stateBindingStore \<Rightarrow> bool \<Rightarrow>
   stateBindingStore \<times> bool" where
  "markConflicts now owner [] s conflicted = (s, conflicted)"
| "markConflicts now owner (k # ks) s conflicted =
     (case gm_get (entries s) k of
        None \<Rightarrow> markConflicts now owner ks s conflicted
      | Some r \<Rightarrow>
          let s1 = s\<lparr>recency := gl_move_front k (recency s)\<rparr>
          in if recOutcome r = stateBindingLookupConflict then markConflicts now owner ks s1 True
             else if recOwner r \<noteq> owner then
               markConflicts now owner ks
                 (s1\<lparr>entries := gm_put k \<lparr>recOwner = zeroOwner,
                         recOutcome = stateBindingLookupConflict, expiresAt = now + ttl s\<rparr> (entries s1),
                      collisions := collisions s1 + 1\<rparr>) True
             else markConflicts now owner ks s1 conflicted)"

text \<open>Second loop: refresh or insert every key.\<close>

fun bindKeys ::
  "gotime \<Rightarrow> stateBindingOwner \<Rightarrow> stateBindingKey list \<Rightarrow> stateBindingStore \<Rightarrow> stateBindingStore option" where
  "bindKeys now owner [] s = Some s"
| "bindKeys now owner (k # ks) s =
     (let r = \<lparr>recOwner = owner, recOutcome = stateBindingLookupKnown, expiresAt = now + ttl s\<rparr>
      in case gm_get (entries s) k of
           Some _ \<Rightarrow> bindKeys now owner ks
             (s\<lparr>entries := gm_put k r (entries s), recency := gl_move_front k (recency s)\<rparr>)
         | None \<Rightarrow> (case evictToCapacity s of
                      None \<Rightarrow> None
                    | Some s1 \<Rightarrow> bindKeys now owner ks (pushRecord k r s1)))"

definition bindAllWithEvictionDelta ::
  "mac \<Rightarrow> gotime \<Rightarrow> stateBindingToken list \<Rightarrow> stateBindingOwner \<Rightarrow> stateBindingStore \<Rightarrow>
   (stateBindingStore \<times> stateBindingLookupResult \<times> 64 word) option" where
  "bindAllWithEvictionDelta mac now tokens owner s =
     (if tokens = [] \<or> \<not> owner_valid owner \<or> length tokens > maxEntries s then Some (s, conflictResult, 0)
      else if \<exists>t \<in> set tokens. stateType t = '''' \<or> tokValue t = '''' then Some (s, conflictResult, 0)
      else
        let keys = firstOccurrences [] (map (bindingKey mac s) tokens);
            s1 = pruneExpiredLocked now s;
            (s2, conflicted) = markConflicts now owner keys s1 False
        in if conflicted then Some (s2, conflictResult, evictions s2 - evictions s)
           else map_option (\<lambda>s3. (s3, knownResult owner, evictions s3 - evictions s))
                  (bindKeys now owner keys s2))"

definition bindAll ::
  "mac \<Rightarrow> gotime \<Rightarrow> stateBindingToken list \<Rightarrow> stateBindingOwner \<Rightarrow> stateBindingStore \<Rightarrow>
   (stateBindingStore \<times> stateBindingLookupResult) option" where
  "bindAll mac now tokens owner s =
     map_option (\<lambda>(s', r, _). (s', r)) (bindAllWithEvictionDelta mac now tokens owner s)"

subsection \<open>Conversation bootstrap\<close>

definition resolveOrBindConversationForRoute ::
  "mac \<Rightarrow> gotime \<Rightarrow> string \<Rightarrow> stateBindingToken \<Rightarrow> stateBindingOwner \<Rightarrow> stateBindingStore \<Rightarrow>
   (stateBindingStore \<times> stateBindingLookupResult \<times> bool \<times> 64 word) option" where
  "resolveOrBindConversationForRoute mac now rid t bootstrapOwner s =
     (if stateType t \<noteq> stateBindingTypeConversationID \<or> tokValue t = ''''
      then Some (s, conflictResult, False, 0)
      else
        let k = bindingKey mac s t;
            (s1, result) = lookupKeyLocked k now s
        in case outcome result of
             stateBindingLookupKnown \<Rightarrow>
               if rid = '''' \<or> routeID (resultOwner result) \<noteq> rid
               then Some (s1, conflictResult, False, evictions s1 - evictions s)
               else Some (s1, result, False, evictions s1 - evictions s)
           | stateBindingLookupConflict \<Rightarrow> Some (s1, result, False, evictions s1 - evictions s)
           | stateBindingLookupUnknown \<Rightarrow>
               if \<not> owner_valid bootstrapOwner \<or> routeID bootstrapOwner \<noteq> rid
               then Some (s1, result, False, evictions s1 - evictions s)
               else map_option
                      (\<lambda>s2. (s2, knownResult bootstrapOwner, True, evictions s2 - evictions s))
                      (insertWithRoom now k bootstrapOwner s1))"

section \<open>Well-formed stores\<close>

definition record_ok :: "stateBindingRecord \<Rightarrow> bool" where
  "record_ok r \<longleftrightarrow>
     (recOutcome r = stateBindingLookupKnown \<and> owner_valid (recOwner r)) \<or>
     (recOutcome r = stateBindingLookupConflict \<and> recOwner r = zeroOwner)"

definition sb_wf :: "stateBindingStore \<Rightarrow> bool" where
  "sb_wf s \<longleftrightarrow> lru_ok (entries s) (recency s) \<and> 0 < maxEntries s \<and> 0 < ttl s \<and>
     length (entries s) \<le> maxEntries s \<and> list_all (record_ok \<circ> snd) (entries s)"

lemma record_ok_get:
  "list_all (record_ok \<circ> snd) m \<Longrightarrow> gm_get m k = Some r \<Longrightarrow> record_ok r"
  by (auto simp: list_all_iff dest!: map_of_SomeD)

lemma record_ok_put:
  "list_all (record_ok \<circ> snd) m \<Longrightarrow> record_ok r \<Longrightarrow> list_all (record_ok \<circ> snd) (gm_put k r m)"
  by (induction m) auto

lemma record_ok_del: "list_all (record_ok \<circ> snd) m \<Longrightarrow> list_all (record_ok \<circ> snd) (gm_del k m)"
  by (auto simp: list_all_iff AList.delete_eq)

lemma sb_wf_length: "sb_wf s \<Longrightarrow> length (recency s) = length (entries s)"
  by (simp add: sb_wf_def lru_ok_length)

lemma sb_wf_remove:
  assumes "sb_wf s" shows "sb_wf (removeLocked k reason s)"
proof (cases k)
  case None then show ?thesis using assms by simp
next
  case (Some a)
  have "length (gm_del a (entries s)) \<le> maxEntries s"
    using assms AList.length_delete_le[of a "entries s"] by (simp add: sb_wf_def)
  with assms Some show ?thesis
    by (cases reason) (auto simp: sb_wf_def Let_def intro: lru_intros record_ok_del)
qed

declare removeLocked.simps(2) [simp del]

lemmas removeLocked_Some = removeLocked.simps(2)

section \<open>What a client observes: the live bindings\<close>

definition live :: "gotime \<Rightarrow> stateBindingStore \<Rightarrow> stateBindingKey \<Rightarrow> stateBindingRecord option" where
  "live now s k = (case gm_get (entries s) k of None \<Rightarrow> None
     | Some r \<Rightarrow> if record_expired r now then None else Some r)"

definition live_result :: "stateBindingRecord option \<Rightarrow> stateBindingLookupResult" where
  "live_result v = (case v of None \<Rightarrow> unknownResult
     | Some r \<Rightarrow> if recOutcome r = stateBindingLookupConflict then conflictResult
               else knownResult (recOwner r))"

lemma live_Some: "live now s k = Some r \<longleftrightarrow> gm_get (entries s) k = Some r \<and> \<not> record_expired r now"
  by (auto simp: live_def split: option.splits)

lemma results_simps [simp]:
  "outcome unknownResult = stateBindingLookupUnknown"
  "outcome conflictResult = stateBindingLookupConflict"
  "outcome (knownResult o') = stateBindingLookupKnown"
  "resultOwner (knownResult o') = o'"
  "knownResult o' = knownResult o'' \<longleftrightarrow> o' = o''"
  "unknownResult \<noteq> knownResult o'" "knownResult o' \<noteq> unknownResult"
  "conflictResult \<noteq> knownResult o'" "knownResult o' \<noteq> conflictResult"
  "unknownResult \<noteq> conflictResult" "conflictResult \<noteq> unknownResult"
  by (auto simp: unknownResult_def conflictResult_def knownResult_def)

lemma expired_mono: "record_expired r now \<Longrightarrow> now \<le> now' \<Longrightarrow> record_expired r now'"
  by (simp add: record_expired_def)

text \<open>
  A \<open>quiet\<close> change drops only records that have expired: no client at the current time or
  later can tell the difference.
\<close>

definition quiet :: "gotime \<Rightarrow> stateBindingStore \<Rightarrow> stateBindingStore \<Rightarrow> bool" where
  "quiet now s s' \<longleftrightarrow> (sb_wf s \<longrightarrow> sb_wf s') \<and>
     maxEntries s' = maxEntries s \<and> ttl s' = ttl s \<and> digestKey s' = digestKey s \<and>
     evictions s' = evictions s \<and> collisions s' = collisions s \<and>
     fst ` set (entries s') \<subseteq> fst ` set (entries s) \<and>
     (\<forall>now' k. now \<le> now' \<longrightarrow> live now' s' k = live now' s k)"

lemma quiet_refl [simp]: "quiet now s s"
  by (simp add: quiet_def)

lemma quiet_trans: "quiet now s s1 \<Longrightarrow> quiet now s1 s2 \<Longrightarrow> quiet now s s2"
  unfolding quiet_def by (metis (no_types, lifting) subset_trans)

lemma quietD:
  assumes "quiet now s s'"
  shows "sb_wf s \<Longrightarrow> sb_wf s'" "maxEntries s' = maxEntries s" "ttl s' = ttl s"
    "digestKey s' = digestKey s" "evictions s' = evictions s"
    "fst ` set (entries s') \<subseteq> fst ` set (entries s)"
    "now \<le> now' \<Longrightarrow> live now' s' k = live now' s k"
  using assms by (simp_all add: quiet_def)

lemma quiet_remove_expired:
  assumes "gm_get (entries s) k = Some r" "record_expired r now"
  shows "quiet now s (removeLocked (Some k) stateBindingRemovalExpired s)"
proof -
  have "live now' (removeLocked (Some k) stateBindingRemovalExpired s) k' = live now' s k'"
    if "now \<le> now'" for now' k'
    using assms expired_mono[OF assms(2) that]
    by (cases "k' = k") (auto simp: live_def removeLocked_Some Let_def AList.delete_conv')
  moreover have "sb_wf s \<longrightarrow> sb_wf (removeLocked (Some k) stateBindingRemovalExpired s)"
    by (simp add: sb_wf_remove)
  ultimately show ?thesis
    unfolding quiet_def
    by (auto simp: removeLocked_Some Let_def fst_set_gm_del)
qed

lemma sb_wf_touch: "sb_wf s \<Longrightarrow> sb_wf (s\<lparr>recency := gl_move_front k (recency s)\<rparr>)"
  by (auto simp: sb_wf_def intro: lru_intros)

lemma quiet_touch: "quiet now s (s\<lparr>recency := gl_move_front k (recency s)\<rparr>)"
  by (simp add: quiet_def sb_wf_touch live_def)

lemma lookupKeyLocked_quiet: "quiet now s (fst (lookupKeyLocked k now s))"
  by (auto simp: lookupKeyLocked_def quiet_touch split: option.splits intro: quiet_remove_expired)

lemma lookupKeyLocked_result: "snd (lookupKeyLocked k now s) = live_result (live now s k)"
  by (auto simp: lookupKeyLocked_def live_def live_result_def split: option.splits)

lemma pruneStep_quiet: "quiet now s (pruneStep now k s)"
  by (auto simp: pruneStep_def split: option.splits intro: quiet_remove_expired)

lemma prune_fold_quiet: "quiet now s (fold (pruneStep now) ks s)"
  by (induction ks arbitrary: s) (auto intro: quiet_trans pruneStep_quiet)

lemma pruneExpiredLocked_quiet: "quiet now s (pruneExpiredLocked now s)"
  by (simp add: pruneExpiredLocked_def prune_fold_quiet)

lemma pruneStep_get:
  "gm_get (entries (pruneStep now k s)) k' = Some r \<Longrightarrow>
     gm_get (entries s) k' = Some r \<and> (k' = k \<longrightarrow> \<not> record_expired r now)"
  by (cases "k' = k")
    (auto simp: pruneStep_def removeLocked_Some Let_def AList.delete_conv' split: option.splits if_splits)

lemma prune_fold_get:
  "gm_get (entries (fold (pruneStep now) ks s)) k = Some r \<Longrightarrow>
     gm_get (entries s) k = Some r \<and> (k \<in> set ks \<longrightarrow> \<not> record_expired r now)"
proof (induction ks arbitrary: s)
  case (Cons a ks)
  then show ?case using pruneStep_get[of now a s k r] by auto
qed simp

lemma pruneExpiredLocked_live:
  assumes "sb_wf s" "gm_get (entries (pruneExpiredLocked now s)) k = Some r"
  shows "\<not> record_expired r now" "gm_get (entries s) k = Some r"
  using prune_fold_get[OF assms(2)[unfolded pruneExpiredLocked_def]] assms(1)
  by (auto simp: sb_wf_def lru_ok_mem)

lemma pruneStep_recency_subset: "set (recency (pruneStep now k s)) \<subseteq> set (recency s)"
  by (auto simp: pruneStep_def removeLocked_Some Let_def split: option.splits)

subsection \<open>Making room\<close>

lemma evictToCapacity_spec:
  assumes "sb_wf s"
  shows "\<exists>s'. evictToCapacity s = Some s' \<and> sb_wf s' \<and> length (entries s') < maxEntries s \<and>
     maxEntries s' = maxEntries s \<and> ttl s' = ttl s \<and> digestKey s' = digestKey s \<and>
     recency s' = take (maxEntries s - 1) (recency s) \<and>
     (\<forall>k. gm_get (entries s') k = (if k \<in> set (recency s') then gm_get (entries s) k else None)) \<and>
     evictions s' = evictions s + of_nat (length (entries s) - length (entries s')) \<and>
     collisions s' = collisions s"
proof (cases "length (entries s) < maxEntries s")
  case True
  have "evictToCapacity s = Some s"
    using True by (subst evictToCapacity.simps) simp
  moreover have "recency s = take (maxEntries s - 1) (recency s)"
    using True sb_wf_length[OF assms] by simp
  moreover have "gm_get (entries s) k = (if k \<in> set (recency s) then gm_get (entries s) k else None)" for k
    using assms lru_ok_mem[of "entries s" "recency s" k] by (auto simp: sb_wf_def)
  ultimately show ?thesis using assms True by auto
next
  case False
  then have len: "length (entries s) = maxEntries s" "0 < maxEntries s"
    using assms by (auto simp: sb_wf_def)
  then have ne: "recency s \<noteq> []" using sb_wf_length[OF assms] by auto
  let ?k = "last (recency s)"
  define s1 where "s1 = removeLocked (Some ?k) stateBindingRemovalCapacity s"
  have lru: "lru_ok (entries s) (recency s)" using assms by (simp add: sb_wf_def)
  have bk: "gl_back (recency s) = Some ?k" using ne by (simp add: gl_back_def)
  have rec1: "recency s1 = butlast (recency s)"
    using lru ne by (simp add: s1_def removeLocked_Some Let_def lru_ok_def gl_remove_last)
  have fields: "maxEntries s1 = maxEntries s" "ttl s1 = ttl s" "digestKey s1 = digestKey s"
    "evictions s1 = evictions s + 1" "collisions s1 = collisions s"
    "entries s1 = gm_del ?k (entries s)"
    by (simp_all add: s1_def removeLocked_Some Let_def)
  have wf1: "sb_wf s1" unfolding s1_def by (rule sb_wf_remove[OF assms])
  have len1: "length (entries s1) = maxEntries s - 1"
    using sb_wf_length[OF wf1] rec1 sb_wf_length[OF assms] len by simp
  have ev: "evictToCapacity s = Some s1"
  proof -
    have "evictToCapacity s = evictToCapacity s1"
      using False bk evictToCapacity.simps[of s] by (simp only: s1_def not_less if_True)
    also have "\<dots> = Some s1"
      using len1 len(2) fields(1) by (subst evictToCapacity.simps) (simp, arith)
    finally show ?thesis .
  qed
  have take1: "butlast (recency s) = take (maxEntries s - 1) (recency s)"
    using len sb_wf_length[OF assms] by (simp add: butlast_conv_take)
  have get1: "gm_get (entries s1) k = (if k \<in> set (recency s1) then gm_get (entries s) k else None)" for k
    using wf1 lru_ok_mem[of "entries s1" "recency s1" k] fields(6)
    by (auto simp: sb_wf_def AList.delete_conv')
  have d: "length (entries s) - length (entries s1) = 1" using len1 len by simp
  show ?thesis
    unfolding ev using wf1 len len1 fields rec1 take1 get1 d by (intro exI[of _ s1]) auto
qed

subsection \<open>Inserting a new binding\<close>

text \<open>
  \<open>others_kept now k s s'\<close>: every key but \<open>k\<close> keeps its live binding or has lost its entry.
\<close>

definition others_kept ::
  "gotime \<Rightarrow> stateBindingKey \<Rightarrow> stateBindingStore \<Rightarrow> stateBindingStore \<Rightarrow> bool" where
  "others_kept now k s s' \<longleftrightarrow>
     (\<forall>k' now'. k' \<noteq> k \<longrightarrow> now \<le> now' \<longrightarrow>
        live now' s' k' = live now' s k' \<or> gm_get (entries s') k' = None)"

lemma pushRecord_wf:
  assumes "sb_wf s" "length (entries s) < maxEntries s" "gm_get (entries s) k = None" "record_ok r"
  shows "sb_wf (pushRecord k r s)"
  using assms
  by (auto simp: sb_wf_def pushRecord_def length_gm_put intro: lru_intros record_ok_put)

lemma pushRecord_fields [simp]:
  "maxEntries (pushRecord k r s) = maxEntries s" "ttl (pushRecord k r s) = ttl s"
  "digestKey (pushRecord k r s) = digestKey s" "evictions (pushRecord k r s) = evictions s"
  "collisions (pushRecord k r s) = collisions s"
  "gm_get (entries (pushRecord k r s)) k' = (if k' = k then Some r else gm_get (entries s) k')"
  "recency (pushRecord k r s) = k # recency s"
  by (simp_all add: pushRecord_def AList.update_conv')

lemma quiet_get_None:
  assumes "quiet now s s'" "gm_get (entries s) k = None"
  shows "gm_get (entries s') k = None"
  using assms by (auto simp: quiet_def map_of_eq_None_iff)

definition freshRecord :: "gotime \<Rightarrow> stateBindingOwner \<Rightarrow> stateBindingStore \<Rightarrow> stateBindingRecord" where
  "freshRecord now owner s =
     \<lparr>recOwner = owner, recOutcome = stateBindingLookupKnown, expiresAt = now + ttl s\<rparr>"

lemma insertWithRoom_spec:
  assumes wf: "sb_wf s" and new: "gm_get (entries s) k = None" and ow: "owner_valid owner"
  shows "\<exists>s'. insertWithRoom now k owner s = Some s' \<and> sb_wf s' \<and>
     maxEntries s' = maxEntries s \<and> ttl s' = ttl s \<and> digestKey s' = digestKey s \<and>
     gm_get (entries s') k = Some (freshRecord now owner s) \<and> others_kept now k s s' \<and>
     collisions s' = collisions s \<and> length (entries s') \<le> Suc (length (entries s))"
proof -
  define s1 where "s1 = (if length (entries s) \<ge> maxEntries s then pruneExpiredLocked now s else s)"
  have q: "quiet now s s1" by (simp add: s1_def pruneExpiredLocked_quiet)
  have wf1: "sb_wf s1" by (rule quietD(1)[OF q wf])
  from evictToCapacity_spec[OF wf1] obtain s2 where
    ev: "evictToCapacity s1 = Some s2" and wf2: "sb_wf s2" and lt: "length (entries s2) < maxEntries s1"
    and f2: "maxEntries s2 = maxEntries s1" "ttl s2 = ttl s1" "digestKey s2 = digestKey s1"
      "collisions s2 = collisions s1"
    and get2: "\<And>k'. gm_get (entries s2) k' = (if k' \<in> set (recency s2) then gm_get (entries s1) k' else None)"
    and rec2: "recency s2 = take (maxEntries s1 - 1) (recency s1)"
    by blast
  have new2: "gm_get (entries s2) k = None" using get2[of k] quiet_get_None[OF q new] by simp
  let ?r = "freshRecord now owner s"
  define s3 where "s3 = pushRecord k ?r s2"
  have ins: "insertWithRoom now k owner s = Some s3"
    using ev f2 quietD(3)[OF q]
    by (simp add: insertWithRoom_def s1_def[symmetric] s3_def freshRecord_def)
  have wf3: "sb_wf s3"
    unfolding s3_def using wf2 lt f2 new2 ow
    by (intro pushRecord_wf) (simp_all add: record_ok_def freshRecord_def)
  have "live now' s3 k' = live now' s k' \<or> gm_get (entries s3) k' = None"
    if "k' \<noteq> k" "now \<le> now'" for k' now'
    using that get2[of k'] quietD(7)[OF q that(2), of k'] by (auto simp: s3_def live_def)
  then have kept: "others_kept now k s s3" by (simp add: others_kept_def)
  have len: "length (entries s3) \<le> Suc (length (entries s))"
  proof -
    have "length (entries s2) \<le> length (entries s1)"
      using rec2 sb_wf_length[OF wf1] sb_wf_length[OF wf2] by (metis length_take min.cobounded1)
    also have "length (entries s1) \<le> length (entries s)"
    proof -
      have "set (recency s1) \<subseteq> set (recency s)" "distinct (recency s1)"
        using wf wf1 quietD(6)[OF q] by (auto simp: sb_wf_def lru_ok_def)
      then have "length (recency s1) \<le> length (recency s)"
        by (metis List.finite_set card_length card_mono distinct_card le_trans)
      then show ?thesis by (simp add: sb_wf_length[OF wf] sb_wf_length[OF wf1])
    qed
    finally show ?thesis by (simp add: s3_def pushRecord_def length_gm_put)
  qed
  show ?thesis
    using ins wf3 kept len f2 quietD(2-4)[OF q] q by (auto simp: s3_def quiet_def)
qed

subsection \<open>The binding of a single token\<close>

lemma sb_wf_put:
  "sb_wf s \<Longrightarrow> gm_get (entries s) k \<noteq> None \<Longrightarrow> record_ok r \<Longrightarrow>
   sb_wf (s\<lparr>entries := gm_put k r (entries s)\<rparr>)"
  using map_of_eq_None_iff[of "entries s" k]
  by (auto simp: sb_wf_def length_gm_put intro: lru_intros record_ok_put)

lemma sb_wf_collisions [simp]: "sb_wf (s\<lparr>collisions := c\<rparr>) = sb_wf s"
  by (simp add: sb_wf_def)

lemma bind_returns:
  assumes "sb_wf s"
  shows "\<exists>s' r. store_bind mac now t owner s = Some (s', r) \<and> sb_wf s' \<and>
     maxEntries s' = maxEntries s \<and> ttl s' = ttl s \<and> digestKey s' = digestKey s"
proof (cases "stateType t = '''' \<or> tokValue t = '''' \<or> \<not> owner_valid owner")
  case True
  then show ?thesis using assms by (auto simp: store_bind_def)
next
  case False
  then have ow: "owner_valid owner" by simp
  let ?k = "bindingKey mac s t"
  show ?thesis
  proof (cases "gm_get (entries s) ?k")
    case None
    from insertWithRoom_spec[OF assms None ow, of now] False None show ?thesis
      by (auto simp: store_bind_def Let_def)
  next
    case (Some r)
    have rok: "record_ok r"
      using assms Some by (auto simp: sb_wf_def intro: record_ok_get)
    show ?thesis
    proof (cases "record_expired r now")
      case True
      let ?s1 = "removeLocked (Some ?k) stateBindingRemovalExpired s"
      have wf1: "sb_wf ?s1" by (rule sb_wf_remove[OF assms])
      have new1: "gm_get (entries ?s1) ?k = None"
        by (simp add: removeLocked_Some Let_def AList.delete_conv')
      have f1: "maxEntries ?s1 = maxEntries s" "ttl ?s1 = ttl s" "digestKey ?s1 = digestKey s"
        by (simp_all add: removeLocked_Some Let_def)
      from insertWithRoom_spec[OF wf1 new1 ow, of now] False Some True f1 show ?thesis
        by (auto simp: store_bind_def Let_def)
    next
      case live: False
      have touch: "sb_wf (s\<lparr>recency := gl_move_front ?k (recency s)\<rparr>)" by (rule sb_wf_touch[OF assms])
      have w: "sb_wf (s\<lparr>recency := gl_move_front ?k (recency s), entries := gm_put ?k r' (entries s)\<rparr>)"
        if "record_ok r'" for r'
        using sb_wf_put[OF touch, of ?k r'] Some that by simp
      have "record_ok (r\<lparr>expiresAt := now + ttl s\<rparr>)"
        using rok by (simp add: record_ok_def)
      moreover have "record_ok \<lparr>recOwner = zeroOwner, recOutcome = stateBindingLookupConflict,
           expiresAt = now + ttl s\<rparr>"
        by (simp add: record_ok_def)
      ultimately show ?thesis
        using False Some live touch w by (simp add: store_bind_def Let_def)
    qed
  qed
qed

lemma bind_known_live:
  assumes wf: "sb_wf s" and b: "store_bind mac now t owner s = Some (s', knownResult owner')"
  shows "owner' = owner \<and> owner_valid owner \<and>
    gm_get (entries s') (bindingKey mac s t) = Some (freshRecord now owner s)"
proof -
  let ?k = "bindingKey mac s t"
  have ok: "\<not> (stateType t = '''' \<or> tokValue t = '''' \<or> \<not> owner_valid owner)"
    using b by (auto simp: store_bind_def split: if_splits)
  then have ow: "owner_valid owner" by simp
  show ?thesis
  proof (cases "gm_get (entries s) ?k")
    case None
    from insertWithRoom_spec[OF wf None ow, of now] b ok None show ?thesis
      by (auto simp: store_bind_def Let_def)
  next
    case (Some r)
    show ?thesis
    proof (cases "record_expired r now")
      case True
      let ?s1 = "removeLocked (Some ?k) stateBindingRemovalExpired s"
      have new1: "gm_get (entries ?s1) ?k = None" "ttl ?s1 = ttl s"
        by (simp_all add: removeLocked_Some Let_def AList.delete_conv')
      from insertWithRoom_spec[OF sb_wf_remove[OF wf] new1(1) ow, of now] b ok Some True new1(2)
      show ?thesis by (auto simp: store_bind_def Let_def freshRecord_def)
    next
      case False
      have "record_ok r" using wf Some by (auto simp: sb_wf_def intro: record_ok_get)
      then show ?thesis
        using b ok Some False
        by (auto simp: store_bind_def Let_def freshRecord_def AList.update_conv' record_ok_def
            split: if_splits)
    qed
  qed
qed

lemma freshRecord_simps [simp]:
  "recOwner (freshRecord now owner s) = owner"
  "recOutcome (freshRecord now owner s) = stateBindingLookupKnown"
  "record_expired (freshRecord now owner s) now' \<longleftrightarrow> now + ttl s \<le> now'"
  by (auto simp: freshRecord_def record_expired_def)

lemma bind_tombstone:
  assumes "sb_wf s" and l: "live now s (bindingKey mac s t) = Some r"
    and c: "recOutcome r = stateBindingLookupConflict"
  shows "\<exists>s'. store_bind mac now t owner s = Some (s', conflictResult) \<and>
    entries s' = entries s"
  using l c by (auto simp: store_bind_def live_def Let_def split: option.splits if_splits)

section \<open>Resolving several tokens\<close>

text \<open>The same loop over what is live, without the bookkeeping of the store.\<close>

fun resolveViews ::
  "string \<Rightarrow> string \<Rightarrow> stateBindingOwner option \<Rightarrow> bool \<Rightarrow> stateBindingRecord option list \<Rightarrow>
   stateBindingLookupResult" where
  "resolveViews rid pin owner hu [] =
     (case owner of Some o' \<Rightarrow> if hu then unknownResult else knownResult o' | None \<Rightarrow> unknownResult)"
| "resolveViews rid pin owner hu (v # vs) =
     (let result = live_result v
      in case outcome result of
           stateBindingLookupConflict \<Rightarrow> conflictResult
         | stateBindingLookupUnknown \<Rightarrow> resolveViews rid pin owner True vs
         | stateBindingLookupKnown \<Rightarrow>
             if (rid \<noteq> '''' \<and> routeID (resultOwner result) \<noteq> rid) \<or>
                (pin \<noteq> '''' \<and> targetID (resultOwner result) \<noteq> pin) then conflictResult
             else (case owner of
                     None \<Rightarrow> resolveViews rid pin (Some (resultOwner result)) hu vs
                   | Some o' \<Rightarrow> if o' \<noteq> resultOwner result then conflictResult
                               else resolveViews rid pin owner hu vs))"

lemma resolveKeys_views:
  "quiet now s (fst (resolveKeys rid pin now owner hu ks s)) \<and>
   snd (resolveKeys rid pin now owner hu ks s) = resolveViews rid pin owner hu (map (live now s) ks)"
proof (induction ks arbitrary: owner hu s)
  case Nil
  then show ?case by simp
next
  case (Cons k ks)
  obtain s1 res where l: "lookupKeyLocked k now s = (s1, res)" by fastforce
  have q: "quiet now s s1" using lookupKeyLocked_quiet[of now s k] l by simp
  have res: "res = live_result (live now s k)" using lookupKeyLocked_result[of k now s] l by simp
  have m: "map (live now s1) ks = map (live now s) ks"
    by (simp add: quietD(7)[OF q])
  have q': "quiet now s (fst (resolveKeys rid pin now owner' hu' ks s1))" for owner' hu'
    using quiet_trans[OF q] Cons.IH by blast
  have r': "snd (resolveKeys rid pin now owner' hu' ks s1) =
      resolveViews rid pin owner' hu' (map (live now s) ks)" for owner' hu'
    using Cons.IH[where s = s1] m by simp
  show ?case
    by (cases "outcome res"; cases owner)
      (simp_all add: l res[symmetric] q q' r')
qed

definition owner_admitted :: "string \<Rightarrow> string \<Rightarrow> stateBindingOwner \<Rightarrow> bool" where
  "owner_admitted rid pin o' \<longleftrightarrow>
     (rid = '''' \<or> routeID o' = rid) \<and> (pin = '''' \<or> targetID o' = pin)"

lemma live_result_cases:
  obtains "live_result v = unknownResult" | "live_result v = conflictResult"
  | o' where "live_result v = knownResult o'"
proof (cases v)
  case None
  then show ?thesis using that(1) by (simp add: live_result_def)
next
  case (Some r)
  then show ?thesis using that(2,3)
    by (cases "recOutcome r = stateBindingLookupConflict") (simp_all add: live_result_def)
qed

lemma resolveViews_hu: "resolveViews rid pin owner True vs \<noteq> knownResult o'"
proof (induction vs arbitrary: owner)
  case (Cons v vs)
  then show ?case
    by (cases v rule: live_result_cases) (auto simp: Let_def split: option.splits)
qed (auto split: option.splits)

lemma resolveViews_Some:
  "resolveViews rid pin (Some o') False vs = knownResult o'' \<longleftrightarrow>
     o' = o'' \<and> (\<forall>v \<in> set vs. live_result v = knownResult o'' \<and> owner_admitted rid pin o'')"
proof (induction vs)
  case (Cons v vs)
  then show ?case
    by (cases v rule: live_result_cases)
      (auto simp: Let_def owner_admitted_def resolveViews_hu)
qed auto

lemma resolveViews_known:
  "resolveViews rid pin None False vs = knownResult o' \<longleftrightarrow>
     vs \<noteq> [] \<and> (\<forall>v \<in> set vs. live_result v = knownResult o') \<and> owner_admitted rid pin o'"
proof (cases vs)
  case (Cons v ws)
  then show ?thesis
    by (cases v rule: live_result_cases)
      (auto simp: Let_def owner_admitted_def resolveViews_hu resolveViews_Some)
qed auto

lemma resolveWithRoute_quiet: "quiet now s (fst (resolveWithRoute mac now tokens rid pin s))"
  by (auto simp: resolveWithRoute_def resolveKeys_views)

lemma resolveForRoute_quiet: "quiet now s (fst (resolveForRoute mac now rid pin tokens s))"
  using resolveWithRoute_quiet[of now s mac tokens rid pin]
  by (auto simp: resolveForRoute_def Let_def split: prod.splits)

definition token_ok :: "stateBindingToken \<Rightarrow> bool" where
  "token_ok t \<longleftrightarrow> stateType t \<noteq> '''' \<and> tokValue t \<noteq> ''''"

lemma resolveWithRoute_known:
  "snd (resolveWithRoute mac now tokens rid pin s) = knownResult o' \<longleftrightarrow>
     tokens \<noteq> [] \<and> list_all token_ok tokens \<and> owner_admitted rid pin o' \<and>
     list_all (\<lambda>t. live_result (live now s (bindingKey mac s t)) = knownResult o') tokens"
  by (auto simp: resolveWithRoute_def resolveKeys_views resolveViews_known token_ok_def list_all_iff)

lemma resolveForRoute_known:
  "snd (resolveForRoute mac now rid pin tokens s) = knownResult o' \<longleftrightarrow>
     rid \<noteq> '''' \<and> routeID o' = rid \<and> snd (resolveWithRoute mac now tokens rid pin s) = knownResult o'"
  by (auto simp: resolveForRoute_def Let_def ownerMatchesRoute_def split: prod.splits)

section \<open>Batches\<close>

lemma firstOccurrences_props:
  "set (firstOccurrences seen ks) = set ks - set seen \<and> distinct (firstOccurrences seen ks) \<and>
   length (firstOccurrences seen ks) \<le> length ks"
proof (induction ks arbitrary: seen)
  case (Cons k ks)
  from Cons[of seen] Cons[of "k # seen"] show ?case by auto
qed simp

lemma markConflicts_step_wf:
  assumes "sb_wf s" "gm_get (entries s) k = Some r"
  shows "sb_wf (s\<lparr>recency := gl_move_front k (recency s),
     entries := gm_put k \<lparr>recOwner = zeroOwner, recOutcome = stateBindingLookupConflict,
       expiresAt = now + ttl s\<rparr> (entries s), collisions := c\<rparr>)"
  using sb_wf_put[OF sb_wf_touch[OF assms(1), of k], of k "\<lparr>recOwner = zeroOwner,
      recOutcome = stateBindingLookupConflict, expiresAt = now + ttl s\<rparr>"] assms(2)
  by (simp add: record_ok_def sb_wf_def)

lemma markConflicts_frame:
  assumes "sb_wf s" "markConflicts now owner ks s c = (s', c')"
  shows "sb_wf s' \<and> maxEntries s' = maxEntries s \<and> ttl s' = ttl s \<and> digestKey s' = digestKey s \<and>
    evictions s' = evictions s \<and> fst ` set (entries s') = fst ` set (entries s) \<and>
    (\<forall>k. k \<notin> set ks \<longrightarrow> gm_get (entries s') k = gm_get (entries s) k)"
  using assms
proof (induction ks arbitrary: s c)
  case (Cons k ks)
  show ?case
  proof (cases "gm_get (entries s) k")
    case None
    with Cons show ?thesis by auto
  next
    case (Some r)
    let ?s1 = "s\<lparr>recency := gl_move_front k (recency s)\<rparr>"
    have wf1: "sb_wf ?s1" by (rule sb_wf_touch[OF Cons.prems(1)])
    let ?s2 = "?s1\<lparr>entries := gm_put k \<lparr>recOwner = zeroOwner, recOutcome = stateBindingLookupConflict,
         expiresAt = now + ttl s\<rparr> (entries ?s1), collisions := collisions ?s1 + 1\<rparr>"
    have wf2: "sb_wf ?s2"
      using markConflicts_step_wf[OF Cons.prems(1) Some, where c = "collisions s + 1" and now = now] by simp
    have dom2: "fst ` set (entries ?s2) = fst ` set (entries s)"
      using Some map_of_eq_None_iff[of "entries s" k] by (auto simp: AList.dom_update)
    consider "recOutcome r = stateBindingLookupConflict"
      | "recOutcome r \<noteq> stateBindingLookupConflict" "recOwner r \<noteq> owner"
      | "recOutcome r \<noteq> stateBindingLookupConflict" "recOwner r = owner" by blast
    then show ?thesis
    proof cases
      case 1
      then show ?thesis using Cons.IH[OF wf1, of True] Cons.prems(2) Some by simp
    next
      case 2
      then show ?thesis
        using Cons.IH[OF wf2, of True] Cons.prems(2) Some dom2
        by (auto simp: Let_def AList.update_conv')
    next
      case 3
      then show ?thesis using Cons.IH[OF wf1, of c] Cons.prems(2) Some by simp
    qed
  qed
qed simp

lemma markConflicts_True: "snd (markConflicts now owner ks s True)"
  by (induction ks arbitrary: s) (auto simp: Let_def split: option.splits)

lemma markConflicts_clean:
  assumes "markConflicts now owner ks s c = (s', False)"
  shows "entries s' = entries s \<and> c = False \<and>
    recency s' = fold gl_move_front (filter (\<lambda>k. gm_get (entries s) k \<noteq> None) ks) (recency s) \<and>
    (\<forall>k \<in> set ks. \<forall>r. gm_get (entries s) k = Some r \<longrightarrow>
       recOutcome r \<noteq> stateBindingLookupConflict \<and> recOwner r = owner)"
  using assms
proof (induction ks arbitrary: s c)
  case (Cons k ks)
  show ?case
  proof (cases "gm_get (entries s) k")
    case None
    with Cons show ?thesis by auto
  next
    case (Some r)
    let ?s1 = "s\<lparr>recency := gl_move_front k (recency s)\<rparr>"
    from Cons.prems Some markConflicts_True[of now owner ks]
    have "recOutcome r \<noteq> stateBindingLookupConflict" "recOwner r = owner"
      and "markConflicts now owner ks ?s1 c = (s', False)"
      by (auto simp: Let_def split: if_splits) (metis snd_conv)+
    with Cons.IH[of ?s1 c] Some show ?thesis by auto
  qed
qed simp

lemma markConflicts_keeps_tombstone:
  assumes "markConflicts now owner ks s c = (s', c')" "gm_get (entries s) k = Some r"
    "recOutcome r = stateBindingLookupConflict"
  shows "gm_get (entries s') k = Some r"
  using assms
proof (induction ks arbitrary: s c)
  case (Cons a ks)
  show ?case
  proof (cases "gm_get (entries s) a")
    case None
    with Cons show ?thesis by auto
  next
    case (Some ra)
    with Cons.prems Cons.IH show ?thesis
      by (cases "a = k") (auto simp: Let_def AList.update_conv' split: if_splits)
  qed
qed simp

text \<open>
  During a batch the recency list splits into keys of the batch, in front, and the others: the
  batch never evicts its own keys, because it is not larger than the capacity.
\<close>

lemma fold_move_front_split:
  assumes "distinct (b @ r)" "set b \<subseteq> set ks'" "set ks \<subseteq> set (b @ r)"
  shows "\<exists>b' r'. fold gl_move_front ks (b @ r) = b' @ r' \<and> set b' = set b \<union> set ks \<and>
     set r' = set r - set ks \<and> distinct (b' @ r')"
  using assms
proof (induction ks arbitrary: b r ks')
  case Nil
  then show ?case by auto
next
  case (Cons k ks)
  let ?b = "k # gl_remove k b" and ?r = "gl_remove k r"
  have "gl_move_front k (b @ r) = ?b @ ?r"
    using Cons.prems by (auto simp: gl_move_front_def)
  moreover have "distinct (?b @ ?r)" "set ks \<subseteq> set (?b @ ?r)"
    using Cons.prems by (auto simp: gl_remove_def)
  ultimately obtain b' r' where "fold gl_move_front (k # ks) (b @ r) = b' @ r'"
    "set b' = set ?b \<union> set ks" "set r' = set ?r - set ks" "distinct (b' @ r')"
    using Cons.IH[of ?b ?r "k # b"] by auto
  then show ?case by (intro exI[of _ b'] exI[of _ r']) auto
qed

lemma bindKeys_spec:
  assumes "sb_wf s" "recency s = b @ r" "set b \<subseteq> K" "set r \<inter> K = {}" "set ks \<subseteq> K" "distinct ks"
    "finite K" "card K \<le> maxEntries s" "owner_valid owner"
  shows "\<exists>s' b' n. bindKeys now owner ks s = Some s' \<and> sb_wf s' \<and> maxEntries s' = maxEntries s \<and>
     ttl s' = ttl s \<and> digestKey s' = digestKey s \<and> recency s' = b' @ take n r \<and>
     set b' = set b \<union> set ks \<and>
     (\<forall>k \<in> set b'. gm_get (entries s') k =
        (if k \<in> set ks then Some (freshRecord now owner s) else gm_get (entries s) k)) \<and>
     (\<forall>k. k \<notin> K \<longrightarrow> gm_get (entries s') k = gm_get (entries s) k \<or> gm_get (entries s') k = None) \<and>
     evictions s' = evictions s + of_nat (length r - length (take n r))"
  using assms
proof (induction ks arbitrary: s b r)
  case Nil
  then show ?case by (intro exI[of _ s] exI[of _ b] exI[of _ "length r"]) auto
next
  case (Cons k ks)
  let ?r = "freshRecord now owner s"
  have rok: "record_ok ?r" using Cons.prems(9) by (simp add: record_ok_def)
  have lru: "lru_ok (entries s) (recency s)" using Cons.prems(1) by (simp add: sb_wf_def)
  show ?case
  proof (cases "gm_get (entries s) k")
    case (Some r0)
    let ?s1 = "s\<lparr>entries := gm_put k ?r (entries s), recency := gl_move_front k (recency s)\<rparr>"
    have kin: "k \<in> set b" "k \<notin> set r"
      using lru_ok_mem[OF lru, of k] Some Cons.prems(2,4,5) by auto
    have wf1: "sb_wf ?s1"
      using sb_wf_touch[OF sb_wf_put[OF Cons.prems(1) _ rok], of k k] Some by simp
    have rec1: "recency ?s1 = (k # gl_remove k b) @ r"
      using kin Cons.prems(2) by (simp add: gl_move_front_def)
    have f1: "freshRecord now owner ?s1 = ?r" by (simp add: freshRecord_def)
    from Cons.IH[OF wf1 rec1] Cons.prems kin obtain s' b' n where
      S: "bindKeys now owner ks ?s1 = Some s'" "sb_wf s'" "maxEntries s' = maxEntries s"
      "ttl s' = ttl s" "digestKey s' = digestKey s" "recency s' = b' @ take n r"
      "set b' = set (k # gl_remove k b) \<union> set ks"
      "\<forall>k' \<in> set b'. gm_get (entries s') k' =
        (if k' \<in> set ks then Some ?r else gm_get (entries ?s1) k')"
      "\<forall>k'. k' \<notin> K \<longrightarrow> gm_get (entries s') k' = gm_get (entries ?s1) k' \<or> gm_get (entries s') k' = None"
      "evictions s' = evictions s + of_nat (length r - length (take n r))"
      unfolding f1 by auto
    have "bindKeys now owner (k # ks) s = Some s'"
      using S(1) Some by (simp add: freshRecord_def Let_def)
    moreover have sb: "set b' = set b \<union> set (k # ks)" using S(7) kin by auto
    moreover have "gm_get (entries s') k' =
        (if k' \<in> set (k # ks) then Some ?r else gm_get (entries s) k')" if "k' \<in> set b'" for k'
      using S(8) that by (auto simp: AList.update_conv')
    moreover have "gm_get (entries s') k' = gm_get (entries s) k' \<or> gm_get (entries s') k' = None"
      if "k' \<notin> K" for k'
    proof -
      have "k' \<noteq> k" using that Cons.prems(5) by auto
      with S(9) that show ?thesis by (auto simp: AList.update_conv')
    qed
    ultimately show ?thesis
      using S(2-6,10) by (intro exI[of _ s'] exI[of _ b'] exI[of _ n]) blast
  next
    case None
    from evictToCapacity_spec[OF Cons.prems(1)] obtain s1 where
      E: "evictToCapacity s = Some s1" "sb_wf s1" "length (entries s1) < maxEntries s"
      "maxEntries s1 = maxEntries s" "ttl s1 = ttl s" "digestKey s1 = digestKey s"
      "recency s1 = take (maxEntries s - 1) (recency s)"
      "\<And>k. gm_get (entries s1) k = (if k \<in> set (recency s1) then gm_get (entries s) k else None)"
      "evictions s1 = evictions s + of_nat (length (entries s) - length (entries s1))"
      by blast
    have knb: "k \<notin> set b" using lru_ok_mem[OF lru, of k] None Cons.prems(2) by auto
    have db: "distinct b" using lru Cons.prems(2) by (auto simp: lru_ok_def)
    have "length b \<le> card (K - {k})"
      using Cons.prems(3,7) knb distinct_card[OF db] card_mono[of "K - {k}" "set b"] by auto
    also have "\<dots> \<le> maxEntries s - 1" using Cons.prems(5,7,8) by simp
    finally have lb: "length b \<le> maxEntries s - 1" .
    define m where "m = maxEntries s - 1 - length b"
    have rec1: "recency s1 = b @ take m r"
      using E(7) Cons.prems(2) lb by (simp add: m_def)
    let ?s2 = "pushRecord k ?r s1"
    have new1: "gm_get (entries s1) k = None" using E(8)[of k] None by simp
    have wf2: "sb_wf ?s2" using pushRecord_wf[OF E(2) _ new1 rok] E(3,4) by simp
    have rec2: "recency ?s2 = (k # b) @ take m r" using rec1 by simp
    have f2: "freshRecord now owner ?s2 = ?r" using E(5) by (simp add: freshRecord_def)
    have disj: "set (take m r) \<inter> K = {}" using Cons.prems(4) set_take_subset[of m r] by auto
    have cK: "card K \<le> maxEntries ?s2" "set (k # b) \<subseteq> K"
      using Cons.prems(3,5,8) E(4) by auto
    from Cons.IH[OF wf2 rec2 cK(2) disj _ _ Cons.prems(7) cK(1) Cons.prems(9)] Cons.prems(5,6) E(4-6)
    obtain s' b' n where
      S: "bindKeys now owner ks ?s2 = Some s'" "sb_wf s'" "maxEntries s' = maxEntries s"
      "ttl s' = ttl s" "digestKey s' = digestKey s" "recency s' = b' @ take n (take m r)"
      "set b' = set (k # b) \<union> set ks"
      "\<forall>k' \<in> set b'. gm_get (entries s') k' =
        (if k' \<in> set ks then Some ?r else gm_get (entries ?s2) k')"
      "\<forall>k'. k' \<notin> K \<longrightarrow> gm_get (entries s') k' = gm_get (entries ?s2) k' \<or> gm_get (entries s') k' = None"
      "evictions s' = evictions s1 + of_nat (length (take m r) - length (take n (take m r)))"
      unfolding f2 by auto
    have b1: "bindKeys now owner (k # ks) s = Some s'"
      using S(1) None E(1,5) by (simp add: freshRecord_def Let_def)
    have d1: "length (entries s) - length (entries s1) = length r - length (take m r)"
      using sb_wf_length[OF Cons.prems(1)] sb_wf_length[OF E(2)] rec1 Cons.prems(2) by simp
    have ev: "evictions s' = evictions s + of_nat (length r - length (take (min n m) r))"
    proof -
      have "evictions s' = evictions s +
          of_nat ((length r - length (take m r)) + (length (take m r) - length (take (min n m) r)))"
        using S(10) E(9) d1 by (simp add: add.assoc)
      moreover have "(length r - length (take m r)) + (length (take m r) - length (take (min n m) r))
          = length r - length (take (min n m) r)" by simp
      ultimately show ?thesis by (simp del: length_take)
    qed
    have getb: "gm_get (entries s') k' =
        (if k' \<in> set (k # ks) then Some ?r else gm_get (entries s) k')" if "k' \<in> set b'" for k'
      using S(7,8) that E(8)[of k'] rec1 by auto
    have geto: "gm_get (entries s') k' = gm_get (entries s) k' \<or> gm_get (entries s') k' = None"
      if "k' \<notin> K" for k'
      using S(9) that Cons.prems(5) E(8)[of k'] by (auto split: if_splits)
    show ?thesis
      using b1 S(2-7) getb geto ev by (intro exI[of _ s'] exI[of _ b'] exI[of _ "min n m"]) auto
  qed
qed

definition batchKeys :: "mac \<Rightarrow> stateBindingStore \<Rightarrow> stateBindingToken list \<Rightarrow> stateBindingKey list" where
  "batchKeys mac s tokens = firstOccurrences [] (map (bindingKey mac s) tokens)"

lemma batchKeys_props:
  "set (batchKeys mac s tokens) = bindingKey mac s ` set tokens" "distinct (batchKeys mac s tokens)"
  "card (bindingKey mac s ` set tokens) \<le> length tokens"
  using firstOccurrences_props[of "[]" "map (bindingKey mac s) tokens"]
  by (simp_all add: batchKeys_def)
    (metis card_length list.set_map length_map)

lemma prune_facts:
  assumes "sb_wf s"
  shows "sb_wf (pruneExpiredLocked now s)" "maxEntries (pruneExpiredLocked now s) = maxEntries s"
    "ttl (pruneExpiredLocked now s) = ttl s" "digestKey (pruneExpiredLocked now s) = digestKey s"
    "evictions (pruneExpiredLocked now s) = evictions s"
    "fst ` set (entries (pruneExpiredLocked now s)) \<subseteq> fst ` set (entries s)"
  using quietD[OF pruneExpiredLocked_quiet[of now s]] assms by auto

lemma bindAll_unfold:
  assumes "tokens \<noteq> []" "owner_valid owner" "length tokens \<le> maxEntries s" "list_all token_ok tokens"
  shows "bindAllWithEvictionDelta mac now tokens owner s =
       (let (s2, conflicted) = markConflicts now owner (batchKeys mac s tokens) (pruneExpiredLocked now s) False
        in if conflicted then Some (s2, conflictResult, evictions s2 - evictions s)
           else map_option (\<lambda>s3. (s3, knownResult owner, evictions s3 - evictions s))
                  (bindKeys now owner (batchKeys mac s tokens) s2))"
proof -
  have "\<not> (\<exists>t \<in> set tokens. stateType t = '''' \<or> tokValue t = '''')"
    using assms(4) by (auto simp: token_ok_def list_all_iff)
  then show ?thesis
    unfolding bindAllWithEvictionDelta_def batchKeys_def Let_def using assms by simp
qed

definition batch_admissible ::
  "stateBindingToken list \<Rightarrow> stateBindingOwner \<Rightarrow> stateBindingStore \<Rightarrow> bool" where
  "batch_admissible tokens owner s \<longleftrightarrow> tokens \<noteq> [] \<and> owner_valid owner \<and>
     length tokens \<le> maxEntries s \<and> list_all token_ok tokens"

lemma bindAll_inadmissible:
  "\<not> batch_admissible tokens owner s \<Longrightarrow>
   bindAllWithEvictionDelta mac now tokens owner s = Some (s, conflictResult, 0)"
  by (auto simp: batch_admissible_def bindAllWithEvictionDelta_def token_ok_def list_all_iff)

lemma bindAll_clean:
  assumes wf: "sb_wf s" and adm: "batch_admissible tokens owner s"
    and clean: "markConflicts now owner (batchKeys mac s tokens)
      (pruneExpiredLocked now s) False = (s2, False)"
  defines "ks \<equiv> bindingKey mac s ` set tokens" and "s1 \<equiv> pruneExpiredLocked now s"
  shows "\<exists>s' n. bindAllWithEvictionDelta mac now tokens owner s = Some (s', knownResult owner, of_nat n) \<and>
     sb_wf s' \<and> maxEntries s' = maxEntries s \<and> ttl s' = ttl s \<and> digestKey s' = digestKey s \<and>
     (\<forall>k \<in> ks. gm_get (entries s') k = Some (freshRecord now owner s)) \<and>
     (\<forall>k. k \<notin> ks \<longrightarrow> gm_get (entries s') k = gm_get (entries s1) k \<or> gm_get (entries s') k = None) \<and>
     n = card (set (recency s1) - set (recency s'))"
proof -
  let ?ks = "batchKeys mac s tokens"
  have A: "tokens \<noteq> []" "owner_valid owner" "length tokens \<le> maxEntries s" "list_all token_ok tokens"
    using adm by (auto simp: batch_admissible_def)
  have core: "sb_wf s1" "set ?ks = ks" "distinct ?ks" "card ks \<le> maxEntries s" "maxEntries s1 = maxEntries s"
    "ttl s1 = ttl s" "digestKey s1 = digestKey s" "evictions s1 = evictions s"
    using prune_facts[OF wf, of now] batchKeys_props[of mac s tokens] A(3) by (auto simp: s1_def ks_def)
  note unf = bindAll_unfold[OF A, of mac now, folded s1_def]
  have lru1: "lru_ok (entries s1) (recency s1)" using core(1) by (simp add: sb_wf_def)
  have mc: "markConflicts now owner ?ks s1 False = (s2, False)" using clean by (simp add: s1_def)
  note fr = markConflicts_frame[OF core(1) mc] and cl = markConflicts_clean[OF mc]
  let ?fs = "filter (\<lambda>k. gm_get (entries s1) k \<noteq> None) ?ks"
  have "set ?fs \<subseteq> set ([] @ recency s1)"
    using lru_ok_mem[OF lru1] by auto
  moreover have "distinct ([] @ recency s1)" using lru1 by (simp add: lru_ok_def)
  ultimately obtain b r where br: "recency s2 = b @ r" "set b = set ?fs"
    "set r = set (recency s1) - set ?fs" "distinct (b @ r)"
    using fold_move_front_split[of "[]" "recency s1" "[]" ?fs] cl by auto
  have rK: "set r \<inter> ks = {}"
    using br(3) lru_ok_mem[OF lru1] core(2) by (auto simp: ks_def)
  have bK: "set b \<subseteq> ks" using br(2) core(2) by (auto simp: ks_def)
  have K: "set ?ks \<subseteq> ks" "finite ks" "card ks \<le> maxEntries s2"
    using core(2,4,5) fr by (auto simp: ks_def)
  from bindKeys_spec[OF conjunct1[OF fr] br(1) bK rK K(1) core(3) K(2,3) A(2), of now]
  obtain s' b' n where
    S: "bindKeys now owner ?ks s2 = Some s'" "sb_wf s'" "maxEntries s' = maxEntries s2" "ttl s' = ttl s2"
      "digestKey s' = digestKey s2" "recency s' = b' @ take n r" "set b' = set b \<union> set ?ks"
      "\<And>k. k \<in> set b' \<Longrightarrow> gm_get (entries s') k =
         (if k \<in> set ?ks then Some (freshRecord now owner s2) else gm_get (entries s2) k)"
      "\<And>k. k \<notin> ks \<Longrightarrow> gm_get (entries s') k = gm_get (entries s2) k \<or> gm_get (entries s') k = None"
      "evictions s' = evictions s2 + of_nat (length r - length (take n r))"
    by blast
  have e2: "entries s2 = entries s1" "ttl s2 = ttl s" "evictions s2 = evictions s" using cl fr core by auto
  have fresh: "freshRecord now owner s2 = freshRecord now owner s" using e2 by (simp add: freshRecord_def)
  have lost: "set (recency s1) - set (recency s') = set (drop n r)"
  proof -
    have "set (recency s1) = set b \<union> set r" using br(2,3) lru_ok_mem[OF lru1] by auto
    moreover have "set b \<subseteq> set b'" "set b' \<inter> set r = {}"
      using S(7) br(4) rK core(2) by (auto simp: ks_def)
    moreover have "set r = set (take n r) \<union> set (drop n r)" by (metis append_take_drop_id set_append)
    moreover have "set (take n r) \<inter> set (drop n r) = {}"
      using br(4) by (simp add: set_take_disj_set_drop_if_distinct)
    ultimately show ?thesis using S(6) by auto
  qed
  have cnt: "card (set (drop n r)) = length r - length (take n r)"
    using br(4) by (simp add: distinct_card)
  have run: "bindAllWithEvictionDelta mac now tokens owner s =
      Some (s', knownResult owner, of_nat (card (set (recency s1) - set (recency s'))))"
    using unf mc S(1,10) e2(3) by (simp add: lost cnt)
  have get: "gm_get (entries s') k = Some (freshRecord now owner s)" if "k \<in> ks" for k
    using S(7) S(8)[of k] that core(2) fresh by (auto simp: ks_def)
  have oth: "gm_get (entries s') k = gm_get (entries s1) k \<or> gm_get (entries s') k = None" if "k \<notin> ks" for k
    using S(9)[OF that] e2(1) by simp
  show ?thesis
    using run S(2-5) fr core(5-7) get oth by (intro exI[of _ s'] exI) auto
qed

lemma bindAll_conflict:
  assumes wf: "sb_wf s" and adm: "batch_admissible tokens owner s"
    and mc: "markConflicts now owner (batchKeys mac s tokens)
      (pruneExpiredLocked now s) False = (s2, True)"
  shows "bindAllWithEvictionDelta mac now tokens owner s = Some (s2, conflictResult, 0) \<and> sb_wf s2 \<and>
     maxEntries s2 = maxEntries s \<and> ttl s2 = ttl s \<and> digestKey s2 = digestKey s \<and>
     fst ` set (entries s2) \<subseteq> fst ` set (entries s)"
proof -
  have A: "tokens \<noteq> []" "owner_valid owner" "length tokens \<le> maxEntries s" "list_all token_ok tokens"
    using adm by (auto simp: batch_admissible_def)
  note fr = markConflicts_frame[OF prune_facts(1)[OF wf] mc]
  then show ?thesis using bindAll_unfold[OF A, of mac now] prune_facts[OF wf, of now] mc by simp
qed

lemma bindAll_returns:
  assumes "sb_wf s"
  shows "\<exists>s' r d. bindAllWithEvictionDelta mac now tokens owner s = Some (s', r, d) \<and> sb_wf s' \<and>
     maxEntries s' = maxEntries s \<and> ttl s' = ttl s \<and> digestKey s' = digestKey s"
proof (cases "batch_admissible tokens owner s")
  case True
  obtain s2 c where mc: "markConflicts now owner (batchKeys mac s tokens)
      (pruneExpiredLocked now s) False = (s2, c)" by fastforce
  show ?thesis
  proof (cases c)
    case True
    with mc bindAll_conflict[OF assms \<open>batch_admissible _ _ _\<close>, of now mac s2] show ?thesis by simp
  next
    case False
    with mc bindAll_clean[OF assms \<open>batch_admissible _ _ _\<close>, of now mac s2] show ?thesis by auto
  qed
next
  case False
  then show ?thesis using assms by (simp add: bindAll_inadmissible)
qed

lemma lookup_unknown_absent:
  assumes "lookupKeyLocked k now s = (s1, res)" "outcome res = stateBindingLookupUnknown"
  shows "gm_get (entries s1) k = None"
proof -
  have "live now s k = None"
    using assms lookupKeyLocked_result[of k now s]
    by (auto simp: live_result_def split: option.splits if_splits)
  with assms(1) show ?thesis
    by (auto simp: lookupKeyLocked_def live_def removeLocked_Some Let_def AList.delete_conv'
        split: option.splits if_splits)
qed

lemma prune_recency_live:
  assumes "sb_wf s"
  shows "k \<in> set (recency (pruneExpiredLocked now s)) \<longleftrightarrow> live now s k \<noteq> None"
proof -
  let ?s1 = "pruneExpiredLocked now s"
  have "k \<in> set (recency ?s1) \<longleftrightarrow> gm_get (entries ?s1) k \<noteq> None"
    using prune_facts(1)[OF assms, of now] lru_ok_mem by (fastforce simp: sb_wf_def)
  also have "\<dots> \<longleftrightarrow> live now ?s1 k \<noteq> None"
    using pruneExpiredLocked_live(1)[OF assms, of now k] by (auto simp: live_def split: option.splits)
  also have "\<dots> \<longleftrightarrow> live now s k \<noteq> None"
    using quietD(7)[OF pruneExpiredLocked_quiet[of now s], of now k] by simp
  finally show ?thesis .
qed

lemma conversation_returns:
  assumes "sb_wf s"
  shows "\<exists>s' r b d. resolveOrBindConversationForRoute mac now rid t owner s = Some (s', r, b, d) \<and>
     sb_wf s' \<and> maxEntries s' = maxEntries s \<and> ttl s' = ttl s \<and> digestKey s' = digestKey s"
proof -
  let ?k = "bindingKey mac s t"
  obtain s1 res where l: "lookupKeyLocked ?k now s = (s1, res)" by fastforce
  have q: "quiet now s s1" using lookupKeyLocked_quiet[of now s ?k] l by simp
  have res: "res = live_result (live now s ?k)" using lookupKeyLocked_result[of ?k now s] l by simp
  have None1: "outcome res = stateBindingLookupUnknown \<Longrightarrow> gm_get (entries s1) ?k = None"
    by (rule lookup_unknown_absent[OF l])
  show ?thesis
    using l quietD[OF q] assms None1 insertWithRoom_spec[OF quietD(1)[OF q assms], of ?k owner now]
    by (cases "outcome res") (auto simp: resolveOrBindConversationForRoute_def Let_def)
qed

section \<open>The store as a machine\<close>

text \<open>One rule per method; the time, the tokens and the owners are the callers' choice.\<close>

inductive sb_step :: "mac \<Rightarrow> stateBindingStore \<Rightarrow> stateBindingStore \<Rightarrow> bool" for mac where
  step_bind: "store_bind mac now t owner s = Some (s', r) \<Longrightarrow> sb_step mac s s'"
| step_lookup: "store_lookup mac now t s = (s', r) \<Longrightarrow> sb_step mac s s'"
| step_resolve: "store_resolve mac now tokens s = (s', r) \<Longrightarrow> sb_step mac s s'"
| step_resolveForRoute: "resolveForRoute mac now rid pin tokens s = (s', r) \<Longrightarrow> sb_step mac s s'"
| step_bindAll: "bindAllWithEvictionDelta mac now tokens owner s = Some (s', r, d) \<Longrightarrow> sb_step mac s s'"
| step_conversation:
    "resolveOrBindConversationForRoute mac now rid t owner s = Some (s', r, b, d) \<Longrightarrow> sb_step mac s s'"
| step_stats: "store_stats now s = (s', st) \<Longrightarrow> sb_step mac s s'"

definition sb_init :: "stateBindingStore \<Rightarrow> bool" where
  "sb_init s \<longleftrightarrow> (\<exists>m t k rnd. newStateBindingStore m t k rnd = Inr s)"

lemma newStore_Inr:
  assumes "newStateBindingStore m t k rnd = Inr s"
  shows "maxEntries s = nat (if m = 0 then defaultStateBindingMaxEntries else m) \<and> 0 \<le> m \<and>
    ttl s = (if t = 0 then defaultStateBindingTTL else t) \<and> 0 \<le> t \<and>
    entries s = [] \<and> recency s = []"
proof (cases "m < 0 \<or> t < 0")
  case True
  with assms show ?thesis
    unfolding newStateBindingStore_def
    by (auto simp: Let_def defaultStateBindingMaxEntries_def defaultStateBindingTTL_def split: if_splits)
next
  case False
  then show ?thesis
    using assms unfolding newStateBindingStore_def Let_def
    by (cases "length k = 0"; cases rnd; cases "length k = stateBindingDigestKeySize")
      (auto simp: defaultStateBindingMaxEntries_def defaultStateBindingTTL_def)
qed

lemma sb_init_wf: "sb_init s \<Longrightarrow> sb_wf s"
  unfolding sb_init_def
  by (elim exE) (drule newStore_Inr, auto simp: sb_wf_def lru_ok_Nil
      defaultStateBindingMaxEntries_def defaultStateBindingTTL_def)

lemma store_lookup_quiet: "quiet now s (fst (store_lookup mac now t s))"
  by (simp add: store_lookup_def lookupKeyLocked_quiet)

lemma store_stats_quiet: "quiet now s (fst (store_stats now s))"
  by (simp add: store_stats_def Let_def pruneExpiredLocked_quiet)

lemma sb_step_wf: "sb_step mac s s' \<Longrightarrow> sb_wf s \<Longrightarrow> sb_wf s'"
proof (induction rule: sb_step.induct)
  case (step_bind now t owner s s' r)
  then show ?case using bind_returns[of s mac now t owner] by auto
next
  case (step_lookup now t s s' r)
  then show ?case using quietD(1)[OF store_lookup_quiet[of now s mac t]] by simp
next
  case (step_resolve now tokens s s' r)
  then show ?case
    using quietD(1)[OF resolveWithRoute_quiet[of now s mac tokens "''''" "''''"]]
    by (simp add: store_resolve_def)
next
  case (step_resolveForRoute now rid pin tokens s s' r)
  then show ?case using quietD(1)[OF resolveForRoute_quiet[of now s mac rid pin tokens]] by simp
next
  case (step_bindAll now tokens owner s s' r d)
  then show ?case using bindAll_returns[of s mac now tokens owner] by auto
next
  case (step_conversation now rid t owner s s' r b d)
  then show ?case using conversation_returns[of s mac now rid t owner] by auto
next
  case (step_stats now s s' st)
  then show ?case using quietD(1)[OF store_stats_quiet[of now s]] by simp
qed

interpretation sbm: machine_invariant sb_init "sb_step mac" sb_wf for mac
  by unfold_locales (auto intro: sb_init_wf sb_step_wf)

section \<open>Properties of the store\<close>

text \<open>C31. Every store reachable from construction by any sequence of operations is well formed
  (map and recency list agree, at most \<open>maxEntries\<close> entries, every entry is a valid owner or
  an ownerless tombstone), and in it every binding operation returns.\<close>

theorem store_always_wf:
  assumes "sb_init s0" "(sb_step mac)\<^sup>*\<^sup>* s0 s"
  shows "sb_wf s \<and> length (entries s) \<le> maxEntries s \<and>
    store_bind mac now t owner s \<noteq> None \<and>
    bindAllWithEvictionDelta mac now tokens owner s \<noteq> None \<and>
    resolveOrBindConversationForRoute mac now rid t owner s \<noteq> None"
proof -
  have "sb_wf s" using assms by (rule sbm.reachable_inv)
  then show ?thesis
    using bind_returns[of s mac now t owner] bindAll_returns[of s mac now tokens owner]
      conversation_returns[of s mac now rid t owner]
    by (auto simp: sb_wf_def)
qed

text \<open>A store with room for two bindings, a trivial digest and two owners, for the examples.\<close>

definition exStore :: stateBindingStore where
  "exStore = \<lparr>maxEntries = 2, ttl = 10, digestKey = replicate 32 (CHR 0x01), entries = [],
     recency = [], evictions = 0, expirations = 0, collisions = 0\<rparr>"

definition exMac :: mac where
  "exMac k v = v"

definition exTok :: "string \<Rightarrow> stateBindingToken" where
  "exTok v = \<lparr>stateType = stateBindingTypeResponseID, tokValue = v\<rparr>"

definition exOwner :: "string \<Rightarrow> stateBindingOwner" where
  "exOwner v = memoryOwner ''r'' v"

lemmas ex_defs = exStore_def exMac_def exTok_def exOwner_def memoryOwner_def zeroOwner_def
  stateBindingTypeResponseID_def stateBindingTypeConversationID_def

lemma exStore_init: "sb_init exStore"
  unfolding sb_init_def
  by (rule exI[of _ 2], rule exI[of _ 10], rule exI[of _ "replicate 32 (CHR 0x01)"], rule exI[of _ None])
    (simp add: newStateBindingStore_def stateBindingDigestKeySize_def exStore_def)

lemma exStore_wf: "sb_wf exStore"
  by (rule sb_init_wf[OF exStore_init])

lemma store_always_wf_witness:
  "sb_wf (fst (store_lookup exMac 0 (exTok ''a'') exStore))"
proof -
  have "sb_step exMac exStore (fst (store_lookup exMac 0 (exTok ''a'') exStore))"
    by (rule step_lookup[where r = "snd (store_lookup exMac 0 (exTok ''a'') exStore)"]) simp
  from store_always_wf[OF exStore_init r_into_rtranclp[of "sb_step exMac", OF this]]
  show ?thesis by simp
qed

lemma bind_others:
  assumes wf: "sb_wf s" and b: "store_bind mac now t owner s = Some (s', r)"
  shows "others_kept now (bindingKey mac s t) s s'"
proof -
  let ?k = "bindingKey mac s t"
  have refl: "others_kept now ?k s s" by (simp add: others_kept_def)
  show ?thesis
  proof (cases "stateType t = '''' \<or> tokValue t = '''' \<or> \<not> owner_valid owner")
    case True
    then show ?thesis using b refl by (auto simp: store_bind_def)
  next
    case False
    then have ow: "owner_valid owner" by simp
    show ?thesis
    proof (cases "gm_get (entries s) ?k")
      case None
      from insertWithRoom_spec[OF wf None ow, of now] b False None show ?thesis
        by (auto simp: store_bind_def Let_def)
    next
      case (Some e)
      show ?thesis
      proof (cases "record_expired e now")
        case True
        let ?s1 = "removeLocked (Some ?k) stateBindingRemovalExpired s"
        have new1: "gm_get (entries ?s1) ?k = None"
          and old1: "\<And>k' now'. k' \<noteq> ?k \<Longrightarrow> live now' ?s1 k' = live now' s k'"
          by (simp_all add: removeLocked_Some Let_def AList.delete_conv' live_def)
        from insertWithRoom_spec[OF sb_wf_remove[OF wf] new1 ow, of now] b False Some True old1
        show ?thesis by (auto simp: store_bind_def Let_def others_kept_def)
      next
        case live: False
        then show ?thesis
          using b False Some
          by (auto simp: store_bind_def Let_def others_kept_def live_def AList.update_conv'
              split: if_splits)
      qed
    qed
  qed
qed

text \<open>A bind that answers Known has bound the token to exactly the given owner: until
  the lifetime ends every lookup answers that owner, from then on it answers Unknown, and no
  other live binding changed except by losing its entry.\<close>

theorem bind_then_lookup:
  assumes "sb_wf s" "store_bind mac now t owner s = Some (s', knownResult owner')" "now \<le> now'"
  shows "owner' = owner \<and>
    snd (store_lookup mac now' t s') =
      (if now' < now + ttl s then knownResult owner else unknownResult) \<and>
    (\<forall>t'. bindingKey mac s t' \<noteq> bindingKey mac s t \<longrightarrow>
       snd (store_lookup mac now' t' s') \<in> {snd (store_lookup mac now' t' s), unknownResult})"
proof -
  from bind_known_live[OF assms(1,2)] have g: "owner' = owner"
    "gm_get (entries s') (bindingKey mac s t) = Some (freshRecord now owner s)" by auto
  from assms(2) have ok: "stateType t \<noteq> ''''" "tokValue t \<noteq> ''''"
    by (auto simp: store_bind_def split: if_splits)
  have k: "bindingKey mac s' t' = bindingKey mac s t'" for t'
    using bind_returns[OF assms(1), of mac now t owner] assms(2) by (auto simp: bindingKey_def)
  have "snd (store_lookup mac now' t' s') \<in> {snd (store_lookup mac now' t' s), unknownResult}"
    if "bindingKey mac s t' \<noteq> bindingKey mac s t" for t'
  proof -
    let ?k = "bindingKey mac s t'"
    have "live now' s' ?k = live now' s ?k \<or> gm_get (entries s') ?k = None"
      by (rule bind_others[OF assms(1,2), unfolded others_kept_def, rule_format, OF that assms(3)])
    then show ?thesis
    proof (elim disjE)
      assume "live now' s' ?k = live now' s ?k"
      then show ?thesis by (simp add: store_lookup_def lookupKeyLocked_result k)
    next
      assume "gm_get (entries s') ?k = None"
      then have "live now' s' ?k = None" by (simp add: live_def)
      then show ?thesis by (simp add: store_lookup_def lookupKeyLocked_result k live_result_def)
    qed
  qed
  moreover have "snd (store_lookup mac now' t s') =
      (if now' < now + ttl s then knownResult owner else unknownResult)"
    using g ok k by (simp add: store_lookup_def lookupKeyLocked_result live_def live_result_def)
  ultimately show ?thesis using g(1) by blast
qed

lemma evictToCapacity_room: "length (entries s) < maxEntries s \<Longrightarrow> evictToCapacity s = Some s"
  by (subst evictToCapacity.simps) simp

definition exBound :: stateBindingStore where
  "exBound = pushRecord (bindingKey exMac exStore (exTok ''a''))
     \<lparr>recOwner = exOwner ''t1'', recOutcome = stateBindingLookupKnown, expiresAt = 10\<rparr> exStore"

lemma exBind_eval:
  "store_bind exMac 0 (exTok ''a'') (exOwner ''t1'') exStore = Some (exBound, knownResult (exOwner ''t1''))"
proof -
  have "owner_valid (exOwner ''t1'')" by (simp add: owner_valid_def exOwner_def memoryOwner_def)
  moreover have "stateType (exTok ''a'') \<noteq> ''''" "tokValue (exTok ''a'') \<noteq> ''''"
    by (simp_all add: exTok_def stateBindingTypeResponseID_def)
  moreover have "entries exStore = []" "maxEntries exStore = 2" "ttl exStore = 10"
    by (simp_all add: exStore_def)
  ultimately show ?thesis
    by (simp add: store_bind_def Let_def insertWithRoom_def evictToCapacity_room exBound_def)
qed

lemma bind_then_lookup_witness:
  "snd (store_lookup exMac 9 (exTok ''a'')
     (fst (the (store_bind exMac 0 (exTok ''a'') (exOwner ''t1'') exStore)))) = knownResult (exOwner ''t1'')"
proof -
  have b: "store_bind exMac 0 (exTok ''a'') (exOwner ''t1'') exStore =
     Some (fst (the (store_bind exMac 0 (exTok ''a'') (exOwner ''t1'') exStore)), knownResult (exOwner ''t1''))"
    by (simp add: exBind_eval)
  show ?thesis using bind_then_lookup[OF exStore_wf b, of 9] by (simp add: exStore_def)
qed

text \<open>A token bound to two different owners is withdrawn: the second bind leaves an ownerless
  tombstone.\<close>

lemma bindAll_tombstone:
  assumes wf: "sb_wf s" and adm: "batch_admissible tokens owner s"
    and l: "live now s (bindingKey mac s t) = Some r" "recOutcome r = stateBindingLookupConflict"
    and t: "t \<in> set tokens"
  shows "\<exists>s'. bindAllWithEvictionDelta mac now tokens owner s = Some (s', conflictResult, 0) \<and>
     (\<exists>r'. gm_get (entries s') (bindingKey mac s t) = Some r' \<and>
        recOutcome r' = stateBindingLookupConflict \<and> \<not> record_expired r' now)"
proof -
  let ?k = "bindingKey mac s t" and ?s1 = "pruneExpiredLocked now s"
  let ?ks = "batchKeys mac s tokens"
  obtain s2 c where mc: "markConflicts now owner ?ks ?s1 False = (s2, c)" by fastforce
  have kin: "?k \<in> set ?ks" using t batchKeys_props(1)[of mac s tokens] by simp
  have g1: "gm_get (entries ?s1) ?k = Some r"
    using l(1) quietD(7)[OF pruneExpiredLocked_quiet[of now s], of now ?k]
    by (auto simp: live_def split: option.splits if_splits)
  have nexp: "\<not> record_expired r now" using l(1) by (auto simp: live_def split: option.splits if_splits)
  have c: "c"
  proof (rule ccontr)
    assume "\<not> c"
    with mc markConflicts_clean[of now owner ?ks ?s1 False s2] kin g1 l(2) show False by auto
  qed
  have "gm_get (entries s2) ?k = Some r"
    using markConflicts_keeps_tombstone[OF mc g1 l(2)] .
  with bindAll_conflict[OF wf adm, of now mac s2] mc c l(2) nexp show ?thesis by auto
qed

text \<open>Rebinding a live token to another owner withdraws it: the answer is a conflict, and
  every lookup until the new lifetime ends answers the ownerless conflict.\<close>

theorem rebinding_withdraws:
  assumes "sb_wf s" "live now s (bindingKey mac s t) = Some r"
    "recOutcome r = stateBindingLookupKnown" "recOwner r \<noteq> owner"
    "token_ok t" "owner_valid owner" "now \<le> now'"
  shows "\<exists>s'. store_bind mac now t owner s = Some (s', conflictResult) \<and>
    snd (store_lookup mac now' t s') = (if now' < now + ttl s then conflictResult else unknownResult)"
proof -
  let ?k = "bindingKey mac s t"
  let ?r = "\<lparr>recOwner = zeroOwner, recOutcome = stateBindingLookupConflict, expiresAt = now + ttl s\<rparr>"
  let ?s = "s\<lparr>recency := gl_move_front ?k (recency s), entries := gm_put ?k ?r (entries s),
       collisions := collisions s + 1\<rparr>"
  have b: "store_bind mac now t owner s = Some (?s, conflictResult)"
    using assms(2-6) by (simp add: store_bind_def Let_def live_Some token_ok_def)
  have "snd (store_lookup mac now' t ?s) = (if now' < now + ttl s then conflictResult else unknownResult)"
    using assms(5)
    by (simp add: store_lookup_def token_ok_def lookupKeyLocked_result live_def live_result_def
        bindingKey_def record_expired_def AList.update_conv')
  with b show ?thesis by blast
qed

lemma exBound_facts:
  "sb_wf exBound" "ttl exBound = 10" "bindingKey exMac exBound t = bindingKey exMac exStore t"
  "live 9 exBound (bindingKey exMac exStore (exTok ''a'')) =
     Some \<lparr>recOwner = exOwner ''t1'', recOutcome = stateBindingLookupKnown, expiresAt = 10\<rparr>"
  unfolding exBound_def
  by (rule pushRecord_wf[OF exStore_wf])
    (simp_all add: exStore_def record_ok_def owner_valid_def exOwner_def memoryOwner_def
      bindingKey_def live_def record_expired_def)

lemma exTok_ok [simp]: "token_ok (exTok ''a'')"
  by (simp add: token_ok_def exTok_def stateBindingTypeResponseID_def)

lemma exOwner_facts [simp]: "owner_valid (exOwner t) \<longleftrightarrow> t \<noteq> []" "exOwner a = exOwner b \<longleftrightarrow> a = b"
  by (simp_all add: owner_valid_def exOwner_def memoryOwner_def zeroOwner_def)

lemma rebinding_withdraws_witness:
  "\<exists>s'. store_bind exMac 9 (exTok ''a'') (exOwner ''t2'') exBound = Some (s', conflictResult) \<and>
     snd (store_lookup exMac 18 (exTok ''a'') s') = conflictResult"
  using rebinding_withdraws[OF exBound_facts(1) exBound_facts(4)[folded exBound_facts(3)], of "exOwner ''t2''" 18]
  by (simp add: exBound_facts(2))

text \<open>C2. A live conflict tombstone answers conflict to every operation: no bind, batch or
  bootstrap at that time can make the token owned again, and no resolve that includes the
  token answers an owner.\<close>

theorem tombstone_sticks:
  assumes "sb_wf s" "live now s (bindingKey mac s t) = Some r" "recOutcome r = stateBindingLookupConflict"
    "t \<in> set tokens"
  shows "(\<exists>s'. store_bind mac now t owner s = Some (s', conflictResult) \<and> entries s' = entries s) \<and>
    (\<exists>s'. bindAll mac now tokens owner s = Some (s', conflictResult)) \<and>
    (\<exists>s' b d. resolveOrBindConversationForRoute mac now rid t owner s = Some (s', conflictResult, b, d)) \<and>
    snd (resolveForRoute mac now rid pin tokens s) \<noteq> knownResult o'"
proof (intro conjI)
  show "\<exists>s'. store_bind mac now t owner s = Some (s', conflictResult) \<and> entries s' = entries s"
    by (rule bind_tombstone[OF assms(1-3)])
  show "\<exists>s'. bindAll mac now tokens owner s = Some (s', conflictResult)"
  proof (cases "batch_admissible tokens owner s")
    case True
    from bindAll_tombstone[OF assms(1) True assms(2-4)] show ?thesis by (auto simp: bindAll_def)
  next
    case False
    then show ?thesis by (simp add: bindAll_def bindAll_inadmissible)
  qed
  have res: "snd (lookupKeyLocked (bindingKey mac s t) now s) = conflictResult"
    using assms(2,3) by (simp add: lookupKeyLocked_result live_result_def)
  then show "\<exists>s' b d. resolveOrBindConversationForRoute mac now rid t owner s = Some (s', conflictResult, b, d)"
    by (cases "lookupKeyLocked (bindingKey mac s t) now s")
      (auto simp: resolveOrBindConversationForRoute_def Let_def)
  have "live_result (live now s (bindingKey mac s t)) = conflictResult"
    using assms(2,3) by (simp add: live_result_def)
  then show "snd (resolveForRoute mac now rid pin tokens s) \<noteq> knownResult o'"
    using assms(4) by (auto simp: resolveForRoute_known resolveWithRoute_known list_all_iff)
qed

definition exTomb :: stateBindingStore where
  "exTomb = pushRecord (bindingKey exMac exStore (exTok ''a''))
     \<lparr>recOwner = zeroOwner, recOutcome = stateBindingLookupConflict, expiresAt = 10\<rparr> exStore"

lemma exTomb_facts:
  "sb_wf exTomb"
  "live 9 exTomb (bindingKey exMac exTomb (exTok ''a'')) =
     Some \<lparr>recOwner = zeroOwner, recOutcome = stateBindingLookupConflict, expiresAt = 10\<rparr>"
  unfolding exTomb_def
  by (rule pushRecord_wf[OF exStore_wf])
    (simp_all add: exStore_def record_ok_def bindingKey_def live_def record_expired_def)

lemma tombstone_sticks_witness:
  "snd (resolveForRoute exMac 9 ''r'' ''t1'' [exTok ''b'', exTok ''a''] exTomb) \<noteq> knownResult (exOwner ''t1'')"
  using tombstone_sticks[OF exTomb_facts, of "[exTok ''b'', exTok ''a'']"] by simp

text \<open>Resolution fails closed: it answers an owner exactly when the route is named, there is
  at least one token, every token is well formed and owned by that same owner, and the owner
  belongs to the route and, if a target is pinned, to that target.\<close>

theorem resolve_fail_closed:
  "snd (resolveForRoute mac now rid pin tokens s) = knownResult o' \<longleftrightarrow>
    rid \<noteq> '''' \<and> routeID o' = rid \<and> (pin = '''' \<or> targetID o' = pin) \<and> tokens \<noteq> [] \<and>
    list_all (\<lambda>t. token_ok t \<and> snd (store_lookup mac now t s) = knownResult o') tokens"
  by (auto simp: resolveForRoute_known resolveWithRoute_known owner_admitted_def list_all_iff
      store_lookup_def lookupKeyLocked_result token_ok_def)

text \<open>A batch is atomic: either it answers the owner and every token of the batch is owned
  for the whole lifetime, or it answers a conflict and no token that had no entry before has one
  afterwards. The reported eviction delta is the number of live bindings that were dropped.\<close>

theorem bindAll_atomic:
  assumes "sb_wf s" "bindAllWithEvictionDelta mac now tokens owner s = Some (s', r, d)"
  shows "(r = knownResult owner \<and>
      (\<forall>t \<in> set tokens. \<forall>now'. now' < now + ttl s \<longrightarrow> snd (store_lookup mac now' t s') = knownResult owner) \<and>
      (\<exists>n. d = of_nat n \<and> n = card {k. live now s k \<noteq> None \<and> gm_get (entries s') k = None})) \<or>
    (r = conflictResult \<and> d = 0 \<and> fst ` set (entries s') \<subseteq> fst ` set (entries s))"
proof (cases "batch_admissible tokens owner s")
  case adm: True
  let ?s1 = "pruneExpiredLocked now s"
  obtain s2 c where mc: "markConflicts now owner (batchKeys mac s tokens) ?s1 False = (s2, c)"
    by fastforce
  show ?thesis
  proof (cases c)
    case True
    then show ?thesis using bindAll_conflict[OF assms(1) adm, of now mac s2] mc assms(2) by simp
  next
    case False
    with bindAll_clean[OF assms(1) adm, of now mac s2] mc assms(2) have c:
      "r = knownResult owner" "sb_wf s'" "digestKey s' = digestKey s"
      "\<And>k. k \<in> bindingKey mac s ` set tokens \<Longrightarrow> gm_get (entries s') k = Some (freshRecord now owner s)"
      "d = of_nat (card (set (recency ?s1) - set (recency s')))" by auto
    have ok: "stateType t \<noteq> ''''" "tokValue t \<noteq> ''''" if "t \<in> set tokens" for t
      using adm that by (auto simp: batch_admissible_def list_all_iff token_ok_def)
    have "snd (store_lookup mac now' t s') = knownResult owner"
      if "t \<in> set tokens" "now' < now + ttl s" for t now'
      using c(3) c(4)[of "bindingKey mac s t"] ok[OF that(1)] that
      by (simp add: store_lookup_def lookupKeyLocked_result live_def live_result_def bindingKey_def)
    moreover have "set (recency ?s1) - set (recency s') =
        {k. live now s k \<noteq> None \<and> gm_get (entries s') k = None}"
      using prune_recency_live[OF assms(1), where now = now] c(2) lru_ok_mem[of "entries s'" "recency s'"]
      by (auto simp: sb_wf_def)
    ultimately show ?thesis using c(1,5) by auto
  qed
next
  case False
  then show ?thesis using assms(2) by (simp add: bindAll_inadmissible)
qed

lemma markConflicts_empty: "entries s = [] \<Longrightarrow> markConflicts now owner ks s False = (s, False)"
  by (induction ks) auto

lemma exBatch_adm: "batch_admissible [exTok ''a'', exTok ''b''] (exOwner ''t1'') exStore"
  by (simp add: batch_admissible_def exStore_def token_ok_def exTok_def stateBindingTypeResponseID_def)

lemma bindAll_atomic_witness:
  "\<exists>s' d. bindAllWithEvictionDelta exMac 0 [exTok ''a'', exTok ''b''] (exOwner ''t1'') exStore =
       Some (s', knownResult (exOwner ''t1''), d) \<and>
     snd (store_lookup exMac 9 (exTok ''b'') s') = knownResult (exOwner ''t1'')"
proof -
  have "pruneExpiredLocked 0 exStore = exStore" by (simp add: pruneExpiredLocked_def exStore_def)
  then have "markConflicts 0 (exOwner ''t1'') (batchKeys exMac exStore [exTok ''a'', exTok ''b''])
      (pruneExpiredLocked 0 exStore) False = (exStore, False)"
    by (simp add: markConflicts_empty exStore_def)
  from bindAll_clean[OF exStore_wf exBatch_adm this] obtain s' d where
    b: "bindAllWithEvictionDelta exMac 0 [exTok ''a'', exTok ''b''] (exOwner ''t1'') exStore =
       Some (s', knownResult (exOwner ''t1''), d)" by blast
  from bindAll_atomic[OF exStore_wf b] b show ?thesis by (auto simp: exStore_def)
qed

text \<open>The conversation bootstrap is first-writer-wins: once one caller has bootstrapped an
  owner, every competing caller on the route is answered that owner and binds nothing, until
  the binding expires.\<close>

theorem bootstrap_first_wins:
  assumes "sb_wf s"
    "resolveOrBindConversationForRoute mac now rid t owner1 s = Some (s', r, True, d)"
    "now \<le> now'" "now' < now + ttl s"
  shows "r = knownResult owner1 \<and> routeID owner1 = rid \<and>
    (\<exists>s'' d'. resolveOrBindConversationForRoute mac now' rid t owner2 s' =
       Some (s'', knownResult owner1, False, d') \<and> entries s'' = entries s')"
proof -
  let ?k = "bindingKey mac s t"
  obtain s1 res where l: "lookupKeyLocked ?k now s = (s1, res)" by fastforce
  from assms(2) l have a: "outcome res = stateBindingLookupUnknown" "owner_valid owner1"
    "routeID owner1 = rid" "insertWithRoom now ?k owner1 s1 = Some s'" "r = knownResult owner1"
    "stateType t = stateBindingTypeConversationID" "tokValue t \<noteq> ''''"
    by (auto simp: resolveOrBindConversationForRoute_def Let_def
        split: if_splits stateBindingLookupOutcome.splits)
  have q: "quiet now s s1" using lookupKeyLocked_quiet[of now s ?k] l by simp
  have new: "gm_get (entries s1) ?k = None" by (rule lookup_unknown_absent[OF l a(1)])
  from insertWithRoom_spec[OF quietD(1)[OF q assms(1)] new a(2), of now] a(4) quietD(3,4)[OF q]
  have g: "gm_get (entries s') ?k = Some (freshRecord now owner1 s)" "digestKey s' = digestKey s"
    by (auto simp: freshRecord_def)
  have k: "bindingKey mac s' t = ?k" using g(2) by (simp add: bindingKey_def)
  have nx: "\<not> record_expired (freshRecord now owner1 s) now'" using assms(4) by simp
  have "lookupKeyLocked ?k now' s' = (s'\<lparr>recency := gl_move_front ?k (recency s')\<rparr>, knownResult owner1)"
    using g(1) nx by (simp add: lookupKeyLocked_def)
  moreover have "rid \<noteq> ''''" using a(2,3) by (auto simp: owner_valid_def)
  ultimately have "resolveOrBindConversationForRoute mac now' rid t owner2 s' =
      Some (s'\<lparr>recency := gl_move_front ?k (recency s')\<rparr>, knownResult owner1, False, 0)"
    using a(3,6,7) k by (simp add: resolveOrBindConversationForRoute_def Let_def)
  then show ?thesis
    using a(3,5) by (intro conjI exI[of _ "s'\<lparr>recency := gl_move_front ?k (recency s')\<rparr>"] exI[of _ 0]) simp_all
qed

definition exConv :: stateBindingToken where
  "exConv = \<lparr>stateType = stateBindingTypeConversationID, tokValue = ''c''\<rparr>"

lemma bootstrap_first_wins_witness:
  "\<exists>s' d s'' d'. resolveOrBindConversationForRoute exMac 0 ''r'' exConv (exOwner ''t1'') exStore
       = Some (s', knownResult (exOwner ''t1''), True, d) \<and>
     resolveOrBindConversationForRoute exMac 5 ''r'' exConv (exOwner ''t2'') s'
       = Some (s'', knownResult (exOwner ''t1''), False, d')"
proof -
  have e: "entries exStore = []" "maxEntries exStore = 2" "ttl exStore = 10" "evictions exStore = 0"
    by (simp_all add: exStore_def)
  have "stateType exConv = stateBindingTypeConversationID" "tokValue exConv \<noteq> []"
    "routeID (exOwner ''t1'') = ''r''"
    by (simp_all add: exConv_def exOwner_def memoryOwner_def)
  then have "\<exists>s' d. resolveOrBindConversationForRoute exMac 0 ''r'' exConv (exOwner ''t1'') exStore
       = Some (s', knownResult (exOwner ''t1''), True, d)"
    by (simp add: resolveOrBindConversationForRoute_def Let_def lookupKeyLocked_def e
        insertWithRoom_def evictToCapacity_room)
  then obtain s' d where b: "resolveOrBindConversationForRoute exMac 0 ''r'' exConv (exOwner ''t1'') exStore
       = Some (s', knownResult (exOwner ''t1''), True, d)" by blast
  from bootstrap_first_wins[OF exStore_wf b, of 5 "exOwner ''t2''"] b e(3) show ?thesis by auto
qed

end
