(* ===== verification/Durable_Binding.thy ===== *)
theory Durable_Binding
  imports State_Binding "HOL-Library.Char_ord"
begin

text \<open>
  The durable variant of the provider-state store (\<open>proxy/state_binding_durable.go\<close>): the same
  questions as \<open>State_Binding\<close>, answered from fixed-size authenticated records in a bbolt file.

  bbolt is used through its documented contract: a bucket is a map from keys to values with a
  sequence number, and a transaction that returns an error leaves no trace. The record
  \<open>boltEnv\<close> says which begins, hooks and commits of one call succeed; writes into an open
  transaction succeed, since keys and values are small and not empty. HMAC-SHA256 is the
  argument \<open>mac\<close> (of key and message); \<open>now\<close> gives the time read when the record of a key is
  written. The mutex makes every method one step.
\<close>

section \<open>Data\<close>

datatype durableStateError =
    errDurableStateConfig | errDurableStatePath | errDurableStatePlatform | errDurableStateLocked
  | errDurableStateCorrupt | errDurableStateIO | errDurableStateCapacity | errDurableStateClosed
  | errDurableStateIdentity

record durableLookupResult = stateBindingLookupResult +
  resultErr :: "durableStateError option"

definition durableFailure :: "durableStateError \<Rightarrow> durableLookupResult" where
  "durableFailure e = \<lparr>outcome = stateBindingLookupUnknown, resultOwner = zeroOwner, resultErr = Some e\<rparr>"
definition durableUnknown :: durableLookupResult where
  "durableUnknown = \<lparr>outcome = stateBindingLookupUnknown, resultOwner = zeroOwner, resultErr = None\<rparr>"
definition durableConflict :: durableLookupResult where
  "durableConflict = \<lparr>outcome = stateBindingLookupConflict, resultOwner = zeroOwner, resultErr = None\<rparr>"
definition durableKnown :: "stateBindingOwner \<Rightarrow> durableLookupResult" where
  "durableKnown o' = \<lparr>outcome = stateBindingLookupKnown, resultOwner = o', resultErr = None\<rparr>"

definition durableStateFormat :: string where
  "durableStateFormat = ''vekil-state-v1''"

definition durableStateRecordSize :: nat where
  "durableStateRecordSize = 1 + 3 * 32 + 8 + 32"

type_synonym boltBucket = "(string, string) gomap"

record durableStateBindings =
  dsOpen :: bool
  dsKey :: string
  dsMaxEntries :: int
  dsFailed :: "durableStateError option"
  dsRecords :: boltBucket
  dsSequence :: "64 word"

record boltEnv =
  beView :: bool
  beUpdate :: bool
  beBeforeCommit :: bool
  beCommit :: bool
  beAfterCommit :: bool

section \<open>Records\<close>

text \<open>\<open>binary.BigEndian.PutUint64\<close> and \<open>Uint64\<close>.\<close>

definition putUint64 :: "64 word \<Rightarrow> string" where
  "putUint64 w = map (\<lambda>i. char_of (uint (drop_bit (8 * (7 - i)) w))) [0..<8]"

definition getUint64 :: "string \<Rightarrow> 64 word" where
  "getUint64 b = word_of_int (foldl (\<lambda>acc c. acc * 256 + of_char c) 0 b)"

definition digestPart :: "string \<Rightarrow> string" where
  "digestPart part = putUint64 (word_of_nat (length part)) @ part"

definition digest :: "mac \<Rightarrow> string \<Rightarrow> string \<Rightarrow> string list \<Rightarrow> string" where
  "digest mac key domain parts = mac key (concat (map digestPart (''vekil-state-v1'' # domain # parts)))"

definition durableStateTypeByte :: "string \<Rightarrow> nat" where
  "durableStateTypeByte t =
     (if t = stateBindingTypeResponseID then 1
      else if t = stateBindingTypeEncryptedContent then 2
      else if t = stateBindingTypeTurnState then 3
      else if t = stateBindingTypeConversationID then 4
      else 0)"

definition durableTokenKey :: "mac \<Rightarrow> string \<Rightarrow> stateBindingToken \<Rightarrow> string" where
  "durableTokenKey mac key t =
     char_of (durableStateTypeByte (stateType t)) # digest mac key ''token'' [stateType t, tokValue t]"

fun tokenKeysLoop ::
  "mac \<Rightarrow> string \<Rightarrow> string list \<Rightarrow> stateBindingToken list \<Rightarrow> (durableStateError + string list)" where
  "tokenKeysLoop mac key keys [] = Inr keys"
| "tokenKeysLoop mac key keys (t # ts) =
     (if durableStateTypeByte (stateType t) = 0 \<or> tokValue t = '''' then Inl errDurableStateCorrupt
      else let k = durableTokenKey mac key t
           in tokenKeysLoop mac key (if k \<in> set keys then keys else keys @ [k]) ts)"

definition tokenKeys :: "mac \<Rightarrow> string \<Rightarrow> stateBindingToken list \<Rightarrow> (durableStateError + string list)" where
  "tokenKeys mac key tokens = tokenKeysLoop mac key [] tokens"

definition encodeOwner :: "mac \<Rightarrow> string \<Rightarrow> stateBindingOwner \<Rightarrow> stateBindingOwner" where
  "encodeOwner mac key o' =
     (let o1 = (if routeID o' \<noteq> '''' then o'\<lparr>routeKey := digest mac key ''route'' [routeID o'], routeID := ''''\<rparr>
                else o')
      in if targetID o1 \<noteq> '''' then o1\<lparr>targetKey := digest mac key ''target'' [targetID o1], targetID := ''''\<rparr>
         else o1)"

fun outcomeByte :: "stateBindingLookupOutcome \<Rightarrow> nat" where
  "outcomeByte stateBindingLookupUnknown = 0"
| "outcomeByte stateBindingLookupKnown = 1"
| "outcomeByte stateBindingLookupConflict = 2"

text \<open>\<open>at.Unix()\<close>, and \<open>time.Unix\<close> back.\<close>

definition unixSeconds :: "gotime \<Rightarrow> 64 word" where
  "unixSeconds at = word_of_int (at div 1000000000)"

definition unixTime :: "64 word \<Rightarrow> gotime" where
  "unixTime w = sint w * 1000000000"

text \<open>The first 105 bytes of a record, over which its MAC is taken.\<close>

definition recordBody :: "stateBindingOwner \<Rightarrow> stateBindingLookupOutcome \<Rightarrow> gotime \<Rightarrow> string" where
  "recordBody o' oc at = char_of (outcomeByte oc) # routeKey o' @ targetKey o' @ ownerIdentity o' @
     putUint64 (unixSeconds at)"

definition encodeRecord ::
  "mac \<Rightarrow> string \<Rightarrow> string \<Rightarrow> stateBindingOwner \<Rightarrow> stateBindingLookupOutcome \<Rightarrow> gotime \<Rightarrow> string" where
  "encodeRecord mac key k o' oc at =
     (let body = recordBody (encodeOwner mac key o') oc at
      in body @ digest mac key ''record'' [k, body])"

definition byteSlice :: "nat \<Rightarrow> nat \<Rightarrow> string \<Rightarrow> string" where
  "byteSlice i j s = take (j - i) (drop i s)"

definition decodeRecord ::
  "mac \<Rightarrow> string \<Rightarrow> string \<Rightarrow> string \<Rightarrow> (durableStateError + durableLookupResult \<times> gotime)" where
  "decodeRecord mac key k v =
     (if length k \<noteq> 33 \<or> of_char (k ! 0) < (1::nat) \<or> (of_char (k ! 0) :: nat) > 4 \<or>
         length v \<noteq> durableStateRecordSize then Inl errDurableStateCorrupt
      else if digest mac key ''record'' [k, take 105 v] \<noteq> drop 105 v then Inl errDurableStateCorrupt
      else
        let o' = zeroOwner\<lparr>routeKey := byteSlice 1 33 v, targetKey := byteSlice 33 65 v,
                           ownerIdentity := byteSlice 65 97 v\<rparr>;
            at = unixTime (getUint64 (byteSlice 97 105 v));
            known = (of_char (v ! 0) = outcomeByte stateBindingLookupKnown)
        in if \<not> known \<and> of_char (v ! 0) \<noteq> outcomeByte stateBindingLookupConflict
           then Inl errDurableStateCorrupt
           else if known \<and> (routeKey o' = zeroBytes32 \<or> targetKey o' = zeroBytes32 \<or> ownerIdentity o' = zeroBytes32)
           then Inl errDurableStateCorrupt
           else Inr (\<lparr>outcome = (if known then stateBindingLookupKnown else stateBindingLookupConflict),
                      resultOwner = o', resultErr = None\<rparr>, at))"

section \<open>Opening\<close>

text \<open>What a database file holds when it is opened; \<open>bfSound\<close> says that \<open>tx.Check\<close> reports nothing.\<close>

record boltFile =
  bfSound :: bool
  bfMetadata :: "boltBucket option"
  bfBindings :: "(boltBucket \<times> 64 word) option"

definition validateFile ::
  "mac \<Rightarrow> int \<Rightarrow> boltFile \<Rightarrow> (durableStateError + durableStateBindings)" where
  "validateFile mac maxE f =
     (if \<not> bfSound f then Inl errDurableStateCorrupt
      else case (bfMetadata f, bfBindings f) of
        (Some meta, Some (recs, sq)) \<Rightarrow>
          (case (gm_get meta ''format'', gm_get meta ''key'') of
             (Some fmt, Some key) \<Rightarrow>
               if fmt \<noteq> durableStateFormat \<or> length key \<noteq> 32 then Inl errDurableStateCorrupt
               else if int (length recs) > maxE then Inl errDurableStateCapacity
               else if word_of_nat (length recs) \<noteq> sq then Inl errDurableStateCorrupt
               else if \<exists>(k, v) \<in> set recs. isl (decodeRecord mac key k v)
               then Inl errDurableStateCorrupt
               else Inr \<lparr>dsOpen = True, dsKey = key, dsMaxEntries = maxE, dsFailed = None,
                         dsRecords = recs, dsSequence = sq\<rparr>
           | _ \<Rightarrow> Inl errDurableStateCorrupt)
      | _ \<Rightarrow> Inl errDurableStateCorrupt)"

text \<open>
  \<open>created\<close> is a file that did not exist; \<open>random\<close> is the key read from \<open>crypto/rand\<close>. A panic of
  bbolt on invalid pages counts as a file that is not sound.
\<close>

definition initializeDurable ::
  "mac \<Rightarrow> boltEnv \<Rightarrow> bool \<Rightarrow> string option \<Rightarrow> int \<Rightarrow> boltFile \<Rightarrow>
   (durableStateError + durableStateBindings)" where
  "initializeDurable mac env created random maxE f =
     (let view = (\<lambda>f'. if beView env then validateFile mac maxE f' else Inl errDurableStateCorrupt)
      in if created then
           (case random of
              None \<Rightarrow> Inl errDurableStateIO
            | Some key \<Rightarrow>
                if \<not> beUpdate env \<or> \<not> beCommit env then Inl errDurableStateIO
                else view (f\<lparr>bfMetadata := Some [(''format'', durableStateFormat), (''key'', key)],
                             bfBindings := Some ([], 0)\<rparr>))
         else view f)"

section \<open>Resolving\<close>

text \<open>The loop inside the read transaction; \<open>found\<close> is \<open>Some\<close> once \<open>known\<close> is set.\<close>

fun durableResolveLoop ::
  "mac \<Rightarrow> string \<Rightarrow> boltBucket \<Rightarrow> string option \<Rightarrow> string option \<Rightarrow> string list \<Rightarrow>
   durableLookupResult option \<Rightarrow> bool \<Rightarrow> (durableStateError + durableLookupResult)" where
  "durableResolveLoop mac key recs rk tk [] found missing =
     Inr (if missing then durableUnknown else case found of None \<Rightarrow> durableUnknown | Some r \<Rightarrow> r)"
| "durableResolveLoop mac key recs rk tk (k # ks) found missing =
     (case gm_get recs k of
        None \<Rightarrow> durableResolveLoop mac key recs rk tk ks found True
      | Some v \<Rightarrow>
          (case decodeRecord mac key k v of
             Inl e \<Rightarrow> Inl e
           | Inr (r, _) \<Rightarrow>
               if outcome r = stateBindingLookupConflict \<or>
                  (case rk of Some x \<Rightarrow> routeKey (resultOwner r) \<noteq> x | None \<Rightarrow> False) \<or>
                  (case tk of Some x \<Rightarrow> targetKey (resultOwner r) \<noteq> x | None \<Rightarrow> False) \<or>
                  (case found of Some r0 \<Rightarrow> resultOwner r \<noteq> resultOwner r0 | None \<Rightarrow> False)
               then Inr durableConflict
               else durableResolveLoop mac key recs rk tk ks (Some r) missing))"

definition labelKey :: "mac \<Rightarrow> string \<Rightarrow> string \<Rightarrow> string \<Rightarrow> string option" where
  "labelKey mac key domain label = (if label = '''' then None else Some (digest mac key domain [label]))"

definition durableResolveWithRoute ::
  "mac \<Rightarrow> boltEnv \<Rightarrow> stateBindingToken list \<Rightarrow> string \<Rightarrow> string \<Rightarrow> durableStateBindings \<Rightarrow>
   durableStateBindings \<times> durableLookupResult" where
  "durableResolveWithRoute mac env tokens rid pin d =
     (case tokenKeys mac (dsKey d) tokens of
        Inl _ \<Rightarrow> (d, durableConflict)
      | Inr keys \<Rightarrow>
          (case dsFailed d of
             Some e \<Rightarrow> (d, durableFailure e)
           | None \<Rightarrow>
               if \<not> dsOpen d then (d, durableFailure errDurableStateClosed)
               else
                 let answer = (if beView env
                               then durableResolveLoop mac (dsKey d) (dsRecords d)
                                      (labelKey mac (dsKey d) ''route'' rid)
                                      (labelKey mac (dsKey d) ''target'' pin) keys None False
                               else Inl errDurableStateIO)
                 in case answer of
                      Inl _ \<Rightarrow> (d\<lparr>dsFailed := Some errDurableStateIO\<rparr>, durableFailure errDurableStateIO)
                    | Inr r \<Rightarrow> (d, r)))"

definition durableResolve ::
  "mac \<Rightarrow> boltEnv \<Rightarrow> stateBindingToken list \<Rightarrow> durableStateBindings \<Rightarrow>
   durableStateBindings \<times> durableLookupResult" where
  "durableResolve mac env tokens d = durableResolveWithRoute mac env tokens '''' '''' d"

definition durableOwnerMatchesRoute :: "mac \<Rightarrow> durableStateBindings \<Rightarrow> stateBindingOwner \<Rightarrow> string \<Rightarrow> bool" where
  "durableOwnerMatchesRoute mac d o' rid \<longleftrightarrow> routeKey o' = digest mac (dsKey d) ''route'' [rid]"

text \<open>\<open>resolveForRoute\<close> of \<open>proxy/state_binding.go\<close> on a durable store.\<close>

definition durableResolveForRoute ::
  "mac \<Rightarrow> boltEnv \<Rightarrow> string \<Rightarrow> string \<Rightarrow> stateBindingToken list \<Rightarrow> durableStateBindings \<Rightarrow>
   durableStateBindings \<times> durableLookupResult" where
  "durableResolveForRoute mac env rid pin tokens d =
     (let (d1, r) = durableResolveWithRoute mac env tokens rid pin d
      in if outcome r \<noteq> stateBindingLookupKnown then (d1, r)
         else if rid = '''' \<or> \<not> durableOwnerMatchesRoute mac d1 (resultOwner r) rid then (d1, durableConflict)
         else (d1, r))"

text \<open>\<open>ownerTarget\<close>, over the identifiers of the route's targets.\<close>

fun durableOwnerTarget :: "mac \<Rightarrow> durableStateBindings \<Rightarrow> stateBindingOwner \<Rightarrow> string list \<Rightarrow> string" where
  "durableOwnerTarget mac d o' [] = ''''"
| "durableOwnerTarget mac d o' (t # ts) =
     (if targetKey o' = digest mac (dsKey d) ''target'' [t] then t else durableOwnerTarget mac d o' ts)"

section \<open>Binding\<close>

text \<open>The read-only pass: an error, or whether nothing has to change and the result so far.\<close>

fun bindUnchangedLoop ::
  "mac \<Rightarrow> string \<Rightarrow> boltBucket \<Rightarrow> stateBindingOwner \<Rightarrow> bool \<Rightarrow> string list \<Rightarrow> durableLookupResult \<Rightarrow>
   (durableStateError + bool \<times> durableLookupResult)" where
  "bindUnchangedLoop mac key recs owner claim [] result = Inr (True, result)"
| "bindUnchangedLoop mac key recs owner claim (k # ks) result =
     (case gm_get recs k of
        None \<Rightarrow> Inr (False, result)
      | Some v \<Rightarrow>
          (case decodeRecord mac key k v of
             Inl e \<Rightarrow> Inl e
           | Inr (prior, _) \<Rightarrow>
               if claim then Inr (True, prior)
               else if outcome prior \<noteq> stateBindingLookupKnown \<or> resultOwner prior \<noteq> owner
               then Inr (False, result)
               else bindUnchangedLoop mac key recs owner claim ks result))"

datatype bindScan =
    ScanError durableStateError
  | ScanClaimed durableLookupResult
  | ScanDone nat "string list" bool

text \<open>The first loop of the update: the new keys, the keys owned elsewhere, whether there is a conflict.\<close>

fun bindScanLoop ::
  "mac \<Rightarrow> string \<Rightarrow> boltBucket \<Rightarrow> stateBindingOwner \<Rightarrow> bool \<Rightarrow> string list \<Rightarrow>
   nat \<Rightarrow> string list \<Rightarrow> bool \<Rightarrow> bindScan" where
  "bindScanLoop mac key recs owner claim [] newKeys conflicts hasConflict =
     ScanDone newKeys conflicts hasConflict"
| "bindScanLoop mac key recs owner claim (k # ks) newKeys conflicts hasConflict =
     (case gm_get recs k of
        None \<Rightarrow> bindScanLoop mac key recs owner claim ks (Suc newKeys) conflicts hasConflict
      | Some v \<Rightarrow>
          (case decodeRecord mac key k v of
             Inl e \<Rightarrow> ScanError e
           | Inr (prior, _) \<Rightarrow>
               if claim then ScanClaimed prior
               else if outcome prior = stateBindingLookupConflict
               then bindScanLoop mac key recs owner claim ks newKeys conflicts True
               else if resultOwner prior \<noteq> owner
               then bindScanLoop mac key recs owner claim ks newKeys (conflicts @ [k]) True
               else bindScanLoop mac key recs owner claim ks newKeys conflicts hasConflict))"

definition putTombstone ::
  "mac \<Rightarrow> string \<Rightarrow> (string \<Rightarrow> gotime) \<Rightarrow> string \<Rightarrow> boltBucket \<Rightarrow> boltBucket" where
  "putTombstone mac key now k recs =
     gm_put k (encodeRecord mac key k zeroOwner stateBindingLookupConflict (now k)) recs"

definition putOwner ::
  "mac \<Rightarrow> string \<Rightarrow> (string \<Rightarrow> gotime) \<Rightarrow> stateBindingOwner \<Rightarrow> string \<Rightarrow> boltBucket \<Rightarrow> boltBucket" where
  "putOwner mac key now owner k recs =
     (if gm_get recs k = None
      then gm_put k (encodeRecord mac key k owner stateBindingLookupKnown (now k)) recs else recs)"

text \<open>
  The body of the update transaction: an error, or the records and the sequence to commit with
  the result, and whether the hook before the commit runs.
\<close>

definition bindUpdate ::
  "mac \<Rightarrow> (string \<Rightarrow> gotime) \<Rightarrow> stateBindingOwner \<Rightarrow> bool \<Rightarrow> string list \<Rightarrow> durableStateBindings \<Rightarrow>
   durableLookupResult \<Rightarrow>
   (durableStateError + boltBucket \<times> 64 word \<times> durableLookupResult \<times> bool)" where
  "bindUpdate mac now owner claim keys d result =
     (case bindScanLoop mac (dsKey d) (dsRecords d) owner claim keys 0 [] False of
        ScanError e \<Rightarrow> Inl e
      | ScanClaimed prior \<Rightarrow> Inr (dsRecords d, dsSequence d, prior, False)
      | ScanDone newKeys conflicts hasConflict \<Rightarrow>
          if hasConflict
          then Inr (fold (putTombstone mac (dsKey d) now) conflicts (dsRecords d), dsSequence d,
                    durableConflict, True)
          else if word_of_nat newKeys > word_of_int (dsMaxEntries d) - dsSequence d
          then Inl errDurableStateCapacity
          else Inr (fold (putOwner mac (dsKey d) now owner) keys (dsRecords d),
                    dsSequence d + word_of_nat newKeys, result, True))"

definition durableBind ::
  "mac \<Rightarrow> (string \<Rightarrow> gotime) \<Rightarrow> boltEnv \<Rightarrow> stateBindingToken list \<Rightarrow> stateBindingOwner \<Rightarrow> bool \<Rightarrow>
   durableStateBindings \<Rightarrow> durableStateBindings \<times> durableLookupResult" where
  "durableBind mac now env tokens owner0 claim d =
     (if \<not> owner_valid owner0 \<or> ownerIdentity owner0 = zeroBytes32 \<or> tokens = []
      then (d, durableFailure errDurableStateIdentity)
      else case tokenKeys mac (dsKey d) tokens of
        Inl _ \<Rightarrow> (d, durableConflict)
      | Inr keys \<Rightarrow>
          (case dsFailed d of
             Some e \<Rightarrow> (d, durableFailure e)
           | None \<Rightarrow>
               if \<not> dsOpen d then (d, durableFailure errDurableStateClosed)
               else
                 let owner = encodeOwner mac (dsKey d) owner0;
                     freeze = (\<lambda>d'. (d'\<lparr>dsFailed := Some errDurableStateIO\<rparr>, durableFailure errDurableStateIO));
                     seen = (if beView env
                             then bindUnchangedLoop mac (dsKey d) (dsRecords d) owner claim keys
                                    (durableKnown owner)
                             else Inl errDurableStateIO)
                 in case seen of
                      Inl _ \<Rightarrow> freeze d
                    | Inr (True, result) \<Rightarrow> (d, result)
                    | Inr (False, result) \<Rightarrow>
                        if \<not> beUpdate env then freeze d
                        else (case bindUpdate mac now owner claim keys d result of
                                Inl e \<Rightarrow> if e = errDurableStateCapacity then (d, durableFailure e) else freeze d
                              | Inr (recs, sq, result', hook) \<Rightarrow>
                                  if (hook \<and> \<not> beBeforeCommit env) \<or> \<not> beCommit env then freeze d
                                  else let d1 = d\<lparr>dsRecords := recs, dsSequence := sq\<rparr>
                                       in if beAfterCommit env then (d1, result') else freeze d1)))"

section \<open>Statistics, closing, pruning\<close>

definition durableStats :: "durableStateBindings \<Rightarrow> nat \<times> nat" where
  "durableStats d =
     (if dsOpen d
      then (length (dsRecords d),
            length (filter (\<lambda>(_, v). v \<noteq> [] \<and> of_char (hd v) = outcomeByte stateBindingLookupConflict)
                      (dsRecords d)))
      else (0, 0))"

text \<open>Closing drops the database; \<open>ok\<close> is the answer of \<open>db.Close\<close>.\<close>

definition durableClose :: "bool \<Rightarrow> durableStateBindings \<Rightarrow> durableStateBindings \<times> durableStateError option" where
  "durableClose ok d =
     (if \<not> dsOpen d then (d, None)
      else (d\<lparr>dsOpen := False\<rparr>, if ok then None else Some errDurableStateIO))"

fun pruneLoop ::
  "mac \<Rightarrow> string \<Rightarrow> gotime \<Rightarrow> boltBucket \<Rightarrow> (boltBucket \<times> nat) option" where
  "pruneLoop mac key before [] = Some ([], 0)"
| "pruneLoop mac key before ((k, v) # recs) =
     (case decodeRecord mac key k v of
        Inl _ \<Rightarrow> None
      | Inr (_, issued) \<Rightarrow>
          map_option (\<lambda>(kept, removed). if issued < before then (kept, Suc removed) else ((k, v) # kept, removed))
            (pruneLoop mac key before recs))"

text \<open>
  The transaction of \<open>PruneDurableStateBindings\<close> on an opened store, after the check of its
  arguments; \<open>now\<close> is \<open>time.Now\<close>.
\<close>

definition pruneCutoffOk :: "gotime \<Rightarrow> gotime \<Rightarrow> bool" where
  "pruneCutoffOk now before \<longleftrightarrow> before div 1000000000 > 0 \<and> before mod 1000000000 = 0 \<and> \<not> before > now"

definition pruneDurableStateBindings ::
  "mac \<Rightarrow> gotime \<Rightarrow> boltEnv \<Rightarrow> gotime \<Rightarrow> durableStateBindings \<Rightarrow>
   durableStateBindings \<times> (durableStateError + nat)" where
  "pruneDurableStateBindings mac now env before d =
     (if \<not> pruneCutoffOk now before then (d, Inl errDurableStateConfig)
      else if \<not> beUpdate env \<or> \<not> beCommit env then (d, Inl errDurableStateIO)
      else case pruneLoop mac (dsKey d) before (dsRecords d) of
        None \<Rightarrow> (d, Inl errDurableStateIO)
      | Some (kept, removed) \<Rightarrow>
          (d\<lparr>dsRecords := kept, dsSequence := dsSequence d - word_of_nat removed\<rparr>, Inr removed))"

end
