(* ===== verification/Provider_Policy.thy ===== *)
theory Provider_Policy
  imports Prelude
begin

text \<open>
  Providers, their endpoint policy, and routes: \<open>proxy/provider_endpoint_policy.go\<close> and the
  types of \<open>proxy/model_routes.go\<close> and \<open>proxy/providers.go\<close> that routing reads. A nil
  \<open>*providerRuntime\<close> is \<^const>\<open>None\<close>. Of the runtime the record keeps the fields that the
  endpoint policy and the executor consult. A named string type whose values are compared
  with its constants has one constructor for every other string.
\<close>

section \<open>Providers\<close>

datatype providerType =
    providerTypeCopilot | providerTypeAzureOpenAI | providerTypeOpenAICodex
  | providerTypeOpenAICompatible | providerTypeAnthropicCompatible
  | providerTypeTypeSafeCompatible | providerTypeOther string

datatype providerModelDiscovery =
    providerModelDiscoveryStatic | providerModelDiscoveryOpenAI | providerModelDiscoveryOllama
  | providerModelDiscoveryOpenRouterTools | providerModelDiscoveryOther string

definition providerEndpointChatCompletions :: string where
  "providerEndpointChatCompletions = ''/chat/completions''"
definition providerEndpointResponses :: string where
  "providerEndpointResponses = ''/responses''"
definition providerEndpointMessages :: string where
  "providerEndpointMessages = ''/v1/messages''"
definition providerEndpointModels :: string where
  "providerEndpointModels = ''/models''"
definition providerEndpointSystemOne :: string where
  "providerEndpointSystemOne = ''/systemone''"

record providerEndpointPaths =
  chatCompletions :: string
  responses :: string
  messages :: string
  models :: string
  systemOne :: string

record providerRuntime =
  providerID :: string
  providerKind :: providerType
  modelDiscovery :: providerModelDiscovery
  includeModels :: "string list"
  excludeModels :: "string list"
  hostedTools :: "(string, bool) gomap"

section \<open>Endpoint policy\<close>

record providerEndpointPolicy =
  defaultPaths :: providerEndpointPaths
  staticModelEndpoints :: "string list"
  dynamicModelEndpoints :: "string list"
  routedRequestEndpoints :: "string list"
  unknownModelEndpoints :: "string list"
  discoveredModelEndpoints :: "string list"
  allowAnyRoutedRequest :: bool
  allowAnyUnknownModel :: bool
  allowAnyDiscoveredModelEntry :: bool

definition providerEndpointsResponsesOnly :: "string list" where
  "providerEndpointsResponsesOnly = [providerEndpointResponses]"
definition providerEndpointsChatOnly :: "string list" where
  "providerEndpointsChatOnly = [providerEndpointChatCompletions]"
definition providerEndpointsMessagesOnly :: "string list" where
  "providerEndpointsMessagesOnly = [providerEndpointMessages]"
definition providerEndpointsOpenAI :: "string list" where
  "providerEndpointsOpenAI = [providerEndpointChatCompletions, providerEndpointResponses]"

definition zeroEndpointPaths :: providerEndpointPaths where
  "zeroEndpointPaths = \<lparr>chatCompletions = '''', responses = '''', messages = '''', models = '''',
     systemOne = ''''\<rparr>"

definition zeroEndpointPolicy :: providerEndpointPolicy where
  "zeroEndpointPolicy = \<lparr>defaultPaths = zeroEndpointPaths, staticModelEndpoints = [],
     dynamicModelEndpoints = [], routedRequestEndpoints = [], unknownModelEndpoints = [],
     discoveredModelEndpoints = [], allowAnyRoutedRequest = False, allowAnyUnknownModel = False,
     allowAnyDiscoveredModelEntry = False\<rparr>"

definition defaultProviderPaths :: providerEndpointPaths where
  "defaultProviderPaths = zeroEndpointPaths\<lparr>chatCompletions := providerEndpointChatCompletions,
     responses := providerEndpointResponses, messages := providerEndpointMessages,
     models := providerEndpointModels\<rparr>"

text \<open>The last three cases of the source's switch have one body.\<close>

definition anyEndpointPolicy :: providerEndpointPolicy where
  "anyEndpointPolicy = zeroEndpointPolicy\<lparr>defaultPaths := defaultProviderPaths,
     staticModelEndpoints := providerEndpointsOpenAI, allowAnyRoutedRequest := True,
     allowAnyUnknownModel := True, allowAnyDiscoveredModelEntry := True\<rparr>"

fun providerEndpointPolicyFor :: "providerType \<Rightarrow> providerEndpointPolicy" where
  "providerEndpointPolicyFor providerTypeTypeSafeCompatible = zeroEndpointPolicy
     \<lparr>defaultPaths := zeroEndpointPaths\<lparr>systemOne := providerEndpointSystemOne\<rparr>,
      routedRequestEndpoints := [providerEndpointSystemOne]\<rparr>"
| "providerEndpointPolicyFor providerTypeOpenAICodex = zeroEndpointPolicy
     \<lparr>defaultPaths := defaultProviderPaths\<lparr>chatCompletions := '''', messages := ''''\<rparr>,
      staticModelEndpoints := providerEndpointsResponsesOnly,
      dynamicModelEndpoints := providerEndpointsResponsesOnly,
      routedRequestEndpoints := providerEndpointsResponsesOnly,
      unknownModelEndpoints := providerEndpointsResponsesOnly,
      discoveredModelEndpoints := providerEndpointsResponsesOnly\<rparr>"
| "providerEndpointPolicyFor providerTypeOpenAICompatible = zeroEndpointPolicy
     \<lparr>defaultPaths := defaultProviderPaths,
      staticModelEndpoints := providerEndpointsChatOnly,
      dynamicModelEndpoints := providerEndpointsChatOnly,
      routedRequestEndpoints := providerEndpointsOpenAI,
      unknownModelEndpoints := providerEndpointsChatOnly,
      allowAnyDiscoveredModelEntry := True\<rparr>"
| "providerEndpointPolicyFor providerTypeAnthropicCompatible = zeroEndpointPolicy
     \<lparr>defaultPaths := defaultProviderPaths,
      staticModelEndpoints := providerEndpointsMessagesOnly,
      dynamicModelEndpoints := providerEndpointsMessagesOnly,
      routedRequestEndpoints := providerEndpointsMessagesOnly,
      unknownModelEndpoints := providerEndpointsMessagesOnly,
      discoveredModelEndpoints := providerEndpointsMessagesOnly\<rparr>"
| "providerEndpointPolicyFor providerTypeCopilot = anyEndpointPolicy"
| "providerEndpointPolicyFor providerTypeAzureOpenAI = anyEndpointPolicy"
| "providerEndpointPolicyFor (providerTypeOther k) = anyEndpointPolicy"

definition supportsEndpointIn :: "string list \<Rightarrow> string \<Rightarrow> bool" where
  "supportsEndpointIn supported endpoint = list_ex (\<lambda>candidate. candidate = endpoint) supported"

definition supportsRoutedRequest :: "providerEndpointPolicy \<Rightarrow> string \<Rightarrow> bool" where
  "supportsRoutedRequest p endpoint =
     (if allowAnyRoutedRequest p then True else supportsEndpointIn (routedRequestEndpoints p) endpoint)"

definition policyAllowsUnknownModelEndpoint :: "providerEndpointPolicy \<Rightarrow> string \<Rightarrow> bool" where
  "policyAllowsUnknownModelEndpoint p endpoint =
     (if allowAnyUnknownModel p then True else supportsEndpointIn (unknownModelEndpoints p) endpoint)"

definition policyAcceptsDiscoveredModelEndpoint :: "providerEndpointPolicy \<Rightarrow> string \<Rightarrow> bool" where
  "policyAcceptsDiscoveredModelEndpoint p endpoint =
     (if allowAnyDiscoveredModelEntry p then True else supportsEndpointIn (discoveredModelEndpoints p) endpoint)"

definition endpointPolicy :: "providerRuntime option \<Rightarrow> providerEndpointPolicy" where
  "endpointPolicy p = (case p of None \<Rightarrow> zeroEndpointPolicy
     | Some p' \<Rightarrow> providerEndpointPolicyFor (providerKind p'))"

definition providerSupportsEndpoint :: "providerRuntime option \<Rightarrow> string \<Rightarrow> bool" where
  "providerSupportsEndpoint p endpoint = (case p of None \<Rightarrow> False
     | Some p' \<Rightarrow> supportsRoutedRequest (endpointPolicy p) endpoint)"

definition providerHasModelFilters :: "providerRuntime option \<Rightarrow> bool" where
  "providerHasModelFilters p = (case p of None \<Rightarrow> False
     | Some p' \<Rightarrow> length (includeModels p') > 0 \<or> length (excludeModels p') > 0)"

definition providerUsesDynamicModels :: "providerRuntime option \<Rightarrow> bool" where
  "providerUsesDynamicModels p = (case p of None \<Rightarrow> False
     | Some p' \<Rightarrow>
         (case providerKind p' of
            providerTypeCopilot \<Rightarrow> True
          | providerTypeOpenAICodex \<Rightarrow> True
          | providerTypeOpenAICompatible \<Rightarrow> modelDiscovery p' \<noteq> providerModelDiscoveryStatic
          | providerTypeAnthropicCompatible \<Rightarrow> modelDiscovery p' \<noteq> providerModelDiscoveryStatic
          | _ \<Rightarrow> False))"

definition allowsUnknownModelEndpoint :: "providerRuntime option \<Rightarrow> string \<Rightarrow> bool" where
  "allowsUnknownModelEndpoint p endpoint =
     (if p = None then False
      else if \<not> providerUsesDynamicModels p \<or> providerHasModelFilters p then False
      else policyAllowsUnknownModelEndpoint (endpointPolicy p) endpoint)"

definition acceptsDiscoveredModelEndpoint :: "providerRuntime option \<Rightarrow> string \<Rightarrow> bool" where
  "acceptsDiscoveredModelEndpoint p endpoint =
     (if p = None then False else policyAcceptsDiscoveredModelEndpoint (endpointPolicy p) endpoint)"

definition defaultStaticModelEndpoints :: "providerRuntime option \<Rightarrow> string list" where
  "defaultStaticModelEndpoints p = staticModelEndpoints (endpointPolicy p)"

definition defaultDynamicModelEndpoints :: "providerRuntime option \<Rightarrow> string list" where
  "defaultDynamicModelEndpoints p = dynamicModelEndpoints (endpointPolicy p)"

lemmas endpoint_policy_defs = supportsEndpointIn_def supportsRoutedRequest_def
  policyAllowsUnknownModelEndpoint_def policyAcceptsDiscoveredModelEndpoint_def endpointPolicy_def
  providerEndpointsResponsesOnly_def providerEndpointsChatOnly_def providerEndpointsMessagesOnly_def
  providerEndpointsOpenAI_def anyEndpointPolicy_def zeroEndpointPolicy_def defaultProviderPaths_def
  zeroEndpointPaths_def providerSupportsEndpoint_def acceptsDiscoveredModelEndpoint_def
  defaultStaticModelEndpoints_def defaultDynamicModelEndpoints_def

section \<open>Routes\<close>

datatype routeMode = routeModePrimaryOnly | routeModePriorityFailover | routeModeOther string

record targetBinding =
  tbId :: string
  tbProvider :: "providerRuntime option"
  upstreamModel :: string

record routePolicy =
  mode :: routeMode
  maxTargetAttempts :: int
  maxUpstreamSends :: int
  legacyRetry :: bool

text \<open>Of \<open>publicModelContract\<close> the record keeps the identifiers and the endpoints.\<close>

record modelRoute =
  publicID :: string
  publicRouteID :: string
  endpoints :: "string list"
  targets :: "targetBinding list"
  policy :: routePolicy
  legacy :: bool

definition routeSupportsEndpoint :: "modelRoute option \<Rightarrow> string \<Rightarrow> bool" where
  "routeSupportsEndpoint r endpoint = (case r of None \<Rightarrow> False
     | Some r' \<Rightarrow> supportsEndpointIn (endpoints r') endpoint)"

definition primaryTarget :: "modelRoute option \<Rightarrow> targetBinding option" where
  "primaryTarget r = (case r of None \<Rightarrow> None
     | Some r' \<Rightarrow> (case targets r' of [] \<Rightarrow> None | t # _ \<Rightarrow> Some t))"

definition targetByID :: "modelRoute \<Rightarrow> string \<Rightarrow> targetBinding option" where
  "targetByID r i = find (\<lambda>t. tbId t = i) (targets r)"

lemma targetByID_mem: "targetByID r i = Some t \<Longrightarrow> t \<in> set (targets r) \<and> tbId t = i"
  by (auto simp: targetByID_def find_Some_iff in_set_conv_nth)

definition target_serves :: "string \<Rightarrow> targetBinding \<Rightarrow> bool" where
  "target_serves endpoint t \<longleftrightarrow> providerSupportsEndpoint (tbProvider t) endpoint"

section \<open>Properties\<close>

text \<open>A provider never advertises what it cannot serve: every endpoint its policy gives
  static or discovered models by default is one it accepts routed requests for, and an unknown
  model is only tried at an endpoint the provider accepts.\<close>

theorem policy_endpoints_routable:
  "list_all (providerSupportsEndpoint p) (defaultStaticModelEndpoints p @ defaultDynamicModelEndpoints p) \<and>
   {e. allowsUnknownModelEndpoint p e} \<subseteq> {e. providerSupportsEndpoint p e}"
proof (cases p)
  case None
  then show ?thesis by (simp add: endpoint_policy_defs allowsUnknownModelEndpoint_def)
next
  case (Some p')
  then show ?thesis
    by (cases "providerKind p'")
      (auto simp: endpoint_policy_defs allowsUnknownModelEndpoint_def providerUsesDynamicModels_def)
qed

end
