(* ===== verification/Route_Types.thy ===== *)
theory Route_Types
  imports Provider_Policy
begin

text \<open>
  The vocabulary of explicit route execution (\<open>proxy/route_executor.go\<close>, first part, and the
  progress functions of \<open>proxy/streaming.go\<close>): delivery, progress, commitment, kind, decision
  and outcome of a physical attempt, their ranks and merges, and the attempt trace. The
  source's types are strings; the constructor \<open>\<dots>Unset\<close> is the empty string.
\<close>

section \<open>Enumerations\<close>

datatype requestDelivery =
    requestDeliveryUnset | requestDefinitelyNotDelivered | requestExplicitlyRejected
  | requestDeliveredOrAmbiguous

datatype upstreamSemanticProgress =
    upstreamProgressUnset | upstreamProgressNone | upstreamProgressAllowedPreamble
  | upstreamProgressSemanticOutput | upstreamProgressToolActivity
  | upstreamProgressTerminalSuccess | upstreamProgressTerminalFailure | upstreamProgressUnknown

datatype downstreamCommitment =
    downstreamCommitmentNone | downstreamCommitmentProtocolFrame | downstreamCommitmentSemantic

datatype routeAttemptKind =
    routeAttemptNormal | routeAttemptProtocolRecovery | routeAttemptFailover
  | routeAttemptRateLimitRetry | routeAttemptCompaction | routeAttemptCompatibilityFallback

datatype routeRetryDecision =
    routeRetryUnset | routeRetryAccepted | routeRetrySwitchTarget | routeRetrySameTarget
  | routeRetrySuppressedMode | routeRetrySuppressedDelivery | routeRetrySuppressedProgress
  | routeRetrySuppressedCommitment | routeRetrySuppressedState | routeRetrySuppressedAdmission
  | routeRetrySuppressedBudget | routeRetrySuppressedLifecycle | routeRetrySuppressedNoTarget
  | routeRetrySuppressedNonretryable

datatype routeAttemptOutcome =
    routeAttemptOutcomeUnset | routeAttemptOutcomeInFlight | routeAttemptOutcomeSucceeded
  | routeAttemptOutcomeRejected | routeAttemptOutcomeFailed | routeAttemptOutcomeTransportError
  | routeAttemptOutcomeCanceled | routeAttemptOutcomeIncomplete

section \<open>Outcomes\<close>

fun routeAttemptOutcomeRank :: "routeAttemptOutcome \<Rightarrow> int" where
  "routeAttemptOutcomeRank routeAttemptOutcomeCanceled = 6"
| "routeAttemptOutcomeRank routeAttemptOutcomeTransportError = 5"
| "routeAttemptOutcomeRank routeAttemptOutcomeFailed = 4"
| "routeAttemptOutcomeRank routeAttemptOutcomeRejected = 3"
| "routeAttemptOutcomeRank routeAttemptOutcomeIncomplete = 2"
| "routeAttemptOutcomeRank routeAttemptOutcomeSucceeded = 1"
| "routeAttemptOutcomeRank _ = 0"

definition mergeRouteAttemptOutcome ::
  "routeAttemptOutcome \<Rightarrow> routeAttemptOutcome \<Rightarrow> routeAttemptOutcome" where
  "mergeRouteAttemptOutcome current next' =
     (if routeAttemptOutcomeRank next' > routeAttemptOutcomeRank current then next'
      else if current = routeAttemptOutcomeUnset then next'
      else current)"

fun routeAttemptOutcomeIsWasted :: "routeAttemptOutcome \<Rightarrow> bool" where
  "routeAttemptOutcomeIsWasted routeAttemptOutcomeRejected = True"
| "routeAttemptOutcomeIsWasted routeAttemptOutcomeFailed = True"
| "routeAttemptOutcomeIsWasted routeAttemptOutcomeTransportError = True"
| "routeAttemptOutcomeIsWasted routeAttemptOutcomeCanceled = True"
| "routeAttemptOutcomeIsWasted routeAttemptOutcomeIncomplete = True"
| "routeAttemptOutcomeIsWasted _ = False"

section \<open>Commitment and progress\<close>

fun routeCommitmentRank :: "downstreamCommitment \<Rightarrow> int" where
  "routeCommitmentRank downstreamCommitmentSemantic = 2"
| "routeCommitmentRank downstreamCommitmentProtocolFrame = 1"
| "routeCommitmentRank downstreamCommitmentNone = 0"

definition mergeUpstreamSemanticProgress ::
  "upstreamSemanticProgress \<Rightarrow> upstreamSemanticProgress \<Rightarrow> upstreamSemanticProgress" where
  "mergeUpstreamSemanticProgress current next' =
     (if next' = upstreamProgressUnset \<or> next' = upstreamProgressNone then current
      else if current = upstreamProgressUnknown \<or> next' = upstreamProgressUnknown
        then upstreamProgressUnknown
      else if current = upstreamProgressToolActivity \<or> next' = upstreamProgressToolActivity
        then upstreamProgressToolActivity
      else if current = upstreamProgressSemanticOutput \<or> next' = upstreamProgressSemanticOutput
        then upstreamProgressSemanticOutput
      else if current = upstreamProgressTerminalSuccess \<or> next' = upstreamProgressTerminalSuccess
        then upstreamProgressTerminalSuccess
      else if current = upstreamProgressTerminalFailure \<or> next' = upstreamProgressTerminalFailure
        then upstreamProgressTerminalFailure
      else if current = upstreamProgressAllowedPreamble \<or> next' = upstreamProgressAllowedPreamble
        then upstreamProgressAllowedPreamble
      else next')"

definition upstreamProgressAllowsTargetSwitch :: "upstreamSemanticProgress \<Rightarrow> bool" where
  "upstreamProgressAllowsTargetSwitch progress \<longleftrightarrow>
     progress = upstreamProgressUnset \<or> progress = upstreamProgressNone \<or>
     progress = upstreamProgressAllowedPreamble"

section \<open>The attempt trace\<close>

record routeAttemptTrace =
  tSequence :: int
  tTargetID :: string
  tProviderID :: string
  tKind :: routeAttemptKind
  tStatusCode :: int
  tDelivery :: requestDelivery
  tProgress :: upstreamSemanticProgress
  tCommitment :: downstreamCommitment
  tDecision :: routeRetryDecision
  tUpstreamID :: string
  tCleanupDone :: bool

definition maxRouteAttemptTrace :: nat where
  "maxRouteAttemptTrace = 16"

definition routeAttemptOutcomeFromTrace :: "routeAttemptTrace \<Rightarrow> routeAttemptOutcome" where
  "routeAttemptOutcomeFromTrace t =
     (if tStatusCode t \<ge> 200 \<and> tStatusCode t < 400 \<and> tDecision t = routeRetryAccepted \<and>
         tProgress t \<noteq> upstreamProgressTerminalFailure
      then (if tProgress t = upstreamProgressTerminalSuccess \<or> tCleanupDone t
            then routeAttemptOutcomeSucceeded else routeAttemptOutcomeInFlight)
      else if tDelivery t = requestExplicitlyRejected then routeAttemptOutcomeRejected
      else if tDelivery t = requestDefinitelyNotDelivered \<and> tStatusCode t = 0
      then (if tDecision t = routeRetrySuppressedAdmission \<or> tDecision t = routeRetrySuppressedLifecycle
            then routeAttemptOutcomeCanceled else routeAttemptOutcomeTransportError)
      else if tProgress t = upstreamProgressTerminalFailure \<or> tStatusCode t \<ge> 400
      then routeAttemptOutcomeFailed
      else if tDecision t = routeRetryAccepted then routeAttemptOutcomeSucceeded
      else routeAttemptOutcomeIncomplete)"

text \<open>\<open>routeSendObservation\<close>: what the HTTP trace hooks have reported of one send.\<close>

record routeSendObservation =
  wroteHeaders :: bool
  wroteRequest :: bool
  firstByteNS :: goduration
  obsStartedAt :: gotime

definition newRouteSendObservation :: "gotime \<Rightarrow> routeSendObservation" where
  "newRouteSendObservation startedAt =
     \<lparr>wroteHeaders = False, wroteRequest = False, firstByteNS = -1, obsStartedAt = startedAt\<rparr>"

definition hookWroteHeaders :: "routeSendObservation \<Rightarrow> routeSendObservation" where
  "hookWroteHeaders o' = o'\<lparr>wroteHeaders := True\<rparr>"

definition hookWroteRequest :: "bool \<Rightarrow> routeSendObservation \<Rightarrow> routeSendObservation" where
  "hookWroteRequest failed o' =
     (if \<not> failed \<or> wroteHeaders o' then o'\<lparr>wroteRequest := True\<rparr> else o')"

definition observeBodyBytes :: "gotime \<Rightarrow> int \<Rightarrow> routeSendObservation \<Rightarrow> routeSendObservation" where
  "observeBodyBytes now n o' =
     (if n \<le> 0 then o'
      else let elapsed = (if now - obsStartedAt o' < 0 then 0 else now - obsStartedAt o')
           in if firstByteNS o' = -1 then o'\<lparr>firstByteNS := elapsed\<rparr> else o')"

definition ttftMillis :: "routeSendObservation \<Rightarrow> int option" where
  "ttftMillis o' = (if firstByteNS o' < 0 then None else Some (firstByteNS o' div 1000000))"

definition deliveryForError :: "routeSendObservation \<Rightarrow> requestDelivery" where
  "deliveryForError o' =
     (if \<not> wroteHeaders o' \<and> \<not> wroteRequest o' then requestDefinitelyNotDelivered
      else requestDeliveredOrAmbiguous)"

section \<open>Merging by rank\<close>

text \<open>
  Outcome, commitment and progress are each folded over a stream of observations with a merge
  that keeps the worst. The contract: the merge selects one of its arguments, and the rank of
  the result is the larger one.
\<close>

locale rank_merge =
  fixes merge :: "'a \<Rightarrow> 'a \<Rightarrow> 'a" and ord :: "'a \<Rightarrow> nat"
  assumes merge_choice: "merge a b = a \<or> merge a b = b"
    and merge_ord: "ord (merge a b) = max (ord a) (ord b)"
begin

lemma fold_ord: "ord (foldl merge a xs) = Max (ord ` set (a # xs))"
proof (induction xs arbitrary: a)
  case (Cons x xs)
  have "ord (foldl merge a (x # xs)) = Max (ord ` set (merge a x # xs))"
    by (simp only: foldl.simps Cons.IH)
  also have "\<dots> = Max (ord ` set (a # x # xs))"
    by (cases "xs = []") (simp_all add: merge_ord max.assoc)
  finally show ?case .
qed simp

lemma fold_mem: "foldl merge a xs \<in> set (a # xs)"
proof (induction xs arbitrary: a)
  case (Cons x xs)
  from Cons[of "merge a x"] merge_choice[of a x] show ?case by auto
qed simp

lemma fold_ge: "x \<in> set (a # xs) \<Longrightarrow> ord x \<le> ord (foldl merge a xs)"
  unfolding fold_ord by (rule Max_ge) auto

lemma fold_prefix: "ord (foldl merge a xs) \<le> ord (foldl merge a (xs @ ys))"
  unfolding fold_ord by (rule Max_mono) auto

text \<open>An upward closed predicate of the rank holds of the merge once it held of one observation.\<close>

lemma fold_up:
  "ord (foldl merge a xs) \<ge> n \<longleftrightarrow> (\<exists>x \<in> set (a # xs). ord x \<ge> n)"
  unfolding fold_ord by (subst Max_ge_iff) auto

lemma fold_perm: "inj ord \<Longrightarrow> set (a # xs) = set (b # ys) \<Longrightarrow> foldl merge a xs = foldl merge b ys"
  using fold_ord[of a xs] fold_ord[of b ys] by (metis injD)

end

fun outcomeOrd :: "routeAttemptOutcome \<Rightarrow> nat" where
  "outcomeOrd routeAttemptOutcomeUnset = 0"
| "outcomeOrd routeAttemptOutcomeInFlight = 1"
| "outcomeOrd routeAttemptOutcomeSucceeded = 2"
| "outcomeOrd routeAttemptOutcomeIncomplete = 3"
| "outcomeOrd routeAttemptOutcomeRejected = 4"
| "outcomeOrd routeAttemptOutcomeFailed = 5"
| "outcomeOrd routeAttemptOutcomeTransportError = 6"
| "outcomeOrd routeAttemptOutcomeCanceled = 7"

fun progressOrd :: "upstreamSemanticProgress \<Rightarrow> nat" where
  "progressOrd upstreamProgressUnset = 0"
| "progressOrd upstreamProgressNone = 0"
| "progressOrd upstreamProgressAllowedPreamble = 1"
| "progressOrd upstreamProgressTerminalFailure = 2"
| "progressOrd upstreamProgressTerminalSuccess = 3"
| "progressOrd upstreamProgressSemanticOutput = 4"
| "progressOrd upstreamProgressToolActivity = 5"
| "progressOrd upstreamProgressUnknown = 6"

definition commitmentOrd :: "downstreamCommitment \<Rightarrow> nat" where
  "commitmentOrd c = nat (routeCommitmentRank c)"

definition raiseCommitment :: "downstreamCommitment \<Rightarrow> downstreamCommitment \<Rightarrow> downstreamCommitment" where
  "raiseCommitment current c = (if routeCommitmentRank c > routeCommitmentRank current then c else current)"

lemma outcomeOrd_inj: "inj outcomeOrd"
proof (rule injI)
  fix a b assume "outcomeOrd a = outcomeOrd b"
  then show "a = b" by (cases a; cases b) simp_all
qed

lemma commitmentOrd_inj: "inj commitmentOrd"
proof (rule injI)
  fix a b assume "commitmentOrd a = commitmentOrd b"
  then show "a = b" by (cases a; cases b) (simp_all add: commitmentOrd_def)
qed

interpretation outc: rank_merge mergeRouteAttemptOutcome outcomeOrd
proof
  fix a b
  show "mergeRouteAttemptOutcome a b = a \<or> mergeRouteAttemptOutcome a b = b"
    by (simp add: mergeRouteAttemptOutcome_def)
  show "outcomeOrd (mergeRouteAttemptOutcome a b) = max (outcomeOrd a) (outcomeOrd b)"
    by (cases a; cases b) (simp_all add: mergeRouteAttemptOutcome_def)
qed

interpretation prog: rank_merge mergeUpstreamSemanticProgress progressOrd
proof
  fix a b
  show "mergeUpstreamSemanticProgress a b = a \<or> mergeUpstreamSemanticProgress a b = b"
    by (cases a; cases b) (simp_all add: mergeUpstreamSemanticProgress_def)
  show "progressOrd (mergeUpstreamSemanticProgress a b) = max (progressOrd a) (progressOrd b)"
    by (cases a; cases b) (simp_all add: mergeUpstreamSemanticProgress_def)
qed

interpretation comm: rank_merge raiseCommitment commitmentOrd
proof
  fix a b
  show "raiseCommitment a b = a \<or> raiseCommitment a b = b"
    by (simp add: raiseCommitment_def)
  show "commitmentOrd (raiseCommitment a b) = max (commitmentOrd a) (commitmentOrd b)"
    by (cases a; cases b) (simp_all add: raiseCommitment_def commitmentOrd_def)
qed

lemma switch_iff_ord: "upstreamProgressAllowsTargetSwitch p \<longleftrightarrow> progressOrd p \<le> 1"
  by (cases p) (simp_all add: upstreamProgressAllowsTargetSwitch_def)

text \<open>The outcomes in order of severity.\<close>

instantiation routeAttemptOutcome :: linorder
begin

definition less_eq_routeAttemptOutcome :: "routeAttemptOutcome \<Rightarrow> routeAttemptOutcome \<Rightarrow> bool" where
  "less_eq_routeAttemptOutcome a b \<longleftrightarrow> outcomeOrd a \<le> outcomeOrd b"

definition less_routeAttemptOutcome :: "routeAttemptOutcome \<Rightarrow> routeAttemptOutcome \<Rightarrow> bool" where
  "less_routeAttemptOutcome a b \<longleftrightarrow> outcomeOrd a < outcomeOrd b"

instance
  by standard
    (auto simp: less_eq_routeAttemptOutcome_def less_routeAttemptOutcome_def intro: injD[OF outcomeOrd_inj])

end

section \<open>Properties\<close>

text \<open>The outcome of an attempt that receives several observations is the most severe one,
  whatever their order: merging is the maximum, and the order of severity puts every wasted
  outcome above success.\<close>

theorem outcome_merge_worst:
  "foldl mergeRouteAttemptOutcome a xs = Max (set (a # xs)) \<and>
   routeAttemptOutcomeIsWasted (foldl mergeRouteAttemptOutcome a xs) =
     list_ex routeAttemptOutcomeIsWasted (a # xs)"
proof (intro conjI)
  have "foldl mergeRouteAttemptOutcome a xs \<in> set (a # xs)" by (rule outc.fold_mem)
  moreover have "y \<le> foldl mergeRouteAttemptOutcome a xs" if "y \<in> set (a # xs)" for y
    using outc.fold_ge[OF that] by (simp add: less_eq_routeAttemptOutcome_def)
  ultimately show "foldl mergeRouteAttemptOutcome a xs = Max (set (a # xs))"
    by (intro Max_eqI[symmetric]) auto
  have wasted: "routeAttemptOutcomeIsWasted o' \<longleftrightarrow> 3 \<le> outcomeOrd o'" for o'
    by (cases o') simp_all
  show "routeAttemptOutcomeIsWasted (foldl mergeRouteAttemptOutcome a xs) =
     list_ex routeAttemptOutcomeIsWasted (a # xs)"
    using outc.fold_up[of 3 a xs] by (simp add: wasted list_ex_iff)
qed

text \<open>A target switch is allowed after a stream of progress observations exactly when every
  single observation allows it: semantic output, tool activity, a terminal event or an unknown
  event is never forgotten by a later observation.\<close>

theorem progress_never_forgotten:
  "upstreamProgressAllowsTargetSwitch (foldl mergeUpstreamSemanticProgress p ps) =
     list_all upstreamProgressAllowsTargetSwitch (p # ps)"
proof -
  have "\<not> progressOrd q \<le> 1 \<longleftrightarrow> 2 \<le> progressOrd q" for q by linarith
  then show ?thesis
    using prog.fold_up[of 2 p ps] by (auto simp: switch_iff_ord list_all_iff)
qed

end
