(* ===== verification/Go_Strings.thy ===== *)
theory Go_Strings
  imports Prelude "HOL-Library.Char_ord"
begin

text \<open>
  What the components use of \<open>strings\<close>, \<open>strconv\<close> and \<open>unicode/utf8\<close> on byte strings: decimal
  numbers, cases of letters, folding, valid UTF-8. White space is in \<open>Prelude\<close>.
\<close>

section \<open>Decimal numbers\<close>

definition isDigit :: "char \<Rightarrow> bool" where
  "isDigit c \<longleftrightarrow> CHR ''0'' \<le> c \<and> c \<le> CHR ''9''"

definition digitVal :: "char \<Rightarrow> int" where
  "digitVal c = of_char c - of_char (CHR ''0'')"

definition digitChar :: "int \<Rightarrow> char" where
  "digitChar d = char_of (nat (d + of_char (CHR ''0'')))"

definition dec_val :: "string \<Rightarrow> int" where
  "dec_val s = foldl (\<lambda>v c. v * 10 + digitVal c) 0 s"

fun formatNat :: "nat \<Rightarrow> string" where
  "formatNat n = (if n < 10 then [digitChar (int n)] else formatNat (n div 10) @ [digitChar (int (n mod 10))])"

declare formatNat.simps [simp del]

definition formatInt :: "int \<Rightarrow> string" where
  "formatInt i = (if i < 0 then CHR ''-'' # formatNat (nat (- i)) else formatNat (nat i))"

text \<open>\<open>strconv.ParseInt(value, 10, 64)\<close>: an optional sign, digits, in the range of 64 bits.\<close>

definition parseInt64 :: "string \<Rightarrow> int option" where
  "parseInt64 s =
     (let (neg, ds) = (case s of [] \<Rightarrow> (False, [])
            | c # cs \<Rightarrow> if c = CHR ''+'' then (False, cs) else if c = CHR ''-'' then (True, cs) else (False, s))
      in if ds = '''' \<or> \<not> list_all isDigit ds then None
         else let v = (if neg then - dec_val ds else dec_val ds)
              in if v < - (2 ^ 63) \<or> v > 2 ^ 63 - 1 then None else Some v)"

section \<open>Cases of letters\<close>

definition isUpperC :: "char \<Rightarrow> bool" where
  "isUpperC c \<longleftrightarrow> CHR ''A'' \<le> c \<and> c \<le> CHR ''Z''"
definition isLowerC :: "char \<Rightarrow> bool" where
  "isLowerC c \<longleftrightarrow> CHR ''a'' \<le> c \<and> c \<le> CHR ''z''"

definition toUpperC :: "char \<Rightarrow> char" where
  "toUpperC c = (if isLowerC c then char_of (of_char c - 32 :: nat) else c)"
definition toLowerC :: "char \<Rightarrow> char" where
  "toLowerC c = (if isUpperC c then char_of (of_char c + 32 :: nat) else c)"

text \<open>\<open>strings.ToLower\<close>, as far as comparison with ASCII literals can tell: two characters
  outside ASCII have an ASCII lower case (dotted capital I and the Kelvin sign).\<close>

fun goLower :: "string \<Rightarrow> string" where
  "goLower (a # b # cs) =
     (if a = CHR 0xC4 \<and> b = CHR 0xB0 then CHR ''i'' # goLower cs
      else case cs of
        c # ds \<Rightarrow> if a = CHR 0xE2 \<and> b = CHR 0x84 \<and> c = CHR 0xAA then CHR ''k'' # goLower ds
                 else toLowerC a # goLower (b # cs)
      | [] \<Rightarrow> [toLowerC a, toLowerC b])"
| "goLower [a] = [toLowerC a]"
| "goLower [] = []"

text \<open>
  \<open>strings.EqualFold\<close> of a name with a field of lower-case ASCII letters and underscores: beside the
  ASCII capitals only the long s and the Kelvin sign fold to ASCII.
\<close>

fun asciiFold :: "string \<Rightarrow> string" where
  "asciiFold [] = []"
| "asciiFold (a # cs) =
     (case cs of
        b # ds \<Rightarrow>
          if a = CHR 0xC5 \<and> b = CHR 0xBF then CHR ''s'' # asciiFold ds
          else (case ds of
            c # es \<Rightarrow> if a = CHR 0xE2 \<and> b = CHR 0x84 \<and> c = CHR 0xAA then CHR ''k'' # asciiFold es
                      else toLowerC a # asciiFold cs
          | [] \<Rightarrow> toLowerC a # asciiFold cs)
      | [] \<Rightarrow> [toLowerC a])"

definition equalFold :: "string \<Rightarrow> string \<Rightarrow> bool" where
  "equalFold name field \<longleftrightarrow> asciiFold name = field"

section \<open>Prefixes, suffixes, joining and splitting\<close>

definition hasPrefix :: "string \<Rightarrow> string \<Rightarrow> bool" where
  "hasPrefix s p \<longleftrightarrow> take (length p) s = p"

definition trimPrefix :: "string \<Rightarrow> string \<Rightarrow> string" where
  "trimPrefix s p = (if hasPrefix s p then drop (length p) s else s)"

definition hasSuffix :: "string \<Rightarrow> string \<Rightarrow> bool" where
  "hasSuffix s p \<longleftrightarrow> hasPrefix (rev s) (rev p)"

definition trimSuffix :: "string \<Rightarrow> string \<Rightarrow> string" where
  "trimSuffix s p = (if hasSuffix s p then take (length s - length p) s else s)"

definition trimRight :: "string \<Rightarrow> string \<Rightarrow> string" where
  "trimRight s cutset = rev (dropWhile (\<lambda>c. c \<in> set cutset) (rev s))"

definition trimLeft :: "string \<Rightarrow> string \<Rightarrow> string" where
  "trimLeft s cutset = dropWhile (\<lambda>c. c \<in> set cutset) s"

fun goContains :: "string \<Rightarrow> string \<Rightarrow> bool" where
  "goContains s p = (hasPrefix s p \<or> (case s of [] \<Rightarrow> False | c # cs \<Rightarrow> goContains cs p))"

declare goContains.simps [simp del]

fun goJoin :: "string \<Rightarrow> string list \<Rightarrow> string" where
  "goJoin sep [] = ''''"
| "goJoin sep [x] = x"
| "goJoin sep (x # y # ys) = x @ sep @ goJoin sep (y # ys)"

fun goSplit :: "char \<Rightarrow> string \<Rightarrow> string list" where
  "goSplit sep [] = ['''']"
| "goSplit sep (c # cs) =
     (if c = sep then '''' # goSplit sep cs
      else case goSplit sep cs of [] \<Rightarrow> [[c]] | x # xs \<Rightarrow> (c # x) # xs)"

lemma hasPrefix_append [simp]: "hasPrefix (p @ s) p"
  by (simp add: hasPrefix_def)

lemma hasPrefix_iff: "hasPrefix s p \<longleftrightarrow> (\<exists>r. s = p @ r)"
  unfolding hasPrefix_def by (metis append_take_drop_id append_eq_conv_conj)

lemma trimPrefix_append [simp]: "trimPrefix (p @ s) p = s"
  by (simp add: trimPrefix_def)

lemma hasSuffix_iff: "hasSuffix s p \<longleftrightarrow> (\<exists>r. s = r @ p)"
  unfolding hasSuffix_def hasPrefix_iff by (metis rev_append rev_rev_ident)

lemma trimRight_append_cut: "set t \<subseteq> set cutset \<Longrightarrow> trimRight (s @ t) cutset = trimRight s cutset"
  by (induction t rule: rev_induct) (auto simp: trimRight_def)

lemma trimRight_id: "s = [] \<or> last s \<notin> set cutset \<Longrightarrow> trimRight s cutset = s"
  by (cases s rule: rev_cases) (auto simp: trimRight_def)

lemma trimRight_prefix: "\<exists>t. s = trimRight s cutset @ t \<and> set t \<subseteq> set cutset"
proof (intro exI conjI)
  show "s = trimRight s cutset @ rev (takeWhile (\<lambda>c. c \<in> set cutset) (rev s))"
    unfolding trimRight_def by (metis rev_append rev_rev_ident takeWhile_dropWhile_id)
  show "set (rev (takeWhile (\<lambda>c. c \<in> set cutset) (rev s))) \<subseteq> set cutset"
    by (auto dest: set_takeWhileD)
qed

lemma goSplit_ne [simp]: "goSplit sep s \<noteq> []"
  by (induction s) (auto split: list.splits)

lemma goSplit_join: "goJoin [sep] (goSplit sep s) = s"
proof (induction s)
  case (Cons c cs)
  then show ?case by (cases "goSplit sep cs"; cases "tl (goSplit sep cs)") (auto split: list.splits)
qed simp

lemma goSplit_single: "sep \<notin> set s \<Longrightarrow> goSplit sep s = [s]"
  by (induction s) auto

section \<open>UTF-8\<close>

definition contByte :: "char \<Rightarrow> bool" where
  "contByte c \<longleftrightarrow> CHR 0x80 \<le> c \<and> c \<le> CHR 0xBF"

definition second3 :: "char \<Rightarrow> char \<Rightarrow> bool" where
  "second3 a b \<longleftrightarrow> contByte b \<and> (a = CHR 0xE0 \<longrightarrow> CHR 0xA0 \<le> b) \<and> (a = CHR 0xED \<longrightarrow> b \<le> CHR 0x9F)"

definition second4 :: "char \<Rightarrow> char \<Rightarrow> bool" where
  "second4 a b \<longleftrightarrow> contByte b \<and> (a = CHR 0xF0 \<longrightarrow> CHR 0x90 \<le> b) \<and> (a = CHR 0xF4 \<longrightarrow> b \<le> CHR 0x8F)"

text \<open>
  The number of bytes of the encoded character at the front, 0 when there is none; \<open>utf8.Valid\<close>.
\<close>

definition leadByte :: "nat \<Rightarrow> char \<Rightarrow> bool" where
  "leadByte n a \<longleftrightarrow>
     (if n = 1 then a < CHR 0x80
      else if n = 2 then CHR 0xC2 \<le> a \<and> a \<le> CHR 0xDF
      else if n = 3 then CHR 0xE0 \<le> a \<and> a \<le> CHR 0xEF
      else n = 4 \<and> CHR 0xF0 \<le> a \<and> a \<le> CHR 0xF4)"

fun runeBytes :: "string \<Rightarrow> nat" where
  "runeBytes [] = 0"
| "runeBytes (a # s) =
     (if leadByte 1 a then 1
      else if leadByte 2 a then (case s of b # _ \<Rightarrow> if contByte b then 2 else 0 | [] \<Rightarrow> 0)
      else if leadByte 3 a then
        (case s of b # c # _ \<Rightarrow> if second3 a b \<and> contByte c then 3 else 0 | _ \<Rightarrow> 0)
      else if leadByte 4 a then
        (case s of b # c # d # _ \<Rightarrow> if second4 a b \<and> contByte c \<and> contByte d then 4 else 0 | _ \<Rightarrow> 0)
      else 0)"

function utf8Valid :: "string \<Rightarrow> bool" where
  "utf8Valid s =
     (if s = [] then True else if runeBytes s = 0 then False else utf8Valid (drop (runeBytes s) s))"
  by pat_completeness auto
termination by (relation "measure length") auto

declare utf8Valid.simps [simp del]

lemma runeBytes_append: "runeBytes s \<noteq> 0 \<Longrightarrow> runeBytes (s @ t) = runeBytes s \<and> runeBytes s \<le> length s"
  by (cases s) (auto split: list.splits if_splits)

lemma utf8_Nil [simp]: "utf8Valid []"
  by (simp add: utf8Valid.simps)

lemma utf8_step: "s \<noteq> [] \<Longrightarrow> utf8Valid s \<longleftrightarrow> runeBytes s \<noteq> 0 \<and> utf8Valid (drop (runeBytes s) s)"
  by (subst utf8Valid.simps) simp

lemma utf8_append: "utf8Valid s \<Longrightarrow> utf8Valid t \<Longrightarrow> utf8Valid (s @ t)"
proof (induction s rule: utf8Valid.induct)
  case (1 s)
  show ?case
  proof (cases "s = []")
    case True with 1 show ?thesis by simp
  next
    case False
    have v: "runeBytes s \<noteq> 0" "utf8Valid (drop (runeBytes s) s)" using 1(2) utf8_step[OF False] by blast+
    have "utf8Valid (drop (runeBytes s) s @ t)" using 1(1)[OF False v(1) v(2) 1(3)] .
    moreover have "drop (runeBytes (s @ t)) (s @ t) = drop (runeBytes s) s @ t"
      using runeBytes_append[OF v(1), of t] by simp
    moreover have "runeBytes (s @ t) \<noteq> 0" using runeBytes_append[OF v(1), of t] v(1) by metis
    ultimately show ?thesis using utf8_step[of "s @ t"] False by simp
  qed
qed

lemma utf8_ascii: "list_all (\<lambda>c. c < CHR 0x80) s \<Longrightarrow> utf8Valid s"
  by (induction s) (auto simp: utf8Valid.simps[of "_ # _"] leadByte_def)

lemma ascii_not_cont: "c < CHR 0x80 \<Longrightarrow> \<not> contByte c"
  by (meson contByte_def not_le)

lemma runeBytes_before:
  assumes "runeBytes (s @ c # t) \<noteq> 0" "c < CHR 0x80" "s \<noteq> []"
  shows "runeBytes s = runeBytes (s @ c # t)"
  using assms ascii_not_cont[OF assms(2)]
  by (cases s) (auto simp: second3_def second4_def Cons_eq_append_conv split: list.splits if_splits)

lemma utf8_split: "c < CHR 0x80 \<Longrightarrow> utf8Valid (s @ c # t) \<longleftrightarrow> utf8Valid s \<and> utf8Valid t"
proof
  assume c: "c < CHR 0x80"
  show "utf8Valid (s @ c # t) \<Longrightarrow> utf8Valid s \<and> utf8Valid t"
  proof (induction s rule: utf8Valid.induct)
    case (1 s)
    show ?case
    proof (cases "s = []")
      case True with 1 c show ?thesis by (simp add: utf8Valid.simps[of "c # t"] leadByte_def)
    next
      case False
      from 1(2) False have v: "runeBytes (s @ c # t) \<noteq> 0" "utf8Valid (drop (runeBytes (s @ c # t)) (s @ c # t))"
        using utf8_step[of "s @ c # t"] by blast+
      have e: "runeBytes s = runeBytes (s @ c # t)" by (rule runeBytes_before[OF v(1) c False])
      have l: "runeBytes s \<le> length s" "runeBytes s \<noteq> 0" using runeBytes_append[of s "[]"] v(1) e by auto
      have "utf8Valid (drop (runeBytes s) s @ c # t)" using v(2) l unfolding e[symmetric] by simp
      from 1(1)[OF False l(2) this] have d: "utf8Valid (drop (runeBytes s) s) \<and> utf8Valid t" .
      then show ?thesis using l(2) utf8_step[OF False] by blast
    qed
  qed
next
  assume c: "c < CHR 0x80" and v: "utf8Valid s \<and> utf8Valid t"
  have "utf8Valid (c # t)" using c v by (simp add: utf8Valid.simps[of "c # t"] leadByte_def)
  then show "utf8Valid (s @ c # t)" using v utf8_append by blast
qed

end
