(* ===== verification/Retry_After.thy ===== *)
theory Retry_After
  imports Go_Strings
begin

text \<open>
  Retry timing: the decimal arithmetic on header values and the choice of the authoritative
  delay (\<open>proxy/responses_failure_translate.go\<close>), the parsing, clamping and budgeting of delays
  and the exponential backoff (\<open>proxy/retry.go\<close>).

  A decimal is a string of digits of any length; \<open>dec_val\<close> is its value. Durations are
  nanoseconds. \<open>http.ParseTime\<close> and \<open>time.ParseDuration\<close> are the arguments \<open>parseTime\<close> and
  \<open>parseDuration\<close>; the current time is the argument \<open>now\<close>, and \<open>rand.Int64N\<close> the argument
  \<open>rnd\<close>. A header map is a list of names with their values, in the order of iteration.
\<close>

section \<open>Decimal strings\<close>

definition normalizePositiveDecimal :: "string \<Rightarrow> string option" where
  "normalizePositiveDecimal v =
     (let value = trimSpace v;
          rest = dropWhile (\<lambda>c. c = CHR ''0'') value
      in if value = '''' then None
         else if \<not> list_all isDigit value then None
         else if rest = '''' then None
         else Some rest)"

text \<open>Adding one: the trailing nines become zeros, the digit before them is incremented.\<close>

definition incrementPositiveDecimal :: "string \<Rightarrow> string" where
  "incrementPositiveDecimal value =
     (let nines = length (takeWhile (\<lambda>c. c = CHR ''9'') (rev value));
          carry = length value - nines
      in if carry = 0 then CHR ''1'' # replicate (length value) (CHR ''0'')
         else take (carry - 1) value @ [char_of (of_char (value ! (carry - 1)) + (1::nat))] @
              replicate nines (CHR ''0''))"

definition decimalMillisecondsToRetryAfterSeconds :: "string \<Rightarrow> string option" where
  "decimalMillisecondsToRetryAfterSeconds value =
     (case normalizePositiveDecimal value of
        None \<Rightarrow> None
      | Some normalized \<Rightarrow>
          if length normalized \<le> 3 then Some ''1''
          else let secondsEnd = length normalized - 3;
                   seconds = take secondsEnd normalized
               in if drop secondsEnd normalized = ''000'' then Some seconds
                  else Some (incrementPositiveDecimal seconds))"

fun bytesLess :: "string \<Rightarrow> string \<Rightarrow> bool" where
  "bytesLess [] [] = False"
| "bytesLess [] (b # bs) = True"
| "bytesLess (a # as) [] = False"
| "bytesLess (a # as) (b # bs) = (a < b \<or> (a = b \<and> bytesLess as bs))"

definition positiveDecimalGreater :: "string \<Rightarrow> string \<Rightarrow> bool" where
  "positiveDecimalGreater left right =
     (if length left \<noteq> length right then length left > length right else bytesLess right left)"

section \<open>Headers\<close>

type_synonym header = "(string \<times> string list) list"

text \<open>\<open>http.CanonicalHeaderKey\<close>: names with a byte outside the token set stay as they are.\<close>

definition isTokenByte :: "char \<Rightarrow> bool" where
  "isTokenByte c \<longleftrightarrow> isDigit c \<or> isUpperC c \<or> isLowerC c \<or>
     c \<in> {CHR ''!'', CHR ''#'', CHR ''$'', CHR ''%'', CHR ''&'', CHR 0x27, CHR ''*'', CHR ''+'',
          CHR ''-'', CHR ''.'', CHR ''^'', CHR ''_'', CHR 0x60, CHR ''|'', CHR ''~''}"

fun canonicalBytes :: "bool \<Rightarrow> string \<Rightarrow> string" where
  "canonicalBytes up [] = []"
| "canonicalBytes up (c # cs) = (if up then toUpperC c else toLowerC c) # canonicalBytes (c = CHR ''-'') cs"

definition canonicalHeaderKey :: "string \<Rightarrow> string" where
  "canonicalHeaderKey s = (if list_all isTokenByte s then canonicalBytes True s else s)"

definition headerValuesCI :: "header \<Rightarrow> string \<Rightarrow> string list" where
  "headerValuesCI hs name =
     (case find (\<lambda>(key, values). canonicalHeaderKey key = canonicalHeaderKey name) hs of
        None \<Rightarrow> [] | Some (key, values) \<Rightarrow> values)"

definition headerGetCI :: "header \<Rightarrow> string \<Rightarrow> string" where
  "headerGetCI hs name = (case headerValuesCI hs name of [] \<Rightarrow> '''' | v # _ \<Rightarrow> v)"

section \<open>Delays\<close>

definition second :: goduration where "second = 1000000000"
definition maxRetryAfterDuration :: goduration where "maxRetryAfterDuration = 2 ^ 63 - 1"
definition maxRetryBackoff :: goduration where "maxRetryBackoff = 30 * second"
definition maxRetryWaitWithoutDeadline :: goduration where "maxRetryWaitWithoutDeadline = 5 * 60 * second"

definition durationSecondsCeil :: "goduration \<Rightarrow> int" where
  "durationSecondsCeil delay =
     (if delay \<le> 0 then 0
      else let seconds = delay div second in if delay mod second \<noteq> 0 then seconds + 1 else seconds)"

definition retryAfterDurationFromSeconds :: "int \<Rightarrow> goduration" where
  "retryAfterDurationFromSeconds seconds =
     (if seconds \<le> 0 then 0
      else if seconds > maxRetryAfterDuration div second then maxRetryAfterDuration
      else seconds * second)"

text \<open>Go's integer division truncates towards zero.\<close>

definition goDiv :: "int \<Rightarrow> int \<Rightarrow> int" where
  "goDiv a b = sgn a * sgn b * (\<bar>a\<bar> div \<bar>b\<bar>)"

text \<open>The second loop of \<open>parsePositiveDecimalClamped\<close>.\<close>

fun clampDigits :: "int \<Rightarrow> int \<Rightarrow> string \<Rightarrow> int" where
  "clampDigits mx parsed [] = parsed"
| "clampDigits mx parsed (c # cs) =
     (let digit = digitVal c
      in if parsed > goDiv (mx - digit) 10 then mx else clampDigits mx (parsed * 10 + digit) cs)"

definition parsePositiveDecimalClamped :: "string \<Rightarrow> int \<Rightarrow> int option" where
  "parsePositiveDecimalClamped value mx =
     (if value = '''' \<or> mx \<le> 0 then None
      else if \<not> list_all isDigit value then None
      else let parsed = clampDigits mx 0 value in if parsed \<le> 0 then None else Some parsed)"

text \<open>\<open>time.Time.Sub\<close> saturates.\<close>

definition timeSub :: "gotime \<Rightarrow> gotime \<Rightarrow> goduration" where
  "timeSub a b = max (- (2 ^ 63)) (min (2 ^ 63 - 1) (a - b))"

definition parseRetryAfterAt :: "(string \<Rightarrow> gotime option) \<Rightarrow> string \<Rightarrow> gotime \<Rightarrow> goduration option" where
  "parseRetryAfterAt parseTime v now =
     (let value = trimSpace v
      in if value = '''' then None
         else case parsePositiveDecimalClamped value (maxRetryAfterDuration div second + 1) of
           Some seconds \<Rightarrow> Some (retryAfterDurationFromSeconds seconds)
         | None \<Rightarrow> (case parseTime value of
             None \<Rightarrow> None
           | Some retryAt \<Rightarrow> let delay = timeSub retryAt now in if delay \<le> 0 then None else Some delay))"

definition retryAfterHeaderSeconds :: "(string \<Rightarrow> gotime option) \<Rightarrow> gotime \<Rightarrow> string \<Rightarrow> string option" where
  "retryAfterHeaderSeconds parseTime now v =
     (let value = trimSpace v
      in case normalizePositiveDecimal value of
           Some normalized \<Rightarrow> Some normalized
         | None \<Rightarrow> (case parseTime value of
             None \<Rightarrow> None
           | Some retryAt \<Rightarrow>
               if \<not> retryAt > now then None
               else let seconds = retryAt div second - now div second
                    in Some (formatInt (if seconds \<le> 0 then 1 else seconds))))"

definition responsesQuotaRemaining :: "header \<Rightarrow> string \<Rightarrow> int \<times> bool" where
  "responsesQuotaRemaining hs dimension =
     (case parseInt64 (trimSpace (headerGetCI hs (''x-ratelimit-remaining-'' @ dimension))) of
        None \<Rightarrow> (0, False)
      | Some remaining \<Rightarrow> if remaining > 0 then (0, False) else (remaining, True))"

definition responsesQuotaResetRetryAfter ::
  "(string \<Rightarrow> goduration option) \<Rightarrow> header \<Rightarrow> string \<Rightarrow> string option" where
  "responsesQuotaResetRetryAfter parseDuration hs dimension =
     (let value = trimSpace (headerGetCI hs (''x-ratelimit-reset-'' @ dimension))
      in case normalizePositiveDecimal value of
           Some normalized \<Rightarrow> Some normalized
         | None \<Rightarrow> (case parseDuration value of
             None \<Rightarrow> None
           | Some delay \<Rightarrow>
               if delay \<le> 0 then None
               else let seconds = durationSecondsCeil delay
                    in if seconds \<le> 0 then None else Some (formatInt seconds)))"

text \<open>The loop over the quota dimensions; the state is the chosen value with its source.\<close>

fun quotaLoop ::
  "(string \<Rightarrow> goduration option) \<Rightarrow> header \<Rightarrow> string list \<Rightarrow> string \<times> string \<Rightarrow> string \<times> string" where
  "quotaLoop parseDuration hs [] best = best"
| "quotaLoop parseDuration hs (dimension # ds) (resetValue, resetSource) =
     (let (remaining, exhausted) = responsesQuotaRemaining hs dimension
      in if \<not> exhausted \<or> remaining = -1 then quotaLoop parseDuration hs ds (resetValue, resetSource)
         else case responsesQuotaResetRetryAfter parseDuration hs dimension of
           None \<Rightarrow> quotaLoop parseDuration hs ds (resetValue, resetSource)
         | Some value \<Rightarrow>
             if resetValue \<noteq> '''' \<and> \<not> positiveDecimalGreater value resetValue
             then quotaLoop parseDuration hs ds (resetValue, resetSource)
             else quotaLoop parseDuration hs ds (value, ''x-ratelimit-reset-'' @ dimension))"

definition selectResponsesRetryAfter ::
  "(string \<Rightarrow> gotime option) \<Rightarrow> (string \<Rightarrow> goduration option) \<Rightarrow> gotime \<Rightarrow> header \<Rightarrow> string \<times> string" where
  "selectResponsesRetryAfter parseTime parseDuration now hs =
     (case decimalMillisecondsToRetryAfterSeconds (headerGetCI hs ''retry-after-ms'') of
        Some seconds \<Rightarrow> (seconds, ''retry-after-ms'')
      | None \<Rightarrow> (case retryAfterHeaderSeconds parseTime now (headerGetCI hs ''Retry-After'') of
          Some seconds \<Rightarrow> (seconds, ''Retry-After'')
        | None \<Rightarrow>
            let (resetValue, resetSource) =
                  quotaLoop parseDuration hs [''tokens'', ''requests''] ('''', '''')
            in if resetValue \<noteq> '''' then (resetValue, resetSource) else ('''', '''')))"

definition responsesQuotaEvidence ::
  "(string \<Rightarrow> gotime option) \<Rightarrow> (string \<Rightarrow> goduration option) \<Rightarrow> gotime \<Rightarrow> header \<Rightarrow> bool" where
  "responsesQuotaEvidence parseTime parseDuration now hs =
     (if snd (selectResponsesRetryAfter parseTime parseDuration now hs) \<in> {''retry-after-ms'', ''Retry-After''}
      then True
      else list_ex (\<lambda>dimension. let (remaining, exhausted) = responsesQuotaRemaining hs dimension
                               in exhausted \<and> remaining \<noteq> -1) [''tokens'', ''requests''])"

text \<open>What a \<open>context.Context\<close> answers at one moment: its error, whether its cause is the
  shutdown of the proxy, and the time left until its deadline.\<close>

datatype ctxErr = ctxCanceled | ctxDeadlineExceeded

record ctxView =
  cvErr :: "ctxErr option"
  cvShutdown :: bool
  cvRemaining :: "goduration option"

definition retryDelayFitsBudget :: "ctxView \<Rightarrow> goduration \<Rightarrow> bool" where
  "retryDelayFitsBudget ctx delay =
     (if cvErr ctx \<noteq> None then False
      else case cvRemaining ctx of
        Some left \<Rightarrow> delay < left
      | None \<Rightarrow> delay \<le> maxRetryWaitWithoutDeadline)"

fun backoffLoop :: "nat \<Rightarrow> goduration \<Rightarrow> goduration" where
  "backoffLoop 0 delay = delay"
| "backoffLoop (Suc n) delay =
     (if delay \<ge> maxRetryBackoff \<or> delay > maxRetryBackoff div 2 then maxRetryBackoff
      else backoffLoop n (delay * 2))"

definition backoff :: "(int \<Rightarrow> int) \<Rightarrow> goduration \<Rightarrow> int \<Rightarrow> goduration" where
  "backoff rnd base attempt =
     (let base' = (if base \<le> 0 then 1 else base);
          attempt' = (if attempt < 0 then 0 else attempt);
          delay = backoffLoop (nat attempt') base';
          delay' = (if delay > maxRetryBackoff then maxRetryBackoff else delay);
          jitterBound = delay' div 4
      in if jitterBound \<le> 0 then delay' else delay' + rnd jitterBound)"

section \<open>Facts on digits\<close>

lemma of_char_digit0: "(of_char (CHR ''0'') :: int) = 48" "(of_char (CHR ''0'') :: nat) = 48"
  "(of_char (CHR ''9'') :: nat) = 57"
  by (simp_all add: of_char_def)

lemma of_char_int_le:
  "48 \<le> (of_char c :: int) \<longleftrightarrow> 48 \<le> (of_char c :: nat)"
  "(of_char c :: int) \<le> 57 \<longleftrightarrow> (of_char c :: nat) \<le> 57"
  using of_nat_le_iff[of 48 "of_char c :: nat", where 'a = int] of_nat_le_iff[of "of_char c :: nat" 57, where 'a = int]
  by (simp_all add: of_nat_of_char)

lemma isDigit_int: "isDigit c \<longleftrightarrow> 48 \<le> (of_char c :: int) \<and> (of_char c :: int) \<le> 57"
  by (simp add: isDigit_def less_eq_char_def of_char_digit0 of_char_int_le)

lemma digitVal_int: "digitVal c = (of_char c :: int) - 48"
  by (simp add: digitVal_def of_char_digit0)

lemma digitVal_bounds: "isDigit c \<Longrightarrow> 0 \<le> digitVal c \<and> digitVal c \<le> 9"
  by (simp add: isDigit_int digitVal_int)

lemma digitChar_val:
  assumes "0 \<le> d" "d \<le> 9"
  shows "isDigit (digitChar d) \<and> digitVal (digitChar d) = d"
proof -
  have "(of_char (digitChar d) :: int) = int (of_char (digitChar d) :: nat)"
    by (simp add: of_nat_of_char)
  also have "(of_char (digitChar d) :: nat) = nat (d + 48)"
    using assms by (simp add: digitChar_def of_char_digit0)
  finally have "(of_char (digitChar d) :: int) = d + 48" using assms by (simp del: of_nat_of_char)
  then show ?thesis using assms by (simp add: isDigit_int digitVal_int)
qed

lemma foldl_dec: "foldl (\<lambda>v c. v * 10 + digitVal c) a s = a * 10 ^ length s + dec_val s"
proof (induction s arbitrary: a)
  case (Cons c s)
  have "foldl (\<lambda>v c. v * 10 + digitVal c) a (c # s) = (a * 10 + digitVal c) * 10 ^ length s + dec_val s"
    using Cons[of "a * 10 + digitVal c"] by simp
  moreover have "dec_val (c # s) = digitVal c * 10 ^ length s + dec_val s"
    using Cons[of "digitVal c"] by (simp add: dec_val_def)
  ultimately show ?case by (simp add: algebra_simps)
qed (simp add: dec_val_def)

lemma dec_val_Nil [simp]: "dec_val [] = 0"
  by (simp add: dec_val_def)

lemma dec_val_Cons: "dec_val (c # s) = digitVal c * 10 ^ length s + dec_val s"
  using foldl_dec[of "digitVal c" s] by (simp add: dec_val_def)

lemma dec_val_append: "dec_val (s @ t) = dec_val s * 10 ^ length t + dec_val t"
  using foldl_dec[of "dec_val s" t] by (simp add: dec_val_def)

lemma dec_val_nonneg: "list_all isDigit s \<Longrightarrow> 0 \<le> dec_val s"
  by (induction s) (auto simp: dec_val_Cons dest: digitVal_bounds)

lemma dec_val_less: "list_all isDigit s \<Longrightarrow> dec_val s < 10 ^ length s"
proof (induction s)
  case (Cons c s)
  then have "digitVal c * 10 ^ length s \<le> 9 * 10 ^ length s"
    using digitVal_bounds[of c] by (intro mult_right_mono) auto
  moreover have "dec_val s < 10 ^ length s" using Cons by simp
  ultimately have "digitVal c * 10 ^ length s + dec_val s < 9 * 10 ^ length s + 10 ^ length s"
    by (rule add_le_less_mono)
  then show ?case by (simp add: dec_val_Cons)
qed simp

lemma dec_val_lower:
  assumes "list_all isDigit (c # s)" "c \<noteq> CHR ''0''"
  shows "10 ^ length s \<le> dec_val (c # s)"
proof -
  have "digitVal c \<noteq> 0"
    using assms(2) by (metis digitVal_def eq_iff_diff_eq_0 of_char_eq_iff)
  then have "1 \<le> digitVal c" using assms(1) digitVal_bounds[of c] by auto
  then have "1 * 10 ^ length s \<le> digitVal c * 10 ^ length s"
    by (intro mult_right_mono) auto
  moreover have "0 \<le> dec_val s" using assms(1) by (intro dec_val_nonneg) simp
  ultimately show ?thesis unfolding dec_val_Cons by linarith
qed

lemma digitVal_zero [simp]: "digitVal (CHR ''0'') = 0"
  by (simp add: digitVal_def)

lemma isDigit_zero [simp]: "isDigit (CHR ''0'')" "isDigit (CHR ''1'')"
  by (simp_all add: isDigit_int of_char_def)

lemma digitVal_one [simp]: "digitVal (CHR ''1'') = 1"
  by (simp add: digitVal_def of_char_def)

lemma digitVal_eq: "digitVal a = digitVal b \<longleftrightarrow> a = b"
  by (simp add: digitVal_int)

lemma digitVal_nine: "digitVal c = 9 \<longleftrightarrow> c = CHR ''9''"
  using digitVal_eq[of c "CHR ''9''"] by (simp add: digitVal_def)

lemma dec_val_zeros [simp]: "dec_val (replicate n (CHR ''0'')) = 0"
  by (induction n) (simp_all add: dec_val_Cons)

lemma dec_val_nines: "dec_val (replicate n (CHR ''9'')) = 10 ^ n - 1"
  by (induction n) (simp_all add: dec_val_Cons digitVal_def of_char_def)

lemma dec_val_strip: "dec_val (dropWhile (\<lambda>c. c = CHR ''0'') s) = dec_val s"
  by (induction s) (simp_all add: dec_val_Cons)

text \<open>The canonical form of a positive decimal: digits, no leading zero, not empty.\<close>

definition normalDec :: "string \<Rightarrow> bool" where
  "normalDec s \<longleftrightarrow> (case s of [] \<Rightarrow> False | c # _ \<Rightarrow> c \<noteq> CHR ''0'') \<and> list_all isDigit s"

lemma normalDec_pos:
  assumes "normalDec s"
  shows "10 ^ (length s - 1) \<le> dec_val s \<and> dec_val s < 10 ^ length s"
proof (cases s)
  case (Cons c cs)
  with assms have "list_all isDigit (c # cs)" "c \<noteq> CHR ''0''" by (auto simp: normalDec_def)
  with dec_val_lower[of c cs] dec_val_less[of "c # cs"] Cons show ?thesis by simp
qed (use assms in \<open>simp add: normalDec_def\<close>)

lemma dropWhile_normal:
  assumes "list_all isDigit s" "dropWhile (\<lambda>c. c = CHR ''0'') s \<noteq> []"
  shows "normalDec (dropWhile (\<lambda>c. c = CHR ''0'') s)"
proof -
  let ?r = "dropWhile (\<lambda>c. c = CHR ''0'') s"
  have "hd ?r \<noteq> CHR ''0''" using hd_dropWhile[OF assms(2)] by simp
  moreover have "list_all isDigit ?r"
    using assms(1) set_dropWhileD[of _ "\<lambda>c. c = CHR ''0''" s] by (auto simp: list_all_iff)
  ultimately show ?thesis using assms(2) by (cases ?r) (auto simp: normalDec_def)
qed

lemma dropWhile_pos:
  assumes "list_all isDigit s"
  shows "dropWhile (\<lambda>c. c = CHR ''0'') s \<noteq> [] \<longleftrightarrow> 0 < dec_val s"
proof
  let ?r = "dropWhile (\<lambda>c. c = CHR ''0'') s"
  assume r: "?r \<noteq> []"
  from normalDec_pos[OF dropWhile_normal[OF assms r]]
  have "(10::int) ^ (length ?r - 1) \<le> dec_val s" by (simp add: dec_val_strip)
  moreover have "(0::int) < 10 ^ (length ?r - 1)" by simp
  ultimately show "0 < dec_val s" by linarith
next
  assume "0 < dec_val s"
  then show "dropWhile (\<lambda>c. c = CHR ''0'') s \<noteq> []"
    using dec_val_strip[of s] by (metis dec_val_Nil less_irrefl)
qed

lemma normalize_spec:
  "normalizePositiveDecimal v = Some s \<longleftrightarrow>
     trimSpace v \<noteq> [] \<and> list_all isDigit (trimSpace v) \<and> 0 < dec_val (trimSpace v) \<and>
     s = dropWhile (\<lambda>c. c = CHR ''0'') (trimSpace v)"
proof (cases "list_all isDigit (trimSpace v)")
  case True
  then show ?thesis
    unfolding normalizePositiveDecimal_def Let_def using dropWhile_pos[OF True]
    by (cases "trimSpace v = []"; cases "dropWhile (\<lambda>c. c = CHR ''0'') (trimSpace v) = []") auto
next
  case False
  then show ?thesis by (simp add: normalizePositiveDecimal_def Let_def)
qed

lemma normalize_normal:
  "normalizePositiveDecimal v = Some s \<Longrightarrow> normalDec s \<and> dec_val s = dec_val (trimSpace v)"
  unfolding normalize_spec
  by (metis dec_val_Nil dec_val_strip dropWhile_normal less_irrefl)

section \<open>Arithmetic on decimals\<close>

lemma nines_split:
  defines "n s \<equiv> length (takeWhile (\<lambda>c. c = CHR ''9'') (rev s))"
  shows "s = take (length s - n s) s @ replicate (n s) (CHR ''9'')"
    and "length s - n s \<noteq> 0 \<Longrightarrow> s ! (length s - n s - 1) \<noteq> CHR ''9''"
proof -
  let ?P = "\<lambda>c. c = CHR ''9''"
  let ?t = "takeWhile ?P (rev s)"
  have t: "?t = replicate (n s) (CHR ''9'')"
    unfolding n_def using set_takeWhileD[of _ ?P "rev s"] by (metis replicate_eqI)
  have s: "s = rev (dropWhile ?P (rev s)) @ replicate (n s) (CHR ''9'')"
    by (metis rev_append rev_replicate rev_rev_ident t takeWhile_dropWhile_id)
  then have tk: "take (length s - n s) s = rev (dropWhile ?P (rev s))"
    by (metis append_eq_conv_conj length_append length_replicate add_diff_cancel_right')
  show "s = take (length s - n s) s @ replicate (n s) (CHR ''9'')" using s tk by simp
  assume ne: "length s - n s \<noteq> 0"
  then have "rev (dropWhile ?P (rev s)) \<noteq> []" using tk by (metis length_take diff_le_self min.absorb2 list.size(3))
  then have d: "dropWhile ?P (rev s) \<noteq> []" by simp
  have "last (take (length s - n s) s) = hd (dropWhile ?P (rev s))"
    unfolding tk using d by (simp add: last_rev)
  moreover have "hd (dropWhile ?P (rev s)) \<noteq> CHR ''9''" using hd_dropWhile[OF d] by simp
  moreover have "last (take (length s - n s) s) = s ! (length s - n s - 1)"
    using ne by (subst last_conv_nth) (auto simp: nth_take)
  ultimately show "s ! (length s - n s - 1) \<noteq> CHR ''9''" by simp
qed

lemma succ_digit:
  assumes "isDigit c" "c \<noteq> CHR ''9''"
  defines "d \<equiv> char_of (of_char c + (1::nat))"
  shows "isDigit d" "digitVal d = digitVal c + 1" "d \<noteq> CHR ''0''"
proof -
  have "(of_char c :: nat) + 1 < 256" using assms(1) by (simp add: isDigit_def less_eq_char_def of_char_def)
  then have "(of_char d :: nat) = of_char c + 1" by (simp add: d_def)
  then have "(of_char d :: int) = of_char c + 1"
    by (metis of_nat_of_char of_nat_1 of_nat_add)
  then show v: "digitVal d = digitVal c + 1" by (simp add: digitVal_int)
  have "digitVal c \<noteq> 9" using assms(2) digitVal_nine by simp
  with digitVal_bounds[OF assms(1)] v show "isDigit d" by (simp add: isDigit_int digitVal_int)
  show "d \<noteq> CHR ''0''" using v digitVal_bounds[OF assms(1)] digitVal_zero by auto
qed

lemma increment_spec:
  assumes "normalDec s"
  shows "normalDec (incrementPositiveDecimal s) \<and> dec_val (incrementPositiveDecimal s) = dec_val s + 1"
proof -
  let ?n = "length (takeWhile (\<lambda>c. c = CHR ''9'') (rev s))"
  let ?k = "length s - ?n"
  have digits: "list_all isDigit s" using assms by (cases s) (auto simp: normalDec_def)
  note sp = nines_split[of s]
  show ?thesis
  proof (cases "?k = 0")
    case True
    then have s: "s = replicate ?n (CHR ''9'')" using sp(1) by simp
    then have len: "?n = length s" by (metis length_replicate)
    have "dec_val s = 10 ^ length s - 1" using s len dec_val_nines[of "length s"] by simp
    moreover have "incrementPositiveDecimal s = CHR ''1'' # replicate (length s) (CHR ''0'')"
      using True by (simp add: incrementPositiveDecimal_def Let_def)
    ultimately show ?thesis by (simp add: dec_val_Cons normalDec_def list_all_iff)
  next
    case False
    let ?c = "s ! (?k - 1)" and ?p = "take (?k - 1) s"
    let ?d = "char_of (of_char (s ! (?k - 1)) + (1::nat))"
    have c9: "?c \<noteq> CHR ''9''" using sp(2)[OF False] .
    have kl: "?k - 1 < length s" using False by linarith
    have cd: "isDigit ?c" using digits kl by (simp add: list_all_length)
    have tk: "take ?k s = ?p @ [?c]"
    proof -
      have "Suc (?k - 1) = ?k" using False by linarith
      then show ?thesis using take_Suc_conv_app_nth[OF kl] by (simp only:)
    qed
    have s: "s = ?p @ [?c] @ replicate ?n (CHR ''9'')" using sp(1) tk by (metis append.assoc)
    have i: "incrementPositiveDecimal s = ?p @ [?d] @ replicate ?n (CHR ''0'')"
      using False by (simp add: incrementPositiveDecimal_def Let_def)
    have "dec_val s = dec_val (?p @ [?c]) * 10 ^ ?n + (10 ^ ?n - 1)"
      using arg_cong[OF s, of dec_val] by (simp only: append.assoc[symmetric] dec_val_append
          length_replicate dec_val_nines)
    moreover have "dec_val (incrementPositiveDecimal s) = dec_val (?p @ [?d]) * 10 ^ ?n"
      unfolding i by (simp only: append.assoc[symmetric] dec_val_append length_replicate dec_val_zeros add_0_right)
    moreover have "dec_val (?p @ [?d]) = dec_val (?p @ [?c]) + 1"
      using succ_digit(2)[OF cd c9] by (simp add: dec_val_append dec_val_Cons)
    ultimately have v: "dec_val (incrementPositiveDecimal s) = dec_val s + 1"
      by (simp add: algebra_simps)
    have "list_all isDigit ?p" using digits by (auto simp: list_all_iff dest: in_set_takeD)
    then have dg: "list_all isDigit (incrementPositiveDecimal s)"
      unfolding i using succ_digit(1)[OF cd c9] by (auto simp: list_all_iff)
    have hd: "hd (incrementPositiveDecimal s) \<noteq> CHR ''0''"
    proof (cases "?p = []")
      case True
      then show ?thesis
        unfolding i by (simp only: append_Nil append_Cons list.sel succ_digit(3)[OF cd c9] not_False_eq_True)
    next
      case p: False
      then have "hd ?p = hd s" by (cases s; cases "?k - 1") auto
      then show ?thesis unfolding i using p assms by (cases s) (auto simp: normalDec_def)
    qed
    have "incrementPositiveDecimal s \<noteq> []" unfolding i by simp
    with dg hd v show ?thesis
      by (cases "incrementPositiveDecimal s") (auto simp: normalDec_def)
  qed
qed

lemma formatNat_spec:
  "list_all isDigit (formatNat n) \<and> dec_val (formatNat n) = int n \<and> (0 < n \<longrightarrow> normalDec (formatNat n))"
proof (induction n rule: formatNat.induct)
  case (1 n)
  show ?case
  proof (cases "n < 10")
    case True
    then have d: "isDigit (digitChar (int n))" "digitVal (digitChar (int n)) = int n"
      using digitChar_val[of "int n"] by simp_all
    then have "0 < n \<Longrightarrow> digitChar (int n) \<noteq> CHR ''0''" using digitVal_zero by force
    with True d show ?thesis by (subst (1 2 3) formatNat.simps) (simp add: dec_val_Cons normalDec_def)
  next
    case False
    then have d: "isDigit (digitChar (int (n mod 10)))" "digitVal (digitChar (int (n mod 10))) = int (n mod 10)"
      using digitChar_val[of "int (n mod 10)"] by simp_all
    have e: "formatNat n = formatNat (n div 10) @ [digitChar (int (n mod 10))]"
      using False by (subst formatNat.simps) simp
    have IH: "list_all isDigit (formatNat (n div 10))" "dec_val (formatNat (n div 10)) = int (n div 10)"
      "normalDec (formatNat (n div 10))" using 1[OF False] False by simp_all
    have "dec_val (formatNat n) = int (n div 10) * 10 + int (n mod 10)"
      unfolding e using IH(2) d(2) by (simp add: dec_val_append dec_val_Cons)
    also have "\<dots> = int n" by presburger
    finally show ?thesis
      using IH d(1) unfolding e by (cases "formatNat (n div 10)") (auto simp: normalDec_def)
  qed
qed

lemma formatInt_normal: "0 < i \<Longrightarrow> normalDec (formatInt i) \<and> dec_val (formatInt i) = i"
  using formatNat_spec[of "nat i"] by (simp add: formatInt_def)

lemma normalDec_one [simp]: "normalDec ''1''" "dec_val ''1'' = 1"
  by (simp_all add: normalDec_def dec_val_Cons)

lemma normalDec_take: "normalDec s \<Longrightarrow> 0 < n \<Longrightarrow> normalDec (take n s)"
  by (cases s; cases n) (auto simp: normalDec_def list_all_iff dest: in_set_takeD)

lemma ms_seconds:
  assumes "normalDec s" "3 < length s"
  defines "q \<equiv> take (length s - 3) s" and "r \<equiv> drop (length s - 3) s"
  shows "dec_val s = dec_val q * 1000 + dec_val r" "0 \<le> dec_val r" "dec_val r < 1000"
    "dec_val r = 0 \<longleftrightarrow> r = ''000''"
proof -
  have len: "length r = 3" using assms(2) by (simp add: r_def)
  have dg: "list_all isDigit r"
    using assms(1) unfolding r_def normalDec_def by (auto simp: list_all_iff dest: in_set_dropD)
  show "dec_val s = dec_val q * 1000 + dec_val r"
    using dec_val_append[of q r] len by (simp add: q_def r_def)
  show "0 \<le> dec_val r" using dec_val_nonneg[OF dg] .
  show "dec_val r < 1000" using dec_val_less[OF dg] len by simp
  obtain a b c where r: "r = [a, b, c]" using len by (auto simp: length_Suc_conv eval_nat_numeral)
  have "isDigit a" "isDigit b" "isDigit c" using dg r by simp_all
  note bounds = this[THEN digitVal_bounds]
  have v: "dec_val r = digitVal a * 100 + digitVal b * 10 + digitVal c"
    unfolding r by (simp add: dec_val_Cons)
  have z: "digitVal d = 0 \<longleftrightarrow> d = CHR ''0''" for d using digitVal_eq[of d "CHR ''0''"] by simp
  show "dec_val r = 0 \<longleftrightarrow> r = ''000''"
  proof
    assume "dec_val r = 0"
    with v bounds have "digitVal a = 0" "digitVal b = 0" "digitVal c = 0" by linarith+
    then show "r = ''000''" by (simp add: r z)
  qed (simp add: dec_val_Cons)
qed

lemma millis_spec:
  "case decimalMillisecondsToRetryAfterSeconds v of
     None \<Rightarrow> normalizePositiveDecimal v = None
   | Some s \<Rightarrow> normalDec s \<and> 0 < dec_val (trimSpace v) \<and>
       dec_val s = (dec_val (trimSpace v) + 999) div 1000"
proof (cases "normalizePositiveDecimal v")
  case None
  then show ?thesis by (simp add: decimalMillisecondsToRetryAfterSeconds_def)
next
  case (Some s)
  then have s: "normalDec s" "dec_val s = dec_val (trimSpace v)" by (auto dest: normalize_normal)
  have pos: "0 < dec_val (trimSpace v)" using Some by (simp add: normalize_spec)
  show ?thesis
  proof (cases "length s \<le> 3")
    case True
    have "dec_val s < 10 ^ length s" using normalDec_pos[OF s(1)] by simp
    also have "(10::int) ^ length s \<le> 10 ^ 3" using True by (intro power_increasing) auto
    finally have "dec_val s < 1000" by simp
    then have "(dec_val s + 999) div 1000 = 1" using pos s(2) by simp
    then show ?thesis using True Some s pos by (simp add: decimalMillisecondsToRetryAfterSeconds_def)
  next
    case False
    let ?q = "take (length s - 3) s" and ?r = "drop (length s - 3) s"
    have n: "normalDec ?q" using normalDec_take[OF s(1)] False by simp
    note ms = ms_seconds[OF s(1)] 
    show ?thesis
    proof (cases "?r = ''000''")
      case True
      then have "(dec_val s + 999) div 1000 = dec_val ?q" using ms(1,4) False by simp
      then show ?thesis using True False Some s pos n
        by (simp add: decimalMillisecondsToRetryAfterSeconds_def Let_def)
    next
      case r: False
      then have "0 < dec_val ?r" using ms(2,4) False by force
      then have "(dec_val s + 999) div 1000 = dec_val ?q + 1" using ms(1,3) False by simp
      then show ?thesis using r False Some s pos increment_spec[OF n]
        by (simp add: decimalMillisecondsToRetryAfterSeconds_def Let_def)
    qed
  qed
qed

section \<open>Properties\<close>

text \<open>A millisecond delay of any length is rounded up to whole seconds exactly, on the digit
  string, without converting it to a machine integer; a value that is not a positive decimal
  is refused.\<close>

theorem millis_rounded_up:
  "case decimalMillisecondsToRetryAfterSeconds v of
     None \<Rightarrow> normalizePositiveDecimal v = None
   | Some s \<Rightarrow> normalDec s \<and> 0 < dec_val (trimSpace v) \<and>
       dec_val s = (dec_val (trimSpace v) + 999) div 1000"
  by (rule millis_spec)

lemma goDiv_nonneg: "0 \<le> a \<Longrightarrow> goDiv a 10 = a div 10"
  by (cases "a = 0") (simp_all add: goDiv_def)

lemma clampDigits_spec:
  assumes "list_all isDigit s" "9 \<le> mx" "0 \<le> parsed" "parsed \<le> mx"
  shows "clampDigits mx parsed s = min mx (parsed * 10 ^ length s + dec_val s)"
  using assms
proof (induction s arbitrary: parsed)
  case (Cons c s)
  let ?d = "digitVal c"
  have d: "0 \<le> ?d" "?d \<le> 9" using Cons.prems(1) digitVal_bounds by auto
  have g: "goDiv (mx - ?d) 10 = (mx - ?d) div 10" using d Cons.prems(2) by (intro goDiv_nonneg) simp
  have split: "parsed > (mx - ?d) div 10 \<longleftrightarrow> parsed * 10 + ?d > mx" by presburger
  have val: "parsed * 10 ^ length (c # s) + dec_val (c # s) =
      (parsed * 10 + ?d) * 10 ^ length s + dec_val s"
    by (simp add: dec_val_Cons algebra_simps)
  have tail: "0 \<le> dec_val s" using Cons.prems(1) by (intro dec_val_nonneg) simp
  show ?case
  proof (cases "parsed * 10 + ?d > mx")
    case True
    have "mx * 1 \<le> (parsed * 10 + ?d) * 10 ^ length s"
      using True Cons.prems(2) by (intro mult_mono) auto
    then have "mx \<le> parsed * 10 ^ length (c # s) + dec_val (c # s)" unfolding val using tail by linarith
    then show ?thesis using True g split by (simp add: Let_def min_def)
  next
    case False
    then have "clampDigits mx parsed (c # s) = clampDigits mx (parsed * 10 + ?d) s"
      using g split by (simp add: Let_def)
    also have "\<dots> = min mx ((parsed * 10 + ?d) * 10 ^ length s + dec_val s)"
      using Cons.IH[of "parsed * 10 + ?d"] Cons.prems False d by simp
    finally show ?thesis unfolding val .
  qed
qed simp

lemma duration_consts:
  "maxRetryAfterDuration = 9223372036854775807" "second = 1000000000"
  "maxRetryAfterDuration div second = 9223372036"
  by (simp_all add: maxRetryAfterDuration_def second_def)

text \<open>A Retry-After header is honoured exactly and never overflows: a positive number of
  seconds of any length is that duration, capped at the largest representable one, and every
  accepted delay, numeric or dated, is positive and representable.\<close>

theorem retry_after_exact:
  "(list_all isDigit (trimSpace v) \<and> 0 < dec_val (trimSpace v) \<longrightarrow>
     parseRetryAfterAt parseTime v now = Some (min maxRetryAfterDuration (dec_val (trimSpace v) * second))) \<and>
   (case parseRetryAfterAt parseTime v now of
      None \<Rightarrow> True | Some d \<Rightarrow> 0 < d \<and> d \<le> maxRetryAfterDuration)"
proof -
  let ?v = "trimSpace v" and ?mx = "maxRetryAfterDuration div second + 1"
  have parsed: "parsePositiveDecimalClamped ?v ?mx = (if ?v = [] \<or> \<not> list_all isDigit ?v \<or> dec_val ?v \<le> 0
      then None else Some (min ?mx (dec_val ?v)))"
    using clampDigits_spec[of ?v ?mx 0]
    by (auto simp: parsePositiveDecimalClamped_def Let_def duration_consts)
  have conv: "0 < s \<Longrightarrow> retryAfterDurationFromSeconds (min ?mx s) = min maxRetryAfterDuration (s * second)" for s
    by (auto simp: retryAfterDurationFromSeconds_def duration_consts min_def)
  have "parseRetryAfterAt parseTime v now = Some (min maxRetryAfterDuration (dec_val ?v * second))"
    if "list_all isDigit ?v" "0 < dec_val ?v"
  proof -
    have "?v \<noteq> []" using that(2) by force
    then show ?thesis using that parsed conv by (simp add: parseRetryAfterAt_def Let_def)
  qed
  moreover have "0 < d \<and> d \<le> maxRetryAfterDuration" if "parseRetryAfterAt parseTime v now = Some d" for d
  proof (cases "parsePositiveDecimalClamped ?v ?mx")
    case (Some s)
    then have "0 < dec_val ?v" "s = min ?mx (dec_val ?v)" using parsed by (auto split: if_splits)
    moreover have "d = retryAfterDurationFromSeconds s"
      using that Some by (auto simp: parseRetryAfterAt_def Let_def split: if_splits)
    ultimately show ?thesis using conv by (simp add: duration_consts)
  next
    case None
    then show ?thesis
      using that by (auto simp: parseRetryAfterAt_def Let_def timeSub_def duration_consts split: if_splits option.splits)
  qed
  ultimately show ?thesis by (auto split: option.splits)
qed

lemma retry_after_exact_witness:
  "parseRetryAfterAt (\<lambda>_. None) ''120'' 0 = Some (120 * second)"
proof -
  have t: "trimSpace ''120'' = ''120''"
    by (simp add: trimSpace_def trimWith.simps asciiSpace_def spaceRune3_def)
  have "list_all isDigit (trimSpace ''120'')" "dec_val (trimSpace ''120'') = 120"
    unfolding t by (simp_all add: isDigit_int dec_val_Cons digitVal_int)
  then show ?thesis
    using retry_after_exact[of "''120''" "\<lambda>_. None" 0] by (simp add: duration_consts)
qed

lemma backoff_consts: "maxRetryBackoff = 30000000000"
  by (simp add: maxRetryBackoff_def second_def)

lemma backoffLoop_spec:
  "0 < d \<Longrightarrow> min maxRetryBackoff (backoffLoop n d) = min maxRetryBackoff (d * 2 ^ n) \<and> 0 < backoffLoop n d"
proof (induction n arbitrary: d)
  case (Suc n)
  show ?case
  proof (cases "d > maxRetryBackoff div 2")
    case True
    have "maxRetryBackoff * 1 \<le> (d * 2) * 2 ^ n"
      using True Suc.prems by (intro mult_mono) (simp_all add: backoff_consts)
    then show ?thesis using True by (simp add: mult.assoc backoff_consts min_def)
  next
    case False
    then show ?thesis using Suc.IH[of "d * 2"] Suc.prems by (simp add: mult.assoc backoff_consts)
  qed
qed simp

definition idealBackoff :: "goduration \<Rightarrow> int \<Rightarrow> goduration" where
  "idealBackoff base attempt = min maxRetryBackoff (max 1 base * 2 ^ nat (max 0 attempt))"

text \<open>The backoff before retry number \<open>attempt\<close> is the base delay doubled that many times,
  capped at thirty seconds, plus a jitter of less than a quarter of it.\<close>

theorem backoff_bounds:
  assumes "\<And>n. 0 < n \<Longrightarrow> 0 \<le> rnd n \<and> rnd n < n"
  shows "idealBackoff base attempt \<le> backoff rnd base attempt \<and>
    backoff rnd base attempt \<le> idealBackoff base attempt + idealBackoff base attempt div 4 \<and>
    backoff rnd base attempt \<le> maxRetryBackoff + maxRetryBackoff div 4"
proof -
  let ?ideal = "idealBackoff base attempt"
  let ?b = "if base \<le> 0 then 1 else base" and ?a = "if attempt < 0 then 0 else attempt"
  have b: "?b = max 1 base" "0 < ?b" and a: "?a = max 0 attempt" by auto
  from backoffLoop_spec[OF b(2), of "nat ?a"]
  have d: "min maxRetryBackoff (backoffLoop (nat ?a) ?b) = ?ideal" unfolding idealBackoff_def a b(1) by simp
  have d': "(if backoffLoop (nat ?a) ?b > maxRetryBackoff then maxRetryBackoff else backoffLoop (nat ?a) ?b) = ?ideal"
    unfolding d[symmetric] by auto
  have e: "backoff rnd base attempt = (if ?ideal div 4 \<le> 0 then ?ideal else ?ideal + rnd (?ideal div 4))"
    unfolding backoff_def Let_def d' ..
  have "0 < ?ideal" unfolding idealBackoff_def by (simp add: backoff_consts)
  moreover have "?ideal \<le> maxRetryBackoff" unfolding idealBackoff_def by simp
  ultimately show ?thesis
    using assms(1)[of "?ideal div 4"] unfolding e by (auto simp: backoff_consts)
qed

lemma backoff_bounds_witness:
  "backoff (\<lambda>n. 0) second 3 \<le> 10 * second"
  using backoff_bounds[of "\<lambda>n. 0" second 3] by (simp add: idealBackoff_def second_def backoff_consts)

section \<open>Which delay is authoritative\<close>

lemma digitVal_less: "digitVal a < digitVal b \<longleftrightarrow> a < b"
proof -
  have "(of_char a :: int) < of_char b \<longleftrightarrow> (of_char a :: nat) < of_char b"
    using of_nat_less_iff[of "of_char a :: nat" "of_char b", where 'a = int]
    by (simp add: of_nat_of_char)
  then show ?thesis by (simp add: digitVal_int less_char_def)
qed

lemma bytesLess_dec:
  assumes "length s = length t" "list_all isDigit s" "list_all isDigit t"
  shows "bytesLess s t \<longleftrightarrow> dec_val s < dec_val t"
  using assms
proof (induction s t rule: list_induct2)
  case (Cons a s b t)
  have bs: "0 \<le> dec_val s" "dec_val s < 10 ^ length s" "0 \<le> dec_val t" "dec_val t < 10 ^ length s"
    using Cons dec_val_nonneg dec_val_less by (simp_all, metis)
  consider "a < b" | "a = b" | "b < a" by fastforce
  then show ?case
  proof cases
    case 1
    then have "digitVal a + 1 \<le> digitVal b" using digitVal_less[of a b] by simp
    then have "(digitVal a + 1) * 10 ^ length s \<le> digitVal b * 10 ^ length s"
      by (intro mult_right_mono) auto
    with bs 1 Cons show ?thesis by (simp add: dec_val_Cons algebra_simps)
  next
    case 2
    with Cons show ?thesis by (simp add: dec_val_Cons)
  next
    case 3
    then have "digitVal b + 1 \<le> digitVal a" using digitVal_less[of b a] by simp
    then have "(digitVal b + 1) * 10 ^ length s \<le> digitVal a * 10 ^ length s"
      by (intro mult_right_mono) auto
    with bs 3 Cons show ?thesis by (auto simp: dec_val_Cons algebra_simps)
  qed
qed simp

lemma greater_dec:
  assumes "normalDec s" "normalDec t"
  shows "positiveDecimalGreater s t \<longleftrightarrow> dec_val s > dec_val t"
proof -
  have len: "dec_val x < dec_val y" if "normalDec x" "normalDec y" "length x < length y" for x y
  proof -
    have "dec_val x < 10 ^ length x" using normalDec_pos[OF that(1)] by simp
    also have "(10::int) ^ length x \<le> 10 ^ (length y - 1)" using that(3) by (intro power_increasing) auto
    also have "\<dots> \<le> dec_val y" using normalDec_pos[OF that(2)] by simp
    finally show ?thesis .
  qed
  have dg: "list_all isDigit s" "list_all isDigit t" using assms by (auto simp: normalDec_def)
  consider "length s < length t" | "length t < length s" | "length s = length t" by linarith
  then show ?thesis
    using len[OF assms] len[OF assms(2,1)] bytesLess_dec[of t s] dg
    by cases (auto simp: positiveDecimalGreater_def)
qed

lemma normalDec_nonneg: "normalDec s \<Longrightarrow> 0 \<le> dec_val s"
  by (auto simp: normalDec_def intro: dec_val_nonneg)

lemma reset_normal:
  "responsesQuotaResetRetryAfter pd hs d = Some v \<Longrightarrow> normalDec v"
  unfolding responsesQuotaResetRetryAfter_def Let_def
  by (auto split: option.splits if_splits
      dest: normalize_normal intro: formatInt_normal[THEN conjunct1])

text \<open>What a dimension contributes: its reset, when its quota is known to be exhausted.\<close>

definition quotaReset ::
  "(string \<Rightarrow> goduration option) \<Rightarrow> header \<Rightarrow> string \<Rightarrow> string option" where
  "quotaReset pd hs d =
     (let (remaining, exhausted) = responsesQuotaRemaining hs d
      in if \<not> exhausted \<or> remaining = -1 then None else responsesQuotaResetRetryAfter pd hs d)"

lemma quotaReset_normal: "quotaReset pd hs d = Some v \<Longrightarrow> normalDec v"
  by (auto simp: quotaReset_def Let_def intro: reset_normal split: prod.splits if_splits)

definition optVal :: "string option \<Rightarrow> int" where
  "optVal v = (case v of None \<Rightarrow> 0 | Some s \<Rightarrow> dec_val s)"

lemma quotaLoop_spec:
  assumes "best = [] \<and> src = [] \<or> normalDec best \<and> src \<noteq> []" "quotaLoop pd hs ds (best, src) = (v, s)"
  shows "(v = [] \<and> s = [] \<or> normalDec v \<and> s \<noteq> []) \<and>
     dec_val v = Max (insert (dec_val best) (set (map (optVal \<circ> quotaReset pd hs) ds)))"
  using assms
proof (induction ds arbitrary: best src)
  case Nil
  then show ?case by auto
next
  case (Cons d ds)
  let ?m = "\<lambda>x. Max (insert x (set (map (optVal \<circ> quotaReset pd hs) ds)))"
  have split: "Max (insert (dec_val best) (set (map (optVal \<circ> quotaReset pd hs) (d # ds)))) =
      ?m (max (dec_val best) (optVal (quotaReset pd hs d)))"
    by (cases ds) (simp_all add: max.assoc max.left_commute)
  have best0: "0 \<le> dec_val best" using Cons.prems(1) normalDec_pos[of best]
    by (auto intro: order_trans[of _ "10 ^ (length best - 1)"])
  show ?case
  proof (cases "quotaReset pd hs d")
    case None
    then have "quotaLoop pd hs ds (best, src) = (v, s)"
      using Cons.prems(2) by (auto simp: quotaReset_def Let_def split: prod.splits if_splits option.splits)
    from Cons.IH[OF Cons.prems(1) this] show ?thesis
      unfolding split using None best0 by (simp add: optVal_def max.absorb1)
  next
    case (Some w)
    have w: "normalDec w" by (rule quotaReset_normal[OF Some])
    have w0: "0 < dec_val w" using normalDec_pos[OF w] by (auto intro: order.strict_trans2[of 0 "10 ^ (length w - 1)"])
    have step: "quotaLoop pd hs (d # ds) (best, src) =
        (if best \<noteq> [] \<and> \<not> positiveDecimalGreater w best then quotaLoop pd hs ds (best, src)
         else quotaLoop pd hs ds (w, ''x-ratelimit-reset-'' @ d))"
      using Some by (auto simp: quotaReset_def Let_def split: prod.splits if_splits)
    show ?thesis
    proof (cases "best \<noteq> [] \<and> \<not> positiveDecimalGreater w best")
      case True
      then have "dec_val w \<le> dec_val best" using Cons.prems(1) greater_dec[OF w, of best] by auto
      then show ?thesis using Cons.IH[OF Cons.prems(1)] Cons.prems(2) step True
        unfolding split by (simp add: Some optVal_def max.absorb1)
    next
      case False
      then have "dec_val best \<le> dec_val w" using Cons.prems(1) greater_dec[OF w, of best] w0 by auto
      then show ?thesis using Cons.IH[of w "''x-ratelimit-reset-'' @ d"] Cons.prems(2) step False w
        unfolding split by (simp add: Some optVal_def max.absorb2)
    qed
  qed
qed

text \<open>The delay reported to a client is a canonical positive decimal with its source, or
  absent; an explicit millisecond or Retry-After header takes precedence, and otherwise it is
  the longest reset among the quota dimensions known to be exhausted.\<close>

theorem selected_retry_after:
  "case selectResponsesRetryAfter parseTime parseDuration now hs of (v, src) \<Rightarrow>
     (v = [] \<and> src = [] \<or> normalDec v \<and> src \<noteq> []) \<and>
     (case (decimalMillisecondsToRetryAfterSeconds (headerGetCI hs ''retry-after-ms''),
            retryAfterHeaderSeconds parseTime now (headerGetCI hs ''Retry-After'')) of
        (Some ms, _) \<Rightarrow> v = ms
      | (None, Some secs) \<Rightarrow> v = secs
      | (None, None) \<Rightarrow> dec_val v = max (optVal (quotaReset parseDuration hs ''tokens''))
                                    (optVal (quotaReset parseDuration hs ''requests'')))"
proof -
  let ?ms = "decimalMillisecondsToRetryAfterSeconds (headerGetCI hs ''retry-after-ms'')"
  let ?ra = "retryAfterHeaderSeconds parseTime now (headerGetCI hs ''Retry-After'')"
  have ms: "?ms = Some s \<Longrightarrow> normalDec s" for s
    using millis_spec[of "headerGetCI hs ''retry-after-ms''"] by simp
  have ra: "?ra = Some s \<Longrightarrow> normalDec s" for s
    by (auto simp: retryAfterHeaderSeconds_def Let_def split: option.splits if_splits
        dest: normalize_normal intro: formatInt_normal[THEN conjunct1])
  obtain v s where q: "quotaLoop parseDuration hs [''tokens'', ''requests''] ([], []) = (v, s)" by fastforce
  from quotaLoop_spec[OF _ q] have qs: "v = [] \<and> s = [] \<or> normalDec v \<and> s \<noteq> []"
    "dec_val v = Max (insert 0 {optVal (quotaReset parseDuration hs ''tokens''),
       optVal (quotaReset parseDuration hs ''requests'')})" by simp_all
  have pos: "0 \<le> optVal (quotaReset parseDuration hs d)" for d
    using quotaReset_normal[of parseDuration hs d] normalDec_nonneg
    by (auto simp: optVal_def split: option.splits)
  have mx: "dec_val v = max (optVal (quotaReset parseDuration hs ''tokens''))
      (optVal (quotaReset parseDuration hs ''requests''))"
    unfolding qs(2) using pos[of "''tokens''"] pos[of "''requests''"] by (simp add: max.absorb2 le_max_iff_disj)
  show ?thesis
    using ms ra qs(1) mx
    by (cases ?ms; cases ?ra)
      (auto simp: selectResponsesRetryAfter_def q simp del: quotaLoop.simps)
qed

end
