(* ===== verification/Retry_Loop.thy ===== *)
theory Retry_Loop
  imports Retry_After "HOL-Library.Sublist"
begin

text \<open>
  The retry loop for one upstream request (\<open>doWithRetryMode\<close> of \<open>proxy/retry.go\<close>) and the
  classification of its errors.

  Everything the loop asks of the outside during one attempt is an environment record: what
  the request factory, the admission gate and the transport answer, and what the request's
  context says at each point where the loop reads it. The loop returns the events it causes
  (sends, sleeps, logged retries, drained bodies) with its result. A Go error is the list of
  the errors it wraps, outermost first, with its text: \<open>errors.Is\<close> and \<open>errors.As\<close> search it.
\<close>

section \<open>Errors\<close>

datatype errKind =
    ekCanceled | ekDeadlineExceeded | ekCertificateVerification | ekUnknownAuthority
  | ekHostname | ekCertificateInvalid | ekDNS (isNotFound: bool) | ekOther

record goError =
  errChain :: "errKind list"
  errText :: string

definition errors_Is :: "goError \<Rightarrow> errKind \<Rightarrow> bool" where
  "errors_Is e k \<longleftrightarrow> k \<in> set (errChain e)"

definition isDNS :: "errKind \<Rightarrow> bool" where
  "isDNS k = (case k of ekDNS _ \<Rightarrow> True | _ \<Rightarrow> False)"

definition asciiLower :: "string \<Rightarrow> string" where
  "asciiLower = map toLowerC"

definition permanentTransportError :: "goError option \<Rightarrow> bool" where
  "permanentTransportError err =
     (case err of None \<Rightarrow> False
      | Some e \<Rightarrow>
          if errors_Is e ekCertificateVerification then True
          else if errors_Is e ekUnknownAuthority then True
          else if errors_Is e ekHostname then True
          else if errors_Is e ekCertificateInvalid then True
          else if (case find isDNS (errChain e) of Some k \<Rightarrow> isNotFound k | None \<Rightarrow> False) then True
          else sublist ''unsupported protocol scheme'' (asciiLower (errText e)))"

definition contextTerminationMatches :: "ctxView \<Rightarrow> goError option \<Rightarrow> bool" where
  "contextTerminationMatches ctx err =
     (case (cvErr ctx, err) of
        (Some ce, Some e) \<Rightarrow>
          let errCanceled = errors_Is e ekCanceled; errDeadline = errors_Is e ekDeadlineExceeded
          in if cvShutdown ctx then errCanceled \<and> \<not> errDeadline
             else (case ce of ctxDeadlineExceeded \<Rightarrow> errDeadline
                            | ctxCanceled \<Rightarrow> errCanceled \<and> \<not> errDeadline)
      | _ \<Rightarrow> False)"

definition retryable :: "int \<Rightarrow> bool" where
  "retryable statusCode \<longleftrightarrow>
     statusCode \<in> {408, 429, 502, 503, 504, 529, 520, 521, 522, 523, 524, 530}"

section \<open>Responses\<close>

record response =
  respStatus :: int
  respHeader :: header
  respBody :: string

definition headerGet :: "header \<Rightarrow> string \<Rightarrow> string" where
  "headerGet hs name = (case map_of hs (canonicalHeaderKey name) of Some (v # _) \<Rightarrow> v | _ \<Rightarrow> '''')"

definition headerSet :: "header \<Rightarrow> string \<Rightarrow> string \<Rightarrow> header" where
  "headerSet hs name v = AList.update (canonicalHeaderKey name) [v] hs"

record upstreamError =
  ueStatus :: int
  ueBody :: string
  ueRetryAfter :: string
  ueHeaders :: header

definition upstreamErrorDetailMaxBodyBytes :: nat where
  "upstreamErrorDetailMaxBodyBytes = 4096"

datatype retErr = RetCtx ctxErr | RetGo goError | RetUpstream upstreamError
datatype retResult = RetResp response | RetErr retErr | RetBlocked "response option" "goError option" | RetNil

section \<open>The environment of one attempt\<close>

datatype gateAnswer = GateRejected response | GateBlocked "response option" "goError option" | GatePermit

record attemptEnv =
  aeFactory :: "goError option"
  aePendingShutdown :: bool
  aeCtxStart :: ctxView
  aeGate :: gateAnswer
  aeSend :: "goError + response"
  aeCtxSent :: ctxView
  aeCtxAnswered :: ctxView
  aeCtxBudget :: ctxView
  aeCtxDrained :: ctxView
  aeSleep :: "ctxErr option"
  aeCtxSlept :: ctxView
  aeNow :: gotime
  aeRand :: "int \<Rightarrow> int"
  aeCaptured :: nat

record pendingRetryAttempt =
  pStatus :: int
  pDelay :: goduration
  pUpstreamErr :: "upstreamError option"

datatype retryEvent =
    evSend nat | evLogRetry int | evSleep goduration bool goduration | evDrain

text \<open>\<open>evSleep delay hasDeadline left\<close> records a sleep with the budget that admitted it.\<close>

definition sleepEvent :: "goduration \<Rightarrow> ctxView \<Rightarrow> retryEvent" where
  "sleepEvent delay ctx = evSleep delay (cvRemaining ctx \<noteq> None)
     (case cvRemaining ctx of Some left \<Rightarrow> left | None \<Rightarrow> maxRetryWaitWithoutDeadline)"

section \<open>The loop\<close>

record retryConfig =
  rcMaxRetries :: int
  rcBaseDelay :: goduration
  rcParseTime :: "string \<Rightarrow> gotime option"
  rcParseDuration :: "string \<Rightarrow> goduration option"

definition effectiveMaxRetries :: "retryConfig \<Rightarrow> int" where
  "effectiveMaxRetries c = (if rcMaxRetries c = 0 then 3 else rcMaxRetries c)"

definition effectiveBaseDelay :: "retryConfig \<Rightarrow> goduration" where
  "effectiveBaseDelay c = (if rcBaseDelay c = 0 then second else rcBaseDelay c)"

text \<open>What happens before the send: the request, its context, the admission gate.\<close>

definition beforeSend :: "bool \<Rightarrow> attemptEnv \<Rightarrow> pendingRetryAttempt option \<Rightarrow> retResult option" where
  "beforeSend inference env pending =
     (let pendingErr = (case pending of None \<Rightarrow> None | Some p \<Rightarrow> pUpstreamErr p)
      in case aeFactory env of
        Some err \<Rightarrow>
          (case pendingErr of
             Some ue \<Rightarrow> if errors_Is err ekCanceled \<and> aePendingShutdown env
                        then Some (RetErr (RetUpstream ue)) else Some (RetErr (RetGo err))
           | None \<Rightarrow> Some (RetErr (RetGo err)))
      | None \<Rightarrow>
          (case cvErr (aeCtxStart env) of
             Some ctxErr \<Rightarrow> (case pendingErr of Some ue \<Rightarrow> Some (RetErr (RetUpstream ue))
                                             | None \<Rightarrow> Some (RetErr (RetCtx ctxErr)))
           | None \<Rightarrow>
               if \<not> inference then None
               else (case aeGate env of
                  GateRejected r \<Rightarrow> Some (RetResp r)
                | GateBlocked blocked err \<Rightarrow>
                    if blocked = None \<and> err = None then None
                    else (case (err, pendingErr) of
                       (Some e, Some ue) \<Rightarrow>
                         if errors_Is e ekCanceled \<or> errors_Is e ekDeadlineExceeded
                         then Some (RetErr (RetUpstream ue)) else Some (RetBlocked blocked err)
                     | _ \<Rightarrow> Some (RetBlocked blocked err))
                | GatePermit \<Rightarrow> None)))"

text \<open>The outcome of one attempt after its send: stop with a result, or go on with the last
  error and a pending retry.\<close>

datatype attemptNext = Stop retResult | Continue retErr "pendingRetryAttempt option"

definition afterTransportError ::
  "retryConfig \<Rightarrow> nat \<Rightarrow> attemptEnv \<Rightarrow> goError \<Rightarrow> retryEvent list \<times> attemptNext" where
  "afterTransportError c attempt env err =
     (if contextTerminationMatches (aeCtxSent env) (Some err)
      then ([], Stop (case cvErr (aeCtxSent env) of Some ce \<Rightarrow> RetErr (RetCtx ce) | None \<Rightarrow> RetNil))
      else if permanentTransportError (Some err) then ([], Stop (RetErr (RetGo err)))
      else if int attempt < effectiveMaxRetries c - 1 then
        let delay = backoff (aeRand env) (effectiveBaseDelay c) (int attempt)
        in if \<not> retryDelayFitsBudget (aeCtxBudget env) delay then ([], Stop (RetErr (RetGo err)))
           else let ev = [sleepEvent delay (aeCtxBudget env)]
             in case aeSleep env of
                  Some ce \<Rightarrow> (ev, Stop (RetErr (RetCtx ce)))
                | None \<Rightarrow> (case cvErr (aeCtxSlept env) of
                    Some ce \<Rightarrow> (ev, Stop (RetErr (RetCtx ce)))
                  | None \<Rightarrow> (ev, Continue (RetGo err)
                      (Some \<lparr>pStatus = 0, pDelay = delay, pUpstreamErr = None\<rparr>)))
      else ([], Continue (RetGo err) None))"

definition retryAfterFields :: "retryConfig \<Rightarrow> attemptEnv \<Rightarrow> response \<Rightarrow> string \<times> string \<times> header" where
  "retryAfterFields c env resp =
     (let hdr = headerGet (respHeader resp) ''Retry-After'';
          delay = fst (selectResponsesRetryAfter (rcParseTime c) (rcParseDuration c) (aeNow env) (respHeader resp))
      in case retryAfterHeaderSeconds (rcParseTime c) (aeNow env) hdr of
           Some _ \<Rightarrow> (hdr, delay, respHeader resp)
         | None \<Rightarrow> (delay, delay,
             if delay \<noteq> '''' then headerSet (respHeader resp) ''Retry-After'' delay else respHeader resp))"

definition responseDelay :: "retryConfig \<Rightarrow> nat \<Rightarrow> attemptEnv \<Rightarrow> string \<Rightarrow> goduration" where
  "responseDelay c attempt env retryAfterDelay =
     (let delay = backoff (aeRand env) (effectiveBaseDelay c) (int attempt)
      in case parseRetryAfterAt (rcParseTime c) retryAfterDelay (aeNow env) of
           Some ra \<Rightarrow> if ra > delay then ra else delay
         | None \<Rightarrow> delay)"

definition afterResponse ::
  "retryConfig \<Rightarrow> nat \<Rightarrow> attemptEnv \<Rightarrow> response \<Rightarrow> retryEvent list \<times> attemptNext" where
  "afterResponse c attempt env resp =
     (if \<not> retryable (respStatus resp) then ([], Stop (RetResp resp))
      else
        let (retryAfterHeader, retryAfterDelay, hs) = retryAfterFields c env resp;
            resp' = resp\<lparr>respHeader := hs\<rparr>;
            ue = \<lparr>ueStatus = respStatus resp, ueBody = '''', ueRetryAfter = retryAfterHeader, ueHeaders = hs\<rparr>
        in if int attempt < effectiveMaxRetries c - 1 then
             (if cvErr (aeCtxAnswered env) \<noteq> None then ([evDrain], Stop (RetErr (RetUpstream ue)))
              else let delay = responseDelay c attempt env retryAfterDelay
                in if \<not> retryDelayFitsBudget (aeCtxBudget env) delay then ([], Stop (RetResp resp'))
                   else if cvErr (aeCtxDrained env) \<noteq> None then ([evDrain], Stop (RetErr (RetUpstream ue)))
                   else let ev = [evDrain, sleepEvent delay (aeCtxBudget env)]
                     in if aeSleep env \<noteq> None \<or> cvErr (aeCtxSlept env) \<noteq> None
                        then (ev, Stop (RetErr (RetUpstream ue)))
                        else (ev, Continue (RetUpstream ue)
                          (Some \<lparr>pStatus = respStatus resp, pDelay = delay, pUpstreamErr = Some ue\<rparr>)))
           else ([], Continue (RetUpstream (ue\<lparr>ueBody :=
                   take (aeCaptured env) (take upstreamErrorDetailMaxBodyBytes (respBody resp))\<rparr>)) None))"

definition logPending :: "attemptEnv \<Rightarrow> pendingRetryAttempt option \<Rightarrow> retryEvent list" where
  "logPending env pending =
     (let err = (case aeSend env of Inl e \<Rightarrow> Some e | Inr _ \<Rightarrow> None);
          lifecyclePreempted = (cvShutdown (aeCtxSent env) \<and> contextTerminationMatches (aeCtxSent env) err)
      in case pending of
           Some p \<Rightarrow> if lifecyclePreempted then [] else [evLogRetry (pStatus p)]
         | None \<Rightarrow> [])"

fun retryLoop ::
  "retryConfig \<Rightarrow> bool \<Rightarrow> (nat \<Rightarrow> attemptEnv) \<Rightarrow> nat \<Rightarrow> nat \<Rightarrow> retErr option \<Rightarrow>
   pendingRetryAttempt option \<Rightarrow> retryEvent list \<times> retResult" where
  "retryLoop c inference env 0 attempt lastErr pending =
     ([], case lastErr of None \<Rightarrow> RetNil | Some e \<Rightarrow> RetErr e)"
| "retryLoop c inference env (Suc n) attempt lastErr pending =
     (case beforeSend inference (env attempt) pending of
        Some r \<Rightarrow> ([], r)
      | None \<Rightarrow>
          let logged = logPending (env attempt) pending;
              (evs, next') = (case aeSend (env attempt) of
                  Inl err \<Rightarrow> afterTransportError c attempt (env attempt) err
                | Inr resp \<Rightarrow> afterResponse c attempt (env attempt) resp)
          in case next' of
               Stop r \<Rightarrow> (evSend attempt # logged @ evs, r)
             | Continue e p \<Rightarrow>
                 let (evs', r) = retryLoop c inference env n (Suc attempt) (Some e) p
                 in (evSend attempt # logged @ evs @ evs', r))"

definition doWithRetryMode ::
  "retryConfig \<Rightarrow> bool \<Rightarrow> (nat \<Rightarrow> attemptEnv) \<Rightarrow> retryEvent list \<times> retResult" where
  "doWithRetryMode c inference env = retryLoop c inference env (nat (effectiveMaxRetries c)) 0 None None"

section \<open>Facts on one attempt\<close>

definition sleep_ok :: "retryEvent \<Rightarrow> bool" where
  "sleep_ok e = (case e of
     evSleep d hasDeadline left \<Rightarrow>
       if hasDeadline then d < left else d \<le> left \<and> left = maxRetryWaitWithoutDeadline
   | _ \<Rightarrow> True)"

definition isSend :: "retryEvent \<Rightarrow> bool" where
  "isSend e = (case e of evSend _ \<Rightarrow> True | _ \<Rightarrow> False)"

lemma event_simps [simp]:
  "isSend (evSend n)" "\<not> isSend (evLogRetry i)" "\<not> isSend (evSleep d h l)" "\<not> isSend evDrain"
  "sleep_ok (evSend n)" "sleep_ok (evLogRetry i)" "sleep_ok evDrain" "\<not> isSend (sleepEvent d v)"
  by (simp_all add: isSend_def sleep_ok_def sleepEvent_def)

lemma sleepEvent_ok: "retryDelayFitsBudget ctx d \<Longrightarrow> sleep_ok (sleepEvent d ctx)"
  by (auto simp: retryDelayFitsBudget_def sleep_ok_def sleepEvent_def split: if_splits option.splits)

definition attempt_continues :: "attemptEnv \<Rightarrow> bool" where
  "attempt_continues env = (case aeSend env of
     Inl e \<Rightarrow> \<not> permanentTransportError (Some e) \<and> \<not> contextTerminationMatches (aeCtxSent env) (Some e)
   | Inr r \<Rightarrow> retryable (respStatus r))"

definition attemptStep ::
  "retryConfig \<Rightarrow> nat \<Rightarrow> attemptEnv \<Rightarrow> retryEvent list \<times> attemptNext" where
  "attemptStep c attempt env = (case aeSend env of
     Inl err \<Rightarrow> afterTransportError c attempt env err
   | Inr resp \<Rightarrow> afterResponse c attempt env resp)"

lemma transport_spec:
  assumes "afterTransportError c attempt env err = (evs, nxt)"
  shows "list_all (\<lambda>e. \<not> isSend e \<and> sleep_ok e) evs \<and> nxt \<noteq> Stop RetNil \<and>
    ((\<exists>e p. nxt = Continue e p) \<longrightarrow> \<not> permanentTransportError (Some err) \<and>
        \<not> contextTerminationMatches (aeCtxSent env) (Some err))"
  using assms unfolding afterTransportError_def Let_def
  by (auto simp: sleepEvent_ok split: if_splits option.splits)
    (auto simp: contextTerminationMatches_def)

lemma response_spec:
  assumes "afterResponse c attempt env resp = (evs, nxt)"
  shows "list_all (\<lambda>e. \<not> isSend e \<and> sleep_ok e) evs \<and> nxt \<noteq> Stop RetNil \<and>
    ((\<exists>e p. nxt = Continue e p) \<longrightarrow> retryable (respStatus resp))"
proof (cases "retryAfterFields c env resp")
  case (fields h d hs)
  then show ?thesis
    using assms unfolding afterResponse_def Let_def
    by (auto simp: sleepEvent_ok split: if_splits)
qed

lemma attemptStep_spec:
  assumes "attemptStep c attempt env = (evs, nxt)"
  shows "list_all (\<lambda>e. \<not> isSend e \<and> sleep_ok e) evs" "nxt \<noteq> Stop RetNil"
    "nxt = Continue e p \<Longrightarrow> attempt_continues env"
  using assms transport_spec[of c attempt env _ evs nxt] response_spec[of c attempt env _ evs nxt]
  by (auto simp: attemptStep_def attempt_continues_def split: sum.splits)

lemma beforeSend_notNil: "beforeSend inference env pending \<noteq> Some RetNil"
  by (auto simp: beforeSend_def Let_def split: option.splits gateAnswer.splits if_splits)

lemma logPending_ok: "list_all (\<lambda>e. \<not> isSend e \<and> sleep_ok e) (logPending env pending)"
  by (auto simp: logPending_def Let_def split: option.splits)

lemma retryLoop_Suc:
  "retryLoop c inference env (Suc n) attempt lastErr pending =
     (case beforeSend inference (env attempt) pending of
        Some r \<Rightarrow> ([], r)
      | None \<Rightarrow>
          (case attemptStep c attempt (env attempt) of
             (evs, Stop r) \<Rightarrow> (evSend attempt # logPending (env attempt) pending @ evs, r)
           | (evs, Continue e p) \<Rightarrow>
               (case retryLoop c inference env n (Suc attempt) (Some e) p of
                  (evs', r) \<Rightarrow> (evSend attempt # logPending (env attempt) pending @ evs @ evs', r))))"
  by (simp add: attemptStep_def split: option.split sum.split prod.split attemptNext.split)

declare retryLoop.simps(2) [simp del]

definition sends_only :: "retryEvent list \<Rightarrow> retryEvent list" where
  "sends_only = filter isSend"

lemma filter_none: "list_all (\<lambda>e. \<not> isSend e \<and> sleep_ok e) evs \<Longrightarrow> filter isSend evs = []"
  by (simp add: filter_empty_conv list_all_iff)

lemma retryLoop_spec:
  assumes "retryLoop c inference env n attempt lastErr pending = (evs, r)"
  shows "(\<exists>k \<le> n. filter isSend evs = map evSend [attempt..<attempt + k] \<and>
      (\<forall>i. attempt \<le> i \<and> Suc i < attempt + k \<longrightarrow> attempt_continues (env i))) \<and>
    list_all sleep_ok evs \<and> (r = RetNil \<longrightarrow> n = 0 \<and> lastErr = None)"
  using assms
proof (induction n arbitrary: attempt lastErr pending evs r)
  case 0
  then show ?case by (auto split: option.splits)
next
  case (Suc n)
  note st = retryLoop_Suc[of c inference env n attempt lastErr pending]
  show ?case
  proof (cases "beforeSend inference (env attempt) pending")
    case (Some r')
    then show ?thesis using Suc.prems st beforeSend_notNil by (intro conjI exI[of _ 0]) auto
  next
    case None
    obtain es nxt where s: "attemptStep c attempt (env attempt) = (es, nxt)" by fastforce
    note sp = attemptStep_spec[OF s]
    note f1 = filter_none[OF sp(1)] filter_none[OF logPending_ok[of "env attempt" pending]]
    have so: "list_all sleep_ok es" "list_all sleep_ok (logPending (env attempt) pending)"
      using sp(1) logPending_ok[of "env attempt" pending] by (auto simp: list_all_iff)
    show ?thesis
    proof (cases nxt)
      case (Stop r')
      then have "evs = evSend attempt # logPending (env attempt) pending @ es" "r = r'"
        using Suc.prems st None s by simp_all
      then show ?thesis using f1 so sp(2) Stop
        by (intro conjI exI[of _ 1]) auto
    next
      case (Continue e p)
      obtain es' r' where l: "retryLoop c inference env n (Suc attempt) (Some e) p = (es', r')" by fastforce
      from Suc.IH[OF l] obtain k where k: "k \<le> n" "filter isSend es' = map evSend [Suc attempt..<Suc attempt + k]"
        "\<And>i. Suc attempt \<le> i \<Longrightarrow> Suc i < Suc attempt + k \<Longrightarrow> attempt_continues (env i)"
        "list_all sleep_ok es'" "r' \<noteq> RetNil" by auto
      have e: "evs = evSend attempt # logPending (env attempt) pending @ es @ es'" "r = r'"
        using Suc.prems st None s Continue l by simp_all
      have "filter isSend evs = map evSend [attempt..<attempt + Suc k]"
        unfolding e using f1 k(2) by (simp add: upt_conv_Cons)
      moreover have "attempt_continues (env i)" if "attempt \<le> i" "Suc i < attempt + Suc k" for i
        using that k(3)[of i] sp(3)[OF Continue] by (cases "i = attempt") auto
      ultimately show ?thesis using k(1,4,5) so e by (intro conjI exI[of _ "Suc k"]) auto
    qed
  qed
qed

section \<open>Properties\<close>

text \<open>C40. A request is sent at most the configured number of times (three by default), the
  attempts are consecutive, another send only follows a retryable status or an error that is
  neither permanent nor the end of the caller's context, and the loop always ends with a
  response or an error.\<close>

theorem retry_bounded:
  assumes "0 \<le> rcMaxRetries c"
  shows "\<exists>k \<le> nat (effectiveMaxRetries c).
    sends_only (fst (doWithRetryMode c inference env)) = map evSend [0..<k] \<and>
    (\<forall>i. Suc i < k \<longrightarrow> attempt_continues (env i)) \<and>
    snd (doWithRetryMode c inference env) \<noteq> RetNil"
proof -
  obtain evs r where l: "doWithRetryMode c inference env = (evs, r)" by fastforce
  have "0 < nat (effectiveMaxRetries c)" using assms by (simp add: effectiveMaxRetries_def)
  with retryLoop_spec[OF l[unfolded doWithRetryMode_def]] show ?thesis
    by (auto simp: l sends_only_def)
qed

text \<open>The loop never sleeps past its budget: every wait ends strictly before the deadline of
  the request, or takes at most five minutes when the request has no deadline.\<close>

theorem retry_waits_fit:
  "list_all sleep_ok (fst (doWithRetryMode c inference env))"
proof -
  obtain evs r where l: "doWithRetryMode c inference env = (evs, r)" by fastforce
  from retryLoop_spec[OF l[unfolded doWithRetryMode_def]] show ?thesis by (simp add: l)
qed

text \<open>An upstream that is overloaded once and then answers.\<close>

definition exView :: ctxView where
  "exView = \<lparr>cvErr = None, cvShutdown = False, cvRemaining = Some (60 * second)\<rparr>"

definition exResp :: "int \<Rightarrow> response" where
  "exResp st = \<lparr>respStatus = st, respHeader = [], respBody = ''''\<rparr>"

definition exEnv :: "nat \<Rightarrow> attemptEnv" where
  "exEnv n = \<lparr>aeFactory = None, aePendingShutdown = False, aeCtxStart = exView, aeGate = GatePermit,
     aeSend = Inr (exResp (if n = 0 then 503 else 200)), aeCtxSent = exView, aeCtxAnswered = exView, aeCtxBudget = exView,
     aeCtxDrained = exView, aeSleep = None, aeCtxSlept = exView, aeNow = 0, aeRand = (\<lambda>_. 0),
     aeCaptured = 0\<rparr>"

definition exConfig :: retryConfig where
  "exConfig = \<lparr>rcMaxRetries = 0, rcBaseDelay = 0, rcParseTime = (\<lambda>_. None), rcParseDuration = (\<lambda>_. None)\<rparr>"

lemma retry_bounded_witness:
  "\<exists>k \<le> 3. sends_only (fst (doWithRetryMode exConfig True exEnv)) = map evSend [0..<k]"
  using retry_bounded[of exConfig True exEnv] by (auto simp: exConfig_def effectiveMaxRetries_def)

end
