(* ===== verification/Route_Rejection.thy ===== *)
theory Route_Rejection
  imports Route_Types Retry_Loop
begin

text \<open>
  When a rejected attempt may be replayed elsewhere (\<open>proxy/route_rejection.go\<close> and the adapter
  functions of \<open>proxy/route_executor.go\<close>): the upstream must have refused the request before
  doing any work, so the response body is searched, at every depth, for evidence of work.

  Parsing is a record of arguments (\<open>jsonApi\<close>): \<open>json.Valid\<close>, the check for duplicate keys, the
  decoding to an object and the decoding of the error envelope. What is modelled is the
  decision on the decoded value.
\<close>

section \<open>JSON values\<close>

datatype jval =
    JNull | JBool bool | JNumber string | JString string
  | JArray "jval list" | JObject "(string \<times> jval) list"

record jsonApi =
  jsonValid :: "string \<Rightarrow> bool"
  jsonNoDuplicateKeys :: "string \<Rightarrow> bool"
  jsonDecodeObject :: "string \<Rightarrow> (string \<times> jval) list option"
  jsonErrorEnvelope :: "string \<Rightarrow> (string \<times> string \<times> string \<times> string) option"

section \<open>Evidence of execution\<close>

definition routeRejectionOutputIsEmpty :: "jval \<Rightarrow> bool" where
  "routeRejectionOutputIsEmpty v = (case v of JNull \<Rightarrow> True | JArray items \<Rightarrow> items = [] | _ \<Rightarrow> False)"

fun routeRejectionUsageIsZero :: "jval \<Rightarrow> bool" where
  "routeRejectionUsageIsZero JNull = True"
| "routeRejectionUsageIsZero (JNumber n) = (parseInt64 n = Some 0)"
| "routeRejectionUsageIsZero (JObject ms) = list_all (\<lambda>(_, child). routeRejectionUsageIsZero child) ms"
| "routeRejectionUsageIsZero _ = False"

definition isObject :: "jval \<Rightarrow> bool" where
  "isObject v = (case v of JObject _ \<Rightarrow> True | _ \<Rightarrow> False)"

text \<open>The cases of the switch that look only at the member itself.\<close>

definition usageMemberOk :: "jval \<Rightarrow> bool" where
  "usageMemberOk child =
     (if child \<noteq> JNull \<and> \<not> isObject child then False else routeRejectionUsageIsZero child)"

definition contentMemberOk :: "jval \<Rightarrow> bool" where
  "contentMemberOk child =
     (case child of
        JString text \<Rightarrow> if text \<noteq> '''' then routeRejectionOutputIsEmpty child else True
      | _ \<Rightarrow> routeRejectionOutputIsEmpty child)"

definition statusMemberOk :: "jval \<Rightarrow> bool" where
  "statusMemberOk child =
     (case child of
        JNull \<Rightarrow> True
      | JString status \<Rightarrow> goLower (trimSpace status) \<in> {'''', ''failed'', ''error''}
      | _ \<Rightarrow> False)"

fun routeRejectionValueAllowsReplay :: "jval \<Rightarrow> bool" where
  "routeRejectionValueAllowsReplay (JArray vs) = list_all routeRejectionValueAllowsReplay vs"
| "routeRejectionValueAllowsReplay (JObject ms) =
     list_all (\<lambda>(name, child).
       let key = goLower name
       in if key = ''usage'' then usageMemberOk child
          else if key \<in> {''output'', ''choices'', ''tool_calls''} then routeRejectionOutputIsEmpty child
          else if key = ''content'' then contentMemberOk child
          else if key \<in> {''function_call'', ''item'', ''delta''} then child = JNull
          else if key = ''status'' then statusMemberOk child
          else if key = ''response'' then
            (if child \<noteq> JNull \<and> \<not> isObject child then False else routeRejectionValueAllowsReplay child)
          else routeRejectionValueAllowsReplay child) ms"
| "routeRejectionValueAllowsReplay _ = True"

definition routeResponseBodyAllowsReplay :: "jsonApi \<Rightarrow> string \<Rightarrow> bool" where
  "routeResponseBodyAllowsReplay api b =
     (let body = trimSpace b
      in if body = '''' then True
         else if \<not> jsonValid api body \<or> \<not> jsonNoDuplicateKeys api body then False
         else case jsonDecodeObject api body of
           None \<Rightarrow> False
         | Some envelope \<Rightarrow> routeRejectionValueAllowsReplay (JObject envelope))"

record capturedRouteResponse =
  capStatus :: int
  capHeader :: header
  capBody :: string
  capBodyIncomplete :: bool
  capUpstreamID :: string

definition cutBefore :: "char \<Rightarrow> string \<Rightarrow> string" where
  "cutBefore c s = takeWhile (\<lambda>x. x \<noteq> c) s"

definition utf8Bom :: string where
  "utf8Bom = [CHR 0xEF, CHR 0xBB, CHR 0xBF]"

definition trimPrefix :: "string \<Rightarrow> string \<Rightarrow> string" where
  "trimPrefix p s = (if prefix p s then drop (length p) s else s)"

definition routeHTTPRejectionBodyAllowsReplay :: "jsonApi \<Rightarrow> capturedRouteResponse \<Rightarrow> bool" where
  "routeHTTPRejectionBodyAllowsReplay api r =
     (if routeResponseBodyAllowsReplay api (capBody r) then True
      else
        let contentType = cutBefore (CHR '';'') (headerGetCI (capHeader r) ''Content-Type'')
        in if capStatus r \<noteq> 429 \<or> asciiLower (trimSpace contentType) \<noteq> ''text/plain'' then False
           else let body = trimSpace (trimPrefix utf8Bom (trimSpace (capBody r)))
                in \<not> jsonValid api body \<and> \<not> prefix ''{'' body \<and> \<not> prefix ''['' body \<and>
                   \<not> sublist ''data:'' body \<and> \<not> sublist ''event:'' body)"

section \<open>What an adapter certifies\<close>

definition adapterServes :: "providerType \<Rightarrow> string \<Rightarrow> bool" where
  "adapterServes kind endpoint =
     (case kind of
        providerTypeCopilot \<Rightarrow> endpoint = providerEndpointResponses \<or> endpoint = providerEndpointChatCompletions
      | providerTypeAzureOpenAI \<Rightarrow> endpoint = providerEndpointResponses \<or> endpoint = providerEndpointChatCompletions
      | providerTypeOpenAICompatible \<Rightarrow> endpoint = providerEndpointResponses \<or> endpoint = providerEndpointChatCompletions
      | providerTypeAnthropicCompatible \<Rightarrow> endpoint = providerEndpointMessages
      | _ \<Rightarrow> False)"

definition routeAdapterMayExplicitlyReject :: "targetBinding \<Rightarrow> string \<Rightarrow> int \<Rightarrow> bool" where
  "routeAdapterMayExplicitlyReject target endpoint statusCode =
     (case tbProvider target of
        None \<Rightarrow> False
      | Some p \<Rightarrow>
          if statusCode = 429 then True
          else if statusCode \<noteq> 503 \<and> statusCode \<noteq> 529 then False
          else adapterServes (providerKind p) endpoint)"

definition routeAdapterCertifiesHTTPRejection ::
  "jsonApi \<Rightarrow> targetBinding \<Rightarrow> string \<Rightarrow> capturedRouteResponse option \<Rightarrow> bool" where
  "routeAdapterCertifiesHTTPRejection api target endpoint response =
     (case (response, tbProvider target) of
        (Some r, Some p) \<Rightarrow>
          if capBodyIncomplete r \<or> \<not> routeHTTPRejectionBodyAllowsReplay api r then False
          else if capStatus r = 429 then True
          else if capStatus r \<noteq> 503 \<and> capStatus r \<noteq> 529 then False
          else if \<not> adapterServes (providerKind p) endpoint then False
          else (case jsonErrorEnvelope api (capBody r) of
              None \<Rightarrow> False
            | Some (errorCode, errorType, topCode, topType) \<Rightarrow>
                let code = goLower (trimSpace errorCode);
                    code = (if code = '''' then goLower (trimSpace topCode) else code);
                    errType = goLower (trimSpace errorType);
                    errType = (if errType = '''' then goLower (trimSpace topType) else errType)
                in if code \<in> {''model_overloaded'', ''engine_overloaded'', ''server_overloaded'', ''overloaded_error''}
                   then True else errType = ''overloaded_error'')
      | _ \<Rightarrow> False)"

section \<open>Evidence of work\<close>

text \<open>
  What a rejection must not hold, independently of the search for it. A count is zero when it is
  written with zeros only. \<open>counted\<close>: somewhere in a usage there is something else than zero counts.
\<close>

definition zeroLiteral :: "string \<Rightarrow> bool" where
  "zeroLiteral n \<longleftrightarrow>
     (\<exists>zeros. zeros \<noteq> '''' \<and> set zeros = {CHR ''0''} \<and> n \<in> {zeros, CHR ''+'' # zeros, CHR ''-'' # zeros})"

inductive counted :: "jval \<Rightarrow> bool" where
  count: "\<not> zeroLiteral n \<Longrightarrow> counted (JNumber n)"
| flag: "counted (JBool b)"
| words: "counted (JString s)"
| several: "counted (JArray vs)"
| part: "(name, v) \<in> set ms \<Longrightarrow> counted v \<Longrightarrow> counted (JObject ms)"

text \<open>
  \<open>evidence key child\<close>: a member whose name is \<open>key\<close> in small letters shows by itself that work was done.
\<close>

inductive evidence :: "string \<Rightarrow> jval \<Rightarrow> bool" where
  usage_bool: "evidence ''usage'' (JBool b)"
| usage_number: "evidence ''usage'' (JNumber n)"
| usage_string: "evidence ''usage'' (JString s)"
| usage_array: "evidence ''usage'' (JArray vs)"
| usage_count: "counted (JObject ms) \<Longrightarrow> evidence ''usage'' (JObject ms)"
| produced: "key \<in> {''output'', ''choices'', ''tool_calls''} \<Longrightarrow> v \<noteq> JNull \<Longrightarrow> v \<noteq> JArray [] \<Longrightarrow> evidence key v"
| content: "v \<noteq> JNull \<Longrightarrow> v \<noteq> JArray [] \<Longrightarrow> v \<noteq> JString '''' \<Longrightarrow> evidence ''content'' v"
| activity: "key \<in> {''function_call'', ''item'', ''delta''} \<Longrightarrow> v \<noteq> JNull \<Longrightarrow> evidence key v"
| status_text: "goLower (trimSpace s) \<noteq> '''' \<Longrightarrow> goLower (trimSpace s) \<noteq> ''failed'' \<Longrightarrow>
    goLower (trimSpace s) \<noteq> ''error'' \<Longrightarrow> evidence ''status'' (JString s)"
| status_bool: "evidence ''status'' (JBool b)"
| status_number: "evidence ''status'' (JNumber n)"
| status_array: "evidence ''status'' (JArray vs)"
| status_object: "evidence ''status'' (JObject ms)"
| response_bool: "evidence ''response'' (JBool b)"
| response_number: "evidence ''response'' (JNumber n)"
| response_string: "evidence ''response'' (JString s)"
| response_array: "evidence ''response'' (JArray vs)"

text \<open>\<open>worked v\<close>: such a member is somewhere in \<open>v\<close>, not counting what is below a member of a reserved name.\<close>

inductive worked :: "jval \<Rightarrow> bool" where
  shown: "(name, v) \<in> set ms \<Longrightarrow> evidence (goLower name) v \<Longrightarrow> worked (JObject ms)"
| nested: "(name, v) \<in> set ms \<Longrightarrow>
    goLower name \<notin> {''usage'', ''output'', ''choices'', ''tool_calls'', ''content'', ''function_call'', ''item'',
      ''delta'', ''status''} \<Longrightarrow> worked v \<Longrightarrow> worked (JObject ms)"
| element: "v \<in> set vs \<Longrightarrow> worked v \<Longrightarrow> worked (JArray vs)"

inductive_simps counted_simps [simp]:
  "counted JNull" "counted (JBool b)" "counted (JNumber n)" "counted (JString s)" "counted (JArray vs)"
inductive_simps counted_object: "counted (JObject ms)"
inductive_simps worked_leaf [simp]: "worked JNull" "worked (JBool b)" "worked (JNumber n)" "worked (JString s)"
inductive_simps worked_array: "worked (JArray vs)"
inductive_simps worked_object: "worked (JObject ms)"
inductive_simps evidence_iff: "evidence key v"

text \<open>The numbers that \<open>strconv.ParseInt\<close> reads as zero.\<close>

lemma dec_val_is_zero: "list_all isDigit ds \<Longrightarrow> dec_val ds = 0 \<longleftrightarrow> set ds \<subseteq> {CHR ''0''}"
proof (induction ds)
  case (Cons c ds)
  then have "0 \<le> digitVal c" "0 \<le> dec_val ds" using digitVal_bounds[of c] dec_val_nonneg[of ds] by auto
  then have "digitVal c * 10 ^ length ds + dec_val ds = 0 \<longleftrightarrow> digitVal c = 0 \<and> dec_val ds = 0"
    by (simp add: add_nonneg_eq_0_iff)
  then show ?case using Cons digitVal_eq[of c "CHR ''0''"] by (auto simp: dec_val_Cons)
qed simp

lemma parse_zero: "parseInt64 n = Some 0 \<longleftrightarrow> zeroLiteral n"
proof -
  have digits: "ds \<noteq> '''' \<and> list_all isDigit ds \<and> dec_val ds = 0 \<longleftrightarrow> ds \<noteq> '''' \<and> set ds = {CHR ''0''}" for ds
  proof (cases "list_all isDigit ds")
    case True
    have "set ds \<subseteq> {CHR ''0''} \<longleftrightarrow> ds = '''' \<or> set ds = {CHR ''0''}" by (simp only: subset_singleton_iff set_empty)
    then show ?thesis using dec_val_is_zero[OF True] True by blast
  next
    case False
    have "list_all isDigit ds" if "set ds = {CHR ''0''}" unfolding list_all_iff that by simp
    then have "set ds \<noteq> {CHR ''0''}" using False by blast
    then show ?thesis using False by simp
  qed
  have zero: "(let v = (if neg then - dec_val ds else dec_val ds) in if v < - (2 ^ 63) \<or> v > 2 ^ 63 - 1 then None else Some v) =
      Some 0 \<longleftrightarrow> dec_val ds = 0" for neg ds by (auto simp: Let_def)
  show ?thesis
  proof (cases n)
    case Nil
    then show ?thesis by (simp add: parseInt64_def zeroLiteral_def)
  next
    case (Cons c cs)
    have "parseInt64 n = Some 0 \<longleftrightarrow> (let ds = if c \<in> {CHR ''+'', CHR ''-''} then cs else n in
        ds \<noteq> '''' \<and> list_all isDigit ds \<and> dec_val ds = 0)"
      using zero by (auto simp: Cons parseInt64_def Let_def)
    also have "\<dots> \<longleftrightarrow> (let ds = if c \<in> {CHR ''+'', CHR ''-''} then cs else n in ds \<noteq> '''' \<and> set ds = {CHR ''0''})"
      by (simp only: Let_def digits)
    also have "\<dots> \<longleftrightarrow> zeroLiteral n"
    proof -
      define Z where "Z ds \<longleftrightarrow> ds \<noteq> '''' \<and> set ds = {CHR ''0''}" for ds
      have z: "c = CHR ''0''" if "Z (c # ds)" for ds
        using that list.set_intros(1)[of c ds] unfolding Z_def by blast
      have "zeroLiteral n \<longleftrightarrow> Z n \<or> (c = CHR ''+'' \<or> c = CHR ''-'') \<and> Z cs"
        unfolding zeroLiteral_def conj_assoc[symmetric] Z_def[symmetric] Cons by blast
      then have "zeroLiteral n \<longleftrightarrow> (if c = CHR ''+'' \<or> c = CHR ''-'' then Z cs else Z n)"
        using z[of cs] Cons by auto
      then show ?thesis unfolding Z_def Let_def by simp
    qed
    finally show ?thesis .
  qed
qed

lemma usage_zero: "routeRejectionUsageIsZero v \<longleftrightarrow> \<not> counted v"
proof (induction v)
  case (JObject ms)
  then show ?case by (force simp: counted_object list_all_iff)
qed (simp_all add: parse_zero)

text \<open>The members of a reserved name are judged by themselves.\<close>

lemma usage_evidence: "usageMemberOk v \<longleftrightarrow> \<not> evidence ''usage'' v"
  by (cases v) (auto simp: usageMemberOk_def isObject_def usage_zero evidence_iff)

lemma output_evidence:
  "key \<in> {''output'', ''choices'', ''tool_calls''} \<Longrightarrow> routeRejectionOutputIsEmpty v \<longleftrightarrow> \<not> evidence key v"
  by (cases v) (auto simp: routeRejectionOutputIsEmpty_def evidence_iff)

lemma content_evidence: "contentMemberOk v \<longleftrightarrow> \<not> evidence ''content'' v"
  by (cases v) (auto simp: contentMemberOk_def routeRejectionOutputIsEmpty_def evidence_iff)

lemma activity_evidence: "key \<in> {''function_call'', ''item'', ''delta''} \<Longrightarrow> v = JNull \<longleftrightarrow> \<not> evidence key v"
  by (auto simp: evidence_iff)

lemma status_evidence: "statusMemberOk v \<longleftrightarrow> \<not> evidence ''status'' v"
  by (cases v) (auto simp: statusMemberOk_def evidence_iff)

lemma response_evidence: "v = JNull \<or> isObject v \<longleftrightarrow> \<not> evidence ''response'' v"
  by (cases v) (auto simp: isObject_def evidence_iff)

lemma other_evidence:
  "key \<notin> {''usage'', ''output'', ''choices'', ''tool_calls'', ''content'', ''function_call'', ''item'', ''delta'',
     ''status'', ''response''} \<Longrightarrow> \<not> evidence key v"
  by (auto simp: evidence_iff)

lemmas member_evidence = usage_evidence output_evidence content_evidence activity_evidence status_evidence

lemma allows_iff: "routeRejectionValueAllowsReplay v \<longleftrightarrow> \<not> worked v"
proof (induction v)
  case (JArray vs)
  then show ?case by (auto simp: worked_array list_all_iff)
next
  case (JObject ms)
  let ?reserved = "{''usage'', ''output'', ''choices'', ''tool_calls'', ''content'', ''function_call'', ''item'', ''delta'', ''status''}"
  have step: "(let key = goLower name
       in if key = ''usage'' then usageMemberOk child
          else if key \<in> {''output'', ''choices'', ''tool_calls''} then routeRejectionOutputIsEmpty child
          else if key = ''content'' then contentMemberOk child
          else if key \<in> {''function_call'', ''item'', ''delta''} then child = JNull
          else if key = ''status'' then statusMemberOk child
          else if key = ''response'' then
            (if child \<noteq> JNull \<and> \<not> isObject child then False else routeRejectionValueAllowsReplay child)
          else routeRejectionValueAllowsReplay child) \<longleftrightarrow>
      \<not> evidence (goLower name) child \<and> (goLower name \<notin> ?reserved \<longrightarrow> routeRejectionValueAllowsReplay child)"
    for name child
  proof -
    consider "goLower name \<in> ?reserved" | "goLower name = ''response''"
      | "goLower name \<notin> ?reserved" "goLower name \<noteq> ''response''" by blast
    then show ?thesis
    proof cases
      case 1
      then show ?thesis by (elim insertE emptyE) (simp_all add: member_evidence activity_evidence[symmetric])
    next
      case 2
      then show ?thesis using response_evidence[of child] by auto
    next
      case 3
      then have "\<not> evidence (goLower name) child" by (intro other_evidence) auto
      then show ?thesis using 3 by simp
    qed
  qed
  have IH: "routeRejectionValueAllowsReplay child \<longleftrightarrow> \<not> worked child" if "(name, child) \<in> set ms" for name child
    using JObject[of "(name, child)" child] that by simp
  show ?case
    unfolding worked_object routeRejectionValueAllowsReplay.simps step list_all_iff
    using IH by fastforce
qed simp_all

section \<open>Properties\<close>

text \<open>C37. A structured rejection allows a replay exactly when no object at any depth that is searched
  shows work: no usage other than zero counts, no output, choice or tool call, no content, no function
  call, item or delta, no status other than a failure, and no response that is not an object.\<close>

theorem replay_only_without_evidence: "routeRejectionValueAllowsReplay v \<longleftrightarrow> \<not> worked v"
  by (rule allows_iff)

end
