(* ===== verification/Route_Operation.thy ===== *)
theory Route_Operation
  imports Route_Rejection
begin

text \<open>
  The logical operation that one client request carries through route execution: its budgets,
  its pin, its commitment and its bounded trace (\<open>routeOperation\<close> of \<open>proxy/route_executor.go\<close>),
  the choice of targets, and the decisions what to do after a failed attempt
  (\<open>proxy/route_retry.go\<close>, \<open>proxy/conversation_migration.go\<close>).

  The mutex makes every method one step. Whether the request's context, the client's context
  or the server has ended is the argument \<open>life\<close>, the view at that moment. The publication
  of the trace to the statistics and nil receivers are not modelled.
\<close>

section \<open>State\<close>

record conversationTurn =
  convAttempted :: bool
  convClosed :: bool
  convHostedTools :: "string list"

record routeOperation =
  opID :: string
  opRoute :: modelRoute
  opConversation :: "conversationTurn option"
  remainingTargetAttempts :: int
  remainingUpstreamSends :: int
  attemptedTargets :: "string list"
  pinnedTargetID :: string
  stateOwnerIdentity :: string
  hardPinned :: bool
  opSequence :: int
  upstreamSends :: int
  targetSwitches :: int
  commitment :: downstreamCommitment
  exhaustionRecorded :: bool
  opTrace :: "routeAttemptTrace list"

record lifeView =
  lifeCtxErr :: bool
  lifeShuttingDown :: bool
  lifeInboundErr :: bool

definition zeroIdentity :: string where
  "zeroIdentity = replicate 32 (CHR 0x00)"

text \<open>\<open>fresh\<close> is the identifier that \<open>uuid.NewString\<close> delivers.\<close>

definition newRouteOperationWithID ::
  "modelRoute option \<Rightarrow> string \<Rightarrow> string \<Rightarrow> routeOperation option" where
  "newRouteOperationWithID route operationID fresh =
     (case route of
        None \<Rightarrow> None
      | Some r \<Rightarrow>
          if legacy r then None
          else
            let maxTargets = (if maxTargetAttempts (policy r) \<le> 0 then 1 else maxTargetAttempts (policy r));
                maxSends = (if maxUpstreamSends (policy r) \<le> 0 then maxTargets else maxUpstreamSends (policy r));
                operationID = trimSpace operationID
            in Some \<lparr>opID = (if operationID = '''' then fresh else operationID), opRoute = r,
                 opConversation = None, remainingTargetAttempts = maxTargets,
                 remainingUpstreamSends = maxSends, attemptedTargets = [], pinnedTargetID = '''',
                 stateOwnerIdentity = zeroIdentity, hardPinned = False, opSequence = 0,
                 upstreamSends = 0, targetSwitches = 0, commitment = downstreamCommitmentNone,
                 exhaustionRecorded = False, opTrace = []\<rparr>)"

section \<open>Methods\<close>

definition pinTarget :: "string \<Rightarrow> routeOperation \<Rightarrow> routeOperation" where
  "pinTarget targetID o' =
     (if trimSpace targetID = '''' then o'
      else if pinnedTargetID o' = '''' then o'\<lparr>pinnedTargetID := targetID\<rparr> else o')"

definition forcePinnedTarget :: "string \<Rightarrow> routeOperation \<Rightarrow> routeOperation option" where
  "forcePinnedTarget targetID o' =
     (if trimSpace targetID = '''' then Some o'
      else if pinnedTargetID o' \<noteq> '''' \<and> pinnedTargetID o' \<noteq> targetID then None
      else Some (o'\<lparr>pinnedTargetID := targetID, hardPinned := True\<rparr>))"

definition allowsAutomaticTargetSwitch :: "routeOperation \<Rightarrow> routeAttemptKind \<Rightarrow> bool" where
  "allowsAutomaticTargetSwitch o' kind =
     (if hardPinned o' then False
      else (case kind of
          routeAttemptProtocolRecovery \<Rightarrow> False
        | routeAttemptCompaction \<Rightarrow> False
        | routeAttemptCompatibilityFallback \<Rightarrow> False
        | _ \<Rightarrow> True))"

text \<open>The result is the new state with the sequence number, whether the target was switched,
  and whether the reservation succeeded.\<close>

definition reserveTarget :: "string \<Rightarrow> routeOperation \<Rightarrow> routeOperation \<times> int \<times> bool \<times> bool" where
  "reserveTarget targetID o' =
     (if targetID \<in> set (attemptedTargets o') then
        (o'\<lparr>opSequence := opSequence o' + 1\<rparr>, opSequence o' + 1, False, True)
      else if remainingTargetAttempts o' \<le> 0 then (o', 0, False, False)
      else
        let switched = length (attemptedTargets o') > 0;
            o1 = o'\<lparr>remainingTargetAttempts := remainingTargetAttempts o' - 1,
                   attemptedTargets := targetID # attemptedTargets o'\<rparr>;
            o2 = (if switched then o1\<lparr>targetSwitches := targetSwitches o1 + 1\<rparr> else o1);
            o3 = o2\<lparr>opSequence := opSequence o2 + 1\<rparr>
        in (o3, opSequence o3, switched, True))"

definition reserveSendAtDispatch ::
  "lifeView \<Rightarrow> routeOperation \<Rightarrow> routeOperation \<times> bool \<times> routeRetryDecision" where
  "reserveSendAtDispatch life o' =
     (if lifeShuttingDown life \<or> lifeCtxErr life then (o', False, routeRetrySuppressedLifecycle)
      else if lifeInboundErr life then (o', False, routeRetrySuppressedAdmission)
      else if remainingUpstreamSends o' \<le> 0 then (o', False, routeRetrySuppressedBudget)
      else (o'\<lparr>remainingUpstreamSends := remainingUpstreamSends o' - 1,
              upstreamSends := upstreamSends o' + 1\<rparr>, True, routeRetryAccepted))"

definition retryAdmissionOpen :: "lifeView \<Rightarrow> routeOperation \<Rightarrow> bool" where
  "retryAdmissionOpen life o' =
     (if lifeShuttingDown life \<or> lifeCtxErr life \<or> lifeInboundErr life then False
      else commitment o' = downstreamCommitmentNone \<and> remainingTargetAttempts o' > 0 \<and>
           remainingUpstreamSends o' > 0)"

definition setCommitment :: "downstreamCommitment \<Rightarrow> routeOperation \<Rightarrow> routeOperation" where
  "setCommitment c o' = o'\<lparr>commitment := raiseCommitment (commitment o') c\<rparr>"

definition markExhausted :: "routeOperation \<Rightarrow> routeOperation \<times> bool" where
  "markExhausted o' =
     (if exhaustionRecorded o' then (o', False) else (o'\<lparr>exhaustionRecorded := True\<rparr>, True))"

text \<open>The result \<open>None\<close> is the source's \<open>("", false)\<close>.\<close>

definition maxOrderedTargets :: "modelRoute \<Rightarrow> nat" where
  "maxOrderedTargets r =
     (if mode (policy r) = routeModePrimaryOnly then min (length (targets r)) 1 else length (targets r))"

definition exhaustionDecision :: "routeOperation \<Rightarrow> string \<Rightarrow> routeRetryDecision option" where
  "exhaustionDecision o' endpoint =
     (if remainingTargetAttempts o' \<le> 0 \<or> remainingUpstreamSends o' \<le> 0 then Some routeRetrySuppressedBudget
      else if pinnedTargetID o' \<noteq> '''' then
        (case targetByID (opRoute o') (pinnedTargetID o') of
           None \<Rightarrow> Some routeRetrySuppressedNoTarget
         | Some target \<Rightarrow>
             if tbProvider target = None \<or> \<not> providerSupportsEndpoint (tbProvider target) endpoint
             then Some routeRetrySuppressedNoTarget else None)
      else if list_ex (\<lambda>target. \<not> (tbProvider target = None \<or> \<not> providerSupportsEndpoint (tbProvider target) endpoint)
                            \<and> tbId target \<notin> set (attemptedTargets o'))
             (take (maxOrderedTargets (opRoute o')) (targets (opRoute o')))
      then None else Some routeRetrySuppressedNoTarget)"

definition appendTrace :: "routeAttemptTrace \<Rightarrow> routeOperation \<Rightarrow> routeOperation" where
  "appendTrace t o' =
     (if length (opTrace o') \<ge> maxRouteAttemptTrace then o'\<lparr>opTrace := tl (opTrace o') @ [t]\<rparr>
      else o'\<lparr>opTrace := opTrace o' @ [t]\<rparr>)"

section \<open>Choosing targets\<close>

definition orderedRouteTargets ::
  "modelRoute option \<Rightarrow> routeOperation option \<Rightarrow> string \<Rightarrow> targetBinding list" where
  "orderedRouteTargets route operation endpoint =
     (case route of
        None \<Rightarrow> []
      | Some r \<Rightarrow>
          let pinned = (case operation of None \<Rightarrow> '''' | Some o' \<Rightarrow> pinnedTargetID o')
          in if pinned \<noteq> '''' then
               (case targetByID r pinned of
                  None \<Rightarrow> []
                | Some target \<Rightarrow>
                    if tbProvider target \<noteq> None \<and> providerSupportsEndpoint (tbProvider target) endpoint
                    then [target] else [])
             else filter (\<lambda>target.
                 \<not> (tbProvider target = None \<or> \<not> providerSupportsEndpoint (tbProvider target) endpoint) \<and>
                 (case operation of None \<Rightarrow> True | Some o' \<Rightarrow> tbId target \<notin> set (attemptedTargets o')))
               (take (maxOrderedTargets r) (targets r)))"

section \<open>Failures\<close>

record routeError =
  reCode :: string
  reGo :: goError

record routeResultAttribution =
  attrTargetID :: string
  attrProviderID :: string
  attrProviderKind :: "providerType option"

definition routeResultAttributionForTarget :: "targetBinding \<Rightarrow> routeResultAttribution" where
  "routeResultAttributionForTarget target =
     (case tbProvider target of
        None \<Rightarrow> \<lparr>attrTargetID = tbId target, attrProviderID = '''', attrProviderKind = None\<rparr>
      | Some p \<Rightarrow> \<lparr>attrTargetID = tbId target, attrProviderID = providerID p,
                  attrProviderKind = Some (providerKind p)\<rparr>)"

record routeAttemptFailure =
  fErr :: "routeError option"
  fResponse :: "capturedRouteResponse option"
  fAttribution :: routeResultAttribution
  fDelivery :: requestDelivery
  fProgress :: upstreamSemanticProgress
  fCommitment :: downstreamCommitment
  fDecision :: routeRetryDecision
  fStatusCode :: int
  fRetryAfter :: string
  fUpstreamID :: string
  fCleanupDone :: bool
  fOutcome :: routeAttemptOutcome

definition upstreamAuthUnavailableCode :: string where
  "upstreamAuthUnavailableCode = ''upstream_auth_unavailable''"

definition providerRequestErrorCode :: "routeError option \<Rightarrow> string" where
  "providerRequestErrorCode err = (case err of None \<Rightarrow> '''' | Some e \<Rightarrow> reCode e)"

definition errIs :: "routeError option \<Rightarrow> errKind \<Rightarrow> bool" where
  "errIs err k = (case err of None \<Rightarrow> False | Some e \<Rightarrow> errors_Is (reGo e) k)"

definition precedence :: "routeAttemptFailure \<Rightarrow> int" where
  "precedence f =
     (if fDelivery f = requestDeliveredOrAmbiguous then 4
      else if providerRequestErrorCode (fErr f) = upstreamAuthUnavailableCode \<or>
              fDecision f = routeRetrySuppressedNonretryable \<or> fDecision f = routeRetrySuppressedState \<or>
              fDecision f = routeRetrySuppressedLifecycle \<or> errIs (fErr f) ekCanceled \<or>
              errIs (fErr f) ekDeadlineExceeded then 3
      else if fDelivery f = requestExplicitlyRejected \<and> fStatusCode f \<noteq> 0 then 2
      else 1)"

definition emptyAttribution :: routeResultAttribution where
  "emptyAttribution = \<lparr>attrTargetID = '''', attrProviderID = '''', attrProviderKind = None\<rparr>"

definition emptyFailure :: routeAttemptFailure where
  "emptyFailure = \<lparr>fErr = None, fResponse = None, fAttribution = emptyAttribution,
     fDelivery = requestDeliveryUnset, fProgress = upstreamProgressUnset,
     fCommitment = downstreamCommitmentNone, fDecision = routeRetryUnset, fStatusCode = 0,
     fRetryAfter = '''', fUpstreamID = '''', fCleanupDone = False,
     fOutcome = routeAttemptOutcomeUnset\<rparr>"

definition plainError :: "string \<Rightarrow> routeError" where
  "plainError text = \<lparr>reCode = '''', reGo = \<lparr>errChain = [ekOther], errText = text\<rparr>\<rparr>"

definition preferFailure :: "routeAttemptFailure \<Rightarrow> routeAttemptFailure \<Rightarrow> routeAttemptFailure" where
  "preferFailure selected failure =
     (if precedence failure > precedence selected \<or>
         (precedence failure = precedence selected \<and> attrTargetID (fAttribution failure) \<noteq> '''' \<and>
          attrTargetID (fAttribution failure) = attrTargetID (fAttribution selected))
      then failure else selected)"

definition selectFinalRouteFailure :: "routeAttemptFailure list \<Rightarrow> routeAttemptFailure" where
  "selectFinalRouteFailure failures =
     (case failures of
        [] \<Rightarrow> emptyFailure\<lparr>fErr := Some (plainError ''no eligible route target''),
                fDecision := routeRetrySuppressedNoTarget\<rparr>
      | f # fs \<Rightarrow> foldl preferFailure f fs)"

section \<open>Decisions\<close>

text \<open>\<open>blocked\<close> is the \<open>Retry-After\<close> header of the response that blocked the retry, if there is
  one; \<open>parseDelay\<close> is \<open>parseRetryAfter\<close> at the current time.\<close>

definition suppressPendingRouteRetry ::
  "(string \<Rightarrow> goduration option) \<Rightarrow> routeRetryDecision \<Rightarrow> string option \<Rightarrow>
   routeOperation \<times> routeAttemptFailure list \<Rightarrow> routeOperation \<times> routeAttemptFailure list" where
  "suppressPendingRouteRetry parseDelay decision blocked s =
     (case s of (o', failures) \<Rightarrow>
        if failures = [] then (o', failures)
        else
          let failure = (last failures)\<lparr>fDecision := decision\<rparr>;
              failure = (case blocked of
                  None \<Rightarrow> failure
                | Some retryAfter \<Rightarrow>
                    (case parseDelay retryAfter of
                       None \<Rightarrow> failure
                     | Some delay \<Rightarrow>
                         if delay > (case parseDelay (fRetryAfter failure) of Some d \<Rightarrow> d | None \<Rightarrow> 0)
                         then failure\<lparr>fRetryAfter := retryAfter,
                                fResponse := map_option (\<lambda>r. r\<lparr>capHeader :=
                                  headerSet (capHeader r) ''Retry-After'' retryAfter\<rparr>) (fResponse failure)\<rparr>
                         else failure));
              o1 = (if opTrace o' \<noteq> [] \<and> tDecision (last (opTrace o')) = routeRetrySameTarget
                    then o'\<lparr>opTrace := butlast (opTrace o') @ [(last (opTrace o'))\<lparr>tDecision := decision\<rparr>]\<rparr>
                    else o')
          in (o1, butlast failures @ [failure]))"

definition sameTargetRetryDecision ::
  "lifeView \<Rightarrow> routeAttemptKind \<Rightarrow> routeOperation \<Rightarrow> routeRetryDecision" where
  "sameTargetRetryDecision life kind o' =
     (if lifeShuttingDown life \<or> lifeCtxErr life then routeRetrySuppressedLifecycle
      else if lifeInboundErr life then routeRetrySuppressedAdmission
      else if commitment o' \<noteq> downstreamCommitmentNone \<and>
              (\<not> hardPinned o' \<or> commitment o' \<noteq> downstreamCommitmentProtocolFrame)
      then routeRetrySuppressedCommitment
      else if kind \<noteq> routeAttemptNormal then routeRetrySuppressedMode
      else if remainingUpstreamSends o' \<le> 0 then routeRetrySuppressedBudget
      else routeRetrySameTarget)"

definition routeCanSwitchAfterAttempt ::
  "lifeView \<Rightarrow> routeOperation \<Rightarrow> string \<Rightarrow> routeAttemptKind \<Rightarrow> bool" where
  "routeCanSwitchAfterAttempt life o' endpoint kind \<longleftrightarrow>
     mode (policy (opRoute o')) = routeModePriorityFailover \<and>
     allowsAutomaticTargetSwitch o' kind \<and> retryAdmissionOpen life o' \<and>
     length (orderedRouteTargets (Some (opRoute o')) (Some o') endpoint) > 0"

definition explicitRouteCredentialFailureDecision ::
  "lifeView \<Rightarrow> routeOperation \<Rightarrow> string \<Rightarrow> routeAttemptKind \<Rightarrow> routeError option \<Rightarrow> routeRetryDecision" where
  "explicitRouteCredentialFailureDecision life o' endpoint kind err =
     (if providerRequestErrorCode err \<noteq> upstreamAuthUnavailableCode then routeRetrySuppressedNonretryable
      else if lifeCtxErr life \<or> lifeShuttingDown life then routeRetrySuppressedLifecycle
      else if lifeInboundErr life then routeRetrySuppressedAdmission
      else if mode (policy (opRoute o')) \<noteq> routeModePriorityFailover then routeRetrySuppressedMode
      else if pinnedTargetID o' \<noteq> '''' \<or> \<not> allowsAutomaticTargetSwitch o' kind then routeRetrySuppressedState
      else if commitment o' \<noteq> downstreamCommitmentNone then routeRetrySuppressedCommitment
      else if \<not> (remainingTargetAttempts o' > 0 \<and> remainingUpstreamSends o' > 0) then routeRetrySuppressedBudget
      else if orderedRouteTargets (Some (opRoute o')) (Some o') endpoint = [] then routeRetrySuppressedNoTarget
      else routeRetrySwitchTarget)"

definition conversationMigrationProviderSupported :: "providerType \<Rightarrow> bool" where
  "conversationMigrationProviderSupported kind \<longleftrightarrow>
     kind = providerTypeAzureOpenAI \<or> kind = providerTypeCopilot"

definition supportsHostedTools :: "providerRuntime option \<Rightarrow> string list \<Rightarrow> bool" where
  "supportsHostedTools p required =
     list_all (\<lambda>name. \<not> (case p of None \<Rightarrow> True
        | Some p' \<Rightarrow> \<not> (case gm_get (hostedTools p') name of Some b \<Rightarrow> b | None \<Rightarrow> False))) required"

definition conversationMigrationTarget ::
  "lifeView \<Rightarrow> routeOperation \<Rightarrow> string \<Rightarrow> routeAttemptKind \<Rightarrow> targetBinding option" where
  "conversationMigrationTarget life o' endpoint kind =
     (case opConversation o' of
        None \<Rightarrow> None
      | Some t \<Rightarrow>
          if endpoint \<noteq> providerEndpointResponses \<or> kind \<noteq> routeAttemptNormal \<or> \<not> retryAdmissionOpen life o'
          then None
          else if convClosed t \<or> pinnedTargetID o' = '''' then None
          else if (\<not> convAttempted t \<and> stateOwnerIdentity o' = zeroIdentity) \<or>
                  mode (policy (opRoute o')) \<noteq> routeModePriorityFailover then None
          else find (\<lambda>target. tbId target \<noteq> pinnedTargetID o' \<and> tbId target \<notin> set (attemptedTargets o') \<and>
                 (case tbProvider target of None \<Rightarrow> False
                  | Some p \<Rightarrow> conversationMigrationProviderSupported (providerKind p)) \<and>
                 providerSupportsEndpoint (tbProvider target) endpoint \<and>
                 supportsHostedTools (tbProvider target) (convHostedTools t)) (targets (opRoute o')))"

definition safeConversationMigrationFailure :: "routeAttemptFailure \<Rightarrow> bool" where
  "safeConversationMigrationFailure f =
     (if \<not> fCleanupDone f \<or> fCommitment f \<noteq> downstreamCommitmentNone \<or>
         \<not> upstreamProgressAllowsTargetSwitch (fProgress f) then False
      else (fDelivery f = requestDefinitelyNotDelivered \<and> fOutcome f = routeAttemptOutcomeTransportError) \<or>
           ((fDelivery f = requestExplicitlyRejected \<or> fDelivery f = requestDefinitelyNotDelivered) \<and>
            fOutcome f = routeAttemptOutcomeRejected))"

definition maxAzureTrafficWait :: goduration where
  "maxAzureTrafficWait = 5 * 60 * second"

text \<open>
  The answers of the surroundings to \<open>explicitRouteRejectionDecision\<close>: the views of its two
  contexts for the delay budget, the parser of delays, and whether the traffic controller
  exists and tracks a cool-down for the target.
\<close>

record rejectionEnv =
  rejLife :: lifeView
  rejCtx :: ctxView
  rejInbound :: "ctxView option"
  rejParseDelay :: "string \<Rightarrow> goduration option"
  rejTraffic :: "bool option"

definition explicitRouteRejectionDecision ::
  "rejectionEnv \<Rightarrow> routeOperation \<Rightarrow> targetBinding \<Rightarrow> string \<Rightarrow> routeAttemptKind \<Rightarrow> routeAttemptFailure \<Rightarrow>
   routeRetryDecision" where
  "explicitRouteRejectionDecision e o' target endpoint kind f =
     (let parsed = rejParseDelay e (fRetryAfter f);
          delay = (case parsed of Some d \<Rightarrow> d | None \<Rightarrow> 0);
          azureRecovery = (map_option providerKind (tbProvider target) = Some providerTypeAzureOpenAI \<and>
             fStatusCode f = 429 \<and> parsed \<noteq> None);
          decision = (if \<not> allowsAutomaticTargetSwitch o' kind then routeRetrySuppressedState
                      else routeRetrySuppressedMode)
      in if mode (policy (opRoute o')) = routeModePriorityFailover \<and> allowsAutomaticTargetSwitch o' kind \<and>
            retryAdmissionOpen (rejLife e) o' \<and>
            (\<not> azureRecovery \<or> length (orderedRouteTargets (Some (opRoute o')) (Some o') endpoint) > 0)
         then routeRetrySwitchTarget
         else if \<not> azureRecovery \<or> fDelivery f \<noteq> requestExplicitlyRejected \<or> \<not> fCleanupDone f \<or>
              fCommitment f \<noteq> downstreamCommitmentNone \<or> \<not> upstreamProgressAllowsTargetSwitch (fProgress f)
         then decision
         else if conversationMigrationTarget (rejLife e) o' endpoint kind \<noteq> None \<and>
              safeConversationMigrationFailure f then routeRetrySuppressedState
         else if sameTargetRetryDecision (rejLife e) kind o' \<noteq> routeRetrySameTarget
         then sameTargetRetryDecision (rejLife e) kind o'
         else if delay > maxAzureTrafficWait \<or> \<not> retryDelayFitsBudget (rejCtx e) delay then decision
         else if (case rejInbound e of Some i \<Rightarrow> \<not> retryDelayFitsBudget i delay | None \<Rightarrow> False) then decision
         else (case rejTraffic e of
                 None \<Rightarrow> decision
               | Some tracked \<Rightarrow> if \<not> tracked then decision else routeRetrySameTarget))"

section \<open>The operation as a machine\<close>

text \<open>One rule per method that changes the state; callers choose the arguments and the order.\<close>

inductive op_step :: "routeOperation \<Rightarrow> routeOperation \<Rightarrow> bool" where
  op_pin: "op_step o' (pinTarget t o')"
| op_force: "forcePinnedTarget t o' = Some o'' \<Longrightarrow> op_step o' o''"
| op_reserveTarget: "op_step o' (fst (reserveTarget t o'))"
| op_reserveSend: "op_step o' (fst (reserveSendAtDispatch life o'))"
| op_commit: "op_step o' (setCommitment c o')"
| op_exhausted: "op_step o' (fst (markExhausted o'))"
| op_trace: "op_step o' (appendTrace t o')"
| op_suppress: "op_step o' (fst (suppressPendingRouteRetry pd d b (o', failures)))"

inductive_simps op_step_iff: "op_step o' o''"

definition effectiveTargets :: "modelRoute \<Rightarrow> int" where
  "effectiveTargets r = (if maxTargetAttempts (policy r) \<le> 0 then 1 else maxTargetAttempts (policy r))"

definition effectiveSends :: "modelRoute \<Rightarrow> int" where
  "effectiveSends r = (if maxUpstreamSends (policy r) \<le> 0 then effectiveTargets r else maxUpstreamSends (policy r))"

lemma effective_pos: "0 < effectiveTargets r" "0 < effectiveSends r"
  by (simp_all add: effectiveTargets_def effectiveSends_def)

definition op_init :: "modelRoute \<Rightarrow> routeOperation \<Rightarrow> bool" where
  "op_init r o' \<longleftrightarrow> (\<exists>i u. newRouteOperationWithID (Some r) i u = Some o')"

definition op_inv :: "modelRoute \<Rightarrow> routeOperation \<Rightarrow> bool" where
  "op_inv r o' \<longleftrightarrow> opRoute o' = r \<and>
     upstreamSends o' + remainingUpstreamSends o' = effectiveSends r \<and>
     0 \<le> remainingUpstreamSends o' \<and> 0 \<le> upstreamSends o' \<and>
     int (length (attemptedTargets o')) + remainingTargetAttempts o' = effectiveTargets r \<and>
     0 \<le> remainingTargetAttempts o' \<and> distinct (attemptedTargets o') \<and>
     targetSwitches o' = int (length (attemptedTargets o') - 1) \<and>
     length (opTrace o') \<le> maxRouteAttemptTrace \<and> (hardPinned o' \<longrightarrow> pinnedTargetID o' \<noteq> '''')"

lemma trimSpace_nonempty: "trimSpace t \<noteq> '''' \<Longrightarrow> t \<noteq> ''''"
  by auto

lemma op_init_inv: "op_init r o' \<Longrightarrow> op_inv r o'"
  using effective_pos[of r]
  by (auto simp: op_init_def newRouteOperationWithID_def op_inv_def Let_def effectiveTargets_def
      effectiveSends_def maxRouteAttemptTrace_def split: if_splits)

lemma suppress_op:
  "\<exists>tr. fst (suppressPendingRouteRetry pd d b (o', fs)) = o'\<lparr>opTrace := tr\<rparr> \<and> length tr = length (opTrace o')"
proof -
  have e: "fst (suppressPendingRouteRetry pd d b (o', fs)) =
      (if fs \<noteq> [] \<and> opTrace o' \<noteq> [] \<and> tDecision (last (opTrace o')) = routeRetrySameTarget
       then o'\<lparr>opTrace := butlast (opTrace o') @ [(last (opTrace o'))\<lparr>tDecision := d\<rparr>]\<rparr> else o')"
    by (simp add: suppressPendingRouteRetry_def Let_def)
  show ?thesis
  proof (cases "fs \<noteq> [] \<and> opTrace o' \<noteq> [] \<and> tDecision (last (opTrace o')) = routeRetrySameTarget")
    case True
    then show ?thesis unfolding e by (intro exI[of _ "butlast (opTrace o') @ [(last (opTrace o'))\<lparr>tDecision := d\<rparr>]"]) simp
  next
    case False
    then show ?thesis unfolding e by (intro exI[of _ "opTrace o'"]) auto
  qed
qed

lemma op_step_inv:
  assumes "op_inv r o'" "op_step o' o''"
  shows "op_inv r o''"
  using assms(2,1)
proof (induction rule: op_step.induct)
  case (op_force t o' o'')
  then show ?case
    by (auto simp: forcePinnedTarget_def op_inv_def split: if_splits dest: trimSpace_nonempty)
next
  case (op_reserveTarget o' t)
  then show ?case
    by (cases "attemptedTargets o' = []") (auto simp: reserveTarget_def op_inv_def Let_def Suc_le_eq of_nat_diff)
next
  case (op_suppress o' pd d b fs)
  then show ?case using suppress_op[of pd d b o' fs] by (auto simp: op_inv_def)
next
  case (op_trace o' t)
  then show ?case by (auto simp: appendTrace_def op_inv_def maxRouteAttemptTrace_def)
qed (auto simp: pinTarget_def reserveSendAtDispatch_def setCommitment_def markExhausted_def op_inv_def
    dest: trimSpace_nonempty)

interpretation opm: machine_invariant "op_init r" op_step "op_inv r" for r
  by unfold_locales (auto intro: op_init_inv op_step_inv)

text \<open>What only grows: pins are never moved, commitment never falls.\<close>

lemma op_step_keeps:
  "op_step o' o'' \<Longrightarrow> (pinnedTargetID o' \<noteq> '''' \<longrightarrow> pinnedTargetID o'' = pinnedTargetID o') \<and>
     (hardPinned o' \<longrightarrow> hardPinned o'') \<and>
     routeCommitmentRank (commitment o') \<le> routeCommitmentRank (commitment o'')"
proof (induction rule: op_step.induct)
  case (op_suppress o' pd d b fs)
  then show ?case using suppress_op[of pd d b o' fs] by auto
qed (auto simp: pinTarget_def forcePinnedTarget_def reserveTarget_def reserveSendAtDispatch_def
    setCommitment_def markExhausted_def appendTrace_def raiseCommitment_def Let_def split: if_splits)

lemma op_run_keeps:
  "op_step\<^sup>*\<^sup>* o' o'' \<Longrightarrow> (pinnedTargetID o' \<noteq> '''' \<longrightarrow> pinnedTargetID o'' = pinnedTargetID o') \<and>
     (hardPinned o' \<longrightarrow> hardPinned o'') \<and>
     routeCommitmentRank (commitment o') \<le> routeCommitmentRank (commitment o'')"
  by (induction rule: rtranclp_induct) (use op_step_keeps in \<open>fastforce+\<close>)

section \<open>Facts on targets and failures\<close>

lemma ordered_pinned:
  "pinnedTargetID o' \<noteq> '''' \<Longrightarrow> t \<in> set (orderedRouteTargets (Some r) (Some o') endpoint) \<Longrightarrow>
     tbId t = pinnedTargetID o'"
  by (auto simp: orderedRouteTargets_def Let_def split: option.splits if_splits dest: targetByID_mem targetByID_mem[OF sym])

lemma ordered_mem:
  "t \<in> set (orderedRouteTargets (Some r) (Some o') endpoint) \<Longrightarrow>
     t \<in> set (targets r) \<and> target_serves endpoint t \<and>
     (pinnedTargetID o' = '''' \<longrightarrow> tbId t \<notin> set (attemptedTargets o') \<and> t \<in> set (take (maxOrderedTargets r) (targets r)))"
  by (auto simp: orderedRouteTargets_def Let_def target_serves_def split: option.splits if_splits
      dest: targetByID_mem targetByID_mem[OF sym] in_set_takeD)

lemma prefer_fold:
  "precedence (foldl preferFailure f fs) = Max (precedence ` set (f # fs)) \<and>
   foldl preferFailure f fs \<in> set (f # fs)"
proof (induction fs arbitrary: f)
  case (Cons g fs)
  have c: "preferFailure f g = f \<or> preferFailure f g = g" by (simp add: preferFailure_def)
  have p: "precedence (preferFailure f g) = max (precedence f) (precedence g)"
    by (auto simp: preferFailure_def)
  have "Max (precedence ` set (preferFailure f g # fs)) = Max (precedence ` set (f # g # fs))"
    by (cases "fs = []") (simp_all add: p max.assoc)
  then show ?case using Cons[of "preferFailure f g"] c by auto
qed simp

section \<open>Properties\<close>

text \<open>Whatever order the methods are called in, an operation never exceeds its route's
  budgets: sends and attempted targets plus what remains are the configured budgets, the
  number of switches is the number of further targets, and the trace is bounded.\<close>

theorem operation_budgets:
  assumes "op_init r o0" "op_step\<^sup>*\<^sup>* o0 o'"
  shows "upstreamSends o' + remainingUpstreamSends o' = effectiveSends r \<and>
    0 \<le> upstreamSends o' \<and> upstreamSends o' \<le> effectiveSends r \<and>
    int (card (set (attemptedTargets o'))) + remainingTargetAttempts o' = effectiveTargets r \<and>
    int (card (set (attemptedTargets o'))) \<le> effectiveTargets r \<and>
    targetSwitches o' < effectiveTargets r \<and> length (opTrace o') \<le> maxRouteAttemptTrace"
proof -
  have "op_inv r o'" by (rule opm.reachable_inv[OF assms])
  then show ?thesis using effective_pos[of r] unfolding op_inv_def
    by (cases "attemptedTargets o'") (auto simp: distinct_card)
qed

text \<open>A route with two Copilot targets, for the examples.\<close>

definition exProvider :: "string \<Rightarrow> providerRuntime" where
  "exProvider i = \<lparr>providerID = i, providerKind = providerTypeCopilot,
     modelDiscovery = providerModelDiscoveryStatic, includeModels = [], excludeModels = [], hostedTools = []\<rparr>"

definition exTarget :: "string \<Rightarrow> targetBinding" where
  "exTarget i = \<lparr>tbId = i, tbProvider = Some (exProvider i), upstreamModel = ''m''\<rparr>"

definition exRoute :: modelRoute where
  "exRoute = \<lparr>publicID = ''m'', publicRouteID = ''r'', endpoints = [providerEndpointResponses],
     targets = [exTarget ''a'', exTarget ''b''],
     policy = \<lparr>mode = routeModePriorityFailover, maxTargetAttempts = 2, maxUpstreamSends = 3, legacyRetry = False\<rparr>,
     legacy = False\<rparr>"

definition exOp :: routeOperation where
  "exOp = the (newRouteOperationWithID (Some exRoute) ''op'' ''u'')"

lemma exOp_init: "op_init exRoute exOp"
  unfolding op_init_def exOp_def by (rule exI[of _ "''op''"], rule exI[of _ "''u''"])
    (simp add: newRouteOperationWithID_def exRoute_def Let_def)

definition exLife :: lifeView where
  "exLife = \<lparr>lifeCtxErr = False, lifeShuttingDown = False, lifeInboundErr = False\<rparr>"

lemma operation_budgets_witness:
  "upstreamSends (fst (reserveSendAtDispatch exLife (fst (reserveTarget ''a'' exOp)))) \<le> 3"
proof -
  have "op_step\<^sup>*\<^sup>* exOp (fst (reserveSendAtDispatch exLife (fst (reserveTarget ''a'' exOp))))"
    by (meson op_reserveTarget op_reserveSend converse_rtranclp_into_rtranclp r_into_rtranclp)
  from operation_budgets[OF exOp_init this] show ?thesis
    by (simp add: effectiveSends_def exRoute_def)
qed

text \<open>A pin is for life: once an operation is pinned to a target, no sequence of method
  calls makes it choose any other target, a hard pin stays hard, and commitment to the client
  is never taken back.\<close>

theorem pin_is_permanent:
  assumes "op_step\<^sup>*\<^sup>* o0 o'" "pinnedTargetID o0 \<noteq> ''''"
  shows "list_all (\<lambda>t. tbId t = pinnedTargetID o0) (orderedRouteTargets (Some r) (Some o') endpoint) \<and>
    (hardPinned o0 \<longrightarrow> \<not> allowsAutomaticTargetSwitch o' kind) \<and>
    routeCommitmentRank (commitment o0) \<le> routeCommitmentRank (commitment o')"
  using op_run_keeps[OF assms(1)] assms(2) ordered_pinned[of o' _ r endpoint]
  by (auto simp: list_all_iff allowsAutomaticTargetSwitch_def)

lemma pin_is_permanent_witness:
  "list_all (\<lambda>t. tbId t = ''b'')
     (orderedRouteTargets (Some exRoute) (Some (pinTarget ''a'' (exOp\<lparr>pinnedTargetID := ''b''\<rparr>)))
        providerEndpointResponses)"
proof -
  have "op_step\<^sup>*\<^sup>* (exOp\<lparr>pinnedTargetID := ''b''\<rparr>) (pinTarget ''a'' (exOp\<lparr>pinnedTargetID := ''b''\<rparr>))"
    by (rule r_into_rtranclp) (rule op_pin)
  from pin_is_permanent[OF this, of exRoute providerEndpointResponses routeAttemptNormal] show ?thesis by simp
qed

text \<open>The exhaustion report agrees with the choice of targets: it answers that the operation
  is not exhausted exactly when both budgets remain and there is a target left to choose.\<close>

theorem exhaustion_iff_no_target:
  "exhaustionDecision o' endpoint = None \<longleftrightarrow>
     0 < remainingTargetAttempts o' \<and> 0 < remainingUpstreamSends o' \<and>
     orderedRouteTargets (Some (opRoute o')) (Some o') endpoint \<noteq> []"
  by (auto simp: exhaustionDecision_def orderedRouteTargets_def Let_def list_ex_iff filter_empty_conv
      split: option.splits if_splits)

text \<open>The failure reported for the whole operation is one of its failures and the most
  authoritative: an ambiguous delivery is never hidden behind a safe failure.\<close>

theorem final_failure_is_worst:
  assumes "failures \<noteq> []"
  shows "selectFinalRouteFailure failures \<in> set failures \<and>
    precedence (selectFinalRouteFailure failures) = Max (precedence ` set failures) \<and>
    (fDelivery (selectFinalRouteFailure failures) = requestDeliveredOrAmbiguous \<longleftrightarrow>
       list_ex (\<lambda>f. fDelivery f = requestDeliveredOrAmbiguous) failures)"
proof -
  obtain f fs where fs: "failures = f # fs" using assms by (cases failures) auto
  have s: "selectFinalRouteFailure failures = foldl preferFailure f fs"
    by (simp add: selectFinalRouteFailure_def fs)
  note pf = prefer_fold[of f fs, folded s fs]
  have four: "fDelivery g = requestDeliveredOrAmbiguous \<longleftrightarrow> precedence g = 4" for g
    by (simp add: precedence_def)
  have le4: "precedence g \<le> 4" for g by (simp add: precedence_def)
  have ge: "g \<in> set failures \<Longrightarrow> precedence g \<le> precedence (selectFinalRouteFailure failures)" for g
    using pf by simp
  have "precedence (selectFinalRouteFailure failures) = 4 \<longleftrightarrow> (\<exists>g \<in> set failures. precedence g = 4)"
    using pf ge le4[of "selectFinalRouteFailure failures"] by (metis order_antisym)
  with pf show ?thesis by (auto simp: four list_ex_iff)
qed

lemma final_failure_is_worst_witness:
  "fDelivery (selectFinalRouteFailure [emptyFailure\<lparr>fDelivery := requestDeliveredOrAmbiguous\<rparr>, emptyFailure])
     = requestDeliveredOrAmbiguous"
  using final_failure_is_worst[of "[emptyFailure\<lparr>fDelivery := requestDeliveredOrAmbiguous\<rparr>, emptyFailure]"]
  by simp

end
