(* ===== verification/State_Tokens.thy ===== *)
theory State_Tokens
  imports Durable_Binding Route_Operation
begin

text \<open>
  Provider state in requests and responses (\<open>proxy/route_state_binding.go\<close>,
  \<open>proxy/route_state_durable_identity.go\<close>): which tokens a Responses body and its headers carry,
  and how the tokens of a request pin its operation to the target that owns them.

  \<open>encoding/json\<close> and \<open>encoding/base64\<close> are the record \<open>stateJson\<close>; a decoded object has one
  value for every name. The order in which Go walks a decoded object is the order of the
  association list. Hit and miss counters are not modelled.
\<close>

section \<open>Parsing and errors\<close>

record stateJson =
  sjNoDuplicates :: "string \<Rightarrow> bool"
  sjUnambiguous :: "string \<Rightarrow> bool"
  sjDecode :: "string \<Rightarrow> jval option"
  sjBase64 :: "string \<Rightarrow> string option"
  sjPayload :: "string \<Rightarrow> string option"

datatype stateTokenError =
    steAmbiguousRequest | steInvalidJSON | steNonCanonicalField string
  | stePreviousResponseID | steConversation | stePreviousAndConversation
  | steEncryptedContent | steTurnStateDiffers
  | steAmbiguousResponse | steOutputNotObject | steAmbiguousAliases string
  | steConflictingTurnState

fun whenOk :: "'e + 'a \<Rightarrow> ('a \<Rightarrow> 'e + 'b) \<Rightarrow> 'e + 'b" where
  "whenOk (Inl e) f = Inl e"
| "whenOk (Inr x) f = f x"

type_synonym jmembers = "(string, jval) gomap"

section \<open>Tokens\<close>

definition tokenKey :: "string \<Rightarrow> string \<Rightarrow> string" where
  "tokenKey ty v = ty @ CHR 0x00 # v"

text \<open>The closure \<open>add\<close> of the request side; \<open>seen\<close> is the keys of the tokens so far.\<close>

definition insertToken :: "string \<Rightarrow> string \<Rightarrow> stateBindingToken list \<Rightarrow> stateBindingToken list" where
  "insertToken ty v tokens =
     (if v = '''' \<or> tokenKey ty v \<in> set (map (\<lambda>t. tokenKey (stateType t) (tokValue t)) tokens)
      then tokens else tokens @ [\<lparr>stateType = ty, tokValue = v\<rparr>])"

definition addToken :: "string \<Rightarrow> string \<Rightarrow> stateBindingToken list \<Rightarrow> stateBindingToken list" where
  "addToken ty value tokens = insertToken ty (trimSpace value) tokens"

definition hasPrefix :: "string \<Rightarrow> string \<Rightarrow> bool" where
  "hasPrefix s p \<longleftrightarrow> take (length p) s = p"

definition syntheticCompactionPrefix :: string where
  "syntheticCompactionPrefix = ''vekil.compaction.v1:''"
definition legacySyntheticCompactionPrefix :: string where
  "legacySyntheticCompactionPrefix = ''copilot-proxy.compaction.v1:''"

definition isLikelyLegacyPlaintextCompactionSummary :: "string \<Rightarrow> bool" where
  "isLikelyLegacyPlaintextCompactionSummary s \<longleftrightarrow>
     (let s' = trimSpace s in s' \<noteq> '''' \<and> set s' \<inter> {CHR '' '', CHR 0x09, CHR 0x0D, CHR 0x0A} \<noteq> {})"

definition extractSyntheticOrLegacyCompactionSummary :: "stateJson \<Rightarrow> string \<Rightarrow> string option" where
  "extractSyntheticOrLegacyCompactionSummary api s =
     (let payload = (\<lambda>p. case sjBase64 api (drop (length p) s) of None \<Rightarrow> None | Some b \<Rightarrow> sjPayload api b)
      in if hasPrefix s syntheticCompactionPrefix then payload syntheticCompactionPrefix
         else if hasPrefix s legacySyntheticCompactionPrefix then payload legacySyntheticCompactionPrefix
         else if isLikelyLegacyPlaintextCompactionSummary s then Some s else None)"

definition isProxyOwnedEncryptedContent :: "stateJson \<Rightarrow> string \<Rightarrow> bool" where
  "isProxyOwnedEncryptedContent api s \<longleftrightarrow>
     (hasPrefix s syntheticCompactionPrefix \<or> hasPrefix s legacySyntheticCompactionPrefix) \<and>
     extractSyntheticOrLegacyCompactionSummary api s \<noteq> None"

section \<open>Items\<close>

definition jstring :: "jval option \<Rightarrow> string" where
  "jstring v = (case v of Some (JString s) \<Rightarrow> s | _ \<Rightarrow> '''')"

definition explicitResponsesItemOwnsEncryptedContent :: "jmembers \<Rightarrow> bool" where
  "explicitResponsesItemOwnsEncryptedContent item \<longleftrightarrow>
     trimSpace (jstring (gm_get item ''type'')) \<in> {''reasoning'', ''compaction'', ''context_compaction''}"

text \<open>\<open>visitExplicitResponsesItem\<close>: the string that is visited, if any.\<close>

definition visitExplicitResponsesItem :: "jval \<Rightarrow> bool \<Rightarrow> (stateTokenError + string option)" where
  "visitExplicitResponsesItem value rejectMalformed =
     (case value of
        JObject item \<Rightarrow>
          if \<not> explicitResponsesItemOwnsEncryptedContent item then Inr None
          else (case gm_get item ''encrypted_content'' of
              None \<Rightarrow> Inr None
            | Some raw \<Rightarrow>
                (case raw of
                   JString token \<Rightarrow>
                     if trimSpace token = ''''
                     then (if rejectMalformed then Inl steEncryptedContent else Inr None)
                     else Inr (Some token)
                 | _ \<Rightarrow> if rejectMalformed then Inl steEncryptedContent else Inr None))
      | _ \<Rightarrow> Inr None)"

text \<open>\<open>visitExplicitResponsesItems\<close> with the visitor of the request side.\<close>

fun visitRequestItems ::
  "stateJson \<Rightarrow> jval list \<Rightarrow> stateBindingToken list \<Rightarrow> (stateTokenError + stateBindingToken list)" where
  "visitRequestItems api [] tokens = Inr tokens"
| "visitRequestItems api (item # items) tokens =
     whenOk (visitExplicitResponsesItem item True) (\<lambda>found. visitRequestItems api items
       (case found of
          None \<Rightarrow> tokens
        | Some v \<Rightarrow> if isProxyOwnedEncryptedContent api v then tokens
                   else addToken stateBindingTypeEncryptedContent v tokens))"

section \<open>The state of a request\<close>

definition rejectResponsesStateFieldAliases :: "jmembers \<Rightarrow> string list \<Rightarrow> stateTokenError option" where
  "rejectResponsesStateFieldAliases object names =
     map_option steNonCanonicalField
       (find (\<lambda>field. \<exists>name \<in> fst ` set object. name \<noteq> field \<and> equalFold name field) names)"

fun rejectItemAliases :: "jval list \<Rightarrow> stateTokenError option" where
  "rejectItemAliases [] = None"
| "rejectItemAliases (value # values) =
     (case value of
        JObject item \<Rightarrow>
          (case rejectResponsesStateFieldAliases item [''type''] of
             Some e \<Rightarrow> Some e
           | None \<Rightarrow>
               (case (if explicitResponsesItemOwnsEncryptedContent item
                      then rejectResponsesStateFieldAliases item [''encrypted_content''] else None) of
                  Some e \<Rightarrow> Some e
                | None \<Rightarrow> rejectItemAliases values))
      | _ \<Rightarrow> rejectItemAliases values)"

text \<open>The checks of the durable mode, before anything is read.\<close>

definition durableRequestAliases :: "jmembers \<Rightarrow> stateTokenError option" where
  "durableRequestAliases object =
     (case rejectResponsesStateFieldAliases object [''previous_response_id'', ''conversation'', ''input''] of
        Some e \<Rightarrow> Some e
      | None \<Rightarrow>
          (case (case gm_get object ''conversation'' of
                   Some (JObject conversation) \<Rightarrow> rejectResponsesStateFieldAliases conversation [''id'']
                 | _ \<Rightarrow> None) of
             Some e \<Rightarrow> Some e
           | None \<Rightarrow> (case gm_get object ''input'' of Some (JArray input) \<Rightarrow> rejectItemAliases input | _ \<Rightarrow> None)))"

definition requestPreviousResponseID :: "jmembers \<Rightarrow> (stateTokenError + string option)" where
  "requestPreviousResponseID object =
     (case gm_get object ''previous_response_id'' of
        None \<Rightarrow> Inr None
      | Some JNull \<Rightarrow> Inr None
      | Some (JString value) \<Rightarrow> if trimSpace value = '''' then Inl stePreviousResponseID else Inr (Some value)
      | Some _ \<Rightarrow> Inl stePreviousResponseID)"

definition explicitResponsesRequestConversationID :: "jval option \<Rightarrow> (stateTokenError + string option)" where
  "explicitResponsesRequestConversationID value =
     (let finish = (\<lambda>c. let c' = trimSpace c in if c' = '''' then Inl steConversation else Inr (Some c'))
      in case value of
           None \<Rightarrow> Inr None
         | Some JNull \<Rightarrow> Inr None
         | Some (JString c) \<Rightarrow> finish c
         | Some (JObject conversation) \<Rightarrow>
             (case gm_get conversation ''id'' of Some (JString c) \<Rightarrow> finish c | _ \<Rightarrow> Inl steConversation)
         | Some _ \<Rightarrow> Inl steConversation)"

definition requestObjectState ::
  "stateJson \<Rightarrow> bool \<Rightarrow> jmembers \<Rightarrow> (stateTokenError + stateBindingToken list)" where
  "requestObjectState api durable object =
     (case (if durable then durableRequestAliases object else None) of
        Some e \<Rightarrow> Inl e
      | None \<Rightarrow>
          whenOk (requestPreviousResponseID object) (\<lambda>previous.
          whenOk (explicitResponsesRequestConversationID (gm_get object ''conversation'')) (\<lambda>conversation.
            if previous \<noteq> None \<and> conversation \<noteq> None then Inl stePreviousAndConversation
            else
              let t1 = (case previous of Some v \<Rightarrow> addToken stateBindingTypeResponseID v [] | None \<Rightarrow> []);
                  t2 = (case conversation of Some v \<Rightarrow> addToken stateBindingTypeConversationID v t1 | None \<Rightarrow> t1)
              in case gm_get object ''input'' of
                   Some (JArray items) \<Rightarrow> visitRequestItems api items t2
                 | _ \<Rightarrow> Inr t2)))"

text \<open>The values of the header \<open>X-Codex-Turn-State\<close>; \<open>None\<close> when two of them differ.\<close>

fun turnStateOf :: "string \<Rightarrow> string list \<Rightarrow> string option" where
  "turnStateOf cur [] = Some cur"
| "turnStateOf cur (value # values) =
     (let v = trimSpace value
      in if v = '''' then turnStateOf cur values
         else if cur \<noteq> '''' \<and> cur \<noteq> v then None
         else turnStateOf v values)"

definition extractResponsesRequestState ::
  "stateJson \<Rightarrow> string \<Rightarrow> string list \<Rightarrow> bool \<Rightarrow> (stateTokenError + stateBindingToken list)" where
  "extractResponsesRequestState api body turnStates durable =
     (if \<not> sjNoDuplicates api body then Inl steAmbiguousRequest
      else case sjDecode api body of
        None \<Rightarrow> Inl steInvalidJSON
      | Some payload \<Rightarrow>
          whenOk (case payload of JObject object \<Rightarrow> requestObjectState api durable object | _ \<Rightarrow> Inr [])
            (\<lambda>tokens. case turnStateOf '''' turnStates of
               None \<Rightarrow> Inl steTurnStateDiffers
             | Some v \<Rightarrow> Inr (if v \<noteq> '''' then addToken stateBindingTypeTurnState v tokens else tokens)))"

definition extractExplicitResponsesRequestState ::
  "stateJson \<Rightarrow> string \<Rightarrow> string list \<Rightarrow> (stateTokenError + stateBindingToken list)" where
  "extractExplicitResponsesRequestState api body turnStates = extractResponsesRequestState api body turnStates False"

section \<open>The state of a response\<close>

text \<open>The closure \<open>add\<close> of the response side.\<close>

definition addOutputToken ::
  "stateJson \<Rightarrow> string \<Rightarrow> string \<Rightarrow> stateBindingToken list \<Rightarrow> stateBindingToken list" where
  "addOutputToken api ty value tokens =
     (let v = trimSpace value
      in if ty = stateBindingTypeEncryptedContent \<and> isProxyOwnedEncryptedContent api v then tokens
         else insertToken ty v tokens)"

fun normalizeResponsesStateObjectFields ::
  "jmembers \<Rightarrow> string list \<Rightarrow> (stateTokenError + jmembers)" where
  "normalizeResponsesStateObjectFields object [] = Inr object"
| "normalizeResponsesStateObjectFields object (field # names) =
     (case filter (\<lambda>name. equalFold name field) (map fst object) of
        [] \<Rightarrow> normalizeResponsesStateObjectFields object names
      | [matched] \<Rightarrow>
          normalizeResponsesStateObjectFields
            (if matched = field then object
             else gm_del matched (gm_put field (the (gm_get object matched)) object)) names
      | _ \<Rightarrow> Inl (steAmbiguousAliases field))"

definition visitOutputItem ::
  "stateJson \<Rightarrow> bool \<Rightarrow> jval \<Rightarrow> stateBindingToken list \<Rightarrow> (stateTokenError + stateBindingToken list)" where
  "visitOutputItem api folded value tokens =
     whenOk (case value of
          JObject item \<Rightarrow>
            if folded then
              whenOk (normalizeResponsesStateObjectFields item [''type'']) (\<lambda>item1.
              whenOk (if explicitResponsesItemOwnsEncryptedContent item1
                      then normalizeResponsesStateObjectFields item1 [''encrypted_content'']
                      else Inr item1) (\<lambda>item2. Inr (JObject item2)))
            else Inr value
        | _ \<Rightarrow> Inr value) (\<lambda>value'.
     whenOk (visitExplicitResponsesItem value' False) (\<lambda>found.
       Inr (case found of None \<Rightarrow> tokens
            | Some v \<Rightarrow> addOutputToken api stateBindingTypeEncryptedContent v tokens)))"

fun visitOutputItems ::
  "stateJson \<Rightarrow> bool \<Rightarrow> jval list \<Rightarrow> stateBindingToken list \<Rightarrow> (stateTokenError + stateBindingToken list)" where
  "visitOutputItems api folded [] tokens = Inr tokens"
| "visitOutputItems api folded (item # items) tokens =
     whenOk (visitOutputItem api folded item tokens) (visitOutputItems api folded items)"

definition explicitResponsesOutputConversationID :: "jval option \<Rightarrow> string option" where
  "explicitResponsesOutputConversationID value =
     (case value of
        Some (JObject conversation) \<Rightarrow>
          (case gm_get conversation ''id'' of
             Some (JString c) \<Rightarrow> (let c' = trimSpace c in if c' \<noteq> '''' then Some c' else None)
           | _ \<Rightarrow> None)
      | _ \<Rightarrow> None)"

text \<open>\<open>visitResponse\<close>: the fields of the response in their canonical spelling, then what they expose.\<close>

definition canonicalResponse :: "bool \<Rightarrow> jmembers \<Rightarrow> (stateTokenError + jmembers)" where
  "canonicalResponse folded response =
     (if \<not> folded then Inr response
      else whenOk (normalizeResponsesStateObjectFields response [''id'', ''conversation'', ''output'']) (\<lambda>r.
        case gm_get r ''conversation'' of
          Some (JObject conversation) \<Rightarrow>
            whenOk (normalizeResponsesStateObjectFields conversation [''id''])
              (\<lambda>c. Inr (gm_put ''conversation'' (JObject c) r))
        | _ \<Rightarrow> Inr r))"

definition visitResponse ::
  "stateJson \<Rightarrow> bool \<Rightarrow> jmembers \<Rightarrow> stateBindingToken list \<Rightarrow> (stateTokenError + stateBindingToken list)" where
  "visitResponse api folded response tokens =
     whenOk (canonicalResponse folded response) (\<lambda>r.
       let t1 = (case gm_get r ''id'' of
                   Some (JString token) \<Rightarrow> addOutputToken api stateBindingTypeResponseID token tokens
                 | _ \<Rightarrow> tokens);
           t2 = (case explicitResponsesOutputConversationID (gm_get r ''conversation'') of
                   Some c \<Rightarrow> addOutputToken api stateBindingTypeConversationID c t1
                 | None \<Rightarrow> t1)
       in case gm_get r ''output'' of
            Some (JArray output) \<Rightarrow> visitOutputItems api folded output t2
          | _ \<Rightarrow> Inr t2)"

definition extractResponsesOutputState ::
  "stateJson \<Rightarrow> string \<Rightarrow> bool \<Rightarrow> (stateTokenError + stateBindingToken list)" where
  "extractResponsesOutputState api body folded =
     (case sjDecode api body of
        None \<Rightarrow> Inl steInvalidJSON
      | Some (JObject object0) \<Rightarrow>
          whenOk (if folded then normalizeResponsesStateObjectFields object0 [''type'', ''response'', ''item'']
                  else Inr object0) (\<lambda>object.
          whenOk (if trimSpace (jstring (gm_get object ''type'')) = '''' then visitResponse api folded object []
                  else Inr []) (\<lambda>t1.
          whenOk (case gm_get object ''response'' of
                    Some (JObject response) \<Rightarrow> visitResponse api folded response t1
                  | _ \<Rightarrow> Inr t1) (\<lambda>t2.
          case gm_get object ''item'' of
            Some item \<Rightarrow> visitOutputItem api folded item t2
          | None \<Rightarrow> Inr t2)))
      | Some _ \<Rightarrow> Inl steOutputNotObject)"

definition extractExplicitResponsesOutputState ::
  "stateJson \<Rightarrow> string \<Rightarrow> (stateTokenError + stateBindingToken list)" where
  "extractExplicitResponsesOutputState api body = extractResponsesOutputState api body False"

definition extractDurableResponsesOutputState ::
  "stateJson \<Rightarrow> string \<Rightarrow> (stateTokenError + stateBindingToken list)" where
  "extractDurableResponsesOutputState api body =
     (if \<not> sjUnambiguous api body then Inl steAmbiguousResponse else extractResponsesOutputState api body True)"

definition explicitResponseHeaderStateTokens :: "string list \<Rightarrow> (stateTokenError + stateBindingToken list)" where
  "explicitResponseHeaderStateTokens turnStates =
     (case turnStateOf '''' turnStates of
        None \<Rightarrow> Inl steConflictingTurnState
      | Some v \<Rightarrow> Inr (if v = '''' then [] else [\<lparr>stateType = stateBindingTypeTurnState, tokValue = v\<rparr>]))"

section \<open>Pinning a request\<close>

datatype stateRequestError =
    sreTokens stateTokenError | sreStorage durableStateError | sreIdentity
  | sreUnavailableTarget | srePinned | sreUnknown | sreConflict

definition explicitConversationBootstrapTarget :: "modelRoute \<Rightarrow> targetBinding option" where
  "explicitConversationBootstrapTarget route =
     (case orderedRouteTargets (Some route) None providerEndpointResponses of
        [target] \<Rightarrow> Some target
      | _ \<Rightarrow> None)"

text \<open>
  \<open>applyExplicitRequestStateBinding\<close> with the process-local store: the store, the operation and
  the error, if any. The outer \<open>None\<close> is a loop of the store that does not end.
\<close>

definition pinToOwner ::
  "stateBindingLookupResult \<Rightarrow> routeOperation \<Rightarrow> routeOperation \<times> stateRequestError option" where
  "pinToOwner result o' =
     (case outcome result of
        stateBindingLookupKnown \<Rightarrow>
          (case targetByID (opRoute o') (targetID (resultOwner result)) of
             None \<Rightarrow> (o', Some sreUnavailableTarget)
           | Some _ \<Rightarrow>
               (case forcePinnedTarget (targetID (resultOwner result)) o' of
                  None \<Rightarrow> (o', Some srePinned)
                | Some o1 \<Rightarrow> (o1, None)))
      | stateBindingLookupUnknown \<Rightarrow> (o', Some sreUnknown)
      | stateBindingLookupConflict \<Rightarrow> (o', Some sreConflict))"

definition applyExplicitRequestStateBinding ::
  "stateJson \<Rightarrow> mac \<Rightarrow> gotime \<Rightarrow> string \<Rightarrow> string list \<Rightarrow> stateBindingStore \<Rightarrow> routeOperation \<Rightarrow>
   (stateBindingStore \<times> routeOperation \<times> stateRequestError option) option" where
  "applyExplicitRequestStateBinding api mac now body turnStates s o' =
     (if legacy (opRoute o') then Some (s, o', None)
      else case extractExplicitResponsesRequestState api body turnStates of
        Inl e \<Rightarrow> Some (s, o', Some (sreTokens e))
      | Inr tokens \<Rightarrow>
          if tokens = [] then Some (s, o', None)
          else
            let rid = publicRouteID (opRoute o');
                finish = (\<lambda>(s', result). (s', pinToOwner result o'))
            in if length tokens = 1 \<and> stateType (hd tokens) = stateBindingTypeConversationID
               then
                 let bootstrapOwner =
                   (case explicitConversationBootstrapTarget (opRoute o') of
                      Some target \<Rightarrow>
                        if pinnedTargetID o' = '''' \<or> pinnedTargetID o' = tbId target
                        then memoryOwner rid (tbId target) else zeroOwner
                    | None \<Rightarrow> zeroOwner)
                 in map_option (\<lambda>(s', result, _, _). finish (s', result))
                      (resolveOrBindConversationForRoute mac now rid (hd tokens) bootstrapOwner s)
               else Some (finish (resolveForRoute mac now rid (pinnedTargetID o') tokens s)))"

text \<open>
  The durable mode: the store, the operation, the conversation whose claim is deferred, and the
  error. The tokens are those of \<open>extractResponsesRequestState\<close> with aliases rejected.
\<close>

definition applyDurableRequestStateBinding ::
  "mac \<Rightarrow> boltEnv \<Rightarrow> stateBindingToken list \<Rightarrow> durableStateBindings \<Rightarrow> routeOperation \<Rightarrow>
   durableStateBindings \<times> routeOperation \<times> stateBindingToken option \<times> stateRequestError option" where
  "applyDurableRequestStateBinding mac env tokens d o' =
     (let (d1, result) = durableResolveForRoute mac env (publicRouteID (opRoute o')) (pinnedTargetID o') tokens d
      in case resultErr result of
           Some e \<Rightarrow> (d1, o', None, Some (sreStorage e))
         | None \<Rightarrow>
             let bootstrap = (if outcome result = stateBindingLookupUnknown \<and> length tokens = 1 \<and>
                                 stateType (hd tokens) = stateBindingTypeConversationID
                              then explicitConversationBootstrapTarget (opRoute o') else None)
             in case bootstrap of
                  Some target \<Rightarrow>
                    (case forcePinnedTarget (tbId target) o' of
                       None \<Rightarrow> (d1, o', None, Some sreIdentity)
                     | Some o1 \<Rightarrow> (d1, o1, Some (hd tokens), None))
                | None \<Rightarrow>
                    if outcome result = stateBindingLookupKnown
                    then
                      let tid = durableOwnerTarget mac d1 (resultOwner result) (map tbId (targets (opRoute o')))
                      in if tid = '''' then (d1, o', None, Some sreIdentity)
                         else (case forcePinnedTarget tid o' of
                             None \<Rightarrow> (d1, o', None, Some sreIdentity)
                           | Some o1 \<Rightarrow>
                               if stateOwnerIdentity o1 \<noteq> zeroBytes32 \<and>
                                  stateOwnerIdentity o1 \<noteq> ownerIdentity (resultOwner result)
                               then (d1, o1, None, Some sreIdentity)
                               else (d1, o1\<lparr>stateOwnerIdentity := ownerIdentity (resultOwner result)\<rparr>, None, None))
                    else (d1, o', None,
                      Some (if outcome result = stateBindingLookupUnknown then sreUnknown else sreConflict)))"

text \<open>
  \<open>validateDurableRequestOwner\<close>: \<open>identity\<close> is the answer of \<open>requestIdentity\<close> for the
  authenticated request to \<open>target\<close>, \<open>conversation\<close> the deferred claim.
\<close>

definition validateDurableRequestOwner ::
  "mac \<Rightarrow> (string \<Rightarrow> gotime) \<Rightarrow> boltEnv \<Rightarrow> string option \<Rightarrow> modelRoute \<Rightarrow> targetBinding \<Rightarrow>
   stateBindingToken option \<Rightarrow> durableStateBindings \<Rightarrow> routeOperation \<Rightarrow>
   durableStateBindings \<times> routeOperation \<times> (stateRequestError + string)" where
  "validateDurableRequestOwner mac now env answer route target conversation d o' =
     (if \<not> dsOpen d then (d, o', Inl (sreStorage errDurableStateClosed))
      else case dsFailed d of
        Some e \<Rightarrow> (d, o', Inl (sreStorage e))
      | None \<Rightarrow>
          (case answer of
             None \<Rightarrow> (d, o', Inl sreIdentity)
           | Some identity \<Rightarrow>
               if stateOwnerIdentity o' \<noteq> zeroBytes32 \<and> stateOwnerIdentity o' \<noteq> identity
               then (d, o', Inl sreIdentity)
               else (case conversation of
                   None \<Rightarrow> (d, o', Inr identity)
                 | Some token \<Rightarrow>
                     let owner = zeroOwner\<lparr>routeID := publicRouteID route, targetID := tbId target,
                                           ownerIdentity := identity\<rparr>;
                         (d1, result) = durableBind mac now env [token] owner True d
                     in case resultErr result of
                          Some e \<Rightarrow> (d1, o', Inl (sreStorage e))
                        | None \<Rightarrow>
                            if outcome result \<noteq> stateBindingLookupKnown \<or>
                               resultOwner result \<noteq> encodeOwner mac (dsKey d) owner
                            then (d1, o', Inl sreIdentity)
                            else (d1, o'\<lparr>stateOwnerIdentity := identity\<rparr>, Inr identity))))"

section \<open>Binding the state of a response\<close>

text \<open>
  \<open>bindExplicitStateTokens\<close> in both modes: the owner is what the response info says of the route,
  the target and the identity of the request. \<open>None\<close> in place of an error is success.
\<close>

definition responseOwner :: "string \<Rightarrow> string \<Rightarrow> string \<Rightarrow> stateBindingOwner" where
  "responseOwner rid tid identity = zeroOwner\<lparr>routeID := rid, targetID := tid, ownerIdentity := identity\<rparr>"

definition bindExplicitStateTokens ::
  "mac \<Rightarrow> gotime \<Rightarrow> string \<Rightarrow> string \<Rightarrow> string \<Rightarrow> stateBindingToken list \<Rightarrow> stateBindingStore \<Rightarrow>
   (stateBindingStore \<times> stateRequestError option) option" where
  "bindExplicitStateTokens mac now rid tid identity tokens s =
     (if tokens = [] then Some (s, None)
      else map_option (\<lambda>(s', r, _). (s', if outcome r = stateBindingLookupConflict then Some sreConflict else None))
             (bindAllWithEvictionDelta mac now tokens (responseOwner rid tid identity) s))"

definition bindDurableStateTokens ::
  "mac \<Rightarrow> (string \<Rightarrow> gotime) \<Rightarrow> boltEnv \<Rightarrow> string \<Rightarrow> string \<Rightarrow> string \<Rightarrow> stateBindingToken list \<Rightarrow>
   durableStateBindings \<Rightarrow> durableStateBindings \<times> stateRequestError option" where
  "bindDurableStateTokens mac now env rid tid identity tokens d =
     (if tokens = [] then (d, None)
      else let (d', r) = durableBind mac now env tokens (responseOwner rid tid identity) False d
           in (d', case resultErr r of
                     Some e \<Rightarrow> Some (sreStorage e)
                   | None \<Rightarrow> if outcome r = stateBindingLookupConflict then Some sreConflict else None))"

definition bindExplicitResponseHeaders ::
  "mac \<Rightarrow> gotime \<Rightarrow> string \<Rightarrow> string \<Rightarrow> string \<Rightarrow> string list \<Rightarrow> stateBindingStore \<Rightarrow>
   (stateBindingStore \<times> stateRequestError option) option" where
  "bindExplicitResponseHeaders mac now rid tid identity turnStates s =
     (case explicitResponseHeaderStateTokens turnStates of
        Inl e \<Rightarrow> Some (s, Some (sreTokens e))
      | Inr tokens \<Rightarrow> bindExplicitStateTokens mac now rid tid identity tokens s)"

end
