(* ===== verification/Durable_Properties.thy ===== *)
theory Durable_Properties
  imports Durable_Binding
begin

text \<open>
  What the durable store promises: records survive encoding, the store refines a map from
  token keys to verdicts on which the operations are set-theoretic, authority is never given
  to a second owner, and after a storage error nothing is exposed any more.
\<close>

section \<open>Encoding\<close>

lemma big_endian_value:
  "foldl (\<lambda>acc c. acc * 256 + of_char c) 0 (map (\<lambda>i. char_of (u div 256 ^ (n - Suc i) :: int)) [0..<n])
     = u mod 256 ^ n"
proof (induction n arbitrary: u)
  case (Suc n)
  have split: "[0..<Suc n] = [0..<n] @ [n]" by simp
  have idx: "map (\<lambda>i. char_of (u div 256 ^ (Suc n - Suc i) :: int)) [0..<n]
      = map (\<lambda>i. char_of (u div 256 div 256 ^ (n - Suc i) :: int)) [0..<n]"
  proof (rule map_cong)
    fix i assume "i \<in> set [0..<n]"
    then have "n - i = Suc (n - Suc i)" by auto
    then show "(char_of (u div 256 ^ (Suc n - Suc i)) :: char) = char_of (u div 256 div 256 ^ (n - Suc i))"
      by (simp add: zdiv_zmult2_eq)
  qed simp
  have "foldl (\<lambda>acc c. acc * 256 + of_char c) 0 (map (\<lambda>i. char_of (u div 256 ^ (Suc n - Suc i))) [0..<Suc n])
      = (u div 256) mod 256 ^ n * 256 + u mod 256"
    unfolding split map_append foldl_append idx Suc.IH by (simp add: take_bit_eq_mod)
  also have "\<dots> = u mod 256 ^ Suc n"
    by (simp add: zmod_zmult2_eq)
  finally show ?case .
qed simp

lemma getUint64_put [simp]: "getUint64 (putUint64 w) = w"
proof -
  have "putUint64 w = map (\<lambda>i. char_of (uint w div 256 ^ (8 - Suc i))) [0..<8]"
  proof -
    have "char_of (uint (drop_bit (8 * (7 - i)) w)) = (char_of (uint w div 256 ^ (8 - Suc i)) :: char)" for i
    proof -
      have "(2::int) ^ (8 * (7 - i)) = 256 ^ (8 - Suc i)"
        by (simp add: power_mult)
      moreover have "uint (drop_bit (8 * (7 - i)) w) = uint w div 2 ^ (8 * (7 - i))"
        using uint_lt2p[of w] by (simp add: unsigned_drop_bit_eq drop_bit_eq_div[where ?'a = int] take_bit_eq_mod)
      ultimately show ?thesis by simp
    qed
    then show ?thesis by (simp add: putUint64_def)
  qed
  then have "getUint64 (putUint64 w) = word_of_int (uint w mod 256 ^ 8)"
    using big_endian_value[of "uint w" 8] by (simp only: getUint64_def)
  moreover have "uint w mod 256 ^ 8 = uint w"
    using uint_lt2p[of w] by simp
  ultimately show ?thesis by simp
qed

lemma length_putUint64 [simp]: "length (putUint64 w) = 8"
  by (simp add: putUint64_def)

definition mac_ok :: "mac \<Rightarrow> bool" where
  "mac_ok mac \<longleftrightarrow> (\<forall>key m. length (mac key m) = 32 \<and> mac key m \<noteq> zeroBytes32)"

lemma mac_okD:
  assumes "mac_ok mac"
  shows "length (digest mac key domain parts) = 32" "digest mac key domain parts \<noteq> zeroBytes32"
  using assms by (simp_all add: mac_ok_def digest_def)

lemma length_zeroBytes32 [simp]: "length zeroBytes32 = 32"
  by (simp add: zeroBytes32_def)

text \<open>What the array types of the fields say of an owner, and what encoding leaves of it.\<close>

definition owner32 :: "stateBindingOwner \<Rightarrow> bool" where
  "owner32 o' \<longleftrightarrow> length (routeKey o') = 32 \<and> length (targetKey o') = 32 \<and> length (ownerIdentity o') = 32"

definition anonymous :: "stateBindingOwner \<Rightarrow> bool" where
  "anonymous o' \<longleftrightarrow> routeID o' = '''' \<and> targetID o' = ''''"

definition proven :: "stateBindingOwner \<Rightarrow> bool" where
  "proven o' \<longleftrightarrow> routeKey o' \<noteq> zeroBytes32 \<and> targetKey o' \<noteq> zeroBytes32 \<and> ownerIdentity o' \<noteq> zeroBytes32"

lemma zeroOwner_simps [simp]: "owner32 zeroOwner" "anonymous zeroOwner"
  by (simp_all add: owner32_def anonymous_def zeroOwner_def)

lemma encodeOwner_anonymous [simp]: "anonymous (encodeOwner mac key o')"
  by (auto simp: anonymous_def encodeOwner_def Let_def)

lemma encodeOwner_id [simp]: "anonymous o' \<Longrightarrow> encodeOwner mac key o' = o'"
  by (simp add: anonymous_def encodeOwner_def)

lemma encodeOwner_owner32: "mac_ok mac \<Longrightarrow> owner32 o' \<Longrightarrow> owner32 (encodeOwner mac key o')"
  by (auto simp: owner32_def encodeOwner_def Let_def mac_okD)

lemma encodeOwner_proven:
  "mac_ok mac \<Longrightarrow> owner_valid o' \<Longrightarrow> ownerIdentity o' \<noteq> zeroBytes32 \<Longrightarrow> proven (encodeOwner mac key o')"
  by (auto simp: owner_valid_def proven_def encodeOwner_def Let_def mac_okD)

lemma anonymous_rebuild:
  "anonymous o' \<Longrightarrow> zeroOwner\<lparr>routeKey := routeKey o', targetKey := targetKey o', ownerIdentity := ownerIdentity o'\<rparr> = o'"
  by (cases o') (simp add: zeroOwner_def anonymous_def)

definition key_ok :: "string \<Rightarrow> bool" where
  "key_ok k \<longleftrightarrow> length k = 33 \<and> (1::nat) \<le> of_char (k ! 0) \<and> of_char (k ! 0) \<le> (4::nat)"

definition verdict_ok :: "stateBindingOwner \<Rightarrow> stateBindingLookupOutcome \<Rightarrow> bool" where
  "verdict_ok o' oc \<longleftrightarrow> owner32 o' \<and> anonymous o' \<and>
     (oc = stateBindingLookupKnown \<and> proven o' \<or> oc = stateBindingLookupConflict)"

lemma recordBody_slices:
  assumes "owner32 o'"
  shows "length (recordBody o' oc at) = 105"
    "recordBody o' oc at ! 0 = char_of (outcomeByte oc)"
    "byteSlice 1 33 (recordBody o' oc at @ m) = routeKey o'"
    "byteSlice 33 65 (recordBody o' oc at @ m) = targetKey o'"
    "byteSlice 65 97 (recordBody o' oc at @ m) = ownerIdentity o'"
    "byteSlice 97 105 (recordBody o' oc at @ m) = putUint64 (unixSeconds at)"
  using assms by (auto simp: owner32_def recordBody_def byteSlice_def)

lemma decode_encode:
  assumes "mac_ok mac" "key_ok k" "verdict_ok (encodeOwner mac key o') oc"
  shows "decodeRecord mac key k (encodeRecord mac key k o' oc at) =
    Inr (\<lparr>outcome = oc, resultOwner = encodeOwner mac key o', resultErr = None\<rparr>, unixTime (unixSeconds at))"
proof -
  define e where "e = encodeOwner mac key o'"
  define body where "body = recordBody e oc at"
  define v where "v = body @ digest mac key ''record'' [k, body]"
  have e: "owner32 e" "anonymous e" and oc: "oc = stateBindingLookupKnown \<and> proven e \<or> oc = stateBindingLookupConflict"
    using assms(3) by (auto simp: verdict_ok_def e_def)
  note sl = recordBody_slices[OF e(1), of oc at, folded body_def]
  have v: "encodeRecord mac key k o' oc at = v"
    by (simp add: encodeRecord_def v_def body_def e_def Let_def)
  have len: "length v = durableStateRecordSize" "take 105 v = body" "drop 105 v = digest mac key ''record'' [k, body]"
    using sl(1) mac_okD(1)[OF assms(1)] by (auto simp: v_def durableStateRecordSize_def)
  have v0: "v ! 0 = char_of (outcomeByte oc)" using sl(1,2) by (auto simp: v_def nth_append)
  have slv: "byteSlice 1 33 v = routeKey e" "byteSlice 33 65 v = targetKey e" "byteSlice 65 97 v = ownerIdentity e"
    "byteSlice 97 105 v = putUint64 (unixSeconds at)"
    using sl(3-6) by (simp_all add: v_def)
  have reb: "zeroOwner\<lparr>routeKey := routeKey e, targetKey := targetKey e, ownerIdentity := ownerIdentity e\<rparr> = e"
    using e(2) by (rule anonymous_rebuild)
  have byte: "of_char (v ! 0) = (outcomeByte oc :: nat)"
    using oc by (auto simp: v0)
  show ?thesis
    unfolding v decodeRecord_def Let_def slv reb len byte e_def[symmetric]
    using assms(2) oc by (auto simp: key_ok_def proven_def)
qed

lemma durable_result_simps [simp]:
  "outcome (durableKnown o') = stateBindingLookupKnown" "resultOwner (durableKnown o') = o'"
  "resultErr (durableKnown o') = None" "outcome durableConflict = stateBindingLookupConflict"
  "outcome durableUnknown = stateBindingLookupUnknown" "outcome (durableFailure e) = stateBindingLookupUnknown"
  "resultErr durableConflict = None" "resultErr durableUnknown = None" "resultErr (durableFailure e) = Some e"
  "durableKnown o' = durableKnown o'' \<longleftrightarrow> o' = o''"
  by (simp_all add: durableKnown_def durableConflict_def durableUnknown_def durableFailure_def)

lemma durable_result_distinct [simp]:
  "durableKnown o' \<noteq> durableConflict" "durableKnown o' \<noteq> durableUnknown" "durableConflict \<noteq> durableUnknown"
  "durableConflict \<noteq> durableKnown o'" "durableUnknown \<noteq> durableKnown o'" "durableUnknown \<noteq> durableConflict"
  by (simp_all add: durableKnown_def durableConflict_def durableUnknown_def)

lemma decode_Inr:
  assumes "decodeRecord mac key k v = Inr (r, t)"
  shows "(\<exists>o'. r = durableKnown o' \<and> verdict_ok o' stateBindingLookupKnown) \<or>
    outcome r = stateBindingLookupConflict"
proof -
  define o' where "o' = zeroOwner\<lparr>routeKey := byteSlice 1 33 v, targetKey := byteSlice 33 65 v,
                           ownerIdentity := byteSlice 65 97 v\<rparr>"
  have len: "length v = durableStateRecordSize"
    using assms by (auto simp: decodeRecord_def split: if_splits)
  then have "owner32 o'" "anonymous o'"
    by (auto simp: o'_def owner32_def anonymous_def byteSlice_def durableStateRecordSize_def zeroOwner_def)
  moreover have "(r = durableKnown o' \<and> proven o') \<or> outcome r = stateBindingLookupConflict"
    using assms unfolding decodeRecord_def Let_def o'_def[symmetric]
    by (auto simp: durableKnown_def proven_def split: if_splits)
  ultimately show ?thesis by (auto simp: verdict_ok_def)
qed

section \<open>The abstract store\<close>

datatype verdict = OwnedBy stateBindingOwner | Tombstone

definition verdictOf :: "durableLookupResult \<Rightarrow> verdict" where
  "verdictOf r = (if outcome r = stateBindingLookupKnown then OwnedBy (resultOwner r) else Tombstone)"

definition bucketVerdicts :: "mac \<Rightarrow> string \<Rightarrow> boltBucket \<Rightarrow> string \<Rightarrow> verdict option" where
  "bucketVerdicts mac key recs k = (case gm_get recs k of None \<Rightarrow> None
     | Some v \<Rightarrow> (case decodeRecord mac key k v of Inl _ \<Rightarrow> None | Inr (r, _) \<Rightarrow> Some (verdictOf r)))"

definition authority :: "mac \<Rightarrow> durableStateBindings \<Rightarrow> string \<Rightarrow> verdict option" where
  "authority mac d = bucketVerdicts mac (dsKey d) (dsRecords d)"

definition bucket_ok :: "mac \<Rightarrow> string \<Rightarrow> boltBucket \<Rightarrow> bool" where
  "bucket_ok mac key recs \<longleftrightarrow> distinct (map fst recs) \<and>
     (\<forall>k v. gm_get recs k = Some v \<longrightarrow> \<not> isl (decodeRecord mac key k v))"

definition durable_wf :: "mac \<Rightarrow> durableStateBindings \<Rightarrow> bool" where
  "durable_wf mac d \<longleftrightarrow> bucket_ok mac (dsKey d) (dsRecords d) \<and>
     dsSequence d = word_of_nat (length (dsRecords d)) \<and> int (length (dsRecords d)) \<le> dsMaxEntries d \<and>
     0 < dsMaxEntries d \<and> dsMaxEntries d < 2 ^ 63"

definition labelMismatch :: "string option \<Rightarrow> string \<Rightarrow> bool" where
  "labelMismatch rk x \<longleftrightarrow> (case rk of Some y \<Rightarrow> x \<noteq> y | None \<Rightarrow> False)"

definition ownersOf :: "(string \<Rightarrow> verdict option) \<Rightarrow> string list \<Rightarrow> stateBindingOwner set" where
  "ownersOf m keys = {o'. \<exists>k \<in> set keys. m k = Some (OwnedBy o')}"

definition disputed ::
  "(string \<Rightarrow> verdict option) \<Rightarrow> string list \<Rightarrow> string option \<Rightarrow> string option \<Rightarrow> stateBindingOwner set \<Rightarrow> bool" where
  "disputed m keys rk tk found \<longleftrightarrow> (\<exists>k \<in> set keys. m k = Some Tombstone) \<or>
     (\<exists>o' \<in> ownersOf m keys. labelMismatch rk (routeKey o') \<or> labelMismatch tk (targetKey o')) \<or>
     (\<exists>o1 \<in> ownersOf m keys. \<exists>o2 \<in> ownersOf m keys \<union> found. o1 \<noteq> o2)"

lemma ownersOf_Cons:
  "ownersOf m (k # ks) = (case m k of Some (OwnedBy o') \<Rightarrow> insert o' (ownersOf m ks) | _ \<Rightarrow> ownersOf m ks)"
  by (auto simp: ownersOf_def split: option.splits verdict.splits)

lemma rival_pairs:
  "(\<exists>o1 \<in> insert a A. \<exists>o2 \<in> insert a A \<union> F. o1 \<noteq> o2) \<longleftrightarrow>
     (\<exists>x \<in> F. x \<noteq> a) \<or> (\<exists>o1 \<in> A. \<exists>o2 \<in> A \<union> insert a F. o1 \<noteq> o2)"
  by (metis UnCI UnE insertCI insertE)

lemma disputed_Cons:
  "disputed m (k # ks) rk tk found = (case m k of
      None \<Rightarrow> disputed m ks rk tk found
    | Some Tombstone \<Rightarrow> True
    | Some (OwnedBy o') \<Rightarrow> labelMismatch rk (routeKey o') \<or> labelMismatch tk (targetKey o') \<or>
        (\<exists>x \<in> found. x \<noteq> o') \<or> disputed m ks rk tk (insert o' found))"
proof (cases "m k")
  case (Some x)
  show ?thesis
  proof (cases x)
    case (OwnedBy o')
    then have own: "ownersOf m (k # ks) = insert o' (ownersOf m ks)" using Some by (simp add: ownersOf_Cons)
    have tomb: "(\<exists>j \<in> set (k # ks). m j = Some Tombstone) \<longleftrightarrow> (\<exists>j \<in> set ks. m j = Some Tombstone)"
      using Some OwnedBy by simp
    show ?thesis
      unfolding disputed_def own tomb rival_pairs Some OwnedBy option.case verdict.case bex_simps(5)
      by (simp only: disj_ac)
  qed (use Some in \<open>simp add: disputed_def\<close>)
qed (simp add: disputed_def ownersOf_Cons)

lemma resolve_loop_known:
  assumes "gm_get recs k = Some v" "decodeRecord mac key k v = Inr (durableKnown o', t)"
  shows "durableResolveLoop mac key recs rk tk (k # ks) (map_option durableKnown found) missing =
    (if labelMismatch rk (routeKey o') \<or> labelMismatch tk (targetKey o') \<or> (\<exists>x \<in> set_option found. x \<noteq> o')
     then Inr durableConflict
     else durableResolveLoop mac key recs rk tk ks (map_option durableKnown (Some o')) missing)"
  using assms by (cases found; cases rk; cases tk) (auto simp: labelMismatch_def)

lemma resolve_loop_spec:
  assumes "\<forall>k v. gm_get recs k = Some v \<longrightarrow> \<not> isl (decodeRecord mac key k v)"
  shows "durableResolveLoop mac key recs rk tk keys (map_option durableKnown found) missing =
    Inr (if disputed (bucketVerdicts mac key recs) keys rk tk (set_option found) then durableConflict
         else if missing \<or> (\<exists>k \<in> set keys. bucketVerdicts mac key recs k = None) then durableUnknown
         else if keys = [] \<and> found = None then durableUnknown
         else durableKnown (THE o'. o' \<in> ownersOf (bucketVerdicts mac key recs) keys \<union> set_option found))"
proof (induction keys arbitrary: found missing)
  case Nil
  then show ?case by (cases found) (auto simp: disputed_def ownersOf_def)
next
  case (Cons k ks)
  let ?m = "bucketVerdicts mac key recs"
  show ?case
  proof (cases "gm_get recs k")
    case None
    then have "?m k = None" by (simp add: bucketVerdicts_def)
    then show ?thesis using None Cons.IH[of found True] by (simp add: disputed_Cons)
  next
    case (Some v)
    then obtain r t where dec: "decodeRecord mac key k v = Inr (r, t)"
      using assms[rule_format, OF Some] by (cases "decodeRecord mac key k v") auto
    then have mk: "?m k = Some (verdictOf r)" using Some by (simp add: bucketVerdicts_def)
    from decode_Inr[OF dec] show ?thesis
    proof (elim disjE exE conjE)
      assume "outcome r = stateBindingLookupConflict"
      then show ?thesis using Some dec mk by (simp add: disputed_Cons verdictOf_def)
    next
      fix o' assume r: "r = durableKnown o'"
      then have mo: "?m k = Some (OwnedBy o')" using mk by (simp add: verdictOf_def durableKnown_def)
      note step = resolve_loop_known[OF Some dec[unfolded r], of rk tk ks found missing]
      show ?thesis
      proof (cases "labelMismatch rk (routeKey o') \<or> labelMismatch tk (targetKey o') \<or> (\<exists>x \<in> set_option found. x \<noteq> o')")
        case True
        have dis: "disputed ?m (k # ks) rk tk (set_option found)"
          using True mo by (auto simp: disputed_Cons)
        show ?thesis unfolding step using True dis by (simp only: if_True)
      next
        case False
        then have ins: "insert o' (set_option found) = {o'}" by auto
        have loop: "durableResolveLoop mac key recs rk tk (k # ks) (map_option durableKnown found) missing =
            durableResolveLoop mac key recs rk tk ks (map_option durableKnown (Some o')) missing"
          using False step by (simp only: if_False)
        have own: "ownersOf ?m (k # ks) \<union> set_option found = ownersOf ?m ks \<union> {o'}"
          using mo ins by (auto simp: ownersOf_Cons)
        have dis: "disputed ?m (k # ks) rk tk (set_option found) = disputed ?m ks rk tk {o'}"
          unfolding disputed_Cons mo ins option.case verdict.case using False by blast
        show ?thesis
          unfolding loop Cons.IH own dis using mo by auto
      qed
    qed
  qed
qed

lemma tokenKeysLoop_spec:
  "mac_ok mac \<Longrightarrow> tokenKeysLoop mac key acc ts = Inr keys \<Longrightarrow> distinct acc \<Longrightarrow> \<forall>k \<in> set acc. key_ok k \<Longrightarrow>
   distinct keys \<and> set keys = set acc \<union> durableTokenKey mac key ` set ts \<and> (\<forall>k \<in> set keys. key_ok k)"
proof (induction mac key acc ts rule: tokenKeysLoop.induct)
  case (2 mac key acc t ts)
  let ?k = "durableTokenKey mac key t"
  have t: "durableStateTypeByte (stateType t) \<noteq> 0" "tokValue t \<noteq> ''''"
    and rec: "tokenKeysLoop mac key (if ?k \<in> set acc then acc else acc @ [?k]) ts = Inr keys"
    using 2(3) by (auto simp: Let_def split: if_splits)
  have "durableStateTypeByte (stateType t) \<le> 4" by (simp add: durableStateTypeByte_def)
  then have k: "key_ok ?k"
    using t mac_okD(1)[OF 2(2)] by (auto simp: key_ok_def durableTokenKey_def)
  define acc' where "acc' = (if ?k \<in> set acc then acc else acc @ [?k])"
  have acc': "distinct acc'" "set acc' = insert ?k (set acc)"
    using 2(4) by (auto simp: acc'_def)
  have cond: "\<not> (durableStateTypeByte (stateType t) = 0 \<or> tokValue t = '''')" using t by simp
  have "distinct keys \<and> set keys = set acc' \<union> durableTokenKey mac key ` set ts \<and> (\<forall>k \<in> set keys. key_ok k)"
    using 2(1)[OF cond refl 2(2) rec] 2(5) k unfolding acc'_def[symmetric] acc'(2) using acc'(1) by simp
  then show ?case using acc'(2) by simp
qed auto

lemma tokenKeys_spec:
  assumes "mac_ok mac" "tokenKeys mac key ts = Inr keys"
  shows "distinct keys" "set keys = durableTokenKey mac key ` set ts" "\<And>k. k \<in> set keys \<Longrightarrow> key_ok k"
  using tokenKeysLoop_spec[OF assms(1), of key "[]" ts keys] assms(2) by (auto simp: tokenKeys_def)

section \<open>Binding on the abstract store\<close>

definition unanimous :: "(string \<Rightarrow> verdict option) \<Rightarrow> string list \<Rightarrow> stateBindingOwner \<Rightarrow> bool" where
  "unanimous m keys o' \<longleftrightarrow> (\<forall>k \<in> set keys. m k = Some (OwnedBy o'))"

definition contested :: "(string \<Rightarrow> verdict option) \<Rightarrow> string list \<Rightarrow> stateBindingOwner \<Rightarrow> bool" where
  "contested m keys o' \<longleftrightarrow> (\<exists>k \<in> set keys. m k \<noteq> None \<and> m k \<noteq> Some (OwnedBy o'))"

definition withdraw ::
  "(string \<Rightarrow> verdict option) \<Rightarrow> string list \<Rightarrow> stateBindingOwner \<Rightarrow> string \<Rightarrow> verdict option" where
  "withdraw m keys o' k = (if k \<in> set keys \<and> m k \<noteq> None \<and> m k \<noteq> Some (OwnedBy o') then Some Tombstone else m k)"

definition grant ::
  "(string \<Rightarrow> verdict option) \<Rightarrow> string list \<Rightarrow> stateBindingOwner \<Rightarrow> string \<Rightarrow> verdict option" where
  "grant m keys o' k = (if k \<in> set keys then Some (OwnedBy o') else m k)"

lemma verdict_None_iff:
  assumes "bucket_ok mac key recs"
  shows "bucketVerdicts mac key recs k = None \<longleftrightarrow> gm_get recs k = None"
proof (cases "gm_get recs k")
  case (Some v)
  then have "\<not> isl (decodeRecord mac key k v)" using assms unfolding bucket_ok_def by blast
  then show ?thesis using Some by (cases "decodeRecord mac key k v") (auto simp: bucketVerdicts_def)
qed (simp add: bucketVerdicts_def)

lemma bucketVerdicts_put:
  assumes "decodeRecord mac key k v = Inr (r, t)"
  shows "bucketVerdicts mac key (gm_put k v recs) = (bucketVerdicts mac key recs)(k \<mapsto> verdictOf r)"
  using assms by (auto simp: bucketVerdicts_def fun_eq_iff AList.update_conv)

lemma bucket_ok_put:
  assumes "bucket_ok mac key recs" "decodeRecord mac key k v = Inr (r, t)"
  shows "bucket_ok mac key (gm_put k v recs)"
  using assms by (auto simp: bucket_ok_def AList.distinct_update AList.update_conv)

lemma put_tombstone:
  assumes "mac_ok mac" "key_ok k" "bucket_ok mac key recs"
  shows "bucket_ok mac key (putTombstone mac key now k recs)"
    "bucketVerdicts mac key (putTombstone mac key now k recs) = (bucketVerdicts mac key recs)(k \<mapsto> Tombstone)"
    "fst ` set (putTombstone mac key now k recs) = insert k (fst ` set recs)"
    "gm_get recs k \<noteq> None \<Longrightarrow> length (putTombstone mac key now k recs) = length recs"
proof -
  have "verdict_ok (encodeOwner mac key zeroOwner) stateBindingLookupConflict"
    by (simp add: verdict_ok_def)
  note dec = decode_encode[OF assms(1,2) this, of "now k"]
  show "bucket_ok mac key (putTombstone mac key now k recs)"
    unfolding putTombstone_def by (rule bucket_ok_put[OF assms(3) dec])
  show "bucketVerdicts mac key (putTombstone mac key now k recs) = (bucketVerdicts mac key recs)(k \<mapsto> Tombstone)"
    unfolding putTombstone_def bucketVerdicts_put[OF dec] by (simp add: verdictOf_def)
  show "fst ` set (putTombstone mac key now k recs) = insert k (fst ` set recs)"
    by (simp add: putTombstone_def set_map_gm_put)
  show "gm_get recs k \<noteq> None \<Longrightarrow> length (putTombstone mac key now k recs) = length recs"
    using map_of_eq_None_iff[of recs k] by (simp add: putTombstone_def length_gm_put)
qed

lemma put_owner:
  assumes "mac_ok mac" "key_ok k" "bucket_ok mac key recs" "verdict_ok o' stateBindingLookupKnown"
    "bucketVerdicts mac key recs k = None \<or> bucketVerdicts mac key recs k = Some (OwnedBy o')"
  shows "bucket_ok mac key (putOwner mac key now o' k recs)"
    "bucketVerdicts mac key (putOwner mac key now o' k recs) = (bucketVerdicts mac key recs)(k \<mapsto> OwnedBy o')"
    "length (putOwner mac key now o' k recs) = (if gm_get recs k = None then Suc (length recs) else length recs)"
    "gm_get (putOwner mac key now o' k recs) j = None \<longleftrightarrow> gm_get recs j = None \<and> j \<noteq> k"
proof -
  have an: "encodeOwner mac key o' = o'" using assms(4) by (simp add: verdict_ok_def)
  have "verdict_ok (encodeOwner mac key o') stateBindingLookupKnown" using assms(4) an by simp
  note dec = decode_encode[OF assms(1,2) this, of "now k"]
  show "bucket_ok mac key (putOwner mac key now o' k recs)"
    using bucket_ok_put[OF assms(3) dec] assms(3) by (simp add: putOwner_def)
  have "gm_get recs k \<noteq> None \<Longrightarrow> bucketVerdicts mac key recs k = Some (OwnedBy o')"
    using assms(5) verdict_None_iff[OF assms(3), of k] by auto
  then show "bucketVerdicts mac key (putOwner mac key now o' k recs) = (bucketVerdicts mac key recs)(k \<mapsto> OwnedBy o')"
    unfolding putOwner_def using bucketVerdicts_put[OF dec] an by (auto simp: verdictOf_def fun_eq_iff)
  show "length (putOwner mac key now o' k recs) = (if gm_get recs k = None then Suc (length recs) else length recs)"
    using map_of_eq_None_iff[of recs k] by (simp add: putOwner_def length_gm_put)
  show "gm_get (putOwner mac key now o' k recs) j = None \<longleftrightarrow> gm_get recs j = None \<and> j \<noteq> k"
    by (auto simp: putOwner_def AList.update_conv)
qed

lemma put_tombstones:
  assumes "mac_ok mac" "bucket_ok mac key recs" "\<forall>k \<in> set ks. key_ok k \<and> gm_get recs k \<noteq> None"
  shows "bucket_ok mac key (fold (putTombstone mac key now) ks recs) \<and>
    bucketVerdicts mac key (fold (putTombstone mac key now) ks recs) =
      (\<lambda>k. if k \<in> set ks then Some Tombstone else bucketVerdicts mac key recs k) \<and>
    length (fold (putTombstone mac key now) ks recs) = length recs"
  using assms(2,3)
proof (induction ks arbitrary: recs)
  case (Cons k ks)
  let ?r = "putTombstone mac key now k recs"
  have k: "key_ok k" "gm_get recs k \<noteq> None" using Cons.prems(2) by auto
  note p = put_tombstone[OF assms(1) k(1) Cons.prems(1), of now]
  have "\<forall>j \<in> set ks. key_ok j \<and> gm_get ?r j \<noteq> None"
    using Cons.prems(2) by (simp add: putTombstone_def AList.update_conv)
  note ih = Cons.IH[OF p(1) this]
  show ?case using ih by (simp add: p(2) p(4)[OF k(2)] fun_eq_iff)
qed simp

lemma put_owners:
  assumes "mac_ok mac" "bucket_ok mac key recs" "verdict_ok o' stateBindingLookupKnown" "\<forall>k \<in> set ks. key_ok k"
    "\<not> contested (bucketVerdicts mac key recs) ks o'" "distinct ks"
  shows "bucket_ok mac key (fold (putOwner mac key now o') ks recs) \<and>
    bucketVerdicts mac key (fold (putOwner mac key now o') ks recs) = grant (bucketVerdicts mac key recs) ks o' \<and>
    length (fold (putOwner mac key now o') ks recs) = length recs + length (filter (\<lambda>k. gm_get recs k = None) ks)"
  using assms(2,4,5,6)
proof (induction ks arbitrary: recs)
  case (Cons k ks)
  let ?r = "putOwner mac key now o' k recs"
  have "bucketVerdicts mac key recs k = None \<or> bucketVerdicts mac key recs k = Some (OwnedBy o')"
    using Cons.prems(3) by (auto simp: contested_def)
  note p = put_owner[OF assms(1) _ Cons.prems(1) assms(3) this, of now]
  have k: "key_ok k" "k \<notin> set ks" using Cons.prems by auto
  have "\<not> contested (bucketVerdicts mac key ?r) ks o'"
    using Cons.prems(3) k by (auto simp: contested_def p(2)[OF k(1)])
  with Cons.IH[OF p(1)[OF k(1)]] Cons.prems
  have ih: "bucket_ok mac key (fold (putOwner mac key now o') ks ?r)"
    "bucketVerdicts mac key (fold (putOwner mac key now o') ks ?r) = grant (bucketVerdicts mac key ?r) ks o'"
    "length (fold (putOwner mac key now o') ks ?r) = length ?r + length (filter (\<lambda>j. gm_get ?r j = None) ks)"
    by simp_all
  have "filter (\<lambda>j. gm_get ?r j = None) ks = filter (\<lambda>j. gm_get recs j = None) ks"
    using k by (intro filter_cong) (auto simp: p(4)[OF k(1)])
  moreover have "grant (bucketVerdicts mac key ?r) ks o' = grant (bucketVerdicts mac key recs) (k # ks) o'"
    by (auto simp: grant_def fun_eq_iff p(2)[OF k(1)])
  ultimately show ?case
    using ih by (simp add: p(3)[OF k(1)])
qed (simp add: grant_def fun_eq_iff)

lemma verdict_Some:
  assumes "bucket_ok mac key recs" "gm_get recs k = Some v"
  obtains r t where "decodeRecord mac key k v = Inr (r, t)" "bucketVerdicts mac key recs k = Some (verdictOf r)"
proof -
  have "\<not> isl (decodeRecord mac key k v)" using assms unfolding bucket_ok_def by blast
  then obtain r t where "decodeRecord mac key k v = Inr (r, t)" by (cases "decodeRecord mac key k v") auto
  with that assms show thesis by (simp add: bucketVerdicts_def)
qed

lemma verdictOf_owned: "verdictOf r = OwnedBy o' \<longleftrightarrow> outcome r = stateBindingLookupKnown \<and> resultOwner r = o'"
  by (auto simp: verdictOf_def)

lemma unchanged_spec:
  assumes "bucket_ok mac key recs"
  shows "bindUnchangedLoop mac key recs o' False keys result =
    Inr (unanimous (bucketVerdicts mac key recs) keys o', result)"
proof (induction keys)
  case (Cons k ks)
  show ?case
  proof (cases "gm_get recs k")
    case None
    then show ?thesis by (simp add: unanimous_def bucketVerdicts_def)
  next
    case (Some v)
    then obtain r t where "decodeRecord mac key k v = Inr (r, t)"
      "bucketVerdicts mac key recs k = Some (verdictOf r)"
      using verdict_Some[OF assms Some] by blast
    then show ?thesis using Some Cons by (auto simp: unanimous_def verdictOf_owned)
  qed
qed (simp add: unanimous_def)

definition rivals :: "(string \<Rightarrow> verdict option) \<Rightarrow> string list \<Rightarrow> stateBindingOwner \<Rightarrow> string list" where
  "rivals m keys o' = filter (\<lambda>k. \<exists>x. m k = Some (OwnedBy x) \<and> x \<noteq> o') keys"

lemma rivals_Cons:
  "rivals m (k # ks) o' = (if \<exists>x. m k = Some (OwnedBy x) \<and> x \<noteq> o' then k # rivals m ks o' else rivals m ks o')"
  by (simp add: rivals_def)

lemma contested_Cons:
  "contested m (k # ks) o' \<longleftrightarrow> (m k \<noteq> None \<and> m k \<noteq> Some (OwnedBy o')) \<or> contested m ks o'"
  by (auto simp: contested_def)

lemma scan_spec:
  assumes "bucket_ok mac key recs"
  shows "bindScanLoop mac key recs o' False keys n cs c =
    ScanDone (n + length (filter (\<lambda>k. gm_get recs k = None) keys))
      (cs @ rivals (bucketVerdicts mac key recs) keys o')
      (c \<or> contested (bucketVerdicts mac key recs) keys o')"
proof (induction keys arbitrary: n cs c)
  case (Cons k ks)
  show ?case
  proof (cases "gm_get recs k")
    case None
    then have "bucketVerdicts mac key recs k = None" by (simp add: bucketVerdicts_def)
    then show ?thesis using None Cons by (simp add: contested_def rivals_def)
  next
    case (Some v)
    then obtain r t where r: "decodeRecord mac key k v = Inr (r, t)"
      "bucketVerdicts mac key recs k = Some (verdictOf r)"
      using verdict_Some[OF assms Some] by blast
    from decode_Inr[OF r(1)] consider "outcome r = stateBindingLookupConflict"
      | x where "r = durableKnown x" by blast
    then show ?thesis
    proof cases
      case 1
      then have "bucketVerdicts mac key recs k = Some Tombstone" using r by (simp add: verdictOf_def)
      then show ?thesis using Some r 1 Cons by (simp add: contested_Cons rivals_Cons)
    next
      case 2
      then have "bucketVerdicts mac key recs k = Some (OwnedBy x)" using r by (simp add: verdictOf_def)
      then show ?thesis using Some r 2 Cons by (simp add: contested_Cons rivals_Cons)
    qed
  qed
qed (simp add: contested_def rivals_def)

lemma withdraw_rivals:
  assumes "contested m keys o'"
  shows "(\<lambda>k. if k \<in> set (rivals m keys o') then Some Tombstone else m k) = withdraw m keys o'"
proof
  fix k
  show "(if k \<in> set (rivals m keys o') then Some Tombstone else m k) = withdraw m keys o' k"
  proof (cases "m k")
    case (Some x)
    then show ?thesis by (cases x) (auto simp: rivals_def withdraw_def)
  qed (auto simp: rivals_def withdraw_def)
qed

text \<open>The scan of a claim ends at the first record it finds.\<close>

lemma claim_scan:
  assumes "bucket_ok mac key recs"
  shows "(\<exists>prior. bindScanLoop mac key recs o' True keys n cs c = ScanClaimed prior) \<or>
    bindScanLoop mac key recs o' True keys n cs c = ScanDone (n + length keys) cs c \<and>
      (\<forall>k \<in> set keys. gm_get recs k = None)"
proof (induction keys arbitrary: n)
  case (Cons k ks)
  show ?case
  proof (cases "gm_get recs k")
    case None
    then show ?thesis using Cons[of "Suc n"] by simp
  next
    case (Some v)
    then obtain r t where "decodeRecord mac key k v = Inr (r, t)" using verdict_Some[OF assms Some] by blast
    then show ?thesis using Some by simp
  qed
qed simp

lemma claim_unchanged:
  assumes "bucket_ok mac key recs"
  shows "\<exists>b r. bindUnchangedLoop mac key recs o' True keys result = Inr (b, r)"
proof (cases keys)
  case (Cons k ks)
  then show ?thesis
    by (cases "gm_get recs k") (auto elim!: verdict_Some[OF assms])
qed auto

section \<open>The transaction of a binding\<close>

lemma capacity_test:
  assumes "int len \<le> maxE" "maxE < 2 ^ 63" "n < 2 ^ 63"
  shows "word_of_nat n > (word_of_int maxE :: 64 word) - word_of_nat len \<longleftrightarrow> int n > maxE - int len"
proof -
  have eq: "(word_of_int maxE :: 64 word) - word_of_nat len = word_of_int (maxE - int len)"
    by simp
  have fit: "uint (word_of_int x :: 64 word) = x" if "0 \<le> x" "x < 2 ^ 63" for x
    using that by (simp add: uint_word_of_int)
  have "uint (word_of_int (maxE - int len) :: 64 word) = maxE - int len"
    by (rule fit) (use assms in auto)
  moreover have "uint (word_of_nat n :: 64 word) = int n"
    using assms(3) by (simp add: unsigned_of_nat take_bit_nat_eq_self flip: of_nat_take_bit)
  ultimately show ?thesis unfolding eq by (simp only: word_less_def)
qed

lemma authority_simps:
  "authority mac (d\<lparr>dsRecords := recs, dsSequence := sq\<rparr>) = bucketVerdicts mac (dsKey d) recs"
  "authority mac (d\<lparr>dsFailed := f\<rparr>) = authority mac d"
  "authority mac (d\<lparr>dsOpen := b\<rparr>) = authority mac d"
  by (simp_all add: authority_def)

lemma durable_wf_simps [simp]:
  "durable_wf mac (d\<lparr>dsFailed := f\<rparr>) = durable_wf mac d"
  "durable_wf mac (d\<lparr>dsOpen := b\<rparr>) = durable_wf mac d"
  by (simp_all add: durable_wf_def)

definition newKeys :: "(string \<Rightarrow> verdict option) \<Rightarrow> string list \<Rightarrow> nat" where
  "newKeys m keys = length (filter (\<lambda>k. m k = None) keys)"

lemma newKeys_records:
  "bucket_ok mac key recs \<Longrightarrow> length (filter (\<lambda>k. gm_get recs k = None) keys) = newKeys (bucketVerdicts mac key recs) keys"
  by (simp add: newKeys_def verdict_None_iff)

lemma tombstones_wf:
  fixes now :: "string \<Rightarrow> gotime"
  assumes "mac_ok mac" "durable_wf mac d" "\<forall>k \<in> set keys. key_ok k" "contested (authority mac d) keys o'"
  defines "d' \<equiv> d\<lparr>dsRecords := fold (putTombstone mac (dsKey d) now) (rivals (authority mac d) keys o') (dsRecords d),
    dsSequence := dsSequence d\<rparr>"
  shows "durable_wf mac d'" "authority mac d' = withdraw (authority mac d) keys o'"
proof -
  have ok: "bucket_ok mac (dsKey d) (dsRecords d)" using assms(2) by (simp add: durable_wf_def)
  have "\<forall>k \<in> set (rivals (authority mac d) keys o'). key_ok k \<and> gm_get (dsRecords d) k \<noteq> None"
    using assms(3) unfolding verdict_None_iff[OF ok, symmetric] by (auto simp: rivals_def authority_def)
  note p = put_tombstones[OF assms(1) ok this, of now]
  show "authority mac d' = withdraw (authority mac d) keys o'"
    using p withdraw_rivals[OF assms(4)[unfolded authority_def]] by (simp add: d'_def authority_simps) (simp add: authority_def)
  show "durable_wf mac d'" using p assms(2) by (simp add: d'_def durable_wf_def)
qed

lemma owners_wf:
  fixes now :: "string \<Rightarrow> gotime"
  assumes "mac_ok mac" "durable_wf mac d" "\<forall>k \<in> set keys. key_ok k" "distinct keys"
    "verdict_ok o' stateBindingLookupKnown" "\<not> contested (authority mac d) keys o'"
    "int (newKeys (authority mac d) keys) \<le> dsMaxEntries d - int (length (dsRecords d))"
  defines "d' \<equiv> d\<lparr>dsRecords := fold (putOwner mac (dsKey d) now o') keys (dsRecords d),
    dsSequence := dsSequence d + word_of_nat (newKeys (authority mac d) keys)\<rparr>"
  shows "durable_wf mac d'" "authority mac d' = grant (authority mac d) keys o'"
proof -
  have ok: "bucket_ok mac (dsKey d) (dsRecords d)" using assms(2) by (simp add: durable_wf_def)
  have "\<not> contested (bucketVerdicts mac (dsKey d) (dsRecords d)) keys o'"
    using assms(6) by (simp add: authority_def)
  note p = put_owners[OF assms(1) ok assms(5,3) this assms(4), of now, unfolded newKeys_records[OF ok]]
  show "authority mac d' = grant (authority mac d) keys o'"
    using p by (simp add: d'_def authority_simps authority_def)
  show "durable_wf mac d'" using p assms(2,7) by (simp add: d'_def durable_wf_def authority_def)
qed

definition fits :: "mac \<Rightarrow> durableStateBindings \<Rightarrow> string list \<Rightarrow> bool" where
  "fits mac d keys \<longleftrightarrow> int (newKeys (authority mac d) keys) \<le> dsMaxEntries d - int (length (dsRecords d))"

lemma fits_test:
  assumes "durable_wf mac d" "length keys < 2 ^ 63"
  shows "word_of_nat (newKeys (authority mac d) keys) > word_of_int (dsMaxEntries d) - dsSequence d
     \<longleftrightarrow> \<not> fits mac d keys"
proof -
  have "newKeys (authority mac d) keys < 2 ^ 63"
    unfolding newKeys_def using assms(2) by (rule le_less_trans[OF length_filter_le])
  then show ?thesis
    using capacity_test[of "length (dsRecords d)" "dsMaxEntries d" "newKeys (authority mac d) keys"] assms(1)
    by (auto simp: durable_wf_def fits_def)
qed

lemma bindUpdate_spec:
  assumes "durable_wf mac d" "length keys < 2 ^ 63"
  shows "bindUpdate mac now o' False keys d result =
    (if contested (authority mac d) keys o'
     then Inr (fold (putTombstone mac (dsKey d) now) (rivals (authority mac d) keys o') (dsRecords d),
               dsSequence d, durableConflict, True)
     else if \<not> fits mac d keys then Inl errDurableStateCapacity
     else Inr (fold (putOwner mac (dsKey d) now o') keys (dsRecords d),
               dsSequence d + word_of_nat (newKeys (authority mac d) keys), result, True))"
proof -
  have ok: "bucket_ok mac (dsKey d) (dsRecords d)" using assms(1) by (simp add: durable_wf_def)
  show ?thesis
    unfolding bindUpdate_def scan_spec[OF ok] newKeys_records[OF ok] authority_def[symmetric]
    using fits_test[OF assms] by simp
qed

section \<open>Whole operations\<close>

definition healthy :: "boltEnv \<Rightarrow> bool" where
  "healthy env \<longleftrightarrow> beView env \<and> beUpdate env \<and> beBeforeCommit env \<and> beCommit env \<and> beAfterCommit env"

text \<open>What a binding does to the verdicts, and its answer.\<close>

definition specBind ::
  "(string \<Rightarrow> verdict option) \<Rightarrow> bool \<Rightarrow> string list \<Rightarrow> stateBindingOwner \<Rightarrow>
   (string \<Rightarrow> verdict option) \<times> durableLookupResult" where
  "specBind m room keys o' =
     (if unanimous m keys o' then (m, durableKnown o')
      else if contested m keys o' then (withdraw m keys o', durableConflict)
      else if room then (grant m keys o', durableKnown o')
      else (m, durableFailure errDurableStateCapacity))"

definition specResolve ::
  "(string \<Rightarrow> verdict option) \<Rightarrow> string list \<Rightarrow> string option \<Rightarrow> string option \<Rightarrow> durableLookupResult" where
  "specResolve m keys rk tk =
     (if disputed m keys rk tk {} then durableConflict
      else if keys = [] \<or> (\<exists>k \<in> set keys. m k = None) then durableUnknown
      else durableKnown (THE o'. o' \<in> ownersOf m keys))"

lemma resolve_spec:
  assumes "durable_wf mac d" "tokenKeys mac (dsKey d) tokens = Inr keys" "dsOpen d" "dsFailed d = None" "beView env"
  shows "durableResolveWithRoute mac env tokens rid pin d =
    (d, specResolve (authority mac d) keys (labelKey mac (dsKey d) ''route'' rid) (labelKey mac (dsKey d) ''target'' pin))"
proof -
  have "\<forall>k v. gm_get (dsRecords d) k = Some v \<longrightarrow> \<not> isl (decodeRecord mac (dsKey d) k v)"
    using assms(1) by (simp add: durable_wf_def bucket_ok_def)
  note loop = resolve_loop_spec[OF this, of _ _ keys None False, simplified option.map option.set]
  show ?thesis
    unfolding durableResolveWithRoute_def using assms loop
    by (auto simp: specResolve_def authority_def)
qed

lemma resolve_frame:
  "fst (durableResolveWithRoute mac env tokens rid pin d) = d \<or>
   fst (durableResolveWithRoute mac env tokens rid pin d) = d\<lparr>dsFailed := Some errDurableStateIO\<rparr>"
  by (auto simp: durableResolveWithRoute_def Let_def split: sum.splits option.splits)

lemma bind_owner_ok:
  assumes "mac_ok mac" "owner_valid o'" "ownerIdentity o' \<noteq> zeroBytes32" "owner32 o'"
  shows "verdict_ok (encodeOwner mac key o') stateBindingLookupKnown"
  using assms encodeOwner_owner32 encodeOwner_proven by (simp add: verdict_ok_def)

text \<open>A binding either changes nothing, withdraws the contested keys, or grants them all.\<close>

definition bindMove ::
  "(string \<Rightarrow> verdict option) \<Rightarrow> (string \<Rightarrow> verdict option) \<Rightarrow> string list \<Rightarrow> stateBindingOwner \<Rightarrow> bool" where
  "bindMove m m' keys o' \<longleftrightarrow> m' = m \<or> m' = withdraw m keys o' \<or> (\<not> contested m keys o' \<and> m' = grant m keys o')"

lemma bindUpdate_move:
  assumes "mac_ok mac" "durable_wf mac d" "\<forall>k \<in> set keys. key_ok k" "distinct keys" "length keys < 2 ^ 63"
    "verdict_ok o' stateBindingLookupKnown" "bindUpdate mac now o' claim keys d result = Inr (recs, sq, r, h)"
  shows "durable_wf mac (d\<lparr>dsRecords := recs, dsSequence := sq\<rparr>) \<and>
    bindMove (authority mac d) (authority mac (d\<lparr>dsRecords := recs, dsSequence := sq\<rparr>)) keys o'"
proof (cases claim)
  case False
  then have "bindUpdate mac now o' False keys d result = Inr (recs, sq, r, h)" using assms(7) by simp
  then show ?thesis
    using tombstones_wf[OF assms(1,2,3)] owners_wf[OF assms(1,2,3,4,6)]
    unfolding bindUpdate_spec[OF assms(2,5)] bindMove_def fits_def by (auto split: if_splits)
next
  case True
  have ok: "bucket_ok mac (dsKey d) (dsRecords d)" using assms(2) by (simp add: durable_wf_def)
  have same: "d\<lparr>dsRecords := dsRecords d, dsSequence := dsSequence d\<rparr> = d" by simp
  from claim_scan[OF ok, of o' keys 0 "[]" False] show ?thesis
  proof
    assume "\<exists>prior. bindScanLoop mac (dsKey d) (dsRecords d) o' True keys 0 [] False = ScanClaimed prior"
    then show ?thesis using assms(2,7) True same by (auto simp: bindUpdate_def bindMove_def)
  next
    assume scan: "bindScanLoop mac (dsKey d) (dsRecords d) o' True keys 0 [] False =
        ScanDone (0 + length keys) [] False \<and> (\<forall>k \<in> set keys. gm_get (dsRecords d) k = None)"
    then have none: "\<forall>k \<in> set keys. authority mac d k = None"
      using verdict_None_iff[OF ok] by (simp add: authority_def)
    then have new: "newKeys (authority mac d) keys = length keys" "\<not> contested (authority mac d) keys o'"
      by (simp_all add: newKeys_def contested_def)
    have "(recs, sq) = (fold (putOwner mac (dsKey d) now o') keys (dsRecords d), dsSequence d + word_of_nat (length keys))"
      "fits mac d keys"
      using assms(7) scan True fits_test[OF assms(2,5)] new by (auto simp: bindUpdate_def split: if_splits)
    then show ?thesis
      using owners_wf[OF assms(1,2,3,4,6) new(2)] new by (simp add: fits_def bindMove_def)
  qed
qed

lemma tokenKeys_length:
  assumes "mac_ok mac" "tokenKeys mac key ts = Inr keys"
  shows "length keys \<le> length ts"
proof -
  note k = tokenKeys_spec[OF assms]
  have "length keys = card (durableTokenKey mac key ` set ts)"
    using distinct_card[OF k(1)] k(2) by simp
  also have "\<dots> \<le> length ts"
    using card_image_le[of "set ts"] card_length[of ts] by (meson List.finite_set order_trans)
  finally show ?thesis .
qed

text \<open>
  Every run of a binding: the key and the limits stay, a frozen store does not change, and the
  verdicts make one allowed move, whatever fails underneath.
\<close>

definition durableFrame :: "durableStateBindings \<Rightarrow> durableStateBindings \<Rightarrow> bool" where
  "durableFrame d d' \<longleftrightarrow> dsKey d' = dsKey d \<and> dsMaxEntries d' = dsMaxEntries d \<and>
     (\<forall>e. dsFailed d = Some e \<longrightarrow> dsFailed d' = Some e \<and> dsRecords d' = dsRecords d)"

lemma durableFrame_trans: "durableFrame a b \<Longrightarrow> durableFrame b c \<Longrightarrow> durableFrame a c"
  by (auto simp: durableFrame_def)

lemma bind_moves:
  assumes "mac_ok mac" "durable_wf mac d" "owner32 o'" "length tokens < 2 ^ 63"
    "durableBind mac now env tokens o' claim d = (d', r)"
  shows "durable_wf mac d' \<and> durableFrame d d' \<and>
    (\<exists>keys. bindMove (authority mac d) (authority mac d') keys (encodeOwner mac (dsKey d) o'))"
proof -
  have quiet: "durable_wf mac d \<and> durableFrame d d \<and>
      (\<exists>keys. bindMove (authority mac d) (authority mac d) keys (encodeOwner mac (dsKey d) o'))"
    using assms(2) by (simp add: durableFrame_def bindMove_def)
  have frozen: "durable_wf mac (d\<lparr>dsFailed := Some e\<rparr>) \<and> durableFrame d (d\<lparr>dsFailed := Some e\<rparr>) \<and>
      (\<exists>keys. bindMove (authority mac d) (authority mac (d\<lparr>dsFailed := Some e\<rparr>)) keys (encodeOwner mac (dsKey d) o'))"
    if "dsFailed d = None" for e
    using assms(2) that by (simp add: durableFrame_def bindMove_def authority_simps)
  show ?thesis
  proof (cases "owner_valid o' \<and> ownerIdentity o' \<noteq> zeroBytes32 \<and> tokens \<noteq> [] \<and> dsFailed d = None \<and> dsOpen d")
    case False
    then show ?thesis
      using assms(5) quiet unfolding durableBind_def by (auto split: sum.splits option.splits if_splits)
  next
    case True
    show ?thesis
    proof (cases "tokenKeys mac (dsKey d) tokens")
      case (Inl e)
      then show ?thesis using assms(5) quiet True unfolding durableBind_def by auto
    next
      case (Inr keys)
      define owner where "owner = encodeOwner mac (dsKey d) o'"
      note k = tokenKeys_spec[OF assms(1) Inr]
      have len: "length keys < 2 ^ 63" using tokenKeys_length[OF assms(1) Inr] assms(4) by simp
      have vo: "verdict_ok owner stateBindingLookupKnown"
        unfolding owner_def using True assms(1,3) by (intro bind_owner_ok) auto
      have committed: "durable_wf mac d1 \<and> durableFrame d d1 \<and>
          (\<exists>keys. bindMove (authority mac d) (authority mac d1) keys owner)"
        if "bindUpdate mac now owner claim keys d result = Inr (recs, sq, r', h)"
          "d1 = d\<lparr>dsRecords := recs, dsSequence := sq\<rparr> \<or>
           d1 = d\<lparr>dsRecords := recs, dsSequence := sq, dsFailed := Some errDurableStateIO\<rparr>"
        for result recs sq r' h d1
        using that(2) bindUpdate_move[OF assms(1,2) _ k(1) len vo that(1)] k(3) True
        by (auto simp: durableFrame_def authority_simps durable_wf_def authority_def)
      show ?thesis
        using assms(5) quiet frozen[of errDurableStateIO] True Inr committed
        unfolding durableBind_def owner_def[symmetric] Let_def
        by (auto split: sum.splits if_splits bool.splits prod.splits)
    qed
  qed
qed

section \<open>The machine\<close>

text \<open>A store as it comes out of opening a file whose bucket has one value for every key.\<close>

definition durable_init :: "mac \<Rightarrow> durableStateBindings \<Rightarrow> bool" where
  "durable_init mac d \<longleftrightarrow> (\<exists>env created random maxE f.
     initializeDurable mac env created random maxE f = Inr d \<and> 0 < maxE \<and> maxE < 2 ^ 63 \<and>
     (\<forall>recs sq. bfBindings f = Some (recs, sq) \<longrightarrow> distinct (map fst recs)))"

inductive durable_step :: "mac \<Rightarrow> durableStateBindings \<Rightarrow> durableStateBindings \<Rightarrow> bool" for mac where
  step_durable_bind: "durableBind mac now env tokens o' claim d = (d', r) \<Longrightarrow> owner32 o' \<Longrightarrow>
    length tokens < 2 ^ 63 \<Longrightarrow> durable_step mac d d'"
| step_durable_resolve: "durableResolveWithRoute mac env tokens rid pin d = (d', r) \<Longrightarrow> durable_step mac d d'"
| step_durable_resolveForRoute: "durableResolveForRoute mac env rid pin tokens d = (d', r) \<Longrightarrow> durable_step mac d d'"
| step_durable_close: "durableClose ok d = (d', e) \<Longrightarrow> durable_step mac d d'"

lemma validate_wf:
  assumes "validateFile mac maxE f = Inr d" "0 < maxE" "maxE < 2 ^ 63"
    "\<forall>recs sq. bfBindings f = Some (recs, sq) \<longrightarrow> distinct (map fst recs)"
  shows "durable_wf mac d"
proof -
  obtain meta recs sq fmt key where f: "bfBindings f = Some (recs, sq)" "bfMetadata f = Some meta"
      "gm_get meta ''key'' = Some key" "gm_get meta ''format'' = Some fmt"
    using assms(1) by (auto simp: validateFile_def split: if_splits option.splits prod.splits)
  have ok: "int (length recs) \<le> maxE" "sq = word_of_nat (length recs)"
      "\<forall>(k, v) \<in> set recs. \<not> isl (decodeRecord mac key k v)"
      "d = \<lparr>dsOpen = True, dsKey = key, dsMaxEntries = maxE, dsFailed = None, dsRecords = recs, dsSequence = sq\<rparr>"
    using assms(1) f by (auto simp: validateFile_def split: if_splits)
  have "bucket_ok mac key recs"
    using ok(3) f(1) assms(4) by (auto simp: bucket_ok_def dest!: map_of_SomeD)
  then show ?thesis using ok assms(2,3) by (simp add: durable_wf_def)
qed

lemma durable_init_wf:
  assumes "durable_init mac d" shows "durable_wf mac d"
proof -
  from assms obtain env created random maxE f where i: "initializeDurable mac env created random maxE f = Inr d"
      "0 < maxE" "maxE < 2 ^ 63" "\<forall>recs sq. bfBindings f = Some (recs, sq) \<longrightarrow> distinct (map fst recs)"
    by (auto simp: durable_init_def)
  then obtain f' where "validateFile mac maxE f' = Inr d"
      "\<forall>recs sq. bfBindings f' = Some (recs, sq) \<longrightarrow> distinct (map fst recs)"
    by (auto simp: initializeDurable_def Let_def split: if_splits option.splits)
  then show ?thesis using validate_wf i by blast
qed

lemma resolveForRoute_fst:
  "fst (durableResolveForRoute mac env rid pin tokens d) = fst (durableResolveWithRoute mac env tokens rid pin d)"
  by (simp add: durableResolveForRoute_def split: prod.split)

lemma durable_step_moves:
  assumes "mac_ok mac" "durable_wf mac d" "durable_step mac d d'"
  shows "durable_wf mac d' \<and> durableFrame d d' \<and> (\<exists>keys o'. bindMove (authority mac d) (authority mac d') keys o')"
  using assms(3)
proof cases
  case (step_durable_bind now env tokens o' claim r)
  then show ?thesis using bind_moves[OF assms(1,2)] by blast
next
  case (step_durable_resolve env tokens rid pin r)
  have "d' = fst (durableResolveWithRoute mac env tokens rid pin d)" using step_durable_resolve by simp
  moreover have "dsFailed d = Some e \<Longrightarrow> fst (durableResolveWithRoute mac env tokens rid pin d) = d" for e
    by (simp add: durableResolveWithRoute_def split: sum.split)
  ultimately show ?thesis using resolve_frame[of mac env tokens rid pin d] assms(2)
    by (cases "dsFailed d") (auto simp: durableFrame_def bindMove_def authority_simps)
next
  case (step_durable_resolveForRoute env rid pin tokens r)
  have "d' = fst (durableResolveForRoute mac env rid pin tokens d)" using step_durable_resolveForRoute by simp
  moreover have "dsFailed d = Some e \<Longrightarrow> fst (durableResolveForRoute mac env rid pin tokens d) = d" for e
    unfolding resolveForRoute_fst by (simp add: durableResolveWithRoute_def split: sum.split)
  ultimately show ?thesis using resolve_frame[of mac env tokens rid pin d] assms(2)
    unfolding resolveForRoute_fst
    by (cases "dsFailed d") (auto simp: durableFrame_def bindMove_def authority_simps)
next
  case (step_durable_close ok e)
  then show ?thesis using assms(2)
    by (auto simp: durableClose_def durableFrame_def bindMove_def authority_simps split: if_splits)
qed

interpretation durable_machine:
  machine_invariant "\<lambda>d. durable_init mac d \<and> mac_ok mac" "durable_step mac" "\<lambda>d. durable_wf mac d \<and> mac_ok mac" for mac
  by unfold_locales (use durable_init_wf durable_step_moves in blast)+

text \<open>How a verdict may change.\<close>

definition laterVerdicts :: "verdict option \<Rightarrow> verdict option set" where
  "laterVerdicts v = (case v of None \<Rightarrow> UNIV | Some Tombstone \<Rightarrow> {Some Tombstone}
     | Some (OwnedBy o') \<Rightarrow> {Some (OwnedBy o'), Some Tombstone})"

lemma bindMove_later: "bindMove m m' keys o' \<Longrightarrow> m' k \<in> laterVerdicts (m k)"
proof (cases "m k")
  case (Some v)
  assume "bindMove m m' keys o'"
  then show ?thesis
    using Some by (cases v; cases "k \<in> set keys")
      (auto simp: bindMove_def laterVerdicts_def withdraw_def grant_def contested_def split: if_splits dest: bspec[where x = k])
qed (simp add: laterVerdicts_def)

lemma laterVerdicts_trans: "b \<in> laterVerdicts a \<Longrightarrow> c \<in> laterVerdicts b \<Longrightarrow> c \<in> laterVerdicts a"
  by (auto simp: laterVerdicts_def split: option.splits verdict.splits)

lemma durable_run:
  assumes "(durable_step mac)\<^sup>*\<^sup>* d1 d2" "mac_ok mac" "durable_wf mac d1"
  shows "durable_wf mac d2 \<and> durableFrame d1 d2 \<and> (\<forall>k. authority mac d2 k \<in> laterVerdicts (authority mac d1 k))"
  using assms(1)
proof (induction rule: rtranclp_induct)
  case base
  then show ?case using assms(3)
    by (auto simp: durableFrame_def laterVerdicts_def split: option.splits verdict.splits)
next
  case (step d d')
  from durable_step_moves[OF assms(2) _ step(2)] step.IH
  have "durable_wf mac d'" "durableFrame d d'" "\<forall>k. authority mac d' k \<in> laterVerdicts (authority mac d k)"
    using bindMove_later by blast+
  then show ?case using step.IH durableFrame_trans laterVerdicts_trans by blast
qed

section \<open>Properties of the durable store\<close>

definition exDurableMac :: mac where
  "exDurableMac key m = replicate 31 (CHR ''a'') @ [char_of (length m mod 256)]"

definition exDurable :: durableStateBindings where
  "exDurable = \<lparr>dsOpen = True, dsKey = replicate 32 (CHR ''k''), dsMaxEntries = 2, dsFailed = None,
     dsRecords = [], dsSequence = 0\<rparr>"

definition exBoltEnv :: boltEnv where
  "exBoltEnv = \<lparr>beView = True, beUpdate = True, beBeforeCommit = True, beCommit = True, beAfterCommit = True\<rparr>"

definition exDurableOwner :: stateBindingOwner where
  "exDurableOwner = \<lparr>routeID = ''r'', targetID = ''t'', routeKey = zeroBytes32, targetKey = zeroBytes32,
     ownerIdentity = replicate 32 (CHR ''i'')\<rparr>"

definition exDurableToken :: stateBindingToken where
  "exDurableToken = \<lparr>stateType = stateBindingTypeResponseID, tokValue = ''resp_1''\<rparr>"

lemma ex_mac_ok: "mac_ok exDurableMac"
proof -
  have "hd (exDurableMac key m) \<noteq> hd zeroBytes32" for key m
    by (simp add: exDurableMac_def zeroBytes32_def)
  then have "exDurableMac key m \<noteq> zeroBytes32" for key m by metis
  then show ?thesis by (simp add: mac_ok_def exDurableMac_def)
qed

lemma ex_init: "durable_init exDurableMac exDurable"
proof -
  have "initializeDurable exDurableMac exBoltEnv True (Some (replicate 32 (CHR ''k''))) 2
      \<lparr>bfSound = True, bfMetadata = None, bfBindings = None\<rparr> = Inr exDurable"
    by (simp add: initializeDurable_def validateFile_def exBoltEnv_def exDurable_def durableStateFormat_def)
  then show ?thesis unfolding durable_init_def
    by (intro exI[of _ exBoltEnv] exI[of _ True] exI[of _ "Some (replicate 32 (CHR ''k''))"] exI[of _ 2]
        exI[of _ "\<lparr>bfSound = True, bfMetadata = None, bfBindings = None\<rparr>"]) simp
qed

lemmas ex_wf = durable_init_wf[OF ex_init]

lemma ex_owner:
  "owner_valid exDurableOwner" "ownerIdentity exDurableOwner \<noteq> zeroBytes32" "owner32 exDurableOwner"
proof -
  have "hd (ownerIdentity exDurableOwner) \<noteq> hd zeroBytes32" by (simp add: exDurableOwner_def zeroBytes32_def)
  then show "ownerIdentity exDurableOwner \<noteq> zeroBytes32" by metis
qed (simp_all add: exDurableOwner_def owner_valid_def owner32_def)

lemma ex_keys:
  "tokenKeys exDurableMac key [exDurableToken] = Inr [durableTokenKey exDurableMac key exDurableToken]"
  by (simp add: tokenKeys_def exDurableToken_def durableStateTypeByte_def)

lemma ex_authority [simp]: "authority exDurableMac exDurable k = None"
  by (simp add: authority_def bucketVerdicts_def exDurable_def)

text \<open>C5. The durable store refines a map from token keys to verdicts. When the database works, a
  binding does exactly what \<open>specBind\<close> says (nothing when every key has that owner already,
  withdrawal of the keys owned elsewhere when the batch is contested, else all keys are granted
  or, without room, none), and a lookup answers exactly what \<open>specResolve\<close> says.\<close>

theorem durable_store_refines_verdicts:
  assumes "mac_ok mac" "durable_wf mac d" "dsOpen d" "dsFailed d = None" "healthy env"
    "owner_valid o'" "ownerIdentity o' \<noteq> zeroBytes32" "owner32 o'"
    "tokens \<noteq> []" "length tokens < 2 ^ 63" "tokenKeys mac (dsKey d) tokens = Inr keys"
  shows "(let (d', r) = durableBind mac now env tokens o' False d
      in (authority mac d', r) = specBind (authority mac d) (fits mac d keys) keys (encodeOwner mac (dsKey d) o')) \<and>
    durableResolveWithRoute mac env tokens rid pin d =
      (d, specResolve (authority mac d) keys (labelKey mac (dsKey d) ''route'' rid)
            (labelKey mac (dsKey d) ''target'' pin))"
proof
  define owner where "owner = encodeOwner mac (dsKey d) o'"
  note env = assms(5)[unfolded healthy_def]
  note k = tokenKeys_spec[OF assms(1,11)]
  have ok: "bucket_ok mac (dsKey d) (dsRecords d)" using assms(2) by (simp add: durable_wf_def)
  have len: "length keys < 2 ^ 63" using tokenKeys_length[OF assms(1,11)] assms(10) by simp
  have vo: "verdict_ok owner stateBindingLookupKnown" unfolding owner_def by (rule bind_owner_ok[OF assms(1,6-8)])
  have keys: "\<forall>k \<in> set keys. key_ok k" using k(3) by blast
  note un = unchanged_spec[OF ok, folded authority_def, of owner keys "durableKnown owner"]
  note up = bindUpdate_spec[OF assms(2) len, of now owner "durableKnown owner"]
  have tomb: "authority mac (d\<lparr>dsRecords := fold (putTombstone mac (dsKey d) now) (rivals (authority mac d) keys owner)
      (dsRecords d), dsSequence := dsSequence d\<rparr>) = withdraw (authority mac d) keys owner"
    if "contested (authority mac d) keys owner"
    by (rule tombstones_wf(2)[OF assms(1,2) keys that])
  have own: "authority mac (d\<lparr>dsRecords := fold (putOwner mac (dsKey d) now owner) keys (dsRecords d),
      dsSequence := dsSequence d + word_of_nat (newKeys (authority mac d) keys)\<rparr>) = grant (authority mac d) keys owner"
    if "\<not> contested (authority mac d) keys owner" "fits mac d keys"
    by (rule owners_wf(2)[OF assms(1,2) keys k(1) vo that(1) that(2)[unfolded fits_def]])
  show "let (d', r) = durableBind mac now env tokens o' False d
      in (authority mac d', r) = specBind (authority mac d) (fits mac d keys) keys (encodeOwner mac (dsKey d) o')"
    unfolding durableBind_def owner_def[symmetric] specBind_def Let_def
    using assms(3,4,6,7,9,11) env un up tomb own by simp
  show "durableResolveWithRoute mac env tokens rid pin d =
      (d, specResolve (authority mac d) keys (labelKey mac (dsKey d) ''route'' rid)
            (labelKey mac (dsKey d) ''target'' pin))"
    using resolve_spec[OF assms(2,11,3,4)] env by blast
qed

theorem durable_store_refines_verdicts_witness:
  "let k = durableTokenKey exDurableMac (dsKey exDurable) exDurableToken;
       e = encodeOwner exDurableMac (dsKey exDurable) exDurableOwner;
       (d', r) = durableBind exDurableMac (\<lambda>_. 0) exBoltEnv [exDurableToken] exDurableOwner False exDurable
   in authority exDurableMac d' k = Some (OwnedBy e) \<and> r = durableKnown e"
proof -
  define k where "k = durableTokenKey exDurableMac (dsKey exDurable) exDurableToken"
  define e where "e = encodeOwner exDurableMac (dsKey exDurable) exDurableOwner"
  have state: "dsOpen exDurable" "dsFailed exDurable = None" "healthy exBoltEnv"
    by (simp_all add: exDurable_def healthy_def exBoltEnv_def)
  have keys: "tokenKeys exDurableMac (dsKey exDurable) [exDurableToken] = Inr [k]"
    unfolding k_def by (rule ex_keys)
  have "fits exDurableMac exDurable [k]" by (simp add: fits_def newKeys_def exDurable_def)
  then have spec: "specBind (authority exDurableMac exDurable) (fits exDurableMac exDurable [k]) [k] e
      = (grant (authority exDurableMac exDurable) [k] e, durableKnown e)"
    by (simp add: specBind_def unanimous_def contested_def)
  have "let (d', r) = durableBind exDurableMac (\<lambda>_. 0) exBoltEnv [exDurableToken] exDurableOwner False exDurable
      in (authority exDurableMac d', r) = (grant (authority exDurableMac exDurable) [k] e, durableKnown e)"
    using durable_store_refines_verdicts[OF ex_mac_ok ex_wf state ex_owner _ _ keys, of "\<lambda>_. 0", THEN conjunct1]
    unfolding e_def[symmetric] spec by simp
  then show ?thesis
    unfolding k_def[symmetric] e_def[symmetric] by (auto simp: grant_def)
qed

text \<open>C28. From any state of a correctly opened store, through any sequence of bindings, lookups and a
  close, with any storage failures, the well-formedness holds: every record decodes, and the
  sequence number is the number of records and within the capacity.\<close>

theorem durable_store_always_wf:
  assumes "mac_ok mac" "durable_init mac d0" "(durable_step mac)\<^sup>*\<^sup>* d0 d"
  shows "durable_wf mac d \<and> unat (dsSequence d) = length (dsRecords d) \<and>
    int (length (dsRecords d)) \<le> dsMaxEntries d"
proof -
  have "durable_wf mac d"
    using durable_machine.reachable_inv[OF _ assms(3)] assms(1,2) by blast
  moreover from this have "length (dsRecords d) < 2 ^ 64" by (simp add: durable_wf_def)
  then have "unat (word_of_nat (length (dsRecords d)) :: 64 word) = length (dsRecords d)"
    by (simp add: unsigned_of_nat take_bit_nat_eq_self)
  ultimately show ?thesis by (simp add: durable_wf_def)
qed

lemma ex_bind_step:
  "durable_step exDurableMac exDurable
     (fst (durableBind exDurableMac (\<lambda>_. 0) exBoltEnv [exDurableToken] exDurableOwner False exDurable))"
  by (rule step_durable_bind[OF prod.collapse[symmetric] ex_owner(3)]) simp

lemma ex_bind_run:
  "(durable_step exDurableMac)\<^sup>*\<^sup>* exDurable
     (fst (durableBind exDurableMac (\<lambda>_. 0) exBoltEnv [exDurableToken] exDurableOwner False exDurable))"
  using ex_bind_step by (rule r_into_rtranclp[of "durable_step exDurableMac"])

theorem durable_store_always_wf_witness:
  "durable_wf exDurableMac
     (fst (durableBind exDurableMac (\<lambda>_. 0) exBoltEnv [exDurableToken] exDurableOwner False exDurable))"
  using durable_store_always_wf[OF ex_mac_ok ex_init ex_bind_run] by blast

text \<open>C6. Authority never moves: in any continuation of a run, a tombstone stays a tombstone, a key
  owned by one provider identity stays with it or becomes a tombstone, and a store that has
  failed stays failed with its records as they are.\<close>

theorem durable_authority_never_moves:
  assumes "mac_ok mac" "durable_init mac d0" "(durable_step mac)\<^sup>*\<^sup>* d0 d1" "(durable_step mac)\<^sup>*\<^sup>* d1 d2"
  shows "authority mac d2 k \<in> laterVerdicts (authority mac d1 k) \<and> durableFrame d1 d2"
proof -
  have "durable_wf mac d1" using durable_machine.reachable_inv[OF _ assms(3)] assms(1,2) by blast
  then show ?thesis using durable_run[OF assms(4,1)] by blast
qed

theorem durable_authority_never_moves_witness:
  "durableFrame exDurable
     (fst (durableBind exDurableMac (\<lambda>_. 0) exBoltEnv [exDurableToken] exDurableOwner False exDurable))"
  using durable_authority_never_moves[OF ex_mac_ok ex_init rtranclp.rtrancl_refl ex_bind_run]
  by blast

text \<open>The answer \<open>known\<close> of a binding means that the proof is committed, whatever the storage did.\<close>

lemma known_is_recorded:
  assumes "mac_ok mac" "durable_wf mac d" "owner32 o'" "length tokens < 2 ^ 63"
    "durableBind mac now env tokens o' False d = (d', r)" "outcome r = stateBindingLookupKnown"
  shows "r = durableKnown (encodeOwner mac (dsKey d) o') \<and> dsFailed d' = None \<and> dsOpen d' \<and>
    tokens \<noteq> [] \<and> owner_valid o' \<and>
    (\<exists>keys. tokenKeys mac (dsKey d) tokens = Inr keys \<and>
       (\<forall>k \<in> set keys. authority mac d' k = Some (OwnedBy (encodeOwner mac (dsKey d) o'))))"
proof -
  define owner where "owner = encodeOwner mac (dsKey d) o'"
  have pre: "owner_valid o'" "ownerIdentity o' \<noteq> zeroBytes32" "tokens \<noteq> []"
    using assms(5,6) by (auto simp: durableBind_def split: if_splits)
  obtain keys where tk: "tokenKeys mac (dsKey d) tokens = Inr keys"
    using assms(5,6) pre by (auto simp: durableBind_def split: sum.splits)
  have st: "dsFailed d = None" "dsOpen d"
    using assms(5,6) pre tk by (auto simp: durableBind_def split: option.splits if_splits)
  note k = tokenKeys_spec[OF assms(1) tk]
  have ok: "bucket_ok mac (dsKey d) (dsRecords d)" using assms(2) by (simp add: durable_wf_def)
  have len: "length keys < 2 ^ 63" using tokenKeys_length[OF assms(1) tk] assms(4) by simp
  have vo: "verdict_ok owner stateBindingLookupKnown"
    unfolding owner_def by (rule bind_owner_ok[OF assms(1) pre(1,2) assms(3)])
  have keys: "\<forall>k \<in> set keys. key_ok k" using k(3) by blast
  note un = unchanged_spec[OF ok, folded authority_def, of owner keys "durableKnown owner"]
  note up = bindUpdate_spec[OF assms(2) len, of now owner "durableKnown owner"]
  have own: "authority mac (d\<lparr>dsRecords := fold (putOwner mac (dsKey d) now owner) keys (dsRecords d),
      dsSequence := dsSequence d + word_of_nat (newKeys (authority mac d) keys)\<rparr>) = grant (authority mac d) keys owner"
    if "\<not> contested (authority mac d) keys owner" "fits mac d keys"
    by (rule owners_wf(2)[OF assms(1,2) keys k(1) vo that(1) that(2)[unfolded fits_def]])
  have "r = durableKnown owner \<and> dsFailed d' = None \<and> dsOpen d' \<and>
      (\<forall>k \<in> set keys. authority mac d' k = Some (OwnedBy owner))"
  proof (cases "beView env \<and> unanimous (authority mac d) keys owner")
    case True
    then show ?thesis using assms(5) pre tk st un
      unfolding durableBind_def owner_def[symmetric] by (auto simp: unanimous_def)
  next
    case False
    then have "beView env" "\<not> contested (authority mac d) keys owner" "fits mac d keys"
      "beUpdate env" "beCommit env" "beBeforeCommit env" "beAfterCommit env"
      using assms(5,6) pre tk st un up unfolding durableBind_def owner_def[symmetric]
      by (auto simp: Let_def split: if_splits)
    then show ?thesis using assms(5) False pre tk st un up own
      unfolding durableBind_def owner_def[symmetric] by (auto simp: grant_def)
  qed
  then show ?thesis using pre tk by (auto simp: owner_def)
qed

text \<open>When a binding answers known, whatever failed underneath and from any well-formed state, its
  proof is in the store: resolving the same tokens for the same route, with or without a pin on
  the owner's target, answers that owner, and among the targets of the route the owner's is
  found (unless an earlier one has the same keyed label).\<close>

theorem durable_bind_then_resolve:
  assumes "mac_ok mac" "durable_wf mac d" "owner32 o'" "length tokens < 2 ^ 63"
    "durableBind mac now env tokens o' False d = (d', r)" "outcome r = stateBindingLookupKnown"
    "beView env'" "pin = '''' \<or> pin = targetID o'"
    "\<forall>t \<in> set before. digest mac (dsKey d) ''target'' [t] \<noteq> digest mac (dsKey d) ''target'' [targetID o']"
  shows "durableResolveForRoute mac env' (routeID o') pin tokens d' = (d', r) \<and>
    durableOwnerTarget mac d' (resultOwner r) (before @ targetID o' # after) = targetID o'"
proof -
  define owner where "owner = encodeOwner mac (dsKey d) o'"
  from known_is_recorded[OF assms(1-6), folded owner_def] obtain keys where
    r: "r = durableKnown owner" "dsFailed d' = None" "dsOpen d'" "tokens \<noteq> []" "owner_valid o'" and
    tk: "tokenKeys mac (dsKey d) tokens = Inr keys" and all: "\<forall>k \<in> set keys. authority mac d' k = Some (OwnedBy owner)"
    by blast
  from bind_moves[OF assms(1-5)] have wf': "durable_wf mac d'" and key: "dsKey d' = dsKey d"
    by (auto simp: durableFrame_def)
  have ne: "keys \<noteq> []" using tokenKeys_spec(2)[OF assms(1) tk] r(4) by auto
  have enc: "routeKey owner = digest mac (dsKey d) ''route'' [routeID o']"
      "targetKey owner = digest mac (dsKey d) ''target'' [targetID o']"
    using r(5) by (simp_all add: owner_def encodeOwner_def Let_def owner_valid_def)
  have owners: "ownersOf (authority mac d') keys = {owner}"
    using all hd_in_set[OF ne] by (auto simp: ownersOf_def simp del: hd_in_set)
  have "\<not> disputed (authority mac d') keys (labelKey mac (dsKey d) ''route'' (routeID o'))
      (labelKey mac (dsKey d) ''target'' pin) {}"
    using all owners enc assms(8) by (auto simp: disputed_def labelMismatch_def labelKey_def)
  then have "specResolve (authority mac d') keys (labelKey mac (dsKey d) ''route'' (routeID o'))
      (labelKey mac (dsKey d) ''target'' pin) = durableKnown owner"
    using all owners ne by (simp add: specResolve_def)
  then have "durableResolveWithRoute mac env' tokens (routeID o') pin d' = (d', durableKnown owner)"
    using resolve_spec[OF wf' _ r(3,2) assms(7), of tokens keys "routeID o'" pin] tk key by simp
  then have res: "durableResolveForRoute mac env' (routeID o') pin tokens d' = (d', r)"
    using r(1,5) enc(1) key
    by (simp add: durableResolveForRoute_def durableOwnerMatchesRoute_def owner_valid_def)
  have "durableOwnerTarget mac d' owner (before @ targetID o' # after) = targetID o'"
    using assms(9) by (induction before) (auto simp: enc(2) key)
  then show ?thesis using res r(1) by simp
qed

theorem durable_bind_then_resolve_witness:
  "\<exists>d' r. durableBind exDurableMac (\<lambda>_. 0) exBoltEnv [exDurableToken] exDurableOwner False exDurable = (d', r) \<and>
     durableResolveForRoute exDurableMac exBoltEnv ''r'' ''t'' [exDurableToken] d' = (d', r) \<and>
     durableOwnerTarget exDurableMac d' (resultOwner r) [''t'', ''u''] = ''t''"
proof -
  obtain d' r where b: "durableBind exDurableMac (\<lambda>_. 0) exBoltEnv [exDurableToken] exDurableOwner False exDurable = (d', r)"
    by fastforce
  define k where "k = durableTokenKey exDurableMac (dsKey exDurable) exDurableToken"
  have "outcome r = stateBindingLookupKnown"
    using b ex_owner ex_keys[of "dsKey exDurable"]
    unfolding durableBind_def
    by (auto simp: exDurable_def exBoltEnv_def bindUpdate_def Let_def)
  from durable_bind_then_resolve[OF ex_mac_ok ex_wf ex_owner(3) _ b this, of exBoltEnv "''t''" "[]" "[''u'']"] b
  show ?thesis by (simp add: exBoltEnv_def exDurableOwner_def)
qed

text \<open>A record is read back as it was written: for a well-typed token key, the owner (under its keyed
  labels), the outcome and the time in whole seconds.\<close>

theorem durable_record_roundtrip:
  assumes "mac_ok mac" "durableStateTypeByte (stateType t) \<noteq> 0" "owner_valid o'"
    "ownerIdentity o' \<noteq> zeroBytes32" "owner32 o'" "- (2 ^ 63) \<le> at div 1000000000" "at div 1000000000 < 2 ^ 63"
  shows "decodeRecord mac key (durableTokenKey mac key t)
      (encodeRecord mac key (durableTokenKey mac key t) o' stateBindingLookupKnown at) =
      Inr (durableKnown (encodeOwner mac key o'), at div 1000000000 * 1000000000) \<and>
    decodeRecord mac key (durableTokenKey mac key t)
      (encodeRecord mac key (durableTokenKey mac key t) zeroOwner stateBindingLookupConflict at) =
      Inr (durableConflict, at div 1000000000 * 1000000000)"
proof -
  have "durableStateTypeByte (stateType t) \<le> 4" by (simp add: durableStateTypeByte_def)
  then have k: "key_ok (durableTokenKey mac key t)"
    using assms(2) mac_okD(1)[OF assms(1)] by (auto simp: key_ok_def durableTokenKey_def)
  have "sint (word_of_int (at div 1000000000) :: 64 word) = at div 1000000000"
    using assms(6,7) by (simp add: signed_of_int signed_take_bit_int_eq_self)
  then have at: "unixTime (unixSeconds at) = at div 1000000000 * 1000000000"
    by (simp add: unixTime_def unixSeconds_def)
  have "verdict_ok (encodeOwner mac key zeroOwner) stateBindingLookupConflict"
    by (simp add: verdict_ok_def)
  from decode_encode[OF assms(1) k this, where at = at]
    decode_encode[OF assms(1) k bind_owner_ok[OF assms(1,3,4,5)], where at = at] at
  show ?thesis by (simp add: durableKnown_def durableConflict_def)
qed

theorem durable_record_roundtrip_witness:
  "decodeRecord exDurableMac ''key'' (durableTokenKey exDurableMac ''key'' exDurableToken)
     (encodeRecord exDurableMac ''key'' (durableTokenKey exDurableMac ''key'' exDurableToken) exDurableOwner
        stateBindingLookupKnown 1700000000999999999) =
     Inr (durableKnown (encodeOwner exDurableMac ''key'' exDurableOwner), 1700000000000000000)"
  using durable_record_roundtrip[OF ex_mac_ok _ ex_owner, of exDurableToken 1700000000999999999 "''key''"]
  by (simp add: exDurableToken_def durableStateTypeByte_def)

end
