(* ===== verification/State_Token_Properties.thy ===== *)
theory State_Token_Properties
  imports State_Tokens Durable_Properties
begin

text \<open>
  What the extraction of provider state promises: a request's tokens are exactly the state it
  declares, a durable response exposes nothing whose token is not bound first, whatever the
  spelling of its fields, and a request with state is pinned to the target that owns it.
\<close>

section \<open>Trimming\<close>

lemma trimWith_done: "trimWith f s = [] \<or> f (trimWith f s) = 0"
  by (induction f s rule: trimWith.induct) (metis trimWith.simps)

lemma trimWith_id: "f s = 0 \<Longrightarrow> trimWith f s = s"
  by (simp add: trimWith.simps)

lemma trimWith_suffix: "\<exists>p. s = p @ trimWith f s"
proof (induction f s rule: trimWith.induct)
  case (1 f s)
  show ?case
  proof (cases "s = [] \<or> f s = 0")
    case False
    with 1 obtain p where "drop (f s) s = p @ trimWith f (drop (f s) s)" by auto
    then have "s = (take (f s) s @ p) @ trimWith f s"
      using False by (metis append.assoc append_take_drop_id trimWith.simps)
    then show ?thesis by blast
  qed (auto simp: trimWith.simps)
qed

lemma leadingSpace_prefix: "0 < leadingSpace x \<Longrightarrow> leadingSpace (x @ y) = leadingSpace x"
  by (induction x rule: leadingSpace.induct) (auto split: list.splits if_splits)

lemma trimSpace_idem [simp]: "trimSpace (trimSpace s) = trimSpace s"
proof -
  define y where "y = trimWith leadingSpace s"
  define x where "x = trimSpace s"
  obtain p where "rev y = p @ trimWith trailingSpaceRev (rev y)" using trimWith_suffix by blast
  then have pre: "y = x @ rev p" by (metis rev_append rev_rev_ident x_def y_def trimSpace_def)
  have "y = [] \<or> leadingSpace y = 0" unfolding y_def by (rule trimWith_done)
  then have "x = [] \<or> leadingSpace x = 0"
    using leadingSpace_prefix[of x "rev p"] pre by (cases "leadingSpace x = 0") auto
  then have lead: "trimWith leadingSpace x = x" by (auto intro: trimWith_id)
  have "rev x = [] \<or> trailingSpaceRev (rev x) = 0"
    using trimWith_done[of trailingSpaceRev "rev y"] by (simp add: x_def y_def trimSpace_def)
  then have "trimWith trailingSpaceRev (rev x) = rev x" by (auto intro: trimWith_id)
  then show ?thesis unfolding x_def[symmetric] by (simp add: trimSpace_def[of x] lead)
qed

section \<open>Token lists\<close>

definition plainType :: "stateBindingToken \<Rightarrow> bool" where
  "plainType t \<longleftrightarrow> CHR 0x00 \<notin> set (stateType t)"

lemma tokenKey_inj:
  assumes "CHR 0x00 \<notin> set a" "CHR 0x00 \<notin> set b" "tokenKey a v = tokenKey b w"
  shows "a = b \<and> v = w"
  using assms
proof (induction a arbitrary: b)
  case Nil
  then show ?case by (cases b) (auto simp: tokenKey_def)
next
  case (Cons x a)
  then show ?case by (cases b) (auto simp: tokenKey_def)
qed

definition tokens_ok :: "stateBindingToken list \<Rightarrow> bool" where
  "tokens_ok ts \<longleftrightarrow> distinct ts \<and> (\<forall>t \<in> set ts. plainType t \<and> tokValue t \<noteq> '''' \<and> trimSpace (tokValue t) = tokValue t)"

definition stateTokens :: "string \<Rightarrow> string \<Rightarrow> stateBindingToken set" where
  "stateTokens ty v = (if v = '''' then {} else {\<lparr>stateType = ty, tokValue = v\<rparr>})"

lemma insertToken_set:
  assumes "tokens_ok ts" "CHR 0x00 \<notin> set ty" "trimSpace v = v"
  shows "set (insertToken ty v ts) = set ts \<union> stateTokens ty v" "tokens_ok (insertToken ty v ts)"
proof -
  have key: "tokenKey ty v \<in> set (map (\<lambda>t. tokenKey (stateType t) (tokValue t)) ts) \<longleftrightarrow> \<lparr>stateType = ty, tokValue = v\<rparr> \<in> set ts"
  proof
    assume "tokenKey ty v \<in> set (map (\<lambda>t. tokenKey (stateType t) (tokValue t)) ts)"
    then obtain t where "t \<in> set ts" "tokenKey (stateType t) (tokValue t) = tokenKey ty v" by auto
    moreover from this(1) have "CHR 0x00 \<notin> set (stateType t)"
      using assms(1) by (simp add: tokens_ok_def plainType_def)
    ultimately have "t \<in> set ts" "t = \<lparr>stateType = ty, tokValue = v\<rparr>"
      using tokenKey_inj[OF _ assms(2)] by simp_all
    then show "\<lparr>stateType = ty, tokValue = v\<rparr> \<in> set ts" by simp
  qed force
  show "set (insertToken ty v ts) = set ts \<union> stateTokens ty v"
    unfolding insertToken_def key by (auto simp: stateTokens_def)
  show "tokens_ok (insertToken ty v ts)"
    using assms unfolding insertToken_def key by (auto simp: tokens_ok_def plainType_def)
qed

lemma plain_types [simp]:
  "CHR 0x00 \<notin> set stateBindingTypeResponseID" "CHR 0x00 \<notin> set stateBindingTypeConversationID"
  "CHR 0x00 \<notin> set stateBindingTypeEncryptedContent" "CHR 0x00 \<notin> set stateBindingTypeTurnState"
  by (simp_all add: stateBindingTypeResponseID_def stateBindingTypeConversationID_def
      stateBindingTypeEncryptedContent_def stateBindingTypeTurnState_def)

lemmas addToken_set = insertToken_set[OF _ _ trimSpace_idem, folded addToken_def]

lemma tokens_ok_Nil [simp]: "tokens_ok []"
  by (simp add: tokens_ok_def)

lemma whenOk_Inr: "whenOk x f = Inr y \<longleftrightarrow> (\<exists>v. x = Inr v \<and> f v = Inr y)"
  by (cases x) auto

section \<open>Requests\<close>

text \<open>The state an item declares; proxy-owned checkpoints are not provider state.\<close>

definition itemDeclares :: "stateJson \<Rightarrow> jval \<Rightarrow> stateBindingToken set" where
  "itemDeclares api value = {t. \<exists>item v. value = JObject item \<and> explicitResponsesItemOwnsEncryptedContent item \<and>
     gm_get item ''encrypted_content'' = Some (JString v) \<and> \<not> isProxyOwnedEncryptedContent api v \<and>
     t = \<lparr>stateType = stateBindingTypeEncryptedContent, tokValue = trimSpace v\<rparr>}"

lemma visitRequestItems_set:
  assumes "visitRequestItems api items ts = Inr ts'" "tokens_ok ts"
  shows "tokens_ok ts' \<and> set ts' = set ts \<union> (\<Union>x \<in> set items. itemDeclares api x)"
  using assms
proof (induction api items ts arbitrary: ts' rule: visitRequestItems.induct)
  case (2 api item items ts)
  obtain found where f: "visitExplicitResponsesItem item True = Inr found"
      "visitRequestItems api items (case found of None \<Rightarrow> ts
        | Some v \<Rightarrow> if isProxyOwnedEncryptedContent api v then ts
                   else addToken stateBindingTypeEncryptedContent v ts) = Inr ts'"
    using 2(2) by (auto simp: whenOk_Inr)
  define ts1 where "ts1 = (case found of None \<Rightarrow> ts
        | Some v \<Rightarrow> if isProxyOwnedEncryptedContent api v then ts
                   else addToken stateBindingTypeEncryptedContent v ts)"
  have one: "tokens_ok ts1 \<and> set ts1 = set ts \<union> itemDeclares api item"
  proof (cases found)
    case None
    then have "itemDeclares api item = {}"
      using f(1) by (auto simp: visitExplicitResponsesItem_def itemDeclares_def split: if_splits)
    then show ?thesis using 2(3) None by (simp add: ts1_def)
  next
    case (Some v)
    then have v: "itemDeclares api item = (if isProxyOwnedEncryptedContent api v then {}
          else {\<lparr>stateType = stateBindingTypeEncryptedContent, tokValue = trimSpace v\<rparr>})" "trimSpace v \<noteq> ''''"
      using f(1) by (auto simp: visitExplicitResponsesItem_def itemDeclares_def split: jval.splits option.splits if_splits)
    then show ?thesis using Some addToken_set[OF 2(3), of stateBindingTypeEncryptedContent v] 2(3)
      by (simp add: ts1_def stateTokens_def)
  qed
  have "tokens_ok ts' \<and> set ts' = set ts1 \<union> (\<Union>x \<in> set items. itemDeclares api x)"
    using 2(1)[OF f(2)] one unfolding ts1_def by blast
  then show ?case using one by auto
qed auto

lemma turnStateOf_spec:
  assumes "turnStateOf cur vs = Some v" "trimSpace cur = cur"
  shows "trimSpace v = v \<and> {v} - {''''} = ({cur} \<union> trimSpace ` set vs) - {''''}"
  using assms
proof (induction cur vs rule: turnStateOf.induct)
  case (2 cur x vs)
  show ?case
  proof (cases "trimSpace x = ''''")
    case True
    then show ?thesis using 2(1)[OF refl True] 2(3,4) by (simp add: Let_def)
  next
    case False
    then have ne: "\<not> (cur \<noteq> '''' \<and> cur \<noteq> trimSpace x)" "turnStateOf (trimSpace x) vs = Some v"
      using 2(3) by (auto simp: Let_def split: if_splits)
    have "trimSpace v = v \<and> {v} - {''''} = ({trimSpace x} \<union> trimSpace ` set vs) - {''''}"
      using 2(2)[OF refl False ne(1) ne(2)] by simp
    then show ?thesis using ne(1) by auto
  qed
qed auto

text \<open>The state that a request's object and headers declare.\<close>

definition requestDeclares :: "stateJson \<Rightarrow> jmembers \<Rightarrow> string list \<Rightarrow> stateBindingToken set" where
  "requestDeclares api object turnStates =
     {\<lparr>stateType = stateBindingTypeResponseID, tokValue = trimSpace v\<rparr> | v.
        gm_get object ''previous_response_id'' = Some (JString v)} \<union>
     {\<lparr>stateType = stateBindingTypeConversationID, tokValue = c\<rparr> | c.
        explicitResponsesRequestConversationID (gm_get object ''conversation'') = Inr (Some c)} \<union>
     (\<Union>x \<in> {x. \<exists>items. gm_get object ''input'' = Some (JArray items) \<and> x \<in> set items}. itemDeclares api x) \<union>
     {\<lparr>stateType = stateBindingTypeTurnState, tokValue = trimSpace v\<rparr> | v. v \<in> set turnStates \<and> trimSpace v \<noteq> ''''}"

lemma conversation_trimmed:
  "explicitResponsesRequestConversationID x = Inr (Some c) \<Longrightarrow> trimSpace c = c \<and> c \<noteq> ''''"
  by (auto simp: explicitResponsesRequestConversationID_def Let_def split: option.splits jval.splits if_splits)

lemma requestObjectState_set:
  assumes "requestObjectState api durable object = Inr ts"
  shows "tokens_ok ts \<and> set ts = requestDeclares api object []"
proof -
  obtain p c where p: "requestPreviousResponseID object = Inr p"
      and c: "explicitResponsesRequestConversationID (gm_get object ''conversation'') = Inr c"
    using assms by (auto simp: requestObjectState_def whenOk_Inr split: option.splits)
  have ali: "(if durable then durableRequestAliases object else None) = None"
    using assms by (cases "if durable then durableRequestAliases object else None") (simp_all add: requestObjectState_def)
  define t1 where "t1 = (case p of Some v \<Rightarrow> addToken stateBindingTypeResponseID v [] | None \<Rightarrow> [])"
  define t2 where "t2 = (case c of Some v \<Rightarrow> addToken stateBindingTypeConversationID v t1 | None \<Rightarrow> t1)"
  have rest: "(case gm_get object ''input'' of Some (JArray items) \<Rightarrow> visitRequestItems api items t2 | _ \<Rightarrow> Inr t2) = Inr ts"
    using assms unfolding requestObjectState_def ali option.case(1) p c whenOk.simps Let_def
      t1_def[symmetric] t2_def[symmetric] by (simp only: split: if_split_asm) simp_all
  have one: "tokens_ok t1 \<and> set t1 = {\<lparr>stateType = stateBindingTypeResponseID, tokValue = trimSpace v\<rparr> | v.
        gm_get object ''previous_response_id'' = Some (JString v)}"
  proof (cases p)
    case None
    then show ?thesis using p
      by (auto simp: t1_def requestPreviousResponseID_def split: option.splits jval.splits if_splits)
  next
    case (Some v)
    then have "gm_get object ''previous_response_id'' = Some (JString v)" "trimSpace v \<noteq> ''''"
      using p by (auto simp: requestPreviousResponseID_def split: option.splits jval.splits if_splits)
    then show ?thesis using Some addToken_set[of "[]" stateBindingTypeResponseID v]
      by (auto simp: t1_def stateTokens_def)
  qed
  have two: "tokens_ok t2 \<and> set t2 = set t1 \<union> {\<lparr>stateType = stateBindingTypeConversationID, tokValue = x\<rparr> | x. c = Some x}"
  proof (cases c)
    case (Some v)
    then have v: "trimSpace v = v" "v \<noteq> ''''" using conversation_trimmed c by auto
    have "tokens_ok t1" using one by blast
    then show ?thesis using Some v addToken_set[of t1 stateBindingTypeConversationID v]
      by (auto simp: t2_def stateTokens_def)
  qed (use one in \<open>simp add: t2_def\<close>)
  have "tokens_ok ts \<and> set ts = set t2 \<union>
      (\<Union>x \<in> {x. \<exists>items. gm_get object ''input'' = Some (JArray items) \<and> x \<in> set items}. itemDeclares api x)"
  proof (cases "\<exists>items. gm_get object ''input'' = Some (JArray items)")
    case True
    then obtain items where i: "gm_get object ''input'' = Some (JArray items)" by blast
    with rest have "visitRequestItems api items t2 = Inr ts" by simp
    from visitRequestItems_set[OF this] two i show ?thesis by auto
  next
    case False
    then have "ts = t2" using rest by (auto split: option.splits jval.splits)
    then show ?thesis using two False by auto
  qed
  then show ?thesis
    unfolding requestDeclares_def using one two c by simp
qed

text \<open>C12. The tokens of an accepted request are exactly the provider state it declares: the previous
  response, the conversation, the encrypted content of its reasoning and compaction items that
  the proxy did not issue itself, and the turn state of its headers; trimmed, non-empty, and
  each once. Nothing else in the body can pin a provider.\<close>

theorem request_state_is_exact:
  assumes "extractResponsesRequestState api body turnStates durable = Inr tokens" "sjDecode api body = Some (JObject object)"
  shows "set tokens = requestDeclares api object turnStates \<and> distinct tokens \<and>
    (\<forall>t \<in> set tokens. tokValue t \<noteq> '''' \<and> trimSpace (tokValue t) = tokValue t)"
proof -
  obtain ts v where ts: "requestObjectState api durable object = Inr ts" and v: "turnStateOf '''' turnStates = Some v"
      and tokens: "tokens = (if v \<noteq> '''' then addToken stateBindingTypeTurnState v ts else ts)"
    using assms by (auto simp: extractResponsesRequestState_def whenOk_Inr split: if_splits option.splits)
  from requestObjectState_set[OF ts] have ok: "tokens_ok ts" and set: "set ts = requestDeclares api object []" by auto
  have vs: "trimSpace v = v" "{v} - {''''} = trimSpace ` set turnStates - {''''}"
    using turnStateOf_spec[OF v] by auto
  have "set tokens = set ts \<union> stateTokens stateBindingTypeTurnState v \<and> tokens_ok tokens"
    using tokens addToken_set[OF ok, of stateBindingTypeTurnState v] ok vs by (simp add: stateTokens_def)
  moreover have "stateTokens stateBindingTypeTurnState v =
      (\<lambda>x. \<lparr>stateType = stateBindingTypeTurnState, tokValue = x\<rparr>) ` (trimSpace ` set turnStates - {''''})"
    unfolding vs(2)[symmetric] by (auto simp: stateTokens_def)
  moreover have "requestDeclares api object turnStates = requestDeclares api object [] \<union>
      (\<lambda>x. \<lparr>stateType = stateBindingTypeTurnState, tokValue = x\<rparr>) ` (trimSpace ` set turnStates - {''''})"
    unfolding requestDeclares_def by auto
  ultimately show ?thesis using set by (simp add: tokens_ok_def)
qed

section \<open>Responses\<close>

text \<open>Decoded values have one member for every name.\<close>

fun oneForEveryName :: "jval \<Rightarrow> bool" where
  "oneForEveryName (JObject ms) = (distinct (map fst ms) \<and> list_all (\<lambda>(_, v). oneForEveryName v) ms)"
| "oneForEveryName (JArray vs) = list_all oneForEveryName vs"
| "oneForEveryName _ = True"

text \<open>A member under any folded spelling of its name.\<close>

definition foldMember :: "jmembers \<Rightarrow> string \<Rightarrow> jval \<Rightarrow> bool" where
  "foldMember object field v \<longleftrightarrow> (\<exists>name. (name, v) \<in> set object \<and> equalFold name field)"

definition canonical :: "jmembers \<Rightarrow> string \<Rightarrow> bool" where
  "canonical object field \<longleftrightarrow> (\<forall>name \<in> fst ` set object. equalFold name field \<longrightarrow> name = field)"

lemma canonical_get:
  assumes "canonical object field" "distinct (map fst object)" "equalFold field field"
  shows "gm_get object field = Some v \<longleftrightarrow> foldMember object field v"
  using assms by (force simp: canonical_def foldMember_def)

definition renameMember :: "jmembers \<Rightarrow> string \<Rightarrow> string \<Rightarrow> jmembers" where
  "renameMember object matched field = gm_del matched (gm_put field (the (gm_get object matched)) object)"

lemma renameMember_set:
  assumes "distinct (map fst object)" "gm_get object matched = Some x" "matched \<noteq> field" "field \<notin> fst ` set object"
  shows "set (renameMember object matched field) = insert (field, x) (set object - {(matched, x)})"
    "distinct (map fst (renameMember object matched field))"
proof -
  have put: "gm_put field x object = object @ [(field, x)]"
    using assms(4) by (induction object) auto
  have only: "(matched, y) \<in> set object \<Longrightarrow> y = x" for y
    using assms(1,2) by auto
  show "set (renameMember object matched field) = insert (field, x) (set object - {(matched, x)})"
    using assms(2,3) only by (auto simp: renameMember_def put AList.delete_eq)
  show "distinct (map fst (renameMember object matched field))"
    unfolding renameMember_def using assms(1) by (simp add: AList.distinct_update AList.distinct_delete)
qed

lemma normalize_one:
  assumes "normalizeResponsesStateObjectFields object (field # names) = Inr r" "distinct (map fst object)" "asciiFold field = field"
  obtains object1 where "normalizeResponsesStateObjectFields object1 names = Inr r" "distinct (map fst object1)"
    "canonical object1 field" "\<And>g v. foldMember object1 g v \<longleftrightarrow> foldMember object g v"
    "\<And>g. asciiFold g = g \<Longrightarrow> canonical object g \<Longrightarrow> canonical object1 g" "snd ` set object1 \<subseteq> snd ` set object"
proof -
  define ns where "ns = filter (\<lambda>name. equalFold name field) (map fst object)"
  consider "ns = []" | m where "ns = [m]" using assms(1) by (auto simp: ns_def[symmetric] split: list.splits)
  then show thesis
  proof cases
    case 1
    then have "canonical object field" by (auto simp: ns_def filter_empty_conv canonical_def)
    moreover have "normalizeResponsesStateObjectFields object names = Inr r"
      using assms(1) 1 by (simp add: ns_def)
    ultimately show thesis using that[of object] assms(2) by blast
  next
    case 2
    have mem: "name \<in> fst ` set object \<and> equalFold name field \<longleftrightarrow> name = m" for name
    proof -
      have "set ns = {m}" using 2 by simp
      then show ?thesis by (auto simp: ns_def)
    qed
    show thesis
    proof (cases "m = field")
      case True
      then have "canonical object field" using mem by (auto simp: canonical_def)
      moreover have "normalizeResponsesStateObjectFields object names = Inr r"
        using assms(1) 2 True by (simp add: ns_def)
      ultimately show thesis using that[of object] assms(2) by blast
    next
      case False
      have fresh: "field \<notin> fst ` set object"
        using mem[of field] False assms(3) by (auto simp: equalFold_def)
      obtain x where x: "gm_get object m = Some x"
        using mem[of m] by (metis map_of_eq_None_iff not_None_eq)
      note ren = renameMember_set[OF assms(2) x False fresh]
      have norm: "normalizeResponsesStateObjectFields (renameMember object m field) names = Inr r"
        using assms(1) 2 False by (simp add: ns_def renameMember_def)
      have inset: "(m, x) \<in> set object" using x by (rule map_of_SomeD)
      have eqf: "asciiFold m = field" using mem[of m] by (simp add: equalFold_def)
      have can: "canonical (renameMember object m field) field"
        unfolding canonical_def
      proof (intro ballI impI, rule ccontr)
        fix n assume n: "n \<in> fst ` set (renameMember object m field)" "equalFold n field" "n \<noteq> field"
        from n(1) obtain y where "(n, y) \<in> set (renameMember object m field)" by auto
        with n(3) have y: "(n, y) \<in> set object" "(n, y) \<noteq> (m, x)" unfolding ren(1) by auto
        then have "n = m" using mem[of n] n(2) by force
        moreover from this have "y = x" using y(1) inset assms(2) by (meson eq_key_imp_eq_value)
        ultimately show False using y(2) by simp
      qed
      have fm: "foldMember (renameMember object m field) g v \<longleftrightarrow> foldMember object g v" for g v
      proof -
        have "equalFold m g = equalFold field g" using eqf assms(3) by (simp add: equalFold_def)
        then show ?thesis using inset unfolding foldMember_def ren(1) by auto
      qed
      have oth: "canonical (renameMember object m field) g" if "asciiFold g = g" "canonical object g" for g
        using that assms(3) unfolding canonical_def ren(1) by (auto simp: equalFold_def rev_image_eqI)
      have vals: "snd ` set (renameMember object m field) \<subseteq> snd ` set object"
        unfolding ren(1) using inset by force
      show thesis by (rule that[OF norm ren(2) can fm oth vals])
    qed
  qed
qed

lemma normalize_all:
  assumes "normalizeResponsesStateObjectFields object names = Inr r" "distinct (map fst object)"
    "\<forall>f \<in> set names. asciiFold f = f"
  shows "distinct (map fst r) \<and> (\<forall>f \<in> set names. canonical r f) \<and> (\<forall>g v. foldMember r g v \<longleftrightarrow> foldMember object g v) \<and>
    (\<forall>g. asciiFold g = g \<longrightarrow> canonical object g \<longrightarrow> canonical r g) \<and> snd ` set r \<subseteq> snd ` set object"
  using assms
proof (induction names arbitrary: object)
  case (Cons f names)
  have "asciiFold f = f" using Cons.prems(3) by simp
  from normalize_one[OF Cons.prems(1,2) this] obtain object1 where o1:
    "normalizeResponsesStateObjectFields object1 names = Inr r" "distinct (map fst object1)"
    "canonical object1 f" "\<And>g v. foldMember object1 g v \<longleftrightarrow> foldMember object g v"
    "\<And>g. asciiFold g = g \<Longrightarrow> canonical object g \<Longrightarrow> canonical object1 g" "snd ` set object1 \<subseteq> snd ` set object"
    by blast
  from Cons.IH[OF o1(1,2)] Cons.prems(3) have ih:
    "distinct (map fst r)" "\<forall>f \<in> set names. canonical r f" "\<And>g v. foldMember r g v \<longleftrightarrow> foldMember object1 g v"
    "\<And>g. asciiFold g = g \<Longrightarrow> canonical object1 g \<Longrightarrow> canonical r g" "snd ` set r \<subseteq> snd ` set object1"
    by auto
  show ?case using ih o1 \<open>asciiFold f = f\<close> by auto
qed simp

lemma normalize_get:
  assumes "normalizeResponsesStateObjectFields object names = Inr r" "distinct (map fst object)"
    "\<forall>f \<in> set names. asciiFold f = f" "f \<in> set names"
  shows "gm_get r f = Some v \<longleftrightarrow> foldMember object f v"
  using normalize_all[OF assms(1-3)] assms(3,4) canonical_get[of r f v] by (auto simp: equalFold_def)

text \<open>What a value exposes, whatever the spelling of its fields.\<close>

definition stateItemTypes :: "string set" where
  "stateItemTypes = {''reasoning'', ''compaction'', ''context_compaction''}"

definition valueExposes :: "stateJson \<Rightarrow> jval \<Rightarrow> stateBindingToken set" where
  "valueExposes api x = {t. \<exists>item ty v. x = JObject item \<and> foldMember item ''type'' (JString ty) \<and>
     trimSpace ty \<in> stateItemTypes \<and> foldMember item ''encrypted_content'' (JString v) \<and>
     trimSpace v \<noteq> '''' \<and> \<not> isProxyOwnedEncryptedContent api (trimSpace v) \<and>
     t = \<lparr>stateType = stateBindingTypeEncryptedContent, tokValue = trimSpace v\<rparr>}"

definition responseExposes :: "stateJson \<Rightarrow> jmembers \<Rightarrow> stateBindingToken set" where
  "responseExposes api r =
     {\<lparr>stateType = stateBindingTypeResponseID, tokValue = trimSpace v\<rparr> | v.
        foldMember r ''id'' (JString v) \<and> trimSpace v \<noteq> ''''} \<union>
     {\<lparr>stateType = stateBindingTypeConversationID, tokValue = trimSpace v\<rparr> | c v.
        foldMember r ''conversation'' (JObject c) \<and> foldMember c ''id'' (JString v) \<and> trimSpace v \<noteq> ''''} \<union>
     (\<Union>x \<in> {x. \<exists>items. foldMember r ''output'' (JArray items) \<and> x \<in> set items}. valueExposes api x)"

text \<open>A root without a type is itself a response; an event carries one under \<open>response\<close>, or an item.\<close>

definition rootExposes :: "stateJson \<Rightarrow> jmembers \<Rightarrow> stateBindingToken set" where
  "rootExposes api root =
     (if \<exists>ty. foldMember root ''type'' (JString ty) \<and> trimSpace ty \<noteq> '''' then {} else responseExposes api root) \<union>
     (\<Union>r \<in> {r. foldMember root ''response'' (JObject r)}. responseExposes api r) \<union>
     (\<Union>x \<in> {x. foldMember root ''item'' x}. valueExposes api x)"

lemma fold_fields [simp]:
  "asciiFold ''type'' = ''type''" "asciiFold ''encrypted_content'' = ''encrypted_content''" "asciiFold ''id'' = ''id''"
  "asciiFold ''conversation'' = ''conversation''" "asciiFold ''output'' = ''output''"
  "asciiFold ''response'' = ''response''" "asciiFold ''item'' = ''item''"
  by code_simp+

declare asciiFold.simps [simp del]

lemma addOutputToken_set:
  assumes "tokens_ok ts" "CHR 0x00 \<notin> set ty"
  shows "tokens_ok (addOutputToken api ty v ts) \<and> set (addOutputToken api ty v ts) = set ts \<union>
    (if ty = stateBindingTypeEncryptedContent \<and> isProxyOwnedEncryptedContent api (trimSpace v) then {}
     else stateTokens ty (trimSpace v))"
  using insertToken_set[OF assms trimSpace_idem] assms(1) by (simp add: addOutputToken_def Let_def)

lemma visitOutputItem_set:
  assumes "visitOutputItem api True x ts = Inr ts'" "tokens_ok ts" "oneForEveryName x"
  shows "tokens_ok ts' \<and> set ts' = set ts \<union> valueExposes api x"
proof (cases "\<exists>item. x = JObject item")
  case False
  then have "ts' = ts" "valueExposes api x = {}"
    using assms(1) by (auto simp: visitOutputItem_def visitExplicitResponsesItem_def valueExposes_def split: jval.splits)
  then show ?thesis using assms(2) by simp
next
  case True
  then obtain item where x: "x = JObject item" by blast
  then have dist: "distinct (map fst item)" using assms(3) by simp
  obtain item1 item2 found where
    i1: "normalizeResponsesStateObjectFields item [''type''] = Inr item1" and
    i2: "(if explicitResponsesItemOwnsEncryptedContent item1
          then normalizeResponsesStateObjectFields item1 [''encrypted_content''] else Inr item1) = Inr item2" and
    f: "visitExplicitResponsesItem (JObject item2) False = Inr found" and
    ts': "ts' = (case found of None \<Rightarrow> ts | Some v \<Rightarrow> addOutputToken api stateBindingTypeEncryptedContent v ts)"
    using assms(1) x by (auto simp: visitOutputItem_def whenOk_Inr)
  note n1 = normalize_all[OF i1 dist, simplified]
  have ty: "gm_get item1 ''type'' = Some v \<longleftrightarrow> foldMember item ''type'' v" for v
    by (rule normalize_get[OF i1 dist]) simp_all
  have owns: "explicitResponsesItemOwnsEncryptedContent item1 \<longleftrightarrow>
      (\<exists>t. foldMember item ''type'' (JString t) \<and> trimSpace t \<in> stateItemTypes)"
    unfolding ty[symmetric]
    by (auto simp: explicitResponsesItemOwnsEncryptedContent_def stateItemTypes_def jstring_def split: option.splits jval.splits)
  show ?thesis
  proof (cases "explicitResponsesItemOwnsEncryptedContent item1")
    case False
    then have "item2 = item1" using i2 by simp
    then have "found = None" using f False by (simp add: visitExplicitResponsesItem_def)
    moreover have "valueExposes api x = {}" using False owns x by (auto simp: valueExposes_def)
    ultimately show ?thesis using ts' assms(2) by simp
  next
    case True
    then have i2': "normalizeResponsesStateObjectFields item1 [''encrypted_content''] = Inr item2" using i2 by simp
    note n2 = normalize_all[OF i2' _, simplified]
    have enc: "gm_get item2 ''encrypted_content'' = Some v \<longleftrightarrow> foldMember item ''encrypted_content'' v" for v
      using normalize_get[OF i2', of "''encrypted_content''" v] n1 by simp
    have ty2: "gm_get item2 ''type'' = Some v \<longleftrightarrow> gm_get item1 ''type'' = Some v" for v
    proof -
      have "canonical item2 ''type''" "distinct (map fst item2)" using n1 n2 by auto
      then have "gm_get item2 ''type'' = Some v \<longleftrightarrow> foldMember item2 ''type'' v"
        by (rule canonical_get) (simp add: equalFold_def)
      then show ?thesis using n1 n2 ty by simp
    qed
    then have "gm_get item2 ''type'' = gm_get item1 ''type''" by (metis option.exhaust)
    then have owns2: "explicitResponsesItemOwnsEncryptedContent item2"
      using True by (simp add: explicitResponsesItemOwnsEncryptedContent_def)
    have vx: "valueExposes api x = {\<lparr>stateType = stateBindingTypeEncryptedContent, tokValue = trimSpace v\<rparr> | v.
        gm_get item2 ''encrypted_content'' = Some (JString v) \<and> trimSpace v \<noteq> '''' \<and>
        \<not> isProxyOwnedEncryptedContent api (trimSpace v)}"
      using owns True x unfolding enc by (auto simp: valueExposes_def)
    have found: "found = Some v \<longleftrightarrow> gm_get item2 ''encrypted_content'' = Some (JString v) \<and> trimSpace v \<noteq> ''''" for v
      using f owns2 by (auto simp: visitExplicitResponsesItem_def split: option.splits jval.splits if_splits)
    show ?thesis
    proof (cases found)
      case None
      then show ?thesis using found vx ts' assms(2) by auto
    next
      case (Some v)
      then show ?thesis using found[of v] vx ts' addOutputToken_set[OF assms(2), of stateBindingTypeEncryptedContent api v]
        by (auto simp: stateTokens_def)
    qed
  qed
qed

lemma visitOutputItems_set:
  assumes "visitOutputItems api True xs ts = Inr ts'" "tokens_ok ts" "list_all oneForEveryName xs"
  shows "tokens_ok ts' \<and> set ts' = set ts \<union> (\<Union>x \<in> set xs. valueExposes api x)"
  using assms
proof (induction xs arbitrary: ts)
  case (Cons x xs)
  obtain ts1 where t: "visitOutputItem api True x ts = Inr ts1" "visitOutputItems api True xs ts1 = Inr ts'"
    using Cons.prems(1) by (auto simp: whenOk_Inr)
  have one: "tokens_ok ts1 \<and> set ts1 = set ts \<union> valueExposes api x"
    using visitOutputItem_set[OF t(1) Cons.prems(2)] Cons.prems(3) by simp
  then show ?case using Cons.IH[OF t(2)] Cons.prems(3) by auto
qed simp

text \<open>Members found under a folded name are members, so they are again well formed.\<close>

lemma foldMember_value: "foldMember object field v \<Longrightarrow> oneForEveryName (JObject object) \<Longrightarrow> oneForEveryName v"
  by (auto simp: foldMember_def list_all_iff)

lemma canonicalResponse_get:
  assumes "canonicalResponse True response = Inr r" "oneForEveryName (JObject response)"
  shows "gm_get r ''id'' = Some v \<longleftrightarrow> foldMember response ''id'' v"
    "gm_get r ''output'' = Some v \<longleftrightarrow> foldMember response ''output'' v"
    "(\<exists>c. gm_get r ''conversation'' = Some (JObject c) \<and> gm_get c ''id'' = Some v) \<longleftrightarrow>
       (\<exists>c. foldMember response ''conversation'' (JObject c) \<and> foldMember c ''id'' v)"
proof -
  obtain r0 where n: "normalizeResponsesStateObjectFields response [''id'', ''conversation'', ''output''] = Inr r0"
    and rest: "(case gm_get r0 ''conversation'' of
          Some (JObject conversation) \<Rightarrow>
            whenOk (normalizeResponsesStateObjectFields conversation [''id''])
              (\<lambda>c. Inr (gm_put ''conversation'' (JObject c) r0))
        | _ \<Rightarrow> Inr r0) = Inr r"
    using assms(1) by (auto simp: canonicalResponse_def whenOk_Inr)
  have dist: "distinct (map fst response)" using assms(2) by simp
  have get: "gm_get r0 f = Some w \<longleftrightarrow> foldMember response f w" if "f \<in> {''id'', ''conversation'', ''output''}" for f w
    by (rule normalize_get[OF n dist]) (use that in auto)
  consider (conv) c c' where "gm_get r0 ''conversation'' = Some (JObject c)"
      "normalizeResponsesStateObjectFields c [''id''] = Inr c'" "r = gm_put ''conversation'' (JObject c') r0"
    | (plain) "\<nexists>c. gm_get r0 ''conversation'' = Some (JObject c)" "r = r0"
    using rest by (cases "gm_get r0 ''conversation''") (auto simp: whenOk_Inr split: jval.splits)
  note cs = this
  show "gm_get r ''id'' = Some v \<longleftrightarrow> foldMember response ''id'' v"
    using cs get[of "''id''"] by cases (auto simp: AList.update_conv)
  show "gm_get r ''output'' = Some v \<longleftrightarrow> foldMember response ''output'' v"
    using cs get[of "''output''"] by cases (auto simp: AList.update_conv)
  show "(\<exists>c. gm_get r ''conversation'' = Some (JObject c) \<and> gm_get c ''id'' = Some v) \<longleftrightarrow>
       (\<exists>c. foldMember response ''conversation'' (JObject c) \<and> foldMember c ''id'' v)"
    using cs
  proof cases
    case (conv c c')
    have fc: "foldMember response ''conversation'' (JObject c)" using conv(1) get by simp
    then have "oneForEveryName (JObject c)" using foldMember_value assms(2) by blast
    then have "gm_get c' ''id'' = Some v \<longleftrightarrow> foldMember c ''id'' v"
      by (intro normalize_get[OF conv(2)]) auto
    moreover have "foldMember response ''conversation'' (JObject d) \<longleftrightarrow> d = c" for d
      using get[of "''conversation''" "JObject d"] conv(1) by auto
    ultimately show ?thesis by (simp add: conv(3) AList.update_conv)
  next
    case plain
    then show ?thesis using get[of "''conversation''"] by auto
  qed
qed

lemma visitResponse_set:
  assumes "visitResponse api True response ts = Inr ts'" "tokens_ok ts" "oneForEveryName (JObject response)"
  shows "tokens_ok ts' \<and> set ts' = set ts \<union> responseExposes api response"
proof -
  obtain r where r: "canonicalResponse True response = Inr r"
    using assms(1) by (auto simp: visitResponse_def whenOk_Inr)
  note get = canonicalResponse_get[OF r assms(3)]
  define t1 where "t1 = (case gm_get r ''id'' of
                   Some (JString token) \<Rightarrow> addOutputToken api stateBindingTypeResponseID token ts
                 | _ \<Rightarrow> ts)"
  define t2 where "t2 = (case explicitResponsesOutputConversationID (gm_get r ''conversation'') of
                   Some c \<Rightarrow> addOutputToken api stateBindingTypeConversationID c t1
                 | None \<Rightarrow> t1)"
  have rest: "(case gm_get r ''output'' of Some (JArray output) \<Rightarrow> visitOutputItems api True output t2 | _ \<Rightarrow> Inr t2) = Inr ts'"
    using assms(1) unfolding visitResponse_def r whenOk.simps Let_def t1_def[symmetric] t2_def[symmetric] .
  have ne: "stateBindingTypeResponseID \<noteq> stateBindingTypeEncryptedContent"
    "stateBindingTypeConversationID \<noteq> stateBindingTypeEncryptedContent"
    by (simp_all add: stateBindingTypeResponseID_def stateBindingTypeEncryptedContent_def stateBindingTypeConversationID_def)
  have one: "tokens_ok t1 \<and> set t1 = set ts \<union> {\<lparr>stateType = stateBindingTypeResponseID, tokValue = trimSpace v\<rparr> | v.
        foldMember response ''id'' (JString v) \<and> trimSpace v \<noteq> ''''}"
  proof (cases "\<exists>v. gm_get r ''id'' = Some (JString v)")
    case True
    then obtain v where v: "gm_get r ''id'' = Some (JString v)" by blast
    have "foldMember response ''id'' (JString w) \<longleftrightarrow> w = v" for w
      unfolding get(1)[symmetric] using v by auto
    then show ?thesis
      using v ne addOutputToken_set[OF assms(2), of stateBindingTypeResponseID api v] by (auto simp: t1_def stateTokens_def)
  next
    case False
    then show ?thesis unfolding get(1)[symmetric] using assms(2) by (auto simp: t1_def split: option.splits jval.splits)
  qed
  have two: "tokens_ok t2 \<and> set t2 = set t1 \<union> {\<lparr>stateType = stateBindingTypeConversationID, tokValue = trimSpace v\<rparr> | c v.
        foldMember response ''conversation'' (JObject c) \<and> foldMember c ''id'' (JString v) \<and> trimSpace v \<noteq> ''''}"
  proof -
    have eq: "(\<exists>c. foldMember response ''conversation'' (JObject c) \<and> foldMember c ''id'' (JString v)) \<longleftrightarrow>
        (\<exists>c. gm_get r ''conversation'' = Some (JObject c) \<and> gm_get c ''id'' = Some (JString v))" for v
      using get(3)[of "JString v"] by simp
    have sets: "{\<lparr>stateType = stateBindingTypeConversationID, tokValue = trimSpace v\<rparr> | c v.
        foldMember response ''conversation'' (JObject c) \<and> foldMember c ''id'' (JString v) \<and> trimSpace v \<noteq> ''''} =
      {\<lparr>stateType = stateBindingTypeConversationID, tokValue = x\<rparr> | x.
        explicitResponsesOutputConversationID (gm_get r ''conversation'') = Some x}"
      (is "?A = ?B")
    proof -
      have "?A = {\<lparr>stateType = stateBindingTypeConversationID, tokValue = trimSpace v\<rparr> | v.
        (\<exists>c. gm_get r ''conversation'' = Some (JObject c) \<and> gm_get c ''id'' = Some (JString v)) \<and> trimSpace v \<noteq> ''''}"
        unfolding eq[symmetric] by blast
      also have "\<dots> = ?B"
        by (auto simp: explicitResponsesOutputConversationID_def Let_def split: option.splits jval.splits)
      finally show ?thesis .
    qed
    show ?thesis
    proof (cases "explicitResponsesOutputConversationID (gm_get r ''conversation'')")
      case (Some x)
      then have "trimSpace x = x" "x \<noteq> ''''"
        by (auto simp: explicitResponsesOutputConversationID_def Let_def split: option.splits jval.splits if_splits)
      then show ?thesis unfolding sets using Some ne one addOutputToken_set[of t1 stateBindingTypeConversationID api x]
        by (auto simp: t2_def stateTokens_def)
    next
      case None
      show ?thesis unfolding sets using one None by (simp add: t2_def)
    qed
  qed
  have "tokens_ok ts' \<and> set ts' = set t2 \<union>
      (\<Union>x \<in> {x. \<exists>items. foldMember response ''output'' (JArray items) \<and> x \<in> set items}. valueExposes api x)"
  proof (cases "\<exists>items. gm_get r ''output'' = Some (JArray items)")
    case True
    then obtain items where i: "gm_get r ''output'' = Some (JArray items)" by blast
    then have mem: "foldMember response ''output'' (JArray items)" using get(2) by simp
    have uniq: "foldMember response ''output'' (JArray xs) \<longleftrightarrow> xs = items" for xs
      unfolding get(2)[symmetric] using i by auto
    have "list_all oneForEveryName items" using foldMember_value[OF mem assms(3)] by simp
    then show ?thesis using visitOutputItems_set[of api items t2 ts'] rest i two uniq by auto
  next
    case False
    then have "ts' = t2" using rest by (auto split: option.splits jval.splits)
    moreover have "\<not> foldMember response ''output'' (JArray xs)" for xs
      unfolding get(2)[symmetric] using False by blast
    ultimately show ?thesis using two by auto
  qed
  then show ?thesis unfolding responseExposes_def using one two by auto
qed

text \<open>C7. Before a durable response is exposed, its tokens are extracted exactly: whatever the case of
  the field names a client might accept, every response id, conversation id and piece of
  encrypted content in the root, the response or the item of the event is a token, and nothing
  else is. Competing spellings make the extraction fail.\<close>

theorem durable_output_hides_nothing:
  assumes "extractDurableResponsesOutputState api body = Inr tokens" "sjDecode api body = Some (JObject root)"
    "oneForEveryName (JObject root)"
  shows "set tokens = rootExposes api root \<and> distinct tokens"
proof -
  have ext: "extractResponsesOutputState api body True = Inr tokens"
    using assms(1) by (auto simp: extractDurableResponsesOutputState_def split: if_splits)
  obtain obj t1 t2 where
    n: "normalizeResponsesStateObjectFields root [''type'', ''response'', ''item''] = Inr obj" and
    t1: "(if trimSpace (jstring (gm_get obj ''type'')) = '''' then visitResponse api True obj [] else Inr []) = Inr t1" and
    t2: "(case gm_get obj ''response'' of Some (JObject response) \<Rightarrow> visitResponse api True response t1 | _ \<Rightarrow> Inr t1) = Inr t2" and
    t3: "(case gm_get obj ''item'' of Some item \<Rightarrow> visitOutputItem api True item t2 | None \<Rightarrow> Inr t2) = Inr tokens"
    using ext by (auto simp: extractResponsesOutputState_def assms(2) whenOk_Inr)
  have dist: "distinct (map fst root)" using assms(3) by simp
  have get: "gm_get obj f = Some v \<longleftrightarrow> foldMember root f v" if "f \<in> {''type'', ''response'', ''item''}" for f v
    by (rule normalize_get[OF n dist]) (use that in auto)
  note all = normalize_all[OF n dist, simplified]
  have "snd ` set obj \<subseteq> snd ` set root" using all by blast
  then have one: "oneForEveryName (JObject obj)"
    using all assms(3) by (fastforce simp: list_all_iff)
  have same: "responseExposes api obj = responseExposes api root"
    using all by (simp add: responseExposes_def)
  have typed: "trimSpace (jstring (gm_get obj ''type'')) \<noteq> '''' \<longleftrightarrow>
      (\<exists>ty. foldMember root ''type'' (JString ty) \<and> trimSpace ty \<noteq> '''')"
  proof -
    have "(\<exists>ty. foldMember root ''type'' (JString ty) \<and> trimSpace ty \<noteq> '''') \<longleftrightarrow>
        (\<exists>ty. gm_get obj ''type'' = Some (JString ty) \<and> trimSpace ty \<noteq> '''')"
      using get[of "''type''"] by simp
    also have "\<dots> \<longleftrightarrow> trimSpace (jstring (gm_get obj ''type'')) \<noteq> ''''"
      by (auto simp: jstring_def split: option.splits jval.splits)
    finally show ?thesis by simp
  qed
  have s1: "tokens_ok t1 \<and> set t1 = (if \<exists>ty. foldMember root ''type'' (JString ty) \<and> trimSpace ty \<noteq> '''' then {}
      else responseExposes api root)"
    using t1 typed same visitResponse_set[OF _ tokens_ok_Nil one, of api t1] by (auto split: if_splits)
  have s2: "tokens_ok t2 \<and> set t2 = set t1 \<union> (\<Union>r \<in> {r. foldMember root ''response'' (JObject r)}. responseExposes api r)"
  proof (cases "\<exists>r. gm_get obj ''response'' = Some (JObject r)")
    case True
    then obtain r where r: "gm_get obj ''response'' = Some (JObject r)" by blast
    then have mem: "foldMember root ''response'' (JObject r)" using get by simp
    have uniq: "foldMember root ''response'' (JObject x) \<longleftrightarrow> x = r" for x
      using get[of "''response''" "JObject x"] r by auto
    have "visitResponse api True r t1 = Inr t2" using t2 r by simp
    from visitResponse_set[OF this _ foldMember_value[OF mem assms(3)]] s1 uniq show ?thesis by simp
  next
    case False
    then have "t2 = t1" using t2 by (auto split: option.splits jval.splits)
    moreover have "\<not> foldMember root ''response'' (JObject x)" for x using get[of "''response''"] False by auto
    ultimately show ?thesis using s1 by simp
  qed
  have "tokens_ok tokens \<and> set tokens = set t2 \<union> (\<Union>x \<in> {x. foldMember root ''item'' x}. valueExposes api x)"
  proof (cases "gm_get obj ''item''")
    case None
    then have "tokens = t2" using t3 by simp
    moreover have "\<not> foldMember root ''item'' x" for x using get[of "''item''" x] None by auto
    ultimately show ?thesis using s2 by simp
  next
    case (Some x)
    then have mem: "foldMember root ''item'' x" using get by simp
    have uniq: "foldMember root ''item'' y \<longleftrightarrow> y = x" for y using get[of "''item''" y] Some by auto
    have "visitOutputItem api True x t2 = Inr tokens" using t3 Some by simp
    from visitOutputItem_set[OF this _ foldMember_value[OF mem assms(3)]] s2 uniq show ?thesis by simp
  qed
  then show ?thesis unfolding rootExposes_def using s1 s2 by (simp add: tokens_ok_def)
qed

section \<open>Requests reach the owner of their state\<close>

lemma forcePinned_Some:
  assumes "forcePinnedTarget t o' = Some o1" "trimSpace t \<noteq> ''''"
  shows "pinnedTargetID o1 = t \<and> hardPinned o1 \<and> opRoute o1 = opRoute o'"
  using assms by (auto simp: forcePinnedTarget_def split: if_splits)

lemma pinToOwner_None:
  assumes "pinToOwner result o' = (o1, None)" "\<forall>t \<in> set (targets (opRoute o')). trimSpace (tbId t) \<noteq> ''''"
  shows "outcome result = stateBindingLookupKnown \<and> pinnedTargetID o1 = targetID (resultOwner result) \<and>
    hardPinned o1 \<and> opRoute o1 = opRoute o' \<and> trimSpace (pinnedTargetID o1) \<noteq> ''''"
proof -
  obtain t where t: "outcome result = stateBindingLookupKnown" "targetByID (opRoute o') (targetID (resultOwner result)) = Some t"
      "forcePinnedTarget (targetID (resultOwner result)) o' = Some o1"
    using assms(1) by (auto simp: pinToOwner_def split: stateBindingLookupOutcome.splits option.splits)
  have "trimSpace (targetID (resultOwner result)) \<noteq> ''''"
    using targetByID_mem[OF t(2)] assms(2) by auto
  then show ?thesis using forcePinned_Some[OF t(3)] t(1) by simp
qed

text \<open>After the conversation step an answered owner is the owner of the token.\<close>

lemma conversation_known:
  assumes "sb_wf s" "resolveOrBindConversationForRoute mac now rid t bo s = Some (s', r, b, d)"
    "outcome r = stateBindingLookupKnown"
  shows "routeID (resultOwner r) = rid \<and> snd (store_lookup mac now t s') = knownResult (resultOwner r)"
proof -
  let ?k = "bindingKey mac s t"
  have ty: "stateType t = stateBindingTypeConversationID" "tokValue t \<noteq> ''''"
    using assms(2,3) by (auto simp: resolveOrBindConversationForRoute_def split: if_splits)
  then have tok: "stateType t \<noteq> ''''" by (simp add: stateBindingTypeConversationID_def)
  obtain s1 res where l: "lookupKeyLocked ?k now s = (s1, res)" by fastforce
  have q: "quiet now s s1" using lookupKeyLocked_quiet[of now s ?k] l by simp
  have res: "res = live_result (live now s ?k)" using lookupKeyLocked_result[of ?k now s] l by simp
  show ?thesis
  proof (cases "outcome res")
    case stateBindingLookupUnknown
    then have a: "owner_valid bo" "routeID bo = rid" "insertWithRoom now ?k bo s1 = Some s'" "r = knownResult bo"
      using assms(2,3) l ty
      by (auto simp: resolveOrBindConversationForRoute_def Let_def split: if_splits)
    have new: "gm_get (entries s1) ?k = None" by (rule lookup_unknown_absent[OF l stateBindingLookupUnknown])
    from insertWithRoom_spec[OF quietD(1)[OF q assms(1)] new a(1), of now] a(3) quietD(3,4)[OF q]
    have g: "gm_get (entries s') ?k = Some (freshRecord now bo s1)" "digestKey s' = digestKey s" "ttl s1 = ttl s"
      by auto
    have "0 < ttl s" using assms(1) by (simp add: sb_wf_def)
    then have "live now s' (bindingKey mac s' t) = Some (freshRecord now bo s1)"
      using g by (simp add: live_def bindingKey_def record_expired_def freshRecord_def)
    then show ?thesis
      using a(2,4) ty tok by (simp add: store_lookup_def lookupKeyLocked_result live_result_def freshRecord_def knownResult_def)
  next
    case stateBindingLookupKnown
    then have a: "r = res" "s' = s1" "routeID (resultOwner res) = rid"
      using assms(2,3) l ty by (auto simp: resolveOrBindConversationForRoute_def Let_def split: if_splits)
    have "live now s1 (bindingKey mac s1 t) = live now s ?k"
      using quietD(4)[OF q] quietD(7)[OF q order_refl] by (simp add: bindingKey_def)
    then show ?thesis
      using a ty tok res stateBindingLookupKnown
      by (auto simp: store_lookup_def lookupKeyLocked_result live_result_def knownResult_def split: option.splits if_splits)
  next
    case stateBindingLookupConflict
    then have "r = res" using assms(2,3) l ty by (auto simp: resolveOrBindConversationForRoute_def Let_def split: if_splits)
    then show ?thesis using assms(3) stateBindingLookupConflict by simp
  qed
qed

lemma resolve_known:
  assumes "resolveForRoute mac now rid pin tokens s = (s', r)" "outcome r = stateBindingLookupKnown"
  shows "routeID (resultOwner r) = rid \<and> (\<forall>t \<in> set tokens. snd (store_lookup mac now t s') = knownResult (resultOwner r))"
proof -
  have "r = knownResult (resultOwner r)"
  proof -
    have "snd (resolveForRoute mac now rid pin tokens s) = r" using assms(1) by simp
    then show ?thesis using assms(2)
      by (cases r) (simp add: knownResult_def)
  qed
  then have "snd (resolveForRoute mac now rid pin tokens s) = knownResult (resultOwner r)" using assms(1) by simp
  then have k: "routeID (resultOwner r) = rid"
      "\<forall>t \<in> set tokens. token_ok t \<and> live_result (live now s (bindingKey mac s t)) = knownResult (resultOwner r)"
    by (auto simp: resolveForRoute_known resolveWithRoute_known list_all_iff)
  have q: "quiet now s s'" using resolveForRoute_quiet[of now s mac rid pin tokens] assms(1) by simp
  have "bindingKey mac s' t = bindingKey mac s t" for t using quietD(4)[OF q] by (simp add: bindingKey_def)
  then show ?thesis
    using k quietD(7)[OF q order_refl]
    by (simp add: store_lookup_def lookupKeyLocked_result token_ok_def)
qed

text \<open>C3. A request that carries provider state reaches only the owner of that state. When binding
  succeeds for tokens, the store answers one owner for every one of them, the owner is on the
  route, and the operation is pinned hard to its target, so that target is the only candidate
  of the route at any endpoint.\<close>

theorem request_goes_to_state_owner:
  assumes "sb_wf s" "applyExplicitRequestStateBinding api mac now body turnStates s o' = Some (s1, o1, None)"
    "\<not> legacy (opRoute o')" "extractExplicitResponsesRequestState api body turnStates = Inr tokens" "tokens \<noteq> []"
    "\<forall>t \<in> set (targets (opRoute o')). trimSpace (tbId t) \<noteq> ''''"
  shows "\<exists>owner. routeID owner = publicRouteID (opRoute o') \<and>
    (\<forall>t \<in> set tokens. snd (store_lookup mac now t s1) = knownResult owner) \<and>
    pinnedTargetID o1 = targetID owner \<and> hardPinned o1 \<and>
    (\<forall>t \<in> set (orderedRouteTargets (Some (opRoute o1)) (Some o1) endpoint). tbId t = targetID owner)"
proof -
  define rid where "rid = publicRouteID (opRoute o')"
  have "\<exists>r. pinToOwner r o' = (o1, None) \<and> (outcome r = stateBindingLookupKnown \<longrightarrow>
      routeID (resultOwner r) = rid \<and> (\<forall>t \<in> set tokens. snd (store_lookup mac now t s1) = knownResult (resultOwner r)))"
  proof (cases "length tokens = 1 \<and> stateType (hd tokens) = stateBindingTypeConversationID")
    case True
    then have tk: "tokens = [hd tokens]" by (cases tokens) auto
    obtain bo r b d where r: "resolveOrBindConversationForRoute mac now rid (hd tokens) bo s = Some (s1, r, b, d)"
        "pinToOwner r o' = (o1, None)"
      using assms(2-5) True unfolding rid_def by (auto simp: applyExplicitRequestStateBinding_def Let_def)
    then show ?thesis using conversation_known[OF assms(1) r(1)] tk by (metis empty_iff empty_set set_ConsD)
  next
    case False
    obtain r where r: "resolveForRoute mac now rid (pinnedTargetID o') tokens s = (s1, r)" "pinToOwner r o' = (o1, None)"
      using assms(2-5) False unfolding rid_def
      by (auto simp: applyExplicitRequestStateBinding_def Let_def split: prod.splits)
    then show ?thesis using resolve_known[OF r(1)] by blast
  qed
  then obtain r where r: "pinToOwner r o' = (o1, None)" "outcome r = stateBindingLookupKnown \<longrightarrow>
      routeID (resultOwner r) = rid \<and> (\<forall>t \<in> set tokens. snd (store_lookup mac now t s1) = knownResult (resultOwner r))"
    by blast
  from pinToOwner_None[OF r(1) assms(6)] have p: "outcome r = stateBindingLookupKnown" "hardPinned o1"
      "pinnedTargetID o1 = targetID (resultOwner r)" "pinnedTargetID o1 \<noteq> ''''"
    by auto
  show ?thesis
    using p r(2) ordered_pinned[OF p(4)] unfolding rid_def by (intro exI[of _ "resultOwner r"]) auto
qed

section \<open>Durable requests need the identity of their owner\<close>

text \<open>A claim that answers known has the answered owner on record.\<close>

lemma claim_known:
  assumes "mac_ok mac" "durable_wf mac d" "owner32 o'"
    "durableBind mac now env [t] o' True d = (d', r)" "outcome r = stateBindingLookupKnown"
  shows "\<exists>k. tokenKeys mac (dsKey d) [t] = Inr [k] \<and> authority mac d' k = Some (OwnedBy (resultOwner r)) \<and>
    dsKey d' = dsKey d"
proof -
  define owner where "owner = encodeOwner mac (dsKey d) o'"
  have pre: "owner_valid o'" "ownerIdentity o' \<noteq> zeroBytes32"
    using assms(4,5) by (auto simp: durableBind_def split: if_splits)
  obtain keys where tk: "tokenKeys mac (dsKey d) [t] = Inr keys"
    using assms(4,5) pre by (auto simp: durableBind_def split: sum.splits)
  have st: "dsFailed d = None" "dsOpen d"
    using assms(4,5) pre tk by (auto simp: durableBind_def split: option.splits if_splits)
  then have "beView env"
    using assms(4,5) pre tk by (cases "beView env") (auto simp: durableBind_def Let_def)
  note st = st this
  note ks = tokenKeys_spec[OF assms(1) tk]
  have "length keys \<le> 1" using tokenKeys_length[OF assms(1) tk] by simp
  then obtain k where k: "keys = [k]" using ks(2) by (cases keys) auto
  have ok: "bucket_ok mac (dsKey d) (dsRecords d)" using assms(2) by (simp add: durable_wf_def)
  have vo: "verdict_ok owner stateBindingLookupKnown"
    unfolding owner_def by (rule bind_owner_ok[OF assms(1) pre assms(3)])
  have "authority mac d' k = Some (OwnedBy (resultOwner r)) \<and> dsKey d' = dsKey d"
  proof (cases "gm_get (dsRecords d) k")
    case (Some v)
    then obtain prior at where p: "decodeRecord mac (dsKey d) k v = Inr (prior, at)"
        "bucketVerdicts mac (dsKey d) (dsRecords d) k = Some (verdictOf prior)"
      using verdict_Some[OF ok Some] by blast
    then have "d' = d" "r = prior"
      using assms(4) pre tk st k Some unfolding durableBind_def by (auto simp: Let_def)
    then show ?thesis using p(2) assms(5) by (simp add: authority_def verdictOf_def)
  next
    case None
    then have none: "authority mac d k = None" using verdict_None_iff[OF ok] by (simp add: authority_def)
    have new: "newKeys (authority mac d) [k] = 1" "\<not> contested (authority mac d) [k] owner"
      using none by (simp_all add: newKeys_def contested_def)
    have fit: "fits mac d [k]" "r = durableKnown owner \<and>
        d' = d\<lparr>dsRecords := fold (putOwner mac (dsKey d) now owner) [k] (dsRecords d), dsSequence := dsSequence d + word_of_nat 1\<rparr>"
      using assms(4,5) pre tk st k None fits_test[OF assms(2), of "[k]"] new(1)
      unfolding durableBind_def owner_def[symmetric]
      by (auto simp: Let_def bindUpdate_def split: if_splits)
    have "authority mac d' = grant (authority mac d) [k] owner"
      using owners_wf(2)[OF assms(1,2) _ _ vo new(2)] fit ks(3) k new(1) by (auto simp: fits_def)
    then show ?thesis using fit(2) by (simp add: grant_def)
  qed
  then show ?thesis using tk k by auto
qed

text \<open>A lookup that answers known has one owner on record for every token.\<close>

lemma durable_resolve_known:
  assumes "mac_ok mac" "durable_wf mac d" "durableResolveForRoute mac env rid pin tokens d = (d1, r)"
    "outcome r = stateBindingLookupKnown"
  shows "\<exists>keys w. d1 = d \<and> r = durableKnown w \<and> tokenKeys mac (dsKey d) tokens = Inr keys \<and>
    (\<forall>k \<in> set keys. authority mac d k = Some (OwnedBy w)) \<and> keys \<noteq> [] \<and> proven w \<and>
    routeKey w = digest mac (dsKey d) ''route'' [rid]"
proof -
  have w: "durableResolveWithRoute mac env tokens rid pin d = (d1, r)" "rid \<noteq> ''''"
      "routeKey (resultOwner r) = digest mac (dsKey d1) ''route'' [rid]"
    using assms(3,4) by (auto simp: durableResolveForRoute_def durableOwnerMatchesRoute_def split: prod.splits if_splits)
  obtain keys where tk: "tokenKeys mac (dsKey d) tokens = Inr keys" and st: "dsFailed d = None" "dsOpen d" "beView env"
    using w(1) assms(4)
    by (auto simp: durableResolveWithRoute_def Let_def split: sum.splits option.splits if_splits)
  define m where "m = authority mac d"
  from resolve_spec[OF assms(2) tk st(2,1,3), of rid pin] w(1) have
    r: "d1 = d" "r = specResolve m keys (labelKey mac (dsKey d) ''route'' rid) (labelKey mac (dsKey d) ''target'' pin)"
    by (auto simp: m_def)
  have c: "\<not> disputed m keys (labelKey mac (dsKey d) ''route'' rid) (labelKey mac (dsKey d) ''target'' pin) {}"
      "keys \<noteq> []" "\<forall>k \<in> set keys. m k \<noteq> None"
    using r(2) assms(4) by (auto simp: specResolve_def split: if_splits)
  have own: "\<exists>w. m k = Some (OwnedBy w)" if mem: "k \<in> set keys" for k
  proof -
    obtain v where "m k = Some v" using c(3) mem by auto
    moreover have "v \<noteq> Tombstone" using c(1) mem calculation by (auto simp: disputed_def)
    ultimately show ?thesis by (cases v) auto
  qed
  from own[of "hd keys"] c(2) obtain w where hw: "m (hd keys) = Some (OwnedBy w)" by auto
  have wmem: "w \<in> ownersOf m keys" using hw c(2) by (auto simp: ownersOf_def intro: hd_in_set)
  have all: "m k = Some (OwnedBy w)" if mem: "k \<in> set keys" for k
  proof -
    obtain w' where w': "m k = Some (OwnedBy w')" using own[OF mem] by blast
    then have "w' \<in> ownersOf m keys" using mem by (auto simp: ownersOf_def)
    then have "w' = w" using c(1) wmem by (auto simp: disputed_def)
    then show ?thesis using w' by simp
  qed
  have owners: "ownersOf m keys = {w}" using all wmem by (auto simp: ownersOf_def)
  have "r = durableKnown w" using r(2) c owners by (auto simp: specResolve_def)
  moreover have "proven w"
  proof -
    have "bucketVerdicts mac (dsKey d) (dsRecords d) (hd keys) = Some (OwnedBy w)"
      using hw by (simp add: m_def authority_def)
    then obtain v x t where "decodeRecord mac (dsKey d) (hd keys) v = Inr (x, t)" "verdictOf x = OwnedBy w"
      by (auto simp: bucketVerdicts_def split: option.splits sum.splits)
    then show ?thesis using decode_Inr[of mac "dsKey d" "hd keys" v x t]
      by (auto simp: verdictOf_def verdict_ok_def split: if_splits)
  qed
  ultimately show ?thesis using r(1) tk all c(2) w(3) by (auto simp: m_def)
qed

lemma ownerTarget_key:
  "durableOwnerTarget mac d w ts = t \<Longrightarrow> t \<noteq> '''' \<Longrightarrow> t \<in> set ts \<and> targetKey w = digest mac (dsKey d) ''target'' [t]"
  by (induction ts) (auto split: if_splits)

text \<open>C4. With durable bindings, a request that carries provider state is sent only under the identity
  that owns the state: when the tokens are accepted and the authenticated request to the pinned
  target is validated, the store holds for every token one owner with that route, that target
  and exactly the identity of the request. A new conversation is claimed for it first.\<close>

theorem durable_request_needs_identity:
  assumes "mac_ok mac" "durable_wf mac d" "tokens \<noteq> []"
    "applyDurableRequestStateBinding mac env tokens d o' = (d1, o1, conversation, None)"
    "validateDurableRequestOwner mac now env' answer (opRoute o') target conversation d1 o1 = (d2, o2, Inr identity)"
    "tbId target = pinnedTargetID o1" "length identity = 32"
    "\<forall>t \<in> set (targets (opRoute o')). trimSpace (tbId t) \<noteq> ''''"
  shows "answer = Some identity \<and> hardPinned o2 \<and> stateOwnerIdentity o2 = identity \<and>
    (\<exists>keys. tokenKeys mac (dsKey d) tokens = Inr keys \<and> (\<forall>k \<in> set keys. \<exists>w. authority mac d2 k = Some (OwnedBy w) \<and>
       ownerIdentity w = identity \<and> routeKey w = digest mac (dsKey d) ''route'' [publicRouteID (opRoute o')] \<and>
       targetKey w = digest mac (dsKey d) ''target'' [pinnedTargetID o2]))"
proof -
  define rid where "rid = publicRouteID (opRoute o')"
  obtain d1' r where res: "durableResolveForRoute mac env rid (pinnedTargetID o') tokens d = (d1', r)" by fastforce
  have val: "dsOpen d1" "dsFailed d1 = None" "answer = Some identity"
      "stateOwnerIdentity o1 = zeroBytes32 \<or> stateOwnerIdentity o1 = identity"
    using assms(5) by (auto simp: validateDurableRequestOwner_def Let_def split: if_splits option.splits prod.splits)
  show ?thesis
  proof (cases conversation)
    case None
    then have k: "outcome r = stateBindingLookupKnown" "d1 = d1'"
      using assms(4) res unfolding rid_def
      by (auto simp: applyDurableRequestStateBinding_def Let_def split: option.splits if_splits)
    from durable_resolve_known[OF assms(1,2) res k(1)] obtain keys w where
      w: "d1' = d" "r = durableKnown w" "tokenKeys mac (dsKey d) tokens = Inr keys"
        "\<forall>k \<in> set keys. authority mac d k = Some (OwnedBy w)" "proven w"
        "routeKey w = digest mac (dsKey d) ''route'' [rid]" by blast
    define tid where "tid = durableOwnerTarget mac d w (map tbId (targets (opRoute o')))"
    from assms(4) res w(1,2) obtain o3 where
      o3: "tid \<noteq> ''''" "forcePinnedTarget tid o' = Some o3" "o1 = o3\<lparr>stateOwnerIdentity := ownerIdentity w\<rparr>"
      unfolding rid_def tid_def
      by (auto simp: applyDurableRequestStateBinding_def Let_def split: option.splits if_splits)
    note key = ownerTarget_key[OF tid_def[symmetric] o3(1)]
    have "trimSpace tid \<noteq> ''''" using key assms(8) by auto
    note fp = forcePinned_Some[OF o3(2) this]
    have id: "identity = ownerIdentity w" using val(4) o3(3) w(5) by (simp add: proven_def)
    have "d2 = d1" "o2 = o1" using assms(5) None val id o3(3)
      by (auto simp: validateDurableRequestOwner_def split: if_splits)
    then show ?thesis
      using val(3) fp o3(3) id w key k(2) by (auto simp: rid_def)
  next
    case (Some tok)
    then obtain bt where b: "forcePinnedTarget (tbId bt) o' = Some o1" "tokens = [tok]" "d1 = d1'"
        "explicitConversationBootstrapTarget (opRoute o') = Some bt"
      using assms(3,4) res unfolding rid_def
      by (cases tokens) (auto simp: applyDurableRequestStateBinding_def Let_def split: option.splits if_splits)
    have "bt \<in> set (orderedRouteTargets (Some (opRoute o')) None providerEndpointResponses)"
      using b(4) by (auto simp: explicitConversationBootstrapTarget_def split: list.splits)
    then have "bt \<in> set (targets (opRoute o'))"
      by (auto simp: orderedRouteTargets_def Let_def dest: in_set_takeD)
    then have "trimSpace (tbId bt) \<noteq> ''''" using assms(8) by blast
    note fp = forcePinned_Some[OF b(1) this]
    define owner where "owner = zeroOwner\<lparr>routeID := rid, targetID := tbId target, ownerIdentity := identity\<rparr>"
    obtain result where bind: "durableBind mac now env' [tok] owner True d1 = (d2, result)"
        "outcome result = stateBindingLookupKnown" "resultOwner result = encodeOwner mac (dsKey d1) owner"
        "o2 = o1\<lparr>stateOwnerIdentity := identity\<rparr>"
      using assms(5) Some val unfolding owner_def rid_def
      by (auto simp: validateDurableRequestOwner_def Let_def split: if_splits prod.splits option.splits)
    have "d1 = fst (durableResolveWithRoute mac env tokens rid (pinnedTargetID o') d)"
      using resolveForRoute_fst[of mac env rid "pinnedTargetID o'" tokens d] res b(3) by simp
    then have wf1: "durable_wf mac d1" "dsKey d1 = dsKey d"
      using resolve_frame[of mac env tokens rid "pinnedTargetID o'" d] assms(2) by auto
    have "owner32 owner" using assms(7) by (simp add: owner_def owner32_def zeroOwner_def)
    from claim_known[OF assms(1) wf1(1) this bind(1,2)] obtain k where
      k: "tokenKeys mac (dsKey d1) [tok] = Inr [k]" "authority mac d2 k = Some (OwnedBy (resultOwner result))" by blast
    have "owner_valid owner" using bind(1,2) by (auto simp: durableBind_def split: if_splits)
    then have "ownerIdentity (resultOwner result) = identity"
        "routeKey (resultOwner result) = digest mac (dsKey d) ''route'' [rid]"
        "targetKey (resultOwner result) = digest mac (dsKey d) ''target'' [tbId target]"
      unfolding bind(3) wf1(2) by (simp_all add: owner_def encodeOwner_def Let_def owner_valid_def)
    then show ?thesis using val(3) fp bind(4) k wf1(2) b(2) assms(6) by (auto simp: rid_def)
  qed
qed

section \<open>Examples\<close>

definition exStateJson :: "jmembers \<Rightarrow> stateJson" where
  "exStateJson object = \<lparr>sjNoDuplicates = (\<lambda>_. True), sjUnambiguous = (\<lambda>_. True),
     sjDecode = (\<lambda>_. Some (JObject object)), sjBase64 = (\<lambda>_. None), sjPayload = (\<lambda>_. None)\<rparr>"

definition exStateRequest :: jmembers where
  "exStateRequest = [(''previous_response_id'', JString ''a''),
     (''input'', JArray [JObject [(''type'', JString ''reasoning''), (''encrypted_content'', JString ''e'')]])]"

definition exStateResponse :: jmembers where
  "exStateResponse = [(''Response'', JObject [(''ID'', JString ''a'')]), (''type'', JString ''response.created'')]"

lemma exStateJson_simps [simp]:
  "sjNoDuplicates (exStateJson object) body" "sjUnambiguous (exStateJson object) body"
  "sjDecode (exStateJson object) body = Some (JObject object)"
  by (simp_all add: exStateJson_def)

lemma trimSpace_plain:
  "trimSpace ''a'' = ''a''" "trimSpace ''e'' = ''e''" "trimSpace ''h'' = ''h''" "trimSpace ''reasoning'' = ''reasoning''"
  "trimSpace ''t1'' = ''t1''" "trimSpace ''t'' = ''t''" "trimSpace ''response.created'' = ''response.created''"
  by code_simp+

lemma request_state_is_exact_witness:
  "\<exists>tokens. extractResponsesRequestState (exStateJson exStateRequest) ''{}'' [''h''] False = Inr tokens \<and>
     set tokens = requestDeclares (exStateJson exStateRequest) exStateRequest [''h''] \<and> length tokens = 3"
proof -
  have p: "\<not> isProxyOwnedEncryptedContent api ''e''" for api
    by (simp add: isProxyOwnedEncryptedContent_def hasPrefix_def syntheticCompactionPrefix_def
        legacySyntheticCompactionPrefix_def)
  have e: "extractResponsesRequestState (exStateJson exStateRequest) ''{}'' [''h''] False =
     Inr [\<lparr>stateType = stateBindingTypeResponseID, tokValue = ''a''\<rparr>,
          \<lparr>stateType = stateBindingTypeEncryptedContent, tokValue = ''e''\<rparr>,
          \<lparr>stateType = stateBindingTypeTurnState, tokValue = ''h''\<rparr>]"
    by (simp add: extractResponsesRequestState_def p requestObjectState_def
        requestPreviousResponseID_def explicitResponsesRequestConversationID_def exStateRequest_def
        visitExplicitResponsesItem_def explicitResponsesItemOwnsEncryptedContent_def jstring_def trimSpace_plain
        addToken_def insertToken_def tokenKey_def stateBindingTypeResponseID_def stateBindingTypeEncryptedContent_def
        stateBindingTypeTurnState_def)
  from request_state_is_exact[OF e exStateJson_simps(3)] e show ?thesis by simp
qed

lemma durable_output_hides_nothing_witness:
  "\<exists>tokens. extractDurableResponsesOutputState (exStateJson exStateResponse) ''{}'' = Inr tokens \<and>
     set tokens = rootExposes (exStateJson exStateResponse) exStateResponse \<and>
     \<lparr>stateType = stateBindingTypeResponseID, tokValue = ''a''\<rparr> \<in> set tokens"
proof -
  have fold: "asciiFold ''Response'' = ''response''" "asciiFold ''ID'' = ''id''"
    by code_simp+
  have e: "extractDurableResponsesOutputState (exStateJson exStateResponse) ''{}'' =
      Inr [\<lparr>stateType = stateBindingTypeResponseID, tokValue = ''a''\<rparr>]"
    by (simp add: extractDurableResponsesOutputState_def extractResponsesOutputState_def exStateResponse_def equalFold_def
        fold jstring_def trimSpace_plain visitResponse_def canonicalResponse_def addOutputToken_def insertToken_def
        explicitResponsesOutputConversationID_def stateBindingTypeResponseID_def stateBindingTypeEncryptedContent_def)
  have "oneForEveryName (JObject exStateResponse)" by (simp add: exStateResponse_def)
  note all = durable_output_hides_nothing[OF e exStateJson_simps(3) this]
  show ?thesis by (intro exI conjI, rule e, rule all[THEN conjunct1], simp)
qed

definition exStateOp :: routeOperation where
  "exStateOp = exOp\<lparr>opRoute := exRoute\<lparr>targets := [exTarget ''t1'']\<rparr>\<rparr>"

definition exStateObject :: jmembers where
  "exStateObject = [(''previous_response_id'', JString ''a'')]"

lemma request_goes_to_state_owner_witness:
  "\<exists>s1 o1. applyExplicitRequestStateBinding (exStateJson exStateObject) exMac 5 ''{}'' [] exBound exStateOp = Some (s1, o1, None) \<and>
     pinnedTargetID o1 = ''t1'' \<and> hardPinned o1"
proof -
  have ext: "extractExplicitResponsesRequestState (exStateJson exStateObject) ''{}'' [] = Inr [exTok ''a'']"
    by (simp add: extractExplicitResponsesRequestState_def extractResponsesRequestState_def requestObjectState_def
        requestPreviousResponseID_def explicitResponsesRequestConversationID_def exStateObject_def
        trimSpace_plain addToken_def insertToken_def exTok_def)
  have op: "\<not> legacy (opRoute exStateOp)" "publicRouteID (opRoute exStateOp) = ''r''" "pinnedTargetID exStateOp = ''''"
      "targets (opRoute exStateOp) = [exTarget ''t1'']" "tbId (exTarget ''t1'') = ''t1''"
    by (simp_all add: exStateOp_def exOp_def exRoute_def newRouteOperationWithID_def Let_def exTarget_def)
  have known: "snd (resolveForRoute exMac 5 ''r'' '''' [exTok ''a''] exBound) = knownResult (exOwner ''t1'')"
    unfolding resolveForRoute_known resolveWithRoute_known
    by (simp add: exBound_def exStore_def pushRecord_def bindingKey_def live_def record_expired_def live_result_def
        exOwner_def memoryOwner_def owner_admitted_def exTok_ok[unfolded token_ok_def] token_ok_def)
  obtain s1 where r: "resolveForRoute exMac 5 ''r'' '''' [exTok ''a''] exBound = (s1, knownResult (exOwner ''t1''))"
    using known by (metis prod.collapse)
  have ty: "stateType (exTok ''a'') \<noteq> stateBindingTypeConversationID"
    by (simp add: exTok_def stateBindingTypeResponseID_def stateBindingTypeConversationID_def)
  have owner: "targetID (exOwner ''t1'') = ''t1''" by (simp add: exOwner_def memoryOwner_def)
  have "\<exists>o1. pinToOwner (knownResult (exOwner ''t1'')) exStateOp = (o1, None)"
    by (simp add: pinToOwner_def owner targetByID_def op forcePinnedTarget_def trimSpace_plain knownResult_def)
  then obtain o1 where p: "pinToOwner (knownResult (exOwner ''t1'')) exStateOp = (o1, None)" by blast
  have a: "applyExplicitRequestStateBinding (exStateJson exStateObject) exMac 5 ''{}'' [] exBound exStateOp = Some (s1, o1, None)"
    using op ext r ty p by (simp add: applyExplicitRequestStateBinding_def Let_def)
  have pin: "pinnedTargetID o1 = ''t1''"
    using pinToOwner_None[OF p] op by (simp add: trimSpace_plain owner knownResult_def)
  have "\<forall>t \<in> set (targets (opRoute exStateOp)). trimSpace (tbId t) \<noteq> ''''" by (simp add: op trimSpace_plain)
  from request_goes_to_state_owner[OF exBound_facts(1) a op(1) ext _ this] a pin show ?thesis by auto
qed

text \<open>A new conversation, first accepted and then claimed for the identity of the request.\<close>

definition exConversation :: stateBindingToken where
  "exConversation = \<lparr>stateType = stateBindingTypeConversationID, tokValue = ''c''\<rparr>"

definition exIdentity :: string where
  "exIdentity = replicate 32 (CHR ''i'')"

lemma durable_request_needs_identity_witness:
  "\<exists>d1 o1 conversation d2 o2 w.
     applyDurableRequestStateBinding exDurableMac exBoltEnv [exConversation] exDurable exStateOp = (d1, o1, conversation, None) \<and>
     validateDurableRequestOwner exDurableMac (\<lambda>_. 0) exBoltEnv (Some exIdentity) (opRoute exStateOp) (exTarget ''t1'')
       conversation d1 o1 = (d2, o2, Inr exIdentity) \<and>
     authority exDurableMac d2 (durableTokenKey exDurableMac (dsKey exDurable) exConversation) = Some (OwnedBy w) \<and>
     ownerIdentity w = exIdentity"
proof -
  have op: "publicRouteID (opRoute exStateOp) = ''r''" "pinnedTargetID exStateOp = ''''" "tbId (exTarget ''t1'') = ''t1''"
      "targets (opRoute exStateOp) = [exTarget ''t1'']" "stateOwnerIdentity exStateOp = zeroBytes32"
    by (simp_all add: exStateOp_def exOp_def exRoute_def newRouteOperationWithID_def Let_def exTarget_def
        zeroIdentity_def zeroBytes32_def)
  have boot: "explicitConversationBootstrapTarget (opRoute exStateOp) = Some (exTarget ''t1'')"
    by (simp add: explicitConversationBootstrapTarget_def orderedRouteTargets_def exStateOp_def exRoute_def maxOrderedTargets_def
        exTarget_def exProvider_def endpoint_policy_defs)
  define k where "k = durableTokenKey exDurableMac (dsKey exDurable) exConversation"
  have keys: "tokenKeys exDurableMac (dsKey exDurable) [exConversation] = Inr [k]"
    by (simp add: k_def tokenKeys_def exConversation_def durableStateTypeByte_def stateBindingTypeConversationID_def
        stateBindingTypeResponseID_def stateBindingTypeEncryptedContent_def stateBindingTypeTurnState_def)
  have ex: "dsFailed exDurable = None" "dsOpen exDurable" "dsRecords exDurable = []" "dsMaxEntries exDurable = 2"
      "dsSequence exDurable = 0"
    by (simp_all add: exDurable_def)
  have env: "beView exBoltEnv" "beUpdate exBoltEnv" "beCommit exBoltEnv" "beBeforeCommit exBoltEnv" "beAfterCommit exBoltEnv"
    by (simp_all add: exBoltEnv_def)
  have res: "durableResolveForRoute exDurableMac exBoltEnv ''r'' '''' [exConversation] exDurable = (exDurable, durableUnknown)"
    by (simp add: durableResolveForRoute_def durableResolveWithRoute_def keys ex env)
  define o1 where "o1 = exStateOp\<lparr>pinnedTargetID := ''t1'', hardPinned := True\<rparr>"
  have conv: "stateType exConversation = stateBindingTypeConversationID" by (simp add: exConversation_def)
  have a: "applyDurableRequestStateBinding exDurableMac exBoltEnv [exConversation] exDurable exStateOp =
      (exDurable, o1, Some exConversation, None)"
    by (simp add: applyDurableRequestStateBinding_def op res boot forcePinnedTarget_def trimSpace_plain conv o1_def)
  have idz: "exIdentity \<noteq> zeroBytes32"
  proof -
    have "hd exIdentity \<noteq> hd zeroBytes32" by (simp add: exIdentity_def zeroBytes32_def)
    then show ?thesis by metis
  qed
  define owner where "owner = zeroOwner\<lparr>routeID := ''r'', targetID := ''t1'', ownerIdentity := exIdentity\<rparr>"
  have ov: "owner_valid owner" "ownerIdentity owner = exIdentity" by (simp_all add: owner_def owner_valid_def)
  obtain d2 where b: "durableBind exDurableMac (\<lambda>_. 0) exBoltEnv [exConversation] owner True exDurable =
      (d2, durableKnown (encodeOwner exDurableMac (dsKey exDurable) owner))"
    by (simp add: durableBind_def ov idz keys ex env bindUpdate_def Let_def)
  have v: "validateDurableRequestOwner exDurableMac (\<lambda>_. 0) exBoltEnv (Some exIdentity) (opRoute exStateOp) (exTarget ''t1'')
       (Some exConversation) exDurable o1 = (d2, o1\<lparr>stateOwnerIdentity := exIdentity\<rparr>, Inr exIdentity)"
    using b by (simp add: validateDurableRequestOwner_def ex op o1_def owner_def)
  have "tbId (exTarget ''t1'') = pinnedTargetID o1" "length exIdentity = 32"
      "\<forall>t \<in> set (targets (opRoute exStateOp)). trimSpace (tbId t) \<noteq> ''''"
    by (simp_all add: op o1_def exIdentity_def trimSpace_plain)
  from durable_request_needs_identity[OF ex_mac_ok ex_wf _ a v this] keys
  obtain w where "authority exDurableMac d2 k = Some (OwnedBy w)" "ownerIdentity w = exIdentity" by auto
  then show ?thesis using a v unfolding k_def by blast
qed

end
