(* ===== verification/Json_Validator.thy ===== *)
theory Json_Validator
  imports Prelude "HOL-Library.Char_ord"
begin

text \<open>
  The incremental validator of one JSON object (\<open>routeAttemptJSONValidator\<close> of
  \<open>proxy/route_executor.go\<close>): a pushdown automaton over single bytes that retains no values.
  The first half translates its operations; the second half states the grammar of RFC 8259
  (over bytes, with a bound on the nesting) and proves that the automaton accepts exactly the
  objects of the grammar, whatever the chunks it is fed with.

  The container stack, a fixed array with a depth index, is a list with the innermost container
  first; its length is the depth.
\<close>

section \<open>State\<close>

datatype routeAttemptJSONContainerState =
    routeAttemptJSONObjectKeyOrEnd
  | routeAttemptJSONObjectKey
  | routeAttemptJSONObjectColon
  | routeAttemptJSONObjectValue
  | routeAttemptJSONArrayValueOrEnd
  | routeAttemptJSONArrayValue
  | routeAttemptJSONContainerAfterValue

record routeAttemptJSONContainer =
  jcKind :: char
  jcState :: routeAttemptJSONContainerState

datatype routeAttemptJSONLexState =
    routeAttemptJSONLexNone
  | routeAttemptJSONLexString
  | routeAttemptJSONLexEscape
  | routeAttemptJSONLexUnicode
  | routeAttemptJSONLexNumber
  | routeAttemptJSONLexLiteral

datatype routeAttemptJSONNumberState =
    routeAttemptJSONNumberMinus
  | routeAttemptJSONNumberZero
  | routeAttemptJSONNumberInteger
  | routeAttemptJSONNumberDecimalPoint
  | routeAttemptJSONNumberFraction
  | routeAttemptJSONNumberExponent
  | routeAttemptJSONNumberExponentSign
  | routeAttemptJSONNumberExponentDigits

definition routeAttemptObservationJSONDepthMax :: nat where
  "routeAttemptObservationJSONDepthMax = 128"

record routeAttemptJSONValidator =
  jvStack :: "routeAttemptJSONContainer list"
  jvStarted :: bool
  jvDone :: bool
  jvInvalid :: bool
  jvLex :: routeAttemptJSONLexState
  jvStringIsKey :: bool
  jvUnicodeRemaining :: int
  jvNumber :: routeAttemptJSONNumberState
  jvLiteral :: string
  jvLiteralIndex :: nat

text \<open>The zero value of the struct.\<close>

definition newValidator :: routeAttemptJSONValidator where
  "newValidator =
     \<lparr>jvStack = [], jvStarted = False, jvDone = False, jvInvalid = False, jvLex = routeAttemptJSONLexNone,
      jvStringIsKey = False, jvUnicodeRemaining = 0, jvNumber = routeAttemptJSONNumberMinus,
      jvLiteral = '''', jvLiteralIndex = 0\<rparr>"

definition invalidate :: "routeAttemptJSONValidator \<Rightarrow> routeAttemptJSONValidator" where
  "invalidate v = v\<lparr>jvInvalid := True\<rparr>"

section \<open>Bytes\<close>

definition byteIn :: "char \<Rightarrow> char \<Rightarrow> char \<Rightarrow> bool" where
  "byteIn lo hi c \<longleftrightarrow> lo \<le> c \<and> c \<le> hi"

abbreviation isDigitByte :: "char \<Rightarrow> bool" where
  "isDigitByte \<equiv> byteIn (CHR ''0'') (CHR ''9'')"

definition isRouteAttemptJSONSpace :: "char \<Rightarrow> bool" where
  "isRouteAttemptJSONSpace c \<longleftrightarrow> c = CHR '' '' \<or> c = CHR 0x09 \<or> c = CHR 0x0D \<or> c = CHR 0x0A"

definition isRouteAttemptJSONHex :: "char \<Rightarrow> bool" where
  "isRouteAttemptJSONHex c \<longleftrightarrow>
     byteIn (CHR ''0'') (CHR ''9'') c \<or> byteIn (CHR ''a'') (CHR ''f'') c \<or> byteIn (CHR ''A'') (CHR ''F'') c"

definition isRouteAttemptJSONValueDelimiter :: "char \<Rightarrow> bool" where
  "isRouteAttemptJSONValueDelimiter c \<longleftrightarrow>
     isRouteAttemptJSONSpace c \<or> c = CHR '','' \<or> c = CHR ''}'' \<or> c = CHR '']''"

definition routeAttemptJSONDelimitersMatch :: "char \<Rightarrow> char \<Rightarrow> bool" where
  "routeAttemptJSONDelimitersMatch open' close' \<longleftrightarrow>
     (open' = CHR ''{'' \<and> close' = CHR ''}'') \<or> (open' = CHR ''['' \<and> close' = CHR '']'')"

section \<open>Containers\<close>

definition setFrameState ::
  "routeAttemptJSONContainerState \<Rightarrow> routeAttemptJSONValidator \<Rightarrow> routeAttemptJSONValidator" where
  "setFrameState st v =
     v\<lparr>jvStack := (case jvStack v of [] \<Rightarrow> [] | f # fs \<Rightarrow> f\<lparr>jcState := st\<rparr> # fs)\<rparr>"

definition valueComplete :: "routeAttemptJSONValidator \<Rightarrow> routeAttemptJSONValidator" where
  "valueComplete v =
     (case jvStack v of
        [] \<Rightarrow> invalidate v
      | f # _ \<Rightarrow>
          if jcState f \<in> {routeAttemptJSONObjectValue, routeAttemptJSONArrayValue, routeAttemptJSONArrayValueOrEnd}
          then setFrameState routeAttemptJSONContainerAfterValue v else invalidate v)"

definition pushContainer :: "char \<Rightarrow> routeAttemptJSONValidator \<Rightarrow> routeAttemptJSONValidator" where
  "pushContainer kind v =
     (if length (jvStack v) \<ge> routeAttemptObservationJSONDepthMax then invalidate v
      else if kind = CHR ''['' then v\<lparr>jvStack := \<lparr>jcKind = kind, jcState = routeAttemptJSONArrayValueOrEnd\<rparr> # jvStack v\<rparr>
      else if kind \<noteq> CHR ''{'' then invalidate v
      else v\<lparr>jvStack := \<lparr>jcKind = kind, jcState = routeAttemptJSONObjectKeyOrEnd\<rparr> # jvStack v\<rparr>)"

definition closeContainer :: "char \<Rightarrow> routeAttemptJSONValidator \<Rightarrow> routeAttemptJSONValidator" where
  "closeContainer close' v =
     (case jvStack v of
        [] \<Rightarrow> invalidate v
      | f # fs \<Rightarrow>
          if \<not> routeAttemptJSONDelimitersMatch (jcKind f) close' then invalidate v
          else let v1 = v\<lparr>jvStack := fs\<rparr>
               in if fs = [] then v1\<lparr>jvDone := True\<rparr> else valueComplete v1)"

section \<open>Strings, literals and numbers\<close>

definition startString :: "bool \<Rightarrow> routeAttemptJSONValidator \<Rightarrow> routeAttemptJSONValidator" where
  "startString key v = v\<lparr>jvLex := routeAttemptJSONLexString, jvStringIsKey := key, jvUnicodeRemaining := 0\<rparr>"

definition observeStringByte :: "char \<Rightarrow> routeAttemptJSONValidator \<Rightarrow> routeAttemptJSONValidator" where
  "observeStringByte c v =
     (if of_char c < (0x20 :: nat) then invalidate v
      else if c = CHR 0x5C then v\<lparr>jvLex := routeAttemptJSONLexEscape\<rparr>
      else if c = CHR 0x22 then
        let v1 = v\<lparr>jvLex := routeAttemptJSONLexNone\<rparr>
        in if jvStringIsKey v1 then
             (case jvStack v1 of
                [] \<Rightarrow> invalidate v1
              | f # _ \<Rightarrow> if jcKind f \<noteq> CHR ''{'' then invalidate v1
                         else setFrameState routeAttemptJSONObjectColon v1)
           else valueComplete v1
      else v)"

definition observeEscapeByte :: "char \<Rightarrow> routeAttemptJSONValidator \<Rightarrow> routeAttemptJSONValidator" where
  "observeEscapeByte c v =
     (if c \<in> {CHR 0x22, CHR 0x5C, CHR ''/'', CHR ''b'', CHR ''f'', CHR ''n'', CHR ''r'', CHR ''t''}
      then v\<lparr>jvLex := routeAttemptJSONLexString\<rparr>
      else if c = CHR ''u'' then v\<lparr>jvLex := routeAttemptJSONLexUnicode, jvUnicodeRemaining := 4\<rparr>
      else invalidate v)"

definition startLiteral :: "string \<Rightarrow> routeAttemptJSONValidator \<Rightarrow> routeAttemptJSONValidator" where
  "startLiteral literal v = v\<lparr>jvLex := routeAttemptJSONLexLiteral, jvLiteral := literal, jvLiteralIndex := 1\<rparr>"

definition startNumber ::
  "routeAttemptJSONNumberState \<Rightarrow> routeAttemptJSONValidator \<Rightarrow> routeAttemptJSONValidator" where
  "startNumber st v = v\<lparr>jvLex := routeAttemptJSONLexNumber, jvNumber := st\<rparr>"

definition startValue :: "char \<Rightarrow> routeAttemptJSONValidator \<Rightarrow> routeAttemptJSONValidator" where
  "startValue c v =
     (if c = CHR ''{'' \<or> c = CHR ''['' then pushContainer c v
      else if c = CHR 0x22 then startString False v
      else if c = CHR ''t'' then startLiteral ''true'' v
      else if c = CHR ''f'' then startLiteral ''false'' v
      else if c = CHR ''n'' then startLiteral ''null'' v
      else if c = CHR ''-'' then startNumber routeAttemptJSONNumberMinus v
      else if c = CHR ''0'' then startNumber routeAttemptJSONNumberZero v
      else if byteIn (CHR ''1'') (CHR ''9'') c then startNumber routeAttemptJSONNumberInteger v
      else invalidate v)"

text \<open>The second component is whether the byte was consumed as part of the number.\<close>

definition observeNumberByte ::
  "char \<Rightarrow> routeAttemptJSONValidator \<Rightarrow> routeAttemptJSONValidator \<times> bool" where
  "observeNumberByte c v =
     (let to = (\<lambda>st. (v\<lparr>jvNumber := st\<rparr>, True)); bad = (invalidate v, False);
          endOrBad = (if isRouteAttemptJSONValueDelimiter c then (v, False) else bad)
      in case jvNumber v of
        routeAttemptJSONNumberMinus \<Rightarrow>
          if c = CHR ''0'' then to routeAttemptJSONNumberZero
          else if byteIn (CHR ''1'') (CHR ''9'') c then to routeAttemptJSONNumberInteger
          else bad
      | routeAttemptJSONNumberZero \<Rightarrow>
          if c = CHR ''.'' then to routeAttemptJSONNumberDecimalPoint
          else if c = CHR ''e'' \<or> c = CHR ''E'' then to routeAttemptJSONNumberExponent
          else endOrBad
      | routeAttemptJSONNumberInteger \<Rightarrow>
          if isDigitByte c then (v, True)
          else if c = CHR ''.'' then to routeAttemptJSONNumberDecimalPoint
          else if c = CHR ''e'' \<or> c = CHR ''E'' then to routeAttemptJSONNumberExponent
          else endOrBad
      | routeAttemptJSONNumberDecimalPoint \<Rightarrow>
          if isDigitByte c then to routeAttemptJSONNumberFraction else bad
      | routeAttemptJSONNumberFraction \<Rightarrow>
          if isDigitByte c then (v, True)
          else if c = CHR ''e'' \<or> c = CHR ''E'' then to routeAttemptJSONNumberExponent
          else endOrBad
      | routeAttemptJSONNumberExponent \<Rightarrow>
          if c = CHR ''+'' \<or> c = CHR ''-'' then to routeAttemptJSONNumberExponentSign
          else if isDigitByte c then to routeAttemptJSONNumberExponentDigits
          else bad
      | routeAttemptJSONNumberExponentSign \<Rightarrow>
          if isDigitByte c then to routeAttemptJSONNumberExponentDigits else bad
      | routeAttemptJSONNumberExponentDigits \<Rightarrow>
          if isDigitByte c then (v, True) else endOrBad)"

section \<open>The automaton\<close>

text \<open>A byte outside of any token.\<close>

definition observeStructuralByte :: "char \<Rightarrow> routeAttemptJSONValidator \<Rightarrow> routeAttemptJSONValidator" where
  "observeStructuralByte c v =
     (if \<not> jvStarted v then
        (if isRouteAttemptJSONSpace c then v
         else if c \<noteq> CHR ''{'' then invalidate v
         else pushContainer c (v\<lparr>jvStarted := True\<rparr>))
      else case jvStack v of
        [] \<Rightarrow> invalidate v
      | frame # _ \<Rightarrow>
          if isRouteAttemptJSONSpace c then v
          else case jcState frame of
            routeAttemptJSONObjectKeyOrEnd \<Rightarrow>
              if c = CHR ''}'' then closeContainer c v
              else if c \<noteq> CHR 0x22 then invalidate v else startString True v
          | routeAttemptJSONObjectKey \<Rightarrow>
              if c \<noteq> CHR 0x22 then invalidate v else startString True v
          | routeAttemptJSONObjectColon \<Rightarrow>
              if c \<noteq> CHR '':'' then invalidate v else setFrameState routeAttemptJSONObjectValue v
          | routeAttemptJSONObjectValue \<Rightarrow> startValue c v
          | routeAttemptJSONArrayValue \<Rightarrow> startValue c v
          | routeAttemptJSONArrayValueOrEnd \<Rightarrow>
              if c = CHR '']'' then closeContainer c v else startValue c v
          | routeAttemptJSONContainerAfterValue \<Rightarrow>
              if c = CHR '','' then
                setFrameState (if jcKind frame = CHR ''{'' then routeAttemptJSONObjectKey
                               else routeAttemptJSONArrayValue) v
              else if (jcKind frame = CHR ''{'' \<and> c = CHR ''}'') \<or> (jcKind frame = CHR ''['' \<and> c = CHR '']'')
              then closeContainer c v
              else invalidate v)"

lemma valueComplete_lex [simp]: "jvLex (valueComplete v) = jvLex v"
  by (simp add: valueComplete_def invalidate_def setFrameState_def split: list.split)

text \<open>The byte that ends a number is observed again as a structural byte.\<close>

function observeByte :: "char \<Rightarrow> routeAttemptJSONValidator \<Rightarrow> routeAttemptJSONValidator" where
  "observeByte c v =
     (if jvInvalid v then v
      else if jvDone v then (if isRouteAttemptJSONSpace c then v else invalidate v)
      else case jvLex v of
        routeAttemptJSONLexString \<Rightarrow> observeStringByte c v
      | routeAttemptJSONLexEscape \<Rightarrow> observeEscapeByte c v
      | routeAttemptJSONLexUnicode \<Rightarrow>
          if \<not> isRouteAttemptJSONHex c then invalidate v
          else let v1 = v\<lparr>jvUnicodeRemaining := jvUnicodeRemaining v - 1\<rparr>
               in if jvUnicodeRemaining v1 = 0 then v1\<lparr>jvLex := routeAttemptJSONLexString\<rparr> else v1
      | routeAttemptJSONLexNumber \<Rightarrow>
          (let (v1, consumed) = observeNumberByte c v
           in if consumed then v1
              else if jvInvalid v1 then v1
              else observeByte c (valueComplete (v1\<lparr>jvLex := routeAttemptJSONLexNone\<rparr>)))
      | routeAttemptJSONLexLiteral \<Rightarrow>
          if jvLiteralIndex v \<ge> length (jvLiteral v) \<or> c \<noteq> jvLiteral v ! jvLiteralIndex v then invalidate v
          else let v1 = v\<lparr>jvLiteralIndex := jvLiteralIndex v + 1\<rparr>
               in if jvLiteralIndex v1 = length (jvLiteral v1)
                  then valueComplete (v1\<lparr>jvLex := routeAttemptJSONLexNone\<rparr>) else v1
      | routeAttemptJSONLexNone \<Rightarrow> observeStructuralByte c v)"
  by auto

termination
  by (relation "measure (\<lambda>(_, v). if jvLex v = routeAttemptJSONLexNumber then 1 else 0)") auto

declare observeByte.simps [simp del]

text \<open>The early return on an invalid state leaves the rest of the chunk unread; the state stays
  the same.\<close>

fun observe :: "string \<Rightarrow> routeAttemptJSONValidator \<Rightarrow> routeAttemptJSONValidator" where
  "observe [] v = v"
| "observe (c # p) v =
     (if jvInvalid v then v
      else let v1 = observeByte c v in if jvInvalid v1 then v1 else observe p v1)"

definition complete :: "routeAttemptJSONValidator \<Rightarrow> bool" where
  "complete v \<longleftrightarrow> jvStarted v \<and> jvDone v \<and> \<not> jvInvalid v \<and> jvLex v = routeAttemptJSONLexNone \<and> jvStack v = []"

definition failed :: "routeAttemptJSONValidator \<Rightarrow> bool" where
  "failed v \<longleftrightarrow> jvInvalid v"

section \<open>The grammar\<close>

text \<open>RFC 8259 over bytes; the first argument bounds the nesting of containers.\<close>

definition ws :: "string \<Rightarrow> bool" where
  "ws s \<longleftrightarrow> list_all isRouteAttemptJSONSpace s"

inductive string_body :: "string \<Rightarrow> bool" where
  empty: "string_body ''''"
| plain: "string_body s \<Longrightarrow> \<not> of_char c < (0x20 :: nat) \<Longrightarrow> c \<noteq> CHR 0x22 \<Longrightarrow> c \<noteq> CHR 0x5C \<Longrightarrow>
    string_body (s @ [c])"
| escape: "string_body s \<Longrightarrow> c \<in> set (CHR 0x22 # CHR 0x5C # ''/bfnrt'') \<Longrightarrow>
    string_body (s @ [CHR 0x5C, c])"
| unicode: "string_body s \<Longrightarrow> length h = 4 \<Longrightarrow> list_all isRouteAttemptJSONHex h \<Longrightarrow>
    string_body (s @ [CHR 0x5C, CHR ''u''] @ h)"

definition string_text :: "string \<Rightarrow> bool" where
  "string_text t \<longleftrightarrow> (\<exists>s. string_body s \<and> t = [CHR 0x22] @ s @ [CHR 0x22])"

definition digits1 :: "string \<Rightarrow> bool" where
  "digits1 s \<longleftrightarrow> s \<noteq> [] \<and> list_all isDigitByte s"

definition int_part :: "string \<Rightarrow> bool" where
  "int_part s \<longleftrightarrow> s = ''0'' \<or> (\<exists>c ds. s = c # ds \<and> byteIn (CHR ''1'') (CHR ''9'') c \<and> list_all isDigitByte ds)"

definition frac_part :: "string \<Rightarrow> bool" where
  "frac_part s \<longleftrightarrow> s = '''' \<or> (\<exists>ds. s = CHR ''.'' # ds \<and> digits1 ds)"

definition exp_part :: "string \<Rightarrow> bool" where
  "exp_part s \<longleftrightarrow> s = '''' \<or>
     (\<exists>e sg ds. s = e # sg @ ds \<and> e \<in> {CHR ''e'', CHR ''E''} \<and> sg \<in> {'''', ''+'', ''-''} \<and> digits1 ds)"

definition number_text :: "string \<Rightarrow> bool" where
  "number_text t \<longleftrightarrow> (\<exists>m i f e. t = m @ i @ f @ e \<and> m \<in> {'''', ''-''} \<and> int_part i \<and> frac_part f \<and> exp_part e)"

inductive value_text :: "nat \<Rightarrow> string \<Rightarrow> bool"
  and members :: "nat \<Rightarrow> string \<Rightarrow> bool"
  and elements :: "nat \<Rightarrow> string \<Rightarrow> bool"
where
  v_literal: "t \<in> {''true'', ''false'', ''null''} \<Longrightarrow> value_text d t"
| v_number: "number_text t \<Longrightarrow> value_text d t"
| v_string: "string_text t \<Longrightarrow> value_text d t"
| v_object0: "ws w \<Longrightarrow> value_text (Suc d) (''{'' @ w @ ''}'')"
| v_object: "members d m \<Longrightarrow> value_text (Suc d) (''{'' @ m @ ''}'')"
| v_array0: "ws w \<Longrightarrow> value_text (Suc d) (''['' @ w @ '']'')"
| v_array: "elements d m \<Longrightarrow> value_text (Suc d) (''['' @ m @ '']'')"
| m_first: "ws w1 \<Longrightarrow> string_text k \<Longrightarrow> ws w2 \<Longrightarrow> ws w3 \<Longrightarrow> value_text d t \<Longrightarrow> ws w4 \<Longrightarrow>
    members d (w1 @ k @ w2 @ '':'' @ w3 @ t @ w4)"
| m_next: "members d m \<Longrightarrow> ws w1 \<Longrightarrow> string_text k \<Longrightarrow> ws w2 \<Longrightarrow> ws w3 \<Longrightarrow> value_text d t \<Longrightarrow> ws w4 \<Longrightarrow>
    members d (m @ '','' @ w1 @ k @ w2 @ '':'' @ w3 @ t @ w4)"
| e_first: "ws w1 \<Longrightarrow> value_text d t \<Longrightarrow> ws w2 \<Longrightarrow> elements d (w1 @ t @ w2)"
| e_next: "elements d m \<Longrightarrow> ws w1 \<Longrightarrow> value_text d t \<Longrightarrow> ws w2 \<Longrightarrow> elements d (m @ '','' @ w1 @ t @ w2)"

text \<open>A JSON document whose root is an object, with surrounding white space.\<close>

definition object_document :: "nat \<Rightarrow> string \<Rightarrow> bool" where
  "object_document d p \<longleftrightarrow>
     (\<exists>w1 t w2. p = w1 @ t @ w2 \<and> ws w1 \<and> ws w2 \<and> value_text d t \<and> hd t = CHR ''{'')"

section \<open>Feeding bytes\<close>

lemma observe_invalid [simp]: "jvInvalid v \<Longrightarrow> observe p v = v"
  by (cases p) simp_all

lemma observe_Cons: "observe (c # p) v = observe p (observeByte c v)"
  by (cases "jvInvalid v") (simp_all add: Let_def observeByte.simps)

declare observe.simps(2) [simp del]

lemma observe_append: "observe (p @ q) v = observe q (observe p v)"
  by (induction p arbitrary: v) (simp_all add: observe_Cons)

lemma observe_one: "observe [c] v = observeByte c v"
  by (simp add: observe_Cons)

lemma ws_simps [simp]: "ws []" "ws (c # s) \<longleftrightarrow> isRouteAttemptJSONSpace c \<and> ws s"
  "ws (s @ t) \<longleftrightarrow> ws s \<and> ws t"
  by (simp_all add: ws_def)

section \<open>The automaton accepts the grammar\<close>

text \<open>A live state in the middle of the document.\<close>

definition lexing ::
  "routeAttemptJSONLexState \<Rightarrow> routeAttemptJSONContainer list \<Rightarrow> routeAttemptJSONValidator \<Rightarrow> bool" where
  "lexing lx stk v \<longleftrightarrow>
     jvStarted v \<and> \<not> jvDone v \<and> \<not> jvInvalid v \<and> jvLex v = lx \<and> jvStack v = stk"

abbreviation between :: "routeAttemptJSONContainer list \<Rightarrow> routeAttemptJSONValidator \<Rightarrow> bool" where
  "between \<equiv> lexing routeAttemptJSONLexNone"

definition expects_value :: "routeAttemptJSONContainer \<Rightarrow> bool" where
  "expects_value f \<longleftrightarrow>
     jcState f \<in> {routeAttemptJSONObjectValue, routeAttemptJSONArrayValue, routeAttemptJSONArrayValueOrEnd}"

definition expects_key :: "routeAttemptJSONContainer \<Rightarrow> bool" where
  "expects_key f \<longleftrightarrow> jcKind f = CHR ''{'' \<and>
     jcState f \<in> {routeAttemptJSONObjectKeyOrEnd, routeAttemptJSONObjectKey}"

definition final_number :: "routeAttemptJSONNumberState \<Rightarrow> bool" where
  "final_number st \<longleftrightarrow> st \<in> {routeAttemptJSONNumberZero, routeAttemptJSONNumberInteger,
     routeAttemptJSONNumberFraction, routeAttemptJSONNumberExponentDigits}"

text \<open>The state after a value in the container \<open>f\<close>: a number is only finished by the byte after it.\<close>

definition after_value ::
  "routeAttemptJSONContainer \<Rightarrow> routeAttemptJSONContainer list \<Rightarrow> routeAttemptJSONValidator \<Rightarrow> bool" where
  "after_value f fs v \<longleftrightarrow>
     between (f\<lparr>jcState := routeAttemptJSONContainerAfterValue\<rparr> # fs) v \<or>
     lexing routeAttemptJSONLexNumber (f # fs) v \<and> expects_value f \<and> final_number (jvNumber v)"

lemma observeByte_lexing:
  "between stk v \<Longrightarrow> observeByte c v = observeStructuralByte c v"
  "lexing routeAttemptJSONLexString stk v \<Longrightarrow> observeByte c v = observeStringByte c v"
  "lexing routeAttemptJSONLexEscape stk v \<Longrightarrow> observeByte c v = observeEscapeByte c v"
  "lexing routeAttemptJSONLexNumber stk v \<Longrightarrow> observeNumberByte c v = (v1, True) \<Longrightarrow> observeByte c v = v1"
  by (simp_all add: lexing_def observeByte.simps)

lemmas byte_defs = observeByte.simps observeStructuralByte_def observeStringByte_def observeEscapeByte_def
  startString_def startLiteral_def startNumber_def startValue_def setFrameState_def valueComplete_def invalidate_def

lemma space_not [simp]:
  "isRouteAttemptJSONSpace (CHR ''{'') = False" "isRouteAttemptJSONSpace (CHR ''}'') = False"
  "isRouteAttemptJSONSpace (CHR ''['') = False" "isRouteAttemptJSONSpace (CHR '']'') = False"
  "isRouteAttemptJSONSpace (CHR 0x22) = False" "isRouteAttemptJSONSpace (CHR '':'') = False"
  "isRouteAttemptJSONSpace (CHR '','') = False" "isRouteAttemptJSONSpace (CHR ''t'') = False"
  "isRouteAttemptJSONSpace (CHR ''f'') = False" "isRouteAttemptJSONSpace (CHR ''n'') = False"
  "isRouteAttemptJSONSpace (CHR ''-'') = False" "isRouteAttemptJSONSpace (CHR ''0'') = False"
  by (simp_all add: isRouteAttemptJSONSpace_def)

lemma digit_not_space: "isDigitByte c \<Longrightarrow> \<not> isRouteAttemptJSONSpace c"
  by (auto simp: isRouteAttemptJSONSpace_def byteIn_def)

lemma digit19: "byteIn (CHR ''1'') (CHR ''9'') c \<Longrightarrow> isDigitByte c"
  by (auto simp: byteIn_def less_eq_char_def)

lemma digit0: "isDigitByte (CHR ''0'')"
  by (simp add: byteIn_def)

lemma digit_not [simp]:
  "isDigitByte (CHR ''.'') = False" "isDigitByte (CHR ''e'') = False" "isDigitByte (CHR ''E'') = False"
  "isDigitByte (CHR ''+'') = False" "isDigitByte (CHR ''-'') = False"
  by (simp_all add: byteIn_def)

lemma digit19_not [simp]:
  "c \<in> set (CHR 0x22 # ''0{[tfn-]},:'') \<Longrightarrow> byteIn (CHR ''1'') (CHR ''9'') c = False"
  by (auto simp: byteIn_def)

lemma byteIn_neq: "byteIn lo hi c \<Longrightarrow> \<not> byteIn lo hi x \<Longrightarrow> c \<noteq> x"
  by auto

lemma startValue_number:
  assumes "byteIn (CHR ''1'') (CHR ''9'') c"
  shows "startValue c v = startNumber routeAttemptJSONNumberInteger v" "c \<noteq> CHR ''0''"
proof -
  show "c \<noteq> CHR ''0''" by (rule byteIn_neq[OF assms]) simp
  show "startValue c v = startNumber routeAttemptJSONNumberInteger v"
    using assms unfolding startValue_def by (simp add: byteIn_neq[OF assms])
qed

lemma ws_between: "between (f # fs) v \<Longrightarrow> ws w \<Longrightarrow> observe w v = v"
  by (induction w) (simp_all add: observe_Cons byte_defs lexing_def)

lemma string_body_run:
  "string_body s \<Longrightarrow> lexing routeAttemptJSONLexString stk v \<Longrightarrow>
     lexing routeAttemptJSONLexString stk (observe s v) \<and> jvStringIsKey (observe s v) = jvStringIsKey v"
proof (induction s rule: string_body.induct)
  case (unicode s h)
  then obtain a b c d where "h = [a, b, c, d]" by (auto simp: length_Suc_conv numeral_eq_Suc)
  with unicode show ?case by (auto simp: observe_append observe_Cons byte_defs lexing_def Let_def)
qed (auto simp: observe_append observe_Cons byte_defs lexing_def Let_def)

lemma string_key_run:
  assumes "string_text t" "between (f # fs) v" "expects_key f"
  shows "between (f\<lparr>jcState := routeAttemptJSONObjectColon\<rparr> # fs) (observe t v)"
proof -
  obtain s where s: "string_body s" "t = CHR 0x22 # s @ [CHR 0x22]" using assms(1) by (auto simp: string_text_def)
  have "observeByte (CHR 0x22) v = startString True v"
    using assms(2,3) by (auto simp: byte_defs lexing_def expects_key_def)
  moreover have "lexing routeAttemptJSONLexString (f # fs) (startString True v)"
    using assms(2) by (simp add: lexing_def startString_def)
  note string_body_run[OF s(1) this]
  ultimately show ?thesis using assms(3)
    by (simp add: s(2) observe_Cons observe_append)
      (simp add: byte_defs lexing_def expects_key_def Let_def)
qed

lemma string_value_run:
  assumes "string_text t" "between (f # fs) v" "expects_value f"
  shows "between (f\<lparr>jcState := routeAttemptJSONContainerAfterValue\<rparr> # fs) (observe t v)"
proof -
  obtain s where s: "string_body s" "t = CHR 0x22 # s @ [CHR 0x22]" using assms(1) by (auto simp: string_text_def)
  have "observeByte (CHR 0x22) v = startString False v"
    using assms(2,3) by (auto simp: byte_defs lexing_def expects_value_def)
  moreover have "lexing routeAttemptJSONLexString (f # fs) (startString False v)"
    using assms(2) by (simp add: lexing_def startString_def)
  note string_body_run[OF s(1) this]
  ultimately show ?thesis using assms(3)
    by (simp add: s(2) observe_Cons observe_append)
      (simp add: byte_defs lexing_def expects_value_def Let_def)
qed

lemma startValue_run:
  assumes "between (f # fs) v" "expects_value f" "\<not> isRouteAttemptJSONSpace c" "c \<noteq> CHR '']''"
  shows "observeByte c v = startValue c v"
  unfolding observeByte_lexing(1)[OF assms(1)]
  using assms unfolding expects_value_def
  by (elim insertE) (simp_all add: observeStructuralByte_def lexing_def)

lemma observeByte_literal:
  "lexing routeAttemptJSONLexLiteral stk v \<Longrightarrow> jvLiteralIndex v < length (jvLiteral v) \<Longrightarrow>
     observeByte (jvLiteral v ! jvLiteralIndex v) v =
       (let v1 = v\<lparr>jvLiteralIndex := jvLiteralIndex v + 1\<rparr>
        in if jvLiteralIndex v + 1 = length (jvLiteral v)
           then valueComplete (v1\<lparr>jvLex := routeAttemptJSONLexNone\<rparr>) else v1)"
  by (simp add: lexing_def observeByte.simps Let_def)

lemma valueComplete_run:
  assumes "between (f # fs) v" "expects_value f"
  shows "between (f\<lparr>jcState := routeAttemptJSONContainerAfterValue\<rparr> # fs) (valueComplete v)"
  using assms by (auto simp: lexing_def valueComplete_def setFrameState_def expects_value_def)

lemma literal_rest_run:
  "lexing routeAttemptJSONLexLiteral (f # fs) v \<Longrightarrow> expects_value f \<Longrightarrow> jvLiteralIndex v < length (jvLiteral v) \<Longrightarrow>
     between (f\<lparr>jcState := routeAttemptJSONContainerAfterValue\<rparr> # fs)
       (observe (drop (jvLiteralIndex v) (jvLiteral v)) v)"
proof (induction "length (jvLiteral v) - jvLiteralIndex v" arbitrary: v)
  case (Suc n)
  let ?i = "jvLiteralIndex v" and ?v = "v\<lparr>jvLiteralIndex := jvLiteralIndex v + 1\<rparr>"
  have obs: "observe (drop ?i (jvLiteral v)) v =
      observe (drop (Suc ?i) (jvLiteral v)) (observeByte (jvLiteral v ! ?i) v)"
    using Suc.prems(3) by (simp add: Cons_nth_drop_Suc[symmetric] observe_Cons)
  show ?case
  proof (cases "Suc ?i = length (jvLiteral v)")
    case True
    have "between (f # fs) (?v\<lparr>jvLex := routeAttemptJSONLexNone\<rparr>)"
      using Suc.prems(1) by (simp add: lexing_def)
    from valueComplete_run[OF this Suc.prems(2)] show ?thesis
      using True by (simp add: obs observeByte_literal[OF Suc.prems(1,3)])
  next
    case False
    have "lexing routeAttemptJSONLexLiteral (f # fs) ?v" using Suc.prems(1) by (simp add: lexing_def)
    from Suc.hyps(1)[OF _ this Suc.prems(2)] Suc.hyps(2) Suc.prems(3) False show ?thesis
      by (simp add: obs observeByte_literal[OF Suc.prems(1,3)])
  qed
qed simp

lemma literal_run:
  assumes "t \<in> {''true'', ''false'', ''null''}" "between (f # fs) v" "expects_value f"
  shows "between (f\<lparr>jcState := routeAttemptJSONContainerAfterValue\<rparr> # fs) (observe t v)"
proof -
  have "observe t v = observe (drop 1 t) (observeByte (hd t) v)"
    using assms(1) by (auto simp: observe_Cons)
  also have "observeByte (hd t) v = startLiteral t v"
    using assms(1) by (subst startValue_run[OF assms(2,3)]) (auto simp: startValue_def)
  finally have "observe t v = observe (drop 1 t) (startLiteral t v)" .
  moreover have "lexing routeAttemptJSONLexLiteral (f # fs) (startLiteral t v)"
    using assms(2) by (simp add: lexing_def startLiteral_def)
  from literal_rest_run[OF this assms(3)] assms(1)
  have "between (f\<lparr>jcState := routeAttemptJSONContainerAfterValue\<rparr> # fs)
      (observe (drop 1 t) (startLiteral t v))"
    by (auto simp: startLiteral_def)
  ultimately show ?thesis by simp
qed

section \<open>Numbers\<close>

definition in_number ::
  "routeAttemptJSONContainer list \<Rightarrow> routeAttemptJSONNumberState \<Rightarrow> routeAttemptJSONValidator \<Rightarrow> bool" where
  "in_number stk st v \<longleftrightarrow> lexing routeAttemptJSONLexNumber stk v \<and> jvNumber v = st"

lemma number_step:
  "in_number stk st v \<Longrightarrow> observeNumberByte c (v\<lparr>jvNumber := st\<rparr>) = (v\<lparr>jvNumber := st'\<rparr>, True) \<Longrightarrow>
     in_number stk st' (observeByte c v)"
  by (auto simp: in_number_def lexing_def observeByte.simps Let_def split: prod.splits)

lemma number_loop:
  assumes "in_number stk st v" "list_all isDigitByte ds"
    "st \<in> {routeAttemptJSONNumberInteger, routeAttemptJSONNumberFraction, routeAttemptJSONNumberExponentDigits}"
  shows "in_number stk st (observe ds v)"
  using assms(1,2)
proof (induction ds arbitrary: v)
  case (Cons c ds)
  have "in_number stk st (observeByte c v)"
    by (rule number_step[OF Cons.prems(1)]) (use Cons.prems assms(3) in \<open>auto simp: observeNumberByte_def\<close>)
  with Cons show ?case by (simp add: observe_Cons)
qed simp

lemma number_digits1:
  assumes "in_number stk st v" "digits1 ds"
    "(st, st') \<in> {(routeAttemptJSONNumberDecimalPoint, routeAttemptJSONNumberFraction),
       (routeAttemptJSONNumberExponent, routeAttemptJSONNumberExponentDigits),
       (routeAttemptJSONNumberExponentSign, routeAttemptJSONNumberExponentDigits)}"
  shows "in_number stk st' (observe ds v)"
proof -
  obtain c cs where ds: "ds = c # cs" "isDigitByte c" "list_all isDigitByte cs"
    using assms(2) by (cases ds) (auto simp: digits1_def)
  have "in_number stk st' (observeByte c v)"
    by (rule number_step[OF assms(1)])
      (use ds(2) assms(3) in \<open>auto simp: observeNumberByte_def\<close>)
  from number_loop[OF this ds(3)] assms(3) show ?thesis by (auto simp: ds(1) observe_Cons)
qed

lemma int_part_run:
  assumes "int_part i" "between (f # fs) v" "expects_value f" "m \<in> {'''', ''-''}"
  shows "\<exists>st. st \<in> {routeAttemptJSONNumberZero, routeAttemptJSONNumberInteger} \<and>
    in_number (f # fs) st (observe (m @ i) v)"
proof -
  obtain c ds where i: "i = c # ds" "list_all isDigitByte ds" "isDigitByte c"
    "c = CHR ''0'' \<and> ds = [] \<or> byteIn (CHR ''1'') (CHR ''9'') c"
    using assms(1) digit19 unfolding int_part_def by (metis digit0 list.pred_inject(1))
  define st where "st = (if c = CHR ''0'' then routeAttemptJSONNumberZero else routeAttemptJSONNumberInteger)"
  have first: "in_number (f # fs) st (observe (m @ [c]) v)"
  proof (cases "m = ''''")
    case True
    have "c \<noteq> CHR '']''" using i(3) by (auto simp: byteIn_def)
    moreover have "startValue c v = startNumber st v"
      using i(4) startValue_number(1)[of c v] by (cases "c = CHR ''0''") (simp_all add: st_def, simp add: startValue_def)
    ultimately show ?thesis using True digit_not_space[OF i(3)] assms(2)
      by (simp add: observe_one startValue_run[OF assms(2,3)])
        (simp add: startNumber_def in_number_def lexing_def)
  next
    case False
    have "in_number (f # fs) routeAttemptJSONNumberMinus (observeByte (CHR ''-'') v)"
      using assms(2) by (simp add: startValue_run[OF assms(2,3)] startValue_def)
        (simp add: startNumber_def in_number_def lexing_def)
    then have "in_number (f # fs) st (observeByte c (observeByte (CHR ''-'') v))"
      by (rule number_step) (use i(4) in \<open>auto simp: observeNumberByte_def st_def\<close>)
    then show ?thesis using False assms(4) by (simp add: observe_Cons)
  qed
  show ?thesis
  proof (cases "c = CHR ''0'' \<and> ds = []")
    case True
    with first show ?thesis by (auto simp: i(1) st_def)
  next
    case False
    then have "st = routeAttemptJSONNumberInteger" using i(4) by (auto simp: st_def)
    with number_loop[OF first i(2)] show ?thesis by (auto simp: i(1) observe_append observe_Cons)
  qed
qed

lemma frac_part_run:
  assumes "frac_part p" "st \<in> {routeAttemptJSONNumberZero, routeAttemptJSONNumberInteger}" "in_number stk st v"
  shows "\<exists>st'. st' \<in> {routeAttemptJSONNumberZero, routeAttemptJSONNumberInteger, routeAttemptJSONNumberFraction} \<and>
    in_number stk st' (observe p v)"
proof (cases p)
  case (Cons c ds)
  then have ds: "c = CHR ''.''" "digits1 ds" using assms(1) by (auto simp: frac_part_def)
  have "in_number stk routeAttemptJSONNumberDecimalPoint (observeByte c v)"
    by (rule number_step[OF assms(3)]) (use ds assms(2) in \<open>auto simp: observeNumberByte_def\<close>)
  from number_digits1[OF this ds(2)] show ?thesis by (auto simp: Cons observe_Cons)
qed (use assms in auto)

lemma exp_part_run:
  assumes "exp_part p" "final_number st" "st \<noteq> routeAttemptJSONNumberExponentDigits" "in_number stk st v"
  shows "\<exists>st'. final_number st' \<and> in_number stk st' (observe p v)"
proof (cases "p = ''''")
  case False
  then obtain e sg ds where p: "p = e # sg @ ds" "e \<in> {CHR ''e'', CHR ''E''}" "sg \<in> {'''', ''+'', ''-''}" "digits1 ds"
    using assms(1) by (auto simp: exp_part_def)
  have e: "in_number stk routeAttemptJSONNumberExponent (observeByte e v)"
    by (rule number_step[OF assms(4)])
      (use p(2) assms(2,3) in \<open>auto simp: observeNumberByte_def final_number_def\<close>)
  have "in_number stk routeAttemptJSONNumberExponentDigits (observe (sg @ ds) (observeByte e v))"
  proof (cases "sg = ''''")
    case True
    then show ?thesis using number_digits1[OF e p(4)] by simp
  next
    case False
    then have "in_number stk routeAttemptJSONNumberExponentSign (observe sg (observeByte e v))"
      using p(3) number_step[OF e, of _ routeAttemptJSONNumberExponentSign]
      by (auto simp: observe_one observeNumberByte_def)
    from number_digits1[OF this p(4)] show ?thesis by (simp add: observe_append)
  qed
  then show ?thesis by (auto simp: p(1) observe_Cons final_number_def)
qed (use assms in auto)

lemma number_run:
  assumes "number_text t" "between (f # fs) v" "expects_value f"
  shows "\<exists>st. final_number st \<and> in_number (f # fs) st (observe t v)"
proof -
  obtain m i p e where t: "t = (m @ i) @ p @ e" "m \<in> {'''', ''-''}" "int_part i" "frac_part p" "exp_part e"
    using assms(1) by (auto simp: number_text_def)
  from int_part_run[OF t(3) assms(2,3) t(2)] frac_part_run[OF t(4)]
  obtain st where "st \<in> {routeAttemptJSONNumberZero, routeAttemptJSONNumberInteger, routeAttemptJSONNumberFraction}"
    "in_number (f # fs) st (observe p (observe (m @ i) v))" by blast
  with exp_part_run[OF t(5)] show ?thesis by (auto simp: t(1) observe_append final_number_def)
qed

section \<open>Containers of the grammar\<close>

abbreviation obj_frame :: "routeAttemptJSONContainerState \<Rightarrow> routeAttemptJSONContainer" where
  "obj_frame st \<equiv> \<lparr>jcKind = CHR ''{'', jcState = st\<rparr>"

abbreviation arr_frame :: "routeAttemptJSONContainerState \<Rightarrow> routeAttemptJSONContainer" where
  "arr_frame st \<equiv> \<lparr>jcKind = CHR ''['', jcState = st\<rparr>"

lemma after_value_between:
  "between (f\<lparr>jcState := routeAttemptJSONContainerAfterValue\<rparr> # fs) v \<Longrightarrow> after_value f fs v"
  by (simp add: after_value_def)

lemma after_value_number:
  "in_number (f # fs) st v \<Longrightarrow> final_number st \<Longrightarrow> expects_value f \<Longrightarrow> after_value f fs v"
  by (auto simp: after_value_def in_number_def)

lemma delimiter_not [simp]:
  assumes "isRouteAttemptJSONValueDelimiter c"
  shows "isDigitByte c = False" "c \<noteq> CHR ''.''" "c \<noteq> CHR ''e''" "c \<noteq> CHR ''E''"
  using assms by (auto simp: isRouteAttemptJSONValueDelimiter_def isRouteAttemptJSONSpace_def byteIn_def)

lemma number_delimiter:
  "final_number (jvNumber v) \<Longrightarrow> isRouteAttemptJSONValueDelimiter c \<Longrightarrow> observeNumberByte c v = (v, False)"
  by (auto simp: final_number_def observeNumberByte_def)

lemma observeByte_number_end:
  assumes "lexing routeAttemptJSONLexNumber stk v" "observeNumberByte c v = (v, False)"
  shows "observeByte c v = observeByte c (valueComplete (v\<lparr>jvLex := routeAttemptJSONLexNone\<rparr>))"
  using assms by (subst observeByte.simps) (simp add: lexing_def)

lemma after_value_settle:
  assumes "after_value f fs v" "isRouteAttemptJSONValueDelimiter c"
  shows "\<exists>v'. between (f\<lparr>jcState := routeAttemptJSONContainerAfterValue\<rparr> # fs) v' \<and>
    observeByte c v = observeByte c v'"
  using assms(1) unfolding after_value_def
proof
  assume n: "lexing routeAttemptJSONLexNumber (f # fs) v \<and> expects_value f \<and> final_number (jvNumber v)"
  then have "between (f # fs) (v\<lparr>jvLex := routeAttemptJSONLexNone\<rparr>)" by (simp add: lexing_def)
  from valueComplete_run[OF this] observeByte_number_end[of _ v c] number_delimiter[OF _ assms(2), of v] n
  show ?thesis by blast
qed blast

lemma after_value_ws: "after_value f fs v \<Longrightarrow> ws w \<Longrightarrow> after_value f fs (observe w v)"
proof (induction w arbitrary: v)
  case (Cons c w)
  then have c: "isRouteAttemptJSONSpace c" by simp
  then have "isRouteAttemptJSONValueDelimiter c" by (simp add: isRouteAttemptJSONValueDelimiter_def)
  from after_value_settle[OF Cons.prems(1) this] obtain v' where v':
    "between (f\<lparr>jcState := routeAttemptJSONContainerAfterValue\<rparr> # fs) v'" "observeByte c v = observeByte c v'"
    by blast
  have "observeByte c v' = v'" using ws_between[OF v'(1), of "[c]"] c by (simp add: observe_one)
  with v' Cons show ?case by (simp add: observe_Cons after_value_between)
qed simp

lemma push_run:
  assumes "between (f # fs) v" "expects_value f" "length (f # fs) < routeAttemptObservationJSONDepthMax"
  shows "between (obj_frame routeAttemptJSONObjectKeyOrEnd # f # fs) (observeByte (CHR ''{'') v)"
    "between (arr_frame routeAttemptJSONArrayValueOrEnd # f # fs) (observeByte (CHR ''['') v)"
  using assms by (simp_all add: startValue_run[OF assms(1,2)] startValue_def pushContainer_def)
    (simp_all add: lexing_def)

text \<open>The state after a container is closed: its parent has a value, or the document is done.\<close>

definition closed :: "routeAttemptJSONContainer list \<Rightarrow> routeAttemptJSONValidator \<Rightarrow> bool" where
  "closed fs v \<longleftrightarrow> (case fs of
     [] \<Rightarrow> jvStarted v \<and> jvDone v \<and> \<not> jvInvalid v \<and> jvLex v = routeAttemptJSONLexNone \<and> jvStack v = []
   | g # gs \<Rightarrow> between (g\<lparr>jcState := routeAttemptJSONContainerAfterValue\<rparr> # gs) v)"

lemma closeContainer_run:
  assumes "between (f # fs) v" "routeAttemptJSONDelimitersMatch (jcKind f) c" "fs = [] \<or> expects_value (hd fs)"
  shows "closed fs (closeContainer c v)"
proof (cases fs)
  case Nil
  then show ?thesis using assms by (simp add: closed_def closeContainer_def lexing_def)
next
  case (Cons g gs)
  have "between (g # gs) (v\<lparr>jvStack := fs\<rparr>)" using assms(1) Cons by (simp add: lexing_def)
  from valueComplete_run[OF this] show ?thesis
    using assms Cons by (simp add: closed_def closeContainer_def lexing_def)
qed

lemma close_empty_run:
  assumes "fs = [] \<or> expects_value (hd fs)"
  shows "between (obj_frame routeAttemptJSONObjectKeyOrEnd # fs) v \<Longrightarrow> closed fs (observeByte (CHR ''}'') v)"
    "between (arr_frame routeAttemptJSONArrayValueOrEnd # fs) v \<Longrightarrow> closed fs (observeByte (CHR '']'') v)"
proof -
  assume b: "between (obj_frame routeAttemptJSONObjectKeyOrEnd # fs) v"
  from closeContainer_run[OF b _ assms, of "CHR ''}''"] b
  show "closed fs (observeByte (CHR ''}'') v)"
    unfolding observeByte_lexing(1)[OF b]
    by (simp add: observeStructuralByte_def routeAttemptJSONDelimitersMatch_def lexing_def)
next
  assume b: "between (arr_frame routeAttemptJSONArrayValueOrEnd # fs) v"
  from closeContainer_run[OF b _ assms, of "CHR '']''"] b
  show "closed fs (observeByte (CHR '']'') v)"
    unfolding observeByte_lexing(1)[OF b]
    by (simp add: observeStructuralByte_def routeAttemptJSONDelimitersMatch_def lexing_def)
qed

lemma close_run:
  assumes "after_value f fs v" "(jcKind f = CHR ''{'' \<and> c = CHR ''}'') \<or> (jcKind f = CHR ''['' \<and> c = CHR '']'')"
    "fs = [] \<or> expects_value (hd fs)"
  shows "closed fs (observeByte c v)"
proof -
  have "isRouteAttemptJSONValueDelimiter c" "\<not> isRouteAttemptJSONSpace c"
    using assms(2) by (auto simp: isRouteAttemptJSONValueDelimiter_def)
  from after_value_settle[OF assms(1) this(1)] obtain v' where b:
    "between (f\<lparr>jcState := routeAttemptJSONContainerAfterValue\<rparr> # fs) v'" "observeByte c v = observeByte c v'"
    by blast
  have "closed fs (closeContainer c v')"
    using closeContainer_run[OF b(1) _ assms(3)] assms(2) by (auto simp: routeAttemptJSONDelimitersMatch_def)
  then show ?thesis unfolding b(2) observeByte_lexing(1)[OF b(1)]
    using b(1) assms(2) by (auto simp: observeStructuralByte_def lexing_def)
qed

lemma comma_run:
  assumes "after_value f fs v" "jcKind f \<in> {CHR ''{'', CHR ''[''}"
  shows "between (f\<lparr>jcState := (if jcKind f = CHR ''{'' then routeAttemptJSONObjectKey
      else routeAttemptJSONArrayValue)\<rparr> # fs) (observeByte (CHR '','') v)"
proof -
  have "isRouteAttemptJSONValueDelimiter (CHR '','')" by (simp add: isRouteAttemptJSONValueDelimiter_def)
  from after_value_settle[OF assms(1) this] obtain v' where b:
    "between (f\<lparr>jcState := routeAttemptJSONContainerAfterValue\<rparr> # fs) v'"
    "observeByte (CHR '','') v = observeByte (CHR '','') v'" by blast
  then show ?thesis unfolding b(2) observeByte_lexing(1)[OF b(1)]
    by (simp add: observeStructuralByte_def lexing_def setFrameState_def)
qed

lemma colon_run:
  assumes "between (f\<lparr>jcState := routeAttemptJSONObjectColon\<rparr> # fs) v"
  shows "between (f\<lparr>jcState := routeAttemptJSONObjectValue\<rparr> # fs) (observeByte (CHR '':'') v)"
  unfolding observeByte_lexing(1)[OF assms]
  using assms by (simp add: observeStructuralByte_def lexing_def setFrameState_def)

lemma member_run:
  assumes "between (obj_frame st # fs) v" "expects_key (obj_frame st)"
    "ws w1" "string_text k" "ws w2" "ws w3"
  shows "between (obj_frame routeAttemptJSONObjectValue # fs) (observe (w1 @ k @ w2 @ '':'' @ w3) v)"
proof -
  let ?v1 = "observe k (observe w1 v)"
  have "between (obj_frame routeAttemptJSONObjectColon # fs) ?v1"
    using string_key_run[OF assms(4,1,2)] ws_between[OF assms(1,3)] by simp
  moreover from ws_between[OF this assms(5)] have "observe w2 ?v1 = ?v1" .
  ultimately have "between (obj_frame routeAttemptJSONObjectValue # fs) (observeByte (CHR '':'') (observe w2 ?v1))"
    using colon_run[of "obj_frame routeAttemptJSONObjectColon" fs] by simp
  with ws_between[OF this assms(6)] show ?thesis
    by (simp add: observe_append observe_Cons)
qed

lemma grammar_run:
  "value_text d t \<Longrightarrow> (\<forall>f fs v. between (f # fs) v \<longrightarrow> expects_value f \<longrightarrow>
      length (f # fs) + d \<le> routeAttemptObservationJSONDepthMax \<longrightarrow> after_value f fs (observe t v))"
  "members d m \<Longrightarrow> (\<forall>st fs v. between (obj_frame st # fs) v \<longrightarrow> expects_key (obj_frame st) \<longrightarrow>
      Suc (length fs) + d \<le> routeAttemptObservationJSONDepthMax \<longrightarrow>
      after_value (obj_frame routeAttemptJSONObjectValue) fs (observe m v))"
  "elements d m \<Longrightarrow> (\<forall>st fs v. between (arr_frame st # fs) v \<longrightarrow> expects_value (arr_frame st) \<longrightarrow>
      Suc (length fs) + d \<le> routeAttemptObservationJSONDepthMax \<longrightarrow>
      (\<exists>st'. after_value (arr_frame st') fs (observe m v)))"
proof (induction rule: value_text_members_elements.inducts)
  case (v_literal t d)
  then show ?case using literal_run after_value_between by blast
next
  case (v_number t d)
  then show ?case using number_run after_value_number by blast
next
  case (v_string t d)
  then show ?case using string_value_run after_value_between by blast
next
  case (v_object0 w d)
  show ?case
  proof (intro allI impI)
    fix f fs v assume a: "between (f # fs) v" "expects_value f" "length (f # fs) + Suc d \<le> routeAttemptObservationJSONDepthMax"
    then have b: "between (obj_frame routeAttemptJSONObjectKeyOrEnd # f # fs) (observeByte (CHR ''{'') v)"
      by (intro push_run) simp_all
    from close_empty_run(1)[of "f # fs"] b a ws_between[OF b v_object0]
    show "after_value f fs (observe (''{'' @ w @ ''}'') v)"
      by (simp add: observe_append observe_Cons closed_def after_value_between)
  qed
next
  case (v_array0 w d)
  show ?case
  proof (intro allI impI)
    fix f fs v assume a: "between (f # fs) v" "expects_value f" "length (f # fs) + Suc d \<le> routeAttemptObservationJSONDepthMax"
    then have b: "between (arr_frame routeAttemptJSONArrayValueOrEnd # f # fs) (observeByte (CHR ''['') v)"
      by (intro push_run) simp_all
    from close_empty_run(2)[of "f # fs"] b a ws_between[OF b v_array0]
    show "after_value f fs (observe (''['' @ w @ '']'') v)"
      by (simp add: observe_append observe_Cons closed_def after_value_between)
  qed
next
  case (v_object d m)
  show ?case
  proof (intro allI impI)
    fix f fs v assume a: "between (f # fs) v" "expects_value f" "length (f # fs) + Suc d \<le> routeAttemptObservationJSONDepthMax"
    then have b: "between (obj_frame routeAttemptJSONObjectKeyOrEnd # f # fs) (observeByte (CHR ''{'') v)"
      by (intro push_run) simp_all
    have "after_value (obj_frame routeAttemptJSONObjectValue) (f # fs) (observe m (observeByte (CHR ''{'') v))"
      using v_object.IH b a(3) by (simp add: expects_key_def)
    from close_run[OF this, of "CHR ''}''"] a(2)
    show "after_value f fs (observe (''{'' @ m @ ''}'') v)"
      by (simp add: observe_append observe_Cons closed_def after_value_between)
  qed
next
  case (v_array d m)
  show ?case
  proof (intro allI impI)
    fix f fs v assume a: "between (f # fs) v" "expects_value f" "length (f # fs) + Suc d \<le> routeAttemptObservationJSONDepthMax"
    then have b: "between (arr_frame routeAttemptJSONArrayValueOrEnd # f # fs) (observeByte (CHR ''['') v)"
      by (intro push_run) simp_all
    obtain st where "after_value (arr_frame st) (f # fs) (observe m (observeByte (CHR ''['') v))"
      using v_array.IH b a(3) by (fastforce simp: expects_value_def)
    from close_run[OF this, of "CHR '']''"] a(2)
    show "after_value f fs (observe (''['' @ m @ '']'') v)"
      by (simp add: observe_append observe_Cons closed_def after_value_between)
  qed
next
  case (m_first w1 k w2 w3 d t w4)
  show ?case
  proof (intro allI impI)
    fix st fs v assume a: "between (obj_frame st # fs) v" "expects_key (obj_frame st)"
      "Suc (length fs) + d \<le> routeAttemptObservationJSONDepthMax"
    note b = member_run[OF a(1,2) m_first.hyps(1-4)]
    have "after_value (obj_frame routeAttemptJSONObjectValue) fs (observe t (observe (w1 @ k @ w2 @ '':'' @ w3) v))"
      using m_first.IH b a(3) by (simp add: expects_value_def)
    from after_value_ws[OF this m_first.hyps(6)]
    show "after_value (obj_frame routeAttemptJSONObjectValue) fs (observe (w1 @ k @ w2 @ '':'' @ w3 @ t @ w4) v)"
      by (simp add: observe_append observe_Cons)
  qed
next
  case (m_next d m w1 k w2 w3 t w4)
  show ?case
  proof (intro allI impI)
    fix st fs v assume a: "between (obj_frame st # fs) v" "expects_key (obj_frame st)"
      "Suc (length fs) + d \<le> routeAttemptObservationJSONDepthMax"
    have "between (obj_frame routeAttemptJSONObjectKey # fs) (observeByte (CHR '','') (observe m v))"
      using comma_run[of "obj_frame routeAttemptJSONObjectValue" fs "observe m v"] m_next.IH(1) a by simp
    note b = member_run[OF this _ m_next.hyps(2-5)]
    have "after_value (obj_frame routeAttemptJSONObjectValue) fs
        (observe t (observe (w1 @ k @ w2 @ '':'' @ w3) (observeByte (CHR '','') (observe m v))))"
      using m_next.IH(2) b a(3) by (simp add: expects_value_def expects_key_def)
    from after_value_ws[OF this m_next.hyps(7)]
    show "after_value (obj_frame routeAttemptJSONObjectValue) fs
        (observe (m @ '','' @ w1 @ k @ w2 @ '':'' @ w3 @ t @ w4) v)"
      by (simp add: observe_append observe_Cons)
  qed
next
  case (e_first w1 d t w2)
  show ?case
  proof (intro allI impI exI)
    fix st fs v assume a: "between (arr_frame st # fs) v" "expects_value (arr_frame st)"
      "Suc (length fs) + d \<le> routeAttemptObservationJSONDepthMax"
    have "after_value (arr_frame st) fs (observe t (observe w1 v))"
      using e_first.IH a ws_between[OF a(1) e_first.hyps(1)] by simp
    from after_value_ws[OF this e_first.hyps(3)]
    show "after_value (arr_frame st) fs (observe (w1 @ t @ w2) v)" by (simp add: observe_append)
  qed
next
  case (e_next d m w1 t w2)
  show ?case
  proof (intro allI impI)
    fix st fs v assume a: "between (arr_frame st # fs) v" "expects_value (arr_frame st)"
      "Suc (length fs) + d \<le> routeAttemptObservationJSONDepthMax"
    then obtain st' where "after_value (arr_frame st') fs (observe m v)" using e_next.IH(1) by blast
    from comma_run[OF this] have b: "between (arr_frame routeAttemptJSONArrayValue # fs)
        (observeByte (CHR '','') (observe m v))" by simp
    have "after_value (arr_frame routeAttemptJSONArrayValue) fs
        (observe t (observe w1 (observeByte (CHR '','') (observe m v))))"
      using e_next.IH(2) a b ws_between[OF b e_next.hyps(2)] by (simp add: expects_value_def)
    from after_value_ws[OF this e_next.hyps(4)]
    show "\<exists>st'. after_value (arr_frame st') fs (observe (m @ '','' @ w1 @ t @ w2) v)"
      by (auto simp: observe_append observe_Cons)
  qed
qed

lemma value_text_object:
  assumes "value_text d t" "hd t = CHR ''{''"
  obtains e w where "d = Suc e" "t = ''{'' @ w @ ''}''" "ws w \<or> members e w"
  using assms
proof (cases rule: value_text.cases)
  case v_number
  then show ?thesis using assms(2)
    by (auto simp: number_text_def int_part_def byteIn_def)
qed (use assms(2) in \<open>auto simp: string_text_def intro: that\<close>)

lemma closed_ws: "closed [] v \<Longrightarrow> ws w \<Longrightarrow> observe w v = v"
  by (induction w) (simp_all add: observe_Cons closed_def observeByte.simps)

lemma document_accepted:
  assumes "object_document routeAttemptObservationJSONDepthMax p"
  shows "complete (observe p newValidator)"
proof -
  obtain w1 t w2 where p: "p = w1 @ t @ w2" "ws w1" "ws w2"
    "value_text routeAttemptObservationJSONDepthMax t" "hd t = CHR ''{''"
    using assms by (auto simp: object_document_def)
  obtain e w where t: "routeAttemptObservationJSONDepthMax = Suc e" "t = ''{'' @ w @ ''}''" "ws w \<or> members e w"
    by (rule value_text_object[OF p(4,5)])
  have start: "observe w1 newValidator = newValidator"
    using p(2) by (induction w1) (simp_all add: observe_Cons observeByte.simps observeStructuralByte_def newValidator_def)
  let ?v = "observeByte (CHR ''{'') newValidator"
  have b: "between [obj_frame routeAttemptJSONObjectKeyOrEnd] ?v"
    by (simp add: newValidator_def observeByte.simps observeStructuralByte_def pushContainer_def
        routeAttemptObservationJSONDepthMax_def) (simp add: lexing_def)
  from t(3) have "closed [] (observe (w @ ''}'') ?v)"
  proof
    assume "ws w"
    then show ?thesis using close_empty_run(1)[OF _ b] ws_between[OF b]
      by (simp add: observe_append observe_Cons)
  next
    assume "members e w"
    then have "after_value (obj_frame routeAttemptJSONObjectValue) [] (observe w ?v)"
      using grammar_run(2) b t(1) by (fastforce simp: expects_key_def)
    from close_run[OF this, of "CHR ''}''"] show ?thesis
      by (simp add: observe_append observe_Cons)
  qed
  then have "closed [] (observe (w @ ''}'' @ w2) ?v)"
    using closed_ws[OF _ p(3)] by (simp add: observe_append observe_Cons)
  then show ?thesis using start
    by (simp add: p(1) t(2) observe_append observe_Cons closed_def complete_def)
qed

section \<open>The grammar contains what the automaton accepts\<close>

text \<open>The text of an open container so far, without the container open inside it.\<close>

definition object_open :: "nat \<Rightarrow> routeAttemptJSONContainerState \<Rightarrow> string \<Rightarrow> bool" where
  "object_open d st t \<longleftrightarrow>
     (st = routeAttemptJSONObjectKeyOrEnd \<and> (\<exists>w. ws w \<and> t = ''{'' @ w)) \<or>
     (st = routeAttemptJSONObjectKey \<and> (\<exists>m w. members d m \<and> ws w \<and> t = ''{'' @ m @ '','' @ w))"

fun object_text :: "nat \<Rightarrow> routeAttemptJSONContainerState \<Rightarrow> string \<Rightarrow> bool" where
  "object_text d routeAttemptJSONObjectColon t =
     (\<exists>st t0 k w. object_open d st t0 \<and> string_text k \<and> ws w \<and> t = t0 @ k @ w)"
| "object_text d routeAttemptJSONObjectValue t =
     (\<exists>st t0 k w w'. object_open d st t0 \<and> string_text k \<and> ws w \<and> ws w' \<and> t = t0 @ k @ w @ '':'' @ w')"
| "object_text d routeAttemptJSONContainerAfterValue t = (\<exists>m. members d m \<and> t = ''{'' @ m)"
| "object_text d st t = object_open d st t"

fun array_text :: "nat \<Rightarrow> routeAttemptJSONContainerState \<Rightarrow> string \<Rightarrow> bool" where
  "array_text d routeAttemptJSONArrayValueOrEnd t = (\<exists>w. ws w \<and> t = ''['' @ w)"
| "array_text d routeAttemptJSONArrayValue t = (\<exists>m w. elements d m \<and> ws w \<and> t = ''['' @ m @ '','' @ w)"
| "array_text d routeAttemptJSONContainerAfterValue t = (\<exists>m. elements d m \<and> t = ''['' @ m)"
| "array_text d _ t = False"

definition frame_text :: "nat \<Rightarrow> routeAttemptJSONContainer \<Rightarrow> string \<Rightarrow> bool" where
  "frame_text d f t \<longleftrightarrow>
     (jcKind f = CHR ''{'' \<and> object_text d (jcState f) t) \<or>
     (jcKind f = CHR ''['' \<and> array_text d (jcState f) t)"

fun stack_text :: "routeAttemptJSONContainer list \<Rightarrow> string \<Rightarrow> bool" where
  "stack_text [] p = ws p"
| "stack_text (f # fs) p =
     (\<exists>p0 t. p = p0 @ t \<and> stack_text fs p0 \<and> length (f # fs) \<le> routeAttemptObservationJSONDepthMax \<and>
        (if fs = [] then jcKind f = CHR ''{'' else expects_value (hd fs)) \<and>
        frame_text (routeAttemptObservationJSONDepthMax - length (f # fs)) f t)"

text \<open>The value texts that an open number can still become.\<close>

definition number_int :: "string \<Rightarrow> bool" where
  "number_int l \<longleftrightarrow> (\<exists>m i. l = m @ i \<and> m \<in> {'''', ''-''} \<and> int_part i)"

definition number_frac :: "string \<Rightarrow> bool" where
  "number_frac l \<longleftrightarrow> (\<exists>b f. l = b @ f \<and> number_int b \<and> frac_part f)"

fun number_prefix :: "routeAttemptJSONNumberState \<Rightarrow> string \<Rightarrow> bool" where
  "number_prefix routeAttemptJSONNumberMinus l = (l = ''-'')"
| "number_prefix routeAttemptJSONNumberZero l = number_int l"
| "number_prefix routeAttemptJSONNumberInteger l =
     (\<exists>m c ds. l = m @ c # ds \<and> m \<in> {'''', ''-''} \<and> byteIn (CHR ''1'') (CHR ''9'') c \<and> list_all isDigitByte ds)"
| "number_prefix routeAttemptJSONNumberDecimalPoint l = (\<exists>b. l = b @ ''.'' \<and> number_int b)"
| "number_prefix routeAttemptJSONNumberFraction l = (\<exists>b ds. l = b @ ''.'' @ ds \<and> number_int b \<and> digits1 ds)"
| "number_prefix routeAttemptJSONNumberExponent l =
     (\<exists>b e. l = b @ [e] \<and> number_frac b \<and> e \<in> {CHR ''e'', CHR ''E''})"
| "number_prefix routeAttemptJSONNumberExponentSign l =
     (\<exists>b e sg. l = b @ [e, sg] \<and> number_frac b \<and> e \<in> {CHR ''e'', CHR ''E''} \<and> sg \<in> {CHR ''+'', CHR ''-''})"
| "number_prefix routeAttemptJSONNumberExponentDigits l =
     (\<exists>b e sg ds. l = b @ e # sg @ ds \<and> number_frac b \<and> e \<in> {CHR ''e'', CHR ''E''} \<and>
        sg \<in> {'''', ''+'', ''-''} \<and> digits1 ds)"

definition lex_text :: "routeAttemptJSONValidator \<Rightarrow> string \<Rightarrow> bool" where
  "lex_text v l =
     (let top = hd (jvStack v);
          in_string = (if jvStringIsKey v then expects_key top else expects_value top)
      in case jvLex v of
        routeAttemptJSONLexNone \<Rightarrow> l = ''''
      | routeAttemptJSONLexString \<Rightarrow> in_string \<and> (\<exists>s. string_body s \<and> l = CHR 0x22 # s)
      | routeAttemptJSONLexEscape \<Rightarrow> in_string \<and> (\<exists>s. string_body s \<and> l = CHR 0x22 # s @ [CHR 0x5C])
      | routeAttemptJSONLexUnicode \<Rightarrow> in_string \<and> 0 < jvUnicodeRemaining v \<and>
          (\<exists>s h. string_body s \<and> list_all isRouteAttemptJSONHex h \<and> int (length h) + jvUnicodeRemaining v = 4 \<and>
             l = CHR 0x22 # s @ [CHR 0x5C, CHR ''u''] @ h)
      | routeAttemptJSONLexNumber \<Rightarrow> expects_value top \<and> number_prefix (jvNumber v) l
      | routeAttemptJSONLexLiteral \<Rightarrow> expects_value top \<and>
          jvLiteral v \<in> {''true'', ''false'', ''null''} \<and> jvLiteralIndex v < length (jvLiteral v) \<and>
          l = take (jvLiteralIndex v) (jvLiteral v))"

text \<open>What a state that is not invalid says about the bytes \<open>p\<close> consumed so far.\<close>

definition consumed :: "string \<Rightarrow> routeAttemptJSONValidator \<Rightarrow> bool" where
  "consumed p v \<longleftrightarrow>
     (if \<not> jvStarted v then
        jvStack v = [] \<and> jvLex v = routeAttemptJSONLexNone \<and> \<not> jvDone v \<and> ws p
      else if jvDone v then
        jvStack v = [] \<and> jvLex v = routeAttemptJSONLexNone \<and>
        object_document routeAttemptObservationJSONDepthMax p
      else jvStack v \<noteq> [] \<and> (\<exists>p0 l. p = p0 @ l \<and> stack_text (jvStack v) p0 \<and> lex_text v l))"

subsection \<open>Extending the texts\<close>

lemma object_document_ws: "object_document d p \<Longrightarrow> isRouteAttemptJSONSpace c \<Longrightarrow> object_document d (p @ [c])"
  unfolding object_document_def
proof (elim exE conjE)
  fix w1 t w2 assume a: "isRouteAttemptJSONSpace c" "p = w1 @ t @ w2" "ws w1" "ws w2" "value_text d t" "hd t = CHR ''{''"
  then show "\<exists>w1 t w2. p @ [c] = w1 @ t @ w2 \<and> ws w1 \<and> ws w2 \<and> value_text d t \<and> hd t = CHR ''{''"
    by (intro exI[of _ w1] exI[of _ t] exI[of _ "w2 @ [c]"]) simp
qed

lemma members_ws: "members d m \<Longrightarrow> isRouteAttemptJSONSpace c \<Longrightarrow> members d (m @ [c])"
proof (erule members.cases, goal_cases)
  case (1 w1 k w2 w3 d' t w4)
  then show ?case using m_first[of w1 k w2 w3 d' t "w4 @ [c]"] by simp
next
  case (2 d' m' w1 k w2 w3 t w4)
  then show ?case using m_next[of d' m' w1 k w2 w3 t "w4 @ [c]"] by simp
qed

lemma elements_ws: "elements d m \<Longrightarrow> isRouteAttemptJSONSpace c \<Longrightarrow> elements d (m @ [c])"
proof (erule elements.cases, goal_cases)
  case (1 w1 d' t w2)
  then show ?case using e_first[of w1 d' t "w2 @ [c]"] by simp
next
  case (2 d' m' w1 t w2)
  then show ?case using e_next[of d' m' w1 t "w2 @ [c]"] by simp
qed

lemma object_open_ws:
  assumes "object_open d st t" "isRouteAttemptJSONSpace c"
  shows "object_open d st (t @ [c])"
proof -
  from assms(1) consider w where "st = routeAttemptJSONObjectKeyOrEnd" "ws w" "t = ''{'' @ w"
    | m w where "st = routeAttemptJSONObjectKey" "members d m" "ws w" "t = ''{'' @ m @ '','' @ w"
    unfolding object_open_def by blast
  then show ?thesis
  proof cases
    case (1 w)
    then have "ws (w @ [c])" "t @ [c] = ''{'' @ (w @ [c])" using assms(2) by simp_all
    with 1(1) show ?thesis unfolding object_open_def by blast
  next
    case (2 m w)
    then have "ws (w @ [c])" "t @ [c] = ''{'' @ m @ '','' @ (w @ [c])" using assms(2) by simp_all
    with 2(1,2) show ?thesis unfolding object_open_def by blast
  qed
qed

lemma object_text_ws:
  assumes "object_text d st t" "isRouteAttemptJSONSpace c"
  shows "object_text d st (t @ [c])"
proof (cases st)
  case routeAttemptJSONObjectColon
  then obtain st0 t0 k w where x: "object_open d st0 t0" "string_text k" "ws (w @ [c])" "t @ [c] = t0 @ k @ (w @ [c])"
    using assms by auto
  then show ?thesis unfolding routeAttemptJSONObjectColon object_text.simps by blast
next
  case routeAttemptJSONObjectValue
  then obtain st0 t0 k w w' where x: "object_open d st0 t0" "string_text k" "ws w" "ws (w' @ [c])"
    "t @ [c] = t0 @ k @ w @ '':'' @ (w' @ [c])"
    using assms by auto
  then show ?thesis unfolding routeAttemptJSONObjectValue object_text.simps by blast
next
  case routeAttemptJSONContainerAfterValue
  then show ?thesis using assms members_ws by fastforce
qed (use assms object_open_ws in auto)

lemma array_text_ws:
  assumes "array_text d st t" "isRouteAttemptJSONSpace c"
  shows "array_text d st (t @ [c])"
proof (cases st)
  case routeAttemptJSONArrayValueOrEnd
  then obtain w where "ws (w @ [c])" "t @ [c] = ''['' @ (w @ [c])" using assms by auto
  then show ?thesis unfolding routeAttemptJSONArrayValueOrEnd array_text.simps by blast
next
  case routeAttemptJSONArrayValue
  then obtain m w where "elements d m" "ws (w @ [c])" "t @ [c] = ''['' @ m @ '','' @ (w @ [c])" using assms by auto
  then show ?thesis unfolding routeAttemptJSONArrayValue array_text.simps by blast
next
  case routeAttemptJSONContainerAfterValue
  then show ?thesis using assms elements_ws by fastforce
qed (use assms in auto)

lemma frame_text_ws: "frame_text d f t \<Longrightarrow> isRouteAttemptJSONSpace c \<Longrightarrow> frame_text d f (t @ [c])"
  using object_text_ws array_text_ws by (auto simp: frame_text_def)

lemma open_member:
  assumes "object_open d st t0" "string_text k" "ws w" "ws w'" "value_text d x"
  shows "\<exists>m. members d m \<and> t0 @ k @ w @ '':'' @ w' @ x = ''{'' @ m"
  using assms(1) unfolding object_open_def
proof (elim disjE exE conjE)
  fix w1 assume a: "ws w1" "t0 = ''{'' @ w1"
  show ?thesis using m_first[OF a(1) assms(2-5), of "''''"] a(2) by auto
next
  fix m w1 assume a: "members d m" "ws w1" "t0 = ''{'' @ m @ '','' @ w1"
  show ?thesis using m_next[OF a(1,2) assms(2-5), of "''''"] a(3) by auto
qed

lemma frame_text_value:
  assumes "frame_text d f t" "expects_value f" "value_text d x"
  shows "frame_text d (f\<lparr>jcState := routeAttemptJSONContainerAfterValue\<rparr>) (t @ x)"
proof -
  consider "jcKind f = CHR ''{''" "jcState f = routeAttemptJSONObjectValue"
    | "jcKind f = CHR ''[''" "jcState f = routeAttemptJSONArrayValueOrEnd"
    | "jcKind f = CHR ''[''" "jcState f = routeAttemptJSONArrayValue"
    using assms(1,2) by (auto simp: frame_text_def expects_value_def object_open_def)
  then show ?thesis
  proof cases
    case 1
    with assms(1) obtain st t0 k w w' where "object_open d st t0" "string_text k" "ws w" "ws w'"
      "t = t0 @ k @ w @ '':'' @ w'" by (auto simp: frame_text_def)
    with open_member[OF this(1-4) assms(3)] 1(1) show ?thesis by (auto simp: frame_text_def)
  next
    case 2
    with assms(1) obtain w where "ws w" "t = ''['' @ w" by (auto simp: frame_text_def)
    with e_first[OF this(1) assms(3), of "''''"] 2 show ?thesis by (auto simp: frame_text_def)
  next
    case 3
    with assms(1) obtain m w where "elements d m" "ws w" "t = ''['' @ m @ '','' @ w" by (auto simp: frame_text_def)
    with e_next[OF this(1,2) assms(3), of "''''"] 3 show ?thesis by (auto simp: frame_text_def)
  qed
qed

text \<open>The top of the stack changes its state and its text grows by \<open>x\<close>.\<close>

lemma stack_text_top:
  assumes "stack_text (f # fs) p" "jcKind f' = jcKind f"
    "\<And>t. frame_text (routeAttemptObservationJSONDepthMax - length (f # fs)) f t \<Longrightarrow>
       frame_text (routeAttemptObservationJSONDepthMax - length (f # fs)) f' (t @ x)"
  shows "stack_text (f' # fs) (p @ x)"
proof -
  from assms(1) obtain p0 t where p: "p = p0 @ t" "stack_text fs p0"
    "length (f # fs) \<le> routeAttemptObservationJSONDepthMax"
    "if fs = [] then jcKind f = CHR ''{'' else expects_value (hd fs)"
    "frame_text (routeAttemptObservationJSONDepthMax - length (f # fs)) f t" by auto
  from assms(3)[OF p(5)] p(3,4) assms(2) show ?thesis unfolding p(1) stack_text.simps
    by (intro exI[of _ p0] exI[of _ "t @ x"]) (simp add: p(2))
qed

lemma stack_text_value:
  assumes "stack_text (f # fs) p" "expects_value f"
    "value_text (routeAttemptObservationJSONDepthMax - length (f # fs)) x"
  shows "stack_text (f\<lparr>jcState := routeAttemptJSONContainerAfterValue\<rparr> # fs) (p @ x)"
  by (rule stack_text_top[OF assms(1)]) (simp_all only: frame_text_value[OF _ assms(2,3)], simp)

lemma stack_text_ws:
  "stack_text (f # fs) p \<Longrightarrow> isRouteAttemptJSONSpace c \<Longrightarrow> stack_text (f # fs) (p @ [c])"
  by (erule stack_text_top) (simp_all add: frame_text_ws)

text \<open>A closed container is a value of the grammar.\<close>

lemma frame_text_close:
  assumes "frame_text d f t" "routeAttemptJSONDelimitersMatch (jcKind f) c"
    "jcState f \<in> {routeAttemptJSONObjectKeyOrEnd, routeAttemptJSONArrayValueOrEnd, routeAttemptJSONContainerAfterValue}"
  shows "value_text (Suc d) (t @ [c]) \<and> hd (t @ [c]) = jcKind f"
proof -
  have "value_text (Suc d) (''{'' @ w @ ''}'')" "value_text (Suc d) (''['' @ w @ '']'')" if "ws w" for w
    using v_object0 v_array0 that by blast+
  moreover have "members d m \<Longrightarrow> value_text (Suc d) (''{'' @ m @ ''}'')"
    "elements d m \<Longrightarrow> value_text (Suc d) (''['' @ m @ '']'')" for m
    using v_object v_array by blast+
  ultimately show ?thesis using assms
    by (auto simp: frame_text_def routeAttemptJSONDelimitersMatch_def object_open_def)
qed

lemma stack_text_close:
  assumes "stack_text (f # fs) p" "routeAttemptJSONDelimitersMatch (jcKind f) c"
    "jcState f \<in> {routeAttemptJSONObjectKeyOrEnd, routeAttemptJSONArrayValueOrEnd, routeAttemptJSONContainerAfterValue}"
  shows "fs = [] \<Longrightarrow> object_document routeAttemptObservationJSONDepthMax (p @ [c])"
    "fs = g # gs \<Longrightarrow> stack_text (g\<lparr>jcState := routeAttemptJSONContainerAfterValue\<rparr> # gs) (p @ [c])"
proof -
  let ?N = routeAttemptObservationJSONDepthMax
  from assms(1) obtain p0 t where p: "p = p0 @ t" "stack_text fs p0" "length (f # fs) \<le> ?N"
    "if fs = [] then jcKind f = CHR ''{'' else expects_value (hd fs)"
    "frame_text (?N - length (f # fs)) f t" by auto
  have "Suc (?N - length (f # fs)) = ?N - length fs" using p(3) by simp
  with frame_text_close[OF p(5) assms(2,3)]
  have v: "value_text (?N - length fs) (t @ [c])" "hd (t @ [c]) = jcKind f" by auto
  show "fs = [] \<Longrightarrow> object_document ?N (p @ [c])"
    unfolding object_document_def
    using v p(1,2,4) by (intro exI[of _ p0] exI[of _ "t @ [c]"] exI[of _ "''''"]) simp
  assume fs: "fs = g # gs"
  with stack_text_value[of g gs p0 "t @ [c]"] v(1) p(1,2,4)
  show "stack_text (g\<lparr>jcState := routeAttemptJSONContainerAfterValue\<rparr> # gs) (p @ [c])" by simp
qed

subsection \<open>One byte\<close>

lemma consumed_live:
  "jvStarted v \<Longrightarrow> \<not> jvDone v \<Longrightarrow> jvStack v \<noteq> [] \<Longrightarrow> stack_text (jvStack v) p \<Longrightarrow> lex_text v l \<Longrightarrow> consumed (p @ l) v"
  by (auto simp: consumed_def)

lemma consumed_between:
  assumes "between (f # fs) v" "stack_text (f # fs) p"
  shows "consumed p v"
  using consumed_live[of v p "''''"] assms by (simp add: lexing_def lex_text_def)

lemma valueComplete_valid:
  assumes "between (f # fs) v" "\<not> jvInvalid (valueComplete v)"
  shows "expects_value f" "between (f\<lparr>jcState := routeAttemptJSONContainerAfterValue\<rparr> # fs) (valueComplete v)"
proof -
  show "expects_value f" using assms
    by (auto simp: valueComplete_def lexing_def expects_value_def invalidate_def split: if_splits)
  from valueComplete_run[OF assms(1) this]
  show "between (f\<lparr>jcState := routeAttemptJSONContainerAfterValue\<rparr> # fs) (valueComplete v)" .
qed

lemma valueComplete_consumed:
  assumes "between (f # fs) v" "stack_text (f # fs) p" "\<not> jvInvalid (valueComplete v)"
    "value_text (routeAttemptObservationJSONDepthMax - length (f # fs)) x"
  shows "consumed (p @ x) (valueComplete v)"
  using consumed_between[OF valueComplete_valid(2)[OF assms(1,3)] stack_text_value[OF assms(2) _ assms(4)]]
    valueComplete_valid(1)[OF assms(1,3)] by simp

lemma closeContainer_consumed:
  assumes "between (f # fs) v" "stack_text (f # fs) p" "\<not> jvInvalid (closeContainer c v)"
    "jcState f \<in> {routeAttemptJSONObjectKeyOrEnd, routeAttemptJSONArrayValueOrEnd, routeAttemptJSONContainerAfterValue}"
  shows "consumed (p @ [c]) (closeContainer c v)"
proof -
  have m: "routeAttemptJSONDelimitersMatch (jcKind f) c"
    using assms(1,3) by (auto simp: closeContainer_def lexing_def invalidate_def split: if_splits)
  note close = stack_text_close[OF assms(2) m assms(4)]
  have ok: "fs = [] \<or> expects_value (hd fs)" using assms(2) by (auto split: if_splits)
  have cl: "closed fs (closeContainer c v)" by (rule closeContainer_run[OF assms(1) m ok])
  show ?thesis
  proof (cases fs)
    case Nil
    then show ?thesis using cl close(1) by (simp add: closed_def consumed_def)
  next
    case (Cons g gs)
    then show ?thesis using cl close(2)[OF Cons] consumed_between by (simp add: closed_def)
  qed
qed

lemma pushContainer_consumed:
  assumes "between (f # fs) v" "stack_text (f # fs) p" "expects_value f" "\<not> jvInvalid (pushContainer c v)"
  shows "consumed (p @ [c]) (pushContainer c v)"
proof -
  have len: "length (f # fs) < routeAttemptObservationJSONDepthMax" and c: "c \<in> {CHR ''{'', CHR ''[''}"
    using assms(1,4) by (auto simp: pushContainer_def lexing_def invalidate_def split: if_splits)
  define st where "st = (if c = CHR ''['' then routeAttemptJSONArrayValueOrEnd else routeAttemptJSONObjectKeyOrEnd)"
  have b: "between (\<lparr>jcKind = c, jcState = st\<rparr> # f # fs) (pushContainer c v)"
    using assms(1) len c unfolding lexing_def pushContainer_def st_def by auto
  have "frame_text d \<lparr>jcKind = c, jcState = st\<rparr> [c]" for d
    using c by (auto simp: frame_text_def st_def object_open_def)
  moreover have "length (\<lparr>jcKind = c, jcState = st\<rparr> # f # fs) \<le> routeAttemptObservationJSONDepthMax" using len by simp
  ultimately have "stack_text (\<lparr>jcKind = c, jcState = st\<rparr> # f # fs) (p @ [c])"
    unfolding stack_text.simps(2)[of "\<lparr>jcKind = c, jcState = st\<rparr>" "f # fs"]
    using assms(2,3) by (intro exI[of _ p] exI[of _ "[c]"]) (simp del: stack_text.simps)
  from consumed_between[OF b this] show ?thesis .
qed

lemma startString_consumed:
  assumes "between (f # fs) v" "stack_text (f # fs) p" "if key then expects_key f else expects_value f"
  shows "consumed (p @ [CHR 0x22]) (startString key v)"
proof (rule consumed_live)
  show "lex_text (startString key v) [CHR 0x22]"
    using assms(1,3) string_body.empty by (auto simp: lex_text_def startString_def lexing_def Let_def)
qed (use assms in \<open>simp_all add: startString_def lexing_def\<close>)

lemma startLiteral_consumed:
  assumes "between (f # fs) v" "stack_text (f # fs) p" "expects_value f" "t \<in> {''true'', ''false'', ''null''}"
  shows "consumed (p @ [hd t]) (startLiteral t v)"
proof (rule consumed_live)
  show "lex_text (startLiteral t v) [hd t]"
    using assms(1,3,4) by (auto simp: lex_text_def startLiteral_def lexing_def Let_def)
qed (use assms in \<open>simp_all add: startLiteral_def lexing_def\<close>)

lemma startNumber_consumed:
  assumes "between (f # fs) v" "stack_text (f # fs) p" "expects_value f" "number_prefix st [c]"
  shows "consumed (p @ [c]) (startNumber st v)"
proof (rule consumed_live)
  show "lex_text (startNumber st v) [c]"
    using assms(1,3,4) by (simp add: lex_text_def startNumber_def lexing_def Let_def)
qed (use assms in \<open>simp_all add: startNumber_def lexing_def\<close>)

lemma number_prefix_start:
  "number_prefix routeAttemptJSONNumberMinus ''-''" "number_prefix routeAttemptJSONNumberZero ''0''"
  "byteIn (CHR ''1'') (CHR ''9'') c \<Longrightarrow> number_prefix routeAttemptJSONNumberInteger [c]"
proof -
  show "number_prefix routeAttemptJSONNumberInteger [c]" if "byteIn (CHR ''1'') (CHR ''9'') c"
    unfolding number_prefix.simps
    by (rule exI[of _ "''''"], rule exI[of _ c], rule exI[of _ "''''"]) (simp add: that)
qed (auto simp: number_int_def int_part_def)

lemma startValue_consumed:
  assumes "between (f # fs) v" "stack_text (f # fs) p" "expects_value f" "\<not> jvInvalid (startValue c v)"
  shows "consumed (p @ [c]) (startValue c v)"
proof -
  consider "c = CHR ''{'' \<or> c = CHR ''[''" | "c = CHR 0x22" | "c = CHR ''t''" | "c = CHR ''f''" | "c = CHR ''n''"
    | "c = CHR ''-''" | "c = CHR ''0''" | "byteIn (CHR ''1'') (CHR ''9'') c"
    using assms(4) by (auto simp: startValue_def invalidate_def split: if_splits)
  then show ?thesis
  proof cases
    case 1
    then have "startValue c v = pushContainer c v" by (simp add: startValue_def)
    with pushContainer_consumed[OF assms(1-3)] assms(4) show ?thesis by simp
  next
    case 2
    with startString_consumed[OF assms(1,2), of False] assms(3) show ?thesis by (simp add: startValue_def)
  next
    case 8
    with startValue_number(1)[OF 8] startNumber_consumed[OF assms(1-3) number_prefix_start(3)[OF 8]]
    show ?thesis by simp
  qed (use startLiteral_consumed[OF assms(1-3), of "''true''"] startLiteral_consumed[OF assms(1-3), of "''false''"]
      startLiteral_consumed[OF assms(1-3), of "''null''"] startNumber_consumed[OF assms(1-3)] number_prefix_start
      in \<open>simp_all add: startValue_def\<close>)
qed

lemma setFrameState_consumed:
  assumes "between (f # fs) v" "stack_text (f # fs) p"
    "\<And>d t. frame_text d f t \<Longrightarrow> frame_text d (f\<lparr>jcState := st\<rparr>) (t @ x)"
  shows "consumed (p @ x) (setFrameState st v)"
proof (rule consumed_between)
  show "between (f\<lparr>jcState := st\<rparr> # fs) (setFrameState st v)"
    using assms(1) by (simp add: setFrameState_def lexing_def)
  show "stack_text (f\<lparr>jcState := st\<rparr> # fs) (p @ x)"
    by (rule stack_text_top[OF assms(2)]) (simp_all add: assms(3))
qed

lemma frame_text_colon:
  assumes "frame_text d f t" "jcState f = routeAttemptJSONObjectColon"
  shows "frame_text d (f\<lparr>jcState := routeAttemptJSONObjectValue\<rparr>) (t @ '':'')"
proof -
  obtain st t0 k w where "jcKind f = CHR ''{''" "object_open d st t0" "string_text k" "ws w" "t = t0 @ k @ w"
    using assms by (auto simp: frame_text_def)
  moreover from this have "t @ '':'' = t0 @ k @ w @ '':'' @ ''''" "ws ''''" by simp_all
  ultimately have "object_text d routeAttemptJSONObjectValue (t @ '':'')"
    unfolding object_text.simps by blast
  with \<open>jcKind f = CHR ''{''\<close> show ?thesis by (simp add: frame_text_def)
qed

lemma frame_text_comma:
  assumes "frame_text d f t" "jcState f = routeAttemptJSONContainerAfterValue"
  shows "frame_text d (f\<lparr>jcState := (if jcKind f = CHR ''{'' then routeAttemptJSONObjectKey
    else routeAttemptJSONArrayValue)\<rparr>) (t @ '','')"
proof -
  have "\<exists>m' w. members d m' \<and> ws w \<and> m @ '','' = m' @ '','' @ w" if "members d m" for m
    using that by (intro exI[of _ m] exI[of _ "''''"]) simp
  moreover have "\<exists>m' w. elements d m' \<and> ws w \<and> m @ '','' = m' @ '','' @ w" if "elements d m" for m
    using that by (intro exI[of _ m] exI[of _ "''''"]) simp
  ultimately show ?thesis using assms by (auto simp: frame_text_def object_open_def)
qed

lemma structural_consumed:
  assumes "consumed p v" "jvLex v = routeAttemptJSONLexNone" "\<not> jvDone v" "\<not> jvInvalid v"
    "\<not> jvInvalid (observeStructuralByte c v)"
  shows "consumed (p @ [c]) (observeStructuralByte c v)"
proof (cases "jvStarted v")
  case False
  then have v: "jvStack v = []" "ws p" using assms(1) by (simp_all add: consumed_def)
  show ?thesis
  proof (cases "isRouteAttemptJSONSpace c")
    case True
    then show ?thesis using False v assms by (simp add: observeStructuralByte_def consumed_def)
  next
    case ns: False
    then have c: "c = CHR ''{''" using False assms(5)
      by (auto simp: observeStructuralByte_def invalidate_def split: if_splits)
    let ?f = "obj_frame routeAttemptJSONObjectKeyOrEnd"
    have "between [?f] (observeStructuralByte c v)"
      using False c v assms(2-4) by (simp add: observeStructuralByte_def pushContainer_def
          routeAttemptObservationJSONDepthMax_def) (simp add: lexing_def)
    moreover have "frame_text d ?f ''{''" for d by (simp add: frame_text_def object_open_def)
    then have "stack_text [?f] (p @ [c])"
      using v(2) c by (auto simp: routeAttemptObservationJSONDepthMax_def)
    ultimately show ?thesis using consumed_between by blast
  qed
next
  case True
  with assms(1,3) have ne: "jvStack v \<noteq> []" by (simp add: consumed_def)
  then obtain f fs where stk: "jvStack v = f # fs" by (cases "jvStack v") auto
  with True assms have b: "between (f # fs) v" and tx: "stack_text (f # fs) p"
    by (auto simp: lexing_def consumed_def lex_text_def)
  have kind: "jcKind f = CHR ''{'' \<or> jcKind f = CHR ''[''" using tx by (auto simp: frame_text_def)
  show ?thesis
  proof (cases "isRouteAttemptJSONSpace c")
    case sp: True
    then show ?thesis using True stk consumed_between[OF b stack_text_ws[OF tx sp]]
      by (simp add: observeStructuralByte_def)
  next
    case ns: False
    note step = observeStructuralByte_def[of c v]
    show ?thesis
    proof (cases "jcState f")
      case routeAttemptJSONObjectKeyOrEnd
      then have "expects_key f" using tx by (auto simp: frame_text_def expects_key_def)
      then show ?thesis using step True stk ns routeAttemptJSONObjectKeyOrEnd assms(5)
          closeContainer_consumed[OF b tx, of c] startString_consumed[OF b tx, of True]
        by (auto simp: invalidate_def split: if_splits)
    next
      case routeAttemptJSONObjectKey
      then have "expects_key f" using tx by (auto simp: frame_text_def expects_key_def)
      then show ?thesis using step True stk ns routeAttemptJSONObjectKey assms(5)
          startString_consumed[OF b tx, of True]
        by (auto simp: invalidate_def split: if_splits)
    next
      case routeAttemptJSONObjectColon
      with step True stk ns assms(5) have "c = CHR '':''"
        "observeStructuralByte c v = setFrameState routeAttemptJSONObjectValue v"
        by (auto simp: invalidate_def split: if_splits)
      with setFrameState_consumed[OF b tx frame_text_colon[OF _ routeAttemptJSONObjectColon]] show ?thesis by simp
    next
      case routeAttemptJSONContainerAfterValue
      show ?thesis
      proof (cases "c = CHR '',''")
        case comma: True
        with step True stk ns routeAttemptJSONContainerAfterValue
          setFrameState_consumed[OF b tx frame_text_comma[OF _ routeAttemptJSONContainerAfterValue]]
        show ?thesis by simp
      next
        case False
        with step True stk ns routeAttemptJSONContainerAfterValue assms(5)
        have "observeStructuralByte c v = closeContainer c v"
          by (auto simp: invalidate_def split: if_splits)
        with closeContainer_consumed[OF b tx, of c] routeAttemptJSONContainerAfterValue assms(5)
        show ?thesis by simp
      qed
    next
      case routeAttemptJSONArrayValueOrEnd
      then have "expects_value f" by (simp add: expects_value_def)
      then show ?thesis using step True stk ns routeAttemptJSONArrayValueOrEnd assms(5)
          closeContainer_consumed[OF b tx, of c] startValue_consumed[OF b tx, of c]
        by (auto split: if_splits)
    qed (use step True stk ns assms(5) startValue_consumed[OF b tx, of c] in \<open>simp_all add: expects_value_def\<close>)
  qed
qed

subsection \<open>Numbers\<close>

lemma digits1_snoc: "isDigitByte c \<Longrightarrow> digits1 [c]" "digits1 ds \<Longrightarrow> isDigitByte c \<Longrightarrow> digits1 (ds @ [c])"
  by (simp_all add: digits1_def)

lemma number_frac_intros:
  "number_int b \<Longrightarrow> number_frac b" "number_int b \<Longrightarrow> digits1 ds \<Longrightarrow> number_frac (b @ ''.'' @ ds)"
  by (auto simp: number_frac_def frac_part_def)

lemma number_prefix_integer: "number_prefix routeAttemptJSONNumberInteger l \<Longrightarrow> number_int l"
  by (auto simp: number_int_def int_part_def)

lemma number_frac_exp:
  assumes "number_frac b" "exp_part e"
  shows "number_text (b @ e)"
proof -
  obtain m i f where "b = (m @ i) @ f" "m \<in> {'''', ''-''}" "int_part i" "frac_part f"
    using assms(1) unfolding number_frac_def number_int_def by blast
  then show ?thesis using assms(2) unfolding number_text_def
    by (intro exI[of _ m] exI[of _ i] exI[of _ f] exI[of _ e]) simp
qed

lemma number_prefix_final:
  assumes "number_prefix st l" "final_number st"
  shows "number_text l"
proof -
  have frac: "number_frac l \<Longrightarrow> number_text l"
    using number_frac_exp[of l "''''"] by (simp add: exp_part_def)
  show ?thesis
  proof (cases st)
    case routeAttemptJSONNumberExponentDigits
    with assms(1) obtain b e sg ds where b: "l = b @ e # sg @ ds" "number_frac b" "e \<in> {CHR ''e'', CHR ''E''}"
      "sg \<in> {'''', ''+'', ''-''}" "digits1 ds" by auto
    then have "exp_part (e # sg @ ds)" unfolding exp_part_def by blast
    with number_frac_exp[OF b(2)] b(1) show ?thesis by simp
  qed (use assms frac number_frac_intros number_prefix_integer in \<open>auto simp: final_number_def\<close>)
qed

lemma number_step_prefix:
  assumes "observeNumberByte c v = (v', True)" "number_prefix (jvNumber v) l"
  shows "\<exists>st. v' = v\<lparr>jvNumber := st\<rparr> \<and> number_prefix st (l @ [c])"
proof (cases "jvNumber v")
  case routeAttemptJSONNumberMinus
  then have l: "l = ''-''" using assms(2) by simp
  consider "c = CHR ''0''" "v' = v\<lparr>jvNumber := routeAttemptJSONNumberZero\<rparr>"
    | "byteIn (CHR ''1'') (CHR ''9'') c" "v' = v\<lparr>jvNumber := routeAttemptJSONNumberInteger\<rparr>"
    using assms(1) routeAttemptJSONNumberMinus by (auto simp: observeNumberByte_def split: if_splits)
  then show ?thesis
  proof cases
    case 1
    have "number_int (l @ [c])" unfolding number_int_def
      using l 1(1) by (intro exI[of _ l] exI[of _ "''0''"]) (simp add: int_part_def)
    then show ?thesis using 1(2) by (intro exI[of _ routeAttemptJSONNumberZero]) simp
  next
    case 2
    then have "number_prefix routeAttemptJSONNumberInteger (l @ [c])"
      unfolding number_prefix.simps by (intro exI[of _ l] exI[of _ c] exI[of _ "''''"]) (simp add: l)
    with 2 show ?thesis by blast
  qed
next
  case routeAttemptJSONNumberZero
  then have l: "number_int l" using assms(2) by simp
  consider "c = CHR ''.''" "v' = v\<lparr>jvNumber := routeAttemptJSONNumberDecimalPoint\<rparr>"
    | "c \<in> {CHR ''e'', CHR ''E''}" "v' = v\<lparr>jvNumber := routeAttemptJSONNumberExponent\<rparr>"
    using assms(1) routeAttemptJSONNumberZero by (auto simp: observeNumberByte_def split: if_splits)
  then show ?thesis
  proof cases
    case 1
    then show ?thesis using l by (intro exI[of _ routeAttemptJSONNumberDecimalPoint]) simp
  next
    case 2
    then show ?thesis using number_frac_intros(1)[OF l] by (intro exI[of _ routeAttemptJSONNumberExponent]) auto
  qed
next
  case routeAttemptJSONNumberInteger
  then have l: "number_int l" using assms(2) number_prefix_integer by simp
  obtain m d ds where m: "l = m @ d # ds" "m \<in> {'''', ''-''}" "byteIn (CHR ''1'') (CHR ''9'') d" "list_all isDigitByte ds"
    using assms(2) routeAttemptJSONNumberInteger by auto
  consider "isDigitByte c" "v' = v" | "c = CHR ''.''" "v' = v\<lparr>jvNumber := routeAttemptJSONNumberDecimalPoint\<rparr>"
    | "c \<in> {CHR ''e'', CHR ''E''}" "v' = v\<lparr>jvNumber := routeAttemptJSONNumberExponent\<rparr>"
    using assms(1) routeAttemptJSONNumberInteger by (auto simp: observeNumberByte_def split: if_splits)
  then show ?thesis
  proof cases
    case 1
    then have "number_prefix routeAttemptJSONNumberInteger (l @ [c])"
      unfolding number_prefix.simps using m by (intro exI[of _ m] exI[of _ d] exI[of _ "ds @ [c]"]) simp
    moreover have "v' = v\<lparr>jvNumber := routeAttemptJSONNumberInteger\<rparr>" using 1(2) routeAttemptJSONNumberInteger by simp
    ultimately show ?thesis by blast
  next
    case 2
    then show ?thesis using l by (intro exI[of _ routeAttemptJSONNumberDecimalPoint]) simp
  next
    case 3
    then show ?thesis using number_frac_intros(1)[OF l] by (intro exI[of _ routeAttemptJSONNumberExponent]) auto
  qed
next
  case routeAttemptJSONNumberDecimalPoint
  then obtain b where b: "l = b @ ''.''" "number_int b" using assms(2) by auto
  have c: "isDigitByte c" "v' = v\<lparr>jvNumber := routeAttemptJSONNumberFraction\<rparr>"
    using assms(1) routeAttemptJSONNumberDecimalPoint by (auto simp: observeNumberByte_def split: if_splits)
  have "number_prefix routeAttemptJSONNumberFraction (l @ [c])"
    unfolding number_prefix.simps using b digits1_snoc(1)[OF c(1)] by (intro exI[of _ b] exI[of _ "[c]"]) simp
  with c(2) show ?thesis by blast
next
  case routeAttemptJSONNumberFraction
  then obtain b ds where b: "l = b @ ''.'' @ ds" "number_int b" "digits1 ds" using assms(2) by auto
  consider "isDigitByte c" "v' = v"
    | "c \<in> {CHR ''e'', CHR ''E''}" "v' = v\<lparr>jvNumber := routeAttemptJSONNumberExponent\<rparr>"
    using assms(1) routeAttemptJSONNumberFraction by (auto simp: observeNumberByte_def split: if_splits)
  then show ?thesis
  proof cases
    case 1
    then have "number_prefix routeAttemptJSONNumberFraction (l @ [c])"
      unfolding number_prefix.simps using b digits1_snoc(2)[OF b(3)]
      by (intro exI[of _ b] exI[of _ "ds @ [c]"]) simp
    moreover have "v' = v\<lparr>jvNumber := routeAttemptJSONNumberFraction\<rparr>" using 1(2) routeAttemptJSONNumberFraction by simp
    ultimately show ?thesis by blast
  next
    case 2
    have "number_frac l" using number_frac_intros(2)[OF b(2,3)] b(1) by simp
    with 2 show ?thesis by (intro exI[of _ routeAttemptJSONNumberExponent]) auto
  qed
next
  case routeAttemptJSONNumberExponent
  then obtain b e where b: "l = b @ [e]" "number_frac b" "e \<in> {CHR ''e'', CHR ''E''}" using assms(2) by auto
  consider "c \<in> {CHR ''+'', CHR ''-''}" "v' = v\<lparr>jvNumber := routeAttemptJSONNumberExponentSign\<rparr>"
    | "isDigitByte c" "v' = v\<lparr>jvNumber := routeAttemptJSONNumberExponentDigits\<rparr>"
    using assms(1) routeAttemptJSONNumberExponent by (auto simp: observeNumberByte_def split: if_splits)
  then show ?thesis
  proof cases
    case 1
    have "number_prefix routeAttemptJSONNumberExponentSign (l @ [c])"
      unfolding number_prefix.simps using b 1(1) by (intro exI[of _ b] exI[of _ e] exI[of _ c]) simp
    with 1(2) show ?thesis by blast
  next
    case 2
    have "number_prefix routeAttemptJSONNumberExponentDigits (l @ [c])"
      unfolding number_prefix.simps using b digits1_snoc(1)[OF 2(1)]
      by (intro exI[of _ b] exI[of _ e] exI[of _ "''''"] exI[of _ "[c]"]) simp
    with 2(2) show ?thesis by blast
  qed
next
  case routeAttemptJSONNumberExponentSign
  then obtain b e sg where b: "l = b @ [e, sg]" "number_frac b" "e \<in> {CHR ''e'', CHR ''E''}"
    "sg \<in> {CHR ''+'', CHR ''-''}" using assms(2) by auto
  have c: "isDigitByte c" "v' = v\<lparr>jvNumber := routeAttemptJSONNumberExponentDigits\<rparr>"
    using assms(1) routeAttemptJSONNumberExponentSign by (auto simp: observeNumberByte_def split: if_splits)
  have "number_prefix routeAttemptJSONNumberExponentDigits (l @ [c])"
    unfolding number_prefix.simps using b digits1_snoc(1)[OF c(1)]
    by (intro exI[of _ b] exI[of _ e] exI[of _ "[sg]"] exI[of _ "[c]"]) auto
  with c(2) show ?thesis by blast
next
  case routeAttemptJSONNumberExponentDigits
  then obtain b e sg ds where b: "l = b @ e # sg @ ds" "number_frac b" "e \<in> {CHR ''e'', CHR ''E''}"
    "sg \<in> {'''', ''+'', ''-''}" "digits1 ds" using assms(2) by auto
  have c: "isDigitByte c" "v' = v"
    using assms(1) routeAttemptJSONNumberExponentDigits by (auto simp: observeNumberByte_def split: if_splits)
  have "number_prefix routeAttemptJSONNumberExponentDigits (l @ [c])"
    unfolding number_prefix.simps using b digits1_snoc(2)[OF b(5) c(1)]
    by (intro exI[of _ b] exI[of _ e] exI[of _ sg] exI[of _ "ds @ [c]"]) simp
  moreover have "v' = v\<lparr>jvNumber := routeAttemptJSONNumberExponentDigits\<rparr>" using c(2) routeAttemptJSONNumberExponentDigits by simp
  ultimately show ?thesis by blast
qed

lemma number_step_end:
  assumes "observeNumberByte c v = (v', False)" "\<not> jvInvalid v'"
  shows "v' = v \<and> final_number (jvNumber v)"
  using assms by (cases "jvNumber v")
    (auto simp: observeNumberByte_def invalidate_def final_number_def split: if_splits)

subsection \<open>Tokens\<close>

text \<open>A live state inside of a token: the text before it, the token so far and the stack.\<close>

definition in_token ::
  "string \<Rightarrow> string \<Rightarrow> routeAttemptJSONContainer \<Rightarrow> routeAttemptJSONContainer list \<Rightarrow> routeAttemptJSONValidator \<Rightarrow> bool" where
  "in_token p l f fs v \<longleftrightarrow>
     jvStarted v \<and> \<not> jvDone v \<and> \<not> jvInvalid v \<and> jvStack v = f # fs \<and> stack_text (f # fs) p \<and> lex_text v l"

lemma in_token_next:
  assumes "in_token p l f fs v" "jvStack v' = f # fs" "jvStarted v' = jvStarted v" "jvDone v' = jvDone v" "lex_text v' l'"
  shows "consumed (p @ l') v'"
  using consumed_live[of v' p l'] assms by (simp add: in_token_def)

lemma in_token_finish:
  assumes "in_token p l f fs v" "v' = valueComplete (v\<lparr>jvLiteralIndex := i, jvLex := routeAttemptJSONLexNone\<rparr>)"
    "\<not> jvInvalid v'" "\<And>d. value_text d x"
  shows "consumed (p @ x) v'"
proof -
  have "between (f # fs) (v\<lparr>jvLiteralIndex := i, jvLex := routeAttemptJSONLexNone\<rparr>)"
    using assms(1) by (simp add: in_token_def lexing_def)
  from valueComplete_consumed[OF this] assms show ?thesis by (simp add: in_token_def)
qed

lemma in_token_string:
  assumes "in_token p l f fs v"
    "jvLex v \<in> {routeAttemptJSONLexString, routeAttemptJSONLexEscape, routeAttemptJSONLexUnicode}"
  shows "if jvStringIsKey v then expects_key f else expects_value f"
  using assms by (auto simp: in_token_def lex_text_def Let_def)

lemma frame_text_key:
  assumes "frame_text d f t" "expects_key f" "string_text k"
  shows "frame_text d (f\<lparr>jcState := routeAttemptJSONObjectColon\<rparr>) (t @ k)"
proof -
  have "jcKind f = CHR ''{''" "object_open d (jcState f) t"
    using assms(1,2) by (auto simp: frame_text_def expects_key_def)
  moreover from this(2) have "object_text d routeAttemptJSONObjectColon (t @ k @ '''')"
    using assms(3) unfolding object_text.simps by (metis ws_simps(1))
  ultimately show ?thesis by (simp add: frame_text_def)
qed

lemma quote_consumed:
  assumes "in_token p l f fs v" "jvLex v = routeAttemptJSONLexString"
    "\<not> jvInvalid (observeStringByte (CHR 0x22) v)"
  shows "consumed (p @ l @ [CHR 0x22]) (observeStringByte (CHR 0x22) v)"
proof -
  have v: "jvStack v = f # fs" "stack_text (f # fs) p" using assms(1) by (simp_all add: in_token_def)
  have key: "if jvStringIsKey v then expects_key f else expects_value f"
    by (rule in_token_string[OF assms(1)]) (simp add: assms(2))
  have quoted: "string_text (l @ [CHR 0x22])"
    using assms(1,2) by (auto simp: in_token_def lex_text_def Let_def string_text_def)
  show ?thesis
  proof (cases "jvStringIsKey v")
    case True
    have b: "between (f # fs) (v\<lparr>jvLex := routeAttemptJSONLexNone\<rparr>)"
      using assms(1) by (simp add: in_token_def lexing_def)
    have "observeStringByte (CHR 0x22) v =
        setFrameState routeAttemptJSONObjectColon (v\<lparr>jvLex := routeAttemptJSONLexNone\<rparr>)"
      using True key v(1) by (simp add: observeStringByte_def expects_key_def Let_def)
    with setFrameState_consumed[OF b v(2) frame_text_key[OF _ _ quoted]] key True show ?thesis by simp
  next
    case False
    then have "observeStringByte (CHR 0x22) v =
        valueComplete (v\<lparr>jvLiteralIndex := jvLiteralIndex v, jvLex := routeAttemptJSONLexNone\<rparr>)"
      by (simp add: observeStringByte_def Let_def)
    from in_token_finish[OF assms(1) this assms(3) v_string[OF quoted]] show ?thesis .
  qed
qed

lemma string_byte_consumed:
  assumes "in_token p l f fs v" "jvLex v = routeAttemptJSONLexString" "\<not> jvInvalid (observeStringByte c v)"
  shows "consumed (p @ l @ [c]) (observeStringByte c v)"
proof -
  obtain s where s: "string_body s" "l = CHR 0x22 # s"
    using assms(1,2) by (auto simp: in_token_def lex_text_def Let_def)
  have key: "if jvStringIsKey v then expects_key f else expects_value f"
    by (rule in_token_string[OF assms(1)]) (simp add: assms(2))
  have plain: "\<not> of_char c < (0x20 :: nat)"
    using assms(3) by (auto simp: observeStringByte_def invalidate_def)
  consider "c = CHR 0x22" | "c = CHR 0x5C" | "c \<noteq> CHR 0x22" "c \<noteq> CHR 0x5C" by blast
  then show ?thesis
  proof cases
    case 1
    then show ?thesis using quote_consumed[OF assms(1,2)] assms(3) by simp
  next
    case 2
    then have "lex_text (observeStringByte c v) (l @ [c])"
      using s key assms(1) by (auto simp: observeStringByte_def lex_text_def Let_def in_token_def)
    with in_token_next[OF assms(1)] show ?thesis
      using 2 assms(1) by (auto simp: observeStringByte_def in_token_def)
  next
    case 3
    then have o: "observeStringByte c v = v" using plain by (simp add: observeStringByte_def)
    have "lex_text v (l @ [c])"
      using s(2) key assms(1,2) string_body.plain[OF s(1) plain 3] by (auto simp: lex_text_def Let_def in_token_def)
    with in_token_next[OF assms(1), of v] o show ?thesis using assms(1) by (simp add: in_token_def)
  qed
qed

lemma escape_byte_consumed:
  assumes "in_token p l f fs v" "jvLex v = routeAttemptJSONLexEscape" "\<not> jvInvalid (observeEscapeByte c v)"
  shows "consumed (p @ l @ [c]) (observeEscapeByte c v)"
proof -
  obtain s where s: "string_body s" "l = CHR 0x22 # s @ [CHR 0x5C]"
    using assms(1,2) by (auto simp: in_token_def lex_text_def Let_def)
  have key: "if jvStringIsKey v then expects_key f else expects_value f"
    by (rule in_token_string[OF assms(1)]) (simp add: assms(2))
  have stk: "jvStack v = f # fs" using assms(1) by (simp add: in_token_def)
  consider "c \<in> set (CHR 0x22 # CHR 0x5C # ''/bfnrt'')" "observeEscapeByte c v = v\<lparr>jvLex := routeAttemptJSONLexString\<rparr>"
    | "c = CHR ''u''" "observeEscapeByte c v = v\<lparr>jvLex := routeAttemptJSONLexUnicode, jvUnicodeRemaining := 4\<rparr>"
    using assms(3) by (auto simp: observeEscapeByte_def invalidate_def split: if_splits)
  then show ?thesis
  proof cases
    case 1
    have "lex_text (observeEscapeByte c v) (l @ [c])"
      using string_body.escape[OF s(1) 1(1)] s(2) key stk by (simp add: 1(2) lex_text_def Let_def)
    with in_token_next[OF assms(1)] stk show ?thesis by (simp add: 1(2))
  next
    case 2
    have "lex_text (observeEscapeByte c v) (l @ [c])"
      unfolding 2(2) using s key stk 2(1) by (auto simp: lex_text_def Let_def intro!: exI[of _ s] exI[of _ "[]"])
    with in_token_next[OF assms(1)] stk show ?thesis by (simp add: 2(2))
  qed
qed

lemma unicode_byte_consumed:
  assumes "in_token p l f fs v" "jvLex v = routeAttemptJSONLexUnicode" "\<not> jvInvalid (observeByte c v)"
  shows "consumed (p @ l @ [c]) (observeByte c v)"
proof -
  let ?v = "v\<lparr>jvUnicodeRemaining := jvUnicodeRemaining v - 1\<rparr>"
  obtain s h where s: "string_body s" "list_all isRouteAttemptJSONHex h"
    "int (length h) + jvUnicodeRemaining v = 4" "0 < jvUnicodeRemaining v"
    "l = CHR 0x22 # s @ [CHR 0x5C, CHR ''u''] @ h"
    using assms(1,2) by (auto simp: in_token_def lex_text_def Let_def)
  have key: "if jvStringIsKey v then expects_key f else expects_value f"
    by (rule in_token_string[OF assms(1)]) (simp add: assms(2))
  have stk: "jvStack v = f # fs" using assms(1) by (simp add: in_token_def)
  have hex: "isRouteAttemptJSONHex c" and step: "observeByte c v =
      (if jvUnicodeRemaining v = 1 then ?v\<lparr>jvLex := routeAttemptJSONLexString\<rparr> else ?v)"
    using assms by (auto simp: in_token_def observeByte.simps invalidate_def Let_def split: if_splits)
  have "lex_text (observeByte c v) (l @ [c])"
  proof (cases "jvUnicodeRemaining v = 1")
    case True
    have "length (h @ [c]) = 4" using s(3) True by simp
    from string_body.unicode[OF s(1) this] s(2,5) hex key stk show ?thesis
      by (simp add: step True lex_text_def Let_def)
  next
    case False
    have "\<exists>s' h'. string_body s' \<and> list_all isRouteAttemptJSONHex h' \<and>
        int (length h') + (jvUnicodeRemaining v - 1) = 4 \<and>
        l @ [c] = CHR 0x22 # s' @ [CHR 0x5C, CHR ''u''] @ h'"
      using s hex by (intro exI[of _ s] exI[of _ "h @ [c]"]) simp
    with False s(4) key stk assms(2) show ?thesis
      by (simp add: step lex_text_def Let_def)
  qed
  with in_token_next[OF assms(1)] stk show ?thesis by (simp add: step)
qed

lemma literal_byte_consumed:
  assumes "in_token p l f fs v" "jvLex v = routeAttemptJSONLexLiteral" "\<not> jvInvalid (observeByte c v)"
  shows "consumed (p @ l @ [c]) (observeByte c v)"
proof -
  let ?i = "jvLiteralIndex v + 1"
  have stk: "jvStack v = f # fs" using assms(1) by (simp add: in_token_def)
  have n: "expects_value f" "jvLiteral v \<in> {''true'', ''false'', ''null''}"
    "jvLiteralIndex v < length (jvLiteral v)" "l = take (jvLiteralIndex v) (jvLiteral v)"
    using assms(1,2) by (auto simp: in_token_def lex_text_def Let_def)
  have c: "c = jvLiteral v ! jvLiteralIndex v" and step: "observeByte c v =
      (if ?i = length (jvLiteral v) then valueComplete (v\<lparr>jvLiteralIndex := ?i, jvLex := routeAttemptJSONLexNone\<rparr>)
       else v\<lparr>jvLiteralIndex := ?i\<rparr>)"
    using assms n(3) by (auto simp: in_token_def observeByte.simps invalidate_def Let_def split: if_splits)
  have lc: "l @ [c] = take ?i (jvLiteral v)"
    using n(3,4) c by (simp add: take_Suc_conv_app_nth)
  show ?thesis
  proof (cases "?i = length (jvLiteral v)")
    case True
    have "\<And>d. value_text d (l @ [c])" using v_literal n(2) lc True by (metis order_refl take_all)
    from in_token_finish[OF assms(1) _ assms(3) this] step True show ?thesis by simp
  next
    case False
    then have "lex_text (observeByte c v) (l @ [c])"
      using n lc stk assms(2) by (simp add: step lex_text_def Let_def)
    with in_token_next[OF assms(1)] stk step False show ?thesis by simp
  qed
qed

lemma number_byte_consumed:
  assumes "in_token p l f fs v" "jvLex v = routeAttemptJSONLexNumber" "\<not> jvInvalid (observeByte c v)"
  shows "consumed (p @ l @ [c]) (observeByte c v)"
proof -
  have stk: "jvStack v = f # fs" using assms(1) by (simp add: in_token_def)
  have n: "expects_value f" "number_prefix (jvNumber v) l"
    using assms(1,2) by (auto simp: in_token_def lex_text_def Let_def)
  obtain v1 used where o: "observeNumberByte c v = (v1, used)" by fastforce
  show ?thesis
  proof (cases used)
    case True
    then obtain st where st: "v1 = v\<lparr>jvNumber := st\<rparr>" "number_prefix st (l @ [c])"
      using number_step_prefix[of c v v1 l] o n(2) by auto
    have "observeByte c v = v1"
      using o True assms(1,2) by (simp add: in_token_def observeByte.simps)
    moreover have "lex_text v1 (l @ [c])"
      using st n(1) stk assms(2) by (simp add: lex_text_def Let_def)
    ultimately show ?thesis using in_token_next[OF assms(1), of v1 "l @ [c]"] st(1) stk by simp
  next
    case False
    let ?v = "valueComplete (v1\<lparr>jvLex := routeAttemptJSONLexNone\<rparr>)"
    have step: "observeByte c v = (if jvInvalid v1 then v1 else observeByte c ?v)"
      using o False assms(1,2) by (subst observeByte.simps) (simp add: in_token_def)
    then have v1: "\<not> jvInvalid v1" using assms(3) by auto
    with number_step_end[of c v v1] o False have end': "v1 = v" "final_number (jvNumber v)" by auto
    have byte: "observeByte c v = observeByte c ?v" using step v1 by simp
    have vv: "\<not> jvInvalid ?v" using assms(3) byte by (auto simp: observeByte.simps[of c ?v])
    have "?v = valueComplete (v\<lparr>jvLiteralIndex := jvLiteralIndex v, jvLex := routeAttemptJSONLexNone\<rparr>)"
      by (simp add: end'(1))
    from in_token_finish[OF assms(1) this vv v_number[OF number_prefix_final[OF n(2) end'(2)]]]
    have cons: "consumed (p @ l) ?v" .
    have b: "between (f # fs) (v1\<lparr>jvLex := routeAttemptJSONLexNone\<rparr>)"
      using assms(1) by (simp add: in_token_def lexing_def end'(1))
    have "observeByte c ?v = observeStructuralByte c ?v" "\<not> jvDone ?v" "jvLex ?v = routeAttemptJSONLexNone"
      using valueComplete_valid(2)[OF b vv] observeByte_lexing(1) by (auto simp: lexing_def)
    with structural_consumed[OF cons _ _ vv] assms(3) byte show ?thesis by simp
  qed
qed

subsection \<open>The step and the theorem\<close>

lemma byte_consumed:
  assumes "consumed p v" "\<not> jvInvalid (observeByte c v)"
  shows "consumed (p @ [c]) (observeByte c v)"
proof -
  have valid: "\<not> jvInvalid v" using assms(2) by (auto simp: observeByte.simps)
  consider "jvDone v" | "\<not> jvDone v" "jvLex v = routeAttemptJSONLexNone"
    | "\<not> jvDone v" "jvLex v \<noteq> routeAttemptJSONLexNone" by blast
  then show ?thesis
  proof cases
    case 1
    then have "isRouteAttemptJSONSpace c" "observeByte c v = v"
      using assms(2) valid by (auto simp: observeByte.simps invalidate_def split: if_splits)
    with 1 assms(1) object_document_ws show ?thesis by (auto simp: consumed_def split: if_splits)
  next
    case 2
    then have "observeByte c v = observeStructuralByte c v" using valid by (simp add: observeByte.simps)
    with structural_consumed[OF assms(1) 2(2,1) valid] assms(2) show ?thesis by simp
  next
    case 3
    with assms(1) have "jvStarted v" "jvStack v \<noteq> []" by (auto simp: consumed_def split: if_splits)
    with 3 assms(1) valid obtain p0 l f fs where tok: "p = p0 @ l" "in_token p0 l f fs v"
      by (cases "jvStack v") (auto simp: consumed_def in_token_def)
    show ?thesis
    proof (cases "jvLex v")
      case routeAttemptJSONLexString
      then have "observeByte c v = observeStringByte c v" using 3 valid by (simp add: observeByte.simps)
      with string_byte_consumed[OF tok(2) routeAttemptJSONLexString] assms(2) tok(1) show ?thesis by simp
    next
      case routeAttemptJSONLexEscape
      then have "observeByte c v = observeEscapeByte c v" using 3 valid by (simp add: observeByte.simps)
      with escape_byte_consumed[OF tok(2) routeAttemptJSONLexEscape] assms(2) tok(1) show ?thesis by simp
    qed (use 3 tok assms(2) unicode_byte_consumed[OF tok(2)] literal_byte_consumed[OF tok(2)]
        number_byte_consumed[OF tok(2)] in simp_all)
  qed
qed

lemma observe_consumed:
  "consumed p v \<Longrightarrow> \<not> jvInvalid (observe q v) \<Longrightarrow> consumed (p @ q) (observe q v)"
proof (induction q arbitrary: p v)
  case (Cons c q)
  have "\<not> jvInvalid (observeByte c v)" using Cons.prems(2) by (auto simp: observe_Cons)
  from Cons.IH[OF byte_consumed[OF Cons.prems(1) this]] Cons.prems(2) show ?case
    by (simp add: observe_Cons)
qed simp

lemma accepted_document:
  assumes "complete (observe p newValidator)"
  shows "object_document routeAttemptObservationJSONDepthMax p"
proof -
  have "consumed '''' newValidator" by (simp add: consumed_def newValidator_def)
  from observe_consumed[OF this, of p] assms show ?thesis
    by (simp add: complete_def consumed_def)
qed

lemma observe_chunks: "fold observe ps v = observe (concat ps) v"
  by (induction ps arbitrary: v) (simp_all add: observe_append)

section \<open>Properties\<close>

text \<open>C8. The validator accepts a body exactly if it is one JSON object of RFC 8259 (over
  bytes) whose containers are nested at most 128 deep, surrounded by white space, however the
  body is cut into chunks.\<close>

theorem validator_accepts_json_objects:
  "complete (fold observe ps newValidator) \<longleftrightarrow> object_document 128 (concat ps)"
  using document_accepted[of "concat ps"] accepted_document[of "concat ps"]
  by (auto simp: observe_chunks routeAttemptObservationJSONDepthMax_def)

text \<open>The validator fails fast and for good: once it has failed on a prefix, no
  continuation of the body is a JSON object within the bound, and the nesting it holds never
  exceeds 128 containers.\<close>

theorem validator_failure_is_final:
  "(failed (observe p newValidator) \<longrightarrow> (\<forall>q. \<not> object_document 128 (p @ q))) \<and>
   (\<not> failed (observe p newValidator) \<longrightarrow> length (jvStack (observe p newValidator)) \<le> 128)"
proof (intro conjI impI allI)
  fix q assume f: "failed (observe p newValidator)"
  then have "failed (observe (p @ q) newValidator)" by (simp add: failed_def observe_append)
  then show "\<not> object_document 128 (p @ q)"
    using document_accepted[of "p @ q"]
    by (auto simp: failed_def complete_def routeAttemptObservationJSONDepthMax_def)
next
  assume "\<not> failed (observe p newValidator)"
  then have "consumed ([] @ p) (observe p newValidator)"
    by (intro observe_consumed) (simp_all add: failed_def consumed_def newValidator_def)
  then show "length (jvStack (observe p newValidator)) \<le> 128"
    by (cases "jvStack (observe p newValidator)")
      (auto simp: consumed_def routeAttemptObservationJSONDepthMax_def split: if_splits)
qed

lemma validator_failure_is_final_witness:
  "\<not> object_document 128 (''{,'' @ ''}'') \<and> length (jvStack (observe ''{'' newValidator)) \<le> 128"
proof -
  have "failed (observe ''{,'' newValidator)" "\<not> failed (observe ''{'' newValidator)" by code_simp+
  with validator_failure_is_final[of "''{,''"] validator_failure_is_final[of "''{''"] show ?thesis by blast
qed

end
