(* ===== verification/Raw_Json.thy ===== *)
theory Raw_Json
  imports Json_Validator Go_Strings
begin

text \<open>
  The scanners over raw JSON bytes of \<open>proxy/raw_json_fast.go\<close>. They walk an index over a byte
  slice and never build a value: the strict functions validate what they pass, the lax ones
  only find where a value of a document known to be JSON ends. A slice is the list of its
  bytes, an index a natural number; \<open>(x, false)\<close> is \<open>None\<close>. The cursors and scanners are
  records; their \<open>next\<close> returns the record after the call, with the member read, or with
  nothing at the end of the container.

  \<open>bytes.EqualFold\<close> is \<open>equalFold\<close>, for which the wanted name has lower-case ASCII letters and
  underscores, as all callers have it.
\<close>

section \<open>White space and strings\<close>

function skipRawJSONSpace :: "string \<Rightarrow> nat \<Rightarrow> nat" where
  "skipRawJSONSpace data pos =
     (if pos < length data then
        (if data ! pos = CHR '' '' \<or> data ! pos = CHR 0x09 \<or> data ! pos = CHR 0x0A \<or> data ! pos = CHR 0x0D
         then skipRawJSONSpace data (pos + 1) else pos)
      else pos)"
  by pat_completeness auto
termination by (relation "measure (\<lambda>(data, pos). length data - pos)") auto

declare skipRawJSONSpace.simps [simp del]

definition byteSlice :: "string \<Rightarrow> nat \<Rightarrow> nat \<Rightarrow> string" where
  "byteSlice data i j = take (j - i) (drop i data)"

definition isRawJSONHex :: "char \<Rightarrow> bool" where
  "isRawJSONHex c \<longleftrightarrow>
     byteIn (CHR ''0'') (CHR ''9'') c \<or> byteIn (CHR ''a'') (CHR ''f'') c \<or> byteIn (CHR ''A'') (CHR ''F'') c"

type_synonym stringSpan = "nat \<times> nat \<times> nat \<times> bool"

function rawStringLoop :: "string \<Rightarrow> nat \<Rightarrow> nat \<Rightarrow> bool \<Rightarrow> bool \<Rightarrow> stringSpan option" where
  "rawStringLoop data contentStart pos escaped nonASCII =
     (if length data \<le> pos then None
      else if data ! pos = CHR 0x5C then
        (if length data \<le> pos + 1 then None
         else rawStringLoop data contentStart (pos + 2) True (nonASCII \<or> CHR 0x80 \<le> data ! (pos + 1)))
      else if data ! pos = CHR 0x22 then
        (if nonASCII \<and> \<not> utf8Valid (byteSlice data contentStart pos) then None
         else Some (contentStart, pos, pos + 1, escaped))
      else rawStringLoop data contentStart (pos + 1) escaped (nonASCII \<or> CHR 0x80 \<le> data ! pos))"
  by pat_completeness auto
termination by (relation "measure (\<lambda>(data, s, pos, e, n). length data - pos)") auto

declare rawStringLoop.simps [simp del]

definition scanRawJSONString :: "string \<Rightarrow> nat \<Rightarrow> stringSpan option" where
  "scanRawJSONString data pos =
     (if length data \<le> pos \<or> data ! pos \<noteq> CHR 0x22 then None
      else rawStringLoop data (pos + 1) (pos + 1) False False)"

definition simpleEscapes :: string where
  "simpleEscapes = ''bfnrt'' @ [CHR 0x5C, CHR ''/'', CHR 0x22]"

function strictStringLoop :: "string \<Rightarrow> nat \<Rightarrow> nat \<Rightarrow> bool \<Rightarrow> bool \<Rightarrow> stringSpan option" where
  "strictStringLoop data contentStart pos escaped nonASCII =
     (if length data \<le> pos then None
      else if data ! pos = CHR 0x5C then
        (if length data \<le> pos + 1 then None
         else let e = data ! (pos + 1); nonASCII' = (nonASCII \<or> CHR 0x80 \<le> e)
              in if e \<in> set simpleEscapes then strictStringLoop data contentStart (pos + 2) True nonASCII'
                 else if e = CHR ''u'' then
                   (if length data \<le> pos + 1 + 4 then None
                    else if list_all (\<lambda>i. isRawJSONHex (data ! (pos + 1 + i))) [1, 2, 3, 4]
                    then strictStringLoop data contentStart (pos + 6) True nonASCII'
                    else None)
                 else None)
      else if data ! pos = CHR 0x22 then
        (if nonASCII \<and> \<not> utf8Valid (byteSlice data contentStart pos) then None
         else Some (contentStart, pos, pos + 1, escaped))
      else if data ! pos < CHR 0x20 then None
      else strictStringLoop data contentStart (pos + 1) escaped (nonASCII \<or> CHR 0x80 \<le> data ! pos))"
  by pat_completeness auto
termination by (relation "measure (\<lambda>(data, s, pos, e, n). length data - pos)") auto

declare strictStringLoop.simps [simp del]

definition scanStrictRawJSONString :: "string \<Rightarrow> nat \<Rightarrow> stringSpan option" where
  "scanStrictRawJSONString data pos =
     (if length data \<le> pos \<or> data ! pos \<noteq> CHR 0x22 then None
      else strictStringLoop data (pos + 1) (pos + 1) False False)"

section \<open>Literals and numbers\<close>

definition scanStrictRawJSONLiteral :: "string \<Rightarrow> nat \<Rightarrow> string \<Rightarrow> nat option" where
  "scanStrictRawJSONLiteral data pos literal =
     (if length data < pos + length literal then None
      else if list_all (\<lambda>i. data ! (pos + i) = literal ! i) [0..<length literal]
      then Some (pos + length literal) else None)"

function digitsEnd :: "string \<Rightarrow> nat \<Rightarrow> nat" where
  "digitsEnd data pos =
     (if pos < length data \<and> isDigitByte (data ! pos) then digitsEnd data (pos + 1) else pos)"
  by pat_completeness auto
termination by (relation "measure (\<lambda>(data, pos). length data - pos)") auto

declare digitsEnd.simps [simp del]

definition scanInteger :: "string \<Rightarrow> nat \<Rightarrow> nat option" where
  "scanInteger data pos =
     (if data ! pos = CHR ''0'' then Some (pos + 1)
      else if byteIn (CHR ''1'') (CHR ''9'') (data ! pos) then Some (digitsEnd data pos)
      else None)"

definition scanFraction :: "string \<Rightarrow> nat \<Rightarrow> nat option" where
  "scanFraction data pos =
     (if pos < length data \<and> data ! pos = CHR ''.'' then
        (let start = pos + 1; stop = digitsEnd data start
         in if stop = start then None else Some stop)
      else Some pos)"

definition scanExponent :: "string \<Rightarrow> nat \<Rightarrow> nat option" where
  "scanExponent data pos =
     (if pos < length data \<and> (data ! pos = CHR ''e'' \<or> data ! pos = CHR ''E'') then
        (let p1 = pos + 1;
             start = (if p1 < length data \<and> (data ! p1 = CHR ''+'' \<or> data ! p1 = CHR ''-'') then p1 + 1 else p1);
             stop = digitsEnd data start
         in if stop = start then None else Some stop)
      else Some pos)"

definition scanStrictRawJSONNumber :: "string \<Rightarrow> nat \<Rightarrow> nat option" where
  "scanStrictRawJSONNumber data pos =
     (if length data \<le> pos then None
      else let p0 = (if data ! pos = CHR ''-'' then pos + 1 else pos)
           in if length data \<le> p0 then None
              else case scanInteger data p0 of
                None \<Rightarrow> None
              | Some p1 \<Rightarrow>
                  (case scanFraction data p1 of None \<Rightarrow> None | Some p2 \<Rightarrow> scanExponent data p2))"

section \<open>Positions advance\<close>

lemma skip_ge: "pos \<le> skipRawJSONSpace data pos"
  by (induction data pos rule: skipRawJSONSpace.induct) (subst skipRawJSONSpace.simps, auto)

lemma skip_le: "pos \<le> length data \<Longrightarrow> skipRawJSONSpace data pos \<le> length data"
  by (induction data pos rule: skipRawJSONSpace.induct) (subst skipRawJSONSpace.simps, auto)

lemma digitsEnd_ge: "pos \<le> digitsEnd data pos"
  by (induction data pos rule: digitsEnd.induct) (subst digitsEnd.simps, auto)

lemma digitsEnd_le: "pos \<le> length data \<Longrightarrow> digitsEnd data pos \<le> length data"
  by (induction data pos rule: digitsEnd.induct) (subst digitsEnd.simps, auto)

lemma strictStringLoop_span:
  "strictStringLoop data cs pos esc na = Some (a, b, e, f) \<Longrightarrow>
   a = cs \<and> e = b + 1 \<and> pos \<le> b \<and> e \<le> length data \<and> data ! b = CHR 0x22"
proof (induction "length data - pos" arbitrary: pos esc na rule: less_induct)
  case less
  have ih: "a = cs \<and> e = b + 1 \<and> pos \<le> b \<and> e \<le> length data \<and> data ! b = CHR 0x22"
    if "pos < p" "p \<le> length data" "strictStringLoop data cs p esc' na' = Some (a, b, e, f)" for p esc' na'
  proof -
    have "length data - p < length data - pos" using that by linarith
    from less.hyps[OF this that(3)] that show ?thesis by linarith
  qed
  from less.prems show ?case
    by (subst (asm) strictStringLoop.simps) (auto simp: Let_def not_le dest: ih[rotated 2] split: if_splits)
qed

lemma rawStringLoop_span:
  "rawStringLoop data cs pos esc na = Some (a, b, e, f) \<Longrightarrow>
   a = cs \<and> e = b + 1 \<and> pos \<le> b \<and> e \<le> length data \<and> data ! b = CHR 0x22"
proof (induction "length data - pos" arbitrary: pos esc na rule: less_induct)
  case less
  have ih: "a = cs \<and> e = b + 1 \<and> pos \<le> b \<and> e \<le> length data \<and> data ! b = CHR 0x22"
    if "pos < p" "p \<le> length data" "rawStringLoop data cs p esc' na' = Some (a, b, e, f)" for p esc' na'
  proof -
    have "length data - p < length data - pos" using that by linarith
    from less.hyps[OF this that(3)] that show ?thesis by linarith
  qed
  from less.prems show ?case
    by (subst (asm) rawStringLoop.simps) (auto simp: not_le dest: ih[rotated 2] split: if_splits)
qed

lemma strict_string_span:
  "scanStrictRawJSONString data pos = Some (a, b, e, f) \<Longrightarrow>
   a = pos + 1 \<and> e = b + 1 \<and> pos < b \<and> e \<le> length data \<and> data ! b = CHR 0x22"
  by (auto simp: scanStrictRawJSONString_def dest!: strictStringLoop_span split: if_splits)

lemma raw_string_span:
  "scanRawJSONString data pos = Some (a, b, e, f) \<Longrightarrow>
   a = pos + 1 \<and> e = b + 1 \<and> pos < b \<and> e \<le> length data \<and> data ! b = CHR 0x22"
  by (auto simp: scanRawJSONString_def dest!: rawStringLoop_span split: if_splits)

lemma number_span: "scanStrictRawJSONNumber data pos = Some e \<Longrightarrow> pos < e \<and> e \<le> length data"
proof -
  assume s: "scanStrictRawJSONNumber data pos = Some e"
  define p0 where "p0 = (if data ! pos = CHR ''-'' then pos + 1 else pos)"
  from s obtain p1 p2 where p: "p0 < length data" "scanInteger data p0 = Some p1"
      "scanFraction data p1 = Some p2" "scanExponent data p2 = Some e"
    unfolding scanStrictRawJSONNumber_def p0_def[symmetric] Let_def
    by (auto split: if_splits option.splits)
  have "p0 < p1 \<and> p1 \<le> length data"
    using p(1,2) digitsEnd_ge[of "p0 + 1" data] digitsEnd_le[of "p0 + 1" data]
    by (auto simp: scanInteger_def digitsEnd.simps[of data p0] digit19[of "data ! p0"] split: if_splits)
  moreover from this have "p1 \<le> p2 \<and> p2 \<le> length data"
    using p(3) digitsEnd_ge[of "p1 + 1" data] digitsEnd_le[of "p1 + 1" data]
    by (auto simp: scanFraction_def Let_def split: if_splits)
  moreover from this have "p2 \<le> e \<and> e \<le> length data"
    using p(4) digitsEnd_ge[of "p2 + 1" data] digitsEnd_le[of "p2 + 1" data]
      digitsEnd_ge[of "p2 + 2" data] digitsEnd_le[of "p2 + 2" data]
    by (auto simp: scanExponent_def Let_def split: if_splits)
  moreover have "pos \<le> p0" by (simp add: p0_def)
  ultimately show ?thesis by simp
qed

lemma literal_span:
  "scanStrictRawJSONLiteral data pos (c # lit) = Some e \<Longrightarrow> pos < e \<and> e \<le> length data"
  by (auto simp: scanStrictRawJSONLiteral_def split: if_splits)

section \<open>Strict values\<close>

definition maxFastRawJSONNestingDepth :: nat where
  "maxFastRawJSONNestingDepth = 64"

definition spanEnd :: "stringSpan option \<Rightarrow> nat option" where
  "spanEnd r = map_option (\<lambda>(contentStart, contentEnd, endPos, escaped). endPos) r"

text \<open>
  \<open>scanStrictRawJSONValue\<close>, \<open>scanStrictRawJSONObject\<close>, \<open>scanStrictRawJSONArray\<close>; the loops of
  the latter two are \<open>strictObjectLoop\<close> and \<open>strictArrayLoop\<close>.
\<close>

function scanStrictRawJSONValue :: "string \<Rightarrow> nat \<Rightarrow> nat \<Rightarrow> nat option"
  and scanStrictRawJSONObject :: "string \<Rightarrow> nat \<Rightarrow> nat \<Rightarrow> nat option"
  and scanStrictRawJSONArray :: "string \<Rightarrow> nat \<Rightarrow> nat \<Rightarrow> nat option"
  and strictObjectLoop :: "string \<Rightarrow> nat \<Rightarrow> nat \<Rightarrow> nat option"
  and strictArrayLoop :: "string \<Rightarrow> nat \<Rightarrow> nat \<Rightarrow> nat option"
where
  "scanStrictRawJSONValue data pos depth =
     (let p = skipRawJSONSpace data pos
      in if length data \<le> p then None
         else if data ! p = CHR 0x22 then spanEnd (scanStrictRawJSONString data p)
         else if data ! p = CHR ''{'' then
           (if maxFastRawJSONNestingDepth \<le> depth then None else scanStrictRawJSONObject data p (depth + 1))
         else if data ! p = CHR ''['' then
           (if maxFastRawJSONNestingDepth \<le> depth then None else scanStrictRawJSONArray data p (depth + 1))
         else if data ! p = CHR ''t'' then scanStrictRawJSONLiteral data p ''true''
         else if data ! p = CHR ''f'' then scanStrictRawJSONLiteral data p ''false''
         else if data ! p = CHR ''n'' then scanStrictRawJSONLiteral data p ''null''
         else scanStrictRawJSONNumber data p)"
| "scanStrictRawJSONObject data pos depth =
     (let p = skipRawJSONSpace data (pos + 1)
      in if length data \<le> p then None
         else if data ! p = CHR ''}'' then Some (p + 1)
         else strictObjectLoop data p depth)"
| "scanStrictRawJSONArray data pos depth =
     (let p = skipRawJSONSpace data (pos + 1)
      in if length data \<le> p then None
         else if data ! p = CHR '']'' then Some (p + 1)
         else strictArrayLoop data p depth)"
| "strictObjectLoop data pos depth =
     (case scanStrictRawJSONString data pos of
        None \<Rightarrow> None
      | Some (contentStart, contentEnd, afterKey, escaped) \<Rightarrow>
          (let p = skipRawJSONSpace data afterKey
           in if length data \<le> p \<or> data ! p \<noteq> CHR '':'' then None
              else case scanStrictRawJSONValue data (p + 1) depth of
                None \<Rightarrow> None
              | Some q \<Rightarrow>
                  (let r = skipRawJSONSpace data q
                   in if length data \<le> r then None
                      else if data ! r = CHR ''}'' then Some (r + 1)
                      else if data ! r = CHR '','' then strictObjectLoop data (skipRawJSONSpace data (r + 1)) depth
                      else None)))"
| "strictArrayLoop data pos depth =
     (case scanStrictRawJSONValue data pos depth of
        None \<Rightarrow> None
      | Some q \<Rightarrow>
          (let r = skipRawJSONSpace data q
           in if length data \<le> r then None
              else if data ! r = CHR '']'' then Some (r + 1)
              else if data ! r = CHR '','' then strictArrayLoop data (skipRawJSONSpace data (r + 1)) depth
              else None))"
  by pat_completeness auto
abbreviation strict_dom where
  "strict_dom \<equiv> scanStrictRawJSONValue_scanStrictRawJSONObject_scanStrictRawJSONArray_strictObjectLoop_strictArrayLoop_dom"

abbreviation endsIn :: "string \<Rightarrow> nat \<Rightarrow> nat option \<Rightarrow> bool" where
  "endsIn data pos r \<equiv> \<forall>e. r = Some e \<longrightarrow> pos < e \<and> e \<le> length data"

lemma strict_dom_span:
  "strict_dom (Inl (Inl (data, pos, depth))) \<Longrightarrow> endsIn data pos (scanStrictRawJSONValue data pos depth)"
  "strict_dom (Inl (Inr (data, pos, depth))) \<Longrightarrow> endsIn data pos (scanStrictRawJSONObject data pos depth)"
  "strict_dom (Inr (Inl (data, pos, depth))) \<Longrightarrow> endsIn data pos (scanStrictRawJSONArray data pos depth)"
  "strict_dom (Inr (Inr (Inl (data, pos, depth)))) \<Longrightarrow> endsIn data pos (strictObjectLoop data pos depth)"
  "strict_dom (Inr (Inr (Inr (data, pos, depth)))) \<Longrightarrow> endsIn data pos (strictArrayLoop data pos depth)"
proof (induction data pos depth and data pos depth and data pos depth and data pos depth and data pos depth
    rule: scanStrictRawJSONValue_scanStrictRawJSONObject_scanStrictRawJSONArray_strictObjectLoop_strictArrayLoop.pinduct)
  case (1 data pos depth)
  let ?p = "skipRawJSONSpace data pos"
  show ?case
  proof (intro allI impI)
    fix e assume e: "scanStrictRawJSONValue data pos depth = Some e"
    then have l: "\<not> length data \<le> ?p"
      by (simp add: scanStrictRawJSONValue.psimps[OF 1(1)] Let_def split: if_splits)
    have "?p < e \<and> e \<le> length data"
    proof (cases "data ! ?p = CHR ''{'' \<or> data ! ?p = CHR ''[''")
      case True
      with e l have "\<not> maxFastRawJSONNestingDepth \<le> depth"
        by (auto simp: scanStrictRawJSONValue.psimps[OF 1(1)] Let_def split: if_splits)
      with e l True show ?thesis
        using 1(2)[OF refl l] 1(3)[OF refl l]
        by (auto simp: scanStrictRawJSONValue.psimps[OF 1(1)] Let_def split: if_splits)
    next
      case False
      with e l show ?thesis
        by (auto simp: scanStrictRawJSONValue.psimps[OF 1(1)] Let_def spanEnd_def
            dest!: strict_string_span number_span literal_span split: if_splits)
    qed
    then show "pos < e \<and> e \<le> length data" using skip_ge[of pos data] by linarith
  qed
next
  case (2 data pos depth)
  show ?case
    using skip_ge[of "pos + 1" data] 2(2)[OF refl]
    by (auto simp: scanStrictRawJSONObject.psimps[OF 2(1)] Let_def split: if_splits)
next
  case (3 data pos depth)
  show ?case
    using skip_ge[of "pos + 1" data] 3(2)[OF refl]
    by (auto simp: scanStrictRawJSONArray.psimps[OF 3(1)] Let_def split: if_splits)
next
  case (4 data pos depth)
  show ?case
  proof (intro allI impI)
    fix e assume e: "strictObjectLoop data pos depth = Some e"
    from e obtain a b k f where k: "scanStrictRawJSONString data pos = Some (a, b, k, f)"
      by (auto simp: strictObjectLoop.psimps[OF 4(1)] split: option.splits)
    let ?p = "skipRawJSONSpace data k"
    from e k have c: "\<not> (length data \<le> ?p \<or> data ! ?p \<noteq> CHR '':'')"
      by (auto simp: strictObjectLoop.psimps[OF 4(1)] Let_def split: if_splits)
    with e k obtain q where q: "scanStrictRawJSONValue data (?p + 1) depth = Some q"
      by (auto simp: strictObjectLoop.psimps[OF 4(1)] Let_def split: option.splits)
    let ?r = "skipRawJSONSpace data q"
    have pq: "pos < k" "?p + 1 < q"
      using strict_string_span[OF k] 4(2)[OF k refl refl refl refl c] q by auto
    have "k \<le> ?p" "q \<le> ?r" "?r + 1 \<le> skipRawJSONSpace data (?r + 1)" by (rule skip_ge)+
    moreover from e k c q have "?r < length data \<and> (e = ?r + 1 \<or> data ! ?r \<noteq> CHR ''}'' \<and> data ! ?r = CHR '','' \<and>
        strictObjectLoop data (skipRawJSONSpace data (?r + 1)) depth = Some e)"
      by (auto simp: strictObjectLoop.psimps[OF 4(1)] Let_def split: if_splits)
    moreover have "skipRawJSONSpace data (?r + 1) < e \<and> e \<le> length data"
      if "?r < length data" "data ! ?r \<noteq> CHR ''}''" "data ! ?r = CHR '',''"
        "strictObjectLoop data (skipRawJSONSpace data (?r + 1)) depth = Some e"
      using 4(3)[OF k refl refl refl refl c q refl] that by auto
    ultimately show "pos < e \<and> e \<le> length data" using pq by linarith
  qed
next
  case (5 data pos depth)
  show ?case
  proof (intro allI impI)
    fix e assume e: "strictArrayLoop data pos depth = Some e"
    then obtain q where q: "scanStrictRawJSONValue data pos depth = Some q"
      by (auto simp: strictArrayLoop.psimps[OF 5(1)] split: option.splits)
    let ?r = "skipRawJSONSpace data q"
    have pq: "pos < q" using 5(2) q by auto
    have "q \<le> ?r" "?r + 1 \<le> skipRawJSONSpace data (?r + 1)" by (rule skip_ge)+
    moreover from e q have "?r < length data \<and> (e = ?r + 1 \<or> data ! ?r \<noteq> CHR '']'' \<and> data ! ?r = CHR '','' \<and>
        strictArrayLoop data (skipRawJSONSpace data (?r + 1)) depth = Some e)"
      by (auto simp: strictArrayLoop.psimps[OF 5(1)] Let_def split: if_splits)
    moreover have "skipRawJSONSpace data (?r + 1) < e \<and> e \<le> length data"
      if "?r < length data" "data ! ?r \<noteq> CHR '']''" "data ! ?r = CHR '',''"
        "strictArrayLoop data (skipRawJSONSpace data (?r + 1)) depth = Some e"
      using 5(3)[OF q refl] that by auto
    ultimately show "pos < e \<and> e \<le> length data" using pq by linarith
  qed
qed

lemma strict_total: "All strict_dom"
proof -
  let ?m = "\<lambda>x. case x of
      Inl (Inl (data, pos, depth)) \<Rightarrow> 3 * (Suc (length data) - pos) + 1
    | Inl (Inr (data, pos, depth)) \<Rightarrow> 3 * (Suc (length data) - pos)
    | Inr (Inl (data, pos, depth)) \<Rightarrow> 3 * (Suc (length data) - pos)
    | Inr (Inr (Inl (data, pos, depth))) \<Rightarrow> 3 * (Suc (length data) - pos) + 2
    | Inr (Inr (Inr (data, pos, depth))) \<Rightarrow> 3 * (Suc (length data) - pos) + (2 :: nat)"
  show ?thesis
  proof (rule "scanStrictRawJSONValue_scanStrictRawJSONObject_scanStrictRawJSONArray_strictObjectLoop_strictArrayLoop.termination"[of "measure ?m"],
      goal_cases)
    case 1 show ?case by simp
  next
    case (2 data pos depth x) then show ?case using skip_ge[of pos data] by simp
  next
    case (3 data pos depth x) then show ?case using skip_ge[of pos data] by simp
  next
    case (4 data pos depth x) then show ?case using skip_ge[of "pos + 1" data] by simp
  next
    case (5 data pos depth x) then show ?case using skip_ge[of "pos + 1" data] by simp
  next
    case (6 data pos depth x2 x y xa ya xb yb xc)
    have "pos < xc" "xc < length data"
      using 6 strict_string_span[of data pos x xa xb yb] skip_ge[of xb data] by auto
    then show ?case by simp
  next
    case (7 data pos depth x2 x y xa ya xb yb xc q r)
    have "pos < xb" "xb \<le> xc" using 7 strict_string_span[of data pos x xa xb yb] skip_ge[of xb data] by auto
    moreover have "xc + 1 < q" using strict_dom_span(1)[of data "xc + 1" depth] 7 by auto
    moreover have "q \<le> r" "r < length data" using 7 skip_ge[of q data] by auto
    ultimately show ?case using skip_ge[of "r + 1" data] by simp
  next
    case (8 data pos depth) then show ?case by simp
  next
    case (9 data pos depth q r)
    have "pos < q" using strict_dom_span(1)[of data pos depth] 9 by auto
    moreover have "q \<le> r" "r < length data" using 9 skip_ge[of q data] by auto
    ultimately show ?case using skip_ge[of "r + 1" data] by simp
  qed
qed

termination scanStrictRawJSONValue
  by (rule strict_total)

declare scanStrictRawJSONValue.simps [simp del] scanStrictRawJSONObject.simps [simp del]
  scanStrictRawJSONArray.simps [simp del] strictObjectLoop.simps [simp del] strictArrayLoop.simps [simp del]

lemma strict_span:
  "endsIn data pos (scanStrictRawJSONValue data pos depth)"
  "endsIn data pos (strictObjectLoop data pos depth)"
  "endsIn data pos (strictArrayLoop data pos depth)"
  using strict_total by (metis strict_dom_span)+

section \<open>Skipping a value\<close>

text \<open>\<open>skipRawJSONValue\<close>: the loop over a container counts brackets; a string inside it is passed
  as a whole.\<close>

function skipContainerLoop :: "string \<Rightarrow> nat \<Rightarrow> int \<Rightarrow> nat option" where
  "skipContainerLoop data i depth =
     (if length data \<le> i then None
      else if data ! i = CHR 0x22 then
        (case scanRawJSONString data i of
           None \<Rightarrow> None
         | Some (contentStart, contentEnd, endPos, escaped) \<Rightarrow> skipContainerLoop data endPos depth)
      else if data ! i = CHR ''{'' \<or> data ! i = CHR ''['' then skipContainerLoop data (i + 1) (depth + 1)
      else if data ! i = CHR ''}'' \<or> data ! i = CHR '']'' then
        (if depth - 1 = 0 then Some (i + 1) else skipContainerLoop data (i + 1) (depth - 1))
      else skipContainerLoop data (i + 1) depth)"
  by pat_completeness auto
termination
  by (relation "measure (\<lambda>(data, i, depth). length data - i)") (auto dest!: raw_string_span)

declare skipContainerLoop.simps [simp del]

function skipScalarLoop :: "string \<Rightarrow> nat \<Rightarrow> nat \<Rightarrow> nat option" where
  "skipScalarLoop data pos i =
     (if length data \<le> i then Some (length data)
      else if data ! i \<in> {CHR '','', CHR ''}'', CHR '']'', CHR '' '', CHR 0x09, CHR 0x0A, CHR 0x0D}
      then (if pos < i then Some i else None)
      else skipScalarLoop data pos (i + 1))"
  by pat_completeness auto
termination by (relation "measure (\<lambda>(data, pos, i). length data - i)") auto

declare skipScalarLoop.simps [simp del]

definition skipRawJSONValue :: "string \<Rightarrow> nat \<Rightarrow> nat option" where
  "skipRawJSONValue data pos =
     (let p = skipRawJSONSpace data pos
      in if length data \<le> p then None
         else if data ! p = CHR 0x22 then spanEnd (scanRawJSONString data p)
         else if data ! p = CHR ''{'' \<or> data ! p = CHR ''['' then skipContainerLoop data p 0
         else skipScalarLoop data p p)"

lemma skipContainerLoop_span:
  "skipContainerLoop data i depth = Some e \<Longrightarrow> i < e \<and> e \<le> length data"
proof (induction "length data - i" arbitrary: i depth rule: less_induct)
  case less
  have ih: "i < e \<and> e \<le> length data"
    if "i < p" "p \<le> length data" "skipContainerLoop data p d = Some e" for p d
  proof -
    from less.prems that(1,2) have "length data - p < length data - i" by linarith
    from less.hyps[OF this that(3)] that show ?thesis by linarith
  qed
  from less.prems show ?case
    by (subst (asm) skipContainerLoop.simps)
      (auto simp: not_le dest!: raw_string_span dest: ih[rotated 2] split: if_splits option.splits)
qed

lemma skipScalarLoop_span:
  "skipScalarLoop data pos i = Some e \<Longrightarrow> pos \<le> i \<Longrightarrow> pos < length data \<Longrightarrow> i \<le> length data \<Longrightarrow>
   pos < e \<and> e \<le> length data"
proof (induction data pos i rule: skipScalarLoop.induct)
  case (1 data pos i)
  from 1(2) show ?case
    by (subst (asm) skipScalarLoop.simps) (use 1(1,3-5) in \<open>auto split: if_splits\<close>)
qed

lemma skip_value_span: "skipRawJSONValue data pos = Some e \<Longrightarrow> pos < e \<and> e \<le> length data"
  using skip_ge[of pos data]
  by (auto simp: skipRawJSONValue_def Let_def spanEnd_def split: if_splits
      dest!: raw_string_span skipContainerLoop_span skipScalarLoop_span)

section \<open>Cursors and scanners\<close>

record rawJSONObjectCursor =
  ocData :: string
  ocPos :: nat
  ocFirst :: bool
  ocDone :: bool
  ocStrict :: bool

record rawJSONArrayCursor =
  acData :: string
  acPos :: nat
  acFirst :: bool
  acDone :: bool

definition newRawJSONObjectCursor :: "string \<Rightarrow> nat \<Rightarrow> rawJSONObjectCursor option" where
  "newRawJSONObjectCursor data pos =
     (let p = skipRawJSONSpace data pos
      in if length data \<le> p \<or> data ! p \<noteq> CHR ''{'' then None
         else Some \<lparr>ocData = data, ocPos = p + 1, ocFirst = True, ocDone = False, ocStrict = False\<rparr>)"

definition newRawJSONArrayCursor :: "string \<Rightarrow> nat \<Rightarrow> rawJSONArrayCursor option" where
  "newRawJSONArrayCursor data pos =
     (let p = skipRawJSONSpace data pos
      in if length data \<le> p \<or> data ! p \<noteq> CHR ''['' then None
         else Some \<lparr>acData = data, acPos = p + 1, acFirst = True, acDone = False\<rparr>)"

text \<open>
  The position of the next member (after a comma, unless it is the first one), and its key with
  the position of its value. A key with an escape is refused.
\<close>

definition memberStart :: "string \<Rightarrow> nat \<Rightarrow> bool \<Rightarrow> nat option" where
  "memberStart data pos first =
     (if first then Some pos
      else if data ! pos \<noteq> CHR '','' then None
      else Some (skipRawJSONSpace data (pos + 1)))"

definition memberKey :: "bool \<Rightarrow> string \<Rightarrow> nat \<Rightarrow> (string \<times> nat) option" where
  "memberKey strict data pos =
     (case (if strict then scanStrictRawJSONString data pos else scanRawJSONString data pos) of
        None \<Rightarrow> None
      | Some (contentStart, contentEnd, afterKey, escaped) \<Rightarrow>
          if escaped then None
          else (let p = skipRawJSONSpace data afterKey
                in if length data \<le> p \<or> data ! p \<noteq> CHR '':'' then None
                   else Some (byteSlice data contentStart contentEnd, skipRawJSONSpace data (p + 1))))"

definition objectCursorNext ::
  "rawJSONObjectCursor \<Rightarrow> (rawJSONObjectCursor \<times> (string \<times> nat) option) option" where
  "objectCursorNext s =
     (if ocDone s then Some (s, None)
      else let pos = skipRawJSONSpace (ocData s) (ocPos s)
           in if length (ocData s) \<le> pos then None
              else if ocData s ! pos = CHR ''}'' then Some (s\<lparr>ocDone := True, ocPos := pos + 1\<rparr>, None)
              else case memberStart (ocData s) pos (ocFirst s) of
                None \<Rightarrow> None
              | Some p \<Rightarrow>
                  (case memberKey (ocStrict s) (ocData s) p of
                     None \<Rightarrow> None
                   | Some (key, valueStart) \<Rightarrow> Some (s, Some (key, valueStart))))"

definition objectCursorAdvance :: "nat \<Rightarrow> rawJSONObjectCursor \<Rightarrow> rawJSONObjectCursor option" where
  "objectCursorAdvance valueEnd s =
     (if ocDone s \<or> valueEnd \<le> ocPos s \<or> length (ocData s) < valueEnd then None
      else Some (s\<lparr>ocPos := valueEnd, ocFirst := False\<rparr>))"

definition arrayCursorNext :: "rawJSONArrayCursor \<Rightarrow> (rawJSONArrayCursor \<times> nat option) option" where
  "arrayCursorNext s =
     (if acDone s then Some (s, None)
      else let pos = skipRawJSONSpace (acData s) (acPos s)
           in if length (acData s) \<le> pos then None
              else if acData s ! pos = CHR '']'' then Some (s\<lparr>acDone := True, acPos := pos + 1\<rparr>, None)
              else case memberStart (acData s) pos (acFirst s) of
                None \<Rightarrow> None
              | Some p \<Rightarrow> Some (s, Some p))"

definition arrayCursorAdvance :: "nat \<Rightarrow> rawJSONArrayCursor \<Rightarrow> rawJSONArrayCursor option" where
  "arrayCursorAdvance valueEnd s =
     (if acDone s \<or> valueEnd \<le> acPos s \<or> length (acData s) < valueEnd then None
      else Some (s\<lparr>acPos := valueEnd, acFirst := False\<rparr>))"

text \<open>
  The scanners walk to the end of every value, and accept the end of the object or the array
  only at the end of the data.
\<close>

record rawJSONObjectScanner =
  osData :: string
  osPos :: nat
  osFirst :: bool
  osDone :: bool
  osStrict :: bool

record rawJSONArrayScanner =
  asData :: string
  asPos :: nat
  asFirst :: bool
  asDone :: bool

definition newRawJSONObjectScanner :: "string \<Rightarrow> rawJSONObjectScanner option" where
  "newRawJSONObjectScanner data =
     (let p = skipRawJSONSpace data 0
      in if length data \<le> p \<or> data ! p \<noteq> CHR ''{'' then None
         else Some \<lparr>osData = data, osPos = p + 1, osFirst = True, osDone = False, osStrict = False\<rparr>)"

definition newStrictRawJSONObjectScanner :: "string \<Rightarrow> rawJSONObjectScanner option" where
  "newStrictRawJSONObjectScanner data =
     map_option (\<lambda>s. s\<lparr>osStrict := True\<rparr>) (newRawJSONObjectScanner data)"

definition newRawJSONArrayScanner :: "string \<Rightarrow> rawJSONArrayScanner option" where
  "newRawJSONArrayScanner data =
     (let p = skipRawJSONSpace data 0
      in if length data \<le> p \<or> data ! p \<noteq> CHR ''['' then None
         else Some \<lparr>asData = data, asPos = p + 1, asFirst = True, asDone = False\<rparr>)"

definition objectScannerNext ::
  "rawJSONObjectScanner \<Rightarrow> (rawJSONObjectScanner \<times> (string \<times> nat \<times> nat) option) option" where
  "objectScannerNext s =
     (if osDone s then Some (s, None)
      else let data = osData s; pos = skipRawJSONSpace data (osPos s)
           in if length data \<le> pos then None
              else if data ! pos = CHR ''}'' then
                (let p = skipRawJSONSpace data (pos + 1)
                 in if p \<noteq> length data then None else Some (s\<lparr>osDone := True, osPos := p\<rparr>, None))
              else case memberStart data pos (osFirst s) of
                None \<Rightarrow> None
              | Some p \<Rightarrow>
                  (case memberKey (osStrict s) data p of
                     None \<Rightarrow> None
                   | Some (key, valueStart) \<Rightarrow>
                       (case (if osStrict s then scanStrictRawJSONValue data valueStart 1
                              else skipRawJSONValue data valueStart) of
                          None \<Rightarrow> None
                        | Some valueEnd \<Rightarrow>
                            Some (s\<lparr>osPos := valueEnd, osFirst := False\<rparr>, Some (key, valueStart, valueEnd)))))"

definition arrayScannerNext ::
  "rawJSONArrayScanner \<Rightarrow> (rawJSONArrayScanner \<times> (nat \<times> nat) option) option" where
  "arrayScannerNext s =
     (if asDone s then Some (s, None)
      else let data = asData s; pos = skipRawJSONSpace data (asPos s)
           in if length data \<le> pos then None
              else if data ! pos = CHR '']'' then
                (let p = skipRawJSONSpace data (pos + 1)
                 in if p \<noteq> length data then None else Some (s\<lparr>asDone := True, asPos := p\<rparr>, None))
              else case memberStart data pos (asFirst s) of
                None \<Rightarrow> None
              | Some valueStart \<Rightarrow>
                  (case skipRawJSONValue data valueStart of
                     None \<Rightarrow> None
                   | Some valueEnd \<Rightarrow>
                       Some (s\<lparr>asPos := valueEnd, asFirst := False\<rparr>, Some (valueStart, valueEnd))))"


section \<open>Progress of cursors and scanners\<close>

lemma memberStart_ge: "memberStart data pos first = Some p \<Longrightarrow> pos \<le> p"
  using skip_ge[of "pos + 1" data] by (auto simp: memberStart_def split: if_splits)

lemma memberKey_gt: "memberKey strict data pos = Some (key, start) \<Longrightarrow> pos < start"
proof -
  assume k: "memberKey strict data pos = Some (key, start)"
  obtain a b e f where sp: "(if strict then scanStrictRawJSONString data pos else scanRawJSONString data pos)
      = Some (a, b, e, f)"
    using k by (cases strict) (auto simp: memberKey_def split: option.splits)
  then have "pos < e" by (auto split: if_splits dest!: strict_string_span raw_string_span)
  moreover have "start = skipRawJSONSpace data (skipRawJSONSpace data e + 1)"
    using k sp by (auto simp: memberKey_def Let_def split: if_splits)
  ultimately show ?thesis
    using skip_ge[of e data] skip_ge[of "skipRawJSONSpace data e + 1" data] by linarith
qed

lemma cursor_next_keeps:
  "objectCursorNext s = Some (s', Some m) \<Longrightarrow> s' = s"
  by (auto simp: objectCursorNext_def Let_def split: if_splits option.splits)

lemma array_next_keeps:
  "arrayCursorNext s = Some (s', Some m) \<Longrightarrow> s' = s"
  by (auto simp: arrayCursorNext_def Let_def split: if_splits option.splits)

lemma cursor_advance:
  "objectCursorAdvance e s = Some s' \<Longrightarrow> ocPos s < ocPos s' \<and> ocPos s' \<le> length (ocData s) \<and> ocData s' = ocData s"
  by (auto simp: objectCursorAdvance_def split: if_splits)

lemma array_advance:
  "arrayCursorAdvance e s = Some s' \<Longrightarrow> acPos s < acPos s' \<and> acPos s' \<le> length (acData s) \<and> acData s' = acData s"
  by (auto simp: arrayCursorAdvance_def split: if_splits)

lemma object_scanner_progress:
  assumes "objectScannerNext s = Some (s', Some (key, start, endPos))"
  shows "osPos s < osPos s' \<and> osPos s' \<le> length (osData s) \<and> osData s' = osData s"
proof -
  let ?pos = "skipRawJSONSpace (osData s) (osPos s)"
  from assms obtain p where p: "memberStart (osData s) ?pos (osFirst s) = Some p"
      "memberKey (osStrict s) (osData s) p = Some (key, start)"
      "(if osStrict s then scanStrictRawJSONValue (osData s) start 1 else skipRawJSONValue (osData s) start) = Some endPos"
      "s' = s\<lparr>osPos := endPos, osFirst := False\<rparr>"
    by (auto simp: objectScannerNext_def Let_def split: if_splits option.splits)
  have "start < endPos \<and> endPos \<le> length (osData s)"
    using p(3) strict_span(1)[of "osData s" start 1] skip_value_span by (auto split: if_splits)
  with memberStart_ge[OF p(1)] memberKey_gt[OF p(2)] skip_ge[of "osPos s" "osData s"] p(4)
  show ?thesis by simp
qed

section \<open>Keys and values\<close>

definition rawJSONKeyEqual :: "string \<Rightarrow> string \<Rightarrow> bool" where
  "rawJSONKeyEqual key want \<longleftrightarrow> key = want"

definition rawJSONKeyEqualFold :: "string \<Rightarrow> string \<Rightarrow> bool" where
  "rawJSONKeyEqualFold key want \<longleftrightarrow> equalFold key want"

definition rawJSONNonEmptyString :: "string \<Rightarrow> bool" where
  "rawJSONNonEmptyString r =
     (let raw = trimSpace r
      in case scanRawJSONString raw 0 of
           None \<Rightarrow> False
         | Some (contentStart, contentEnd, endPos, escaped) \<Rightarrow>
             \<not> escaped \<and> endPos = length raw \<and> trimSpace (byteSlice raw contentStart contentEnd) \<noteq> '''')"

definition rawJSONNonNull :: "string \<Rightarrow> bool" where
  "rawJSONNonNull r \<longleftrightarrow> trimSpace r \<noteq> '''' \<and> trimSpace r \<noteq> ''null''"

definition rawJSONHasNonEmptyArrayFast :: "string \<Rightarrow> bool option" where
  "rawJSONHasNonEmptyArrayFast raw =
     (case newRawJSONArrayScanner raw of
        None \<Rightarrow> None
      | Some s \<Rightarrow> map_option (\<lambda>(s', m). m \<noteq> None) (arrayScannerNext s))"

definition rawJSONInt :: "string \<Rightarrow> int option" where
  "rawJSONInt raw = parseInt64 (trimSpace raw)"

definition rawJSONCreatedUnchangedByNormalizer :: "string \<Rightarrow> bool" where
  "rawJSONCreatedUnchangedByNormalizer r =
     (rawJSONNonNull (trimSpace r) \<and> (case parseInt64 (trimSpace r) of None \<Rightarrow> True | Some v \<Rightarrow> v \<noteq> 0))"

section \<open>A string member of the top-level object\<close>

text \<open>The result of the loop: \<open>None\<close> when the scan failed, otherwise the raw value found.\<close>

function extractLoop :: "string \<Rightarrow> bool \<Rightarrow> rawJSONObjectScanner \<Rightarrow> string option \<Rightarrow> string option option" where
  "extractLoop field lastMatch s raw =
     (case objectScannerNext s of
        None \<Rightarrow> None
      | Some (s', None) \<Rightarrow> Some raw
      | Some (s', Some (key, start, endPos)) \<Rightarrow>
          if \<not> rawJSONKeyEqual key field then extractLoop field lastMatch s' raw
          else if lastMatch then extractLoop field lastMatch s' (Some (byteSlice (osData s) start endPos))
          else Some (Some (byteSlice (osData s) start endPos)))"
  by pat_completeness auto
termination
  by (relation "measure (\<lambda>(f, l, s, r). length (osData s) - osPos s)") (auto dest: object_scanner_progress)

declare extractLoop.simps [simp del]

text \<open>The three results of the code: the value, whether the member was found, whether the scan is sure.\<close>

definition extractTopLevelJSONStringFastValidated ::
  "(string \<Rightarrow> string option) \<Rightarrow> string \<Rightarrow> string \<Rightarrow> bool \<Rightarrow> string \<times> bool \<times> bool" where
  "extractTopLevelJSONStringFastValidated unmarshalString body field lastMatch =
     (case newRawJSONObjectScanner body of
        None \<Rightarrow> ('''', False, False)
      | Some object \<Rightarrow>
          (case extractLoop field lastMatch object None of
             None \<Rightarrow> ('''', False, False)
           | Some None \<Rightarrow> ('''', False, True)
           | Some (Some r) \<Rightarrow>
               (let raw = trimSpace r
                in case scanRawJSONString raw 0 of
                     None \<Rightarrow> ('''', True, True)
                   | Some (contentStart, contentEnd, endPos, escaped) \<Rightarrow>
                       if endPos \<noteq> length raw then ('''', True, True)
                       else if \<not> escaped then (trimSpace (byteSlice raw contentStart contentEnd), True, True)
                       else (case unmarshalString raw of
                               None \<Rightarrow> ('''', True, True)
                             | Some value \<Rightarrow> (trimSpace value, True, True)))))"

definition extractTopLevelJSONStringFast ::
  "(string \<Rightarrow> bool) \<Rightarrow> (string \<Rightarrow> string option) \<Rightarrow> string \<Rightarrow> string \<Rightarrow> bool \<Rightarrow> string \<times> bool \<times> bool" where
  "extractTopLevelJSONStringFast valid unmarshalString body field lastMatch =
     (if \<not> valid body then ('''', False, False)
      else extractTopLevelJSONStringFastValidated unmarshalString body field lastMatch)"

section \<open>Replacing a member of the top-level object\<close>

function replaceLoop :: "string \<Rightarrow> rawJSONObjectScanner \<Rightarrow> (nat \<times> nat) option \<Rightarrow> (nat \<times> nat) option option" where
  "replaceLoop field s found =
     (case objectScannerNext s of
        None \<Rightarrow> None
      | Some (s', None) \<Rightarrow> Some found
      | Some (s', Some (key, start, endPos)) \<Rightarrow>
          if rawJSONKeyEqual key field then
            (if found \<noteq> None then None else replaceLoop field s' (Some (start, endPos)))
          else if rawJSONKeyEqualFold key field then None
          else replaceLoop field s' found)"
  by pat_completeness auto
termination
  by (relation "measure (\<lambda>(f, s, r). length (osData s) - osPos s)") (auto dest: object_scanner_progress)

declare replaceLoop.simps [simp del]

text \<open>\<open>maxInt\<close> is the largest \<open>int\<close> of a 64-bit platform.\<close>

definition maxInt :: nat where
  "maxInt = 2 ^ 63 - 1"

definition replaceSingleTopLevelRawJSONFieldValidated ::
  "(string \<Rightarrow> bool) \<Rightarrow> string \<Rightarrow> string \<Rightarrow> string \<Rightarrow> string \<times> bool" where
  "replaceSingleTopLevelRawJSONFieldValidated valid body field replacement =
     (if \<not> valid replacement then (body, False)
      else case newRawJSONObjectScanner body of
        None \<Rightarrow> (body, False)
      | Some object \<Rightarrow>
          (case replaceLoop field object None of
             None \<Rightarrow> (body, False)
           | Some None \<Rightarrow> (body, False)
           | Some (Some (matchStart, matchEnd)) \<Rightarrow>
               if matchEnd < matchStart \<or> length body < matchEnd then (body, False)
               else if maxInt - (length body - (matchEnd - matchStart)) < length replacement then (body, False)
               else (take matchStart body @ replacement @ drop matchEnd body, True)))"

definition replaceSingleTopLevelRawJSONField ::
  "(string \<Rightarrow> bool) \<Rightarrow> string \<Rightarrow> string \<Rightarrow> string \<Rightarrow> string \<times> bool" where
  "replaceSingleTopLevelRawJSONField valid body field replacement =
     (if \<not> valid body \<or> \<not> valid replacement then (body, False)
      else replaceSingleTopLevelRawJSONFieldValidated valid body field replacement)"


section \<open>The single walk over a canonical chat completion\<close>

record rawJSONSingleWalkMode =
  wmStrict :: bool
  wmDepth :: nat

definition walkObject :: "rawJSONSingleWalkMode \<Rightarrow> string \<Rightarrow> nat \<Rightarrow> rawJSONObjectCursor option" where
  "walkObject m data pos = map_option (\<lambda>s. s\<lparr>ocStrict := wmStrict m\<rparr>) (newRawJSONObjectCursor data pos)"

definition walkArray :: "rawJSONSingleWalkMode \<Rightarrow> string \<Rightarrow> nat \<Rightarrow> rawJSONArrayCursor option" where
  "walkArray m data pos = newRawJSONArrayCursor data pos"

definition walkValueEnd :: "rawJSONSingleWalkMode \<Rightarrow> string \<Rightarrow> nat \<Rightarrow> nat option" where
  "walkValueEnd m data pos =
     (if wmStrict m then scanStrictRawJSONValue data pos (wmDepth m) else skipRawJSONValue data pos)"

definition walkChild :: "rawJSONSingleWalkMode \<Rightarrow> rawJSONSingleWalkMode option" where
  "walkChild m =
     (if wmStrict m \<and> maxFastRawJSONNestingDepth \<le> wmDepth m then None
      else Some (m\<lparr>wmDepth := wmDepth m + 1\<rparr>))"

text \<open>
  The counters of \<open>models.OpenAIUsage\<close>; its pointers to details stay nil here. The loops return
  \<open>None\<close> at every \<open>false\<close> of the code, and the position after the container otherwise.
\<close>

record OpenAIUsage =
  PromptTokens :: int
  CompletionTokens :: int
  TotalTokens :: int
  ReasoningTokens :: int

definition zeroUsage :: OpenAIUsage where
  "zeroUsage = \<lparr>PromptTokens = 0, CompletionTokens = 0, TotalTokens = 0, ReasoningTokens = 0\<rparr>"

text \<open>
  The loop that the four object inspectors share: read the next member, let the inspector's switch
  handle it (\<open>None\<close> for a \<open>false\<close>, otherwise the end of the value and the flags after it),
  advance; at the end of the object the flags decide the result.
\<close>

function objectWalk ::
  "(string \<Rightarrow> string \<Rightarrow> nat \<Rightarrow> 'f \<Rightarrow> (nat \<times> 'f) option) \<Rightarrow> ('f \<Rightarrow> 'r option) \<Rightarrow>
   rawJSONObjectCursor \<Rightarrow> 'f \<Rightarrow> ('r \<times> nat) option" where
  "objectWalk member finish object flags =
     (case objectCursorNext object of
        None \<Rightarrow> None
      | Some (s, None) \<Rightarrow> map_option (\<lambda>r. (r, ocPos s)) (finish flags)
      | Some (s, Some (key, valueStart)) \<Rightarrow>
          (case member (ocData s) key valueStart flags of
             None \<Rightarrow> None
           | Some (valueEnd, flags') \<Rightarrow>
               (case objectCursorAdvance valueEnd s of
                  None \<Rightarrow> None
                | Some s' \<Rightarrow> objectWalk member finish s' flags')))"
  by pat_completeness auto
termination
  by (relation "measure (\<lambda>(m, f, s, fl). length (ocData s) - ocPos s)")
    (auto dest!: cursor_next_keeps cursor_advance)

declare objectWalk.simps [simp del]

text \<open>A member whose value is only walked to its end and tested.\<close>

definition checkedMember ::
  "rawJSONSingleWalkMode \<Rightarrow> string \<Rightarrow> nat \<Rightarrow> (string \<Rightarrow> 'f option) \<Rightarrow> (nat \<times> 'f) option" where
  "checkedMember walk data valueStart test =
     (case walkValueEnd walk data valueStart of
        None \<Rightarrow> None
      | Some e \<Rightarrow> map_option (\<lambda>f. (e, f)) (test (byteSlice data valueStart e)))"

text \<open>\<open>inspectCanonicalOpenAIChatMessageSingleWalk\<close>. The flags are \<open>roleOK\<close> and \<open>contentOK\<close>.\<close>

definition messageMember ::
  "rawJSONSingleWalkMode \<Rightarrow> string \<Rightarrow> string \<Rightarrow> nat \<Rightarrow> bool \<times> bool \<Rightarrow> (nat \<times> bool \<times> bool) option" where
  "messageMember walk data key valueStart flags =
     checkedMember walk data valueStart (\<lambda>raw.
       case flags of (roleOK, contentOK) \<Rightarrow>
         if rawJSONKeyEqual key ''role'' then
           (if rawJSONNonEmptyString raw then Some (True, contentOK) else None)
         else if rawJSONKeyEqual key ''content'' then
           (if rawJSONNonNull raw then Some (roleOK, True) else None)
         else Some flags)"

definition inspectCanonicalOpenAIChatMessageSingleWalk ::
  "string \<Rightarrow> nat \<Rightarrow> rawJSONSingleWalkMode \<Rightarrow> nat option" where
  "inspectCanonicalOpenAIChatMessageSingleWalk data pos walk =
     (case walkObject walk data pos of
        None \<Rightarrow> None
      | Some message \<Rightarrow>
          map_option snd
            (objectWalk (messageMember walk)
               (\<lambda>(roleOK, contentOK). if \<not> roleOK \<or> \<not> contentOK then None else Some ())
               message (False, False)))"

text \<open>\<open>inspectCanonicalOpenAIChatChoiceSingleWalk\<close>: the flags are \<open>indexOK\<close>, \<open>finishOK\<close>, \<open>messageOK\<close>.\<close>

type_synonym choiceFlags = "bool \<times> bool \<times> bool"

definition choiceMember ::
  "rawJSONSingleWalkMode \<Rightarrow> string \<Rightarrow> string \<Rightarrow> nat \<Rightarrow> choiceFlags \<Rightarrow> (nat \<times> choiceFlags) option" where
  "choiceMember walk data key valueStart flags =
     (case flags of (indexOK, finishOK, messageOK) \<Rightarrow>
        if rawJSONKeyEqual key ''index'' then
          checkedMember walk data valueStart
            (\<lambda>raw. if rawJSONNonNull raw then Some (True, finishOK, messageOK) else None)
        else if rawJSONKeyEqual key ''finish_reason'' then
          checkedMember walk data valueStart
            (\<lambda>raw. if rawJSONNonEmptyString raw then Some (indexOK, True, messageOK) else None)
        else if rawJSONKeyEqual key ''message'' then
          (case walkChild walk of
             None \<Rightarrow> None
           | Some messageWalk \<Rightarrow>
               map_option (\<lambda>e. (e, indexOK, finishOK, True))
                 (inspectCanonicalOpenAIChatMessageSingleWalk data valueStart messageWalk))
        else if rawJSONKeyEqual key ''tool_calls'' \<or> rawJSONKeyEqual key ''function_call'' then None
        else checkedMember walk data valueStart (\<lambda>raw. Some flags))"

definition inspectCanonicalOpenAIChatChoiceSingleWalk ::
  "string \<Rightarrow> nat \<Rightarrow> rawJSONSingleWalkMode \<Rightarrow> nat option" where
  "inspectCanonicalOpenAIChatChoiceSingleWalk data pos walk =
     (case walkObject walk data pos of
        None \<Rightarrow> None
      | Some choice \<Rightarrow>
          map_option snd
            (objectWalk (choiceMember walk)
               (\<lambda>(indexOK, finishOK, messageOK).
                  if \<not> indexOK \<or> \<not> finishOK \<or> \<not> messageOK then None else Some ())
               choice (False, False, False)))"

function choicesLoop :: "rawJSONSingleWalkMode \<Rightarrow> rawJSONArrayCursor \<Rightarrow> nat option" where
  "choicesLoop walk array =
     (case arrayCursorNext array of
        None \<Rightarrow> None
      | Some (s, None) \<Rightarrow> Some (acPos s)
      | Some (s, Some valueStart) \<Rightarrow>
          (case walkChild walk of
             None \<Rightarrow> None
           | Some choiceWalk \<Rightarrow>
               (case inspectCanonicalOpenAIChatChoiceSingleWalk (acData s) valueStart choiceWalk of
                  None \<Rightarrow> None
                | Some valueEnd \<Rightarrow>
                    (case arrayCursorAdvance valueEnd s of
                       None \<Rightarrow> None
                     | Some s' \<Rightarrow> choicesLoop walk s'))))"
  by pat_completeness auto
termination
  by (relation "measure (\<lambda>(w, s). length (acData s) - acPos s)")
    (auto dest!: array_next_keeps array_advance)

declare choicesLoop.simps [simp del]

definition inspectCanonicalOpenAIChatChoicesSingleWalk ::
  "string \<Rightarrow> nat \<Rightarrow> rawJSONSingleWalkMode \<Rightarrow> nat option" where
  "inspectCanonicalOpenAIChatChoicesSingleWalk data pos walk =
     (case walkArray walk data pos of None \<Rightarrow> None | Some array \<Rightarrow> choicesLoop walk array)"

text \<open>\<open>inspectCanonicalOpenAIUsageSingleWalk\<close>: the usage read so far and the flags \<open>promptOK\<close>,
  \<open>completionOK\<close> and \<open>totalOK\<close>.\<close>

type_synonym usageFlags = "OpenAIUsage \<times> bool \<times> bool \<times> bool"

definition usageDetailKeys :: "string list" where
  "usageDetailKeys = [''prompt_tokens'', ''completion_tokens'', ''total_tokens'', ''reasoning_tokens'',
     ''prompt_tokens_details'', ''completion_tokens_details'']"

definition usageMember ::
  "rawJSONSingleWalkMode \<Rightarrow> string \<Rightarrow> string \<Rightarrow> nat \<Rightarrow> usageFlags \<Rightarrow> (nat \<times> usageFlags) option" where
  "usageMember walk data key valueStart flags =
     checkedMember walk data valueStart (\<lambda>raw.
       case flags of (usage, promptOK, completionOK, totalOK) \<Rightarrow>
         if rawJSONKeyEqual key ''prompt_tokens'' then
           map_option (\<lambda>n. (usage\<lparr>PromptTokens := n\<rparr>, True, completionOK, totalOK)) (rawJSONInt raw)
         else if rawJSONKeyEqual key ''completion_tokens'' then
           map_option (\<lambda>n. (usage\<lparr>CompletionTokens := n\<rparr>, promptOK, True, totalOK)) (rawJSONInt raw)
         else if rawJSONKeyEqual key ''total_tokens'' then
           map_option (\<lambda>n. (usage\<lparr>TotalTokens := n\<rparr>, promptOK, completionOK, True)) (rawJSONInt raw)
         else if rawJSONKeyEqual key ''reasoning_tokens'' then
           map_option (\<lambda>n. (usage\<lparr>ReasoningTokens := n\<rparr>, promptOK, completionOK, totalOK)) (rawJSONInt raw)
         else if list_ex (rawJSONKeyEqualFold key) usageDetailKeys then None
         else Some flags)"

definition usageFinish :: "usageFlags \<Rightarrow> OpenAIUsage option" where
  "usageFinish flags =
     (case flags of (usage, promptOK, completionOK, totalOK) \<Rightarrow>
        if \<not> promptOK \<or> \<not> completionOK \<or> \<not> totalOK \<or>
           TotalTokens usage = 0 \<and> (PromptTokens usage \<noteq> 0 \<or> CompletionTokens usage \<noteq> 0) then None
        else Some usage)"

definition inspectCanonicalOpenAIUsageSingleWalk ::
  "string \<Rightarrow> nat \<Rightarrow> rawJSONSingleWalkMode \<Rightarrow> (OpenAIUsage \<times> nat) option" where
  "inspectCanonicalOpenAIUsageSingleWalk data pos walk =
     (case walkObject walk data pos of
        None \<Rightarrow> None
      | Some object \<Rightarrow> objectWalk (usageMember walk) usageFinish object (zeroUsage, False, False, False))"

text \<open>\<open>inspectCanonicalOpenAIChatCompletionObjectSingleWalk\<close>: the flags of the object, one member,
  and the loop.\<close>

record completionFlags =
  idOK :: bool
  objectOK :: bool
  createdOK :: bool
  modelOK :: bool
  choicesOK :: bool
  usageOK :: bool
  foundUsage :: OpenAIUsage

definition completionMember ::
  "rawJSONSingleWalkMode \<Rightarrow> string \<Rightarrow> string \<Rightarrow> nat \<Rightarrow> completionFlags \<Rightarrow> (nat \<times> completionFlags) option" where
  "completionMember walk data key valueStart f =
     (if rawJSONKeyEqual key ''error'' then None
      else if rawJSONKeyEqual key ''id'' then
        checkedMember walk data valueStart
          (\<lambda>raw. if rawJSONNonEmptyString raw then Some (f\<lparr>idOK := True\<rparr>) else None)
      else if rawJSONKeyEqual key ''object'' then
        checkedMember walk data valueStart
          (\<lambda>raw. if rawJSONNonEmptyString raw then Some (f\<lparr>objectOK := True\<rparr>) else None)
      else if rawJSONKeyEqual key ''created'' then
        checkedMember walk data valueStart
          (\<lambda>raw. if rawJSONCreatedUnchangedByNormalizer raw then Some (f\<lparr>createdOK := True\<rparr>) else None)
      else if rawJSONKeyEqual key ''model'' then
        checkedMember walk data valueStart
          (\<lambda>raw. if rawJSONNonEmptyString raw then Some (f\<lparr>modelOK := True\<rparr>) else None)
      else if rawJSONKeyEqual key ''choices'' then
        (case walkChild walk of
           None \<Rightarrow> None
         | Some choicesWalk \<Rightarrow>
             map_option (\<lambda>e. (e, f\<lparr>choicesOK := True\<rparr>))
               (inspectCanonicalOpenAIChatChoicesSingleWalk data valueStart choicesWalk))
      else if rawJSONKeyEqual key ''usage'' then
        (case walkChild walk of
           None \<Rightarrow> None
         | Some usageWalk \<Rightarrow>
             map_option (\<lambda>(usage, e). (e, f\<lparr>usageOK := True, foundUsage := usage\<rparr>))
               (inspectCanonicalOpenAIUsageSingleWalk data valueStart usageWalk))
      else if rawJSONKeyEqualFold key ''usage'' then None
      else checkedMember walk data valueStart (\<lambda>raw. Some f))"

definition completionFinish :: "completionFlags \<Rightarrow> OpenAIUsage option" where
  "completionFinish f =
     (if \<not> idOK f \<or> \<not> objectOK f \<or> \<not> createdOK f \<or> \<not> modelOK f \<or> \<not> choicesOK f \<or> \<not> usageOK f then None
      else Some (foundUsage f))"

definition inspectCanonicalOpenAIChatCompletionObjectSingleWalk ::
  "string \<Rightarrow> nat \<Rightarrow> string \<Rightarrow> rawJSONSingleWalkMode \<Rightarrow> (OpenAIUsage \<times> nat) option" where
  "inspectCanonicalOpenAIChatCompletionObjectSingleWalk data pos requestedModel walk =
     (case walkObject walk data pos of
        None \<Rightarrow> None
      | Some object \<Rightarrow>
          objectWalk (completionMember walk) completionFinish object
            \<lparr>idOK = False, objectOK = False, createdOK = False, modelOK = (trimSpace requestedModel = ''''),
             choicesOK = False, usageOK = False, foundUsage = zeroUsage\<rparr>)"

definition inspectCompletion ::
  "rawJSONSingleWalkMode \<Rightarrow> string \<Rightarrow> string \<Rightarrow> OpenAIUsage option" where
  "inspectCompletion walk body requestedModel =
     (case inspectCanonicalOpenAIChatCompletionObjectSingleWalk body 0 requestedModel walk of
        None \<Rightarrow> None
      | Some (usage, endPos) \<Rightarrow> if skipRawJSONSpace body endPos \<noteq> length body then None else Some usage)"

definition inspectCanonicalOpenAIChatCompletionResponseFast :: "string \<Rightarrow> string \<Rightarrow> OpenAIUsage option" where
  "inspectCanonicalOpenAIChatCompletionResponseFast body requestedModel =
     inspectCompletion \<lparr>wmStrict = True, wmDepth = 1\<rparr> body requestedModel"

definition inspectCanonicalOpenAIChatCompletionResponseFastValidated ::
  "string \<Rightarrow> string \<Rightarrow> OpenAIUsage option" where
  "inspectCanonicalOpenAIChatCompletionResponseFastValidated body requestedModel =
     inspectCompletion \<lparr>wmStrict = False, wmDepth = 1\<rparr> body requestedModel"

end
