(* ===== verification/Raw_Json_Grammar.thy ===== *)
theory Raw_Json_Grammar
  imports Raw_Json
begin

text \<open>
  The strict scanner against the grammar of \<open>Json_Validator\<close>: what it accepts, and that it
  accepts every JSON value within its depth whose strings are valid UTF-8; the lax scanner finds
  the same end. \<open>spans data i j t\<close> says that \<open>t\<close> is the text between two positions.
\<close>

section \<open>Texts between positions\<close>

definition spans :: "string \<Rightarrow> nat \<Rightarrow> nat \<Rightarrow> string \<Rightarrow> bool" where
  "spans data i j t \<longleftrightarrow> j \<le> length data \<and> j = i + length t \<and> take (length t) (drop i data) = t"

lemma spans_empty [simp]: "spans data i j [] \<longleftrightarrow> j = i \<and> i \<le> length data"
  by (auto simp: spans_def)

lemma spans_Cons: "spans data i j (c # t) \<longleftrightarrow> i < length data \<and> data ! i = c \<and> spans data (i + 1) j t"
  by (cases "i < length data") (auto simp: spans_def Cons_nth_drop_Suc[symmetric])

lemma spans_append: "spans data i j (s @ t) \<longleftrightarrow> spans data i (i + length s) s \<and> spans data (i + length s) j t"
  by (auto simp: spans_def take_add add.commute[of "length s" i] add.assoc)

lemma spans_length: "spans data i j t \<Longrightarrow> j = i + length t \<and> j \<le> length data"
  by (simp add: spans_def)

lemma spans_slice: "spans data i j t \<Longrightarrow> byteSlice data i j = t"
  by (simp add: spans_def byteSlice_def)

lemma spans_join: "spans data i j s \<Longrightarrow> spans data j k t \<Longrightarrow> spans data i k (s @ t)"
  using spans_length[of data i j s] by (simp add: spans_append)

lemma spans_whole: "spans (a @ t @ b) (length a) (length a + length t) t"
  by (simp add: spans_def)

lemma spans_drop: "spans data i j t \<Longrightarrow> drop i data = t @ drop j data"
  by (metis append_take_drop_id drop_drop spans_def add.commute)

lemma spans_slice_intro: "i \<le> j \<Longrightarrow> j \<le> length data \<Longrightarrow> spans data i j (byteSlice data i j)"
  by (simp add: spans_def byteSlice_def)

definition stops :: "string \<Rightarrow> nat \<Rightarrow> bool" where
  "stops data e \<longleftrightarrow> e = length data \<or> (e < length data \<and> isRouteAttemptJSONValueDelimiter (data ! e))"

section \<open>White space\<close>

lemma skip_space: "pos < length data \<Longrightarrow> isRouteAttemptJSONSpace (data ! pos) \<Longrightarrow>
    skipRawJSONSpace data pos = skipRawJSONSpace data (pos + 1)"
  by (subst skipRawJSONSpace.simps) (auto simp: isRouteAttemptJSONSpace_def)

lemma skip_stop: "\<not> (pos < length data \<and> isRouteAttemptJSONSpace (data ! pos)) \<Longrightarrow> skipRawJSONSpace data pos = pos"
  by (subst skipRawJSONSpace.simps) (auto simp: isRouteAttemptJSONSpace_def)

lemma skip_ws: "ws w \<Longrightarrow> spans data i j w \<Longrightarrow> skipRawJSONSpace data i = skipRawJSONSpace data j"
  by (induction w arbitrary: i) (auto simp: spans_Cons skip_space)

lemma skip_split: "pos \<le> length data \<Longrightarrow> \<exists>w. ws w \<and> spans data pos (skipRawJSONSpace data pos) w"
proof (induction data pos rule: skipRawJSONSpace.induct)
  case (1 data pos)
  show ?case
  proof (cases "pos < length data \<and> isRouteAttemptJSONSpace (data ! pos)")
    case True
    with 1 obtain w where "ws w" "spans data (pos + 1) (skipRawJSONSpace data (pos + 1)) w"
      by (auto simp: isRouteAttemptJSONSpace_def)
    with True show ?thesis by (intro exI[of _ "data ! pos # w"]) (simp add: spans_Cons skip_space)
  next
    case False
    with 1 show ?thesis by (intro exI[of _ "[]"]) (simp add: skip_stop)
  qed
qed

lemma skip_stopped: "skipRawJSONSpace data pos < length data \<Longrightarrow>
    \<not> isRouteAttemptJSONSpace (data ! skipRawJSONSpace data pos)"
  by (induction data pos rule: skipRawJSONSpace.induct)
    (metis skip_space skip_stop add.commute isRouteAttemptJSONSpace_def)

lemma ws_append [simp]: "ws (a @ b) \<longleftrightarrow> ws a \<and> ws b"
  by (simp add: ws_def)


section \<open>Strings\<close>

lemma string_body_append: "string_body t \<Longrightarrow> string_body s \<Longrightarrow> string_body (s @ t)"
proof (induction rule: string_body.induct)
  case (plain t c) then show ?case using string_body.plain[of "s @ t" c] by simp
next
  case (escape t c) then show ?case using string_body.escape[of "s @ t" c] by simp
next
  case (unicode t h) then show ?case using string_body.unicode[of "s @ t" h] by simp
qed simp

lemma string_body_one:
  "\<not> c < CHR 0x20 \<Longrightarrow> c \<noteq> CHR 0x22 \<Longrightarrow> c \<noteq> CHR 0x5C \<Longrightarrow> string_body [c]"
  "c \<in> set simpleEscapes \<Longrightarrow> string_body [CHR 0x5C, c]"
  "list_all isRawJSONHex [a, b, d, e] \<Longrightarrow> string_body [CHR 0x5C, CHR ''u'', a, b, d, e]"
proof -
  show "\<not> c < CHR 0x20 \<Longrightarrow> c \<noteq> CHR 0x22 \<Longrightarrow> c \<noteq> CHR 0x5C \<Longrightarrow> string_body [c]"
    using string_body.plain[OF string_body.empty, of c] by (simp add: less_char_def)
  show "c \<in> set simpleEscapes \<Longrightarrow> string_body [CHR 0x5C, c]"
    using string_body.escape[OF string_body.empty, of c] by (auto simp: simpleEscapes_def)
  show "list_all isRawJSONHex [a, b, d, e] \<Longrightarrow> string_body [CHR 0x5C, CHR ''u'', a, b, d, e]"
    using string_body.unicode[OF string_body.empty, of "[a, b, d, e]"]
    by (simp add: isRawJSONHex_def isRouteAttemptJSONHex_def)
qed

abbreviation high :: "char \<Rightarrow> bool" where
  "high c \<equiv> CHR 0x80 \<le> c"

lemma ascii_simps:
  "c \<in> set simpleEscapes \<Longrightarrow> \<not> high c" "isRawJSONHex c \<Longrightarrow> \<not> high c" "\<not> high (CHR 0x5C)" "\<not> high (CHR 0x22)"
  "\<not> high (CHR ''u'')"
  by (auto simp: simpleEscapes_def isRawJSONHex_def byteIn_def less_eq_char_def)

lemma strict_string_sound:
  "strictStringLoop data cs pos esc na = Some (a, b, e, f) \<Longrightarrow>
   \<exists>s. spans data pos b s \<and> string_body s \<and> (na \<or> list_ex high s \<longrightarrow> utf8Valid (byteSlice data cs b))"
proof (induction "length data - pos" arbitrary: pos esc na rule: less_induct)
  case less
  have ih: "\<exists>s. spans data p b s \<and> string_body s \<and> (na' \<or> list_ex high s \<longrightarrow> utf8Valid (byteSlice data cs b))"
    if "pos < p" "pos < length data" "strictStringLoop data cs p esc' na' = Some (a, b, e, f)" for p esc' na'
  proof -
    have "length data - p < length data - pos" using that(1,2) by linarith
    from less.hyps[OF this that(3)] show ?thesis .
  qed
  have bn: "pos \<le> b" "e \<le> length data" "e = b + 1" using strictStringLoop_span[OF less.prems] by auto
  have step: ?case if st: "string_body t" "spans data pos (pos + length t) t" "t \<noteq> []"
    "strictStringLoop data cs (pos + length t) esc' (na \<or> list_ex high t) = Some (a, b, e, f)" for t esc'
  proof -
    have l: "pos < length data" using spans_length[OF st(2)] st(3) by (cases t) auto
    obtain s where "spans data (pos + length t) b s" "string_body s"
        "(na \<or> list_ex high t) \<or> list_ex high s \<longrightarrow> utf8Valid (byteSlice data cs b)"
      using ih[OF _ l st(4)] st(3) by auto
    then show ?thesis using st(1,2) string_body_append[of s t] spans_join[of data pos "pos + length t" t b s]
      by (intro exI[of _ "t @ s"]) auto
  qed
  show ?case
  proof (cases "pos < length data")
    case False
    then show ?thesis using less.prems by (subst (asm) strictStringLoop.simps) simp
  next
    case l: True
    consider (esc) "data ! pos = CHR 0x5C" | (quote) "data ! pos = CHR 0x22"
      | (plain) "data ! pos \<noteq> CHR 0x5C" "data ! pos \<noteq> CHR 0x22" by blast
    then show ?thesis
    proof cases
      case quote
      with l less.prems show ?thesis
        by (subst (asm) strictStringLoop.simps)
          (auto split: if_splits intro!: exI[of _ "[]"] string_body.empty)
    next
      case plain
      with l less.prems have "\<not> data ! pos < CHR 0x20"
          "strictStringLoop data cs (pos + 1) esc (na \<or> high (data ! pos)) = Some (a, b, e, f)"
        by (subst (asm) strictStringLoop.simps; simp split: if_splits)+
      then show ?thesis
        using step[of "[data ! pos]"] string_body_one(1) plain l by (simp add: spans_Cons)
    next
      case esc
      with l less.prems have l1: "pos + 1 < length data"
        by (subst (asm) strictStringLoop.simps) (simp split: if_splits)
      show ?thesis
      proof (cases "data ! (pos + 1) \<in> set simpleEscapes")
        case True
        with esc l l1 less.prems
        have "strictStringLoop data cs (pos + 2) True (na \<or> high (data ! (pos + 1))) = Some (a, b, e, f)"
          by (subst (asm) strictStringLoop.simps) simp
        then show ?thesis
          using step[of "[CHR 0x5C, data ! (pos + 1)]"] string_body_one(2)[OF True] esc l l1 ascii_simps(3)
          by (simp add: spans_Cons)
      next
        case False
        have "strictStringLoop data cs pos esc na =
            (if data ! (pos + 1) = CHR ''u'' then
               (if length data \<le> pos + 1 + 4 then None
                else if list_all (\<lambda>i. isRawJSONHex (data ! (pos + 1 + i))) [1, 2, 3, 4]
                then strictStringLoop data cs (pos + 6) True (na \<or> high (data ! (pos + 1)))
                else None)
             else None)"
          using esc l l1 False by (subst strictStringLoop.simps) (simp only: Let_def if_False if_True refl not_le[symmetric])
        with less.prems have u: "data ! (pos + 1) = CHR ''u''" "pos + 5 < length data"
            "list_all (\<lambda>i. isRawJSONHex (data ! (pos + 1 + i))) [1, 2, 3, 4]"
            "strictStringLoop data cs (pos + 6) True (na \<or> high (data ! (pos + 1))) = Some (a, b, e, f)"
          by (simp_all only: split: if_splits) simp_all
        let ?h = "[data ! (pos + 2), data ! (pos + 3), data ! (pos + 4), data ! (pos + 5)]"
        have h: "list_all isRawJSONHex ?h" using u(3) by (simp add: numeral_eq_Suc)
        have sp: "spans data pos (pos + 6) (CHR 0x5C # CHR ''u'' # ?h)"
          using u(1,2) esc l l1 by (simp add: spans_Cons numeral_eq_Suc)
        have hi: "list_ex high (CHR 0x5C # CHR ''u'' # ?h) = high (data ! (pos + 1))"
          using h ascii_simps u(1) by simp
        have len: "length (CHR 0x5C # CHR ''u'' # ?h) = 6" by simp
        show ?thesis
        proof (rule step[OF string_body_one(3)[OF h], of True])
          show "spans data pos (pos + length (CHR 0x5C # CHR ''u'' # ?h)) (CHR 0x5C # CHR ''u'' # ?h)"
            using sp unfolding len .
          show "strictStringLoop data cs (pos + length (CHR 0x5C # CHR ''u'' # ?h)) True
              (na \<or> list_ex high (CHR 0x5C # CHR ''u'' # ?h)) = Some (a, b, e, f)"
            using u(4) unfolding len hi .
        qed simp
      qed
    qed
  qed
qed


abbreviation backslash :: char where
  "backslash \<equiv> CHR 0x5C"

lemma hex_plain:
  "isRouteAttemptJSONHex c \<Longrightarrow> c \<noteq> CHR 0x5C \<and> c \<noteq> CHR 0x22 \<and> \<not> high c \<and> isRawJSONHex c"
  by (auto simp: isRouteAttemptJSONHex_def isRawJSONHex_def byteIn_def less_eq_char_def)

lemma raw_plain:
  "pos < length data \<Longrightarrow> data ! pos \<noteq> CHR 0x5C \<Longrightarrow> data ! pos \<noteq> CHR 0x22 \<Longrightarrow>
   rawStringLoop data cs pos esc na = rawStringLoop data cs (pos + 1) esc (na \<or> high (data ! pos))"
  by (subst rawStringLoop.simps) simp

lemma raw_escape:
  "pos + 1 < length data \<Longrightarrow> data ! pos = CHR 0x5C \<Longrightarrow>
   rawStringLoop data cs pos esc na = rawStringLoop data cs (pos + 2) True (na \<or> high (data ! (pos + 1)))"
  by (subst rawStringLoop.simps) simp

lemma string_body_runs:
  "string_body s \<Longrightarrow> spans data p q s \<Longrightarrow>
   strictStringLoop data cs p esc na =
     strictStringLoop data cs q (esc \<or> backslash \<in> set s) (na \<or> list_ex high s) \<and>
   rawStringLoop data cs p esc na =
     rawStringLoop data cs q (esc \<or> backslash \<in> set s) (na \<or> list_ex high s)"
proof (induction arbitrary: q rule: string_body.induct)
  case empty then show ?case by simp
next
  case (plain s c)
  define r where "r = p + length s"
  have sp: "spans data p r s" "spans data r q [c]" using plain.prems unfolding r_def spans_append by auto
  have c: "r < length data" "data ! r = c" "q = r + 1" using sp(2) by (auto simp: spans_Cons)
  have "\<not> data ! r < CHR 0x20" using plain.hyps(2) c(2) by (simp add: less_char_def)
  then have "strictStringLoop data cs r e n = strictStringLoop data cs q e (n \<or> high c)" for e n
    using c plain.hyps(3,4) by (subst strictStringLoop.simps) simp
  moreover have "rawStringLoop data cs r e n = rawStringLoop data cs q e (n \<or> high c)" for e n
    using raw_plain[of r data cs e n] c plain.hyps(3,4) by simp
  ultimately show ?case using plain.IH[OF sp(1)] plain.hyps(4) by auto
next
  case (escape s c)
  define r where "r = p + length s"
  have sp: "spans data p r s" "spans data r q [CHR 0x5C, c]"
    using escape.prems unfolding r_def spans_append by auto
  have c: "r + 1 < length data" "data ! r = CHR 0x5C" "data ! (r + 1) = c" "q = r + 2"
    using sp(2) by (auto simp: spans_Cons)
  have m: "c \<in> set simpleEscapes" using escape.hyps(2) by (auto simp: simpleEscapes_def)
  have "strictStringLoop data cs r e n = strictStringLoop data cs q True (n \<or> high c)" for e n
    using c m by (subst strictStringLoop.simps) simp
  moreover have "rawStringLoop data cs r e n = rawStringLoop data cs q True (n \<or> high c)" for e n
    using raw_escape[of r data cs e n] c by simp
  ultimately show ?case using escape.IH[OF sp(1)] ascii_simps(1)[OF m] ascii_simps(3) by auto
next
  case (unicode s h)
  obtain h1 h2 h3 h4 where h: "h = [h1, h2, h3, h4]"
    using unicode.hyps(2) by (auto simp: length_Suc_conv numeral_eq_Suc)
  define r where "r = p + length s"
  have sp: "spans data p r s" "spans data r q ([CHR 0x5C, CHR ''u''] @ h)"
    using unicode.prems unfolding r_def spans_append[of data p q s] by auto
  have c: "r + 5 < length data" "data ! r = CHR 0x5C" "data ! (r + 1) = CHR ''u''" "q = r + 6"
      "data ! (r + 2) = h1" "data ! (r + 3) = h2" "data ! (r + 4) = h3" "data ! (r + 5) = h4"
    using sp(2) unfolding h by (auto simp: spans_Cons numeral_eq_Suc)
  have x: "isRouteAttemptJSONHex h1" "isRouteAttemptJSONHex h2" "isRouteAttemptJSONHex h3" "isRouteAttemptJSONHex h4"
    using unicode.hyps(3) unfolding h by simp_all
  have hx: "list_all (\<lambda>i. isRawJSONHex (data ! (r + 1 + i))) [1, 2, 3, 4]"
    using c hex_plain[OF x(1)] hex_plain[OF x(2)] hex_plain[OF x(3)] hex_plain[OF x(4)]
    by (simp add: numeral_eq_Suc)
  have u: "CHR ''u'' \<notin> set simpleEscapes" by (simp add: simpleEscapes_def)
  have "strictStringLoop data cs r e n = strictStringLoop data cs q True (n \<or> high (CHR ''u''))" for e n
    using c(1-4) hx u
    by (subst strictStringLoop.simps) (simp only: Let_def if_False if_True refl not_le not_less, simp)
  then have st: "strictStringLoop data cs r e n = strictStringLoop data cs q True n" for e n
    using ascii_simps(5) by simp
  have r2: "rawStringLoop data cs r e n = rawStringLoop data cs (r + 2) True n" for e n
    using raw_escape[of r data cs e n] c(1-3) ascii_simps(5) by simp
  have pl: "rawStringLoop data cs k e n = rawStringLoop data cs (k + 1) e n"
    if "k < length data" "isRouteAttemptJSONHex (data ! k)" for k e n
    using raw_plain[of k data cs e n] that hex_plain[OF that(2)] by simp
  have rw: "rawStringLoop data cs r e n = rawStringLoop data cs q True n" for e n
    using r2 pl[of "r + 2" True n] pl[of "r + 3" True n] pl[of "r + 4" True n] pl[of "r + 5" True n] c x
    by (simp add: numeral_eq_Suc)
  have hi: "list_ex high (s @ [CHR 0x5C, CHR ''u''] @ h) = list_ex high s"
      "backslash \<in> set (s @ [CHR 0x5C, CHR ''u''] @ h)"
    using hex_plain[OF x(1)] hex_plain[OF x(2)] hex_plain[OF x(3)] hex_plain[OF x(4)] ascii_simps(3,5)
    unfolding h by auto
  show ?case using unicode.IH[OF sp(1)] st rw hi by simp
qed

text \<open>A JSON string that is valid UTF-8 is read by both scanners, to its end.\<close>

lemma string_end:
  assumes "b < length data" "data ! b = CHR 0x22" "utf8Valid (byteSlice data cs b)"
  shows "strictStringLoop data cs b esc na = Some (cs, b, b + 1, esc)"
    "rawStringLoop data cs b esc na = Some (cs, b, b + 1, esc)"
  using assms by (subst strictStringLoop.simps rawStringLoop.simps; simp)+

lemma string_scanned:
  assumes "spans data i j ([CHR 0x22] @ s @ [CHR 0x22])" "string_body s" "utf8Valid s"
  shows "scanStrictRawJSONString data i = Some (i + 1, i + 1 + length s, j, backslash \<in> set s)"
    and "scanRawJSONString data i = Some (i + 1, i + 1 + length s, j, backslash \<in> set s)"
    and "byteSlice data (i + 1) (i + 1 + length s) = s"
proof -
  let ?b = "i + 1 + length s"
  have q: "i < length data" "data ! i = CHR 0x22" and r: "spans data (i + 1) j (s @ [CHR 0x22])"
    using assms(1) by (auto simp: spans_Cons)
  have sp: "spans data (i + 1) ?b s" and e: "?b < length data" "data ! ?b = CHR 0x22" "j = ?b + 1"
    using r by (auto simp: spans_append spans_Cons)
  show "byteSlice data (i + 1) ?b = s" using spans_slice[OF sp] .
  with assms(3) have u: "utf8Valid (byteSlice data (i + 1) ?b)" by simp
  show "scanStrictRawJSONString data i = Some (i + 1, ?b, j, backslash \<in> set s)"
    using q string_body_runs[OF assms(2) sp, of "i + 1" False False] string_end(1)[OF e(1,2) u] e(3)
    by (simp add: scanStrictRawJSONString_def)
  show "scanRawJSONString data i = Some (i + 1, ?b, j, backslash \<in> set s)"
    using q string_body_runs[OF assms(2) sp, of "i + 1" False False] string_end(2)[OF e(1,2) u] e(3)
    by (simp add: scanRawJSONString_def)
qed

lemma quote_ascii: "CHR 0x22 < CHR 0x80"
  by (simp add: less_char_def)

lemma utf8_quoted: "utf8Valid ([CHR 0x22] @ s @ [CHR 0x22]) \<longleftrightarrow> utf8Valid s"
  using utf8_split[OF quote_ascii, of "[]" "s @ [CHR 0x22]"] utf8_split[OF quote_ascii, of s "[]"] by simp

lemma string_text_scanned:
  assumes "spans data i j t" "string_text t" "utf8Valid t"
  shows "\<exists>a b f. scanStrictRawJSONString data i = Some (a, b, j, f) \<and> scanRawJSONString data i = Some (a, b, j, f)"
proof -
  obtain s where s: "string_body s" "t = [CHR 0x22] @ s @ [CHR 0x22]" using assms(2) by (auto simp: string_text_def)
  have u: "utf8Valid s" using assms(3) utf8_quoted unfolding s(2) by blast
  show ?thesis using string_scanned[OF assms(1)[unfolded s(2)] s(1) u] by blast
qed

lemma string_text_sound:
  assumes "scanStrictRawJSONString data pos = Some (a, b, e, f)"
  shows "\<exists>t. spans data pos e t \<and> string_text t \<and> utf8Valid t"
proof -
  have q: "pos < length data" "data ! pos = CHR 0x22"
    and l: "strictStringLoop data (pos + 1) (pos + 1) False False = Some (a, b, e, f)"
    using assms by (auto simp: scanStrictRawJSONString_def split: if_splits)
  have be: "e = b + 1" "e \<le> length data" "data ! b = CHR 0x22" using strictStringLoop_span[OF l] by auto
  obtain s where s: "spans data (pos + 1) b s" "string_body s"
      "list_ex high s \<longrightarrow> utf8Valid (byteSlice data (pos + 1) b)"
    using strict_string_sound[OF l] by auto
  have "utf8Valid s"
  proof (cases "list_ex high s")
    case True with s spans_slice[OF s(1)] show ?thesis by simp
  next
    case False then show ?thesis by (intro utf8_ascii) (auto simp: list_all_iff list_ex_iff not_le)
  qed
  moreover have "spans data b e [CHR 0x22]" using be by (simp add: spans_Cons)
  then have "spans data pos e ([CHR 0x22] @ s @ [CHR 0x22])"
    using q spans_join[OF s(1)] by (auto simp: spans_Cons)
  ultimately show ?thesis using s(2) utf8_quoted[of s] unfolding string_text_def by blast
qed


section \<open>Literals and numbers\<close>

lemma spans_iff_nth:
  "spans data i j t \<longleftrightarrow> j = i + length t \<and> j \<le> length data \<and> (\<forall>k < length t. data ! (i + k) = t ! k)"
proof (induction t arbitrary: i)
  case (Cons c t)
  show ?case
    unfolding spans_Cons Cons.IH by (auto simp: less_Suc_eq_0_disj all_conj_distrib nth_Cons' split: if_splits)
qed auto

lemma literal_scanned: "scanStrictRawJSONLiteral data pos lit = Some e \<longleftrightarrow> spans data pos e lit"
  by (auto simp: scanStrictRawJSONLiteral_def spans_iff_nth list_all_iff)

abbreviation digitAt :: "string \<Rightarrow> nat \<Rightarrow> bool" where
  "digitAt data p \<equiv> p < length data \<and> isDigitByte (data ! p)"

lemma digitsEnd_sound: "pos \<le> length data \<Longrightarrow> \<exists>ds. spans data pos (digitsEnd data pos) ds \<and> list_all isDigitByte ds"
proof (induction data pos rule: digitsEnd.induct)
  case (1 data pos)
  show ?case
  proof (cases "digitAt data pos")
    case True
    with 1 obtain ds where "spans data (pos + 1) (digitsEnd data (pos + 1)) ds" "list_all isDigitByte ds" by auto
    with True show ?thesis
      by (intro exI[of _ "data ! pos # ds"]) (simp add: spans_Cons digitsEnd.simps[of data pos])
  next
    case False
    then have "digitsEnd data pos = pos" by (subst digitsEnd.simps) auto
    with 1(2) show ?thesis by (intro exI[of _ "[]"]) simp
  qed
qed

lemma digitsEnd_complete:
  "spans data i j ds \<Longrightarrow> list_all isDigitByte ds \<Longrightarrow> \<not> digitAt data j \<Longrightarrow> digitsEnd data i = j"
  by (induction ds arbitrary: i) (auto simp: spans_Cons digitsEnd.simps[of data i for i])

lemma digits1_sound:
  assumes "pos \<le> length data" "digitsEnd data pos \<noteq> pos"
  shows "\<exists>ds. spans data pos (digitsEnd data pos) ds \<and> digits1 ds"
  using digitsEnd_sound[OF assms(1)] assms(2) by (auto simp: digits1_def)

lemma scanInteger_sound:
  assumes "scanInteger data p = Some q" "p < length data"
  shows "\<exists>t. spans data p q t \<and> int_part t"
proof (cases "data ! p = CHR ''0''")
  case True
  with assms show ?thesis by (intro exI[of _ "''0''"]) (auto simp: scanInteger_def spans_Cons int_part_def)
next
  case False
  with assms have d: "byteIn (CHR ''1'') (CHR ''9'') (data ! p)" "q = digitsEnd data p"
    by (auto simp: scanInteger_def split: if_splits)
  then have q: "q = digitsEnd data (p + 1)" using assms(2) digit19 digitsEnd.simps[of data p] by auto
  from digitsEnd_sound[of "p + 1" data] assms(2) obtain ds where
    "spans data (p + 1) q ds" "list_all isDigitByte ds" unfolding q by auto
  with d assms(2) show ?thesis by (intro exI[of _ "data ! p # ds"]) (auto simp: spans_Cons int_part_def)
qed

lemma scanFraction_sound:
  assumes "scanFraction data p = Some q" "p \<le> length data"
  shows "\<exists>t. spans data p q t \<and> frac_part t"
proof (cases "p < length data \<and> data ! p = CHR ''.''")
  case True
  with assms have "digitsEnd data (p + 1) \<noteq> p + 1" "q = digitsEnd data (p + 1)"
    by (auto simp: scanFraction_def Let_def split: if_splits)
  with digits1_sound[of "p + 1" data] True obtain ds where "spans data (p + 1) q ds" "digits1 ds" by auto
  with True show ?thesis by (intro exI[of _ "CHR ''.'' # ds"]) (auto simp: spans_Cons frac_part_def)
next
  case False
  with assms show ?thesis by (intro exI[of _ "[]"]) (auto simp: scanFraction_def frac_part_def split: if_splits)
qed

lemma scanExponent_sound:
  assumes "scanExponent data p = Some q" "p \<le> length data"
  shows "\<exists>t. spans data p q t \<and> exp_part t"
proof (cases "p < length data \<and> (data ! p = CHR ''e'' \<or> data ! p = CHR ''E'')")
  case True
  define start where "start = (if p + 1 < length data \<and> (data ! (p + 1) = CHR ''+'' \<or> data ! (p + 1) = CHR ''-'')
    then p + 2 else p + 1)"
  define sg where "sg = (if start = p + 2 then [data ! (p + 1)] else [])"
  from True assms have q: "digitsEnd data start \<noteq> start" "q = digitsEnd data start"
    by (auto simp: scanExponent_def Let_def start_def split: if_splits)
  have st: "start \<le> length data" using True by (auto simp: start_def)
  from digits1_sound[OF st q(1)] obtain ds where ds: "spans data start q ds" "digits1 ds" unfolding q(2) by auto
  have sg: "spans data (p + 1) start sg" "sg \<in> {'''', ''+'', ''-''}"
    using True by (auto simp: sg_def start_def spans_Cons split: if_splits)
  have "spans data p q (data ! p # sg @ ds)" using True spans_join[OF sg(1) ds(1)] by (simp add: spans_Cons)
  moreover have "exp_part (data ! p # sg @ ds)" using True sg(2) ds(2) unfolding exp_part_def by blast
  ultimately show ?thesis by blast
next
  case False
  with assms show ?thesis by (intro exI[of _ "[]"]) (auto simp: scanExponent_def exp_part_def split: if_splits)
qed

lemma number_text_sound:
  assumes "scanStrictRawJSONNumber data pos = Some e"
  shows "\<exists>t. spans data pos e t \<and> number_text t"
proof -
  define p0 where "p0 = (if data ! pos = CHR ''-'' then pos + 1 else pos)"
  define m where "m = (if data ! pos = CHR ''-'' then ''-'' else '''')"
  from assms obtain p1 p2 where p: "pos < length data" "p0 < length data" "scanInteger data p0 = Some p1"
      "scanFraction data p1 = Some p2" "scanExponent data p2 = Some e"
    unfolding scanStrictRawJSONNumber_def p0_def[symmetric] Let_def
    by (auto split: if_splits option.splits)
  have m: "spans data pos p0 m" "m \<in> {'''', ''-''}" using p(1) by (auto simp: p0_def m_def spans_Cons)
  obtain i where i: "spans data p0 p1 i" "int_part i" using scanInteger_sound[OF p(3,2)] by blast
  obtain f where f: "spans data p1 p2 f" "frac_part f"
    using scanFraction_sound[OF p(4)] spans_length[OF i(1)] by blast
  obtain x where x: "spans data p2 e x" "exp_part x"
    using scanExponent_sound[OF p(5)] spans_length[OF f(1)] by blast
  have "spans data pos e (m @ i @ f @ x)"
    using spans_join[OF m(1) spans_join[OF i(1) spans_join[OF f(1) x(1)]]] .
  then show ?thesis using m(2) i(2) f(2) x(2) unfolding number_text_def by blast
qed

lemma stops_at: "stops data j \<Longrightarrow> j < length data \<Longrightarrow>
    \<not> isDigitByte (data ! j) \<and> data ! j \<noteq> CHR ''.'' \<and> data ! j \<noteq> CHR ''e'' \<and> data ! j \<noteq> CHR ''E''"
  by (auto simp: stops_def isRouteAttemptJSONValueDelimiter_def isRouteAttemptJSONSpace_def)

lemma int_part_hd: "int_part t \<Longrightarrow> \<exists>c cs. t = c # cs \<and> isDigitByte c"
  using digit0 digit19 by (auto simp: int_part_def)

lemma scanInteger_complete:
  assumes "int_part t" "spans data p q t" "\<not> digitAt data q"
  shows "scanInteger data p = Some q"
proof -
  from assms(1) consider "t = ''0''"
    | c ds where "t = c # ds" "byteIn (CHR ''1'') (CHR ''9'') c" "list_all isDigitByte ds"
    by (auto simp: int_part_def)
  then show ?thesis
  proof cases
    case 1 with assms(2) show ?thesis by (auto simp: spans_Cons scanInteger_def)
  next
    case 2
    then have "digitsEnd data p = q" using assms(2,3) digit19
      by (intro digitsEnd_complete[of data p q t]) auto
    moreover have "data ! p = c" "c \<noteq> CHR ''0''" using 2 assms(2) by (auto simp: spans_Cons byteIn_def less_eq_char_def)
    ultimately show ?thesis using 2(2) by (simp add: scanInteger_def)
  qed
qed

lemma scanFraction_complete:
  assumes "frac_part t" "spans data p q t" "\<not> digitAt data q" "q < length data \<longrightarrow> data ! q \<noteq> CHR ''.''"
  shows "scanFraction data p = Some q"
proof (cases t)
  case Nil with assms show ?thesis by (auto simp: scanFraction_def)
next
  case (Cons c ds)
  then have c: "c = CHR ''.''" "digits1 ds" using assms(1) by (auto simp: frac_part_def)
  have "spans data (p + 1) q ds" "p < length data" "data ! p = CHR ''.''"
    using assms(2) c by (auto simp: Cons spans_Cons)
  moreover from this c(2) have "q \<noteq> p + 1" using spans_length[of data "p + 1" q ds] by (auto simp: digits1_def)
  ultimately show ?thesis
    using digitsEnd_complete[of data "p + 1" q ds] assms(3) c(2) by (simp add: scanFraction_def digits1_def)
qed

lemma scanExponent_complete:
  assumes "exp_part t" "spans data p q t" "stops data q"
  shows "scanExponent data p = Some q"
proof -
  have nd: "\<not> digitAt data q" using stops_at[OF assms(3)] by auto
  from assms(1) consider "t = ''''"
    | e sg ds where "t = e # sg @ ds" "e \<in> {CHR ''e'', CHR ''E''}" "sg \<in> {'''', ''+'', ''-''}" "digits1 ds"
    by (auto simp: exp_part_def)
  then show ?thesis
  proof cases
    case 1 with assms(2) stops_at[OF assms(3)] show ?thesis by (auto simp: scanExponent_def)
  next
    case 2
    obtain d ds' where d: "ds = d # ds'" "isDigitByte d" using 2(4) by (cases ds) (auto simp: digits1_def)
    have sp: "p < length data" "data ! p = e" "spans data (p + 1) q (sg @ ds)"
      using assms(2) 2(1) by (auto simp: spans_Cons)
    let ?s = "p + 1 + length sg"
    have sd: "spans data (p + 1) ?s sg" "spans data ?s q ds" using sp(3) by (simp_all add: spans_append)
    have en: "digitsEnd data ?s = q" "q \<noteq> ?s"
      using digitsEnd_complete[OF sd(2) _ nd] 2(4) spans_length[OF sd(2)] by (auto simp: digits1_def)
    have ds: "?s < length data" "data ! ?s = d" using sd(2) d by (auto simp: spans_Cons)
    have start: "(if p + 1 < length data \<and> (data ! (p + 1) = CHR ''+'' \<or> data ! (p + 1) = CHR ''-'')
        then p + 1 + 1 else p + 1) = ?s"
      using 2(3) sd(1) ds d(2) by (auto simp: spans_Cons)
    show ?thesis using sp(1,2) 2(2) en unfolding scanExponent_def Let_def start by auto
  qed
qed

lemma number_text_scanned:
  assumes "number_text t" "spans data p q t" "stops data q"
  shows "scanStrictRawJSONNumber data p = Some q"
proof -
  from assms(1) obtain m i f x where t: "t = m @ i @ f @ x" "m \<in> {'''', ''-''}" "int_part i" "frac_part f" "exp_part x"
    by (auto simp: number_text_def)
  define p0 where "p0 = p + length m" define p1 where "p1 = p0 + length i" define p2 where "p2 = p1 + length f"
  have sp: "spans data p p0 m" "spans data p0 p1 i" "spans data p1 p2 f" "spans data p2 q x"
    using assms(2) unfolding t(1) p0_def p1_def p2_def spans_append by auto
  obtain c cs where c: "i = c # cs" "isDigitByte c" using int_part_hd[OF t(3)] by blast
  have i: "p0 < length data" "data ! p0 = c" using sp(2) unfolding c(1) by (auto simp: spans_Cons)
  have p0: "(if data ! p = CHR ''-'' then p + 1 else p) = p0" "p < length data"
    using t(2) sp(1) i c(2) by (auto simp: spans_Cons p0_def)
  have x: "\<not> digitAt data p2 \<and> (p2 < length data \<longrightarrow> data ! p2 \<noteq> CHR ''.'')"
  proof (cases x)
    case Nil then show ?thesis using sp(4) stops_at[OF assms(3)] by auto
  next
    case (Cons y ys)
    then have "y \<in> {CHR ''e'', CHR ''E''}" "data ! p2 = y" using t(5) sp(4) by (auto simp: exp_part_def spans_Cons)
    then show ?thesis by auto
  qed
  have f: "\<not> digitAt data p1"
  proof (cases f)
    case Nil then show ?thesis using sp(3) x by auto
  next
    case (Cons y ys)
    then have "y = CHR ''.''" "data ! p1 = y" using t(4) sp(3) by (auto simp: frac_part_def spans_Cons)
    then show ?thesis by auto
  qed
  show ?thesis
    using p0 i scanInteger_complete[OF t(3) sp(2) f] scanFraction_complete[OF t(4) sp(3)] x
      scanExponent_complete[OF t(5) sp(4) assms(3)]
    unfolding scanStrictRawJSONNumber_def Let_def by simp
qed


section \<open>Members and elements as lists\<close>

record rawMember =
  rmBefore :: string
  rmKey :: string
  rmColon1 :: string
  rmColon2 :: string
  rmValue :: string
  rmAfter :: string

definition memberText :: "rawMember \<Rightarrow> string" where
  "memberText r = rmBefore r @ rmKey r @ rmColon1 r @ '':'' @ rmColon2 r @ rmValue r @ rmAfter r"

definition memberOk :: "nat \<Rightarrow> rawMember \<Rightarrow> bool" where
  "memberOk d r \<longleftrightarrow> ws (rmBefore r) \<and> ws (rmColon1 r) \<and> ws (rmColon2 r) \<and> ws (rmAfter r) \<and>
     string_text (rmKey r) \<and> value_text d (rmValue r)"

fun joined :: "string list \<Rightarrow> string" where
  "joined [] = ''''"
| "joined [x] = x"
| "joined (x # y # xs) = x @ '','' @ joined (y # xs)"

lemma joined_Cons: "xs \<noteq> [] \<Longrightarrow> joined (x # xs) = x @ '','' @ joined xs"
  by (cases xs) simp_all

lemma joined_snoc: "xs \<noteq> [] \<Longrightarrow> joined (xs @ [x]) = joined xs @ '','' @ x"
  by (induction xs rule: joined.induct) auto

record rawElement =
  reBefore :: string
  reValue :: string
  reAfter :: string

definition elementText :: "rawElement \<Rightarrow> string" where
  "elementText r = reBefore r @ reValue r @ reAfter r"

definition elementOk :: "nat \<Rightarrow> rawElement \<Rightarrow> bool" where
  "elementOk d r \<longleftrightarrow> ws (reBefore r) \<and> ws (reAfter r) \<and> value_text d (reValue r)"

text \<open>The members and elements of the grammar are comma-separated lists.\<close>

lemma container_parts:
  "value_text d t \<Longrightarrow> True"
  "members d m \<Longrightarrow> \<exists>ms. ms \<noteq> [] \<and> list_all (memberOk d) ms \<and> m = joined (map memberText ms)"
  "elements d m \<Longrightarrow> \<exists>es. es \<noteq> [] \<and> list_all (elementOk d) es \<and> m = joined (map elementText es)"
proof (induction rule: value_text_members_elements.inducts)
  case (m_first w1 k w2 w3 d t w4)
  then show ?case
    by (intro exI[of _ "[\<lparr>rmBefore = w1, rmKey = k, rmColon1 = w2, rmColon2 = w3, rmValue = t, rmAfter = w4\<rparr>]"])
      (simp add: memberOk_def memberText_def)
next
  case (m_next d m w1 k w2 w3 t w4)
  then obtain ms where ms: "ms \<noteq> []" "list_all (memberOk d) ms" "m = joined (map memberText ms)" by blast
  let ?r = "\<lparr>rmBefore = w1, rmKey = k, rmColon1 = w2, rmColon2 = w3, rmValue = t, rmAfter = w4\<rparr>"
  have "memberOk d ?r" using m_next by (simp add: memberOk_def)
  moreover have "memberText ?r = w1 @ k @ w2 @ '':'' @ w3 @ t @ w4" by (simp add: memberText_def)
  ultimately show ?case using ms joined_snoc[of "map memberText ms" "memberText ?r"]
    by (intro exI[of _ "ms @ [?r]"]) simp
next
  case (e_first w1 d t w2)
  then show ?case
    by (intro exI[of _ "[\<lparr>reBefore = w1, reValue = t, reAfter = w2\<rparr>]"]) (simp add: elementOk_def elementText_def)
next
  case (e_next d m w1 t w2)
  then obtain es where es: "es \<noteq> []" "list_all (elementOk d) es" "m = joined (map elementText es)" by blast
  let ?r = "\<lparr>reBefore = w1, reValue = t, reAfter = w2\<rparr>"
  have "elementOk d ?r" using e_next by (simp add: elementOk_def)
  moreover have "elementText ?r = w1 @ t @ w2" by (simp add: elementText_def)
  ultimately show ?case using es joined_snoc[of "map elementText es" "elementText ?r"]
    by (intro exI[of _ "es @ [?r]"]) simp
qed simp_all

lemma member_intro: "memberOk d r \<Longrightarrow> members d (memberText r)"
  unfolding memberOk_def memberText_def by (blast intro: m_first)

lemma members_snoc: "members d m \<Longrightarrow> memberOk d r \<Longrightarrow> members d (m @ CHR '','' # memberText r)"
  using m_next[of d m "rmBefore r" "rmKey r" "rmColon1 r" "rmColon2 r" "rmValue r" "rmAfter r"]
  by (simp add: memberOk_def memberText_def)

lemma members_joined:
  "ms \<noteq> [] \<Longrightarrow> list_all (memberOk d) ms \<Longrightarrow> members d (joined (map memberText ms))"
proof (induction ms rule: rev_induct)
  case (snoc r ms)
  show ?case
  proof (cases "ms = []")
    case True with snoc show ?thesis by (simp add: member_intro)
  next
    case False
    then show ?thesis using snoc joined_snoc[of "map memberText ms" "memberText r"] by (simp add: members_snoc)
  qed
qed simp

lemma members_Cons: "memberOk d r \<Longrightarrow> members d m \<Longrightarrow> members d (memberText r @ CHR '','' # m)"
proof -
  assume r: "memberOk d r" and "members d m"
  then obtain ms where ms: "ms \<noteq> []" "list_all (memberOk d) ms" "m = joined (map memberText ms)"
    using container_parts(2) by blast
  then show ?thesis using members_joined[of "r # ms" d] r by (simp add: joined_Cons)
qed

lemma members_prefix: "ws w \<Longrightarrow> members d m \<Longrightarrow> members d (w @ m)"
proof -
  assume w: "ws w" "members d m"
  then obtain r ms where m: "list_all (memberOk d) (r # ms)" "m = joined (map memberText (r # ms))"
    using container_parts(2)[of d m] by (metis neq_Nil_conv)
  let ?r = "r\<lparr>rmBefore := w @ rmBefore r\<rparr>"
  have ok: "list_all (memberOk d) (?r # ms)" using m(1) w(1) by (simp add: memberOk_def)
  have "joined (map memberText (?r # ms)) = w @ m"
    by (cases ms) (simp_all add: m(2) memberText_def)
  then show ?thesis using members_joined[OF _ ok] by simp
qed

lemma element_intro: "elementOk d r \<Longrightarrow> elements d (elementText r)"
  unfolding elementOk_def elementText_def by (blast intro: e_first)

lemma elements_snoc: "elements d m \<Longrightarrow> elementOk d r \<Longrightarrow> elements d (m @ CHR '','' # elementText r)"
  using e_next[of d m "reBefore r" "reValue r" "reAfter r"] by (simp add: elementOk_def elementText_def)

lemma elements_joined:
  "es \<noteq> [] \<Longrightarrow> list_all (elementOk d) es \<Longrightarrow> elements d (joined (map elementText es))"
proof (induction es rule: rev_induct)
  case (snoc r es)
  show ?case
  proof (cases "es = []")
    case True with snoc show ?thesis by (simp add: element_intro)
  next
    case False
    then show ?thesis using snoc joined_snoc[of "map elementText es" "elementText r"] by (simp add: elements_snoc)
  qed
qed simp

lemma elements_Cons: "elementOk d r \<Longrightarrow> elements d m \<Longrightarrow> elements d (elementText r @ CHR '','' # m)"
proof -
  assume r: "elementOk d r" and "elements d m"
  then obtain es where es: "es \<noteq> []" "list_all (elementOk d) es" "m = joined (map elementText es)"
    using container_parts(3) by blast
  then show ?thesis using elements_joined[of "r # es" d] r by (simp add: joined_Cons)
qed

lemma elements_prefix: "ws w \<Longrightarrow> elements d m \<Longrightarrow> elements d (w @ m)"
proof -
  assume w: "ws w" "elements d m"
  then obtain r es where m: "list_all (elementOk d) (r # es)" "m = joined (map elementText (r # es))"
    using container_parts(3)[of d m] by (metis neq_Nil_conv)
  let ?r = "r\<lparr>reBefore := w @ reBefore r\<rparr>"
  have ok: "list_all (elementOk d) (?r # es)" using m(1) w(1) by (simp add: elementOk_def)
  have "joined (map elementText (?r # es)) = w @ m"
    by (cases es) (simp_all add: m(2) elementText_def)
  then show ?thesis using elements_joined[OF _ ok] by simp
qed


section \<open>What the strict scanner accepts\<close>

lemma utf8_Cons_ascii: "c < CHR 0x80 \<Longrightarrow> utf8Valid (c # t) \<longleftrightarrow> utf8Valid t"
  using utf8_split[of c "[]" t] by simp

lemma utf8_ws: "ws w \<Longrightarrow> utf8Valid w"
proof (induction w)
  case (Cons c w)
  then have "c < CHR 0x80" by (auto simp: isRouteAttemptJSONSpace_def less_char_def)
  with Cons show ?case by (simp add: utf8_Cons_ascii)
qed simp

lemma utf8_number: "number_text t \<Longrightarrow> utf8Valid t"
proof -
  have d: "isDigitByte c \<Longrightarrow> c < CHR 0x80" for c
    by (auto simp: byteIn_def less_eq_char_def less_char_def)
  assume "number_text t"
  then have "list_all (\<lambda>c. c < CHR 0x80) t"
    using d digit19
    by (fastforce simp: number_text_def int_part_def frac_part_def exp_part_def digits1_def list_all_iff less_char_def)
  then show ?thesis by (rule utf8_ascii)
qed

lemma punctuation_ascii [simp]:
  "CHR '':'' < CHR 0x80" "CHR '','' < CHR 0x80" "CHR ''{'' < CHR 0x80" "CHR ''}'' < CHR 0x80"
  "CHR ''['' < CHR 0x80" "CHR '']'' < CHR 0x80"
  by (simp_all add: less_char_def)

lemma strict_sound:
  "pos \<le> length data \<Longrightarrow> scanStrictRawJSONValue data pos depth = Some e \<Longrightarrow>
     \<exists>p t. ws (byteSlice data pos p) \<and> pos \<le> p \<and> spans data p e t \<and> value_text (64 - depth) t \<and> utf8Valid t"
  "pos < length data \<Longrightarrow> data ! pos = CHR ''{'' \<Longrightarrow> depth \<le> 64 \<Longrightarrow> 0 < depth \<Longrightarrow>
     scanStrictRawJSONObject data pos depth = Some e \<Longrightarrow>
     \<exists>t. spans data pos e t \<and> value_text (Suc (64 - depth)) t \<and> utf8Valid t"
  "pos < length data \<Longrightarrow> data ! pos = CHR ''['' \<Longrightarrow> depth \<le> 64 \<Longrightarrow> 0 < depth \<Longrightarrow>
     scanStrictRawJSONArray data pos depth = Some e \<Longrightarrow>
     \<exists>t. spans data pos e t \<and> value_text (Suc (64 - depth)) t \<and> utf8Valid t"
  "pos < length data \<Longrightarrow> strictObjectLoop data pos depth = Some e \<Longrightarrow>
     \<exists>m. spans data pos e (m @ ''}'') \<and> members (64 - depth) m \<and> utf8Valid m"
  "pos < length data \<Longrightarrow> strictArrayLoop data pos depth = Some e \<Longrightarrow>
     \<exists>m. spans data pos e (m @ '']'') \<and> elements (64 - depth) m \<and> utf8Valid m"
proof (induction data pos depth and data pos depth and data pos depth and data pos depth and data pos depth
    arbitrary: e and e and e and e and e
    rule: scanStrictRawJSONValue_scanStrictRawJSONObject_scanStrictRawJSONArray_strictObjectLoop_strictArrayLoop.induct)
  case (1 data pos depth)
  let ?p = "skipRawJSONSpace data pos"
  obtain w where w: "ws w" "spans data pos ?p w" using skip_split[OF 1(3)] by blast
  have pre: "ws (byteSlice data pos ?p) \<and> pos \<le> ?p" using w spans_slice[OF w(2)] skip_ge by metis
  have p: "?p < length data"
    using 1(4) by (simp add: scanStrictRawJSONValue.simps[of data pos] Let_def split: if_splits)
  have "\<exists>t. spans data ?p e t \<and> value_text (64 - depth) t \<and> utf8Valid t"
  proof (cases "data ! ?p \<in> {CHR ''{'', CHR ''[''}")
    case True
    then have d: "\<not> maxFastRawJSONNestingDepth \<le> depth"
      using 1(4) p by (auto simp: scanStrictRawJSONValue.simps[of data pos] Let_def split: if_splits)
    then have d': "depth + 1 \<le> 64" "0 < depth + 1" "Suc (64 - (depth + 1)) = 64 - depth"
      by (auto simp: maxFastRawJSONNestingDepth_def)
    show ?thesis
      using True p d 1(4) 1(1)[OF refl _ _ _ d p _ d'(1,2), of e] 1(2)[OF refl _ _ _ _ d p _ d'(1,2), of e]
      unfolding d'(3)
      by (auto simp: scanStrictRawJSONValue.simps[of data pos] Let_def)
  next
    case False
    then have v: "(if data ! ?p = CHR 0x22 then spanEnd (scanStrictRawJSONString data ?p)
        else if data ! ?p = CHR ''t'' then scanStrictRawJSONLiteral data ?p ''true''
        else if data ! ?p = CHR ''f'' then scanStrictRawJSONLiteral data ?p ''false''
        else if data ! ?p = CHR ''n'' then scanStrictRawJSONLiteral data ?p ''null''
        else scanStrictRawJSONNumber data ?p) = Some e"
      using 1(4) p by (simp add: scanStrictRawJSONValue.simps[of data pos] Let_def split: if_splits)
    have lit: "utf8Valid ''true''" "utf8Valid ''false''" "utf8Valid ''null''"
      by (rule utf8_ascii, simp add: less_char_def)+
    have st: "\<exists>t. spans data ?p e t \<and> value_text (64 - depth) t \<and> utf8Valid t"
      if "spanEnd (scanStrictRawJSONString data ?p) = Some e"
      using that string_text_sound[of data ?p _ _ e] v_string by (auto simp: spanEnd_def) blast
    have num: "\<exists>t. spans data ?p e t \<and> value_text (64 - depth) t \<and> utf8Valid t"
      if "scanStrictRawJSONNumber data ?p = Some e"
      using number_text_sound[OF that] v_number utf8_number by blast
    show ?thesis
      using v st num lit by (auto simp: literal_scanned split: if_splits intro: v_literal)
  qed
  then show ?case using pre by blast
next
  case (2 data pos depth)
  let ?p = "skipRawJSONSpace data (pos + 1)"
  obtain w where w: "ws w" "spans data (pos + 1) ?p w" using skip_split[of "pos + 1" data] 2(2) by auto
  have p: "?p < length data"
    using 2(6) by (simp add: scanStrictRawJSONObject.simps[of data pos] Let_def split: if_splits)
  show ?case
  proof (cases "data ! ?p = CHR ''}''")
    case True
    then have "e = ?p + 1" using 2(6) p by (simp add: scanStrictRawJSONObject.simps[of data pos] Let_def)
    with True p have "spans data ?p e ''}''" by (simp add: spans_Cons)
    from spans_join[OF w(2) this] have "spans data pos e (''{'' @ w @ ''}'')" using 2(2,3) by (simp add: spans_Cons)
    moreover have "utf8Valid (''{'' @ w @ ''}'')" using utf8_ws[OF w(1)] by (simp add: utf8_Cons_ascii utf8_append)
    ultimately show ?thesis using v_object0[OF w(1)] by blast
  next
    case False
    then have "strictObjectLoop data ?p depth = Some e"
      using 2(6) p by (simp add: scanStrictRawJSONObject.simps[of data pos] Let_def)
    with 2(1)[OF refl] p False obtain m where m: "spans data ?p e (m @ ''}'')" "members (64 - depth) m" "utf8Valid m"
      by auto
    from spans_join[OF w(2) m(1)] have "spans data pos e (''{'' @ (w @ m) @ ''}'')" using 2(2,3) by (simp add: spans_Cons)
    moreover have "utf8Valid (''{'' @ (w @ m) @ ''}'')"
      using utf8_ws[OF w(1)] m(3) by (simp add: utf8_Cons_ascii utf8_append)
    ultimately show ?thesis using v_object[OF members_prefix[OF w(1) m(2)]] by blast
  qed
next
  case (3 data pos depth)
  let ?p = "skipRawJSONSpace data (pos + 1)"
  obtain w where w: "ws w" "spans data (pos + 1) ?p w" using skip_split[of "pos + 1" data] 3(2) by auto
  have p: "?p < length data"
    using 3(6) by (simp add: scanStrictRawJSONArray.simps[of data pos] Let_def split: if_splits)
  show ?case
  proof (cases "data ! ?p = CHR '']''")
    case True
    then have "e = ?p + 1" using 3(6) p by (simp add: scanStrictRawJSONArray.simps[of data pos] Let_def)
    with True p have "spans data ?p e '']''" by (simp add: spans_Cons)
    from spans_join[OF w(2) this] have "spans data pos e (''['' @ w @ '']'')" using 3(2,3) by (simp add: spans_Cons)
    moreover have "utf8Valid (''['' @ w @ '']'')" using utf8_ws[OF w(1)] by (simp add: utf8_Cons_ascii utf8_append)
    ultimately show ?thesis using v_array0[OF w(1)] by blast
  next
    case False
    then have "strictArrayLoop data ?p depth = Some e"
      using 3(6) p by (simp add: scanStrictRawJSONArray.simps[of data pos] Let_def)
    with 3(1)[OF refl] p False obtain m where m: "spans data ?p e (m @ '']'')" "elements (64 - depth) m" "utf8Valid m"
      by auto
    from spans_join[OF w(2) m(1)] have "spans data pos e (''['' @ (w @ m) @ '']'')" using 3(2,3) by (simp add: spans_Cons)
    moreover have "utf8Valid (''['' @ (w @ m) @ '']'')"
      using utf8_ws[OF w(1)] m(3) by (simp add: utf8_Cons_ascii utf8_append)
    ultimately show ?thesis using v_array[OF elements_prefix[OF w(1) m(2)]] by blast
  qed
next
  case (4 data pos depth)
  obtain a b k f where k: "scanStrictRawJSONString data pos = Some (a, b, k, f)"
    using 4(4) by (auto simp: strictObjectLoop.simps[of data pos] split: option.splits)
  obtain kt where kt: "spans data pos k kt" "string_text kt" "utf8Valid kt" using string_text_sound[OF k] by blast
  let ?p = "skipRawJSONSpace data k"
  obtain w2 where w2: "ws w2" "spans data k ?p w2" using skip_split[of k data] spans_length[OF kt(1)] by auto
  have c: "\<not> (length data \<le> ?p \<or> data ! ?p \<noteq> CHR '':'')"
    using 4(4) k by (auto simp: strictObjectLoop.simps[of data pos] Let_def split: if_splits)
  then obtain q where q: "scanStrictRawJSONValue data (?p + 1) depth = Some q"
    using 4(4) k by (auto simp: strictObjectLoop.simps[of data pos] Let_def split: option.splits)
  obtain v t where v: "ws (byteSlice data (?p + 1) v)" "?p + 1 \<le> v" "spans data v q t"
      "value_text (64 - depth) t" "utf8Valid t"
    using 4(1)[OF k refl refl refl refl c _ q] c by auto
  have w3: "spans data (?p + 1) v (byteSlice data (?p + 1) v)"
    using spans_slice_intro[of "?p + 1" v data] v(2,3) spans_length[OF v(3)] by simp
  let ?r = "skipRawJSONSpace data q"
  obtain w4 where w4: "ws w4" "spans data q ?r w4" using skip_split[of q data] spans_length[OF v(3)] by auto
  define m where "m = \<lparr>rmBefore = '''', rmKey = kt, rmColon1 = w2,
     rmColon2 = byteSlice data (?p + 1) v, rmValue = t, rmAfter = w4\<rparr>"
  have ok: "memberOk (64 - depth) m" using kt(2) w2(1) v(1,4) w4(1) by (simp add: m_def memberOk_def)
  have colon: "spans data ?p (?p + 1) '':''" using c by (simp add: spans_Cons)
  have sp: "spans data pos ?r (memberText m)"
    using spans_join[OF kt(1) spans_join[OF w2(2) spans_join[OF colon
          spans_join[OF w3 spans_join[OF v(3) w4(2)]]]]]
    by (simp add: m_def memberText_def)
  have u: "utf8Valid (memberText m)"
    using kt(3) utf8_ws[OF w2(1)] utf8_ws[OF v(1)] v(5) utf8_ws[OF w4(1)]
    by (simp add: m_def memberText_def utf8_append utf8_Cons_ascii)
  have rest: "?r < length data \<and> (data ! ?r = CHR ''}'' \<and> e = ?r + 1 \<or> data ! ?r \<noteq> CHR ''}'' \<and>
      data ! ?r = CHR '','' \<and> strictObjectLoop data (skipRawJSONSpace data (?r + 1)) depth = Some e)"
    using 4(4) k c q by (auto simp: strictObjectLoop.simps[of data pos] Let_def split: if_splits)
  show ?case
  proof (cases "data ! ?r = CHR ''}''")
    case True
    then have "spans data ?r e ''}''" using rest by (simp add: spans_Cons)
    from spans_join[OF sp this] show ?thesis using member_intro[OF ok] u by blast
  next
    case False
    let ?n = "skipRawJSONSpace data (?r + 1)"
    have l: "strictObjectLoop data ?n depth = Some e" "data ! ?r \<noteq> CHR ''}''" "data ! ?r = CHR '',''" "\<not> length data \<le> ?r"
      using rest False by auto
    obtain w1 where w1: "ws w1" "spans data (?r + 1) ?n w1" using skip_split[of "?r + 1" data] l(4) by auto
    have n: "?n < length data" using strict_span(2)[of data ?n depth] l(1) by auto
    obtain ms where ms: "spans data ?n e (ms @ ''}'')" "members (64 - depth) ms" "utf8Valid ms"
      using 4(2)[OF k refl refl refl refl c q refl l(4,2,3) n l(1)] by blast
    have comma: "spans data ?r (?r + 1) '',''" using l by (simp add: spans_Cons)
    have "spans data pos e ((memberText m @ '','' @ (w1 @ ms)) @ ''}'')"
      using spans_join[OF sp spans_join[OF comma spans_join[OF w1(2) ms(1)]]] by simp
    moreover have "utf8Valid (memberText m @ '','' @ (w1 @ ms))"
      using u utf8_ws[OF w1(1)] ms(3) by (simp add: utf8_append utf8_Cons_ascii)
    moreover have "members (64 - depth) (memberText m @ '','' @ (w1 @ ms))"
      using members_Cons[OF ok members_prefix[OF w1(1) ms(2)]] by simp
    ultimately show ?thesis by blast
  qed
next
  case (5 data pos depth)
  obtain q where q: "scanStrictRawJSONValue data pos depth = Some q"
    using 5(4) by (auto simp: strictArrayLoop.simps[of data pos] split: option.splits)
  obtain v t where v: "ws (byteSlice data pos v)" "pos \<le> v" "spans data v q t"
      "value_text (64 - depth) t" "utf8Valid t"
    using 5(1)[OF _ q] 5(3) by auto
  have w1: "spans data pos v (byteSlice data pos v)"
    using spans_slice_intro[of pos v data] v(2,3) spans_length[OF v(3)] by simp
  let ?r = "skipRawJSONSpace data q"
  obtain w2 where w2: "ws w2" "spans data q ?r w2" using skip_split[of q data] spans_length[OF v(3)] by auto
  define m where "m = \<lparr>reBefore = byteSlice data pos v, reValue = t, reAfter = w2\<rparr>"
  have ok: "elementOk (64 - depth) m" using v(1,4) w2(1) by (simp add: m_def elementOk_def)
  have sp: "spans data pos ?r (elementText m)"
    using spans_join[OF w1 spans_join[OF v(3) w2(2)]] by (simp add: m_def elementText_def)
  have u: "utf8Valid (elementText m)"
    using utf8_ws[OF v(1)] v(5) utf8_ws[OF w2(1)] by (simp add: m_def elementText_def utf8_append)
  have rest: "?r < length data \<and> (data ! ?r = CHR '']'' \<and> e = ?r + 1 \<or> data ! ?r \<noteq> CHR '']'' \<and>
      data ! ?r = CHR '','' \<and> strictArrayLoop data (skipRawJSONSpace data (?r + 1)) depth = Some e)"
    using 5(4) q by (auto simp: strictArrayLoop.simps[of data pos] Let_def split: if_splits)
  show ?case
  proof (cases "data ! ?r = CHR '']''")
    case True
    then have "spans data ?r e '']''" using rest by (simp add: spans_Cons)
    from spans_join[OF sp this] show ?thesis using element_intro[OF ok] u by blast
  next
    case False
    let ?n = "skipRawJSONSpace data (?r + 1)"
    have l: "strictArrayLoop data ?n depth = Some e" "data ! ?r \<noteq> CHR '']''" "data ! ?r = CHR '',''" "\<not> length data \<le> ?r"
      using rest False by auto
    obtain w3 where w3: "ws w3" "spans data (?r + 1) ?n w3" using skip_split[of "?r + 1" data] l(4) by auto
    have n: "?n < length data" using strict_span(3)[of data ?n depth] l(1) by auto
    obtain ms where ms: "spans data ?n e (ms @ '']'')" "elements (64 - depth) ms" "utf8Valid ms"
      using 5(2)[OF q refl l(4,2,3) n l(1)] by blast
    have comma: "spans data ?r (?r + 1) '',''" using l by (simp add: spans_Cons)
    have "spans data pos e ((elementText m @ '','' @ (w3 @ ms)) @ '']'')"
      using spans_join[OF sp spans_join[OF comma spans_join[OF w3(2) ms(1)]]] by simp
    moreover have "utf8Valid (elementText m @ '','' @ (w3 @ ms))"
      using u utf8_ws[OF w3(1)] ms(3) by (simp add: utf8_append utf8_Cons_ascii)
    moreover have "elements (64 - depth) (elementText m @ '','' @ (w3 @ ms))"
      using elements_Cons[OF ok elements_prefix[OF w3(1) ms(2)]] by simp
    ultimately show ?thesis by blast
  qed
qed


section \<open>The strict scanner accepts every value of its depth\<close>

lemma utf8_cancel: "utf8Valid s \<Longrightarrow> utf8Valid (s @ t) \<longleftrightarrow> utf8Valid t"
proof (induction s rule: utf8Valid.induct)
  case (1 s)
  show ?case
  proof (cases "s = []")
    case False
    have v: "runeBytes s \<noteq> 0" "utf8Valid (drop (runeBytes s) s)" using 1(2) utf8_step[OF False] by blast+
    have "runeBytes (s @ t) = runeBytes s" "runeBytes s \<le> length s" using runeBytes_append[OF v(1)] by blast+
    then show ?thesis using 1(1)[OF False v] utf8_step[of "s @ t"] False v(1) by simp
  qed simp
qed

lemma utf8_string: "string_text k \<Longrightarrow> utf8Valid (k @ r) \<longleftrightarrow> utf8Valid k \<and> utf8Valid r"
  using utf8_split[OF quote_ascii, of "CHR 0x22 # s" r for s] utf8_cancel[of k r]
  by (auto simp: string_text_def utf8_Cons_ascii[OF quote_ascii] utf8_split[OF quote_ascii])

lemma utf8_then_ws: "ws w \<Longrightarrow> utf8Valid (t @ w) \<longleftrightarrow> utf8Valid t"
proof (cases w)
  case (Cons c w')
  moreover assume "ws w"
  ultimately show ?thesis
    using utf8_split[of c t w'] utf8_ws[of w'] by (auto simp: isRouteAttemptJSONSpace_def less_char_def)
qed simp

lemma utf8_member:
  assumes "memberOk d r"
  shows "utf8Valid (memberText r) \<longleftrightarrow> utf8Valid (rmKey r) \<and> utf8Valid (rmValue r)"
proof -
  have w: "ws (rmBefore r)" "ws (rmColon1 r)" "ws (rmColon2 r)" "ws (rmAfter r)" "string_text (rmKey r)"
    using assms by (auto simp: memberOk_def)
  show ?thesis
    unfolding memberText_def
    using utf8_cancel[OF utf8_ws[OF w(1)]] utf8_string[OF w(5)] utf8_cancel[OF utf8_ws[OF w(2)]]
      utf8_cancel[OF utf8_ws[OF w(3)]] utf8_then_ws[OF w(4)]
    by (simp add: utf8_Cons_ascii)
qed

lemma utf8_element: "elementOk d r \<Longrightarrow> utf8Valid (elementText r) \<longleftrightarrow> utf8Valid (reValue r)"
  unfolding elementOk_def elementText_def using utf8_cancel[OF utf8_ws] utf8_then_ws by blast

lemma stops_ws: "ws w \<Longrightarrow> spans data p q w \<Longrightarrow> stops data q \<Longrightarrow> stops data p"
  by (cases w) (auto simp: spans_Cons stops_def isRouteAttemptJSONValueDelimiter_def)

lemma number_first: "number_text t \<Longrightarrow> \<exists>c cs. t = c # cs \<and> (c = CHR ''-'' \<or> isDigitByte c)"
proof -
  assume "number_text t"
  then obtain m i f e where t: "t = m @ i @ f @ e" "m \<in> {'''', ''-''}" "int_part i" by (auto simp: number_text_def)
  from int_part_hd[OF t(3)] obtain c cs where "i = c # cs" "isDigitByte c" by blast
  then show ?thesis using t(1,2) by auto
qed

lemma minus_not [simp]: "\<not> isRouteAttemptJSONSpace (CHR ''-'')"
  by (simp add: isRouteAttemptJSONSpace_def)

lemma number_value:
  assumes "number_text t" "spans data i j t" "stops data j"
  shows "scanStrictRawJSONValue data i depth = Some j"
proof -
  obtain c cs where c: "t = c # cs" "c = CHR ''-'' \<or> isDigitByte c" using number_first[OF assms(1)] by blast
  then have d: "i < length data" "data ! i = c" using assms(2) by (auto simp: spans_Cons)
  have "skipRawJSONSpace data i = i" using c(2) d digit_not_space by (intro skip_stop) auto
  moreover have "c \<notin> {CHR 0x22, CHR ''{'', CHR ''['', CHR ''t'', CHR ''f'', CHR ''n''}"
    using c(2) by (auto simp: byteIn_def less_eq_char_def)
  ultimately show ?thesis
    using d number_text_scanned[OF assms] by (simp add: scanStrictRawJSONValue.simps[of data i] Let_def)
qed

lemma raw_string_value:
  assumes "string_text t" "utf8Valid t" "spans data i j t"
  shows "scanStrictRawJSONValue data i depth = Some j" "skipRawJSONValue data i = Some j"
proof -
  have d: "i < length data" "data ! i = CHR 0x22" using assms(1,3) by (auto simp: string_text_def spans_Cons)
  then have s: "skipRawJSONSpace data i = i" by (intro skip_stop) (simp add: isRouteAttemptJSONSpace_def)
  obtain a b f where "scanStrictRawJSONString data i = Some (a, b, j, f)" "scanRawJSONString data i = Some (a, b, j, f)"
    using string_text_scanned[OF assms(3,1,2)] by blast
  then show "scanStrictRawJSONValue data i depth = Some j" "skipRawJSONValue data i = Some j"
    using d s by (simp_all add: scanStrictRawJSONValue.simps[of data i] skipRawJSONValue_def spanEnd_def)
qed

lemma literal_value:
  assumes "t \<in> {''true'', ''false'', ''null''}" "spans data i j t"
  shows "scanStrictRawJSONValue data i depth = Some j"
proof -
  have d: "i < length data" "data ! i = hd t" using assms by (auto simp: spans_Cons)
  then have s: "skipRawJSONSpace data i = i" using assms(1) by (intro skip_stop) (auto simp: isRouteAttemptJSONSpace_def)
  from assms(1) consider "t = ''true''" | "t = ''false''" | "t = ''null''" by blast
  then show ?thesis
    using assms(2) d s
    by cases (simp_all add: scanStrictRawJSONValue.simps[of data i] literal_scanned)
qed

lemma value_after_space:
  assumes "skipRawJSONSpace data p = skipRawJSONSpace data q"
  shows "scanStrictRawJSONValue data p depth = scanStrictRawJSONValue data q depth"
    and "skipRawJSONValue data p = skipRawJSONValue data q"
  unfolding scanStrictRawJSONValue.simps[of data p] scanStrictRawJSONValue.simps[of data q]
    skipRawJSONValue_def assms by (rule refl)+

definition afterMember :: "string \<Rightarrow> nat \<Rightarrow> nat \<Rightarrow> nat option" where
  "afterMember data j depth =
     (if data ! j = CHR ''}'' then Some (j + 1) else strictObjectLoop data (skipRawJSONSpace data (j + 1)) depth)"

definition afterElement :: "string \<Rightarrow> nat \<Rightarrow> nat \<Rightarrow> nat option" where
  "afterElement data j depth =
     (if data ! j = CHR '']'' then Some (j + 1) else strictArrayLoop data (skipRawJSONSpace data (j + 1)) depth)"

lemma spans_member:
  assumes "spans data i j (memberText r)"
  obtains p k c q v e where
    "spans data i p (rmBefore r)" "spans data p k (rmKey r)" "spans data k c (rmColon1 r)"
    "c < length data" "data ! c = CHR '':''" "spans data (c + 1) v (rmColon2 r)" "spans data v e (rmValue r)"
    "spans data e j (rmAfter r)"
proof -
  let ?p = "i + length (rmBefore r)" let ?k = "?p + length (rmKey r)" let ?c = "?k + length (rmColon1 r)"
  let ?v = "?c + 1 + length (rmColon2 r)"
  show ?thesis
    using assms unfolding memberText_def
    by (intro that[of ?p ?k ?c ?v "?v + length (rmValue r)"])
      (simp_all add: spans_append spans_Cons add.assoc)
qed

lemma member_scanned:
  assumes ok: "memberOk d r" and sp: "spans data i j (memberText r)" and u: "utf8Valid (memberText r)"
    and j: "j < length data" "data ! j = CHR '','' \<or> data ! j = CHR ''}''"
    and val: "\<And>a b. spans data a b (rmValue r) \<Longrightarrow> utf8Valid (rmValue r) \<Longrightarrow> stops data b \<Longrightarrow>
      scanStrictRawJSONValue data a depth = Some b"
  shows "strictObjectLoop data (skipRawJSONSpace data i) depth = afterMember data j depth"
proof -
  obtain p k c v e where t: "spans data i p (rmBefore r)" "spans data p k (rmKey r)" "spans data k c (rmColon1 r)"
    "c < length data" "data ! c = CHR '':''" "spans data (c + 1) v (rmColon2 r)" "spans data v e (rmValue r)"
    "spans data e j (rmAfter r)" using spans_member[OF sp] .
  have w: "ws (rmBefore r)" "ws (rmColon1 r)" "ws (rmColon2 r)" "ws (rmAfter r)" "string_text (rmKey r)"
    using ok by (auto simp: memberOk_def)
  have uk: "utf8Valid (rmKey r)" "utf8Valid (rmValue r)" using u utf8_member[OF ok] by auto
  have st: "stops data j" using j by (auto simp: stops_def isRouteAttemptJSONValueDelimiter_def)
  have key0: "p < length data" "data ! p = CHR 0x22" using t(2) w(5) by (auto simp: string_text_def spans_Cons)
  have s1: "skipRawJSONSpace data i = p"
    using skip_ws[OF w(1) t(1)] skip_stop[of p data] key0 by (simp add: isRouteAttemptJSONSpace_def)
  obtain a b f where k: "scanStrictRawJSONString data p = Some (a, b, k, f)"
    using string_text_scanned[OF t(2) w(5) uk(1)] by blast
  have s2: "skipRawJSONSpace data k = c"
    using skip_ws[OF w(2) t(3)] skip_stop[of c data] t(5) by (simp add: isRouteAttemptJSONSpace_def)
  have v: "scanStrictRawJSONValue data v depth = Some e" by (rule val[OF t(7) uk(2) stops_ws[OF w(4) t(8) st]])
  have v': "scanStrictRawJSONValue data (c + 1) depth = Some e"
    using v value_after_space(1)[OF skip_ws[OF w(3) t(6)]] by simp
  have s3: "skipRawJSONSpace data e = j"
    using skip_ws[OF w(4) t(8)] skip_stop[of j data] j by (auto simp: isRouteAttemptJSONSpace_def)
  show ?thesis
    using j k s2 t(4,5) v' s3 unfolding s1
    by (auto simp: strictObjectLoop.simps[of data p] afterMember_def Let_def)
qed

lemma element_scanned:
  assumes ok: "elementOk d r" and sp: "spans data i j (elementText r)" and u: "utf8Valid (elementText r)"
    and j: "j < length data" "data ! j = CHR '','' \<or> data ! j = CHR '']''"
    and val: "\<And>a b. spans data a b (reValue r) \<Longrightarrow> utf8Valid (reValue r) \<Longrightarrow> stops data b \<Longrightarrow>
      scanStrictRawJSONValue data a depth = Some b"
  shows "strictArrayLoop data (skipRawJSONSpace data i) depth = afterElement data j depth"
proof -
  let ?p = "i + length (reBefore r)" let ?e = "?p + length (reValue r)"
  have t: "spans data i ?p (reBefore r)" "spans data ?p ?e (reValue r)" "spans data ?e j (reAfter r)"
    using sp unfolding elementText_def by (simp_all add: spans_append)
  have w: "ws (reBefore r)" "ws (reAfter r)" using ok by (auto simp: elementOk_def)
  have st: "stops data j" using j by (auto simp: stops_def isRouteAttemptJSONValueDelimiter_def)
  have uv: "utf8Valid (reValue r)" using u utf8_element[OF ok] by simp
  have v: "scanStrictRawJSONValue data ?p depth = Some ?e" by (rule val[OF t(2) uv stops_ws[OF w(2) t(3) st]])
  have idem: "skipRawJSONSpace data (skipRawJSONSpace data i) = skipRawJSONSpace data i"
    using skip_stopped[of data i] by (intro skip_stop) auto
  have v': "scanStrictRawJSONValue data (skipRawJSONSpace data i) depth = Some ?e"
    using v value_after_space(1)[OF idem] value_after_space(1)[OF skip_ws[OF w(1) t(1)]] by simp
  have s3: "skipRawJSONSpace data ?e = j"
    using skip_ws[OF w(2) t(3)] skip_stop[of j data] j by (auto simp: isRouteAttemptJSONSpace_def)
  show ?thesis
    using j v' s3 by (auto simp: strictArrayLoop.simps[of data "skipRawJSONSpace data i"] afterElement_def Let_def)
qed


lemma spans_snoc_cut:
  "spans data i j (a @ c # b) \<Longrightarrow>
   spans data i (i + length a) a \<and> i + length a < length data \<and> data ! (i + length a) = c \<and>
   spans data (i + length a + 1) j b"
  by (simp add: spans_append spans_Cons)

lemma object_not_close: "data ! n = CHR ''}'' \<Longrightarrow> strictObjectLoop data n depth = None"
  by (simp add: strictObjectLoop.simps[of data n] scanStrictRawJSONString_def)

lemma array_not_close: "n < length data \<Longrightarrow> data ! n = CHR '']'' \<Longrightarrow> strictArrayLoop data n depth = None"
  by (simp add: strictArrayLoop.simps[of data n] scanStrictRawJSONValue.simps[of data n] skip_stop
      scanStrictRawJSONNumber_def scanInteger_def isRouteAttemptJSONSpace_def)

lemma strict_complete:
  "value_text d t \<Longrightarrow> (\<forall>data i j depth. spans data i j t \<longrightarrow> utf8Valid t \<longrightarrow> stops data j \<longrightarrow> d + depth \<le> 64 \<longrightarrow>
     scanStrictRawJSONValue data i depth = Some j)"
  "members d m \<Longrightarrow> (\<forall>data i j depth. spans data i j m \<longrightarrow> utf8Valid m \<longrightarrow> j < length data \<longrightarrow>
     data ! j = CHR '','' \<or> data ! j = CHR ''}'' \<longrightarrow> d + depth \<le> 64 \<longrightarrow>
     strictObjectLoop data (skipRawJSONSpace data i) depth = afterMember data j depth)"
  "elements d m \<Longrightarrow> (\<forall>data i j depth. spans data i j m \<longrightarrow> utf8Valid m \<longrightarrow> j < length data \<longrightarrow>
     data ! j = CHR '','' \<or> data ! j = CHR '']'' \<longrightarrow> d + depth \<le> 64 \<longrightarrow>
     strictArrayLoop data (skipRawJSONSpace data i) depth = afterElement data j depth)"
proof (induction rule: value_text_members_elements.inducts)
  case (v_literal t d)
  then show ?case using literal_value by blast
next
  case (v_number t d)
  then show ?case using number_value by blast
next
  case (v_string t d)
  then show ?case using raw_string_value(1) by blast
next
  case (v_object0 w d)
  show ?case
  proof (intro allI impI)
    fix data i j depth
    assume a: "spans data i j (''{'' @ w @ ''}'')" "Suc d + depth \<le> 64"
    let ?q = "i + 1 + length w"
    have o: "i < length data" "data ! i = CHR ''{''" "spans data (i + 1) ?q w" "?q < length data"
        "data ! ?q = CHR ''}''" "j = ?q + 1"
      using a(1) spans_snoc_cut[of data "i + 1" j w "CHR ''}''" "[]"] by (auto simp: spans_Cons)
    have s: "skipRawJSONSpace data i = i" using o(1,2) by (intro skip_stop) (auto simp: isRouteAttemptJSONSpace_def)
    have q: "skipRawJSONSpace data (i + 1) = ?q"
      using skip_ws[OF v_object0 o(3)] o(5) by (subst skip_stop[of ?q data, symmetric]) (auto simp: isRouteAttemptJSONSpace_def)
    show "scanStrictRawJSONValue data i depth = Some j"
      using o s q a(2)
      by (simp add: scanStrictRawJSONValue.simps[of data i] scanStrictRawJSONObject.simps[of data i]
          maxFastRawJSONNestingDepth_def)
  qed
next
  case (v_object d m)
  show ?case
  proof (intro allI impI)
    fix data i j depth
    assume a: "spans data i j (''{'' @ m @ ''}'')" "utf8Valid (''{'' @ m @ ''}'')" "Suc d + depth \<le> 64"
    let ?q = "i + 1 + length m"
    have o: "i < length data" "data ! i = CHR ''{''" "spans data (i + 1) ?q m" "?q < length data"
        "data ! ?q = CHR ''}''" "j = ?q + 1"
      using a(1) spans_snoc_cut[of data "i + 1" j m "CHR ''}''" "[]"] by (auto simp: spans_Cons)
    have s: "skipRawJSONSpace data i = i" using o(1,2) by (intro skip_stop) (auto simp: isRouteAttemptJSONSpace_def)
    have u: "utf8Valid m" using a(2) utf8_split[of "CHR ''}''" m "[]"] by (simp add: utf8_Cons_ascii)
    have l: "strictObjectLoop data (skipRawJSONSpace data (i + 1)) (depth + 1) = Some j"
      using v_object.IH[rule_format, OF o(3) u o(4), of "depth + 1"] o(5,6) a(3) by (simp add: afterMember_def)
    have e: "skipRawJSONSpace data (i + 1) < length data"
      using l strict_span(2)[of data "skipRawJSONSpace data (i + 1)" "depth + 1"] by auto
    have nb: "data ! skipRawJSONSpace data (i + 1) \<noteq> CHR ''}''"
      using l object_not_close by fastforce
    show "scanStrictRawJSONValue data i depth = Some j"
      using o(1,2) s l e nb a(3)
      by (simp add: scanStrictRawJSONValue.simps[of data i] scanStrictRawJSONObject.simps[of data i]
          maxFastRawJSONNestingDepth_def)
  qed
next
  case (v_array0 w d)
  show ?case
  proof (intro allI impI)
    fix data i j depth
    assume a: "spans data i j (''['' @ w @ '']'')" "Suc d + depth \<le> 64"
    let ?q = "i + 1 + length w"
    have o: "i < length data" "data ! i = CHR ''[''" "spans data (i + 1) ?q w" "?q < length data"
        "data ! ?q = CHR '']''" "j = ?q + 1"
      using a(1) spans_snoc_cut[of data "i + 1" j w "CHR '']''" "[]"] by (auto simp: spans_Cons)
    have s: "skipRawJSONSpace data i = i" using o(1,2) by (intro skip_stop) (auto simp: isRouteAttemptJSONSpace_def)
    have q: "skipRawJSONSpace data (i + 1) = ?q"
      using skip_ws[OF v_array0 o(3)] o(5) by (subst skip_stop[of ?q data, symmetric]) (auto simp: isRouteAttemptJSONSpace_def)
    show "scanStrictRawJSONValue data i depth = Some j"
      using o s q a(2)
      by (simp add: scanStrictRawJSONValue.simps[of data i] scanStrictRawJSONArray.simps[of data i]
          maxFastRawJSONNestingDepth_def)
  qed
next
  case (v_array d m)
  show ?case
  proof (intro allI impI)
    fix data i j depth
    assume a: "spans data i j (''['' @ m @ '']'')" "utf8Valid (''['' @ m @ '']'')" "Suc d + depth \<le> 64"
    let ?q = "i + 1 + length m"
    have o: "i < length data" "data ! i = CHR ''[''" "spans data (i + 1) ?q m" "?q < length data"
        "data ! ?q = CHR '']''" "j = ?q + 1"
      using a(1) spans_snoc_cut[of data "i + 1" j m "CHR '']''" "[]"] by (auto simp: spans_Cons)
    have s: "skipRawJSONSpace data i = i" using o(1,2) by (intro skip_stop) (auto simp: isRouteAttemptJSONSpace_def)
    have u: "utf8Valid m" using a(2) utf8_split[of "CHR '']''" m "[]"] by (simp add: utf8_Cons_ascii)
    have l: "strictArrayLoop data (skipRawJSONSpace data (i + 1)) (depth + 1) = Some j"
      using v_array.IH[rule_format, OF o(3) u o(4), of "depth + 1"] o(5,6) a(3) by (simp add: afterElement_def)
    have e: "skipRawJSONSpace data (i + 1) < length data"
      using l strict_span(3)[of data "skipRawJSONSpace data (i + 1)" "depth + 1"] by auto
    have nb: "data ! skipRawJSONSpace data (i + 1) \<noteq> CHR '']''"
      using l e array_not_close by fastforce
    show "scanStrictRawJSONValue data i depth = Some j"
      using o(1,2) s l e nb a(3)
      by (simp add: scanStrictRawJSONValue.simps[of data i] scanStrictRawJSONArray.simps[of data i]
          maxFastRawJSONNestingDepth_def)
  qed
next
  case (m_first w1 k w2 w3 d t w4)
  let ?r = "\<lparr>rmBefore = w1, rmKey = k, rmColon1 = w2, rmColon2 = w3, rmValue = t, rmAfter = w4\<rparr>"
  have ok: "memberOk d ?r" using m_first by (simp add: memberOk_def)
  have tx: "memberText ?r = w1 @ k @ w2 @ '':'' @ w3 @ t @ w4" by (simp add: memberText_def)
  show ?case
    using member_scanned[OF ok] m_first.IH unfolding tx by simp
next
  case (m_next d m w1 k w2 w3 t w4)
  let ?r = "\<lparr>rmBefore = w1, rmKey = k, rmColon1 = w2, rmColon2 = w3, rmValue = t, rmAfter = w4\<rparr>"
  have ok: "memberOk d ?r" using m_next by (simp add: memberOk_def)
  have tx: "w1 @ k @ w2 @ '':'' @ w3 @ t @ w4 = memberText ?r" by (simp add: memberText_def)
  show ?case
  proof (unfold tx, intro allI impI)
    fix data i j depth
    assume a: "spans data i j (m @ '','' @ memberText ?r)" "utf8Valid (m @ '','' @ memberText ?r)"
      "j < length data" "data ! j = CHR '','' \<or> data ! j = CHR ''}''" "d + depth \<le> 64"
    let ?c = "i + length m"
    have o: "spans data i ?c m" "?c < length data" "data ! ?c = CHR '',''" "spans data (?c + 1) j (memberText ?r)"
      using spans_snoc_cut[of data i j m "CHR '',''" "memberText ?r"] a(1) by auto
    have u: "utf8Valid m" "utf8Valid (memberText ?r)"
      using a(2) utf8_split[of "CHR '',''" m "memberText ?r"] by auto
    have "strictObjectLoop data (skipRawJSONSpace data i) depth = afterMember data ?c depth"
      using m_next.IH(1) o(1-3) u(1) a(5) by blast
    also have "\<dots> = strictObjectLoop data (skipRawJSONSpace data (?c + 1)) depth" using o(3) by (simp add: afterMember_def)
    also have "\<dots> = afterMember data j depth"
      by (rule member_scanned[OF ok o(4) u(2) a(3,4)]) (use m_next.IH(2) a(5) in simp)
    finally show "strictObjectLoop data (skipRawJSONSpace data i) depth = afterMember data j depth" .
  qed
next
  case (e_first w1 d t w2)
  let ?r = "\<lparr>reBefore = w1, reValue = t, reAfter = w2\<rparr>"
  have ok: "elementOk d ?r" using e_first by (simp add: elementOk_def)
  have tx: "elementText ?r = w1 @ t @ w2" by (simp add: elementText_def)
  show ?case
    using element_scanned[OF ok] e_first.IH unfolding tx by simp
next
  case (e_next d m w1 t w2)
  let ?r = "\<lparr>reBefore = w1, reValue = t, reAfter = w2\<rparr>"
  have ok: "elementOk d ?r" using e_next by (simp add: elementOk_def)
  have tx: "w1 @ t @ w2 = elementText ?r" by (simp add: elementText_def)
  show ?case
  proof (unfold tx, intro allI impI)
    fix data i j depth
    assume a: "spans data i j (m @ '','' @ elementText ?r)" "utf8Valid (m @ '','' @ elementText ?r)"
      "j < length data" "data ! j = CHR '','' \<or> data ! j = CHR '']''" "d + depth \<le> 64"
    let ?c = "i + length m"
    have o: "spans data i ?c m" "?c < length data" "data ! ?c = CHR '',''" "spans data (?c + 1) j (elementText ?r)"
      using spans_snoc_cut[of data i j m "CHR '',''" "elementText ?r"] a(1) by auto
    have u: "utf8Valid m" "utf8Valid (elementText ?r)"
      using a(2) utf8_split[of "CHR '',''" m "elementText ?r"] by auto
    have "strictArrayLoop data (skipRawJSONSpace data i) depth = afterElement data ?c depth"
      using e_next.IH(1) o(1-3) u(1) a(5) by blast
    also have "\<dots> = strictArrayLoop data (skipRawJSONSpace data (?c + 1)) depth" using o(3) by (simp add: afterElement_def)
    also have "\<dots> = afterElement data j depth"
      by (rule element_scanned[OF ok o(4) u(2) a(3,4)]) (use e_next.IH(2) a(5) in simp)
    finally show "strictArrayLoop data (skipRawJSONSpace data i) depth = afterElement data j depth" .
  qed
qed


section \<open>The lax scanner\<close>

definition passes :: "string \<Rightarrow> bool" where
  "passes t \<longleftrightarrow> (\<forall>data i j k. spans data i j t \<longrightarrow>
     skipContainerLoop data i (1 + int k) = skipContainerLoop data j (1 + int k))"

lemma passes_append: "passes a \<Longrightarrow> passes b \<Longrightarrow> passes (a @ b)"
  unfolding passes_def spans_append by metis

lemma passes_Nil [simp]: "passes []"
  by (simp add: passes_def)

definition plainByte :: "char \<Rightarrow> bool" where
  "plainByte c \<longleftrightarrow> c \<notin> {CHR 0x22, CHR ''{'', CHR ''['', CHR ''}'', CHR '']''}"

lemma passes_plain: "list_all plainByte t \<Longrightarrow> passes t"
proof (induction t)
  case (Cons c t)
  have "passes [c]"
    using Cons.prems by (auto simp: passes_def spans_Cons plainByte_def skipContainerLoop.simps[of _ i for i])
  with Cons show ?case using passes_append[of "[c]" t] by simp
qed simp

lemma passes_string: "string_text t \<Longrightarrow> utf8Valid t \<Longrightarrow> passes t"
  unfolding passes_def
proof (intro allI impI)
  fix data i j k assume a: "string_text t" "utf8Valid t" "spans data i j t"
  have q: "i < length data" "data ! i = CHR 0x22" using a(1,3) by (auto simp: string_text_def spans_Cons)
  obtain x y f where "scanRawJSONString data i = Some (x, y, j, f)" using string_text_scanned[OF a(3,1,2)] by blast
  with q show "skipContainerLoop data i (1 + int k) = skipContainerLoop data j (1 + int k)"
    by (subst skipContainerLoop.simps) simp
qed

lemma space_plain: "isRouteAttemptJSONSpace c \<Longrightarrow> plainByte c"
  by (auto simp: plainByte_def)

lemma passes_ws: "ws w \<Longrightarrow> passes w"
  by (rule passes_plain) (simp add: ws_def list_all_iff space_plain)

lemma passes_member:
  "memberOk d r \<Longrightarrow> utf8Valid (rmKey r) \<Longrightarrow> passes (rmValue r) \<Longrightarrow> passes (memberText r)"
  unfolding memberText_def memberOk_def
  by (intro passes_append) (auto intro: passes_ws passes_string passes_plain simp: plainByte_def)

lemma passes_element: "elementOk d r \<Longrightarrow> passes (reValue r) \<Longrightarrow> passes (elementText r)"
  unfolding elementText_def elementOk_def by (intro passes_append) (auto intro: passes_ws)

lemma passes_comma: "passes '',''"
  by (rule passes_plain) (simp add: plainByte_def)

lemma plain_digit: "isDigitByte c \<Longrightarrow> plainByte c"
  by (auto simp: plainByte_def byteIn_def less_eq_char_def)

lemma number_plain: "number_text t \<Longrightarrow> list_all plainByte t"
proof -
  have p: "plainByte (CHR ''-'')" "plainByte (CHR ''+'')" "plainByte (CHR ''.'')" "plainByte (CHR ''e'')"
    "plainByte (CHR ''E'')" "plainByte (CHR ''0'')" by (simp_all add: plainByte_def)
  have d: "list_all isDigitByte ds \<Longrightarrow> list_all plainByte ds" for ds
    using plain_digit by (simp add: list_all_iff)
  have i: "int_part t \<Longrightarrow> list_all plainByte t" for t
    using d plain_digit digit19 p by (auto simp: int_part_def)
  have f: "frac_part t \<Longrightarrow> list_all plainByte t" for t
    using d p by (auto simp: frac_part_def digits1_def)
  have x: "exp_part t \<Longrightarrow> list_all plainByte t" for t
    using d p by (auto simp: exp_part_def digits1_def)
  assume "number_text t"
  then obtain m i' f' e' where "t = m @ i' @ f' @ e'" "m \<in> {'''', ''-''}" "int_part i'" "frac_part f'" "exp_part e'"
    by (auto simp: number_text_def)
  then show ?thesis using i f x p by auto
qed

lemma open_step:
  "i < length data \<Longrightarrow> data ! i = CHR ''{'' \<or> data ! i = CHR ''['' \<Longrightarrow>
   skipContainerLoop data i depth = skipContainerLoop data (i + 1) (depth + 1)"
  by (subst skipContainerLoop.simps) auto

lemma close_step:
  "i < length data \<Longrightarrow> data ! i = CHR ''}'' \<or> data ! i = CHR '']'' \<Longrightarrow>
   skipContainerLoop data i depth =
     (if depth - 1 = 0 then Some (i + 1) else skipContainerLoop data (i + 1) (depth - 1))"
  by (subst skipContainerLoop.simps) auto

lemma passes_container:
  assumes "passes m" "a = CHR ''{'' \<or> a = CHR ''[''" "b = CHR ''}'' \<or> b = CHR '']''"
  shows "passes ([a] @ m @ [b])"
    and "spans data i j ([a] @ m @ [b]) \<Longrightarrow> skipContainerLoop data i 0 = Some j"
proof -
  have cut: "i < length data \<and> data ! i = a \<and> spans data (i + 1) (i + 1 + length m) m \<and>
      i + 1 + length m < length data \<and> data ! (i + 1 + length m) = b \<and> j = i + 1 + length m + 1"
    if "spans data i j ([a] @ m @ [b])" for data i j
    using that spans_snoc_cut[of data "i + 1" j m b "[]"] by (auto simp: spans_Cons)
  show "passes ([a] @ m @ [b])"
    unfolding passes_def
  proof (intro allI impI)
    fix data i j k assume "spans data i j ([a] @ m @ [b])"
    note c = cut[OF this]
    have "skipContainerLoop data i (1 + int k) = skipContainerLoop data (i + 1) (1 + int (Suc k))"
      using open_step[of i data "1 + int k"] c assms(2) by (auto simp: algebra_simps)
    also have "\<dots> = skipContainerLoop data (i + 1 + length m) (1 + int (Suc k))"
      using assms(1) c unfolding passes_def by blast
    also have "\<dots> = skipContainerLoop data j (1 + int k)"
      using close_step[of "i + 1 + length m" data "1 + int (Suc k)"] c assms(3) by auto
    finally show "skipContainerLoop data i (1 + int k) = skipContainerLoop data j (1 + int k)" .
  qed
  assume "spans data i j ([a] @ m @ [b])"
  note c = cut[OF this]
  have "skipContainerLoop data i 0 = skipContainerLoop data (i + 1) (1 + int 0)"
    using open_step[of i data 0] c assms(2) by auto
  also have "\<dots> = skipContainerLoop data (i + 1 + length m) (1 + int 0)"
    using assms(1) c unfolding passes_def by blast
  also have "\<dots> = Some j" using close_step[of "i + 1 + length m" data "1 + int 0"] c assms(3) by auto
  finally show "skipContainerLoop data i 0 = Some j" .
qed

lemma value_passes:
  "value_text d t \<Longrightarrow> utf8Valid t \<longrightarrow> passes t"
  "members d m \<Longrightarrow> utf8Valid m \<longrightarrow> passes m"
  "elements d m \<Longrightarrow> utf8Valid m \<longrightarrow> passes m"
proof (induction rule: value_text_members_elements.inducts)
  case (v_literal t d)
  then show ?case by (auto intro!: passes_plain simp: plainByte_def)
next
  case (v_number t d)
  then show ?case using passes_plain number_plain by blast
next
  case (v_string t d)
  then show ?case using passes_string by blast
next
  case (v_object0 w d)
  then show ?case using passes_container(1)[OF passes_ws, of w] by simp
next
  case (v_object d m)
  then show ?case
    using passes_container(1)[of m "CHR ''{''" "CHR ''}''"] utf8_split[of "CHR ''}''" m "[]"] by (simp add: utf8_Cons_ascii)
next
  case (v_array0 w d)
  then show ?case using passes_container(1)[OF passes_ws, of w] by simp
next
  case (v_array d m)
  then show ?case
    using passes_container(1)[of m "CHR ''[''" "CHR '']''"] utf8_split[of "CHR '']''" m "[]"] by (simp add: utf8_Cons_ascii)
next
  case (m_first w1 k w2 w3 d t w4)
  let ?r = "\<lparr>rmBefore = w1, rmKey = k, rmColon1 = w2, rmColon2 = w3, rmValue = t, rmAfter = w4\<rparr>"
  have ok: "memberOk d ?r" using m_first by (simp add: memberOk_def)
  have tx: "w1 @ k @ w2 @ '':'' @ w3 @ t @ w4 = memberText ?r" by (simp add: memberText_def)
  show ?case unfolding tx using utf8_member[OF ok] passes_member[OF ok] m_first.IH by simp
next
  case (m_next d m w1 k w2 w3 t w4)
  let ?r = "\<lparr>rmBefore = w1, rmKey = k, rmColon1 = w2, rmColon2 = w3, rmValue = t, rmAfter = w4\<rparr>"
  have ok: "memberOk d ?r" using m_next by (simp add: memberOk_def)
  have tx: "w1 @ k @ w2 @ '':'' @ w3 @ t @ w4 = memberText ?r" by (simp add: memberText_def)
  have "passes m \<Longrightarrow> passes (memberText ?r) \<Longrightarrow> passes (m @ '','' @ memberText ?r)"
    by (intro passes_append passes_comma)
  then show ?case
    unfolding tx using utf8_member[OF ok] passes_member[OF ok] m_next.IH utf8_split[of "CHR '',''" m "memberText ?r"]
    by simp
next
  case (e_first w1 d t w2)
  let ?r = "\<lparr>reBefore = w1, reValue = t, reAfter = w2\<rparr>"
  have ok: "elementOk d ?r" using e_first by (simp add: elementOk_def)
  have tx: "w1 @ t @ w2 = elementText ?r" by (simp add: elementText_def)
  show ?case unfolding tx using utf8_element[OF ok] passes_element[OF ok] e_first.IH by simp
next
  case (e_next d m w1 t w2)
  let ?r = "\<lparr>reBefore = w1, reValue = t, reAfter = w2\<rparr>"
  have ok: "elementOk d ?r" using e_next by (simp add: elementOk_def)
  have tx: "w1 @ t @ w2 = elementText ?r" by (simp add: elementText_def)
  have "passes m \<Longrightarrow> passes (elementText ?r) \<Longrightarrow> passes (m @ '','' @ elementText ?r)"
    by (intro passes_append passes_comma)
  then show ?case
    unfolding tx using utf8_element[OF ok] passes_element[OF ok] e_next.IH utf8_split[of "CHR '',''" m "elementText ?r"]
    by simp
qed


lemma scalar_end:
  "spans data i j t \<Longrightarrow> list_all (\<lambda>c. \<not> isRouteAttemptJSONValueDelimiter c) t \<Longrightarrow> stops data j \<Longrightarrow> pos < j \<Longrightarrow>
   skipScalarLoop data pos i = Some j"
proof (induction t arbitrary: i)
  case Nil
  then show ?case
    by (subst skipScalarLoop.simps)
      (auto simp: stops_def isRouteAttemptJSONValueDelimiter_def isRouteAttemptJSONSpace_def)
next
  case (Cons c t)
  then have "skipScalarLoop data pos i = skipScalarLoop data pos (i + 1)"
    by (subst skipScalarLoop.simps)
      (auto simp: spans_Cons isRouteAttemptJSONValueDelimiter_def isRouteAttemptJSONSpace_def)
  with Cons show ?case by (simp add: spans_Cons)
qed

lemma number_not_delimiter: "number_text t \<Longrightarrow> list_all (\<lambda>c. \<not> isRouteAttemptJSONValueDelimiter c) t"
proof -
  have p: "\<not> isRouteAttemptJSONValueDelimiter (CHR ''-'')" "\<not> isRouteAttemptJSONValueDelimiter (CHR ''+'')"
    "\<not> isRouteAttemptJSONValueDelimiter (CHR ''.'')" "\<not> isRouteAttemptJSONValueDelimiter (CHR ''e'')"
    "\<not> isRouteAttemptJSONValueDelimiter (CHR ''E'')" "\<not> isRouteAttemptJSONValueDelimiter (CHR ''0'')"
    by (simp_all add: isRouteAttemptJSONValueDelimiter_def isRouteAttemptJSONSpace_def)
  have g: "isDigitByte c \<Longrightarrow> \<not> isRouteAttemptJSONValueDelimiter c" for c
    by (auto simp: isRouteAttemptJSONValueDelimiter_def dest: digit_not_space)
  have d: "list_all isDigitByte ds \<Longrightarrow> list_all (\<lambda>c. \<not> isRouteAttemptJSONValueDelimiter c) ds" for ds
    using g by (simp add: list_all_iff)
  have i: "int_part t \<Longrightarrow> list_all (\<lambda>c. \<not> isRouteAttemptJSONValueDelimiter c) t" for t
    using d g digit19 p by (auto simp: int_part_def)
  have f: "frac_part t \<Longrightarrow> list_all (\<lambda>c. \<not> isRouteAttemptJSONValueDelimiter c) t" for t
    using d p by (auto simp: frac_part_def digits1_def)
  have x: "exp_part t \<Longrightarrow> list_all (\<lambda>c. \<not> isRouteAttemptJSONValueDelimiter c) t" for t
    using d p by (auto simp: exp_part_def digits1_def)
  assume "number_text t"
  then obtain m i' f' e' where "t = m @ i' @ f' @ e'" "m \<in> {'''', ''-''}" "int_part i'" "frac_part f'" "exp_part e'"
    by (auto simp: number_text_def)
  then show ?thesis using i f x p by auto
qed

lemma raw_scalar_value:
  assumes "spans data i j (c # t)" "list_all (\<lambda>c. \<not> isRouteAttemptJSONValueDelimiter c) (c # t)" "stops data j"
    "c \<notin> {CHR 0x22, CHR ''{'', CHR ''[''}"
  shows "skipRawJSONValue data i = Some j"
proof -
  have d: "i < length data" "data ! i = c" using assms(1) by (auto simp: spans_Cons)
  have s: "skipRawJSONSpace data i = i"
    using d assms(2) by (intro skip_stop) (auto simp: isRouteAttemptJSONValueDelimiter_def)
  show ?thesis
    using d s assms(4) scalar_end[OF assms(1,2,3)] spans_length[OF assms(1)] by (simp add: skipRawJSONValue_def)
qed

lemma container_value:
  assumes "passes m" "spans data i j ([a] @ m @ [b])" "a = CHR ''{'' \<or> a = CHR ''[''" "b = CHR ''}'' \<or> b = CHR '']''"
  shows "skipRawJSONValue data i = Some j"
proof -
  have d: "i < length data" "data ! i = a" using assms(2) by (auto simp: spans_Cons)
  have s: "skipRawJSONSpace data i = i"
    using d assms(3) by (intro skip_stop) (auto simp: isRouteAttemptJSONSpace_def)
  show ?thesis
    using d s assms(3) passes_container(2)[OF assms(1,3,4,2)] by (auto simp: skipRawJSONValue_def)
qed

lemma lax_value_end:
  assumes "value_text d t" "utf8Valid t" "spans data i j t" "stops data j"
  shows "skipRawJSONValue data i = Some j"
  using assms(1)
proof cases
  case v_literal
  then have "list_all (\<lambda>c. \<not> isRouteAttemptJSONValueDelimiter c) t"
    by (auto simp: isRouteAttemptJSONValueDelimiter_def isRouteAttemptJSONSpace_def)
  with v_literal assms(3,4) raw_scalar_value[of data i j "hd t" "tl t"] show ?thesis by auto
next
  case v_number
  obtain c cs where c: "t = c # cs" "c = CHR ''-'' \<or> isDigitByte c" using number_first[OF v_number(1)] by blast
  have "c \<notin> {CHR 0x22, CHR ''{'', CHR ''[''}" using c(2) by (auto simp: byteIn_def less_eq_char_def)
  then show ?thesis using raw_scalar_value assms(3,4) number_not_delimiter[OF v_number(1)] unfolding c(1) by blast
next
  case v_string
  then show ?thesis using raw_string_value(2) assms(2,3) by blast
next
  case (v_object0 w d')
  then show ?thesis using container_value[OF passes_ws[OF v_object0(3)]] assms(3) by simp
next
  case (v_object d' m)
  have "utf8Valid m" using assms(2) utf8_split[of "CHR ''}''" m "[]"] unfolding v_object(2) by (simp add: utf8_Cons_ascii)
  then show ?thesis
    using container_value[of m data i j "CHR ''{''" "CHR ''}''"] value_passes(2)[OF v_object(3)] assms(3)
    unfolding v_object(2) by simp
next
  case (v_array0 w d')
  then show ?thesis using container_value[OF passes_ws[OF v_array0(3)]] assms(3) by simp
next
  case (v_array d' m)
  have "utf8Valid m" using assms(2) utf8_split[of "CHR '']''" m "[]"] unfolding v_array(2) by (simp add: utf8_Cons_ascii)
  then show ?thesis
    using container_value[of m data i j "CHR ''[''" "CHR '']''"] value_passes(3)[OF v_array(3)] assms(3)
    unfolding v_array(2) by simp
qed

section \<open>The strict scanner is the grammar\<close>

lemma raw_value_first: "value_text d t \<Longrightarrow> \<exists>c cs. t = c # cs \<and> \<not> isRouteAttemptJSONSpace c"
proof (erule value_text.cases, goal_cases)
  case 2 then show ?case using number_first digit_not_space by fastforce
qed (auto simp: string_text_def isRouteAttemptJSONSpace_def)

lemma strict_value_scanned:
  assumes "value_text d t" "utf8Valid t" "spans data p e t" "stops data e" "d + depth \<le> 64"
    "ws w" "spans data i p w"
  shows "scanStrictRawJSONValue data i depth = Some e" and "skipRawJSONValue data i = Some e"
  using strict_complete(1)[OF assms(1)] lax_value_end[OF assms(1-4)] assms(2-5)
    value_after_space[OF skip_ws[OF assms(6,7)]] by auto

text \<open>C9. The strict scanner is a parser of RFC 8259: at any position it returns the end of a value
  of the grammar, nested within what is left of the 64 levels, whose strings are valid UTF-8, and
  it returns the end of every such value that a delimiter or the end of the data follows.\<close>

theorem strict_scan_is_json:
  assumes "pos \<le> length data" "stops data e"
  shows "scanStrictRawJSONValue data pos depth = Some e \<longleftrightarrow>
    (\<exists>w t. drop pos data = w @ t @ drop e data \<and> ws w \<and> value_text (64 - depth) t \<and> utf8Valid t)"
proof
  assume s: "scanStrictRawJSONValue data pos depth = Some e"
  from strict_sound(1)[OF assms(1) s] obtain p t where t: "ws (byteSlice data pos p)" "pos \<le> p" "spans data p e t"
      "value_text (64 - depth) t" "utf8Valid t" by blast
  have "spans data pos p (byteSlice data pos p)"
    using spans_slice_intro[OF t(2)] spans_length[OF t(3)] by simp
  from spans_drop[OF this] spans_drop[OF t(3)] t(1,4,5)
  show "\<exists>w t. drop pos data = w @ t @ drop e data \<and> ws w \<and> value_text (64 - depth) t \<and> utf8Valid t"
    by (intro exI[of _ "byteSlice data pos p"] exI[of _ t]) simp
next
  assume "\<exists>w t. drop pos data = w @ t @ drop e data \<and> ws w \<and> value_text (64 - depth) t \<and> utf8Valid t"
  then obtain w t where t: "drop pos data = w @ t @ drop e data" "ws w" "value_text (64 - depth) t" "utf8Valid t"
    by blast
  have e: "e \<le> length data" using assms(2) by (auto simp: stops_def)
  have "length data - pos = length w + length t + (length data - e)"
    using arg_cong[OF t(1), of length] by simp
  moreover have "length t > 0" using raw_value_first[OF t(3)] by auto
  ultimately have le: "e = pos + length w + length t" using e assms(1) by linarith
  have "drop (pos + length w) data = drop (length w) (drop pos data)" by (simp add: add.commute)
  then have "drop (pos + length w) data = t @ drop e data" unfolding t(1) by simp
  then have sp: "spans data pos (pos + length w) w" "spans data (pos + length w) e t"
    using t(1) e le by (simp_all add: spans_def)
  show "scanStrictRawJSONValue data pos depth = Some e"
  proof (cases "depth \<le> 64")
    case True
    then show ?thesis using strict_value_scanned(1)[OF t(3,4) sp(2) assms(2) _ t(2) sp(1)] by simp
  next
    case False
    then have z: "value_text 0 t" using t(3) by simp
    have "scanStrictRawJSONValue data (pos + length w) depth = Some e"
      using z
    proof cases
      case v_literal with literal_value sp(2) show ?thesis by blast
    next
      case v_number with number_value sp(2) assms(2) show ?thesis by blast
    next
      case v_string with raw_string_value(1) sp(2) t(4) show ?thesis by blast
    qed
    then show ?thesis using value_after_space(1)[OF skip_ws[OF t(2) sp(1)]] by simp
  qed
qed

lemma strict_scan_is_json_witness:
  "scanStrictRawJSONValue ''[ {},7]:'' 1 2 = Some 4 \<and>
   (\<exists>w t. drop 1 ''[ {},7]:'' = w @ t @ drop 4 ''[ {},7]:'' \<and> ws w \<and> value_text (64 - 2) t \<and> utf8Valid t)"
proof -
  have s: "stops ''[ {},7]:'' 4"
    by (simp add: stops_def isRouteAttemptJSONValueDelimiter_def)
  have v: "scanStrictRawJSONValue ''[ {},7]:'' 1 2 = Some 4" by code_simp
  with strict_scan_is_json[OF _ s, of 1 2] show ?thesis by simp
qed

end
