(* ===== verification/Raw_Json_Properties.thy ===== *)
theory Raw_Json_Properties
  imports Raw_Json_Grammar
begin

text \<open>
  What the cursors, the extraction, the replacement and the single walk of \<open>Raw_Json\<close> do on an
  object of the grammar, given as the list of its members.
\<close>

section \<open>Objects as lists of members\<close>

definition memberList :: "bool \<Rightarrow> rawMember list \<Rightarrow> string" where
  "memberList first ms = (if ms = [] then '''' else (if first then '''' else '','') @ joined (map memberText ms))"

lemma memberList_Cons:
  "memberList first (r # ms) = (if first then '''' else '','') @ memberText r @ memberList False ms"
  by (cases ms) (auto simp: memberList_def)

definition memberName :: "rawMember \<Rightarrow> string" where
  "memberName r = butlast (tl (rmKey r))"

definition plainKey :: "rawMember \<Rightarrow> bool" where
  "plainKey r \<longleftrightarrow> backslash \<notin> set (rmKey r)"

text \<open>The text of the members between two positions, the second one at the closing brace.\<close>

definition membersAt :: "nat \<Rightarrow> string \<Rightarrow> nat \<Rightarrow> bool \<Rightarrow> rawMember list \<Rightarrow> nat \<Rightarrow> bool" where
  "membersAt d data i first ms j \<longleftrightarrow>
     (\<exists>w. ws w \<and> spans data i j (w @ memberList first ms)) \<and> j < length data \<and> data ! j = CHR ''}'' \<and>
     list_all (memberOk d) ms \<and> list_all (\<lambda>r. utf8Valid (memberText r)) ms"

lemma membersAt_end:
  assumes "membersAt d data i first [] j"
  shows "skipRawJSONSpace data i = j" "j < length data" "data ! j = CHR ''}''" "i \<le> j"
proof -
  obtain w where w: "ws w" "spans data i j w" and j: "j < length data" "data ! j = CHR ''}''"
    using assms by (auto simp: membersAt_def memberList_def)
  show "j < length data" "data ! j = CHR ''}''" using j by auto
  show "i \<le> j" using spans_length[OF w(2)] by simp
  show "skipRawJSONSpace data i = j"
    using skip_ws[OF w] j by (simp add: skip_stop isRouteAttemptJSONSpace_def)
qed

lemma key_text:
  assumes "string_text k" "utf8Valid k" "spans data p q k"
  shows "scanStrictRawJSONString data p = Some (p + 1, q - 1, q, backslash \<in> set k)"
    and "scanRawJSONString data p = Some (p + 1, q - 1, q, backslash \<in> set k)"
    and "byteSlice data (p + 1) (q - 1) = butlast (tl k)"
    and "p < length data" "data ! p = CHR 0x22" "p + 1 < q"
proof -
  obtain s where s: "string_body s" "k = [CHR 0x22] @ s @ [CHR 0x22]" using assms(1) by (auto simp: string_text_def)
  have u: "utf8Valid s" using assms(2) utf8_quoted unfolding s(2) by blast
  note sc = string_scanned[OF assms(3)[unfolded s(2)] s(1) u]
  have q: "p + 1 + length s = q - 1" using spans_length[OF assms(3)] unfolding s(2) by simp
  have b: "backslash \<in> set k \<longleftrightarrow> backslash \<in> set s" unfolding s(2) by simp
  show "scanStrictRawJSONString data p = Some (p + 1, q - 1, q, backslash \<in> set k)"
    "scanRawJSONString data p = Some (p + 1, q - 1, q, backslash \<in> set k)"
    using sc unfolding q b by auto
  show "byteSlice data (p + 1) (q - 1) = butlast (tl k)" using sc(3) unfolding q s(2) by (simp add: butlast_append)
  show "p < length data" "data ! p = CHR 0x22" "p + 1 < q"
    using assms(3) spans_length[OF assms(3)] unfolding s(2) by (auto simp: spans_Cons)
qed

lemma membersAt_next:
  assumes "membersAt d data i first (r # ms) j"
  obtains p start e where
    "skipRawJSONSpace data i < length data" "data ! skipRawJSONSpace data i \<noteq> CHR ''}''"
    "memberStart data (skipRawJSONSpace data i) first = Some p"
    "\<forall>strict. memberKey strict data p = (if plainKey r then Some (memberName r, start) else None)"
    "spans data start e (rmValue r)" "stops data e" "skipRawJSONSpace data start = start" "i < start"
    "membersAt d data e False ms j" "value_text d (rmValue r)" "utf8Valid (rmValue r)"
    "spans data e j (rmAfter r @ memberList False ms)"
proof -
  let ?pre = "if first then '''' else '',''"
  obtain w where w: "ws w" "spans data i j (w @ ?pre @ memberText r @ memberList False ms)"
      and j: "j < length data" "data ! j = CHR ''}''" and ok: "memberOk d r" "list_all (memberOk d) ms"
      and u: "utf8Valid (memberText r)" "list_all (\<lambda>r. utf8Valid (memberText r)) ms"
    using assms unfolding membersAt_def memberList_Cons by auto
  define i1 where "i1 = i + length w" define i2 where "i2 = i1 + length ?pre"
  define m where "m = i2 + length (memberText r)"
  have sp: "spans data i i1 w" "spans data i1 i2 ?pre" "spans data i2 m (memberText r)"
      "spans data m j (memberList False ms)"
    using w(2) unfolding i1_def i2_def m_def by (simp_all add: spans_append)
  obtain p k c v e where t: "spans data i2 p (rmBefore r)" "spans data p k (rmKey r)" "spans data k c (rmColon1 r)"
    "c < length data" "data ! c = CHR '':''" "spans data (c + 1) v (rmColon2 r)" "spans data v e (rmValue r)"
    "spans data e m (rmAfter r)" using spans_member[OF sp(3)] .
  have ww: "ws (rmBefore r)" "ws (rmColon1 r)" "ws (rmColon2 r)" "ws (rmAfter r)" "string_text (rmKey r)"
      "value_text d (rmValue r)" using ok by (auto simp: memberOk_def)
  have uk: "utf8Valid (rmKey r)" "utf8Valid (rmValue r)" using u(1) utf8_member[OF ok(1)] by auto
  note key = key_text[OF ww(5) uk(1) t(2)]
  have s_i2: "skipRawJSONSpace data i2 = p"
    using skip_ws[OF ww(1) t(1)] skip_stop[of p data] key(4,5) by (simp add: isRouteAttemptJSONSpace_def)
  have s_i: "skipRawJSONSpace data i = skipRawJSONSpace data i1" by (rule skip_ws[OF w(1) sp(1)])
  have start0: "skipRawJSONSpace data i < length data \<and> data ! skipRawJSONSpace data i \<noteq> CHR ''}'' \<and>
      memberStart data (skipRawJSONSpace data i) first = Some p"
  proof (cases first)
    case True
    then have "skipRawJSONSpace data i = p" using sp(2) s_i s_i2 by simp
    with True key(4,5) show ?thesis by (simp add: memberStart_def)
  next
    case False
    then have "i1 < length data" "data ! i1 = CHR '',''" "i2 = i1 + 1" using sp(2) by (auto simp: spans_Cons)
    moreover from this have "skipRawJSONSpace data i1 = i1" by (intro skip_stop) (simp add: isRouteAttemptJSONSpace_def)
    ultimately show ?thesis using False s_i s_i2 by (simp add: memberStart_def)
  qed
  have s_k: "skipRawJSONSpace data k = c"
    using skip_ws[OF ww(2) t(3)] skip_stop[of c data] t(5) by (simp add: isRouteAttemptJSONSpace_def)
  obtain x xs where x: "rmValue r = x # xs" "\<not> isRouteAttemptJSONSpace x" using raw_value_first[OF ww(6)] by blast
  have vv: "v < length data" "data ! v = x" using t(7) unfolding x(1) by (auto simp: spans_Cons)
  have s_v: "skipRawJSONSpace data v = v" using vv x(2) by (intro skip_stop) simp
  have s_c: "skipRawJSONSpace data (c + 1) = v" using skip_ws[OF ww(3) t(6)] s_v by simp
  have mk: "\<forall>strict. memberKey strict data p = (if plainKey r then Some (memberName r, v) else None)"
    using key(1-3) s_k s_c t(4,5) by (simp add: memberKey_def plainKey_def memberName_def)
  have le: "i < v"
    using spans_length[OF sp(1)] spans_length[OF sp(2)] spans_length[OF t(1)] key(6) spans_length[OF t(3)]
      spans_length[OF t(6)] by linarith
  have st: "stops data m"
    using sp(4) j by (cases ms) (auto simp: memberList_Cons spans_Cons stops_def isRouteAttemptJSONValueDelimiter_def
        memberList_def)
  have "membersAt d data e False ms j"
    using spans_join[OF t(8) sp(4)] ww(4) j ok(2) u(2) unfolding membersAt_def by blast
  with start0 mk t(7) stops_ws[OF ww(4) t(8) st] s_v le ww(6) uk(2) spans_join[OF t(8) sp(4)]
  show ?thesis using that by blast
qed


section \<open>The scanner walks over the members\<close>

definition scannerAt :: "nat \<Rightarrow> rawJSONObjectScanner \<Rightarrow> rawMember list \<Rightarrow> nat \<Rightarrow> bool" where
  "scannerAt d s ms j \<longleftrightarrow> \<not> osDone s \<and> \<not> osStrict s \<and> membersAt d (osData s) (osPos s) (osFirst s) ms j \<and>
     ws (drop (j + 1) (osData s))"

lemma skip_to_end: "ws (drop i data) \<Longrightarrow> i \<le> length data \<Longrightarrow> skipRawJSONSpace data i = length data"
  using skip_ws[of "drop i data" data i "length data"] by (simp add: spans_def skip_stop)

lemma scanner_end: "scannerAt d s [] j \<Longrightarrow> \<exists>s'. objectScannerNext s = Some (s', None)"
  using membersAt_end[of d "osData s" "osPos s" "osFirst s" j] skip_to_end[of "j + 1" "osData s"]
  by (auto simp: scannerAt_def objectScannerNext_def Let_def)

lemma scanner_member:
  assumes "scannerAt d s (r # ms) j"
  shows "(if plainKey r
     then \<exists>start e. objectScannerNext s =
            Some (s\<lparr>osPos := e, osFirst := False\<rparr>, Some (memberName r, start, e)) \<and>
          spans (osData s) start e (rmValue r) \<and> scannerAt d (s\<lparr>osPos := e, osFirst := False\<rparr>) ms j \<and>
          spans (osData s) e j (rmAfter r @ memberList False ms)
     else objectScannerNext s = None)"
proof -
  have s: "\<not> osDone s" "\<not> osStrict s" "ws (drop (j + 1) (osData s))"
    and m: "membersAt d (osData s) (osPos s) (osFirst s) (r # ms) j"
    using assms by (auto simp: scannerAt_def)
  obtain p start e where n: "skipRawJSONSpace (osData s) (osPos s) < length (osData s)"
    "osData s ! skipRawJSONSpace (osData s) (osPos s) \<noteq> CHR ''}''"
    "memberStart (osData s) (skipRawJSONSpace (osData s) (osPos s)) (osFirst s) = Some p"
    "memberKey False (osData s) p = (if plainKey r then Some (memberName r, start) else None)"
    "spans (osData s) start e (rmValue r)" "stops (osData s) e" "membersAt d (osData s) e False ms j"
    "value_text d (rmValue r)" "utf8Valid (rmValue r)"
    "spans (osData s) e j (rmAfter r @ memberList False ms)"
    using membersAt_next[OF m] by metis
  have v: "skipRawJSONValue (osData s) start = Some e" by (rule lax_value_end[OF n(8,9,5,6)])
  show ?thesis
    using s n v by (auto simp: objectScannerNext_def Let_def scannerAt_def)
qed

lemma slice_spans: "spans data i j t \<Longrightarrow> byteSlice data i j = t"
  by (rule spans_slice)

fun pickMember :: "string \<Rightarrow> bool \<Rightarrow> rawMember list \<Rightarrow> string option \<Rightarrow> string option" where
  "pickMember field lastMatch [] raw = raw"
| "pickMember field lastMatch (r # ms) raw =
     (if memberName r \<noteq> field then pickMember field lastMatch ms raw
      else if lastMatch then pickMember field lastMatch ms (Some (rmValue r)) else Some (rmValue r))"

lemma extractLoop_members:
  "scannerAt d s ms j \<Longrightarrow> list_all plainKey ms \<Longrightarrow>
   extractLoop field lastMatch s raw = Some (pickMember field lastMatch ms raw)"
proof (induction ms arbitrary: s raw)
  case Nil
  then show ?case using scanner_end by (subst extractLoop.simps) fastforce
next
  case (Cons r ms)
  then obtain start e where n: "objectScannerNext s =
        Some (s\<lparr>osPos := e, osFirst := False\<rparr>, Some (memberName r, start, e))"
      "spans (osData s) start e (rmValue r)" "scannerAt d (s\<lparr>osPos := e, osFirst := False\<rparr>) ms j"
    using scanner_member[of d s r ms j] by auto
  show ?case
    using n(1) Cons.IH[OF n(3)] Cons.prems(2) slice_spans[OF n(2)]
    by (subst extractLoop.simps) (cases lastMatch; simp add: rawJSONKeyEqual_def)
qed

definition memberMap :: "rawMember list \<Rightarrow> (string \<times> string) list" where
  "memberMap ms = map (\<lambda>r. (memberName r, rmValue r)) ms"

lemma pick_last: "pickMember field True ms raw =
    (case map_of (rev (memberMap ms)) field of None \<Rightarrow> raw | Some t \<Rightarrow> Some t)"
  by (induction ms arbitrary: raw) (auto simp: memberMap_def map_add_def split: option.splits)

lemma pick_first: "pickMember field False ms raw =
    (case map_of (memberMap ms) field of None \<Rightarrow> raw | Some t \<Rightarrow> Some t)"
  by (induction ms arbitrary: raw) (auto simp: memberMap_def)

section \<open>Trimming a value changes nothing\<close>

definition solid :: "char \<Rightarrow> bool" where
  "solid c \<longleftrightarrow> c < CHR 0x80 \<and> \<not> asciiSpace c"

lemma solid_not:
  assumes "solid c"
  shows "c \<noteq> CHR 0xC2" "c \<noteq> CHR 0xE1" "c \<noteq> CHR 0xE2" "c \<noteq> CHR 0xE3" "c \<noteq> CHR 0x80" "c \<noteq> CHR 0x85"
    "c \<noteq> CHR 0xA0" "c \<noteq> CHR 0xA8" "c \<noteq> CHR 0xA9" "c \<noteq> CHR 0xAF" "c \<noteq> CHR 0x9F" "\<not> 0x80 \<le> (of_char c :: nat)"
    "\<not> asciiSpace c"
proof -
  have lt: "(of_char c :: nat) < 0x80" using assms by (simp add: solid_def less_char_def)
  then show "\<not> 0x80 \<le> (of_char c :: nat)" by simp
  show "c \<noteq> CHR 0xC2" "c \<noteq> CHR 0xE1" "c \<noteq> CHR 0xE2" "c \<noteq> CHR 0xE3" "c \<noteq> CHR 0x80" "c \<noteq> CHR 0x85"
    "c \<noteq> CHR 0xA0" "c \<noteq> CHR 0xA8" "c \<noteq> CHR 0xA9" "c \<noteq> CHR 0xAF" "c \<noteq> CHR 0x9F"
    using lt by (intro notI, simp)+
  show "\<not> asciiSpace c" using assms by (simp add: solid_def)
qed

lemma solid_lead: "solid a \<Longrightarrow> leadingSpace (a # s) = 0"
  using solid_not[of a] by (simp add: spaceRune3_def split: list.split)

lemma solid_trail: "solid c \<Longrightarrow> trailingSpaceRev (c # s) = 0"
  using solid_not[of c] by (simp add: spaceRune3_def split: list.split)

lemma trimSpace_solid: "solid (hd t) \<Longrightarrow> solid (last t) \<Longrightarrow> t \<noteq> [] \<Longrightarrow> trimSpace t = t"
proof -
  assume a: "solid (hd t)" "solid (last t)" "t \<noteq> []"
  have "leadingSpace t = 0" using solid_lead[OF a(1), of "tl t"] a(3) by (metis list.collapse)
  then have l: "trimWith leadingSpace t = t" by (simp add: trimWith.simps[of _ t])
  have "rev t = last t # rev (butlast t)" using a(3) by (metis append_butlast_last_id rev.simps(2) rev_rev_ident rev_append singleton_rev_conv append_Cons append_Nil)
  then have "trailingSpaceRev (rev t) = 0" using solid_trail[OF a(2)] by metis
  then have "trimWith trailingSpaceRev (rev t) = rev t" by (simp add: trimWith.simps[of _ "rev t"])
  then show ?thesis by (simp add: trimSpace_def l)
qed

lemma digit_solid: "isDigitByte c \<Longrightarrow> solid c"
  by (auto simp: solid_def asciiSpace_def byteIn_def less_eq_char_def less_char_def)

lemma digits_last: "digits1 ds \<Longrightarrow> isDigitByte (last ds) \<and> ds \<noteq> []"
  by (auto simp: digits1_def list_all_iff)

lemma number_ends: "number_text t \<Longrightarrow> solid (hd t) \<and> solid (last t) \<and> t \<noteq> []"
proof -
  assume n: "number_text t"
  then obtain m i f e where t: "t = m @ i @ f @ e" "m \<in> {'''', ''-''}" "int_part i" "frac_part f" "exp_part e"
    by (auto simp: number_text_def)
  have mi: "solid (CHR ''-'')" by (simp add: solid_def asciiSpace_def less_char_def)
  obtain c cs where c: "t = c # cs" "c = CHR ''-'' \<or> isDigitByte c" using number_first[OF n] by blast
  then have h: "solid (hd t)" using mi digit_solid by auto
  have i: "i \<noteq> []" "isDigitByte (last i)" using t(3) digit0 digit19
    by (auto simp: int_part_def list_all_iff)
  have "isDigitByte (last t)"
  proof (cases "e = []")
    case False
    then obtain x sg ds where "e = x # sg @ ds" "digits1 ds" using t(5) by (auto simp: exp_part_def)
    then show ?thesis using digits_last[of ds] t(1) by (auto simp: last_append)
  next
    case e: True
    show ?thesis
    proof (cases "f = []")
      case True with e i t(1) show ?thesis by simp
    next
      case False
      then obtain ds where "f = CHR ''.'' # ds" "digits1 ds" using t(4) by (auto simp: frac_part_def)
      then show ?thesis using digits_last[of ds] t(1) e by (auto simp: last_append)
    qed
  qed
  then show ?thesis using h digit_solid c(1) by auto
qed

lemma value_ends: "value_text d t \<Longrightarrow> solid (hd t) \<and> solid (last t) \<and> t \<noteq> []"
proof (erule value_text.cases, goal_cases)
  case 2 then show ?case using number_ends by simp
qed (auto simp: string_text_def solid_def asciiSpace_def less_char_def last_append)

lemma trim_value: "value_text d t \<Longrightarrow> trimSpace t = t"
  using value_ends trimSpace_solid by blast


section \<open>Objects as texts\<close>

definition objectText :: "string \<Rightarrow> string \<Rightarrow> rawMember list \<Rightarrow> string \<Rightarrow> string" where
  "objectText w0 inner ms w1 =
     w0 @ ''{'' @ (if ms = [] then inner else joined (map memberText ms)) @ ''}'' @ w1"

definition objectOk :: "nat \<Rightarrow> string \<Rightarrow> string \<Rightarrow> rawMember list \<Rightarrow> string \<Rightarrow> bool" where
  "objectOk d w0 inner ms w1 \<longleftrightarrow> ws w0 \<and> ws inner \<and> ws w1 \<and> list_all (memberOk d) ms \<and>
     utf8Valid (objectText w0 inner ms w1)"

lemma utf8_joined: "utf8Valid (joined ts) \<Longrightarrow> list_all utf8Valid ts"
proof (induction ts rule: joined.induct)
  case (3 x y xs)
  then show ?case using utf8_split[of "CHR '',''" x "joined (y # xs)"] by simp
qed simp_all

lemma objectOk_parts:
  assumes "objectOk d w0 inner ms w1"
  shows "utf8Valid (if ms = [] then inner else joined (map memberText ms))"
    and "list_all (\<lambda>r. utf8Valid (memberText r)) ms"
proof -
  let ?m = "if ms = [] then inner else joined (map memberText ms)"
  have "utf8Valid (w0 @ ''{'' @ ?m @ ''}'' @ w1)" "ws w0"
    using assms by (auto simp: objectOk_def objectText_def)
  then have "utf8Valid (?m @ CHR ''}'' # w1)"
    using utf8_cancel[OF utf8_ws[of w0]] by (simp add: utf8_Cons_ascii)
  then show u: "utf8Valid ?m" using utf8_split[of "CHR ''}''" ?m w1] by simp
  show "list_all (\<lambda>r. utf8Valid (memberText r)) ms"
    using u utf8_joined[of "map memberText ms"] by (cases "ms = []") (simp_all add: list_all_iff)
qed

text \<open>An object at position \<open>i\<close> of the data: its brace, its members and its end.\<close>

lemma object_positions:
  assumes "objectOk d w0 inner ms w1" "spans data i e (objectText w0 inner ms w1)"
  obtains p j where "skipRawJSONSpace data i = p" "p < length data" "data ! p = CHR ''{''"
    "membersAt d data (p + 1) True ms j" "spans data (j + 1) e w1" "i \<le> p"
proof -
  let ?m = "if ms = [] then inner else joined (map memberText ms)"
  define p where "p = i + length w0" define j where "j = p + 1 + length ?m"
  have w: "ws w0" "ws inner" "ws w1" "list_all (memberOk d) ms" using assms(1) by (auto simp: objectOk_def)
  have "spans data i e (w0 @ CHR ''{'' # (?m @ CHR ''}'' # w1))" using assms(2) by (simp add: objectText_def)
  from spans_snoc_cut[OF this] have a: "spans data i p w0" "p < length data" "data ! p = CHR ''{''"
      "spans data (p + 1) e (?m @ CHR ''}'' # w1)" unfolding p_def by auto
  from spans_snoc_cut[OF a(4)] have b: "spans data (p + 1) j ?m" "j < length data" "data ! j = CHR ''}''"
      "spans data (j + 1) e w1" unfolding j_def by auto
  have s: "skipRawJSONSpace data i = p"
    using skip_ws[OF w(1) a(1)] skip_stop[of p data] a(3) by (simp add: isRouteAttemptJSONSpace_def)
  have "\<exists>w. ws w \<and> spans data (p + 1) j (w @ memberList True ms)"
  proof (cases "ms = []")
    case True with b(1) w(2) show ?thesis by (intro exI[of _ inner]) (simp add: memberList_def)
  next
    case False with b(1) show ?thesis by (intro exI[of _ "[]"]) (simp add: memberList_def)
  qed
  then have m: "membersAt d data (p + 1) True ms j"
    using b(2,3) w(4) objectOk_parts(2)[OF assms(1)] by (simp add: membersAt_def)
  show ?thesis by (rule that[OF s a(2,3) m b(4)]) (simp add: p_def)
qed

lemma spans_all: "spans t 0 (length t) t"
  by (simp add: spans_def)

lemma scanner_start:
  assumes "objectOk d w0 inner ms w1"
  shows "\<exists>s j. newRawJSONObjectScanner (objectText w0 inner ms w1) = Some s \<and> scannerAt d s ms j \<and>
    osData s = objectText w0 inner ms w1 \<and>
    spans (objectText w0 inner ms w1) (j + 1) (length (objectText w0 inner ms w1)) w1"
proof -
  let ?b = "objectText w0 inner ms w1"
  obtain p j where o: "skipRawJSONSpace ?b 0 = p" "p < length ?b" "?b ! p = CHR ''{''"
    "membersAt d ?b (p + 1) True ms j" "spans ?b (j + 1) (length ?b) w1"
    using object_positions[OF assms spans_all] by metis
  have w1: "ws (drop (j + 1) ?b)" using spans_drop[OF o(5)] assms by (simp add: objectOk_def)
  have n: "newRawJSONObjectScanner ?b =
      Some \<lparr>osData = ?b, osPos = p + 1, osFirst = True, osDone = False, osStrict = False\<rparr>"
    using o(2,3) by (simp add: newRawJSONObjectScanner_def o(1))
  show ?thesis
    by (intro exI conjI, rule n) (use o(4,5) w1 in \<open>simp_all add: scannerAt_def\<close>)
qed

definition stringContent :: "(string \<Rightarrow> string option) \<Rightarrow> string \<Rightarrow> string" where
  "stringContent unmarshalString t =
     (if hd t \<noteq> CHR 0x22 then ''''
      else if backslash \<in> set t then (case unmarshalString t of None \<Rightarrow> '''' | Some v \<Rightarrow> trimSpace v)
      else trimSpace (butlast (tl t)))"

lemma value_utf8_mem:
  assumes "list_all (memberOk d) ms" "list_all (\<lambda>r. utf8Valid (memberText r)) ms" "(k, t) \<in> set (memberMap ms)"
  shows "value_text d t \<and> utf8Valid t"
  using assms utf8_member by (auto simp: memberMap_def list_all_iff memberOk_def)

lemma quoted_value: "value_text d t \<Longrightarrow> hd t = CHR 0x22 \<Longrightarrow> string_text t"
  by (erule value_text.cases) (auto dest: number_first simp: byteIn_def less_eq_char_def)

text \<open>In a JSON object whose names have no escapes, the fast extraction reads the first or the
  last member of the given name, as asked for, and says that it is sure: a string member gives
  its content without surrounding white space, any other member an empty string.\<close>

theorem extracted_string_is_member:
  assumes "objectOk d w0 inner ms w1" "list_all plainKey ms"
  shows "extractTopLevelJSONStringFastValidated u (objectText w0 inner ms w1) field lastMatch =
    (case map_of (if lastMatch then rev (memberMap ms) else memberMap ms) field of
       None \<Rightarrow> ('''', False, True)
     | Some t \<Rightarrow> (stringContent u t, True, True))"
proof -
  let ?b = "objectText w0 inner ms w1"
  let ?r = "map_of (if lastMatch then rev (memberMap ms) else memberMap ms) field"
  obtain s j where s: "newRawJSONObjectScanner ?b = Some s" "scannerAt d s ms j"
    using scanner_start[OF assms(1)] by blast
  have l: "extractLoop field lastMatch s None = Some ?r"
    using extractLoop_members[OF s(2) assms(2), of field lastMatch None] pick_last[of field ms None]
      pick_first[of field ms None] by (cases lastMatch) (auto split: option.splits)
  show ?thesis
  proof (cases ?r)
    case None
    then show ?thesis using s(1) l by (simp add: extractTopLevelJSONStringFastValidated_def)
  next
    case (Some t)
    then have "(field, t) \<in> set (memberMap ms)"
      by (auto dest!: map_of_SomeD split: if_splits)
    with value_utf8_mem[of d ms field t] assms(1) objectOk_parts(2)[OF assms(1)]
    have t: "value_text d t" "utf8Valid t" by (auto simp: objectOk_def)
    note tr = trim_value[OF t(1)]
    have "extractTopLevelJSONStringFastValidated u ?b field lastMatch = (stringContent u t, True, True)"
    proof (cases "hd t = CHR 0x22")
      case False
      then have "scanRawJSONString t 0 = None" using value_ends[OF t(1)]
        by (simp add: scanRawJSONString_def hd_conv_nth)
      then show ?thesis using s(1) l Some False tr
        by (simp add: extractTopLevelJSONStringFastValidated_def stringContent_def)
    next
      case True
      note k = key_text[OF quoted_value[OF t(1) True] t(2) spans_all]
      show ?thesis using s(1) l Some True tr k(2,3)
        by (simp add: extractTopLevelJSONStringFastValidated_def stringContent_def split: option.splits)
    qed
    with Some show ?thesis by simp
  qed
qed


section \<open>Replacing one member\<close>









section \<open>The single walk: both modes agree on JSON\<close>

definition cursorAt :: "nat \<Rightarrow> rawJSONObjectCursor \<Rightarrow> rawMember list \<Rightarrow> nat \<Rightarrow> bool" where
  "cursorAt d s ms j \<longleftrightarrow> \<not> ocDone s \<and> membersAt d (ocData s) (ocPos s) (ocFirst s) ms j"

lemma cursor_end:
  "cursorAt d s [] j \<Longrightarrow> \<exists>s'. objectCursorNext s = Some (s', None) \<and> ocPos s' = j + 1"
  using membersAt_end[of d "ocData s" "ocPos s" "ocFirst s" j]
  by (auto simp: cursorAt_def objectCursorNext_def Let_def)

lemma cursor_member:
  assumes "cursorAt d s (r # ms) j"
  shows "(if plainKey r
     then \<exists>start e. (\<forall>b. objectCursorNext (s\<lparr>ocStrict := b\<rparr>) = Some (s\<lparr>ocStrict := b\<rparr>, Some (memberName r, start))) \<and>
          spans (ocData s) start e (rmValue r) \<and> stops (ocData s) e \<and>
          value_text d (rmValue r) \<and> utf8Valid (rmValue r) \<and>
          (\<forall>b. objectCursorAdvance e (s\<lparr>ocStrict := b\<rparr>) = Some (s\<lparr>ocPos := e, ocFirst := False, ocStrict := b\<rparr>)) \<and>
          cursorAt d (s\<lparr>ocPos := e, ocFirst := False\<rparr>) ms j
     else (\<forall>b. objectCursorNext (s\<lparr>ocStrict := b\<rparr>) = None))"
proof -
  have s: "\<not> ocDone s" and m: "membersAt d (ocData s) (ocPos s) (ocFirst s) (r # ms) j"
    using assms by (auto simp: cursorAt_def)
  obtain p start e where n: "skipRawJSONSpace (ocData s) (ocPos s) < length (ocData s)"
    "ocData s ! skipRawJSONSpace (ocData s) (ocPos s) \<noteq> CHR ''}''"
    "memberStart (ocData s) (skipRawJSONSpace (ocData s) (ocPos s)) (ocFirst s) = Some p"
    "\<forall>strict. memberKey strict (ocData s) p = (if plainKey r then Some (memberName r, start) else None)"
    "spans (ocData s) start e (rmValue r)" "stops (ocData s) e" "membersAt d (ocData s) e False ms j"
    "value_text d (rmValue r)" "utf8Valid (rmValue r)" "ocPos s < start"
    using membersAt_next[OF m] by metis
  have a: "objectCursorAdvance e (s\<lparr>ocStrict := b\<rparr>) = Some (s\<lparr>ocPos := e, ocFirst := False, ocStrict := b\<rparr>)" for b
    using s n(10) spans_length[OF n(5)] by (simp add: objectCursorAdvance_def)
  show ?thesis using s n(1-9) a by (auto simp: objectCursorNext_def Let_def cursorAt_def)
qed

definition alike :: "nat \<Rightarrow> (nat \<times> 'f) option \<Rightarrow> (nat \<times> 'f) option \<Rightarrow> bool" where
  "alike e a b \<longleftrightarrow> a = b \<and> (\<forall>e' f'. b = Some (e', f') \<longrightarrow> e' = e)"

lemma alike_None [simp]: "alike e None None"
  by (simp add: alike_def)

lemma alike_if: "(c \<Longrightarrow> alike e a b) \<Longrightarrow> (\<not> c \<Longrightarrow> alike e a' b') \<Longrightarrow>
    alike e (if c then a else a') (if c then b else b')"
  by simp

definition endsAlike :: "nat \<Rightarrow> ('r \<times> nat) option \<Rightarrow> ('r \<times> nat) option \<Rightarrow> bool" where
  "endsAlike e a b \<longleftrightarrow> a = b \<and> (\<forall>r e'. b = Some (r, e') \<longrightarrow> e' = e)"

text \<open>Two member functions agree when they give the same result on every value of the object, and
  end where the value ends.\<close>

definition agreeAt ::
  "nat \<Rightarrow> string \<Rightarrow> (string \<Rightarrow> string \<Rightarrow> nat \<Rightarrow> 'f \<Rightarrow> (nat \<times> 'f) option) \<Rightarrow>
   (string \<Rightarrow> string \<Rightarrow> nat \<Rightarrow> 'f \<Rightarrow> (nat \<times> 'f) option) \<Rightarrow> bool" where
  "agreeAt d data m1 m2 \<longleftrightarrow>
     (\<forall>key start f e t. value_text d t \<longrightarrow> utf8Valid t \<longrightarrow> spans data start e t \<longrightarrow> stops data e \<longrightarrow>
        alike e (m1 data key start f) (m2 data key start f))"

lemma walk_agree:
  assumes "agreeAt d data m1 m2"
  shows "cursorAt d s ms j \<Longrightarrow> ocData s = data \<Longrightarrow>
    objectWalk m1 fin (s\<lparr>ocStrict := a\<rparr>) f = objectWalk m2 fin (s\<lparr>ocStrict := b\<rparr>) f \<and>
    (\<forall>r e. objectWalk m2 fin (s\<lparr>ocStrict := b\<rparr>) f = Some (r, e) \<longrightarrow> e = j + 1)"
proof (induction ms arbitrary: s f)
  case Nil
  have c: "cursorAt d (s\<lparr>ocStrict := b\<rparr>) [] j" for b using Nil.prems(1) by (simp add: cursorAt_def)
  obtain s1 s2 where "objectCursorNext (s\<lparr>ocStrict := a\<rparr>) = Some (s1, None)" "ocPos s1 = j + 1"
      "objectCursorNext (s\<lparr>ocStrict := b\<rparr>) = Some (s2, None)" "ocPos s2 = j + 1"
    using cursor_end[OF c] by meson
  then show ?case
    by (simp add: objectWalk.simps[of _ _ "s\<lparr>ocStrict := a\<rparr>"] objectWalk.simps[of _ _ "s\<lparr>ocStrict := b\<rparr>"])
next
  case (Cons r ms)
  show ?case
  proof (cases "plainKey r")
    case False
    then show ?thesis using cursor_member[OF Cons.prems(1)]
      by (simp add: objectWalk.simps[of _ _ "s\<lparr>ocStrict := a\<rparr>"] objectWalk.simps[of _ _ "s\<lparr>ocStrict := b\<rparr>"])
  next
    case True
    obtain start e where n: "\<And>b. objectCursorNext (s\<lparr>ocStrict := b\<rparr>) = Some (s\<lparr>ocStrict := b\<rparr>, Some (memberName r, start))"
        "spans (ocData s) start e (rmValue r)" "stops (ocData s) e"
        "value_text d (rmValue r)" "utf8Valid (rmValue r)"
        "\<And>b. objectCursorAdvance e (s\<lparr>ocStrict := b\<rparr>) = Some (s\<lparr>ocPos := e, ocFirst := False, ocStrict := b\<rparr>)"
        "cursorAt d (s\<lparr>ocPos := e, ocFirst := False\<rparr>) ms j"
      using cursor_member[OF Cons.prems(1)] True by auto
    have m: "m1 data (memberName r) start f = m2 data (memberName r) start f"
        "\<And>e' f'. m2 data (memberName r) start f = Some (e', f') \<Longrightarrow> e' = e"
      using assms n(2-5) Cons.prems(2) unfolding agreeAt_def alike_def by blast+
    show ?thesis
    proof (cases "m2 data (memberName r) start f")
      case None
      then show ?thesis using n(1) m(1) Cons.prems(2)
        by (simp add: objectWalk.simps[of _ _ "s\<lparr>ocStrict := a\<rparr>"] objectWalk.simps[of _ _ "s\<lparr>ocStrict := b\<rparr>"])
    next
      case (Some x)
      then obtain f' where x: "m2 data (memberName r) start f = Some (e, f')" using m(2) by (cases x) auto
      have step: "objectWalk m1 fin (s\<lparr>ocStrict := a\<rparr>) f =
            objectWalk m1 fin ((s\<lparr>ocPos := e, ocFirst := False\<rparr>)\<lparr>ocStrict := a\<rparr>) f'"
          "objectWalk m2 fin (s\<lparr>ocStrict := b\<rparr>) f =
            objectWalk m2 fin ((s\<lparr>ocPos := e, ocFirst := False\<rparr>)\<lparr>ocStrict := b\<rparr>) f'"
        using n(1,6) m(1) x Cons.prems(2)
        by (simp_all add: objectWalk.simps[of _ _ "s\<lparr>ocStrict := a\<rparr>"] objectWalk.simps[of _ _ "s\<lparr>ocStrict := b\<rparr>"])
      show ?thesis unfolding step by (rule Cons.IH[OF n(7)]) (simp add: Cons.prems(2))
    qed
  qed
qed

abbreviation strictWalk :: "nat \<Rightarrow> rawJSONSingleWalkMode" where
  "strictWalk k \<equiv> \<lparr>wmStrict = True, wmDepth = k\<rparr>"

abbreviation laxWalk :: "nat \<Rightarrow> rawJSONSingleWalkMode" where
  "laxWalk k \<equiv> \<lparr>wmStrict = False, wmDepth = k\<rparr>"

lemma checked_agree:
  assumes "d + k \<le> 64" "value_text d t" "utf8Valid t" "spans data start e t" "stops data e"
  shows "alike e (checkedMember (strictWalk k) data start test) (checkedMember (laxWalk k') data start test)"
  using strict_value_scanned[OF assms(2-5,1), of "[]" start] spans_length[OF assms(4)]
  by (simp add: checkedMember_def walkValueEnd_def alike_def)

text \<open>The value of an inspected object: nothing but an object is accepted, and the inspection is a
  walk over its members.\<close>

lemma value_object:
  assumes "value_text d t" "hd t = CHR ''{''"
  obtains d' inner ms where "d = Suc d'" "t = objectText '''' inner ms ''''" "ws inner" "list_all (memberOk d') ms"
  using assms(1)
proof cases
  case v_literal with assms(2) show ?thesis by auto
next
  case v_number
  with assms(2) number_first[of t] show ?thesis by (auto simp: byteIn_def less_eq_char_def)
next
  case v_string with assms(2) show ?thesis by (auto simp: string_text_def)
next
  case (v_object0 w d')
  show ?thesis by (rule that[of d' w "[]"]) (use v_object0 in \<open>simp_all add: objectText_def\<close>)
next
  case (v_object d' m)
  obtain ms where "ms \<noteq> []" "list_all (memberOk d') ms" "m = joined (map memberText ms)"
    using container_parts(2)[OF v_object(3)] by blast
  then show ?thesis using v_object by (intro that[of d' "[]" ms]) (simp_all add: objectText_def)
next
  case v_array0 with assms(2) show ?thesis by auto
next
  case v_array with assms(2) show ?thesis by auto
qed

lemma object_walk_agree:
  assumes "value_text d t" "utf8Valid t" "spans data i e t"
    and m: "\<And>d'. d = Suc d' \<Longrightarrow> agreeAt d' data m1 m2"
  shows "endsAlike e (case walkObject (strictWalk k) data i of None \<Rightarrow> None | Some s \<Rightarrow> objectWalk m1 fin s f)
      (case walkObject (laxWalk k') data i of None \<Rightarrow> None | Some s \<Rightarrow> objectWalk m2 fin s f) \<and>
    (d = 0 \<longrightarrow> walkObject (laxWalk k') data i = None)"
proof -
  obtain c cs where c: "t = c # cs" "\<not> isRouteAttemptJSONSpace c" using raw_value_first[OF assms(1)] by blast
  have i: "i < length data" "data ! i = c" using assms(3) c(1) by (auto simp: spans_Cons)
  have s: "skipRawJSONSpace data i = i" using i c(2) by (intro skip_stop) simp
  show ?thesis
  proof (cases "c = CHR ''{''")
    case False
    then have "walkObject w data i = None" for w using i s by (simp add: walkObject_def newRawJSONObjectCursor_def)
    then show ?thesis by (simp add: endsAlike_def)
  next
    case True
    then obtain d' inner ms where o: "d = Suc d'" "t = objectText '''' inner ms ''''" "ws inner"
        "list_all (memberOk d') ms"
      using value_object[OF assms(1)] c(1) by auto
    have ok: "objectOk d' '''' inner ms ''''" using o assms(2) by (simp add: objectOk_def)
    obtain p j where p: "skipRawJSONSpace data i = p" "membersAt d' data (p + 1) True ms j" "spans data (j + 1) e ''''"
      using object_positions[OF ok assms(3)[unfolded o(2)]] by metis
    let ?c = "\<lparr>ocData = data, ocPos = i + 1, ocFirst = True, ocDone = False, ocStrict = False\<rparr>"
    have cur: "cursorAt d' ?c ms j" using p(1,2) s by (simp add: cursorAt_def)
    have w: "walkObject (strictWalk k) data i = Some (?c\<lparr>ocStrict := True\<rparr>)"
        "walkObject (laxWalk k') data i = Some (?c\<lparr>ocStrict := False\<rparr>)"
      using True i s by (simp_all add: walkObject_def newRawJSONObjectCursor_def)
    have "e = j + 1" using p(3) by simp
    then show ?thesis using walk_agree[OF m[OF o(1)] cur, of fin True f False] o(1)
      unfolding w by (simp add: endsAlike_def)
  qed
qed


lemma walkChild_simps [simp]:
  "walkChild (strictWalk k) = (if 64 \<le> k then None else Some (strictWalk (Suc k)))"
  "walkChild (laxWalk k) = Some (laxWalk (Suc k))"
  by (simp_all add: walkChild_def maxFastRawJSONNestingDepth_def)

text \<open>What an inspector of nested values does in both modes.\<close>

definition inspectsAlike ::
  "nat \<Rightarrow> nat \<Rightarrow> string \<Rightarrow> (string \<Rightarrow> nat \<Rightarrow> rawJSONSingleWalkMode \<Rightarrow> ('r \<times> nat) option) \<Rightarrow> bool" where
  "inspectsAlike d k data inspect \<longleftrightarrow>
     (\<forall>k' t i e. value_text d t \<longrightarrow> utf8Valid t \<longrightarrow> spans data i e t \<longrightarrow> stops data e \<longrightarrow>
        endsAlike e (inspect data i (strictWalk k)) (inspect data i (laxWalk k')) \<and>
        (d = 0 \<longrightarrow> inspect data i (laxWalk k') = None))"

lemma child_agree:
  assumes "d + k \<le> 64" "value_text d t" "utf8Valid t" "spans data i e t" "stops data e"
    and "d + Suc k \<le> 65 \<Longrightarrow> inspectsAlike d (Suc k) data inspect"
  shows "alike e
      (case walkChild (strictWalk k) of None \<Rightarrow> None | Some w \<Rightarrow> map_option (\<lambda>(r, e). (e, g r)) (inspect data i w))
      (case walkChild (laxWalk k') of None \<Rightarrow> None | Some w \<Rightarrow> map_option (\<lambda>(r, e). (e, g r)) (inspect data i w))"
  using assms(1) assms(6)[unfolded inspectsAlike_def, rule_format, OF _ assms(2-5), of "Suc k'"]
  by (auto simp: endsAlike_def alike_def)

text \<open>An object inspector whose members agree.\<close>

lemma object_alike:
  assumes "d + k \<le> 65"
    and "\<And>d' k'. d' + k \<le> 64 \<Longrightarrow> agreeAt d' data (m (strictWalk k)) (m (laxWalk k'))"
    and "\<And>data i w. inspect data i w =
      (case walkObject w data i of None \<Rightarrow> None | Some s \<Rightarrow> objectWalk (m w) fin s f)"
  shows "inspectsAlike d k data inspect"
  unfolding inspectsAlike_def
proof (intro allI impI)
  fix k' t i e assume a: "value_text d t" "utf8Valid t" "spans data i e t"
  have "d = Suc d' \<Longrightarrow> agreeAt d' data (m (strictWalk k)) (m (laxWalk k'))" for d'
    using assms(1,2) by simp
  from object_walk_agree[OF a this, of fin f k k']
  show "endsAlike e (inspect data i (strictWalk k)) (inspect data i (laxWalk k')) \<and>
      (d = 0 \<longrightarrow> inspect data i (laxWalk k') = None)"
    unfolding assms(3) by auto
qed

lemma message_agree:
  "d + k \<le> 64 \<Longrightarrow> agreeAt d data (messageMember (strictWalk k)) (messageMember (laxWalk k'))"
  unfolding agreeAt_def messageMember_def using checked_agree by blast

definition inspectMessage :: "string \<Rightarrow> nat \<Rightarrow> rawJSONSingleWalkMode \<Rightarrow> (unit \<times> nat) option" where
  "inspectMessage data pos walk =
     (case walkObject walk data pos of
        None \<Rightarrow> None
      | Some message \<Rightarrow>
          objectWalk (messageMember walk)
            (\<lambda>(roleOK, contentOK). if \<not> roleOK \<or> \<not> contentOK then None else Some ()) message (False, False))"

lemma inspectMessage: "inspectCanonicalOpenAIChatMessageSingleWalk data pos walk = map_option snd (inspectMessage data pos walk)"
  by (simp add: inspectCanonicalOpenAIChatMessageSingleWalk_def inspectMessage_def split: option.splits)

lemma message_alike: "d + k \<le> 65 \<Longrightarrow> inspectsAlike d k data inspectMessage"
  by (rule object_alike[OF _ message_agree inspectMessage_def])

lemma choice_agree:
  assumes "d + k \<le> 64"
  shows "agreeAt d data (choiceMember (strictWalk k)) (choiceMember (laxWalk k'))"
proof -
  have nested: "map_option (\<lambda>e. (e, fl)) (inspectCanonicalOpenAIChatMessageSingleWalk data i w) =
      map_option (\<lambda>(r, e). (e, fl)) (inspectMessage data i w)" for fl :: choiceFlags and i w
    by (cases "inspectMessage data i w") (auto simp: inspectMessage)
  show ?thesis
    unfolding agreeAt_def
  proof (intro allI impI)
    fix key start e t and f :: choiceFlags
    assume v: "value_text d t" "utf8Valid t" "spans data start e t" "stops data e"
    obtain x y z where f: "f = (x, y, z)" by (cases f)
    show "alike e (choiceMember (strictWalk k) data key start f) (choiceMember (laxWalk k') data key start f)"
      unfolding choiceMember_def nested f prod.case
      by (intro alike_if checked_agree[OF assms v] child_agree[OF assms v message_alike] alike_None)
  qed
qed

definition inspectChoice :: "string \<Rightarrow> nat \<Rightarrow> rawJSONSingleWalkMode \<Rightarrow> (unit \<times> nat) option" where
  "inspectChoice data pos walk =
     (case walkObject walk data pos of
        None \<Rightarrow> None
      | Some choice \<Rightarrow>
          objectWalk (choiceMember walk)
            (\<lambda>(indexOK, finishOK, messageOK).
               if \<not> indexOK \<or> \<not> finishOK \<or> \<not> messageOK then None else Some ()) choice (False, False, False))"

lemma inspectChoice: "inspectCanonicalOpenAIChatChoiceSingleWalk data pos walk = map_option snd (inspectChoice data pos walk)"
  by (simp add: inspectCanonicalOpenAIChatChoiceSingleWalk_def inspectChoice_def split: option.splits)

lemma choice_alike: "d + k \<le> 65 \<Longrightarrow> inspectsAlike d k data inspectChoice"
  by (rule object_alike[OF _ choice_agree inspectChoice_def])

lemma usage_agree:
  "d + k \<le> 64 \<Longrightarrow> agreeAt d data (usageMember (strictWalk k)) (usageMember (laxWalk k'))"
  unfolding agreeAt_def usageMember_def using checked_agree by blast

lemma usage_alike: "d + k \<le> 65 \<Longrightarrow> inspectsAlike d k data inspectCanonicalOpenAIUsageSingleWalk"
  by (rule object_alike[OF _ usage_agree inspectCanonicalOpenAIUsageSingleWalk_def])


section \<open>Arrays of choices\<close>

definition elementList :: "bool \<Rightarrow> rawElement list \<Rightarrow> string" where
  "elementList first es = (if es = [] then '''' else (if first then '''' else '','') @ joined (map elementText es))"

lemma elementList_Cons:
  "elementList first (r # es) = (if first then '''' else '','') @ elementText r @ elementList False es"
  by (cases es) (auto simp: elementList_def)

definition elementsAt :: "nat \<Rightarrow> string \<Rightarrow> nat \<Rightarrow> bool \<Rightarrow> rawElement list \<Rightarrow> nat \<Rightarrow> bool" where
  "elementsAt d data i first es j \<longleftrightarrow>
     (\<exists>w. ws w \<and> spans data i j (w @ elementList first es)) \<and> j < length data \<and> data ! j = CHR '']'' \<and>
     list_all (elementOk d) es \<and> list_all (\<lambda>r. utf8Valid (elementText r)) es"

definition arrayAt :: "nat \<Rightarrow> rawJSONArrayCursor \<Rightarrow> rawElement list \<Rightarrow> nat \<Rightarrow> bool" where
  "arrayAt d s es j \<longleftrightarrow> \<not> acDone s \<and> elementsAt d (acData s) (acPos s) (acFirst s) es j"

lemma array_end: "arrayAt d s [] j \<Longrightarrow> \<exists>s'. arrayCursorNext s = Some (s', None) \<and> acPos s' = j + 1"
  using skip_ws[of _ "acData s" "acPos s" j] skip_stop[of j "acData s"]
  by (auto simp: arrayAt_def elementsAt_def elementList_def arrayCursorNext_def Let_def isRouteAttemptJSONSpace_def)

lemma array_element:
  assumes "arrayAt d s (r # es) j"
  obtains v e where "arrayCursorNext s = Some (s, Some v)" "spans (acData s) v e (reValue r)" "stops (acData s) e"
    "value_text d (reValue r)" "utf8Valid (reValue r)"
    "arrayCursorAdvance e s = Some (s\<lparr>acPos := e, acFirst := False\<rparr>)"
    "arrayAt d (s\<lparr>acPos := e, acFirst := False\<rparr>) es j"
proof -
  define data where "data = acData s" define i where "i = acPos s" define first where "first = acFirst s"
  let ?pre = "if first then '''' else '',''"
  obtain w where w: "ws w" "spans data i j (w @ ?pre @ elementText r @ elementList False es)"
      and j: "j < length data" "data ! j = CHR '']''" and ok: "elementOk d r" "list_all (elementOk d) es"
      and u: "utf8Valid (elementText r)" "list_all (\<lambda>r. utf8Valid (elementText r)) es" and nd: "\<not> acDone s"
    using assms unfolding arrayAt_def elementsAt_def elementList_Cons data_def i_def first_def by auto
  define i1 where "i1 = i + length w" define i2 where "i2 = i1 + length ?pre"
  define v where "v = i2 + length (reBefore r)" define e where "e = v + length (reValue r)"
  define m where "m = e + length (reAfter r)"
  have sp: "spans data i i1 w" "spans data i1 i2 ?pre" "spans data i2 v (reBefore r)" "spans data v e (reValue r)"
      "spans data e m (reAfter r)" "spans data m j (elementList False es)"
    using w(2) unfolding i1_def i2_def v_def e_def m_def elementText_def by (simp_all add: spans_append add.assoc)
  have ww: "ws (reBefore r)" "ws (reAfter r)" "value_text d (reValue r)" using ok by (auto simp: elementOk_def)
  have uv: "utf8Valid (reValue r)" using u(1) utf8_element[OF ok(1)] by simp
  obtain x xs where x: "reValue r = x # xs" "\<not> isRouteAttemptJSONSpace x" using raw_value_first[OF ww(3)] by blast
  have vv: "v < length data" "data ! v = x" using sp(4) unfolding x(1) by (auto simp: spans_Cons)
  have s_v: "skipRawJSONSpace data v = v" using vv x(2) by (intro skip_stop) simp
  have s_i2: "skipRawJSONSpace data i2 = v" using skip_ws[OF ww(1) sp(3)] s_v by simp
  have s_i: "skipRawJSONSpace data i = skipRawJSONSpace data i1" by (rule skip_ws[OF w(1) sp(1)])
  have xb: "x \<noteq> CHR '']''"
    using ww(3) unfolding x(1)
    by cases (auto dest: number_first simp: string_text_def byteIn_def less_eq_char_def)
  have start0: "skipRawJSONSpace data i < length data \<and> data ! skipRawJSONSpace data i \<noteq> CHR '']'' \<and>
      memberStart data (skipRawJSONSpace data i) first = Some v"
  proof (cases first)
    case True
    then have "skipRawJSONSpace data i = v" using sp(2) s_i s_i2 by simp
    with True vv xb show ?thesis by (simp add: memberStart_def)
  next
    case False
    then have "i1 < length data" "data ! i1 = CHR '',''" "i2 = i1 + 1" using sp(2) by (auto simp: spans_Cons)
    moreover from this have "skipRawJSONSpace data i1 = i1" by (intro skip_stop) (simp add: isRouteAttemptJSONSpace_def)
    ultimately show ?thesis using False s_i s_i2 by (simp add: memberStart_def)
  qed
  then have n: "arrayCursorNext s = Some (s, Some v)"
    using nd by (simp add: arrayCursorNext_def Let_def data_def i_def first_def)
  have "i < e"
    using spans_length[OF sp(1)] spans_length[OF sp(2)] spans_length[OF sp(3)] spans_length[OF sp(4)] x(1) by simp
  then have a: "arrayCursorAdvance e s = Some (s\<lparr>acPos := e, acFirst := False\<rparr>)"
    using nd spans_length[OF sp(4)] by (simp add: arrayCursorAdvance_def data_def i_def)
  have st: "stops data m"
    using sp(6) j by (cases es) (auto simp: elementList_Cons spans_Cons stops_def isRouteAttemptJSONValueDelimiter_def
        elementList_def)
  have "arrayAt d (s\<lparr>acPos := e, acFirst := False\<rparr>) es j"
    using spans_join[OF sp(5,6)] ww(2) j ok(2) u(2) nd unfolding arrayAt_def elementsAt_def data_def by auto
  with n a sp(4) stops_ws[OF ww(2) sp(5) st] ww(3) uv show ?thesis using that unfolding data_def by blast
qed

lemma value_array:
  assumes "value_text d t" "hd t = CHR ''[''"
  obtains d' inner es where "d = Suc d'"
    "t = ''['' @ (if es = [] then inner else joined (map elementText es)) @ '']''" "ws inner" "list_all (elementOk d') es"
  using assms(1)
proof cases
  case v_literal with assms(2) show ?thesis by auto
next
  case v_number
  with assms(2) number_first[of t] show ?thesis by (auto simp: byteIn_def less_eq_char_def)
next
  case v_string with assms(2) show ?thesis by (auto simp: string_text_def)
next
  case v_object0 with assms(2) show ?thesis by auto
next
  case v_object with assms(2) show ?thesis by auto
next
  case (v_array0 w d')
  show ?thesis by (rule that[of d' "[]" w]) (use v_array0 in simp_all)
next
  case (v_array d' m)
  obtain es where "es \<noteq> []" "list_all (elementOk d') es" "m = joined (map elementText es)"
    using container_parts(3)[OF v_array(3)] by blast
  then show ?thesis using v_array by (intro that[of d' es "[]"]) simp_all
qed

definition choiceStep :: "rawJSONSingleWalkMode \<Rightarrow> string \<Rightarrow> nat \<Rightarrow> (nat \<times> unit) option" where
  "choiceStep walk data i =
     (case walkChild walk of None \<Rightarrow> None | Some w \<Rightarrow> map_option (\<lambda>(r, e). (e, ())) (inspectChoice data i w))"

lemma choicesLoop_step:
  "arrayCursorNext s = Some (s, Some v) \<Longrightarrow>
   choicesLoop walk s =
     (case choiceStep walk (acData s) v of
        None \<Rightarrow> None
      | Some (e, u) \<Rightarrow> (case arrayCursorAdvance e s of None \<Rightarrow> None | Some s' \<Rightarrow> choicesLoop walk s'))"
  by (subst choicesLoop.simps)
    (auto simp: choiceStep_def inspectChoice split: option.splits)

lemma choicesLoop_agree:
  assumes "d + k \<le> 64"
  shows "arrayAt d s es j \<Longrightarrow>
    choicesLoop (strictWalk k) s = choicesLoop (laxWalk k') s \<and>
    (\<forall>e. choicesLoop (laxWalk k') s = Some e \<longrightarrow> e = j + 1)"
proof (induction es arbitrary: s)
  case Nil
  obtain s' where "arrayCursorNext s = Some (s', None)" "acPos s' = j + 1" using array_end[OF Nil] by blast
  then show ?case by (simp add: choicesLoop.simps[of _ s])
next
  case (Cons r es)
  obtain v e where n: "arrayCursorNext s = Some (s, Some v)" "spans (acData s) v e (reValue r)" "stops (acData s) e"
    "value_text d (reValue r)" "utf8Valid (reValue r)"
    "arrayCursorAdvance e s = Some (s\<lparr>acPos := e, acFirst := False\<rparr>)"
    "arrayAt d (s\<lparr>acPos := e, acFirst := False\<rparr>) es j"
    using array_element[OF Cons.prems] .
  have "alike e (choiceStep (strictWalk k) (acData s) v) (choiceStep (laxWalk k') (acData s) v)"
    unfolding choiceStep_def by (rule child_agree[OF assms n(4,5,2,3) choice_alike])
  then show ?case
    using Cons.IH[OF n(7)] n(6)
    by (auto simp: choicesLoop_step[OF n(1)] alike_def split: option.splits)
qed

definition inspectChoices :: "string \<Rightarrow> nat \<Rightarrow> rawJSONSingleWalkMode \<Rightarrow> (unit \<times> nat) option" where
  "inspectChoices data pos walk = map_option (\<lambda>e. ((), e)) (inspectCanonicalOpenAIChatChoicesSingleWalk data pos walk)"

lemma choices_alike: "d + k \<le> 65 \<Longrightarrow> inspectsAlike d k data inspectChoices"
  unfolding inspectsAlike_def
proof (intro allI impI)
  fix k' t i e assume k: "d + k \<le> 65" and a: "value_text d t" "utf8Valid t" "spans data i e t"
  obtain c cs where c: "t = c # cs" "\<not> isRouteAttemptJSONSpace c" using raw_value_first[OF a(1)] by blast
  have i: "i < length data" "data ! i = c" using a(3) c(1) by (auto simp: spans_Cons)
  have s: "skipRawJSONSpace data i = i" using i c(2) by (intro skip_stop) simp
  show "endsAlike e (inspectChoices data i (strictWalk k)) (inspectChoices data i (laxWalk k')) \<and>
      (d = 0 \<longrightarrow> inspectChoices data i (laxWalk k') = None)"
  proof (cases "c = CHR ''[''")
    case False
    then have "inspectChoices data i w = None" for w
      using i s by (simp add: inspectChoices_def inspectCanonicalOpenAIChatChoicesSingleWalk_def walkArray_def
          newRawJSONArrayCursor_def)
    then show ?thesis by (simp add: endsAlike_def)
  next
    case True
    then have "hd t = CHR ''[''" using c(1) by simp
    then obtain d' inner es where o: "d = Suc d'"
        "t = ''['' @ (if es = [] then inner else joined (map elementText es)) @ '']''" "ws inner"
        "list_all (elementOk d') es"
      by (rule value_array[OF a(1)])
    let ?m = "if es = [] then inner else joined (map elementText es)"
    let ?j = "i + 1 + length ?m"
    have b: "spans data (i + 1) ?j ?m" "?j < length data" "data ! ?j = CHR '']''" "e = ?j + 1"
      using a(3) spans_snoc_cut[of data "i + 1" e ?m "CHR '']''" "[]"] unfolding o(2) by (auto simp: spans_Cons)
    have "utf8Valid ?m" using a(2) utf8_split[of "CHR '']''" ?m "[]"] unfolding o(2) by (simp add: utf8_Cons_ascii)
    then have u: "list_all (\<lambda>r. utf8Valid (elementText r)) es"
      using utf8_joined[of "map elementText es"] by (cases "es = []") (simp_all add: list_all_iff)
    have "\<exists>w. ws w \<and> spans data (i + 1) ?j (w @ elementList True es)"
    proof (cases "es = []")
      case True with b(1) o(3) show ?thesis by (intro exI[of _ inner]) (simp add: elementList_def)
    next
      case False with b(1) show ?thesis by (intro exI[of _ "[]"]) (simp add: elementList_def)
    qed
    then have at: "arrayAt d' \<lparr>acData = data, acPos = i + 1, acFirst = True, acDone = False\<rparr> es ?j"
      using b(2,3) o(4) u by (simp add: arrayAt_def elementsAt_def)
    have "d' + k \<le> 64" using k o(1) by simp
    from choicesLoop_agree[OF this at, of k'] show ?thesis
      using True i s o(1) b(4)
      by (auto simp: inspectChoices_def inspectCanonicalOpenAIChatChoicesSingleWalk_def walkArray_def
          newRawJSONArrayCursor_def endsAlike_def)
  qed
qed

lemma completion_agree:
  assumes "d + k \<le> 64"
  shows "agreeAt d data (completionMember (strictWalk k)) (completionMember (laxWalk k'))"
proof -
  have nested: "map_option (\<lambda>e. (e, g)) (inspectCanonicalOpenAIChatChoicesSingleWalk data i w) =
      map_option (\<lambda>(r, e). (e, g)) (inspectChoices data i w)" for g :: completionFlags and i w
    by (cases "inspectCanonicalOpenAIChatChoicesSingleWalk data i w") (simp_all add: inspectChoices_def)
  show ?thesis
    unfolding agreeAt_def
  proof (intro allI impI)
    fix key start e t and f :: completionFlags
    assume v: "value_text d t" "utf8Valid t" "spans data start e t" "stops data e"
    show "alike e (completionMember (strictWalk k) data key start f) (completionMember (laxWalk k') data key start f)"
      unfolding completionMember_def nested
      by (intro alike_if checked_agree[OF assms v] child_agree[OF assms v choices_alike]
          child_agree[OF assms v usage_alike] alike_None)
  qed
qed


section \<open>The strict walk accepts nothing but JSON\<close>

definition readsValue :: "nat \<Rightarrow> string \<Rightarrow> nat \<Rightarrow> nat \<Rightarrow> bool" where
  "readsValue d data i e \<longleftrightarrow>
     (\<exists>p t. ws (byteSlice data i p) \<and> i \<le> p \<and> spans data p e t \<and> value_text d t \<and> utf8Valid t)"

lemma readsValue_text:
  assumes "readsValue d data i e"
  obtains w t where "spans data i e (w @ t)" "ws w" "value_text d t" "utf8Valid t"
proof -
  obtain p t where p: "ws (byteSlice data i p)" "i \<le> p" "spans data p e t" "value_text d t" "utf8Valid t"
    using assms by (auto simp: readsValue_def)
  have "spans data i p (byteSlice data i p)" using spans_slice_intro[OF p(2)] spans_length[OF p(3)] by simp
  with p show ?thesis using that spans_join by blast
qed

definition memberSound ::
  "nat \<Rightarrow> string \<Rightarrow> (string \<Rightarrow> string \<Rightarrow> nat \<Rightarrow> 'f \<Rightarrow> (nat \<times> 'f) option) \<Rightarrow> bool" where
  "memberSound d data m \<longleftrightarrow>
     (\<forall>key start f e f'. start \<le> length data \<longrightarrow> m data key start f = Some (e, f') \<longrightarrow> readsValue d data start e)"

lemma strict_key_sound:
  assumes "memberKey True data p = Some (key, start)"
  obtains k w2 w3 where "spans data p start (k @ w2 @ '':'' @ w3)" "string_text k" "utf8Valid k" "ws w2" "ws w3"
proof -
  obtain a b q f where k: "scanStrictRawJSONString data p = Some (a, b, q, f)"
    using assms by (auto simp: memberKey_def split: option.splits)
  obtain kt where kt: "spans data p q kt" "string_text kt" "utf8Valid kt" using string_text_sound[OF k] by blast
  let ?c = "skipRawJSONSpace data q"
  have c: "?c < length data" "data ! ?c = CHR '':''" "start = skipRawJSONSpace data (?c + 1)"
    using assms k by (auto simp: memberKey_def Let_def split: if_splits)
  obtain w2 where w2: "ws w2" "spans data q ?c w2" using skip_split[of q data] spans_length[OF kt(1)] by auto
  obtain w3 where w3: "ws w3" "spans data (?c + 1) start w3" using skip_split[of "?c + 1" data] c by auto
  have "spans data ?c (?c + 1) '':''" using c by (simp add: spans_Cons)
  from spans_join[OF kt(1) spans_join[OF w2(2) spans_join[OF this w3(2)]]] kt w2 w3 show ?thesis using that by blast
qed

lemma walk_sound:
  assumes "memberSound d data m"
  shows "objectWalk m fin s f = Some (r, e) \<Longrightarrow> ocData s = data \<Longrightarrow> ocStrict s \<Longrightarrow> \<not> ocDone s \<Longrightarrow>
    ocPos s \<le> length data \<Longrightarrow>
    \<exists>w t. spans data (ocPos s) e (w @ t @ ''}'') \<and> ws w \<and> utf8Valid t \<and>
      (t = '''' \<or> (\<exists>ms. members d ms \<and> t = (if ocFirst s then '''' else '','') @ ms))"
proof (induction "length data - ocPos s" arbitrary: s f rule: less_induct)
  case less
  note run = less.prems(1) and dt = less.prems(2) and st = less.prems(3,4) and le = less.prems(5)
  let ?p = "skipRawJSONSpace data (ocPos s)"
  obtain w where w: "ws w" "spans data (ocPos s) ?p w" using skip_split[OF le] by blast
  obtain s1 x where x: "objectCursorNext s = Some (s1, x)"
    using run by (subst (asm) objectWalk.simps) (auto split: option.splits)
  have pl: "?p < length data" using x st dt by (auto simp: objectCursorNext_def Let_def split: if_splits)
  show ?case
  proof (cases x)
    case None
    have "data ! ?p = CHR ''}'' \<and> ocPos s1 = ?p + 1"
      using x st dt pl unfolding None by (auto simp: objectCursorNext_def Let_def split: if_splits option.splits)
    moreover have "e = ocPos s1" using run x None by (subst (asm) objectWalk.simps) auto
    ultimately have "spans data ?p e ''}''" using pl by (simp add: spans_Cons)
    from spans_join[OF w(2) this] w(1) show ?thesis by (intro exI[of _ w] exI[of _ "''''"]) simp
  next
    case (Some y)
    obtain key start where y: "y = (key, start)" by (cases y)
    have s1: "s1 = s" using cursor_next_keeps x Some by blast
    have q: "data ! ?p \<noteq> CHR ''}''"
        "\<exists>p. memberStart data ?p (ocFirst s) = Some p \<and> memberKey True data p = Some (key, start)"
      using x st dt pl unfolding Some y
      by (auto simp: objectCursorNext_def Let_def split: if_splits option.splits)
    then obtain p where p: "memberStart data ?p (ocFirst s) = Some p" "memberKey True data p = Some (key, start)" by blast
    obtain k w2 w3 where k: "spans data p start (k @ w2 @ '':'' @ w3)" "string_text k" "utf8Valid k" "ws w2" "ws w3"
      using strict_key_sound[OF p(2)] .
    obtain v f' where v: "m data key start f = Some (v, f')"
      using run x dt Some y s1 by (subst (asm) objectWalk.simps) (auto split: option.splits)
    obtain s' where s': "objectCursorAdvance v s = Some s'"
      using run x dt Some y s1 v by (subst (asm) objectWalk.simps) (auto split: option.splits)
    have run': "objectWalk m fin s' f' = Some (r, e)"
      using run x dt Some y s1 v s' by (subst (asm) objectWalk.simps) simp
    have f': "ocData s' = data" "ocStrict s'" "\<not> ocDone s'" "ocPos s' = v" "\<not> ocFirst s'" "v \<le> length data"
      using s' dt st by (auto simp: objectCursorAdvance_def split: if_splits)
    have rv: "readsValue d data start v"
      using assms v spans_length[OF k(1)] unfolding memberSound_def by blast
    obtain w4 t where t: "spans data start v (w4 @ t)" "ws w4" "value_text d t" "utf8Valid t"
      using readsValue_text[OF rv] .
    have "start < v" using t(1) raw_value_first[OF t(3)] spans_length[OF t(1)] by auto
    then have "ocPos s < v"
      using skip_ge[of "ocPos s" data] memberStart_ge[OF p(1)] memberKey_gt[OF p(2)] by linarith
    then have "length data - ocPos s' < length data - ocPos s" using f'(4,6) by linarith
    from less.hyps[OF this run' f'(1-3)] f'(4,6)
    have "\<exists>w t. spans data v e (w @ t @ ''}'') \<and> ws w \<and> utf8Valid t \<and>
        (t = '''' \<or> (\<exists>ms. members d ms \<and> t = (if ocFirst s' then '''' else '','') @ ms))" by simp
    then obtain w5 u where u: "spans data v e (w5 @ u @ ''}'')" "ws w5" "utf8Valid u"
        "u = '''' \<or> (\<exists>ms. members d ms \<and> u = '','' @ ms)"
      using f'(5) by auto
    obtain w1 where w1: "ws w1" "spans data ?p p ((if ocFirst s then '''' else '','') @ w1)"
    proof (cases "ocFirst s")
      case True
      then show ?thesis using p(1) pl that[of "''''"] by (simp add: memberStart_def)
    next
      case False
      then have c: "data ! ?p = CHR '',''" "p = skipRawJSONSpace data (?p + 1)"
        using p(1) by (auto simp: memberStart_def split: if_splits)
      obtain w1 where "ws w1" "spans data (?p + 1) p w1" using skip_split[of "?p + 1" data] pl c(2) by auto
      then show ?thesis using that[of w1] c(1) pl False by (simp add: spans_Cons)
    qed
    define mr where "mr = \<lparr>rmBefore = w1, rmKey = k, rmColon1 = w2, rmColon2 = w3 @ w4, rmValue = t, rmAfter = w5\<rparr>"
    have ok: "memberOk d mr" using w1(1) k t u by (simp add: mr_def memberOk_def)
    have um: "utf8Valid (memberText mr)" using utf8_member[OF ok] k(3) t(4) by (simp add: mr_def)
    have sp: "spans data ?p e ((if ocFirst s then '''' else '','') @ memberText mr @ u @ ''}'')"
      using spans_join[OF w1(2) spans_join[OF k(1) spans_join[OF t(1) u(1)]]]
      by (cases "ocFirst s") (simp_all add: mr_def memberText_def)
    have mem: "\<exists>ms. members d ms \<and> memberText mr @ u = ms"
      using u(4) member_intro[OF ok] members_Cons[OF ok] by fastforce
    have uu: "utf8Valid ((if ocFirst s then '''' else '','') @ memberText mr @ u)"
      using um u(3) by (simp add: utf8_append utf8_Cons_ascii)
    show ?thesis
      using spans_join[OF w(2) sp] w(1) mem uu
      by (intro exI[of _ w] exI[of _ "(if ocFirst s then '''' else '','') @ memberText mr @ u"]) auto
  qed
qed


lemma checked_sound:
  assumes "start \<le> length data" "checkedMember (strictWalk k) data start test = Some (e, f)"
  shows "readsValue (64 - k) data start e"
  using assms strict_sound(1)[OF assms(1)]
  by (auto simp: checkedMember_def walkValueEnd_def readsValue_def split: option.splits)

lemma object_sound:
  assumes "memberSound d data m" "i \<le> length data"
    "(case walkObject (strictWalk k) data i of None \<Rightarrow> None | Some s \<Rightarrow> objectWalk m fin s f) = Some (r, e)"
  shows "readsValue (Suc d) data i e"
proof -
  let ?p = "skipRawJSONSpace data i"
  obtain w0 where w0: "ws w0" "spans data i ?p w0" using skip_split[OF assms(2)] by blast
  obtain s where s: "walkObject (strictWalk k) data i = Some s" "objectWalk m fin s f = Some (r, e)"
    using assms(3) by (auto split: option.splits)
  have p: "?p < length data" "data ! ?p = CHR ''{''" "s = \<lparr>ocData = data, ocPos = ?p + 1, ocFirst = True, ocDone = False, ocStrict = True\<rparr>"
    using s(1) by (auto simp: walkObject_def newRawJSONObjectCursor_def Let_def split: if_splits)
  obtain w t where t: "spans data (?p + 1) e (w @ t @ ''}'')" "ws w" "utf8Valid t"
      "t = '''' \<or> (\<exists>ms. members d ms \<and> t = ms)"
    using walk_sound[OF assms(1) s(2)] p by auto
  have sp: "spans data ?p e (''{'' @ (w @ t) @ ''}'')" using t(1) p by (simp add: spans_Cons)
  have v: "value_text (Suc d) (''{'' @ (w @ t) @ ''}'')"
  proof (cases "t = ''''")
    case True then show ?thesis using v_object0[OF t(2), of d] by simp
  next
    case False
    then have "members d (w @ t)" using t(2,4) members_prefix by blast
    then show ?thesis by (rule v_object)
  qed
  have u: "utf8Valid (''{'' @ (w @ t) @ ''}'')"
    using utf8_ws[OF t(2)] t(3) by (simp add: utf8_append utf8_Cons_ascii)
  show ?thesis
    unfolding readsValue_def using w0 spans_slice[OF w0(2)] skip_ge[of i data] sp v u by metis
qed

lemma child_sound:
  assumes "\<And>e r. k < 64 \<Longrightarrow> inspect data i (strictWalk (Suc k)) = Some (r, e) \<Longrightarrow> readsValue (Suc (64 - Suc k)) data i e"
    and "(case walkChild (strictWalk k) of None \<Rightarrow> None | Some w \<Rightarrow> map_option (\<lambda>(r, e). (e, g r)) (inspect data i w))
      = Some (e, f')"
  shows "readsValue (64 - k) data i e"
proof -
  have k: "k < 64" using assms(2) by (auto split: if_splits)
  then obtain r where "inspect data i (strictWalk (Suc k)) = Some (r, e)" using assms(2) by auto
  moreover have "Suc (64 - Suc k) = 64 - k" using k by simp
  ultimately show ?thesis using assms(1)[OF k] by metis
qed

lemma message_sound: "memberSound (64 - k) data (messageMember (strictWalk k))"
  unfolding memberSound_def messageMember_def by (auto intro: checked_sound)

lemma usage_sound: "memberSound (64 - k) data (usageMember (strictWalk k))"
  unfolding memberSound_def usageMember_def by (auto intro: checked_sound)

lemma if_Some: "(if c then a else b) = Some x \<Longrightarrow> (c \<Longrightarrow> a = Some x \<Longrightarrow> P) \<Longrightarrow> (\<not> c \<Longrightarrow> b = Some x \<Longrightarrow> P) \<Longrightarrow> P"
  by (auto split: if_splits)

lemma choice_sound: "memberSound (64 - k) data (choiceMember (strictWalk k))"
  unfolding memberSound_def
proof (intro allI impI)
  fix key start e and f f' :: choiceFlags
  assume le: "start \<le> length data" and c: "choiceMember (strictWalk k) data key start f = Some (e, f')"
  have nested: "map_option (\<lambda>e. (e, fl)) (inspectCanonicalOpenAIChatMessageSingleWalk data i w) =
      map_option (\<lambda>(r, e). (e, fl)) (inspectMessage data i w)" for fl :: choiceFlags and i w
    by (cases "inspectMessage data i w") (auto simp: inspectMessage)
  have msg: "inspectMessage data start (strictWalk (Suc k)) = Some (r, e) \<Longrightarrow> readsValue (Suc (64 - Suc k)) data start e" for r e
    unfolding inspectMessage_def by (rule object_sound[OF message_sound le])
  obtain x y z where f: "f = (x, y, z)" by (cases f)
  show "readsValue (64 - k) data start e"
    using c unfolding choiceMember_def nested f prod.case
    by (elim if_Some) (auto simp del: walkChild_simps dest: checked_sound[OF le] intro: child_sound[OF msg])
qed

lemma choiceStep_sound:
  assumes "i \<le> length data" "choiceStep (strictWalk k) data i = Some (e, u)"
  shows "readsValue (64 - k) data i e"
proof -
  have "inspectChoice data i (strictWalk (Suc k)) = Some (r, e) \<Longrightarrow> readsValue (Suc (64 - Suc k)) data i e" for r e
    unfolding inspectChoice_def by (rule object_sound[OF choice_sound assms(1)])
  then show ?thesis using assms(2) unfolding choiceStep_def by (rule child_sound[where inspect = inspectChoice])
qed

lemma choicesLoop_sound:
  "choicesLoop (strictWalk k) s = Some e \<Longrightarrow> acData s = data \<Longrightarrow> \<not> acDone s \<Longrightarrow> acPos s \<le> length data \<Longrightarrow>
    \<exists>w t. spans data (acPos s) e (w @ t @ '']'') \<and> ws w \<and> utf8Valid t \<and>
      (t = '''' \<or> (\<exists>es. elements (64 - k) es \<and> t = (if acFirst s then '''' else '','') @ es))"
proof (induction "length data - acPos s" arbitrary: s rule: less_induct)
  case less
  note run = less.prems(1) and dt = less.prems(2) and nd = less.prems(3) and le = less.prems(4)
  let ?p = "skipRawJSONSpace data (acPos s)"
  obtain w where w: "ws w" "spans data (acPos s) ?p w" using skip_split[OF le] by blast
  obtain s1 x where x: "arrayCursorNext s = Some (s1, x)"
    using run by (subst (asm) choicesLoop.simps) (auto split: option.splits)
  have pl: "?p < length data" using x nd dt by (auto simp: arrayCursorNext_def Let_def split: if_splits)
  show ?case
  proof (cases x)
    case None
    have "data ! ?p = CHR '']'' \<and> acPos s1 = ?p + 1"
      using x nd dt pl unfolding None by (auto simp: arrayCursorNext_def Let_def split: if_splits option.splits)
    moreover have "e = acPos s1" using run x None by (subst (asm) choicesLoop.simps) auto
    ultimately have "spans data ?p e '']''" using pl by (simp add: spans_Cons)
    from spans_join[OF w(2) this] w(1) show ?thesis by (intro exI[of _ w] exI[of _ "''''"]) simp
  next
    case (Some start)
    have s1: "s1 = s" using array_next_keeps x Some by blast
    have p: "memberStart data ?p (acFirst s) = Some start"
      using x nd dt pl unfolding Some by (auto simp: arrayCursorNext_def Let_def split: if_splits option.splits)
    note step = choicesLoop_step[OF x[unfolded s1 Some], of "strictWalk k"]
    obtain v u0 where v: "choiceStep (strictWalk k) data start = Some (v, u0)"
      using run step dt by (auto split: option.splits)
    obtain s' where s': "arrayCursorAdvance v s = Some s'" "choicesLoop (strictWalk k) s' = Some e"
      using run step dt v by (auto split: option.splits)
    have f': "acData s' = data" "\<not> acDone s'" "acPos s' = v" "\<not> acFirst s'" "v \<le> length data" "acPos s < v"
      using s'(1) dt nd by (auto simp: arrayCursorAdvance_def split: if_splits)
    obtain w1 where w1: "ws w1" "spans data ?p start ((if acFirst s then '''' else '','') @ w1)"
    proof (cases "acFirst s")
      case True
      then show ?thesis using p pl that[of "''''"] by (simp add: memberStart_def)
    next
      case False
      then have c: "data ! ?p = CHR '',''" "start = skipRawJSONSpace data (?p + 1)"
        using p by (auto simp: memberStart_def split: if_splits)
      obtain w1 where "ws w1" "spans data (?p + 1) start w1" using skip_split[of "?p + 1" data] pl c(2) by auto
      then show ?thesis using that[of w1] c(1) pl False by (simp add: spans_Cons)
    qed
    have "readsValue (64 - k) data start v" using choiceStep_sound[OF _ v] spans_length[OF w1(2)] by simp
    then obtain w4 t where t: "spans data start v (w4 @ t)" "ws w4" "value_text (64 - k) t" "utf8Valid t"
      by (rule readsValue_text)
    have "length data - acPos s' < length data - acPos s" using f' by linarith
    from less.hyps[OF this s'(2) f'(1,2)] f' obtain w5 u where u: "spans data v e (w5 @ u @ '']'')" "ws w5" "utf8Valid u"
        "u = '''' \<or> (\<exists>es. elements (64 - k) es \<and> u = '','' @ es)"
      by auto
    define mr where "mr = \<lparr>reBefore = w1 @ w4, reValue = t, reAfter = w5\<rparr>"
    have ok: "elementOk (64 - k) mr" using w1(1) t u by (simp add: mr_def elementOk_def)
    have um: "utf8Valid (elementText mr)" using utf8_element[OF ok] t(4) by (simp add: mr_def)
    have sp: "spans data ?p e ((if acFirst s then '''' else '','') @ elementText mr @ u @ '']'')"
      using spans_join[OF w1(2) spans_join[OF t(1) u(1)]]
      by (cases "acFirst s") (simp_all add: mr_def elementText_def)
    have mem: "\<exists>es. elements (64 - k) es \<and> elementText mr @ u = es"
      using u(4) element_intro[OF ok] elements_Cons[OF ok] by fastforce
    have uu: "utf8Valid ((if acFirst s then '''' else '','') @ elementText mr @ u)"
      using um u(3) by (simp add: utf8_append utf8_Cons_ascii)
    show ?thesis
      using spans_join[OF w(2) sp] w(1) mem uu
      by (intro exI[of _ w] exI[of _ "(if acFirst s then '''' else '','') @ elementText mr @ u"]) auto
  qed
qed

lemma choices_sound:
  assumes "i \<le> length data" "inspectChoices data i (strictWalk k) = Some (r, e)"
  shows "readsValue (Suc (64 - k)) data i e"
proof -
  let ?p = "skipRawJSONSpace data i"
  obtain w0 where w0: "ws w0" "spans data i ?p w0" using skip_split[OF assms(1)] by blast
  obtain s where s: "newRawJSONArrayCursor data i = Some s" "choicesLoop (strictWalk k) s = Some e"
    using assms(2) by (auto simp: inspectChoices_def inspectCanonicalOpenAIChatChoicesSingleWalk_def walkArray_def
        split: option.splits)
  have p: "?p < length data" "data ! ?p = CHR ''[''" "s = \<lparr>acData = data, acPos = ?p + 1, acFirst = True, acDone = False\<rparr>"
    using s(1) by (auto simp: newRawJSONArrayCursor_def Let_def split: if_splits)
  obtain w t where t: "spans data (?p + 1) e (w @ t @ '']'')" "ws w" "utf8Valid t"
      "t = '''' \<or> (\<exists>ms. elements (64 - k) ms \<and> t = ms)"
    using choicesLoop_sound[OF s(2)] p by auto
  have sp: "spans data ?p e (''['' @ (w @ t) @ '']'')" using t(1) p by (simp add: spans_Cons)
  have v: "value_text (Suc (64 - k)) (''['' @ (w @ t) @ '']'')"
  proof (cases "t = ''''")
    case True then show ?thesis using v_array0[OF t(2), of "64 - k"] by simp
  next
    case False
    then have "elements (64 - k) (w @ t)" using t(2,4) elements_prefix by blast
    then show ?thesis by (rule v_array)
  qed
  have u: "utf8Valid (''['' @ (w @ t) @ '']'')"
    using utf8_ws[OF t(2)] t(3) by (simp add: utf8_append utf8_Cons_ascii)
  show ?thesis
    unfolding readsValue_def using w0 spans_slice[OF w0(2)] skip_ge[of i data] sp v u by metis
qed

lemma completion_sound: "memberSound (64 - k) data (completionMember (strictWalk k))"
  unfolding memberSound_def
proof (intro allI impI)
  fix key start e and f f' :: completionFlags
  assume le: "start \<le> length data" and c: "completionMember (strictWalk k) data key start f = Some (e, f')"
  have nested: "map_option (\<lambda>e. (e, g)) (inspectCanonicalOpenAIChatChoicesSingleWalk data i w) =
      map_option (\<lambda>(r, e). (e, g)) (inspectChoices data i w)" for g :: completionFlags and i w
    by (cases "inspectCanonicalOpenAIChatChoicesSingleWalk data i w") (simp_all add: inspectChoices_def)
  have usage: "inspectCanonicalOpenAIUsageSingleWalk data start (strictWalk (Suc k)) = Some (r, e) \<Longrightarrow>
      readsValue (Suc (64 - Suc k)) data start e" for r e
    unfolding inspectCanonicalOpenAIUsageSingleWalk_def by (rule object_sound[OF usage_sound le])
  show "readsValue (64 - k) data start e"
    using c unfolding completionMember_def nested
    by (elim if_Some) (auto simp del: walkChild_simps dest: checked_sound[OF le]
        intro: child_sound[OF choices_sound[OF le]] child_sound[OF usage])
qed


section \<open>The fast inspection\<close>

lemma walkObject_skip: "skipRawJSONSpace data i = skipRawJSONSpace data j \<Longrightarrow> walkObject w data i = walkObject w data j"
  by (simp add: walkObject_def newRawJSONObjectCursor_def)

lemma inspectCompletion_walk:
  "inspectCompletion w body m =
     (case (case walkObject w body 0 of None \<Rightarrow> None
            | Some s \<Rightarrow> objectWalk (completionMember w) completionFinish s
                \<lparr>idOK = False, objectOK = False, createdOK = False, modelOK = (trimSpace m = ''''),
                 choicesOK = False, usageOK = False, foundUsage = zeroUsage\<rparr>) of
        None \<Rightarrow> None
      | Some (usage, e) \<Rightarrow> if skipRawJSONSpace body e \<noteq> length body then None else Some usage)"
  by (simp add: inspectCompletion_def inspectCanonicalOpenAIChatCompletionObjectSingleWalk_def)

lemma fast_on_json:
  assumes "object_document 64 body" "utf8Valid body"
  shows "inspectCanonicalOpenAIChatCompletionResponseFast body m =
    inspectCanonicalOpenAIChatCompletionResponseFastValidated body m"
proof -
  obtain w1 t w2 where b: "body = w1 @ t @ w2" "ws w1" "ws w2" "value_text 64 t" "hd t = CHR ''{''"
    using assms(1) by (auto simp: object_document_def)
  let ?i = "length w1" let ?e = "length w1 + length t"
  have u: "utf8Valid t" using assms(2) utf8_cancel[OF utf8_ws[OF b(2)]] utf8_then_ws[OF b(3)] unfolding b(1) by simp
  have sp: "spans body 0 ?i w1" "spans body ?i ?e t" unfolding b(1) by (simp_all add: spans_def)
  have w: "walkObject w body 0 = walkObject w body ?i" for w by (rule walkObject_skip[OF skip_ws[OF b(2) sp(1)]])
  have ag: "agreeAt d' body (completionMember (strictWalk 1)) (completionMember (laxWalk 1))" if "64 = Suc d'" for d'
    by (rule completion_agree) (use that in simp)
  have "endsAlike ?e
      (case walkObject (strictWalk 1) body ?i of None \<Rightarrow> None | Some s \<Rightarrow> objectWalk (completionMember (strictWalk 1)) fin s f)
      (case walkObject (laxWalk 1) body ?i of None \<Rightarrow> None | Some s \<Rightarrow> objectWalk (completionMember (laxWalk 1)) fin s f)"
    for fin :: "completionFlags \<Rightarrow> OpenAIUsage option" and f
    using object_walk_agree[OF b(4) u sp(2) ag, of fin f 1 1] by blast
  then show ?thesis
    unfolding inspectCanonicalOpenAIChatCompletionResponseFast_def
      inspectCanonicalOpenAIChatCompletionResponseFastValidated_def inspectCompletion_walk w
    by (simp add: endsAlike_def)
qed

lemma fast_accepts_json:
  assumes "inspectCanonicalOpenAIChatCompletionResponseFast body m = Some usage"
  shows "object_document 64 body \<and> utf8Valid body"
proof -
  define f where "f = \<lparr>idOK = False, objectOK = False, createdOK = False, modelOK = (trimSpace m = ''''),
                 choicesOK = False, usageOK = False, foundUsage = zeroUsage\<rparr>"
  from assms obtain e where e: "(case walkObject (strictWalk 1) body 0 of None \<Rightarrow> None
      | Some s \<Rightarrow> objectWalk (completionMember (strictWalk 1)) completionFinish s f) = Some (usage, e)"
      "skipRawJSONSpace body e = length body"
    unfolding inspectCanonicalOpenAIChatCompletionResponseFast_def inspectCompletion_walk f_def[symmetric]
    by (auto split: option.splits if_splits)
  from object_sound[OF completion_sound _ e(1)] have "readsValue (Suc (64 - 1)) body 0 e" by simp
  then obtain p t where p: "ws (byteSlice body 0 p)" "spans body p e t" "value_text 64 t" "utf8Valid t"
    by (auto simp: readsValue_def)
  have w1: "spans body 0 p (byteSlice body 0 p)" using spans_slice_intro[of 0 p body] spans_length[OF p(2)] by simp
  obtain c cs where c: "t = c # cs" "\<not> isRouteAttemptJSONSpace c" using raw_value_first[OF p(3)] by blast
  have q: "p < length body" "body ! p = c" using p(2) unfolding c(1) by (auto simp: spans_Cons)
  have "skipRawJSONSpace body 0 = p" using skip_ws[OF p(1) w1] skip_stop[of p body] q c(2) by simp
  then have "c = CHR ''{''" using e(1) q
    by (auto simp: walkObject_def newRawJSONObjectCursor_def split: option.splits if_splits)
  then have hd: "hd t = CHR ''{''" using c(1) by simp
  obtain w2 where w2: "ws w2" "spans body e (length body) w2"
    using skip_split[of e body] spans_length[OF p(2)] e(2) by auto
  have "spans body 0 (length body) (byteSlice body 0 p @ t @ w2)"
    using spans_join[OF w1 spans_join[OF p(2) w2(2)]] .
  then have b: "body = byteSlice body 0 p @ t @ w2" by (auto simp: spans_def)
  have "utf8Valid (byteSlice body 0 p @ t @ w2)" using utf8_ws[OF p(1)] p(4) utf8_ws[OF w2(1)] by (simp add: utf8_append)
  then show ?thesis
    using b p(1,3) w2(1) hd unfolding object_document_def by metis
qed

text \<open>C10. The fast inspection of a chat completion is safe on any bytes: it accepts only bodies that
  are one JSON object with at most 64 levels and valid UTF-8, and on those it gives exactly the
  answer of the inspection that relies on the body having been validated before.\<close>

theorem fast_inspection_validates:
  "inspectCanonicalOpenAIChatCompletionResponseFast body m =
     (if object_document 64 body \<and> utf8Valid body
      then inspectCanonicalOpenAIChatCompletionResponseFastValidated body m else None)"
proof (cases "object_document 64 body \<and> utf8Valid body")
  case True
  then show ?thesis using fast_on_json by simp
next
  case False
  then have "inspectCanonicalOpenAIChatCompletionResponseFast body m = None"
    using fast_accepts_json by (metis not_Some_eq)
  with False show ?thesis by auto
qed

section \<open>Examples\<close>

lemma string_text_plain:
  assumes "list_all (\<lambda>c. \<not> of_char c < (0x20 :: nat) \<and> c \<noteq> CHR 0x22 \<and> c \<noteq> CHR 0x5C) s"
  shows "string_text ([CHR 0x22] @ s @ [CHR 0x22])"
proof -
  have "string_body s" using assms by (induction s rule: rev_induct) (auto intro: string_body.intros)
  then show ?thesis by (auto simp: string_text_def)
qed

definition exampleMember :: "string \<Rightarrow> string \<Rightarrow> rawMember" where
  "exampleMember k v = \<lparr>rmBefore = '' '', rmKey = [CHR 0x22] @ k @ [CHR 0x22], rmColon1 = '''', rmColon2 = '' '',
     rmValue = [CHR 0x22] @ v @ [CHR 0x22], rmAfter = ''''\<rparr>"

lemma exampleMember_ok:
  assumes "list_all (\<lambda>c. \<not> of_char c < (0x20 :: nat) \<and> c \<noteq> CHR 0x22 \<and> c \<noteq> CHR 0x5C) k"
    "list_all (\<lambda>c. \<not> of_char c < (0x20 :: nat) \<and> c \<noteq> CHR 0x22 \<and> c \<noteq> CHR 0x5C) v"
  shows "memberOk 1 (exampleMember k v)"
  using string_text_plain[OF assms(1)] string_text_plain[OF assms(2)]
  by (auto simp: exampleMember_def memberOk_def isRouteAttemptJSONSpace_def intro: v_string)

lemma example_object:
  "objectOk 1 '''' '''' [exampleMember ''id'' ''a'', exampleMember ''model'' '' m ''] ''''"
  "list_all plainKey [exampleMember ''id'' ''a'', exampleMember ''model'' '' m '']"
proof -
  have "memberOk 1 (exampleMember ''id'' ''a'')" "memberOk 1 (exampleMember ''model'' '' m '')"
    by (rule exampleMember_ok; simp)+
  moreover have "utf8Valid (objectText '''' '''' [exampleMember ''id'' ''a'', exampleMember ''model'' '' m ''] '''')"
    by (rule utf8_ascii) (simp add: objectText_def memberText_def exampleMember_def less_char_def)
  ultimately show "objectOk 1 '''' '''' [exampleMember ''id'' ''a'', exampleMember ''model'' '' m ''] ''''"
    by (simp add: objectOk_def)
  show "list_all plainKey [exampleMember ''id'' ''a'', exampleMember ''model'' '' m '']"
    by (simp add: plainKey_def exampleMember_def)
qed

lemma extracted_string_is_member_witness:
  "extractTopLevelJSONStringFastValidated (\<lambda>s. None)
     (objectText '''' '''' [exampleMember ''id'' ''a'', exampleMember ''model'' '' m ''] '''') ''model'' True =
   (''m'', True, True)"
proof -
  have t: "trimSpace '' m '' = ''m''" by code_simp
  show ?thesis
    unfolding extracted_string_is_member[OF example_object]
    by (simp add: memberMap_def memberName_def exampleMember_def stringContent_def t)
qed


end
