(* ===== verification/Sse_Stream.thy ===== *)
theory Sse_Stream
  imports Go_Strings Prelude
begin

text \<open>
  Server-sent events as \<open>openai_stream_reader.go\<close> and \<open>streaming.go\<close> read and write them: the line
  reader over a \<open>bufio.Reader\<close>, the accumulator of the data lines of an event, and the loop that
  hands every event to a callback. The callback works on a state that is passed along. A stream is
  the bytes that are still to come and the error that ends them (\<open>io.EOF\<close> or another one).
\<close>

section \<open>Lines\<close>

datatype streamEnd = ioEOF | ioFailed string

datatype readError = readEnd streamEnd | errBufferFull | errOpenAISSELineTooLong

abbreviation newline :: char where "newline \<equiv> CHR 0x0A"
abbreviation carriage :: char where "carriage \<equiv> CHR 0x0D"

definition openAIStreamScannerInitialBuffer :: nat where
  "openAIStreamScannerInitialBuffer = 64 * 1024"

definition openAIStreamScannerMaxBuffer :: nat where
  "openAIStreamScannerMaxBuffer = 8 * 1024 * 1024"

text \<open>
  \<open>bufio.Reader.ReadSlice\<close> for the newline, on a reader with the buffer size of the sources: the
  bytes up to the newline, or a full buffer, or what is left with the error that ends the stream.
\<close>

definition readSlice :: "streamEnd \<Rightarrow> string \<Rightarrow> string \<times> readError option \<times> string" where
  "readSlice fin rest =
     (let buffer = take openAIStreamScannerInitialBuffer rest;
          n = length (takeWhile (\<lambda>c. c \<noteq> newline) buffer)
      in if n < length buffer then (take (n + 1) rest, None, drop (n + 1) rest)
         else if openAIStreamScannerInitialBuffer \<le> length rest
           then (buffer, Some errBufferFull, drop openAIStreamScannerInitialBuffer rest)
         else (rest, Some (readEnd fin), ''''))"

lemma readSlice_lossless: "readSlice fin rest = (fragment, e, rest') \<Longrightarrow> fragment @ rest' = rest"
  by (auto simp: readSlice_def Let_def split: if_splits)

lemma readSlice_full:
  "readSlice fin rest = (fragment, Some errBufferFull, rest') \<Longrightarrow> length rest' < length rest"
  by (auto simp: readSlice_def Let_def openAIStreamScannerInitialBuffer_def split: if_splits)

function readLineLoop ::
  "streamEnd \<Rightarrow> string \<Rightarrow> string \<Rightarrow> (string \<times> readError option) \<times> string" where
  "readLineLoop fin line rest =
     (case readSlice fin rest of
        (fragment, err, rest') \<Rightarrow>
          if fragment \<noteq> [] \<and> openAIStreamScannerMaxBuffer < length line + length fragment
          then ((line @ fragment, Some errOpenAISSELineTooLong), rest')
          else if err = Some errBufferFull then readLineLoop fin (line @ fragment) rest'
          else ((line @ fragment, err), rest'))"
  by pat_completeness auto
termination
  by (relation "measure (\<lambda>(fin, line, rest). length rest)") (auto dest: readSlice_full[OF sym])

declare readLineLoop.simps [simp del]

definition readOpenAISSELine :: "streamEnd \<Rightarrow> string \<Rightarrow> (string \<times> readError option) \<times> string" where
  "readOpenAISSELine fin rest = readLineLoop fin '''' rest"


text \<open>Where the first line of a text ends.\<close>

definition lineEnd :: "string \<Rightarrow> nat" where
  "lineEnd rest = (if newline \<in> set rest then length (takeWhile (\<lambda>c. c \<noteq> newline) rest) + 1 else length rest)"

lemma takeWhile_all_iff: "length (takeWhile P xs) < length xs \<longleftrightarrow> (\<exists>x \<in> set xs. \<not> P x)"
  by (induction xs) auto

lemma lineEnd_le: "lineEnd rest \<le> length rest"
  using takeWhile_all_iff[of "\<lambda>c. c \<noteq> newline" rest] by (auto simp: lineEnd_def Suc_le_eq)

lemma lineEnd_take:
  assumes "newline \<in> set (take n rest)"
  shows "lineEnd (take n rest) = lineEnd rest"
proof -
  have "newline \<in> set rest" using assms by (auto dest: in_set_takeD)
  moreover have "takeWhile (\<lambda>c. c \<noteq> newline) rest = takeWhile (\<lambda>c. c \<noteq> newline) (take n rest)"
    using assms by (subst append_take_drop_id[of n rest, symmetric]) (rule takeWhile_append1, auto)
  ultimately show ?thesis using assms by (simp add: lineEnd_def)
qed

lemma lineEnd_drop:
  assumes "newline \<notin> set (take n rest)" "n \<le> length rest"
  shows "lineEnd rest = n + lineEnd (drop n rest)"
proof -
  have s: "set rest = set (take n rest) \<union> set (drop n rest)" by (metis append_take_drop_id set_append)
  have "takeWhile (\<lambda>c. c \<noteq> newline) rest = take n rest @ takeWhile (\<lambda>c. c \<noteq> newline) (drop n rest)"
    using assms(1) by (subst append_take_drop_id[of n rest, symmetric]) (rule takeWhile_append2, auto)
  then show ?thesis using assms s by (auto simp: lineEnd_def)
qed

lemma readSlice_spec:
  "readSlice fin rest =
     (if newline \<in> set (take openAIStreamScannerInitialBuffer rest)
      then (take (lineEnd rest) rest, None, drop (lineEnd rest) rest)
      else if openAIStreamScannerInitialBuffer \<le> length rest
        then (take openAIStreamScannerInitialBuffer rest, Some errBufferFull, drop openAIStreamScannerInitialBuffer rest)
      else (rest, Some (readEnd fin), ''''))"
proof -
  let ?b = "take openAIStreamScannerInitialBuffer rest"
  have "length (takeWhile (\<lambda>c. c \<noteq> newline) ?b) < length ?b \<longleftrightarrow> newline \<in> set ?b"
    unfolding takeWhile_all_iff by auto
  then have i: "(length (takeWhile (\<lambda>c. c \<noteq> newline) ?b) < length ?b) = (newline \<in> set ?b)" .
  show ?thesis
  proof (cases "newline \<in> set ?b")
    case True
    then have "length (takeWhile (\<lambda>c. c \<noteq> newline) ?b) + 1 = lineEnd rest"
      using lineEnd_take[of openAIStreamScannerInitialBuffer rest] by (simp add: lineEnd_def split: if_splits)
    with True show ?thesis by (simp only: readSlice_def Let_def i if_True)
  next
    case False
    then show ?thesis by (simp only: readSlice_def Let_def i if_False)
  qed
qed

lemma readLineLoop_spec:
  "length line \<le> openAIStreamScannerMaxBuffer \<Longrightarrow> if length line + lineEnd rest \<le> openAIStreamScannerMaxBuffer
   then readLineLoop fin line rest =
     ((line @ take (lineEnd rest) rest, if newline \<in> set rest then None else Some (readEnd fin)), drop (lineEnd rest) rest)
   else \<exists>k \<le> lineEnd rest. openAIStreamScannerMaxBuffer < length line + k \<and>
     readLineLoop fin line rest = ((line @ take k rest, Some errOpenAISSELineTooLong), drop k rest)"
proof (induction "length rest" arbitrary: line rest rule: less_induct)
  case less
  let ?B = openAIStreamScannerInitialBuffer
  consider (found) "newline \<in> set (take ?B rest)" | (full) "newline \<notin> set (take ?B rest)" "?B \<le> length rest"
    | (ends) "newline \<notin> set (take ?B rest)" "length rest < ?B" by linarith
  then show ?case
  proof cases
    case found
    then have "newline \<in> set rest" "take (lineEnd rest) rest \<noteq> []"
      by (auto dest: in_set_takeD simp: lineEnd_def)
    with found show ?thesis using lineEnd_le[of rest]
      by (auto simp: readLineLoop.simps[of fin line rest] readSlice_spec min_absorb2)
  next
    case full
    have b: "take ?B rest \<noteq> []" "length (take ?B rest) = ?B" "0 < ?B"
      using full by (auto simp: openAIStreamScannerInitialBuffer_def)
    have le: "lineEnd rest = ?B + lineEnd (drop ?B rest)" using lineEnd_drop[OF full] .
    have nl: "newline \<in> set rest \<longleftrightarrow> newline \<in> set (drop ?B rest)"
      using full(1) by (metis Un_iff append_take_drop_id set_append)
    show ?thesis
    proof (cases "openAIStreamScannerMaxBuffer < length line + ?B")
      case True
      then have "readLineLoop fin line rest = ((line @ take ?B rest, Some errOpenAISSELineTooLong), drop ?B rest)"
        using full b by (simp add: readLineLoop.simps[of fin line rest] readSlice_spec)
      with True le show ?thesis by (auto simp del: drop_append take_append intro: exI[of _ ?B])
    next
      case False
      then have eq: "readLineLoop fin line rest = readLineLoop fin (line @ take ?B rest) (drop ?B rest)"
        using full b by (simp add: readLineLoop.simps[of fin line rest] readSlice_spec)
      have lt: "length (drop ?B rest) < length rest" using full b by simp
      have ok: "length (line @ take ?B rest) \<le> openAIStreamScannerMaxBuffer" using False b by simp
      show ?thesis
      proof (cases "length line + lineEnd rest \<le> openAIStreamScannerMaxBuffer")
        case True
        with less(1)[OF lt ok] b le nl show ?thesis
          by (simp add: eq take_add add.commute add.left_commute)
      next
        case False
        with less(1)[OF lt ok] b le obtain k where k: "k \<le> lineEnd (drop ?B rest)"
          "openAIStreamScannerMaxBuffer < length line + ?B + k"
          "readLineLoop fin (line @ take ?B rest) (drop ?B rest) =
             (((line @ take ?B rest) @ take k (drop ?B rest), Some errOpenAISSELineTooLong), drop k (drop ?B rest))"
          by (auto simp: add.assoc)
        with False le show ?thesis
          by (simp add: eq) (intro exI[of _ "?B + k"], auto simp: take_add add.commute)
      qed
    qed
  next
    case ends
    then have e: "newline \<notin> set rest" "lineEnd rest = length rest" by (simp_all add: lineEnd_def)
    with ends show ?thesis
      using less.prems by (auto simp: readLineLoop.simps[of fin line rest] readSlice_spec intro: exI[of _ "length rest"])
  qed
qed

lemma read_line_spec:
  assumes "lineEnd rest \<le> openAIStreamScannerMaxBuffer"
  shows "readOpenAISSELine fin rest =
    ((take (lineEnd rest) rest, if newline \<in> set rest then None else Some (readEnd fin)), drop (lineEnd rest) rest)"
  using readLineLoop_spec[of "''''" rest fin] assms by (simp add: readOpenAISSELine_def)

lemma read_line_too_long:
  assumes "openAIStreamScannerMaxBuffer < lineEnd rest"
  shows "\<exists>k \<le> lineEnd rest. openAIStreamScannerMaxBuffer < k \<and>
    readOpenAISSELine fin rest = ((take k rest, Some errOpenAISSELineTooLong), drop k rest)"
  using readLineLoop_spec[of "''''" rest fin] assms by (simp add: readOpenAISSELine_def)

lemma read_line_lossless:
  assumes "readOpenAISSELine fin rest = ((l, e), rest')"
  shows "l @ rest' = rest"
  using assms read_line_spec[of rest fin] read_line_too_long[of rest fin]
  by (cases "lineEnd rest \<le> openAIStreamScannerMaxBuffer") (auto simp: not_le)

lemma read_line_ok:
  assumes "readOpenAISSELine fin rest = ((l, None), rest')"
  shows "l = take (lineEnd rest) rest" "newline \<in> set rest" "rest' = drop (lineEnd rest) rest" "length rest' < length rest"
proof -
  show "l = take (lineEnd rest) rest" "rest' = drop (lineEnd rest) rest" and n: "newline \<in> set rest"
    using assms read_line_spec[of rest fin] read_line_too_long[of rest fin]
    by (cases "lineEnd rest \<le> openAIStreamScannerMaxBuffer"; auto simp: not_le split: if_splits)+
  then show "length rest' < length rest" by (cases rest) (auto simp: lineEnd_def)
qed


section \<open>Events\<close>

text \<open>The first result of a callback tells whether the stream is read on.\<close>

type_synonym 's onData = "string \<Rightarrow> string \<Rightarrow> 's \<Rightarrow> bool \<times> 's"

record sseDataAccumulator =
  saEventType :: string
  saDataLines :: "string list"

definition emptyAccumulator :: sseDataAccumulator where
  "emptyAccumulator = \<lparr>saEventType = '''', saDataLines = []\<rparr>"

definition parseSSEEventLine :: "string \<Rightarrow> string option" where
  "parseSSEEventLine line =
     (if \<not> hasPrefix line ''event:'' then None
      else Some (trimSpace (trimPrefix (trimPrefix line ''event:'') '' '')))"

definition parseSSELine :: "string \<Rightarrow> string option" where
  "parseSSELine line =
     (if \<not> hasPrefix line ''data:'' then None else Some (trimPrefix (trimPrefix line ''data:'') '' ''))"

definition accDispatch ::
  "'s onData option \<Rightarrow> sseDataAccumulator \<Rightarrow> 's \<Rightarrow> bool \<times> sseDataAccumulator \<times> 's" where
  "accDispatch onData a s =
     (if saDataLines a = [] then (True, a\<lparr>saEventType := ''''\<rparr>, s)
      else let data = (if 1 < length (saDataLines a) then goJoin [newline] (saDataLines a) else saDataLines a ! 0);
               eventType = saEventType a;
               a' = a\<lparr>saDataLines := [], saEventType := ''''\<rparr>
           in case onData of
                None \<Rightarrow> (True, a', s)
              | Some f \<Rightarrow> (case f eventType data s of (go, s') \<Rightarrow> (go, a', s')))"

definition trimLine :: "string \<Rightarrow> string" where
  "trimLine line = trimRight line [carriage, newline]"

definition consumeLine ::
  "'s onData option \<Rightarrow> string \<Rightarrow> sseDataAccumulator \<Rightarrow> 's \<Rightarrow> bool \<times> sseDataAccumulator \<times> 's" where
  "consumeLine onData line0 a s =
     (let line = trimLine line0
      in if line = '''' then accDispatch onData a s
         else case parseSSELine line of
           Some data \<Rightarrow> (True, a\<lparr>saDataLines := saDataLines a @ [data]\<rparr>, s)
         | None \<Rightarrow> (case parseSSEEventLine line of
               Some eventType \<Rightarrow> (True, a\<lparr>saEventType := eventType\<rparr>, s)
             | None \<Rightarrow> (True, a, s)))"

section \<open>Reading a stream\<close>

text \<open>
  The loop of \<open>consumeOpenAIStreamChunks\<close> and \<open>consumeOpenAIStreamChunksWithProgress\<close>. It stops
  when the callback says so, when the stream ends, or on an error of the reader. The second consumer
  also gives up on an event type that no data follows (\<open>strict\<close>).
\<close>

datatype streamOutcome = soStopped | soEventWithoutData | soEnded | soReadError readError

function sseLoop ::
  "bool \<Rightarrow> 's onData \<Rightarrow> streamEnd \<Rightarrow> string \<Rightarrow> sseDataAccumulator \<Rightarrow> 's \<Rightarrow> streamOutcome \<times> 's" where
  "sseLoop strict onData fin rest acc s =
     (case readOpenAISSELine fin rest of
        ((line, err), rest') \<Rightarrow>
          if strict \<and> line \<noteq> '''' \<and> trimLine line = '''' \<and> saEventType acc \<noteq> '''' \<and> saDataLines acc = []
          then (soEventWithoutData, s)
          else case (if line \<noteq> '''' then consumeLine (Some onData) line acc s else (True, acc, s)) of
            (go, acc', s') \<Rightarrow>
              if \<not> go then (soStopped, s')
              else (case err of
                  None \<Rightarrow> sseLoop strict onData fin rest' acc' s'
                | Some (readEnd ioEOF) \<Rightarrow>
                    (case accDispatch (Some onData) acc' s' of
                       (go', acc'', s'') \<Rightarrow> (if \<not> go' then soStopped else soEnded, s''))
                | Some e \<Rightarrow> (soReadError e, s')))"
  by pat_completeness auto
termination
  by (relation "measure (\<lambda>(strict, onData, fin, rest, acc, s). length rest)")
    (auto dest!: read_line_ok(4)[OF sym])

declare sseLoop.simps [simp del]

section \<open>Writing to the client\<close>

text \<open>
  A client connection: the pieces whose write succeeded, and the number of writes so far. Which
  writes succeed is up to the client.
\<close>

record client =
  clOut :: "string list"
  clWrites :: nat

definition clientWrite :: "(nat \<Rightarrow> bool) \<Rightarrow> string \<Rightarrow> client \<Rightarrow> bool \<times> client" where
  "clientWrite ok piece c =
     (if ok (clWrites c) then (True, c\<lparr>clOut := clOut c @ [piece], clWrites := clWrites c + 1\<rparr>)
      else (False, c\<lparr>clWrites := clWrites c + 1\<rparr>))"

text \<open>\<open>writeSSEEvent\<close>; \<open>enc\<close> is the JSON encoder, whose output ends with a newline.\<close>

definition sseEventText :: "string \<Rightarrow> string \<Rightarrow> string" where
  "sseEventText eventType b =
     ''event: '' @ eventType @ [newline] @ ''data: '' @ b @ [newline, newline]"

definition writeSSEEvent ::
  "(nat \<Rightarrow> bool) \<Rightarrow> ('d \<Rightarrow> string option) \<Rightarrow> string \<Rightarrow> 'd \<Rightarrow> client \<Rightarrow> bool \<times> client" where
  "writeSSEEvent ok enc eventType data c =
     (case enc data of
        None \<Rightarrow> (False, c)
      | Some buf \<Rightarrow> clientWrite ok (sseEventText eventType (trimRight buf [newline])) c)"

definition splitSSELineEnding :: "string \<Rightarrow> string \<times> string" where
  "splitSSELineEnding line =
     (if hasSuffix line [carriage, newline] then (trimSuffix line [carriage, newline], [carriage, newline])
      else if hasSuffix line [newline] then (trimSuffix line [newline], [newline])
      else (line, ''''))"

section \<open>What is read\<close>

text \<open>
  The reference: a stream is a list of lines, the lines give events, and the events are handed over
  one by one until the callback stops.
\<close>

function streamLines :: "string \<Rightarrow> string list" where
  "streamLines rest =
     (if rest = '''' then [] else take (lineEnd rest) rest # streamLines (drop (lineEnd rest) rest))"
  by pat_completeness auto
termination
  by (relation "measure length") (auto simp: lineEnd_def neq_Nil_conv)

declare streamLines.simps [simp del]

fun sseEvents :: "string \<Rightarrow> string list \<Rightarrow> string list \<Rightarrow> (string \<times> string) list" where
  "sseEvents eventType ds [] = (if ds = [] then [] else [(eventType, goJoin [newline] ds)])"
| "sseEvents eventType ds (l # ls) =
     (if trimLine l = '''' then (if ds = [] then [] else [(eventType, goJoin [newline] ds)]) @ sseEvents '''' [] ls
      else case parseSSELine (trimLine l) of
        Some data \<Rightarrow> sseEvents eventType (ds @ [data]) ls
      | None \<Rightarrow> (case parseSSEEventLine (trimLine l) of
            Some t \<Rightarrow> sseEvents t ds ls
          | None \<Rightarrow> sseEvents eventType ds ls))"

fun runEvents :: "'s onData \<Rightarrow> (string \<times> string) list \<Rightarrow> 's \<Rightarrow> bool \<times> 's" where
  "runEvents f [] s = (True, s)"
| "runEvents f ((t, d) # evs) s = (case f t d s of (go, s') \<Rightarrow> if go then runEvents f evs s' else (False, s'))"

lemma runEvents_append:
  "runEvents f (xs @ ys) s = (case runEvents f xs s of (go, s') \<Rightarrow> if go then runEvents f ys s' else (False, s'))"
  by (induction xs arbitrary: s) (auto split: prod.splits)


lemma consume_line_events:
  "consumeLine (Some f) l acc s = (go, acc', s') \<Longrightarrow>
   runEvents f (sseEvents (saEventType acc) (saDataLines acc) (l # ls)) s =
     (if go then runEvents f (sseEvents (saEventType acc') (saDataLines acc') ls) s' else (False, s'))"
  by (cases "saDataLines acc" rule: list.exhaust; cases "tl (saDataLines acc)")
    (auto simp: consumeLine_def accDispatch_def Let_def split: option.splits prod.splits if_splits)

lemma dispatch_events:
  "accDispatch (Some f) acc s = (go, acc', s') \<Longrightarrow>
   runEvents f (sseEvents (saEventType acc) (saDataLines acc) []) s = (go, s')"
  by (cases "saDataLines acc" rule: list.exhaust; cases "tl (saDataLines acc)")
    (auto simp: accDispatch_def Let_def split: prod.splits if_splits)

lemma streamLines_step: "rest \<noteq> '''' \<Longrightarrow> streamLines rest = take (lineEnd rest) rest # streamLines (drop (lineEnd rest) rest)"
  by (subst streamLines.simps) simp

lemma streamLines_Nil [simp]: "streamLines '''' = []"
  by (simp add: streamLines.simps)

lemma streamLines_concat: "concat (streamLines rest) = rest"
  by (induction rest rule: streamLines.induct) (subst streamLines.simps, simp)

lemma sse_loop_events:
  assumes "\<forall>l \<in> set (streamLines rest). length l \<le> openAIStreamScannerMaxBuffer"
  shows "sseLoop False f ioEOF rest acc s =
    (case runEvents f (sseEvents (saEventType acc) (saDataLines acc) (streamLines rest)) s of
       (go, s') \<Rightarrow> (if go then soEnded else soStopped, s'))"
  using assms
proof (induction "length rest" arbitrary: rest acc s rule: less_induct)
  case less
  show ?case
  proof (cases "rest = ''''")
    case True
    then have "readOpenAISSELine ioEOF rest = (('''', Some (readEnd ioEOF)), '''')"
      by (simp add: read_line_spec lineEnd_def)
    moreover obtain go acc' s' where d: "accDispatch (Some f) acc s = (go, acc', s')"
      by (cases "accDispatch (Some f) acc s") auto
    ultimately show ?thesis
      using True dispatch_events[OF d] by (simp add: sseLoop.simps[of False f ioEOF "''''"] d del: sseEvents.simps)
  next
    case False
    let ?l = "take (lineEnd rest) rest" and ?r = "drop (lineEnd rest) rest"
    have ne: "?l \<noteq> ''''" "length ?r < length rest" using False by (auto simp: lineEnd_def neq_Nil_conv)
    have sl: "streamLines rest = ?l # streamLines ?r" using streamLines_step[OF False] .
    have "lineEnd rest \<le> openAIStreamScannerMaxBuffer"
      using less.prems sl lineEnd_le[of rest] by simp
    then have rd: "readOpenAISSELine ioEOF rest =
        ((?l, if newline \<in> set rest then None else Some (readEnd ioEOF)), ?r)" by (rule read_line_spec)
    obtain go acc' s' where c: "consumeLine (Some f) ?l acc s = (go, acc', s')"
      by (cases "consumeLine (Some f) ?l acc s") auto
    note ev = consume_line_events[OF c, of "streamLines ?r"]
    show ?thesis
    proof (cases "newline \<in> set rest")
      case True
      have fit: "\<forall>l \<in> set (streamLines ?r). length l \<le> openAIStreamScannerMaxBuffer"
        using less.prems sl by simp
      show ?thesis
        using True ne rd c ev less.hyps[OF ne(2) fit, of acc' s'] unfolding sl
        by (simp add: sseLoop.simps[of False f ioEOF rest] del: sseEvents.simps)
    next
      case False
      then have r: "?r = ''''" by (simp add: lineEnd_def)
      obtain go' acc'' s'' where d: "accDispatch (Some f) acc' s' = (go', acc'', s'')"
        by (cases "accDispatch (Some f) acc' s'") auto
      show ?thesis
        using False ne rd c ev dispatch_events[OF d] unfolding sl r
        by (simp add: sseLoop.simps[of False f ioEOF rest] d del: sseEvents.simps)
    qed
  qed
qed

text \<open>Either consumer hands over the events of the stream one by one, whatever ends it.\<close>

lemma sse_loop_outcome:
  assumes "\<forall>l \<in> set (streamLines rest). length l \<le> openAIStreamScannerMaxBuffer"
    and "sseLoop strict f fin rest acc s = (outcome, s')" "outcome = soStopped \<or> outcome = soEnded"
  shows "runEvents f (sseEvents (saEventType acc) (saDataLines acc) (streamLines rest)) s = (outcome = soEnded, s')"
  using assms
proof (induction "length rest" arbitrary: rest acc s rule: less_induct)
  case less
  let ?l = "take (lineEnd rest) rest" and ?r = "drop (lineEnd rest) rest"
  have "lineEnd rest \<le> openAIStreamScannerMaxBuffer"
    using less.prems(1) streamLines_step[of rest] lineEnd_le[of rest] by (cases "rest = ''''") (auto simp: lineEnd_def)
  then have rd: "readOpenAISSELine fin rest =
      ((?l, if newline \<in> set rest then None else Some (readEnd fin)), ?r)" by (rule read_line_spec)
  note eq = less.prems(2)[unfolded sseLoop.simps[of strict f fin rest] rd prod.case]
  show ?case
  proof (cases "rest = ''''")
    case True
    obtain go acc' s'' where d: "accDispatch (Some f) acc s = (go, acc', s'')"
      by (cases "accDispatch (Some f) acc s") auto
    show ?thesis
      using True eq less.prems(3) dispatch_events[OF d] d
      by (auto split: streamEnd.splits if_splits simp del: sseEvents.simps)
  next
    case False
    have ne: "?l \<noteq> ''''" "length ?r < length rest" using False by (auto simp: lineEnd_def neq_Nil_conv)
    have sl: "streamLines rest = ?l # streamLines ?r" using streamLines_step[OF False] .
    obtain go acc' s1 where c: "consumeLine (Some f) ?l acc s = (go, acc', s1)"
      by (cases "consumeLine (Some f) ?l acc s") auto
    note ev = consume_line_events[OF c, of "streamLines ?r"]
    have go: "\<not> (strict \<and> trimLine ?l = '''' \<and> saEventType acc \<noteq> '''' \<and> saDataLines acc = [])"
      using eq ne less.prems(3) by (auto split: if_splits)
    show ?thesis
    proof (cases "go \<and> newline \<in> set rest")
      case True
      have fit: "\<forall>l \<in> set (streamLines ?r). length l \<le> openAIStreamScannerMaxBuffer"
        using less.prems(1) sl by simp
      have "sseLoop strict f fin ?r acc' s1 = (outcome, s')" using True eq ne go c by auto
      from less.hyps[OF ne(2) fit this less.prems(3)] show ?thesis
        unfolding sl using ev True by simp
    next
      case stop: False
      show ?thesis
      proof (cases go)
        case False
        then show ?thesis unfolding sl using ev eq ne go c by auto
      next
        case True
        with stop have n: "newline \<notin> set rest" by simp
        then have r: "?r = ''''" by (simp add: lineEnd_def)
        obtain go' acc'' s2 where d: "accDispatch (Some f) acc' s1 = (go', acc'', s2)"
          by (cases "accDispatch (Some f) acc' s1") auto
        show ?thesis
          using True n ne go c eq ev dispatch_events[OF d] d less.prems(3) unfolding sl r
          by (auto split: streamEnd.splits if_splits simp del: sseEvents.simps)
      qed
    qed
  qed
qed

section \<open>Writing and reading back\<close>

fun writeEvents ::
  "(nat \<Rightarrow> bool) \<Rightarrow> ('d \<Rightarrow> string option) \<Rightarrow> (string \<times> 'd) list \<Rightarrow> client \<Rightarrow> bool \<times> client" where
  "writeEvents ok enc [] c = (True, c)"
| "writeEvents ok enc ((t, v) # evs) c =
     (case writeSSEEvent ok enc t v c of (go, c') \<Rightarrow> if go then writeEvents ok enc evs c' else (False, c'))"

definition eventPayload :: "('d \<Rightarrow> string option) \<Rightarrow> 'd \<Rightarrow> string" where
  "eventPayload enc v = (case enc v of None \<Rightarrow> '''' | Some buf \<Rightarrow> trimRight buf [newline])"

text \<open>What the writer is given: event types and encodings that stay on one line.\<close>

definition oneLine :: "string \<Rightarrow> bool" where
  "oneLine s \<longleftrightarrow> newline \<notin> set s \<and> carriage \<notin> set s \<and> length s + 8 \<le> openAIStreamScannerMaxBuffer"

definition writableEvent :: "('d \<Rightarrow> string option) \<Rightarrow> string \<times> 'd \<Rightarrow> bool" where
  "writableEvent enc ev \<longleftrightarrow> oneLine (fst ev) \<and> trimSpace (fst ev) = fst ev \<and> oneLine (eventPayload enc (snd ev))"

lemma written_text:
  "writeEvents ok enc evs c = (True, c') \<Longrightarrow>
   concat (clOut c') = concat (clOut c) @ concat (map (\<lambda>(t, v). sseEventText t (eventPayload enc v)) evs)"
  by (induction evs arbitrary: c)
    (auto simp: writeSSEEvent_def clientWrite_def eventPayload_def split: option.splits if_splits prod.splits)

lemma streamLines_line: "newline \<notin> set l \<Longrightarrow> streamLines (l @ newline # rest) = (l @ [newline]) # streamLines rest"
proof -
  assume "newline \<notin> set l"
  then have "takeWhile (\<lambda>c. c \<noteq> newline) (l @ newline # rest) = l" by (subst takeWhile_append2) auto
  then have "lineEnd (l @ newline # rest) = length l + 1" by (simp add: lineEnd_def)
  then show ?thesis by (subst streamLines.simps) simp
qed

lemma trimLine_line: "newline \<notin> set l \<Longrightarrow> carriage \<notin> set l \<Longrightarrow> trimLine (l @ [newline]) = l"
  unfolding trimLine_def by (cases l rule: rev_cases) (auto simp: trimRight_def)

lemma event_lines:
  assumes "oneLine t" "oneLine d"
  shows "streamLines (sseEventText t d @ rest) =
    (''event: '' @ t @ [newline]) # (''data: '' @ d @ [newline]) # [newline] # streamLines rest"
proof -
  have "streamLines ((''event: '' @ t) @ newline # (''data: '' @ d) @ newline # [] @ newline # rest) =
      ((''event: '' @ t) @ [newline]) # ((''data: '' @ d) @ [newline]) # ([] @ [newline]) # streamLines rest"
    using assms by (subst streamLines_line, (simp add: oneLine_def; fail))+ simp
  then show ?thesis by (simp add: sseEventText_def)
qed

lemma written_lines_fit:
  assumes "\<forall>ev \<in> set evs. writableEvent enc ev"
    and "l \<in> set (streamLines (concat (map (\<lambda>(t, v). sseEventText t (eventPayload enc v)) evs)))"
  shows "length l \<le> openAIStreamScannerMaxBuffer"
  using assms
  by (induction evs)
    (auto simp: event_lines writableEvent_def oneLine_def openAIStreamScannerMaxBuffer_def split: prod.splits)

lemma written_events:
  assumes "\<forall>ev \<in> set evs. writableEvent enc ev"
  shows "sseEvents '''' [] (streamLines (concat (map (\<lambda>(t, v). sseEventText t (eventPayload enc v)) evs))) =
    map (\<lambda>(t, v). (t, eventPayload enc v)) evs"
  using assms
proof (induction evs)
  case (Cons ev evs)
  obtain t v where e: "ev = (t, v)" by (cases ev)
  let ?d = "eventPayload enc v"
  have w: "oneLine t" "oneLine ?d" "trimSpace t = t" using Cons.prems by (auto simp: writableEvent_def e)
  have t1: "trimLine (''event: '' @ t @ [newline]) = ''event: '' @ t"
    using trimLine_line[of "''event: '' @ t"] w(1) by (simp add: oneLine_def)
  have t2: "trimLine (''data: '' @ ?d @ [newline]) = ''data: '' @ ?d"
    using trimLine_line[of "''data: '' @ ?d"] w(2) by (simp add: oneLine_def)
  have t3: "trimLine [newline] = ''''" using trimLine_line[of "''''"] by simp
  have p: "parseSSELine (''event: '' @ t) = None" "parseSSEEventLine (''event: '' @ t) = Some t"
      "parseSSELine (''data: '' @ ?d) = Some ?d"
    using w(3) by (simp_all add: parseSSELine_def parseSSEEventLine_def hasPrefix_def trimPrefix_def)
  show ?case
    using Cons by (simp add: e event_lines[OF w(1,2)] t1[simplified] t2[simplified] t3 p[simplified])
qed simp


text \<open>C17. What is written as events is read back as the same events. When the proxy writes events to a
  connection and every write succeeds, a reader of these bytes hands to its callback exactly the
  types and the encoded payloads that were written, in their order, and stops early only when the
  callback asks for it.\<close>

theorem written_events_read_back:
  assumes "writeEvents ok enc evs \<lparr>clOut = [], clWrites = 0\<rparr> = (True, c)"
    and "\<forall>ev \<in> set evs. writableEvent enc ev"
  shows "sseLoop False onData ioEOF (concat (clOut c)) emptyAccumulator s =
    (case runEvents onData (map (\<lambda>(t, v). (t, eventPayload enc v)) evs) s of
       (go, s') \<Rightarrow> (if go then soEnded else soStopped, s'))"
proof -
  have t: "concat (clOut c) = concat (map (\<lambda>(t, v). sseEventText t (eventPayload enc v)) evs)"
    using written_text[OF assms(1)] by simp
  have "\<forall>l \<in> set (streamLines (concat (clOut c))). length l \<le> openAIStreamScannerMaxBuffer"
    using written_lines_fit[OF assms(2)] unfolding t by blast
  from sse_loop_events[OF this, of onData emptyAccumulator s] show ?thesis
    by (simp add: t emptyAccumulator_def written_events[OF assms(2)])
qed

lemma written_events_read_back_witness:
  "let enc = (\<lambda>n::nat. Some ((if n = 0 then ''{}'' else ''[7]'') @ [newline]));
       c = snd (writeEvents (\<lambda>_. True) enc [(''ping'', 0), (''done'', 1)] \<lparr>clOut = [], clWrites = 0\<rparr>)
   in sseLoop False (\<lambda>t d s. (t \<noteq> ''done'', s @ [(t, d)])) ioEOF (concat (clOut c)) emptyAccumulator [] =
        (soStopped, [(''ping'', ''{}''), (''done'', ''[7]'')])"
proof -
  let ?enc = "\<lambda>n::nat. Some ((if n = 0 then ''{}'' else ''[7]'') @ [newline])"
  let ?evs = "[(''ping'', 0), (''done'', 1)]"
  have p: "eventPayload ?enc 0 = ''{}''" "eventPayload ?enc 1 = ''[7]''"
    by (simp_all add: eventPayload_def trimRight_def)
  have t: "trimSpace ''ping'' = ''ping''" "trimSpace ''done'' = ''done''"
    by (code_simp, code_simp)
  obtain c where c: "writeEvents (\<lambda>_. True) ?enc ?evs \<lparr>clOut = [], clWrites = 0\<rparr> = (True, c)"
    by (simp add: writeSSEEvent_def clientWrite_def)
  have w: "\<forall>ev \<in> set ?evs. writableEvent ?enc ev"
    using p t by (simp add: writableEvent_def oneLine_def openAIStreamScannerMaxBuffer_def)
  show ?thesis
    using written_events_read_back[OF c w, of "\<lambda>t d s. (t \<noteq> ''done'', s @ [(t, d)])" "[]"] p c
    by (simp add: Let_def)
qed

end
