(* ===== verification/Stream_Inspect.thy ===== *)
theory Stream_Inspect
  imports Sse_Stream Route_Types
begin

text \<open>
  What the events of a chat stream mean: error events and their HTTP status
  (\<open>openai_stream_reader.go\<close>, \<open>responses_usage.go\<close>), the semantic progress an event proves
  (\<open>streaming.go\<close>), and the two consumers of a stream of chunks. \<open>encoding/json\<close> is a record of
  decoders: into objects, arrays and strings, and into the structs of the sources. A decoder into a
  map answers \<open>None\<close> for an error and for a nil map, which the code treats alike.
\<close>

section \<open>Structures\<close>

record OpenAIFunctionCall =
  fcName :: string
  fcArguments :: string

record OpenAIToolCall =
  tcID :: string
  tcType :: string
  tcFunction :: OpenAIFunctionCall
  tcIndex :: "int option"

text \<open>A \<open>json.RawMessage\<close> that may be nil is an option.\<close>

record streamDelta =
  sdRole :: string
  sdContent :: "string option"
  sdRefusal :: "string option"
  sdToolCalls :: "OpenAIToolCall list"

record OpenAIStreamChoice =
  scChoiceIndex :: int
  scDelta :: streamDelta
  scFinishReason :: "string option"

record streamUsage =
  suPromptTokens :: int
  suCompletionTokens :: int
  suTotalTokens :: int
  suCachedTokens :: "int option"

record OpenAIStreamChunk =
  ckID :: string
  ckCreated :: int
  ckModel :: string
  ckChoices :: "OpenAIStreamChoice list"
  ckUsage :: "streamUsage option"
  ckSystemFingerprint :: string
  ckCopilotUsage :: string

record errorFields =
  efType :: string
  efCode :: string
  efMessage :: string

record errorEnvelope =
  eeError :: "errorFields option"
  eeTop :: errorFields

text \<open>The structs of the Anthropic reader: a type, and the type and code of an error that may be absent.\<close>

record anthropicErrorEvent =
  aeType :: string
  aeError :: "(string \<times> string) option"

text \<open>
  \<open>sjErrorFields\<close> is the decoding whose error the code ignores: what was decoded, zero otherwise.
\<close>

record streamJson =
  sjEnvelope :: "string \<Rightarrow> errorEnvelope option"
  sjObject :: "string \<Rightarrow> (string, string) gomap option"
  sjArray :: "string \<Rightarrow> string list option"
  sjString :: "string \<Rightarrow> string option"
  sjChunk :: "string \<Rightarrow> OpenAIStreamChunk option"
  sjErrorEvent :: "string \<Rightarrow> anthropicErrorEvent option"
  sjErrorFields :: "string \<Rightarrow> errorFields"
  sjType :: "string \<Rightarrow> string option"

section \<open>Stream errors\<close>

text \<open>\<open>sanitizeUpstreamErrorText\<close>: white space is normalised, and a long text is cut at a character.\<close>

function fieldsLoop :: "string \<Rightarrow> string \<Rightarrow> string list" where
  "fieldsLoop word s =
     (if s = '''' then (if word = '''' then [] else [word])
      else if 0 < leadingSpace s then (if word = '''' then [] else [word]) @ fieldsLoop '''' (drop (leadingSpace s) s)
      else fieldsLoop (word @ [hd s]) (tl s))"
  by pat_completeness auto
termination by (relation "measure (\<lambda>(word, s). length s)") auto

declare fieldsLoop.simps [simp del]

definition goFields :: "string \<Rightarrow> string list" where
  "goFields s = fieldsLoop '''' s"

function goRunes :: "string \<Rightarrow> string list" where
  "goRunes s =
     (if s = '''' then []
      else if runeBytes s = 0 then [CHR 0xEF, CHR 0xBF, CHR 0xBD] # goRunes (tl s)
      else take (runeBytes s) s # goRunes (drop (runeBytes s) s))"
  by pat_completeness auto
termination by (relation "measure length") auto

declare goRunes.simps [simp del]

definition upstreamErrorDetailMaxChars :: nat where
  "upstreamErrorDetailMaxChars = 1024"

definition ellipsis :: string where
  "ellipsis = [CHR 0xE2, CHR 0x80, CHR 0xA6]"

definition sanitizeUpstreamErrorText :: "string \<Rightarrow> string" where
  "sanitizeUpstreamErrorText value0 =
     (let val = goJoin '' '' (goFields value0)
      in if val = '''' then ''''
         else let runes = goRunes val
         in if length runes \<le> upstreamErrorDetailMaxChars then val
            else let ellipsisRunes = length (goRunes ellipsis)
            in if upstreamErrorDetailMaxChars \<le> ellipsisRunes then concat (take upstreamErrorDetailMaxChars runes)
               else concat (take (upstreamErrorDetailMaxChars - ellipsisRunes) runes) @ ellipsis)"

record openAIStreamError =
  oseType :: string
  oseCode :: string
  oseMessage :: string

definition copilotRateCodes :: "string list" where
  "copilotRateCodes =
     [''user_model_rate_limited'', ''user_global_rate_limited'', ''user_weekly_rate_limited'',
      ''integration_rate_limited'']"

definition streamErrorStatus :: "openAIStreamError \<Rightarrow> int" where
  "streamErrorStatus e =
     (let code = goLower (trimSpace (oseCode e)); errType = goLower (trimSpace (oseType e))
      in if code \<in> {''too_many_requests'', ''rate_limit_exceeded'', ''rate_limit_error''} then 429
         else if code \<in> set copilotRateCodes then 429
         else if code \<in> {''model_overloaded'', ''engine_overloaded'', ''overloaded_error'', ''service_unavailable''} then 503
         else if code \<in> {''gateway_timeout'', ''timeout''} then 504
         else if code = ''bad_gateway'' then 502
         else if errType \<in> {''rate_limit_error'', ''rate_limit_exceeded''} then 429
         else if errType = ''overloaded_error'' then 503
         else 502)"

definition streamErrorText :: "openAIStreamError \<Rightarrow> string" where
  "streamErrorText e =
     (if oseMessage e \<noteq> '''' then oseMessage e
      else if oseCode e \<noteq> '''' then oseCode e
      else if oseType e \<noteq> '''' then oseType e
      else ''upstream stream error'')"

definition isErrorEvent :: "string \<Rightarrow> bool" where
  "isErrorEvent eventType \<longleftrightarrow> equalFold (trimSpace eventType) ''error''"

definition shouldParseOpenAIStreamError :: "string \<Rightarrow> string \<Rightarrow> bool" where
  "shouldParseOpenAIStreamError eventType data0 =
     (if isErrorEvent eventType then True
      else let data = trimLeft data0 [CHR '' '', CHR 0x09, carriage, newline]
      in if data = '''' \<or> hd data \<noteq> CHR ''{'' then False
         else goContains data ([CHR 0x22] @ ''error'' @ [CHR 0x22]))"

definition streamErrorOf :: "errorFields \<Rightarrow> openAIStreamError" where
  "streamErrorOf f =
     \<lparr>oseType = trimSpace (efType f), oseCode = trimSpace (efCode f), oseMessage = trimSpace (efMessage f)\<rparr>"

definition parseOpenAIStreamError :: "streamJson \<Rightarrow> string \<Rightarrow> string \<Rightarrow> openAIStreamError option" where
  "parseOpenAIStreamError J eventType data =
     (if \<not> shouldParseOpenAIStreamError eventType data then None
      else let parsed = (case sjEnvelope J data of
               None \<Rightarrow> None
             | Some envelope \<Rightarrow> (case eeError envelope of
                   Some f \<Rightarrow> Some (streamErrorOf f)
                 | None \<Rightarrow> if isErrorEvent eventType then Some (streamErrorOf (eeTop envelope)) else None))
      in case parsed of
           Some e \<Rightarrow> Some e
         | None \<Rightarrow>
             if isErrorEvent eventType
             then Some \<lparr>oseType = '''', oseCode = '''', oseMessage = sanitizeUpstreamErrorText data\<rparr>
             else None)"

text \<open>\<open>anthropicStreamErrorStatus\<close>.\<close>

definition anthropicStreamErrorStatus :: "streamJson \<Rightarrow> string \<Rightarrow> int option" where
  "anthropicStreamErrorStatus J data =
     (case sjErrorEvent J data of
        None \<Rightarrow> None
      | Some event \<Rightarrow>
          if aeType event \<noteq> ''error'' \<and> aeError event = None then None
          else if (case aeError event of None \<Rightarrow> False
                   | Some (type, code) \<Rightarrow> goLower (trimSpace code) \<in> set copilotRateCodes) then Some 429
          else let errType = (case aeError event of None \<Rightarrow> '''' | Some (type, code) \<Rightarrow> goLower (trimSpace type))
          in if errType \<in> {''rate_limit_error'', ''rate_limit_exceeded''} then Some 429
             else if errType = ''overloaded_error'' then Some 503
             else if errType \<in> {''api_error'', ''internal_server_error''} then Some 502
             else if errType = ''invalid_request_error'' then Some 400
             else if errType = ''authentication_error'' then Some 401
             else if errType = ''permission_error'' then Some 403
             else if errType = ''not_found_error'' then Some 404
             else Some 502)"

section \<open>Progress of a chunk\<close>

definition rawJSONIsNullOrEmpty :: "string \<Rightarrow> bool" where
  "rawJSONIsNullOrEmpty raw \<longleftrightarrow> trimSpace raw = '''' \<or> trimSpace raw = ''null''"

definition rawJSONHasSemanticValue :: "streamJson \<Rightarrow> string \<Rightarrow> bool" where
  "rawJSONHasSemanticValue J raw =
     (let trimmed = trimSpace raw
      in if trimmed = '''' \<or> trimmed = ''null'' \<or> trimmed = [CHR 0x22, CHR 0x22] then False
         else case sjString J trimmed of Some text \<Rightarrow> text \<noteq> '''' | None \<Rightarrow> True)"

definition rawJSONStringOf :: "streamJson \<Rightarrow> string \<Rightarrow> string" where
  "rawJSONStringOf J raw = (case sjString J raw of None \<Rightarrow> '''' | Some text \<Rightarrow> trimSpace text)"

definition toolDeltaKeys :: "string list" where
  "toolDeltaKeys = [''tool_calls'', ''function_call'']"

definition outputDeltaKeys :: "string list" where
  "outputDeltaKeys = [''content'', ''reasoning'', ''reasoning_content'', ''reasoning_text'', ''refusal'', ''audio'']"

fun deltaLoop :: "streamJson \<Rightarrow> upstreamSemanticProgress \<Rightarrow> (string, string) gomap \<Rightarrow> upstreamSemanticProgress" where
  "deltaLoop J progress [] = progress"
| "deltaLoop J progress ((key, val) # kvs) =
     (if key = ''role'' then deltaLoop J progress kvs
      else if key \<in> set toolDeltaKeys then
        deltaLoop J (if \<not> rawJSONIsNullOrEmpty val
                     then mergeUpstreamSemanticProgress progress upstreamProgressToolActivity else progress) kvs
      else if key \<in> set outputDeltaKeys then
        deltaLoop J (if rawJSONHasSemanticValue J val
                     then mergeUpstreamSemanticProgress progress upstreamProgressSemanticOutput else progress) kvs
      else if \<not> rawJSONIsNullOrEmpty val then upstreamProgressUnknown
      else deltaLoop J progress kvs)"

definition classifyOpenAIChatDeltaProgress :: "streamJson \<Rightarrow> (string, string) gomap \<Rightarrow> upstreamSemanticProgress" where
  "classifyOpenAIChatDeltaProgress J delta = deltaLoop J upstreamProgressAllowedPreamble delta"

fun choicesProgress :: "streamJson \<Rightarrow> upstreamSemanticProgress \<Rightarrow> string list \<Rightarrow> upstreamSemanticProgress" where
  "choicesProgress J progress [] = progress"
| "choicesProgress J progress (choiceRaw # rest) =
     (case sjObject J choiceRaw of
        None \<Rightarrow> upstreamProgressUnknown
      | Some choice \<Rightarrow>
          let progress1 = (case gm_get choice ''finish_reason'' of
                 Some finish \<Rightarrow> if \<not> rawJSONIsNullOrEmpty finish
                   then mergeUpstreamSemanticProgress progress upstreamProgressTerminalSuccess else progress
               | None \<Rightarrow> progress)
          in case gm_get choice ''delta'' of
               None \<Rightarrow> choicesProgress J progress1 rest
             | Some deltaRaw \<Rightarrow>
                 if rawJSONIsNullOrEmpty deltaRaw then choicesProgress J progress1 rest
                 else case sjObject J deltaRaw of
                   None \<Rightarrow> upstreamProgressUnknown
                 | Some delta \<Rightarrow>
                     choicesProgress J (mergeUpstreamSemanticProgress progress1 (classifyOpenAIChatDeltaProgress J delta)) rest)"

definition knownTopLevel :: "string list" where
  "knownTopLevel =
     [''id'', ''object'', ''created'', ''model'', ''choices'', ''system_fingerprint'', ''service_tier'',
      ''usage'', ''copilot_usage'']"

definition fieldPresent :: "(string, string) gomap \<Rightarrow> string \<Rightarrow> bool" where
  "fieldPresent raw key \<longleftrightarrow> (case gm_get raw key of None \<Rightarrow> False | Some v \<Rightarrow> \<not> rawJSONIsNullOrEmpty v)"

definition classifyOpenAIChatChunkProgress :: "streamJson \<Rightarrow> (string, string) gomap \<Rightarrow> upstreamSemanticProgress" where
  "classifyOpenAIChatChunkProgress J raw =
     (if \<exists>(key, val) \<in> set raw. key \<notin> set knownTopLevel \<and> \<not> rawJSONIsNullOrEmpty val then upstreamProgressUnknown
      else if fieldPresent raw ''usage'' then upstreamProgressTerminalSuccess
      else if fieldPresent raw ''copilot_usage'' then upstreamProgressTerminalSuccess
      else case gm_get raw ''choices'' of
        None \<Rightarrow> upstreamProgressAllowedPreamble
      | Some choicesRaw \<Rightarrow>
          if rawJSONIsNullOrEmpty choicesRaw then upstreamProgressAllowedPreamble
          else case sjArray J choicesRaw of
            None \<Rightarrow> upstreamProgressUnknown
          | Some choices \<Rightarrow>
              if choices = [] then upstreamProgressAllowedPreamble
              else choicesProgress J upstreamProgressAllowedPreamble choices)"

section \<open>Inspecting an event\<close>

record explicitRouteStreamFailure =
  efStatus :: int
  efErrType :: string
  efFailCode :: string
  efFailMessage :: string

definition streamFailureText :: "explicitRouteStreamFailure \<Rightarrow> string" where
  "streamFailureText f =
     (if trimSpace (efFailMessage f) \<noteq> '''' then efFailMessage f
      else if trimSpace (efFailCode f) \<noteq> '''' then efFailCode f
      else if trimSpace (efErrType f) \<noteq> '''' then efErrType f
      else ''upstream stream error'')"

record explicitRouteStreamInspection =
  inChunk :: "OpenAIStreamChunk option"
  inProgress :: upstreamSemanticProgress
  inFailure :: "explicitRouteStreamFailure option"
  inTerminalSuccess :: bool

definition inspectionOf :: "upstreamSemanticProgress \<Rightarrow> explicitRouteStreamInspection" where
  "inspectionOf progress =
     \<lparr>inChunk = None, inProgress = progress, inFailure = None, inTerminalSuccess = False\<rparr>"

definition doneInspection :: explicitRouteStreamInspection where
  "doneInspection = (inspectionOf upstreamProgressTerminalSuccess)\<lparr>inTerminalSuccess := True\<rparr>"

definition errorEventProgress :: "streamJson \<Rightarrow> string \<Rightarrow> upstreamSemanticProgress" where
  "errorEventProgress J data =
     (case sjObject J data of
        None \<Rightarrow> upstreamProgressUnknown
      | Some envelope \<Rightarrow>
          if \<exists>(key, val) \<in> set envelope. key \<notin> {''error'', ''request_id'', ''request-id''} \<and> \<not> rawJSONIsNullOrEmpty val
          then upstreamProgressUnknown else upstreamProgressNone)"

definition chatEventTypes :: "string list" where
  "chatEventTypes = ['''', ''message'', ''completion'', ''chat.completion.chunk'']"

definition inspectOpenAIChatStreamEvent :: "streamJson \<Rightarrow> string \<Rightarrow> string \<Rightarrow> explicitRouteStreamInspection" where
  "inspectOpenAIChatStreamEvent J eventType data0 =
     (let data = trimSpace data0
      in if data = ''[DONE]'' then doneInspection
         else case parseOpenAIStreamError J eventType data of
           Some e \<Rightarrow>
             (inspectionOf (errorEventProgress J data))
               \<lparr>inFailure := Some \<lparr>efStatus = streamErrorStatus e, efErrType = oseType e, efFailCode = oseCode e,
                                    efFailMessage = streamErrorText e\<rparr>\<rparr>
         | None \<Rightarrow>
             if data = '''' then inspectionOf upstreamProgressAllowedPreamble
             else if goLower (trimSpace eventType) \<notin> set chatEventTypes then inspectionOf upstreamProgressUnknown
             else case sjObject J data of
               None \<Rightarrow> inspectionOf upstreamProgressUnknown
             | Some raw \<Rightarrow> (case sjChunk J data of
                   None \<Rightarrow> inspectionOf upstreamProgressUnknown
                 | Some chunk \<Rightarrow> (inspectionOf (classifyOpenAIChatChunkProgress J raw))\<lparr>inChunk := Some chunk\<rparr>))"

definition payloadField :: "(string, string) gomap \<Rightarrow> string \<Rightarrow> string" where
  "payloadField payload key = (case gm_get payload key of None \<Rightarrow> '''' | Some v \<Rightarrow> v)"

definition inspectAnthropicStreamEvent ::
  "streamJson \<Rightarrow> string \<Rightarrow> string \<Rightarrow> bool \<Rightarrow> explicitRouteStreamInspection" where
  "inspectAnthropicStreamEvent J eventType data0 requireMessageStop =
     (let data = trimSpace data0
      in if data = '''' then inspectionOf upstreamProgressAllowedPreamble
         else case sjObject J data of
           None \<Rightarrow> inspectionOf upstreamProgressUnknown
         | Some payload \<Rightarrow>
             let declared = rawJSONStringOf J (payloadField payload ''type'');
                 typeName = goLower (if declared = '''' then trimSpace eventType else declared)
             in if typeName \<in> {''ping'', ''message_start''} then inspectionOf upstreamProgressAllowedPreamble
                else if typeName = ''content_block_start'' then
                  (case sjObject J (payloadField payload ''content_block'') of
                     None \<Rightarrow> inspectionOf upstreamProgressUnknown
                   | Some block \<Rightarrow>
                       let kind = goLower (rawJSONStringOf J (payloadField block ''type''))
                       in if kind \<in> {''tool_use'', ''server_tool_use'', ''web_search_tool_result''}
                          then inspectionOf upstreamProgressToolActivity
                          else if kind \<in> {''text'', ''thinking'', ''redacted_thinking''}
                          then inspectionOf upstreamProgressSemanticOutput
                          else inspectionOf upstreamProgressUnknown)
                else if typeName = ''content_block_delta'' then
                  (case sjObject J (payloadField payload ''delta'') of
                     None \<Rightarrow> inspectionOf upstreamProgressUnknown
                   | Some delta \<Rightarrow>
                       let kind = goLower (rawJSONStringOf J (payloadField delta ''type''))
                       in if kind = ''input_json_delta'' then inspectionOf upstreamProgressToolActivity
                          else if kind \<in> {''text_delta'', ''thinking_delta'', ''signature_delta'', ''citations_delta''}
                          then inspectionOf upstreamProgressSemanticOutput
                          else inspectionOf upstreamProgressUnknown)
                else if typeName \<in> {''content_block_stop'', ''message_delta''} \<and> requireMessageStop then
                  inspectionOf upstreamProgressSemanticOutput
                else if typeName \<in> {''content_block_stop'', ''message_delta'', ''message_stop''} then doneInspection
                else if typeName = ''error'' then
                  (let status = (case anthropicStreamErrorStatus J data of None \<Rightarrow> 502 | Some status \<Rightarrow> status);
                       f = sjErrorFields J data;
                       code = (if trimSpace (efCode f) = '''' then trimSpace (efType f) else trimSpace (efCode f))
                   in (inspectionOf upstreamProgressUnset)
                        \<lparr>inFailure := Some \<lparr>efStatus = status, efErrType = trimSpace (efType f), efFailCode = code,
                                             efFailMessage = trimSpace (efMessage f)\<rparr>\<rparr>)
                else inspectionOf upstreamProgressUnknown)"

section \<open>Consuming a stream of chunks\<close>

record 's chunkRun =
  crDone :: bool
  crError :: "openAIStreamError option"
  crProgress :: upstreamSemanticProgress
  crUser :: 's

definition chunkStart :: "'s \<Rightarrow> 's chunkRun" where
  "chunkStart s = \<lparr>crDone = False, crError = None, crProgress = upstreamProgressNone, crUser = s\<rparr>"

type_synonym 's onChunk = "OpenAIStreamChunk \<Rightarrow> 's \<Rightarrow> bool \<times> 's"

definition callOnChunk :: "'s onChunk option \<Rightarrow> OpenAIStreamChunk \<Rightarrow> 's chunkRun \<Rightarrow> bool \<times> 's chunkRun" where
  "callOnChunk onChunk chunk r =
     (case onChunk of
        None \<Rightarrow> (True, r)
      | Some f \<Rightarrow> (case f chunk (crUser r) of (go, s) \<Rightarrow> (go, r\<lparr>crUser := s\<rparr>)))"

definition chunkData :: "streamJson \<Rightarrow> 's onChunk option \<Rightarrow> ('s chunkRun) onData" where
  "chunkData J onChunk eventType data r =
     (if data = ''[DONE]'' then (False, r\<lparr>crDone := True\<rparr>)
      else case parseOpenAIStreamError J eventType data of
        Some e \<Rightarrow> (False, r\<lparr>crError := Some e\<rparr>)
      | None \<Rightarrow> (case sjChunk J data of
            None \<Rightarrow> (True, r)
          | Some chunk \<Rightarrow> callOnChunk onChunk chunk r))"

text \<open>The error a consumer returns: one the stream carried, or one of the reader.\<close>

datatype consumeError = ceStream openAIStreamError | ceRead readError

definition consumeOpenAIStreamChunks ::
  "streamJson \<Rightarrow> 's onChunk option \<Rightarrow> streamEnd \<Rightarrow> string \<Rightarrow> 's \<Rightarrow> bool \<times> consumeError option \<times> 's" where
  "consumeOpenAIStreamChunks J onChunk fin body s =
     (case sseLoop False (chunkData J onChunk) fin body emptyAccumulator (chunkStart s) of
        (soReadError e, r) \<Rightarrow> (False, Some (ceRead e), crUser r)
      | (soEnded, r) \<Rightarrow> (crDone r, None, crUser r)
      | (stopped, r) \<Rightarrow> (crDone r, map_option ceStream (crError r), crUser r))"

definition progressData :: "streamJson \<Rightarrow> 's onChunk option \<Rightarrow> ('s chunkRun) onData" where
  "progressData J onChunk eventType data r =
     (let result = inspectOpenAIChatStreamEvent J eventType data;
          r1 = r\<lparr>crProgress := mergeUpstreamSemanticProgress (crProgress r) (inProgress result)\<rparr>
      in case inFailure result of
           Some f \<Rightarrow>
             (False, r1\<lparr>crError := Some \<lparr>oseType = efErrType f, oseCode = efFailCode f,
                                          oseMessage = streamFailureText f\<rparr>\<rparr>)
         | None \<Rightarrow>
             if inTerminalSuccess result \<and> trimSpace data = ''[DONE]'' then (False, r1\<lparr>crDone := True\<rparr>)
             else case inChunk result of
               None \<Rightarrow> (True, r1)
             | Some chunk \<Rightarrow> callOnChunk onChunk chunk r1)"

definition consumeOpenAIStreamChunksWithProgress ::
  "streamJson \<Rightarrow> 's onChunk option \<Rightarrow> streamEnd \<Rightarrow> string \<Rightarrow> 's \<Rightarrow>
   bool \<times> upstreamSemanticProgress \<times> consumeError option \<times> 's" where
  "consumeOpenAIStreamChunksWithProgress J onChunk fin body s =
     (case sseLoop True (progressData J onChunk) fin body emptyAccumulator (chunkStart s) of
        (soEventWithoutData, r) \<Rightarrow> (crDone r, upstreamProgressUnknown, map_option ceStream (crError r), crUser r)
      | (soStopped, r) \<Rightarrow> (crDone r, crProgress r, map_option ceStream (crError r), crUser r)
      | (soReadError e, r) \<Rightarrow>
          (False, mergeUpstreamSemanticProgress (crProgress r) upstreamProgressUnknown, Some (ceRead e), crUser r)
      | (soEnded, r) \<Rightarrow> (crDone r, crProgress r, None, crUser r))"


section \<open>Which progress lets a request be sent again\<close>

lemma switch_allowed_iff: "upstreamProgressAllowsTargetSwitch p \<longleftrightarrow> progressOrd p \<le> 1"
  by (cases p) (simp_all add: upstreamProgressAllowsTargetSwitch_def)

lemma allows_merge [simp]:
  "upstreamProgressAllowsTargetSwitch (mergeUpstreamSemanticProgress a b) \<longleftrightarrow>
     upstreamProgressAllowsTargetSwitch a \<and> upstreamProgressAllowsTargetSwitch b"
  by (simp add: switch_allowed_iff prog.merge_ord)

lemma allows_consts [simp]:
  "upstreamProgressAllowsTargetSwitch upstreamProgressAllowedPreamble"
  "upstreamProgressAllowsTargetSwitch upstreamProgressNone"
  "upstreamProgressAllowsTargetSwitch upstreamProgressUnset"
  "\<not> upstreamProgressAllowsTargetSwitch upstreamProgressUnknown"
  "\<not> upstreamProgressAllowsTargetSwitch upstreamProgressToolActivity"
  "\<not> upstreamProgressAllowsTargetSwitch upstreamProgressSemanticOutput"
  "\<not> upstreamProgressAllowsTargetSwitch upstreamProgressTerminalSuccess"
  by (simp_all add: upstreamProgressAllowsTargetSwitch_def)

text \<open>
  The reference: an event is silent when it carries no output, no tool activity, no usage, no end
  and nothing the proxy does not know.
\<close>

definition silentMember :: "streamJson \<Rightarrow> string \<Rightarrow> string \<Rightarrow> bool" where
  "silentMember J key val \<longleftrightarrow>
     key = ''role'' \<or>
     (if key \<in> set outputDeltaKeys
      then \<not> rawJSONHasSemanticValue J val else rawJSONIsNullOrEmpty val)"

definition silentChoice :: "streamJson \<Rightarrow> string \<Rightarrow> bool" where
  "silentChoice J choiceRaw \<longleftrightarrow>
     (case sjObject J choiceRaw of None \<Rightarrow> False
      | Some choice \<Rightarrow> \<not> fieldPresent choice ''finish_reason'' \<and>
          (fieldPresent choice ''delta'' \<longrightarrow>
             (case sjObject J (payloadField choice ''delta'') of None \<Rightarrow> False
              | Some delta \<Rightarrow> \<forall>(key, val) \<in> set delta. silentMember J key val)))"

definition silentChunk :: "streamJson \<Rightarrow> (string, string) gomap \<Rightarrow> bool" where
  "silentChunk J raw \<longleftrightarrow>
     (\<forall>(key, val) \<in> set raw. key \<in> set knownTopLevel \<or> rawJSONIsNullOrEmpty val) \<and>
     \<not> fieldPresent raw ''usage'' \<and> \<not> fieldPresent raw ''copilot_usage'' \<and>
     (fieldPresent raw ''choices'' \<longrightarrow>
        (case sjArray J (payloadField raw ''choices'') of None \<Rightarrow> False
         | Some choices \<Rightarrow> \<forall>c \<in> set choices. silentChoice J c))"

text \<open>An error is silent when its event holds nothing else.\<close>

definition silentError :: "streamJson \<Rightarrow> string \<Rightarrow> bool" where
  "silentError J data \<longleftrightarrow>
     (case sjObject J data of None \<Rightarrow> False
      | Some envelope \<Rightarrow>
          \<forall>(key, val) \<in> set envelope. key \<in> {''error'', ''request_id'', ''request-id''} \<or> rawJSONIsNullOrEmpty val)"

definition silentEvent :: "streamJson \<Rightarrow> string \<Rightarrow> string \<Rightarrow> bool" where
  "silentEvent J eventType data \<longleftrightarrow>
     trimSpace data \<noteq> ''[DONE]'' \<and>
     (if parseOpenAIStreamError J eventType (trimSpace data) \<noteq> None
      then silentError J (trimSpace data)
      else trimSpace data = '''' \<or>
        goLower (trimSpace eventType) \<in> set chatEventTypes \<and>
        (case sjObject J (trimSpace data) of None \<Rightarrow> False
         | Some raw \<Rightarrow> sjChunk J (trimSpace data) \<noteq> None \<and> silentChunk J raw))"

lemma delta_keys_disjoint: "key \<in> set toolDeltaKeys \<Longrightarrow> key \<notin> set outputDeltaKeys"
  by (auto simp: toolDeltaKeys_def outputDeltaKeys_def)

lemma delta_allows:
  "upstreamProgressAllowsTargetSwitch (deltaLoop J p delta) \<longleftrightarrow>
     upstreamProgressAllowsTargetSwitch p \<and> (\<forall>(key, val) \<in> set delta. silentMember J key val)"
proof (induction delta arbitrary: p)
  case (Cons kv delta)
  obtain key val where kv: "kv = (key, val)" by (cases kv)
  show ?case
    by (cases "key = ''role''"; cases "key \<in> set toolDeltaKeys"; cases "key \<in> set outputDeltaKeys")
      (simp_all add: kv Cons silentMember_def delta_keys_disjoint)
qed simp

lemma choices_allow:
  "upstreamProgressAllowsTargetSwitch (choicesProgress J p choices) \<longleftrightarrow>
     upstreamProgressAllowsTargetSwitch p \<and> (\<forall>c \<in> set choices. silentChoice J c)"
  by (induction choices arbitrary: p)
    (auto simp: silentChoice_def Let_def fieldPresent_def payloadField_def classifyOpenAIChatDeltaProgress_def
      delta_allows split: option.splits)

lemma chunk_allows:
  "upstreamProgressAllowsTargetSwitch (classifyOpenAIChatChunkProgress J raw) \<longleftrightarrow> silentChunk J raw"
proof (cases "\<exists>(key, val) \<in> set raw. key \<notin> set knownTopLevel \<and> \<not> rawJSONIsNullOrEmpty val")
  case True
  then show ?thesis unfolding classifyOpenAIChatChunkProgress_def silentChunk_def by auto
next
  case False
  then have "\<forall>(key, val) \<in> set raw. key \<in> set knownTopLevel \<or> rawJSONIsNullOrEmpty val" by auto
  with False show ?thesis
    by (simp add: classifyOpenAIChatChunkProgress_def silentChunk_def choices_allow fieldPresent_def payloadField_def
        split: option.splits)
qed

lemma inspection_simps [simp]:
  "inProgress (inspectionOf p) = p" "inFailure (inspectionOf p) = None"
  "inProgress doneInspection = upstreamProgressTerminalSuccess" "inFailure doneInspection = None"
  "inTerminalSuccess doneInspection" "\<not> inTerminalSuccess (inspectionOf p)"
  by (simp_all add: inspectionOf_def doneInspection_def)

lemma error_progress: "upstreamProgressAllowsTargetSwitch (errorEventProgress J data) \<longleftrightarrow> silentError J data"
  by (auto simp: errorEventProgress_def silentError_def split: option.splits)

lemma event_allows:
  "upstreamProgressAllowsTargetSwitch (inProgress (inspectOpenAIChatStreamEvent J eventType data)) \<longleftrightarrow>
     silentEvent J eventType data"
proof -
  define D where "D = trimSpace data"
  note u = inspectOpenAIChatStreamEvent_def silentEvent_def Let_def D_def[symmetric]
  consider (stop) "D = ''[DONE]''"
    | (err) e where "D \<noteq> ''[DONE]''" "parseOpenAIStreamError J eventType D = Some e"
    | (plain) "D \<noteq> ''[DONE]''" "parseOpenAIStreamError J eventType D = None" by blast
  then show ?thesis
  proof cases
    case stop
    then show ?thesis by (simp add: u)
  next
    case err
    then show ?thesis by (simp add: u error_progress)
  next
    case plain
    show ?thesis
    proof (cases "D = '''' \<or> goLower (trimSpace eventType) \<notin> set chatEventTypes")
      case True
      with plain show ?thesis by (auto simp: u)
    next
      case False
      with plain show ?thesis
        by (cases "sjObject J D"; cases "sjChunk J D") (simp_all add: u chunk_allows)
    qed
  qed
qed

text \<open>
  The reference for the Messages protocol: a ping, the start of a message (which may name the tokens of
  the request) or an error. Blocks, their deltas and ends, the ends of messages and unknown events are
  not silent.
\<close>

definition silentMessagesEvent :: "streamJson \<Rightarrow> string \<Rightarrow> string \<Rightarrow> bool" where
  "silentMessagesEvent J eventType data \<longleftrightarrow>
     trimSpace data = '''' \<or>
     (case sjObject J (trimSpace data) of None \<Rightarrow> False
      | Some payload \<Rightarrow>
          goLower (let declared = rawJSONStringOf J (payloadField payload ''type'')
                   in if declared = '''' then trimSpace eventType else declared)
            \<in> {''ping'', ''message_start'', ''error''})"

lemma messages_event_allows:
  "upstreamProgressAllowsTargetSwitch (inProgress (inspectAnthropicStreamEvent J eventType data stop)) \<longleftrightarrow>
     silentMessagesEvent J eventType data"
proof (cases "trimSpace data = ''''")
  case True
  then show ?thesis by (simp add: inspectAnthropicStreamEvent_def silentMessagesEvent_def)
next
  case False
  show ?thesis
  proof (cases "sjObject J (trimSpace data)")
    case None
    then show ?thesis using False by (simp add: inspectAnthropicStreamEvent_def silentMessagesEvent_def)
  next
    case (Some payload)
    define typeName where "typeName = goLower (let declared = rawJSONStringOf J (payloadField payload ''type'')
      in if declared = '''' then trimSpace eventType else declared)"
    have s: "silentMessagesEvent J eventType data \<longleftrightarrow> typeName \<in> {''ping'', ''message_start'', ''error''}"
      using False Some by (simp add: silentMessagesEvent_def typeName_def)
    show ?thesis
      unfolding s inspectAnthropicStreamEvent_def Let_def option.case Some if_not_P[OF False]
      unfolding typeName_def[unfolded Let_def, symmetric]
      by (auto split: option.splits)
  qed
qed

text \<open>The events a callback was given, the one it stopped at included.\<close>

fun handedEvents :: "'s onData \<Rightarrow> (string \<times> string) list \<Rightarrow> 's \<Rightarrow> (string \<times> string) list" where
  "handedEvents f [] s = []"
| "handedEvents f ((t, d) # evs) s = (t, d) # (case f t d s of (go, s') \<Rightarrow> if go then handedEvents f evs s' else [])"

lemma progress_data_progress:
  "progressData J onChunk t d r = (go, r') \<Longrightarrow>
   crProgress r' = mergeUpstreamSemanticProgress (crProgress r) (inProgress (inspectOpenAIChatStreamEvent J t d))"
  by (auto simp: progressData_def Let_def callOnChunk_def split: option.splits if_splits prod.splits)

lemma run_progress:
  "runEvents (progressData J onChunk) evs r = (go, r') \<Longrightarrow>
   upstreamProgressAllowsTargetSwitch (crProgress r') \<longleftrightarrow>
     upstreamProgressAllowsTargetSwitch (crProgress r) \<and>
     (\<forall>(t, d) \<in> set (handedEvents (progressData J onChunk) evs r). silentEvent J t d)"
proof (induction evs arbitrary: r)
  case (Cons ev evs)
  obtain t d where e: "ev = (t, d)" by (cases ev)
  obtain go1 r1 where s: "progressData J onChunk t d r = (go1, r1)" by (cases "progressData J onChunk t d r") auto
  show ?case
    using Cons progress_data_progress[OF s] by (cases go1) (auto simp: e s event_allows)
qed simp


section \<open>The property of the stream\<close>

text \<open>C13. A stream lets a request be sent again only while it was silent. When the consumer of a
  stream reports a progress that allows another target, every event that was handed to it carried
  no output, no tool activity, no usage and nothing unknown, an error event carried only the error,
  and the end of the answer was not seen.\<close>

theorem switch_only_before_output:
  assumes "\<forall>l \<in> set (streamLines body). length l \<le> openAIStreamScannerMaxBuffer"
    and "consumeOpenAIStreamChunksWithProgress J onChunk fin body s = (sawDone, progress, err, s')"
    and "upstreamProgressAllowsTargetSwitch progress"
  shows "\<forall>(t, d) \<in> set (handedEvents (progressData J onChunk) (sseEvents '''' [] (streamLines body)) (chunkStart s)).
    silentEvent J t d"
proof -
  obtain out r where l: "sseLoop True (progressData J onChunk) fin body emptyAccumulator (chunkStart s) = (out, r)"
    by (cases "sseLoop True (progressData J onChunk) fin body emptyAccumulator (chunkStart s)") auto
  have o: "out = soStopped \<or> out = soEnded" "progress = crProgress r"
    using assms(2,3) by (auto simp: consumeOpenAIStreamChunksWithProgress_def l split: streamOutcome.splits)
  have "runEvents (progressData J onChunk) (sseEvents '''' [] (streamLines body)) (chunkStart s) = (out = soEnded, r)"
    using sse_loop_outcome[OF assms(1) l o(1)] by (simp add: emptyAccumulator_def)
  from run_progress[OF this] show ?thesis using assms(3) o(2) by simp
qed

definition oneChoiceJson :: streamJson where
  "oneChoiceJson =
     \<lparr>sjEnvelope = \<lambda>_. None, sjObject = \<lambda>_. Some [(''id'', ''1'')], sjArray = \<lambda>_. None, sjString = \<lambda>_. None,
      sjChunk = \<lambda>_. Some \<lparr>ckID = ''1'', ckCreated = 0, ckModel = ''m'', ckChoices = [], ckUsage = None,
                         ckSystemFingerprint = '''', ckCopilotUsage = ''''\<rparr>,
      sjErrorEvent = \<lambda>_. None, sjErrorFields = \<lambda>_. \<lparr>efType = '''', efCode = '''', efMessage = ''''\<rparr>, sjType = \<lambda>_. None\<rparr>"

lemma one_choice_inspect:
  "\<exists>k. inspectOpenAIChatStreamEvent oneChoiceJson '''' ''{}'' =
    (inspectionOf upstreamProgressAllowedPreamble)\<lparr>inChunk := Some k\<rparr>"
proof -
  have t: "trimSpace ''{}'' = ''{}''" by code_simp
  have p: "parseOpenAIStreamError oneChoiceJson '''' ''{}'' = None" by code_simp
  have c: "sjObject oneChoiceJson x = Some [(''id'', ''1'')]" "\<exists>k. sjChunk oneChoiceJson x = Some k" for x
    by (simp_all add: oneChoiceJson_def)
  then obtain k where k: "sjChunk oneChoiceJson ''{}'' = Some k" by blast
  have "classifyOpenAIChatChunkProgress oneChoiceJson [(''id'', ''1'')] = upstreamProgressAllowedPreamble"
    by (simp add: classifyOpenAIChatChunkProgress_def fieldPresent_def knownTopLevel_def)
  then have "inspectOpenAIChatStreamEvent oneChoiceJson '''' ''{}'' =
      (inspectionOf upstreamProgressAllowedPreamble)\<lparr>inChunk := Some k\<rparr>"
    using t p c(1) k by (simp add: inspectOpenAIChatStreamEvent_def Let_def chatEventTypes_def)
  then show ?thesis by blast
qed

lemma one_choice_chunk:
  "progressData oneChoiceJson (None :: unit onChunk option) '''' ''{}'' (chunkStart ()) =
    (True, (chunkStart ())\<lparr>crProgress := upstreamProgressAllowedPreamble\<rparr>)"
proof -
  obtain k where "inspectOpenAIChatStreamEvent oneChoiceJson '''' ''{}'' =
      (inspectionOf upstreamProgressAllowedPreamble)\<lparr>inChunk := Some k\<rparr>" using one_choice_inspect by blast
  then show ?thesis
    by (simp add: progressData_def callOnChunk_def chunkStart_def inspectionOf_def mergeUpstreamSemanticProgress_def)
qed

lemma one_choice_reads:
  "readOpenAISSELine ioEOF (''data: {}'' @ [newline, newline]) = ((''data: {}'' @ [newline], None), [newline])"
  "readOpenAISSELine ioEOF [newline] = (([newline], None), '''')"
  "readOpenAISSELine ioEOF '''' = (('''', Some (readEnd ioEOF)), '''')"
  by (simp_all add: read_line_spec lineEnd_def openAIStreamScannerMaxBuffer_def)

lemma switch_only_before_output_witness:
  "let body = ''data: {}'' @ [newline, newline]
   in \<forall>(t, d) \<in> set (handedEvents (progressData oneChoiceJson (None :: unit onChunk option))
        (sseEvents '''' [] (streamLines body)) (chunkStart ())). silentEvent oneChoiceJson t d"
proof -
  let ?body = "''data: {}'' @ [newline, newline]"
  let ?f = "progressData oneChoiceJson (None :: unit onChunk option)"
  have l: "streamLines ?body = [''data: {}'' @ [newline], [newline]]"
    using streamLines_line[of "''data: {}''" "[newline]"] streamLines_line[of "''''" "''''"] by simp
  have fit: "\<forall>l \<in> set (streamLines ?body). length l \<le> openAIStreamScannerMaxBuffer"
    unfolding l by (simp add: openAIStreamScannerMaxBuffer_def)
  note rd = one_choice_reads
  have tl: "trimLine (''data: {}'' @ [newline]) = ''data: {}''" "trimLine [newline] = ''''"
    by (simp_all add: trimLine_def trimRight_def)
  have p: "parseSSELine ''data: {}'' = Some ''{}''" by code_simp
  let ?r = "(chunkStart ())\<lparr>crProgress := upstreamProgressAllowedPreamble\<rparr>"
  let ?a = "\<lparr>saEventType = '''', saDataLines = [''{}'']\<rparr>"
  have c: "consumeLine (Some ?f) (''data: {}'' @ [newline]) emptyAccumulator (chunkStart ()) = (True, ?a, chunkStart ())"
    "consumeLine (Some ?f) [newline] ?a (chunkStart ()) = (True, emptyAccumulator, ?r)"
    "accDispatch (Some ?f) emptyAccumulator ?r = (True, emptyAccumulator, ?r)"
    using p one_choice_chunk
    by (simp_all only: consumeLine_def tl) (simp_all add: accDispatch_def emptyAccumulator_def)
  have "sseLoop True ?f ioEOF '''' emptyAccumulator ?r = (soEnded, ?r)"
    by (subst sseLoop.simps) (simp add: rd c)
  then have "sseLoop True ?f ioEOF [newline] ?a (chunkStart ()) = (soEnded, ?r)"
    by (subst sseLoop.simps) (simp add: rd c tl)
  then have "sseLoop True ?f ioEOF ?body emptyAccumulator (chunkStart ()) = (soEnded, ?r)"
    by (subst sseLoop.simps) (simp only: rd prod.case c tl, simp add: emptyAccumulator_def)
  then have "consumeOpenAIStreamChunksWithProgress oneChoiceJson (None :: unit onChunk option) ioEOF ?body () =
      (False, upstreamProgressAllowedPreamble, None, ())"
    by (simp add: consumeOpenAIStreamChunksWithProgress_def chunkStart_def)
  from switch_only_before_output[OF fit this] show ?thesis by (simp add: Let_def)
qed

end
