(* ===== verification/Chat_Aggregate.thy ===== *)
theory Chat_Aggregate
  imports Stream_Inspect
begin

text \<open>
  The aggregation of a chat stream into one response (\<open>openAIResponseAggregator\<close> of
  \<open>streaming.go\<close>): choices and tool calls are kept by their index, text and tool arguments grow
  with every chunk, and the response is built with the indexes in order.
\<close>

section \<open>The aggregator\<close>

record aggregatedOpenAIChoice =
  agRole :: string
  agContent :: string
  agContentPresent :: bool
  agRefusal :: string
  agRefusalPresent :: bool
  agToolCalls :: "(int, OpenAIToolCall) gomap"
  agToolCallArguments :: "(int, string) gomap"
  agFinishReason :: "string option"

record openAIResponseBuildOptions =
  boPreserveInvalidToolArguments :: bool
  boRejectInvalidTextDeltas :: bool
  boMaxAccumulatedBytes :: int

record builtMessage =
  bmRole :: string
  bmContent :: "string option"
  bmRefusal :: "string option"
  bmToolCalls :: "OpenAIToolCall list"

record builtChoice =
  bcIndex :: int
  bcMessage :: builtMessage
  bcFinishReason :: "string option"

record OpenAIResponse =
  orID :: string
  orObject :: string
  orCreated :: int
  orModel :: string
  orChoices :: "builtChoice list"
  orUsage :: "streamUsage option"
  orSystemFingerprint :: string
  orCopilotUsage :: string

record openAIResponseAggregator =
  aaResponse :: OpenAIResponse
  aaChoicesByIndex :: "(int, aggregatedOpenAIChoice) gomap"
  aaInvalidContentDelta :: bool
  aaInvalidRefusalDelta :: bool
  aaMaxAccumulatedBytes :: int
  aaAccumulatedChunkBytes :: int

definition emptyResponse :: OpenAIResponse where
  "emptyResponse =
     \<lparr>orID = '''', orObject = '''', orCreated = 0, orModel = '''', orChoices = [], orUsage = None,
      orSystemFingerprint = '''', orCopilotUsage = ''''\<rparr>"

definition newOpenAIResponseAggregatorWithOptions :: "openAIResponseBuildOptions \<Rightarrow> openAIResponseAggregator" where
  "newOpenAIResponseAggregatorWithOptions options =
     \<lparr>aaResponse = emptyResponse, aaChoicesByIndex = [], aaInvalidContentDelta = False,
      aaInvalidRefusalDelta = False, aaMaxAccumulatedBytes = boMaxAccumulatedBytes options,
      aaAccumulatedChunkBytes = 0\<rparr>"

definition emptyChoice :: aggregatedOpenAIChoice where
  "emptyChoice =
     \<lparr>agRole = ''assistant'', agContent = '''', agContentPresent = False, agRefusal = '''',
      agRefusalPresent = False, agToolCalls = [], agToolCallArguments = [], agFinishReason = None\<rparr>"

text \<open>The JSON encoder: a quoted string, the length of an encoded chunk, and \<open>json.Valid\<close>.\<close>

record chatEncoder =
  ceQuote :: "string \<Rightarrow> string"
  ceChunkLength :: "OpenAIStreamChunk \<Rightarrow> int option"
  ceValid :: "string \<Rightarrow> bool"

definition callIndex :: "OpenAIToolCall \<Rightarrow> int" where
  "callIndex call = (case tcIndex call of None \<Rightarrow> 0 | Some i \<Rightarrow> i)"

definition emptyToolCall :: OpenAIToolCall where
  "emptyToolCall = \<lparr>tcID = '''', tcType = '''', tcFunction = \<lparr>fcName = '''', fcArguments = ''''\<rparr>, tcIndex = None\<rparr>"

definition appendToolCallArguments :: "int \<Rightarrow> string \<Rightarrow> aggregatedOpenAIChoice \<Rightarrow> aggregatedOpenAIChoice" where
  "appendToolCallArguments index arguments c =
     (if arguments = '''' then c
      else let builder = (case gm_get (agToolCallArguments c) index of None \<Rightarrow> '''' | Some b \<Rightarrow> b)
           in c\<lparr>agToolCallArguments := gm_put index (builder @ arguments) (agToolCallArguments c)\<rparr>)"

definition updateCall :: "OpenAIToolCall \<Rightarrow> OpenAIToolCall \<Rightarrow> OpenAIToolCall" where
  "updateCall toolCall call =
     (let call1 = (if tcID toolCall \<noteq> '''' then call\<lparr>tcID := tcID toolCall\<rparr> else call);
          call2 = (if tcType toolCall \<noteq> '''' then call1\<lparr>tcType := tcType toolCall\<rparr> else call1)
      in if fcName (tcFunction toolCall) \<noteq> ''''
         then call2\<lparr>tcFunction := (tcFunction call2)\<lparr>fcName := fcName (tcFunction toolCall)\<rparr>\<rparr> else call2)"

definition addToolCall :: "OpenAIToolCall \<Rightarrow> aggregatedOpenAIChoice \<Rightarrow> aggregatedOpenAIChoice" where
  "addToolCall toolCall c =
     (let toolIndex = callIndex toolCall;
          call = (case gm_get (agToolCalls c) toolIndex of None \<Rightarrow> emptyToolCall | Some call \<Rightarrow> call)
      in appendToolCallArguments toolIndex (fcArguments (tcFunction toolCall))
           (c\<lparr>agToolCalls := gm_put toolIndex (updateCall toolCall call) (agToolCalls c)\<rparr>))"

text \<open>A text of a delta: absent or null, malformed, or a string.\<close>

definition deltaText :: "streamJson \<Rightarrow> string option \<Rightarrow> string option option" where
  "deltaText J raw =
     (case raw of None \<Rightarrow> None
      | Some r \<Rightarrow> if trimSpace r = ''null'' then None else Some (sjString J r))"

definition addContent :: "string option option \<Rightarrow> aggregatedOpenAIChoice \<Rightarrow> aggregatedOpenAIChoice" where
  "addContent t c =
     (case t of Some (Some text) \<Rightarrow> c\<lparr>agContentPresent := True, agContent := agContent c @ text\<rparr> | _ \<Rightarrow> c)"

definition addRefusal :: "string option option \<Rightarrow> aggregatedOpenAIChoice \<Rightarrow> aggregatedOpenAIChoice" where
  "addRefusal t c =
     (case t of Some (Some text) \<Rightarrow> c\<lparr>agRefusalPresent := True, agRefusal := agRefusal c @ text\<rparr> | _ \<Rightarrow> c)"

definition stepChoice :: "streamJson \<Rightarrow> OpenAIStreamChoice \<Rightarrow> aggregatedOpenAIChoice \<Rightarrow> aggregatedOpenAIChoice" where
  "stepChoice J choice c =
     (let delta = scDelta choice;
          c1 = (if sdRole delta \<noteq> '''' then c\<lparr>agRole := sdRole delta\<rparr> else c);
          c2 = addRefusal (deltaText J (sdRefusal delta)) (addContent (deltaText J (sdContent delta)) c1);
          c3 = fold addToolCall (sdToolCalls delta) c2
      in case scFinishReason choice of None \<Rightarrow> c3 | Some r \<Rightarrow> c3\<lparr>agFinishReason := Some r\<rparr>)"

definition addChoice :: "streamJson \<Rightarrow> OpenAIStreamChoice \<Rightarrow> openAIResponseAggregator \<Rightarrow> openAIResponseAggregator" where
  "addChoice J choice a =
     (let c = (case gm_get (aaChoicesByIndex a) (scChoiceIndex choice) of None \<Rightarrow> emptyChoice | Some c \<Rightarrow> c)
      in a\<lparr>aaChoicesByIndex := gm_put (scChoiceIndex choice) (stepChoice J choice c) (aaChoicesByIndex a),
           aaInvalidContentDelta :=
             aaInvalidContentDelta a \<or> deltaText J (sdContent (scDelta choice)) = Some None,
           aaInvalidRefusalDelta :=
             aaInvalidRefusalDelta a \<or> deltaText J (sdRefusal (scDelta choice)) = Some None\<rparr>)"

definition addChunkHead :: "OpenAIStreamChunk \<Rightarrow> OpenAIResponse \<Rightarrow> OpenAIResponse" where
  "addChunkHead chunk r =
     (let r1 = (if orID r = '''' then r\<lparr>orID := ckID chunk, orObject := ''chat.completion'',
                                        orCreated := ckCreated chunk, orModel := ckModel chunk\<rparr> else r);
          r2 = (if orSystemFingerprint r1 = '''' \<and> ckSystemFingerprint chunk \<noteq> ''''
                then r1\<lparr>orSystemFingerprint := ckSystemFingerprint chunk\<rparr> else r1);
          r3 = (case ckUsage chunk of None \<Rightarrow> r2 | Some u \<Rightarrow> r2\<lparr>orUsage := Some u\<rparr>)
      in if \<not> rawJSONIsNullOrEmpty (ckCopilotUsage chunk) then r3\<lparr>orCopilotUsage := ckCopilotUsage chunk\<rparr> else r3)"

definition addChunk :: "streamJson \<Rightarrow> OpenAIStreamChunk \<Rightarrow> openAIResponseAggregator \<Rightarrow> openAIResponseAggregator" where
  "addChunk J chunk a =
     fold (addChoice J) (ckChoices chunk) (a\<lparr>aaResponse := addChunkHead chunk (aaResponse a)\<rparr>)"

datatype aggregateError =
    aggregateUnmeasurable | aggregateTooLarge | aggregateMalformedContent | aggregateMalformedRefusal

definition addChunkBounded ::
  "streamJson \<Rightarrow> chatEncoder \<Rightarrow> OpenAIStreamChunk \<Rightarrow> openAIResponseAggregator \<Rightarrow>
   aggregateError + openAIResponseAggregator" where
  "addChunkBounded J E chunk a =
     (if 0 < aaMaxAccumulatedBytes a then
        (case ceChunkLength E chunk of
           None \<Rightarrow> Inl aggregateUnmeasurable
         | Some n \<Rightarrow>
             if aaMaxAccumulatedBytes a - aaAccumulatedChunkBytes a < n then Inl aggregateTooLarge
             else Inr (addChunk J chunk (a\<lparr>aaAccumulatedChunkBytes := aaAccumulatedChunkBytes a + n\<rparr>)))
      else Inr (addChunk J chunk a))"

definition policyTextDeltaError :: "openAIResponseAggregator \<Rightarrow> aggregateError option" where
  "policyTextDeltaError a =
     (if aaInvalidContentDelta a then Some aggregateMalformedContent
      else if aaInvalidRefusalDelta a then Some aggregateMalformedRefusal else None)"

section \<open>Building the response\<close>

definition builtToolCall ::
  "chatEncoder \<Rightarrow> openAIResponseBuildOptions \<Rightarrow> aggregatedOpenAIChoice \<Rightarrow> int \<Rightarrow> OpenAIToolCall" where
  "builtToolCall E options c toolIndex =
     (let call = (case gm_get (agToolCalls c) toolIndex of None \<Rightarrow> emptyToolCall | Some call \<Rightarrow> call);
          call1 = (case gm_get (agToolCallArguments c) toolIndex of
                None \<Rightarrow> call
              | Some arguments \<Rightarrow> call\<lparr>tcFunction := (tcFunction call)\<lparr>fcArguments := arguments\<rparr>\<rparr>)
      in if \<not> boPreserveInvalidToolArguments options \<and> \<not> ceValid E (fcArguments (tcFunction call1))
         then call1\<lparr>tcFunction := (tcFunction call1)\<lparr>fcArguments := ''{}''\<rparr>\<rparr> else call1)"

definition buildMessage ::
  "chatEncoder \<Rightarrow> aggregatedOpenAIChoice \<Rightarrow> openAIResponseBuildOptions \<Rightarrow> builtMessage" where
  "buildMessage E c options =
     \<lparr>bmRole = agRole c,
      bmContent = (if agContentPresent c then Some (ceQuote E (agContent c)) else None),
      bmRefusal = (if agRefusalPresent c then Some (ceQuote E (agRefusal c)) else None),
      bmToolCalls = map (builtToolCall E options c) (sort (map fst (agToolCalls c)))\<rparr>"

definition buildResponseWithOptions ::
  "chatEncoder \<Rightarrow> openAIResponseAggregator \<Rightarrow> openAIResponseBuildOptions \<Rightarrow> OpenAIResponse" where
  "buildResponseWithOptions E a options =
     (aaResponse a)\<lparr>orChoices := map (\<lambda>i.
        let c = (case gm_get (aaChoicesByIndex a) i of None \<Rightarrow> emptyChoice | Some c \<Rightarrow> c)
        in \<lparr>bcIndex = i, bcMessage = buildMessage E c options, bcFinishReason = agFinishReason c\<rparr>)
      (sort (map fst (aaChoicesByIndex a)))\<rparr>"

section \<open>Aggregating a stream\<close>

type_synonym aggregation = "openAIResponseAggregator \<times> aggregateError option"

definition aggregateChunk :: "streamJson \<Rightarrow> chatEncoder \<Rightarrow> OpenAIStreamChunk \<Rightarrow> aggregation \<Rightarrow> bool \<times> aggregation" where
  "aggregateChunk J E chunk s =
     (case addChunkBounded J E chunk (fst s) of
        Inl e \<Rightarrow> (False, fst s, Some e)
      | Inr a \<Rightarrow> (True, a, snd s))"

datatype aggregateFailure = afConsume consumeError | afAggregate aggregateError | afNoDone

definition aggregateStreamToResponseWithProgressOptions ::
  "streamJson \<Rightarrow> chatEncoder \<Rightarrow> openAIResponseBuildOptions \<Rightarrow> streamEnd \<Rightarrow> string \<Rightarrow>
   (aggregateFailure + OpenAIResponse) \<times> upstreamSemanticProgress" where
  "aggregateStreamToResponseWithProgressOptions J E options fin body =
     (case consumeOpenAIStreamChunksWithProgress J (Some (aggregateChunk J E)) fin body
             (newOpenAIResponseAggregatorWithOptions options, None) of
        (sawDone, progress, err, a, addErr) \<Rightarrow>
          ((case err of Some e \<Rightarrow> Inl (afConsume e)
            | None \<Rightarrow> (case addErr of Some e \<Rightarrow> Inl (afAggregate e)
              | None \<Rightarrow>
                  if \<not> sawDone then Inl afNoDone
                  else case (if boRejectInvalidTextDeltas options then policyTextDeltaError a else None) of
                    Some e \<Rightarrow> Inl (afAggregate e)
                  | None \<Rightarrow> Inr (buildResponseWithOptions E a options))), progress))"


section \<open>The reference: a response is the concatenation of its deltas\<close>

text \<open>The last value that is not empty.\<close>

definition lastNonEmpty :: "string \<Rightarrow> string list \<Rightarrow> string" where
  "lastNonEmpty d xs = (if filter (\<lambda>x. x \<noteq> '''') xs = [] then d else last (filter (\<lambda>x. x \<noteq> '''') xs))"

definition lastSome :: "'a option list \<Rightarrow> 'a option" where
  "lastSome xs = (if filter (\<lambda>x. x \<noteq> None) xs = [] then None else last (filter (\<lambda>x. x \<noteq> None) xs))"

definition textsOf :: "string option option list \<Rightarrow> string list" where
  "textsOf ts = concat (map (\<lambda>t. case t of Some (Some text) \<Rightarrow> [text] | _ \<Rightarrow> []) ts)"

definition callsAt :: "int \<Rightarrow> OpenAIToolCall list \<Rightarrow> OpenAIToolCall list" where
  "callsAt j calls = filter (\<lambda>c. callIndex c = j) calls"

definition mergedCall :: "OpenAIToolCall list \<Rightarrow> string \<Rightarrow> OpenAIToolCall" where
  "mergedCall calls arguments =
     \<lparr>tcID = lastNonEmpty '''' (map tcID calls), tcType = lastNonEmpty '''' (map tcType calls),
      tcFunction = \<lparr>fcName = lastNonEmpty '''' (map (fcName \<circ> tcFunction) calls), fcArguments = arguments\<rparr>,
      tcIndex = None\<rparr>"

definition argumentsOf :: "OpenAIToolCall list \<Rightarrow> string" where
  "argumentsOf calls = concat (map (fcArguments \<circ> tcFunction) calls)"

definition referenceCall :: "chatEncoder \<Rightarrow> openAIResponseBuildOptions \<Rightarrow> OpenAIToolCall list \<Rightarrow> OpenAIToolCall" where
  "referenceCall E options calls =
     mergedCall calls
       (if boPreserveInvalidToolArguments options \<or> ceValid E (argumentsOf calls) then argumentsOf calls else ''{}'')"

definition referenceMessage ::
  "streamJson \<Rightarrow> chatEncoder \<Rightarrow> openAIResponseBuildOptions \<Rightarrow> streamDelta list \<Rightarrow> builtMessage" where
  "referenceMessage J E options ds =
     (let contents = textsOf (map (deltaText J \<circ> sdContent) ds);
          refusals = textsOf (map (deltaText J \<circ> sdRefusal) ds);
          calls = concat (map sdToolCalls ds)
      in \<lparr>bmRole = lastNonEmpty ''assistant'' (map sdRole ds),
          bmContent = (if contents = [] then None else Some (ceQuote E (concat contents))),
          bmRefusal = (if refusals = [] then None else Some (ceQuote E (concat refusals))),
          bmToolCalls = map (\<lambda>j. referenceCall E options (callsAt j calls))
            (sorted_list_of_set (callIndex ` set calls))\<rparr>)"

definition referenceChoices ::
  "streamJson \<Rightarrow> chatEncoder \<Rightarrow> openAIResponseBuildOptions \<Rightarrow> OpenAIStreamChunk list \<Rightarrow> builtChoice list" where
  "referenceChoices J E options chunks =
     (let choices = concat (map ckChoices chunks)
      in map (\<lambda>i. let own = filter (\<lambda>c. scChoiceIndex c = i) choices
                  in \<lparr>bcIndex = i, bcMessage = referenceMessage J E options (map scDelta own),
                      bcFinishReason = lastSome (map scFinishReason own)\<rparr>)
           (sorted_list_of_set (scChoiceIndex ` set choices)))"

lemma lastNonEmpty_simps [simp]:
  "lastNonEmpty d [] = d" "lastNonEmpty d (xs @ [x]) = (if x = '''' then lastNonEmpty d xs else x)"
  by (simp_all add: lastNonEmpty_def)

lemma lastSome_simps [simp]:
  "lastSome [] = None" "lastSome (xs @ [x]) = (case x of None \<Rightarrow> lastSome xs | Some y \<Rightarrow> Some y)"
  by (simp_all add: lastSome_def split: option.splits)

lemma textsOf_simps [simp]:
  "textsOf [] = []"
  "textsOf (xs @ [t]) = textsOf xs @ (case t of Some (Some text) \<Rightarrow> [text] | _ \<Rightarrow> [])"
  by (simp_all add: textsOf_def)

lemma callsAt_simps [simp]:
  "callsAt j [] = []" "callsAt j (xs @ ys) = callsAt j xs @ callsAt j ys"
  "callsAt j (c # cs) = (if callIndex c = j then c # callsAt j cs else callsAt j cs)"
  by (simp_all add: callsAt_def)

lemma argumentsOf_simps [simp]: "argumentsOf [] = ''''" "argumentsOf (xs @ ys) = argumentsOf xs @ argumentsOf ys"
  "argumentsOf [c] = fcArguments (tcFunction c)"
  by (simp_all add: argumentsOf_def)

text \<open>What the tool calls of a choice hold after a list of calls.\<close>

definition callsHeld :: "OpenAIToolCall list \<Rightarrow> aggregatedOpenAIChoice \<Rightarrow> bool" where
  "callsHeld calls c \<longleftrightarrow>
     distinct (map fst (agToolCalls c)) \<and>
     (\<forall>j. gm_get (agToolCalls c) j = (if callsAt j calls = [] then None else Some (mergedCall (callsAt j calls) ''''))) \<and>
     (\<forall>j. gm_get (agToolCallArguments c) j =
        (if argumentsOf (callsAt j calls) = '''' then None else Some (argumentsOf (callsAt j calls))))"

lemma merged_empty: "mergedCall [] '''' = emptyToolCall"
  by (simp add: mergedCall_def emptyToolCall_def)

lemma merged_step: "mergedCall (calls @ [k]) '''' = updateCall k (mergedCall calls '''')"
  by (simp add: mergedCall_def updateCall_def)

lemma calls_held_step:
  assumes "callsHeld calls c"
  shows "callsHeld (calls @ [k]) (addToolCall k c)"
proof -
  let ?j = "callIndex k"
  have a: "agToolCalls (addToolCall k c) = gm_put ?j (mergedCall (callsAt ?j calls @ [k]) '''') (agToolCalls c)"
    using assms by (simp add: addToolCall_def merged_step Let_def appendToolCallArguments_def callsHeld_def merged_empty)
  have b: "agToolCallArguments (addToolCall k c) =
      (if fcArguments (tcFunction k) = '''' then agToolCallArguments c
       else gm_put ?j (argumentsOf (callsAt ?j calls) @ fcArguments (tcFunction k)) (agToolCallArguments c))"
    using assms by (simp add: addToolCall_def Let_def appendToolCallArguments_def callsHeld_def)
  show ?thesis
    using assms unfolding callsHeld_def a b by (auto simp: update_conv distinct_update)
qed

lemma calls_held_fold: "callsHeld calls c \<Longrightarrow> callsHeld (calls @ ks) (fold addToolCall ks c)"
proof (induction ks arbitrary: calls c)
  case (Cons k ks)
  from Cons.IH[OF calls_held_step[OF Cons.prems]] show ?case by simp
qed simp

lemma addToolCall_keeps [simp]:
  "agRole (addToolCall k c) = agRole c" "agContent (addToolCall k c) = agContent c"
  "agContentPresent (addToolCall k c) = agContentPresent c" "agRefusal (addToolCall k c) = agRefusal c"
  "agRefusalPresent (addToolCall k c) = agRefusalPresent c" "agFinishReason (addToolCall k c) = agFinishReason c"
  by (simp_all add: addToolCall_def Let_def appendToolCallArguments_def)

lemma fold_addToolCall_keeps [simp]:
  "agRole (fold addToolCall ks c) = agRole c" "agContent (fold addToolCall ks c) = agContent c"
  "agContentPresent (fold addToolCall ks c) = agContentPresent c" "agRefusal (fold addToolCall ks c) = agRefusal c"
  "agRefusalPresent (fold addToolCall ks c) = agRefusalPresent c" "agFinishReason (fold addToolCall ks c) = agFinishReason c"
  by (induction ks arbitrary: c) simp_all


definition choiceHeld :: "streamJson \<Rightarrow> streamDelta list \<Rightarrow> string option list \<Rightarrow> aggregatedOpenAIChoice \<Rightarrow> bool" where
  "choiceHeld J ds finishes c \<longleftrightarrow>
     callsHeld (concat (map sdToolCalls ds)) c \<and>
     agRole c = lastNonEmpty ''assistant'' (map sdRole ds) \<and>
     agContent c = concat (textsOf (map (deltaText J \<circ> sdContent) ds)) \<and>
     agContentPresent c = (textsOf (map (deltaText J \<circ> sdContent) ds) \<noteq> []) \<and>
     agRefusal c = concat (textsOf (map (deltaText J \<circ> sdRefusal) ds)) \<and>
     agRefusalPresent c = (textsOf (map (deltaText J \<circ> sdRefusal) ds) \<noteq> []) \<and>
     agFinishReason c = lastSome finishes"

lemma add_choice_map:
  "aaChoicesByIndex (addChoice J choice a) =
    gm_put (scChoiceIndex choice)
      (stepChoice J choice (case gm_get (aaChoicesByIndex a) (scChoiceIndex choice) of None \<Rightarrow> emptyChoice | Some c \<Rightarrow> c))
      (aaChoicesByIndex a)"
  by (simp add: addChoice_def Let_def)

lemma add_choice_response [simp]: "aaResponse (addChoice J choice a) = aaResponse a"
  by (simp add: addChoice_def Let_def)

lemma text_keeps [simp]:
  "agToolCalls (addContent t c) = agToolCalls c" "agToolCallArguments (addContent t c) = agToolCallArguments c"
  "agToolCalls (addRefusal t c) = agToolCalls c" "agToolCallArguments (addRefusal t c) = agToolCallArguments c"
  "agRole (addContent t c) = agRole c" "agRole (addRefusal t c) = agRole c"
  "agFinishReason (addContent t c) = agFinishReason c" "agFinishReason (addRefusal t c) = agFinishReason c"
  "agRefusal (addContent t c) = agRefusal c" "agRefusalPresent (addContent t c) = agRefusalPresent c"
  "agContent (addRefusal t c) = agContent c" "agContentPresent (addRefusal t c) = agContentPresent c"
  by (simp_all add: addContent_def addRefusal_def split: option.splits)

lemma text_added:
  "agContent (addContent t c) = agContent c @ concat (case t of Some (Some text) \<Rightarrow> [text] | _ \<Rightarrow> [])"
  "agContentPresent (addContent t c) = (agContentPresent c \<or> (case t of Some (Some text) \<Rightarrow> [text] | _ \<Rightarrow> []) \<noteq> [])"
  "agRefusal (addRefusal t c) = agRefusal c @ concat (case t of Some (Some text) \<Rightarrow> [text] | _ \<Rightarrow> [])"
  "agRefusalPresent (addRefusal t c) = (agRefusalPresent c \<or> (case t of Some (Some text) \<Rightarrow> [text] | _ \<Rightarrow> []) \<noteq> [])"
  by (auto simp: addContent_def addRefusal_def split: option.splits)

lemma calls_held_finish: "callsHeld cs (c\<lparr>agFinishReason := f\<rparr>) = callsHeld cs c"
  by (simp add: callsHeld_def)

lemma choice_held_step:
  assumes "choiceHeld J ds fs c"
  shows "choiceHeld J (ds @ [scDelta choice]) (fs @ [scFinishReason choice]) (stepChoice J choice c)"
proof -
  let ?d = "scDelta choice"
  define c1 where "c1 = (if sdRole ?d \<noteq> '''' then c\<lparr>agRole := sdRole ?d\<rparr> else c)"
  define c2 where "c2 = addRefusal (deltaText J (sdRefusal ?d)) (addContent (deltaText J (sdContent ?d)) c1)"
  define c3 where "c3 = fold addToolCall (sdToolCalls ?d) c2"
  have s: "stepChoice J choice c = (case scFinishReason choice of None \<Rightarrow> c3 | Some r \<Rightarrow> c3\<lparr>agFinishReason := Some r\<rparr>)"
    by (simp only: stepChoice_def Let_def c1_def c2_def c3_def)
  have 1: "agToolCalls c1 = agToolCalls c" "agToolCallArguments c1 = agToolCallArguments c" "agContent c1 = agContent c"
    "agContentPresent c1 = agContentPresent c" "agRefusal c1 = agRefusal c" "agRefusalPresent c1 = agRefusalPresent c"
    "agFinishReason c1 = agFinishReason c" "agRole c1 = (if sdRole ?d = '''' then agRole c else sdRole ?d)"
    by (simp_all add: c1_def)
  have "callsHeld (concat (map sdToolCalls ds)) c2"
    using assms by (simp add: choiceHeld_def callsHeld_def c2_def 1)
  from calls_held_fold[OF this] have h: "callsHeld (concat (map sdToolCalls ds) @ sdToolCalls ?d) c3"
    by (simp add: c3_def)
  show ?thesis
    using assms h unfolding choiceHeld_def s
    by (cases "scFinishReason choice") (simp_all add: calls_held_finish c3_def c2_def 1 text_added)
qed

lemma choice_held_empty: "choiceHeld J [] [] emptyChoice"
  by (simp add: choiceHeld_def callsHeld_def emptyChoice_def)

text \<open>What the aggregator holds after a list of choices, one record for every index seen.\<close>

definition ownChoices :: "int \<Rightarrow> OpenAIStreamChoice list \<Rightarrow> OpenAIStreamChoice list" where
  "ownChoices i choices = filter (\<lambda>c. scChoiceIndex c = i) choices"

definition choicesHeld :: "streamJson \<Rightarrow> OpenAIStreamChoice list \<Rightarrow> (int, aggregatedOpenAIChoice) gomap \<Rightarrow> bool" where
  "choicesHeld J choices m \<longleftrightarrow>
     distinct (map fst m) \<and> fst ` set m = scChoiceIndex ` set choices \<and>
     (\<forall>i. choiceHeld J (map scDelta (ownChoices i choices)) (map scFinishReason (ownChoices i choices))
        (case gm_get m i of None \<Rightarrow> emptyChoice | Some c \<Rightarrow> c))"

lemma choices_held_step:
  assumes "choicesHeld J choices (aaChoicesByIndex a)"
  shows "choicesHeld J (choices @ [choice]) (aaChoicesByIndex (addChoice J choice a))"
  using assms choice_held_step[of J "map scDelta (ownChoices (scChoiceIndex choice) choices)" _ _ choice]
  unfolding choicesHeld_def add_choice_map
  by (auto simp: update_conv distinct_update dom_update ownChoices_def)

lemma choices_held_fold:
  "choicesHeld J choices (aaChoicesByIndex a) \<Longrightarrow>
   choicesHeld J (choices @ cs) (aaChoicesByIndex (fold (addChoice J) cs a))"
proof (induction cs arbitrary: choices a)
  case (Cons c cs)
  from Cons.IH[OF choices_held_step[OF Cons.prems]] show ?case by simp
qed simp

lemma choices_held_chunks:
  "choicesHeld J choices (aaChoicesByIndex a) \<Longrightarrow>
   choicesHeld J (choices @ concat (map ckChoices chunks)) (aaChoicesByIndex (fold (addChunk J) chunks a))"
proof (induction chunks arbitrary: choices a)
  case (Cons k chunks)
  have "choicesHeld J (choices @ ckChoices k) (aaChoicesByIndex (addChunk J k a))"
    unfolding addChunk_def by (rule choices_held_fold) (simp add: Cons.prems)
  from Cons.IH[OF this] show ?case by simp
qed simp

lemma sort_keys: "distinct (map fst m) \<Longrightarrow> sort (map fst m) = sorted_list_of_set (fst ` set m)"
  by (metis list.set_map sorted_list_of_set_sort_remdups distinct_remdups_id)

lemma calls_keys: "callsHeld calls c \<Longrightarrow> fst ` set (agToolCalls c) = callIndex ` set calls"
proof -
  assume h: "callsHeld calls c"
  have e: "j \<in> fst ` set (agToolCalls c) \<longleftrightarrow> callsAt j calls \<noteq> []" for j
    using h map_of_eq_None_iff[of "agToolCalls c" j] by (simp add: callsHeld_def split: if_splits)
  show ?thesis
  proof (rule set_eqI)
    fix j
    show "j \<in> fst ` set (agToolCalls c) \<longleftrightarrow> j \<in> callIndex ` set calls"
      using e[of j] unfolding callsAt_def filter_empty_conv image_iff[of j callIndex] by metis
  qed
qed

lemma built_call:
  assumes "callsHeld calls c"
  shows "builtToolCall E options c j = referenceCall E options (callsAt j calls)"
  using assms
  by (auto simp: builtToolCall_def referenceCall_def callsHeld_def Let_def merged_empty[symmetric] mergedCall_def)

lemma built_message:
  assumes "choiceHeld J ds fs c"
  shows "buildMessage E c options = referenceMessage J E options ds"
proof -
  let ?calls = "concat (map sdToolCalls ds)"
  have h: "callsHeld ?calls c" using assms by (simp add: choiceHeld_def)
  have "sort (map fst (agToolCalls c)) = sorted_list_of_set (callIndex ` set ?calls)"
    using sort_keys[of "agToolCalls c"] calls_keys[OF h] h by (simp add: callsHeld_def)
  then have "bmToolCalls (buildMessage E c options) = bmToolCalls (referenceMessage J E options ds)"
    by (simp add: buildMessage_def referenceMessage_def Let_def built_call[OF h])
  then show ?thesis
    using assms by (simp add: buildMessage_def referenceMessage_def Let_def choiceHeld_def)
qed


text \<open>C16. The aggregated response is the concatenation of the stream. Its choices are the indexes seen, in
  order; the content and the refusal of a choice are the texts of its deltas one after the other,
  present only if there was one; every tool call has the last identifier, type and name given for its
  index and all its argument fragments in order, replaced by an empty object only where invalid
  arguments are not to be kept; the finish reason is the last one.\<close>

theorem aggregated_choices_are_concatenation:
  "orChoices (buildResponseWithOptions E
      (fold (addChunk J) chunks (newOpenAIResponseAggregatorWithOptions limits)) options) =
    referenceChoices J E options chunks"
proof -
  let ?a = "fold (addChunk J) chunks (newOpenAIResponseAggregatorWithOptions limits)"
  let ?cs = "concat (map ckChoices chunks)"
  have "choicesHeld J [] (aaChoicesByIndex (newOpenAIResponseAggregatorWithOptions limits))"
    by (simp add: choicesHeld_def newOpenAIResponseAggregatorWithOptions_def ownChoices_def choice_held_empty)
  from choices_held_chunks[OF this, of chunks] have h: "choicesHeld J ?cs (aaChoicesByIndex ?a)" by simp
  then have keys: "sort (map fst (aaChoicesByIndex ?a)) = sorted_list_of_set (scChoiceIndex ` set ?cs)"
    using sort_keys[of "aaChoicesByIndex ?a"] by (simp add: choicesHeld_def)
  have c: "choiceHeld J (map scDelta (ownChoices i ?cs)) (map scFinishReason (ownChoices i ?cs))
      (case gm_get (aaChoicesByIndex ?a) i of None \<Rightarrow> emptyChoice | Some c \<Rightarrow> c)" for i
    using h by (simp add: choicesHeld_def)
  have f: "agFinishReason (case gm_get (aaChoicesByIndex ?a) i of None \<Rightarrow> emptyChoice | Some c \<Rightarrow> c) =
      lastSome (map scFinishReason (ownChoices i ?cs))" for i
    using c[of i] by (simp add: choiceHeld_def)
  show ?thesis
    unfolding buildResponseWithOptions_def referenceChoices_def Let_def keys built_message[OF c] f
    by (simp add: ownChoices_def)
qed

text \<open>A bounded aggregation holds no more bytes than its limit.\<close>

lemma add_chunk_bytes [simp]:
  "aaAccumulatedChunkBytes (addChunk J k a) = aaAccumulatedChunkBytes a"
  "aaMaxAccumulatedBytes (addChunk J k a) = aaMaxAccumulatedBytes a"
proof -
  have "aaAccumulatedChunkBytes (fold (addChoice J) cs a) = aaAccumulatedChunkBytes a \<and>
      aaMaxAccumulatedBytes (fold (addChoice J) cs a) = aaMaxAccumulatedBytes a" for cs a
    by (induction cs arbitrary: a) (simp_all add: addChoice_def Let_def)
  then show "aaAccumulatedChunkBytes (addChunk J k a) = aaAccumulatedChunkBytes a"
    "aaMaxAccumulatedBytes (addChunk J k a) = aaMaxAccumulatedBytes a"
    by (simp_all add: addChunk_def)
qed

lemma bounded_step:
  "addChunkBounded J E k a = Inr a' \<Longrightarrow> aaAccumulatedChunkBytes a \<le> aaMaxAccumulatedBytes a \<Longrightarrow>
   0 < aaMaxAccumulatedBytes a \<Longrightarrow>
   aaMaxAccumulatedBytes a' = aaMaxAccumulatedBytes a \<and> aaAccumulatedChunkBytes a' \<le> aaMaxAccumulatedBytes a' \<and>
   (\<exists>n. ceChunkLength E k = Some n \<and> aaAccumulatedChunkBytes a' = aaAccumulatedChunkBytes a + n)"
  by (auto simp: addChunkBounded_def split: option.splits if_splits)

end
