(* ===== verification/Anthropic_Stream.thy ===== *)
theory Anthropic_Stream
  imports Chat_Aggregate
begin

text \<open>
  The translation of a chat stream into the events of the Messages API (\<open>anthropicStreamState\<close> and
  \<open>streamOpenAIToAnthropicWithLifecycle\<close> of \<open>streaming.go\<close>). The state keeps the events whose
  write to the client succeeded; \<open>ok\<close> says which writes succeed. The encoding of an event as JSON,
  which cannot fail for these structs, and its framing (\<open>Sse_Stream\<close>) are left out here.
\<close>

section \<open>Events and state\<close>

datatype contentBlock =
    textBlock
  | toolUseBlock string string
  | thinkingBlock

datatype blockDelta = textDelta string | inputJSONDelta string | signatureDelta string

record AnthropicUsage =
  auInputTokens :: int
  auOutputTokens :: int
  auCacheReadInputTokens :: int

datatype anthropicEvent =
    message_start string string
  | content_block_start int contentBlock
  | content_block_delta int blockDelta
  | content_block_stop int
  | message_delta string "AnthropicUsage option"
  | message_stop
  | error_event string string

record anthropicStreamState =
  asModel :: string
  asRequestID :: string
  asNextBlockIndex :: int
  asTextBlockIndex :: int
  asStoredFinishReason :: string
  asStoredUsage :: "streamUsage option"
  asToolCallBlockIndex :: "(int, int) gomap"
  asOpenToolCallIndexes :: "int list"
  asClientWriteFailed :: bool
  asSent :: "anthropicEvent list"
  asWrites :: nat

definition newAnthropicStreamState :: "string \<Rightarrow> string \<Rightarrow> anthropicStreamState" where
  "newAnthropicStreamState model requestID =
     \<lparr>asModel = model, asRequestID = requestID, asNextBlockIndex = 0, asTextBlockIndex = - 1,
      asStoredFinishReason = '''', asStoredUsage = None, asToolCallBlockIndex = [], asOpenToolCallIndexes = [],
      asClientWriteFailed = False, asSent = [], asWrites = 0\<rparr>"

type_synonym writeAnswers = "nat \<Rightarrow> bool"
type_synonym streamStep = "anthropicStreamState \<Rightarrow> bool \<times> anthropicStreamState"

definition emitEvent :: "writeAnswers \<Rightarrow> anthropicEvent \<Rightarrow> streamStep" where
  "emitEvent ok event s =
     (if ok (asWrites s)
      then (True, s\<lparr>asSent := asSent s @ [event], asWrites := asWrites s + 1\<rparr>)
      else (False, s\<lparr>asClientWriteFailed := True, asWrites := asWrites s + 1\<rparr>))"

definition andThen :: "bool \<times> anthropicStreamState \<Rightarrow> streamStep \<Rightarrow> bool \<times> anthropicStreamState" where
  "andThen r step = (case r of (go, s) \<Rightarrow> if go then step s else (False, s))"

definition startMessage :: "writeAnswers \<Rightarrow> streamStep" where
  "startMessage ok s = emitEvent ok (message_start (asRequestID s) (asModel s)) s"

definition emitTypedError :: "writeAnswers \<Rightarrow> string \<Rightarrow> string \<Rightarrow> streamStep" where
  "emitTypedError ok errorType0 message0 s =
     (let errorType = (if trimSpace errorType0 = '''' then ''api_error'' else trimSpace errorType0);
          message = (if trimSpace message0 = '''' then ''upstream stream ended unexpectedly'' else trimSpace message0)
      in emitEvent ok (error_event errorType message) s)"

definition emitError :: "writeAnswers \<Rightarrow> string \<Rightarrow> streamStep" where
  "emitError ok message s = emitTypedError ok ''api_error'' message s"

definition emitShutdownError :: "writeAnswers \<Rightarrow> streamStep" where
  "emitShutdownError ok s = emitEvent ok (error_event ''overloaded_error'' ''server shutting down'') s"

section \<open>Content blocks\<close>

definition closeTextBlock :: "writeAnswers \<Rightarrow> streamStep" where
  "closeTextBlock ok s =
     (if asTextBlockIndex s < 0 then (True, s)
      else andThen (emitEvent ok (content_block_stop (asTextBlockIndex s)) s)
             (\<lambda>s. (True, s\<lparr>asTextBlockIndex := - 1\<rparr>)))"

fun stopBlocks :: "writeAnswers \<Rightarrow> int list \<Rightarrow> streamStep" where
  "stopBlocks ok [] s = (True, s)"
| "stopBlocks ok (i # is) s = andThen (emitEvent ok (content_block_stop i) s) (stopBlocks ok is)"

definition closeOpenToolBlocks :: "writeAnswers \<Rightarrow> streamStep" where
  "closeOpenToolBlocks ok s =
     (if asOpenToolCallIndexes s = [] then (True, s)
      else let blockIndexes = sort (List.map_filter (gm_get (asToolCallBlockIndex s)) (asOpenToolCallIndexes s))
           in andThen (stopBlocks ok blockIndexes s) (\<lambda>s. (True, s\<lparr>asOpenToolCallIndexes := []\<rparr>)))"

definition emitText :: "writeAnswers \<Rightarrow> string \<Rightarrow> streamStep" where
  "emitText ok text s =
     andThen (andThen (closeOpenToolBlocks ok s)
       (\<lambda>s. if asTextBlockIndex s < 0
            then let s' = s\<lparr>asTextBlockIndex := asNextBlockIndex s, asNextBlockIndex := asNextBlockIndex s + 1\<rparr>
                 in emitEvent ok (content_block_start (asTextBlockIndex s') textBlock) s'
            else (True, s)))
       (\<lambda>s. emitEvent ok (content_block_delta (asTextBlockIndex s) (textDelta text)) s)"

text \<open>A block index for a tool call is the one it had, or a new one.\<close>

definition registerTool :: "int \<Rightarrow> anthropicStreamState \<Rightarrow> anthropicStreamState" where
  "registerTool toolIndex s =
     (if gm_get (asToolCallBlockIndex s) toolIndex = None
      then s\<lparr>asToolCallBlockIndex := gm_put toolIndex (asNextBlockIndex s) (asToolCallBlockIndex s),
             asNextBlockIndex := asNextBlockIndex s + 1\<rparr>
      else s)"

definition startToolCall :: "writeAnswers \<Rightarrow> int \<Rightarrow> OpenAIToolCall \<Rightarrow> streamStep" where
  "startToolCall ok toolIndex toolCall s =
     andThen (closeTextBlock ok s)
       (\<lambda>s. let s' = registerTool toolIndex s
            in if toolIndex \<in> set (asOpenToolCallIndexes s') then (True, s')
               else let blockIndex = (case gm_get (asToolCallBlockIndex s') toolIndex of None \<Rightarrow> 0 | Some i \<Rightarrow> i)
                    in andThen (emitEvent ok (content_block_start blockIndex
                                  (toolUseBlock (tcID toolCall) (fcName (tcFunction toolCall)))) s')
                         (\<lambda>s. (True, s\<lparr>asOpenToolCallIndexes := List.insert toolIndex (asOpenToolCallIndexes s)\<rparr>)))"

definition consumeToolCall :: "writeAnswers \<Rightarrow> OpenAIToolCall \<Rightarrow> streamStep" where
  "consumeToolCall ok toolCall s =
     (let toolIndex = callIndex toolCall
      in andThen (if tcID toolCall \<noteq> '''' then startToolCall ok toolIndex toolCall s else (True, s))
           (\<lambda>s. if fcArguments (tcFunction toolCall) = '''' then (True, s)
                else case gm_get (asToolCallBlockIndex s) toolIndex of
                  None \<Rightarrow> (True, s)
                | Some blockIndex \<Rightarrow>
                    if toolIndex \<notin> set (asOpenToolCallIndexes s) then (True, s)
                    else emitEvent ok (content_block_delta blockIndex
                           (inputJSONDelta (fcArguments (tcFunction toolCall)))) s))"

fun consumeToolCalls :: "writeAnswers \<Rightarrow> OpenAIToolCall list \<Rightarrow> streamStep" where
  "consumeToolCalls ok [] s = (True, s)"
| "consumeToolCalls ok (k # ks) s = andThen (consumeToolCall ok k s) (consumeToolCalls ok ks)"

text \<open>A text that is decoded and not empty.\<close>

definition usableText :: "streamJson \<Rightarrow> string option \<Rightarrow> string" where
  "usableText J raw =
     (case raw of None \<Rightarrow> '''' | Some r \<Rightarrow> (case sjString J r of None \<Rightarrow> '''' | Some text \<Rightarrow> text))"

definition emitUsable :: "writeAnswers \<Rightarrow> string \<Rightarrow> streamStep" where
  "emitUsable ok text s = (if text \<noteq> '''' then emitText ok text s else (True, s))"

definition consumeChoice :: "streamJson \<Rightarrow> writeAnswers \<Rightarrow> OpenAIStreamChoice \<Rightarrow> streamStep" where
  "consumeChoice J ok choice s =
     andThen (andThen (andThen
       (emitUsable ok (usableText J (sdContent (scDelta choice))) s)
       (emitUsable ok (usableText J (sdRefusal (scDelta choice)))))
       (consumeToolCalls ok (sdToolCalls (scDelta choice))))
       (\<lambda>s. (True, case scFinishReason choice of None \<Rightarrow> s | Some r \<Rightarrow> s\<lparr>asStoredFinishReason := r\<rparr>))"

fun consumeChoices :: "streamJson \<Rightarrow> writeAnswers \<Rightarrow> OpenAIStreamChoice list \<Rightarrow> streamStep" where
  "consumeChoices J ok [] s = (True, s)"
| "consumeChoices J ok (c # cs) s = andThen (consumeChoice J ok c s) (consumeChoices J ok cs)"

definition consumeChunk :: "streamJson \<Rightarrow> writeAnswers \<Rightarrow> OpenAIStreamChunk \<Rightarrow> streamStep" where
  "consumeChunk J ok chunk s =
     consumeChoices J ok (ckChoices chunk)
       (case ckUsage chunk of None \<Rightarrow> s | Some u \<Rightarrow> s\<lparr>asStoredUsage := Some u\<rparr>)"

section \<open>The end of the message\<close>

definition MapStopReason :: "string option \<Rightarrow> string" where
  "MapStopReason finishReason =
     (case finishReason of
        None \<Rightarrow> ''end_turn''
      | Some r \<Rightarrow>
          if r = '''' then ''end_turn''
          else if r = ''stop'' then ''end_turn''
          else if r = ''length'' then ''max_tokens''
          else if r \<in> {''tool_calls'', ''function_call''} then ''tool_use''
          else if r = ''content_filter'' then ''end_turn''
          else ''end_turn'')"

definition openAIUsageToAnthropicUsage :: "streamUsage \<Rightarrow> AnthropicUsage" where
  "openAIUsageToAnthropicUsage u =
     (let cachedTokens = (case suCachedTokens u of None \<Rightarrow> 0 | Some n \<Rightarrow> if 0 < n then n else 0);
          inputTokens = (if suPromptTokens u - cachedTokens < 0 then 0 else suPromptTokens u - cachedTokens)
      in \<lparr>auInputTokens = inputTokens, auOutputTokens = suCompletionTokens u, auCacheReadInputTokens = cachedTokens\<rparr>)"

definition finishMessage :: "writeAnswers \<Rightarrow> streamStep" where
  "finishMessage ok s =
     andThen (andThen (andThen (closeTextBlock ok s) (closeOpenToolBlocks ok))
       (\<lambda>s. emitEvent ok (message_delta
               (if asStoredFinishReason s \<noteq> '''' then MapStopReason (Some (asStoredFinishReason s)) else '''')
               (map_option openAIUsageToAnthropicUsage (asStoredUsage s))) s))
       (emitEvent ok message_stop)"

text \<open>\<open>emitCarriedReasoning\<close>; the signature is \<open>None\<close> when the turn cannot be encoded.\<close>

definition emitCarriedReasoning :: "writeAnswers \<Rightarrow> string option \<Rightarrow> streamStep" where
  "emitCarriedReasoning ok signature s =
     (case signature of
        None \<Rightarrow> (True, s)
      | Some sig \<Rightarrow>
          if sig = '''' then (True, s)
          else andThen (andThen (closeTextBlock ok s) (closeOpenToolBlocks ok))
            (\<lambda>s. let index = asNextBlockIndex s; s' = s\<lparr>asNextBlockIndex := index + 1\<rparr>
                 in andThen (andThen (emitEvent ok (content_block_start index thinkingBlock) s')
                      (emitEvent ok (content_block_delta index (signatureDelta sig))))
                      (emitEvent ok (content_block_stop index))))"


section \<open>The translated stream\<close>

text \<open>
  The callbacks of the request and what they were given. \<open>transportCanceled\<close> is the answer of the
  lifecycle hook; the connection is committed once the first event was written.
\<close>

record anthropicCallbacks =
  acHasOnError :: bool
  acHasOnUsage :: bool
  acHasOnCopilotUsage :: bool
  acHasOnFinal :: bool
  acTransportCanceled :: bool
  acReadErrorText :: "readError \<Rightarrow> string"

record anthropicRun =
  arState :: anthropicStreamState
  arAggregator :: openAIResponseAggregator
  arUsages :: "streamUsage list"
  arCopilotUsages :: "string list"
  arErrorStatuses :: "int list"
  arSuppressed :: bool
  arFinal :: "OpenAIResponse option"

definition defaultBuildOptions :: openAIResponseBuildOptions where
  "defaultBuildOptions =
     \<lparr>boPreserveInvalidToolArguments = False, boRejectInvalidTextDeltas = False, boMaxAccumulatedBytes = 0\<rparr>"

definition newAnthropicRun :: "anthropicStreamState \<Rightarrow> anthropicRun" where
  "newAnthropicRun s =
     \<lparr>arState = s, arAggregator = newOpenAIResponseAggregatorWithOptions defaultBuildOptions, arUsages = [],
      arCopilotUsages = [], arErrorStatuses = [], arSuppressed = False, arFinal = None\<rparr>"

definition anthropicOnChunk ::
  "streamJson \<Rightarrow> writeAnswers \<Rightarrow> anthropicCallbacks \<Rightarrow> anthropicRun onChunk" where
  "anthropicOnChunk J ok cb chunk r =
     (let r1 = (if acHasOnCopilotUsage cb \<and> \<not> rawJSONIsNullOrEmpty (ckCopilotUsage chunk)
                then r\<lparr>arCopilotUsages := arCopilotUsages r @ [ckCopilotUsage chunk]\<rparr> else r);
          r2 = (if acHasOnUsage cb
                then r1\<lparr>arUsages := arUsages r1 @ (case ckUsage chunk of None \<Rightarrow> [] | Some u \<Rightarrow> [u])\<rparr> else r1);
          r3 = (if acHasOnFinal cb then r2\<lparr>arAggregator := addChunk J chunk (arAggregator r2)\<rparr> else r2)
      in case consumeChunk J ok chunk (arState r3) of (go, s) \<Rightarrow> (go, r3\<lparr>arState := s\<rparr>))"

definition reportStatus :: "anthropicCallbacks \<Rightarrow> int \<Rightarrow> anthropicRun \<Rightarrow> anthropicRun" where
  "reportStatus cb status r =
     (if acHasOnError cb \<and> \<not> asClientWriteFailed (arState r)
      then r\<lparr>arErrorStatuses := arErrorStatuses r @ [status]\<rparr> else r)"

definition endWithError :: "writeAnswers \<Rightarrow> anthropicCallbacks \<Rightarrow> int \<Rightarrow> string \<Rightarrow> anthropicRun \<Rightarrow> anthropicRun" where
  "endWithError ok cb status message r =
     (let r1 = reportStatus cb status r in r1\<lparr>arState := snd (emitError ok message (arState r1))\<rparr>)"

definition endOfTransport :: "writeAnswers \<Rightarrow> anthropicCallbacks \<Rightarrow> string \<Rightarrow> anthropicRun \<Rightarrow> anthropicRun" where
  "endOfTransport ok cb message r =
     (if acTransportCanceled cb then
        (let r1 = r\<lparr>arSuppressed := True\<rparr>
         in if \<not> asClientWriteFailed (arState r1)
            then r1\<lparr>arState := snd (emitShutdownError ok (arState r1))\<rparr> else r1)
      else endWithError ok cb 502 message r)"

definition streamOpenAIToAnthropicWithLifecycle ::
  "streamJson \<Rightarrow> chatEncoder \<Rightarrow> writeAnswers \<Rightarrow> anthropicCallbacks \<Rightarrow> streamEnd \<Rightarrow> string \<Rightarrow> string \<Rightarrow> string \<Rightarrow> anthropicRun" where
  "streamOpenAIToAnthropicWithLifecycle J E ok cb fin body model requestID =
     (case startMessage ok (newAnthropicStreamState model requestID) of (started, s) \<Rightarrow>
        if \<not> started then newAnthropicRun s
        else case consumeOpenAIStreamChunks J (Some (anthropicOnChunk J ok cb)) fin body (newAnthropicRun s) of
          (sawDone, Some (ceStream e), r) \<Rightarrow> endWithError ok cb (streamErrorStatus e) (streamErrorText e) r
        | (sawDone, Some (ceRead e), r) \<Rightarrow>
            endOfTransport ok cb (''upstream stream read failed: '' @ acReadErrorText cb e) r
        | (sawDone, None, r) \<Rightarrow>
            if \<not> sawDone then endOfTransport ok cb ''upstream stream ended before [DONE]'' r
            else (case finishMessage ok (arState r) of (finished, s) \<Rightarrow>
              r\<lparr>arState := s,
                arFinal := (if finished \<and> acHasOnFinal cb
                            then Some (buildResponseWithOptions E (arAggregator r) defaultBuildOptions) else None)\<rparr>))"

section \<open>What a client may see\<close>

text \<open>
  The reference: an automaton that accepts a stream of events. A message starts once; a block is
  started only when it is not open, a text or thinking block only when no block is open, a tool block
  only beside other tool blocks; a delta goes to an open block of its kind; the message ends when
  every block is stopped, or with an error.
\<close>

datatype wirePhase = phIdle | phStreaming | phClosing | phEnded

fun isTool :: "contentBlock \<Rightarrow> bool" where
  "isTool (toolUseBlock i n) = True"
| "isTool _ = False"

fun deltaFits :: "contentBlock \<Rightarrow> blockDelta \<Rightarrow> bool" where
  "deltaFits textBlock (textDelta t) = True"
| "deltaFits (toolUseBlock i n) (inputJSONDelta t) = True"
| "deltaFits thinkingBlock (signatureDelta t) = True"
| "deltaFits _ _ = False"

type_synonym wire = "wirePhase \<times> (int \<times> contentBlock) list"

fun wireStep :: "wire \<Rightarrow> anthropicEvent \<Rightarrow> wire option" where
  "wireStep (ph, opens) (message_start i m) = (if ph = phIdle then Some (phStreaming, opens) else None)"
| "wireStep (ph, opens) (content_block_start i b) =
     (if ph = phStreaming \<and> 0 \<le> i \<and> i \<notin> fst ` set opens \<and>
         (if isTool b then \<forall>(j, b') \<in> set opens. isTool b' else opens = [])
      then Some (ph, opens @ [(i, b)]) else None)"
| "wireStep (ph, opens) (content_block_delta i d) =
     (case map_of opens i of
        Some b \<Rightarrow> if ph = phStreaming \<and> deltaFits b d then Some (ph, opens) else None
      | None \<Rightarrow> None)"
| "wireStep (ph, opens) (content_block_stop i) =
     (if ph = phStreaming \<and> i \<in> fst ` set opens then Some (ph, filter (\<lambda>ob. fst ob \<noteq> i) opens) else None)"
| "wireStep (ph, opens) (message_delta r u) =
     (if ph = phStreaming \<and> opens = [] then Some (phClosing, opens) else None)"
| "wireStep (ph, opens) message_stop = (if ph = phClosing then Some (phEnded, opens) else None)"
| "wireStep (ph, opens) (error_event t m) = (if ph = phStreaming then Some (phEnded, []) else None)"

fun wireRun :: "wire \<Rightarrow> anthropicEvent list \<Rightarrow> wire option" where
  "wireRun w [] = Some w"
| "wireRun w (e # es) = (case wireStep w e of None \<Rightarrow> None | Some w' \<Rightarrow> wireRun w' es)"

definition acceptedStream :: "anthropicEvent list \<Rightarrow> wire option" where
  "acceptedStream es = wireRun (phIdle, []) es"

lemma wireRun_append: "wireRun w (xs @ ys) = (case wireRun w xs of None \<Rightarrow> None | Some w' \<Rightarrow> wireRun w' ys)"
  by (induction xs arbitrary: w) (auto split: option.splits)

lemma accepted_snoc: "acceptedStream (es @ [e]) = (case acceptedStream es of None \<Rightarrow> None | Some w \<Rightarrow> wireStep w e)"
  by (simp add: acceptedStream_def wireRun_append split: option.splits)

section \<open>Every step keeps the stream acceptable\<close>

text \<open>
  \<open>blocksAre s opens\<close>: the blocks the state holds are the ones that are open for the client. A step
  that fails has failed to write, and leaves a prefix of an acceptable stream.
\<close>

definition blocksAre :: "anthropicStreamState \<Rightarrow> (int \<times> contentBlock) list \<Rightarrow> bool" where
  "blocksAre s opens \<longleftrightarrow>
     0 \<le> asNextBlockIndex s \<and> asTextBlockIndex s < asNextBlockIndex s \<and>
     (\<forall>k v. gm_get (asToolCallBlockIndex s) k = Some v \<longrightarrow> 0 \<le> v \<and> v < asNextBlockIndex s) \<and>
     (\<forall>k l v. gm_get (asToolCallBlockIndex s) k = Some v \<and> gm_get (asToolCallBlockIndex s) l = Some v \<longrightarrow> k = l) \<and>
     distinct (asOpenToolCallIndexes s) \<and>
     (\<forall>k \<in> set (asOpenToolCallIndexes s). gm_get (asToolCallBlockIndex s) k \<noteq> None) \<and>
     (if 0 \<le> asTextBlockIndex s then asOpenToolCallIndexes s = [] \<and> opens = [(asTextBlockIndex s, textBlock)]
      else distinct (map fst opens) \<and> (\<forall>(j, b) \<in> set opens. isTool b) \<and>
        fst ` set opens = (\<lambda>k. the (gm_get (asToolCallBlockIndex s) k)) ` set (asOpenToolCallIndexes s))"

definition streaming :: "anthropicStreamState \<Rightarrow> (int \<times> contentBlock) list \<Rightarrow> bool" where
  "streaming s opens \<longleftrightarrow> acceptedStream (asSent s) = Some (phStreaming, opens)"

definition tidy :: "anthropicStreamState \<Rightarrow> bool" where
  "tidy s \<longleftrightarrow> (\<exists>opens. streaming s opens \<and> blocksAre s opens) \<and> \<not> asClientWriteFailed s"

definition after :: "bool \<times> anthropicStreamState \<Rightarrow> (anthropicStreamState \<Rightarrow> bool) \<Rightarrow> bool" where
  "after r Q \<longleftrightarrow> (case r of (go, s) \<Rightarrow>
     if go then Q s else asClientWriteFailed s \<and> (\<exists>opens. streaming s opens))"

lemma after_True [simp]: "after (True, s) Q = Q s"
  by (simp add: after_def)

lemma after_andThen: "after r Q \<Longrightarrow> (\<And>s. Q s \<Longrightarrow> after (step s) R) \<Longrightarrow> after (andThen r step) R"
  by (cases r; cases "fst r") (auto simp: after_def andThen_def)

lemma after_update: "after r P \<Longrightarrow> (\<And>s. P s \<Longrightarrow> Q (f s)) \<Longrightarrow> after (andThen r (\<lambda>s. (True, f s))) Q"
  by (erule after_andThen) simp

lemma after_mono: "after r Q \<Longrightarrow> (\<And>s. Q s \<Longrightarrow> R s) \<Longrightarrow> after r R"
  by (auto simp: after_def split: prod.splits if_splits)

lemma after_emit:
  assumes "streaming s opens" "wireStep (phStreaming, opens) e = Some (phStreaming, opens')"
    and "\<And>s'. streaming s' opens' \<Longrightarrow> s' = s\<lparr>asSent := asSent s @ [e], asWrites := asWrites s + 1\<rparr> \<Longrightarrow> Q s'"
  shows "after (emitEvent ok e s) Q"
proof -
  have "streaming (s\<lparr>asSent := asSent s @ [e], asWrites := asWrites s + 1\<rparr>) opens'"
    using assms(1,2) by (simp add: streaming_def accepted_snoc)
  moreover have "streaming (s\<lparr>asClientWriteFailed := True, asWrites := asWrites s + 1\<rparr>) opens"
    using assms(1) by (simp add: streaming_def)
  ultimately show ?thesis using assms(3) by (auto simp: emitEvent_def after_def)
qed

lemma streaming_cong: "asSent s' = asSent s \<Longrightarrow> streaming s' opens = streaming s opens"
  by (simp add: streaming_def)


lemma tidy_intro: "streaming s opens \<Longrightarrow> blocksAre s opens \<Longrightarrow> \<not> asClientWriteFailed s \<Longrightarrow> tidy s"
  by (auto simp: tidy_def)

text \<open>Only the events and the count of writes have changed.\<close>

definition onlySent :: "anthropicStreamState \<Rightarrow> anthropicStreamState \<Rightarrow> bool" where
  "onlySent s s' \<longleftrightarrow> s' = s\<lparr>asSent := asSent s', asWrites := asWrites s'\<rparr>"

lemma onlySent_refl [simp]: "onlySent s s"
  by (simp add: onlySent_def)

lemma onlySent_emitted [simp]: "onlySent s (s\<lparr>asSent := es, asWrites := n\<rparr>)"
  by (simp add: onlySent_def)

lemma onlySent_fields:
  assumes "onlySent s s'"
  shows "asNextBlockIndex s' = asNextBlockIndex s" "asTextBlockIndex s' = asTextBlockIndex s"
    "asToolCallBlockIndex s' = asToolCallBlockIndex s" "asOpenToolCallIndexes s' = asOpenToolCallIndexes s"
    "asClientWriteFailed s' = asClientWriteFailed s" "asStoredFinishReason s' = asStoredFinishReason s"
    "asStoredUsage s' = asStoredUsage s"
  by (subst assms[unfolded onlySent_def], simp)+

lemma onlySent_trans: "onlySent s s' \<Longrightarrow> onlySent s' s'' \<Longrightarrow> onlySent s s''"
  unfolding onlySent_def by (cases s; cases s'; cases s'') simp

lemma emit_block_event:
  assumes "streaming s opens" "wireStep (phStreaming, opens) e = Some (phStreaming, opens')"
  shows "after (emitEvent ok e s) (\<lambda>s'. streaming s' opens' \<and> onlySent s s')"
  by (rule after_emit[OF assms]) simp

lemma close_text:
  assumes "tidy s"
  shows "after (closeTextBlock ok s) (\<lambda>s'. tidy s' \<and> asTextBlockIndex s' < 0)"
proof (cases "asTextBlockIndex s < 0")
  case True
  with assms show ?thesis by (simp add: closeTextBlock_def)
next
  case False
  from assms obtain opens where o: "streaming s opens" "blocksAre s opens" "\<not> asClientWriteFailed s"
    by (auto simp: tidy_def)
  with False have op: "opens = [(asTextBlockIndex s, textBlock)]" "asOpenToolCallIndexes s = []"
    by (simp_all add: blocksAre_def split: if_splits)
  have fin: "tidy (s'\<lparr>asTextBlockIndex := - 1\<rparr>) \<and> asTextBlockIndex (s'\<lparr>asTextBlockIndex := - 1\<rparr>) < 0"
    if "streaming s' [] \<and> onlySent s s'" for s'
  proof -
    note f = onlySent_fields[OF conjunct2[OF that]]
    have "blocksAre (s'\<lparr>asTextBlockIndex := - 1\<rparr>) []"
      using o(2) op False by (simp add: blocksAre_def f)
    moreover have "streaming (s'\<lparr>asTextBlockIndex := - 1\<rparr>) []" using that by (simp add: streaming_def)
    ultimately show ?thesis using o(3) by (simp add: f tidy_intro)
  qed
  have "after (emitEvent ok (content_block_stop (asTextBlockIndex s)) s) (\<lambda>s'. streaming s' [] \<and> onlySent s s')"
    by (rule emit_block_event[OF o(1)]) (simp add: op)
  then show ?thesis
    unfolding closeTextBlock_def if_not_P[OF False] by (rule after_update) (rule fin)
qed

lemma stop_blocks:
  assumes "streaming s opens" "distinct is" "set is \<subseteq> fst ` set opens"
  shows "after (stopBlocks ok is s) (\<lambda>s'. streaming s' (filter (\<lambda>ob. fst ob \<notin> set is) opens) \<and> onlySent s s')"
  using assms
proof (induction "is" arbitrary: s opens)
  case (Cons i "is")
  let ?opens' = "filter (\<lambda>ob. fst ob \<noteq> i) opens"
  have "after (emitEvent ok (content_block_stop i) s) (\<lambda>s'. streaming s' ?opens' \<and> onlySent s s')"
    by (rule emit_block_event[OF Cons.prems(1)]) (use Cons.prems in auto)
  then show ?case
    unfolding stopBlocks.simps
  proof (rule after_andThen)
    fix s1 assume s1: "streaming s1 ?opens' \<and> onlySent s s1"
    have sub: "set is \<subseteq> fst ` set ?opens'" using Cons.prems(2,3) by fastforce
    have f: "filter (\<lambda>ob. fst ob \<notin> set is) ?opens' = filter (\<lambda>ob. fst ob \<notin> set (i # is)) opens"
      by (simp add: conj_commute)
    have "after (stopBlocks ok is s1) (\<lambda>s'. streaming s' (filter (\<lambda>ob. fst ob \<notin> set (i # is)) opens) \<and> onlySent s1 s')"
      using Cons.IH[OF _ _ sub] s1 Cons.prems(2) unfolding f by simp
    then show "after (stopBlocks ok is s1) (\<lambda>s'. streaming s' (filter (\<lambda>ob. fst ob \<notin> set (i # is)) opens) \<and> onlySent s s')"
      by (rule after_mono) (use s1 onlySent_trans in blast)
  qed
qed simp

lemma open_indexes:
  assumes "blocksAre s opens" "asTextBlockIndex s < 0"
  shows "distinct (List.map_filter (gm_get (asToolCallBlockIndex s)) (asOpenToolCallIndexes s))"
    and "set (List.map_filter (gm_get (asToolCallBlockIndex s)) (asOpenToolCallIndexes s)) = fst ` set opens"
proof -
  let ?g = "\<lambda>k. the (gm_get (asToolCallBlockIndex s) k)" and ?ks = "asOpenToolCallIndexes s"
  have def: "\<forall>k \<in> set ?ks. gm_get (asToolCallBlockIndex s) k \<noteq> None"
    and uniq: "gm_get (asToolCallBlockIndex s) k = Some v \<Longrightarrow> gm_get (asToolCallBlockIndex s) l = Some v \<Longrightarrow> k = l" for k l v
    using assms unfolding blocksAre_def by blast+
  have inj: "inj_on ?g (set ?ks)"
  proof (rule inj_onI)
    fix k l assume "k \<in> set ?ks" "l \<in> set ?ks" "?g k = ?g l"
    with def uniq[of k "?g k" l] show "k = l" by fastforce
  qed
  have "List.map_filter (gm_get (asToolCallBlockIndex s)) ks = map ?g ks"
    if "\<forall>k \<in> set ks. gm_get (asToolCallBlockIndex s) k \<noteq> None" for ks
    using that by (induction ks) (auto simp: List.map_filter_simps)
  then have m: "List.map_filter (gm_get (asToolCallBlockIndex s)) ?ks = map ?g ?ks" using def by blast
  show "distinct (List.map_filter (gm_get (asToolCallBlockIndex s)) ?ks)"
    unfolding m distinct_map using assms inj by (simp add: blocksAre_def)
  show "set (List.map_filter (gm_get (asToolCallBlockIndex s)) ?ks) = fst ` set opens"
    unfolding m using assms by (simp add: blocksAre_def)
qed

lemma close_tools:
  assumes "tidy s"
  shows "after (closeOpenToolBlocks ok s) (\<lambda>s'. tidy s' \<and> asOpenToolCallIndexes s' = [] \<and>
    asTextBlockIndex s' = asTextBlockIndex s)"
proof (cases "asOpenToolCallIndexes s = []")
  case True
  with assms show ?thesis by (simp add: closeOpenToolBlocks_def)
next
  case False
  from assms obtain opens where o: "streaming s opens" "blocksAre s opens" "\<not> asClientWriteFailed s"
    by (auto simp: tidy_def)
  from o(2) False have t: "asTextBlockIndex s < 0" by (auto simp: blocksAre_def split: if_splits)
  let ?is = "sort (List.map_filter (gm_get (asToolCallBlockIndex s)) (asOpenToolCallIndexes s))"
  have "filter (\<lambda>ob. fst ob \<notin> set ?is) opens = []"
    by (auto simp: open_indexes(2)[OF o(2) t] filter_empty_conv)
  then have st: "after (stopBlocks ok ?is s) (\<lambda>s'. streaming s' [] \<and> onlySent s s')"
    using stop_blocks[OF o(1), of ?is ok] open_indexes[OF o(2) t] by simp
  have fin: "tidy (s'\<lparr>asOpenToolCallIndexes := []\<rparr>) \<and> asOpenToolCallIndexes (s'\<lparr>asOpenToolCallIndexes := []\<rparr>) = [] \<and>
      asTextBlockIndex (s'\<lparr>asOpenToolCallIndexes := []\<rparr>) = asTextBlockIndex s"
    if "streaming s' [] \<and> onlySent s s'" for s'
  proof -
    note f = onlySent_fields[OF conjunct2[OF that]]
    have "blocksAre (s'\<lparr>asOpenToolCallIndexes := []\<rparr>) []"
      using o(2) t by (simp add: blocksAre_def f)
    moreover have "streaming (s'\<lparr>asOpenToolCallIndexes := []\<rparr>) []" using that by (simp add: streaming_def)
    ultimately show ?thesis using o(3) by (simp add: f tidy_intro)
  qed
  show ?thesis
    unfolding closeOpenToolBlocks_def if_not_P[OF False] Let_def by (rule after_update[OF st], rule fin)
qed


lemma blocks_cong:
  assumes "asNextBlockIndex s' = asNextBlockIndex s"
    "asTextBlockIndex s' = asTextBlockIndex s" "asToolCallBlockIndex s' = asToolCallBlockIndex s"
    "asOpenToolCallIndexes s' = asOpenToolCallIndexes s"
  shows "blocksAre s' opens = blocksAre s opens"
  by (simp only: blocksAre_def assms)

lemma tidy_fields:
  assumes "tidy s" "asSent s' = asSent s" "asNextBlockIndex s' = asNextBlockIndex s"
    "asTextBlockIndex s' = asTextBlockIndex s" "asToolCallBlockIndex s' = asToolCallBlockIndex s"
    "asOpenToolCallIndexes s' = asOpenToolCallIndexes s" "asClientWriteFailed s' = asClientWriteFailed s"
  shows "tidy s'"
  using assms(1) unfolding tidy_def streaming_def assms(2,7) blocks_cong[OF assms(3-6)] by blast

lemma tidy_onlySent: "streaming s' opens \<Longrightarrow> onlySent s s' \<Longrightarrow> blocksAre s opens \<Longrightarrow> \<not> asClientWriteFailed s \<Longrightarrow> tidy s'"
  by (rule tidy_intro[of s' opens]) (simp_all add: blocks_cong[of s' s] onlySent_fields)

lemma nothing_open:
  assumes "tidy s" "asOpenToolCallIndexes s = []" "asTextBlockIndex s < 0"
  shows "streaming s []" "blocksAre s []" "\<not> asClientWriteFailed s"
  using assms by (auto simp: tidy_def blocksAre_def split: if_splits)

lemma text_open:
  assumes "tidy s" "0 \<le> asTextBlockIndex s"
  shows "streaming s [(asTextBlockIndex s, textBlock)]" "blocksAre s [(asTextBlockIndex s, textBlock)]"
    "\<not> asClientWriteFailed s"
  using assms by (auto simp: tidy_def blocksAre_def split: if_splits)

lemma emit_text:
  assumes "tidy s"
  shows "after (emitText ok text s) tidy"
proof -
  let ?open = "\<lambda>s. if asTextBlockIndex s < 0
      then let s' = s\<lparr>asTextBlockIndex := asNextBlockIndex s, asNextBlockIndex := asNextBlockIndex s + 1\<rparr>
           in emitEvent ok (content_block_start (asTextBlockIndex s') textBlock) s'
      else (True, s)"
  have op: "after (?open s1) (\<lambda>s'. tidy s' \<and> 0 \<le> asTextBlockIndex s')"
    if s1: "tidy s1 \<and> asOpenToolCallIndexes s1 = [] \<and> asTextBlockIndex s1 = asTextBlockIndex s" for s1
  proof (cases "asTextBlockIndex s1 < 0")
    case True
    let ?s = "s1\<lparr>asTextBlockIndex := asNextBlockIndex s1, asNextBlockIndex := asNextBlockIndex s1 + 1\<rparr>"
    let ?o = "[(asNextBlockIndex s1, textBlock)]"
    note n = nothing_open[OF conjunct1[OF s1] _ True]
    have e: "streaming s1 []" "blocksAre s1 []" "\<not> asClientWriteFailed s1" using n s1 by auto
    then have p: "0 \<le> asNextBlockIndex s1" "streaming ?s []" by (simp_all add: blocksAre_def streaming_def)
    have "\<And>k v. gm_get (asToolCallBlockIndex s1) k = Some v \<Longrightarrow> v < asNextBlockIndex s1 + 1"
      using e(2) by (fastforce simp: blocksAre_def)
    then have "blocksAre ?s ?o" using e(2) p(1) s1 by (simp add: blocksAre_def)
    moreover have "after (emitEvent ok (content_block_start (asNextBlockIndex s1) textBlock) ?s)
        (\<lambda>s'. streaming s' ?o \<and> onlySent ?s s')"
      by (rule emit_block_event[OF p(2)]) (simp add: p(1))
    ultimately have "after (emitEvent ok (content_block_start (asNextBlockIndex s1) textBlock) ?s)
        (\<lambda>s'. tidy s' \<and> 0 \<le> asTextBlockIndex s')"
      using p(1) e(3) by (elim after_mono) (auto intro: tidy_onlySent simp: onlySent_fields)
    with True show ?thesis by (simp add: Let_def)
  next
    case False
    with s1 show ?thesis by simp
  qed
  have tx: "after (emitEvent ok (content_block_delta (asTextBlockIndex s2) (textDelta text)) s2) tidy"
    if s2: "tidy s2 \<and> 0 \<le> asTextBlockIndex s2" for s2
  proof -
    note t = text_open[OF conjunct1[OF s2] conjunct2[OF s2]]
    have "after (emitEvent ok (content_block_delta (asTextBlockIndex s2) (textDelta text)) s2)
        (\<lambda>s'. streaming s' [(asTextBlockIndex s2, textBlock)] \<and> onlySent s2 s')"
      by (rule emit_block_event[OF t(1)]) simp
    then show ?thesis by (rule after_mono) (auto intro: tidy_onlySent[OF _ _ t(2,3)])
  qed
  show ?thesis
    unfolding emitText_def by (rule after_andThen[OF after_andThen[OF close_tools[OF assms]]]) (rule op, assumption, rule tx)
qed

lemma tools_open:
  assumes "tidy s" "asTextBlockIndex s < 0"
  shows "\<exists>opens. streaming s opens \<and> blocksAre s opens \<and> \<not> asClientWriteFailed s \<and> distinct (map fst opens) \<and>
    (\<forall>(j, b) \<in> set opens. isTool b) \<and>
    fst ` set opens = (\<lambda>k. the (gm_get (asToolCallBlockIndex s) k)) ` set (asOpenToolCallIndexes s)"
  using assms by (auto simp: tidy_def blocksAre_def split: if_splits)

lemma register_tool:
  assumes "blocksAre s opens"
  shows "blocksAre (registerTool k s) opens" "gm_get (asToolCallBlockIndex (registerTool k s)) k \<noteq> None"
    "asSent (registerTool k s) = asSent s" "asTextBlockIndex (registerTool k s) = asTextBlockIndex s"
    "asOpenToolCallIndexes (registerTool k s) = asOpenToolCallIndexes s"
    "asClientWriteFailed (registerTool k s) = asClientWriteFailed s"
proof -
  show "gm_get (asToolCallBlockIndex (registerTool k s)) k \<noteq> None"
    "asSent (registerTool k s) = asSent s" "asTextBlockIndex (registerTool k s) = asTextBlockIndex s"
    "asOpenToolCallIndexes (registerTool k s) = asOpenToolCallIndexes s"
    "asClientWriteFailed (registerTool k s) = asClientWriteFailed s"
    by (simp_all add: registerTool_def update_conv)
  show "blocksAre (registerTool k s) opens"
  proof (cases "gm_get (asToolCallBlockIndex s) k = None")
    case True
    let ?m = "gm_put k (asNextBlockIndex s) (asToolCallBlockIndex s)"
    have b: "0 \<le> v \<and> v < asNextBlockIndex s" if "gm_get (asToolCallBlockIndex s) l = Some v" for l v
      using assms that unfolding blocksAre_def by blast
    have u: "gm_get (asToolCallBlockIndex s) i = Some v \<Longrightarrow> gm_get (asToolCallBlockIndex s) l = Some v \<Longrightarrow> i = l" for i l v
      using assms unfolding blocksAre_def by blast
    have n: "0 \<le> asNextBlockIndex s" "asTextBlockIndex s < asNextBlockIndex s" using assms by (simp_all add: blocksAre_def)
    have b': "gm_get ?m l = Some v \<Longrightarrow> 0 \<le> v \<and> v < asNextBlockIndex s + 1" for l v
      using b[of l v] n(1) by (auto simp: update_conv split: if_splits)
    have u': "gm_get ?m i = Some v \<Longrightarrow> gm_get ?m l = Some v \<Longrightarrow> i = l" for i l v
      using b u by (fastforce simp: update_conv split: if_splits)
    have o: "\<forall>l \<in> set (asOpenToolCallIndexes s). l \<noteq> k \<and> gm_get (asToolCallBlockIndex s) l \<noteq> None"
      using assms True unfolding blocksAre_def by auto
    then have "\<forall>l \<in> set (asOpenToolCallIndexes s). gm_get ?m l = gm_get (asToolCallBlockIndex s) l"
      by (simp add: update_conv)
    then have im: "(\<lambda>l. the (gm_get ?m l)) ` set (asOpenToolCallIndexes s) =
        (\<lambda>l. the (gm_get (asToolCallBlockIndex s) l)) ` set (asOpenToolCallIndexes s)" by (auto intro!: image_cong)
    have F: "asNextBlockIndex (registerTool k s) = asNextBlockIndex s + 1"
      "asTextBlockIndex (registerTool k s) = asTextBlockIndex s" "asToolCallBlockIndex (registerTool k s) = ?m"
      "asOpenToolCallIndexes (registerTool k s) = asOpenToolCallIndexes s"
      using True by (simp_all add: registerTool_def)
    have d: "\<forall>l \<in> set (asOpenToolCallIndexes s). gm_get ?m l \<noteq> None" using o by (simp add: update_conv)
    have B: "\<forall>k v. gm_get ?m k = Some v \<longrightarrow> 0 \<le> v \<and> v < asNextBlockIndex s + 1" using b' by blast
    have U: "\<forall>k l v. gm_get ?m k = Some v \<and> gm_get ?m l = Some v \<longrightarrow> k = l" using u' by blast
    have N: "0 \<le> asNextBlockIndex s + 1" "asTextBlockIndex s < asNextBlockIndex s + 1" using n by simp_all
    have D: "distinct (asOpenToolCallIndexes s)" using assms unfolding blocksAre_def by blast
    have L: "if 0 \<le> asTextBlockIndex s then asOpenToolCallIndexes s = [] \<and> opens = [(asTextBlockIndex s, textBlock)]
      else distinct (map fst opens) \<and> (\<forall>(j, b) \<in> set opens. isTool b) \<and>
        fst ` set opens = (\<lambda>l. the (gm_get ?m l)) ` set (asOpenToolCallIndexes s)"
      unfolding im using assms unfolding blocksAre_def by blast
    show ?thesis
      unfolding blocksAre_def F using N B U D d L by blast
  next
    case False
    then show ?thesis unfolding registerTool_def if_not_P[OF False] by (intro assms)
  qed
qed


lemma open_tool_block:
  assumes "blocksAre s opens" "k \<in> set (asOpenToolCallIndexes s)"
  shows "\<exists>v b. gm_get (asToolCallBlockIndex s) k = Some v \<and> map_of opens v = Some b \<and> isTool b"
proof -
  have t: "asTextBlockIndex s < 0" using assms by (auto simp: blocksAre_def split: if_splits)
  then have o: "distinct (map fst opens)" "\<forall>(j, b) \<in> set opens. isTool b"
      "fst ` set opens = (\<lambda>k. the (gm_get (asToolCallBlockIndex s) k)) ` set (asOpenToolCallIndexes s)"
      "gm_get (asToolCallBlockIndex s) k \<noteq> None"
    using assms unfolding blocksAre_def by auto
  then obtain v where v: "gm_get (asToolCallBlockIndex s) k = Some v" by blast
  then have "v \<in> fst ` set opens" using o(3) assms(2) by force
  then obtain b where "(v, b) \<in> set opens" by force
  then show ?thesis using o(1,2) v by (auto simp: map_of_eq_Some_iff)
qed

lemma start_tool:
  assumes "tidy s"
  shows "after (startToolCall ok k call s) tidy"
proof -
  have step: "after (let s' = registerTool k s1
            in if k \<in> set (asOpenToolCallIndexes s') then (True, s')
               else let blockIndex = (case gm_get (asToolCallBlockIndex s') k of None \<Rightarrow> 0 | Some i \<Rightarrow> i)
                    in andThen (emitEvent ok (content_block_start blockIndex
                                  (toolUseBlock (tcID call) (fcName (tcFunction call)))) s')
                         (\<lambda>s. (True, s\<lparr>asOpenToolCallIndexes := List.insert k (asOpenToolCallIndexes s)\<rparr>))) tidy"
    if s1: "tidy s1 \<and> asTextBlockIndex s1 < 0" for s1
  proof -
    obtain opens where o: "streaming s1 opens" "blocksAre s1 opens" "\<not> asClientWriteFailed s1"
      using s1 by (auto simp: tidy_def)
    define s2 where "s2 = registerTool k s1"
    note r = register_tool[OF o(2), of k, folded s2_def]
    have st: "streaming s2 opens" using o(1) by (simp add: streaming_def r(3))
    have tx: "asTextBlockIndex s2 < 0" using s1 r(4) by simp
    show ?thesis
    proof (cases "k \<in> set (asOpenToolCallIndexes s2)")
      case True
      then show ?thesis using tidy_intro[OF st r(1)] o(3) r(6) by (simp add: s2_def[symmetric] Let_def)
    next
      case False
      obtain v where v: "gm_get (asToolCallBlockIndex s2) k = Some v" using r(2) by blast
      let ?b = "toolUseBlock (tcID call) (fcName (tcFunction call))"
      have q: "distinct (map fst opens)" "\<forall>(j, b) \<in> set opens. isTool b"
        "fst ` set opens = (\<lambda>k. the (gm_get (asToolCallBlockIndex s2) k)) ` set (asOpenToolCallIndexes s2)"
        "\<forall>k \<in> set (asOpenToolCallIndexes s2). gm_get (asToolCallBlockIndex s2) k \<noteq> None" "0 \<le> v"
        using r(1) tx v unfolding blocksAre_def by auto
      have uniq: "gm_get (asToolCallBlockIndex s2) l = Some v \<Longrightarrow> l = k" for l
        using r(1) v unfolding blocksAre_def by blast
      have new: "v \<notin> fst ` set opens"
      proof
        assume "v \<in> fst ` set opens"
        then obtain l where l: "l \<in> set (asOpenToolCallIndexes s2)" "v = the (gm_get (asToolCallBlockIndex s2) l)"
          unfolding q(3) by blast
        with q(4) have "gm_get (asToolCallBlockIndex s2) l = Some v" by fastforce
        with uniq l(1) False show False by blast
      qed
      have em: "after (emitEvent ok (content_block_start v ?b) s2) (\<lambda>s'. streaming s' (opens @ [(v, ?b)]) \<and> onlySent s2 s')"
        by (rule emit_block_event[OF st]) (use new q(2,5) in simp)
      have fin: "tidy (s'\<lparr>asOpenToolCallIndexes := List.insert k (asOpenToolCallIndexes s')\<rparr>)"
        if s': "streaming s' (opens @ [(v, ?b)]) \<and> onlySent s2 s'" for s'
      proof -
        note f = onlySent_fields[OF conjunct2[OF s']]
        let ?s = "s'\<lparr>asOpenToolCallIndexes := List.insert k (asOpenToolCallIndexes s')\<rparr>"
        have F: "asNextBlockIndex ?s = asNextBlockIndex s2" "asTextBlockIndex ?s = asTextBlockIndex s2"
          "asToolCallBlockIndex ?s = asToolCallBlockIndex s2"
          "asOpenToolCallIndexes ?s = k # asOpenToolCallIndexes s2"
          using False by (simp_all add: f)
        have L: "distinct (map fst (opens @ [(v, ?b)])) \<and> (\<forall>(j, b) \<in> set (opens @ [(v, ?b)]). isTool b) \<and>
            fst ` set (opens @ [(v, ?b)]) =
              (\<lambda>k. the (gm_get (asToolCallBlockIndex s2) k)) ` set (k # asOpenToolCallIndexes s2)"
          using q(1-3) new v by auto
        have "blocksAre ?s (opens @ [(v, ?b)])"
          using r(1) False v L tx unfolding blocksAre_def F by auto
        moreover have "streaming ?s (opens @ [(v, ?b)])" using s' by (simp add: streaming_def)
        moreover have "\<not> asClientWriteFailed ?s" using o(3) r(6) by (simp add: f)
        ultimately show ?thesis by (blast intro: tidy_intro)
      qed
      have "after (andThen (emitEvent ok (content_block_start v ?b) s2)
          (\<lambda>s. (True, s\<lparr>asOpenToolCallIndexes := List.insert k (asOpenToolCallIndexes s)\<rparr>))) tidy"
        by (rule after_update[OF em], rule fin)
      then show ?thesis using False v by (simp add: s2_def[symmetric] Let_def)
    qed
  qed
  show ?thesis
    unfolding startToolCall_def by (rule after_andThen[OF close_text[OF assms]], rule step)
qed

lemma consume_tool:
  assumes "tidy s"
  shows "after (consumeToolCall ok call s) tidy"
proof -
  let ?k = "callIndex call"
  let ?args = "\<lambda>s. if fcArguments (tcFunction call) = '''' then (True, s)
                else case gm_get (asToolCallBlockIndex s) ?k of
                  None \<Rightarrow> (True, s)
                | Some blockIndex \<Rightarrow>
                    if ?k \<notin> set (asOpenToolCallIndexes s) then (True, s)
                    else emitEvent ok (content_block_delta blockIndex (inputJSONDelta (fcArguments (tcFunction call)))) s"
  have "after (if tcID call \<noteq> '''' then startToolCall ok ?k call s else (True, s)) tidy"
    using start_tool[OF assms] assms by simp
  moreover have "after (?args s1) tidy" if s1: "tidy s1" for s1
  proof (cases "fcArguments (tcFunction call) \<noteq> '''' \<and> ?k \<in> set (asOpenToolCallIndexes s1)")
    case True
    obtain opens where o: "streaming s1 opens" "blocksAre s1 opens" "\<not> asClientWriteFailed s1"
      using s1 by (auto simp: tidy_def)
    obtain v b where v: "gm_get (asToolCallBlockIndex s1) ?k = Some v" "map_of opens v = Some b" "isTool b"
      using open_tool_block[OF o(2)] True by blast
    have "after (emitEvent ok (content_block_delta v (inputJSONDelta (fcArguments (tcFunction call)))) s1)
        (\<lambda>s'. streaming s' opens \<and> onlySent s1 s')"
      by (rule emit_block_event[OF o(1)]) (use v in \<open>cases b; simp\<close>)
    then have "after (emitEvent ok (content_block_delta v (inputJSONDelta (fcArguments (tcFunction call)))) s1) tidy"
      by (rule after_mono) (auto intro: tidy_onlySent[OF _ _ o(2,3)])
    with True v show ?thesis by simp
  next
    case False
    then show ?thesis using s1 by (auto split: option.splits)
  qed
  ultimately show ?thesis unfolding consumeToolCall_def Let_def by (rule after_andThen)
qed


lemma consume_tools: "tidy s \<Longrightarrow> after (consumeToolCalls ok calls s) tidy"
proof (induction calls arbitrary: s)
  case (Cons k ks)
  show ?case unfolding consumeToolCalls.simps
    by (rule after_andThen[OF consume_tool[OF Cons.prems]]) (rule Cons.IH)
qed simp

lemma consume_choice:
  assumes "tidy s"
  shows "after (consumeChoice J ok choice s) tidy"
proof -
  have u: "after (emitUsable ok str s) tidy" if "tidy s" for str s
    using emit_text[OF that] that by (simp add: emitUsable_def)
  have f: "tidy (case scFinishReason choice of None \<Rightarrow> s | Some r \<Rightarrow> s\<lparr>asStoredFinishReason := r\<rparr>)" if "tidy s" for s
    by (rule tidy_fields[OF that]) (simp_all split: option.splits)
  show ?thesis
    unfolding consumeChoice_def
    by (rule after_update[OF after_andThen[OF after_andThen[OF u[OF assms]]]], erule u, erule consume_tools, erule f)
qed

lemma consume_choices: "tidy s \<Longrightarrow> after (consumeChoices J ok cs s) tidy"
proof (induction cs arbitrary: s)
  case (Cons c cs)
  show ?case unfolding consumeChoices.simps
    by (rule after_andThen[OF consume_choice[OF Cons.prems]]) (rule Cons.IH)
qed simp

lemma consume_chunk: "tidy s \<Longrightarrow> after (consumeChunk J ok chunk s) tidy"
  unfolding consumeChunk_def
  by (rule consume_choices, erule tidy_fields) (simp_all split: option.splits)

lemma carried_reasoning:
  assumes "tidy s"
  shows "after (emitCarriedReasoning ok signature s) tidy"
proof (cases "\<exists>sig. signature = Some sig \<and> sig \<noteq> ''''")
  case True
  then obtain sig where sig: "signature = Some sig" "sig \<noteq> ''''" by blast
  let ?block = "\<lambda>s. let index = asNextBlockIndex s; s' = s\<lparr>asNextBlockIndex := index + 1\<rparr>
                 in andThen (andThen (emitEvent ok (content_block_start index thinkingBlock) s')
                      (emitEvent ok (content_block_delta index (signatureDelta sig))))
                      (emitEvent ok (content_block_stop index))"
  have b: "after (?block s1) tidy"
    if s1: "tidy s1 \<and> asOpenToolCallIndexes s1 = [] \<and> asTextBlockIndex s1 < 0" for s1
  proof -
    have n: "streaming s1 []" "blocksAre s1 []" "\<not> asClientWriteFailed s1"
      using nothing_open[of s1] s1 by auto
    let ?i = "asNextBlockIndex s1" and ?s = "s1\<lparr>asNextBlockIndex := asNextBlockIndex s1 + 1\<rparr>"
    have "gm_get (asToolCallBlockIndex s1) k = Some v \<Longrightarrow> 0 \<le> v \<and> v < ?i" for k v
      using n(2) unfolding blocksAre_def by blast
    then have bs: "blocksAre ?s []" "0 \<le> ?i" using n(2) s1 by (fastforce simp: blocksAre_def)+
    have st: "streaming ?s []" using n(1) by (simp add: streaming_def)
    have e1: "after (emitEvent ok (content_block_start ?i thinkingBlock) ?s)
        (\<lambda>s'. streaming s' [(?i, thinkingBlock)] \<and> onlySent ?s s')"
      by (rule emit_block_event[OF st]) (simp add: bs)
    have e2: "after (emitEvent ok (content_block_delta ?i (signatureDelta sig)) s2)
        (\<lambda>s'. streaming s' [(?i, thinkingBlock)] \<and> onlySent ?s s')"
      if "streaming s2 [(?i, thinkingBlock)] \<and> onlySent ?s s2" for s2
      by (rule after_mono[OF emit_block_event[OF conjunct1[OF that]]]) (use that onlySent_trans in auto)
    have e3: "after (emitEvent ok (content_block_stop ?i) s2) tidy"
      if "streaming s2 [(?i, thinkingBlock)] \<and> onlySent ?s s2" for s2
    proof -
      have "after (emitEvent ok (content_block_stop ?i) s2) (\<lambda>s'. streaming s' [] \<and> onlySent s2 s')"
        by (rule emit_block_event[OF conjunct1[OF that]]) simp
      then have "after (emitEvent ok (content_block_stop ?i) s2) (\<lambda>s'. streaming s' [] \<and> onlySent ?s s')"
        by (rule after_mono) (use that onlySent_trans in blast)
      then show ?thesis by (rule after_mono) (use bs n(3) in \<open>auto intro: tidy_onlySent\<close>)
    qed
    show ?thesis
      unfolding Let_def by (rule after_andThen[OF after_andThen[OF e1]], erule e2, erule e3)
  qed
  have c: "after (closeOpenToolBlocks ok s2) (\<lambda>s'. tidy s' \<and> asOpenToolCallIndexes s' = [] \<and> asTextBlockIndex s' < 0)"
    if "tidy s2 \<and> asTextBlockIndex s2 < 0" for s2
    using close_tools[OF conjunct1[OF that], of ok] by (rule after_mono) (use that in auto)
  show ?thesis
    using sig after_andThen[OF after_andThen[OF close_text[OF assms, of ok] c] b]
    by (simp add: emitCarriedReasoning_def)
next
  case False
  then show ?thesis using assms by (auto simp: emitCarriedReasoning_def split: option.splits)
qed

text \<open>The end of a message: every block is stopped, and the stream is complete.\<close>

lemma finish_message:
  assumes "tidy s" "finishMessage ok s = (go, s')"
  shows "\<exists>w. acceptedStream (asSent s') = Some w \<and> (asClientWriteFailed s' \<or> w = (phEnded, []))"
proof -
  have c: "after (closeOpenToolBlocks ok s2) (\<lambda>s'. tidy s' \<and> asOpenToolCallIndexes s' = [] \<and> asTextBlockIndex s' < 0)"
    if "tidy s2 \<and> asTextBlockIndex s2 < 0" for s2
    using close_tools[OF conjunct1[OF that], of ok] by (rule after_mono) (use that in auto)
  have a: "after (andThen (closeTextBlock ok s) (closeOpenToolBlocks ok))
      (\<lambda>s'. tidy s' \<and> asOpenToolCallIndexes s' = [] \<and> asTextBlockIndex s' < 0)"
    by (rule after_andThen[OF close_text[OF assms(1)]]) (rule c)
  obtain g s1 where r: "andThen (closeTextBlock ok s) (closeOpenToolBlocks ok) = (g, s1)"
    by (cases "andThen (closeTextBlock ok s) (closeOpenToolBlocks ok)") auto
  show ?thesis
  proof (cases g)
    case False
    then have "go = False" "s' = s1" using assms(2) r by (auto simp: finishMessage_def andThen_def)
    with a False show ?thesis by (auto simp: r after_def streaming_def)
  next
    case True
    then have n: "streaming s1 []" using a nothing_open[of s1] by (auto simp: r after_def)
    show ?thesis
      using assms(2) r True n
      by (auto simp: finishMessage_def andThen_def emitEvent_def streaming_def acceptedStream_def wireRun_append Let_def
          split: if_splits)
  qed
qed


text \<open>What every callback keeps while the stream is read on, and what it leaves when it stops.\<close>

lemma sse_loop_keeps:
  assumes step: "\<And>t d s. I s \<Longrightarrow> (case f t d s of (go, s') \<Rightarrow> if go then I s' else S s')"
  shows "I s \<Longrightarrow> sseLoop strict f fin rest acc s = (outcome, s') \<Longrightarrow> if outcome = soStopped then S s' else I s'"
proof (induction "length rest" arbitrary: rest acc s rule: less_induct)
  case less
  have d: "if go then I s2 else S s2" if "I s1" "accDispatch (Some f) a s1 = (go, a', s2)" for a s1 go a' s2
    using step[OF that(1)] that by (fastforce simp: accDispatch_def Let_def split: if_splits prod.splits)
  have c: "if go then I s2 else S s2" if "I s1" "consumeLine (Some f) l a s1 = (go, a', s2)" for l a s1 go a' s2
    using d[OF that(1)] that by (fastforce simp: consumeLine_def Let_def split: if_splits option.splits)
  obtain line err rest' where rd: "readOpenAISSELine fin rest = ((line, err), rest')"
    by (cases "readOpenAISSELine fin rest") auto
  note eq = less.prems(2)[unfolded sseLoop.simps[of strict f fin rest] rd prod.case]
  show ?case
  proof (cases "strict \<and> line \<noteq> '''' \<and> trimLine line = '''' \<and> saEventType acc \<noteq> '''' \<and> saDataLines acc = []")
    case True
    then show ?thesis using eq less.prems(1) by simp
  next
    case False
    obtain go acc' s1 where l: "(if line \<noteq> '''' then consumeLine (Some f) line acc s else (True, acc, s)) = (go, acc', s1)"
      by (cases "if line \<noteq> '''' then consumeLine (Some f) line acc s else (True, acc, s)") auto
    have k: "if go then I s1 else S s1"
      using c[OF less.prems(1)] l less.prems(1) by (cases "line = ''''") auto
    note eq' = eq[unfolded if_not_P[OF False] l prod.case]
    show ?thesis
    proof (cases go)
      case no: False
      then show ?thesis using eq' k by auto
    next
      case yes: True
      then have i: "I s1" using k by simp
      show ?thesis
      proof (cases err)
        case None
        with rd have "length rest' < length rest" by (simp add: read_line_ok(4))
        moreover have "sseLoop strict f fin rest' acc' s1 = (outcome, s')" using eq' yes None by simp
        ultimately show ?thesis by (rule less.hyps[OF _ i])
      next
        case (Some e)
        obtain go' acc'' s2 where dd: "accDispatch (Some f) acc' s1 = (go', acc'', s2)"
          by (cases "accDispatch (Some f) acc' s1") auto
        from d[OF i dd] show ?thesis
          using eq' yes Some i dd by (auto split: readError.splits streamEnd.splits if_splits)
      qed
    qed
  qed
qed

section \<open>The stream a client gets\<close>

definition streamable :: "anthropicStreamState \<Rightarrow> bool" where
  "streamable s \<longleftrightarrow> (\<exists>opens. streaming s opens)"

lemma after_streamable:
  assumes "after r tidy"
  shows "if fst r then tidy (snd r) else asClientWriteFailed (snd r) \<and> streamable (snd r)"
  using assms by (auto simp: after_def streamable_def split: prod.splits)

lemma tidy_streamable: "tidy s \<Longrightarrow> streamable s"
  by (auto simp: tidy_def streamable_def)

lemma on_chunk_state:
  "arState (snd (anthropicOnChunk J ok cb chunk r)) = snd (consumeChunk J ok chunk (arState r))"
  "fst (anthropicOnChunk J ok cb chunk r) = fst (consumeChunk J ok chunk (arState r))"
  by (simp_all add: anthropicOnChunk_def Let_def split: prod.splits)

lemma chunk_data_keeps:
  assumes "tidy (arState (crUser r))" "\<not> crDone r"
  shows "case chunkData J (Some (anthropicOnChunk J ok cb)) t d r of (go, r') \<Rightarrow>
    if go then tidy (arState (crUser r')) \<and> \<not> crDone r'
    else if crDone r' then tidy (arState (crUser r')) else streamable (arState (crUser r'))"
proof -
  have k: "case callOnChunk (Some (anthropicOnChunk J ok cb)) chunk r of (go, r') \<Rightarrow>
      if go then tidy (arState (crUser r')) \<and> \<not> crDone r' else streamable (arState (crUser r')) \<and> \<not> crDone r'" for chunk
    using after_streamable[OF consume_chunk[OF assms(1), of J ok chunk]]
      on_chunk_state[of J ok cb chunk "crUser r"] assms(2)
    by (cases "anthropicOnChunk J ok cb chunk (crUser r)") (auto simp: callOnChunk_def)
  show ?thesis
  proof (cases "d = ''[DONE]'' \<or> parseOpenAIStreamError J t d \<noteq> None \<or> sjChunk J d = None")
    case True
    then show ?thesis
      using assms tidy_streamable[OF assms(1)] by (auto simp: chunkData_def split: option.splits)
  next
    case False
    then obtain chunk where "chunkData J (Some (anthropicOnChunk J ok cb)) t d r =
        callOnChunk (Some (anthropicOnChunk J ok cb)) chunk r"
      by (auto simp: chunkData_def)
    with k[of chunk] show ?thesis by (auto split: prod.splits)
  qed
qed

lemma error_ends:
  assumes "streamable s"
  shows "\<exists>w. acceptedStream (asSent (snd (emitEvent ok (error_event t m) s))) = Some w \<and>
    (asClientWriteFailed (snd (emitEvent ok (error_event t m) s)) \<or> w = (phEnded, []))"
  using assms by (auto simp: emitEvent_def streamable_def streaming_def accepted_snoc)

lemma end_with_error:
  assumes "streamable (arState r)"
  shows "\<exists>w. acceptedStream (asSent (arState (endWithError ok cb status m r))) = Some w \<and>
    (asClientWriteFailed (arState (endWithError ok cb status m r)) \<or> w = (phEnded, []))"
proof -
  have "arState (reportStatus cb status r) = arState r" by (simp add: reportStatus_def)
  then show ?thesis
    using error_ends[OF assms] by (simp add: endWithError_def emitError_def emitTypedError_def Let_def)
qed

lemma end_of_transport:
  assumes "streamable (arState r)"
  shows "\<exists>w. acceptedStream (asSent (arState (endOfTransport ok cb m r))) = Some w \<and>
    (asClientWriteFailed (arState (endOfTransport ok cb m r)) \<or> w = (phEnded, []))"
  using end_with_error[OF assms] error_ends[OF assms] assms
  by (auto simp: endOfTransport_def Let_def emitShutdownError_def streamable_def streaming_def)

lemma started_tidy:
  "startMessage ok (newAnthropicStreamState model rid) = (True, s) \<Longrightarrow> tidy s"
  by (auto simp: startMessage_def emitEvent_def newAnthropicStreamState_def streaming_def acceptedStream_def
      blocksAre_def split: if_splits intro!: tidy_intro[of _ "[]"])

text \<open>C14. The client of a translated stream sees an acceptable event stream. Whatever the upstream sends
  and wherever a write fails, the events written start the message once, start, fill and stop content
  blocks so that deltas reach open blocks of their kind and text is never open beside another block;
  and unless a write failed the message is complete: all blocks stopped and the stop, or an error.\<close>

theorem anthropic_stream_well_formed:
  "\<exists>w. acceptedStream (asSent (arState
      (streamOpenAIToAnthropicWithLifecycle J E ok cb fin body model rid))) = Some w \<and>
    (asClientWriteFailed (arState (streamOpenAIToAnthropicWithLifecycle J E ok cb fin body model rid)) \<or>
     w = (phEnded, []))"
proof -
  obtain started s where st: "startMessage ok (newAnthropicStreamState model rid) = (started, s)"
    by (cases "startMessage ok (newAnthropicStreamState model rid)") auto
  show ?thesis
  proof (cases started)
    case False
    then show ?thesis
      using st by (auto simp: streamOpenAIToAnthropicWithLifecycle_def newAnthropicRun_def startMessage_def
          emitEvent_def newAnthropicStreamState_def acceptedStream_def split: if_splits)
  next
    case True
    let ?f = "chunkData J (Some (anthropicOnChunk J ok cb))"
    let ?r0 = "chunkStart (newAnthropicRun s)"
    obtain outcome r where l: "sseLoop False ?f fin body emptyAccumulator ?r0 = (outcome, r)"
      by (cases "sseLoop False ?f fin body emptyAccumulator ?r0") auto
    have "tidy (arState (crUser ?r0)) \<and> \<not> crDone ?r0"
      using started_tidy st True by (simp add: chunkStart_def newAnthropicRun_def)
    note init = this
    have k: "if outcome = soStopped then (if crDone r then tidy (arState (crUser r)) else streamable (arState (crUser r)))
        else tidy (arState (crUser r)) \<and> \<not> crDone r"
    proof (rule sse_loop_keeps[where I = "\<lambda>r. tidy (arState (crUser r)) \<and> \<not> crDone r"
          and S = "\<lambda>r. if crDone r then tidy (arState (crUser r)) else streamable (arState (crUser r))", OF _ init l])
      fix t d and r1 :: "anthropicRun chunkRun"
      assume "tidy (arState (crUser r1)) \<and> \<not> crDone r1"
      then show "case ?f t d r1 of (go, s') \<Rightarrow>
          if go then tidy (arState (crUser s')) \<and> \<not> crDone s'
          else if crDone s' then tidy (arState (crUser s')) else streamable (arState (crUser s'))"
        by (intro chunk_data_keeps) auto
    qed
    then have sm: "streamable (arState (crUser r))" by (auto split: if_splits intro: tidy_streamable)
    note u = streamOpenAIToAnthropicWithLifecycle_def st prod.case True
    obtain sawDone err r' where c: "consumeOpenAIStreamChunks J (Some (anthropicOnChunk J ok cb)) fin body (newAnthropicRun s) =
        (sawDone, err, r')" "r' = crUser r" "sawDone \<longrightarrow> tidy (arState r')"
      using k l by (cases outcome) (auto simp: consumeOpenAIStreamChunks_def)
    show ?thesis
    proof (cases err)
      case (Some e)
      then show ?thesis using c sm end_with_error end_of_transport by (cases e) (auto simp: u)
    next
      case None
      obtain go s' where f: "finishMessage ok (arState r') = (go, s')" by (cases "finishMessage ok (arState r')") auto
      then show ?thesis
        using None c sm end_of_transport[of r'] finish_message[OF _ f] f by (auto simp: u)
    qed
  qed
qed


section \<open>No text is lost\<close>

text \<open>The text a client has been sent, and the text of a chunk.\<close>

definition textSent :: "anthropicEvent list \<Rightarrow> string" where
  "textSent es = concat (map (\<lambda>e. case e of content_block_delta i (textDelta t) \<Rightarrow> t | _ \<Rightarrow> '''') es)"

definition choiceText :: "streamJson \<Rightarrow> OpenAIStreamChoice \<Rightarrow> string" where
  "choiceText J c = usableText J (sdContent (scDelta c)) @ usableText J (sdRefusal (scDelta c))"

definition chunkText :: "streamJson \<Rightarrow> OpenAIStreamChunk \<Rightarrow> string" where
  "chunkText J chunk = concat (map (choiceText J) (ckChoices chunk))"

text \<open>A step that succeeds has sent the given text.\<close>

definition says :: "bool \<times> anthropicStreamState \<Rightarrow> anthropicStreamState \<Rightarrow> string \<Rightarrow> bool" where
  "says r s str \<longleftrightarrow> fst r \<and> textSent (asSent (snd r)) = textSent (asSent s) @ str"

abbreviation allWritten :: writeAnswers where "allWritten \<equiv> \<lambda>_. True"

lemma textSent_simps [simp]: "textSent [] = ''''" "textSent (xs @ ys) = textSent xs @ textSent ys"
  "textSent (e # es) = (case e of content_block_delta i (textDelta t) \<Rightarrow> t | _ \<Rightarrow> '''') @ textSent es"
  by (simp_all add: textSent_def)

lemma says_nothing [simp]: "asSent s' = asSent s \<Longrightarrow> says (True, s') s ''''"
  by (simp add: says_def)

lemma says_then: "says r s a \<Longrightarrow> (\<And>s'. says (step s') s' b) \<Longrightarrow> says (andThen r step) s (a @ b)"
  by (cases r) (auto simp: says_def andThen_def)

lemma says_then_nothing: "says r s a \<Longrightarrow> (\<And>s'. says (step s') s' '''') \<Longrightarrow> says (andThen r step) s a"
  using says_then[of r s a step "''''"] by simp

lemma says_emit: "says (emitEvent allWritten e s) s (textSent [e])"
  by (simp add: says_def emitEvent_def)

lemma says_emit_quiet: "textSent [e] = '''' \<Longrightarrow> says (emitEvent allWritten e s) s ''''"
  using says_emit[of e s] by simp

lemma says_same: "asSent s = asSent s' \<Longrightarrow> says r s a \<Longrightarrow> says r s' a"
  by (simp add: says_def)

lemma says_stops: "says (stopBlocks allWritten is s) s ''''"
  by (induction "is" arbitrary: s) (auto intro!: says_then_nothing says_emit_quiet)

lemma says_close_text: "says (closeTextBlock allWritten s) s ''''"
  by (auto simp: closeTextBlock_def intro!: says_then_nothing says_emit_quiet)

lemma says_close_tools: "says (closeOpenToolBlocks allWritten s) s ''''"
  by (auto simp: closeOpenToolBlocks_def Let_def intro!: says_then_nothing says_stops)

lemma says_text: "says (emitText allWritten str s) s str"
proof -
  let ?op = "\<lambda>s. if asTextBlockIndex s < 0
            then let s' = s\<lparr>asTextBlockIndex := asNextBlockIndex s, asNextBlockIndex := asNextBlockIndex s + 1\<rparr>
                 in emitEvent allWritten (content_block_start (asTextBlockIndex s') textBlock) s'
            else (True, s)"
  have op: "says (?op s') s' ''''" for s'
    by (auto simp: Let_def says_def emitEvent_def)
  have tx: "says (emitEvent allWritten (content_block_delta (asTextBlockIndex s') (textDelta str)) s') s' str" for s'
    using says_emit[of "content_block_delta (asTextBlockIndex s') (textDelta str)" s'] by simp
  from says_then[OF says_then_nothing[OF says_close_tools op] tx, of s] show ?thesis
    by (simp add: emitText_def)
qed

lemma says_start_tool: "says (startToolCall allWritten k call s) s ''''"
  unfolding startToolCall_def
  by (rule says_then_nothing[OF says_close_text])
    (auto simp: Let_def registerTool_def says_def emitEvent_def andThen_def)

lemma says_tool: "says (consumeToolCall allWritten call s) s ''''"
proof -
  have "says (if tcID call \<noteq> '''' then startToolCall allWritten k call s else (True, s)) s ''''" for k
    by (simp add: says_start_tool)
  then show ?thesis
    unfolding consumeToolCall_def Let_def
    by (rule says_then_nothing) (auto simp: says_def emitEvent_def split: option.splits)
qed

lemma says_tools: "says (consumeToolCalls allWritten calls s) s ''''"
  by (induction calls arbitrary: s) (auto intro!: says_then_nothing says_tool)

lemma says_choice: "says (consumeChoice J allWritten c s) s (choiceText J c)"
proof -
  have u: "says (emitUsable allWritten str s) s str" for str s
    by (simp add: emitUsable_def says_text)
  have f: "says (True, case scFinishReason c of None \<Rightarrow> s' | Some r \<Rightarrow> s'\<lparr>asStoredFinishReason := r\<rparr>) s' ''''" for s'
    by (simp split: option.splits)
  show ?thesis
    unfolding consumeChoice_def choiceText_def
    by (rule says_then_nothing[OF says_then_nothing[OF says_then[OF u u] says_tools] f])
qed

lemma says_choices: "says (consumeChoices J allWritten cs s) s (concat (map (choiceText J) cs))"
  by (induction cs arbitrary: s) (auto intro!: says_then says_choice)

lemma says_chunk: "says (consumeChunk J allWritten chunk s) s (chunkText J chunk)"
  unfolding consumeChunk_def chunkText_def
  by (rule says_same[OF _ says_choices]) (simp split: option.splits)

text \<open>The chunks of a stream: those before its end and before an error.\<close>

fun streamedChunks :: "streamJson \<Rightarrow> (string \<times> string) list \<Rightarrow> OpenAIStreamChunk list" where
  "streamedChunks J [] = []"
| "streamedChunks J ((t, d) # evs) =
     (if d = ''[DONE]'' \<or> parseOpenAIStreamError J t d \<noteq> None then []
      else (case sjChunk J d of None \<Rightarrow> [] | Some c \<Rightarrow> [c]) @ streamedChunks J evs)"

lemma run_text:
  "runEvents (chunkData J (Some (anthropicOnChunk J allWritten cb))) evs r = (go, r') \<Longrightarrow>
   textSent (asSent (arState (crUser r'))) =
     textSent (asSent (arState (crUser r))) @ concat (map (chunkText J) (streamedChunks J evs))"
proof (induction evs arbitrary: r)
  case (Cons ev evs)
  obtain t d where e: "ev = (t, d)" by (cases ev)
  let ?f = "chunkData J (Some (anthropicOnChunk J allWritten cb))"
  show ?case
  proof (cases "d = ''[DONE]'' \<or> parseOpenAIStreamError J t d \<noteq> None")
    case True
    then have "\<exists>r1. ?f t d r = (False, r1) \<and> crUser r1 = crUser r"
      by (cases "d = ''[DONE]''") (auto simp: chunkData_def)
    then obtain r1 where "?f t d r = (False, r1)" "crUser r1 = crUser r" by blast
    with True show ?thesis using Cons.prems by (auto simp: e)
  next
    case False
    show ?thesis
    proof (cases "sjChunk J d")
      case None
      then have "?f t d r = (True, r)" using False by (simp add: chunkData_def)
      then show ?thesis using Cons.prems Cons.IH[of r] False None by (simp add: e)
    next
      case (Some c)
      obtain go1 r1 where s: "?f t d r = (go1, r1)" by (cases "?f t d r") auto
      then have "go1 = fst (consumeChunk J allWritten c (arState (crUser r)))"
        "arState (crUser r1) = snd (consumeChunk J allWritten c (arState (crUser r)))"
        using False Some on_chunk_state[of J allWritten cb c "crUser r"]
        by (auto simp: chunkData_def callOnChunk_def split: prod.splits)
      with says_chunk[of J c "arState (crUser r)"] have
        "go1" "textSent (asSent (arState (crUser r1))) = textSent (asSent (arState (crUser r))) @ chunkText J c"
        by (simp_all add: says_def)
      then show ?thesis using Cons.prems Cons.IH[of r1] False Some s by (simp add: e)
    qed
  qed
qed simp

lemma says_finish: "says (finishMessage allWritten s) s ''''"
  unfolding finishMessage_def
  by (rule says_then_nothing[OF says_then_nothing[OF says_then_nothing[OF says_close_text says_close_tools]]])
    (auto intro!: says_emit_quiet simp: Let_def)

lemma end_text:
  "textSent (asSent (arState (endWithError allWritten cb status m r))) = textSent (asSent (arState r))"
  "textSent (asSent (arState (endOfTransport allWritten cb m r))) = textSent (asSent (arState r))"
  by (simp_all add: endOfTransport_def endWithError_def reportStatus_def emitError_def emitTypedError_def
      emitShutdownError_def emitEvent_def Let_def)

text \<open>C15. No text is lost in translation. A client that takes every write is sent, as text deltas, exactly
  the contents and refusals of the chunks of the stream, in their order: the chunks before the end of
  the stream, or before the error that cuts it short.\<close>

theorem anthropic_text_preserved:
  assumes "\<forall>l \<in> set (streamLines body). length l \<le> openAIStreamScannerMaxBuffer"
  shows "textSent (asSent (arState
      (streamOpenAIToAnthropicWithLifecycle J E allWritten cb ioEOF body model rid))) =
    concat (map (chunkText J) (streamedChunks J (sseEvents '''' [] (streamLines body))))"
proof -
  obtain s where st: "startMessage allWritten (newAnthropicStreamState model rid) = (True, s)" "textSent (asSent s) = ''''"
    by (simp add: startMessage_def emitEvent_def newAnthropicStreamState_def)
  let ?f = "chunkData J (Some (anthropicOnChunk J allWritten cb))"
  obtain go r where run: "runEvents ?f (sseEvents '''' [] (streamLines body)) (chunkStart (newAnthropicRun s)) = (go, r)"
    by (cases "runEvents ?f (sseEvents '''' [] (streamLines body)) (chunkStart (newAnthropicRun s))") auto
  have t: "textSent (asSent (arState (crUser r))) =
      concat (map (chunkText J) (streamedChunks J (sseEvents '''' [] (streamLines body))))"
    using run_text[OF run] st(2) by (simp add: chunkStart_def newAnthropicRun_def)
  obtain sawDone err where c: "consumeOpenAIStreamChunks J (Some (anthropicOnChunk J allWritten cb)) ioEOF body
      (newAnthropicRun s) = (sawDone, err, crUser r)"
    using sse_loop_events[OF assms, of ?f emptyAccumulator "chunkStart (newAnthropicRun s)"] run
    by (simp add: consumeOpenAIStreamChunks_def emptyAccumulator_def split: if_splits)
  note u = streamOpenAIToAnthropicWithLifecycle_def st(1) prod.case c
  show ?thesis
  proof (cases err)
    case (Some e)
    then show ?thesis by (cases e) (simp_all add: u end_text t)
  next
    case None
    with says_finish[of "arState (crUser r)"] show ?thesis
      by (auto simp: u end_text t says_def split: prod.splits)
  qed
qed

lemma anthropic_text_preserved_witness:
  "let body = ''data: {}'' @ [newline, newline];
       run = streamOpenAIToAnthropicWithLifecycle oneChoiceJson
         \<lparr>ceQuote = \<lambda>s. s, ceChunkLength = \<lambda>_. Some 0, ceValid = \<lambda>_. True\<rparr> allWritten
         \<lparr>acHasOnError = True, acHasOnUsage = False, acHasOnCopilotUsage = False, acHasOnFinal = False,
          acTransportCanceled = False, acReadErrorText = \<lambda>_. ''''\<rparr> ioEOF body ''m'' ''r''
   in textSent (asSent (arState run)) =
        concat (map (chunkText oneChoiceJson) (streamedChunks oneChoiceJson [('''', ''{}'')]))"
proof -
  let ?body = "''data: {}'' @ [newline, newline]"
  have l: "streamLines ?body = [''data: {}'' @ [newline], [newline]]"
    using streamLines_line[of "''data: {}''" "[newline]"] streamLines_line[of "''''" "''''"] by simp
  have fit: "\<forall>l \<in> set (streamLines ?body). length l \<le> openAIStreamScannerMaxBuffer"
    unfolding l by (simp add: openAIStreamScannerMaxBuffer_def)
  have "sseEvents '''' [] (streamLines ?body) = [('''', ''{}'')]"
    unfolding l by code_simp
  with anthropic_text_preserved[OF fit] show ?thesis by (simp add: Let_def)
qed

section \<open>A block that is started again\<close>

text \<open>
  What the automaton does not forbid: the index of a stopped block is used again. When a tool call is
  named again after text was sent in between, its block is started a second time under the index the
  client has already seen stopped.
\<close>

lemma stopped_tool_block_restarts:
  "let call = \<lparr>tcID = ''a'', tcType = ''function'', tcFunction = \<lparr>fcName = ''f'', fcArguments = ''''\<rparr>, tcIndex = None\<rparr>;
       s = newAnthropicStreamState ''m'' ''r''
   in asSent (snd (andThen (andThen (consumeToolCall allWritten call s) (emitText allWritten ''x''))
        (consumeToolCall allWritten call))) =
      [content_block_start 0 (toolUseBlock ''a'' ''f''), content_block_stop 0,
       content_block_start 1 textBlock, content_block_delta 1 (textDelta ''x''), content_block_stop 1,
       content_block_start 0 (toolUseBlock ''a'' ''f'')]"
  by code_simp

end
