(* ===== verification/Stream_Pump.thy ===== *)
theory Stream_Pump
  imports Stream_Inspect
begin

text \<open>
  The peek pump of a stream of an explicit route (\<open>runExplicitRouteStreamPeekPump\<close>,
  \<open>readExplicitRouteStreamLines\<close>, \<open>explicitRoutePreparedStream\<close> of \<open>streaming.go\<close>): a reader
  goroutine puts the lines of the upstream into a channel of one place, the pump inspects them until it
  can decide, keeps them back, and releases them into a pipe once the response is committed. Every step
  of a goroutine or of the handler is a rule, so that all interleavings are covered.
\<close>

section \<open>Deciding\<close>

datatype explicitRouteStreamProtocol =
    explicitRouteStreamNone | explicitRouteStreamOpenAIChat | explicitRouteStreamAnthropic

record peekState =
  pkProgress :: upstreamSemanticProgress
  pkDecision :: "explicitRouteStreamInspection option"

definition peekStart :: peekState where
  "peekStart = \<lparr>pkProgress = upstreamProgressNone, pkDecision = None\<rparr>"

text \<open>\<open>sendResult\<close>: the first decision is the one that is sent.\<close>

definition sendResult :: "explicitRouteStreamInspection \<Rightarrow> peekState \<Rightarrow> peekState" where
  "sendResult result p =
     (if pkDecision p \<noteq> None then p
      else p\<lparr>pkDecision := Some (if inProgress result = upstreamProgressUnset
                                then result\<lparr>inProgress := pkProgress p\<rparr> else result)\<rparr>)"

definition inspectProtocol ::
  "streamJson \<Rightarrow> explicitRouteStreamProtocol \<Rightarrow> string \<Rightarrow> string \<Rightarrow> explicitRouteStreamInspection" where
  "inspectProtocol J protocol eventType data =
     (if protocol = explicitRouteStreamAnthropic then inspectAnthropicStreamEvent J eventType data False
      else inspectOpenAIChatStreamEvent J eventType data)"

definition peekInspect :: "streamJson \<Rightarrow> explicitRouteStreamProtocol \<Rightarrow> peekState onData" where
  "peekInspect J protocol eventType data p =
     (let result = inspectProtocol J protocol eventType data;
          merged = mergeUpstreamSemanticProgress (pkProgress p) (inProgress result)
      in if inFailure result \<noteq> None then (False, sendResult (result\<lparr>inProgress := merged\<rparr>) p)
         else let p1 = p\<lparr>pkProgress := merged\<rparr>
         in if inTerminalSuccess result \<or> \<not> upstreamProgressAllowsTargetSwitch merged
            then (False, sendResult (result\<lparr>inProgress := merged\<rparr>) p1)
            else (True, p1))"

definition sendProgress :: "peekState \<Rightarrow> peekState" where
  "sendProgress p = sendResult (inspectionOf (pkProgress p)) p"

definition sendUnknown :: "peekState \<Rightarrow> peekState" where
  "sendUnknown p = sendProgress (p\<lparr>pkProgress := upstreamProgressUnknown\<rparr>)"

section \<open>The pump\<close>

datatype pumpPhase = ppPeeking | ppWaiting | ppCommitted | ppFinished

datatype pipeClose = pcEOF | pcError readError | pcCanceled | pcWriteError

record streamPump =
  puRest :: string
  puReaderError :: "readError option"
  puReaderDone :: bool
  puChan :: "(string \<times> readError option) list"
  puPrefix :: "string list"
  puAcc :: sseDataAccumulator
  puPeek :: peekState
  puPhase :: pumpPhase
  puOut :: string
  puClosed :: "pipeClose option"
  puCommit :: bool
  puAbort :: bool
  puReaderClosed :: bool

definition pumpStart :: "string \<Rightarrow> streamPump" where
  "pumpStart body =
     \<lparr>puRest = body, puReaderError = None, puReaderDone = False, puChan = [], puPrefix = [],
      puAcc = emptyAccumulator, puPeek = peekStart, puPhase = ppPeeking, puOut = '''', puClosed = None,
      puCommit = False, puAbort = False, puReaderClosed = False\<rparr>"

text \<open>One line while peeking; the result tells whether the pump goes on peeking.\<close>

definition peekLine ::
  "streamJson \<Rightarrow> explicitRouteStreamProtocol \<Rightarrow> nat \<Rightarrow> string \<Rightarrow> readError option \<Rightarrow> streamPump \<Rightarrow> streamPump" where
  "peekLine J protocol maxPeekBytes line err p =
     (let p1 = (if line \<noteq> '''' then p\<lparr>puPrefix := puPrefix p @ [line]\<rparr> else p);
          wait = (\<lambda>acc pk. p1\<lparr>puAcc := acc, puPeek := pk, puPhase := ppWaiting\<rparr>)
      in if line \<noteq> '''' \<and> trimLine line = '''' \<and> saEventType (puAcc p) \<noteq> '''' \<and> saDataLines (puAcc p) = []
         then wait (puAcc p) (sendUnknown (puPeek p))
         else if line \<noteq> '''' \<and> err = Some errOpenAISSELineTooLong
         then wait (puAcc p) (sendUnknown (puPeek p))
         else case (if line \<noteq> '''' then consumeLine (Some (peekInspect J protocol)) line (puAcc p) (puPeek p)
                    else (True, puAcc p, puPeek p)) of
           (go, acc, pk) \<Rightarrow>
             if \<not> go then wait acc pk
             else if maxPeekBytes \<le> length (concat (puPrefix p1)) then wait acc (sendProgress pk)
             else (case err of
                 None \<Rightarrow> p1\<lparr>puAcc := acc, puPeek := pk\<rparr>
               | Some (readEnd ioEOF) \<Rightarrow>
                   (case accDispatch (Some (peekInspect J protocol)) acc pk of
                      (go', acc', pk') \<Rightarrow> wait acc' (sendProgress pk'))
               | Some e \<Rightarrow> wait acc (sendProgress pk)))"

definition finishPump :: "pipeClose \<Rightarrow> streamPump \<Rightarrow> streamPump" where
  "finishPump how p = p\<lparr>puPhase := ppFinished, puClosed := Some how\<rparr>"

text \<open>How a result of the reader ends the pipe.\<close>

definition closeOf :: "readError \<Rightarrow> pipeClose" where
  "closeOf e = (if e = readEnd ioEOF then pcEOF else pcError e)"

inductive pumpStep ::
  "streamJson \<Rightarrow> explicitRouteStreamProtocol \<Rightarrow> nat \<Rightarrow> streamEnd \<Rightarrow> streamPump \<Rightarrow> streamPump \<Rightarrow> bool"
  for J protocol maxPeekBytes fin where
  reader_line:
    "\<not> puReaderDone p \<Longrightarrow> puChan p = [] \<Longrightarrow> readOpenAISSELine fin (puRest p) = ((line, err), rest) \<Longrightarrow>
     pumpStep J protocol maxPeekBytes fin p
       (p\<lparr>puRest := rest, puChan := [(line, err)], puReaderDone := err \<noteq> None, puReaderError := err\<rparr>)"
| reader_abort:
    "\<not> puReaderDone p \<Longrightarrow> puAbort p \<Longrightarrow>
     pumpStep J protocol maxPeekBytes fin p (p\<lparr>puReaderDone := True\<rparr>)"
| peek_line:
    "puPhase p = ppPeeking \<Longrightarrow> puChan p = (line, err) # chan \<Longrightarrow>
     pumpStep J protocol maxPeekBytes fin p (peekLine J protocol maxPeekBytes line err (p\<lparr>puChan := chan\<rparr>))"
| peek_closed:
    "puPhase p = ppPeeking \<Longrightarrow> puChan p = [] \<Longrightarrow> puReaderDone p \<Longrightarrow>
     pumpStep J protocol maxPeekBytes fin p (p\<lparr>puPeek := sendProgress (puPeek p), puPhase := ppWaiting\<rparr>)"
| pump_abort:
    "puPhase p \<in> {ppPeeking, ppWaiting} \<Longrightarrow> puAbort p \<Longrightarrow>
     pumpStep J protocol maxPeekBytes fin p (finishPump pcCanceled p)"
| pump_commit:
    "puPhase p \<in> {ppPeeking, ppWaiting} \<Longrightarrow> puCommit p \<Longrightarrow>
     pumpStep J protocol maxPeekBytes fin p (p\<lparr>puPhase := ppCommitted, puOut := concat (puPrefix p)\<rparr>)"
| pump_commit_fails:
    "puPhase p \<in> {ppPeeking, ppWaiting} \<Longrightarrow> puCommit p \<Longrightarrow> puReaderClosed p \<Longrightarrow> puPrefix p \<noteq> [] \<Longrightarrow>
     pumpStep J protocol maxPeekBytes fin p
       (finishPump pcWriteError (p\<lparr>puOut := take n (concat (puPrefix p))\<rparr>))"
| copy_line:
    "puPhase p = ppCommitted \<Longrightarrow> puChan p = (line, None) # chan \<Longrightarrow>
     pumpStep J protocol maxPeekBytes fin p (p\<lparr>puChan := chan, puOut := puOut p @ line\<rparr>)"
| copy_last:
    "puPhase p = ppCommitted \<Longrightarrow> puChan p = (line, Some e) # chan \<Longrightarrow>
     pumpStep J protocol maxPeekBytes fin p (finishPump (closeOf e) (p\<lparr>puChan := chan, puOut := puOut p @ line\<rparr>))"
| copy_fails:
    "puPhase p = ppCommitted \<Longrightarrow> puChan p = (line, err) # chan \<Longrightarrow> puReaderClosed p \<Longrightarrow> line \<noteq> '''' \<Longrightarrow>
     pumpStep J protocol maxPeekBytes fin p (finishPump pcWriteError (p\<lparr>puChan := chan, puOut := puOut p @ take n line\<rparr>))"
| copy_closed:
    "puPhase p = ppCommitted \<Longrightarrow> puChan p = [] \<Longrightarrow> puReaderDone p \<Longrightarrow>
     pumpStep J protocol maxPeekBytes fin p (finishPump pcEOF p)"
| commit_response:
    "pumpStep J protocol maxPeekBytes fin p (p\<lparr>puCommit := True\<rparr>)"
| abort_stream:
    "pumpStep J protocol maxPeekBytes fin p (p\<lparr>puAbort := True\<rparr>)"
| close_body:
    "puCommit p \<Longrightarrow> pumpStep J protocol maxPeekBytes fin p (p\<lparr>puReaderClosed := True, puAbort := True\<rparr>)"

inductive_cases pumpStepE: "pumpStep J protocol maxPeekBytes fin p p'"


section \<open>Bytes\<close>

definition pumpBytes :: "string \<Rightarrow> streamPump \<Rightarrow> bool" where
  "pumpBytes body p \<longleftrightarrow>
     (puPhase p \<in> {ppPeeking, ppWaiting} \<longrightarrow>
        body = concat (puPrefix p) @ concat (map fst (puChan p)) @ puRest p \<and> puOut p = '''') \<and>
     (puPhase p = ppCommitted \<longrightarrow> body = puOut p @ concat (map fst (puChan p)) @ puRest p \<and> puCommit p) \<and>
     (puPhase p = ppFinished \<longrightarrow> (\<exists>rest. body = puOut p @ rest) \<and> (puOut p = '''' \<or> puCommit p) \<and>
        (puOut p = body \<or> puClosed p \<noteq> Some pcEOF \<or> puAbort p \<or>
         (\<exists>e. puReaderError p = Some e \<and> e \<noteq> readEnd ioEOF)))"

definition readerState :: "streamPump \<Rightarrow> bool" where
  "readerState p \<longleftrightarrow>
     (puChan p = [] \<or> (\<exists>line err. puChan p = [(line, err)] \<and> (err = None \<or> puReaderDone p \<and> err = puReaderError p))) \<and>
     (\<forall>e. puReaderError p = Some (readEnd e) \<longrightarrow> puRest p = '''') \<and>
     (puReaderError p \<noteq> None \<longrightarrow> puReaderDone p) \<and>
     (puReaderDone p \<longrightarrow> puReaderError p \<noteq> None \<or> puAbort p)"

lemma read_line_end: "readOpenAISSELine fin rest = ((l, Some (readEnd e)), rest') \<Longrightarrow> rest' = '''' \<and> e = fin"
  using read_line_spec[of rest fin] read_line_too_long[of rest fin]
  by (cases "lineEnd rest \<le> openAIStreamScannerMaxBuffer") (auto simp: not_le lineEnd_def split: if_splits)

lemma peekLine_fields:
  "puRest (peekLine J protocol n line err p) = puRest p" "puChan (peekLine J protocol n line err p) = puChan p"
  "puOut (peekLine J protocol n line err p) = puOut p" "puReaderDone (peekLine J protocol n line err p) = puReaderDone p"
  "puReaderError (peekLine J protocol n line err p) = puReaderError p" "puAbort (peekLine J protocol n line err p) = puAbort p"
  "puCommit (peekLine J protocol n line err p) = puCommit p"
  "concat (puPrefix (peekLine J protocol n line err p)) = concat (puPrefix p) @ line"
  "puPhase (peekLine J protocol n line err p) \<in> {puPhase p, ppWaiting}"
  by (simp_all add: peekLine_def Let_def split: prod.splits option.splits readError.splits streamEnd.splits)

lemma reader_state_step:
  assumes "readerState p" "pumpStep J protocol n fin p p'"
  shows "readerState p'"
  using assms(2,1)
proof cases
  case (reader_line line err rest)
  then show ?thesis using assms(1) read_line_end[of fin "puRest p" line _ rest] by (auto simp: readerState_def)
next
  case (peek_line line err chan)
  then show ?thesis using assms(1) by (auto simp: readerState_def peekLine_fields)
qed (auto simp: readerState_def finishPump_def)

lemma take_prefix: "body = a @ b \<Longrightarrow> \<exists>rest. body = take n a @ rest"
  by (metis append.assoc append_take_drop_id)

lemma pump_bytes_step:
  assumes "readerState p" "pumpBytes body p" "pumpStep J protocol n fin p p'"
  shows "pumpBytes body p'"
  using assms(3,1,2)
proof cases
  case (reader_line line err rest)
  then show ?thesis using assms(2) read_line_lossless[OF reader_line(4)] by (auto simp: pumpBytes_def assms(1)[unfolded readerState_def])
next
  case (peek_line line err chan)
  then show ?thesis
    using assms(2) peekLine_fields(9)[of J protocol n line err "p\<lparr>puChan := chan\<rparr>"]
    by (auto simp: pumpBytes_def peekLine_fields)
next
  case (pump_commit_fails k)
  then have "body = concat (puPrefix p) @ (concat (map fst (puChan p)) @ puRest p)" using assms(2) by (simp add: pumpBytes_def)
  from take_prefix[OF this] show ?thesis using pump_commit_fails by (simp add: pumpBytes_def finishPump_def)
next
  case (copy_last line e chan)
  then have "chan = []" "puReaderError p = Some e" using assms(1) by (auto simp: readerState_def)
  moreover have "e = readEnd ioEOF \<Longrightarrow> puRest p = ''''" using assms(1) calculation(2) by (auto simp: readerState_def)
  ultimately show ?thesis using copy_last assms(2) by (auto simp: pumpBytes_def finishPump_def closeOf_def)
next
  case (copy_fails line err chan k)
  then have "body = (puOut p @ line) @ (concat (map fst chan) @ puRest p)" using assms(2) by (simp add: pumpBytes_def)
  then have "\<exists>rest. body = puOut p @ take k line @ rest" by (metis append.assoc append_take_drop_id)
  then show ?thesis using copy_fails assms(2) by (auto simp: pumpBytes_def finishPump_def)
next
  case copy_closed
  then show ?thesis using assms(1,2) by (auto simp: pumpBytes_def finishPump_def readerState_def)
qed (auto simp: pumpBytes_def finishPump_def)

interpretation pump: machine_invariant "\<lambda>p. p = pumpStart body" "pumpStep J protocol n fin"
  "\<lambda>p. readerState p \<and> pumpBytes body p" for body J protocol n fin
proof
  show "p = pumpStart body \<Longrightarrow> readerState p \<and> pumpBytes body p" for p
    by (simp add: readerState_def pumpBytes_def pumpStart_def)
qed (use reader_state_step pump_bytes_step in blast)


text \<open>C23. A peeked stream is released only as it was read. Whatever the order of the steps of the reader, the
  pump, the handler and the client, the bytes in the pipe are a prefix of the upstream body, none is
  released before the response is committed, and a pipe that is closed as a complete stream holds the
  whole body unless the stream was aborted or its reader failed.\<close>

theorem pump_releases_committed_prefix:
  assumes "(pumpStep J protocol n fin)\<^sup>*\<^sup>* (pumpStart body) p"
  shows "(\<exists>rest. body = puOut p @ rest) \<and> (puOut p = '''' \<or> puCommit p) \<and>
    (puOut p = body \<or> puClosed p \<noteq> Some pcEOF \<or> puPhase p \<noteq> ppFinished \<or> puAbort p \<or>
     (\<exists>e. puReaderError p = Some e \<and> e \<noteq> readEnd ioEOF))"
  using pump.reachable_inv[OF refl assms] by (cases "puPhase p") (auto simp: pumpBytes_def)

lemma pump_releases_committed_prefix_witness:
  "\<exists>p. (pumpStep oneChoiceJson explicitRouteStreamOpenAIChat 10 ioEOF)\<^sup>*\<^sup>* (pumpStart ''x'') p \<and>
     puClosed p = Some pcEOF \<and> puOut p = ''x''"
proof -
  let ?S = "pumpStep oneChoiceJson explicitRouteStreamOpenAIChat 10 ioEOF"
  let ?p0 = "pumpStart ''x''"
  let ?p1 = "?p0\<lparr>puCommit := True\<rparr>"
  let ?p2 = "?p1\<lparr>puPhase := ppCommitted, puOut := concat (puPrefix ?p1)\<rparr>"
  let ?p3 = "?p2\<lparr>puRest := '''', puChan := [(''x'', Some (readEnd ioEOF))],
    puReaderDone := Some (readEnd ioEOF) \<noteq> None, puReaderError := Some (readEnd ioEOF)\<rparr>"
  let ?p4 = "finishPump (closeOf (readEnd ioEOF)) (?p3\<lparr>puChan := [], puOut := puOut ?p3 @ ''x''\<rparr>)"
  have rd: "readOpenAISSELine ioEOF ''x'' = ((''x'', Some (readEnd ioEOF)), '''')"
    by (simp add: read_line_spec lineEnd_def openAIStreamScannerMaxBuffer_def)
  have "?S ?p0 ?p1" by (rule commit_response)
  moreover have "?S ?p1 ?p2" by (rule pump_commit) (simp_all add: pumpStart_def)
  moreover have "?S ?p2 ?p3" by (rule reader_line) (simp_all add: pumpStart_def rd)
  moreover have "?S ?p3 ?p4" by (rule copy_last) simp_all
  ultimately have r: "?S\<^sup>*\<^sup>* ?p0 ?p4" by (meson converse_rtranclp_into_rtranclp rtranclp.rtrancl_refl)
  have "puClosed ?p4 = Some pcEOF" "puPhase ?p4 = ppFinished" "\<not> puAbort ?p4" "puReaderError ?p4 = Some (readEnd ioEOF)"
    by (simp_all add: finishPump_def closeOf_def pumpStart_def)
  with pump_releases_committed_prefix[OF r] have "puOut ?p4 = ''x''" by simp
  with r \<open>puClosed ?p4 = Some pcEOF\<close> show ?thesis by blast
qed

section \<open>Decisions\<close>

text \<open>The events that a list of lines completes.\<close>

fun completeEvents :: "string \<Rightarrow> string list \<Rightarrow> string list \<Rightarrow> (string \<times> string) list" where
  "completeEvents eventType ds [] = []"
| "completeEvents eventType ds (l # ls) =
     (if trimLine l = '''' then (if ds = [] then [] else [(eventType, goJoin [newline] ds)]) @ completeEvents '''' [] ls
      else case parseSSELine (trimLine l) of
        Some data \<Rightarrow> completeEvents eventType (ds @ [data]) ls
      | None \<Rightarrow> (case parseSSEEventLine (trimLine l) of
            Some t \<Rightarrow> completeEvents t ds ls
          | None \<Rightarrow> completeEvents eventType ds ls))"

lemma consume_line_complete:
  "consumeLine (Some f) l acc s = (go, acc', s') \<Longrightarrow>
   runEvents f (completeEvents (saEventType acc) (saDataLines acc) (l # ls)) s =
     (if go then runEvents f (completeEvents (saEventType acc') (saDataLines acc') ls) s' else (False, s'))"
  by (cases "saDataLines acc" rule: list.exhaust; cases "tl (saDataLines acc)")
    (auto simp: consumeLine_def accDispatch_def Let_def split: option.splits prod.splits if_splits)

text \<open>The reference: no event shows anything to a client.\<close>

definition silentFor :: "streamJson \<Rightarrow> explicitRouteStreamProtocol \<Rightarrow> string \<Rightarrow> string \<Rightarrow> bool" where
  "silentFor J protocol eventType data \<longleftrightarrow>
     (if protocol = explicitRouteStreamAnthropic then silentMessagesEvent J eventType data
      else silentEvent J eventType data)"

lemma protocol_allows:
  "upstreamProgressAllowsTargetSwitch (inProgress (inspectProtocol J protocol t d)) \<longleftrightarrow> silentFor J protocol t d"
  by (simp add: inspectProtocol_def silentFor_def event_allows messages_event_allows)

abbreviation handedSilent ::
  "streamJson \<Rightarrow> explicitRouteStreamProtocol \<Rightarrow> (string \<times> string) list \<Rightarrow> bool" where
  "handedSilent J protocol evs \<equiv> \<forall>(t, d) \<in> set evs. silentFor J protocol t d"

lemma peek_inspect:
  assumes "pkDecision p = None" "peekInspect J protocol t d p = (go, p')"
  shows "go \<longrightarrow> pkDecision p' = None \<and> upstreamProgressAllowsTargetSwitch (pkProgress p') \<and>
      silentFor J protocol t d"
    and "\<not> go \<longrightarrow> (\<exists>dec. pkDecision p' = Some dec \<and> (upstreamProgressAllowsTargetSwitch (inProgress dec) \<longrightarrow>
      upstreamProgressAllowsTargetSwitch (pkProgress p) \<and>
      silentFor J protocol t d))"
proof -
  let ?r = "inspectProtocol J protocol t d"
  define m where "m = mergeUpstreamSemanticProgress (pkProgress p) (inProgress ?r)"
  have a: "upstreamProgressAllowsTargetSwitch m \<longleftrightarrow>
      upstreamProgressAllowsTargetSwitch (pkProgress p) \<and> upstreamProgressAllowsTargetSwitch (inProgress ?r)"
    by (simp add: m_def)
  have u: "m = upstreamProgressUnset \<Longrightarrow> pkProgress p = upstreamProgressUnset \<and>
      upstreamProgressAllowsTargetSwitch (inProgress ?r)"
    by (cases "pkProgress p"; cases "inProgress ?r") (simp_all add: m_def mergeUpstreamSemanticProgress_def)
  show "go \<longrightarrow> pkDecision p' = None \<and> upstreamProgressAllowsTargetSwitch (pkProgress p') \<and>
      silentFor J protocol t d"
    unfolding protocol_allows[symmetric] using assms a by (auto simp: peekInspect_def Let_def m_def[symmetric] split: if_splits)
  show "\<not> go \<longrightarrow> (\<exists>dec. pkDecision p' = Some dec \<and> (upstreamProgressAllowsTargetSwitch (inProgress dec) \<longrightarrow>
      upstreamProgressAllowsTargetSwitch (pkProgress p) \<and> silentFor J protocol t d))"
    unfolding protocol_allows[symmetric] using assms a u by (auto simp: peekInspect_def Let_def m_def[symmetric] sendResult_def split: if_splits)
qed

lemma peek_run:
  "runEvents (peekInspect J protocol) evs p = (go, p') \<Longrightarrow> pkDecision p = None \<Longrightarrow>
   (go \<longrightarrow> pkDecision p' = None \<and> handedSilent J protocol (handedEvents (peekInspect J protocol) evs p)) \<and>
   (\<not> go \<longrightarrow> (\<exists>dec. pkDecision p' = Some dec \<and> (upstreamProgressAllowsTargetSwitch (inProgress dec) \<longrightarrow>
      handedSilent J protocol (handedEvents (peekInspect J protocol) evs p))))"
proof (induction evs arbitrary: p)
  case (Cons ev evs)
  obtain t d where e: "ev = (t, d)" by (cases ev)
  obtain go1 p1 where s: "peekInspect J protocol t d p = (go1, p1)" by (cases "peekInspect J protocol t d p") auto
  note i = peek_inspect[OF Cons.prems(2) s]
  show ?case
  proof (cases go1)
    case True
    then show ?thesis using Cons.prems(1) Cons.IH[of p1] i(1) by (simp add: e s)
  next
    case False
    then show ?thesis using Cons.prems(1) i(2) by (auto simp: e s)
  qed
qed simp

text \<open>What a decision that lets the request be sent again says of the lines seen.\<close>

definition linesSilent :: "streamJson \<Rightarrow> explicitRouteStreamProtocol \<Rightarrow> string list \<Rightarrow> bool" where
  "linesSilent J protocol ls \<longleftrightarrow>
     handedSilent J protocol (handedEvents (peekInspect J protocol) (completeEvents '''' [] ls) peekStart)"

definition pumpDecides :: "streamJson \<Rightarrow> explicitRouteStreamProtocol \<Rightarrow> streamPump \<Rightarrow> bool" where
  "pumpDecides J protocol p \<longleftrightarrow>
     (puPhase p = ppPeeking \<longrightarrow> pkDecision (puPeek p) = None \<and>
        (\<forall>ls. runEvents (peekInspect J protocol) (completeEvents '''' [] (puPrefix p @ ls)) peekStart =
           runEvents (peekInspect J protocol) (completeEvents (saEventType (puAcc p)) (saDataLines (puAcc p)) ls) (puPeek p))) \<and>
     (\<forall>dec. pkDecision (puPeek p) = Some dec \<and> upstreamProgressAllowsTargetSwitch (inProgress dec) \<longrightarrow>
        linesSilent J protocol (puPrefix p))"

lemma peekStart_none [simp]: "pkDecision peekStart = None"
  by (simp add: peekStart_def)

lemma run_silent:
  assumes "runEvents (peekInspect J protocol) (completeEvents '''' [] ls) peekStart = (go, p')"
  shows "go \<Longrightarrow> linesSilent J protocol ls" "go \<Longrightarrow> pkDecision p' = None"
    "\<not> go \<Longrightarrow> \<exists>dec. pkDecision p' = Some dec \<and> (upstreamProgressAllowsTargetSwitch (inProgress dec) \<longrightarrow> linesSilent J protocol ls)"
  using peek_run[OF assms] by (simp_all add: linesSilent_def)

lemma send_unknown_decides:
  "pkDecision p = None \<Longrightarrow> \<exists>dec. pkDecision (sendUnknown p) = Some dec \<and> \<not> upstreamProgressAllowsTargetSwitch (inProgress dec)"
  by (simp add: sendUnknown_def sendProgress_def sendResult_def)


lemma waiting_decides:
  assumes "puPhase p \<noteq> ppPeeking"
    and "\<And>dec. pkDecision (puPeek p) = Some dec \<Longrightarrow> upstreamProgressAllowsTargetSwitch (inProgress dec) \<Longrightarrow>
      linesSilent J protocol (puPrefix p)"
  shows "pumpDecides J protocol p"
  using assms by (simp add: pumpDecides_def)

text \<open>The branches of \<open>peekLine\<close> once the line is kept.\<close>

definition keepLine :: "string \<Rightarrow> streamPump \<Rightarrow> streamPump" where
  "keepLine line p = (if line \<noteq> '''' then p\<lparr>puPrefix := puPrefix p @ [line]\<rparr> else p)"

definition waitWith :: "sseDataAccumulator \<Rightarrow> peekState \<Rightarrow> streamPump \<Rightarrow> streamPump" where
  "waitWith acc pk p = p\<lparr>puAcc := acc, puPeek := pk, puPhase := ppWaiting\<rparr>"

lemma peek_line_unknown:
  assumes "line \<noteq> ''''"
    and "trimLine line = '''' \<and> saEventType (puAcc p) \<noteq> '''' \<and> saDataLines (puAcc p) = [] \<or> err = Some errOpenAISSELineTooLong"
  shows "peekLine J protocol n line err p = waitWith (puAcc p) (sendUnknown (puPeek p)) (keepLine line p)"
  unfolding peekLine_def Let_def waitWith_def keepLine_def using assms by argo

lemma peek_line_known:
  assumes "\<not> (line \<noteq> '''' \<and> trimLine line = '''' \<and> saEventType (puAcc p) \<noteq> '''' \<and> saDataLines (puAcc p) = [])"
    and "\<not> (line \<noteq> '''' \<and> err = Some errOpenAISSELineTooLong)"
    and "(if line \<noteq> '''' then consumeLine (Some (peekInspect J protocol)) line (puAcc p) (puPeek p)
        else (True, puAcc p, puPeek p)) = (go, acc, pk)"
  shows "peekLine J protocol n line err p =
    (if \<not> go then waitWith acc pk (keepLine line p)
     else if n \<le> length (concat (puPrefix (keepLine line p))) then waitWith acc (sendProgress pk) (keepLine line p)
     else (case err of
         None \<Rightarrow> (keepLine line p)\<lparr>puAcc := acc, puPeek := pk\<rparr>
       | Some (readEnd ioEOF) \<Rightarrow>
           (case accDispatch (Some (peekInspect J protocol)) acc pk of
              (go', acc', pk') \<Rightarrow> waitWith acc' (sendProgress pk') (keepLine line p))
       | Some e \<Rightarrow> waitWith acc (sendProgress pk) (keepLine line p)))"
  unfolding peekLine_def Let_def if_not_P[OF assms(1)] if_not_P[OF assms(2)] assms(3) prod.case waitWith_def keepLine_def
  by (rule refl)

lemma keepLine_fields [simp]:
  "puAcc (keepLine line p) = puAcc p" "puPeek (keepLine line p) = puPeek p" "puPhase (keepLine line p) = puPhase p"
  by (simp_all add: keepLine_def)

lemma waitWith_fields [simp]:
  "puPhase (waitWith acc pk p) = ppWaiting" "puPeek (waitWith acc pk p) = pk" "puPrefix (waitWith acc pk p) = puPrefix p"
  by (simp_all add: waitWith_def)

lemma peek_line_decides:
  assumes "pumpDecides J protocol p" "puPhase p = ppPeeking"
  shows "pumpDecides J protocol (peekLine J protocol n line err p)"
proof -
  let ?f = "peekInspect J protocol"
  let ?ls = "puPrefix (keepLine line p)"
  have none: "pkDecision (puPeek p) = None"
    and run: "\<And>ls. runEvents ?f (completeEvents '''' [] (puPrefix p @ ls)) peekStart =
      runEvents ?f (completeEvents (saEventType (puAcc p)) (saDataLines (puAcc p)) ls) (puPeek p)"
    using assms by (simp_all add: pumpDecides_def)
  show ?thesis
  proof (cases "line \<noteq> '''' \<and> (trimLine line = '''' \<and> saEventType (puAcc p) \<noteq> '''' \<and> saDataLines (puAcc p) = [] \<or>
      err = Some errOpenAISSELineTooLong)")
    case True
    then have "line \<noteq> ''''" and "trimLine line = '''' \<and> saEventType (puAcc p) \<noteq> '''' \<and> saDataLines (puAcc p) = [] \<or>
      err = Some errOpenAISSELineTooLong" by simp_all
    note u = peek_line_unknown[OF this, of J protocol n]
    from send_unknown_decides[OF none] obtain dec where "pkDecision (sendUnknown (puPeek p)) = Some dec"
      "\<not> upstreamProgressAllowsTargetSwitch (inProgress dec)" by blast
    then show ?thesis unfolding u by (intro waiting_decides) simp_all
  next
    case False
    obtain go acc pk where c: "(if line \<noteq> '''' then consumeLine (Some ?f) line (puAcc p) (puPeek p)
        else (True, puAcc p, puPeek p)) = (go, acc, pk)"
      by (metis prod_cases3)
    have r: "runEvents ?f (completeEvents '''' [] (?ls @ ls)) peekStart =
        (if go then runEvents ?f (completeEvents (saEventType acc) (saDataLines acc) ls) pk else (False, pk))" for ls
    proof (cases "line = ''''")
      case True
      then show ?thesis using c run[of ls] by (simp add: keepLine_def)
    next
      case False
      then have "consumeLine (Some ?f) line (puAcc p) (puPeek p) = (go, acc, pk)" using c by simp
      from consume_line_complete[OF this, of ls] False run[of "line # ls"] show ?thesis by (simp add: keepLine_def)
    qed
    have eq: "peekLine J protocol n line err p =
      (if \<not> go then waitWith acc pk (keepLine line p)
       else if n \<le> length (concat ?ls) then waitWith acc (sendProgress pk) (keepLine line p)
       else (case err of
           None \<Rightarrow> (keepLine line p)\<lparr>puAcc := acc, puPeek := pk\<rparr>
         | Some (readEnd ioEOF) \<Rightarrow>
             (case accDispatch (Some ?f) acc pk of
                (go', acc', pk') \<Rightarrow> waitWith acc' (sendProgress pk') (keepLine line p))
         | Some e \<Rightarrow> waitWith acc (sendProgress pk) (keepLine line p)))"
      by (rule peek_line_known[OF _ _ c]) (use False in blast)+
    show ?thesis
    proof (cases go)
      case False
      have run1: "runEvents ?f (completeEvents '''' [] ?ls) peekStart = (False, pk)" using r[of "[]"] False by simp
      from run_silent(3)[OF run1] show ?thesis
        using False by (auto simp: eq intro!: waiting_decides)
    next
      case True
      have run1: "runEvents ?f (completeEvents '''' [] ?ls) peekStart = (True, pk)" using r[of "[]"] True by simp
      have s: "linesSilent J protocol ?ls" "pkDecision pk = None" using run_silent[OF run1] by simp_all
      have w: "pumpDecides J protocol (waitWith acc pk (keepLine line p))" for acc pk
        by (rule waiting_decides) (use s(1) in simp_all)
      have g: "pumpDecides J protocol ((keepLine line p)\<lparr>puAcc := acc, puPeek := pk\<rparr>)"
        using s(2) r True by (simp add: pumpDecides_def)
      show ?thesis
        unfolding eq using True w g
        by (auto split: option.splits readError.splits streamEnd.splits prod.splits)
    qed
  qed
qed

lemma pump_decides_step:
  assumes "pumpDecides J protocol p" "pumpStep J protocol n fin p p'"
  shows "pumpDecides J protocol p'"
  using assms(2,1)
proof cases
  case (peek_line line err chan)
  have "pumpDecides J protocol (p\<lparr>puChan := chan\<rparr>)" using assms(1) by (simp add: pumpDecides_def)
  from peek_line_decides[OF this] peek_line show ?thesis by simp
next
  case peek_closed
  from assms(1) peek_closed(2) have "runEvents (peekInspect J protocol) (completeEvents '''' [] (puPrefix p @ [])) peekStart =
      runEvents (peekInspect J protocol) (completeEvents (saEventType (puAcc p)) (saDataLines (puAcc p)) []) (puPeek p)"
    unfolding pumpDecides_def by blast
  then have run: "runEvents (peekInspect J protocol) (completeEvents '''' [] (puPrefix p)) peekStart = (True, puPeek p)"
    by simp
  show ?thesis unfolding peek_closed(1) by (rule waiting_decides) (simp_all add: run_silent(1)[OF run])
qed (auto simp: pumpDecides_def finishPump_def)

interpretation decisions: machine_invariant "\<lambda>p. p = pumpStart body" "pumpStep J protocol n fin"
  "pumpDecides J protocol" for body J protocol n fin
proof
  show "p = pumpStart body \<Longrightarrow> pumpDecides J protocol p" for p
    by (simp add: pumpDecides_def pumpStart_def emptyAccumulator_def)
qed (rule pump_decides_step)

text \<open>C24. A decision that lets the request be sent again is about silent lines. When the decision of a
  peeked stream carries a progress that allows another target, then in every interleaving all events
  completed by the lines that were read are silent: in a chat stream they carry no output, no tool
  activity, no usage, no end and nothing unknown; in a Messages stream they are pings, the start of a
  message or errors, never a content block, a delta, an end or anything unknown.\<close>

theorem peeked_decision_certifies_silence:
  assumes "(pumpStep J protocol n fin)\<^sup>*\<^sup>* (pumpStart body) p"
    and "pkDecision (puPeek p) = Some dec" "upstreamProgressAllowsTargetSwitch (inProgress dec)"
  shows "\<forall>(t, d) \<in> set (handedEvents (peekInspect J protocol) (completeEvents '''' [] (puPrefix p)) peekStart).
    if protocol = explicitRouteStreamAnthropic then silentMessagesEvent J t d else silentEvent J t d"
  using decisions.reachable_inv[OF refl assms(1)] assms(2,3)
  by (auto simp: pumpDecides_def linesSilent_def silentFor_def)

lemma peeked_decision_certifies_silence_witness:
  "\<exists>p dec. (pumpStep oneChoiceJson explicitRouteStreamOpenAIChat 100 ioEOF)\<^sup>*\<^sup>*
       (pumpStart (''data: {}'' @ [newline, newline])) p \<and>
     puPrefix p = [''data: {}'' @ [newline], [newline]] \<and>
     pkDecision (puPeek p) = Some dec \<and> inProgress dec = upstreamProgressAllowedPreamble \<and>
     set (handedEvents (peekInspect oneChoiceJson explicitRouteStreamOpenAIChat)
        (completeEvents '''' [] (puPrefix p)) peekStart) = {('''', ''{}'')} \<and>
     silentEvent oneChoiceJson '''' ''{}''"
proof -
  let ?J = oneChoiceJson and ?f = "peekInspect oneChoiceJson explicitRouteStreamOpenAIChat"
  let ?S = "pumpStep oneChoiceJson explicitRouteStreamOpenAIChat 100 ioEOF"
  let ?l = "''data: {}'' @ [newline]" and ?e = "Some (readEnd ioEOF)"
  let ?pk = "peekStart\<lparr>pkProgress := upstreamProgressAllowedPreamble\<rparr>"
  let ?a = "\<lparr>saEventType = '''', saDataLines = [''{}'']\<rparr>"
  note rd = one_choice_reads one_choice_reads(1)[simplified]
  have tl: "trimLine ?l = ''data: {}''" "trimLine [newline] = ''''" by (simp_all add: trimLine_def trimRight_def)
  note tl = this this(1)[simplified]
  have ps: "parseSSELine ''data: {}'' = Some ''{}''" by code_simp
  obtain k where k: "inspectOpenAIChatStreamEvent ?J '''' ''{}'' = (inspectionOf upstreamProgressAllowedPreamble)\<lparr>inChunk := Some k\<rparr>"
    using one_choice_inspect by blast
  have i: "?f '''' ''{}'' peekStart = (True, ?pk)"
    using k by (simp add: peekInspect_def inspectProtocol_def inspectionOf_def peekStart_def mergeUpstreamSemanticProgress_def Let_def)
  have c: "consumeLine (Some ?f) ?l emptyAccumulator peekStart = (True, ?a, peekStart)"
    "consumeLine (Some ?f) [newline] ?a peekStart = (True, emptyAccumulator, ?pk)"
    "accDispatch (Some ?f) emptyAccumulator ?pk = (True, emptyAccumulator, ?pk)"
    using ps i by (simp_all only: consumeLine_def tl) (simp_all add: accDispatch_def emptyAccumulator_def)
  let ?p0 = "pumpStart (''data: {}'' @ [newline, newline])"
  let ?p1 = "?p0\<lparr>puRest := [newline], puChan := [(?l, None)], puReaderDone := None \<noteq> (None :: readError option), puReaderError := None\<rparr>"
  let ?p2 = "peekLine ?J explicitRouteStreamOpenAIChat 100 ?l None (?p1\<lparr>puChan := []\<rparr>)"
  let ?q2 = "?p1\<lparr>puChan := [], puPrefix := [?l], puAcc := ?a\<rparr>"
  have e2: "?p2 = ?q2" using c(1) by (simp add: peekLine_def pumpStart_def Let_def tl emptyAccumulator_def)
  let ?p3 = "?q2\<lparr>puRest := '''', puChan := [([newline], None)], puReaderDone := None \<noteq> (None :: readError option), puReaderError := None\<rparr>"
  let ?p4 = "peekLine ?J explicitRouteStreamOpenAIChat 100 [newline] None (?p3\<lparr>puChan := []\<rparr>)"
  let ?q4 = "?p3\<lparr>puChan := [], puPrefix := [?l, [newline]], puAcc := emptyAccumulator, puPeek := ?pk\<rparr>"
  have e4: "?p4 = ?q4" using c(2) by (simp add: peekLine_def pumpStart_def Let_def tl)
  let ?p5 = "?q4\<lparr>puRest := '''', puChan := [('''', ?e)], puReaderDone := ?e \<noteq> None, puReaderError := ?e\<rparr>"
  let ?p6 = "peekLine ?J explicitRouteStreamOpenAIChat 100 '''' ?e (?p5\<lparr>puChan := []\<rparr>)"
  have e6: "?p6 = waitWith emptyAccumulator (sendProgress ?pk) (?p5\<lparr>puChan := []\<rparr>)"
    using c(3) by (simp add: peekLine_def pumpStart_def Let_def waitWith_def)
  have "?S ?p0 ?p1" by (rule reader_line) (simp_all add: pumpStart_def rd)
  moreover have "?S ?p1 ?q2" unfolding e2[symmetric] by (rule peek_line) (simp_all add: pumpStart_def)
  moreover have "?S ?q2 ?p3" by (rule reader_line) (simp_all add: pumpStart_def rd)
  moreover have "?S ?p3 ?q4" unfolding e4[symmetric] by (rule peek_line) (simp_all add: pumpStart_def)
  moreover have "?S ?q4 ?p5" by (rule reader_line) (simp_all add: pumpStart_def rd)
  moreover have "?S ?p5 ?p6" by (rule peek_line) (simp_all add: pumpStart_def)
  ultimately have r: "?S\<^sup>*\<^sup>* ?p0 ?p6" by (meson converse_rtranclp_into_rtranclp rtranclp.rtrancl_refl)
  have d: "pkDecision (puPeek ?p6) = Some (inspectionOf upstreamProgressAllowedPreamble)" "puPrefix ?p6 = [?l, [newline]]"
    unfolding e6 by (simp_all add: waitWith_def sendProgress_def sendResult_def peekStart_def inspectionOf_def)
  have h: "set (handedEvents ?f (completeEvents '''' [] (puPrefix ?p6)) peekStart) = {('''', ''{}'')}"
    unfolding d(2) using ps i by (simp add: tl)
  from peeked_decision_certifies_silence[OF r d(1)] h have "silentEvent ?J '''' ''{}''" by simp
  with r d h show ?thesis by fastforce
qed

text \<open>A read error seen while peeking is not passed on: the response is committed and the pipe is closed as
  a complete stream (after the commit the same error closes it with an error, \<open>copy_last\<close>).\<close>

lemma peeked_read_error_closes_cleanly:
  "\<exists>p. (pumpStep oneChoiceJson explicitRouteStreamOpenAIChat 10 (ioFailed ''reset''))\<^sup>*\<^sup>* (pumpStart '''') p \<and>
     puReaderError p = Some (readEnd (ioFailed ''reset'')) \<and> puClosed p = Some pcEOF \<and> \<not> puAbort p"
proof -
  let ?S = "pumpStep oneChoiceJson explicitRouteStreamOpenAIChat 10 (ioFailed ''reset'')"
  let ?e = "Some (readEnd (ioFailed ''reset''))"
  let ?p0 = "pumpStart ''''"
  let ?p1 = "?p0\<lparr>puRest := '''', puChan := [('''', ?e)], puReaderDone := ?e \<noteq> None, puReaderError := ?e\<rparr>"
  let ?p2 = "peekLine oneChoiceJson explicitRouteStreamOpenAIChat 10 '''' ?e (?p1\<lparr>puChan := []\<rparr>)"
  let ?p3 = "?p2\<lparr>puCommit := True\<rparr>"
  let ?p4 = "?p3\<lparr>puPhase := ppCommitted, puOut := concat (puPrefix ?p3)\<rparr>"
  let ?p5 = "finishPump pcEOF ?p4"
  have rd: "readOpenAISSELine (ioFailed ''reset'') '''' = (('''', ?e), '''')"
    by (simp add: read_line_spec lineEnd_def openAIStreamScannerMaxBuffer_def)
  have e: "?p2 = waitWith emptyAccumulator (sendProgress peekStart) (?p1\<lparr>puChan := []\<rparr>)"
    by (simp add: peekLine_def pumpStart_def waitWith_def)
  have "?S ?p0 ?p1" by (rule reader_line) (simp_all add: pumpStart_def rd)
  moreover have "?S ?p1 ?p2" by (rule peek_line) (simp_all add: pumpStart_def)
  moreover have "?S ?p2 ?p3" by (rule commit_response)
  moreover have "?S ?p3 ?p4" unfolding e by (rule pump_commit) simp_all
  moreover have "?S ?p4 ?p5" unfolding e by (rule copy_closed) (simp_all add: waitWith_def pumpStart_def)
  ultimately have "?S\<^sup>*\<^sup>* ?p0 ?p5" by (meson converse_rtranclp_into_rtranclp rtranclp.rtrancl_refl)
  moreover have "puReaderError ?p5 = ?e" "puClosed ?p5 = Some pcEOF" "\<not> puAbort ?p5"
    unfolding e by (simp_all add: finishPump_def waitWith_def pumpStart_def)
  ultimately show ?thesis by blast
qed

end
