(* ===== verification/Citation_Markers.thy ===== *)
theory Citation_Markers
  imports Go_Strings
begin

text \<open>
  The rewriting of citation markers in the output text of a Responses stream
  (\<open>responses_citation_markers.go\<close>): reading a marker, replacing the markers of a text, holding a partial
  marker between two deltas, and moving the offsets of annotations. A rune of a text is written as the
  bytes that encode it.
\<close>

section \<open>Runes\<close>

text \<open>The runes a \<open>range\<close> loop visits; a byte that starts no rune counts as one.\<close>

definition runeWidth :: "string \<Rightarrow> nat" where
  "runeWidth s = (if runeBytes s = 0 then 1 else runeBytes s)"

function goRunes :: "string \<Rightarrow> string list" where
  "goRunes s = (if s = '''' then [] else take (runeWidth s) s # goRunes (drop (runeWidth s) s))"
  by pat_completeness auto
termination by (relation "measure length") (auto simp: runeWidth_def)

declare goRunes.simps [simp del]

abbreviation runeCount :: "string \<Rightarrow> nat" where
  "runeCount s \<equiv> length (goRunes s)"

lemma goRunes_Nil [simp]: "goRunes '''' = []"
  by (simp add: goRunes.simps)

lemma goRunes_ne: "s \<noteq> '''' \<Longrightarrow> goRunes s = take (runeWidth s) s # goRunes (drop (runeWidth s) s)"
  by (subst goRunes.simps) simp

lemma goRunes_eq_Nil [simp]: "goRunes s = [] \<longleftrightarrow> s = ''''"
  by (subst goRunes.simps) simp

lemma concat_goRunes [simp]: "concat (goRunes s) = s"
  by (induction s rule: goRunes.induct) (subst goRunes.simps, simp)

lemma goRunes_append: "utf8Valid s \<Longrightarrow> goRunes (s @ t) = goRunes s @ goRunes t"
proof (induction s rule: utf8Valid.induct)
  case (1 s)
  show ?case
  proof (cases "s = ''''")
    case False
    then have v: "runeBytes s \<noteq> 0" "utf8Valid (drop (runeBytes s) s)" using 1(2) utf8_step[OF False] by blast+
    have w: "runeWidth (s @ t) = runeBytes s" "runeWidth s = runeBytes s" "runeBytes s \<le> length s"
      using runeBytes_append[OF v(1), of t] v(1) by (simp_all add: runeWidth_def)
    show ?thesis using 1(1)[OF False v] w False goRunes_ne[of "s @ t"] goRunes_ne[OF False] by simp
  qed simp
qed

lemma utf8_cut:
  assumes "\<not> contByte c"
  shows "utf8Valid (s @ c # t) \<Longrightarrow> utf8Valid s \<and> utf8Valid (c # t)"
proof (induction s rule: utf8Valid.induct)
  case (1 s)
  show ?case
  proof (cases "s = ''''")
    case True
    then show ?thesis using 1(2) by simp
  next
    case False
    from 1(2) False have v: "runeBytes (s @ c # t) \<noteq> 0" "utf8Valid (drop (runeBytes (s @ c # t)) (s @ c # t))"
      using utf8_step[of "s @ c # t"] by blast+
    have e: "runeBytes s = runeBytes (s @ c # t)"
      using v(1) assms False
      by (cases s) (auto simp: second3_def second4_def Cons_eq_append_conv split: list.splits if_splits)
    have l: "runeBytes s \<le> length s" "runeBytes s \<noteq> 0" using runeBytes_append[of s "[]"] v(1) e by auto
    have "utf8Valid (drop (runeBytes s) s @ c # t)" using v(2) l unfolding e[symmetric] by simp
    from 1(1)[OF False l(2) this] show ?thesis using l(2) utf8_step[OF False] by blast
  qed
qed

text \<open>\<open>strings.Index\<close>.\<close>

fun goIndex :: "string \<Rightarrow> string \<Rightarrow> nat option" where
  "goIndex s m = (if hasPrefix s m then Some 0
     else case s of [] \<Rightarrow> None | c # s' \<Rightarrow> map_option Suc (goIndex s' m))"

declare goIndex.simps [simp del]

lemma goIndex_Some: "goIndex s m = Some i \<Longrightarrow> \<exists>t. drop i s = m @ t \<and> i \<le> length s"
proof (induction s arbitrary: i)
  case Nil
  then show ?case by (subst (asm) goIndex.simps) (auto simp: hasPrefix_iff split: if_splits)
next
  case (Cons c s)
  then show ?case by (subst (asm) goIndex.simps) (auto simp: hasPrefix_iff split: if_splits)
qed

lemma goIndex_contains: "goIndex s m = None \<longleftrightarrow> \<not> goContains s m"
proof (induction s)
  case Nil
  then show ?case by (subst goIndex.simps, subst goContains.simps) simp
next
  case (Cons c s)
  then show ?case by (subst goIndex.simps, subst goContains.simps) simp
qed

lemma goIndex_Cons: "goIndex (c # s) m = (if hasPrefix (c # s) m then Some 0 else map_option Suc (goIndex s m))"
  by (subst goIndex.simps) simp

lemma goIndex_append:
  assumes "\<forall>u v. a = u @ v \<longrightarrow> v \<noteq> '''' \<longrightarrow> length v < length m \<longrightarrow> take (length v) m \<noteq> v"
  shows "goIndex (a @ b) m = (case goIndex a m of Some i \<Rightarrow> Some i | None \<Rightarrow> map_option ((+) (length a)) (goIndex b m))"
  using assms
proof (induction a)
  case Nil
  have "goIndex '''' m = Some 0 \<Longrightarrow> goIndex b m = Some 0"
    by (subst (asm) goIndex.simps, subst goIndex.simps) (auto simp: hasPrefix_def split: if_splits)
  moreover have "goIndex '''' m = None \<or> goIndex '''' m = Some 0" by (subst (1 2) goIndex.simps) simp
  ultimately show ?case by (cases "goIndex b m") auto
next
  case (Cons c a)
  have p: "hasPrefix (c # a @ b) m \<longleftrightarrow> hasPrefix (c # a) m"
  proof
    assume h: "hasPrefix (c # a @ b) m"
    show "hasPrefix (c # a) m"
    proof (rule ccontr)
      assume n: "\<not> hasPrefix (c # a) m"
      from h have "take (length m) ((c # a) @ b) = m" by (simp add: hasPrefix_def)
      then have "length (c # a) < length m \<and> take (length (c # a)) m = c # a" using n
        by (metis append_take_drop_id append_eq_conv_conj hasPrefix_def length_take linorder_not_less min.absorb2 order_less_imp_le take_append take_all_iff take_take)
      then show False using Cons.prems by (metis append_Nil list.distinct(1))
    qed
  qed (metis append_Cons append_assoc hasPrefix_iff)
  have "\<forall>u v. a = u @ v \<longrightarrow> v \<noteq> '''' \<longrightarrow> length v < length m \<longrightarrow> take (length v) m \<noteq> v"
    using Cons.prems by (metis append_Cons)
  from Cons.IH[OF this] show ?case
    by (cases "goIndex a m"; cases "goIndex b m") (simp_all add: goIndex_Cons p)
qed

lemma goIndex_before: "goIndex s m = Some i \<Longrightarrow> m \<noteq> '''' \<Longrightarrow> goIndex (take i s) m = None"
proof (induction s arbitrary: i)
  case Nil
  then show ?case by (subst (asm) goIndex.simps) (auto simp: hasPrefix_def split: if_splits)
next
  case (Cons c s)
  show ?case
  proof (cases i)
    case 0
    then show ?thesis using Cons.prems by (subst goIndex.simps) (simp add: hasPrefix_def)
  next
    case (Suc j)
    then have j: "goIndex s m = Some j" "\<not> hasPrefix (c # s) m" using Cons.prems(1) by (auto simp: goIndex_Cons split: if_splits)
    then have "\<not> hasPrefix (c # take j s) m"
      by (metis append_Cons append_assoc append_take_drop_id hasPrefix_iff)
    then show ?thesis using Cons.IH[OF j(1) Cons.prems(2)] by (simp add: Suc goIndex_Cons)
  qed
qed

section \<open>Markers\<close>

definition citationMarkerStart :: string where "citationMarkerStart = [CHR 0xEE, CHR 0x88, CHR 0x80]"
definition citationMarkerSep :: string where "citationMarkerSep = [CHR 0xEE, CHR 0x88, CHR 0x82]"
definition citationMarkerEnd :: string where "citationMarkerEnd = [CHR 0xEE, CHR 0x88, CHR 0x81]"
definition citationMarkerMaxBytes :: nat where "citationMarkerMaxBytes = 1024"

definition citationRefRune :: "string \<Rightarrow> bool" where
  "citationRefRune r = (case r of [c] \<Rightarrow> isLowerC c \<or> isUpperC c \<or> isDigit c \<or> c \<in> set ''_-.'' | _ \<Rightarrow> False)"

text \<open>\<open>text[a:b]\<close>.\<close>

definition goSlice :: "string \<Rightarrow> nat \<Rightarrow> nat \<Rightarrow> string" where
  "goSlice s a b = take (b - a) (drop a s)"

text \<open>The loop over the runes after \<open>cite\<close>; \<open>refStart\<close> is \<open>None\<close> before the first separator.\<close>

fun citationRefs :: "string \<Rightarrow> string list \<Rightarrow> nat option \<Rightarrow> nat \<Rightarrow> string list \<Rightarrow> string list \<times> nat \<times> bool" where
  "citationRefs s refs refStart pos [] = ([], length s, False)"
| "citationRefs s refs refStart pos (r # rs) =
     (if citationMarkerMaxBytes \<le> pos then ([], 0, False)
      else if refStart \<noteq> None \<and> citationRefRune r then citationRefs s refs refStart (pos + length r) rs
      else if refStart = Some pos then ([], 0, False)
      else if r = citationMarkerSep
      then citationRefs s (case refStart of Some a \<Rightarrow> refs @ [goSlice s a pos] | None \<Rightarrow> refs)
             (Some (pos + length r)) (pos + length r) rs
      else if r = citationMarkerEnd \<and> refStart \<noteq> None
      then (refs @ [goSlice s (the refStart) pos], pos + length r, True)
      else ([], 0, False))"

definition parseCitationMarker :: "string \<Rightarrow> string list \<times> nat \<times> bool" where
  "parseCitationMarker s =
     (let rest = drop (length citationMarkerStart) s
      in if \<not> hasPrefix rest ''cite''
         then if length rest < length ''cite'' \<and> hasPrefix ''cite'' rest then ([], length s, False) else ([], 0, False)
         else let offset = length citationMarkerStart + length ''cite''
              in citationRefs s [] None offset (goRunes (drop offset s)))"

lemma slice_append [simp]: "b \<le> length s \<Longrightarrow> goSlice (s @ t) a b = goSlice s a b"
  by (simp add: goSlice_def)

lemma refs_append:
  assumes "citationRefs s refs refStart pos rs = (refs', n, complete)" "pos + length (concat rs) = length s"
    "complete \<or> n = 0" "0 < pos"
  shows "citationRefs (s @ t) refs refStart pos (rs @ rs') = (refs', n, complete)"
  using assms
proof (induction rs arbitrary: refs refStart pos)
  case (Cons r rs)
  show ?case using Cons.prems Cons.IH[of _ _ "pos + length r"] by (auto split: if_splits option.splits)
qed simp

lemma refs_complete:
  "citationRefs s refs refStart pos rs = (refs', n, True) \<Longrightarrow> \<exists>k \<le> length rs. n = pos + length (concat (take k rs))"
proof (induction rs arbitrary: refs refStart pos)
  case (Cons r rs)
  show ?case
  proof (cases "n = pos + length r")
    case True
    then show ?thesis by (intro exI[of _ 1]) simp
  next
    case False
    with Cons.prems obtain refs1 st where "citationRefs s refs1 st (pos + length r) rs = (refs', n, True)"
      by (auto split: if_splits)
    from Cons.IH[OF this] obtain k where "k \<le> length rs" "n = pos + length r + length (concat (take k rs))" by blast
    then show ?thesis by (intro exI[of _ "Suc k"]) simp
  qed
qed simp

lemma refs_partial:
  "citationRefs s refs refStart pos rs = (refs', n, False) \<Longrightarrow> refs' = [] \<and> (n = 0 \<or> n = length s)"
proof (induction rs arbitrary: refs refStart pos)
  case (Cons r rs)
  then show ?case by (auto split: if_splits)
qed simp

text \<open>What a marker parse says of a longer text.\<close>

abbreviation startsMarker :: "string \<Rightarrow> bool" where
  "startsMarker s \<equiv> hasPrefix s citationMarkerStart"

lemma valid_drop_ascii: "utf8Valid (c # s) \<Longrightarrow> c < CHR 0x80 \<Longrightarrow> utf8Valid s"
  using utf8_split[of c "[]" s] by simp

lemma valid_cite: "utf8Valid (''cite'' @ s) \<Longrightarrow> utf8Valid s"
  by (auto dest!: valid_drop_ascii)

lemma marker_rune: "runeBytes (citationMarkerStart @ s) = 3"
proof -
  have "leadByte 3 (CHR 0xEE)" "\<not> leadByte 1 (CHR 0xEE)" "\<not> leadByte 2 (CHR 0xEE)"
    "second3 (CHR 0xEE) (CHR 0x88)" "contByte (CHR 0x80)" by code_simp+
  then show ?thesis by (simp add: citationMarkerStart_def)
qed

lemma start_length [simp]: "length citationMarkerStart = 3"
  by (simp add: citationMarkerStart_def)

lemma valid_marker: "utf8Valid (citationMarkerStart @ s) \<longleftrightarrow> utf8Valid s"
proof -
  have "citationMarkerStart @ s \<noteq> ''''" by (simp add: citationMarkerStart_def)
  from utf8_step[OF this] show ?thesis by (simp add: marker_rune)
qed

lemma marker_runes: "goRunes (citationMarkerStart @ s) = citationMarkerStart # goRunes s"
proof -
  have "citationMarkerStart @ s \<noteq> ''''" by (simp add: citationMarkerStart_def)
  from goRunes_ne[OF this] show ?thesis by (simp add: runeWidth_def marker_rune)
qed

lemma parse_cite:
  "parseCitationMarker (citationMarkerStart @ ''cite'' @ r) =
     citationRefs (citationMarkerStart @ ''cite'' @ r) [] None 7 (goRunes r)"
  unfolding parseCitationMarker_def Let_def by (simp add: hasPrefix_def eval_nat_numeral)

lemma parse_no_cite:
  "\<not> hasPrefix rest ''cite'' \<Longrightarrow> parseCitationMarker (citationMarkerStart @ rest) =
     (if length rest < 4 \<and> hasPrefix ''cite'' rest then ([], 3 + length rest, False) else ([], 0, False))"
  unfolding parseCitationMarker_def Let_def by simp

lemma parse_append:
  assumes "parseCitationMarker s = (refs, n, complete)" "complete \<or> n = 0" "startsMarker s" "utf8Valid s"
  shows "parseCitationMarker (s @ t) = (refs, n, complete)"
proof -
  obtain rest where s: "s = citationMarkerStart @ rest" using assms(3) by (auto simp: hasPrefix_iff)
  have v: "utf8Valid rest" using assms(4) by (simp add: s valid_marker)
  show ?thesis
  proof (cases "hasPrefix rest ''cite''")
    case True
    then obtain r where r: "rest = ''cite'' @ r" by (auto simp: hasPrefix_iff)
    have vr: "utf8Valid r" using v valid_cite unfolding r by blast
    have "citationRefs s [] None 7 (goRunes r) = (refs, n, complete)"
      using assms(1) unfolding s r parse_cite .
    then have "citationRefs (s @ t) [] None 7 (goRunes r @ goRunes t) = (refs, n, complete)"
      by (rule refs_append) (use assms(2) in \<open>simp_all add: s r\<close>)
    then show ?thesis unfolding s r append_assoc parse_cite goRunes_append[OF vr] .
  next
    case False
    with assms(1,2) have n: "\<not> (length rest < 4 \<and> hasPrefix ''cite'' rest)" "refs = []" "n = 0" "\<not> complete"
      by (auto simp: s parse_no_cite split: if_splits)
    have "\<not> hasPrefix (rest @ t) ''cite''"
    proof
      assume h: "hasPrefix (rest @ t) ''cite''"
      then have c: "take 4 (rest @ t) = ''cite''" by (simp add: hasPrefix_def eval_nat_numeral)
      show False
      proof (cases "length rest < 4")
        case True
        then have "take (length rest) (take 4 (rest @ t)) = rest" by (simp add: min_def)
        then have "take (length rest) ''cite'' = rest" unfolding c .
        then show False using n(1) True by (simp add: hasPrefix_def)
      next
        case l: False
        then show False using c False by (simp add: hasPrefix_def eval_nat_numeral)
      qed
    qed
    moreover have "\<not> (length (rest @ t) < 4 \<and> hasPrefix ''cite'' (rest @ t))"
      using n(1) by (auto simp: hasPrefix_iff)
    ultimately show ?thesis using n by (simp add: s parse_no_cite)
  qed
qed

lemma parse_end:
  assumes "parseCitationMarker s = (refs, n, True)"
  shows "7 \<le> n" and "startsMarker s \<Longrightarrow> \<exists>r k. s = citationMarkerStart @ ''cite'' @ r \<and> k \<le> runeCount r \<and>
    n = 7 + length (concat (take k (goRunes r)))"
proof -
  have p: "hasPrefix (drop 3 s) ''cite''" "citationRefs s [] None 7 (goRunes (drop 7 s)) = (refs, n, True)"
    using assms by (auto simp: parseCitationMarker_def Let_def split: if_splits)
  from refs_complete[OF p(2)] obtain k where k: "k \<le> runeCount (drop 7 s)" "n = 7 + length (concat (take k (goRunes (drop 7 s))))"
    by blast
  then show "7 \<le> n" by simp
  assume "startsMarker s"
  then obtain rest where s: "s = citationMarkerStart @ rest" by (auto simp: hasPrefix_iff)
  with p(1) obtain r where r: "rest = ''cite'' @ r" by (auto simp: hasPrefix_iff)
  have "drop 7 s = r" by (simp add: s r citationMarkerStart_def)
  with k s r show "\<exists>r k. s = citationMarkerStart @ ''cite'' @ r \<and> k \<le> runeCount r \<and>
    n = 7 + length (concat (take k (goRunes r)))" by auto
qed

lemma valid_runes: "utf8Valid s \<Longrightarrow> list_all (\<lambda>r. runeBytes r = length r \<and> r \<noteq> '''') (goRunes s)"
proof (induction s rule: utf8Valid.induct)
  case (1 s)
  show ?case
  proof (cases "s = ''''")
    case False
    then have v: "runeBytes s \<noteq> 0" "utf8Valid (drop (runeBytes s) s)" using 1(2) utf8_step[OF False] by blast+
    have l: "runeBytes s \<le> length s" using runeBytes_append[OF v(1), of "[]"] by simp
    have "runeBytes (take (runeBytes s) s) = runeBytes s" using v(1)
      by (cases s) (auto split: list.splits if_splits)
    then show ?thesis using 1(1)[OF False v] v(1) l False by (simp add: goRunes_ne runeWidth_def min_def)
  qed simp
qed

lemma runes_valid: "list_all (\<lambda>r. runeBytes r = length r \<and> r \<noteq> '''') rs \<Longrightarrow> utf8Valid (concat rs)"
proof (induction rs)
  case (Cons r rs)
  then have "utf8Valid r" using utf8_step[of r] by simp
  then show ?case using Cons utf8_append by simp
qed simp

lemma valid_cut_runes:
  assumes "utf8Valid r" "k \<le> runeCount r"
  shows "utf8Valid (take (length (concat (take k (goRunes r)))) r)" "utf8Valid (drop (length (concat (take k (goRunes r)))) r)"
proof -
  have e: "r = concat (take k (goRunes r)) @ concat (drop k (goRunes r))"
    by (metis append_take_drop_id concat_append concat_goRunes)
  have "list_all (\<lambda>r. runeBytes r = length r \<and> r \<noteq> '''') (take k (goRunes r) @ drop k (goRunes r))"
    using valid_runes[OF assms(1)] by simp
  then have v: "utf8Valid (concat (take k (goRunes r)))" "utf8Valid (concat (drop k (goRunes r)))"
    by (simp_all only: list_all_append runes_valid)
  show "utf8Valid (take (length (concat (take k (goRunes r)))) r)" "utf8Valid (drop (length (concat (take k (goRunes r)))) r)"
    using v e by (metis append_eq_conv_conj)+
qed

lemma cut_after: "take (length p + m) (p @ r) = p @ take m r" "drop (length p + m) (p @ r) = drop m r"
  by simp_all

lemma parse_complete:
  assumes "parseCitationMarker s = (refs, n, True)" "startsMarker s" "utf8Valid s"
  shows "n \<le> length s \<and> utf8Valid (take n s) \<and> utf8Valid (drop n s)"
proof -
  from parse_end(2)[OF assms(1,2)] obtain r k where s: "s = citationMarkerStart @ ''cite'' @ r" "k \<le> runeCount r"
    and n: "n = 7 + length (concat (take k (goRunes r)))" by blast
  let ?m = "length (concat (take k (goRunes r)))"
  have r: "utf8Valid r" using assms(3) valid_cite unfolding s valid_marker by blast
  have "concat (take k (goRunes r)) @ concat (drop k (goRunes r)) = r"
    by (metis append_take_drop_id concat_append concat_goRunes)
  then have l: "?m \<le> length r" by (metis length_append le_add1)
  have "n = length (citationMarkerStart @ ''cite'') + ?m" "s = (citationMarkerStart @ ''cite'') @ r" by (simp_all add: s n)
  then have t: "take n s = citationMarkerStart @ ''cite'' @ take ?m r" "drop n s = drop ?m r"
    using cut_after[of "citationMarkerStart @ ''cite''" ?m r] by (simp_all only: append_assoc)
  have c: "utf8Valid (''cite'' @ take ?m r)" using valid_cut_runes(1)[OF r s(2)]
    by (intro utf8_append[OF utf8_ascii]) simp_all
  show ?thesis using valid_cut_runes[OF r s(2)] l c unfolding t valid_marker by (simp add: s n)
qed

lemma parse_partial:
  assumes "parseCitationMarker s = (refs, n, False)" 
  shows "refs = [] \<and> (n = 0 \<or> n = length s)"
  using assms refs_partial[of s "[]" None 7 "goRunes (drop 7 s)" refs n]
  by (auto simp: parseCitationMarker_def Let_def split: if_splits)

section \<open>Rewriting\<close>

record citationLink =
  clTitle :: string
  clUrl :: string

record citationEdit =
  ceStart :: nat
  ceEnd :: nat
  ceLength :: nat

definition citationTitleEscaper :: "string \<Rightarrow> string" where
  "citationTitleEscaper s = concat (map (\<lambda>c. if c \<in> {CHR 0x5C, CHR ''['', CHR '']'', CHR ''|''} then [CHR 0x5C, c] else [c]) s)"

definition citationURLEscaper :: "string \<Rightarrow> string" where
  "citationURLEscaper s = concat (map (\<lambda>c. if c = CHR ''('' then ''%28'' else if c = CHR '')'' then ''%29''
     else if c = CHR ''|'' then ''%7C'' else [c]) s)"

text \<open>\<open>urlHost\<close> stands for the host \<open>url.Parse\<close> finds, empty when it fails.\<close>

fun citationLinkTexts :: "(string \<Rightarrow> string) \<Rightarrow> (string \<Rightarrow> citationLink option) \<Rightarrow> string set \<Rightarrow> string list \<Rightarrow> string list" where
  "citationLinkTexts urlHost lookup seen [] = []"
| "citationLinkTexts urlHost lookup seen (ref # refs) =
     (case lookup ref of
        None \<Rightarrow> citationLinkTexts urlHost lookup seen refs
      | Some link \<Rightarrow>
          if clUrl link \<in> seen then citationLinkTexts urlHost lookup seen refs
          else let title = (if clTitle link \<noteq> '''' then clTitle link
                            else if urlHost (clUrl link) \<noteq> '''' then urlHost (clUrl link) else clUrl link)
          in (''['' @ citationTitleEscaper title @ ''](''  @ citationURLEscaper (clUrl link) @ '')'')
               # citationLinkTexts urlHost lookup (insert (clUrl link) seen) refs)"

definition formatCitationLinks :: "(string \<Rightarrow> string) \<Rightarrow> (string \<Rightarrow> citationLink option) \<Rightarrow> string list \<Rightarrow> string" where
  "formatCitationLinks urlHost lookup refs = goJoin '', '' (citationLinkTexts urlHost lookup {} refs)"

lemma goIndex_less: "goIndex s citationMarkerStart = Some i \<Longrightarrow> i < length s"
  using goIndex_Some[of s citationMarkerStart i] by (cases "i < length s") (auto simp: citationMarkerStart_def)

text \<open>The loop of \<open>rewriteCitationMarkers\<close>; \<open>links\<close> formats the references of a marker.\<close>

function citationLoop ::
  "(string list \<Rightarrow> string) \<Rightarrow> bool \<Rightarrow> nat \<Rightarrow> string \<Rightarrow> string \<times> string \<times> citationEdit list" where
  "citationLoop links final offset s =
     (case goIndex s citationMarkerStart of
        None \<Rightarrow> (s, '''', [])
      | Some i \<Rightarrow>
          let before = take i s; offset = offset + runeCount before; s = drop i s
          in (case parseCitationMarker s of (refs, n, complete) \<Rightarrow>
            if complete then
              let len = runeCount (take n s)
              in (case citationLoop links final (offset + len) (drop n s) of (out, held, edits) \<Rightarrow>
                (before @ links refs @ out, held,
                 \<lparr>ceStart = offset, ceEnd = offset + len, ceLength = runeCount (links refs)\<rparr> # edits))
            else if 0 < n \<and> final then
              (before, '''', [\<lparr>ceStart = offset, ceEnd = offset + runeCount s, ceLength = 0\<rparr>])
            else if 0 < n then (before, s, [])
            else (case citationLoop links final (offset + 1) (drop (length citationMarkerStart) s) of (out, held, edits) \<Rightarrow>
                (before @ citationMarkerStart @ out, held, edits))))"
  by pat_completeness auto
termination
  by (relation "measure (\<lambda>(links, final, offset, s). length s)")
    (auto dest!: goIndex_less parse_end(1)[OF sym])

declare citationLoop.simps [simp del]

definition rewriteCitationMarkers ::
  "(string list \<Rightarrow> string) \<Rightarrow> string \<Rightarrow> bool \<Rightarrow> string \<times> string \<times> citationEdit list" where
  "rewriteCitationMarkers links s final =
     (if \<not> goContains s citationMarkerStart then (s, '''', []) else citationLoop links final 0 s)"

lemma loop_none: "goIndex s citationMarkerStart = None \<Longrightarrow> citationLoop links final offset s = (s, '''', [])"
  by (subst citationLoop.simps) simp

lemma rewrite_is_loop: "rewriteCitationMarkers links s final = citationLoop links final 0 s"
  by (simp add: rewriteCitationMarkers_def loop_none goIndex_contains)

lemma loop_marker:
  assumes "goIndex s citationMarkerStart = Some i" "take i s = p" "drop i s = q"
    "parseCitationMarker q = (refs, n, complete)"
  shows "citationLoop links final offset s =
    (if complete then
       (case citationLoop links final (offset + runeCount p + runeCount (take n q)) (drop n q) of (out, held, edits) \<Rightarrow>
         (p @ links refs @ out, held,
          \<lparr>ceStart = offset + runeCount p, ceEnd = offset + runeCount p + runeCount (take n q),
           ceLength = runeCount (links refs)\<rparr> # edits))
     else if 0 < n \<and> final then
       (p, '''', [\<lparr>ceStart = offset + runeCount p, ceEnd = offset + runeCount p + runeCount q, ceLength = 0\<rparr>])
     else if 0 < n then (p, q, [])
     else (case citationLoop links final (offset + runeCount p + 1) (drop 3 q) of (out, held, edits) \<Rightarrow>
         (p @ citationMarkerStart @ out, held, edits)))"
  using assms by (subst citationLoop.simps) (simp add: Let_def)

section \<open>Chunks\<close>

lemma no_straddle:
  assumes "utf8Valid a" "a = u @ v" "v \<noteq> ''''" "length v < length citationMarkerStart"
  shows "take (length v) citationMarkerStart \<noteq> v"
proof
  assume e: "take (length v) citationMarkerStart = v"
  have v: "v = [CHR 0xEE] \<or> v = [CHR 0xEE, CHR 0x88]"
    using assms(3,4) e by (cases "length v"; cases "length v - 1") (auto simp: citationMarkerStart_def)
  then obtain w where w: "v = CHR 0xEE # w" "w = [] \<or> w = [CHR 0x88]" by auto
  have "\<not> contByte (CHR 0xEE)" by code_simp
  from utf8_cut[OF this, of u w] assms(1,2) w(1) have "utf8Valid v" by simp
  moreover have "\<not> utf8Valid [CHR 0xEE]" "\<not> utf8Valid [CHR 0xEE, CHR 0x88]" by code_simp+
  ultimately show False using v by auto
qed

lemma index_append:
  assumes "utf8Valid a"
  shows "goIndex (a @ b) citationMarkerStart =
    (case goIndex a citationMarkerStart of Some i \<Rightarrow> Some i
     | None \<Rightarrow> map_option ((+) (length a)) (goIndex b citationMarkerStart))"
  using no_straddle[OF assms] by (intro goIndex_append) blast

text \<open>A text with a marker is the text before it and the text from it on.\<close>

lemma index_cut:
  assumes "utf8Valid s" "goIndex s citationMarkerStart = Some i"
  obtains p q where "take i s = p" "drop i s = q" "startsMarker q" "utf8Valid p" "utf8Valid q" "utf8Valid (drop 3 q)"
    "runeCount s = runeCount p + runeCount q" "s = p @ q" "i = length p" "length p < length s"
    "goIndex p citationMarkerStart = None" "\<And>t. goIndex (s @ t) citationMarkerStart = Some i"
proof -
  from goIndex_Some[OF assms(2)] obtain t where t: "drop i s = citationMarkerStart @ t" by blast
  obtain w where w: "citationMarkerStart @ t = CHR 0xEE # w" by (simp add: citationMarkerStart_def)
  have "\<not> contByte (CHR 0xEE)" by code_simp
  from utf8_cut[OF this, of "take i s" w] assms(1) t w have v: "utf8Valid (take i s)" "utf8Valid (drop i s)"
    by (metis append_take_drop_id)+
  have "utf8Valid (drop 3 (drop i s))" using v(2) unfolding t valid_marker by simp
  moreover have "runeCount s = runeCount (take i s) + runeCount (drop i s)"
    using goRunes_append[OF v(1), of "drop i s"] by simp
  moreover have "goIndex (take i s) citationMarkerStart = None"
    by (rule goIndex_before[OF assms(2)]) (simp add: citationMarkerStart_def)
  moreover have "startsMarker (drop i s)" "s = take i s @ drop i s" "i = length (take i s)" "length (take i s) < length s"
    "goIndex (s @ b) citationMarkerStart = Some i" for b
    using t goIndex_less[OF assms(2)] index_append[OF assms(1)] assms(2) append_take_drop_id[of i s, symmetric]
    by (simp_all del: append_take_drop_id)
  ultimately show thesis using v by (intro that[OF refl refl])
qed

lemma loop_prefix:
  assumes "utf8Valid a" "goIndex a citationMarkerStart = None"
  shows "citationLoop links final offset (a @ b) =
    (case citationLoop links final (offset + runeCount a) b of (out, held, edits) \<Rightarrow> (a @ out, held, edits))"
proof (cases "goIndex b citationMarkerStart")
  case None
  then show ?thesis using index_append[OF assms(1), of b] assms(2) by (simp add: loop_none)
next
  case (Some i)
  then have i: "goIndex (a @ b) citationMarkerStart = Some (length a + i)"
    using index_append[OF assms(1), of b] assms(2) by simp
  obtain p q where c: "take i b = p" "drop i b = q" by blast
  then have c': "take (length a + i) (a @ b) = a @ p" "drop (length a + i) (a @ b) = q" by simp_all
  obtain refs n complete where m: "parseCitationMarker q = (refs, n, complete)" by (metis prod_cases3)
  show ?thesis unfolding loop_marker[OF i c' m] loop_marker[OF Some c m]
    by (simp add: goRunes_append[OF assms(1)] add.assoc split: prod.split)
qed

text \<open>Rewriting a text in two pieces: what the first piece holds back goes in front of the second.\<close>

lemma loop_append:
  assumes "utf8Valid a" "citationLoop links False offset a = (out, held, edits)"
  shows "utf8Valid held \<and> runeCount held \<le> runeCount a \<and> citationLoop links final offset (a @ b) =
    (case citationLoop links final (offset + (runeCount a - runeCount held)) (held @ b) of (out', held', edits') \<Rightarrow>
       (out @ out', held', edits @ edits'))"
  using assms
proof (induction "length a" arbitrary: a offset out held edits rule: less_induct)
  case less
  show ?case
  proof (cases "goIndex a citationMarkerStart")
    case None
    then show ?thesis using less.prems loop_prefix[OF less.prems(1) None, of links final offset b]
      by (auto simp: loop_none)
  next
    case (Some i)
    from index_cut[OF less.prems(1) Some] obtain p q where c: "take i a = p" "drop i a = q" and v: "startsMarker q"
      "utf8Valid p" "utf8Valid q" "utf8Valid (drop 3 q)" and count: "runeCount a = runeCount p + runeCount q"
      and a: "a = p @ q" "i = length p" "length p < length a" and np: "goIndex p citationMarkerStart = None"
      and i: "\<And>t. goIndex (a @ t) citationMarkerStart = Some i" by metis
    have c': "take i (a @ b) = p" "drop i (a @ b) = q @ b" by (simp_all add: a)
    obtain refs n complete where m: "parseCitationMarker q = (refs, n, complete)" by (metis prod_cases3)
    note la = loop_marker[OF Some c m, of links False offset]
    consider (complete) complete | (partial) "\<not> complete" "n = length q" "0 < n" | (other) "\<not> complete" "n = 0"
      using parse_partial[of q refs n] m by (cases complete; cases "n = 0") auto
    then show ?thesis
    proof cases
      case complete
      have m': "parseCitationMarker (q @ b) = (refs, n, complete)"
        by (rule parse_append[OF m _ v(1,3)]) (simp add: complete)
      from m complete have n: "n \<le> length q" "utf8Valid (take n q)" "utf8Valid (drop n q)" "7 \<le> n"
        using parse_complete[of q refs n] v parse_end(1)[of q refs n] by simp_all
      obtain o1 h1 e1 where r: "citationLoop links False (offset + runeCount p + runeCount (take n q)) (drop n q) = (o1, h1, e1)"
        by (metis prod_cases3)
      have k: "runeCount q = runeCount (take n q) + runeCount (drop n q)"
        using goRunes_append[OF n(2), of "drop n q"] by simp
      have "length (drop n q) < length a" using n(1,4) a(1) by simp
      from less.hyps[OF this n(3) r] have h: "utf8Valid h1" "runeCount h1 \<le> runeCount (drop n q)"
        and e: "citationLoop links final (offset + runeCount p + runeCount (take n q)) (drop n q @ b) =
          (case citationLoop links final (offset + runeCount p + runeCount (take n q) + (runeCount (drop n q) - runeCount h1)) (h1 @ b) of
            (out', held', edits') \<Rightarrow> (o1 @ out', held', e1 @ edits'))" by simp_all
      have ar: "offset + (runeCount a - runeCount h1) =
          offset + runeCount p + runeCount (take n q) + (runeCount (drop n q) - runeCount h1)" using h(2) count k by simp
      have held: "held = h1" "out = p @ links refs @ o1" "edits = \<lparr>ceStart = offset + runeCount p,
          ceEnd = offset + runeCount p + runeCount (take n q), ceLength = runeCount (links refs)\<rparr> # e1"
        using less.prems(2) complete unfolding la by (simp_all add: r)
      show ?thesis unfolding held loop_marker[OF i c' m'] ar
        using complete h n(1) count k e by (simp split: prod.splits)
    next
      case partial
      then have e: "out = p" "held = q" "edits = []" using less.prems(2) unfolding la by auto
      show ?thesis using v(3) count loop_prefix[OF v(2) np, of links final offset "q @ b"] unfolding e a(1)
        by (simp split: prod.splits)
    next
      case other
      have m': "parseCitationMarker (q @ b) = (refs, n, complete)"
        by (rule parse_append[OF m _ v(1,3)]) (simp add: other)
      obtain o1 h1 e1 where r: "citationLoop links False (offset + runeCount p + 1) (drop 3 q) = (o1, h1, e1)"
        by (metis prod_cases3)
      have k: "runeCount q = 1 + runeCount (drop 3 q)" and l: "3 \<le> length q"
        using v(1) marker_runes by (auto simp: hasPrefix_iff)
      have "length (drop 3 q) < length a" using l a(1) by simp
      from less.hyps[OF this v(4) r] have h: "utf8Valid h1" "runeCount h1 \<le> runeCount (drop 3 q)"
        and e: "citationLoop links final (offset + runeCount p + 1) (drop 3 q @ b) =
          (case citationLoop links final (offset + runeCount p + 1 + (runeCount (drop 3 q) - runeCount h1)) (h1 @ b) of
            (out', held', edits') \<Rightarrow> (o1 @ out', held', e1 @ edits'))" by simp_all
      have ar: "offset + (runeCount a - runeCount h1) =
          offset + runeCount p + 1 + (runeCount (drop 3 q) - runeCount h1)" using h(2) count k by simp
      have held: "held = h1" "out = p @ citationMarkerStart @ o1" "edits = e1"
        using less.prems(2)[unfolded la r] other by simp_all
      show ?thesis unfolding held loop_marker[OF i c' m'] ar
        using other h l count k e by (simp split: prod.splits)
    qed
  qed
qed

lemma loop_shift:
  "citationLoop links final (offset + k) s = (case citationLoop links final offset s of (out, held, edits) \<Rightarrow>
     (out, held, map (\<lambda>e. e\<lparr>ceStart := ceStart e + k, ceEnd := ceEnd e + k\<rparr>) edits))"
proof (induction "length s" arbitrary: s offset rule: less_induct)
  case less
  show ?case
  proof (cases "goIndex s citationMarkerStart")
    case None
    then show ?thesis by (simp add: loop_none)
  next
    case (Some i)
    obtain p q where c: "take i s = p" "drop i s = q" by blast
    obtain refs n complete where m: "parseCitationMarker q = (refs, n, complete)" by (metis prod_cases3)
    have l: "length q \<le> length s" "q \<noteq> ''''" using c goIndex_less[OF Some] by auto
    have "complete \<Longrightarrow> length (drop n q) < length s" using l parse_end(1)[of q refs n] m by (cases q) auto
    then have h1: "complete \<Longrightarrow> citationLoop links final (offset + k + runeCount p + runeCount (take n q)) (drop n q) =
        (case citationLoop links final (offset + runeCount p + runeCount (take n q)) (drop n q) of (out, held, edits) \<Rightarrow>
          (out, held, map (\<lambda>e. e\<lparr>ceStart := ceStart e + k, ceEnd := ceEnd e + k\<rparr>) edits))"
      using less.hyps[of "drop n q" "offset + runeCount p + runeCount (take n q)"] by (simp add: ac_simps)
    have "length (drop 3 q) < length s" using l by (cases q) auto
    then have h2: "citationLoop links final (offset + k + runeCount p + 1) (drop 3 q) =
        (case citationLoop links final (offset + runeCount p + 1) (drop 3 q) of (out, held, edits) \<Rightarrow>
          (out, held, map (\<lambda>e. e\<lparr>ceStart := ceStart e + k, ceEnd := ceEnd e + k\<rparr>) edits))"
      using less.hyps[of "drop 3 q" "offset + runeCount p + 1"] by (simp add: ac_simps)
    show ?thesis unfolding loop_marker[OF Some c m] using h1 h2 by (cases complete; cases final) (simp_all split: prod.split)
  qed
qed

lemma loop_held:
  "citationLoop links False offset s = (out, held, edits) \<Longrightarrow> held \<noteq> '''' \<Longrightarrow>
   startsMarker held \<and> (\<exists>n > 0. parseCitationMarker held = ([], n, False))"
proof (induction "length s" arbitrary: s offset out edits rule: less_induct)
  case less
  show ?case
  proof (cases "goIndex s citationMarkerStart")
    case None
    then show ?thesis using less.prems by (simp add: loop_none)
  next
    case (Some i)
    obtain p q where c: "take i s = p" "drop i s = q" by blast
    obtain refs n complete where m: "parseCitationMarker q = (refs, n, complete)" by (metis prod_cases3)
    have l: "length q \<le> length s" "q \<noteq> ''''" using c goIndex_less[OF Some] by auto
    have sm: "startsMarker q" using c goIndex_Some[OF Some] by auto
    have "complete \<Longrightarrow> length (drop n q) < length s" using l parse_end(1)[of q refs n] m by (cases q) auto
    moreover have "length (drop 3 q) < length s" using l by (cases q) auto
    ultimately show ?thesis
      using less.prems sm m parse_partial[of q refs n] less.hyps[of "drop n q" "offset + runeCount p + runeCount (take n q)"]
        less.hyps[of "drop 3 q" "offset + runeCount p + 1"]
      unfolding loop_marker[OF Some c m] by (cases complete; cases "n = 0") (auto split: prod.splits)
  qed
qed

text \<open>A text that ends: what is still held back is dropped.\<close>

lemma loop_final:
  assumes "utf8Valid a" "citationLoop links False offset a = (out, held, edits)"
  shows "citationLoop links True offset a =
    (out, '''', edits @ (if held = '''' then [] else
       [\<lparr>ceStart = offset + (runeCount a - runeCount held), ceEnd = offset + (runeCount a - runeCount held) + runeCount held,
         ceLength = 0\<rparr>]))"
proof (cases "held = ''''")
  case True
  have "goIndex '''' citationMarkerStart = None" by code_simp
  from loop_none[OF this] show ?thesis using loop_append[OF assms, of True "''''"] True by simp
next
  case False
  from loop_held[OF assms(2) False] obtain n where h: "startsMarker held" "0 < n" "parseCitationMarker held = ([], n, False)"
    by blast
  have i: "goIndex held citationMarkerStart = Some 0" using h(1) by (subst goIndex.simps) simp
  show ?thesis using loop_append[OF assms, of True "''''"] False h(2) loop_marker[OF i _ _ h(3), of "''''" links True]
    by simp
qed

section \<open>Deltas\<close>

record citationTextState =
  ctHeld :: string
  ctConsumed :: nat
  ctEdits :: "citationEdit list"

definition citationTextStart :: citationTextState where
  "citationTextStart = \<lparr>ctHeld = '''', ctConsumed = 0, ctEdits = []\<rparr>"

definition citationDelta :: "(string list \<Rightarrow> string) \<Rightarrow> string \<Rightarrow> citationTextState \<Rightarrow> string \<times> citationTextState" where
  "citationDelta links delta state =
     (let text = ctHeld state @ delta
      in case rewriteCitationMarkers links text False of (out, nextHeld, edits) \<Rightarrow>
        (out, \<lparr>ctHeld = nextHeld, ctConsumed = ctConsumed state + runeCount text - runeCount nextHeld,
               ctEdits = ctEdits state @ map (\<lambda>e. e\<lparr>ceStart := ceStart e + ctConsumed state,
                 ceEnd := ceEnd e + ctConsumed state\<rparr>) edits\<rparr>))"

fun citationDeltas :: "(string list \<Rightarrow> string) \<Rightarrow> string list \<Rightarrow> citationTextState \<Rightarrow> string list \<times> citationTextState" where
  "citationDeltas links [] state = ([], state)"
| "citationDeltas links (delta # deltas) state =
     (case citationDelta links delta state of (out, state') \<Rightarrow>
      case citationDeltas links deltas state' of (outs, state'') \<Rightarrow> (out # outs, state''))"

definition citationStateOf :: "(string list \<Rightarrow> string) \<Rightarrow> string \<Rightarrow> string \<Rightarrow> citationTextState \<Rightarrow> bool" where
  "citationStateOf links s out state \<longleftrightarrow>
     utf8Valid s \<and> citationLoop links False 0 s = (out, ctHeld state, ctEdits state) \<and>
     ctConsumed state = runeCount s - runeCount (ctHeld state)"

lemma delta_state:
  assumes "citationStateOf links s out state" "utf8Valid delta" "citationDelta links delta state = (out', state')"
  shows "citationStateOf links (s @ delta) (out @ out') state'"
proof -
  let ?k = "ctConsumed state"
  have v: "utf8Valid s" and l: "citationLoop links False 0 s = (out, ctHeld state, ctEdits state)"
    and k: "?k = runeCount s - runeCount (ctHeld state)" using assms(1) by (simp_all add: citationStateOf_def)
  obtain o1 h1 e1 where r: "citationLoop links False 0 (ctHeld state @ delta) = (o1, h1, e1)" by (metis prod_cases3)
  have a: "utf8Valid (ctHeld state)" "runeCount (ctHeld state) \<le> runeCount s" and
    e: "citationLoop links False 0 (s @ delta) = (case citationLoop links False (0 + ?k) (ctHeld state @ delta) of
      (out', held', edits') \<Rightarrow> (out @ out', held', ctEdits state @ edits'))"
    using loop_append[OF v l, of False delta] by (simp_all add: k)
  have h: "runeCount h1 \<le> runeCount (ctHeld state @ delta)"
    using loop_append[OF utf8_append[OF a(1) assms(2)] r, of False "''''"] by blast
  show ?thesis
    using assms(3) e a h k r utf8_append[OF v assms(2)] loop_shift[of links False 0 ?k "ctHeld state @ delta"]
    by (auto simp: citationStateOf_def citationDelta_def rewrite_is_loop Let_def goRunes_append[OF v] goRunes_append[OF a(1)])
qed

lemma deltas_state:
  "citationStateOf links s out state \<Longrightarrow> list_all utf8Valid deltas \<Longrightarrow> citationDeltas links deltas state = (outs, state') \<Longrightarrow>
   citationStateOf links (s @ concat deltas) (out @ concat outs) state'"
proof (induction deltas arbitrary: s out state outs)
  case (Cons delta deltas)
  obtain o1 st1 where d: "citationDelta links delta state = (o1, st1)" by (cases "citationDelta links delta state")
  obtain os where r: "citationDeltas links deltas st1 = (os, state')" "outs = o1 # os"
    using Cons.prems(3) d by (auto split: prod.splits)
  from Cons.IH[OF delta_state[OF Cons.prems(1) _ d] _ r(1)] Cons.prems(2) show ?case by (simp add: r(2))
qed simp

text \<open>Holding back a partial marker never changes the text. However an output text is cut into deltas
  (of whole characters), the rewritten deltas put together are the rewriting of the whole text, and the
  edits kept for annotations are those of the whole text.\<close>

theorem streamed_citations_are_final:
  assumes "list_all utf8Valid deltas" "citationDeltas links deltas citationTextStart = (outs, state)"
  shows "rewriteCitationMarkers links (concat deltas) True =
    (concat outs, '''', ctEdits state @ (if ctHeld state = '''' then [] else
       [\<lparr>ceStart = ctConsumed state, ceEnd = ctConsumed state + runeCount (ctHeld state), ceLength = 0\<rparr>]))"
proof -
  have "goIndex '''' citationMarkerStart = None" by code_simp
  then have "citationStateOf links '''' '''' citationTextStart"
    by (simp add: citationStateOf_def citationTextStart_def loop_none)
  from deltas_state[OF this assms] have s: "utf8Valid (concat deltas)"
    "citationLoop links False 0 (concat deltas) = (concat outs, ctHeld state, ctEdits state)"
    "ctConsumed state = runeCount (concat deltas) - runeCount (ctHeld state)" by (simp_all add: citationStateOf_def)
  show ?thesis using loop_final[OF s(1,2)] s(3) by (simp add: rewrite_is_loop)
qed

definition exMarkerDeltas :: "string list" where
  "exMarkerDeltas = [''a'' @ citationMarkerStart @ ''ci'', ''te'' @ citationMarkerSep @ ''r1'' @ citationMarkerEnd @ ''b'']"

lemma streamed_citations_are_final_witness:
  "list_all utf8Valid exMarkerDeltas \<and> fst (citationDeltas concat exMarkerDeltas citationTextStart) = [''a'', ''r1b''] \<and>
   fst (rewriteCitationMarkers concat (concat exMarkerDeltas) True) = ''ar1b''"
proof -
  have v: "list_all utf8Valid exMarkerDeltas" by code_simp
  have f: "fst (citationDeltas concat exMarkerDeltas citationTextStart) = [''a'', ''r1b'']" by code_simp
  obtain outs state where c: "citationDeltas concat exMarkerDeltas citationTextStart = (outs, state)" by fastforce
  from streamed_citations_are_final[OF v c] f v show ?thesis by (simp add: c)
qed

section \<open>Offsets\<close>

fun mapOffsetLoop :: "int \<Rightarrow> bool \<Rightarrow> int \<Rightarrow> citationEdit list \<Rightarrow> int" where
  "mapOffsetLoop offset rangeEnd shift [] = offset + shift"
| "mapOffsetLoop offset rangeEnd shift (e # es) =
     (if offset \<le> int (ceStart e) then offset + shift
      else if offset < int (ceEnd e)
      then (if rangeEnd then int (ceStart e) + shift + int (ceLength e) else int (ceStart e) + shift)
      else mapOffsetLoop offset rangeEnd (shift + (int (ceLength e) - (int (ceEnd e) - int (ceStart e)))) es)"

definition mapCitationOffset :: "int \<Rightarrow> citationEdit list \<Rightarrow> bool \<Rightarrow> int" where
  "mapCitationOffset offset edits rangeEnd = mapOffsetLoop offset rangeEnd 0 edits"

lemma loop_edits_from:
  "citationLoop links final offset s = (out, held, edits) \<Longrightarrow> \<forall>e \<in> set edits. offset \<le> ceStart e"
proof (induction "length s" arbitrary: s offset out edits rule: less_induct)
  case less
  show ?case
  proof (cases "goIndex s citationMarkerStart")
    case None
    then show ?thesis using less.prems by (simp add: loop_none)
  next
    case (Some i)
    obtain p q where c: "take i s = p" "drop i s = q" by blast
    obtain refs n complete where m: "parseCitationMarker q = (refs, n, complete)" by (metis prod_cases3)
    have l: "length q \<le> length s" "q \<noteq> ''''" using c goIndex_less[OF Some] by auto
    have "complete \<Longrightarrow> length (drop n q) < length s" using l parse_end(1)[of q refs n] m by (cases q) auto
    moreover have "length (drop 3 q) < length s" using l by (cases q) auto
    ultimately show ?thesis
      using less.prems(1) less.hyps[of "drop n q" "offset + runeCount p + runeCount (take n q)"]
        less.hyps[of "drop 3 q" "offset + runeCount p + 1"]
      unfolding loop_marker[OF Some c m] by (cases complete; cases "n = 0"; cases final) (fastforce split: prod.splits)+
  qed
qed

lemma offset_before: "\<forall>e \<in> set edits. offset \<le> int (ceStart e) \<Longrightarrow> mapOffsetLoop offset rangeEnd shift edits = offset + shift"
  by (cases edits) simp_all

text \<open>An offset of a rune that no edit replaces leads to that rune in the rewritten text, and the offset
  after it to the offset after it.\<close>

definition offsetKept :: "nat \<Rightarrow> string \<Rightarrow> string \<Rightarrow> citationEdit list \<Rightarrow> nat \<Rightarrow> bool" where
  "offsetKept offset s out edits k \<longleftrightarrow> (\<exists>j < runeCount out. goRunes out ! j = goRunes s ! k \<and>
     (\<forall>shift rangeEnd. mapOffsetLoop (int (offset + k)) rangeEnd shift edits = int (offset + j) + shift \<and>
        mapOffsetLoop (int (offset + k) + 1) rangeEnd shift edits = int (offset + j) + 1 + shift))"

lemma kept_front:
  assumes "utf8Valid p" "k < runeCount p" "\<forall>e \<in> set edits. offset + runeCount p \<le> ceStart e"
  shows "offsetKept offset (p @ q) (p @ out) edits k"
proof -
  have "mapOffsetLoop x rangeEnd shift edits = x + shift" if "x \<le> int (offset + k) + 1" for x rangeEnd shift
    by (rule offset_before) (use that assms(2,3) in fastforce)
  then show ?thesis unfolding offsetKept_def using assms(1,2)
    by (intro exI[of _ k]) (simp add: goRunes_append nth_append)
qed

lemma kept_later:
  assumes "offsetKept (offset + c) s out edits k" "utf8Valid p" "utf8Valid p'" "runeCount p = c" "runeCount p' = c'"
    "\<And>k' rangeEnd shift. k' = k \<or> k' = k + 1 \<Longrightarrow> mapOffsetLoop (int (offset + c + k')) rangeEnd shift edits' =
      mapOffsetLoop (int (offset + c + k')) rangeEnd (shift + int c' - int c) edits"
  shows "offsetKept offset (p @ s) (p' @ out) edits' (c + k)"
proof -
  from assms(1) obtain j where j: "j < runeCount out" "goRunes out ! j = goRunes s ! k"
    "\<And>shift rangeEnd. mapOffsetLoop (int (offset + c + k)) rangeEnd shift edits = int (offset + c + j) + shift"
    "\<And>shift rangeEnd. mapOffsetLoop (int (offset + c + k) + 1) rangeEnd shift edits = int (offset + c + j) + 1 + shift"
    unfolding offsetKept_def by blast
  show ?thesis unfolding offsetKept_def
    using j assms(2-5) assms(6)[of k] assms(6)[of "k + 1"]
    by (intro exI[of _ "c' + j"]) (simp add: goRunes_append nth_append ac_simps)
qed

lemma loop_kept:
  assumes "utf8Valid s" "\<And>refs. utf8Valid (links refs)" "citationLoop links final offset s = (out, held, edits)"
    "k < runeCount s - runeCount held" "\<forall>e \<in> set edits. \<not> (ceStart e \<le> offset + k \<and> offset + k < ceEnd e)"
  shows "offsetKept offset s out edits k"
  using assms(1,3-)
proof (induction "length s" arbitrary: s offset out held edits k rule: less_induct)
  case less
  show ?case
  proof (cases "goIndex s citationMarkerStart")
    case None
    then have "out = s" "held = ''''" "edits = []" using less.prems(2) by (simp_all add: loop_none)
    then show ?thesis using less.prems(3) kept_front[OF less.prems(1), of k "[]" offset "''''" "''''"] by simp
  next
    case (Some i)
    from index_cut[OF less.prems(1) Some] obtain p q where c: "take i s = p" "drop i s = q" and v: "startsMarker q"
      "utf8Valid p" "utf8Valid q" "utf8Valid (drop 3 q)" and count: "runeCount s = runeCount p + runeCount q"
      and a: "s = p @ q" "i = length p" "length p < length s" by metis
    obtain refs n complete where m: "parseCitationMarker q = (refs, n, complete)" by (metis prod_cases3)
    note la = loop_marker[OF Some c m, of links final offset]
    have ge: "\<forall>e \<in> set edits. offset + runeCount p \<le> ceStart e"
      using less.prems(2) unfolding la
      by (cases complete; cases "n = 0"; cases final) (fastforce dest: loop_edits_from split: prod.splits)+
    show ?thesis
    proof (cases "k < runeCount p")
      case True
      then obtain out' where "out = p @ out'" using less.prems(2) unfolding la
        by (auto split: prod.splits if_splits)
      then show ?thesis using kept_front[OF v(2) True, of edits offset q out'] ge True a(1) by simp
    next
      case False
      consider (complete) complete | (partial) "\<not> complete" "0 < n" | (other) "\<not> complete" "n = 0"
        by (cases complete; cases "n = 0") auto
      then show ?thesis
      proof cases
        case complete
        from m complete have n: "n \<le> length q" "utf8Valid (take n q)" "utf8Valid (drop n q)" "7 \<le> n"
          using parse_complete[of q refs n] v parse_end(1)[of q refs n] by simp_all
        let ?L = "links refs" and ?M = "take n q"
        obtain o1 h1 e1 where r: "citationLoop links final (offset + runeCount p + runeCount ?M) (drop n q) = (o1, h1, e1)"
          by (metis prod_cases3)
        have e: "out = p @ ?L @ o1" "held = h1" "edits = \<lparr>ceStart = offset + runeCount p,
            ceEnd = offset + runeCount p + runeCount ?M, ceLength = runeCount ?L\<rparr> # e1"
          using less.prems(2) complete unfolding la r by simp_all
        have kq: "runeCount q = runeCount ?M + runeCount (drop n q)"
          using goRunes_append[OF n(2), of "drop n q"] by simp
        from less.prems(4) False have "runeCount p + runeCount ?M \<le> k" by (auto simp: e)
        then obtain k' where k: "k = runeCount p + runeCount ?M + k'" using le_Suc_ex by blast
        have "length (drop n q) < length s" using n(1,4) a(1) by simp
        from less.hyps[OF this n(3) r, of k'] have "offsetKept (offset + (runeCount p + runeCount ?M)) (drop n q) o1 e1 k'"
          using less.prems(3,4) count kq by (simp add: e k ac_simps)
        note later = this
        have "?M \<noteq> ''''" using n(1,4) by auto
        then obtain w where w: "runeCount ?M = Suc w" by (cases "goRunes ?M") simp_all
        have step: "mapOffsetLoop (int (offset + (runeCount p + runeCount ?M) + k'')) rangeEnd shift edits =
            mapOffsetLoop (int (offset + (runeCount p + runeCount ?M) + k'')) rangeEnd
              (shift + int (runeCount p + runeCount ?L) - int (runeCount p + runeCount ?M)) e1" for k'' rangeEnd shift
          unfolding e(3) mapOffsetLoop.simps citationEdit.simps w by (simp add: algebra_simps)
        have "offsetKept offset ((p @ ?M) @ drop n q) ((p @ ?L) @ o1) edits (runeCount p + runeCount ?M + k')"
          by (rule kept_later[OF later _ _ _ _ step]) (simp_all add: assms(2) v(2) n(2) goRunes_append utf8_append)
        then show ?thesis by (simp add: a(1) e(1) k)
      next
        case partial
        then have "n = length q" using parse_partial[of q refs n] m by auto
        then show ?thesis using partial False less.prems(2-4) count unfolding la by (cases final) auto
      next
        case other
        obtain o1 h1 e1 where r: "citationLoop links final (offset + runeCount p + 1) (drop 3 q) = (o1, h1, e1)"
          by (metis prod_cases3)
        have e: "out = p @ citationMarkerStart @ o1" "held = h1" "edits = e1"
          using less.prems(2)[unfolded la r] other by simp_all
        obtain t where q: "q = citationMarkerStart @ t" using v(1) by (auto simp: hasPrefix_iff)
        have kq: "goRunes q = citationMarkerStart # goRunes (drop 3 q)" using marker_runes by (simp add: q)
        have m1: "runeCount citationMarkerStart = 1" "utf8Valid citationMarkerStart"
          using marker_runes[of "''''"] valid_marker[of "''''"] by simp_all
        have v1: "utf8Valid (p @ citationMarkerStart)" "runeCount (p @ citationMarkerStart) = runeCount p + 1"
          using v(2) m1 by (simp_all add: utf8_append goRunes_append)
        show ?thesis
        proof (cases "k = runeCount p")
          case True
          then show ?thesis using kept_front[OF v1(1), of k edits offset t o1] loop_edits_from[OF r] v1(2)
            by (simp add: e a(1) q)
        next
          case k2: False
          with False obtain k' where k: "k = runeCount p + 1 + k'" using le_Suc_ex[of "runeCount p + 1" k] by auto
          have "length (drop 3 q) < length s" using q a(1) by simp
          from less.hyps[OF this v(4) r, of k'] have "offsetKept (offset + (runeCount p + 1)) (drop 3 q) o1 e1 k'"
            using less.prems(3,4) count kq by (simp add: e k ac_simps)
          from kept_later[OF this v1(1,1) v1(2,2), of edits] show ?thesis by (simp add: a(1) q e k)
        qed
      qed
    qed
  qed
qed

text \<open>C22. Annotations stay on their text. When a text is rewritten, the offset of every character that is in
  no replaced marker is mapped to that character of the rewritten text, and the end of a range after
  it to the position after it.\<close>

theorem annotation_offsets_follow_text:
  assumes "utf8Valid s" "\<And>refs. utf8Valid (links refs)" "rewriteCitationMarkers links s final = (out, held, edits)"
    "k < runeCount s - runeCount held" "\<forall>e \<in> set edits. \<not> (ceStart e \<le> k \<and> k < ceEnd e)"
  shows "\<exists>j < runeCount out. goRunes out ! j = goRunes s ! k \<and> mapCitationOffset (int k) edits False = int j \<and>
    mapCitationOffset (int k + 1) edits True = int j + 1"
proof -
  have "offsetKept 0 s out edits k"
    by (rule loop_kept[OF assms(1,2) _ assms(4)]) (use assms(3,5) in \<open>simp_all add: rewrite_is_loop\<close>)
  then obtain j where j: "j < runeCount out" "goRunes out ! j = goRunes s ! k" and
    m: "\<And>shift rangeEnd. mapOffsetLoop (int (0 + k)) rangeEnd shift edits = int (0 + j) + shift"
    "\<And>shift rangeEnd. mapOffsetLoop (int (0 + k) + 1) rangeEnd shift edits = int (0 + j) + 1 + shift"
    unfolding offsetKept_def by blast
  show ?thesis using j m(1)[of False 0] m(2)[of True 0] by (auto simp: mapCitationOffset_def)
qed

lemma annotation_offsets_follow_text_witness:
  "\<exists>j < runeCount ''ar1b''. goRunes ''ar1b'' ! j = ''b'' \<and>
     mapCitationOffset 10 [\<lparr>ceStart = 1, ceEnd = 10, ceLength = 2\<rparr>] False = int j \<and>
     mapCitationOffset 11 [\<lparr>ceStart = 1, ceEnd = 10, ceLength = 2\<rparr>] True = int j + 1"
proof -
  let ?s = "concat exMarkerDeltas"
  let ?links = "\<lambda>refs. if refs = [''r1''] then ''r1'' else ''''"
  have v: "utf8Valid ?s" by code_simp
  have l: "utf8Valid (?links refs)" for refs
    by (cases "refs = [''r1'']") (simp_all add: utf8_ascii)
  have r: "rewriteCitationMarkers ?links ?s True = (''ar1b'', '''', [\<lparr>ceStart = 1, ceEnd = 10, ceLength = 2\<rparr>])" by code_simp
  have c: "runeCount ?s = 11" "goRunes ?s ! 10 = ''b''" by code_simp+
  from annotation_offsets_follow_text[where k = 10, OF v l r] c show ?thesis by simp
qed

lemma loop_out_valid:
  assumes "\<And>refs. utf8Valid (links refs)"
  shows "utf8Valid s \<Longrightarrow> citationLoop links final offset s = (out, held, edits) \<Longrightarrow> utf8Valid out"
proof (induction "length s" arbitrary: s offset out edits rule: less_induct)
  case less
  show ?case
  proof (cases "goIndex s citationMarkerStart")
    case None
    then show ?thesis using less.prems by (simp add: loop_none)
  next
    case (Some i)
    from index_cut[OF less.prems(1) Some] obtain p q where c: "take i s = p" "drop i s = q" and v: "startsMarker q"
      "utf8Valid p" "utf8Valid q" "utf8Valid (drop 3 q)" and a: "s = p @ q" "length p < length s" by metis
    obtain refs n complete where m: "parseCitationMarker q = (refs, n, complete)" by (metis prod_cases3)
    note step = less.prems(2)[unfolded loop_marker[OF Some c m]]
    have vm: "utf8Valid citationMarkerStart" using valid_marker[of "''''"] by simp
    have q: "length (drop 3 q) < length s" using a by (cases q) simp_all
    consider (complete) complete | (partial) "\<not> complete" "0 < n" | (other) "\<not> complete" "n = 0" by auto
    then show ?thesis
    proof cases
      case complete
      obtain o1 h1 e1 where r: "citationLoop links final (offset + runeCount p + runeCount (take n q)) (drop n q) = (o1, h1, e1)"
        by (metis prod_cases3)
      have n: "length (drop n q) < length s" "utf8Valid (drop n q)"
        using parse_end(1)[of q refs n] parse_complete[of q refs n] m v a complete by auto
      have e: "out = p @ links refs @ o1" "held = h1" using step complete r by simp_all
      from less.hyps[OF n r[folded e(2)]] show ?thesis by (simp add: e utf8_append v(2) assms)
    next
      case partial
      then show ?thesis using step v(2) by (cases final) simp_all
    next
      case other
      obtain o1 h1 e1 where r: "citationLoop links final (offset + runeCount p + 1) (drop 3 q) = (o1, h1, e1)"
        by (metis prod_cases3)
      have e: "out = p @ citationMarkerStart @ o1" "held = h1" using step[unfolded r] other by simp_all
      from less.hyps[OF q v(4) r[folded e(2)]] show ?thesis by (simp add: e utf8_append v(2) vm)
    qed
  qed
qed

section \<open>Links\<close>

lemma escape_valid_from:
  assumes "\<And>c. \<not> c < CHR 0x80 \<Longrightarrow> f c = [c]" "\<And>c. c < CHR 0x80 \<Longrightarrow> list_all (\<lambda>d. d < CHR 0x80) (f c)"
  shows "utf8Valid (x @ s) \<Longrightarrow> utf8Valid (x @ concat (map f s))"
proof (induction s arbitrary: x)
  case (Cons c s)
  show ?case
  proof (cases "c < CHR 0x80")
    case True
    then have "utf8Valid x" "utf8Valid s" using Cons.prems utf8_split by blast+
    moreover have "utf8Valid (f c)" using assms(2)[OF True] by (rule utf8_ascii)
    ultimately show ?thesis using Cons.IH[of "''''"] by (simp add: utf8_append)
  next
    case False
    then show ?thesis using Cons.IH[of "x @ [c]"] Cons.prems assms(1)[OF False] by simp
  qed
qed simp

lemma escapers_valid:
  assumes "utf8Valid s"
  shows "utf8Valid (citationTitleEscaper s)" "utf8Valid (citationURLEscaper s)"
proof -
  have a: "CHR 0x5C < CHR 0x80" "CHR ''('' < CHR 0x80" "CHR '')'' < CHR 0x80" "CHR ''|'' < CHR 0x80"
    "CHR ''['' < CHR 0x80" "CHR '']'' < CHR 0x80" "list_all (\<lambda>d. d < CHR 0x80) ''%28''"
    "list_all (\<lambda>d. d < CHR 0x80) ''%29''" "list_all (\<lambda>d. d < CHR 0x80) ''%7C''" by code_simp+
  have "utf8Valid ([] @ concat (map (\<lambda>c. if c \<in> {CHR 0x5C, CHR ''['', CHR '']'', CHR ''|''} then [CHR 0x5C, c] else [c]) s))"
    by (rule escape_valid_from) (use a assms in auto)
  then show "utf8Valid (citationTitleEscaper s)" by (simp add: citationTitleEscaper_def)
  have "utf8Valid ([] @ concat (map (\<lambda>c. if c = CHR ''('' then ''%28'' else if c = CHR '')'' then ''%29''
     else if c = CHR ''|'' then ''%7C'' else [c]) s))"
    by (rule escape_valid_from) (use a assms in auto)
  then show "utf8Valid (citationURLEscaper s)" by (simp add: citationURLEscaper_def)
qed

lemma link_texts_valid:
  assumes "\<And>ref link. lookup ref = Some link \<Longrightarrow> utf8Valid (clTitle link) \<and> utf8Valid (clUrl link)"
    "\<And>u. utf8Valid u \<Longrightarrow> utf8Valid (urlHost u)"
  shows "list_all utf8Valid (citationLinkTexts urlHost lookup seen refs)"
proof (induction refs arbitrary: seen)
  case (Cons ref refs)
  have b: "utf8Valid ''[''" "utf8Valid ''](''" "utf8Valid '')''" by code_simp+
  have s: "utf8Valid (CHR ''['' # x)" if "utf8Valid x" for x using utf8_append[OF b(1) that] by simp
  have m: "utf8Valid (CHR '']'' # CHR ''('' # x)" if "utf8Valid x" for x using utf8_append[OF b(2) that] by simp
  show ?case using Cons assms b(3)
    by (auto simp: Let_def escapers_valid split: option.splits intro!: s m utf8_append)
qed simp

lemma format_links_valid:
  assumes "\<And>ref link. lookup ref = Some link \<Longrightarrow> utf8Valid (clTitle link) \<and> utf8Valid (clUrl link)"
    "\<And>u. utf8Valid u \<Longrightarrow> utf8Valid (urlHost u)"
  shows "utf8Valid (formatCitationLinks urlHost lookup refs)"
proof -
  have "utf8Valid '', ''" by code_simp
  then have "list_all utf8Valid xs \<Longrightarrow> utf8Valid (goJoin '', '' xs)" for xs
    by (induction "'', ''" xs rule: goJoin.induct) (auto simp del: append_Cons append_Nil intro!: utf8_append)
  then show ?thesis using link_texts_valid[OF assms] by (simp add: formatCitationLinks_def)
qed

end
