(* ===== verification/Responses_Rewrite.thy ===== *)
theory Responses_Rewrite
  imports Sse_Stream
begin

text \<open>
  Rewriting the events of a Responses stream while it passes through
  (\<open>responses_item_id_normalization.go\<close>, \<open>response_model_normalization.go\<close>): taking an event apart and
  putting other data into it, the body that rewrites one event after the other, the copy loop that lets
  a hook see every event before it is written, the public model and stable item ids.
\<close>

section \<open>JSON\<close>

text \<open>
  What is used of \<open>encoding/json\<close>. A decoder answers \<open>None\<close> where \<open>Unmarshal\<close> fails, that of objects also
  on \<open>null\<close>; \<open>ejUnambiguous\<close> stands for its token stream, in which no object repeats a key.
\<close>

record eventJson =
  ejUnambiguous :: "string \<Rightarrow> bool"
  ejObject :: "string \<Rightarrow> (string, string) gomap option"
  ejString :: "string \<Rightarrow> string option"
  ejInt :: "string \<Rightarrow> int option"
  ejList :: "string \<Rightarrow> string list option"
  ejPutObject :: "(string, string) gomap \<Rightarrow> string option"
  ejPutString :: "string \<Rightarrow> string"
  ejPutInt :: "int \<Rightarrow> string"
  ejPutList :: "string list \<Rightarrow> string option"

text \<open>A member of a Go map; a missing one is the empty message, which no decoder accepts.\<close>

definition rawField :: "(string, string) gomap \<Rightarrow> string \<Rightarrow> string" where
  "rawField m f = (case gm_get m f of Some raw \<Rightarrow> raw | None \<Rightarrow> '''')"

definition unmarshalRaw :: "(string \<Rightarrow> 'a option) \<Rightarrow> string \<Rightarrow> 'a option" where
  "unmarshalRaw dec raw = (if raw = '''' then None else dec raw)"

definition rawJSONString :: "eventJson \<Rightarrow> string \<Rightarrow> string" where
  "rawJSONString J raw = (case unmarshalRaw (ejString J) raw of None \<Rightarrow> '''' | Some v \<Rightarrow> trimSpace v)"

section \<open>The data of an event\<close>

text \<open>\<open>splitSSEEventLines\<close> walks the bytes and cuts after every newline.\<close>

fun splitSSELoop :: "string \<Rightarrow> string \<Rightarrow> string list" where
  "splitSSELoop line [] = (if line = '''' then [] else [line])"
| "splitSSELoop line (b # raw) =
     (if b = newline then (line @ [b]) # splitSSELoop '''' raw else splitSSELoop (line @ [b]) raw)"

definition splitSSEEventLines :: "string \<Rightarrow> string list" where
  "splitSSEEventLines raw = splitSSELoop '''' raw"

fun eventParts :: "string list \<Rightarrow> string \<Rightarrow> string list \<Rightarrow> string \<times> string list" where
  "eventParts [] eventName dataParts = (eventName, dataParts)"
| "eventParts (line # ls) eventName dataParts =
     (let content = fst (splitSSELineEnding line);
          eventName = (if hasPrefix content ''event:'' then trimSpace (trimPrefix content ''event:'') else eventName)
      in case parseSSELine content of
           Some data \<Rightarrow> eventParts ls eventName (dataParts @ [data])
         | None \<Rightarrow> eventParts ls eventName dataParts)"

fun replaceDataLines :: "string \<Rightarrow> bool \<Rightarrow> string list \<Rightarrow> string" where
  "replaceDataLines rewritten inserted [] = ''''"
| "replaceDataLines rewritten inserted (line # ls) =
     (case splitSSELineEnding line of (content, ending) \<Rightarrow>
        if parseSSELine content = None then line @ replaceDataLines rewritten inserted ls
        else if inserted then replaceDataLines rewritten inserted ls
        else let ending = (if ending = '''' then [newline] else ending)
        in concat (map (\<lambda>part. ''data: '' @ part @ ending) (goSplit newline rewritten))
             @ replaceDataLines rewritten True ls)"

text \<open>The callback gets the data and the event name and answers data and whether it changed.\<close>

definition rewriteResponsesSSEEventData ::
  "(string \<Rightarrow> string \<Rightarrow> 's \<Rightarrow> (string \<times> bool) \<times> 's) \<Rightarrow> string \<Rightarrow> 's \<Rightarrow> (string \<times> bool) \<times> 's" where
  "rewriteResponsesSSEEventData rewrite raw s =
     (let lines = splitSSEEventLines raw in
      if lines = [] then ((raw, False), s)
      else case eventParts lines '''' [] of (eventName, dataParts) \<Rightarrow>
        if dataParts = [] then ((raw, False), s)
        else let data = goJoin [newline] dataParts in
          if trimSpace data = ''[DONE]'' then ((raw, False), s)
          else case rewrite data eventName s of ((rewritten, changed), s') \<Rightarrow>
            if \<not> changed then ((raw, False), s')
            else ((replaceDataLines rewritten False lines, True), s'))"

lemma split_loop_lines: "newline \<notin> set line \<Longrightarrow> splitSSELoop line raw = streamLines (line @ raw)"
proof (induction raw arbitrary: line)
  case Nil
  have "takeWhile (\<lambda>c. c \<noteq> newline) line = line" using Nil by (auto simp: takeWhile_eq_all_conv)
  then show ?case using Nil by (subst streamLines.simps) (simp add: lineEnd_def)
next
  case (Cons b raw)
  show ?case
  proof (cases "b = newline")
    case True
    then show ?thesis using streamLines_line[OF Cons.prems, of raw] Cons.IH[of "''''"] by simp
  next
    case False
    then show ?thesis using Cons.IH[of "line @ [b]"] Cons.prems by simp
  qed
qed

lemma split_is_stream_lines [simp]: "splitSSEEventLines raw = streamLines raw"
  using split_loop_lines[of "''''" raw] by (simp add: splitSSEEventLines_def)

text \<open>A line and its content differ by line feeds and carriage returns at the end.\<close>

lemma split_ending:
  "splitSSELineEnding l = (content, ending) \<Longrightarrow> l = content @ ending \<and> set ending \<subseteq> {carriage, newline}"
  by (auto simp: splitSSELineEnding_def hasSuffix_iff trimSuffix_def split: if_splits)

lemma prefix_ending:
  assumes "set t \<subseteq> {carriage, newline}" "carriage \<notin> set p" "newline \<notin> set p"
  shows "hasPrefix (s @ t) p \<longleftrightarrow> hasPrefix s p"
  using assms
proof (induction p arbitrary: s)
  case Nil
  show ?case by (simp add: hasPrefix_def)
next
  case (Cons x p)
  show ?case
  proof (cases s)
    case Nil
    then show ?thesis using Cons.prems by (cases t) (auto simp: hasPrefix_def)
  next
    case (Cons c s')
    then show ?thesis using Cons.IH[of s'] Cons.prems by (auto simp: hasPrefix_def)
  qed
qed

lemma data_line:
  assumes "splitSSELineEnding l = (content, ending)"
  shows "parseSSELine content = None \<longleftrightarrow> parseSSELine (trimLine l) = None"
proof -
  from split_ending[OF assms] have l: "l = content @ ending" "set ending \<subseteq> {carriage, newline}" by simp_all
  obtain t where t: "l = trimLine l @ t" "set t \<subseteq> {carriage, newline}"
    using trimRight_prefix[of l "[carriage, newline]"] by (auto simp: trimLine_def)
  have "hasPrefix l ''data:'' \<longleftrightarrow> hasPrefix content ''data:''" unfolding l(1) by (rule prefix_ending[OF l(2)]) auto
  moreover have "hasPrefix l ''data:'' \<longleftrightarrow> hasPrefix (trimLine l) ''data:''"
    by (subst t(1)) (rule prefix_ending[OF t(2)], auto)
  ultimately show ?thesis by (simp add: parseSSELine_def)
qed

section \<open>An event read again\<close>

fun typeAfter :: "string \<Rightarrow> string list \<Rightarrow> string" where
  "typeAfter t [] = t"
| "typeAfter t (l # ls) =
     (case parseSSELine (trimLine l) of
        Some data \<Rightarrow> typeAfter t ls
      | None \<Rightarrow> (case parseSSEEventLine (trimLine l) of Some t' \<Rightarrow> typeAfter t' ls | None \<Rightarrow> typeAfter t ls))"

fun dataOf :: "string list \<Rightarrow> string list" where
  "dataOf [] = []"
| "dataOf (l # ls) = (case parseSSELine (trimLine l) of Some data \<Rightarrow> data # dataOf ls | None \<Rightarrow> dataOf ls)"

lemma events_of_lines:
  "\<forall>l \<in> set ls. trimLine l \<noteq> '''' \<Longrightarrow> sseEvents t ds (ls @ rest) = sseEvents (typeAfter t ls) (ds @ dataOf ls) rest"
  by (induction ls arbitrary: t ds) (auto split: option.splits)

text \<open>The lines that replace the data lines of an event.\<close>

fun replacedLines :: "string \<Rightarrow> bool \<Rightarrow> string list \<Rightarrow> string list" where
  "replacedLines rewritten inserted [] = []"
| "replacedLines rewritten inserted (line # ls) =
     (case splitSSELineEnding line of (content, ending) \<Rightarrow>
        if parseSSELine content = None then line # replacedLines rewritten inserted ls
        else if inserted then replacedLines rewritten inserted ls
        else map (\<lambda>part. ''data: '' @ part @ (if ending = '''' then [newline] else ending)) (goSplit newline rewritten)
             @ replacedLines rewritten True ls)"

lemma replaced_concat: "replaceDataLines r inserted ls = concat (replacedLines r inserted ls)"
  by (induction r inserted ls rule: replaceDataLines.induct) (auto simp: Let_def split: prod.splits)

lemma data_part_line:
  assumes "carriage \<notin> set part" "newline \<notin> set part" "set ending \<subseteq> {carriage, newline}"
  shows "trimLine (''data: '' @ part @ ending) = ''data: '' @ part"
    "parseSSELine (''data: '' @ part) = Some part"
proof -
  have "trimLine ((''data: '' @ part) @ ending) = trimLine (''data: '' @ part)"
    unfolding trimLine_def by (rule trimRight_append_cut) (use assms(3) in auto)
  also have "\<dots> = ''data: '' @ part" unfolding trimLine_def
    by (rule trimRight_id) (use assms(1,2) in \<open>cases part rule: rev_cases; auto\<close>)
  finally show "trimLine (''data: '' @ part @ ending) = ''data: '' @ part" by simp
  show "parseSSELine (''data: '' @ part) = Some part"
    by (simp add: parseSSELine_def hasPrefix_def trimPrefix_def)
qed

lemma goSplit_parts: "part \<in> set (goSplit sep s) \<Longrightarrow> sep \<notin> set part \<and> set part \<subseteq> set s"
proof (induction s arbitrary: part)
  case (Cons c s)
  show ?case
  proof (cases "c = sep")
    case True
    then show ?thesis using Cons by auto
  next
    case False
    then obtain x xs where x: "goSplit sep s = x # xs" by (cases "goSplit sep s") auto
    then show ?thesis using Cons.prems False Cons.IH[of x] Cons.IH[of part] by auto
  qed
qed simp

lemma part_lines_events:
  assumes "\<forall>part \<in> set parts. carriage \<notin> set part \<and> newline \<notin> set part" "set ending \<subseteq> {carriage, newline}"
  shows "sseEvents t ds (map (\<lambda>part. ''data: '' @ part @ ending) parts @ rest) = sseEvents t (ds @ parts) rest"
  using assms(1)
proof (induction parts arbitrary: ds)
  case (Cons part parts)
  then have p: "carriage \<notin> set part" "newline \<notin> set part" by simp_all
  show ?case using Cons.IH[of "ds @ [part]"] Cons.prems data_part_line[OF p assms(2)] by simp
qed simp

lemma replaced_inserted:
  "\<forall>l \<in> set ls. trimLine l \<noteq> '''' \<Longrightarrow>
   sseEvents t ds (replacedLines r True ls @ rest) = sseEvents (typeAfter t ls) ds rest"
proof (induction ls arbitrary: t)
  case (Cons l ls)
  obtain content ending where s: "splitSSELineEnding l = (content, ending)" by (cases "splitSSELineEnding l")
  show ?case using Cons data_line[OF s] by (auto simp: s split: option.splits)
qed simp

lemma replaced_events:
  assumes "carriage \<notin> set r"
  shows "\<forall>l \<in> set ls. trimLine l \<noteq> '''' \<Longrightarrow> dataOf ls \<noteq> [] \<Longrightarrow>
   sseEvents t [] (replacedLines r False ls @ rest) = sseEvents (typeAfter t ls) (goSplit newline r) rest"
proof (induction ls arbitrary: t)
  case (Cons l ls)
  obtain content ending where s: "splitSSELineEnding l = (content, ending)" by (cases "splitSSELineEnding l")
  have e: "set (if ending = '''' then [newline] else ending) \<subseteq> {carriage, newline}" using split_ending[OF s] by auto
  have p: "\<forall>part \<in> set (goSplit newline r). carriage \<notin> set part \<and> newline \<notin> set part"
    using goSplit_parts[of _ newline r] assms by blast
  show ?case
  proof (cases "parseSSELine content")
    case None
    then show ?thesis using Cons data_line[OF s] by (auto simp: s split: option.splits)
  next
    case (Some d)
    then obtain d' where d: "parseSSELine (trimLine l) = Some d'" using data_line[OF s] by fastforce
    have "sseEvents t [] (replacedLines r False (l # ls) @ rest) =
        sseEvents t [] (map (\<lambda>part. ''data: '' @ part @ (if ending = '''' then [newline] else ending)) (goSplit newline r)
          @ (replacedLines r True ls @ rest))" by (simp add: s Some)
    also have "\<dots> = sseEvents t (goSplit newline r) (replacedLines r True ls @ rest)"
      using part_lines_events[OF p e, of t "[]"] by simp
    also have "\<dots> = sseEvents (typeAfter t ls) (goSplit newline r) rest" using Cons.prems(1) by (simp add: replaced_inserted)
    finally show ?thesis by (simp add: d)
  qed
qed simp

definition fullLine :: "string \<Rightarrow> bool" where
  "fullLine l \<longleftrightarrow> (\<exists>l'. l = l' @ [newline] \<and> newline \<notin> set l')"

lemma lines_of_full: "\<forall>l \<in> set xs. fullLine l \<Longrightarrow> streamLines (concat xs @ y) = xs @ streamLines y"
proof (induction xs)
  case (Cons x xs)
  then obtain l' where l: "x = l' @ [newline]" "newline \<notin> set l'" by (auto simp: fullLine_def)
  show ?case using streamLines_line[OF l(2), of "concat xs @ y"] Cons by (simp add: l(1))
qed simp

lemma lines_of_rest: "newline \<notin> set y \<Longrightarrow> streamLines y = (if y = '''' then [] else [y])"
proof -
  assume "newline \<notin> set y"
  then have "takeWhile (\<lambda>c. c \<noteq> newline) y = y" by (auto simp: takeWhile_eq_all_conv)
  then show ?thesis using \<open>newline \<notin> set y\<close> by (subst streamLines.simps) (simp add: lineEnd_def)
qed

lemma lines_shape: "\<exists>xs y. streamLines s = xs @ (if y = '''' then [] else [y]) \<and> (\<forall>l \<in> set xs. fullLine l) \<and> newline \<notin> set y"
proof (induction s rule: streamLines.induct)
  case (1 s)
  show ?case
  proof (cases "newline \<in> set s")
    case False
    then show ?thesis using lines_of_rest[OF False] by (intro exI[of _ "[]"] exI[of _ s]) simp
  next
    case True
    then obtain a b where s: "s = a @ newline # b" "newline \<notin> set a" by (meson split_list_first)
    have "takeWhile (\<lambda>c. c \<noteq> newline) s = a" using s by (subst s(1), subst takeWhile_append2) auto
    then have "drop (lineEnd s) s = b" using True s(1) by (simp add: lineEnd_def)
    with 1[of] s(1) obtain xs y where x: "streamLines b = xs @ (if y = '''' then [] else [y])"
      "\<forall>l \<in> set xs. fullLine l" "newline \<notin> set y" by auto
    have "fullLine (a @ [newline])" using s(2) by (auto simp: fullLine_def)
    then show ?thesis using streamLines_line[OF s(2), of b] x
      by (intro exI[of _ "(a @ [newline]) # xs"] exI[of _ y]) (simp add: s(1))
  qed
qed

lemma ending_full: "fullLine l \<Longrightarrow> splitSSELineEnding l = (content, ending) \<Longrightarrow> ending = [newline] \<or> ending = [carriage, newline]"
  by (auto simp: splitSSELineEnding_def hasSuffix_iff fullLine_def split: if_splits)

lemma data_line_full:
  "newline \<notin> set part \<Longrightarrow> ending = [newline] \<or> ending = [carriage, newline] \<Longrightarrow> fullLine (''data: '' @ part @ ending)"
  unfolding fullLine_def by (elim disjE; intro exI[of _ "''data: '' @ part @ butlast ending"]) auto

lemma ending_no_newline: "newline \<notin> set l \<Longrightarrow> splitSSELineEnding l = (l, '''')"
  by (auto simp: splitSSELineEnding_def hasSuffix_iff)

lemma replaced_full: "\<forall>l \<in> set ls. fullLine l \<Longrightarrow> \<forall>l \<in> set (replacedLines r inserted ls). fullLine l"
proof (induction ls arbitrary: inserted)
  case (Cons l ls)
  obtain content ending where s: "splitSSELineEnding l = (content, ending)" by (cases "splitSSELineEnding l")
  have e: "ending = [newline] \<or> ending = [carriage, newline]" using Cons.prems ending_full[OF _ s] by simp
  have "\<forall>part \<in> set (goSplit newline r). fullLine (''data: '' @ part @ ending)"
    using goSplit_parts data_line_full[OF _ e] by blast
  then show ?case using Cons e by (auto simp: s)
qed simp

lemma dataOf_append: "dataOf (xs @ ys) = dataOf xs @ dataOf ys"
  by (induction xs) (auto split: option.splits)

lemma replaced_append:
  "replacedLines r inserted (xs @ ys) = replacedLines r inserted xs @ replacedLines r (inserted \<or> dataOf xs \<noteq> []) ys"
proof (induction xs arbitrary: inserted)
  case (Cons l ls)
  obtain content ending where s: "splitSSELineEnding l = (content, ending)" by (cases "splitSSELineEnding l")
  show ?case using Cons data_line[OF s] by (auto simp: s split: option.splits)
qed simp

lemma replaced_lines_read:
  assumes "carriage \<notin> set r"
  shows "streamLines (concat (replacedLines r False (streamLines raw))) = replacedLines r False (streamLines raw)"
proof -
  obtain xs y where l: "streamLines raw = xs @ (if y = '''' then [] else [y])" "\<forall>l \<in> set xs. fullLine l" "newline \<notin> set y"
    using lines_shape by blast
  have f: "\<forall>l \<in> set (replacedLines r False xs). fullLine l" by (rule replaced_full[OF l(2)])
  consider (none) "y = ''''" | (kept) "y \<noteq> ''''" "parseSSELine y = None" | (data) "y \<noteq> ''''" "parseSSELine y \<noteq> None" by blast
  then show ?thesis
  proof cases
    case none
    then show ?thesis using lines_of_full[OF f, of "''''"] l(1) by simp
  next
    case kept
    then have "replacedLines r b [y] = [y]" for b using ending_no_newline[OF l(3)] by simp
    then show ?thesis using lines_of_full[OF f, of y] lines_of_rest[OF l(3)] l(1) kept by (simp add: replaced_append)
  next
    case data
    have p: "\<forall>part \<in> set (goSplit newline r). fullLine (''data: '' @ part @ [newline])"
      using goSplit_parts data_line_full[of _ "[newline]"] by blast
    have y: "\<forall>l \<in> set (replacedLines r b [y]). fullLine l" for b
      using p data by (cases b) (auto simp: ending_no_newline[OF l(3)])
    have e: "replacedLines r False (streamLines raw) = replacedLines r False xs @ replacedLines r (dataOf xs \<noteq> []) [y]"
      using data(1) by (simp only: l(1) replaced_append if_False simp_thms)
    have "\<forall>l \<in> set (replacedLines r False (streamLines raw)). fullLine l"
      unfolding e set_append using f y by blast
    from lines_of_full[OF this, of "''''"] show ?thesis by simp
  qed
qed

lemma parts_data: "snd (eventParts ls name ds) = [] \<longleftrightarrow> ds = [] \<and> dataOf ls = []"
proof (induction ls arbitrary: name ds)
  case (Cons l ls)
  obtain content ending where s: "splitSSELineEnding l = (content, ending)" by (cases "splitSSELineEnding l")
  show ?case using Cons data_line[OF s] by (auto simp: s Let_def split: option.splits)
qed simp

text \<open>C21. Rewriting an event keeps it an event. An event of a stream whose data the callback replaced is
  read, by the reader of the proxy, as one event of the same type with the new data, whatever its lines
  and line endings were.\<close>

theorem rewritten_event_reads_back:
  assumes "rewriteResponsesSSEEventData rewrite raw s = ((out, True), s')"
    and "\<forall>l \<in> set (butlast (streamLines raw)). trimLine l \<noteq> ''''"
    and "\<And>data name s. carriage \<notin> set (fst (fst (rewrite data name s)))"
  shows "case eventParts (splitSSEEventLines raw) '''' [] of (name, parts) \<Rightarrow>
    \<exists>t d. sseEvents '''' [] (streamLines raw) = [(t, d)] \<and>
      sseEvents '''' [] (streamLines out) = [(t, fst (fst (rewrite (goJoin [newline] parts) name s)))]"
proof -
  let ?ls = "streamLines raw"
  obtain name parts where p: "eventParts ?ls '''' [] = (name, parts)" by fastforce
  let ?data = "goJoin [newline] parts"
  obtain r where r: "rewrite ?data name s = ((r, True), s')" and n: "?ls \<noteq> []" "parts \<noteq> []"
    and out: "out = concat (replacedLines r False ?ls)"
    using assms(1) p by (auto simp: rewriteResponsesSSEEventData_def Let_def replaced_concat split: if_splits prod.splits)
  have cr: "carriage \<notin> set r" using assms(3)[of ?data name s] r by simp
  have d: "dataOf ?ls \<noteq> []" using parts_data[of ?ls "''''" "[]"] p n(2) by simp
  have lines: "streamLines out = replacedLines r False ?ls" unfolding out by (rule replaced_lines_read[OF cr])
  define ls where "ls = butlast ?ls"
  define l where "l = last ?ls"
  have e: "?ls = ls @ [l]" using n(1) by (simp add: ls_def l_def)
  have nb: "\<forall>l \<in> set ls. trimLine l \<noteq> ''''" using assms(2) by (simp add: ls_def)
  show ?thesis
  proof (cases "trimLine l = ''''")
    case True
    obtain content ending where s: "splitSSELineEnding l = (content, ending)" by (cases "splitSSELineEnding l")
    have pl: "parseSSELine (trimLine l) = None" by (simp add: True parseSSELine_def hasPrefix_def)
    then have dl: "dataOf ls \<noteq> []" using d by (auto simp: e dataOf_append split: option.splits)
    have rl: "replacedLines r b [l] = [l]" for b using data_line[OF s] pl by (simp add: s)
    have o: "sseEvents '''' [] (streamLines out) = [(typeAfter '''' ls, goJoin [newline] (goSplit newline r))]"
      unfolding lines e replaced_append rl using replaced_events[OF cr nb dl, of "''''" "[l]"] by (simp add: True)
    have "sseEvents '''' [] ?ls = [(typeAfter '''' ls, goJoin [newline] (dataOf ls))]"
      unfolding e using events_of_lines[OF nb, of "''''" "[]" "[l]"] dl by (simp add: True)
    then show ?thesis using o r p by (simp add: goSplit_join)
  next
    case False
    then have nb': "\<forall>l \<in> set ?ls. trimLine l \<noteq> ''''" using nb e by auto
    have o: "sseEvents '''' [] (streamLines out) = [(typeAfter '''' ?ls, goJoin [newline] (goSplit newline r))]"
      unfolding lines using replaced_events[OF cr nb' d, of "''''" "[]"] by simp
    have "sseEvents '''' [] ?ls = [(typeAfter '''' ?ls, goJoin [newline] (dataOf ?ls))]"
      using events_of_lines[OF nb', of "''''" "[]" "[]"] d by simp
    then show ?thesis using o r p by (simp add: goSplit_join)
  qed
qed

definition exShout :: "string \<Rightarrow> string \<Rightarrow> unit \<Rightarrow> (string \<times> bool) \<times> unit" where
  "exShout data name s = ((filter (\<lambda>c. c \<noteq> carriage) name @ ''!'', True), s)"

definition exRawEvent :: string where
  "exRawEvent = ''data: a'' @ [carriage, newline] @ ''event: e'' @ [newline, newline]"

definition exOutEvent :: string where
  "exOutEvent = ''data: e!'' @ [carriage, newline] @ ''event: e'' @ [newline, newline]"

lemma rewritten_event_reads_back_witness:
  "rewriteResponsesSSEEventData exShout exRawEvent () = ((exOutEvent, True), ()) \<and>
   (\<exists>t d. sseEvents '''' [] (streamLines exRawEvent) = [(t, d)] \<and>
      sseEvents '''' [] (streamLines exOutEvent) = [(t, ''e!'')])"
proof -
  have r: "rewriteResponsesSSEEventData exShout exRawEvent () = ((exOutEvent, True), ())" by code_simp
  have nb: "\<forall>l \<in> set (butlast (streamLines exRawEvent)). trimLine l \<noteq> ''''" by code_simp
  have p: "eventParts (splitSSEEventLines exRawEvent) '''' [] = (''e'', [''a''])" by code_simp
  have c: "carriage \<notin> set (fst (fst (exShout data name s)))" for data name s by (simp add: exShout_def)
  have e: "fst (fst (exShout data ''e'' s)) = ''e!''" for data s by (simp add: exShout_def)
  from rewritten_event_reads_back[OF r nb c] p r e show ?thesis by simp
qed

section \<open>The public model\<close>

definition responsesLifecycleEvents :: "string list" where
  "responsesLifecycleEvents = [''response.queued'', ''response.created'', ''response.in_progress'',
     ''response.completed'', ''response.failed'', ''response.incomplete'', ''response.cancelled'', ''response.canceled'']"

definition responsesLifecycleEventHasResponse :: "string \<Rightarrow> bool" where
  "responsesLifecycleEventHasResponse eventType \<longleftrightarrow> trimSpace eventType \<in> set responsesLifecycleEvents"

definition rewriteResponsesModelObject :: "eventJson \<Rightarrow> string \<Rightarrow> (string, string) gomap \<Rightarrow> (string, string) gomap" where
  "rewriteResponsesModelObject J publicModel payload = gm_put ''model'' (ejPutString J publicModel) payload"

definition rewriteResponsesResponseModelJSON :: "eventJson \<Rightarrow> string \<Rightarrow> string \<Rightarrow> string \<times> bool" where
  "rewriteResponsesResponseModelJSON J body publicModel0 =
     (let publicModel = trimSpace publicModel0 in
      if publicModel = '''' then (body, False)
      else case unmarshalRaw (ejObject J) body of
        None \<Rightarrow> (body, False)
      | Some payload \<Rightarrow>
          (case
             (if gm_get payload ''type'' = None then Some (rewriteResponsesModelObject J publicModel payload)
              else if responsesLifecycleEventHasResponse (rawJSONString J (rawField payload ''type''))
              then (case gm_get payload ''response'' of
                  None \<Rightarrow> None
                | Some nested \<Rightarrow>
                    (case unmarshalRaw (ejObject J) nested of
                       None \<Rightarrow> None
                     | Some response \<Rightarrow>
                         map_option (\<lambda>raw. gm_put ''response'' raw payload)
                           (ejPutObject J (rewriteResponsesModelObject J publicModel response))))
              else None) of
             None \<Rightarrow> (body, False)
           | Some payload' \<Rightarrow>
               (case ejPutObject J payload' of None \<Rightarrow> (body, False) | Some rewritten \<Rightarrow> (rewritten, True))))"

section \<open>Stable item ids\<close>

type_synonym itemIds = "(int, string) gomap"

definition responsesEventOutputIndex :: "eventJson \<Rightarrow> (string, string) gomap \<Rightarrow> int option" where
  "responsesEventOutputIndex J event =
     (case gm_get event ''output_index'' of
        None \<Rightarrow> None
      | Some raw \<Rightarrow> (case unmarshalRaw (ejInt J) raw of
            None \<Rightarrow> None
          | Some outputIndex \<Rightarrow> if outputIndex < 0 then None else Some outputIndex))"

definition responsesEventItemID :: "eventJson \<Rightarrow> string \<Rightarrow> string" where
  "responsesEventItemID J raw =
     (case unmarshalRaw (ejObject J) raw of None \<Rightarrow> '''' | Some item \<Rightarrow> rawJSONString J (rawField item ''id''))"

definition rewriteResponsesItemID :: "eventJson \<Rightarrow> string \<Rightarrow> string \<Rightarrow> string \<times> bool" where
  "rewriteResponsesItemID J raw stableID =
     (if raw = '''' \<or> stableID = '''' then (raw, False)
      else case unmarshalRaw (ejObject J) raw of
        None \<Rightarrow> (raw, False)
      | Some item \<Rightarrow>
          let encodedID = ejPutString J stableID in
          if rawField item ''id'' = encodedID then (raw, False)
          else (case ejPutObject J (gm_put ''id'' encodedID item) of
              None \<Rightarrow> (raw, False)
            | Some rewritten \<Rightarrow> (rewritten, True)))"

definition stableIdOf :: "itemIds \<Rightarrow> int \<Rightarrow> string" where
  "stableIdOf byOutputIndex i = (case gm_get byOutputIndex i of Some v \<Rightarrow> v | None \<Rightarrow> '''')"

fun rewriteOutputItems :: "eventJson \<Rightarrow> itemIds \<Rightarrow> nat \<Rightarrow> string list \<Rightarrow> string list \<times> bool" where
  "rewriteOutputItems J ids i [] = ([], False)"
| "rewriteOutputItems J ids i (item # items) =
     (case rewriteOutputItems J ids (i + 1) items of (items', changed) \<Rightarrow>
        if stableIdOf ids (int i) = '''' then (item # items', changed)
        else case rewriteResponsesItemID J item (stableIdOf ids (int i)) of (item', itemChanged) \<Rightarrow>
          ((if itemChanged then item' else item) # items', itemChanged \<or> changed))"

definition rewriteResponseOutput :: "eventJson \<Rightarrow> itemIds \<Rightarrow> string \<Rightarrow> string \<times> bool" where
  "rewriteResponseOutput J ids raw =
     (if raw = '''' then (raw, False)
      else case unmarshalRaw (ejObject J) raw of
        None \<Rightarrow> (raw, False)
      | Some response \<Rightarrow>
          (case unmarshalRaw (ejList J) (rawField response ''output'') of
             None \<Rightarrow> (raw, False)
           | Some output \<Rightarrow>
               (case rewriteOutputItems J ids 0 output of (output', changed) \<Rightarrow>
                  if \<not> changed then (raw, False)
                  else case ejPutList J output' of
                    None \<Rightarrow> (raw, False)
                  | Some encodedOutput \<Rightarrow>
                      (case ejPutObject J (gm_put ''output'' encodedOutput response) of
                         None \<Rightarrow> (raw, False)
                       | Some rewritten \<Rightarrow> (rewritten, True)))))"

text \<open>\<open>responsesItemIDNormalizer.rewrite\<close>: the event, and what is remembered of its item.\<close>

definition rememberItemID :: "eventJson \<Rightarrow> string \<Rightarrow> (string, string) gomap \<Rightarrow> itemIds \<Rightarrow> itemIds" where
  "rememberItemID J eventType event ids =
     (case responsesEventOutputIndex J event of
        Some outputIndex \<Rightarrow>
          if eventType = ''response.output_item.added'' \<and> responsesEventItemID J (rawField event ''item'') \<noteq> ''''
          then gm_put outputIndex (responsesEventItemID J (rawField event ''item'')) ids else ids
      | None \<Rightarrow> ids)"

definition rewriteEventItem :: "eventJson \<Rightarrow> itemIds \<Rightarrow> (string, string) gomap \<Rightarrow> (string, string) gomap \<times> bool" where
  "rewriteEventItem J ids event =
     (case responsesEventOutputIndex J event of
        None \<Rightarrow> (event, False)
      | Some outputIndex \<Rightarrow>
          let stableID = stableIdOf ids outputIndex in
          if stableID = '''' then (event, False)
          else
            let encodedID = ejPutString J stableID;
                idChanged = (gm_get event ''item_id'' \<noteq> None \<and> rawField event ''item_id'' \<noteq> encodedID);
                event = (if idChanged then gm_put ''item_id'' encodedID event else event)
            in (case rewriteResponsesItemID J (rawField event ''item'') stableID of (item, itemChanged) \<Rightarrow>
              (if itemChanged then gm_put ''item'' item event else event, idChanged \<or> itemChanged)))"

definition normalizeItemIDs :: "eventJson \<Rightarrow> string \<Rightarrow> string \<Rightarrow> itemIds \<Rightarrow> (string \<times> bool) \<times> itemIds" where
  "normalizeItemIDs J data eventName ids =
     (if \<not> ejUnambiguous J data then ((data, False), ids)
      else case unmarshalRaw (ejObject J) data of
        None \<Rightarrow> ((data, False), ids)
      | Some event \<Rightarrow>
          let eventType = rawJSONString J (rawField event ''type'');
              eventType = (if eventType = '''' then eventName else eventType);
              ids = rememberItemID J eventType event ids
          in (case rewriteEventItem J ids event of (event, changed) \<Rightarrow>
              case rewriteResponseOutput J ids (rawField event ''response'') of (response, responseChanged) \<Rightarrow>
                let event = (if responseChanged then gm_put ''response'' response event else event) in
                if \<not> (changed \<or> responseChanged) then ((data, False), ids)
                else (case ejPutObject J event of
                    None \<Rightarrow> ((data, False), ids)
                  | Some rewritten \<Rightarrow> ((rewritten, True), ids))))"

section \<open>What \<open>encoding/json\<close> promises\<close>

text \<open>
  The laws are about messages that \<open>validateUnambiguousResponsesJSON\<close> accepts: valid JSON within the
  nesting limit in which no object repeats a key. \<open>fits n raw\<close> says that a message is nested at most
  \<open>n\<close> deep. A decoder gives such messages again, nested less deeply, under keys in UTF-8. Encoding a map
  or a list of such messages does not fail, and gives such a message unless it is nested too deeply; it
  compacts the messages and escapes HTML in them (\<open>compact\<close>), which does not change what the decoders of
  strings and numbers read. A string in UTF-8 is decoded as it was encoded.
\<close>

definition jsonMaxDepth :: nat where
  "jsonMaxDepth = 10000"

definition goodRaw :: "(nat \<Rightarrow> string \<Rightarrow> bool) \<Rightarrow> eventJson \<Rightarrow> nat \<Rightarrow> string \<Rightarrow> bool" where
  "goodRaw fits J n raw \<longleftrightarrow> ejUnambiguous J raw \<and> fits n raw"

definition goodMembers :: "(nat \<Rightarrow> string \<Rightarrow> bool) \<Rightarrow> eventJson \<Rightarrow> nat \<Rightarrow> (string, string) gomap \<Rightarrow> bool" where
  "goodMembers fits J n m \<longleftrightarrow> (\<forall>k v. gm_get m k = Some v \<longrightarrow> utf8Valid k \<and> goodRaw fits J n v)"

definition decodingLaws :: "(nat \<Rightarrow> string \<Rightarrow> bool) \<Rightarrow> eventJson \<Rightarrow> bool" where
  "decodingLaws fits J \<longleftrightarrow>
     (\<forall>raw. ejUnambiguous J raw \<longrightarrow> fits jsonMaxDepth raw) \<and>
     (\<forall>n raw m. goodRaw fits J (Suc n) raw \<longrightarrow> ejObject J raw = Some m \<longrightarrow> goodMembers fits J n m) \<and>
     (\<forall>n raw xs. goodRaw fits J (Suc n) raw \<longrightarrow> ejList J raw = Some xs \<longrightarrow> list_all (goodRaw fits J n) xs)"

definition encodingLaws :: "(nat \<Rightarrow> string \<Rightarrow> bool) \<Rightarrow> (string \<Rightarrow> string) \<Rightarrow> eventJson \<Rightarrow> bool" where
  "encodingLaws fits compact J \<longleftrightarrow>
     (\<forall>n m. n < jsonMaxDepth \<longrightarrow> goodMembers fits J n m \<longrightarrow>
        (\<exists>r m'. ejPutObject J m = Some r \<and> r \<noteq> '''' \<and> goodRaw fits J (Suc n) r \<and> ejObject J r = Some m' \<and>
           (\<forall>k. gm_get m' k = map_option compact (gm_get m k)))) \<and>
     (\<forall>n xs. n < jsonMaxDepth \<longrightarrow> list_all (goodRaw fits J n) xs \<longrightarrow>
        (\<exists>r. ejPutList J xs = Some r \<and> goodRaw fits J (Suc n) r)) \<and>
     (\<forall>n s. goodRaw fits J n (ejPutString J s)) \<and> (\<forall>n i. goodRaw fits J n (ejPutInt J i)) \<and>
     (\<forall>s. utf8Valid s \<longrightarrow> ejPutString J s \<noteq> '''' \<and> ejString J (ejPutString J s) = Some s)"

definition compactLaws :: "(string \<Rightarrow> string) \<Rightarrow> eventJson \<Rightarrow> bool" where
  "compactLaws compact J \<longleftrightarrow>
     (\<forall>raw. (compact raw = '''' \<longleftrightarrow> raw = '''') \<and>
        (ejUnambiguous J raw \<longrightarrow> ejString J (compact raw) = ejString J raw \<and> ejInt J (compact raw) = ejInt J raw))"

definition jsonLaws :: "(nat \<Rightarrow> string \<Rightarrow> bool) \<Rightarrow> (string \<Rightarrow> string) \<Rightarrow> eventJson \<Rightarrow> bool" where
  "jsonLaws fits compact J \<longleftrightarrow> decodingLaws fits J \<and> encodingLaws fits compact J \<and> compactLaws compact J"

lemma good_object:
  "jsonLaws fits compact J \<Longrightarrow> goodRaw fits J (Suc n) raw \<Longrightarrow> unmarshalRaw (ejObject J) raw = Some m \<Longrightarrow> goodMembers fits J n m"
  unfolding jsonLaws_def decodingLaws_def unmarshalRaw_def by (metis option.distinct(1))

lemma good_list:
  "jsonLaws fits compact J \<Longrightarrow> goodRaw fits J (Suc n) raw \<Longrightarrow> unmarshalRaw (ejList J) raw = Some xs \<Longrightarrow>
   list_all (goodRaw fits J n) xs"
  unfolding jsonLaws_def decodingLaws_def unmarshalRaw_def by (metis option.distinct(1))

lemma good_data: "jsonLaws fits compact J \<Longrightarrow> ejUnambiguous J raw \<Longrightarrow> goodRaw fits J jsonMaxDepth raw"
  by (simp add: jsonLaws_def decodingLaws_def goodRaw_def)

lemma put_object:
  assumes "jsonLaws fits compact J" "goodMembers fits J n m" "n < jsonMaxDepth"
  obtains r m' where "ejPutObject J m = Some r" "r \<noteq> ''''" "goodRaw fits J (Suc n) r" "ejObject J r = Some m'"
    "\<And>k. gm_get m' k = map_option compact (gm_get m k)"
  using assms unfolding jsonLaws_def encodingLaws_def by blast

lemma put_list:
  assumes "jsonLaws fits compact J" "list_all (goodRaw fits J n) xs" "n < jsonMaxDepth"
  obtains r where "ejPutList J xs = Some r" "goodRaw fits J (Suc n) r"
  using assms unfolding jsonLaws_def encodingLaws_def by blast

lemma put_scalars:
  assumes "jsonLaws fits compact J"
  shows "goodRaw fits J n (ejPutString J s)" "goodRaw fits J n (ejPutInt J i)"
    "utf8Valid s \<Longrightarrow> unmarshalRaw (ejString J) (ejPutString J s) = Some s"
  using assms by (simp_all add: jsonLaws_def encodingLaws_def unmarshalRaw_def)

lemma good_put: "goodMembers fits J n m \<Longrightarrow> utf8Valid f \<Longrightarrow> goodRaw fits J n raw \<Longrightarrow> goodMembers fits J n (gm_put f raw m)"
  by (auto simp: goodMembers_def update_conv')

lemma good_field: "goodMembers fits J n m \<Longrightarrow> rawField m f \<noteq> '''' \<Longrightarrow> goodRaw fits J n (rawField m f)"
  by (auto simp: goodMembers_def rawField_def split: option.splits)

lemma unmarshal_some: "unmarshalRaw dec raw = Some v \<Longrightarrow> raw \<noteq> ''''"
  by (auto simp: unmarshalRaw_def)

text \<open>A rewriting keeps what it is given good.\<close>

definition keepsGood :: "(nat \<Rightarrow> string \<Rightarrow> bool) \<Rightarrow> eventJson \<Rightarrow> nat \<Rightarrow> (string \<Rightarrow> string \<times> bool) \<Rightarrow> bool" where
  "keepsGood fits J n f \<longleftrightarrow> (\<forall>raw. goodRaw fits J n raw \<longrightarrow> snd (f raw) \<longrightarrow> goodRaw fits J n (fst (f raw)))"

lemma keepsGoodI:
  "(\<And>raw out. goodRaw fits J n raw \<Longrightarrow> f raw = (out, True) \<Longrightarrow> goodRaw fits J n out) \<Longrightarrow> keepsGood fits J n f"
  by (simp add: keepsGood_def prod_eq_iff)

lemma level_Suc: "k < n \<Longrightarrow> n \<le> jsonMaxDepth \<Longrightarrow> \<exists>n'. n = Suc n' \<and> k \<le> n' \<and> n' < jsonMaxDepth"
  by (cases n) auto

lemma item_id_good:
  assumes "jsonLaws fits compact J" "0 < n" "n \<le> jsonMaxDepth"
  shows "keepsGood fits J n (\<lambda>raw. rewriteResponsesItemID J raw stableID)"
proof (rule keepsGoodI)
  fix raw out
  assume g: "goodRaw fits J n raw" and r: "rewriteResponsesItemID J raw stableID = (out, True)"
  obtain n' where n: "n = Suc n'" "n' < jsonMaxDepth" using level_Suc[OF assms(2,3)] by auto
  from r obtain item where i: "unmarshalRaw (ejObject J) raw = Some item"
    "ejPutObject J (gm_put ''id'' (ejPutString J stableID) item) = Some out"
    by (auto simp: rewriteResponsesItemID_def Let_def split: if_splits option.splits)
  have "utf8Valid ''id''" by (rule utf8_ascii) simp
  then have "goodMembers fits J n' (gm_put ''id'' (ejPutString J stableID) item)"
    using good_put good_object[OF assms(1) _ i(1)] g n(1) put_scalars(1)[OF assms(1)] by blast
  from put_object[OF assms(1) this n(2)] show "goodRaw fits J n out" using i(2) n(1) by auto
qed

lemma output_items_good:
  assumes "jsonLaws fits compact J" "0 < n" "n \<le> jsonMaxDepth"
  shows "list_all (goodRaw fits J n) items \<Longrightarrow> list_all (goodRaw fits J n) (fst (rewriteOutputItems J ids i items))"
proof (induction items arbitrary: i)
  case (Cons item items)
  obtain items' changed where r: "rewriteOutputItems J ids (i + 1) items = (items', changed)" by fastforce
  obtain item' itemChanged where ri: "rewriteResponsesItemID J item (stableIdOf ids (int i)) = (item', itemChanged)" by fastforce
  have "list_all (goodRaw fits J n) items'" using Cons.IH[of "i + 1", unfolded r] Cons.prems by simp
  moreover have "itemChanged \<Longrightarrow> goodRaw fits J n item'"
    using item_id_good[OF assms, of "stableIdOf ids (int i)", unfolded keepsGood_def ri, rule_format, of item] Cons.prems
    by (simp add: ri)
  ultimately show ?case using Cons.prems unfolding rewriteOutputItems.simps r prod.case by (simp add: ri)
qed simp

lemma response_output_good:
  assumes "jsonLaws fits compact J" "2 < n" "n \<le> jsonMaxDepth"
  shows "keepsGood fits J n (rewriteResponseOutput J ids)"
proof (rule keepsGoodI)
  fix raw out
  assume g: "goodRaw fits J n raw" and r: "rewriteResponseOutput J ids raw = (out, True)"
  obtain k where n: "n = Suc (Suc (Suc k))" using assms(2) by (intro that[of "n - 3"]) simp
  then have k: "Suc k \<le> jsonMaxDepth" "Suc k < jsonMaxDepth" "Suc (Suc k) < jsonMaxDepth" using assms(3) by simp_all
  from r obtain response xs encoded where o: "unmarshalRaw (ejObject J) raw = Some response"
    "unmarshalRaw (ejList J) (rawField response ''output'') = Some xs"
    "ejPutList J (fst (rewriteOutputItems J ids 0 xs)) = Some encoded"
    "ejPutObject J (gm_put ''output'' encoded response) = Some out"
    by (auto simp: rewriteResponseOutput_def split: if_splits option.splits prod.splits)
  have gr: "goodMembers fits J (Suc (Suc k)) response" using good_object[OF assms(1) _ o(1)] g n by simp
  from good_field[OF gr unmarshal_some[OF o(2)]] have "list_all (goodRaw fits J (Suc k)) xs"
    using good_list[OF assms(1) _ o(2)] by blast
  from output_items_good[OF assms(1) _ k(1) this] put_list[OF assms(1) _ k(2)] o(3)
  have e: "goodRaw fits J (Suc (Suc k)) encoded" by (metis option.inject zero_less_Suc)
  have "utf8Valid ''output''" by (rule utf8_ascii) simp
  from put_object[OF assms(1) good_put[OF gr this e] k(3)] show "goodRaw fits J n out" using o(4) n by auto
qed

lemma remember_other:
  "responsesEventOutputIndex J event \<noteq> Some i \<or> eventType \<noteq> ''response.output_item.added'' \<Longrightarrow>
   gm_get (rememberItemID J eventType event ids) i = gm_get ids i"
  by (auto simp: rememberItemID_def update_conv' split: option.splits)

lemma rewrite_event_item:
  assumes "rewriteEventItem J ids event = (event', changed)" "responsesEventOutputIndex J event = Some i"
    "stableIdOf ids i \<noteq> ''''"
  shows "gm_get event' ''item_id'' = (if gm_get event ''item_id'' = None then None else Some (ejPutString J (stableIdOf ids i)))"
    and "f \<noteq> ''item_id'' \<Longrightarrow> f \<noteq> ''item'' \<Longrightarrow> gm_get event' f = gm_get event f"
    and "\<not> changed \<Longrightarrow> event' = event"
  using assms by (auto simp: rewriteEventItem_def Let_def update_conv' rawField_def split: prod.splits if_splits option.splits)

lemma event_item_good:
  assumes "jsonLaws fits compact J" "0 < n" "n \<le> jsonMaxDepth" "goodMembers fits J n event"
    and "rewriteEventItem J ids event = (event', changed)"
  shows "goodMembers fits J n event'"
proof -
  have u: "utf8Valid ''item_id''" "utf8Valid ''item''" by (simp_all add: utf8_ascii)
  have id: "goodMembers fits J n (gm_put ''item_id'' (ejPutString J s) event)" for s
    using good_put[OF assms(4) u(1) put_scalars(1)[OF assms(1)]] .
  have item: "goodRaw fits J n item" if "goodMembers fits J n m" "rewriteResponsesItemID J (rawField m ''item'') s = (item, True)" for m s item
  proof -
    have "rawField m ''item'' \<noteq> ''''" using that(2) by (auto simp: rewriteResponsesItemID_def)
    from good_field[OF that(1) this] item_id_good[OF assms(1-3), of s] that(2) show ?thesis by (auto simp: keepsGood_def)
  qed
  have put: "goodMembers fits J n (if ic then gm_put ''item'' it m else m)"
    if "goodMembers fits J n m" "rewriteResponsesItemID J (rawField m ''item'') s = (it, ic)" for m s it ic
    using that item[OF that(1), of s it] good_put[OF that(1) u(2), of it] by (cases ic) simp_all
  show ?thesis
  proof (cases "responsesEventOutputIndex J event")
    case None
    then show ?thesis using assms(4,5) by (simp add: rewriteEventItem_def)
  next
    case (Some i)
    let ?s = "stableIdOf ids i"
    let ?m = "if gm_get event ''item_id'' \<noteq> None \<and> rawField event ''item_id'' \<noteq> ejPutString J ?s
      then gm_put ''item_id'' (ejPutString J ?s) event else event"
    obtain it ic where r: "rewriteResponsesItemID J (rawField ?m ''item'') ?s = (it, ic)" by fastforce
    have m: "goodMembers fits J n ?m" using assms(4) id by (simp only: split: if_split) blast
    have "\<exists>c. rewriteEventItem J ids event = (if ?s = '''' then (event, False) else (if ic then gm_put ''item'' it ?m else ?m, c))"
      unfolding rewriteEventItem_def Some option.case Let_def r prod.case by (rule exI) (rule refl)
    then have "event' = (if ?s = '''' then event else if ic then gm_put ''item'' it ?m else ?m)"
      unfolding assms(5) by (cases "?s = ''''") (simp_all only: if_True if_False prod.inject, simp_all)
    then show ?thesis using assms(4) put[OF m r] by (simp only: split: if_split) blast
  qed
qed

text \<open>Item ids are stable. An event of an output item whose id is known leaves the proxy with that id in
  its \<open>item_id\<close>, however the upstream named the item in this event, and with its other members as they
  were up to the layout of their JSON; the known id of an item changes only when the item is announced
  again.\<close>

theorem item_id_is_stable:
  assumes "jsonLaws fits compact J" "ejUnambiguous J data" "data \<noteq> ''''" "ejObject J data = Some event"
    and "normalizeItemIDs J data eventName ids = ((out, changed), ids')"
    and "responsesEventOutputIndex J event = Some i" "stableIdOf ids' i \<noteq> ''''"
  shows "\<exists>event' c. (c = id \<or> c = compact) \<and> ejObject J out = Some event' \<and>
    (gm_get event ''item_id'' \<noteq> None \<longrightarrow> gm_get event' ''item_id'' = Some (c (ejPutString J (stableIdOf ids' i)))) \<and>
    (\<forall>f. f \<notin> {''item_id'', ''item'', ''response''} \<longrightarrow> gm_get event' f = map_option c (gm_get event f)) \<and>
    (\<forall>j. j \<noteq> i \<longrightarrow> gm_get ids' j = gm_get ids j)"
proof -
  let ?t = "rawJSONString J (rawField event ''type'')"
  let ?type = "if ?t = '''' then eventName else ?t"
  let ?ids = "rememberItemID J ?type event ids"
  let ?n = "jsonMaxDepth - 1"
  have n: "Suc ?n = jsonMaxDepth" "2 < ?n" "?n \<le> jsonMaxDepth" "?n < jsonMaxDepth" "0 < ?n" by (simp_all add: jsonMaxDepth_def)
  obtain ev ch where r: "rewriteEventItem J ?ids event = (ev, ch)" by fastforce
  obtain resp rch where p: "rewriteResponseOutput J ?ids (rawField ev ''response'') = (resp, rch)" by fastforce
  let ?ev = "if rch then gm_put ''response'' resp ev else ev"
  have "goodMembers fits J ?n event"
    using good_object[OF assms(1), of ?n data event] good_data[OF assms(1,2)] assms(3,4) n(1) by (simp add: unmarshalRaw_def)
  from event_item_good[OF assms(1) n(5,3) this r] have g: "goodMembers fits J ?n ev" .
  have "goodMembers fits J ?n ?ev"
  proof (cases rch)
    case True
    then have "rawField ev ''response'' \<noteq> ''''" using p by (auto simp: rewriteResponseOutput_def)
    from good_field[OF g this] have "goodRaw fits J ?n resp"
      using response_output_good[OF assms(1) n(2,3), of ?ids] p True by (auto simp: keepsGood_def)
    from good_put[OF g _ this, of "''response''"] show ?thesis using True by (simp add: utf8_ascii)
  qed (use g in simp)
  then obtain w event' where w: "ejPutObject J ?ev = Some w" "ejObject J w = Some event'"
    "\<And>k. gm_get event' k = map_option compact (gm_get ?ev k)"
    using put_object[OF assms(1) _ n(4)] by metis
  have res: "normalizeItemIDs J data eventName ids = (if ch \<or> rch then ((w, True), ?ids) else ((data, False), ?ids))"
    using assms(2-4) r p w(1) by (cases rch) (simp_all add: normalizeItemIDs_def unmarshalRaw_def Let_def)
  have ids: "ids' = ?ids" and out: "out = (if ch \<or> rch then w else data)"
    using res assms(5) by (auto split: if_splits)
  have k: "stableIdOf ?ids i \<noteq> ''''" using assms(7) ids by simp
  note e = rewrite_event_item[OF r assms(6) k]
  have o: "\<forall>j. j \<noteq> i \<longrightarrow> gm_get ids' j = gm_get ids j" using remember_other[of J event _ ?type ids] assms(6) ids by auto
  show ?thesis
  proof (cases "ch \<or> rch")
    case True
    then have "ejObject J out = Some event'" using out w by simp
    moreover have "gm_get ?ev f = gm_get ev f" if "f \<noteq> ''response''" for f using that by (simp add: update_conv')
    ultimately show ?thesis using e(1,2) w(3) o ids by (intro exI[of _ event'] exI[of _ compact]) auto
  next
    case False
    then show ?thesis using out assms(4) e(1,3) o ids
      by (intro exI[of _ event] exI[of _ id]) (auto simp: option.map_id0 split: if_splits)
  qed
qed

text \<open>An encoding of maps for which the promise holds.\<close>

fun exEncString :: "string \<Rightarrow> string" where
  "exEncString [] = ''b''"
| "exEncString (c # s) = CHR ''a'' # c # exEncString s"

fun exEncMap :: "(string, string) gomap \<Rightarrow> string" where
  "exEncMap [] = ''c''"
| "exEncMap ((k, v) # m) = CHR ''d'' # exEncString k @ exEncString v @ exEncMap m"

fun exDecString :: "string \<Rightarrow> (string \<times> string) option" where
  "exDecString (a # s) =
     (if a = CHR ''b'' then Some ('''', s)
      else case s of c # r \<Rightarrow> map_option (\<lambda>(v, rest). (c # v, rest)) (exDecString r) | [] \<Rightarrow> None)"
| "exDecString [] = None"

fun exDecMap :: "nat \<Rightarrow> string \<Rightarrow> (string, string) gomap option" where
  "exDecMap 0 s = None"
| "exDecMap (Suc n) s =
     (if s = ''c'' then Some []
      else case exDecString (tl s) of
        None \<Rightarrow> None
      | Some (k, r) \<Rightarrow> (case exDecString r of
          None \<Rightarrow> None
        | Some (v, r') \<Rightarrow> map_option (\<lambda>m. (k, v) # m) (exDecMap n r')))"

lemma dec_string: "exDecString (exEncString v @ r) = Some (v, r)"
  by (induction v) simp_all

lemma dec_map: "length m < n \<Longrightarrow> exDecMap n (exEncMap m) = Some m"
proof (induction m arbitrary: n)
  case Nil
  then show ?case by (cases n) simp_all
next
  case (Cons kv m)
  obtain k v where kv: "kv = (k, v)" by (cases kv)
  show ?case using Cons by (cases n) (simp_all add: kv dec_string)
qed

lemma enc_map_length: "length m < length (exEncMap m)"
  by (induction m rule: exEncMap.induct) auto

definition exEventJson :: eventJson where
  "exEventJson =
     \<lparr>ejUnambiguous = (\<lambda>_. True),
      ejObject = (\<lambda>s. case exDecMap (length s) s of None \<Rightarrow> None
        | Some m \<Rightarrow> if list_all (\<lambda>(k, v). utf8Valid k) m then Some m else None),
      ejString = (\<lambda>s. case s of [] \<Rightarrow> None | _ # v \<Rightarrow> Some v),
      ejInt = (\<lambda>s. if s = ''0'' then Some 0 else None), ejList = (\<lambda>_. None),
      ejPutObject = (\<lambda>m. Some (exEncMap m)), ejPutString = (\<lambda>v. CHR ''q'' # v), ejPutInt = (\<lambda>_. ''0''),
      ejPutList = (\<lambda>_. Some ''l'')\<rparr>"

lemma ex_laws: "jsonLaws (\<lambda>n raw. True) id exEventJson"
proof -
  have ne: "exEncMap m \<noteq> ''''" for m by (cases m rule: exEncMap.cases) simp_all
  have g: "goodRaw (\<lambda>n raw. True) exEventJson n raw" for n raw by (simp add: goodRaw_def exEventJson_def)
  have m: "goodMembers (\<lambda>n raw. True) exEventJson n m \<longleftrightarrow> list_all (\<lambda>(k, v). utf8Valid k) m" for n m
    using g weak_map_of_SomeI[of _ _ m] map_of_SomeD[of m] unfolding goodMembers_def list_all_iff by blast
  have d: "decodingLaws (\<lambda>n raw. True) exEventJson"
    unfolding decodingLaws_def m by (auto simp: exEventJson_def split: option.splits if_splits)
  have e: "encodingLaws (\<lambda>n raw. True) id exEventJson"
    unfolding encodingLaws_def m using g ne dec_map[OF enc_map_length]
    by (auto simp: exEventJson_def option.map_id)
  show ?thesis using d e by (simp add: jsonLaws_def compactLaws_def)
qed

definition exItemEvent :: "(string, string) gomap" where
  "exItemEvent = [(''type'', ''qresponse.output_text.delta''), (''output_index'', ''0''), (''item_id'', ''qother'')]"

lemma item_id_is_stable_witness:
  "\<exists>out event'. normalizeItemIDs exEventJson (exEncMap exItemEvent) '''' [(0, ''msg'')] = ((out, True), [(0, ''msg'')]) \<and>
     ejObject exEventJson out = Some event' \<and> gm_get event' ''item_id'' = Some ''qmsg'' \<and>
     gm_get event' ''type'' = Some ''qresponse.output_text.delta''"
proof -
  let ?J = exEventJson
  have d: "ejObject ?J (exEncMap exItemEvent) = Some exItemEvent" by code_simp
  have ne: "exEncMap exItemEvent \<noteq> ''''" by (simp add: exItemEvent_def)
  have i: "responsesEventOutputIndex ?J exItemEvent = Some 0" by code_simp
  let ?out = "exEncMap [(''type'', ''qresponse.output_text.delta''), (''output_index'', ''0''), (''item_id'', ''qmsg'')]"
  have n: "normalizeItemIDs ?J (exEncMap exItemEvent) '''' [(0, ''msg'')] = ((?out, True), [(0, ''msg'')])" by code_simp
  have u: "ejUnambiguous ?J (exEncMap exItemEvent)" by (simp add: exEventJson_def)
  have k: "stableIdOf [(0, ''msg'')] 0 = ''msg''" "stableIdOf [(0, ''msg'')] 0 \<noteq> ''''" by (simp_all add: stableIdOf_def)
  have f: "gm_get exItemEvent ''item_id'' \<noteq> None" "gm_get exItemEvent ''type'' = Some ''qresponse.output_text.delta''"
    by (simp_all add: exItemEvent_def)
  have p: "ejPutString ?J ''msg'' = ''qmsg''" by (simp add: exEventJson_def)
  from item_id_is_stable[OF ex_laws u ne d n i k(2)] obtain event' c where "c = id" "ejObject ?J ?out = Some event'"
    "gm_get event' ''item_id'' = Some (c ''qmsg'')" "gm_get event' ''type'' = map_option c (Some ''qresponse.output_text.delta'')"
    using f unfolding k(1) p by (elim exE conjE disjE) simp_all
  with n show ?thesis by auto
qed

end
