(* ===== verification/Citation_Events.thy ===== *)
theory Citation_Events
  imports Citation_Markers Responses_Rewrite
begin

text \<open>
  The rewriting of citation markers in the events of a Responses stream
  (\<open>responsesCitationRewriter\<close> of \<open>responses_citation_markers.go\<close>): deltas of an output text, its final
  text, annotations, and the messages that repeat the text. \<open>links\<close> formats the references of a marker.
\<close>

section \<open>Annotations\<close>

definition remapOffsetField ::
  "eventJson \<Rightarrow> citationEdit list \<Rightarrow> string \<times> bool \<Rightarrow> (string, string) gomap \<times> bool \<Rightarrow> (string, string) gomap \<times> bool" where
  "remapOffsetField J edits field st =
     (case field of (name, rangeEnd) \<Rightarrow> case st of (annotation, changed) \<Rightarrow>
        case unmarshalRaw (ejInt J) (rawField annotation name) of
          None \<Rightarrow> (annotation, changed)
        | Some offset \<Rightarrow>
            let mapped = mapCitationOffset offset edits rangeEnd in
            if mapped \<noteq> offset then (gm_put name (ejPutInt J mapped) annotation, True) else (annotation, changed))"

definition remapCitationAnnotation :: "eventJson \<Rightarrow> citationEdit list \<Rightarrow> string \<Rightarrow> string \<times> bool" where
  "remapCitationAnnotation J edits raw =
     (if edits = [] then (raw, False)
      else case unmarshalRaw (ejObject J) raw of
        None \<Rightarrow> (raw, False)
      | Some annotation \<Rightarrow>
          (case fold (remapOffsetField J edits) [(''start_index'', False), (''end_index'', True)] (annotation, False) of
             (annotation, changed) \<Rightarrow>
               if \<not> changed then (raw, False)
               else (case ejPutObject J annotation of None \<Rightarrow> (raw, False) | Some rewritten \<Rightarrow> (rewritten, True))))"

text \<open>The loops over a list of messages; the second result tells whether one of them changed.\<close>

definition rewriteEach :: "(string \<Rightarrow> string \<times> bool) \<Rightarrow> string list \<Rightarrow> string list \<times> bool" where
  "rewriteEach f raws = (map (\<lambda>raw. if snd (f raw) then fst (f raw) else raw) raws, list_ex (\<lambda>raw. snd (f raw)) raws)"

definition remapCitationAnnotations :: "eventJson \<Rightarrow> citationEdit list \<Rightarrow> string \<Rightarrow> string \<times> bool" where
  "remapCitationAnnotations J edits raw =
     (if edits = [] then (raw, False)
      else case unmarshalRaw (ejList J) raw of
        None \<Rightarrow> (raw, False)
      | Some annotations \<Rightarrow>
          (case rewriteEach (remapCitationAnnotation J edits) annotations of (annotations, changed) \<Rightarrow>
             if \<not> changed then (raw, False)
             else (case ejPutList J annotations of None \<Rightarrow> (raw, False) | Some rewritten \<Rightarrow> (rewritten, True))))"

section \<open>Texts\<close>

definition rewriteCitationJSONString ::
  "eventJson \<Rightarrow> (string list \<Rightarrow> string) \<Rightarrow> string \<Rightarrow> (string, string) gomap \<Rightarrow> (string, string) gomap \<times> citationEdit list \<times> bool" where
  "rewriteCitationJSONString J links field obj =
     (case unmarshalRaw (ejString J) (rawField obj field) of
        None \<Rightarrow> (obj, [], False)
      | Some s \<Rightarrow> (case rewriteCitationMarkers links s True of (rewritten, _, edits) \<Rightarrow>
          if rewritten = s then (obj, [], False)
          else (gm_put field (ejPutString J rewritten) obj, edits, True)))"

definition rewriteCitationOutputTextPart :: "eventJson \<Rightarrow> (string list \<Rightarrow> string) \<Rightarrow> string \<Rightarrow> string \<times> bool" where
  "rewriteCitationOutputTextPart J links raw =
     (case unmarshalRaw (ejObject J) raw of
        None \<Rightarrow> (raw, False)
      | Some part \<Rightarrow>
          if rawJSONString J (rawField part ''type'') \<noteq> ''output_text'' then (raw, False)
          else (case rewriteCitationJSONString J links ''text'' part of (part, edits, changed) \<Rightarrow>
            if \<not> changed then (raw, False)
            else (case remapCitationAnnotations J edits (rawField part ''annotations'') of (annotations, annotationsChanged) \<Rightarrow>
              (case ejPutObject J (if annotationsChanged then gm_put ''annotations'' annotations part else part) of
                 None \<Rightarrow> (raw, False) | Some rewritten \<Rightarrow> (rewritten, True)))))"

text \<open>Rewriting the list in a field of an object, as for the content of a message and the output of a
  response. An encoding of the list that fails leaves an empty message (\<open>null\<close>) behind.\<close>

definition rewriteListField ::
  "eventJson \<Rightarrow> string \<Rightarrow> (string \<Rightarrow> string \<times> bool) \<Rightarrow> string \<Rightarrow> (string, string) gomap \<Rightarrow> string \<times> bool" where
  "rewriteListField J field f raw obj =
     (case unmarshalRaw (ejList J) (rawField obj field) of
        None \<Rightarrow> (raw, False)
      | Some xs \<Rightarrow> (case rewriteEach f xs of (xs, changed) \<Rightarrow>
          if \<not> changed then (raw, False)
          else let encoded = (case ejPutList J xs of Some r \<Rightarrow> r | None \<Rightarrow> '''') in
            (case ejPutObject J (gm_put field encoded obj) of
               None \<Rightarrow> (raw, False) | Some rewritten \<Rightarrow> (rewritten, True))))"

definition rewriteCitationMessageItem :: "eventJson \<Rightarrow> (string list \<Rightarrow> string) \<Rightarrow> string \<Rightarrow> string \<times> bool" where
  "rewriteCitationMessageItem J links raw =
     (case unmarshalRaw (ejObject J) raw of
        None \<Rightarrow> (raw, False)
      | Some item \<Rightarrow>
          if rawJSONString J (rawField item ''type'') \<noteq> ''message'' then (raw, False)
          else rewriteListField J ''content'' (rewriteCitationOutputTextPart J links) raw item)"

definition rewriteCitationResponseOutput :: "eventJson \<Rightarrow> (string list \<Rightarrow> string) \<Rightarrow> string \<Rightarrow> string \<times> bool" where
  "rewriteCitationResponseOutput J links raw =
     (case unmarshalRaw (ejObject J) raw of
        None \<Rightarrow> (raw, False)
      | Some response \<Rightarrow> rewriteListField J ''output'' (rewriteCitationMessageItem J links) raw response)"

section \<open>Events\<close>

type_synonym citationTexts = "(int \<times> int, citationTextState) gomap"

definition citationEventTextKey :: "eventJson \<Rightarrow> (string, string) gomap \<Rightarrow> (int \<times> int) option" where
  "citationEventTextKey J event =
     (case responsesEventOutputIndex J event of
        None \<Rightarrow> None
      | Some outputIndex \<Rightarrow>
          (case gm_get event ''content_index'' of
             None \<Rightarrow> Some (outputIndex, 0)
           | Some raw \<Rightarrow> map_option (\<lambda>contentIndex. (outputIndex, contentIndex)) (unmarshalRaw (ejInt J) raw)))"

text \<open>\<open>textState\<close>: the state of a text, which is made when it is asked for first.\<close>

definition textStateAt :: "citationTexts \<Rightarrow> int \<times> int \<Rightarrow> citationTextState" where
  "textStateAt texts key = (case gm_get texts key of Some st \<Rightarrow> st | None \<Rightarrow> citationTextStart)"

definition rewriteDelta ::
  "eventJson \<Rightarrow> (string list \<Rightarrow> string) \<Rightarrow> (string, string) gomap \<Rightarrow> citationTexts \<Rightarrow>
     ((string, string) gomap \<times> bool) \<times> citationTexts" where
  "rewriteDelta J links event texts =
     (case citationEventTextKey J event of
        None \<Rightarrow> ((event, False), texts)
      | Some key \<Rightarrow>
          let state = textStateAt texts key in
          (case unmarshalRaw (ejString J) (rawField event ''delta'') of
             None \<Rightarrow> ((event, False), gm_put key state texts)
           | Some delta \<Rightarrow>
               (case citationDelta links delta state of (out, state') \<Rightarrow>
                  if ctHeld state = '''' \<and> out = delta then ((event, False), gm_put key state' texts)
                  else ((gm_put ''delta'' (ejPutString J out) event, True), gm_put key state' texts))))"

definition remapStreamedAnnotation ::
  "eventJson \<Rightarrow> (string, string) gomap \<Rightarrow> citationTexts \<Rightarrow> ((string, string) gomap \<times> bool) \<times> citationTexts" where
  "remapStreamedAnnotation J event texts =
     (case citationEventTextKey J event of
        None \<Rightarrow> ((event, False), texts)
      | Some key \<Rightarrow>
          let state = textStateAt texts key in
          (case remapCitationAnnotation J (ctEdits state) (rawField event ''annotation'') of (annotation, changed) \<Rightarrow>
             ((if changed then gm_put ''annotation'' annotation event else event, changed), gm_put key state texts)))"

definition rewriteDone ::
  "eventJson \<Rightarrow> (string list \<Rightarrow> string) \<Rightarrow> (string, string) gomap \<Rightarrow> citationTexts \<Rightarrow>
     ((string, string) gomap \<times> bool) \<times> citationTexts" where
  "rewriteDone J links event texts =
     (case rewriteCitationJSONString J links ''text'' event of (event', _, changed) \<Rightarrow>
        ((event', changed),
         case citationEventTextKey J event of
           None \<Rightarrow> texts | Some key \<Rightarrow> gm_put key ((textStateAt texts key)\<lparr>ctHeld := ''''\<rparr>) texts))"

definition rewriteRawField ::
  "string \<times> (string \<Rightarrow> string \<times> bool) \<Rightarrow> (string, string) gomap \<times> bool \<Rightarrow> (string, string) gomap \<times> bool" where
  "rewriteRawField field st =
     (case field of (name, f) \<Rightarrow> case st of (event, changed) \<Rightarrow>
        case gm_get event name of
          None \<Rightarrow> (event, changed)
        | Some raw \<Rightarrow> (case f raw of (rewritten, fieldChanged) \<Rightarrow>
            if fieldChanged then (gm_put name rewritten event, True) else (event, changed)))"

definition citationEventType :: "eventJson \<Rightarrow> (string, string) gomap \<Rightarrow> string \<Rightarrow> string" where
  "citationEventType J event eventName =
     (let eventType = rawJSONString J (rawField event ''type'') in if eventType = '''' then eventName else eventType)"

definition rewriteCitationEvent ::
  "eventJson \<Rightarrow> (string list \<Rightarrow> string) \<Rightarrow> string \<Rightarrow> string \<Rightarrow> citationTexts \<Rightarrow> (string \<times> bool) \<times> citationTexts" where
  "rewriteCitationEvent J links data eventName texts =
     (if \<not> ejUnambiguous J data then ((data, False), texts)
      else case unmarshalRaw (ejObject J) data of
        None \<Rightarrow> ((data, False), texts)
      | Some event \<Rightarrow>
          let eventType = citationEventType J event eventName in
          (case (if eventType = ''response.output_text.delta'' then rewriteDelta J links event texts
                 else if eventType = ''response.output_text.done'' then rewriteDone J links event texts
                 else if eventType = ''response.output_text.annotation.added'' then remapStreamedAnnotation J event texts
                 else ((event, False), texts)) of
             (st, texts) \<Rightarrow>
               (case fold rewriteRawField
                    [(''part'', rewriteCitationOutputTextPart J links), (''item'', rewriteCitationMessageItem J links),
                     (''response'', rewriteCitationResponseOutput J links)] st of
                  (event, changed) \<Rightarrow>
                    if \<not> changed then ((data, False), texts)
                    else (case ejPutObject J event of
                        None \<Rightarrow> ((data, False), texts) | Some rewritten \<Rightarrow> ((rewritten, True), texts)))))"

definition containsCitationMarkerStart :: "string \<Rightarrow> bool" where
  "containsCitationMarkerStart raw \<longleftrightarrow>
     goContains raw citationMarkerStart \<or> goContains raw (CHR 0x5C # ''ue200'') \<or> goContains raw (CHR 0x5C # ''uE200'')"

definition rewriteCitationSSEEvent ::
  "eventJson \<Rightarrow> (string list \<Rightarrow> string) \<Rightarrow> string \<Rightarrow> citationTexts \<Rightarrow> (string \<times> bool) \<times> citationTexts" where
  "rewriteCitationSSEEvent J links raw texts =
     (if \<not> containsCitationMarkerStart raw \<and> \<not> goContains raw ''response.output_text.'' then ((raw, False), texts)
      else rewriteResponsesSSEEventData (rewriteCitationEvent J links) raw texts)"

section \<open>A stream of events\<close>

text \<open>The text that an event of a type carries for an output text, as a client reads it.\<close>

definition objectText ::
  "eventJson \<Rightarrow> string \<Rightarrow> string \<Rightarrow> int \<times> int \<Rightarrow> string \<Rightarrow> (string, string) gomap \<Rightarrow> string option" where
  "objectText J eventType field key eventName event =
     (if citationEventType J event eventName = eventType \<and> citationEventTextKey J event = Some key
      then unmarshalRaw (ejString J) (rawField event field) else None)"

definition eventText :: "eventJson \<Rightarrow> string \<Rightarrow> string \<Rightarrow> int \<times> int \<Rightarrow> string \<times> string \<Rightarrow> string option" where
  "eventText J eventType field key ev =
     (case ev of (data, eventName) \<Rightarrow>
        if \<not> ejUnambiguous J data then None
        else case unmarshalRaw (ejObject J) data of
          None \<Rightarrow> None | Some event \<Rightarrow> objectText J eventType field key eventName event)"

abbreviation deltaText where "deltaText J \<equiv> eventText J ''response.output_text.delta'' ''delta''"
abbreviation doneText where "doneText J \<equiv> eventText J ''response.output_text.done'' ''text''"

text \<open>Two events that agree in these members, up to the layout of their JSON, carry the same text.\<close>

definition sameMember :: "eventJson \<Rightarrow> string option \<Rightarrow> string option \<Rightarrow> bool" where
  "sameMember J x y \<longleftrightarrow>
     (case (x, y) of
        (None, None) \<Rightarrow> True
      | (Some v, Some w) \<Rightarrow> unmarshalRaw (ejString J) v = unmarshalRaw (ejString J) w \<and>
          unmarshalRaw (ejInt J) v = unmarshalRaw (ejInt J) w
      | _ \<Rightarrow> False)"

lemma same_refl [simp]: "sameMember J x x"
  by (cases x) (simp_all add: sameMember_def)

lemma same_compact:
  assumes "jsonLaws fits compact J" "goodMembers fits J n m"
  shows "sameMember J (map_option compact (gm_get m f)) (gm_get m f)"
  using assms by (cases "gm_get m f")
    (auto simp: sameMember_def unmarshalRaw_def jsonLaws_def compactLaws_def goodMembers_def goodRaw_def)

lemma same_string: "sameMember J (gm_get m f) (gm_get m' f) \<Longrightarrow>
    unmarshalRaw (ejString J) (rawField m f) = unmarshalRaw (ejString J) (rawField m' f)"
  by (auto simp: sameMember_def rawField_def split: option.splits)

lemma object_text_cong:
  assumes "sameMember J (gm_get m ''type'') (gm_get m' ''type'')"
    and "sameMember J (gm_get m ''output_index'') (gm_get m' ''output_index'')"
    and "sameMember J (gm_get m ''content_index'') (gm_get m' ''content_index'')"
    and "sameMember J (gm_get m field) (gm_get m' field)"
  shows "objectText J eventType field key eventName m = objectText J eventType field key eventName m'"
proof -
  have i: "responsesEventOutputIndex J m = responsesEventOutputIndex J m'"
    using assms(2) by (auto simp: responsesEventOutputIndex_def sameMember_def split: option.splits)
  have k: "citationEventTextKey J m = citationEventTextKey J m'"
    using assms(3) i by (auto simp: citationEventTextKey_def sameMember_def split: option.splits)
  show ?thesis
    unfolding objectText_def citationEventType_def rawJSONString_def k same_string[OF assms(1)] same_string[OF assms(4)] ..
qed

lemma raw_field_step:
  assumes "rewriteRawField (name, f) (m, ch) = (m', ch')"
  shows "g \<noteq> name \<Longrightarrow> gm_get m' g = gm_get m g" "\<not> ch' \<Longrightarrow> \<not> ch \<and> m' = m"
  using assms by (auto simp: rewriteRawField_def update_conv' split: option.splits prod.splits if_splits)

lemma raw_fields:
  assumes "fold rewriteRawField [(''part'', f1), (''item'', f2), (''response'', f3)] (m, ch) = (m', ch')"
  shows "g \<notin> {''part'', ''item'', ''response''} \<Longrightarrow> gm_get m' g = gm_get m g" "\<not> ch' \<Longrightarrow> \<not> ch \<and> m' = m"
proof -
  obtain m1 c1 where s1: "rewriteRawField (''part'', f1) (m, ch) = (m1, c1)" by fastforce
  obtain m2 c2 where s2: "rewriteRawField (''item'', f2) (m1, c1) = (m2, c2)" by fastforce
  have s3: "rewriteRawField (''response'', f3) (m2, c2) = (m', ch')" using assms s1 s2 by simp
  note steps = raw_field_step[OF s1] raw_field_step[OF s2] raw_field_step[OF s3]
  show "g \<notin> {''part'', ''item'', ''response''} \<Longrightarrow> gm_get m' g = gm_get m g" using steps by simp
  show "\<not> ch' \<Longrightarrow> \<not> ch \<and> m' = m" using steps by blast
qed

text \<open>All rewritings keep what they are given good.\<close>

lemma citation_fields_valid:
  "utf8Valid ''start_index''" "utf8Valid ''end_index''" "utf8Valid ''annotations''" "utf8Valid ''annotation''"
  "utf8Valid ''text''" "utf8Valid ''delta''" "utf8Valid ''content''" "utf8Valid ''output''" "utf8Valid ''part''"
  "utf8Valid ''item''" "utf8Valid ''response''"
  by (simp_all add: utf8_ascii)

lemma each_good:
  assumes "keepsGood fits J n f" "list_all (goodRaw fits J n) xs" "rewriteEach f xs = (ys, ch)"
  shows "list_all (goodRaw fits J n) ys"
  using assms by (auto simp: rewriteEach_def keepsGood_def list_all_iff)

lemma offset_good:
  assumes "jsonLaws fits compact J" "utf8Valid name" "goodMembers fits J n m"
  shows "goodMembers fits J n (fst (remapOffsetField J edits (name, e) (m, ch)))"
  using assms good_put[OF assms(3,2) put_scalars(2)[OF assms(1)]]
  by (simp add: remapOffsetField_def Let_def split: option.splits)

lemma annotation_good:
  assumes "jsonLaws fits compact J" "0 < n" "n \<le> jsonMaxDepth"
  shows "keepsGood fits J n (remapCitationAnnotation J edits)"
proof (rule keepsGoodI)
  fix raw out
  assume g: "goodRaw fits J n raw" and r: "remapCitationAnnotation J edits raw = (out, True)"
  obtain k where n: "n = Suc k" "k < jsonMaxDepth" using level_Suc[OF assms(2,3)] by auto
  from r obtain m where m: "unmarshalRaw (ejObject J) raw = Some m"
    "ejPutObject J (fst (fold (remapOffsetField J edits) [(''start_index'', False), (''end_index'', True)] (m, False))) = Some out"
    by (auto simp: remapCitationAnnotation_def split: if_splits option.splits prod.splits)
  have "goodMembers fits J k m" using good_object[OF assms(1) _ m(1)] g n(1) by blast
  then have "goodMembers fits J k (fst (fold (remapOffsetField J edits) [(''start_index'', False), (''end_index'', True)] (m, False)))"
    using offset_good[OF assms(1)] citation_fields_valid(1,2) by (simp, metis prod.collapse)
  from put_object[OF assms(1) this n(2)] show "goodRaw fits J n out" using m(2) n(1) by auto
qed

lemma annotations_good:
  assumes "jsonLaws fits compact J" "1 < n" "n \<le> jsonMaxDepth"
  shows "keepsGood fits J n (remapCitationAnnotations J edits)"
proof (rule keepsGoodI)
  fix raw out
  assume g: "goodRaw fits J n raw" and r: "remapCitationAnnotations J edits raw = (out, True)"
  obtain k where n: "n = Suc k" "0 < k" "k < jsonMaxDepth" using level_Suc[OF assms(2,3)] by auto
  from r obtain xs where x: "unmarshalRaw (ejList J) raw = Some xs"
    "ejPutList J (fst (rewriteEach (remapCitationAnnotation J edits) xs)) = Some out"
    by (auto simp: remapCitationAnnotations_def split: if_splits option.splits prod.splits)
  have "list_all (goodRaw fits J k) xs" using good_list[OF assms(1) _ x(1)] g n(1) by blast
  from each_good[OF annotation_good[OF assms(1) n(2)] this] n(3)
  have "list_all (goodRaw fits J k) (fst (rewriteEach (remapCitationAnnotation J edits) xs))"
    by (metis less_imp_le prod.collapse)
  from put_list[OF assms(1) this n(3)] show "goodRaw fits J n out" using x(2) n(1) by auto
qed

lemma json_string_good:
  assumes "jsonLaws fits compact J" "utf8Valid field" "goodMembers fits J n m"
    and "rewriteCitationJSONString J links field m = (m', edits, ch)"
  shows "goodMembers fits J n m'"
  using assms(3,4) good_put[OF assms(3,2) put_scalars(1)[OF assms(1)]]
  by (auto simp: rewriteCitationJSONString_def split: option.splits prod.splits if_splits)

lemma part_good:
  assumes "jsonLaws fits compact J" "2 < n" "n \<le> jsonMaxDepth"
  shows "keepsGood fits J n (rewriteCitationOutputTextPart J links)"
proof (rule keepsGoodI)
  fix raw out
  assume g: "goodRaw fits J n raw" and r: "rewriteCitationOutputTextPart J links raw = (out, True)"
  obtain k where n: "n = Suc k" "1 < k" "k < jsonMaxDepth" using level_Suc[OF assms(2,3)] by auto
  from r obtain part part' edits ann ach where p: "unmarshalRaw (ejObject J) raw = Some part"
    "rewriteCitationJSONString J links ''text'' part = (part', edits, True)"
    "remapCitationAnnotations J edits (rawField part' ''annotations'') = (ann, ach)"
    "ejPutObject J (if ach then gm_put ''annotations'' ann part' else part') = Some out"
    by (auto simp: rewriteCitationOutputTextPart_def split: if_splits option.splits prod.splits)
  have "goodMembers fits J k part" using good_object[OF assms(1) _ p(1)] g n(1) by blast
  from json_string_good[OF assms(1) citation_fields_valid(5) this p(2)] have g': "goodMembers fits J k part'" .
  have "goodMembers fits J k (if ach then gm_put ''annotations'' ann part' else part')"
  proof (cases ach)
    case True
    have "rawField part' ''annotations'' \<noteq> ''''"
      using p(3) True by (auto simp: remapCitationAnnotations_def unmarshalRaw_def split: if_splits)
    from good_field[OF g' this] annotations_good[OF assms(1) n(2), of edits] p(3) True n(3)
    have "goodRaw fits J k ann" by (auto simp: keepsGood_def)
    then show ?thesis using good_put[OF g' citation_fields_valid(3)] True by simp
  qed (use g' in simp)
  from put_object[OF assms(1) this n(3)] show "goodRaw fits J n out" using p(4) n(1) by auto
qed

lemma list_field_good:
  assumes "jsonLaws fits compact J" "utf8Valid field" "keepsGood fits J n f" "Suc n < jsonMaxDepth"
    and "goodMembers fits J (Suc n) obj" "rewriteListField J field f raw obj = (out, True)"
  shows "goodRaw fits J (Suc (Suc n)) out"
proof -
  from assms(6) obtain xs where x: "unmarshalRaw (ejList J) (rawField obj field) = Some xs"
    "ejPutObject J (gm_put field (case ejPutList J (fst (rewriteEach f xs)) of Some r \<Rightarrow> r | None \<Rightarrow> '''') obj) = Some out"
    by (auto simp: rewriteListField_def Let_def split: if_splits option.splits prod.splits)
  from good_list[OF assms(1) good_field[OF assms(5) unmarshal_some[OF x(1)]] x(1)]
  have "list_all (goodRaw fits J n) (fst (rewriteEach f xs))" using each_good[OF assms(3)] by (metis prod.collapse)
  from put_list[OF assms(1) this] assms(4) obtain r where "ejPutList J (fst (rewriteEach f xs)) = Some r" "goodRaw fits J (Suc n) r"
    by auto
  then have "goodMembers fits J (Suc n) (gm_put field (case ejPutList J (fst (rewriteEach f xs)) of Some r \<Rightarrow> r | None \<Rightarrow> '''') obj)"
    using good_put[OF assms(5,2)] by simp
  from put_object[OF assms(1) this assms(4)] show ?thesis using x(2) by auto
qed

lemma message_good:
  assumes "jsonLaws fits compact J" "4 < n" "n \<le> jsonMaxDepth"
  shows "keepsGood fits J n (rewriteCitationMessageItem J links)"
proof (rule keepsGoodI)
  fix raw out
  assume g: "goodRaw fits J n raw" and r: "rewriteCitationMessageItem J links raw = (out, True)"
  obtain k where n: "n = Suc (Suc k)" "2 < k" "Suc k < jsonMaxDepth" using assms(2,3) by (intro that[of "n - 2"]) auto
  from r obtain item where i: "unmarshalRaw (ejObject J) raw = Some item"
    "rewriteListField J ''content'' (rewriteCitationOutputTextPart J links) raw item = (out, True)"
    by (auto simp: rewriteCitationMessageItem_def split: if_splits option.splits)
  have "goodMembers fits J (Suc k) item" using good_object[OF assms(1) _ i(1)] g n(1) by blast
  from list_field_good[OF assms(1) citation_fields_valid(7) part_good[OF assms(1) n(2)] n(3) this i(2)] n
  show "goodRaw fits J n out" by simp
qed

lemma response_good:
  assumes "jsonLaws fits compact J" "6 < n" "n \<le> jsonMaxDepth"
  shows "keepsGood fits J n (rewriteCitationResponseOutput J links)"
proof (rule keepsGoodI)
  fix raw out
  assume g: "goodRaw fits J n raw" and r: "rewriteCitationResponseOutput J links raw = (out, True)"
  obtain k where n: "n = Suc (Suc k)" "4 < k" "Suc k < jsonMaxDepth" using assms(2,3) by (intro that[of "n - 2"]) auto
  from r obtain response where i: "unmarshalRaw (ejObject J) raw = Some response"
    "rewriteListField J ''output'' (rewriteCitationMessageItem J links) raw response = (out, True)"
    by (auto simp: rewriteCitationResponseOutput_def split: option.splits)
  have "goodMembers fits J (Suc k) response" using good_object[OF assms(1) _ i(1)] g n(1) by blast
  from list_field_good[OF assms(1) citation_fields_valid(8) message_good[OF assms(1) n(2)] n(3) this i(2)] n
  show "goodRaw fits J n out" by simp
qed

lemma raw_field_good:
  assumes "goodMembers fits J n m" "utf8Valid name" "keepsGood fits J n f" "rewriteRawField (name, f) (m, ch) = (m', ch')"
  shows "goodMembers fits J n m'"
proof (cases "gm_get m name")
  case None
  then show ?thesis using assms(1,4) by (simp add: rewriteRawField_def)
next
  case (Some raw)
  obtain out c where f: "f raw = (out, c)" by fastforce
  have "goodRaw fits J n raw" using assms(1) Some by (simp add: goodMembers_def)
  then have "c \<Longrightarrow> goodRaw fits J n out" using assms(3) f unfolding keepsGood_def by (metis fst_conv snd_conv)
  then have "goodMembers fits J n (if c then gm_put name out m else m)" using assms(1) good_put[OF assms(1,2)] by simp
  moreover have "m' = (if c then gm_put name out m else m)"
    using assms(4) Some f by (cases c) (simp_all add: rewriteRawField_def)
  ultimately show ?thesis by (simp only:)
qed

lemma delta_good:
  assumes "jsonLaws fits compact J" "goodMembers fits J n event" "rewriteDelta J links event texts = ((ev, ch), texts')"
  shows "goodMembers fits J n ev"
  using assms(2,3) good_put[OF assms(2) citation_fields_valid(6) put_scalars(1)[OF assms(1)]]
  by (auto simp: rewriteDelta_def Let_def split: option.splits prod.splits if_splits)

lemma done_good:
  assumes "jsonLaws fits compact J" "goodMembers fits J n event" "rewriteDone J links event texts = ((ev, ch), texts')"
  shows "goodMembers fits J n ev"
  using json_string_good[OF assms(1) citation_fields_valid(5) assms(2)] assms(3)
  by (auto simp: rewriteDone_def split: prod.splits)

lemma streamed_annotation_good:
  assumes "jsonLaws fits compact J" "0 < n" "n \<le> jsonMaxDepth" "goodMembers fits J n event"
    and "remapStreamedAnnotation J event texts = ((ev, ch), texts')"
  shows "goodMembers fits J n ev"
proof -
  have "goodRaw fits J n ann" if "remapCitationAnnotation J edits (rawField event ''annotation'') = (ann, True)" for edits ann
  proof -
    have "rawField event ''annotation'' \<noteq> ''''"
      using that by (auto simp: remapCitationAnnotation_def unmarshalRaw_def split: if_splits)
    from good_field[OF assms(4) this] annotation_good[OF assms(1-3), of edits] that show ?thesis by (auto simp: keepsGood_def)
  qed
  then show ?thesis
    using assms(4,5) good_put[OF assms(4) citation_fields_valid(4)]
    by (auto simp: remapStreamedAnnotation_def Let_def split: option.splits prod.splits if_splits)
qed

text \<open>The event that leaves carries the texts that its own rewriting gives.\<close>

abbreviation eventStep ::
  "eventJson \<Rightarrow> (string list \<Rightarrow> string) \<Rightarrow> (string, string) gomap \<Rightarrow> string \<Rightarrow> citationTexts \<Rightarrow>
     ((string, string) gomap \<times> bool) \<times> citationTexts" where
  "eventStep J links event eventType texts \<equiv>
     (if eventType = ''response.output_text.delta'' then rewriteDelta J links event texts
      else if eventType = ''response.output_text.done'' then rewriteDone J links event texts
      else if eventType = ''response.output_text.annotation.added'' then remapStreamedAnnotation J event texts
      else ((event, False), texts))"

lemma step_good:
  assumes "jsonLaws fits compact J" "0 < n" "n \<le> jsonMaxDepth" "goodMembers fits J n event"
    and "eventStep J links event eventType texts = ((ev, ch), texts')"
  shows "goodMembers fits J n ev"
proof -
  consider (delta) "rewriteDelta J links event texts = ((ev, ch), texts')"
    | (ended) "rewriteDone J links event texts = ((ev, ch), texts')"
    | (annotation) "remapStreamedAnnotation J event texts = ((ev, ch), texts')"
    | (other) "ev = event"
    using assms(5) by (metis prod.inject)
  then show ?thesis
    by cases (use assms(4) delta_good[OF assms(1,4)] done_good[OF assms(1,4)] streamed_annotation_good[OF assms(1-4)] in blast)+
qed

lemma event_leaves:
  assumes "jsonLaws fits compact J" "ejUnambiguous J data" "unmarshalRaw (ejObject J) data = Some event"
    and "rewriteCitationEvent J links data eventName texts = ((out, changed), texts')"
    and "eventStep J links event (citationEventType J event eventName) texts = ((ev, ch), texts1)"
    and "\<not> ch \<Longrightarrow> ev = event"
  shows "texts' = texts1 \<and> ejUnambiguous J out \<and>
    (\<exists>m. unmarshalRaw (ejObject J) out = Some m \<and>
       (\<forall>f. f \<notin> {''part'', ''item'', ''response''} \<longrightarrow> sameMember J (gm_get m f) (gm_get ev f)))"
proof -
  let ?n = "jsonMaxDepth - 1"
  have n: "Suc ?n = jsonMaxDepth" "0 < ?n" "2 < ?n" "4 < ?n" "6 < ?n" "?n \<le> jsonMaxDepth" "?n < jsonMaxDepth"
    by (simp_all add: jsonMaxDepth_def)
  have "goodMembers fits J ?n event" using good_object[OF assms(1) _ assms(3), of ?n] good_data[OF assms(1,2)] n(1) by simp
  from step_good[OF assms(1) n(2,6) this assms(5)] have g: "goodMembers fits J ?n ev" .
  obtain m1 c1 where r1: "rewriteRawField (''part'', rewriteCitationOutputTextPart J links) (ev, ch) = (m1, c1)" by fastforce
  obtain m3 c3 where r3: "rewriteRawField (''item'', rewriteCitationMessageItem J links) (m1, c1) = (m3, c3)" by fastforce
  obtain m2 c2 where r2: "rewriteRawField (''response'', rewriteCitationResponseOutput J links) (m3, c3) = (m2, c2)" by fastforce
  have r: "fold rewriteRawField [(''part'', rewriteCitationOutputTextPart J links),
      (''item'', rewriteCitationMessageItem J links), (''response'', rewriteCitationResponseOutput J links)] (ev, ch) = (m2, c2)"
    by (simp add: r1 r2 r3)
  have g2: "goodMembers fits J ?n m2"
    using raw_field_good[OF raw_field_good[OF raw_field_good[OF g citation_fields_valid(9) part_good[OF assms(1) n(3,6)] r1]
      citation_fields_valid(10) message_good[OF assms(1) n(4,6)] r3] citation_fields_valid(11) response_good[OF assms(1) n(5,6)] r2] .
  obtain w m where w: "ejPutObject J m2 = Some w" "w \<noteq> ''''" "goodRaw fits J (Suc ?n) w" "ejObject J w = Some m"
    "\<And>k. gm_get m k = map_option compact (gm_get m2 k)"
    using put_object[OF assms(1) g2 n(7)] by metis
  have e: "((out, changed), texts') = (if c2 then ((w, True), texts1) else ((data, False), texts1))"
    using assms(4) unfolding rewriteCitationEvent_def Let_def
    by (simp only: assms(2,3,5) r w(1) option.case prod.case if_True if_False simp_thms not_True_eq_False) (cases c2; simp)
  show ?thesis
  proof (cases c2)
    case True
    have "sameMember J (gm_get m f) (gm_get ev f)" if "f \<notin> {''part'', ''item'', ''response''}" for f
      using same_compact[OF assms(1) g2, of f] raw_fields(1)[OF r that] by (simp add: w(5))
    then show ?thesis using True e w(2-4) by (auto simp: unmarshalRaw_def goodRaw_def)
  next
    case False
    then show ?thesis using e assms(2,3,6) raw_fields(2)[OF r] by auto
  qed
qed

lemma object_text_put:
  assumes "field \<notin> {''type'', ''output_index'', ''content_index''}"
  shows "objectText J eventType field key name (gm_put field raw event) =
    (if citationEventType J event name = eventType \<and> citationEventTextKey J event = Some key
     then unmarshalRaw (ejString J) raw else None)"
proof -
  have e: "gm_get (gm_put field raw event) ''type'' = gm_get event ''type''"
    "gm_get (gm_put field raw event) ''output_index'' = gm_get event ''output_index''"
    "gm_get (gm_put field raw event) ''content_index'' = gm_get event ''content_index''"
    using assms by (auto simp: update_conv')
  have f: "gm_get (gm_put field raw event) field = Some raw" by (simp add: update_conv')
  show ?thesis
    unfolding objectText_def citationEventType_def citationEventTextKey_def responsesEventOutputIndex_def rawField_def e f option.case ..
qed

lemma put_state: "textStateAt (gm_put k st texts) key = (if key = k then st else textStateAt texts key)"
  by (simp add: textStateAt_def update_conv')

lemma delta_out_valid:
  assumes "\<And>refs. utf8Valid (links refs)" "utf8Valid (ctHeld st)" "utf8Valid delta"
  shows "utf8Valid (fst (citationDelta links delta st))"
proof -
  obtain out held edits where r: "citationLoop links False 0 (ctHeld st @ delta) = (out, held, edits)" by (metis prod_cases3)
  from loop_out_valid[OF assms(1) utf8_append[OF assms(2,3)] r] show ?thesis
    by (simp add: citationDelta_def Let_def rewrite_is_loop r)
qed

lemma rewrite_delta:
  assumes "jsonLaws fits compact J" "\<And>refs. utf8Valid (links refs)" "rewriteDelta J links event texts = ((ev, ch), texts')"
    and "citationEventType J event name = ''response.output_text.delta''"
  shows "\<not> ch \<Longrightarrow> ev = event"
    and "f \<noteq> ''delta'' \<Longrightarrow> gm_get ev f = gm_get event f"
    and "objectText J ''response.output_text.delta'' ''delta'' key name event = Some delta \<Longrightarrow> utf8Valid delta \<Longrightarrow>
      utf8Valid (ctHeld (textStateAt texts key)) \<Longrightarrow>
      objectText J ''response.output_text.delta'' ''delta'' key name ev = Some (fst (citationDelta links delta (textStateAt texts key))) \<and>
      textStateAt texts' key = snd (citationDelta links delta (textStateAt texts key))"
    and "objectText J ''response.output_text.delta'' ''delta'' key name event = None \<Longrightarrow>
      objectText J ''response.output_text.delta'' ''delta'' key name ev = None \<and> textStateAt texts' key = textStateAt texts key"
proof -
  show "\<not> ch \<Longrightarrow> ev = event" "f \<noteq> ''delta'' \<Longrightarrow> gm_get ev f = gm_get event f"
    using assms(3) by (auto simp: rewriteDelta_def Let_def update_conv' split: option.splits prod.splits if_splits)
next
  assume o: "objectText J ''response.output_text.delta'' ''delta'' key name event = Some delta" and v: "utf8Valid delta"
    "utf8Valid (ctHeld (textStateAt texts key))"
  then have k: "citationEventTextKey J event = Some key" "unmarshalRaw (ejString J) (rawField event ''delta'') = Some delta"
    by (auto simp: objectText_def split: if_splits)
  obtain out st where d: "citationDelta links delta (textStateAt texts key) = (out, st)" by fastforce
  have "utf8Valid out" using delta_out_valid[of links, OF assms(2) v(2,1)] d by simp
  then have e: "unmarshalRaw (ejString J) (ejPutString J out) = Some out"
    by (rule put_scalars(3)[OF assms(1)])
  show "objectText J ''response.output_text.delta'' ''delta'' key name ev = Some (fst (citationDelta links delta (textStateAt texts key))) \<and>
      textStateAt texts' key = snd (citationDelta links delta (textStateAt texts key))"
    using assms(3,4) o by (auto simp: rewriteDelta_def Let_def k d e object_text_put put_state split: if_splits)
next
  assume o: "objectText J ''response.output_text.delta'' ''delta'' key name event = None"
  show "objectText J ''response.output_text.delta'' ''delta'' key name ev = None \<and> textStateAt texts' key = textStateAt texts key"
  proof (cases "citationEventTextKey J event = Some key")
    case True
    then have "unmarshalRaw (ejString J) (rawField event ''delta'') = None" using o assms(4) by (simp add: objectText_def)
    then show ?thesis using assms(3) o True by (auto simp: rewriteDelta_def Let_def put_state)
  next
    case False
    then show ?thesis using assms(3) o
      by (auto simp: rewriteDelta_def Let_def put_state object_text_put split: option.splits prod.splits if_splits)
  qed
qed

text \<open>An event that finishes an output text.\<close>

definition finishesText :: "eventJson \<Rightarrow> int \<times> int \<Rightarrow> string \<times> string \<Rightarrow> bool" where
  "finishesText J key ev \<longleftrightarrow>
     (case ev of (data, eventName) \<Rightarrow> ejUnambiguous J data \<and>
        (case unmarshalRaw (ejObject J) data of
           None \<Rightarrow> False
         | Some event \<Rightarrow> citationEventType J event eventName = ''response.output_text.done'' \<and>
             citationEventTextKey J event = Some key))"

lemma type_cong: "gm_get m ''type'' = gm_get m' ''type'' \<Longrightarrow> citationEventType J m name = citationEventType J m' name"
  by (simp add: citationEventType_def rawField_def)

lemma json_string_fields:
  assumes "rewriteCitationJSONString J links field obj = (obj', edits, ch)"
  shows "\<not> ch \<Longrightarrow> obj' = obj" "f \<noteq> field \<Longrightarrow> gm_get obj' f = gm_get obj f"
  using assms by (auto simp: rewriteCitationJSONString_def update_conv' split: option.splits prod.splits if_splits)

lemma done_fields:
  assumes "rewriteDone J links event texts = ((ev, ch), texts')"
  shows "\<not> ch \<Longrightarrow> ev = event" "f \<noteq> ''text'' \<Longrightarrow> gm_get ev f = gm_get event f"
    "citationEventTextKey J event \<noteq> Some key \<Longrightarrow> textStateAt texts' key = textStateAt texts key"
  using assms json_string_fields[of J links "''text''" event]
  by (auto simp: rewriteDone_def put_state split: option.splits prod.splits)

lemma annotation_fields:
  assumes "remapStreamedAnnotation J event texts = ((ev, ch), texts')"
  shows "\<not> ch \<Longrightarrow> ev = event" "f \<noteq> ''annotation'' \<Longrightarrow> gm_get ev f = gm_get event f"
    "textStateAt texts' key = textStateAt texts key"
  using assms by (auto simp: remapStreamedAnnotation_def Let_def put_state update_conv' split: option.splits prod.splits if_splits)

lemma one_event:
  assumes "jsonLaws fits compact J" "\<And>refs. utf8Valid (links refs)" "\<not> finishesText J key (data, name)"
    and "rewriteCitationEvent J links data name texts = ((out, changed), texts')"
    and "utf8Valid (ctHeld (textStateAt texts key))"
  shows "deltaText J key (data, name) = Some delta \<Longrightarrow> utf8Valid delta \<Longrightarrow>
      deltaText J key (out, name) = Some (fst (citationDelta links delta (textStateAt texts key))) \<and>
      textStateAt texts' key = snd (citationDelta links delta (textStateAt texts key))"
    and "deltaText J key (data, name) = None \<Longrightarrow>
      deltaText J key (out, name) = None \<and> textStateAt texts' key = textStateAt texts key"
proof -
  let ?delta = "\<lambda>m. objectText J ''response.output_text.delta'' ''delta'' key name m"
  let ?P = "(deltaText J key (data, name) = Some delta \<longrightarrow> utf8Valid delta \<longrightarrow>
      deltaText J key (out, name) = Some (fst (citationDelta links delta (textStateAt texts key))) \<and>
      textStateAt texts' key = snd (citationDelta links delta (textStateAt texts key))) \<and>
    (deltaText J key (data, name) = None \<longrightarrow>
      deltaText J key (out, name) = None \<and> textStateAt texts' key = textStateAt texts key)"
  have ?P
  proof (cases "ejUnambiguous J data \<and> unmarshalRaw (ejObject J) data \<noteq> None")
    case False
    then have "out = data" "texts' = texts" using assms(4) unfolding rewriteCitationEvent_def
      by (cases "ejUnambiguous J data"; cases "unmarshalRaw (ejObject J) data"; simp)+
    then show ?thesis using False by (auto simp: eventText_def)
  next
    case True
    then obtain event where u: "ejUnambiguous J data" and o: "unmarshalRaw (ejObject J) data = Some event" by auto
    have din: "deltaText J key (data, name) = ?delta event" using u o by (simp add: eventText_def)
    let ?t = "citationEventType J event name"
    obtain ev ch texts1 where d: "(if ?t = ''response.output_text.delta'' then rewriteDelta J links event texts
          else if ?t = ''response.output_text.done'' then rewriteDone J links event texts
          else if ?t = ''response.output_text.annotation.added''
          then remapStreamedAnnotation J event texts else ((event, False), texts)) = ((ev, ch), texts1)" by (metis surj_pair)
    have f: "(\<not> ch \<longrightarrow> ev = event) \<and> (\<forall>f. f \<notin> {''delta'', ''text'', ''annotation''} \<longrightarrow> gm_get ev f = gm_get event f)"
    proof (cases "?t = ''response.output_text.delta''")
      case True
      then have r: "rewriteDelta J links event texts = ((ev, ch), texts1)" using d by simp
      from rewrite_delta(1,2)[OF assms(1) _ r True] assms(2) show ?thesis by auto
    next
      case nd: False
      show ?thesis
      proof (cases "?t = ''response.output_text.done''")
        case True
        then have r: "rewriteDone J links event texts = ((ev, ch), texts1)" using d nd by simp
        from done_fields(1,2)[OF r] show ?thesis by auto
      next
        case False
        show ?thesis
        proof (cases "?t = ''response.output_text.annotation.added''")
          case True
          then have r: "remapStreamedAnnotation J event texts = ((ev, ch), texts1)" using d nd False by simp
          from annotation_fields(1,2)[OF r] show ?thesis by auto
        qed (use d nd False in auto)
      qed
    qed
    from event_leaves[OF assms(1) u o assms(4) d] f obtain m where t: "texts' = texts1"
      and m: "ejUnambiguous J out" "unmarshalRaw (ejObject J) out = Some m"
        "\<forall>f. f \<notin> {''part'', ''item'', ''response''} \<longrightarrow> sameMember J (gm_get m f) (gm_get ev f)" by blast
    have "deltaText J key (out, name) = ?delta m" using m by (simp add: eventText_def)
    also have "\<dots> = ?delta ev" by (rule object_text_cong) (simp_all add: m(3))
    finally have dout: "deltaText J key (out, name) = ?delta ev" .
    show ?thesis
    proof (cases "?t = ''response.output_text.delta''")
      case True
      then have r: "rewriteDelta J links event texts = ((ev, ch), texts1)" using d by simp
      from rewrite_delta(3,4)[OF assms(1) _ r True] assms(2,5) show ?thesis unfolding din dout t by simp
    next
      case False
      have "citationEventType J ev name = ?t" by (rule type_cong) (simp add: f)
      then have n: "?delta event = None" "?delta ev = None" using False by (simp_all add: objectText_def)
      have "textStateAt texts1 key = textStateAt texts key"
      proof (cases "?t = ''response.output_text.done''")
        case True
        then have r: "rewriteDone J links event texts = ((ev, ch), texts1)" using d False by simp
        have "citationEventTextKey J event \<noteq> Some key" using assms(3) u o True by (simp add: finishesText_def)
        from done_fields(3)[OF r this] show ?thesis .
      next
        case nf: False
        show ?thesis
        proof (cases "?t = ''response.output_text.annotation.added''")
          case True
          then have r: "remapStreamedAnnotation J event texts = ((ev, ch), texts1)" using d nf False by simp
          from annotation_fields(3)[OF r] show ?thesis .
        qed (use d nf False in auto)
      qed
      then show ?thesis unfolding din dout t by (simp add: n)
    qed
  qed
  then show "deltaText J key (data, name) = Some delta \<Longrightarrow> utf8Valid delta \<Longrightarrow>
      deltaText J key (out, name) = Some (fst (citationDelta links delta (textStateAt texts key))) \<and>
      textStateAt texts' key = snd (citationDelta links delta (textStateAt texts key))"
    and "deltaText J key (data, name) = None \<Longrightarrow>
      deltaText J key (out, name) = None \<and> textStateAt texts' key = textStateAt texts key" by simp_all
qed

text \<open>A stream of events through the rewriter: each is data and the name of its event.\<close>

fun citationRun ::
  "eventJson \<Rightarrow> (string list \<Rightarrow> string) \<Rightarrow> (string \<times> string) list \<Rightarrow> citationTexts \<Rightarrow> (string \<times> string) list \<times> citationTexts" where
  "citationRun J links [] texts = ([], texts)"
| "citationRun J links ((data, name) # evs) texts =
     (case rewriteCitationEvent J links data name texts of ((out, _), texts') \<Rightarrow>
      case citationRun J links evs texts' of (outs, texts'') \<Rightarrow> ((out, name) # outs, texts''))"

lemma state_held_valid: "citationStateOf links s out state \<Longrightarrow> utf8Valid (ctHeld state)"
  using loop_append[of s links 0 out "ctHeld state" "ctEdits state" False "''''"] by (simp add: citationStateOf_def)

lemma run_state:
  assumes "jsonLaws fits compact J" "\<And>refs. utf8Valid (links refs)"
  shows "\<forall>ev \<in> set evs. \<not> finishesText J key ev \<Longrightarrow> list_all utf8Valid (List.map_filter (deltaText J key) evs) \<Longrightarrow>
    citationRun J links evs texts = (outs, texts') \<Longrightarrow> citationStateOf links s out (textStateAt texts key) \<Longrightarrow>
    citationStateOf links (s @ concat (List.map_filter (deltaText J key) evs))
      (out @ concat (List.map_filter (deltaText J key) outs)) (textStateAt texts' key)"
proof (induction evs arbitrary: s out texts outs)
  case Nil
  then show ?case by (simp add: map_filter_simps)
next
  case (Cons ev evs)
  obtain data name where ev: "ev = (data, name)" by fastforce
  obtain o1 c1 t1 where r: "rewriteCitationEvent J links data name texts = ((o1, c1), t1)" by (metis surj_pair)
  obtain os where rs: "citationRun J links evs t1 = (os, texts')" "outs = (o1, name) # os"
    using Cons.prems(3) by (auto simp: ev r split: prod.splits)
  have nf: "\<not> finishesText J key (data, name)" and v: "list_all utf8Valid (List.map_filter (deltaText J key) evs)"
    using Cons.prems(1,2) by (auto simp: ev map_filter_simps split: option.splits)
  note one = one_event[where links = links, OF assms(1) assms(2) nf r state_held_valid[OF Cons.prems(4)]]
  show ?case
  proof (cases "deltaText J key (data, name)")
    case None
    from one(2)[OF None] have n: "deltaText J key (o1, name) = None" "textStateAt t1 key = textStateAt texts key" by simp_all
    from Cons.IH[OF _ v rs(1), of s out] Cons.prems(1,4) show ?thesis
      by (simp add: ev rs(2) map_filter_simps None n)
  next
    case (Some delta)
    then have vd: "utf8Valid delta" using Cons.prems(2) by (simp add: ev map_filter_simps)
    obtain out1 st1 where d: "citationDelta links delta (textStateAt texts key) = (out1, st1)" by fastforce
    from one(1)[OF Some vd] have n: "deltaText J key (o1, name) = Some out1" "textStateAt t1 key = st1" by (simp_all add: d)
    from delta_state[OF Cons.prems(4) vd d] have "citationStateOf links (s @ delta) (out @ out1) (textStateAt t1 key)"
      by (simp add: n)
    from Cons.IH[OF _ v rs(1) this] Cons.prems(1) show ?thesis
      by (simp add: ev rs(2) map_filter_simps Some n)
  qed
qed

lemma done_event:
  assumes "jsonLaws fits compact J" "\<And>refs. utf8Valid (links refs)"
    and "doneText J key (data, name) = Some s" "utf8Valid s"
    and "rewriteCitationEvent J links data name texts = ((out, changed), texts')"
  shows "doneText J key (out, name) = Some (fst (rewriteCitationMarkers links s True))"
proof -
  let ?done = "\<lambda>m. objectText J ''response.output_text.done'' ''text'' key name m"
  from assms(3) obtain event where u: "ejUnambiguous J data" and o: "unmarshalRaw (ejObject J) data = Some event"
    and e: "?done event = Some s" by (auto simp: eventText_def split: if_splits option.splits)
  then have t: "citationEventType J event name = ''response.output_text.done''" "citationEventTextKey J event = Some key"
    "unmarshalRaw (ejString J) (rawField event ''text'') = Some s" by (auto simp: objectText_def split: if_splits)
  obtain ev ch texts1 where r: "rewriteDone J links event texts = ((ev, ch), texts1)" by (metis surj_pair)
  obtain res held edits where w: "rewriteCitationMarkers links s True = (res, held, edits)" by (metis prod_cases3)
  have v: "utf8Valid res" using loop_out_valid[OF assms(2,4)] w by (simp add: rewrite_is_loop)
  have s: "unmarshalRaw (ejString J) (ejPutString J res) = Some res"
    using put_scalars(3)[OF assms(1) v] .
  have "?done ev = Some res"
    using r e t s by (auto simp: rewriteDone_def rewriteCitationJSONString_def w object_text_put split: if_splits)
  moreover from event_leaves[OF assms(1) u o assms(5), of ev ch texts1] r t(1) done_fields(1)[OF r]
  obtain m where m: "ejUnambiguous J out" "unmarshalRaw (ejObject J) out = Some m"
    "\<forall>f. f \<notin> {''part'', ''item'', ''response''} \<longrightarrow> sameMember J (gm_get m f) (gm_get ev f)" by auto
  moreover have "?done m = ?done ev" by (rule object_text_cong) (simp_all add: m(3))
  ultimately show ?thesis by (simp add: eventText_def w)
qed

text \<open>C19. What a client shows while it streams is what the final text says. Whatever other events are in
  between, when an output text ends with an event that repeats the text of its deltas, the rewritten
  deltas put together are the text of the rewritten final event.\<close>

theorem streamed_text_is_final_text:
  assumes "jsonLaws fits compact J" "\<And>refs. utf8Valid (links refs)" "\<forall>ev \<in> set evs. \<not> finishesText J key ev"
    and "list_all utf8Valid (List.map_filter (deltaText J key) evs)"
    and "citationRun J links evs [] = (outs, texts)"
    and "doneText J key (data, name) = Some (concat (List.map_filter (deltaText J key) evs))"
  shows "doneText J key (fst (fst (rewriteCitationEvent J links data name texts)), name) =
    Some (concat (List.map_filter (deltaText J key) outs))"
proof -
  have "goIndex '''' citationMarkerStart = None" by code_simp
  then have "citationStateOf links '''' '''' (textStateAt [] key)"
    by (simp add: citationStateOf_def textStateAt_def citationTextStart_def loop_none)
  from run_state[where links = links, OF assms(1,2,3,4,5) this] have st:
    "citationStateOf links (concat (List.map_filter (deltaText J key) evs))
      (concat (List.map_filter (deltaText J key) outs)) (textStateAt texts key)" by simp
  then have v: "utf8Valid (concat (List.map_filter (deltaText J key) evs))" and
    l: "citationLoop links False 0 (concat (List.map_filter (deltaText J key) evs)) =
      (concat (List.map_filter (deltaText J key) outs), ctHeld (textStateAt texts key), ctEdits (textStateAt texts key))"
    by (simp_all add: citationStateOf_def)
  obtain out changed texts' where r: "rewriteCitationEvent J links data name texts = ((out, changed), texts')" by (metis surj_pair)
  from done_event[where links = links, OF assms(1,2,6) v r] loop_final[OF v l] show ?thesis
    by (simp add: r rewrite_is_loop)
qed

definition exTextEvent :: "string \<Rightarrow> string \<Rightarrow> string \<Rightarrow> string \<times> string" where
  "exTextEvent eventType field s =
     (exEncMap [(''type'', CHR ''q'' # eventType), (''output_index'', ''0''), (field, CHR ''q'' # s)], '''')"

definition exCitationStream :: "(string \<times> string) list" where
  "exCitationStream = map (exTextEvent ''response.output_text.delta'' ''delta'') exMarkerDeltas"

lemma streamed_text_is_final_text_witness:
  "\<exists>out. doneText exEventJson (0, 0) (out, '''') = Some ''ar1b'' \<and>
     List.map_filter (deltaText exEventJson (0, 0))
       (fst (citationRun exEventJson (\<lambda>refs. if refs = [''r1''] then ''r1'' else '''') exCitationStream [])) = [''a'', ''r1b'']"
proof -
  let ?J = exEventJson and ?links = "\<lambda>refs. if refs = [''r1''] then ''r1'' else ''''"
  let ?done = "exTextEvent ''response.output_text.done'' ''text'' (concat exMarkerDeltas)"
  have l: "utf8Valid (?links refs)" for refs by (cases "refs = [''r1'']") (simp_all add: utf8_ascii)
  have nf: "\<forall>ev \<in> set exCitationStream. \<not> finishesText ?J (0, 0) ev" by code_simp
  have d: "List.map_filter (deltaText ?J (0, 0)) exCitationStream = exMarkerDeltas" by code_simp
  have v: "list_all utf8Valid exMarkerDeltas" by code_simp
  have dn: "doneText ?J (0, 0) ?done = Some (concat exMarkerDeltas)" by code_simp
  have o: "List.map_filter (deltaText ?J (0, 0)) (fst (citationRun ?J ?links exCitationStream [])) = [''a'', ''r1b'']" by code_simp
  obtain outs texts where r: "citationRun ?J ?links exCitationStream [] = (outs, texts)" by fastforce
  obtain data name where n: "?done = (data, name)" "name = ''''" by (simp add: exTextEvent_def)
  from streamed_text_is_final_text[where links = ?links, OF ex_laws l nf _ r, unfolded d, OF v dn[unfolded n(1)]] o r n(2)
  show ?thesis by auto
qed

end
