(* ===== verification/Responses_Copy.thy ===== *)
theory Responses_Copy
  imports Responses_Rewrite
begin

text \<open>
  The two ways a Responses stream is passed on event by event: the body that rewrites events in place
  (\<open>responsesSSERewriteBody\<close> of \<open>responses_item_id_normalization.go\<close>) and the copy of an explicit route,
  which shows every event to a hook before the client can see it (\<open>copyNormalizedResponsesSSE\<close> of
  \<open>response_model_normalization.go\<close>).
\<close>

section \<open>Rewriting in place\<close>

type_synonym 's rewriteEvent = "string \<Rightarrow> 's \<Rightarrow> (string \<times> bool) \<times> 's"

record 's rewriteBody =
  rbRest :: string
  rbRawEvent :: bool
  rbPassthrough :: bool
  rbState :: 's

definition rewriteBodyStart :: "string \<Rightarrow> 's \<Rightarrow> 's rewriteBody" where
  "rewriteBodyStart body s = \<lparr>rbRest = body, rbRawEvent = False, rbPassthrough = False, rbState = s\<rparr>"

definition eventOrRewritten :: "'s rewriteEvent \<Rightarrow> string \<Rightarrow> 's rewriteBody \<Rightarrow> string \<times> 's rewriteBody" where
  "eventOrRewritten rw event b =
     (case rw event (rbState b) of ((rewritten, changed), s) \<Rightarrow>
        (if changed then rewritten else event, b\<lparr>rbState := s\<rparr>))"

text \<open>A line that is too long ends the rewriting: what follows is passed on as it is.\<close>

definition tooLongPasses :: "readError option \<Rightarrow> 's rewriteBody \<Rightarrow> readError option \<times> 's rewriteBody" where
  "tooLongPasses err b =
     (if err = Some errOpenAISSELineTooLong then (None, b\<lparr>rbPassthrough := True\<rparr>) else (err, b))"

function readNextEvent ::
  "'s rewriteEvent \<Rightarrow> streamEnd \<Rightarrow> string \<Rightarrow> 's rewriteBody \<Rightarrow> (string \<times> readError option) \<times> 's rewriteBody" where
  "readNextEvent rw fin event b =
     (case readOpenAISSELine fin (rbRest b) of
        ((line, err), rest) \<Rightarrow>
          let b = b\<lparr>rbRest := rest\<rparr>; event = event @ line; boundary = (trimLine line = '''') in
          if line \<noteq> '''' \<and> openAIStreamScannerMaxBuffer < length event
          then (case tooLongPasses err (b\<lparr>rbRawEvent := \<not> boundary\<rparr>) of (err, b) \<Rightarrow> ((event, err), b))
          else if line \<noteq> '''' \<and> boundary
          then (case eventOrRewritten rw event b of (out, b) \<Rightarrow> ((out, err), b))
          else (case err of
              None \<Rightarrow> readNextEvent rw fin event b
            | Some (readEnd ioEOF) \<Rightarrow>
                if event = '''' then (('''', Some (readEnd ioEOF)), b)
                else (case eventOrRewritten rw event b of (out, b) \<Rightarrow> ((out, Some (readEnd ioEOF)), b))
            | Some errOpenAISSELineTooLong \<Rightarrow> ((event, None), b\<lparr>rbPassthrough := True\<rparr>)
            | Some e \<Rightarrow> ((event, Some e), b)))"
  by pat_completeness auto
termination
  by (relation "measure (\<lambda>(rw, fin, event, b). length (rbRest b))") (auto dest!: read_line_ok(4)[OF sym])

declare readNextEvent.simps [simp del]

definition readNext :: "'s rewriteEvent \<Rightarrow> streamEnd \<Rightarrow> 's rewriteBody \<Rightarrow> (string \<times> readError option) \<times> 's rewriteBody" where
  "readNext rw fin b =
     (if rbRawEvent b
      then (case readOpenAISSELine fin (rbRest b) of
          ((line, err), rest) \<Rightarrow>
            (case tooLongPasses err (b\<lparr>rbRest := rest, rbRawEvent := trimLine line \<noteq> ''''\<rparr>) of
               (err, b) \<Rightarrow> ((line, err), b)))
      else readNextEvent rw fin '''' b)"

lemma next_step:
  assumes "readOpenAISSELine fin (rbRest b) = ((line, err), rest)"
  shows "readNextEvent rw fin event b =
    (if line \<noteq> '''' \<and> openAIStreamScannerMaxBuffer < length (event @ line)
     then (case tooLongPasses err (b\<lparr>rbRest := rest, rbRawEvent := trimLine line \<noteq> ''''\<rparr>) of (err, b) \<Rightarrow> ((event @ line, err), b))
     else if line \<noteq> '''' \<and> trimLine line = ''''
     then (case eventOrRewritten rw (event @ line) (b\<lparr>rbRest := rest\<rparr>) of (out, b) \<Rightarrow> ((out, err), b))
     else (case err of
         None \<Rightarrow> readNextEvent rw fin (event @ line) (b\<lparr>rbRest := rest\<rparr>)
       | Some (readEnd ioEOF) \<Rightarrow>
           if event @ line = '''' then (('''', Some (readEnd ioEOF)), b\<lparr>rbRest := rest\<rparr>)
           else (case eventOrRewritten rw (event @ line) (b\<lparr>rbRest := rest\<rparr>) of (out, b) \<Rightarrow> ((out, Some (readEnd ioEOF)), b))
       | Some errOpenAISSELineTooLong \<Rightarrow> ((event @ line, None), b\<lparr>rbRest := rest, rbPassthrough := True\<rparr>)
       | Some e \<Rightarrow> ((event @ line, Some e), b\<lparr>rbRest := rest\<rparr>)))"
  by (subst readNextEvent.simps) (simp add: assms Let_def)

text \<open>What one read passes on: bytes of the source as they are, or an event as the callback rewrote it.\<close>

definition passedOn :: "'s rewriteEvent \<Rightarrow> string \<Rightarrow> string \<Rightarrow> bool" where
  "passedOn rw src out \<longleftrightarrow> out = src \<or> (\<exists>s s'. rw src s = ((out, True), s'))"

lemma passed_event: "eventOrRewritten rw event b = (out, b') \<Longrightarrow> passedOn rw event out \<and> rbRest b' = rbRest b \<and>
    rbPassthrough b' = rbPassthrough b \<and> rbRawEvent b' = rbRawEvent b"
  by (auto simp: eventOrRewritten_def passedOn_def split: prod.splits if_splits)

definition readOk :: "streamEnd \<Rightarrow> 's rewriteBody \<Rightarrow> readError option \<Rightarrow> 's rewriteBody \<Rightarrow> bool" where
  "readOk fin b err b' \<longleftrightarrow>
     (case err of
        None \<Rightarrow> rbPassthrough b' \<or> length (rbRest b') < length (rbRest b)
      | Some e \<Rightarrow> e = readEnd fin \<and> rbRest b' = '''')"

lemma read_line_cases:
  assumes "readOpenAISSELine fin s = ((line, err), rest)"
  obtains (line) "err = None" "length rest < length s" "line \<noteq> ''''"
    | (ended) "err = Some (readEnd fin)" "rest = ''''" "line = s"
    | (long) "err = Some errOpenAISSELineTooLong" "openAIStreamScannerMaxBuffer < length line"
proof (cases "lineEnd s \<le> openAIStreamScannerMaxBuffer")
  case True
  show ?thesis
  proof (cases "newline \<in> set s")
    case n: True
    then have e: "err = None" using assms read_line_spec[OF True, of fin] by simp
    have "length rest < length s" using assms read_line_ok(4) e by blast
    moreover from this have "line \<noteq> ''''" using read_line_lossless[OF assms] by auto
    ultimately show ?thesis using that(1) e by blast
  next
    case False
    then show ?thesis using that(2) assms read_line_spec[OF True, of fin] by (auto simp: lineEnd_def)
  qed
next
  case False
  then have m: "openAIStreamScannerMaxBuffer < lineEnd s" by simp
  from read_line_too_long[OF this, of fin] obtain k where
    "k \<le> lineEnd s" "openAIStreamScannerMaxBuffer < k" "line = take k s" "err = Some errOpenAISSELineTooLong"
    using assms by auto
  then show ?thesis using that(3) lineEnd_le[of s] by simp
qed

lemma read_next_event:
  "readNextEvent rw fin event b = ((out, err), b') \<Longrightarrow> length event \<le> openAIStreamScannerMaxBuffer \<Longrightarrow>
   \<exists>src. rbRest b = src @ rbRest b' \<and> passedOn rw (event @ src) out \<and> readOk fin b err b'"
proof (induction "length (rbRest b)" arbitrary: b event rule: less_induct)
  case less
  obtain line e rest where l: "readOpenAISSELine fin (rbRest b) = ((line, e), rest)" by (metis surj_pair)
  have s: "rbRest b = line @ rest" using read_line_lossless[OF l] by simp
  note step = less.prems(1)[unfolded next_step[OF l]]
  consider (big) "line \<noteq> ''''" "openAIStreamScannerMaxBuffer < length (event @ line)"
    | (blank) "\<not> (line \<noteq> '''' \<and> openAIStreamScannerMaxBuffer < length (event @ line))" "line \<noteq> ''''" "trimLine line = ''''"
    | (other) "\<not> (line \<noteq> '''' \<and> openAIStreamScannerMaxBuffer < length (event @ line))" "\<not> (line \<noteq> '''' \<and> trimLine line = '''')"
    by blast
  then show ?case
  proof cases
    case big
    from l show ?thesis
      by (cases rule: read_line_cases)
        (use step big s in \<open>auto simp: tooLongPasses_def passedOn_def readOk_def intro!: exI[of _ line]\<close>)
  next
    case blank
    from l show ?thesis
    proof (cases rule: read_line_cases)
      case long
      then show ?thesis using blank by simp
    qed (use step blank s in \<open>auto simp: readOk_def dest!: passed_event split: prod.splits intro!: exI[of _ line]\<close>)
  next
    case other
    from l show ?thesis
    proof (cases rule: read_line_cases)
      case line
      have "length (event @ line) \<le> openAIStreamScannerMaxBuffer" using other line by simp
      from less.hyps[of "b\<lparr>rbRest := rest\<rparr>" "event @ line", OF _ _ this] step other line
      obtain src where "rest = src @ rbRest b'" "passedOn rw (event @ line @ src) out" "readOk fin (b\<lparr>rbRest := rest\<rparr>) err b'"
        by auto
      then show ?thesis using s line(2) by (intro exI[of _ "line @ src"]) (auto simp: readOk_def split: option.splits)
    next
      case ended
      let ?b = "b\<lparr>rbRest := rest\<rparr>"
      have "passedOn rw (event @ line) out \<and> rbRest b' = '''' \<and> err = Some (readEnd fin)"
      proof (cases "fin = ioEOF \<and> event @ line \<noteq> ''''")
        case True
        obtain o1 b1 where p: "eventOrRewritten rw (event @ line) ?b = (o1, b1)" by fastforce
        have "readNextEvent rw fin event b = ((o1, Some (readEnd ioEOF)), b1)"
          unfolding next_step[OF l] using other ended True p by auto
        then show ?thesis using less.prems(1) True passed_event[OF p] ended(2) by simp
      next
        case False
        then have "readNextEvent rw fin event b = ((event @ line, Some (readEnd fin)), ?b)"
          unfolding next_step[OF l] using other ended(1) by (cases fin) (simp_all only: if_False, simp_all)
        then show ?thesis using less.prems(1) ended(2) by (simp add: passedOn_def)
      qed
      then show ?thesis using s ended(2) by (intro exI[of _ line]) (simp add: readOk_def)
    next
      case long
      then show ?thesis using other by auto
    qed
  qed
qed

lemma read_next:
  assumes "readNext rw fin b = ((out, err), b')"
  shows "\<exists>src. rbRest b = src @ rbRest b' \<and> passedOn rw src out \<and> readOk fin b err b'"
proof (cases "rbRawEvent b")
  case False
  then show ?thesis using assms read_next_event[of rw fin "''''" b out err b'] by (simp add: readNext_def)
next
  case True
  obtain line e rest where l: "readOpenAISSELine fin (rbRest b) = ((line, e), rest)" by (metis surj_pair)
  have s: "rbRest b = line @ rest" using read_line_lossless[OF l] by simp
  from l show ?thesis
    by (cases rule: read_line_cases)
      (use assms True l s in \<open>auto simp: readNext_def tooLongPasses_def passedOn_def readOk_def intro!: exI[of _ line]\<close>)
qed

text \<open>What the body gives when it is read to its end.\<close>

function readAllEvents :: "'s rewriteEvent \<Rightarrow> streamEnd \<Rightarrow> 's rewriteBody \<Rightarrow> string list \<times> readError" where
  "readAllEvents rw fin b =
     (case readNext rw fin b of
        ((out, Some e), b') \<Rightarrow> ([out], e)
      | ((out, None), b') \<Rightarrow>
          if rbPassthrough b' then ([out, rbRest b'], readEnd fin)
          else (case readAllEvents rw fin b' of (outs, e) \<Rightarrow> (out # outs, e)))"
  by pat_completeness auto
termination
  by (relation "measure (\<lambda>(rw, fin, b). length (rbRest b))") (auto simp: readOk_def dest!: read_next[OF sym])

declare readAllEvents.simps [simp del]

lemma read_all:
  "readAllEvents rw fin b = (outs, e) \<Longrightarrow>
   e = readEnd fin \<and> (\<exists>srcs. rbRest b = concat srcs \<and> list_all2 (passedOn rw) srcs outs)"
proof (induction rw fin b arbitrary: outs e rule: readAllEvents.induct)
  case (1 rw fin b)
  obtain out err b' where n: "readNext rw fin b = ((out, err), b')" by (metis surj_pair)
  from read_next[OF n] obtain src where r: "rbRest b = src @ rbRest b'" "passedOn rw src out" "readOk fin b err b'" by blast
  show ?case
  proof (cases err)
    case (Some e')
    then show ?thesis using 1(2) r by (subst (asm) readAllEvents.simps) (auto simp: n readOk_def intro!: exI[of _ "[src]"])
  next
    case None
    show ?thesis
    proof (cases "rbPassthrough b'")
      case True
      then show ?thesis using 1(2) r None
        by (subst (asm) readAllEvents.simps) (auto simp: n passedOn_def intro!: exI[of _ "[src, rbRest b']"])
    next
      case False
      obtain outs' e' where a: "readAllEvents rw fin b' = (outs', e')" by fastforce
      have eq: "outs = out # outs'" "e = e'" using 1(2) False None by (subst (asm) readAllEvents.simps, simp add: n a)+
      from 1(1)[OF n[symmetric] refl None False a] obtain srcs where
        "e' = readEnd fin" "rbRest b' = concat srcs" "list_all2 (passedOn rw) srcs outs'" by blast
      then show ?thesis using r eq by (auto intro!: exI[of _ "src # srcs"])
    qed
  qed
qed

text \<open>C20. Every byte of a rewritten stream is accounted for. The body that is read to its end gives, piece by
  piece, the upstream bytes in their order, each piece as it was or an event as the callback rewrote it,
  whatever the sizes of lines and events, and ends as the upstream ended; where nothing is rewritten it
  is the upstream body.\<close>

theorem rewritten_body_is_lossless:
  "case readAllEvents rw fin (rewriteBodyStart body s) of (outs, e) \<Rightarrow>
     e = readEnd fin \<and> (\<exists>srcs. body = concat srcs \<and>
       list_all2 (\<lambda>src out. out = src \<or> (\<exists>s s'. rw src s = ((out, True), s'))) srcs outs)"
proof -
  obtain outs e where a: "readAllEvents rw fin (rewriteBodyStart body s) = (outs, e)" by fastforce
  from read_all[OF a] show ?thesis unfolding a passedOn_def[abs_def] by (simp add: rewriteBodyStart_def)
qed

section \<open>Copying with a hook\<close>

text \<open>
  The hook \<open>onEvent\<close>, the transforms and the writer work on a state; an error is a message. The encoding
  of an event name that is put into an event of no type may fail (\<open>transformed\<close> is then empty).
\<close>

type_synonym 's eventHook = "string \<Rightarrow> 's \<Rightarrow> string option \<times> 's"
type_synonym 's eventTransform = "string \<Rightarrow> 's \<Rightarrow> (string + string) \<times> 's"









section \<open>What the client sees\<close>

text \<open>
  A run is recorded next to the state of hook, transforms and writer, which may do whatever they like
  with that state: an event shown to the hook, with its answer, a call of a transform, with its result,
  and bytes that are written.
\<close>

datatype exposeStep = esShown string bool | esTransformed string "string + string" | esWrote string

type_synonym 's exposed = "exposeStep list \<times> 's"

definition recordHook :: "'s eventHook \<Rightarrow> 's exposed eventHook" where
  "recordHook hook data ts = (case hook data (snd ts) of (e, s) \<Rightarrow> (e, (fst ts @ [esShown data (e = None)], s)))"

definition recordTransform :: "'s eventTransform \<Rightarrow> 's exposed eventTransform" where
  "recordTransform t data ts = (case t data (snd ts) of (r, s) \<Rightarrow> (r, (fst ts @ [esTransformed data r], s)))"

definition recordWrite :: "'s eventHook \<Rightarrow> 's exposed eventHook" where
  "recordWrite write bytes ts = (case write bytes (snd ts) of (e, s) \<Rightarrow> (e, (fst ts @ [esWrote bytes], s)))"

lemma recorded [simp]:
  "recordHook hook data (tr, s) = (case hook data s of (e, s') \<Rightarrow> (e, (tr @ [esShown data (e = None)], s')))"
  "recordTransform t data (tr, s) = (case t data s of (r, s') \<Rightarrow> (r, (tr @ [esTransformed data r], s')))"
  "recordWrite write bytes (tr, s) = (case write bytes s of (e, s') \<Rightarrow> (e, (tr @ [esWrote bytes], s')))"
  by (simp_all add: recordHook_def recordTransform_def recordWrite_def)



















end
