(* ===== verification/Route_Executor.thy ===== *)
theory Route_Executor
  imports Route_Operation
begin

text \<open>
  The execution of one explicit route request (\<open>executeExplicitRouteRequestPath\<close> of
  \<open>proxy/route_executor.go\<close>): the loop that chooses a target, prepares, admits and sends the
  request, classifies the answer and decides between accepting it, trying again and giving up.

  Each turn of the loop has an environment record with what the surroundings answer in that
  turn: request preparation, admission control, the transport, the peek at a stream, header
  binding and the contexts. The control flow over these answers, the state of the operation
  and the list of failures are the code's. A turn is a chain of phases, each of which ends
  the turn or calls the next one, as the code falls through. Statistics, traffic observation
  and the log are not modelled; \<open>lsDispatched\<close> is the list of the physical sends, newest first, each with the
  failures recorded before it.
\<close>

section \<open>Answers of the surroundings\<close>

datatype admissionAnswer =
    AdmGranted
  | AdmBlocked capturedRouteResponse string
  | AdmError routeError

text \<open>
  A failed send with the error, what the trace hooks saw, whether it was a cancellation, and
  the captured response, if any, with whether its cleanup completed; or a response with its
  status, after \<open>prepareAzureRouteJSONRejection\<close>.
\<close>

datatype sendAnswer =
    SendFailed routeError routeSendObservation bool "(capturedRouteResponse \<times> bool) option"
  | SendResponse int

text \<open>What the peek at a prepared stream found.\<close>

record streamFailureEvent =
  seCode :: string
  seType :: string
  seClassified429 :: bool
  seStatus :: int
  seRetryAfter :: string
  seAzureRetryAfter :: string
  seReplaySafe :: bool
  seTranslate :: bool

record streamPeek =
  peErr :: "goError option"
  peHasResult :: bool
  peAwaitInbound :: bool
  peInboundErr :: "goError option"
  peEvent :: "streamFailureEvent option"
  peCleanupDone :: bool
  peUpstreamID :: string

record iterEnv =
  iePrepare :: "routeError option"
  ieNewRequest :: "routeError option"
  ieLifeCredential :: lifeView
  ieNativeReject :: "capturedRouteResponse option"
  ieAdmission :: admissionAnswer
  ieLifeAdmission :: lifeView
  ieStateOwner :: "routeError option"
  iePersist :: "routeError option"
  ieLifeDispatch :: lifeView
  ieSend :: sendAnswer
  ieLifeSent :: lifeView
  iePeek :: streamPeek
  ieCaptured :: "capturedRouteResponse \<times> bool"
  ieRejection :: rejectionEnv
  ieAzureRetryAfter :: "header \<Rightarrow> string"
  ieNow :: gotime
  ieHeaderBind :: "routeError option"
  ieDrained :: bool
  ieUpstreamID :: string

record execConfig =
  xcApi :: jsonApi
  xcRoute :: modelRoute
  xcEndpoint :: string
  xcKind :: routeAttemptKind
  xcStream :: bool
  xcParseTime :: "string \<Rightarrow> gotime option"
  xcParseDuration :: "string \<Rightarrow> goduration option"
  xcParseDelay :: "string \<Rightarrow> goduration option"

section \<open>State of the loop\<close>

record dispatch =
  dTarget :: string
  dKind :: routeAttemptKind
  dBefore :: "routeAttemptFailure list"

record loopState =
  lsOp :: routeOperation
  lsFailures :: "routeAttemptFailure list"
  lsRetryTarget :: string
  lsDispatched :: "dispatch list"

datatype execResult =
    ExecAccepted string int
  | ExecCaptured capturedRouteResponse
  | ExecFailed routeAttemptFailure
  | ExecError routeError
  | ExecHistoryUncertain
  | ExecNoTarget

datatype execNext = Again | BreakLoop | Return execResult

record attemptCtx =
  acTarget :: targetBinding
  acSequence :: int
  acKind :: routeAttemptKind
  acSame :: bool

definition mkTrace ::
  "attemptCtx \<Rightarrow> int \<Rightarrow> requestDelivery \<Rightarrow> upstreamSemanticProgress \<Rightarrow> routeRetryDecision \<Rightarrow> string \<Rightarrow> bool \<Rightarrow>
   routeAttemptTrace" where
  "mkTrace ac status delivery progress decision upstreamID cleanup =
     \<lparr>tSequence = acSequence ac, tTargetID = tbId (acTarget ac),
      tProviderID = (case tbProvider (acTarget ac) of Some p \<Rightarrow> providerID p | None \<Rightarrow> ''''),
      tKind = acKind ac, tStatusCode = status, tDelivery = delivery, tProgress = progress,
      tCommitment = downstreamCommitmentNone, tDecision = decision, tUpstreamID = upstreamID,
      tCleanupDone = cleanup\<rparr>"

definition attemptFailure :: "attemptCtx \<Rightarrow> routeAttemptFailure" where
  "attemptFailure ac = emptyFailure\<lparr>fAttribution := routeResultAttributionForTarget (acTarget ac),
     fDelivery := requestDefinitelyNotDelivered, fProgress := upstreamProgressNone,
     fCommitment := downstreamCommitmentNone\<rparr>"

text \<open>Record a failure with its trace.\<close>

definition addFailure :: "routeAttemptFailure \<Rightarrow> routeAttemptTrace \<Rightarrow> loopState \<Rightarrow> loopState" where
  "addFailure f t s = s\<lparr>lsFailures := lsFailures s @ [f], lsOp := appendTrace t (lsOp s)\<rparr>"

definition suppressRetry ::
  "execConfig \<Rightarrow> routeRetryDecision \<Rightarrow> string option \<Rightarrow> loopState \<Rightarrow> loopState" where
  "suppressRetry c decision blocked s =
     (case suppressPendingRouteRetry (xcParseDelay c) decision blocked (lsOp s, lsFailures s) of
        (o', fs) \<Rightarrow> s\<lparr>lsOp := o', lsFailures := fs\<rparr>)"

definition againIf :: "routeRetryDecision \<Rightarrow> execNext" where
  "againIf decision = (if decision = routeRetrySwitchTarget then Again else BreakLoop)"

section \<open>After the send\<close>

text \<open>An accepted response pins the target.\<close>

definition acceptPhase ::
  "execConfig \<Rightarrow> iterEnv \<Rightarrow> attemptCtx \<Rightarrow> int \<Rightarrow> string \<Rightarrow> capturedRouteResponse option \<Rightarrow> bool \<Rightarrow> loopState \<Rightarrow>
   loopState \<times> execNext" where
  "acceptPhase c env ac status upstreamID captured unsafeRejection s =
     (let target = tbId (acTarget ac);
          bindErr = (if status \<ge> 200 \<and> status < 300 \<and> (xcStream c \<or> xcEndpoint c \<noteq> providerEndpointResponses)
                     then ieHeaderBind env else None)
      in case bindErr of
           Some err \<Rightarrow>
             let cleanup = (if captured \<noteq> None then True else ieDrained env);
                 f = (attemptFailure ac)\<lparr>fErr := Some err, fDelivery := requestDeliveredOrAmbiguous,
                        fDecision := routeRetrySuppressedState, fStatusCode := status,
                        fUpstreamID := upstreamID, fOutcome := routeAttemptOutcomeFailed, fCleanupDone := cleanup\<rparr>
             in (addFailure f (mkTrace ac status requestDeliveredOrAmbiguous upstreamProgressNone
                   routeRetrySuppressedState upstreamID cleanup) s, BreakLoop)
         | None \<Rightarrow>
             let t = mkTrace ac status requestDeliveredOrAmbiguous
                       (if unsafeRejection then upstreamProgressUnknown else upstreamProgressNone)
                       (if unsafeRejection then routeRetrySuppressedProgress else routeRetryAccepted)
                       upstreamID (captured \<noteq> None);
                 s1 = s\<lparr>lsOp := appendTrace t (pinTarget target (lsOp s))\<rparr>
             in if opConversation (lsOp s) \<noteq> None \<and> (status < 200 \<or> status \<ge> 300)
                then (s1, Return ExecHistoryUncertain)
                else (s1, Return (ExecAccepted target status)))"

definition rejectionRetryAfter :: "execConfig \<Rightarrow> iterEnv \<Rightarrow> attemptCtx \<Rightarrow> header \<Rightarrow> string" where
  "rejectionRetryAfter c env ac hs =
     (if map_option providerKind (tbProvider (acTarget ac)) = Some providerTypeAzureOpenAI
      then ieAzureRetryAfter env hs
      else fst (selectResponsesRetryAfter (xcParseTime c) (xcParseDuration c) (ieNow env) hs))"

definition withRetryAfter :: "execConfig \<Rightarrow> iterEnv \<Rightarrow> string \<Rightarrow> header \<Rightarrow> header" where
  "withRetryAfter c env retryAfter hs =
     (if retryAfter \<noteq> '''' \<and>
         retryAfterHeaderSeconds (xcParseTime c) (ieNow env) (headerGetCI hs ''Retry-After'') = None
      then headerSet hs ''Retry-After'' retryAfter else hs)"

text \<open>A retryable decision on a recorded failure: try the same target again, switch, or stop.\<close>

definition decideNext :: "attemptCtx \<Rightarrow> routeRetryDecision \<Rightarrow> loopState \<Rightarrow> loopState \<times> execNext" where
  "decideNext ac decision s =
     (let s1 = (if decision = routeRetrySameTarget then s\<lparr>lsRetryTarget := tbId (acTarget ac)\<rparr> else s)
      in (s1, if decision = routeRetrySwitchTarget \<or> decision = routeRetrySameTarget then Again else BreakLoop))"

definition rejectionPhase ::
  "execConfig \<Rightarrow> iterEnv \<Rightarrow> attemptCtx \<Rightarrow> int \<Rightarrow> loopState \<Rightarrow> loopState \<times> execNext" where
  "rejectionPhase c env ac status s =
     (if \<not> routeAdapterMayExplicitlyReject (acTarget ac) (xcEndpoint c) status
      then acceptPhase c env ac status (ieUpstreamID env) None False s
      else
        let (captured, cleanupDone) = ieCaptured env
        in if \<not> cleanupDone then
             (addFailure ((attemptFailure ac)\<lparr>fErr := Some (plainError ''route attempt cleanup did not complete''),
                  fDelivery := requestDeliveredOrAmbiguous, fProgress := upstreamProgressUnknown,
                  fDecision := routeRetrySuppressedLifecycle, fStatusCode := status,
                  fUpstreamID := capUpstreamID captured, fOutcome := routeAttemptOutcomeFailed\<rparr>)
                (mkTrace ac status requestDeliveredOrAmbiguous upstreamProgressUnknown
                  routeRetrySuppressedLifecycle (capUpstreamID captured) False) s, BreakLoop)
           else if routeAdapterCertifiesHTTPRejection (xcApi c) (acTarget ac) (xcEndpoint c) (Some captured) then
             let retryAfter = rejectionRetryAfter c env ac (capHeader captured);
                 captured' = captured\<lparr>capHeader := withRetryAfter c env retryAfter (capHeader captured)\<rparr>;
                 f = (attemptFailure ac)\<lparr>fResponse := Some captured', fDelivery := requestExplicitlyRejected,
                        fStatusCode := capStatus captured, fRetryAfter := retryAfter,
                        fUpstreamID := capUpstreamID captured, fCleanupDone := True,
                        fOutcome := routeAttemptOutcomeRejected\<rparr>;
                 decision = explicitRouteRejectionDecision (ieRejection env) (lsOp s) (acTarget ac)
                              (xcEndpoint c) (xcKind c) f;
                 s1 = addFailure (f\<lparr>fDecision := decision\<rparr>)
                        (mkTrace ac (capStatus captured) requestExplicitlyRejected upstreamProgressNone
                           decision (capUpstreamID captured) True) s
             in decideNext ac decision s1
           else acceptPhase c env ac (capStatus captured) (capUpstreamID captured) (Some captured)
                  (capBodyIncomplete captured \<or> \<not> routeHTTPRejectionBodyAllowsReplay (xcApi c) captured) s)"

definition routeAdapterCertifiesStreamFailure :: "targetBinding \<Rightarrow> streamFailureEvent \<Rightarrow> int option" where
  "routeAdapterCertifiesStreamFailure target ev =
     (case tbProvider target of
        None \<Rightarrow> None
      | Some p \<Rightarrow>
          let kind = providerKind p; code = goLower (trimSpace (seCode ev)); errType = goLower (trimSpace (seType ev));
              byType = (if errType = ''rate_limit_error'' then Some 429
                        else if errType = ''overloaded_error'' \<and> kind = providerTypeAnthropicCompatible then Some 529
                        else None)
          in if kind = providerTypeAzureOpenAI \<and> seClassified429 ev then Some 429
             else if code \<in> {''too_many_requests'', ''rate_limit_exceeded''} then Some 429
             else if code \<in> {''user_model_rate_limited'', ''user_global_rate_limited'',
                             ''user_weekly_rate_limited'', ''integration_rate_limited''} \<and>
                     kind = providerTypeCopilot then Some 429
             else if code \<in> {''model_overloaded'', ''engine_overloaded'', ''server_overloaded''} \<and>
                     kind \<in> {providerTypeCopilot, providerTypeAzureOpenAI, providerTypeOpenAICompatible} then Some 503
             else if code = ''overloaded_error'' \<and> kind = providerTypeAnthropicCompatible then Some 529
             else byType)"

datatype streamAnswer = StreamAccepted | StreamFailed routeAttemptFailure

text \<open>What follows once a result is known: \<open>event\<close> is its terminal failure, if it has one.\<close>

definition streamResult ::
  "attemptCtx \<Rightarrow> streamPeek \<Rightarrow> streamFailureEvent option \<Rightarrow> streamAnswer" where
  "streamResult ac pe event =
     (let base = (attemptFailure ac)\<lparr>fDelivery := requestDeliveredOrAmbiguous, fUpstreamID := peUpstreamID pe\<rparr>
      in case event of
           None \<Rightarrow> StreamAccepted
         | Some ev \<Rightarrow>
             let retryAfter = (if map_option providerKind (tbProvider (acTarget ac)) = Some providerTypeAzureOpenAI
                               then seAzureRetryAfter ev else seRetryAfter ev)
             in case (if seReplaySafe ev then routeAdapterCertifiesStreamFailure (acTarget ac) ev else None) of
                  Some st \<Rightarrow>
                    if \<not> peCleanupDone pe then
                      StreamFailed (base\<lparr>fErr := Some (plainError ''responses attempt cleanup did not complete before failover''),
                        fProgress := upstreamProgressUnknown, fDecision := routeRetrySuppressedLifecycle,
                        fStatusCode := st, fOutcome := routeAttemptOutcomeFailed\<rparr>)
                    else
                      StreamFailed (base\<lparr>fErr := Some (plainError ''responses failure''),
                        fDelivery := requestExplicitlyRejected, fProgress := upstreamProgressAllowedPreamble,
                        fStatusCode := st, fRetryAfter := retryAfter, fCleanupDone := True,
                        fOutcome := routeAttemptOutcomeRejected\<rparr>)
                | None \<Rightarrow>
                    if seTranslate ev then
                      StreamFailed (base\<lparr>fErr := Some (plainError ''responses failure''),
                        fProgress := upstreamProgressTerminalFailure, fStatusCode := seStatus ev,
                        fRetryAfter := retryAfter, fCleanupDone := peCleanupDone pe,
                        fDecision := (if \<not> peCleanupDone pe then routeRetrySuppressedLifecycle else routeRetryUnset),
                        fOutcome := routeAttemptOutcomeFailed\<rparr>)
                    else StreamAccepted)"

definition prepareExplicitResponsesStream ::
  "attemptCtx \<Rightarrow> int \<Rightarrow> streamPeek \<Rightarrow> streamAnswer" where
  "prepareExplicitResponsesStream ac status pe =
     (let inbound = (peErr pe = None \<and> peInboundErr pe \<noteq> None);
          err = (if inbound then peInboundErr pe else peErr pe);
          hasResult = (if inbound then False else peHasResult pe);
          awaitInbound = (if inbound then True else peAwaitInbound pe);
          event = (if hasResult then peEvent pe else None)
      in case err of
           Some e \<Rightarrow>
             if \<not> hasResult then
               let ended = (errors_Is e ekCanceled \<or> errors_Is e ekDeadlineExceeded);
                   decision = (if \<not> ended then routeRetryUnset
                               else if awaitInbound then routeRetrySuppressedAdmission
                               else routeRetrySuppressedLifecycle)
               in StreamFailed ((attemptFailure ac)\<lparr>fErr := Some \<lparr>reCode = '''', reGo = e\<rparr>,
                    fDelivery := requestDeliveredOrAmbiguous, fProgress := upstreamProgressUnknown,
                    fStatusCode := status, fUpstreamID := peUpstreamID pe, fCleanupDone := peCleanupDone pe,
                    fOutcome := (if ended then routeAttemptOutcomeCanceled else routeAttemptOutcomeFailed),
                    fDecision := (if \<not> peCleanupDone pe then routeRetrySuppressedLifecycle else decision)\<rparr>)
             else streamResult ac pe event
         | None \<Rightarrow> streamResult ac pe event)"

definition streamPhase ::
  "execConfig \<Rightarrow> iterEnv \<Rightarrow> attemptCtx \<Rightarrow> int \<Rightarrow> loopState \<Rightarrow> loopState \<times> execNext" where
  "streamPhase c env ac status s =
     (case prepareExplicitResponsesStream ac status (iePeek env) of
        StreamFailed f0 \<Rightarrow>
          let f1 = (if fDecision f0 = routeRetryUnset then f0\<lparr>fDecision := routeRetrySuppressedProgress\<rparr> else f0);
              f = (if fDelivery f1 = requestExplicitlyRejected
                   then f1\<lparr>fDecision := explicitRouteRejectionDecision (ieRejection env) (lsOp s) (acTarget ac)
                              (xcEndpoint c) (xcKind c) f1\<rparr>
                   else f1);
              upstreamID = (if fUpstreamID f = '''' then ieUpstreamID env else fUpstreamID f);
              s1 = addFailure f (mkTrace ac (fStatusCode f) (fDelivery f) (fProgress f) (fDecision f)
                     upstreamID (fCleanupDone f)) s
          in decideNext ac (fDecision f) s1
      | StreamAccepted \<Rightarrow>
          (case ieHeaderBind env of
             Some err \<Rightarrow>
               (addFailure ((attemptFailure ac)\<lparr>fErr := Some err, fDelivery := requestDeliveredOrAmbiguous,
                    fProgress := upstreamProgressAllowedPreamble, fDecision := routeRetrySuppressedState,
                    fStatusCode := status, fUpstreamID := ieUpstreamID env,
                    fOutcome := routeAttemptOutcomeFailed, fCleanupDone := ieDrained env\<rparr>)
                  (mkTrace ac status requestDeliveredOrAmbiguous upstreamProgressAllowedPreamble
                    routeRetrySuppressedState (ieUpstreamID env) (ieDrained env)) s, BreakLoop)
           | None \<Rightarrow>
               (s\<lparr>lsOp := appendTrace (mkTrace ac status requestDeliveredOrAmbiguous upstreamProgressAllowedPreamble
                     routeRetryAccepted (ieUpstreamID env) False) (pinTarget (tbId (acTarget ac)) (lsOp s))\<rparr>,
                Return (ExecAccepted (tbId (acTarget ac)) status))))"

definition sendErrorPhase ::
  "execConfig \<Rightarrow> iterEnv \<Rightarrow> attemptCtx \<Rightarrow> routeError \<Rightarrow> routeSendObservation \<Rightarrow> bool \<Rightarrow>
   (capturedRouteResponse \<times> bool) option \<Rightarrow> loopState \<Rightarrow> loopState \<times> execNext" where
  "sendErrorPhase c env ac err obs canceled answer s =
     (let delivery = deliveryForError obs;
          decision = (if delivery = requestDefinitelyNotDelivered \<and>
                         allowsAutomaticTargetSwitch (lsOp s) (xcKind c) \<and>
                         retryAdmissionOpen (ieLifeSent env) (lsOp s) \<and>
                         mode (policy (xcRoute c)) = routeModePriorityFailover
                      then routeRetrySwitchTarget else routeRetrySuppressedDelivery);
          (status, upstreamID, cleanup) = (case answer of
              Some (cap, done') \<Rightarrow> (capStatus cap, capUpstreamID cap, done') | None \<Rightarrow> (0, '''', True));
          f = (attemptFailure ac)\<lparr>fErr := Some err, fDelivery := delivery, fDecision := decision,
                 fStatusCode := status, fUpstreamID := upstreamID, fCleanupDone := cleanup,
                 fOutcome := (if canceled then routeAttemptOutcomeCanceled else routeAttemptOutcomeTransportError)\<rparr>
      in (addFailure f (mkTrace ac status delivery upstreamProgressNone decision upstreamID cleanup) s,
          againIf decision))"

definition sendPhase ::
  "execConfig \<Rightarrow> iterEnv \<Rightarrow> attemptCtx \<Rightarrow> loopState \<Rightarrow> loopState \<times> execNext" where
  "sendPhase c env ac s =
     (case ieSend env of
        SendFailed err obs canceled answer \<Rightarrow> sendErrorPhase c env ac err obs canceled answer s
      | SendResponse status \<Rightarrow>
          if xcStream c \<and> status = 200 then streamPhase c env ac status s
          else rejectionPhase c env ac status s)"

section \<open>Before the send\<close>

definition dispatchMessage :: "routeRetryDecision \<Rightarrow> string" where
  "dispatchMessage decision =
     (case decision of
        routeRetrySuppressedAdmission \<Rightarrow> ''client disconnected before upstream dispatch''
      | routeRetrySuppressedLifecycle \<Rightarrow> ''route operation ended before upstream dispatch''
      | _ \<Rightarrow> ''route upstream-send budget exhausted'')"

definition dispatchPhase ::
  "execConfig \<Rightarrow> iterEnv \<Rightarrow> attemptCtx \<Rightarrow> loopState \<Rightarrow> loopState \<times> execNext" where
  "dispatchPhase c env ac s =
     (case ieStateOwner env of
        Some err \<Rightarrow>
          (addFailure ((attemptFailure ac)\<lparr>fErr := Some err, fDecision := routeRetrySuppressedState,
               fCleanupDone := True\<rparr>)
             (mkTrace ac 0 requestDefinitelyNotDelivered upstreamProgressNone routeRetrySuppressedState '''' True) s,
           BreakLoop)
      | None \<Rightarrow>
          (case iePersist env of
             Some err \<Rightarrow> (s, Return (ExecError err))
           | None \<Rightarrow>
               let (op1, reserved, decision) = reserveSendAtDispatch (ieLifeDispatch env) (lsOp s)
               in if \<not> reserved then
                    (if acSame ac then (suppressRetry c decision None s, BreakLoop)
                     else (addFailure ((attemptFailure ac)\<lparr>fErr := Some (plainError (dispatchMessage decision)),
                                fDecision := decision\<rparr>)
                             (mkTrace ac 0 requestDefinitelyNotDelivered upstreamProgressNone decision '''' True) s,
                           BreakLoop))
                  else sendPhase c env ac (s\<lparr>lsOp := op1,
                         lsDispatched := \<lparr>dTarget = tbId (acTarget ac), dKind = acKind ac,
                           dBefore = lsFailures s\<rparr> # lsDispatched s\<rparr>)))"

definition admissionPhase ::
  "execConfig \<Rightarrow> iterEnv \<Rightarrow> attemptCtx \<Rightarrow> loopState \<Rightarrow> loopState \<times> execNext" where
  "admissionPhase c env ac s =
     (let life = ieLifeAdmission env;
          ended = (lifeCtxErr life \<or> lifeShuttingDown life);
          early = (if ended then routeRetrySuppressedLifecycle else routeRetrySuppressedAdmission);
          stop = (\<lambda>f decision. (addFailure (f\<lparr>fDecision := decision, fCleanupDone := True\<rparr>)
                    (mkTrace ac (fStatusCode f) requestDefinitelyNotDelivered upstreamProgressNone decision '''' True) s,
                  againIf decision))
      in case ieAdmission env of
           AdmGranted \<Rightarrow> dispatchPhase c env ac s
         | AdmBlocked captured retryAfter \<Rightarrow>
             if acSame ac then (suppressRetry c early (Some retryAfter) s, BreakLoop)
             else stop ((attemptFailure ac)\<lparr>fResponse := Some captured, fStatusCode := capStatus captured,
                          fRetryAfter := retryAfter, fOutcome := routeAttemptOutcomeRejected\<rparr>)
                    (if \<not> allowsAutomaticTargetSwitch (lsOp s) (xcKind c) then routeRetrySuppressedState
                     else if mode (policy (xcRoute c)) = routeModePriorityFailover \<and> retryAdmissionOpen life (lsOp s)
                     then routeRetrySwitchTarget else early)
         | AdmError err \<Rightarrow>
             if acSame ac then (suppressRetry c early None s, BreakLoop)
             else stop ((attemptFailure ac)\<lparr>fErr := Some err\<rparr>)
                    (if ended then routeRetrySuppressedLifecycle
                     else if providerRequestErrorCode (Some err) = upstreamAuthUnavailableCode
                     then explicitRouteCredentialFailureDecision (ieLifeCredential env) (lsOp s) (xcEndpoint c)
                            (xcKind c) (Some err)
                     else early))"

definition preparePhase ::
  "execConfig \<Rightarrow> iterEnv \<Rightarrow> attemptCtx \<Rightarrow> loopState \<Rightarrow> loopState \<times> execNext" where
  "preparePhase c env ac s =
     (let fail = (\<lambda>f status decision. (addFailure (f\<lparr>fDecision := decision, fStatusCode := status\<rparr>)
                    (mkTrace ac status requestDefinitelyNotDelivered upstreamProgressNone decision '''' True) s,
                  againIf decision));
          giveUp = (suppressRetry c routeRetrySuppressedNonretryable None s, BreakLoop)
      in case iePrepare env of
           Some err \<Rightarrow>
             if acSame ac then giveUp
             else fail ((attemptFailure ac)\<lparr>fErr := Some err\<rparr>) 0 routeRetrySuppressedNonretryable
         | None \<Rightarrow>
             (case ieNewRequest env of
                Some err \<Rightarrow>
                  if acSame ac then giveUp
                  else fail ((attemptFailure ac)\<lparr>fErr := Some err, fCleanupDone := True\<rparr>) 0
                         (explicitRouteCredentialFailureDecision (ieLifeCredential env) (lsOp s) (xcEndpoint c)
                            (xcKind c) (Some err))
              | None \<Rightarrow>
                  (case ieNativeReject env of
                     Some captured \<Rightarrow>
                       if acSame ac then giveUp
                       else fail ((attemptFailure ac)\<lparr>fResponse := Some captured,
                                    fOutcome := routeAttemptOutcomeRejected, fCleanupDone := True\<rparr>)
                              (capStatus captured) routeRetrySuppressedNonretryable
                   | None \<Rightarrow> admissionPhase c env ac s)))"

section \<open>The loop\<close>

definition candidateTargets :: "execConfig \<Rightarrow> loopState \<Rightarrow> targetBinding list" where
  "candidateTargets c s =
     (let ordered = orderedRouteTargets (Some (xcRoute c)) (Some (lsOp s)) (xcEndpoint c)
      in if lsRetryTarget s \<noteq> '''' then
           (case targetByID (xcRoute c) (lsRetryTarget s) of Some t \<Rightarrow> [t] | None \<Rightarrow> ordered)
         else ordered)"

definition attemptKindFor :: "execConfig \<Rightarrow> bool \<Rightarrow> bool \<Rightarrow> routeAttemptKind" where
  "attemptKindFor c same switched =
     (let k = (if same then routeAttemptRateLimitRetry else xcKind c)
      in if switched \<and> k = routeAttemptNormal then routeAttemptFailover else k)"

definition executorStep :: "execConfig \<Rightarrow> iterEnv \<Rightarrow> loopState \<Rightarrow> loopState \<times> execNext" where
  "executorStep c env s =
     (let same = (lsRetryTarget s \<noteq> ''''); s0 = s\<lparr>lsRetryTarget := ''''\<rparr>
      in case candidateTargets c s of
           [] \<Rightarrow> (s0, BreakLoop)
         | target # _ \<Rightarrow>
             let (op1, sequence, switched, reserved) = reserveTarget (tbId target) (lsOp s0)
             in if \<not> reserved then
                  (if same then (suppressRetry c routeRetrySuppressedBudget None s0, BreakLoop)
                   else (s0\<lparr>lsFailures := lsFailures s0 @ [emptyFailure\<lparr>
                            fErr := Some (plainError ''route target-attempt budget exhausted''),
                            fDecision := routeRetrySuppressedBudget\<rparr>]\<rparr>, BreakLoop))
                else preparePhase c env
                       \<lparr>acTarget = target, acSequence = sequence, acKind = attemptKindFor c same switched, acSame = same\<rparr>
                       (s0\<lparr>lsOp := op1\<rparr>))"

text \<open>After the loop, without a conversation migration.\<close>

definition finishExecution :: "loopState \<Rightarrow> execResult" where
  "finishExecution s =
     (let f = selectFinalRouteFailure (lsFailures s)
      in case fResponse f of
           Some r \<Rightarrow> ExecCaptured r
         | None \<Rightarrow> (case fErr f of Some _ \<Rightarrow> ExecFailed f | None \<Rightarrow> ExecNoTarget))"

fun executorLoop :: "nat \<Rightarrow> execConfig \<Rightarrow> (nat \<Rightarrow> iterEnv) \<Rightarrow> nat \<Rightarrow> loopState \<Rightarrow> (loopState \<times> execResult) option" where
  "executorLoop 0 c env i s = None"
| "executorLoop (Suc fuel) c env i s =
     (case executorStep c (env i) s of
        (s', Again) \<Rightarrow> executorLoop fuel c env (Suc i) s'
      | (s', BreakLoop) \<Rightarrow> Some (s', finishExecution s')
      | (s', Return r) \<Rightarrow> Some (s', r))"

definition initialState :: "routeOperation \<Rightarrow> loopState" where
  "initialState o' = \<lparr>lsOp = o', lsFailures = [], lsRetryTarget = '''', lsDispatched = []\<rparr>"

text \<open>\<open>executeExplicitRouteRequestPath\<close> for the operation of its context; the operation must
  belong to the route.\<close>

definition executeExplicitRouteRequestPath ::
  "nat \<Rightarrow> execConfig \<Rightarrow> (nat \<Rightarrow> iterEnv) \<Rightarrow> routeOperation \<Rightarrow> (loopState \<times> execResult) option" where
  "executeExplicitRouteRequestPath fuel c env o' =
     (if legacy (xcRoute c) then Some (initialState o', ExecError (plainError ''explicit model route is required''))
      else if opRoute o' \<noteq> xcRoute c
      then Some (initialState o', ExecError (plainError ''route operation cannot execute this route''))
      else executorLoop fuel c env 0 (initialState o'))"

section \<open>What one turn does\<close>

definition replay_safe :: "routeAttemptFailure \<Rightarrow> bool" where
  "replay_safe f \<longleftrightarrow>
     (fDelivery f = requestDefinitelyNotDelivered \<or> (fDelivery f = requestExplicitlyRejected \<and> fCleanupDone f)) \<and>
     fCommitment f = downstreamCommitmentNone \<and> upstreamProgressAllowsTargetSwitch (fProgress f)"

text \<open>Going round again: one replay-safe failure was recorded, the pins and the target budget
  are as before, and a same-target retry names the target of this turn.\<close>

definition again_ok :: "attemptCtx \<Rightarrow> loopState \<Rightarrow> loopState \<Rightarrow> bool" where
  "again_ok ac s s' \<longleftrightarrow>
     (\<exists>f. lsFailures s' = lsFailures s @ [f] \<and> replay_safe f) \<and>
     pinnedTargetID (lsOp s') = pinnedTargetID (lsOp s) \<and> hardPinned (lsOp s') = hardPinned (lsOp s) \<and>
     remainingTargetAttempts (lsOp s') = remainingTargetAttempts (lsOp s) \<and>
     lsRetryTarget s' \<in> {lsRetryTarget s, tbId (acTarget ac)}"

definition post_ok :: "attemptCtx \<Rightarrow> loopState \<Rightarrow> loopState \<times> execNext \<Rightarrow> bool" where
  "post_ok ac s res \<longleftrightarrow>
     (case res of (s', nxt) \<Rightarrow>
        op_step\<^sup>*\<^sup>* (lsOp s) (lsOp s') \<and> lsDispatched s' = lsDispatched s \<and>
        remainingUpstreamSends (lsOp s') = remainingUpstreamSends (lsOp s) \<and>
        opRoute (lsOp s') = opRoute (lsOp s) \<and> (nxt = Again \<longrightarrow> again_ok ac s s'))"

definition turn_ok :: "attemptCtx \<Rightarrow> loopState \<Rightarrow> loopState \<times> execNext \<Rightarrow> bool" where
  "turn_ok ac s res \<longleftrightarrow>
     (case res of (s', nxt) \<Rightarrow>
        op_step\<^sup>*\<^sup>* (lsOp s) (lsOp s') \<and> opRoute (lsOp s') = opRoute (lsOp s) \<and>
        (lsDispatched s' = lsDispatched s \<and>
           remainingUpstreamSends (lsOp s') = remainingUpstreamSends (lsOp s) \<and>
           (nxt = Again \<longrightarrow> \<not> acSame ac \<and> \<not> hardPinned (lsOp s)) \<or>
         (\<exists>d. lsDispatched s' = d # lsDispatched s \<and> dTarget d = tbId (acTarget ac) \<and>
              dBefore d = lsFailures s \<and> 0 < remainingUpstreamSends (lsOp s) \<and>
              remainingUpstreamSends (lsOp s') = remainingUpstreamSends (lsOp s) - 1)) \<and>
        (nxt = Again \<longrightarrow> again_ok ac s s'))"

lemma appendTrace_fields [simp]:
  "pinnedTargetID (appendTrace t o') = pinnedTargetID o'" "hardPinned (appendTrace t o') = hardPinned o'"
  "remainingTargetAttempts (appendTrace t o') = remainingTargetAttempts o'"
  "remainingUpstreamSends (appendTrace t o') = remainingUpstreamSends o'"
  "opRoute (appendTrace t o') = opRoute o'"
  by (simp_all add: appendTrace_def)

lemma pinTarget_fields [simp]:
  "remainingUpstreamSends (pinTarget t o') = remainingUpstreamSends o'" "opRoute (pinTarget t o') = opRoute o'"
  by (simp_all add: pinTarget_def)

lemma op_trace_run: "op_step\<^sup>*\<^sup>* o' (appendTrace t o')"
  by (rule r_into_rtranclp) (rule op_trace)

lemma op_pin_trace_run: "op_step\<^sup>*\<^sup>* o' (appendTrace t (pinTarget p o'))"
  by (meson op_pin op_trace rtranclp.rtrancl_refl rtranclp.rtrancl_into_rtrancl)

lemma addFailure_fields [simp]:
  "lsOp (addFailure f t s) = appendTrace t (lsOp s)" "lsFailures (addFailure f t s) = lsFailures s @ [f]"
  "lsRetryTarget (addFailure f t s) = lsRetryTarget s" "lsDispatched (addFailure f t s) = lsDispatched s"
  by (simp_all add: addFailure_def)

lemma addFailure_post:
  "(nxt = Again \<longrightarrow> replay_safe f) \<Longrightarrow> post_ok ac s (addFailure f t s, nxt)"
  by (auto simp: post_ok_def again_ok_def op_trace_run)

lemma suppressRetry_facts:
  "op_step\<^sup>*\<^sup>* (lsOp s) (lsOp (suppressRetry c d b s))"
  "lsDispatched (suppressRetry c d b s) = lsDispatched s"
  "remainingUpstreamSends (lsOp (suppressRetry c d b s)) = remainingUpstreamSends (lsOp s)"
  "opRoute (lsOp (suppressRetry c d b s)) = opRoute (lsOp s)"
proof -
  let ?r = "suppressPendingRouteRetry (xcParseDelay c) d b (lsOp s, lsFailures s)"
  have e: "lsOp (suppressRetry c d b s) = fst ?r" "lsDispatched (suppressRetry c d b s) = lsDispatched s"
    by (cases ?r, simp add: suppressRetry_def)+
  show "op_step\<^sup>*\<^sup>* (lsOp s) (lsOp (suppressRetry c d b s))"
    unfolding e by (rule r_into_rtranclp) (rule op_suppress)
  show "lsDispatched (suppressRetry c d b s) = lsDispatched s" by (rule e)
  from suppress_op[of "xcParseDelay c" d b "lsOp s" "lsFailures s"]
  show "remainingUpstreamSends (lsOp (suppressRetry c d b s)) = remainingUpstreamSends (lsOp s)"
    "opRoute (lsOp (suppressRetry c d b s)) = opRoute (lsOp s)" unfolding e by auto
qed

lemma attemptFailure_fields [simp]:
  "fDelivery (attemptFailure ac) = requestDefinitelyNotDelivered"
  "fCommitment (attemptFailure ac) = downstreamCommitmentNone"
  "fProgress (attemptFailure ac) = upstreamProgressNone"
  by (simp_all add: attemptFailure_def)

lemma progress_switch [simp]:
  "upstreamProgressAllowsTargetSwitch upstreamProgressNone"
  "upstreamProgressAllowsTargetSwitch upstreamProgressAllowedPreamble"
  by (simp_all add: upstreamProgressAllowsTargetSwitch_def)

lemma accept_post: "post_ok ac s (acceptPhase c env ac status u cap unsafe s)"
  unfolding acceptPhase_def Let_def
  by (auto simp: post_ok_def op_trace_run op_pin_trace_run split: option.splits)

lemma decideNext_post:
  assumes "replay_safe f \<or> fDecision f \<notin> {routeRetrySwitchTarget, routeRetrySameTarget}"
  shows "post_ok ac s (decideNext ac (fDecision f) (addFailure f t s))"
  using assms unfolding decideNext_def Let_def
  by (auto simp: post_ok_def again_ok_def op_trace_run)

lemma rejection_post: "post_ok ac s (rejectionPhase c env ac status s)"
proof (cases "routeAdapterMayExplicitlyReject (acTarget ac) (xcEndpoint c) status")
  case False
  then show ?thesis by (simp add: rejectionPhase_def accept_post)
next
  case True
  obtain captured cleanupDone where cap: "ieCaptured env = (captured, cleanupDone)" by fastforce
  show ?thesis
  proof (cases "cleanupDone \<and> routeAdapterCertifiesHTTPRejection (xcApi c) (acTarget ac) (xcEndpoint c) (Some captured)")
    case False
    then show ?thesis using True cap
      by (auto simp: rejectionPhase_def Let_def accept_post intro: addFailure_post)
  next
    case cert: True
    let ?ra = "rejectionRetryAfter c env ac (capHeader captured)"
    let ?f = "(attemptFailure ac)\<lparr>fResponse := Some (captured\<lparr>capHeader :=
          withRetryAfter c env ?ra (capHeader captured)\<rparr>), fDelivery := requestExplicitlyRejected,
        fStatusCode := capStatus captured, fRetryAfter := ?ra,
        fUpstreamID := capUpstreamID captured, fCleanupDone := True, fOutcome := routeAttemptOutcomeRejected\<rparr>"
    let ?d = "explicitRouteRejectionDecision (ieRejection env) (lsOp s) (acTarget ac) (xcEndpoint c) (xcKind c) ?f"
    have "rejectionPhase c env ac status s = decideNext ac (fDecision (?f\<lparr>fDecision := ?d\<rparr>))
        (addFailure (?f\<lparr>fDecision := ?d\<rparr>) (mkTrace ac (capStatus captured) requestExplicitlyRejected
           upstreamProgressNone ?d (capUpstreamID captured) True) s)"
      using True cap cert by (simp add: rejectionPhase_def Let_def)
    then show ?thesis by (simp only:) (rule decideNext_post, simp add: replay_safe_def)
  qed
qed

lemma streamResult_spec:
  "streamResult ac pe event = StreamFailed f \<Longrightarrow>
     fDecision f \<in> {routeRetryUnset, routeRetrySuppressedLifecycle, routeRetrySuppressedAdmission} \<and>
     (fDelivery f = requestExplicitlyRejected \<longrightarrow> replay_safe f)"
  unfolding streamResult_def Let_def
  by (auto simp: replay_safe_def attemptFailure_def emptyFailure_def split: option.splits if_splits)

lemma prepareStream_spec:
  assumes "prepareExplicitResponsesStream ac status pe = StreamFailed f"
  shows "fDecision f \<in> {routeRetryUnset, routeRetrySuppressedLifecycle, routeRetrySuppressedAdmission}"
    "fDelivery f = requestExplicitlyRejected \<Longrightarrow> replay_safe f"
  using assms streamResult_spec[of ac pe _ f] unfolding prepareExplicitResponsesStream_def Let_def
  by (auto split: option.splits if_splits)

lemma stream_post: "post_ok ac s (streamPhase c env ac status s)"
proof (cases "prepareExplicitResponsesStream ac status (iePeek env)")
  case StreamAccepted
  then show ?thesis
    by (auto simp: streamPhase_def post_ok_def op_trace_run op_pin_trace_run split: option.splits)
next
  case (StreamFailed f0)
  note sp = prepareStream_spec[OF StreamFailed]
  let ?f1 = "if fDecision f0 = routeRetryUnset then f0\<lparr>fDecision := routeRetrySuppressedProgress\<rparr> else f0"
  let ?f = "if fDelivery ?f1 = requestExplicitlyRejected
      then ?f1\<lparr>fDecision := explicitRouteRejectionDecision (ieRejection env) (lsOp s) (acTarget ac)
                  (xcEndpoint c) (xcKind c) ?f1\<rparr> else ?f1"
  have "replay_safe ?f \<or> fDecision ?f \<notin> {routeRetrySwitchTarget, routeRetrySameTarget}"
  proof (cases "fDelivery f0 = requestExplicitlyRejected")
    case True
    then show ?thesis using sp(2)[OF True] by (simp add: replay_safe_def)
  next
    case False
    then show ?thesis using sp(1) by auto
  qed
  then show ?thesis
    unfolding streamPhase_def StreamFailed Let_def streamAnswer.case by (rule decideNext_post)
qed

lemma sendError_post: "post_ok ac s (sendErrorPhase c env ac err obs canceled answer s)"
  unfolding sendErrorPhase_def Let_def
  by (auto simp: againIf_def replay_safe_def split: option.splits prod.splits intro!: addFailure_post)

lemma send_post: "post_ok ac s (sendPhase c env ac s)"
  by (auto simp: sendPhase_def sendError_post stream_post rejection_post split: sendAnswer.splits)

lemma post_turn: "post_ok ac s (s', nxt) \<Longrightarrow> nxt \<noteq> Again \<or> (\<not> acSame ac \<and> \<not> hardPinned (lsOp s)) \<Longrightarrow> turn_ok ac s (s', nxt)"
  by (auto simp: post_ok_def turn_ok_def)

lemma suppress_turn: "turn_ok ac s (suppressRetry c d b s, BreakLoop)"
  using suppressRetry_facts[where s = s and c = c and d = d and b = b] by (simp add: turn_ok_def)

lemma stop_turn:
  assumes "decision = routeRetrySwitchTarget \<Longrightarrow> replay_safe f \<and> \<not> acSame ac \<and> \<not> hardPinned (lsOp s)"
  shows "turn_ok ac s (addFailure f t s, againIf decision)"
  by (rule post_turn[OF addFailure_post]) (use assms in \<open>auto simp: againIf_def\<close>)

lemma dispatch_turn: "turn_ok ac s (dispatchPhase c env ac s)"
proof (cases "ieStateOwner env = None \<and> iePersist env = None")
  case False
  then show ?thesis
    by (auto simp: dispatchPhase_def turn_ok_def op_trace_run split: option.splits)
next
  case True
  obtain op1 reserved decision where r:
    "reserveSendAtDispatch (ieLifeDispatch env) (lsOp s) = (op1, reserved, decision)" by (cases "reserveSendAtDispatch (ieLifeDispatch env) (lsOp s)") auto
  show ?thesis
  proof (cases reserved)
    case False
    have "turn_ok ac s (suppressRetry c decision None s, BreakLoop)" by (rule suppress_turn)
    then show ?thesis using True r False
      by (auto simp: dispatchPhase_def turn_ok_def op_trace_run)
  next
    case res: True
    let ?d = "\<lparr>dTarget = tbId (acTarget ac), dKind = acKind ac, dBefore = lsFailures s\<rparr>"
    let ?s = "s\<lparr>lsOp := op1, lsDispatched := ?d # lsDispatched s\<rparr>"
    have run: "op_step\<^sup>*\<^sup>* (lsOp s) op1"
      using op_reserveSend[of "lsOp s" "ieLifeDispatch env"] r by auto
    have f: "0 < remainingUpstreamSends (lsOp s)" "remainingUpstreamSends op1 = remainingUpstreamSends (lsOp s) - 1"
      "opRoute op1 = opRoute (lsOp s)" "pinnedTargetID op1 = pinnedTargetID (lsOp s)"
      "hardPinned op1 = hardPinned (lsOp s)" "remainingTargetAttempts op1 = remainingTargetAttempts (lsOp s)"
      using r res by (auto simp: reserveSendAtDispatch_def split: if_splits)
    obtain s' nxt where p: "sendPhase c env ac ?s = (s', nxt)" by fastforce
    have "dispatchPhase c env ac s = (s', nxt)"
      using True r res p by (simp add: dispatchPhase_def)
    moreover have "post_ok ac ?s (s', nxt)" using send_post[of ac ?s c env] p by simp
    ultimately show ?thesis using f rtranclp_trans[OF run]
      by (auto simp: turn_ok_def post_ok_def again_ok_def)
  qed
qed

lemma credential_switch:
  "explicitRouteCredentialFailureDecision life o' ep k err = routeRetrySwitchTarget \<Longrightarrow> \<not> hardPinned o'"
  by (auto simp: explicitRouteCredentialFailureDecision_def allowsAutomaticTargetSwitch_def split: if_splits)

lemma allows_soft: "allowsAutomaticTargetSwitch o' k \<Longrightarrow> \<not> hardPinned o'"
  by (auto simp: allowsAutomaticTargetSwitch_def split: if_splits)

lemma admission_turn: "turn_ok ac s (admissionPhase c env ac s)"
proof (cases "ieAdmission env")
  case AdmGranted
  then show ?thesis by (simp add: admissionPhase_def dispatch_turn)
next
  case (AdmBlocked captured retryAfter)
  then show ?thesis
    unfolding admissionPhase_def Let_def
    by (auto simp: suppress_turn replay_safe_def intro!: stop_turn dest: allows_soft)
next
  case (AdmError err)
  then show ?thesis
    unfolding admissionPhase_def Let_def
    by (auto simp: suppress_turn replay_safe_def intro!: stop_turn dest: credential_switch)
qed

lemma prepare_turn: "turn_ok ac s (preparePhase c env ac s)"
  unfolding preparePhase_def Let_def
  by (auto simp: suppress_turn admission_turn replay_safe_def split: option.split
      intro!: stop_turn dest: credential_switch)

lemma reserveTarget_facts:
  assumes "reserveTarget t o' = (o1, sq, switched, True)"
  shows "op_step\<^sup>*\<^sup>* o' o1" "opRoute o1 = opRoute o'" "pinnedTargetID o1 = pinnedTargetID o'"
    "hardPinned o1 = hardPinned o'" "remainingUpstreamSends o1 = remainingUpstreamSends o'"
    "t \<in> set (attemptedTargets o') \<and> remainingTargetAttempts o1 = remainingTargetAttempts o' \<or>
     t \<notin> set (attemptedTargets o') \<and> 0 < remainingTargetAttempts o' \<and>
       remainingTargetAttempts o1 = remainingTargetAttempts o' - 1"
  using assms op_reserveTarget[of o' t]
  by (auto simp: reserveTarget_def Let_def split: if_splits)

text \<open>The budget that a turn consumes before the loop goes round again.\<close>

definition potential :: "routeOperation \<Rightarrow> nat" where
  "potential o' = nat (remainingTargetAttempts o') + nat (remainingUpstreamSends o')"

definition progresses :: "routeOperation \<Rightarrow> bool" where
  "progresses o' \<longleftrightarrow> pinnedTargetID o' = '''' \<or> hardPinned o'"

text \<open>Where a turn may send: to the pinned target, to the target of a same-target retry, or to a
  target of the prefix that the mode of the route admits.\<close>

definition allowed_target :: "execConfig \<Rightarrow> routeOperation \<Rightarrow> string \<Rightarrow> bool" where
  "allowed_target c o' t \<longleftrightarrow>
     (if pinnedTargetID o' \<noteq> '''' then t = pinnedTargetID o'
      else t \<in> tbId ` set (take (maxOrderedTargets (xcRoute c)) (targets (xcRoute c))))"

lemma candidate_allowed:
  assumes "candidateTargets c s = t # ts" "lsRetryTarget s = '''' \<or> allowed_target c (lsOp s) (lsRetryTarget s)"
  shows "allowed_target c (lsOp s) (tbId t)"
    "lsRetryTarget s = '''' \<Longrightarrow> pinnedTargetID (lsOp s) = '''' \<Longrightarrow> tbId t \<notin> set (attemptedTargets (lsOp s))"
proof -
  have ord: "allowed_target c (lsOp s) (tbId t) \<and>
      (pinnedTargetID (lsOp s) = '''' \<longrightarrow> tbId t \<notin> set (attemptedTargets (lsOp s)))"
    if "t \<in> set (orderedRouteTargets (Some (xcRoute c)) (Some (lsOp s)) (xcEndpoint c))"
    using ordered_pinned[OF _ that] ordered_mem[OF that] by (auto simp: allowed_target_def)
  have head: "t \<in> set (candidateTargets c s)" using assms(1) by simp
  show "allowed_target c (lsOp s) (tbId t)"
  proof (cases "lsRetryTarget s = '''' \<or> targetByID (xcRoute c) (lsRetryTarget s) = None")
    case True
    then show ?thesis using head ord by (auto simp: candidateTargets_def Let_def split: if_splits)
  next
    case False
    then obtain u where u: "targetByID (xcRoute c) (lsRetryTarget s) = Some u" "lsRetryTarget s \<noteq> ''''" by auto
    then have "t = u" "tbId u = lsRetryTarget s"
      using assms(1) targetByID_mem by (auto simp: candidateTargets_def Let_def)
    then show ?thesis using assms(2) u(2) by simp
  qed
  show "lsRetryTarget s = '''' \<Longrightarrow> pinnedTargetID (lsOp s) = '''' \<Longrightarrow> tbId t \<notin> set (attemptedTargets (lsOp s))"
    using head ord by (auto simp: candidateTargets_def Let_def)
qed

lemma executorStep_cases:
  assumes "executorStep c env s = (s', nxt)"
  obtains (none) "candidateTargets c s = []" "s' = s\<lparr>lsRetryTarget := ''''\<rparr>" "nxt = BreakLoop"
  | (refused) t ts where "candidateTargets c s = t # ts" "nxt = BreakLoop"
      "op_step\<^sup>*\<^sup>* (lsOp s) (lsOp s')" "opRoute (lsOp s') = opRoute (lsOp s)" "lsDispatched s' = lsDispatched s"
      "remainingUpstreamSends (lsOp s') = remainingUpstreamSends (lsOp s)"
  | (turn) t ts o1 sq sw where "candidateTargets c s = t # ts"
      "reserveTarget (tbId t) (lsOp s) = (o1, sq, sw, True)"
      "turn_ok \<lparr>acTarget = t, acSequence = sq, acKind = attemptKindFor c (lsRetryTarget s \<noteq> '''') sw,
          acSame = (lsRetryTarget s \<noteq> '''')\<rparr> (s\<lparr>lsRetryTarget := '''', lsOp := o1\<rparr>) (s', nxt)"
proof (cases "candidateTargets c s")
  case Nil
  then show ?thesis using assms none by (simp add: executorStep_def Let_def)
next
  case (Cons t ts)
  obtain o1 sq sw ok where r: "reserveTarget (tbId t) (lsOp s) = (o1, sq, sw, ok)"
    by (cases "reserveTarget (tbId t) (lsOp s)") auto
  show ?thesis
  proof (cases ok)
    case True
    let ?ac = "\<lparr>acTarget = t, acSequence = sq, acKind = attemptKindFor c (lsRetryTarget s \<noteq> '''') sw,
          acSame = (lsRetryTarget s \<noteq> '''')\<rparr>"
    have "preparePhase c env ?ac (s\<lparr>lsRetryTarget := '''', lsOp := o1\<rparr>) = (s', nxt)"
      using assms Cons r True by (simp add: executorStep_def Let_def)
    then have ok: "turn_ok ?ac (s\<lparr>lsRetryTarget := '''', lsOp := o1\<rparr>) (s', nxt)"
      using prepare_turn[of ?ac "s\<lparr>lsRetryTarget := '''', lsOp := o1\<rparr>" c env] by simp
    have "reserveTarget (tbId t) (lsOp s) = (o1, sq, sw, True)" using r True by simp
    then show ?thesis by (rule turn[OF Cons _ ok])
  next
    case False
    have "nxt = BreakLoop" "s' = suppressRetry c routeRetrySuppressedBudget None (s\<lparr>lsRetryTarget := ''''\<rparr>) \<or>
        (lsOp s' = lsOp s \<and> lsDispatched s' = lsDispatched s)"
      using assms Cons r False by (auto simp: executorStep_def Let_def split: if_splits)
    then show ?thesis
      using suppressRetry_facts[where s = "s\<lparr>lsRetryTarget := ''''\<rparr>" and c = c and d = routeRetrySuppressedBudget and b = None] Cons
      by (intro refused[of t ts]) auto
  qed
qed

definition loop_ok :: "execConfig \<Rightarrow> loopState \<Rightarrow> loopState \<Rightarrow> bool" where
  "loop_ok c s s' \<longleftrightarrow>
     op_step\<^sup>*\<^sup>* (lsOp s) (lsOp s') \<and> opRoute (lsOp s') = opRoute (lsOp s) \<and>
     (lsDispatched s' = lsDispatched s \<and>
        remainingUpstreamSends (lsOp s') = remainingUpstreamSends (lsOp s) \<or>
      (\<exists>d. lsDispatched s' = d # lsDispatched s \<and> allowed_target c (lsOp s) (dTarget d) \<and>
           dBefore d = lsFailures s \<and> 0 < remainingUpstreamSends (lsOp s) \<and>
           remainingUpstreamSends (lsOp s') = remainingUpstreamSends (lsOp s) - 1))"

lemma step_loop_ok:
  assumes step: "executorStep c env s = (s', nxt)"
    and rt: "lsRetryTarget s = '''' \<or> allowed_target c (lsOp s) (lsRetryTarget s)"
  shows "loop_ok c s s'"
  using step
proof (cases rule: executorStep_cases)
  case (turn t ts o1 sq sw)
  have "allowed_target c (lsOp s) (tbId t)" by (rule candidate_allowed(1)[OF turn(1) rt])
  with turn(3) rtranclp_trans[OF reserveTarget_facts(1)[OF turn(2)]] reserveTarget_facts(2,5)[OF turn(2)]
  show ?thesis by (auto simp: turn_ok_def loop_ok_def)
qed (auto simp: loop_ok_def)

lemma step_again:
  assumes step: "executorStep c env s = (s', Again)"
    and rt: "lsRetryTarget s = '''' \<or> allowed_target c (lsOp s) (lsRetryTarget s)"
  shows "\<exists>f. lsFailures s' = lsFailures s @ [f] \<and> replay_safe f"
    "pinnedTargetID (lsOp s') = pinnedTargetID (lsOp s) \<and> hardPinned (lsOp s') = hardPinned (lsOp s)"
    "lsRetryTarget s' = '''' \<or> allowed_target c (lsOp s') (lsRetryTarget s')"
    "progresses (lsOp s) \<Longrightarrow> potential (lsOp s') < potential (lsOp s)"
proof -
  from step obtain t ts o1 sq sw where turn: "candidateTargets c s = t # ts"
      "reserveTarget (tbId t) (lsOp s) = (o1, sq, sw, True)"
      "turn_ok \<lparr>acTarget = t, acSequence = sq, acKind = attemptKindFor c (lsRetryTarget s \<noteq> '''') sw,
          acSame = (lsRetryTarget s \<noteq> '''')\<rparr> (s\<lparr>lsRetryTarget := '''', lsOp := o1\<rparr>) (s', Again)"
    by (cases rule: executorStep_cases) auto
  note al = candidate_allowed[OF turn(1) rt] and rf = reserveTarget_facts[OF turn(2)]
  show "\<exists>f. lsFailures s' = lsFailures s @ [f] \<and> replay_safe f"
    and pins: "pinnedTargetID (lsOp s') = pinnedTargetID (lsOp s) \<and> hardPinned (lsOp s') = hardPinned (lsOp s)"
    using turn(3) rf(3,4) by (auto simp: turn_ok_def again_ok_def)
  have "lsRetryTarget s' \<in> {'''', tbId t}" using turn(3) by (auto simp: turn_ok_def again_ok_def)
  with al(1) pins show "lsRetryTarget s' = '''' \<or> allowed_target c (lsOp s') (lsRetryTarget s')"
    by (auto simp: allowed_target_def)
  assume pr: "progresses (lsOp s)"
  have rt': "remainingTargetAttempts (lsOp s') = remainingTargetAttempts o1"
    using turn(3) by (auto simp: turn_ok_def again_ok_def)
  have sends: "remainingUpstreamSends (lsOp s') = remainingUpstreamSends (lsOp s) \<and>
        lsRetryTarget s = '''' \<and> \<not> hardPinned (lsOp s) \<or>
      0 < remainingUpstreamSends (lsOp s) \<and> remainingUpstreamSends (lsOp s') = remainingUpstreamSends (lsOp s) - 1"
    using turn(3) rf(4,5) by (auto simp: turn_ok_def)
  then show "potential (lsOp s') < potential (lsOp s)"
  proof (elim disjE conjE)
    assume a: "remainingUpstreamSends (lsOp s') = remainingUpstreamSends (lsOp s)" "lsRetryTarget s = ''''"
      "\<not> hardPinned (lsOp s)"
    then have "tbId t \<notin> set (attemptedTargets (lsOp s))" using al(2) pr by (simp add: progresses_def)
    then show ?thesis using rf(6) a(1) rt' by (auto simp: potential_def)
  next
    assume "0 < remainingUpstreamSends (lsOp s)" "remainingUpstreamSends (lsOp s') = remainingUpstreamSends (lsOp s) - 1"
    then show ?thesis using rf(6) rt' by (auto simp: potential_def)
  qed
qed

section \<open>The whole loop\<close>

text \<open>What holds whenever the loop goes round, relative to the operation it started with.\<close>

definition loop_inv :: "execConfig \<Rightarrow> routeOperation \<Rightarrow> loopState \<Rightarrow> bool" where
  "loop_inv c o0 s \<longleftrightarrow>
     op_step\<^sup>*\<^sup>* o0 (lsOp s) \<and> opRoute (lsOp s) = opRoute o0 \<and>
     list_all (\<lambda>d. list_all replay_safe (dBefore d) \<and> allowed_target c o0 (dTarget d)) (lsDispatched s) \<and>
     int (length (lsDispatched s)) + remainingUpstreamSends (lsOp s) = remainingUpstreamSends o0 \<and>
     (\<forall>later d earlier. lsDispatched s = later @ d # earlier \<longrightarrow> length earlier \<le> length (dBefore d))"

definition round_inv :: "execConfig \<Rightarrow> routeOperation \<Rightarrow> loopState \<Rightarrow> bool" where
  "round_inv c o0 s \<longleftrightarrow> loop_inv c o0 s \<and>
     list_all replay_safe (lsFailures s) \<and> length (lsDispatched s) \<le> length (lsFailures s) \<and>
     pinnedTargetID (lsOp s) = pinnedTargetID o0 \<and> hardPinned (lsOp s) = hardPinned o0 \<and>
     (lsRetryTarget s = '''' \<or> allowed_target c (lsOp s) (lsRetryTarget s))"

lemma initial_round: "round_inv c o' (initialState o')"
  by (simp add: round_inv_def loop_inv_def initialState_def)

lemma split_cons:
  assumes "\<forall>later d earlier. ds = later @ d # earlier \<longrightarrow> length earlier \<le> length (dBefore d)"
    "length ds \<le> length (dBefore x)"
  shows "\<forall>later d earlier. x # ds = later @ d # earlier \<longrightarrow> length earlier \<le> length (dBefore d)"
proof (intro allI impI)
  fix later d earlier assume "x # ds = later @ d # earlier"
  then show "length earlier \<le> length (dBefore d)" using assms by (cases later) auto
qed

lemma step_keeps_loop_inv:
  assumes "round_inv c o0 s" "executorStep c env s = (s', nxt)"
  shows "loop_inv c o0 s'"
proof -
  have rt: "lsRetryTarget s = '''' \<or> allowed_target c (lsOp s) (lsRetryTarget s)"
    using assms(1) by (simp add: round_inv_def)
  have al: "allowed_target c (lsOp s) t \<longleftrightarrow> allowed_target c o0 t" for t
    using assms(1) by (simp add: round_inv_def allowed_target_def)
  note ok = step_loop_ok[OF assms(2) rt, unfolded loop_ok_def]
  have I: "op_step\<^sup>*\<^sup>* o0 (lsOp s)" "opRoute (lsOp s) = opRoute o0"
    "list_all (\<lambda>d. list_all replay_safe (dBefore d) \<and> allowed_target c o0 (dTarget d)) (lsDispatched s)"
    "int (length (lsDispatched s)) + remainingUpstreamSends (lsOp s) = remainingUpstreamSends o0"
    "\<forall>later d earlier. lsDispatched s = later @ d # earlier \<longrightarrow> length earlier \<le> length (dBefore d)"
    "list_all replay_safe (lsFailures s)" "length (lsDispatched s) \<le> length (lsFailures s)"
    using assms(1) unfolding round_inv_def loop_inv_def by simp_all
  have run: "op_step\<^sup>*\<^sup>* o0 (lsOp s')" "opRoute (lsOp s') = opRoute o0"
    using rtranclp_trans[OF I(1)] ok I(2) by simp_all
  from ok consider "lsDispatched s' = lsDispatched s"
      "remainingUpstreamSends (lsOp s') = remainingUpstreamSends (lsOp s)"
    | d where "lsDispatched s' = d # lsDispatched s" "allowed_target c (lsOp s) (dTarget d)"
      "dBefore d = lsFailures s" "remainingUpstreamSends (lsOp s') = remainingUpstreamSends (lsOp s) - 1"
    by blast
  then show ?thesis
  proof cases
    case 1
    then show ?thesis using run I unfolding loop_inv_def by simp
  next
    case (2 d)
    have "length (lsDispatched s) \<le> length (dBefore d)" using I(7) 2(3) by simp
    from split_cons[OF I(5) this] have "\<forall>later d' earlier. lsDispatched s' = later @ d' # earlier \<longrightarrow>
        length earlier \<le> length (dBefore d')" unfolding 2(1) .
    then show ?thesis using run I(3,4,6) 2 al unfolding loop_inv_def by simp
  qed
qed

lemma step_keeps_round_inv:
  assumes "round_inv c o0 s" "executorStep c env s = (s', Again)"
  shows "round_inv c o0 s'"
proof -
  have rt: "lsRetryTarget s = '''' \<or> allowed_target c (lsOp s) (lsRetryTarget s)"
    using assms(1) by (simp add: round_inv_def)
  note ag = step_again[OF assms(2) rt]
  have "length (lsDispatched s') \<le> Suc (length (lsDispatched s))"
    using step_loop_ok[OF assms(2) rt] by (auto simp: loop_ok_def)
  then show ?thesis
    using step_keeps_loop_inv[OF assms] ag(1-3) assms(1) by (auto simp: round_inv_def)
qed

lemma loop_result_inv:
  "executorLoop fuel c env i s = Some (s', r) \<Longrightarrow> round_inv c o0 s \<Longrightarrow> loop_inv c o0 s'"
proof (induction fuel arbitrary: i s)
  case (Suc fuel)
  obtain s1 nxt where st: "executorStep c (env i) s = (s1, nxt)" by fastforce
  show ?case
  proof (cases nxt)
    case Again
    with Suc st step_keeps_round_inv show ?thesis by (fastforce intro: Suc.IH)
  qed (use Suc.prems st step_keeps_loop_inv in auto)
qed simp

lemma loop_ends:
  assumes "round_inv c o0 s" "progresses o0" "potential (lsOp s) < fuel"
  shows "executorLoop fuel c env i s \<noteq> None"
  using assms(1,3)
proof (induction fuel arbitrary: i s)
  case (Suc fuel)
  obtain s1 nxt where st: "executorStep c (env i) s = (s1, nxt)" by fastforce
  show ?case
  proof (cases nxt)
    case Again
    with st have st': "executorStep c (env i) s = (s1, Again)" by simp
    have rt: "lsRetryTarget s = '''' \<or> allowed_target c (lsOp s) (lsRetryTarget s)"
      and pr: "progresses (lsOp s)"
      using Suc.prems(1) assms(2) by (simp_all add: round_inv_def progresses_def)
    have "potential (lsOp s1) < fuel" using step_again(4)[OF st' rt pr] Suc.prems(2) by simp
    from Suc.IH[OF step_keeps_round_inv[OF Suc.prems(1) st'] this, of "Suc i"] st' show ?thesis by simp
  qed (use st in auto)
qed simp

section \<open>Examples\<close>

text \<open>The first target cannot be reached, the second one answers.\<close>

definition exCaptured :: capturedRouteResponse where
  "exCaptured = \<lparr>capStatus = 200, capHeader = [], capBody = '''', capBodyIncomplete = False, capUpstreamID = ''''\<rparr>"

definition exIter :: "nat \<Rightarrow> iterEnv" where
  "exIter n = \<lparr>iePrepare = None, ieNewRequest = None, ieLifeCredential = exLife, ieNativeReject = None,
     ieAdmission = AdmGranted, ieLifeAdmission = exLife, ieStateOwner = None, iePersist = None,
     ieLifeDispatch = exLife,
     ieSend = (if n = 0 then SendFailed (plainError ''refused'') (newRouteSendObservation 0) False None
               else SendResponse 200),
     ieLifeSent = exLife,
     iePeek = \<lparr>peErr = None, peHasResult = False, peAwaitInbound = False, peInboundErr = None,
               peEvent = None, peCleanupDone = True, peUpstreamID = ''''\<rparr>,
     ieCaptured = (exCaptured, True),
     ieRejection = \<lparr>rejLife = exLife, rejCtx = exView, rejInbound = None,
                    rejParseDelay = (\<lambda>_. None), rejTraffic = None\<rparr>,
     ieAzureRetryAfter = (\<lambda>_. ''''), ieNow = 0, ieHeaderBind = None, ieDrained = True, ieUpstreamID = ''''\<rparr>"

definition exExec :: execConfig where
  "exExec = \<lparr>xcApi = \<lparr>jsonValid = (\<lambda>_. False), jsonNoDuplicateKeys = (\<lambda>_. False),
       jsonDecodeObject = (\<lambda>_. None), jsonErrorEnvelope = (\<lambda>_. None)\<rparr>,
     xcRoute = exRoute, xcEndpoint = providerEndpointResponses, xcKind = routeAttemptNormal,
     xcStream = False, xcParseTime = (\<lambda>_. None), xcParseDuration = (\<lambda>_. None), xcParseDelay = (\<lambda>_. None)\<rparr>"

lemma exExec_run:
  "\<exists>s' r d e. executeExplicitRouteRequestPath 6 exExec exIter exOp = Some (s', r) \<and>
     lsDispatched s' = [] @ d # [e] \<and> dTarget d = ''b'' \<and> dTarget e = ''a''"
proof -
  let ?x = "executeExplicitRouteRequestPath 6 exExec exIter exOp"
  have "map_option (\<lambda>(s, r). map dTarget (lsDispatched s)) ?x = Some [''b'', ''a'']" by code_simp
  then obtain s' r where x: "?x = Some (s', r)" "map dTarget (lsDispatched s') = [''b'', ''a'']" by auto
  then obtain d e where "lsDispatched s' = [d, e]" "dTarget d = ''b''" "dTarget e = ''a''" by auto
  with x(1) show ?thesis by auto
qed

lemma exOp_budgets: "remainingUpstreamSends exOp = 3" "remainingTargetAttempts exOp = 2"
  "pinnedTargetID exOp = ''''"
  by code_simp+

section \<open>Properties\<close>

text \<open>C1. A request is only sent again after replay-safe failures: before every physical send,
  each earlier send of the execution has left a recorded failure, and every recorded failure
  was either not delivered at all or explicitly rejected and cleaned up, with nothing
  committed to the client and no output seen.\<close>

theorem resend_only_when_safe:
  assumes "executeExplicitRouteRequestPath fuel c env o' = Some (s', r)"
    "lsDispatched s' = later @ d # earlier"
  shows "list_all replay_safe (dBefore d) \<and> length earlier \<le> length (dBefore d)"
proof -
  have "lsDispatched s' \<noteq> []" using assms(2) by simp
  then have "executorLoop fuel c env 0 (initialState o') = Some (s', r)"
    using assms(1) by (auto simp: executeExplicitRouteRequestPath_def initialState_def split: if_splits)
  from loop_result_inv[OF this initial_round] assms(2) show ?thesis
    by (auto simp: loop_inv_def)
qed

lemma resend_only_when_safe_witness:
  "\<exists>s' r d e. executeExplicitRouteRequestPath 6 exExec exIter exOp = Some (s', r) \<and>
     lsDispatched s' = [d, e] \<and> list_all replay_safe (dBefore d) \<and> 1 \<le> length (dBefore d)"
proof -
  obtain s' r d e where x: "executeExplicitRouteRequestPath 6 exExec exIter exOp = Some (s', r)"
    "lsDispatched s' = [] @ d # [e]" using exExec_run by blast
  from resend_only_when_safe[OF x] x show ?thesis by auto
qed

text \<open>C29. An execution sends at most as often as its operation's send budget allows, every send
  goes to the pinned target when the operation is pinned, and otherwise to a target of the
  route, the first one if the route is primary-only.\<close>

theorem sends_within_budget_and_route:
  assumes "executeExplicitRouteRequestPath fuel c env o' = Some (s', r)" "0 \<le> remainingUpstreamSends o'"
  shows "int (length (lsDispatched s')) + remainingUpstreamSends (lsOp s') = remainingUpstreamSends o' \<and>
    op_step\<^sup>*\<^sup>* o' (lsOp s') \<and>
    list_all (\<lambda>d. if pinnedTargetID o' \<noteq> '''' then dTarget d = pinnedTargetID o'
                  else dTarget d \<in> tbId ` set (take (maxOrderedTargets (xcRoute c)) (targets (xcRoute c))))
      (lsDispatched s')"
proof (cases "executorLoop fuel c env 0 (initialState o') = Some (s', r)")
  case True
  from loop_result_inv[OF this initial_round] show ?thesis
    by (auto simp: loop_inv_def allowed_target_def list_all_iff)
next
  case False
  then show ?thesis using assms(1)
    by (auto simp: executeExplicitRouteRequestPath_def initialState_def split: if_splits)
qed

lemma sends_within_budget_and_route_witness:
  "\<exists>s' r. executeExplicitRouteRequestPath 6 exExec exIter exOp = Some (s', r) \<and>
     remainingUpstreamSends (lsOp s') = 1"
proof -
  obtain s' r d e where x: "executeExplicitRouteRequestPath 6 exExec exIter exOp = Some (s', r)"
    "lsDispatched s' = [] @ d # [e]" using exExec_run by blast
  from sends_within_budget_and_route[OF x(1)] x show ?thesis by (auto simp: exOp_budgets)
qed

text \<open>C30. Execution ends: an operation that is not pinned, or is hard pinned, is answered within
  one more turn than its two budgets together, whatever the surroundings answer: the last turn is the
  one that finds the budgets spent. (A softly pinned operation whose admission is blocked may go round
  without consuming a budget.)\<close>

theorem execution_ends:
  assumes "pinnedTargetID o' = '''' \<or> hardPinned o'"
    "nat (remainingTargetAttempts o') + nat (remainingUpstreamSends o') < fuel"
  shows "\<exists>s' r. executeExplicitRouteRequestPath fuel c env o' = Some (s', r)"
proof -
  have "executorLoop fuel c env 0 (initialState o') \<noteq> None"
    using loop_ends[OF initial_round, of o' fuel c env 0] assms
    by (simp add: progresses_def potential_def initialState_def)
  then show ?thesis by (auto simp: executeExplicitRouteRequestPath_def)
qed

lemma execution_ends_witness:
  "\<exists>s' r. executeExplicitRouteRequestPath 6 exExec exIter exOp = Some (s', r)"
  by (rule execution_ends) (simp_all add: exOp_budgets)

end
