(* ===== verification/Tail_Buffer.thy ===== *)
theory Tail_Buffer
  imports Prelude
begin

text \<open>
  The diagnostic tail of a response body (\<open>routeAttemptTailBuffer\<close> of
  \<open>proxy/route_executor.go\<close>): a buffer that grows geometrically up to a fixed bound and then
  becomes a ring. The backing array is its contents together with its capacity; the theory
  shows that the buffer refines "the last bytes of the stream", however the stream is cut into
  chunks.
\<close>

section \<open>The buffer\<close>

definition routeAttemptObservationTail :: nat where
  "routeAttemptObservationTail = 64 * 1024"

definition routeAttemptObservationTailInitial :: nat where
  "routeAttemptObservationTailInitial = 1024"

record routeAttemptTailBuffer =
  rbBuf :: string
  rbCap :: nat
  rbStart :: nat
  rbOverflow :: bool

definition emptyTailBuffer :: routeAttemptTailBuffer where
  "emptyTailBuffer = \<lparr>rbBuf = '''', rbCap = 0, rbStart = 0, rbOverflow = False\<rparr>"

text \<open>Go's \<open>copy\<close> into the suffix of \<open>dst\<close> from \<open>off\<close>: as many bytes as fit.\<close>

definition copyAt :: "nat \<Rightarrow> string \<Rightarrow> string \<Rightarrow> string" where
  "copyAt off src dst =
     (let k = min (length dst - off) (length src) in take off dst @ take k src @ drop (off + k) dst)"

text \<open>The doubling loop; the caller starts it with a positive capacity.\<close>

function growCapacity :: "nat \<Rightarrow> nat \<Rightarrow> nat" where
  "growCapacity capacity needed =
     (if 0 < capacity \<and> capacity < needed \<and> capacity < routeAttemptObservationTail
      then growCapacity (capacity * 2) needed else capacity)"
  by auto
termination by (relation "measure (\<lambda>(c, _). routeAttemptObservationTail - c)") auto

declare growCapacity.simps [simp del]

definition ensureCapacity :: "nat \<Rightarrow> routeAttemptTailBuffer \<Rightarrow> routeAttemptTailBuffer" where
  "ensureCapacity needed b =
     (if needed \<le> rbCap b then b
      else let capacity = growCapacity (if rbCap b = 0 then routeAttemptObservationTailInitial else rbCap b) needed
           in b\<lparr>rbCap := (if capacity > routeAttemptObservationTail then routeAttemptObservationTail
                         else capacity)\<rparr>)"

text \<open>Overwrite the oldest bytes of a full buffer.\<close>

definition ringWrite :: "string \<Rightarrow> routeAttemptTailBuffer \<Rightarrow> routeAttemptTailBuffer" where
  "ringWrite p b =
     (let written = min (length (rbBuf b) - rbStart b) (length p)
      in b\<lparr>rbBuf := copyAt 0 (drop written p) (copyAt (rbStart b) p (rbBuf b)),
           rbStart := (rbStart b + length p) mod routeAttemptObservationTail\<rparr>)"

text \<open>A chunk of at least the bound replaces all contents: the buffer is resliced to the bound
  and every byte of it is overwritten.\<close>

definition tailAppend :: "string \<Rightarrow> routeAttemptTailBuffer \<Rightarrow> routeAttemptTailBuffer" where
  "tailAppend p b =
     (if p = [] then b
      else if length p \<ge> routeAttemptObservationTail then
        let hadData = rbBuf b \<noteq> []; b1 = ensureCapacity routeAttemptObservationTail b
        in b1\<lparr>rbBuf := drop (length p - routeAttemptObservationTail) p, rbStart := 0,
              rbOverflow := rbOverflow b \<or> hadData \<or> length p > routeAttemptObservationTail\<rparr>
      else if \<not> rbOverflow b then
        let needed = length (rbBuf b) + length p
        in if needed \<le> routeAttemptObservationTail then
             (let b1 = ensureCapacity needed b in b1\<lparr>rbBuf := rbBuf b1 @ p\<rparr>)
           else
             let b1 = ensureCapacity routeAttemptObservationTail b;
                 fill = routeAttemptObservationTail - length (rbBuf b1);
                 b2 = b1\<lparr>rbBuf := rbBuf b1 @ take fill p, rbOverflow := True, rbStart := 0\<rparr>
             in ringWrite (drop fill p) b2
      else ringWrite p b)"

definition tailBytes :: "routeAttemptTailBuffer \<Rightarrow> string" where
  "tailBytes b =
     (if rbBuf b = [] then ''''
      else if \<not> rbOverflow b \<or> rbStart b = 0 then rbBuf b
      else drop (rbStart b) (rbBuf b) @ take (rbStart b) (rbBuf b))"

definition tailOverflowed :: "routeAttemptTailBuffer \<Rightarrow> bool" where
  "tailOverflowed b = rbOverflow b"

section \<open>The ring\<close>

lemma tail_pos [simp]: "0 < routeAttemptObservationTail"
  by (simp add: routeAttemptObservationTail_def)

lemma copyAt_length [simp]: "off \<le> length dst \<Longrightarrow> length (copyAt off src dst) = length dst"
  by (auto simp: copyAt_def Let_def min_def)

text \<open>Reading the buffer from its oldest byte.\<close>

definition unrolled :: "routeAttemptTailBuffer \<Rightarrow> string" where
  "unrolled b = drop (rbStart b) (rbBuf b) @ take (rbStart b) (rbBuf b)"

lemma copyAt_fits: "length p \<le> length c \<Longrightarrow> copyAt (length a) p (a @ c) = a @ p @ drop (length p) c"
  by (simp add: copyAt_def Let_def min_absorb2)

lemma copyAt_cut: "length c \<le> length p \<Longrightarrow> copyAt (length a) p (a @ c) = a @ take (length c) p"
  by (simp add: copyAt_def Let_def min_absorb1)

lemma copyAt_nil: "copyAt off [] dst = dst"
  by (simp add: copyAt_def Let_def)

lemma ringWrite_unrolled:
  assumes "length (rbBuf b) = routeAttemptObservationTail" "rbStart b < routeAttemptObservationTail"
    "length p < routeAttemptObservationTail"
  shows "unrolled (ringWrite p b) = drop (length p) (unrolled b) @ p"
proof -
  define a c where "a = take (rbStart b) (rbBuf b)" and "c = drop (rbStart b) (rbBuf b)"
  have buf: "rbBuf b = a @ c" "rbStart b = length a" "length a + length c = routeAttemptObservationTail"
    using assms by (simp_all add: a_def c_def)
  have un: "unrolled b = c @ a" by (simp add: unrolled_def buf)
  show ?thesis
  proof (cases "length p < length c")
    case True
    then have "rbBuf (ringWrite p b) = a @ p @ drop (length p) c" "rbStart (ringWrite p b) = length a + length p"
      using buf assms by (simp_all add: ringWrite_def Let_def copyAt_fits copyAt_nil)
    then show ?thesis using True by (simp add: unrolled_def[of "ringWrite p b"] un)
  next
    case False
    define rest where "rest = drop (length c) p"
    have rest: "length rest \<le> length a" "length p = length c + length rest" "length rest < routeAttemptObservationTail"
      "take (length c) p @ rest = p"
      using False buf assms by (simp_all add: rest_def)
    have "copyAt 0 rest (a @ take (length c) p) = rest @ drop (length rest) a @ take (length c) p"
      using copyAt_fits[of rest "a @ take (length c) p" "[]"] rest by simp
    then have "rbBuf (ringWrite p b) = rest @ drop (length rest) a @ take (length c) p"
      using False buf(1,2) by (simp add: ringWrite_def Let_def copyAt_cut rest_def)
    moreover have "rbStart (ringWrite p b) = length rest"
      using buf rest by (simp add: ringWrite_def Let_def add.assoc[symmetric])
    ultimately show ?thesis using rest by (simp add: unrolled_def[of "ringWrite p b"] un)
  qed
qed

lemma ringWrite_simps [simp]:
  "rbOverflow (ringWrite p b) = rbOverflow b" "rbCap (ringWrite p b) = rbCap b"
  "rbStart b \<le> length (rbBuf b) \<Longrightarrow> length (rbBuf (ringWrite p b)) = length (rbBuf b)"
  "rbStart (ringWrite p b) < routeAttemptObservationTail"
  by (simp_all add: ringWrite_def Let_def)

lemma ensureCapacity_simps [simp]:
  "rbBuf (ensureCapacity n b) = rbBuf b" "rbStart (ensureCapacity n b) = rbStart b"
  "rbOverflow (ensureCapacity n b) = rbOverflow b"
  by (simp_all add: ensureCapacity_def Let_def)

section \<open>Capacity\<close>

lemma growCapacity_enough:
  "0 < capacity \<Longrightarrow> needed \<le> growCapacity capacity needed \<or>
     routeAttemptObservationTail \<le> growCapacity capacity needed"
proof (induction capacity needed rule: growCapacity.induct)
  case (1 capacity needed)
  show ?case
  proof (cases "capacity < needed \<and> capacity < routeAttemptObservationTail")
    case True
    then have "growCapacity capacity needed = growCapacity (capacity * 2) needed"
      using 1(2) by (subst growCapacity.simps) simp
    then show ?thesis using 1 True by simp
  next
    case False
    then have "growCapacity capacity needed = capacity" by (subst growCapacity.simps) auto
    then show ?thesis using False by auto
  qed
qed

lemma ensureCapacity_enough:
  "needed \<le> routeAttemptObservationTail \<Longrightarrow> needed \<le> rbCap (ensureCapacity needed b)"
  using growCapacity_enough[of "if rbCap b = 0 then routeAttemptObservationTailInitial else rbCap b" needed]
  by (auto simp: ensureCapacity_def Let_def routeAttemptObservationTailInitial_def)

lemma ensureCapacity_bounded:
  "rbCap b \<le> routeAttemptObservationTail \<Longrightarrow> rbCap (ensureCapacity needed b) \<le> routeAttemptObservationTail"
  by (auto simp: ensureCapacity_def Let_def)

section \<open>Refinement\<close>

text \<open>The last \<open>n\<close> bytes of a stream.\<close>

definition lastBytes :: "nat \<Rightarrow> string \<Rightarrow> string" where
  "lastBytes n s = drop (length s - n) s"

lemma lastBytes_all: "length s \<le> n \<Longrightarrow> lastBytes n s = s"
  by (simp add: lastBytes_def)

lemma lastBytes_append_long: "n \<le> length p \<Longrightarrow> lastBytes n (s @ p) = lastBytes n p"
  by (simp add: lastBytes_def)

lemma lastBytes_append_short:
  "n \<le> length s \<Longrightarrow> length p \<le> n \<Longrightarrow> lastBytes n (s @ p) = drop (length p) (lastBytes n s) @ p"
  by (simp add: lastBytes_def add.commute)

definition tail_rel :: "string \<Rightarrow> routeAttemptTailBuffer \<Rightarrow> bool" where
  "tail_rel s b \<longleftrightarrow>
     length (rbBuf b) \<le> rbCap b \<and> rbCap b \<le> routeAttemptObservationTail \<and>
     (if rbOverflow b
      then routeAttemptObservationTail < length s \<and> length (rbBuf b) = routeAttemptObservationTail \<and>
        rbStart b < routeAttemptObservationTail \<and> unrolled b = lastBytes routeAttemptObservationTail s
      else rbStart b = 0 \<and> rbBuf b = s)"

lemma tail_rel_empty: "tail_rel '''' emptyTailBuffer"
  by (simp add: tail_rel_def emptyTailBuffer_def)

lemma tail_rel_ring:
  assumes "tail_rel s b" "rbOverflow b" "length p < routeAttemptObservationTail"
  shows "tail_rel (s @ p) (ringWrite p b)"
  using assms ringWrite_unrolled[of b p]
  by (auto simp: tail_rel_def lastBytes_append_short)

lemma tail_rel_append:
  assumes "tail_rel s b"
  shows "tail_rel (s @ p) (tailAppend p b)"
proof -
  let ?N = routeAttemptObservationTail
  have cap: "rbCap b \<le> ?N" "length (rbBuf b) \<le> rbCap b" using assms by (auto simp: tail_rel_def)
  consider "p = []" | "p \<noteq> []" "?N \<le> length p"
    | "p \<noteq> []" "length p < ?N" "\<not> rbOverflow b" "length (rbBuf b) + length p \<le> ?N"
    | "p \<noteq> []" "length p < ?N" "\<not> rbOverflow b" "?N < length (rbBuf b) + length p"
    | "p \<noteq> []" "length p < ?N" "rbOverflow b"
    by linarith
  then show ?thesis
  proof cases
    case 1 then show ?thesis using assms by (simp add: tailAppend_def)
  next
    case 2
    have "?N \<le> rbCap (ensureCapacity ?N b)" by (rule ensureCapacity_enough) simp
    moreover have "rbBuf b \<noteq> [] \<Longrightarrow> ?N < length (rbBuf b) + length p" using 2 by (cases "rbBuf b") auto
    moreover have "rbOverflow b \<or> s \<noteq> [] \<longleftrightarrow> s \<noteq> []"
      using assms tail_pos by (auto simp: tail_rel_def)
    ultimately show ?thesis using 2 assms ensureCapacity_bounded[OF cap(1), of ?N]
      by (auto simp: tailAppend_def Let_def tail_rel_def unrolled_def lastBytes_append_long lastBytes_def
          split: if_splits)
  next
    case 3
    then show ?thesis
      using assms ensureCapacity_enough[OF 3(4), of b] ensureCapacity_bounded[OF cap(1)]
      by (auto simp: tailAppend_def Let_def tail_rel_def)
  next
    case 4
    let ?fill = "?N - length s"
    have s: "rbBuf b = s" "length s \<le> ?N" using assms 4 cap by (auto simp: tail_rel_def)
    define b2 where "b2 = (ensureCapacity ?N b)\<lparr>rbBuf := s @ take ?fill p, rbOverflow := True, rbStart := 0\<rparr>"
    have b2: "length (rbBuf b2) = ?N" "rbStart b2 = 0" "unrolled b2 = s @ take ?fill p" "rbOverflow b2"
      using s 4 by (auto simp: b2_def unrolled_def)
    have r: "tailAppend p b = ringWrite (drop ?fill p) b2"
      using 4 s by (simp add: tailAppend_def Let_def b2_def)
    have c: "?N \<le> rbCap b2" "rbCap b2 \<le> ?N"
      using ensureCapacity_enough[of ?N b] ensureCapacity_bounded[OF cap(1)] by (simp_all add: b2_def)
    have "drop (length (drop ?fill p)) (s @ take ?fill p) @ drop ?fill p =
        drop (length s + length p - ?N) (s @ take ?fill p @ drop ?fill p)"
      using s 4 by (simp del: append_take_drop_id add: add.commute)
    then have "unrolled (ringWrite (drop ?fill p) b2) = lastBytes ?N (s @ p)"
      using ringWrite_unrolled[of b2 "drop ?fill p"] b2 4 by (simp add: lastBytes_def)
    then show ?thesis using b2 c 4 s by (simp add: r tail_rel_def)
  next
    case 5
    then show ?thesis using tail_rel_ring[OF assms] by (simp add: tailAppend_def)
  qed
qed

lemma tail_rel_chunks: "tail_rel (s @ concat ps) (fold tailAppend ps b)" if "tail_rel s b"
  using that
proof (induction ps arbitrary: s b)
  case (Cons p ps)
  from Cons.IH[OF tail_rel_append[OF Cons.prems]] show ?case by simp
qed simp

lemma tail_rel_bytes: "tail_rel s b \<Longrightarrow> tailBytes b = lastBytes routeAttemptObservationTail s"
  by (auto simp: tail_rel_def tailBytes_def unrolled_def lastBytes_all split: if_splits)

section \<open>Properties\<close>

text \<open>C39. The tail buffer holds exactly the last 64 KiB of the stream, whatever the chunks it
  arrived in, reports an overflow exactly if bytes were dropped, and never has more capacity
  than the bound.\<close>

theorem tail_holds_last_bytes:
  "tailBytes (fold tailAppend ps emptyTailBuffer) = lastBytes (64 * 1024) (concat ps) \<and>
   tailOverflowed (fold tailAppend ps emptyTailBuffer) = (64 * 1024 < length (concat ps)) \<and>
   length (rbBuf (fold tailAppend ps emptyTailBuffer)) \<le> rbCap (fold tailAppend ps emptyTailBuffer) \<and>
   rbCap (fold tailAppend ps emptyTailBuffer) \<le> 64 * 1024"
proof -
  let ?b = "fold tailAppend ps emptyTailBuffer"
  have rel: "tail_rel (concat ps) ?b"
    using tail_rel_chunks[OF tail_rel_empty, of ps] by simp
  then have "tailOverflowed ?b = (routeAttemptObservationTail < length (concat ps))"
    by (auto simp: tail_rel_def tailOverflowed_def split: if_splits)
  then show ?thesis using rel tail_rel_bytes[OF rel]
    by (simp add: tail_rel_def routeAttemptObservationTail_def)
qed

end
