(* ===== verification/Envelope_Extractor.thy ===== *)
theory Envelope_Extractor
  imports Json_Validator Provider_Policy
begin

text \<open>
  The extraction of selected top-level fields of a response body (\<open>routeAttemptEnvelopeExtractor\<close>
  of \<open>proxy/route_executor.go\<close>): a scanner that captures the bytes of a few fields and skips
  everything else, next to the validator of \<open>Json_Validator\<close>. The scanner alone is lenient; the
  theory shows that together they find exactly the last member of each selected name.

  Parameters: \<open>unquote\<close> is \<open>json.Unmarshal\<close> of a key into a Go string, \<open>valid\<close> is \<open>json.Valid\<close>.
\<close>

section \<open>State\<close>

datatype routeAttemptJSONState =
    routeAttemptJSONBeforeRoot
  | routeAttemptJSONExpectKeyOrEnd
  | routeAttemptJSONExpectKey
  | routeAttemptJSONReadKey
  | routeAttemptJSONExpectColon
  | routeAttemptJSONExpectValue
  | routeAttemptJSONReadString
  | routeAttemptJSONReadComposite
  | routeAttemptJSONReadScalar
  | routeAttemptJSONAfterValue
  | routeAttemptJSONDone
  | routeAttemptJSONInvalid

definition routeAttemptObservationJSONKeyMax :: nat where
  "routeAttemptObservationJSONKeyMax = 256"

definition routeAttemptObservationJSONFieldMax :: nat where
  "routeAttemptObservationJSONFieldMax = 16 * 1024"

record routeAttemptJSONField =
  jfName :: string
  jfMaxBytes :: nat
  jfRaw :: string
  jfPresent :: bool
  jfComplete :: bool
  jfOverflow :: bool

text \<open>\<open>xeCurrentField\<close> is \<open>None\<close> for the index -1; the delimiter stack has its top first.\<close>

record routeAttemptEnvelopeExtractor =
  xeState :: routeAttemptJSONState
  xeValidator :: routeAttemptJSONValidator
  xeFields :: "routeAttemptJSONField list"
  xeCurrentField :: "nat option"
  xeCurrentKey :: string
  xeKeyRaw :: string
  xeKeyOverflow :: bool
  xeStack :: "char list"
  xeInString :: bool
  xeEscaped :: bool

definition newField :: "string \<Rightarrow> routeAttemptJSONField" where
  "newField name =
     \<lparr>jfName = name,
      jfMaxBytes = (if name = ''status'' \<or> name = ''type'' then routeAttemptObservationJSONKeyMax
                    else routeAttemptObservationJSONFieldMax),
      jfRaw = '''', jfPresent = False, jfComplete = False, jfOverflow = False\<rparr>"

definition envelopeFieldNames :: "string \<Rightarrow> string list option" where
  "envelopeFieldNames endpoint =
     (if endpoint = providerEndpointResponses then Some [''status'', ''error'', ''usage'']
      else if endpoint = providerEndpointMessages then Some [''type'', ''error'', ''usage'']
      else if endpoint = providerEndpointChatCompletions \<or> endpoint = providerEndpointSystemOne then Some [''usage'']
      else None)"

definition newRouteAttemptEnvelopeExtractor :: "string \<Rightarrow> routeAttemptEnvelopeExtractor option" where
  "newRouteAttemptEnvelopeExtractor endpoint =
     map_option (\<lambda>names. \<lparr>xeState = routeAttemptJSONBeforeRoot, xeValidator = newValidator,
         xeFields = map newField names, xeCurrentField = None, xeCurrentKey = '''', xeKeyRaw = '''',
         xeKeyOverflow = False, xeStack = [], xeInString = False, xeEscaped = False\<rparr>)
       (envelopeFieldNames endpoint)"

section \<open>Operations\<close>

definition setState :: "routeAttemptJSONState \<Rightarrow> routeAttemptEnvelopeExtractor \<Rightarrow> routeAttemptEnvelopeExtractor" where
  "setState st e = e\<lparr>xeState := st\<rparr>"

definition updateCurrentField ::
  "(routeAttemptJSONField \<Rightarrow> routeAttemptJSONField) \<Rightarrow> routeAttemptEnvelopeExtractor \<Rightarrow> routeAttemptEnvelopeExtractor" where
  "updateCurrentField g e =
     (case xeCurrentField e of
        None \<Rightarrow> e
      | Some i \<Rightarrow> if i < length (xeFields e) then e\<lparr>xeFields := (xeFields e)[i := g (xeFields e ! i)]\<rparr> else e)"

fun fieldIndexFrom :: "nat \<Rightarrow> string \<Rightarrow> routeAttemptJSONField list \<Rightarrow> nat option" where
  "fieldIndexFrom i name [] = None"
| "fieldIndexFrom i name (f # fs) = (if jfName f = name then Some i else fieldIndexFrom (Suc i) name fs)"

definition fieldIndex :: "string \<Rightarrow> routeAttemptEnvelopeExtractor \<Rightarrow> nat option" where
  "fieldIndex name e = fieldIndexFrom 0 name (xeFields e)"

definition captureField :: "char \<Rightarrow> routeAttemptJSONField \<Rightarrow> routeAttemptJSONField" where
  "captureField c field =
     (if jfOverflow field then field
      else if length (jfRaw field) \<ge> jfMaxBytes field then field\<lparr>jfRaw := '''', jfOverflow := True\<rparr>
      else field\<lparr>jfRaw := jfRaw field @ [c]\<rparr>)"

definition captureByte :: "char \<Rightarrow> routeAttemptEnvelopeExtractor \<Rightarrow> routeAttemptEnvelopeExtractor" where
  "captureByte c e = updateCurrentField (captureField c) e"

definition finishValue :: "routeAttemptEnvelopeExtractor \<Rightarrow> routeAttemptEnvelopeExtractor" where
  "finishValue e =
     (updateCurrentField (\<lambda>field. field\<lparr>jfComplete := True\<rparr>) e)
       \<lparr>xeCurrentField := None, xeState := routeAttemptJSONAfterValue\<rparr>"

text \<open>The second component is whether there was room on the stack.\<close>

definition pushDelimiter :: "char \<Rightarrow> routeAttemptEnvelopeExtractor \<Rightarrow> routeAttemptEnvelopeExtractor \<times> bool" where
  "pushDelimiter c e =
     (if length (xeStack e) \<ge> routeAttemptObservationJSONDepthMax then (setState routeAttemptJSONInvalid e, False)
      else (e\<lparr>xeStack := c # xeStack e\<rparr>, True))"

definition startKey :: "char \<Rightarrow> routeAttemptEnvelopeExtractor \<Rightarrow> routeAttemptEnvelopeExtractor" where
  "startKey c e =
     (if c \<noteq> CHR 0x22 then setState routeAttemptJSONInvalid e
      else e\<lparr>xeKeyRaw := [c], xeKeyOverflow := False, xeEscaped := False, xeState := routeAttemptJSONReadKey\<rparr>)"

definition readKeyByte ::
  "(string \<Rightarrow> string option) \<Rightarrow> char \<Rightarrow> routeAttemptEnvelopeExtractor \<Rightarrow> routeAttemptEnvelopeExtractor" where
  "readKeyByte unquote c e =
     (let e1 = (if xeKeyOverflow e then e
                else if length (xeKeyRaw e) < routeAttemptObservationJSONKeyMax then e\<lparr>xeKeyRaw := xeKeyRaw e @ [c]\<rparr>
                else e\<lparr>xeKeyOverflow := True\<rparr>)
      in if xeEscaped e1 then e1\<lparr>xeEscaped := False\<rparr>
         else if c = CHR 0x5C then e1\<lparr>xeEscaped := True\<rparr>
         else if c \<noteq> CHR 0x22 then e1
         else if xeKeyOverflow e1 then e1\<lparr>xeCurrentKey := '''', xeState := routeAttemptJSONExpectColon\<rparr>
         else case unquote (xeKeyRaw e1) of
                None \<Rightarrow> setState routeAttemptJSONInvalid e1
              | Some key \<Rightarrow> e1\<lparr>xeCurrentKey := key, xeState := routeAttemptJSONExpectColon\<rparr>)"

definition startFieldValue :: "char \<Rightarrow> routeAttemptEnvelopeExtractor \<Rightarrow> routeAttemptEnvelopeExtractor" where
  "startFieldValue c e =
     (let e1 = e\<lparr>xeCurrentField := fieldIndex (xeCurrentKey e) e\<rparr>;
          e2 = updateCurrentField (\<lambda>field. field\<lparr>jfRaw := '''', jfPresent := True, jfComplete := False,
                 jfOverflow := False\<rparr>) e1;
          e3 = captureByte c (e2\<lparr>xeCurrentKey := ''''\<rparr>)
      in if c = CHR 0x22 then e3\<lparr>xeInString := True, xeEscaped := False, xeState := routeAttemptJSONReadString\<rparr>
         else if c = CHR ''{'' \<or> c = CHR ''['' then
           (case pushDelimiter c e3 of
              (e4, ok) \<Rightarrow> if \<not> ok then e4
                         else e4\<lparr>xeInString := False, xeEscaped := False, xeState := routeAttemptJSONReadComposite\<rparr>)
         else if c = CHR ''}'' \<or> c = CHR '','' then setState routeAttemptJSONInvalid e3
         else setState routeAttemptJSONReadScalar e3)"

definition readCompositeByte :: "char \<Rightarrow> routeAttemptEnvelopeExtractor \<Rightarrow> routeAttemptEnvelopeExtractor" where
  "readCompositeByte c e =
     (if xeInString e then
        (if xeEscaped e then e\<lparr>xeEscaped := False\<rparr>
         else if c = CHR 0x5C then e\<lparr>xeEscaped := True\<rparr>
         else if c = CHR 0x22 then e\<lparr>xeInString := False\<rparr>
         else e)
      else if c = CHR 0x22 then e\<lparr>xeInString := True\<rparr>
      else if c = CHR ''{'' \<or> c = CHR ''['' then fst (pushDelimiter c e)
      else if c \<noteq> CHR ''}'' \<and> c \<noteq> CHR '']'' then e
      else if length (xeStack e) \<le> 1 \<or> \<not> routeAttemptJSONDelimitersMatch (hd (xeStack e)) c
      then setState routeAttemptJSONInvalid e
      else let e1 = e\<lparr>xeStack := tl (xeStack e)\<rparr>
           in if length (xeStack e1) = 1 then finishValue e1 else e1)"

definition readAfterValueByte :: "char \<Rightarrow> routeAttemptEnvelopeExtractor \<Rightarrow> routeAttemptEnvelopeExtractor" where
  "readAfterValueByte c e =
     (if isRouteAttemptJSONSpace c then e
      else if c = CHR '','' then setState routeAttemptJSONExpectKey e
      else if c = CHR ''}'' then
        (if xeStack e \<noteq> [CHR ''{''] then setState routeAttemptJSONInvalid e
         else e\<lparr>xeStack := [], xeState := routeAttemptJSONDone\<rparr>)
      else setState routeAttemptJSONInvalid e)"

definition readScalarByte :: "char \<Rightarrow> routeAttemptEnvelopeExtractor \<Rightarrow> routeAttemptEnvelopeExtractor" where
  "readScalarByte c e =
     (if isRouteAttemptJSONSpace c then finishValue e
      else if c = CHR '','' \<or> c = CHR ''}'' then readAfterValueByte c (finishValue e)
      else if c \<in> {CHR ''{'', CHR ''['', CHR '']'', CHR 0x22, CHR '':''} then setState routeAttemptJSONInvalid e
      else captureByte c e)"

definition scanByte ::
  "(string \<Rightarrow> string option) \<Rightarrow> char \<Rightarrow> routeAttemptEnvelopeExtractor \<Rightarrow> routeAttemptEnvelopeExtractor" where
  "scanByte unquote c e =
     (case xeState e of
        routeAttemptJSONBeforeRoot \<Rightarrow>
          if isRouteAttemptJSONSpace c then e
          else if c \<noteq> CHR ''{'' then setState routeAttemptJSONInvalid e
          else e\<lparr>xeStack := [c], xeState := routeAttemptJSONExpectKeyOrEnd\<rparr>
      | routeAttemptJSONExpectKeyOrEnd \<Rightarrow>
          if isRouteAttemptJSONSpace c then e
          else if c = CHR ''}'' then e\<lparr>xeStack := [], xeState := routeAttemptJSONDone\<rparr>
          else startKey c e
      | routeAttemptJSONExpectKey \<Rightarrow> if isRouteAttemptJSONSpace c then e else startKey c e
      | routeAttemptJSONReadKey \<Rightarrow> readKeyByte unquote c e
      | routeAttemptJSONExpectColon \<Rightarrow>
          if isRouteAttemptJSONSpace c then e
          else if c \<noteq> CHR '':'' then setState routeAttemptJSONInvalid e
          else setState routeAttemptJSONExpectValue e
      | routeAttemptJSONExpectValue \<Rightarrow> if isRouteAttemptJSONSpace c then e else startFieldValue c e
      | routeAttemptJSONReadString \<Rightarrow>
          (let e1 = captureByte c e
           in if xeEscaped e1 then e1\<lparr>xeEscaped := False\<rparr>
              else if c = CHR 0x5C then e1\<lparr>xeEscaped := True\<rparr>
              else if c = CHR 0x22 then finishValue (e1\<lparr>xeInString := False\<rparr>)
              else e1)
      | routeAttemptJSONReadComposite \<Rightarrow> readCompositeByte c (captureByte c e)
      | routeAttemptJSONReadScalar \<Rightarrow> readScalarByte c e
      | routeAttemptJSONAfterValue \<Rightarrow> readAfterValueByte c e
      | routeAttemptJSONDone \<Rightarrow> if isRouteAttemptJSONSpace c then e else setState routeAttemptJSONInvalid e
      | routeAttemptJSONInvalid \<Rightarrow> e)"

fun scan ::
  "(string \<Rightarrow> string option) \<Rightarrow> string \<Rightarrow> routeAttemptEnvelopeExtractor \<Rightarrow> routeAttemptEnvelopeExtractor" where
  "scan unquote [] e = e"
| "scan unquote (c # p) e =
     (let e1 = scanByte unquote c e in if xeState e1 = routeAttemptJSONInvalid then e1 else scan unquote p e1)"

definition extractorObserve ::
  "(string \<Rightarrow> string option) \<Rightarrow> string \<Rightarrow> routeAttemptEnvelopeExtractor \<Rightarrow> routeAttemptEnvelopeExtractor" where
  "extractorObserve unquote p e =
     (let e1 = e\<lparr>xeValidator := observe p (xeValidator e)\<rparr>
      in if p = [] then e else if xeState e1 = routeAttemptJSONInvalid then e1 else scan unquote p e1)"

definition extractedField ::
  "(string \<Rightarrow> bool) \<Rightarrow> string \<Rightarrow> routeAttemptEnvelopeExtractor \<Rightarrow> string option" where
  "extractedField valid name e =
     (case fieldIndex name e of
        None \<Rightarrow> None
      | Some i \<Rightarrow>
          let field = xeFields e ! i
          in if \<not> jfPresent field \<or> \<not> jfComplete field \<or> jfOverflow field \<or> jfRaw field = [] \<or> \<not> valid (jfRaw field)
             then None else Some (jfRaw field))"

definition extractorComplete :: "routeAttemptEnvelopeExtractor \<Rightarrow> bool" where
  "extractorComplete e \<longleftrightarrow> xeState e = routeAttemptJSONDone \<and> complete (xeValidator e)"

definition extractorInvalid :: "routeAttemptEnvelopeExtractor \<Rightarrow> bool" where
  "extractorInvalid e \<longleftrightarrow> xeState e = routeAttemptJSONInvalid \<or> failed (xeValidator e)"

section \<open>Chunks\<close>

abbreviation setValidator :: "routeAttemptJSONValidator \<Rightarrow> routeAttemptEnvelopeExtractor \<Rightarrow> routeAttemptEnvelopeExtractor" where
  "setValidator v e \<equiv> e\<lparr>xeValidator := v\<rparr>"

lemma setValidator_ops:
  "setState st (setValidator v e) = setValidator v (setState st e)"
  "updateCurrentField g (setValidator v e) = setValidator v (updateCurrentField g e)"
  "fieldIndex name (setValidator v e) = fieldIndex name e"
  "captureByte c (setValidator v e) = setValidator v (captureByte c e)"
  "finishValue (setValidator v e) = setValidator v (finishValue e)"
  "pushDelimiter c (setValidator v e) = apfst (setValidator v) (pushDelimiter c e)"
  "startKey c (setValidator v e) = setValidator v (startKey c e)"
  by (simp_all add: setState_def updateCurrentField_def fieldIndex_def captureByte_def finishValue_def
      pushDelimiter_def startKey_def split: option.split)

lemma setValidator_readKeyByte:
  "readKeyByte unquote c (setValidator v e) = setValidator v (readKeyByte unquote c e)"
  by (cases e) (simp add: readKeyByte_def Let_def setState_def split: option.split)

lemma setValidator_startFieldValue:
  "startFieldValue c (setValidator v e) = setValidator v (startFieldValue c e)"
  by (cases e) (simp add: startFieldValue_def Let_def setState_def pushDelimiter_def updateCurrentField_def
      fieldIndex_def captureByte_def split: option.split)

lemma setValidator_reads:
  "readCompositeByte c (setValidator v e) = setValidator v (readCompositeByte c e)"
  "readAfterValueByte c (setValidator v e) = setValidator v (readAfterValueByte c e)"
  "readScalarByte c (setValidator v e) = setValidator v (readScalarByte c e)"
proof -
  show "readCompositeByte c (setValidator v e) = setValidator v (readCompositeByte c e)"
    by (cases e) (simp add: readCompositeByte_def Let_def setState_def pushDelimiter_def finishValue_def
        updateCurrentField_def split: option.split)
  show after: "readAfterValueByte c (setValidator v e) = setValidator v (readAfterValueByte c e)" for e
    by (simp add: readAfterValueByte_def setState_def)
  show "readScalarByte c (setValidator v e) = setValidator v (readScalarByte c e)"
    by (simp add: readScalarByte_def setValidator_ops after)
qed

lemma setValidator_scanByte:
  "scanByte unquote c (setValidator v e) = setValidator v (scanByte unquote c e)"
  by (cases "xeState e")
    (simp_all add: scanByte_def setValidator_ops setValidator_readKeyByte setValidator_startFieldValue
      setValidator_reads Let_def setState_def,
     simp add: captureByte_def updateCurrentField_def finishValue_def split: option.split)

lemma scan_invalid [simp]: "xeState e = routeAttemptJSONInvalid \<Longrightarrow> scan unquote p e = e"
  by (induction p) (simp_all add: scanByte_def)

lemma scan_Cons: "scan unquote (c # p) e = scan unquote p (scanByte unquote c e)"
  by (simp add: Let_def)

declare scan.simps(2) [simp del]

lemma scan_append: "scan unquote (p @ q) e = scan unquote q (scan unquote p e)"
  by (induction p arbitrary: e) (simp_all add: scan_Cons)

lemma setValidator_scan: "scan unquote p (setValidator v e) = setValidator v (scan unquote p e)"
  by (induction p arbitrary: e) (simp_all add: scan_Cons setValidator_scanByte)

lemma extractorObserve_scan:
  "extractorObserve unquote p e = setValidator (observe p (xeValidator e)) (scan unquote p e)"
  by (cases "xeState e = routeAttemptJSONInvalid") (simp_all add: extractorObserve_def Let_def setValidator_scan)

lemma scanByte_validator: "xeValidator (scanByte unquote c e) = xeValidator e"
proof -
  have "scanByte unquote c e = setValidator (xeValidator e) (scanByte unquote c e)"
    using setValidator_scanByte[of unquote c "xeValidator e" e] by simp
  then show ?thesis by (metis routeAttemptEnvelopeExtractor.select_convs(2)
      routeAttemptEnvelopeExtractor.surjective routeAttemptEnvelopeExtractor.update_convs(2))
qed

lemma extractorObserve_chunks:
  "fold (extractorObserve unquote) ps e =
     setValidator (observe (concat ps) (xeValidator e)) (scan unquote (concat ps) e)"
proof (induction ps arbitrary: e)
  case (Cons p ps)
  show ?case using Cons.IH[of "extractorObserve unquote p e"]
    by (simp add: extractorObserve_scan[of unquote p e] setValidator_scan scan_append observe_append)
qed simp

section \<open>Members\<close>

text \<open>The members of an object as pairs of key and value texts.\<close>

inductive member_list :: "nat \<Rightarrow> (string \<times> string) list \<Rightarrow> string \<Rightarrow> bool" where
  l_first: "ws w1 \<Longrightarrow> string_text k \<Longrightarrow> ws w2 \<Longrightarrow> ws w3 \<Longrightarrow> value_text d t \<Longrightarrow> ws w4 \<Longrightarrow>
    member_list d [(k, t)] (w1 @ k @ w2 @ '':'' @ w3 @ t @ w4)"
| l_next: "member_list d ms m \<Longrightarrow> ws w1 \<Longrightarrow> string_text k \<Longrightarrow> ws w2 \<Longrightarrow> ws w3 \<Longrightarrow> value_text d t \<Longrightarrow> ws w4 \<Longrightarrow>
    member_list d (ms @ [(k, t)]) (m @ '','' @ w1 @ k @ w2 @ '':'' @ w3 @ t @ w4)"

definition object_members :: "nat \<Rightarrow> (string \<times> string) list \<Rightarrow> string \<Rightarrow> bool" where
  "object_members d ms p \<longleftrightarrow>
     (\<exists>w1 b w2. p = w1 @ ''{'' @ b @ ''}'' @ w2 \<and> ws w1 \<and> ws w2 \<and>
        (ms = [] \<and> ws b \<or> member_list d ms b))"

lemma members_listed_all:
  "value_text d t \<Longrightarrow> True"
  "members d m \<Longrightarrow> \<exists>ms. member_list d ms m"
  "elements d m' \<Longrightarrow> True"
  by (induction rule: value_text_members_elements.inducts) (blast intro: l_first l_next)+

lemmas members_listed = members_listed_all(2)

lemma listed_members: "member_list d ms m \<Longrightarrow> members d m"
  by (induction rule: member_list.induct) (blast intro: m_first m_next)+

lemma object_members_document: "(\<exists>ms. object_members d ms p) \<longleftrightarrow> object_document (Suc d) p"
proof
  assume "\<exists>ms. object_members d ms p"
  then obtain ms w1 b w2 where p: "p = w1 @ (''{'' @ b @ ''}'') @ w2" "ws w1" "ws w2" "ws b \<or> members d b"
    using listed_members unfolding object_members_def by (metis append_assoc)
  then have "value_text (Suc d) (''{'' @ b @ ''}'')" using v_object0 v_object by blast
  with p(1-3) show "object_document (Suc d) p" unfolding object_document_def
    by (intro exI[of _ w1] exI[of _ "''{'' @ b @ ''}''"] exI[of _ w2]) simp
next
  assume "object_document (Suc d) p"
  then obtain w1 t w2 where p: "p = w1 @ t @ w2" "ws w1" "ws w2" "value_text (Suc d) t" "hd t = CHR ''{''"
    by (auto simp: object_document_def)
  from p(4,5) obtain b where b: "t = ''{'' @ b @ ''}''" "ws b \<or> members d b"
    by (rule value_text_object) auto
  from b(2) members_listed obtain ms where "ms = [] \<and> ws b \<or> member_list d ms b" by blast
  with p b(1) show "\<exists>ms. object_members d ms p" unfolding object_members_def
    by (intro exI[of _ ms] exI[of _ w1] exI[of _ b] exI[of _ w2]) simp
qed

section \<open>Capturing a value\<close>

text \<open>The field while the text \<open>r\<close> of its value has been seen, and once the value is complete.\<close>

definition partial_field :: "string \<Rightarrow> routeAttemptJSONField \<Rightarrow> routeAttemptJSONField" where
  "partial_field r f = f\<lparr>jfRaw := (if length r \<le> jfMaxBytes f then r else ''''),
     jfPresent := True, jfComplete := False, jfOverflow := jfMaxBytes f < length r\<rparr>"

definition captured_field :: "string \<Rightarrow> routeAttemptJSONField \<Rightarrow> routeAttemptJSONField" where
  "captured_field r f = (partial_field r f)\<lparr>jfComplete := True\<rparr>"

definition capturing ::
  "routeAttemptJSONField list \<Rightarrow> nat option \<Rightarrow> string \<Rightarrow> routeAttemptEnvelopeExtractor \<Rightarrow> bool" where
  "capturing fs idx r e \<longleftrightarrow> xeCurrentField e = idx \<and>
     (case idx of None \<Rightarrow> xeFields e = fs
      | Some i \<Rightarrow> i < length fs \<and> xeFields e = fs[i := partial_field r (fs ! i)])"

definition stored :: "routeAttemptJSONField list \<Rightarrow> nat option \<Rightarrow> string \<Rightarrow> routeAttemptJSONField list" where
  "stored fs idx t = (case idx of None \<Rightarrow> fs | Some i \<Rightarrow> fs[i := captured_field t (fs ! i)])"

lemma captureField_partial: "captureField c (partial_field r f) = partial_field (r @ [c]) f"
  by (cases f) (auto simp: captureField_def partial_field_def)

lemma captureByte_capturing: "capturing fs idx r e \<Longrightarrow> capturing fs idx (r @ [c]) (captureByte c e)"
  by (auto simp: capturing_def captureByte_def updateCurrentField_def captureField_partial split: option.splits)

lemma captureByte_simps [simp]:
  "xeState (captureByte c e) = xeState e" "xeStack (captureByte c e) = xeStack e"
  "xeInString (captureByte c e) = xeInString e" "xeEscaped (captureByte c e) = xeEscaped e"
  by (simp_all add: captureByte_def updateCurrentField_def split: option.split)

lemma capturing_update [simp]:
  "capturing fs idx r (e\<lparr>xeState := st\<rparr>) = capturing fs idx r e"
  "capturing fs idx r (e\<lparr>xeStack := stk\<rparr>) = capturing fs idx r e"
  "capturing fs idx r (e\<lparr>xeInString := b\<rparr>) = capturing fs idx r e"
  "capturing fs idx r (e\<lparr>xeEscaped := b\<rparr>) = capturing fs idx r e"
  "capturing fs idx r (e\<lparr>xeCurrentKey := k\<rparr>) = capturing fs idx r e"
  by (simp_all add: capturing_def split: option.split)

text \<open>Between tokens of the root object.\<close>

definition resting ::
  "routeAttemptJSONState \<Rightarrow> routeAttemptJSONField list \<Rightarrow> routeAttemptEnvelopeExtractor \<Rightarrow> bool" where
  "resting st fs e \<longleftrightarrow> xeState e = st \<and> xeFields e = fs \<and> xeStack e = ''{''"

lemma finishValue_resting:
  assumes "capturing fs idx t e" "xeStack e = ''{''"
  shows "resting routeAttemptJSONAfterValue (stored fs idx t) (finishValue e)"
  using assms by (auto simp: capturing_def resting_def stored_def finishValue_def updateCurrentField_def
      captured_field_def split: option.splits)

lemma fieldIndexFrom_bound: "fieldIndexFrom n name fs = Some i \<Longrightarrow> n \<le> i \<and> i < n + length fs"
  by (induction fs arbitrary: n) (fastforce split: if_splits)+

lemma fieldIndex_bound: "fieldIndex name e = Some i \<Longrightarrow> i < length (xeFields e)"
  using fieldIndexFrom_bound[of 0 name "xeFields e" i] by (simp add: fieldIndex_def)

text \<open>The first byte of a value.\<close>

definition opened ::
  "char \<Rightarrow> routeAttemptEnvelopeExtractor \<Rightarrow> routeAttemptEnvelopeExtractor" where
  "opened c e = captureByte c ((updateCurrentField (\<lambda>field. field\<lparr>jfRaw := '''', jfPresent := True,
     jfComplete := False, jfOverflow := False\<rparr>) (e\<lparr>xeCurrentField := fieldIndex (xeCurrentKey e) e\<rparr>))
     \<lparr>xeCurrentKey := ''''\<rparr>)"

lemma opened_capturing:
  assumes "xeFields e = fs" "idx = fieldIndexFrom 0 (xeCurrentKey e) fs"
  shows "capturing fs idx [c] (opened c e)" "xeStack (opened c e) = xeStack e"
proof -
  let ?e = "(updateCurrentField (\<lambda>field. field\<lparr>jfRaw := '''', jfPresent := True,
     jfComplete := False, jfOverflow := False\<rparr>) (e\<lparr>xeCurrentField := fieldIndex (xeCurrentKey e) e\<rparr>))"
  have idx: "fieldIndex (xeCurrentKey e) e = idx" using assms by (simp add: fieldIndex_def)
  have "capturing fs idx [] ?e"
    using assms(1) idx fieldIndex_bound[of "xeCurrentKey e" e]
    by (auto simp: capturing_def updateCurrentField_def partial_field_def split: option.splits)
  then have "capturing fs idx [] (?e\<lparr>xeCurrentKey := ''''\<rparr>)" by simp
  from captureByte_capturing[OF this, of c] show "capturing fs idx [c] (opened c e)" by (simp add: opened_def)
  show "xeStack (opened c e) = xeStack e"
    by (simp add: opened_def updateCurrentField_def split: option.split)
qed

lemma startFieldValue_opened:
  "startFieldValue c e =
     (if c = CHR 0x22 then (opened c e)\<lparr>xeInString := True, xeEscaped := False, xeState := routeAttemptJSONReadString\<rparr>
      else if c = CHR ''{'' \<or> c = CHR ''['' then
        (case pushDelimiter c (opened c e) of
           (e4, ok) \<Rightarrow> if \<not> ok then e4
                      else e4\<lparr>xeInString := False, xeEscaped := False, xeState := routeAttemptJSONReadComposite\<rparr>)
      else if c = CHR ''}'' \<or> c = CHR '','' then setState routeAttemptJSONInvalid (opened c e)
      else setState routeAttemptJSONReadScalar (opened c e))"
  by (simp add: startFieldValue_def opened_def Let_def)

section \<open>Strings\<close>

lemma hex_not [simp]: "isRouteAttemptJSONHex c \<Longrightarrow> c \<noteq> CHR 0x22 \<and> c \<noteq> CHR 0x5C"
  by (auto simp: isRouteAttemptJSONHex_def byteIn_def)

definition key_bytes :: "string \<Rightarrow> routeAttemptEnvelopeExtractor \<Rightarrow> bool" where
  "key_bytes r e \<longleftrightarrow>
     (if length r \<le> routeAttemptObservationJSONKeyMax then \<not> xeKeyOverflow e \<and> xeKeyRaw e = r else xeKeyOverflow e)"

definition keyByte :: "char \<Rightarrow> routeAttemptEnvelopeExtractor \<Rightarrow> routeAttemptEnvelopeExtractor" where
  "keyByte c e =
     (if xeKeyOverflow e then e
      else if length (xeKeyRaw e) < routeAttemptObservationJSONKeyMax then e\<lparr>xeKeyRaw := xeKeyRaw e @ [c]\<rparr>
      else e\<lparr>xeKeyOverflow := True\<rparr>)"

lemma keyByte_simps [simp]:
  "xeState (keyByte c e) = xeState e" "xeFields (keyByte c e) = xeFields e" "xeStack (keyByte c e) = xeStack e"
  "xeEscaped (keyByte c e) = xeEscaped e"
  by (simp_all add: keyByte_def)

lemma keyByte_bytes: "key_bytes r e \<Longrightarrow> key_bytes (r @ [c]) (keyByte c e)"
  by (auto simp: key_bytes_def keyByte_def split: if_splits)

lemma readKeyByte_alt:
  "readKeyByte unquote c e =
     (let e1 = keyByte c e
      in if xeEscaped e1 then e1\<lparr>xeEscaped := False\<rparr>
         else if c = CHR 0x5C then e1\<lparr>xeEscaped := True\<rparr>
         else if c \<noteq> CHR 0x22 then e1
         else if xeKeyOverflow e1 then e1\<lparr>xeCurrentKey := '''', xeState := routeAttemptJSONExpectColon\<rparr>
         else case unquote (xeKeyRaw e1) of
                None \<Rightarrow> setState routeAttemptJSONInvalid e1
              | Some key \<Rightarrow> e1\<lparr>xeCurrentKey := key, xeState := routeAttemptJSONExpectColon\<rparr>)"
  by (simp only: readKeyByte_def keyByte_def)

text \<open>Both readers of strings, of keys and of values, follow the escapes in the same way; \<open>P r\<close>
  is what they hold after the text \<open>r\<close>, inside of the string and not after a backslash.\<close>

locale string_reader =
  fixes step :: "char \<Rightarrow> 'e \<Rightarrow> 'e" and P :: "string \<Rightarrow> 'e \<Rightarrow> bool" and Esc :: "string \<Rightarrow> 'e \<Rightarrow> bool"
  assumes plain_step: "P r e \<Longrightarrow> c \<noteq> CHR 0x22 \<Longrightarrow> c \<noteq> CHR 0x5C \<Longrightarrow> P (r @ [c]) (step c e)"
    and backslash_step: "P r e \<Longrightarrow> Esc (r @ [CHR 0x5C]) (step (CHR 0x5C) e)"
    and escaped_step: "Esc r e \<Longrightarrow> P (r @ [c]) (step c e)"
begin

lemma plain_bytes:
  "P r e \<Longrightarrow> \<forall>c\<in>set s. c \<noteq> CHR 0x22 \<and> c \<noteq> CHR 0x5C \<Longrightarrow> P (r @ s) (fold step s e)"
proof (induction s arbitrary: r e)
  case (Cons c s)
  from Cons.IH[OF plain_step[OF Cons.prems(1)], of c] Cons.prems(2) show ?case by simp
qed simp

lemma string_body_read: "string_body s \<Longrightarrow> P r e \<Longrightarrow> P (r @ s) (fold step s e)"
proof (induction s rule: string_body.induct)
  case (plain s c)
  then show ?case using plain_step[of "r @ s" "fold step s e" c] by simp
next
  case (escape s c)
  then show ?case using escaped_step[OF backslash_step[of "r @ s" "fold step s e"], of c] by simp
next
  case (unicode s h)
  then have "P (r @ s @ [CHR 0x5C, CHR ''u'']) (fold step (s @ [CHR 0x5C, CHR ''u'']) e)"
    using escaped_step[OF backslash_step[of "r @ s" "fold step s e"], of "CHR ''u''"] by simp
  from plain_bytes[OF this, of h] unicode.hyps(3) show ?case by (auto simp: list_all_iff)
qed simp

end

lemma scan_fold: "scan unquote p e = fold (scanByte unquote) p e"
  by (induction p arbitrary: e) (simp_all add: scan_Cons)

definition key_reading ::
  "routeAttemptJSONField list \<Rightarrow> bool \<Rightarrow> string \<Rightarrow> routeAttemptEnvelopeExtractor \<Rightarrow> bool" where
  "key_reading fs esc r e \<longleftrightarrow> resting routeAttemptJSONReadKey fs e \<and> xeEscaped e = esc \<and> key_bytes r e"

interpretation key_reader: string_reader "scanByte unquote" "key_reading fs False" "key_reading fs True"
  for unquote fs
  by unfold_locales
    (auto simp: key_reading_def resting_def scanByte_def readKeyByte_alt Let_def key_bytes_def keyByte_def
      split: if_splits)

definition string_reading ::
  "routeAttemptJSONField list \<Rightarrow> nat option \<Rightarrow> bool \<Rightarrow> string \<Rightarrow> routeAttemptEnvelopeExtractor \<Rightarrow> bool" where
  "string_reading fs idx esc r e \<longleftrightarrow> xeState e = routeAttemptJSONReadString \<and> capturing fs idx r e \<and>
     xeStack e = ''{'' \<and> xeEscaped e = esc"

interpretation value_reader: string_reader "scanByte unquote" "string_reading fs idx False" "string_reading fs idx True"
  for unquote fs idx
  by unfold_locales (simp_all add: string_reading_def scanByte_def Let_def captureByte_capturing)

text \<open>Inside of a composite, a string is skipped the same way.\<close>

definition composite ::
  "routeAttemptJSONField list \<Rightarrow> nat option \<Rightarrow> char list \<Rightarrow> bool \<Rightarrow> bool \<Rightarrow> string \<Rightarrow> routeAttemptEnvelopeExtractor \<Rightarrow> bool" where
  "composite fs idx stk ins esc r e \<longleftrightarrow> xeState e = routeAttemptJSONReadComposite \<and> capturing fs idx r e \<and>
     xeStack e = stk \<and> xeInString e = ins \<and> xeEscaped e = esc"

interpretation composite_reader: string_reader "scanByte unquote" "composite fs idx stk True False" "composite fs idx stk True True"
  for unquote fs idx stk
  by unfold_locales (simp_all add: composite_def scanByte_def readCompositeByte_def captureByte_capturing)

section \<open>Skipping nested values\<close>

lemma scan_string:
  "string_body s \<Longrightarrow> scan unquote ([CHR 0x22] @ s @ [CHR 0x22]) e =
     scanByte unquote (CHR 0x22) (fold (scanByte unquote) s (scanByte unquote (CHR 0x22) e))"
  by (simp add: scan_fold)

lemma composite_quote:
  "composite fs idx stk ins False r e \<Longrightarrow>
     composite fs idx stk (\<not> ins) False (r @ [CHR 0x22]) (scanByte unquote (CHR 0x22) e)"
  by (simp add: composite_def scanByte_def readCompositeByte_def captureByte_capturing)

lemma composite_string:
  assumes "string_text t" "composite fs idx stk False False r e"
  shows "composite fs idx stk False False (r @ t) (scan unquote t e)"
proof -
  obtain s where s: "string_body s" "t = [CHR 0x22] @ s @ [CHR 0x22]" using assms(1) by (auto simp: string_text_def)
  have "composite fs idx stk True False (r @ [CHR 0x22]) (scanByte unquote (CHR 0x22) e)"
    using composite_quote[OF assms(2)] by simp
  from composite_quote[OF composite_reader.string_body_read[OF s(1) this], of unquote]
  show ?thesis unfolding s(2) scan_string[OF s(1)] by simp
qed

text \<open>Bytes without meaning for the scanner inside of a composite.\<close>

definition inert :: "char \<Rightarrow> bool" where
  "inert c \<longleftrightarrow> c \<notin> set (CHR 0x22 # ''{}[]'')"

lemma composite_inert:
  "composite fs idx stk False False r e \<Longrightarrow> list_all inert t \<Longrightarrow>
     composite fs idx stk False False (r @ t) (scan unquote t e)"
proof (induction t arbitrary: r e)
  case (Cons c t)
  have "composite fs idx stk False False (r @ [c]) (scanByte unquote c e)"
    using Cons.prems by (simp add: composite_def scanByte_def readCompositeByte_def captureByte_capturing inert_def)
  from Cons.IH[OF this] Cons.prems(2) show ?case by (simp add: scan_Cons)
qed simp

lemma composite_open:
  assumes "composite fs idx stk False False r e" "c \<in> {CHR ''{'', CHR ''[''}"
    "length stk < routeAttemptObservationJSONDepthMax"
  shows "composite fs idx (c # stk) False False (r @ [c]) (scanByte unquote c e)"
  using assms by (auto simp: composite_def scanByte_def readCompositeByte_def pushDelimiter_def captureByte_capturing)

lemma composite_close:
  assumes "composite fs idx (c # stk) False False r e" "routeAttemptJSONDelimitersMatch c c'" "2 \<le> length stk"
  shows "composite fs idx stk False False (r @ [c']) (scanByte unquote c' e)"
  using assms by (auto simp: composite_def scanByte_def readCompositeByte_def captureByte_capturing
      routeAttemptJSONDelimitersMatch_def Let_def)

lemma inert_digit: "isDigitByte c \<Longrightarrow> inert c"
  by (auto simp: inert_def byteIn_def)

lemma inert_digits: "list_all isDigitByte ds \<Longrightarrow> list_all inert ds"
  using inert_digit by (auto simp: list_all_iff)

lemma inert_ws: "ws w \<Longrightarrow> list_all inert w"
  by (auto simp: ws_def list_all_iff inert_def)

text \<open>A scalar: no white space, no structural byte and not empty.\<close>

definition scalar_byte :: "char \<Rightarrow> bool" where
  "scalar_byte c \<longleftrightarrow> \<not> isRouteAttemptJSONSpace c \<and> c \<notin> set (CHR 0x22 # '',}{[]:'')"

lemma scalar_inert: "list_all scalar_byte t \<Longrightarrow> list_all inert t"
  by (auto simp: list_all_iff scalar_byte_def inert_def)

lemma scalar_digit: "isDigitByte c \<Longrightarrow> scalar_byte c"
  using digit_not_space by (auto simp: scalar_byte_def byteIn_def)

lemma scalar_digits: "list_all isDigitByte ds \<Longrightarrow> list_all scalar_byte ds"
  using scalar_digit by (auto simp: list_all_iff)

lemma scalar_signs [simp]:
  "scalar_byte (CHR ''-'')" "scalar_byte (CHR ''+'')" "scalar_byte (CHR ''.'')" "scalar_byte (CHR ''e'')"
  "scalar_byte (CHR ''E'')" "scalar_byte (CHR ''0'')"
  by (simp_all add: scalar_byte_def isRouteAttemptJSONSpace_def)

lemma number_scalar:
  assumes "number_text t"
  shows "t \<noteq> [] \<and> list_all scalar_byte t"
proof -
  obtain m i f e where t: "t = m @ i @ f @ e" "m \<in> {'''', ''-''}" "int_part i" "frac_part f" "exp_part e"
    using assms by (auto simp: number_text_def)
  have "list_all scalar_byte m" using t(2) by auto
  moreover have "i \<noteq> [] \<and> list_all scalar_byte i"
    using t(3) digit19 scalar_digit scalar_digits by (auto simp: int_part_def)
  moreover have "list_all scalar_byte f" using t(4) scalar_digits by (auto simp: frac_part_def digits1_def)
  moreover have "list_all scalar_byte e" using t(5) scalar_digits by (auto simp: exp_part_def digits1_def)
  ultimately show ?thesis by (simp add: t(1))
qed

lemma literal_scalar: "t \<in> {''true'', ''false'', ''null''} \<Longrightarrow> t \<noteq> [] \<and> list_all scalar_byte t"
  by (auto simp: scalar_byte_def isRouteAttemptJSONSpace_def)

lemma composite_member:
  assumes "composite fs idx stk False False r e" "ws w1" "string_text k" "ws w2" "ws w3"
  shows "composite fs idx stk False False (r @ w1 @ k @ w2 @ '':'' @ w3) (scan unquote (w1 @ k @ w2 @ '':'' @ w3) e)"
proof -
  note c1 = composite_inert[OF assms(1) inert_ws[OF assms(2)], of unquote]
  note c2 = composite_string[OF assms(3) c1, of unquote]
  have "list_all inert (w2 @ '':'' @ w3)" using inert_ws assms(4,5) by (simp add: inert_def)
  from composite_inert[OF c2 this, of unquote] show ?thesis by (simp add: scan_append)
qed

lemma composite_run:
  "value_text d t \<Longrightarrow> (\<forall>stk r e. composite fs idx stk False False r e \<longrightarrow> 2 \<le> length stk \<longrightarrow>
      length stk + d \<le> routeAttemptObservationJSONDepthMax \<longrightarrow>
      composite fs idx stk False False (r @ t) (scan unquote t e))"
  "members d m \<Longrightarrow> (\<forall>stk r e. composite fs idx stk False False r e \<longrightarrow> 2 \<le> length stk \<longrightarrow>
      length stk + d \<le> routeAttemptObservationJSONDepthMax \<longrightarrow>
      composite fs idx stk False False (r @ m) (scan unquote m e))"
  "elements d m' \<Longrightarrow> (\<forall>stk r e. composite fs idx stk False False r e \<longrightarrow> 2 \<le> length stk \<longrightarrow>
      length stk + d \<le> routeAttemptObservationJSONDepthMax \<longrightarrow>
      composite fs idx stk False False (r @ m') (scan unquote m' e))"
proof (induction rule: value_text_members_elements.inducts)
  case (v_literal t d)
  then show ?case using composite_inert literal_scalar scalar_inert by metis
next
  case (v_number t d)
  then show ?case using composite_inert number_scalar scalar_inert by metis
next
  case (v_string t d)
  then show ?case using composite_string by metis
next
  case (v_object0 w d)
  then have "list_all inert w" by (rule inert_ws)
  then show ?case using composite_close[OF composite_inert[OF composite_open]]
    by (fastforce simp: scan_append scan_Cons routeAttemptJSONDelimitersMatch_def)
next
  case (v_array0 w d)
  then have "list_all inert w" by (rule inert_ws)
  then show ?case using composite_close[OF composite_inert[OF composite_open]]
    by (fastforce simp: scan_append scan_Cons routeAttemptJSONDelimitersMatch_def)
next
  case (v_object d m)
  show ?case
  proof (intro allI impI)
    fix stk r e assume a: "composite fs idx stk False False r e" "2 \<le> length stk"
      "length stk + Suc d \<le> routeAttemptObservationJSONDepthMax"
    then have "composite fs idx (CHR ''{'' # stk) False False (r @ ''{'') (scanByte unquote (CHR ''{'') e)"
      by (intro composite_open) simp_all
    from v_object.IH[rule_format, OF this] a have "composite fs idx (CHR ''{'' # stk) False False ((r @ ''{'') @ m)
        (scan unquote m (scanByte unquote (CHR ''{'') e))" by simp
    from composite_close[OF this _ a(2), of "CHR ''}''"]
    show "composite fs idx stk False False (r @ ''{'' @ m @ ''}'') (scan unquote (''{'' @ m @ ''}'') e)"
      by (simp add: scan_append scan_Cons routeAttemptJSONDelimitersMatch_def)
  qed
next
  case (v_array d m)
  show ?case
  proof (intro allI impI)
    fix stk r e assume a: "composite fs idx stk False False r e" "2 \<le> length stk"
      "length stk + Suc d \<le> routeAttemptObservationJSONDepthMax"
    then have "composite fs idx (CHR ''['' # stk) False False (r @ ''['') (scanByte unquote (CHR ''['') e)"
      by (intro composite_open) simp_all
    from v_array.IH[rule_format, OF this] a have "composite fs idx (CHR ''['' # stk) False False ((r @ ''['') @ m)
        (scan unquote m (scanByte unquote (CHR ''['') e))" by simp
    from composite_close[OF this _ a(2), of "CHR '']''"]
    show "composite fs idx stk False False (r @ ''['' @ m @ '']'') (scan unquote (''['' @ m @ '']'') e)"
      by (simp add: scan_append scan_Cons routeAttemptJSONDelimitersMatch_def)
  qed
next
  case (m_first w1 k w2 w3 d t w4)
  show ?case
  proof (intro allI impI)
    fix stk r e assume a: "composite fs idx stk False False r e" "2 \<le> length stk"
      "length stk + d \<le> routeAttemptObservationJSONDepthMax"
    from composite_member[OF a(1) m_first.hyps(1-4)] m_first.IH a(2,3)
    have "composite fs idx stk False False ((r @ w1 @ k @ w2 @ '':'' @ w3) @ t)
        (scan unquote t (scan unquote (w1 @ k @ w2 @ '':'' @ w3) e))" by blast
    from composite_inert[OF this inert_ws[OF m_first.hyps(6)], of unquote]
    show "composite fs idx stk False False (r @ w1 @ k @ w2 @ '':'' @ w3 @ t @ w4)
        (scan unquote (w1 @ k @ w2 @ '':'' @ w3 @ t @ w4) e)" by (simp add: scan_append scan_Cons)
  qed
next
  case (m_next d m w1 k w2 w3 t w4)
  show ?case
  proof (intro allI impI)
    fix stk r e assume a: "composite fs idx stk False False r e" "2 \<le> length stk"
      "length stk + d \<le> routeAttemptObservationJSONDepthMax"
    then have "composite fs idx stk False False (r @ m) (scan unquote m e)" using m_next.IH(1) by blast
    from composite_inert[OF this, of "'',''" unquote]
    have "composite fs idx stk False False (r @ m @ '','') (scan unquote (m @ '','') e)"
      by (simp add: inert_def scan_append)
    from composite_member[OF this m_next.hyps(2-5)] m_next.IH(2) a(2,3)
    have "composite fs idx stk False False (((r @ m @ '','') @ w1 @ k @ w2 @ '':'' @ w3) @ t)
        (scan unquote t (scan unquote (w1 @ k @ w2 @ '':'' @ w3) (scan unquote (m @ '','') e)))" by blast
    from composite_inert[OF this inert_ws[OF m_next.hyps(7)], of unquote]
    show "composite fs idx stk False False (r @ m @ '','' @ w1 @ k @ w2 @ '':'' @ w3 @ t @ w4)
        (scan unquote (m @ '','' @ w1 @ k @ w2 @ '':'' @ w3 @ t @ w4) e)" by (simp add: scan_append scan_Cons)
  qed
next
  case (e_first w1 d t w2)
  then show ?case using inert_ws[of w1] inert_ws[of w2] composite_inert[of fs idx _ _ _ w1]
      composite_inert[of fs idx _ _ _ w2] by (metis scan_append append_assoc)
next
  case (e_next d m w1 t w2)
  have w: "list_all inert ('','' @ w1)" "list_all inert w2" using inert_ws e_next.hyps by (simp_all add: inert_def)
  show ?case
  proof (intro allI impI)
    fix stk r e assume a: "composite fs idx stk False False r e" "2 \<le> length stk"
      "length stk + d \<le> routeAttemptObservationJSONDepthMax"
    then have "composite fs idx stk False False (r @ m) (scan unquote m e)" using e_next.IH(1) by blast
    from composite_inert[OF this w(1), of unquote] e_next.IH(2) a(2,3)
    have "composite fs idx stk False False (((r @ m) @ '','' @ w1) @ t)
        (scan unquote t (scan unquote ('','' @ w1) (scan unquote m e)))" by blast
    from composite_inert[OF this w(2), of unquote]
    show "composite fs idx stk False False (r @ m @ '','' @ w1 @ t @ w2)
        (scan unquote (m @ '','' @ w1 @ t @ w2) e)" by (simp add: scan_append scan_Cons)
  qed
qed

section \<open>The members of the root\<close>

text \<open>The name a key text selects; keys of more than 256 bytes select nothing.\<close>

definition key_name :: "(string \<Rightarrow> string option) \<Rightarrow> string \<Rightarrow> string" where
  "key_name unquote k =
     (if length k \<le> routeAttemptObservationJSONKeyMax then (case unquote k of Some n \<Rightarrow> n | None \<Rightarrow> '''') else '''')"

definition store_member ::
  "(string \<Rightarrow> string option) \<Rightarrow> string \<times> string \<Rightarrow> routeAttemptJSONField list \<Rightarrow> routeAttemptJSONField list" where
  "store_member unquote kt fs = stored fs (fieldIndexFrom 0 (key_name unquote (fst kt)) fs) (snd kt)"

lemma key_run:
  assumes "string_text k" "resting st fs e" "st \<in> {routeAttemptJSONExpectKeyOrEnd, routeAttemptJSONExpectKey}"
    "unquote k \<noteq> None"
  shows "resting routeAttemptJSONExpectColon fs (scan unquote k e) \<and>
    xeCurrentKey (scan unquote k e) = key_name unquote k"
proof -
  obtain s where s: "string_body s" "k = [CHR 0x22] @ s @ [CHR 0x22]" using assms(1) by (auto simp: string_text_def)
  have "key_reading fs False [CHR 0x22] (scanByte unquote (CHR 0x22) e)"
    using assms(2,3) by (auto simp: key_reading_def resting_def scanByte_def startKey_def key_bytes_def
        routeAttemptObservationJSONKeyMax_def)
  from key_reader.string_body_read[OF s(1) this, of unquote]
  obtain e1 where e1: "key_reading fs False (CHR 0x22 # s) e1" "scan unquote k e = scanByte unquote (CHR 0x22) e1"
    unfolding s(2) scan_string[OF s(1)] by simp
  have "key_bytes k (keyByte (CHR 0x22) e1)"
    using keyByte_bytes[of "CHR 0x22 # s" e1] e1(1) by (simp add: key_reading_def s(2))
  then show ?thesis using e1 assms(4)
    by (auto simp: key_reading_def resting_def scanByte_def readKeyByte_alt Let_def key_bytes_def key_name_def
        split: if_splits)
qed

lemma resting_ws:
  assumes "resting st fs e" "ws w" "st \<in> {routeAttemptJSONExpectKeyOrEnd, routeAttemptJSONExpectKey,
      routeAttemptJSONExpectColon, routeAttemptJSONExpectValue, routeAttemptJSONAfterValue}"
  shows "scan unquote w e = e"
  using assms(2)
proof (induction w)
  case (Cons c w)
  then have "scanByte unquote c e = e"
    using assms(1,3) by (auto simp: scanByte_def resting_def readAfterValueByte_def)
  with Cons show ?case by (simp add: scan_Cons)
qed simp

text \<open>After a value of the root: a scalar is only finished by the byte that follows it.\<close>

definition scalar_pending ::
  "routeAttemptJSONField list \<Rightarrow> nat option \<Rightarrow> string \<Rightarrow> routeAttemptEnvelopeExtractor \<Rightarrow> bool" where
  "scalar_pending fs idx t e \<longleftrightarrow>
     xeState e = routeAttemptJSONReadScalar \<and> capturing fs idx t e \<and> xeStack e = ''{''"

definition valued ::
  "routeAttemptJSONField list \<Rightarrow> nat option \<Rightarrow> string \<Rightarrow> routeAttemptEnvelopeExtractor \<Rightarrow> bool" where
  "valued fs idx t e \<longleftrightarrow>
     resting routeAttemptJSONAfterValue (stored fs idx t) e \<or> scalar_pending fs idx t e"

lemma valued_settle:
  assumes "valued fs idx t e" "isRouteAttemptJSONSpace c \<or> c = CHR '','' \<or> c = CHR ''}''"
  shows "\<exists>e'. resting routeAttemptJSONAfterValue (stored fs idx t) e' \<and>
    scanByte unquote c e = readAfterValueByte c e'"
  using assms(1) unfolding valued_def
proof
  assume r: "resting routeAttemptJSONAfterValue (stored fs idx t) e"
  then show ?thesis by (auto simp: resting_def scanByte_def)
next
  assume p: "scalar_pending fs idx t e"
  then have "resting routeAttemptJSONAfterValue (stored fs idx t) (finishValue e)"
    by (intro finishValue_resting) (simp_all add: scalar_pending_def)
  moreover have "scanByte unquote c e = readAfterValueByte c (finishValue e)"
    using p assms(2) by (auto simp: scalar_pending_def scanByte_def readScalarByte_def readAfterValueByte_def)
  ultimately show ?thesis by blast
qed

lemma valued_ws: "valued fs idx t e \<Longrightarrow> ws w \<Longrightarrow> valued fs idx t (scan unquote w e)"
proof (induction w arbitrary: e)
  case (Cons c w)
  then have "isRouteAttemptJSONSpace c" by simp
  with valued_settle[OF Cons.prems(1), of c unquote]
  have "valued fs idx t (scanByte unquote c e)" by (auto simp: readAfterValueByte_def valued_def)
  with Cons show ?case by (simp add: scan_Cons)
qed simp

lemma scalar_bytes:
  "scalar_pending fs idx r e \<Longrightarrow> list_all scalar_byte t \<Longrightarrow> scalar_pending fs idx (r @ t) (scan unquote t e)"
proof (induction t arbitrary: r e)
  case (Cons c t)
  have "scalar_pending fs idx (r @ [c]) (scanByte unquote c e)"
    using Cons.prems by (auto simp: scalar_pending_def scanByte_def readScalarByte_def scalar_byte_def
        captureByte_capturing)
  from Cons.IH[OF this] Cons.prems(2) show ?case by (simp add: scan_Cons)
qed simp

text \<open>Before the value of a member that selects the field \<open>idx\<close>.\<close>

definition at_value ::
  "routeAttemptJSONField list \<Rightarrow> nat option \<Rightarrow> routeAttemptEnvelopeExtractor \<Rightarrow> bool" where
  "at_value fs idx e \<longleftrightarrow>
     resting routeAttemptJSONExpectValue fs e \<and> idx = fieldIndexFrom 0 (xeCurrentKey e) fs"

lemma opened_facts:
  "at_value fs idx e \<Longrightarrow> capturing fs idx [c] (opened c e)"
  "at_value fs idx e \<Longrightarrow> xeStack (opened c e) = ''{''"
  using opened_capturing[of e fs idx c] by (simp_all add: resting_def at_value_def)

lemma value_first:
  "at_value fs idx e \<Longrightarrow> \<not> isRouteAttemptJSONSpace c \<Longrightarrow> scanByte unquote c e = startFieldValue c e"
  by (simp add: scanByte_def resting_def at_value_def)

lemma scalar_value:
  assumes start: "at_value fs idx e"
    and "t \<noteq> [] \<and> list_all scalar_byte t"
  shows "valued fs idx t (scan unquote t e)"
proof -
  obtain c r where t: "t = c # r" "scalar_byte c" "list_all scalar_byte r" using assms(2) by (cases t) auto
  have "scanByte unquote c e = setState routeAttemptJSONReadScalar (opened c e)"
    using t(2) by (auto simp: value_first[OF start] startFieldValue_opened scalar_byte_def)
  then have "scalar_pending fs idx [c] (scanByte unquote c e)"
    using opened_facts[OF start, of c] by (simp add: scalar_pending_def setState_def)
  from scalar_bytes[OF this t(3), of unquote] show ?thesis by (simp add: t(1) scan_Cons valued_def)
qed

lemma string_value:
  assumes start: "at_value fs idx e"
    and "string_text t"
  shows "valued fs idx t (scan unquote t e)"
proof -
  obtain s where s: "string_body s" "t = [CHR 0x22] @ s @ [CHR 0x22]" using assms(2) by (auto simp: string_text_def)
  have "string_reading fs idx False [CHR 0x22] (scanByte unquote (CHR 0x22) e)"
    using opened_facts[OF start, of "CHR 0x22"] by (simp add: value_first[OF start] startFieldValue_opened string_reading_def)
  from value_reader.string_body_read[OF s(1) this, of unquote]
  obtain e1 where e1: "string_reading fs idx False (CHR 0x22 # s) e1" "scan unquote t e = scanByte unquote (CHR 0x22) e1"
    unfolding s(2) scan_string[OF s(1)] by simp
  have "capturing fs idx t ((captureByte (CHR 0x22) e1)\<lparr>xeInString := False\<rparr>)"
    using captureByte_capturing[of fs idx "CHR 0x22 # s" e1 "CHR 0x22"] e1(1)
    by (simp add: string_reading_def s(2))
  from finishValue_resting[OF this] e1 show ?thesis
    by (simp add: string_reading_def scanByte_def Let_def valued_def)
qed

lemma composite_value:
  assumes start: "at_value fs idx e"
    and "routeAttemptJSONDelimitersMatch c c'"
    "\<And>e. composite fs idx (c # ''{'') False False [c] e \<Longrightarrow>
       composite fs idx (c # ''{'') False False ([c] @ b) (scan unquote b e)"
  shows "valued fs idx ([c] @ b @ [c']) (scan unquote ([c] @ b @ [c']) e)"
proof -
  have c: "c \<in> {CHR ''{'', CHR ''[''}" using assms(2) by (auto simp: routeAttemptJSONDelimitersMatch_def)
  then have "composite fs idx (c # ''{'') False False [c] (scanByte unquote c e)"
    using opened_facts[OF start, of c]
    by (auto simp: value_first[OF start] startFieldValue_opened pushDelimiter_def composite_def
        routeAttemptObservationJSONDepthMax_def)
  from assms(3)[OF this] obtain e1 where e1: "composite fs idx (c # ''{'') False False ([c] @ b) e1"
    "scan unquote ([c] @ b @ [c']) e = scanByte unquote c' e1"
    by (simp add: scan_Cons scan_append)
  have "capturing fs idx ([c] @ b @ [c']) ((captureByte c' e1)\<lparr>xeStack := ''{''\<rparr>)"
    using captureByte_capturing[of fs idx "[c] @ b" e1 c'] e1(1) by (simp add: composite_def)
  from finishValue_resting[OF this] e1 assms(2) show ?thesis
    by (auto simp: composite_def scanByte_def readCompositeByte_def Let_def valued_def
        routeAttemptJSONDelimitersMatch_def)
qed

lemma value_run:
  assumes start: "at_value fs idx e"
    and "value_text d t" "d < routeAttemptObservationJSONDepthMax"
  shows "valued fs idx t (scan unquote t e)"
  using assms(2)
proof (cases rule: value_text.cases)
  case v_literal
  then show ?thesis using scalar_value[OF start] literal_scalar by blast
next
  case v_number
  then show ?thesis using scalar_value[OF start] number_scalar by blast
next
  case v_string
  then show ?thesis by (rule string_value[OF start])
next
  case (v_object0 w d')
  have "composite fs idx ''{{'' False False ([CHR ''{''] @ w) (scan unquote w e')"
    if "composite fs idx ''{{'' False False [CHR ''{''] e'" for e'
    by (rule composite_inert[OF that inert_ws[OF v_object0(3)]])
  then show ?thesis using composite_value[OF start, of "CHR ''{''" "CHR ''}''" w] v_object0(2)
    by (simp add: routeAttemptJSONDelimitersMatch_def)
next
  case (v_array0 w d')
  have "composite fs idx ''[{'' False False ([CHR ''[''] @ w) (scan unquote w e')"
    if "composite fs idx ''[{'' False False [CHR ''[''] e'" for e'
    by (rule composite_inert[OF that inert_ws[OF v_array0(3)]])
  then show ?thesis using composite_value[OF start, of "CHR ''[''" "CHR '']''" w] v_array0(2)
    by (simp add: routeAttemptJSONDelimitersMatch_def)
next
  case (v_object d' m)
  have "composite fs idx ''{{'' False False ([CHR ''{''] @ m) (scan unquote m e')"
    if "composite fs idx ''{{'' False False [CHR ''{''] e'" for e'
    by (rule composite_run(2)[OF v_object(3), rule_format, OF that]) (use assms(3) v_object(1) in simp_all)
  then show ?thesis using composite_value[OF start, of "CHR ''{''" "CHR ''}''" m] v_object(2)
    by (simp add: routeAttemptJSONDelimitersMatch_def)
next
  case (v_array d' m)
  have "composite fs idx ''[{'' False False ([CHR ''[''] @ m) (scan unquote m e')"
    if "composite fs idx ''[{'' False False [CHR ''[''] e'" for e'
    by (rule composite_run(3)[OF v_array(3), rule_format, OF that]) (use assms(3) v_array(1) in simp_all)
  then show ?thesis using composite_value[OF start, of "CHR ''[''" "CHR '']''" m] v_array(2)
    by (simp add: routeAttemptJSONDelimitersMatch_def)
qed

section \<open>The whole object\<close>

text \<open>After the members \<open>ms\<close> of the root, with the fields they have left.\<close>

definition after_members ::
  "routeAttemptJSONField list \<Rightarrow> routeAttemptEnvelopeExtractor \<Rightarrow> bool" where
  "after_members fs e \<longleftrightarrow> (\<exists>fs0 idx t. stored fs0 idx t = fs \<and> valued fs0 idx t e)"

lemma stored_length [simp]: "length (stored fs idx t) = length fs"
  by (simp add: stored_def split: option.split)

lemma root_member_run:
  assumes "resting st fs e" "st \<in> {routeAttemptJSONExpectKeyOrEnd, routeAttemptJSONExpectKey}"
    "ws w1" "string_text k" "ws w2" "ws w3" "value_text d t" "ws w4" "d < routeAttemptObservationJSONDepthMax"
    "unquote k \<noteq> None"
  shows "after_members (store_member unquote (k, t) fs) (scan unquote (w1 @ k @ w2 @ '':'' @ w3 @ t @ w4) e)"
proof -
  let ?e1 = "scan unquote k e" and ?idx = "fieldIndexFrom 0 (key_name unquote k) fs"
  note k = key_run[where unquote = unquote, OF assms(4,1,2,10)]
  have w1: "scan unquote w1 e = e" using resting_ws[OF assms(1,3)] assms(2) by blast
  have w2: "scan unquote w2 ?e1 = ?e1" using resting_ws[of _ fs ?e1 w2 unquote] k assms(5) by blast
  let ?e2 = "scanByte unquote (CHR '':'') ?e1"
  have e2: "?e2 = setState routeAttemptJSONExpectValue ?e1" using k by (simp add: resting_def scanByte_def)
  then have r2: "resting routeAttemptJSONExpectValue fs ?e2" using k by (simp add: resting_def setState_def)
  have "at_value fs ?idx ?e2" using r2 k e2 by (simp add: at_value_def setState_def)
  from value_run[OF this assms(7,9)] have "valued fs ?idx t (scan unquote t ?e2)" .
  from valued_ws[OF this assms(8)] have "valued fs ?idx t (scan unquote w4 (scan unquote t ?e2))" .
  moreover have "scan unquote w3 ?e2 = ?e2" using resting_ws[OF r2 assms(6)] by blast
  ultimately show ?thesis using w1 w2
    by (auto simp: after_members_def store_member_def scan_append scan_Cons)
qed

lemma members_run:
  assumes "member_list d ms b" "resting routeAttemptJSONExpectKeyOrEnd fs e"
    "d < routeAttemptObservationJSONDepthMax" "\<forall>k. string_text k \<longrightarrow> unquote k \<noteq> None"
  shows "after_members (fold (store_member unquote) ms fs) (scan unquote b e)"
  using assms(1,3)
proof (induction rule: member_list.induct)
  case (l_first w1 k w2 w3 d t w4)
  then show ?case using root_member_run[OF assms(2)] assms(4) by simp
next
  case (l_next d ms m w1 k w2 w3 t w4)
  then have "after_members (fold (store_member unquote) ms fs) (scan unquote m e)" by simp
  then obtain fs0 idx t0 where v: "stored fs0 idx t0 = fold (store_member unquote) ms fs"
    "valued fs0 idx t0 (scan unquote m e)" by (auto simp: after_members_def)
  have "resting routeAttemptJSONExpectKey (fold (store_member unquote) ms fs)
      (scanByte unquote (CHR '','') (scan unquote m e))"
    using valued_settle[OF v(2), of "CHR '',''" unquote] v(1)
    by (auto simp: readAfterValueByte_def resting_def setState_def)
  from root_member_run[OF this _ l_next.hyps(2-7) l_next.prems] assms(4) l_next.hyps(3) show ?case
    by (simp add: scan_append scan_Cons)
qed

lemma done_ws: "xeState e = routeAttemptJSONDone \<Longrightarrow> ws w \<Longrightarrow> scan unquote w e = e"
  by (induction w) (simp_all add: scan_Cons scanByte_def)

lemma close_root:
  assumes "after_members fs e" "ws w"
  shows "xeState (scan unquote (''}'' @ w) e) = routeAttemptJSONDone \<and> xeFields (scan unquote (''}'' @ w) e) = fs"
proof -
  obtain fs0 idx t where v: "stored fs0 idx t = fs" "valued fs0 idx t e" using assms(1) by (auto simp: after_members_def)
  let ?e = "scanByte unquote (CHR ''}'') e"
  have done': "xeState ?e = routeAttemptJSONDone \<and> xeFields ?e = fs"
    using valued_settle[OF v(2), of "CHR ''}''" unquote] v(1) by (auto simp: readAfterValueByte_def resting_def)
  then have "scan unquote w ?e = ?e" using done_ws assms(2) by blast
  with done' show ?thesis by (simp add: scan_Cons)
qed

lemma object_run:
  assumes "object_members d ms p" "d < routeAttemptObservationJSONDepthMax"
    "\<forall>k. string_text k \<longrightarrow> unquote k \<noteq> None" "xeState e = routeAttemptJSONBeforeRoot"
  shows "xeState (scan unquote p e) = routeAttemptJSONDone \<and>
    xeFields (scan unquote p e) = fold (store_member unquote) ms (xeFields e)"
proof -
  obtain w1 b w2 where p: "p = w1 @ ''{'' @ b @ ''}'' @ w2" "ws w1" "ws w2" "ms = [] \<and> ws b \<or> member_list d ms b"
    using assms(1) by (auto simp: object_members_def)
  let ?e = "scanByte unquote (CHR ''{'') e"
  have w1: "scan unquote w1 e = e"
    using p(2) assms(4) by (induction w1) (simp_all add: scan_Cons scanByte_def)
  have r: "resting routeAttemptJSONExpectKeyOrEnd (xeFields e) ?e"
    using assms(4) by (simp add: scanByte_def resting_def)
  from p(4) have "xeState (scan unquote (b @ ''}'' @ w2) ?e) = routeAttemptJSONDone \<and>
      xeFields (scan unquote (b @ ''}'' @ w2) ?e) = fold (store_member unquote) ms (xeFields e)"
  proof
    assume b: "ms = [] \<and> ws b"
    let ?e' = "scanByte unquote (CHR ''}'') ?e"
    have "scan unquote b ?e = ?e" using resting_ws[OF r] b by blast
    moreover have e': "xeState ?e' = routeAttemptJSONDone \<and> xeFields ?e' = xeFields e"
      using r by (simp add: resting_def scanByte_def[of unquote "CHR ''}''"])
    moreover have "scan unquote w2 ?e' = ?e'" using done_ws e' p(3) by blast
    ultimately show ?thesis using b by (simp add: scan_append scan_Cons)
  next
    assume "member_list d ms b"
    from close_root[OF members_run[OF this r assms(2,3)] p(3), of unquote]
    show ?thesis by (simp add: scan_append)
  qed
  then show ?thesis using w1 by (simp add: p(1) scan_append scan_Cons)
qed

section \<open>The fields after an object\<close>

text \<open>The value text of the last member that a name selects.\<close>

definition last_member ::
  "(string \<Rightarrow> string option) \<Rightarrow> (string \<times> string) list \<Rightarrow> string \<Rightarrow> string option" where
  "last_member unquote ms = map_of (rev (map (\<lambda>(k, t). (key_name unquote k, t)) ms))"

lemma last_member_snoc:
  "last_member unquote (ms @ [(k, t)]) = (last_member unquote ms)(key_name unquote k \<mapsto> t)"
  by (simp add: last_member_def)

lemma fieldIndexFrom_map:
  assumes "distinct names" "\<And>n. jfName (g n) = n"
  shows "fieldIndexFrom i name (map g names) =
    (if name \<in> set names then Some (i + (THE j. j < length names \<and> names ! j = name)) else None)"
  using assms(1)
proof (induction names arbitrary: i)
  case (Cons n names)
  show ?case
  proof (cases "n = name")
    case True
    then have "(THE j. j < length (n # names) \<and> (n # names) ! j = name) = 0"
      using Cons.prems by (intro the_equality) (auto simp: nth_Cons split: nat.splits)
    with True assms(2) show ?thesis by simp
  next
    case ne: False
    show ?thesis
    proof (cases "name \<in> set names")
      case True
      then obtain j where j: "j < length names" "names ! j = name" by (auto simp: in_set_conv_nth)
      with Cons.prems have "(THE j. j < length names \<and> names ! j = name) = j"
        by (intro the_equality) (auto simp: nth_eq_iff_index_eq)
      moreover have "(THE j. j < length (n # names) \<and> (n # names) ! j = name) = Suc j"
        using j Cons.prems ne by (intro the_equality) (auto simp: nth_Cons nth_eq_iff_index_eq split: nat.splits)
      ultimately show ?thesis using True ne assms(2) Cons by simp
    qed (use ne assms(2) Cons in simp)
  qed
qed simp

lemma fieldIndex_lookup:
  assumes "distinct names" "\<And>n. jfName (g n) = n"
  shows "name \<notin> set names \<Longrightarrow> fieldIndexFrom 0 name (map g names) = None"
    "name \<in> set names \<Longrightarrow> \<exists>j. fieldIndexFrom 0 name (map g names) = Some j \<and> j < length names \<and> names ! j = name"
proof -
  note ix = fieldIndexFrom_map[OF assms, of 0 name]
  show "name \<notin> set names \<Longrightarrow> fieldIndexFrom 0 name (map g names) = None" using ix by simp
  assume m: "name \<in> set names"
  then obtain j where j: "j < length names" "names ! j = name" by (auto simp: in_set_conv_nth)
  with assms(1) have "(THE j. j < length names \<and> names ! j = name) = j"
    by (intro the_equality) (auto simp: nth_eq_iff_index_eq)
  with ix m j show "\<exists>j. fieldIndexFrom 0 name (map g names) = Some j \<and> j < length names \<and> names ! j = name" by simp
qed

lemma stored_map:
  assumes "distinct names" "\<And>n. jfName (g n) = n"
  shows "stored (map g names) (fieldIndexFrom 0 name (map g names)) t =
    map (g(name := captured_field t (g name))) names"
proof (cases "name \<in> set names")
  case True
  then obtain j where j: "fieldIndexFrom 0 name (map g names) = Some j" "j < length names" "names ! j = name"
    using fieldIndex_lookup(2)[OF assms] by blast
  show ?thesis
  proof (rule nth_equalityI)
    fix i assume "i < length (stored (map g names) (fieldIndexFrom 0 name (map g names)) t)"
    then show "stored (map g names) (fieldIndexFrom 0 name (map g names)) t ! i =
        map (g(name := captured_field t (g name))) names ! i"
      using j assms(1) by (cases "i = j") (auto simp: stored_def nth_eq_iff_index_eq)
  qed simp
next
  case False
  then show ?thesis using fieldIndex_lookup(1)[OF assms] by (auto simp: stored_def)
qed

definition field_for :: "(string \<Rightarrow> string option) \<Rightarrow> (string \<times> string) list \<Rightarrow> string \<Rightarrow> routeAttemptJSONField" where
  "field_for unquote ms n =
     (case last_member unquote ms n of None \<Rightarrow> newField n | Some t \<Rightarrow> captured_field t (newField n))"

lemma captured_again: "captured_field t (captured_field t' f) = captured_field t f"
  by (cases f) (simp add: captured_field_def partial_field_def)

lemma field_for_name [simp]: "jfName (field_for unquote ms n) = n"
  by (simp add: field_for_def newField_def captured_field_def partial_field_def split: option.split)

lemma fields_after:
  assumes "distinct names"
  shows "fold (store_member unquote) ms (map newField names) = map (field_for unquote ms) names"
proof (induction ms rule: rev_induct)
  case Nil
  then show ?case by (simp add: field_for_def last_member_def)
next
  case (snoc kt ms)
  obtain k t where kt: "kt = (k, t)" by fastforce
  have "fold (store_member unquote) (ms @ [kt]) (map newField names) =
      store_member unquote kt (map (field_for unquote ms) names)" using snoc by simp
  also have "\<dots> = map ((field_for unquote ms)(key_name unquote k :=
      captured_field t (field_for unquote ms (key_name unquote k)))) names"
    using stored_map[OF assms field_for_name] by (simp add: kt store_member_def)
  also have "\<dots> = map (field_for unquote (ms @ [kt])) names"
    by (auto simp: kt field_for_def last_member_snoc captured_again split: option.split)
  finally show ?case .
qed

lemma value_text_nonempty: "value_text d t \<Longrightarrow> t \<noteq> []"
  by (auto elim!: value_text.cases simp: string_text_def dest: number_scalar)

lemma member_list_values: "member_list d ms m \<Longrightarrow> (k, t) \<in> set ms \<Longrightarrow> value_text d t"
  by (induction rule: member_list.induct) auto

lemma last_member_value:
  assumes "object_members d ms p" "last_member unquote ms n = Some t"
  shows "value_text d t"
proof -
  have "(n, t) \<in> set (map (\<lambda>(k, t). (key_name unquote k, t)) ms)"
    using assms(2) map_of_SomeD unfolding last_member_def by fastforce
  then obtain k where "(k, t) \<in> set ms" by auto
  then show ?thesis using assms(1) member_list_values by (fastforce simp: object_members_def)
qed

lemma extractor_run:
  assumes "newRouteAttemptEnvelopeExtractor endpoint = Some e0" "\<forall>k. string_text k \<longrightarrow> unquote k \<noteq> None"
    "object_members 127 ms (concat ps)" "envelopeFieldNames endpoint = Some names"
  shows "extractorComplete (fold (extractorObserve unquote) ps e0) \<and>
    xeFields (fold (extractorObserve unquote) ps e0) = map (field_for unquote ms) names"
proof -
  have e0: "xeState e0 = routeAttemptJSONBeforeRoot" "xeFields e0 = map newField names" "xeValidator e0 = newValidator"
    using assms(1,4) by (auto simp: newRouteAttemptEnvelopeExtractor_def)
  have "distinct names"
    using assms(4) by (auto simp: envelopeFieldNames_def split: if_splits)
  moreover have "object_document 128 (concat ps)"
    using object_members_document[of 127 "concat ps"] assms(3) by auto
  ultimately show ?thesis
    using object_run[OF assms(3) _ assms(2), of e0] document_accepted[of "concat ps"] e0
    by (simp add: extractorObserve_chunks extractorComplete_def fields_after routeAttemptObservationJSONDepthMax_def)
qed

section \<open>Properties\<close>

definition plainUnquote :: "string \<Rightarrow> string option" where
  "plainUnquote k = Some (butlast (tl k))"

definition exampleBody :: string where
  "exampleBody = [CHR ''{'', CHR 0x22] @ ''usage'' @ [CHR 0x22, CHR '':'', CHR ''1'', CHR ''}'']"

lemma exampleBody_members: "object_members 127 [([CHR 0x22] @ ''usage'' @ [CHR 0x22], ''1'')] exampleBody"
proof -
  have body: "string_body s" if "list_all (\<lambda>c. \<not> of_char c < (0x20 :: nat) \<and> c \<noteq> CHR 0x22 \<and> c \<noteq> CHR 0x5C) s" for s
    using that by (induction s rule: rev_induct) (auto intro: string_body.intros(1,2))
  have "string_text ([CHR 0x22] @ ''usage'' @ [CHR 0x22])"
    unfolding string_text_def by (intro exI[of _ "''usage''"] conjI body) simp_all
  moreover have "value_text 127 ''1''"
    by (rule v_number, unfold number_text_def, intro exI[of _ "''''"] exI[of _ "''1''"] exI[of _ "''''"])
      (simp add: int_part_def frac_part_def exp_part_def byteIn_def)
  ultimately have "member_list 127 [([CHR 0x22] @ ''usage'' @ [CHR 0x22], ''1'')]
      (([CHR 0x22] @ ''usage'' @ [CHR 0x22]) @ '':'' @ ''1'')"
    using l_first[of "''''" "[CHR 0x22] @ ''usage'' @ [CHR 0x22]" "''''" "''''" 127 "''1''" "''''"] by simp
  then show ?thesis unfolding object_members_def exampleBody_def
    by (intro exI[of _ "''''"] exI[of _ "[CHR 0x22] @ ''usage'' @ [CHR 0x22, CHR '':'', CHR ''1'']"]) simp
qed

text \<open>The extractor reports a body as complete exactly if the body is one JSON object nested
  at most 128 deep, for every endpoint that has an extractor and however the body is cut into
  chunks. It relies on \<open>json.Unmarshal\<close> accepting every JSON string as a key.\<close>

theorem extractor_complete_iff_object:
  assumes "newRouteAttemptEnvelopeExtractor endpoint = Some e0" "\<forall>k. string_text k \<longrightarrow> unquote k \<noteq> None"
  shows "extractorComplete (fold (extractorObserve unquote) ps e0) \<longleftrightarrow> object_document 128 (concat ps)"
proof
  assume "extractorComplete (fold (extractorObserve unquote) ps e0)"
  then have "complete (observe (concat ps) newValidator)"
    using assms(1) by (auto simp: extractorObserve_chunks extractorComplete_def newRouteAttemptEnvelopeExtractor_def)
  from accepted_document[OF this] show "object_document 128 (concat ps)"
    by (simp add: routeAttemptObservationJSONDepthMax_def)
next
  assume "object_document 128 (concat ps)"
  then obtain ms where "object_members 127 ms (concat ps)"
    using object_members_document[of 127 "concat ps"] by auto
  moreover obtain names where "envelopeFieldNames endpoint = Some names"
    using assms(1) by (auto simp: newRouteAttemptEnvelopeExtractor_def)
  ultimately show "extractorComplete (fold (extractorObserve unquote) ps e0)"
    using extractor_run[OF assms] by blast
qed

lemma extractor_complete_iff_object_witness:
  "\<exists>e0. newRouteAttemptEnvelopeExtractor ''/responses'' = Some e0 \<and>
     extractorComplete (fold (extractorObserve plainUnquote) [exampleBody] e0)"
proof -
  obtain e0 where e0: "newRouteAttemptEnvelopeExtractor ''/responses'' = Some e0"
    by (simp add: newRouteAttemptEnvelopeExtractor_def envelopeFieldNames_def providerEndpointResponses_def)
  have "object_document 128 (concat [exampleBody])"
    using object_members_document[of 127 exampleBody] exampleBody_members by auto
  with extractor_complete_iff_object[OF e0, of plainUnquote "[exampleBody]"] e0 show ?thesis
    by (simp add: plainUnquote_def)
qed

text \<open>C27. Of a body that is a JSON object, the extractor answers for each of its names the exact
  text of the last member with that name, and nothing when there is no such member or its text
  is longer than the bound of the field. It relies on \<open>json.Unmarshal\<close> accepting JSON strings and
  \<open>json.Valid\<close> accepting JSON values.\<close>

theorem extracted_field_is_last_member:
  assumes "newRouteAttemptEnvelopeExtractor endpoint = Some e0" "\<forall>k. string_text k \<longrightarrow> unquote k \<noteq> None"
    "\<forall>t. value_text 127 t \<longrightarrow> valid t" "object_members 127 ms (concat ps)"
    "envelopeFieldNames endpoint = Some names" "name \<in> set names"
  shows "extractedField valid name (fold (extractorObserve unquote) ps e0) =
    (case last_member unquote ms name of
       None \<Rightarrow> None
     | Some t \<Rightarrow> if length t \<le> jfMaxBytes (newField name) then Some t else None)"
proof -
  let ?e = "fold (extractorObserve unquote) ps e0"
  have f: "xeFields ?e = map (field_for unquote ms) names"
    using extractor_run[OF assms(1,2,4,5)] by blast
  have "distinct names" using assms(5) by (auto simp: envelopeFieldNames_def split: if_splits)
  then obtain j where j: "fieldIndex name ?e = Some j" "j < length names" "names ! j = name"
    using fieldIndex_lookup(2)[of names "field_for unquote ms" name] assms(6) f
    by (auto simp: fieldIndex_def)
  have "\<And>t. last_member unquote ms name = Some t \<Longrightarrow> t \<noteq> [] \<and> valid t"
    using last_member_value[OF assms(4)] value_text_nonempty assms(3) by blast
  then show ?thesis using f j
    by (auto simp: extractedField_def field_for_def newField_def captured_field_def partial_field_def Let_def
        split: option.splits)
qed

lemma extracted_field_is_last_member_witness:
  "\<exists>e0. newRouteAttemptEnvelopeExtractor ''/responses'' = Some e0 \<and>
     extractedField (\<lambda>_. True) ''usage'' (fold (extractorObserve plainUnquote) [exampleBody] e0) = Some ''1''"
proof -
  obtain e0 where e0: "newRouteAttemptEnvelopeExtractor ''/responses'' = Some e0"
    by (simp add: newRouteAttemptEnvelopeExtractor_def envelopeFieldNames_def providerEndpointResponses_def)
  have names: "envelopeFieldNames ''/responses'' = Some [''status'', ''error'', ''usage'']"
    by (simp add: envelopeFieldNames_def providerEndpointResponses_def)
  have "object_members 127 [([CHR 0x22] @ ''usage'' @ [CHR 0x22], ''1'')] (concat [exampleBody])"
    using exampleBody_members by simp
  from extracted_field_is_last_member[OF e0 _ _ this names, of plainUnquote "\<lambda>_. True" "''usage''"] e0
  show ?thesis
    by (simp add: plainUnquote_def last_member_def key_name_def routeAttemptObservationJSONKeyMax_def
        newField_def routeAttemptObservationJSONFieldMax_def)
qed

end
