(* ===== verification/Replay_Id.thy ===== *)
theory Replay_Id
  imports Prelude "HOL-Library.Char_ord"
begin

text \<open>
  The identifiers of replayed tool calls (\<open>proxy/responses_chat_replay.go\<close>): the opaque form
  \<open>call_vekil_<22 characters>\<close> and the self-describing form that embeds the upstream identifier
  with a nonce and a checksum. The base64 alphabet of \<open>base64.RawURLEncoding\<close> is written out;
  \<open>sha\<close> is \<open>sha256.Sum256\<close>, of which only the length of the sum is used.
\<close>

section \<open>Base64, URL alphabet, no padding\<close>

definition base64Alphabet :: string where
  "base64Alphabet = ''ABCDEFGHIJKLMNOPQRSTUVWXYZabcdefghijklmnopqrstuvwxyz0123456789-_''"

definition base64Char :: "nat \<Rightarrow> char" where
  "base64Char n = base64Alphabet ! (n mod 64)"

fun rawURLEncode :: "string \<Rightarrow> string" where
  "rawURLEncode [] = []"
| "rawURLEncode [a] = (let n = of_char a in [base64Char (n div 4), base64Char (n mod 4 * 16)])"
| "rawURLEncode [a, b] =
     (let n = of_char a * 256 + of_char b
      in [base64Char (n div 1024), base64Char (n div 16), base64Char (n mod 16 * 4)])"
| "rawURLEncode (a # b # c # r) =
     (let n = of_char a * 65536 + of_char b * 256 + of_char c
      in [base64Char (n div 262144), base64Char (n div 4096), base64Char (n div 64), base64Char n] @
         rawURLEncode r)"

section \<open>Minting and reading\<close>

definition responsesChatReplayCallIDPrefix :: string where
  "responsesChatReplayCallIDPrefix = ''call_vekil_''"
definition responsesChatReplayUpstreamIDMarker :: string where
  "responsesChatReplayUpstreamIDMarker = ''call_''"
definition responsesChatReplaySelfIDVersion :: string where
  "responsesChatReplaySelfIDVersion = ''v1_''"
definition responsesChatReplaySelfIDCanonicalNonce :: string where
  "responsesChatReplaySelfIDCanonicalNonce = replicate 15 (CHR ''A'')"
definition responsesChatReplayRandomBytes :: nat where
  "responsesChatReplayRandomBytes = 16"
definition responsesChatReplayIDLength :: nat where
  "responsesChatReplayIDLength = length responsesChatReplayCallIDPrefix + 22"
definition responsesChatReplayMaxIDAttempts :: nat where
  "responsesChatReplayMaxIDAttempts = 1024"
definition responsesChatReplayMaxIDLength :: nat where
  "responsesChatReplayMaxIDLength = 64"
definition responsesChatReplaySelfIDNonceBytes :: nat where
  "responsesChatReplaySelfIDNonceBytes = 11"
definition responsesChatReplaySelfIDNonceChars :: nat where
  "responsesChatReplaySelfIDNonceChars = 15"
definition responsesChatReplaySelfIDChecksumBytes :: nat where
  "responsesChatReplaySelfIDChecksumBytes = 3"
definition responsesChatReplaySelfIDChecksumChars :: nat where
  "responsesChatReplaySelfIDChecksumChars = 4"

lemmas replay_id_consts = responsesChatReplayCallIDPrefix_def responsesChatReplayUpstreamIDMarker_def
  responsesChatReplaySelfIDVersion_def responsesChatReplayRandomBytes_def responsesChatReplayIDLength_def
  responsesChatReplayMaxIDLength_def responsesChatReplaySelfIDNonceBytes_def
  responsesChatReplaySelfIDNonceChars_def responsesChatReplaySelfIDChecksumBytes_def
  responsesChatReplaySelfIDChecksumChars_def

text \<open>The Go loop ranges over runes; a byte from 0x80 on belongs to a rune outside of the set.\<close>

definition idChar :: "char \<Rightarrow> bool" where
  "idChar c \<longleftrightarrow> (CHR ''a'' \<le> c \<and> c \<le> CHR ''z'') \<or> (CHR ''A'' \<le> c \<and> c \<le> CHR ''Z'') \<or>
     (CHR ''0'' \<le> c \<and> c \<le> CHR ''9'') \<or> c = CHR ''-'' \<or> c = CHR ''_''"

definition isResponsesChatReplayIDCharset :: "string \<Rightarrow> bool" where
  "isResponsesChatReplayIDCharset value \<longleftrightarrow> value \<noteq> '''' \<and> list_all idChar value"

definition responsesChatReplaySelfIDChecksum :: "(string \<Rightarrow> string) \<Rightarrow> string \<Rightarrow> string \<Rightarrow> string" where
  "responsesChatReplaySelfIDChecksum sha nonce upstreamCallID =
     rawURLEncode (take responsesChatReplaySelfIDChecksumBytes
       (sha (''vekil-responses-chat-replay-v1'' @ [CHR 0x00] @ nonce @ [CHR 0x00] @ upstreamCallID)))"

definition responsesChatReplaySelfDescribingIDWithNonce ::
  "(string \<Rightarrow> string) \<Rightarrow> string \<Rightarrow> string \<Rightarrow> string option" where
  "responsesChatReplaySelfDescribingIDWithNonce sha upstreamCallID nonce =
     (if length upstreamCallID \<le> length responsesChatReplayUpstreamIDMarker \<or>
         take (length responsesChatReplayUpstreamIDMarker) upstreamCallID \<noteq> responsesChatReplayUpstreamIDMarker
      then None
      else if length nonce \<noteq> responsesChatReplaySelfIDNonceChars \<or> \<not> isResponsesChatReplayIDCharset nonce \<or>
              \<not> isResponsesChatReplayIDCharset upstreamCallID
      then None
      else
        let proxyCallID = responsesChatReplayCallIDPrefix @ responsesChatReplaySelfIDVersion @ nonce @ ''_'' @
              upstreamCallID @ ''_'' @ responsesChatReplaySelfIDChecksum sha nonce upstreamCallID
        in if length proxyCallID > responsesChatReplayMaxIDLength then None else Some proxyCallID)"

definition responsesChatReplaySelfDescribingID :: "(string \<Rightarrow> string) \<Rightarrow> string \<Rightarrow> string option" where
  "responsesChatReplaySelfDescribingID sha upstreamCallID =
     responsesChatReplaySelfDescribingIDWithNonce sha upstreamCallID responsesChatReplaySelfIDCanonicalNonce"

definition responsesChatReplayUpstreamCallID :: "(string \<Rightarrow> string) \<Rightarrow> string \<Rightarrow> string option" where
  "responsesChatReplayUpstreamCallID sha proxyCallID0 =
     (let proxyCallID = trimSpace proxyCallID0;
          prefix = responsesChatReplayCallIDPrefix @ responsesChatReplaySelfIDVersion
      in if take (length prefix) proxyCallID \<noteq> prefix then None
      else
        let body = drop (length prefix) proxyCallID;
            minimum = responsesChatReplaySelfIDNonceChars + 1 + length responsesChatReplayUpstreamIDMarker + 1 +
              responsesChatReplaySelfIDChecksumChars
        in if length body < minimum \<or> body ! responsesChatReplaySelfIDNonceChars \<noteq> CHR ''_'' \<or>
              body ! (length body - responsesChatReplaySelfIDChecksumChars - 1) \<noteq> CHR ''_''
           then None
           else
             let nonce = take responsesChatReplaySelfIDNonceChars body;
                 upstreamCallID = drop (responsesChatReplaySelfIDNonceChars + 1)
                   (take (length body - responsesChatReplaySelfIDChecksumChars - 1) body)
             in if responsesChatReplaySelfDescribingIDWithNonce sha upstreamCallID nonce = Some proxyCallID
                then Some upstreamCallID else None)"

text \<open>The size charged before the form of the identifier is known.\<close>

definition responsesChatReplayMintedIDSize :: "(string \<Rightarrow> string) \<Rightarrow> string \<Rightarrow> nat" where
  "responsesChatReplayMintedIDSize sha upstreamCallID =
     (case responsesChatReplaySelfDescribingID sha upstreamCallID of
        Some proxyCallID \<Rightarrow> max (length proxyCallID) responsesChatReplayIDLength
      | None \<Rightarrow> responsesChatReplayIDLength)"

definition opaqueCallID :: "string \<Rightarrow> string" where
  "opaqueCallID randomBytes = responsesChatReplayCallIDPrefix @ rawURLEncode randomBytes"

section \<open>Facts on base64 and on the character set\<close>

lemma length_rawURLEncode: "length (rawURLEncode s) = (8 * length s + 5) div 6"
  by (induction s rule: rawURLEncode.induct) (simp_all add: Let_def)

lemma base64Char_id: "idChar (base64Char n)"
proof -
  have "list_all idChar base64Alphabet" "length base64Alphabet = 64" by code_simp+
  then show ?thesis by (simp add: base64Char_def list_all_length)
qed

lemma rawURLEncode_id: "list_all idChar (rawURLEncode s)"
  by (induction s rule: rawURLEncode.induct) (simp_all add: Let_def base64Char_id)

lemma idChar_not_space: "idChar c \<Longrightarrow> \<not> asciiSpace c"
  by (auto simp: idChar_def asciiSpace_def less_eq_char_def)

lemma idChar_bound: "idChar c \<Longrightarrow> of_char c < (0x80 :: nat)"
  by (auto simp: idChar_def less_eq_char_def)

lemma idChar_not_high:
  assumes "idChar c"
  shows "c \<noteq> CHR 0xC2" "c \<noteq> CHR 0xE1" "c \<noteq> CHR 0xE2" "c \<noteq> CHR 0xE3" "c \<noteq> CHR 0x85" "c \<noteq> CHR 0xA0"
  using idChar_bound[OF assms] by auto

lemma trim_id:
  assumes "list_all idChar s"
  shows "trimSpace s = s"
proof -
  have lead: "leadingSpace t = 0" if "list_all idChar t" for t
    using that idChar_not_space idChar_not_high
    by (cases t) (auto simp: spaceRune3_def split: list.splits)
  have high: "\<not> spaceRune3 a b c" if "idChar c" for a b c
    using idChar_bound[OF that] by (auto simp: spaceRune3_def)
  have trail: "trailingSpaceRev t = 0" if "list_all idChar t" for t
    using that idChar_not_space idChar_not_high high
    by (cases t) (auto split: list.splits)
  show ?thesis using lead[OF assms] trail[of "rev s"] assms
    by (simp add: trimSpace_def trimWith.simps[of _ s] trimWith.simps[of _ "rev s"])
qed

section \<open>Facts on minted identifiers\<close>

lemma minted_shape:
  assumes "responsesChatReplaySelfDescribingIDWithNonce sha u n = Some p"
  shows "p = responsesChatReplayCallIDPrefix @ responsesChatReplaySelfIDVersion @ n @ ''_'' @ u @ ''_'' @
      responsesChatReplaySelfIDChecksum sha n u"
    "length n = 15" "5 < length u" "list_all idChar n" "list_all idChar u" "length p \<le> 64"
  using assms
  by (auto simp: responsesChatReplaySelfDescribingIDWithNonce_def replay_id_consts Let_def
      isResponsesChatReplayIDCharset_def split: if_splits)

lemma checksum_facts:
  assumes "\<And>s. length (sha s) = 32"
  shows "length (responsesChatReplaySelfIDChecksum sha n u) = 4"
    "list_all idChar (responsesChatReplaySelfIDChecksum sha n u)"
  using assms by (simp_all add: responsesChatReplaySelfIDChecksum_def length_rawURLEncode rawURLEncode_id replay_id_consts)

lemma minted_id:
  assumes "responsesChatReplaySelfDescribingIDWithNonce sha u n = Some p"
  shows "list_all idChar p"
  using minted_shape[OF assms]
  by (simp add: replay_id_consts responsesChatReplaySelfIDChecksum_def rawURLEncode_id) (simp add: idChar_def)

text \<open>Reading, with the prefix split off.\<close>

lemma read_prefixed:
  assumes "trimSpace q = responsesChatReplayCallIDPrefix @ responsesChatReplaySelfIDVersion @ b"
  shows "responsesChatReplayUpstreamCallID sha q =
    (if length b < 26 \<or> b ! 15 \<noteq> CHR ''_'' \<or> b ! (length b - 5) \<noteq> CHR ''_'' then None
     else if responsesChatReplaySelfDescribingIDWithNonce sha (drop 16 (take (length b - 5) b)) (take 15 b) =
         Some (trimSpace q) then Some (drop 16 (take (length b - 5) b)) else None)"
  using assms
  by (simp add: responsesChatReplayUpstreamCallID_def Let_def responsesChatReplaySelfIDNonceChars_def
      responsesChatReplaySelfIDChecksumChars_def responsesChatReplayUpstreamIDMarker_def)

lemma minted_read:
  assumes "\<And>s. length (sha s) = 32" "responsesChatReplaySelfDescribingIDWithNonce sha u n = Some p"
    "trimSpace q = p"
  shows "responsesChatReplayUpstreamCallID sha q = Some u"
proof -
  let ?b = "n @ ''_'' @ u @ ''_'' @ responsesChatReplaySelfIDChecksum sha n u"
  have len: "length n = 15" "5 < length u" "length (responsesChatReplaySelfIDChecksum sha n u) = 4"
    using minted_shape[OF assms(2)] checksum_facts(1)[OF assms(1)] by simp_all
  have q: "trimSpace q = responsesChatReplayCallIDPrefix @ responsesChatReplaySelfIDVersion @ ?b"
    using minted_shape(1)[OF assms(2)] assms(3) by simp
  have "\<not> length ?b < 26" "?b ! 15 = CHR ''_''" "?b ! (length ?b - 5) = CHR ''_''" "take 15 ?b = n"
    "drop 16 (take (length ?b - 5) ?b) = u"
    using len by (simp_all add: nth_append)
  then show ?thesis using assms(2,3) by (simp only: read_prefixed[OF q] if_False simp_thms if_True)
qed

lemma read_minted:
  assumes "responsesChatReplayUpstreamCallID sha q = Some u"
  shows "\<exists>n. responsesChatReplaySelfDescribingIDWithNonce sha u n = Some (trimSpace q)"
  using assms by (auto simp: responsesChatReplayUpstreamCallID_def Let_def split: if_splits)

lemma opaque_facts:
  assumes "length bs = 16"
  shows "length (opaqueCallID bs) = 33" "list_all idChar (opaqueCallID bs)"
  using assms by (simp_all add: opaqueCallID_def replay_id_consts length_rawURLEncode rawURLEncode_id)
    (simp add: idChar_def)

lemma opaque_unread:
  assumes "length bs = 16"
  shows "responsesChatReplayUpstreamCallID sha (opaqueCallID bs) = None"
proof (cases "take (length (responsesChatReplayCallIDPrefix @ responsesChatReplaySelfIDVersion)) (opaqueCallID bs) =
    responsesChatReplayCallIDPrefix @ responsesChatReplaySelfIDVersion")
  case True
  then obtain b where b: "opaqueCallID bs = responsesChatReplayCallIDPrefix @ responsesChatReplaySelfIDVersion @ b"
    by (metis append_take_drop_id append_assoc)
  then have "length b = 19"
    using opaque_facts(1)[OF assms]
    by (simp add: responsesChatReplayCallIDPrefix_def responsesChatReplaySelfIDVersion_def)
  then show ?thesis using read_prefixed[of "opaqueCallID bs" b] b trim_id[OF opaque_facts(2)[OF assms]] by simp
next
  case False
  then show ?thesis using trim_id[OF opaque_facts(2)[OF assms]]
    by (simp add: responsesChatReplayUpstreamCallID_def Let_def)
qed

lemma canonical_nonce:
  "length responsesChatReplaySelfIDCanonicalNonce = 15"
  "isResponsesChatReplayIDCharset responsesChatReplaySelfIDCanonicalNonce"
  by code_simp+

lemma minted_size:
  assumes "\<And>s. length (sha s) = 32" "responsesChatReplaySelfDescribingIDWithNonce sha u n = Some p"
  shows "length p \<le> responsesChatReplayMintedIDSize sha u"
proof -
  let ?n = responsesChatReplaySelfIDCanonicalNonce
  let ?p = "responsesChatReplayCallIDPrefix @ responsesChatReplaySelfIDVersion @ ?n @ ''_'' @ u @ ''_'' @
    responsesChatReplaySelfIDChecksum sha ?n u"
  have eq: "length ?p = length p"
    using minted_shape(1,2)[OF assms(2)] checksum_facts(1)[OF assms(1)] canonical_nonce(1) by simp
  have "isResponsesChatReplayIDCharset u"
    using minted_shape(3,5)[OF assms(2)] by (auto simp: isResponsesChatReplayIDCharset_def)
  moreover have "length responsesChatReplayUpstreamIDMarker < length u \<and>
      take (length responsesChatReplayUpstreamIDMarker) u = responsesChatReplayUpstreamIDMarker"
    using assms(2) by (auto simp: responsesChatReplaySelfDescribingIDWithNonce_def split: if_splits)
  moreover have "length ?p \<le> responsesChatReplayMaxIDLength"
    using minted_shape(6)[OF assms(2)] eq by (simp only: responsesChatReplayMaxIDLength_def)
  ultimately have "responsesChatReplaySelfDescribingID sha u = Some ?p"
    using canonical_nonce unfolding responsesChatReplaySelfDescribingID_def responsesChatReplaySelfDescribingIDWithNonce_def Let_def
    by (simp add: responsesChatReplaySelfIDNonceChars_def)
  then show ?thesis using eq by (simp add: responsesChatReplayMintedIDSize_def)
qed

section \<open>Properties\<close>

definition exSha :: "string \<Rightarrow> string" where
  "exSha s = take 32 (s @ replicate 32 (CHR ''x''))"

lemma exSha_length: "\<forall>s. length (exSha s) = 32"
  by (auto simp: exSha_def min_def)

text \<open>Reading is the exact inverse of minting: an identifier, with or without white space
  around it, is read as the upstream identifier \<open>u\<close> if and only if it was minted from \<open>u\<close>
  with some nonce. No other upstream identifier can be read from it, and what is minted fits the 64 characters
  of the allowed character set.\<close>

theorem minted_id_roundtrip:
  assumes "\<forall>s. length (sha s) = 32"
  shows "(responsesChatReplayUpstreamCallID sha q = Some u) =
      (\<exists>n. responsesChatReplaySelfDescribingIDWithNonce sha u n = Some (trimSpace q)) \<and>
    (responsesChatReplaySelfDescribingIDWithNonce sha u n = Some p \<longrightarrow>
      responsesChatReplayUpstreamCallID sha p = Some u \<and>
      isResponsesChatReplayIDCharset p \<and> length p \<le> responsesChatReplayMaxIDLength)"
proof (intro conjI impI)
  have sha: "\<And>s. length (sha s) = 32" using assms by blast
  show "(responsesChatReplayUpstreamCallID sha q = Some u) =
      (\<exists>n. responsesChatReplaySelfDescribingIDWithNonce sha u n = Some (trimSpace q))"
    using minted_read[where sha = sha, OF sha _ refl] read_minted by blast
  assume m: "responsesChatReplaySelfDescribingIDWithNonce sha u n = Some p"
  show "responsesChatReplayUpstreamCallID sha p = Some u"
    by (rule minted_read[where sha = sha, OF sha m trim_id[OF minted_id[OF m]]])
  show "isResponsesChatReplayIDCharset p" "length p \<le> responsesChatReplayMaxIDLength"
    using minted_id[OF m] minted_shape(3,6)[OF m] minted_shape(1)[OF m]
    by (auto simp only: isResponsesChatReplayIDCharset_def responsesChatReplayMaxIDLength_def append_is_Nil_conv)
qed

lemma minted_id_roundtrip_witness:
  "\<exists>p. responsesChatReplaySelfDescribingIDWithNonce exSha ''call_abc'' responsesChatReplaySelfIDCanonicalNonce = Some p \<and>
     responsesChatReplayUpstreamCallID exSha p = Some ''call_abc''"
proof -
  have len: "length (responsesChatReplaySelfIDChecksum exSha n u) = 4" for n u
    using checksum_facts(1) exSha_length by blast
  have "isResponsesChatReplayIDCharset ''call_abc''" by code_simp
  then have "responsesChatReplaySelfDescribingIDWithNonce exSha ''call_abc'' responsesChatReplaySelfIDCanonicalNonce \<noteq> None"
    using canonical_nonce len
    by (simp add: responsesChatReplaySelfDescribingIDWithNonce_def Let_def responsesChatReplayUpstreamIDMarker_def
        responsesChatReplaySelfIDNonceChars_def responsesChatReplayMaxIDLength_def responsesChatReplayCallIDPrefix_def
        responsesChatReplaySelfIDVersion_def)
  then obtain p where p: "responsesChatReplaySelfDescribingIDWithNonce exSha ''call_abc''
      responsesChatReplaySelfIDCanonicalNonce = Some p" by auto
  with minted_id_roundtrip[OF exSha_length, of p "''call_abc''"] show ?thesis by blast
qed

text \<open>The two forms never meet: an opaque identifier made of 16 random bytes has the fixed
  length of the opaque form, consists of allowed characters and is never read as a
  self-describing one; and the size charged in advance covers either form.\<close>

theorem opaque_id_distinct:
  assumes "\<forall>s. length (sha s) = 32" "length bs = responsesChatReplayRandomBytes"
  shows "length (opaqueCallID bs) = responsesChatReplayIDLength \<and>
    isResponsesChatReplayIDCharset (opaqueCallID bs) \<and>
    responsesChatReplayUpstreamCallID sha (opaqueCallID bs) = None \<and>
    (\<forall>u n. responsesChatReplaySelfDescribingIDWithNonce sha u n \<noteq> Some (opaqueCallID bs)) \<and>
    length (opaqueCallID bs) \<le> responsesChatReplayMintedIDSize sha u"
proof -
  have sha: "\<And>s. length (sha s) = 32" using assms by blast
  have bs: "length bs = 16" using assms(2) by (simp add: responsesChatReplayRandomBytes_def)
  have "responsesChatReplaySelfDescribingIDWithNonce sha u n \<noteq> Some (opaqueCallID bs)" for u n
    using minted_read[where sha = sha, OF sha _ trim_id[OF opaque_facts(2)[OF bs]], of u n] opaque_unread[OF bs, of sha]
    by auto
  moreover have len: "length (opaqueCallID bs) = responsesChatReplayIDLength"
    using opaque_facts(1)[OF bs] by (simp add: responsesChatReplayIDLength_def responsesChatReplayCallIDPrefix_def)
  moreover have "isResponsesChatReplayIDCharset (opaqueCallID bs)"
    using opaque_facts[OF bs] by (auto simp: isResponsesChatReplayIDCharset_def)
  moreover have "length (opaqueCallID bs) \<le> responsesChatReplayMintedIDSize sha u"
    unfolding len by (simp add: responsesChatReplayMintedIDSize_def split: option.split)
  ultimately show ?thesis using opaque_unread[OF bs] by blast
qed

lemma opaque_id_distinct_witness:
  "responsesChatReplayUpstreamCallID exSha (opaqueCallID (replicate 16 (CHR ''q''))) = None"
  using opaque_id_distinct[OF exSha_length, of "replicate 16 (CHR ''q'')"]
  by (simp add: responsesChatReplayRandomBytes_def)

end
