(* ===== verification/Replay_Store.thy ===== *)
theory Replay_Store
  imports Replay_Id
begin

text \<open>
  The replay store of Responses tool calls served over chat completions
  (\<open>proxy/responses_chat_replay.go\<close>): groups of output items published under minted call
  identifiers, resolved again from the assistant message the client echoes.

  \<open>encoding/json\<close> is the record \<open>replayJson\<close>; \<open>rjRecode\<close> decodes exactly one value with
  \<open>UseNumber\<close> and encodes it again, \<open>rjObject\<close> decodes into a map of raw members (the inner
  \<open>None\<close> is the nil map of a JSON null). A missing raw message is the empty string: the code
  only asks for lengths and \<open>bytes.Equal\<close>. The random source is the list of what its next
  reads give. The mutex makes every locked section one step; clones are invisible in a model
  of values.
\<close>

section \<open>Data\<close>

record replayJson =
  rjValid :: "string \<Rightarrow> bool"
  rjType :: "string \<Rightarrow> string option"
  rjCall :: "string \<Rightarrow> (string \<times> string \<times> string \<times> string) option"
  rjRecode :: "string \<Rightarrow> string option"
  rjObject :: "string \<Rightarrow> (string, string) gomap option option"
  rjEncodeObject :: "(string, string) gomap \<Rightarrow> string option"
  rjSha :: "string \<Rightarrow> string"

datatype responsesChatReplayLimit =
    responsesChatReplayLimitItems | responsesChatReplayLimitCalls
  | responsesChatReplayLimitGroupBytes | responsesChatReplayLimitTotalBytes

datatype replayRandomError = RandomReadFailed | UnexpectedLength nat | CollisionLimitExceeded

datatype replayError =
    ReplayMissing | ReplayMixed
  | ReplayProjection string
  | ReplayTooLarge responsesChatReplayLimit int int
  | ReplayClosed
  | ReplayNonceError replayRandomError
  | ReplayCallIDError replayRandomError

fun replayErrorCode :: "replayError \<Rightarrow> string option" where
  "replayErrorCode ReplayMissing = Some ''responses_replay_state_missing''"
| "replayErrorCode ReplayMixed = Some ''responses_replay_group_mismatch''"
| "replayErrorCode (ReplayProjection _) = Some ''responses_replay_projection_mismatch''"
| "replayErrorCode (ReplayTooLarge _ _ _) = Some ''responses_replay_group_too_large''"
| "replayErrorCode ReplayClosed = Some ''responses_replay_store_closed''"
| "replayErrorCode (ReplayNonceError _) = None"
| "replayErrorCode (ReplayCallIDError _) = None"

fun replayErrorMessage :: "replayError \<Rightarrow> string option" where
  "replayErrorMessage ReplayMissing =
     Some ''Responses-backed tool state is no longer available; restart the assistant tool-call turn.''"
| "replayErrorMessage ReplayMixed = Some ''Assistant tool calls reference multiple Responses replay groups.''"
| "replayErrorMessage (ReplayProjection _) =
     Some ''Assistant tool-call projection does not match stored Responses replay state.''"
| "replayErrorMessage (ReplayTooLarge _ _ _) = Some ''Responses replay group exceeds a configured storage limit.''"
| "replayErrorMessage ReplayClosed = Some ''Responses replay store is closed.''"
| "replayErrorMessage (ReplayNonceError _) = None"
| "replayErrorMessage (ReplayCallIDError _) = None"

record responsesChatReplayRoute =
  rrProviderID :: string
  rrPublicModel :: string
  rrUpstreamModel :: string
  rrRouteID :: string
  rrPolicyTier :: string

record responsesChatReplayProjectedCall =
  pcID :: string
  pcName :: string
  pcArguments :: string

record responsesChatReplayAssistantProjection =
  apContent :: string
  apCalls :: "responsesChatReplayProjectedCall list"

type_synonym responsesChatReplayOptionalDefaults = "(string, string) gomap"

record responsesChatReplayPublishCall =
  ucUpstreamCallID :: string
  ucName :: string
  ucVisibleArguments :: string
  ucOriginalArguments :: "string option"
  ucOutputItemIndex :: int
  ucOptionalDefaults :: responsesChatReplayOptionalDefaults

record responsesChatReplayPublishRequest =
  prRoute :: responsesChatReplayRoute
  prAssistantContent :: string
  prOutputItems :: "string list"
  prCalls :: "responsesChatReplayPublishCall list"

datatype responsesChatReplayProjectionMatch =
  responsesChatReplayProjectionVisible | responsesChatReplayProjectionOriginal

record responsesChatReplayResolvedCall =
  rcProxyCallID :: string
  rcUpstreamCallID :: string
  rcName :: string
  rcOutputItemIndex :: nat
  rcOutputItem :: string
  rcVisibleHash :: string
  rcOriginalHash :: string
  rcVisibleDefaults :: responsesChatReplayOptionalDefaults
  rcOriginalDefaults :: responsesChatReplayOptionalDefaults

record responsesChatReplayPublished =
  pubGroupID :: "64 word"
  pubProjection :: responsesChatReplayAssistantProjection
  pubOriginalProjection :: responsesChatReplayAssistantProjection
  pubCalls :: "responsesChatReplayResolvedCall list"
  pubCreatedAt :: gotime
  pubByteSize :: int

record responsesChatReplayResolution =
  resGroupID :: "64 word"
  resRoute :: responsesChatReplayRoute
  resProjectionMatch :: responsesChatReplayProjectionMatch
  resOutputItems :: "string list"
  resCalls :: "responsesChatReplayResolvedCall list"
  resCreatedAt :: gotime
  resByteSize :: int

record responsesChatReplayStoreStats =
  ssGroups :: nat
  ssCalls :: nat
  ssTotalBytes :: int
  ssClosed :: bool

record responsesChatReplayStoreOptions =
  soTTL :: goduration
  soMaxGroups :: int
  soMaxGroupBytes :: int
  soMaxTotalBytes :: int
  soMaxItems :: int
  soMaxCalls :: int

record responsesChatReplayStoredCall =
  scProxyCallID :: string
  scUpstreamCallID :: string
  scName :: string
  scVisibleHash :: string
  scOriginalHash :: string
  scVisibleDefaults :: responsesChatReplayOptionalDefaults
  scOriginalDefaults :: responsesChatReplayOptionalDefaults
  scOutputItemIndex :: nat

record responsesChatReplayGroup =
  rgId :: "64 word"
  rgRoute :: responsesChatReplayRoute
  rgAssistantContent :: string
  rgOutputItems :: "string list"
  rgCalls :: "responsesChatReplayStoredCall list"
  rgCreatedAt :: gotime
  rgExpiresAt :: gotime
  rgByteSize :: int

record responsesChatReplayPreparedCall =
  ppUpstreamCallID :: string
  ppName :: string
  ppVisibleArguments :: string
  ppOriginalArguments :: string
  ppVisibleHash :: string
  ppOriginalHash :: string
  ppVisibleDefaults :: responsesChatReplayOptionalDefaults
  ppOriginalDefaults :: responsesChatReplayOptionalDefaults
  ppOutputItemIndex :: nat

record responsesChatReplayPreparedGroup =
  pgRoute :: responsesChatReplayRoute
  pgAssistantContent :: string
  pgOutputItems :: "string list"
  pgCalls :: "responsesChatReplayPreparedCall list"
  pgByteSize :: int

text \<open>The clock and the random source of the store are arguments of its operations.\<close>

record responsesChatReplayStore =
  rsGroups :: "(64 word, responsesChatReplayGroup) gomap"
  rsCallsByID :: "(string, 64 word) gomap"
  rsLru :: "64 word list"
  rsTotalBytes :: int
  rsNextGroupID :: "64 word"
  rsClosed :: bool
  rsTTL :: goduration
  rsMaxGroups :: int
  rsMaxGroupBytes :: int
  rsMaxTotalBytes :: int
  rsMaxItems :: int
  rsMaxCalls :: int

definition responsesChatReplayTTL :: goduration where
  "responsesChatReplayTTL = 3600 * 1000000000"
definition responsesChatReplayMaxGroups :: int where
  "responsesChatReplayMaxGroups = 2048"
definition responsesChatReplayMaxGroupBytes :: int where
  "responsesChatReplayMaxGroupBytes = 2 * 2 ^ 20"
definition responsesChatReplayMaxTotalBytes :: int where
  "responsesChatReplayMaxTotalBytes = 64 * 2 ^ 20"
definition responsesChatReplayMaxItems :: int where
  "responsesChatReplayMaxItems = 256"
definition responsesChatReplayMaxCalls :: int where
  "responsesChatReplayMaxCalls = 128"

definition newResponsesChatReplayStoreWithOptions ::
  "responsesChatReplayStoreOptions \<Rightarrow> responsesChatReplayStore" where
  "newResponsesChatReplayStoreWithOptions options =
     \<lparr>rsGroups = [], rsCallsByID = [], rsLru = [], rsTotalBytes = 0, rsNextGroupID = 0, rsClosed = False,
      rsTTL = (if soTTL options \<le> 0 then responsesChatReplayTTL else soTTL options),
      rsMaxGroups = (if soMaxGroups options \<le> 0 then responsesChatReplayMaxGroups else soMaxGroups options),
      rsMaxGroupBytes = (if soMaxGroupBytes options \<le> 0 then responsesChatReplayMaxGroupBytes else soMaxGroupBytes options),
      rsMaxTotalBytes = (if soMaxTotalBytes options \<le> 0 then responsesChatReplayMaxTotalBytes else soMaxTotalBytes options),
      rsMaxItems = (if soMaxItems options \<le> 0 then responsesChatReplayMaxItems else soMaxItems options),
      rsMaxCalls = (if soMaxCalls options \<le> 0 then responsesChatReplayMaxCalls else soMaxCalls options)\<rparr>"

definition newResponsesChatReplayStore :: responsesChatReplayStore where
  "newResponsesChatReplayStore = newResponsesChatReplayStoreWithOptions
     \<lparr>soTTL = 0, soMaxGroups = 0, soMaxGroupBytes = 0, soMaxTotalBytes = 0, soMaxItems = 0, soMaxCalls = 0\<rparr>"

section \<open>Canonical JSON and optional defaults\<close>

definition canonicalReplayJSONValue :: "replayJson \<Rightarrow> string \<Rightarrow> string option" where
  "canonicalReplayJSONValue J raw =
     (let trimmed = trimSpace raw in if trimmed = '''' then Some '''' else rjRecode J trimmed)"

definition canonicalReplayArguments :: "replayJson \<Rightarrow> string \<Rightarrow> string option" where
  "canonicalReplayArguments J arguments =
     (if \<not> rjValid J arguments then Some arguments else canonicalReplayJSONValue J arguments)"

fun canonicalReplayOptionalDefaults ::
  "replayJson \<Rightarrow> responsesChatReplayOptionalDefaults \<Rightarrow> responsesChatReplayOptionalDefaults option" where
  "canonicalReplayOptionalDefaults J [] = Some []"
| "canonicalReplayOptionalDefaults J ((name, v) # rest) =
     (case canonicalReplayJSONValue J v of
        None \<Rightarrow> None
      | Some encoded \<Rightarrow> map_option ((#) (name, encoded)) (canonicalReplayOptionalDefaults J rest))"

definition replayOptionalDefaultsAbsentFromArguments ::
  "replayJson \<Rightarrow> string \<Rightarrow> responsesChatReplayOptionalDefaults \<Rightarrow> responsesChatReplayOptionalDefaults" where
  "replayOptionalDefaultsAbsentFromArguments J arguments defaults =
     (if defaults = [] \<or> \<not> rjValid J arguments then []
      else case rjObject J arguments of
        Some (Some values) \<Rightarrow> filter (\<lambda>d. gm_get values (fst d) = None) defaults
      | _ \<Rightarrow> [])"

definition replayOptionalDefaultsByteSize :: "responsesChatReplayOptionalDefaults \<Rightarrow> int" where
  "replayOptionalDefaultsByteSize defaults = sum_list (map (\<lambda>(name, v). int (length name) + int (length v)) defaults)"

text \<open>The loop over the defaults: the values left, and whether one was removed.\<close>

fun removeOptionalDefaults :: "replayJson \<Rightarrow> responsesChatReplayOptionalDefaults \<Rightarrow>
  (string, string) gomap \<Rightarrow> bool \<Rightarrow> (string, string) gomap \<times> bool" where
  "removeOptionalDefaults J [] values changed = (values, changed)"
| "removeOptionalDefaults J ((name, defaultValue) # rest) values changed =
     (case gm_get values name of
        None \<Rightarrow> removeOptionalDefaults J rest values changed
      | Some v \<Rightarrow>
          if canonicalReplayJSONValue J v = Some defaultValue
          then removeOptionalDefaults J rest (gm_del name values) True
          else removeOptionalDefaults J rest values changed)"

text \<open>The result: the bytes (or the error) and whether a default was removed.\<close>

definition canonicalReplayArgumentsWithoutOptionalDefaults ::
  "replayJson \<Rightarrow> string \<Rightarrow> responsesChatReplayOptionalDefaults \<Rightarrow> string option \<times> bool" where
  "canonicalReplayArgumentsWithoutOptionalDefaults J arguments defaults =
     (let canonical = canonicalReplayArguments J arguments
      in if canonical = None \<or> defaults = [] \<or> \<not> rjValid J arguments then (canonical, False)
         else case rjObject J arguments of
           None \<Rightarrow> (None, False)
         | Some None \<Rightarrow> (canonical, False)
         | Some (Some values) \<Rightarrow>
             (case removeOptionalDefaults J defaults values False of
                (values', changed) \<Rightarrow>
                  if \<not> changed then (canonical, False)
                  else case rjEncodeObject J values' of
                    None \<Rightarrow> (None, False)
                  | Some encoded \<Rightarrow> (canonicalReplayJSONValue J encoded, True)))"

definition replayGroupByteSize ::
  "replayJson \<Rightarrow> responsesChatReplayRoute \<Rightarrow> string \<Rightarrow> string list \<Rightarrow> responsesChatReplayPreparedCall list \<Rightarrow> int" where
  "replayGroupByteSize J route content outputItems calls =
     int (length (rrProviderID route)) + int (length (rrPublicModel route)) + int (length (rrUpstreamModel route)) +
     int (length (rrRouteID route)) + int (length (rrPolicyTier route)) + int (length content) +
     sum_list (map (\<lambda>item. int (length item)) outputItems) +
     sum_list (map (\<lambda>call. int (responsesChatReplayMintedIDSize (rjSha J) (ppUpstreamCallID call)) +
       (int (length (ppUpstreamCallID call)) + int (length (ppName call))) + 32 * 2 +
       replayOptionalDefaultsByteSize (ppVisibleDefaults call) +
       replayOptionalDefaultsByteSize (ppOriginalDefaults call) + 8) calls)"

section \<open>Preparing a group\<close>

definition checkOpen :: "responsesChatReplayStore \<Rightarrow> replayError option" where
  "checkOpen s = (if rsClosed s then Some ReplayClosed else None)"

text \<open>The loop over the output items: the indexes of the function calls among them.\<close>

fun functionItemIndexesFrom :: "replayJson \<Rightarrow> nat \<Rightarrow> string list \<Rightarrow> nat list option" where
  "functionItemIndexesFrom J i [] = Some []"
| "functionItemIndexesFrom J i (item # rest) =
     (if \<not> rjValid J item then None
      else map_option (\<lambda>is. if rjType J item = Some ''function_call'' then i # is else is)
        (functionItemIndexesFrom J (Suc i) rest))"

definition prepareCall :: "replayJson \<Rightarrow> string list \<Rightarrow> responsesChatReplayPublishCall \<Rightarrow>
  replayError + responsesChatReplayPreparedCall" where
  "prepareCall J outputItems call =
     (let originalArguments = (case ucOriginalArguments call of Some a \<Rightarrow> a | None \<Rightarrow> ucVisibleArguments call);
          index = nat (ucOutputItemIndex call)
      in if rjCall J (outputItems ! index) \<noteq>
            Some (''function_call'', ucUpstreamCallID call, ucName call, originalArguments)
         then Inl (ReplayProjection ''function output item mismatch'')
         else case canonicalReplayArguments J (ucVisibleArguments call) of
           None \<Rightarrow> Inl (ReplayProjection ''invalid visible function arguments'')
         | Some canonicalVisible \<Rightarrow>
             (case canonicalReplayArguments J originalArguments of
                None \<Rightarrow> Inl (ReplayProjection ''invalid original function arguments'')
              | Some canonicalOriginal \<Rightarrow>
                  (case canonicalReplayOptionalDefaults J (ucOptionalDefaults call) of
                     None \<Rightarrow> Inl (ReplayProjection ''invalid optional function defaults'')
                   | Some optionalDefaults \<Rightarrow>
                       Inr \<lparr>ppUpstreamCallID = ucUpstreamCallID call, ppName = ucName call,
                         ppVisibleArguments = ucVisibleArguments call, ppOriginalArguments = originalArguments,
                         ppVisibleHash = rjSha J canonicalVisible, ppOriginalHash = rjSha J canonicalOriginal,
                         ppVisibleDefaults = replayOptionalDefaultsAbsentFromArguments J (ucVisibleArguments call) optionalDefaults,
                         ppOriginalDefaults = replayOptionalDefaultsAbsentFromArguments J originalArguments optionalDefaults,
                         ppOutputItemIndex = index\<rparr>)))"

text \<open>The loop over the calls; its state: the upstream identifiers and indexes seen, the last
  index and the function items not mapped yet.\<close>

fun prepareCalls :: "replayJson \<Rightarrow> string list \<Rightarrow> string list \<Rightarrow> int list \<Rightarrow> int \<Rightarrow> nat list \<Rightarrow>
  responsesChatReplayPublishCall list \<Rightarrow> replayError + (responsesChatReplayPreparedCall list \<times> nat list)" where
  "prepareCalls J outputItems seenUpstreamIDs seenOutputIndexes lastOutputItemIndex functionItemIndexes [] =
     Inr ([], functionItemIndexes)"
| "prepareCalls J outputItems seenUpstreamIDs seenOutputIndexes lastOutputItemIndex functionItemIndexes (call # rest) =
     (if trimSpace (ucUpstreamCallID call) = '''' \<or> trimSpace (ucName call) = ''''
      then Inl (ReplayProjection ''invalid function call'')
      else if ucUpstreamCallID call \<in> set seenUpstreamIDs
      then Inl (ReplayProjection ''duplicate upstream call ID'')
      else if ucOutputItemIndex call < 0 \<or> ucOutputItemIndex call \<ge> int (length outputItems)
      then Inl (ReplayProjection ''invalid output item index'')
      else if ucOutputItemIndex call \<in> set seenOutputIndexes
      then Inl (ReplayProjection ''duplicate output item index'')
      else if ucOutputItemIndex call \<le> lastOutputItemIndex
      then Inl (ReplayProjection ''function call order mismatch'')
      else case prepareCall J outputItems call of
        Inl e \<Rightarrow> Inl e
      | Inr prepared \<Rightarrow>
          (case prepareCalls J outputItems (ucUpstreamCallID call # seenUpstreamIDs)
              (ucOutputItemIndex call # seenOutputIndexes) (ucOutputItemIndex call)
              (filter (\<lambda>i. i \<noteq> nat (ucOutputItemIndex call)) functionItemIndexes) rest of
             Inl e \<Rightarrow> Inl e
           | Inr (calls, unmapped) \<Rightarrow> Inr (prepared # calls, unmapped)))"

definition preparePublish :: "replayJson \<Rightarrow> responsesChatReplayStore \<Rightarrow> responsesChatReplayPublishRequest \<Rightarrow>
  replayError + responsesChatReplayPreparedGroup" where
  "preparePublish J s request =
     (if trimSpace (rrProviderID (prRoute request)) = '''' \<or> trimSpace (rrPublicModel (prRoute request)) = ''''
      then Inl (ReplayProjection ''invalid route'')
      else if prOutputItems request = [] then Inl (ReplayProjection ''missing output items'')
      else if int (length (prOutputItems request)) > rsMaxItems s
      then Inl (ReplayTooLarge responsesChatReplayLimitItems (int (length (prOutputItems request))) (rsMaxItems s))
      else if prCalls request = [] then Inl (ReplayProjection ''missing function calls'')
      else if int (length (prCalls request)) > rsMaxCalls s
      then Inl (ReplayTooLarge responsesChatReplayLimitCalls (int (length (prCalls request))) (rsMaxCalls s))
      else case canonicalReplayJSONValue J (prAssistantContent request) of
        None \<Rightarrow> Inl (ReplayProjection ''invalid assistant content'')
      | Some canonicalContent \<Rightarrow>
          (case functionItemIndexesFrom J 0 (prOutputItems request) of
             None \<Rightarrow> Inl (ReplayProjection ''invalid output item'')
           | Some functionItemIndexes \<Rightarrow>
               (case prepareCalls J (prOutputItems request) [] [] (-1) functionItemIndexes (prCalls request) of
                  Inl e \<Rightarrow> Inl e
                | Inr (calls, unmapped) \<Rightarrow>
                    if unmapped \<noteq> [] then Inl (ReplayProjection ''unmapped function output item'')
                    else
                      let byteSize = replayGroupByteSize J (prRoute request) canonicalContent (prOutputItems request) calls
                      in if byteSize > rsMaxGroupBytes s
                         then Inl (ReplayTooLarge responsesChatReplayLimitGroupBytes byteSize (rsMaxGroupBytes s))
                         else if byteSize > rsMaxTotalBytes s
                         then Inl (ReplayTooLarge responsesChatReplayLimitTotalBytes byteSize (rsMaxTotalBytes s))
                         else Inr \<lparr>pgRoute = prRoute request, pgAssistantContent = canonicalContent,
                           pgOutputItems = prOutputItems request, pgCalls = calls, pgByteSize = byteSize\<rparr>)))"

section \<open>Identifiers\<close>

text \<open>\<open>io.ReadFull\<close> of \<open>n\<close> bytes: the next read, which fails or gives too few.\<close>

definition readFull :: "nat \<Rightarrow> string option list \<Rightarrow> string option \<times> string option list" where
  "readFull n random =
     (case random of
        [] \<Rightarrow> (None, [])
      | r # rest \<Rightarrow> (case r of Some bs \<Rightarrow> if length bs = n then Some bs else None | None \<Rightarrow> None, rest))"

definition generateSelfIDNonceLocked :: "replayJson \<Rightarrow> responsesChatReplayPreparedCall list \<Rightarrow> string option list \<Rightarrow>
  (replayRandomError + string) \<times> string option list" where
  "generateSelfIDNonceLocked J calls random =
     (if \<not> list_ex (\<lambda>call. responsesChatReplaySelfDescribingID (rjSha J) (ppUpstreamCallID call) \<noteq> None) calls
      then (Inr '''', random)
      else case readFull responsesChatReplaySelfIDNonceBytes random of
        (None, rest) \<Rightarrow> (Inl RandomReadFailed, rest)
      | (Some bs, rest) \<Rightarrow>
          let nonce = rawURLEncode bs
          in (if length nonce \<noteq> responsesChatReplaySelfIDNonceChars then Inl (UnexpectedLength (length nonce))
              else Inr nonce, rest))"

text \<open>The loop of the opaque form, with the attempts left.\<close>

fun generateOpaqueCallID :: "nat \<Rightarrow> responsesChatReplayStore \<Rightarrow> string list \<Rightarrow> string option list \<Rightarrow>
  (replayRandomError + string) \<times> string option list" where
  "generateOpaqueCallID 0 s reserved random = (Inl CollisionLimitExceeded, random)"
| "generateOpaqueCallID (Suc left) s reserved random =
     (case readFull responsesChatReplayRandomBytes random of
        (None, rest) \<Rightarrow> (Inl RandomReadFailed, rest)
      | (Some bs, rest) \<Rightarrow>
          let proxyID = opaqueCallID bs
          in if length proxyID \<noteq> responsesChatReplayIDLength then (Inl (UnexpectedLength (length proxyID)), rest)
             else if gm_get (rsCallsByID s) proxyID \<noteq> None then generateOpaqueCallID left s reserved rest
             else if proxyID \<in> set reserved then generateOpaqueCallID left s reserved rest
             else (Inr proxyID, rest))"

definition generateUniqueCallIDLocked :: "replayJson \<Rightarrow> responsesChatReplayStore \<Rightarrow> string list \<Rightarrow> string \<Rightarrow> string \<Rightarrow>
  string option list \<Rightarrow> (replayRandomError + string) \<times> string option list" where
  "generateUniqueCallIDLocked J s reserved upstreamCallID selfIDNonce random =
     (case responsesChatReplaySelfDescribingIDWithNonce (rjSha J) upstreamCallID selfIDNonce of
        Some proxyID \<Rightarrow>
          if gm_get (rsCallsByID s) proxyID = None \<and> proxyID \<notin> set reserved then (Inr proxyID, random)
          else generateOpaqueCallID responsesChatReplayMaxIDAttempts s reserved random
      | None \<Rightarrow> generateOpaqueCallID responsesChatReplayMaxIDAttempts s reserved random)"

fun generateCallIDs :: "replayJson \<Rightarrow> responsesChatReplayStore \<Rightarrow> string list \<Rightarrow> string \<Rightarrow>
  responsesChatReplayPreparedCall list \<Rightarrow> string option list \<Rightarrow> (replayRandomError + string list) \<times> string option list" where
  "generateCallIDs J s reserved selfIDNonce [] random = (Inr [], random)"
| "generateCallIDs J s reserved selfIDNonce (call # calls) random =
     (case generateUniqueCallIDLocked J s reserved (ppUpstreamCallID call) selfIDNonce random of
        (Inl e, rest) \<Rightarrow> (Inl e, rest)
      | (Inr proxyID, rest) \<Rightarrow>
          (case generateCallIDs J s (proxyID # reserved) selfIDNonce calls rest of
             (Inl e, rest') \<Rightarrow> (Inl e, rest')
           | (Inr ids, rest') \<Rightarrow> (Inr (proxyID # ids), rest')))"

text \<open>
  The search of a free group number. With \<open>n\<close> groups one of \<open>n + 2\<close> successive numbers is
  neither 0 nor taken (\<open>nextGroupID_free\<close> below), so that many rounds are enough.
\<close>

fun nextGroupIDLoop :: "nat \<Rightarrow> 64 word \<Rightarrow> (64 word, responsesChatReplayGroup) gomap \<Rightarrow> 64 word" where
  "nextGroupIDLoop 0 next groups = next"
| "nextGroupIDLoop (Suc fuel) next groups =
     (let next' = next + 1
      in if next' = 0 then nextGroupIDLoop fuel next' groups
         else if gm_get groups next' = None then next'
         else nextGroupIDLoop fuel next' groups)"

definition nextGroupIDLocked :: "responsesChatReplayStore \<Rightarrow> 64 word" where
  "nextGroupIDLocked s = nextGroupIDLoop (length (rsGroups s) + 2) (rsNextGroupID s) (rsGroups s)"

section \<open>Eviction\<close>

definition removeGroupLocked :: "64 word \<Rightarrow> responsesChatReplayStore \<Rightarrow> responsesChatReplayStore" where
  "removeGroupLocked groupID s =
     (case gm_get (rsGroups s) groupID of
        None \<Rightarrow> s
      | Some grp \<Rightarrow>
          let total = rsTotalBytes s - rgByteSize grp
          in s\<lparr>rsGroups := gm_del groupID (rsGroups s),
               rsCallsByID := fold (\<lambda>call m. if gm_get m (scProxyCallID call) = Some groupID
                 then gm_del (scProxyCallID call) m else m) (rgCalls grp) (rsCallsByID s),
               rsLru := gl_remove groupID (rsLru s),
               rsTotalBytes := (if total < 0 then 0 else total)\<rparr>)"

text \<open>The walk over the list fetches the next element before it removes the present one.\<close>

definition expireLocked :: "gotime \<Rightarrow> responsesChatReplayStore \<Rightarrow> responsesChatReplayStore" where
  "expireLocked now s =
     fold (\<lambda>groupID t.
       (case gm_get (rsGroups t) groupID of
          None \<Rightarrow> removeGroupLocked groupID t
        | Some grp \<Rightarrow> if \<not> now < rgExpiresAt grp then removeGroupLocked groupID t else t)) (rsLru s) s"

text \<open>Every round removes the front of the list, so its length bounds the rounds.\<close>

fun enforceLimitsLoop :: "nat \<Rightarrow> responsesChatReplayStore \<Rightarrow> responsesChatReplayStore" where
  "enforceLimitsLoop 0 s = s"
| "enforceLimitsLoop (Suc fuel) s =
     (if int (length (rsGroups s)) > rsMaxGroups s \<or> rsTotalBytes s > rsMaxTotalBytes s
      then case gl_front (rsLru s) of
        None \<Rightarrow> s
      | Some groupID \<Rightarrow> enforceLimitsLoop fuel (removeGroupLocked groupID s)
      else s)"

definition enforceLimitsLocked :: "responsesChatReplayStore \<Rightarrow> responsesChatReplayStore" where
  "enforceLimitsLocked s = enforceLimitsLoop (length (rsLru s)) s"

section \<open>Publish, resolve, stats, close\<close>

definition resolvedCall :: "string list \<Rightarrow> responsesChatReplayStoredCall \<Rightarrow> responsesChatReplayResolvedCall" where
  "resolvedCall outputItems call =
     \<lparr>rcProxyCallID = scProxyCallID call, rcUpstreamCallID = scUpstreamCallID call, rcName = scName call,
      rcOutputItemIndex = scOutputItemIndex call, rcOutputItem = outputItems ! scOutputItemIndex call,
      rcVisibleHash = scVisibleHash call, rcOriginalHash = scOriginalHash call,
      rcVisibleDefaults = scVisibleDefaults call, rcOriginalDefaults = scOriginalDefaults call\<rparr>"

definition storedCall :: "responsesChatReplayPreparedCall \<Rightarrow> string \<Rightarrow> responsesChatReplayStoredCall" where
  "storedCall call proxyID =
     \<lparr>scProxyCallID = proxyID, scUpstreamCallID = ppUpstreamCallID call, scName = ppName call,
      scVisibleHash = ppVisibleHash call, scOriginalHash = ppOriginalHash call,
      scVisibleDefaults = ppVisibleDefaults call, scOriginalDefaults = ppOriginalDefaults call,
      scOutputItemIndex = ppOutputItemIndex call\<rparr>"

text \<open>The state change of a publication, once the identifiers are there.\<close>

definition insertGroup :: "responsesChatReplayGroup \<Rightarrow> responsesChatReplayStore \<Rightarrow> responsesChatReplayStore" where
  "insertGroup grp s =
     s\<lparr>rsGroups := gm_put (rgId grp) grp (rsGroups s),
       rsCallsByID := fold (\<lambda>call. gm_put (scProxyCallID call) (rgId grp)) (rgCalls grp) (rsCallsByID s),
       rsLru := rsLru s @ [rgId grp],
       rsTotalBytes := rsTotalBytes s + rgByteSize grp,
       rsNextGroupID := rgId grp\<rparr>"

definition publishLocked :: "replayJson \<Rightarrow> gotime \<Rightarrow> string option list \<Rightarrow> responsesChatReplayPreparedGroup \<Rightarrow>
  responsesChatReplayStore \<Rightarrow> responsesChatReplayStore \<times> string option list \<times> (replayError + responsesChatReplayPublished)" where
  "publishLocked J now random prepared s =
     (if rsClosed s then (s, random, Inl ReplayClosed)
      else
        let s1 = expireLocked now s
        in case generateSelfIDNonceLocked J (pgCalls prepared) random of
          (Inl e, random1) \<Rightarrow> (s1, random1, Inl (ReplayNonceError e))
        | (Inr selfIDNonce, random1) \<Rightarrow>
            (case generateCallIDs J s1 [] selfIDNonce (pgCalls prepared) random1 of
               (Inl e, random2) \<Rightarrow> (s1, random2, Inl (ReplayCallIDError e))
             | (Inr proxyIDs, random2) \<Rightarrow>
                 let groupID = nextGroupIDLocked s1;
                     storedCalls = map2 storedCall (pgCalls prepared) proxyIDs;
                     visibleCalls = map2 (\<lambda>call proxyID. \<lparr>pcID = proxyID, pcName = ppName call,
                       pcArguments = ppVisibleArguments call\<rparr>) (pgCalls prepared) proxyIDs;
                     originalCalls = map2 (\<lambda>call proxyID. \<lparr>pcID = proxyID, pcName = ppName call,
                       pcArguments = ppOriginalArguments call\<rparr>) (pgCalls prepared) proxyIDs;
                     grp = \<lparr>rgId = groupID, rgRoute = pgRoute prepared, rgAssistantContent = pgAssistantContent prepared,
                       rgOutputItems = pgOutputItems prepared, rgCalls = storedCalls, rgCreatedAt = now,
                       rgExpiresAt = now + rsTTL s1, rgByteSize = pgByteSize prepared\<rparr>
                 in (enforceLimitsLocked (insertGroup grp s1), random2,
                     Inr \<lparr>pubGroupID = groupID,
                       pubProjection = \<lparr>apContent = pgAssistantContent prepared, apCalls = visibleCalls\<rparr>,
                       pubOriginalProjection = \<lparr>apContent = pgAssistantContent prepared, apCalls = originalCalls\<rparr>,
                       pubCalls = map (resolvedCall (pgOutputItems prepared)) storedCalls,
                       pubCreatedAt = now, pubByteSize = pgByteSize prepared\<rparr>)))"

text \<open>The state between the two locked sections matters only through \<open>closed\<close>, which the second
  one reads again: the limits never change.\<close>

definition publish :: "replayJson \<Rightarrow> gotime \<Rightarrow> string option list \<Rightarrow> responsesChatReplayPublishRequest \<Rightarrow>
  responsesChatReplayStore \<Rightarrow> responsesChatReplayStore \<times> string option list \<times> (replayError + responsesChatReplayPublished)" where
  "publish J now random request s =
     (case checkOpen s of
        Some e \<Rightarrow> (s, random, Inl e)
      | None \<Rightarrow>
          (case preparePublish J s request of
             Inl e \<Rightarrow> (s, random, Inl e)
           | Inr prepared \<Rightarrow> publishLocked J now random prepared s))"

definition routeEqual :: "responsesChatReplayRoute \<Rightarrow> responsesChatReplayRoute \<Rightarrow> bool" where
  "routeEqual r other \<longleftrightarrow> rrProviderID r = rrProviderID other \<and> rrPublicModel r = rrPublicModel other \<and>
     rrUpstreamModel r = rrUpstreamModel other \<and> rrRouteID r = rrRouteID other \<and> rrPolicyTier r = rrPolicyTier other"

definition matchesHash :: "replayJson \<Rightarrow> string \<Rightarrow> string \<Rightarrow> string \<Rightarrow> responsesChatReplayOptionalDefaults \<Rightarrow> bool" where
  "matchesHash J arguments hash want defaults \<longleftrightarrow>
     hash = want \<or>
     (case canonicalReplayArgumentsWithoutOptionalDefaults J arguments defaults of
        (Some normalized, changed) \<Rightarrow> changed \<and> rjSha J normalized = want
      | (None, changed) \<Rightarrow> False)"

fun matchesCalls :: "replayJson \<Rightarrow> bool \<Rightarrow> responsesChatReplayStoredCall list \<Rightarrow>
  responsesChatReplayProjectedCall list \<Rightarrow> bool \<times> string" where
  "matchesCalls J original (stored # calls) (got # projected) =
     (if scProxyCallID stored \<noteq> pcID got \<or> scName stored \<noteq> pcName got then (False, ''calls'')
      else case canonicalReplayArguments J (pcArguments got) of
        None \<Rightarrow> (False, ''arguments'')
      | Some canonicalArguments \<Rightarrow>
          let hash = rjSha J canonicalArguments
          in if original
             then if \<not> matchesHash J (pcArguments got) hash (scOriginalHash stored) (scOriginalDefaults stored)
                  then (False, ''arguments'') else matchesCalls J original calls projected
             else if \<not> matchesHash J (pcArguments got) hash (scVisibleHash stored) (scVisibleDefaults stored)
                  then (False, ''arguments'') else matchesCalls J original calls projected)"
| "matchesCalls J original _ _ = (True, '''')"

definition matchesProjection :: "replayJson \<Rightarrow> responsesChatReplayGroup \<Rightarrow> string \<Rightarrow>
  responsesChatReplayProjectedCall list \<Rightarrow> bool \<Rightarrow> bool \<times> string" where
  "matchesProjection J g content projected original =
     (if rgAssistantContent g \<noteq> content then (False, ''content'')
      else if length (rgCalls g) \<noteq> length projected then (False, ''calls'')
      else matchesCalls J original (rgCalls g) projected)"

definition cloneResponsesChatReplayResolution :: "responsesChatReplayGroup \<Rightarrow> responsesChatReplayProjectionMatch \<Rightarrow>
  responsesChatReplayResolution" where
  "cloneResponsesChatReplayResolution g match =
     \<lparr>resGroupID = rgId g, resRoute = rgRoute g, resProjectionMatch = match, resOutputItems = rgOutputItems g,
      resCalls = map (resolvedCall (rgOutputItems g)) (rgCalls g), resCreatedAt = rgCreatedAt g,
      resByteSize = rgByteSize g\<rparr>"

fun checkProjectedCalls :: "string list \<Rightarrow> responsesChatReplayProjectedCall list \<Rightarrow> replayError option" where
  "checkProjectedCalls seen [] = None"
| "checkProjectedCalls seen (call # calls) =
     (if trimSpace (pcID call) = '''' \<or> trimSpace (pcName call) = ''''
      then Some (ReplayProjection ''invalid assistant call'')
      else if pcID call \<in> set seen then Some (ReplayProjection ''duplicate assistant call'')
      else checkProjectedCalls (pcID call # seen) calls)"

text \<open>The loop that finds the one group of all projected calls.\<close>

fun findGroup :: "responsesChatReplayStore \<Rightarrow> responsesChatReplayRoute \<Rightarrow> responsesChatReplayGroup option \<Rightarrow>
  responsesChatReplayProjectedCall list \<Rightarrow> replayError + responsesChatReplayGroup option" where
  "findGroup s route grp [] = Inr grp"
| "findGroup s route grp (call # calls) =
     (case gm_get (rsCallsByID s) (pcID call) of
        None \<Rightarrow> Inl ReplayMissing
      | Some groupID \<Rightarrow>
          (case gm_get (rsGroups s) groupID of
             None \<Rightarrow> Inl ReplayMissing
           | Some candidate \<Rightarrow>
               if \<not> routeEqual (rgRoute candidate) route then Inl ReplayMissing
               else case grp of
                 None \<Rightarrow> findGroup s route (Some candidate) calls
               | Some g \<Rightarrow> if rgId g \<noteq> rgId candidate then Inl ReplayMixed else findGroup s route (Some g) calls))"

definition resolveLocked :: "replayJson \<Rightarrow> gotime \<Rightarrow> responsesChatReplayRoute \<Rightarrow> string \<Rightarrow>
  responsesChatReplayProjectedCall list \<Rightarrow> responsesChatReplayStore \<Rightarrow>
  responsesChatReplayStore \<times> (replayError + responsesChatReplayResolution)" where
  "resolveLocked J now route canonicalContent projected s =
     (if rsClosed s then (s, Inl ReplayClosed)
      else
        let s1 = expireLocked now s
        in case findGroup s1 route None projected of
          Inl e \<Rightarrow> (s1, Inl e)
        | Inr None \<Rightarrow> (s1, Inl ReplayMissing)
        | Inr (Some g) \<Rightarrow>
            (case matchesProjection J g canonicalContent projected False of
               (visible, reason) \<Rightarrow>
                 let original = (\<not> visible \<and> fst (matchesProjection J g canonicalContent projected True))
                 in if visible
                    then (s1\<lparr>rsLru := gl_move_back (rgId g) (rsLru s1)\<rparr>,
                      Inr (cloneResponsesChatReplayResolution g responsesChatReplayProjectionVisible))
                    else if original
                    then (s1\<lparr>rsLru := gl_move_back (rgId g) (rsLru s1)\<rparr>,
                      Inr (cloneResponsesChatReplayResolution g responsesChatReplayProjectionOriginal))
                    else (s1, Inl (ReplayProjection reason))))"

definition resolve :: "replayJson \<Rightarrow> gotime \<Rightarrow> responsesChatReplayRoute \<Rightarrow> responsesChatReplayAssistantProjection \<Rightarrow>
  responsesChatReplayStore \<Rightarrow> responsesChatReplayStore \<times> (replayError + responsesChatReplayResolution)" where
  "resolve J now route projection s =
     (case checkOpen s of
        Some e \<Rightarrow> (s, Inl e)
      | None \<Rightarrow>
          (case canonicalReplayJSONValue J (apContent projection) of
             None \<Rightarrow> (s, Inl (ReplayProjection ''invalid assistant content''))
           | Some canonicalContent \<Rightarrow>
               if apCalls projection = [] then (s, Inl (ReplayProjection ''missing assistant calls''))
               else case checkProjectedCalls [] (apCalls projection) of
                 Some e \<Rightarrow> (s, Inl e)
               | None \<Rightarrow> resolveLocked J now route canonicalContent (apCalls projection) s))"

definition replayStats :: "gotime \<Rightarrow> responsesChatReplayStore \<Rightarrow> responsesChatReplayStore \<times> responsesChatReplayStoreStats" where
  "replayStats now s =
     (if rsClosed s then (s, \<lparr>ssGroups = 0, ssCalls = 0, ssTotalBytes = 0, ssClosed = True\<rparr>)
      else let s1 = expireLocked now s
           in (s1, \<lparr>ssGroups = length (rsGroups s1), ssCalls = length (rsCallsByID s1),
                    ssTotalBytes = rsTotalBytes s1, ssClosed = False\<rparr>))"

definition replayClose :: "responsesChatReplayStore \<Rightarrow> responsesChatReplayStore" where
  "replayClose s =
     (if rsClosed s then s
      else s\<lparr>rsClosed := True, rsGroups := [], rsCallsByID := [], rsLru := [], rsTotalBytes := 0\<rparr>)"

end
