(* ===== verification/Replay_Invariant.thy ===== *)
theory Replay_Invariant
  imports Replay_Store
begin

text \<open>
  What the replay store keeps: its two maps and its recency list agree, the byte count is the
  sum over the groups, and the limits hold after every operation.
\<close>

section \<open>The invariant\<close>

definition replayIDs :: "responsesChatReplayGroup \<Rightarrow> string list" where
  "replayIDs g = map scProxyCallID (rgCalls g)"

definition groupsBytes :: "(64 word, responsesChatReplayGroup) gomap \<Rightarrow> int" where
  "groupsBytes m = sum_list (map (\<lambda>p. rgByteSize (snd p)) m)"

definition group_ok :: "responsesChatReplayStore \<Rightarrow> 64 word \<Rightarrow> responsesChatReplayGroup \<Rightarrow> bool" where
  "group_ok s gid g \<longleftrightarrow> rgId g = gid \<and> gid \<noteq> 0 \<and> distinct (replayIDs g) \<and>
     0 \<le> rgByteSize g \<and> rgByteSize g \<le> rsMaxGroupBytes s \<and> rgExpiresAt g = rgCreatedAt g + rsTTL s \<and>
     rgCalls g \<noteq> [] \<and> int (length (rgCalls g)) \<le> rsMaxCalls s \<and> int (length (rgOutputItems g)) \<le> rsMaxItems s \<and>
     (\<forall>c \<in> set (rgCalls g). scOutputItemIndex c < length (rgOutputItems g))"

definition replay_core :: "responsesChatReplayStore \<Rightarrow> bool" where
  "replay_core s \<longleftrightarrow>
     lru_ok (rsGroups s) (rsLru s) \<and> distinct (map fst (rsCallsByID s)) \<and>
     (\<forall>gid g. gm_get (rsGroups s) gid = Some g \<longrightarrow> group_ok s gid g) \<and>
     (\<forall>c gid. gm_get (rsCallsByID s) c = Some gid \<longleftrightarrow>
        (\<exists>g. gm_get (rsGroups s) gid = Some g \<and> c \<in> set (replayIDs g))) \<and>
     rsTotalBytes s = groupsBytes (rsGroups s)"

definition replay_inv :: "responsesChatReplayStore \<Rightarrow> bool" where
  "replay_inv s \<longleftrightarrow> replay_core s \<and> 0 < rsMaxGroups s \<and> 0 < rsMaxTotalBytes s \<and> 0 < rsTTL s \<and>
     int (length (rsGroups s)) \<le> rsMaxGroups s \<and> rsTotalBytes s \<le> rsMaxTotalBytes s \<and>
     (rsClosed s \<longrightarrow> rsGroups s = [])"

text \<open>What no operation changes.\<close>

definition replayLimits :: "responsesChatReplayStore \<Rightarrow> _" where
  "replayLimits s = (rsTTL s, rsMaxGroups s, rsMaxGroupBytes s, rsMaxTotalBytes s, rsMaxItems s, rsMaxCalls s, rsClosed s)"

lemma group_ok_limits: "replayLimits s = replayLimits t \<Longrightarrow> group_ok s = group_ok t"
  by (simp add: group_ok_def replayLimits_def fun_eq_iff)

section \<open>Sums and folds over maps\<close>

lemma gm_put_new: "k \<notin> fst ` set m \<Longrightarrow> gm_put k v m = m @ [(k, v)]"
  by (induction m) auto

lemma gm_del_absent: "k \<notin> fst ` set m \<Longrightarrow> gm_del k m = m"
  by (induction m) auto

lemma groupsBytes_put: "gm_get m k = None \<Longrightarrow> groupsBytes (gm_put k g m) = groupsBytes m + rgByteSize g"
  by (simp add: map_of_eq_None_iff gm_put_new groupsBytes_def)

lemma groupsBytes_del:
  "distinct (map fst m) \<Longrightarrow> gm_get m k = Some g \<Longrightarrow> groupsBytes (gm_del k m) = groupsBytes m - rgByteSize g"
proof (induction m)
  case (Cons p m)
  obtain a v where p: "p = (a, v)" by (cases p)
  show ?case
  proof (cases "a = k")
    case True
    then show ?thesis using Cons.prems by (simp add: p groupsBytes_def gm_del_absent)
  next
    case False
    then show ?thesis using Cons by (simp add: p groupsBytes_def)
  qed
qed simp

lemma groupsBytes_nonneg: "(\<And>k g. (k, g) \<in> set m \<Longrightarrow> 0 \<le> rgByteSize g) \<Longrightarrow> 0 \<le> groupsBytes m"
  by (auto simp: groupsBytes_def intro!: sum_list_nonneg)

lemma fold_del_get:
  "gm_get (fold (\<lambda>call m. if gm_get m (f call) = Some k then gm_del (f call) m else m) calls m) c =
     (if c \<in> f ` set calls \<and> gm_get m c = Some k then None else gm_get m c)"
  by (induction calls arbitrary: m) (auto simp: AList.delete_conv')

lemma fold_del_distinct:
  "distinct (map fst m) \<Longrightarrow>
   distinct (map fst (fold (\<lambda>call m. if gm_get m (f call) = Some k then gm_del (f call) m else m) calls m))"
  by (induction calls arbitrary: m) (auto simp: AList.distinct_delete)

lemma fold_put_get:
  "gm_get (fold (\<lambda>call. gm_put (f call) k) calls m) c = (if c \<in> f ` set calls then Some k else gm_get m c)"
  by (induction calls arbitrary: m) (auto simp: AList.update_conv')

lemma fold_put_distinct:
  "distinct (map fst m) \<Longrightarrow> distinct (map fst (fold (\<lambda>call. gm_put (f call) k) calls m))"
  by (induction calls arbitrary: m) (auto simp: AList.distinct_update)

section \<open>Removing a group\<close>

lemma removeGroup_limits: "replayLimits (removeGroupLocked k s) = replayLimits s"
  by (auto simp: removeGroupLocked_def replayLimits_def Let_def split: option.splits)

lemma removeGroup_groups: "gm_get (rsGroups (removeGroupLocked k s)) gid = (if gid = k then None else gm_get (rsGroups s) gid)"
  by (auto simp: removeGroupLocked_def Let_def AList.delete_conv' split: option.splits)

lemma removeGroup_next: "rsNextGroupID (removeGroupLocked k s) = rsNextGroupID s"
  by (auto simp: removeGroupLocked_def Let_def split: option.splits)

lemma removeGroup_lru: "gm_get (rsGroups s) k \<noteq> None \<Longrightarrow> rsLru (removeGroupLocked k s) = gl_remove k (rsLru s)"
  by (auto simp: removeGroupLocked_def Let_def)

lemma removeGroup_core:
  assumes "replay_core s"
  shows "replay_core (removeGroupLocked k s)"
proof (cases "gm_get (rsGroups s) k")
  case None
  then show ?thesis using assms by (simp add: removeGroupLocked_def)
next
  case (Some grp)
  let ?t = "removeGroupLocked k s"
  have lru: "lru_ok (rsGroups s) (rsLru s)" and dk: "distinct (map fst (rsCallsByID s))"
    and ok: "gm_get (rsGroups s) gid = Some g \<Longrightarrow> group_ok s gid g"
    and calls: "gm_get (rsCallsByID s) c = Some gid \<longleftrightarrow>
        (\<exists>g. gm_get (rsGroups s) gid = Some g \<and> c \<in> set (replayIDs g))"
    and total: "rsTotalBytes s = groupsBytes (rsGroups s)" for gid g c
    using assms by (auto simp: replay_core_def)
  have dg: "distinct (map fst (rsGroups s))" using lru by (simp add: lru_ok_def)
  have byID: "rsCallsByID ?t = fold (\<lambda>call m. if gm_get m (scProxyCallID call) = Some k
      then gm_del (scProxyCallID call) m else m) (rgCalls grp) (rsCallsByID s)"
    using Some by (simp add: removeGroupLocked_def Let_def)
  have "gm_get (rsCallsByID ?t) c = Some gid \<longleftrightarrow>
      (\<exists>g. gm_get (rsGroups ?t) gid = Some g \<and> c \<in> set (replayIDs g))" for c gid
    using calls[of c gid] calls[of c k] Some
    by (auto simp: byID fold_del_get removeGroup_groups replayIDs_def split: if_splits)
  moreover have "distinct (map fst (rsCallsByID ?t))"
    using dk by (simp add: byID fold_del_distinct)
  moreover have "lru_ok (rsGroups ?t) (rsLru ?t)"
    using lru Some by (simp add: removeGroupLocked_def Let_def lru_ok_delete)
  moreover have "gm_get (rsGroups ?t) gid = Some g \<Longrightarrow> group_ok ?t gid g" for gid g
    using ok group_ok_limits[OF removeGroup_limits, of k s] by (auto simp: removeGroup_groups split: if_splits)
  moreover have "rsTotalBytes ?t = groupsBytes (rsGroups ?t)"
  proof -
    have "0 \<le> rgByteSize g" if "(gid, g) \<in> set (gm_del k (rsGroups s))" for gid g
    proof -
      have "(gid, g) \<in> set (rsGroups s)" using that by (simp add: AList.delete_eq)
      then show ?thesis using ok dg by (auto simp: group_ok_def)
    qed
    then have "0 \<le> groupsBytes (gm_del k (rsGroups s))" by (rule groupsBytes_nonneg)
    then show ?thesis using Some total groupsBytes_del[OF dg Some] by (simp add: removeGroupLocked_def Let_def)
  qed
  ultimately show ?thesis by (simp add: replay_core_def)
qed

section \<open>Expiry\<close>

lemma expire_step:
  "(case gm_get (rsGroups t) k of
      None \<Rightarrow> removeGroupLocked k t
    | Some grp \<Rightarrow> if \<not> now < rgExpiresAt grp then removeGroupLocked k t else t) =
   (if \<exists>grp. gm_get (rsGroups t) k = Some grp \<and> \<not> now < rgExpiresAt grp then removeGroupLocked k t else t)"
  by (auto simp: removeGroupLocked_def split: option.splits)

lemma expire_fold:
  fixes now :: gotime
  defines "f \<equiv> \<lambda>k t. if \<exists>grp. gm_get (rsGroups t) k = Some grp \<and> \<not> now < rgExpiresAt grp then removeGroupLocked k t else t"
  shows "replay_core s \<Longrightarrow> replay_core (fold f l s)"
    "replayLimits (fold f l s) = replayLimits s"
    "rsNextGroupID (fold f l s) = rsNextGroupID s"
    "gm_get (rsGroups (fold f l s)) gid =
       (case gm_get (rsGroups s) gid of
          Some g \<Rightarrow> if gid \<in> set l \<and> \<not> now < rgExpiresAt g then None else Some g
        | None \<Rightarrow> None)"
    "length (rsGroups (fold f l s)) \<le> length (rsGroups s)"
proof -
  show "replay_core s \<Longrightarrow> replay_core (fold f l s)"
    by (induction l arbitrary: s) (auto simp: f_def removeGroup_core)
  show "replayLimits (fold f l s) = replayLimits s"
    by (induction l arbitrary: s) (auto simp: f_def removeGroup_limits)
  show "rsNextGroupID (fold f l s) = rsNextGroupID s"
    by (induction l arbitrary: s) (auto simp: f_def removeGroup_next)
  show "gm_get (rsGroups (fold f l s)) gid =
       (case gm_get (rsGroups s) gid of
          Some g \<Rightarrow> if gid \<in> set l \<and> \<not> now < rgExpiresAt g then None else Some g
        | None \<Rightarrow> None)"
    by (induction l arbitrary: s) (auto simp: f_def removeGroup_groups split: option.splits)
  show "length (rsGroups (fold f l s)) \<le> length (rsGroups s)"
  proof (induction l arbitrary: s)
    case (Cons k l)
    have "length (rsGroups (removeGroupLocked k s)) \<le> length (rsGroups s)"
      by (auto simp: removeGroupLocked_def Let_def AList.delete_eq split: option.splits)
    moreover have "length (rsGroups (f k s)) \<le> length (rsGroups s)" unfolding f_def using calculation by auto
    ultimately show ?case using Cons[of "f k s"] by (simp add: f_def del: if_split)
  qed simp
qed

lemma expireLocked_eq:
  "expireLocked now s =
     fold (\<lambda>k t. if \<exists>grp. gm_get (rsGroups t) k = Some grp \<and> \<not> now < rgExpiresAt grp then removeGroupLocked k t else t)
       (rsLru s) s"
  by (simp add: expireLocked_def expire_step)

lemma expire_limits: "replayLimits (expireLocked now s) = replayLimits s"
  by (simp add: expireLocked_eq expire_fold(2))

lemma expire_core: "replay_core s \<Longrightarrow> replay_core (expireLocked now s)"
  by (simp add: expireLocked_eq expire_fold(1))

lemma expire_next: "rsNextGroupID (expireLocked now s) = rsNextGroupID s"
  by (simp add: expireLocked_eq expire_fold(3))

lemma expire_groups:
  assumes "replay_core s"
  shows "gm_get (rsGroups (expireLocked now s)) gid =
    (case gm_get (rsGroups s) gid of Some g \<Rightarrow> if now < rgExpiresAt g then Some g else None | None \<Rightarrow> None)"
proof -
  have "gm_get (rsGroups s) gid = Some g \<Longrightarrow> gid \<in> set (rsLru s)" for g
    using assms lru_ok_mem[of "rsGroups s" "rsLru s" gid] by (simp add: replay_core_def)
  then show ?thesis by (auto simp: expireLocked_eq expire_fold(4) split: option.splits)
qed

lemma core_limits:
  assumes "replay_core s" "replayLimits t = replayLimits s" "rsGroups t = rsGroups s" "rsCallsByID t = rsCallsByID s"
    "lru_ok (rsGroups s) (rsLru t)" "rsTotalBytes t = rsTotalBytes s"
  shows "replay_core t"
  using assms group_ok_limits[OF assms(2)] by (simp add: replay_core_def)

lemma total_le:
  assumes "replay_core s" "replay_core t" "\<And>gid g. gm_get (rsGroups t) gid = Some g \<Longrightarrow> gm_get (rsGroups s) gid = Some g"
  shows "rsTotalBytes t \<le> rsTotalBytes s"
proof -
  have sum: "groupsBytes m = (\<Sum>k \<in> fst ` set m. rgByteSize (the (gm_get m k)))" if "distinct (map fst m)" for m
    using that
  proof (induction m)
    case (Cons p m)
    have "(\<Sum>k \<in> fst ` set m. rgByteSize (the (gm_get (p # m) k))) = (\<Sum>k \<in> fst ` set m. rgByteSize (the (gm_get m k)))"
      using Cons.prems by (intro sum.cong) (auto simp: image_iff)
    then show ?case using Cons by (simp add: groupsBytes_def)
  qed (simp add: groupsBytes_def)
  have dom: "fst ` set m = dom (gm_get m)" for m :: "(64 word, responsesChatReplayGroup) gomap" by (simp add: dom_map_of_conv_image_fst)
  have d: "distinct (map fst (rsGroups s))" "distinct (map fst (rsGroups t))"
    using assms by (auto simp: replay_core_def lru_ok_def)
  have "(\<Sum>k \<in> fst ` set (rsGroups t). rgByteSize (the (gm_get (rsGroups t) k))) =
      (\<Sum>k \<in> fst ` set (rsGroups t). rgByteSize (the (gm_get (rsGroups s) k)))"
    unfolding dom using assms(3) by (intro sum.cong) auto
  also have "\<dots> \<le> (\<Sum>k \<in> fst ` set (rsGroups s). rgByteSize (the (gm_get (rsGroups s) k)))"
  proof (rule sum_mono2)
    show "fst ` set (rsGroups t) \<subseteq> fst ` set (rsGroups s)" unfolding dom using assms(3) by auto
    show "0 \<le> rgByteSize (the (gm_get (rsGroups s) b))" if "b \<in> fst ` set (rsGroups s) - fst ` set (rsGroups t)" for b
      using that assms(1) unfolding dom by (auto simp: replay_core_def group_ok_def)
  qed simp
  finally show ?thesis using assms(1,2) sum d by (simp add: replay_core_def)
qed

lemma expire_inv: "replay_inv s \<Longrightarrow> replay_inv (expireLocked now s)"
proof -
  assume inv: "replay_inv s"
  let ?t = "expireLocked now s"
  have core: "replay_core s" "replay_core ?t" using inv expire_core by (auto simp: replay_inv_def)
  have sub: "gm_get (rsGroups ?t) gid = Some g \<Longrightarrow> gm_get (rsGroups s) gid = Some g" for gid g
    by (auto simp: expire_groups[OF core(1)] split: option.splits if_splits)
  have "length (rsGroups ?t) \<le> length (rsGroups s)" unfolding expireLocked_eq by (rule expire_fold(5))
  then show ?thesis using inv core total_le[OF core sub] expire_limits[of now s]
    by (auto simp: replay_inv_def replayLimits_def)
qed

section \<open>Enforcing the limits\<close>

lemma enforce_limits_kept: "replayLimits (enforceLimitsLoop n s) = replayLimits s"
  by (induction n arbitrary: s) (auto simp: removeGroup_limits split: option.splits)

lemma enforce_core: "replay_core s \<Longrightarrow> replay_core (enforceLimitsLoop n s)"
  by (induction n arbitrary: s) (auto simp: removeGroup_core split: option.splits)

lemma enforce_sub: "gm_get (rsGroups (enforceLimitsLoop n s)) k = Some g \<Longrightarrow> gm_get (rsGroups s) k = Some g"
proof (induction n arbitrary: s)
  case (Suc n)
  have step: "gm_get (rsGroups (removeGroupLocked k' s)) k = Some g \<Longrightarrow> gm_get (rsGroups s) k = Some g" for k'
    by (simp add: removeGroup_groups split: if_splits)
  show ?case using Suc.prems Suc.IH step by (cases "gl_front (rsLru s)") (simp_all split: if_splits, blast)
qed simp

lemma core_front:
  assumes "replay_core s" "rsLru s = k # l"
  shows "rsLru (removeGroupLocked k s) = l"
proof -
  have "lru_ok (rsGroups s) (k # l)" using assms by (simp add: replay_core_def)
  then have "gm_get (rsGroups s) k \<noteq> None" "k \<notin> set l"
    using lru_ok_mem[of "rsGroups s" "k # l" k] by (auto simp: lru_ok_def)
  then show ?thesis using assms(2) by (simp add: removeGroup_lru gl_remove_def filter_id_conv) auto
qed

lemma enforce_reached:
  "replay_core s \<Longrightarrow> length (rsLru s) \<le> n \<Longrightarrow> 0 \<le> rsMaxGroups s \<Longrightarrow> 0 \<le> rsMaxTotalBytes s \<Longrightarrow>
   int (length (rsGroups (enforceLimitsLoop n s))) \<le> rsMaxGroups s \<and>
   rsTotalBytes (enforceLimitsLoop n s) \<le> rsMaxTotalBytes s"
proof (induction n arbitrary: s)
  case 0
  then have "rsGroups s = []" by (auto simp: replay_core_def lru_ok_def)
  then show ?case using 0 by (auto simp: replay_core_def groupsBytes_def)
next
  case (Suc n)
  show ?case
  proof (cases "rsLru s")
    case Nil
    then have "rsGroups s = []" using Suc.prems(1) by (auto simp: replay_core_def lru_ok_def)
    then show ?thesis using Suc.prems by (auto simp: replay_core_def groupsBytes_def)
  next
    case (Cons k l)
    let ?t = "removeGroupLocked k s"
    have lim: "rsMaxGroups ?t = rsMaxGroups s" "rsMaxTotalBytes ?t = rsMaxTotalBytes s"
      using removeGroup_limits[of k s] by (auto simp: replayLimits_def)
    show ?thesis
      using Suc.IH[OF removeGroup_core[OF Suc.prems(1)], of k] Suc.prems Cons core_front[OF Suc.prems(1) Cons] lim
      by (auto simp: gl_front_def)
  qed
qed

text \<open>The newest group survives, because it fits the limits alone.\<close>

lemma enforce_newest:
  "replay_core s \<Longrightarrow> rsLru s = l @ [k] \<Longrightarrow> gm_get (rsGroups s) k = Some g \<Longrightarrow>
   1 \<le> rsMaxGroups s \<Longrightarrow> rgByteSize g \<le> rsMaxTotalBytes s \<Longrightarrow>
   gm_get (rsGroups (enforceLimitsLoop n s)) k = Some g"
proof (induction n arbitrary: s l)
  case (Suc n)
  show ?case
  proof (cases l)
    case Nil
    have lru: "lru_ok (rsGroups s) [k]" using Suc.prems(1,2) Nil by (simp add: replay_core_def)
    then have "length (rsGroups s) = 1" using lru_ok_length by fastforce
    then obtain v where "rsGroups s = [(k, v)]"
      using lru by (cases "rsGroups s") (auto simp: lru_ok_def)
    then have "rsGroups s = [(k, g)]" using Suc.prems(3) by simp
    then have "rsTotalBytes s = rgByteSize g"
      using Suc.prems(1) by (simp add: replay_core_def groupsBytes_def)
    then show ?thesis using Suc.prems \<open>length (rsGroups s) = 1\<close> by simp
  next
    case (Cons k' l')
    let ?t = "removeGroupLocked k' s"
    have lru: "rsLru s = k' # (l' @ [k])" using Suc.prems(2) Cons by simp
    have "distinct (rsLru s)" using Suc.prems(1) by (simp add: replay_core_def lru_ok_def)
    then have "k \<noteq> k'" using lru by auto
    have lim: "rsMaxGroups ?t = rsMaxGroups s" "rsMaxTotalBytes ?t = rsMaxTotalBytes s"
      using removeGroup_limits[of k' s] by (auto simp: replayLimits_def)
    have "gm_get (rsGroups (enforceLimitsLoop n ?t)) k = Some g"
      using Suc.prems lim \<open>k \<noteq> k'\<close>
      by (intro Suc.IH[OF removeGroup_core[OF Suc.prems(1)] core_front[OF Suc.prems(1) lru]])
        (auto simp: removeGroup_groups)
    then show ?thesis using Suc.prems lru by (simp add: gl_front_def)
  qed
qed simp

section \<open>Group numbers\<close>

lemma nextGroupIDLoop_free:
  assumes "\<exists>i. 1 \<le> i \<and> i \<le> n \<and> next + of_nat i \<noteq> 0 \<and> gm_get groups (next + of_nat i) = None"
  shows "nextGroupIDLoop n next groups \<noteq> 0 \<and> gm_get groups (nextGroupIDLoop n next groups) = None"
  using assms
proof (induction n arbitrary: "next")
  case (Suc n)
  then obtain i where i: "1 \<le> i" "i \<le> Suc n" "next + of_nat i \<noteq> 0" "gm_get groups (next + of_nat i) = None" by blast
  show ?case
  proof (cases "next + 1 \<noteq> 0 \<and> gm_get groups (next + 1) = None")
    case False
    then have "i \<noteq> 1" using i(3,4) by auto
    then obtain j where j: "i = Suc j" "1 \<le> j" using i(1) by (cases i) auto
    then have "\<exists>i. 1 \<le> i \<and> i \<le> n \<and> (next + 1) + of_nat i \<noteq> 0 \<and> gm_get groups ((next + 1) + of_nat i) = None"
      using i j by (intro exI[of _ j]) (simp add: add.assoc)
    from Suc.IH[OF this] False show ?thesis by (auto simp: Let_def)
  qed (simp add: Let_def)
qed simp

lemma nextGroupID_free:
  assumes "length (rsGroups s) + 2 \<le> 2 ^ 64"
  shows "nextGroupIDLocked s \<noteq> 0 \<and> gm_get (rsGroups s) (nextGroupIDLocked s) = None"
  unfolding nextGroupIDLocked_def
proof (rule nextGroupIDLoop_free, rule ccontr)
  let ?n = "length (rsGroups s) + 2" and ?next = "rsNextGroupID s"
  let ?f = "\<lambda>i. ?next + of_nat i :: 64 word"
  assume "\<not> (\<exists>i. 1 \<le> i \<and> i \<le> ?n \<and> ?f i \<noteq> 0 \<and> gm_get (rsGroups s) (?f i) = None)"
  then have sub: "?f ` {1..?n} \<subseteq> insert 0 (fst ` set (rsGroups s))"
    by (auto simp: map_of_eq_None_iff)
  have inj: "inj_on ?f {1..?n}"
  proof (rule inj_onI)
    fix i j assume ij: "i \<in> {1..?n}" "j \<in> {1..?n}" "?f i = ?f j"
    then have "(of_nat i :: 64 word) = of_nat j" by simp
    then have "i mod 2 ^ 64 = j mod 2 ^ 64" by (simp add: word_of_nat_eq_iff take_bit_eq_mod)
    then show "i = j" using ij assms by (cases "i = 2 ^ 64"; cases "j = 2 ^ 64") auto
  qed
  have "?n = card (?f ` {1..?n})" using card_image[OF inj] by simp
  also have "\<dots> \<le> card (insert 0 (fst ` set (rsGroups s)))" by (rule card_mono[OF _ sub]) simp
  also have "\<dots> \<le> Suc (card (fst ` set (rsGroups s)))" by (simp add: card_insert_if)
  also have "\<dots> \<le> Suc (length (rsGroups s))"
    using card_image_le[of "set (rsGroups s)" fst] card_length[of "rsGroups s"] by simp
  finally show False by simp
qed

section \<open>Call identifiers\<close>

lemma opaque_fresh:
  "generateOpaqueCallID n s reserved random = (Inr proxyID, rest) \<Longrightarrow>
   gm_get (rsCallsByID s) proxyID = None \<and> proxyID \<notin> set reserved \<and> trimSpace proxyID = proxyID \<and> proxyID \<noteq> ''''"
proof (induction n arbitrary: random)
  case (Suc n)
  obtain r rest' where read: "readFull responsesChatReplayRandomBytes random = (r, rest')" by fastforce
  show ?case
  proof (cases r)
    case (Some bs)
    have len: "length bs = 16"
      using read Some by (auto simp: readFull_def responsesChatReplayRandomBytes_def split: list.splits option.splits if_splits)
    have "opaqueCallID bs \<noteq> ''''" using opaque_facts(1)[OF len] by auto
    then show ?thesis
      using Suc read Some trim_id[OF opaque_facts(2)[OF len]] by (auto simp: Let_def split: if_splits)
  qed (use Suc.prems read in auto)
qed simp

lemma unique_fresh:
  assumes "generateUniqueCallIDLocked J s reserved u nonce random = (Inr proxyID, rest)"
  shows "gm_get (rsCallsByID s) proxyID = None \<and> proxyID \<notin> set reserved \<and> trimSpace proxyID = proxyID \<and> proxyID \<noteq> ''''"
proof (cases "responsesChatReplaySelfDescribingIDWithNonce (rjSha J) u nonce")
  case (Some p)
  have "p \<noteq> ''''" using minted_shape(1)[OF Some] by (auto simp: responsesChatReplayCallIDPrefix_def)
  then show ?thesis
    using assms Some trim_id[OF minted_id[OF Some]] opaque_fresh
    by (auto simp: generateUniqueCallIDLocked_def split: if_splits)
qed (use assms opaque_fresh in \<open>auto simp: generateUniqueCallIDLocked_def\<close>)

lemma callIDs_fresh:
  "generateCallIDs J s reserved nonce calls random = (Inr ids, rest) \<Longrightarrow>
   length ids = length calls \<and> distinct ids \<and> set ids \<inter> set reserved = {} \<and>
   (\<forall>p \<in> set ids. gm_get (rsCallsByID s) p = None \<and> trimSpace p = p \<and> p \<noteq> '''')"
proof (induction calls arbitrary: reserved random ids rest)
  case (Cons call calls)
  from Cons.prems obtain p rest1 ids' rest2 where
    p: "generateUniqueCallIDLocked J s reserved (ppUpstreamCallID call) nonce random = (Inr p, rest1)"
    and ids: "generateCallIDs J s (p # reserved) nonce calls rest1 = (Inr ids', rest2)" "ids = p # ids'"
    by (auto split: prod.splits sum.splits)
  show ?case using unique_fresh[OF p] Cons.IH[OF ids(1)] ids(2) by auto
qed simp

section \<open>Publishing keeps the invariant\<close>

definition prepared_ok :: "responsesChatReplayStore \<Rightarrow> responsesChatReplayPreparedGroup \<Rightarrow> bool" where
  "prepared_ok s p \<longleftrightarrow> pgCalls p \<noteq> [] \<and> int (length (pgCalls p)) \<le> rsMaxCalls s \<and>
     int (length (pgOutputItems p)) \<le> rsMaxItems s \<and> 0 \<le> pgByteSize p \<and> pgByteSize p \<le> rsMaxGroupBytes s \<and>
     pgByteSize p \<le> rsMaxTotalBytes s \<and> (\<forall>c \<in> set (pgCalls p). ppOutputItemIndex c < length (pgOutputItems p))"

lemma insertGroup_core:
  assumes "replay_core s" "gm_get (rsGroups s) (rgId grp) = None" "group_ok s (rgId grp) grp"
    "\<And>c. c \<in> set (replayIDs grp) \<Longrightarrow> gm_get (rsCallsByID s) c = None"
  shows "replay_core (insertGroup grp s)"
proof -
  let ?t = "insertGroup grp s"
  have lim: "replayLimits ?t = replayLimits s" by (simp add: insertGroup_def replayLimits_def)
  have c: "lru_ok (rsGroups s) (rsLru s)" "distinct (map fst (rsCallsByID s))"
    "rsTotalBytes s = groupsBytes (rsGroups s)"
    "\<And>gid g. gm_get (rsGroups s) gid = Some g \<Longrightarrow> group_ok s gid g"
    "\<And>c gid. gm_get (rsCallsByID s) c = Some gid \<longleftrightarrow>
        (\<exists>g. gm_get (rsGroups s) gid = Some g \<and> c \<in> set (replayIDs g))"
    using assms(1) by (simp_all add: replay_core_def)
  have "gm_get (rsCallsByID ?t) c = Some gid \<longleftrightarrow>
      (\<exists>g. gm_get (rsGroups ?t) gid = Some g \<and> c \<in> set (replayIDs g))" for c gid
  proof (cases "c \<in> set (replayIDs grp)")
    case True
    then have "\<not> (\<exists>g. gm_get (rsGroups s) gid = Some g \<and> c \<in> set (replayIDs g))"
      using c(5)[of c gid] assms(4) by simp
    then show ?thesis using True
      by (auto simp: insertGroup_def fold_put_get AList.update_conv' replayIDs_def)
  next
    case False
    then show ?thesis using c(5)[of c gid] assms(2)
      by (auto simp: insertGroup_def fold_put_get AList.update_conv' replayIDs_def)
  qed
  moreover have "gm_get (rsGroups ?t) gid = Some g \<Longrightarrow> group_ok ?t gid g" for gid g
    using c(4) assms(3) group_ok_limits[OF lim] by (auto simp: insertGroup_def AList.update_conv' split: if_splits)
  ultimately show ?thesis
    using c(1-3) assms(2)
    by (simp add: replay_core_def insertGroup_def lru_ok_insert_back fold_put_distinct groupsBytes_put)
qed

text \<open>What a successful locked publication did.\<close>

definition publishedGroup :: "gotime \<Rightarrow> responsesChatReplayPreparedGroup \<Rightarrow> string list \<Rightarrow> responsesChatReplayStore \<Rightarrow>
  responsesChatReplayGroup" where
  "publishedGroup now p ids s1 =
     \<lparr>rgId = nextGroupIDLocked s1, rgRoute = pgRoute p, rgAssistantContent = pgAssistantContent p,
      rgOutputItems = pgOutputItems p, rgCalls = map2 storedCall (pgCalls p) ids, rgCreatedAt = now,
      rgExpiresAt = now + rsTTL s1, rgByteSize = pgByteSize p\<rparr>"

lemma replayIDs_published:
  "length ids = length (pgCalls p) \<Longrightarrow> replayIDs (publishedGroup now p ids s1) = ids"
  by (simp add: replayIDs_def publishedGroup_def storedCall_def o_def split_def)

lemma publishLocked_cases:
  assumes "publishLocked J now random p s = (s', random', r)" "\<not> rsClosed s"
  obtains (failed) e where "s' = expireLocked now s" "r = Inl e"
  | (published) nonce random1 random2 ids where
      "generateCallIDs J (expireLocked now s) [] nonce (pgCalls p) random1 = (Inr ids, random2)"
      "s' = enforceLimitsLocked (insertGroup (publishedGroup now p ids (expireLocked now s)) (expireLocked now s))"
      "r = Inr \<lparr>pubGroupID = nextGroupIDLocked (expireLocked now s),
         pubProjection = \<lparr>apContent = pgAssistantContent p, apCalls = map2 (\<lambda>call proxyID.
           \<lparr>pcID = proxyID, pcName = ppName call, pcArguments = ppVisibleArguments call\<rparr>) (pgCalls p) ids\<rparr>,
         pubOriginalProjection = \<lparr>apContent = pgAssistantContent p, apCalls = map2 (\<lambda>call proxyID.
           \<lparr>pcID = proxyID, pcName = ppName call, pcArguments = ppOriginalArguments call\<rparr>) (pgCalls p) ids\<rparr>,
         pubCalls = map (resolvedCall (pgOutputItems p)) (map2 storedCall (pgCalls p) ids),
         pubCreatedAt = now, pubByteSize = pgByteSize p\<rparr>"
proof -
  let ?s = "expireLocked now s"
  obtain n random1 where n: "generateSelfIDNonceLocked J (pgCalls p) random = (n, random1)" by fastforce
  show thesis
  proof (cases n)
    case (Inl e)
    then show ?thesis using assms n by (intro failed[of "ReplayNonceError e"]) (simp_all add: publishLocked_def Let_def)
  next
    case (Inr nonce)
    obtain c random2 where c: "generateCallIDs J ?s [] nonce (pgCalls p) random1 = (c, random2)" by fastforce
    show ?thesis
    proof (cases c)
      case (Inl e)
      then show ?thesis using assms n \<open>n = Inr nonce\<close> c
        by (intro failed[of "ReplayCallIDError e"]) (simp_all add: publishLocked_def Let_def)
    next
      case (Inr ids)
      show ?thesis
        using assms n \<open>n = Inr nonce\<close> c Inr
        by (intro published[of nonce random1 ids random2]) (simp_all add: publishLocked_def Let_def publishedGroup_def)
    qed
  qed
qed

lemma published_insert:
  assumes "replay_inv s" "\<not> rsClosed s" "prepared_ok s p" "rsMaxGroups s + 2 \<le> 2 ^ 64"
    "generateCallIDs J (expireLocked now s) [] nonce (pgCalls p) random1 = (Inr ids, random2)"
  shows "replay_core (insertGroup (publishedGroup now p ids (expireLocked now s)) (expireLocked now s))"
    "gm_get (rsGroups (expireLocked now s)) (nextGroupIDLocked (expireLocked now s)) = None"
    "group_ok s (nextGroupIDLocked (expireLocked now s)) (publishedGroup now p ids (expireLocked now s))"
proof -
  let ?s = "expireLocked now s"
  have inv: "replay_inv ?s" and core: "replay_core ?s"
    using expire_inv[OF assms(1)] by (auto simp: replay_inv_def)
  have lim: "replayLimits ?s = replayLimits s" by (rule expire_limits)
  have "int (length (rsGroups ?s)) + 2 \<le> 2 ^ 64"
    using inv lim assms(4) by (simp add: replay_inv_def replayLimits_def)
  then have next1: "nextGroupIDLocked ?s \<noteq> 0" and next2: "gm_get (rsGroups ?s) (nextGroupIDLocked ?s) = None"
    using nextGroupID_free[of ?s] by auto
  have ids: "length ids = length (pgCalls p)" "distinct ids"
    "\<And>c. c \<in> set ids \<Longrightarrow> gm_get (rsCallsByID ?s) c = None"
    using callIDs_fresh[OF assms(5)] by auto
  have idx: "scOutputItemIndex c < length (pgOutputItems p)" if "c \<in> set (map2 storedCall (pgCalls p) ids)" for c
    using that assms(3) by (auto simp: prepared_ok_def storedCall_def dest: set_zip_leftD)
  have "zip (pgCalls p) ids \<noteq> []" using assms(3) ids(1) by (cases "pgCalls p"; cases ids) (auto simp: prepared_ok_def)
  then show ok: "group_ok s (nextGroupIDLocked ?s) (publishedGroup now p ids ?s)"
    using next1 ids idx assms(3) replayIDs_published[OF ids(1), of now ?s] lim
    by (auto simp: group_ok_def publishedGroup_def prepared_ok_def replayLimits_def)
  show "gm_get (rsGroups ?s) (nextGroupIDLocked ?s) = None" by (rule next2)
  show "replay_core (insertGroup (publishedGroup now p ids ?s) ?s)"
    using core next2 ok group_ok_limits[OF lim] ids replayIDs_published[OF ids(1), of now ?s]
    by (intro insertGroup_core) (simp_all add: publishedGroup_def)
qed

lemma enforce_inv:
  assumes "replay_core s" "0 < rsMaxGroups s" "0 < rsMaxTotalBytes s" "0 < rsTTL s" "\<not> rsClosed s"
  shows "replay_inv (enforceLimitsLocked s)"
  using enforce_reached[OF assms(1) order_refl] enforce_core[OF assms(1)] enforce_limits_kept assms
  by (auto simp: replay_inv_def enforceLimitsLocked_def replayLimits_def)

lemma insertGroup_facts:
  "replayLimits (insertGroup g s) = replayLimits s" "rsLru (insertGroup g s) = rsLru s @ [rgId g]"
  "gm_get (rsGroups (insertGroup g s)) (rgId g) = Some g"
  by (simp_all add: insertGroup_def replayLimits_def AList.update_conv')

lemma enforceLocked:
  "replayLimits (enforceLimitsLocked s) = replayLimits s"
  "replay_core s \<Longrightarrow> replay_core (enforceLimitsLocked s)"
  by (simp_all add: enforceLimitsLocked_def enforce_limits_kept enforce_core)

lemma publish_limits: "replayLimits (fst (publishLocked J now random p s)) = replayLimits s"
proof (cases "rsClosed s")
  case False
  obtain s' random' r where pub: "publishLocked J now random p s = (s', random', r)" by (metis prod_cases3)
  from pub False show ?thesis
    by (cases rule: publishLocked_cases)
      (simp_all add: pub enforceLocked(1) insertGroup_facts(1) expire_limits)
qed (simp add: publishLocked_def)

lemma publish_inv:
  assumes "replay_inv s" "prepared_ok s p" "rsMaxGroups s + 2 \<le> 2 ^ 64"
  shows "replay_inv (fst (publishLocked J now random p s))"
proof (cases "rsClosed s")
  case False
  obtain s' random' r where pub: "publishLocked J now random p s = (s', random', r)" by (metis prod_cases3)
  from pub False show ?thesis
  proof (cases rule: publishLocked_cases)
    case failed
    then show ?thesis using pub expire_inv[OF assms(1)] by simp
  next
    case (published nonce random1 random2 ids)
    let ?t = "insertGroup (publishedGroup now p ids (expireLocked now s)) (expireLocked now s)"
    have "replayLimits ?t = replayLimits s"
      using expire_limits[of now s] by (simp add: insertGroup_def replayLimits_def)
    then have "replay_inv (enforceLimitsLocked ?t)"
      using published_insert(1)[OF assms(1) False assms(2,3) published(1)] assms(1) False
      by (intro enforce_inv) (simp_all add: replay_inv_def replayLimits_def)
    then show ?thesis using pub published(2) by simp
  qed
qed (use assms in \<open>simp add: publishLocked_def\<close>)

lemma findGroup_group:
  assumes "findGroup s route grp calls = Inr (Some g)"
    "\<And>h. grp = Some h \<Longrightarrow> \<exists>gid. gm_get (rsGroups s) gid = Some h"
  shows "\<exists>gid. gm_get (rsGroups s) gid = Some g"
  using assms
proof (induction calls arbitrary: grp)
  case (Cons call calls)
  obtain gid where gid: "gm_get (rsCallsByID s) (pcID call) = Some gid"
    using Cons.prems(1) by (cases "gm_get (rsCallsByID s) (pcID call)") simp_all
  obtain c where c: "gm_get (rsGroups s) gid = Some c"
    using Cons.prems(1) gid by (cases "gm_get (rsGroups s) gid") simp_all
  have rest: "findGroup s route (case grp of None \<Rightarrow> Some c | Some h \<Rightarrow> Some h) calls = Inr (Some g)"
    using Cons.prems(1) gid c by (cases grp) (simp_all split: if_splits)
  show ?case using Cons.prems(2) c by (intro Cons.IH[OF rest]) (cases grp; auto)
qed simp

lemma resolve_inv:
  assumes "replay_inv s"
  shows "replay_inv (fst (resolveLocked J now route content calls s))"
proof -
  let ?s = "expireLocked now s"
  have inv: "replay_inv ?s" by (rule expire_inv[OF assms])
  have "replay_inv (?s\<lparr>rsLru := gl_move_back k (rsLru ?s)\<rparr>)" for k
  proof -
    have "replay_core (?s\<lparr>rsLru := gl_move_back k (rsLru ?s)\<rparr>)"
    proof (rule core_limits[of ?s])
      show core: "replay_core ?s" using inv by (simp add: replay_inv_def)
      show "lru_ok (rsGroups ?s) (rsLru (?s\<lparr>rsLru := gl_move_back k (rsLru ?s)\<rparr>))"
        using core by (simp add: replay_core_def lru_ok_move_back)
    qed (simp_all add: replayLimits_def)
    then show ?thesis using inv by (simp add: replay_inv_def)
  qed
  then show ?thesis using inv assms
    by (auto simp: resolveLocked_def Let_def split: sum.splits option.splits prod.splits)
qed

lemma close_inv: "replay_inv s \<Longrightarrow> replay_inv (replayClose s)"
  by (auto simp: replay_inv_def replayClose_def replay_core_def groupsBytes_def lru_ok_Nil)

lemma new_inv: "replay_inv (newResponsesChatReplayStoreWithOptions options)"
  by (auto simp: newResponsesChatReplayStoreWithOptions_def replay_inv_def replay_core_def groupsBytes_def lru_ok_Nil
      responsesChatReplayTTL_def responsesChatReplayMaxGroups_def responsesChatReplayMaxTotalBytes_def)

section \<open>The store as a machine\<close>

text \<open>Every operation at any time, with any reads of the random source. A publication prepared
  earlier may meet the store in any later state.\<close>

inductive replay_step :: "replayJson \<Rightarrow> responsesChatReplayStore \<Rightarrow> responsesChatReplayStore \<Rightarrow> bool"
  for J :: replayJson where
  step_publish: "preparePublish J s request = Inr p \<Longrightarrow>
     replay_step J s (fst (publishLocked J now random p s))"
| step_resolve: "replay_step J s (fst (resolveLocked J now route content calls s))"
| step_stats: "replay_step J s (fst (replayStats now s))"
| step_close: "replay_step J s (replayClose s)"

lemma functionItems:
  "functionItemIndexesFrom J k items = Some is \<Longrightarrow> i < length items \<Longrightarrow>
   rjType J (items ! i) = Some ''function_call'' \<Longrightarrow> k + i \<in> set is"
proof (induction items arbitrary: k i "is")
  case (Cons item items)
  then obtain is' where is': "functionItemIndexesFrom J (Suc k) items = Some is'"
    "is = (if rjType J item = Some ''function_call'' then k # is' else is')"
    by (auto split: if_splits)
  show ?case
  proof (cases i)
    case (Suc j)
    then have "Suc k + j \<in> set is'" using Cons.prems by (intro Cons.IH[OF is'(1)]) auto
    then show ?thesis using is'(2) Suc by auto
  qed (use Cons.prems is'(2) in auto)
qed simp

lemma prepareCalls_facts:
  "prepareCalls J items seenU seenI lastI fii req = Inr (calls, unmapped) \<Longrightarrow>
   list_all2 (\<lambda>u c. prepareCall J items u = Inr c \<and> trimSpace (ucName u) \<noteq> '''' \<and>
      0 \<le> ucOutputItemIndex u \<and> ucOutputItemIndex u < int (length items)) req calls \<and>
   set unmapped = set fii - ppOutputItemIndex ` set calls \<and>
   sorted_wrt (<) (map ppOutputItemIndex calls) \<and> (\<forall>c \<in> set calls. lastI < int (ppOutputItemIndex c)) \<and>
   distinct (map ppUpstreamCallID calls) \<and> set (map ppUpstreamCallID calls) \<inter> set seenU = {}"
proof (induction req arbitrary: seenU seenI lastI fii calls unmapped)
  case (Cons u req)
  from Cons.prems obtain c cs where
    c: "prepareCall J items u = Inr c" "calls = c # cs"
    and rest: "prepareCalls J items (ucUpstreamCallID u # seenU) (ucOutputItemIndex u # seenI) (ucOutputItemIndex u)
      (filter (\<lambda>i. i \<noteq> nat (ucOutputItemIndex u)) fii) req = Inr (cs, unmapped)"
    and ok: "trimSpace (ucName u) \<noteq> ''''" "0 \<le> ucOutputItemIndex u" "ucOutputItemIndex u < int (length items)"
      "lastI < ucOutputItemIndex u" "ucUpstreamCallID u \<notin> set seenU"
    by (simp split: if_splits sum.splits prod.splits) 
  have fields: "ppOutputItemIndex c = nat (ucOutputItemIndex u)" "ppUpstreamCallID c = ucUpstreamCallID u"
    using c(1) by (auto simp: prepareCall_def Let_def split: if_splits option.splits)
  show ?case using Cons.IH[OF rest] c ok fields by fastforce
qed auto

lemma preparePublish_facts:
  assumes "preparePublish J s request = Inr p"
  shows "pgRoute p = prRoute request" "pgOutputItems p = prOutputItems request"
    "canonicalReplayJSONValue J (prAssistantContent request) = Some (pgAssistantContent p)"
    "\<exists>fii. functionItemIndexesFrom J 0 (prOutputItems request) = Some fii \<and>
       prepareCalls J (prOutputItems request) [] [] (-1) fii (prCalls request) = Inr (pgCalls p, [])"
    "prCalls request \<noteq> []" "int (length (prCalls request)) \<le> rsMaxCalls s"
    "int (length (pgOutputItems p)) \<le> rsMaxItems s"
    "pgByteSize p = replayGroupByteSize J (pgRoute p) (pgAssistantContent p) (pgOutputItems p) (pgCalls p)"
    "pgByteSize p \<le> rsMaxGroupBytes s" "pgByteSize p \<le> rsMaxTotalBytes s"
  using assms
  by (auto simp: preparePublish_def Let_def split: if_splits option.splits sum.splits prod.splits)

lemma prepareCall_facts:
  assumes "prepareCall J items u = Inr c"
  shows "ppName c = ucName u" "ppOutputItemIndex c = nat (ucOutputItemIndex u)"
    "rjCall J (items ! ppOutputItemIndex c) =
       Some (''function_call'', ppUpstreamCallID c, ppName c, ppOriginalArguments c)"
    "\<exists>v. canonicalReplayArguments J (ppVisibleArguments c) = Some v \<and> ppVisibleHash c = rjSha J v"
    "\<exists>v. canonicalReplayArguments J (ppOriginalArguments c) = Some v \<and> ppOriginalHash c = rjSha J v"
  using assms by (auto simp: prepareCall_def Let_def split: if_splits option.splits)

lemma prepared_calls:
  assumes "preparePublish J s request = Inr p"
  shows "length (pgCalls p) = length (prCalls request)"
    "sorted_wrt (<) (map ppOutputItemIndex (pgCalls p))" "distinct (map ppUpstreamCallID (pgCalls p))"
    "\<And>i. i < length (pgOutputItems p) \<Longrightarrow> rjType J (pgOutputItems p ! i) = Some ''function_call'' \<Longrightarrow>
       i \<in> ppOutputItemIndex ` set (pgCalls p)"
    "\<And>c. c \<in> set (pgCalls p) \<Longrightarrow> ppOutputItemIndex c < length (pgOutputItems p) \<and> trimSpace (ppName c) \<noteq> '''' \<and>
       (\<exists>u. prepareCall J (pgOutputItems p) u = Inr c)"
proof -
  note p = preparePublish_facts[OF assms]
  from p(4) obtain fii where fii: "functionItemIndexesFrom J 0 (pgOutputItems p) = Some fii"
    and calls: "prepareCalls J (pgOutputItems p) [] [] (-1) fii (prCalls request) = Inr (pgCalls p, [])"
    unfolding p(2) by blast
  note c = prepareCalls_facts[OF calls]
  show "length (pgCalls p) = length (prCalls request)" using c by (auto dest: list_all2_lengthD)
  show "sorted_wrt (<) (map ppOutputItemIndex (pgCalls p))" "distinct (map ppUpstreamCallID (pgCalls p))"
    using c by blast+
  show "i \<in> ppOutputItemIndex ` set (pgCalls p)"
    if "i < length (pgOutputItems p)" "rjType J (pgOutputItems p ! i) = Some ''function_call''" for i
    using functionItems[OF fii that] c by auto
  show "ppOutputItemIndex c < length (pgOutputItems p) \<and> trimSpace (ppName c) \<noteq> '''' \<and>
       (\<exists>u. prepareCall J (pgOutputItems p) u = Inr c)" if "c \<in> set (pgCalls p)" for c
  proof -
    from that obtain j where j: "j < length (pgCalls p)" "pgCalls p ! j = c" by (metis in_set_conv_nth)
    then obtain u where "prepareCall J (pgOutputItems p) u = Inr c" "trimSpace (ucName u) \<noteq> ''''"
      "0 \<le> ucOutputItemIndex u" "ucOutputItemIndex u < int (length (pgOutputItems p))"
      using c by (auto simp: list_all2_conv_all_nth)
    then show ?thesis using prepareCall_facts(1,2) by fastforce
  qed
qed

lemma prepared_ok:
  assumes "preparePublish J s request = Inr p"
  shows "prepared_ok s p"
proof -
  note p = preparePublish_facts[OF assms] and c = prepared_calls[OF assms]
  have defaults: "0 \<le> replayOptionalDefaultsByteSize d" for d
    by (auto simp: replayOptionalDefaultsByteSize_def intro!: sum_list_nonneg)
  have "0 \<le> pgByteSize p"
    unfolding p(8) replayGroupByteSize_def
    by (intro add_nonneg_nonneg sum_list_nonneg) (auto simp: defaults)
  then show ?thesis using p(5-10) c(1,5) by (auto simp: prepared_ok_def)
qed

lemma replay_steps_inv:
  assumes "replay_inv s \<and> rsMaxGroups s + 2 \<le> 2 ^ 64" "replay_step J s s'"
  shows "replay_inv s' \<and> rsMaxGroups s' + 2 \<le> 2 ^ 64"
proof -
  have max: "rsMaxGroups s' = rsMaxGroups s" using assms(2)
  proof cases
    case (step_publish request p now random)
    then show ?thesis using publish_limits[of J now random p s] by (simp add: replayLimits_def)
  next
    case (step_resolve now route content calls)
    then show ?thesis using expire_limits[of now s]
      by (auto simp: replayLimits_def resolveLocked_def Let_def split: sum.splits option.splits prod.splits)
  next
    case (step_stats now)
    then show ?thesis using expire_limits[of now s] by (auto simp: replayLimits_def replayStats_def Let_def)
  qed (auto simp: replayClose_def)
  moreover have "replay_inv s'" using assms(2)
  proof cases
    case (step_publish request p now random)
    then show ?thesis using publish_inv prepared_ok assms(1) by simp
  qed (use assms(1) resolve_inv close_inv expire_inv in \<open>auto simp: replayStats_def Let_def\<close>)
  ultimately show ?thesis using assms(1) by simp
qed

text \<open>\<open>MaxGroups\<close> is a Go \<open>int\<close>, so below \<open>2 ^ 63\<close>.\<close>

interpretation replay_machine: machine_invariant
  "\<lambda>s. \<exists>options. soMaxGroups options < 2 ^ 63 \<and> s = newResponsesChatReplayStoreWithOptions options"
  "replay_step J" "\<lambda>s. replay_inv s \<and> rsMaxGroups s + 2 \<le> 2 ^ 64" for J
proof unfold_locales
  fix s assume "\<exists>options. soMaxGroups options < 2 ^ 63 \<and> s = newResponsesChatReplayStoreWithOptions options"
  then show "replay_inv s \<and> rsMaxGroups s + 2 \<le> 2 ^ 64"
    using new_inv by (auto simp: newResponsesChatReplayStoreWithOptions_def responsesChatReplayMaxGroups_def)
qed (rule replay_steps_inv)

section \<open>Publishing and resolving\<close>

lemma matchesHash_same: "matchesHash J arguments hash hash defaults"
  by (simp add: matchesHash_def)

lemma matchesCalls_published:
  assumes "length ids = length calls" "\<And>c. c \<in> set calls \<Longrightarrow> \<exists>u. prepareCall J items u = Inr c"
  shows "matchesCalls J False (map2 storedCall calls ids) (map2 (\<lambda>call proxyID.
      \<lparr>pcID = proxyID, pcName = ppName call, pcArguments = ppVisibleArguments call\<rparr>) calls ids) = (True, '''') \<and>
    matchesCalls J True (map2 storedCall calls ids) (map2 (\<lambda>call proxyID.
      \<lparr>pcID = proxyID, pcName = ppName call, pcArguments = ppOriginalArguments call\<rparr>) calls ids) = (True, '''')"
  using assms
proof (induction ids calls rule: list_induct2)
  case (Cons p ids c calls)
  obtain u where u: "prepareCall J items u = Inr c" using Cons.prems(1) by auto
  from prepareCall_facts(4,5)[OF u] show ?case
    using Cons.IH Cons.prems by (auto simp: storedCall_def matchesHash_same)
qed simp

lemma findGroup_all:
  assumes "replay_core s" "gm_get (rsGroups s) gid = Some g" "routeEqual (rgRoute g) route"
  shows "(\<forall>call \<in> set calls. pcID call \<in> set (replayIDs g)) \<Longrightarrow> grp = None \<or> grp = Some g \<Longrightarrow>
    findGroup s route grp calls = Inr (if calls = [] then grp else Some g)"
proof (induction calls arbitrary: grp)
  case (Cons call calls)
  then have "gm_get (rsCallsByID s) (pcID call) = Some gid"
    using assms(1,2) by (auto simp: replay_core_def)
  then show ?case using Cons assms(2,3) by (auto split: option.splits)
qed simp

lemma checkProjectedCalls_ok:
  "distinct (map pcID calls) \<Longrightarrow> set (map pcID calls) \<inter> set seen = {} \<Longrightarrow>
   (\<forall>c \<in> set calls. trimSpace (pcID c) \<noteq> '''' \<and> trimSpace (pcName c) \<noteq> '''') \<Longrightarrow>
   checkProjectedCalls seen calls = None"
  by (induction calls arbitrary: seen) auto

text \<open>The published group is found, and its calls match, with either projection.\<close>

lemma resolve_published:
  assumes core: "replay_core s" and g: "gm_get (rsGroups s) gid = Some g" and open_: "\<not> rsClosed s"
    and now: "now < rgExpiresAt g" and content: "canonicalReplayJSONValue J content = Some (rgAssistantContent g)"
    and calls: "calls \<noteq> []" "map pcID calls = replayIDs g" "\<forall>c \<in> set calls. trimSpace (pcName c) \<noteq> ''''"
    and ids: "\<forall>p \<in> set (replayIDs g). trimSpace p = p \<and> p \<noteq> ''''"
    and "match": "matchesCalls J original (rgCalls g) calls = (True, '''')"
  shows "\<exists>m s'. resolve J now (rgRoute g) \<lparr>apContent = content, apCalls = calls\<rparr> s =
      (s', Inr (cloneResponsesChatReplayResolution g m)) \<and> (\<not> original \<longrightarrow> m = responsesChatReplayProjectionVisible)"
proof -
  have core': "replay_core (expireLocked now s)" by (rule expire_core[OF core])
  have g': "gm_get (rsGroups (expireLocked now s)) gid = Some g" using expire_groups[OF core] g now by simp
  have len: "length (rgCalls g) = length calls" using arg_cong[OF calls(2), of length] by (simp add: replayIDs_def)
  have dist: "distinct (map pcID calls)"
    using core g calls(2) unfolding replay_core_def group_ok_def by auto
  have set: "pcID c \<in> set (replayIDs g)" if "c \<in> set calls" for c using that calls(2) by (metis image_eqI set_map)
  have check: "checkProjectedCalls [] calls = None"
    using dist set ids calls(3) by (intro checkProjectedCalls_ok) auto
  have find: "findGroup (expireLocked now s) (rgRoute g) None calls = Inr (Some g)"
    using findGroup_all[OF core' g', of "rgRoute g" calls None] set calls(1) by (simp add: routeEqual_def)
  have m: "fst (matchesProjection J g (rgAssistantContent g) calls original)"
    using len "match" by (simp add: matchesProjection_def)
  show ?thesis
    using open_ content calls(1) check find m
    by (cases original; cases "matchesProjection J g (rgAssistantContent g) calls False")
      (auto simp: resolve_def checkOpen_def resolveLocked_def Let_def)
qed

lemma publish_resolves:
  assumes inv: "replay_inv s" "rsMaxGroups s + 2 \<le> 2 ^ 64"
    and pub: "publish J now random request s = (s', random', Inr pub)"
    and recode: "\<And>raw v. canonicalReplayJSONValue J raw = Some v \<Longrightarrow> canonicalReplayJSONValue J v = Some v"
    and now': "now' < now + rsTTL s"
  shows "\<exists>g. (\<exists>s''. resolve J now' (prRoute request) (pubProjection pub) s' =
        (s'', Inr (cloneResponsesChatReplayResolution g responsesChatReplayProjectionVisible))) \<and>
      (\<exists>s'' m. resolve J now' (prRoute request) (pubOriginalProjection pub) s' =
        (s'', Inr (cloneResponsesChatReplayResolution g m))) \<and>
      rgId g = pubGroupID pub \<and> rgRoute g = prRoute request \<and> rgOutputItems g = prOutputItems request \<and>
      map (resolvedCall (rgOutputItems g)) (rgCalls g) = pubCalls pub \<and>
      rgCreatedAt g = now \<and> rgByteSize g = pubByteSize pub \<and>
      length (pubCalls pub) = length (prCalls request)"
proof -
  have open_: "\<not> rsClosed s" using pub by (auto simp: publish_def checkOpen_def)
  obtain p where p: "preparePublish J s request = Inr p" and lock: "publishLocked J now random p s = (s', random', Inr pub)"
    using pub open_ by (auto simp: publish_def checkOpen_def split: sum.splits)
  note pf = preparePublish_facts[OF p] and pc = prepared_calls[OF p]
  let ?s = "expireLocked now s"
  from lock open_ show ?thesis
  proof (cases rule: publishLocked_cases)
    case (published nonce random1 random2 ids)
    let ?g = "publishedGroup now p ids ?s" and ?k = "nextGroupIDLocked ?s"
    let ?t = "insertGroup ?g ?s"
    note new = published_insert[OF inv(1) open_ prepared_ok[OF p] inv(2) published(1)]
    have fresh: "length ids = length (pgCalls p)" "\<forall>q \<in> set ids. trimSpace q = q \<and> q \<noteq> ''''"
      using callIDs_fresh[OF published(1)] by auto
    have lim: "replayLimits ?t = replayLimits s" "replayLimits s' = replayLimits s"
      using expire_limits[of now s] published(2) by (simp_all add: insertGroup_facts(1) enforceLocked(1))
    have fits: "1 \<le> rsMaxGroups ?t" "rgByteSize ?g \<le> rsMaxTotalBytes ?t"
      using inv(1) pf(10) lim(1) by (auto simp: replay_inv_def replayLimits_def publishedGroup_def)
    have idk: "rgId ?g = ?k" by (simp add: publishedGroup_def)
    have there: "gm_get (rsGroups s') ?k = Some ?g"
      unfolding published(2) enforceLimitsLocked_def
      using enforce_newest[OF new(1) insertGroup_facts(2,3) fits] by (simp only: idk)
    have core: "replay_core s'" using enforceLocked(2)[OF new(1)] published(2) by simp
    have open': "\<not> rsClosed s'" using open_ lim(2) by (simp add: replayLimits_def)
    have exp: "now' < rgExpiresAt ?g"
      using now' expire_limits[of now s] by (simp add: publishedGroup_def replayLimits_def)
    have content: "canonicalReplayJSONValue J (pgAssistantContent p) = Some (rgAssistantContent ?g)"
      using recode[OF pf(3)] by (simp add: publishedGroup_def)
    have idsg: "replayIDs ?g = ids" by (rule replayIDs_published[OF fresh(1)])
    have calls: "rgCalls ?g = map2 storedCall (pgCalls p) ids" "rgRoute ?g = prRoute request"
      by (simp_all add: publishedGroup_def pf(1))
    have nonempty: "pgCalls p \<noteq> []" "ids \<noteq> []" using pc(1) pf(5) fresh(1) by auto
    define proj where "proj = (\<lambda>f. map2 (\<lambda>call proxyID. \<lparr>pcID = proxyID, pcName = ppName call,
        pcArguments = f call\<rparr>) (pgCalls p) ids :: responsesChatReplayProjectedCall list)"
    have proj: "proj f \<noteq> []" "map pcID (proj f) = replayIDs ?g" "\<forall>c \<in> set (proj f). trimSpace (pcName c) \<noteq> ''''" for f
      using nonempty fresh(1) idsg pc(5) by (auto simp: proj_def o_def split_def dest: set_zip_leftD)
    have made: "\<And>c. c \<in> set (pgCalls p) \<Longrightarrow> \<exists>u. prepareCall J (pgOutputItems p) u = Inr c" using pc(5) by blast
    have eqs: "pubProjection pub = \<lparr>apContent = pgAssistantContent p, apCalls = proj ppVisibleArguments\<rparr>"
      "pubOriginalProjection pub = \<lparr>apContent = pgAssistantContent p, apCalls = proj ppOriginalArguments\<rparr>"
      "pubGroupID pub = ?k" "pubByteSize pub = pgByteSize p"
      "pubCalls pub = map (resolvedCall (pgOutputItems p)) (map2 storedCall (pgCalls p) ids)"
      using published(3) by (simp_all add: proj_def)
    have res: "\<exists>m s''. resolve J now' (prRoute request) \<lparr>apContent = pgAssistantContent p, apCalls = proj f\<rparr> s' =
        (s'', Inr (cloneResponsesChatReplayResolution ?g m)) \<and> (\<not> original \<longrightarrow> m = responsesChatReplayProjectionVisible)"
      if "matchesCalls J original (map2 storedCall (pgCalls p) ids) (proj f) = (True, '''')" for f original
      using resolve_published[OF core there open' exp content proj, of original f] fresh(2) that
      by (simp add: idsg calls)
    have "\<exists>s''. resolve J now' (prRoute request) (pubProjection pub) s' =
        (s'', Inr (cloneResponsesChatReplayResolution ?g responsesChatReplayProjectionVisible))"
      using res[of False ppVisibleArguments] matchesCalls_published[OF fresh(1) made] by (auto simp: eqs proj_def)
    moreover have "\<exists>s'' m. resolve J now' (prRoute request) (pubOriginalProjection pub) s' =
        (s'', Inr (cloneResponsesChatReplayResolution ?g m))"
      using res[of True ppOriginalArguments] matchesCalls_published[OF fresh(1) made] by (auto simp: eqs proj_def)
    ultimately show ?thesis
      using fresh(1) pc(1) by (intro exI[of _ ?g]) (simp add: eqs publishedGroup_def pf(1,2))
  qed simp
qed

end
