(* ===== verification/Replay_Properties.thy ===== *)
theory Replay_Properties
  imports Replay_Invariant
begin

text \<open>
  The claims on the replay store: what every reachable state has, what a prepared group is,
  that a published turn can be resolved again, and that nothing else can.
\<close>

section \<open>A concrete store\<close>

definition exReplayJson :: replayJson where
  "exReplayJson = \<lparr>rjValid = (\<lambda>_. True), rjType = (\<lambda>_. Some ''function_call''),
     rjCall = (\<lambda>_. Some (''function_call'', ''u'', ''n'', '''')), rjRecode = (\<lambda>_. Some ''''),
     rjObject = (\<lambda>_. Some None), rjEncodeObject = (\<lambda>_. None), rjSha = exSha\<rparr>"

definition exReplayRequest :: responsesChatReplayPublishRequest where
  "exReplayRequest = \<lparr>prRoute = \<lparr>rrProviderID = ''p'', rrPublicModel = ''m'', rrUpstreamModel = '''',
       rrRouteID = '''', rrPolicyTier = ''''\<rparr>,
     prAssistantContent = '''', prOutputItems = [''x''],
     prCalls = [\<lparr>ucUpstreamCallID = ''u'', ucName = ''n'', ucVisibleArguments = '''', ucOriginalArguments = None,
       ucOutputItemIndex = 0, ucOptionalDefaults = []\<rparr>]\<rparr>"

definition exReplayRandom :: "string option list" where
  "exReplayRandom = [Some (replicate 16 (CHR ''r''))]"

lemma exReplay_published:
  "\<exists>s' random' pub. publish exReplayJson 0 exReplayRandom exReplayRequest newResponsesChatReplayStore =
     (s', random', Inr pub)"
proof -
  have trim: "trimSpace [c] = [c]" if "idChar c" for c using trim_id[of "[c]"] that by simp
  have chars: "idChar CHR ''p''" "idChar CHR ''m''" "idChar CHR ''u''" "idChar CHR ''n''" "idChar CHR ''x''"
    by (simp_all add: idChar_def)
  have notself: "responsesChatReplaySelfDescribingIDWithNonce sha ''u'' nonce = None" for sha nonce
    by (simp add: responsesChatReplaySelfDescribingIDWithNonce_def responsesChatReplayUpstreamIDMarker_def)
  have size: "responsesChatReplayMintedIDSize sha ''u'' = 33" for sha
    by (simp add: responsesChatReplayMintedIDSize_def responsesChatReplaySelfDescribingID_def notself
        responsesChatReplayIDLength_def responsesChatReplayCallIDPrefix_def)
  have limits: "newResponsesChatReplayStore = \<lparr>rsGroups = [], rsCallsByID = [], rsLru = [], rsTotalBytes = 0,
      rsNextGroupID = 0, rsClosed = False, rsTTL = responsesChatReplayTTL, rsMaxGroups = 2048,
      rsMaxGroupBytes = 2097152, rsMaxTotalBytes = 67108864, rsMaxItems = 256, rsMaxCalls = 128\<rparr>"
    by (simp add: newResponsesChatReplayStore_def newResponsesChatReplayStoreWithOptions_def
        responsesChatReplayMaxGroups_def responsesChatReplayMaxGroupBytes_def responsesChatReplayMaxTotalBytes_def
        responsesChatReplayMaxItems_def responsesChatReplayMaxCalls_def)
  obtain p where p: "preparePublish exReplayJson newResponsesChatReplayStore exReplayRequest = Inr p"
    "map ppUpstreamCallID (pgCalls p) = [''u'']"
    by (simp add: preparePublish_def exReplayRequest_def exReplayJson_def trim chars prepareCall_def Let_def
        canonicalReplayJSONValue_def canonicalReplayArguments_def replayGroupByteSize_def limits size
        replayOptionalDefaultsAbsentFromArguments_def replayOptionalDefaultsByteSize_def)
  then obtain c where c: "pgCalls p = [c]" "ppUpstreamCallID c = ''u''" by auto
  let ?s = "expireLocked 0 newResponsesChatReplayStore"
  have s: "rsCallsByID ?s = []" by (simp add: limits expireLocked_def)
  let ?bs = "replicate 16 (CHR ''r'')"
  have "generateOpaqueCallID (Suc n) ?s [] exReplayRandom = (Inr (opaqueCallID ?bs), [])" for n
    using opaque_facts(1)[of ?bs]
    by (simp add: exReplayRandom_def readFull_def responsesChatReplayRandomBytes_def s Let_def
        responsesChatReplayIDLength_def responsesChatReplayCallIDPrefix_def)
  from this[of 1023] have "generateCallIDs exReplayJson ?s [] nonce (pgCalls p) exReplayRandom = (Inr [opaqueCallID ?bs], [])"
    for nonce
    by (simp add: c generateUniqueCallIDLocked_def notself responsesChatReplayMaxIDAttempts_def)
  moreover have "generateSelfIDNonceLocked exReplayJson (pgCalls p) exReplayRandom = (Inr '''', exReplayRandom)"
    by (simp add: generateSelfIDNonceLocked_def c responsesChatReplaySelfDescribingID_def notself)
  moreover have "\<not> rsClosed newResponsesChatReplayStore" by (simp add: limits)
  ultimately show ?thesis using p(1) by (simp add: publish_def checkOpen_def publishLocked_def Let_def)
qed

text \<open>C26. In every state a replay store can get into, by any sequence of publications, resolutions,
  statistics, expiries and closing: the recency list is a permutation of the stored groups, an
  identifier is bound exactly to the group that has the call, no two groups share an identifier, the byte count is
  the sum over the groups, and both limits hold.\<close>

theorem replay_store_consistent:
  assumes "soMaxGroups options < 2 ^ 63"
    "(replay_step J)\<^sup>*\<^sup>* (newResponsesChatReplayStoreWithOptions options) s"
  shows "distinct (rsLru s) \<and> set (rsLru s) = dom (gm_get (rsGroups s)) \<and>
    (\<forall>c gid. gm_get (rsCallsByID s) c = Some gid \<longleftrightarrow>
       (\<exists>g. gm_get (rsGroups s) gid = Some g \<and> c \<in> scProxyCallID ` set (rgCalls g))) \<and>
    rsTotalBytes s = sum_list (map (\<lambda>p. rgByteSize (snd p)) (rsGroups s)) \<and>
    rsTotalBytes s \<le> rsMaxTotalBytes s \<and> int (length (rsGroups s)) \<le> rsMaxGroups s \<and>
    (rsClosed s \<longrightarrow> rsGroups s = [] \<and> rsCallsByID s = [])"
proof -
  have "replay_inv s" using replay_machine.reachable_inv[of _ J s] assms by blast
  then have inv: "replay_core s" "rsTotalBytes s \<le> rsMaxTotalBytes s" "int (length (rsGroups s)) \<le> rsMaxGroups s"
    "rsClosed s \<longrightarrow> rsGroups s = []" by (auto simp: replay_inv_def)
  have none: "rsCallsByID s = []" if "rsGroups s = []"
    using inv(1) that by (cases "rsCallsByID s") (auto simp: replay_core_def split: if_splits)
  show ?thesis using inv none
    by (auto simp: replay_core_def replayIDs_def groupsBytes_def lru_ok_def dom_map_of_conv_image_fst)
qed

lemma replay_store_consistent_witness:
  "rsTotalBytes (replayClose newResponsesChatReplayStore) \<le> rsMaxTotalBytes (replayClose newResponsesChatReplayStore)"
  using replay_store_consistent[of "\<lparr>soTTL = 0, soMaxGroups = 0, soMaxGroupBytes = 0, soMaxTotalBytes = 0,
      soMaxItems = 0, soMaxCalls = 0\<rparr>" exReplayJson "replayClose newResponsesChatReplayStore",
    OF _ r_into_rtranclp[of "replay_step exReplayJson"]] step_close[of exReplayJson newResponsesChatReplayStore]
  by (simp add: newResponsesChatReplayStore_def)

text \<open>C38. A group that passes preparation is well formed: its calls point, in strictly ascending
  order, at distinct output items, each of which decodes to exactly that call; every
  function call among the items is mapped; the upstream identifiers are distinct; and all
  limits of the store are met. This is what the locked part of a publication relies on.\<close>

theorem prepared_group_well_formed:
  assumes "preparePublish J s request = Inr p"
  shows "pgRoute p = prRoute request \<and> pgOutputItems p = prOutputItems request \<and>
    length (pgCalls p) = length (prCalls request) \<and>
    sorted_wrt (<) (map ppOutputItemIndex (pgCalls p)) \<and> distinct (map ppUpstreamCallID (pgCalls p)) \<and>
    (\<forall>c \<in> set (pgCalls p). ppOutputItemIndex c < length (pgOutputItems p) \<and>
       rjCall J (pgOutputItems p ! ppOutputItemIndex c) =
         Some (''function_call'', ppUpstreamCallID c, ppName c, ppOriginalArguments c)) \<and>
    (\<forall>i < length (pgOutputItems p). rjType J (pgOutputItems p ! i) = Some ''function_call'' \<longrightarrow>
       i \<in> ppOutputItemIndex ` set (pgCalls p)) \<and>
    pgCalls p \<noteq> [] \<and> int (length (pgCalls p)) \<le> rsMaxCalls s \<and> int (length (pgOutputItems p)) \<le> rsMaxItems s \<and>
    0 \<le> pgByteSize p \<and> pgByteSize p \<le> rsMaxGroupBytes s \<and> pgByteSize p \<le> rsMaxTotalBytes s"
  using preparePublish_facts[OF assms] prepared_calls[OF assms] prepareCall_facts(3)
    prepared_ok[OF assms] unfolding prepared_ok_def by blast

lemma prepared_group_well_formed_witness:
  "\<exists>p. preparePublish exReplayJson newResponsesChatReplayStore exReplayRequest = Inr p \<and>
     length (pgCalls p) = 1 \<and> pgByteSize p \<le> rsMaxGroupBytes newResponsesChatReplayStore"
proof -
  have "\<exists>p. preparePublish exReplayJson newResponsesChatReplayStore exReplayRequest = Inr p"
    using exReplay_published by (auto simp: publish_def split: option.splits sum.splits)
  then obtain p where "preparePublish exReplayJson newResponsesChatReplayStore exReplayRequest = Inr p" ..
  with prepared_group_well_formed[OF this] show ?thesis by (auto simp: exReplayRequest_def)
qed

lemma replay_reachable:
  assumes "soMaxGroups options < 2 ^ 63"
    "(replay_step J)\<^sup>*\<^sup>* (newResponsesChatReplayStoreWithOptions options) s"
  shows "replay_inv s" "rsMaxGroups s + 2 \<le> 2 ^ 64"
  using replay_machine.reachable_inv[of _ J s] assms by blast+

text \<open>C25. Round trip: right after a publication, whatever it had to evict, the projection it
  returned resolves for the same route, within the time to live, as the visible one; and so does the
  projection with the original arguments. Either way the caller gets back the group number, all output items
  and all calls it published. The one assumption on the JSON library is that an encoding it
  produced is its own canonical form.\<close>

theorem publish_then_resolve:
  assumes "soMaxGroups options < 2 ^ 63"
    "(replay_step J)\<^sup>*\<^sup>* (newResponsesChatReplayStoreWithOptions options) s"
    "publish J now random request s = (s', random', Inr pub)"
    "\<forall>raw v. canonicalReplayJSONValue J raw = Some v \<longrightarrow> canonicalReplayJSONValue J v = Some v"
    "now' < now + rsTTL s"
  shows "\<exists>res. (\<exists>s''. resolve J now' (prRoute request) (pubProjection pub) s' = (s'', Inr res)) \<and>
      (\<exists>s'' m. resolve J now' (prRoute request) (pubOriginalProjection pub) s' =
         (s'', Inr (res\<lparr>resProjectionMatch := m\<rparr>))) \<and>
      resProjectionMatch res = responsesChatReplayProjectionVisible \<and> resGroupID res = pubGroupID pub \<and>
      resRoute res = prRoute request \<and> resOutputItems res = prOutputItems request \<and> resCalls res = pubCalls pub \<and>
      length (resCalls res) = length (prCalls request) \<and> resCreatedAt res = now \<and> resByteSize res = pubByteSize pub"
proof -
  obtain g where g: "\<exists>s''. resolve J now' (prRoute request) (pubProjection pub) s' =
        (s'', Inr (cloneResponsesChatReplayResolution g responsesChatReplayProjectionVisible))"
    "\<exists>s'' m. resolve J now' (prRoute request) (pubOriginalProjection pub) s' =
        (s'', Inr (cloneResponsesChatReplayResolution g m))"
    "rgId g = pubGroupID pub" "rgRoute g = prRoute request" "rgOutputItems g = prOutputItems request"
    "map (resolvedCall (rgOutputItems g)) (rgCalls g) = pubCalls pub"
    "rgCreatedAt g = now" "rgByteSize g = pubByteSize pub" "length (pubCalls pub) = length (prCalls request)"
    using publish_resolves[OF replay_reachable[OF assms(1,2)] assms(3) _ assms(5)] assms(4) by blast
  then show ?thesis
    by (intro exI[of _ "cloneResponsesChatReplayResolution g responsesChatReplayProjectionVisible"])
      (auto simp: cloneResponsesChatReplayResolution_def)
qed

lemma exReplay_canonical:
  "\<forall>raw v. canonicalReplayJSONValue exReplayJson raw = Some v \<longrightarrow> canonicalReplayJSONValue exReplayJson v = Some v"
  by (auto simp: canonicalReplayJSONValue_def exReplayJson_def Let_def split: if_splits)

lemma publish_then_resolve_witness:
  "\<exists>s' (pub :: responsesChatReplayPublished) res s''. resolve exReplayJson 1 (prRoute exReplayRequest) (pubProjection pub) s' = (s'', Inr res) \<and>
     resOutputItems res = [''x'']"
proof -
  obtain s' random' pub where pub:
    "publish exReplayJson 0 exReplayRandom exReplayRequest newResponsesChatReplayStore = (s', random', Inr pub)"
    using exReplay_published by blast
  let ?o = "\<lparr>soTTL = 0, soMaxGroups = 0, soMaxGroupBytes = 0, soMaxTotalBytes = 0, soMaxItems = 0, soMaxCalls = 0\<rparr>"
  have init: "soMaxGroups ?o < 2 ^ 63" by simp
  have start: "(replay_step exReplayJson)\<^sup>*\<^sup>* (newResponsesChatReplayStoreWithOptions ?o) newResponsesChatReplayStore"
    by (simp add: newResponsesChatReplayStore_def)
  have ttl: "1 < 0 + rsTTL newResponsesChatReplayStore"
    by (simp add: newResponsesChatReplayStore_def newResponsesChatReplayStoreWithOptions_def responsesChatReplayTTL_def)
  have items: "prOutputItems exReplayRequest = [''x'']" by (simp add: exReplayRequest_def)
  from publish_then_resolve[OF init start pub exReplay_canonical ttl] show ?thesis unfolding items by blast
qed

section \<open>Nothing else resolves\<close>

lemma findGroup_sound:
  "findGroup s route grp calls = Inr (Some g) \<Longrightarrow>
   (\<And>h. grp = Some h \<Longrightarrow> gm_get (rsGroups s) (rgId h) = Some h \<and> rgRoute h = route) \<Longrightarrow> replay_core s \<Longrightarrow>
   gm_get (rsGroups s) (rgId g) = Some g \<and> rgRoute g = route"
proof (induction calls arbitrary: grp)
  case (Cons call calls)
  obtain gid where gid: "gm_get (rsCallsByID s) (pcID call) = Some gid"
    using Cons.prems(1) by (cases "gm_get (rsCallsByID s) (pcID call)") simp_all
  obtain c where c: "gm_get (rsGroups s) gid = Some c"
    using Cons.prems(1) gid by (cases "gm_get (rsGroups s) gid") simp_all
  have "rgId c = gid" using c Cons.prems(3) by (simp add: replay_core_def group_ok_def)
  moreover have "rgRoute c = route" using Cons.prems(1) gid c by (cases grp) (simp_all add: routeEqual_def split: if_splits)
  moreover have rest: "findGroup s route (case grp of None \<Rightarrow> Some c | Some h \<Rightarrow> Some h) calls = Inr (Some g)"
    using Cons.prems(1) gid c by (cases grp) (simp_all split: if_splits)
  ultimately have "gm_get (rsGroups s) (rgId h) = Some h \<and> rgRoute h = route"
    if "(case grp of None \<Rightarrow> Some c | Some h \<Rightarrow> Some h) = Some h" for h
    using that Cons.prems(2) c by (cases grp) simp_all
  from Cons.IH[OF rest this Cons.prems(3)] show ?case .
qed simp

lemma matchesCalls_sound:
  "length stored = length calls \<Longrightarrow> fst (matchesCalls J original stored calls) \<Longrightarrow>
   map pcID calls = map scProxyCallID stored \<and> map pcName calls = map scName stored \<and>
   list_all2 (\<lambda>st c. \<exists>v. canonicalReplayArguments J (pcArguments c) = Some v \<and>
     matchesHash J (pcArguments c) (rjSha J v) (if original then scOriginalHash st else scVisibleHash st)
       (if original then scOriginalDefaults st else scVisibleDefaults st)) stored calls"
  by (induction stored calls rule: list_induct2) (auto simp: Let_def split: if_splits option.splits)

text \<open>C11. Resolution fails closed: what it returns is a live group of exactly the route asked
  for, whose identifiers and tool names, in order, are those of the projection, whose assistant content is
  the canonical form of the content sent, and each of whose calls has the argument hash on
  file, as sent or after removal of optional defaults. A projection that mixes groups, reorders, drops or adds a
  call, or edits the text, the tool or its arguments gets an error.\<close>

theorem resolve_fails_closed:
  assumes "soMaxGroups options < 2 ^ 63"
    "(replay_step J)\<^sup>*\<^sup>* (newResponsesChatReplayStoreWithOptions options) s"
    "resolve J now route projection s = (s', Inr res)"
  shows "\<exists>g. gm_get (rsGroups s) (resGroupID res) = Some g \<and> \<not> rsClosed s \<and> now < rgExpiresAt g \<and> rgRoute g = route \<and>
    map pcID (apCalls projection) = map scProxyCallID (rgCalls g) \<and>
    map pcName (apCalls projection) = map scName (rgCalls g) \<and>
    canonicalReplayJSONValue J (apContent projection) = Some (rgAssistantContent g) \<and>
    list_all2 (\<lambda>stored call. \<exists>v. canonicalReplayArguments J (pcArguments call) = Some v \<and>
      (if resProjectionMatch res = responsesChatReplayProjectionVisible
       then matchesHash J (pcArguments call) (rjSha J v) (scVisibleHash stored) (scVisibleDefaults stored)
       else matchesHash J (pcArguments call) (rjSha J v) (scOriginalHash stored) (scOriginalDefaults stored)))
      (rgCalls g) (apCalls projection) \<and>
    resOutputItems res = rgOutputItems g"
proof -
  let ?s = "expireLocked now s" and ?calls = "apCalls projection"
  have core: "replay_core s" using replay_reachable(1)[OF assms(1,2)] by (simp add: replay_inv_def)
  obtain content where content: "canonicalReplayJSONValue J (apContent projection) = Some content"
    and lock: "resolveLocked J now route content ?calls s = (s', Inr res)"
    using assms(3) by (auto simp: resolve_def split: option.splits if_splits)
  have open_: "\<not> rsClosed s" using lock by (auto simp: resolveLocked_def split: if_splits)
  obtain g where find: "findGroup ?s route None ?calls = Inr (Some g)"
    using lock open_ by (auto simp: resolveLocked_def Let_def split: sum.splits option.splits)
  have g: "gm_get (rsGroups ?s) (rgId g) = Some g" "rgRoute g = route"
    using findGroup_sound[OF find _ expire_core[OF core]] by auto
  obtain original m where "match": "fst (matchesProjection J g content ?calls original)"
    and res: "res = cloneResponsesChatReplayResolution g m" "original = (m = responsesChatReplayProjectionOriginal)"
    using lock open_ find
    by (auto simp: resolveLocked_def Let_def split: prod.splits if_splits) (metis responsesChatReplayProjectionMatch.distinct(1) fst_conv)+
  have len: "length (rgCalls g) = length ?calls" and eq: "rgAssistantContent g = content"
    and calls: "fst (matchesCalls J original (rgCalls g) ?calls)"
    using "match" by (auto simp: matchesProjection_def split: if_splits)
  have "gm_get (rsGroups s) (rgId g) = Some g" "now < rgExpiresAt g"
    using g(1) by (auto simp: expire_groups[OF core] split: option.splits if_splits)
  moreover have "m = responsesChatReplayProjectionVisible \<longleftrightarrow> \<not> original"
    using res(2) by (cases m) auto
  ultimately show ?thesis
    using matchesCalls_sound[OF len calls] content eq g(2) open_ res(1)
    by (intro exI[of _ g]) (cases original; simp add: cloneResponsesChatReplayResolution_def)
qed

lemma resolve_fails_closed_witness:
  "\<exists>s s' (pub :: responsesChatReplayPublished) res g. resolve exReplayJson 1 (prRoute exReplayRequest) (pubProjection pub) s = (s', Inr res) \<and>
     gm_get (rsGroups s) (resGroupID res) = Some g \<and> 1 < rgExpiresAt g"
proof -
  let ?o = "\<lparr>soTTL = 0, soMaxGroups = 0, soMaxGroupBytes = 0, soMaxTotalBytes = 0, soMaxItems = 0, soMaxCalls = 0\<rparr>"
  obtain s random' pub where pub:
    "publish exReplayJson 0 exReplayRandom exReplayRequest newResponsesChatReplayStore = (s, random', Inr pub)"
    using exReplay_published by blast
  have init: "soMaxGroups ?o < 2 ^ 63" by simp
  have start: "(replay_step exReplayJson)\<^sup>*\<^sup>* (newResponsesChatReplayStoreWithOptions ?o) newResponsesChatReplayStore"
    by (simp add: newResponsesChatReplayStore_def)
  have ttl: "1 < 0 + rsTTL newResponsesChatReplayStore"
    by (simp add: newResponsesChatReplayStore_def newResponsesChatReplayStoreWithOptions_def responsesChatReplayTTL_def)
  obtain s' res where res: "resolve exReplayJson 1 (prRoute exReplayRequest) (pubProjection pub) s = (s', Inr res)"
    using publish_resolves[OF replay_reachable[OF init start] pub _ ttl] exReplay_canonical by blast
  have "replay_step exReplayJson newResponsesChatReplayStore s"
    using pub step_publish[of exReplayJson newResponsesChatReplayStore exReplayRequest _ 0 exReplayRandom]
    by (auto simp: publish_def split: option.splits sum.splits)
  then have "(replay_step exReplayJson)\<^sup>*\<^sup>* (newResponsesChatReplayStoreWithOptions ?o) s"
    using start by (auto simp: newResponsesChatReplayStore_def)
  from resolve_fails_closed[OF init this res] res show ?thesis by blast
qed

end
