(* ===== verification/Policy_Classifier.thy ===== *)
theory Policy_Classifier
  imports Retry_After
begin

text \<open>
  The classifier of policy models (\<open>proxy/chat_policy_classifier.go\<close>, the answers of TypeSafe endpoints of
  \<open>proxy/chat_policy_typesafe.go\<close> and the request counters of \<open>proxy/chat_policy_facts.go\<close>): modes, tiers, signals, the reading of a classifier answer and
  the mapping of its outcome to a tier.

  \<open>encoding/json\<close> is the record \<open>policyJson\<close>: \<open>pjMembers\<close> gives the members of exactly one
  object in order, duplicates included, \<open>pjElements\<close> the elements of exactly one array (none for
  null), \<open>pjString\<close> the result of decoding into a string, \<open>pjMarshalString\<close> and \<open>pjMarshalObject\<close> the
  encoding of a string and of an object of raw members. Every malformed answer has one and the same
  failure in the code, whatever the cause text, so the cause is left out.
\<close>

section \<open>Modes and tiers\<close>

type_synonym policyMode = "8 word"
type_synonym policyTier = "8 word"

definition policyModeOff :: policyMode where "policyModeOff = 0"
definition policyModeObserve :: policyMode where "policyModeObserve = 1"
definition policyModeEnforce :: policyMode where "policyModeEnforce = 2"

definition policyTierUnknown :: policyTier where "policyTierUnknown = 0"
definition policyTierLightweight :: policyTier where "policyTierLightweight = 1"
definition policyTierPowerful :: policyTier where "policyTierPowerful = 2"

lemmas policy_enum_defs = policyModeOff_def policyModeObserve_def policyModeEnforce_def
  policyTierUnknown_def policyTierLightweight_def policyTierPowerful_def

definition policyModeString :: "policyMode \<Rightarrow> string" where
  "policyModeString m =
     (if m = policyModeOff then ''off'' else if m = policyModeObserve then ''observe''
      else if m = policyModeEnforce then ''enforce'' else '''')"

definition parsePolicyMode :: "string \<Rightarrow> policyMode option" where
  "parsePolicyMode value =
     (let v = trimSpace value
      in if v = '''' \<or> v = ''off'' then Some policyModeOff
         else if v = ''observe'' then Some policyModeObserve
         else if v = ''enforce'' then Some policyModeEnforce else None)"

definition policyModeValid :: "policyMode \<Rightarrow> bool" where
  "policyModeValid m \<longleftrightarrow> m = policyModeOff \<or> m = policyModeObserve \<or> m = policyModeEnforce"

definition effectivePolicyMode :: "policyMode \<Rightarrow> policyMode \<Rightarrow> policyMode" where
  "effectivePolicyMode global profile =
     (if \<not> policyModeValid global \<or> \<not> policyModeValid profile \<or> global = policyModeOff \<or> profile = policyModeOff
      then policyModeOff
      else if global = policyModeObserve then policyModeObserve else profile)"

definition policyTierString :: "policyTier \<Rightarrow> string" where
  "policyTierString t =
     (if t = policyTierLightweight then ''lightweight'' else if t = policyTierPowerful then ''powerful'' else '''')"

definition parsePolicyTier :: "string \<Rightarrow> policyTier option" where
  "parsePolicyTier value =
     (let v = trimSpace value
      in if v = ''lightweight'' then Some policyTierLightweight
         else if v = ''powerful'' then Some policyTierPowerful else None)"

section \<open>Signals\<close>

record policyClassifierSignals =
  sgAbstain :: bool
  sgTurnType :: string
  sgCodeScope :: string
  sgToolCallCountEstimate :: int
  sgModifyingToolCallCountEstimate :: int
  sgRequiresCodebaseContext :: bool
  sgRiskLevel :: string

definition noSignals :: policyClassifierSignals where
  "noSignals = \<lparr>sgAbstain = False, sgTurnType = '''', sgCodeScope = '''', sgToolCallCountEstimate = 0,
     sgModifyingToolCallCountEstimate = 0, sgRequiresCodebaseContext = False, sgRiskLevel = ''''\<rparr>"

definition policyTurnTypes :: "string list" where
  "policyTurnTypes = [''chitchat'', ''lookup'', ''execution'', ''exploration'', ''edit'', ''planning'', ''debug'',
     ''review'', ''other'']"

definition policyCodeScopes :: "string list" where
  "policyCodeScopes = [''none'', ''single_line'', ''function'', ''file'', ''multi_file'', ''cross_module'', ''unknown'']"

definition policyRiskLevels :: "string list" where
  "policyRiskLevels = [''low'', ''medium'', ''high'']"

definition validatePolicyClassifierSignals :: "policyClassifierSignals \<Rightarrow> string option" where
  "validatePolicyClassifierSignals signals =
     (if sgTurnType signals \<notin> set policyTurnTypes then Some ''invalid turn_type''
      else if sgCodeScope signals \<notin> set policyCodeScopes then Some ''invalid code_scope''
      else if sgRiskLevel signals \<notin> set policyRiskLevels then Some ''invalid risk_level''
      else if sgToolCallCountEstimate signals < 0 \<or> sgToolCallCountEstimate signals > 128
      then Some ''invalid tool_call_count_estimate''
      else if sgModifyingToolCallCountEstimate signals < 0 \<or> sgModifyingToolCallCountEstimate signals > 128
      then Some ''invalid modifying_tool_call_count_estimate''
      else None)"

text \<open>Of the facts, what the mapping and the plans read.\<close>

record policyFactTruncation =
  ftAnchors :: bool
  ftCurrentUserTask :: bool
  ftRecentMessages :: bool
  ftFunctionTools :: bool
  ftSerializedBudget :: bool

record policyClassifierFacts =
  cfHasCurrentUserTask :: bool
  cfTruncation :: policyFactTruncation

definition taskTruncated :: "policyClassifierFacts \<Rightarrow> bool" where
  "taskTruncated f \<longleftrightarrow> ftCurrentUserTask (cfTruncation f) \<or>
     (\<not> cfHasCurrentUserTask f \<and> (ftAnchors (cfTruncation f) \<or> ftRecentMessages (cfTruncation f)))"

definition factsTruncated :: "policyClassifierFacts \<Rightarrow> bool" where
  "factsTruncated f \<longleftrightarrow> ftAnchors (cfTruncation f) \<or> ftCurrentUserTask (cfTruncation f) \<or>
     ftRecentMessages (cfTruncation f) \<or> ftFunctionTools (cfTruncation f) \<or> ftSerializedBudget (cfTruncation f)"

definition mapPolicySignals :: "policyClassifierSignals \<Rightarrow> policyClassifierFacts \<Rightarrow> policyTier" where
  "mapPolicySignals signals facts =
     (if sgAbstain signals \<or> validatePolicyClassifierSignals signals \<noteq> None then policyTierPowerful
      else if sgTurnType signals \<in> set [''planning'', ''debug'', ''review'', ''exploration''] then policyTierPowerful
      else if sgCodeScope signals \<in> set [''multi_file'', ''cross_module'', ''unknown''] then policyTierPowerful
      else if sgRiskLevel signals = ''high'' \<or> sgModifyingToolCallCountEstimate signals \<ge> 2 \<or>
              sgRequiresCodebaseContext signals \<or> taskTruncated facts
      then policyTierPowerful
      else policyTierLightweight)"

section \<open>Failures and results\<close>

datatype policyClassifierFailureCategory =
    policyClassifierFailureNone | policyClassifierFailureProfileCapacity | policyClassifierFailureGlobalCapacity
  | policyClassifierFailureBreakerOpen | policyClassifierFailureTransport | policyClassifierFailureTimeout
  | policyClassifierFailureCanceled | policyClassifierFailureRateLimited | policyClassifierFailureUpstream5xx
  | policyClassifierFailureUpstreamRejected | policyClassifierFailureMissingToolCall
  | policyClassifierFailureInvalidOutput | policyClassifierFailureAbstained | policyClassifierFailureInternal

record policyClassifierFailure =
  cfaCategory :: policyClassifierFailureCategory
  cfaStatusCode :: int
  cfaRetryAfter :: string
  cfaHTTPAccepted :: bool
  cfaAffectsBreaker :: bool

definition classifierFailure :: "policyClassifierFailureCategory \<Rightarrow> policyClassifierFailure" where
  "classifierFailure c = \<lparr>cfaCategory = c, cfaStatusCode = 0, cfaRetryAfter = '''', cfaHTTPAccepted = False,
     cfaAffectsBreaker = False\<rparr>"

text \<open>The errors a classifier returns: its own, which carries the failure, or a foreign one of which
  \<open>errors.Is\<close> sees whether it is the cancellation or the deadline of a context.\<close>

datatype classifierError = ClassifierError policyClassifierFailure | ForeignError (isCanceled: bool) (isDeadline: bool)

fun policyClassifierFailureFromError :: "classifierError option \<Rightarrow> policyClassifierFailure" where
  "policyClassifierFailureFromError None = classifierFailure policyClassifierFailureNone"
| "policyClassifierFailureFromError (Some (ClassifierError failure)) = failure"
| "policyClassifierFailureFromError (Some (ForeignError canceled deadline)) =
     (if canceled then classifierFailure policyClassifierFailureCanceled
      else if deadline then classifierFailure policyClassifierFailureTimeout
      else classifierFailure policyClassifierFailureInternal)"

datatype policyClassifierResultCategory =
    policyClassifierResultUnknown | policyClassifierResultClassified | policyClassifierResultUnavailable
  | policyClassifierResultUncertain | policyClassifierResultCanceled

record policyClassifierResult =
  crCategory :: policyClassifierResultCategory
  crSignals :: policyClassifierSignals
  crFailure :: policyClassifierFailure
  crAdmitted :: bool

definition newPolicyClassifierResult ::
  "policyClassifierSignals \<Rightarrow> classifierError option \<Rightarrow> policyClassifierResult" where
  "newPolicyClassifierResult signals err =
     (if err \<noteq> None then
        let failure = policyClassifierFailureFromError err;
            category = (if cfaCategory failure = policyClassifierFailureCanceled then policyClassifierResultCanceled
              else if cfaCategory failure \<in> {policyClassifierFailureMissingToolCall,
                  policyClassifierFailureInvalidOutput, policyClassifierFailureAbstained}
              then policyClassifierResultUncertain
              else policyClassifierResultUnavailable)
        in \<lparr>crCategory = category, crSignals = noSignals, crFailure = failure, crAdmitted = False\<rparr>
      else if sgAbstain signals then
        \<lparr>crCategory = policyClassifierResultUncertain, crSignals = signals,
         crFailure = (classifierFailure policyClassifierFailureAbstained)\<lparr>cfaHTTPAccepted := True\<rparr>, crAdmitted = False\<rparr>
      else if validatePolicyClassifierSignals signals \<noteq> None then
        \<lparr>crCategory = policyClassifierResultUncertain, crSignals = signals,
         crFailure = (classifierFailure policyClassifierFailureInvalidOutput)\<lparr>cfaHTTPAccepted := True\<rparr>,
         crAdmitted = False\<rparr>
      else \<lparr>crCategory = policyClassifierResultClassified, crSignals = signals,
         crFailure = classifierFailure policyClassifierFailureNone, crAdmitted = False\<rparr>)"

text \<open>\<open>None\<close> is \<open>ok = false\<close>: no route is authorized.\<close>

definition mapPolicyClassifierResult ::
  "policyClassifierResult \<Rightarrow> policyClassifierFacts \<Rightarrow> policyTier \<Rightarrow> policyTier \<Rightarrow> policyTier option" where
  "mapPolicyClassifierResult result facts unavailableTier uncertainTier =
     (case crCategory result of
        policyClassifierResultCanceled \<Rightarrow> None
      | policyClassifierResultUnavailable \<Rightarrow> Some unavailableTier
      | policyClassifierResultUncertain \<Rightarrow> Some uncertainTier
      | policyClassifierResultClassified \<Rightarrow>
          if sgAbstain (crSignals result) \<or> validatePolicyClassifierSignals (crSignals result) \<noteq> None
          then Some uncertainTier
          else Some (mapPolicySignals (crSignals result) facts)
      | policyClassifierResultUnknown \<Rightarrow> Some uncertainTier)"

section \<open>Reading a classifier answer\<close>

record policyJson =
  pjMembers :: "string \<Rightarrow> (string \<times> string) list option"
  pjElements :: "string \<Rightarrow> string list option"
  pjString :: "string \<Rightarrow> string option"
  pjMarshalString :: "string \<Rightarrow> string"
  pjMarshalObject :: "(string, string) gomap \<Rightarrow> string option"

definition missingPolicyClassifierToolCall :: classifierError where
  "missingPolicyClassifierToolCall =
     ClassifierError ((classifierFailure policyClassifierFailureMissingToolCall)\<lparr>cfaHTTPAccepted := True\<rparr>)"

definition invalidPolicyClassifierOutput :: classifierError where
  "invalidPolicyClassifierOutput =
     ClassifierError ((classifierFailure policyClassifierFailureInvalidOutput)\<lparr>cfaHTTPAccepted := True\<rparr>)"

definition decodePolicyClassifierObject :: "policyJson \<Rightarrow> string \<Rightarrow> (string, string) gomap option" where
  "decodePolicyClassifierObject J raw =
     (case pjMembers J raw of
        None \<Rightarrow> None
      | Some members \<Rightarrow> if distinct (map fst members) then Some members else None)"

definition parsePolicyClassifierBoolean :: "string \<Rightarrow> bool option" where
  "parsePolicyClassifierBoolean raw =
     (let v = trimSpace raw in if v = ''true'' then Some True else if v = ''false'' then Some False else None)"

fun boundedDigits :: "int \<Rightarrow> string \<Rightarrow> int option" where
  "boundedDigits v [] = Some v"
| "boundedDigits v (c # rest) =
     (if \<not> isDigit c then None
      else let v' = v * 10 + digitVal c in if v' > 128 then None else boundedDigits v' rest)"

definition parsePolicyClassifierBoundedInteger :: "string \<Rightarrow> int option" where
  "parsePolicyClassifierBoundedInteger raw =
     (let trimmed = trimSpace raw
      in if trimmed = '''' then None
         else if length trimmed > 1 \<and> hd trimmed = CHR ''0'' then None
         else boundedDigits 0 trimmed)"

text \<open>One member of the arguments object; \<open>None\<close> is invalid output.\<close>

definition parseSignalField :: "policyJson \<Rightarrow> string \<Rightarrow> string \<Rightarrow> policyClassifierSignals \<Rightarrow> policyClassifierSignals option" where
  "parseSignalField J key raw s =
     (if key = ''abstain'' then map_option (\<lambda>v. s\<lparr>sgAbstain := v\<rparr>) (parsePolicyClassifierBoolean raw)
      else if key = ''turn_type'' then map_option (\<lambda>v. s\<lparr>sgTurnType := v\<rparr>) (pjString J raw)
      else if key = ''code_scope'' then map_option (\<lambda>v. s\<lparr>sgCodeScope := v\<rparr>) (pjString J raw)
      else if key = ''tool_call_count_estimate''
      then map_option (\<lambda>v. s\<lparr>sgToolCallCountEstimate := v\<rparr>) (parsePolicyClassifierBoundedInteger raw)
      else if key = ''modifying_tool_call_count_estimate''
      then map_option (\<lambda>v. s\<lparr>sgModifyingToolCallCountEstimate := v\<rparr>) (parsePolicyClassifierBoundedInteger raw)
      else if key = ''requires_codebase_context''
      then map_option (\<lambda>v. s\<lparr>sgRequiresCodebaseContext := v\<rparr>) (parsePolicyClassifierBoolean raw)
      else if key = ''risk_level'' then map_option (\<lambda>v. s\<lparr>sgRiskLevel := v\<rparr>) (pjString J raw)
      else None)"

fun parseSignalFields :: "policyJson \<Rightarrow> string list \<Rightarrow> (string \<times> string) list \<Rightarrow> policyClassifierSignals \<Rightarrow>
  (string list \<times> policyClassifierSignals) option" where
  "parseSignalFields J seen [] s = Some (seen, s)"
| "parseSignalFields J seen ((key, raw) # members) s =
     (if key \<in> set seen then None
      else case parseSignalField J key raw s of
        None \<Rightarrow> None
      | Some s' \<Rightarrow> parseSignalFields J (key # seen) members s')"

definition parsePolicyClassifierSignals :: "policyJson \<Rightarrow> string \<Rightarrow> classifierError + policyClassifierSignals" where
  "parsePolicyClassifierSignals J arguments =
     (case pjMembers J arguments of
        None \<Rightarrow> Inl invalidPolicyClassifierOutput
      | Some members \<Rightarrow>
          (case parseSignalFields J [] members noSignals of
             None \<Rightarrow> Inl invalidPolicyClassifierOutput
           | Some (seen, signals) \<Rightarrow>
               if length seen \<noteq> 7 then Inl invalidPolicyClassifierOutput
               else if validatePolicyClassifierSignals signals \<noteq> None then Inl invalidPolicyClassifierOutput
               else Inr signals))"

definition policyClassifierToolName :: string where
  "policyClassifierToolName = ''emit_policy_signals''"

definition parsePolicyClassifierCall :: "policyJson \<Rightarrow> string \<Rightarrow> classifierError + policyClassifierSignals" where
  "parsePolicyClassifierCall J rawCall =
     (case decodePolicyClassifierObject J rawCall of
        None \<Rightarrow> Inl invalidPolicyClassifierOutput
      | Some call \<Rightarrow>
          if (case gm_get call ''type'' of None \<Rightarrow> True | Some rawType \<Rightarrow> pjString J rawType \<noteq> Some ''function'')
          then Inl invalidPolicyClassifierOutput
          else case gm_get call ''function'' of
            None \<Rightarrow> Inl missingPolicyClassifierToolCall
          | Some rawFunction \<Rightarrow>
              (case decodePolicyClassifierObject J rawFunction of
                 None \<Rightarrow> Inl invalidPolicyClassifierOutput
               | Some function \<Rightarrow>
                   (case Option.bind (gm_get function ''name'') (pjString J) of
                      None \<Rightarrow> Inl invalidPolicyClassifierOutput
                    | Some name \<Rightarrow>
                        if name \<noteq> policyClassifierToolName then Inl invalidPolicyClassifierOutput
                        else case Option.bind (gm_get function ''arguments'') (pjString J) of
                          None \<Rightarrow> Inl invalidPolicyClassifierOutput
                        | Some arguments \<Rightarrow> parsePolicyClassifierSignals J arguments)))"

definition parsePolicyClassifierMessage :: "policyJson \<Rightarrow> string \<Rightarrow> classifierError + policyClassifierSignals" where
  "parsePolicyClassifierMessage J rawMessage =
     (case decodePolicyClassifierObject J rawMessage of
        None \<Rightarrow> Inl invalidPolicyClassifierOutput
      | Some message \<Rightarrow>
          (case gm_get message ''tool_calls'' of
             None \<Rightarrow> Inl missingPolicyClassifierToolCall
           | Some rawCalls \<Rightarrow>
               (case pjElements J rawCalls of
                  None \<Rightarrow> Inl invalidPolicyClassifierOutput
                | Some calls \<Rightarrow>
                    if calls = [] then Inl missingPolicyClassifierToolCall
                    else if length calls \<noteq> 1 then Inl invalidPolicyClassifierOutput
                    else parsePolicyClassifierCall J (hd calls))))"

definition parsePolicyClassifierResponse :: "policyJson \<Rightarrow> string \<Rightarrow> classifierError + policyClassifierSignals" where
  "parsePolicyClassifierResponse J body =
     (case decodePolicyClassifierObject J body of
        None \<Rightarrow> Inl invalidPolicyClassifierOutput
      | Some root \<Rightarrow>
          (case gm_get root ''choices'' of
             None \<Rightarrow> Inl missingPolicyClassifierToolCall
           | Some rawChoices \<Rightarrow>
               (case pjElements J rawChoices of
                  None \<Rightarrow> Inl invalidPolicyClassifierOutput
                | Some choices \<Rightarrow>
                    if choices = [] then Inl missingPolicyClassifierToolCall
                    else if length choices \<noteq> 1 then Inl invalidPolicyClassifierOutput
                    else case decodePolicyClassifierObject J (hd choices) of
                      None \<Rightarrow> Inl invalidPolicyClassifierOutput
                    | Some choice \<Rightarrow>
                        (case gm_get choice ''message'' of
                           None \<Rightarrow> Inl missingPolicyClassifierToolCall
                         | Some rawMessage \<Rightarrow> parsePolicyClassifierMessage J rawMessage))))"

section \<open>Reading the answer of a TypeSafe endpoint\<close>

text \<open>The type of a signal in the properties of \<open>policyClassifierSignalSchema\<close>.\<close>

datatype signalKind = signalString | signalBoolean | signalInteger

definition policyClassifierSignalProperties :: "(string \<times> signalKind) list" where
  "policyClassifierSignalProperties =
     [(''abstain'', signalBoolean), (''turn_type'', signalString), (''code_scope'', signalString),
      (''tool_call_count_estimate'', signalInteger), (''modifying_tool_call_count_estimate'', signalInteger),
      (''requires_codebase_context'', signalBoolean), (''risk_level'', signalString)]"

text \<open>\<open>strconv.Itoa\<close> of a number that is not negative.\<close>

fun itoa :: "nat \<Rightarrow> string" where
  "itoa n = (if n < 10 then [char_of (48 + n)] else itoa (n div 10) @ [char_of (48 + n mod 10)])"

declare itoa.simps [simp del]

text \<open>The raw member that one answer stands for; \<open>None\<close> is invalid output.\<close>

definition typeSafeSignal :: "policyJson \<Rightarrow> signalKind \<Rightarrow> string \<Rightarrow> string option" where
  "typeSafeSignal J kind rawAnswer =
     (case decodePolicyClassifierObject J rawAnswer of
        None \<Rightarrow> None
      | Some answer \<Rightarrow>
          if \<not> list_all (\<lambda>(field, _). field \<in> {''type'', ''choice'', ''probabilities'', ''confidence''}) answer then None
          else if Option.bind (gm_get answer ''type'') (pjString J) \<noteq> Some ''choice'' then None
          else case Option.bind (gm_get answer ''choice'') (pjString J) of
            None \<Rightarrow> None
          | Some choice \<Rightarrow>
              (case kind of
                 signalString \<Rightarrow> Some (pjMarshalString J choice)
               | signalBoolean \<Rightarrow> if choice \<noteq> ''true'' \<and> choice \<noteq> ''false'' then None else Some choice
               | signalInteger \<Rightarrow>
                   (case parsePolicyClassifierBoundedInteger choice of
                      None \<Rightarrow> None
                    | Some v \<Rightarrow> if itoa (nat v) \<noteq> choice then None else Some choice)))"

fun typeSafeSignals :: "policyJson \<Rightarrow> (string \<times> string) list \<Rightarrow> (string, string) gomap option" where
  "typeSafeSignals J [] = Some []"
| "typeSafeSignals J ((name, rawAnswer) # answers) =
     (case map_of policyClassifierSignalProperties name of
        None \<Rightarrow> None
      | Some kind \<Rightarrow>
          (case typeSafeSignal J kind rawAnswer of
             None \<Rightarrow> None
           | Some raw \<Rightarrow> map_option (\<lambda>signals. (name, raw) # signals) (typeSafeSignals J answers)))"

text \<open>The code goes over the answers in the order of a map; every failure is the same, so the order does
  not show.\<close>

definition parsePolicyTypeSafeResponse :: "policyJson \<Rightarrow> string \<Rightarrow> classifierError + policyClassifierSignals" where
  "parsePolicyTypeSafeResponse J body =
     (case decodePolicyClassifierObject J body of
        None \<Rightarrow> Inl invalidPolicyClassifierOutput
      | Some root \<Rightarrow>
          (case Option.bind (gm_get root ''answers'') (decodePolicyClassifierObject J) of
             None \<Rightarrow> Inl invalidPolicyClassifierOutput
           | Some answers \<Rightarrow>
               if length answers \<noteq> length policyClassifierSignalProperties then Inl invalidPolicyClassifierOutput
               else case typeSafeSignals J answers of
                 None \<Rightarrow> Inl invalidPolicyClassifierOutput
               | Some signals \<Rightarrow>
                   (case pjMarshalObject J signals of
                      None \<Rightarrow> Inl invalidPolicyClassifierOutput
                    | Some arguments \<Rightarrow> parsePolicyClassifierSignals J arguments)))"

section \<open>One classifier exchange\<close>

record policyHTTPClassifierOptions =
  hoModel :: string
  hoReasoningEffort :: string
  hoMaxCompletionTokens :: int
  hoMaxFactsBytes :: int
  hoMaxResponseBytes :: int

definition policyFactDefaultRequestBytes :: int where "policyFactDefaultRequestBytes = 16000"
definition policyFactMinRequestBytes :: int where "policyFactMinRequestBytes = 1024"
definition policyFactMaxRequestBytes :: int where "policyFactMaxRequestBytes = 65536"

text \<open>
  A classifier: its options after defaults and checks, and its \<open>parseResponse\<close>, which the two constructors
  set to the reader of a tool call or to the reader of choices. A missing callback is not represented.
\<close>

datatype policyResponseParser = chatToolsResponse | typeSafeResponse

fun parseResponse :: "policyResponseParser \<Rightarrow> policyJson \<Rightarrow> string \<Rightarrow> classifierError + policyClassifierSignals" where
  "parseResponse chatToolsResponse = parsePolicyClassifierResponse"
| "parseResponse typeSafeResponse = parsePolicyTypeSafeResponse"

record policyHTTPClassifier =
  hcOptions :: policyHTTPClassifierOptions
  hcParseResponse :: policyResponseParser

definition newPolicyHTTPClassifier :: "policyHTTPClassifierOptions \<Rightarrow> string + policyHTTPClassifier" where
  "newPolicyHTTPClassifier options =
     (let o1 = options\<lparr>hoModel := trimSpace (hoModel options),
            hoReasoningEffort := trimSpace (hoReasoningEffort options),
            hoMaxCompletionTokens := (if hoMaxCompletionTokens options = 0 then 256 else hoMaxCompletionTokens options)\<rparr>
      in if hoMaxCompletionTokens o1 < 32 \<or> hoMaxCompletionTokens o1 > 1024
         then Inl ''max_completion_tokens must be in 32..1024''
         else let o2 = o1\<lparr>hoMaxFactsBytes := (if hoMaxFactsBytes o1 = 0 then policyFactDefaultRequestBytes
                                             else hoMaxFactsBytes o1)\<rparr>
           in if hoMaxFactsBytes o2 < policyFactMinRequestBytes \<or> hoMaxFactsBytes o2 > policyFactMaxRequestBytes
              then Inl ''max_facts_bytes must be in 1024..65536''
              else let o3 = o2\<lparr>hoMaxResponseBytes := (if hoMaxResponseBytes o2 = 0 then 65536 else hoMaxResponseBytes o2)\<rparr>
                in if hoMaxResponseBytes o3 < 1024 then Inl ''max_response_bytes must be at least 1024''
                   else Inr \<lparr>hcOptions = o3, hcParseResponse = chatToolsResponse\<rparr>)"

definition newPolicyTypeSafeClassifier :: "policyHTTPClassifierOptions \<Rightarrow> string + policyHTTPClassifier" where
  "newPolicyTypeSafeClassifier options =
     (if hoReasoningEffort options \<noteq> '''' then Inl ''TypeSafe classification does not support reasoning_effort''
      else if hoMaxCompletionTokens options \<noteq> 0
      then Inl ''TypeSafe classification does not support max_completion_tokens''
      else case newPolicyHTTPClassifier options of
        Inl err \<Rightarrow> Inl err
      | Inr classifier \<Rightarrow> Inr (classifier\<lparr>hcParseResponse := typeSafeResponse\<rparr>))"

record policyClassifierHTTPResponse =
  hrStatusCode :: int
  hrRetryAfter :: string
  hrBody :: string

text \<open>The error of a send: whether it wraps the deadline error, and whether it affects the breaker
  (\<open>policyClassifierSendAffectsBreaker\<close>).\<close>

record classifierSendError =
  seDeadline :: bool
  seAffectsBreaker :: bool

text \<open>The receiver may be nil (\<open>None\<close>). \<open>built\<close> is whether the request could be built, \<open>ctx\<close> the error of
  the context after the send.\<close>

definition Classify :: "policyJson \<Rightarrow> policyHTTPClassifier option \<Rightarrow> bool \<Rightarrow>
  (classifierSendError + policyClassifierHTTPResponse) \<Rightarrow> ctxErr option \<Rightarrow> classifierError + policyClassifierSignals" where
  "Classify J receiver built sent ctx =
     (case receiver of
        None \<Rightarrow> Inl (ClassifierError (classifierFailure policyClassifierFailureInternal))
      | Some c \<Rightarrow>
      if \<not> built then Inl (ClassifierError (classifierFailure policyClassifierFailureInternal))
      else case sent of
        Inl err \<Rightarrow>
          if ctx = Some ctxCanceled then Inl (ClassifierError (classifierFailure policyClassifierFailureCanceled))
          else if ctx = Some ctxDeadlineExceeded \<or> seDeadline err
          then Inl (ClassifierError (classifierFailure policyClassifierFailureTimeout))
          else Inl (ClassifierError ((classifierFailure policyClassifierFailureTransport)
                 \<lparr>cfaAffectsBreaker := seAffectsBreaker err\<rparr>))
      | Inr response \<Rightarrow>
          if hrStatusCode response = 429
          then Inl (ClassifierError ((classifierFailure policyClassifierFailureRateLimited)
                 \<lparr>cfaStatusCode := hrStatusCode response, cfaRetryAfter := hrRetryAfter response, cfaAffectsBreaker := True\<rparr>))
          else if hrStatusCode response \<ge> 500 \<and> hrStatusCode response \<le> 599
          then Inl (ClassifierError ((classifierFailure policyClassifierFailureUpstream5xx)
                 \<lparr>cfaStatusCode := hrStatusCode response, cfaAffectsBreaker := True\<rparr>))
          else if hrStatusCode response < 200 \<or> hrStatusCode response > 299
          then Inl (ClassifierError ((classifierFailure policyClassifierFailureUpstreamRejected)
                 \<lparr>cfaStatusCode := hrStatusCode response\<rparr>))
          else if int (length (hrBody response)) > hoMaxResponseBytes (hcOptions c) then Inl invalidPolicyClassifierOutput
          else parseResponse (hcParseResponse c) J (hrBody response))"

section \<open>Properties\<close>

text \<open>C35. The cheap tier has to be earned: with an error, an abstention or invalid signals it is used only
  where the profile configured it as the fallback, and with valid signals only for a short
  list of harmless requests: no planning, debugging, review or exploration, no change beyond one file, no high
  risk, at most one modifying tool call, no need for the code base and a task that was not cut off. A canceled
  classification, the one whose error carries a cancellation or is one, authorizes no tier at all.\<close>

theorem lightweight_is_earned:
  "let result = newPolicyClassifierResult signals err;
       tier = mapPolicyClassifierResult result facts unavailableTier uncertainTier
   in (tier = None \<longleftrightarrow> crCategory result = policyClassifierResultCanceled) \<and>
      (tier = None \<longleftrightarrow>
         (case err of
            None \<Rightarrow> False
          | Some (ClassifierError failure) \<Rightarrow> cfaCategory failure = policyClassifierFailureCanceled
          | Some (ForeignError canceled _) \<Rightarrow> canceled)) \<and>
      (tier = Some policyTierLightweight \<longleftrightarrow>
         (case crCategory result of
            policyClassifierResultClassified \<Rightarrow> err = None \<and> \<not> sgAbstain signals \<and>
              sgTurnType signals \<in> {''chitchat'', ''lookup'', ''execution'', ''edit'', ''other''} \<and>
              sgCodeScope signals \<in> {''none'', ''single_line'', ''function'', ''file''} \<and>
              sgRiskLevel signals \<in> {''low'', ''medium''} \<and>
              sgToolCallCountEstimate signals \<in> {0..128} \<and> sgModifyingToolCallCountEstimate signals \<in> {0..1} \<and>
              \<not> sgRequiresCodebaseContext signals \<and> \<not> taskTruncated facts
          | policyClassifierResultUnavailable \<Rightarrow> err \<noteq> None \<and> unavailableTier = policyTierLightweight
          | policyClassifierResultUncertain \<Rightarrow>
              \<not> (err = None \<and> \<not> sgAbstain signals \<and> validatePolicyClassifierSignals signals = None) \<and>
              uncertainTier = policyTierLightweight
          | _ \<Rightarrow> False))"
proof -
  have turn: "sgTurnType signals \<in> set policyTurnTypes \<and> sgTurnType signals \<notin> set [''planning'', ''debug'', ''review'', ''exploration''] \<longleftrightarrow>
      sgTurnType signals \<in> {''chitchat'', ''lookup'', ''execution'', ''edit'', ''other''}"
    by (auto simp: policyTurnTypes_def)
  have scope: "sgCodeScope signals \<in> set policyCodeScopes \<and> sgCodeScope signals \<notin> set [''multi_file'', ''cross_module'', ''unknown''] \<longleftrightarrow>
      sgCodeScope signals \<in> {''none'', ''single_line'', ''function'', ''file''}"
    by (auto simp: policyCodeScopes_def)
  have risk: "sgRiskLevel signals \<in> set policyRiskLevels \<and> sgRiskLevel signals \<noteq> ''high'' \<longleftrightarrow>
      sgRiskLevel signals \<in> {''low'', ''medium''}"
    by (auto simp: policyRiskLevels_def)
  have tiers: "policyTierPowerful \<noteq> policyTierLightweight" by (simp add: policy_enum_defs)
  have earned: "mapPolicySignals signals facts = policyTierLightweight \<longleftrightarrow>
      sgTurnType signals \<in> {''chitchat'', ''lookup'', ''execution'', ''edit'', ''other''} \<and>
      sgCodeScope signals \<in> {''none'', ''single_line'', ''function'', ''file''} \<and>
      sgRiskLevel signals \<in> {''low'', ''medium''} \<and>
      sgToolCallCountEstimate signals \<in> {0..128} \<and> sgModifyingToolCallCountEstimate signals \<in> {0..1} \<and>
      \<not> sgRequiresCodebaseContext signals \<and> \<not> taskTruncated facts"
    if "\<not> sgAbstain signals"
    unfolding turn[symmetric] scope[symmetric] risk[symmetric]
    using that tiers by (auto simp: mapPolicySignals_def validatePolicyClassifierSignals_def split: if_splits)
  consider e where "err = Some e" | "err = None" "sgAbstain signals"
    | "err = None" "\<not> sgAbstain signals" "validatePolicyClassifierSignals signals \<noteq> None"
    | "err = None" "\<not> sgAbstain signals" "validatePolicyClassifierSignals signals = None" by (cases err) auto
  then show ?thesis
  proof cases
    case 1
    then show ?thesis
      by (cases e) (auto simp: Let_def newPolicyClassifierResult_def mapPolicyClassifierResult_def classifierFailure_def)
  next
    case 4
    then show ?thesis using earned
      by (simp add: Let_def newPolicyClassifierResult_def mapPolicyClassifierResult_def)
  qed (simp_all add: Let_def newPolicyClassifierResult_def mapPolicyClassifierResult_def)
qed

lemma signals_valid:
  "parsePolicyClassifierSignals J a = Inr s \<Longrightarrow> validatePolicyClassifierSignals s = None"
  "parsePolicyClassifierSignals J a = Inl e \<Longrightarrow> e = invalidPolicyClassifierOutput"
  by (auto simp: parsePolicyClassifierSignals_def split: option.splits if_splits)

lemma call_valid:
  "parsePolicyClassifierCall J c = Inr s \<Longrightarrow> validatePolicyClassifierSignals s = None"
  "parsePolicyClassifierCall J c = Inl e \<Longrightarrow> e \<in> {missingPolicyClassifierToolCall, invalidPolicyClassifierOutput}"
  using signals_valid by (fastforce simp: parsePolicyClassifierCall_def split: option.splits if_splits)+

lemma message_valid:
  "parsePolicyClassifierMessage J m = Inr s \<Longrightarrow> validatePolicyClassifierSignals s = None"
  "parsePolicyClassifierMessage J m = Inl e \<Longrightarrow> e \<in> {missingPolicyClassifierToolCall, invalidPolicyClassifierOutput}"
  using call_valid by (fastforce simp: parsePolicyClassifierMessage_def split: option.splits if_splits)+

lemma response_valid:
  "parsePolicyClassifierResponse J b = Inr s \<Longrightarrow> validatePolicyClassifierSignals s = None"
  "parsePolicyClassifierResponse J b = Inl e \<Longrightarrow> e \<in> {missingPolicyClassifierToolCall, invalidPolicyClassifierOutput}"
  using message_valid by (fastforce simp: parsePolicyClassifierResponse_def split: option.splits if_splits)+

lemma typesafe_valid:
  "parsePolicyTypeSafeResponse J b = Inr s \<Longrightarrow> validatePolicyClassifierSignals s = None"
  "parsePolicyTypeSafeResponse J b = Inl e \<Longrightarrow> e = invalidPolicyClassifierOutput"
  using signals_valid by (fastforce simp: parsePolicyTypeSafeResponse_def split: option.splits if_splits)+

lemma parser_valid:
  "parseResponse parser J b = Inr s \<Longrightarrow> validatePolicyClassifierSignals s = None"
  "parseResponse parser J b = Inl e \<Longrightarrow> e \<in> {missingPolicyClassifierToolCall, invalidPolicyClassifierOutput}"
  using response_valid typesafe_valid by (cases parser; fastforce)+

text \<open>C36. One classifier exchange, all outcomes, for an answer in tool calls and for one in choices. Signals come back only from a 2xx answer within the size limit and
  they are always valid. A failure counts against the breaker exactly for a 429, a
  5xx or a send error marked so outside of cancellation and deadline; it is marked as an accepted exchange exactly when the
  answer was a 2xx, however malformed its body; it is never both.\<close>

theorem classifier_outcomes:
  "case Classify J receiver built sent ctx of
     Inr s \<Rightarrow> validatePolicyClassifierSignals s = None \<and> built \<and>
       (\<exists>c r. receiver = Some c \<and> sent = Inr r \<and> hrStatusCode r \<in> {200..299} \<and>
          int (length (hrBody r)) \<le> hoMaxResponseBytes (hcOptions c))
   | Inl (ForeignError _ _) \<Rightarrow> False
   | Inl (ClassifierError f) \<Rightarrow>
       (cfaAffectsBreaker f \<longleftrightarrow> receiver \<noteq> None \<and> built \<and>
          (case sent of
             Inl e \<Rightarrow> seAffectsBreaker e \<and> ctx = None \<and> \<not> seDeadline e
           | Inr r \<Rightarrow> hrStatusCode r = 429 \<or> hrStatusCode r \<in> {500..599})) \<and>
       (cfaHTTPAccepted f \<longleftrightarrow> receiver \<noteq> None \<and> built \<and> (\<exists>r. sent = Inr r \<and> hrStatusCode r \<in> {200..299})) \<and>
       \<not> (cfaAffectsBreaker f \<and> cfaHTTPAccepted f)"
proof (cases "built \<and> (\<exists>c r. receiver = Some c \<and> sent = Inr r \<and> hrStatusCode r \<in> {200..299} \<and>
    int (length (hrBody r)) \<le> hoMaxResponseBytes (hcOptions c))")
  case True
  then obtain c r where r: "receiver = Some c" "sent = Inr r" "hrStatusCode r \<in> {200..299}"
    "int (length (hrBody r)) \<le> hoMaxResponseBytes (hcOptions c)" by blast
  then have eq: "Classify J receiver built sent ctx = parseResponse (hcParseResponse c) J (hrBody r)"
    using True by (simp add: Classify_def)
  show ?thesis
  proof (cases "parseResponse (hcParseResponse c) J (hrBody r)")
    case (Inl e)
    then show ?thesis using parser_valid(2)[OF Inl] r True
      unfolding eq Inl by (auto simp: missingPolicyClassifierToolCall_def invalidPolicyClassifierOutput_def classifierFailure_def)
  next
    case (Inr s)
    then show ?thesis using parser_valid(1)[OF Inr] r True unfolding eq Inr by auto
  qed
next
  case False
  have ctx: "ctx = None \<or> ctx = Some ctxCanceled \<or> ctx = Some ctxDeadlineExceeded"
    by (cases ctx) (auto intro: ctxErr.exhaust)
  show ?thesis using False ctx
    by (cases sent; cases built; cases receiver)
      (auto simp: Classify_def classifierFailure_def invalidPolicyClassifierOutput_def)
qed

end
