(* ===== verification/Policy_Runtime.thy ===== *)
theory Policy_Runtime
  imports Complex_Main Policy_Classifier
begin

text \<open>
  The shared state around the policy classifier (\<open>proxy/chat_policy_runtime.go\<close>): the admission
  pools with their leases, the circuit breaker with its permits, the sampling of observations
  and one classification. A mutex-protected method is one step; the \<open>sync.Once\<close> of a lease or a permit is its
  \<open>Done\<close> flag; the zero time of \<open>openUntil\<close> is \<open>None\<close>. Missing (nil) controllers are not
  represented.
\<close>

section \<open>The circuit breaker\<close>

record policyBreaker =
  pbFailures :: int
  pbOpenUntil :: "gotime option"
  pbHalfOpenInFlight :: bool
  pbGeneration :: "64 word"

record policyBreakerPermit =
  ppDone :: bool
  ppHalfOpen :: bool
  ppGeneration :: "64 word"

definition policyBreakerFailureThreshold :: int where "policyBreakerFailureThreshold = 5"
definition policyBreakerCooldown :: goduration where "policyBreakerCooldown = 30 * second"

definition newPolicyBreaker :: policyBreaker where
  "newPolicyBreaker = \<lparr>pbFailures = 0, pbOpenUntil = None, pbHalfOpenInFlight = False, pbGeneration = 0\<rparr>"

definition breakerTryAcquire :: "gotime \<Rightarrow> policyBreaker \<Rightarrow> policyBreaker \<times> policyBreakerPermit option" where
  "breakerTryAcquire now b =
     (case pbOpenUntil b of
        Some openUntil \<Rightarrow>
          if now < openUntil then (b, None)
          else if pbHalfOpenInFlight b then (b, None)
          else (b\<lparr>pbHalfOpenInFlight := True\<rparr>,
                Some \<lparr>ppDone = False, ppHalfOpen = True, ppGeneration = pbGeneration b\<rparr>)
      | None \<Rightarrow> (b, Some \<lparr>ppDone = False, ppHalfOpen = False, ppGeneration = pbGeneration b\<rparr>))"

definition openLocked :: "gotime \<Rightarrow> policyBreaker \<Rightarrow> policyBreaker" where
  "openLocked until b =
     b\<lparr>pbOpenUntil := (case pbOpenUntil b of None \<Rightarrow> Some until | Some u \<Rightarrow> if until > u then Some until else Some u),
       pbFailures := policyBreakerFailureThreshold,
       pbHalfOpenInFlight := False,
       pbGeneration := pbGeneration b + 1\<rparr>"

definition recordSuccess :: "policyBreakerPermit \<Rightarrow> policyBreaker \<Rightarrow> policyBreakerPermit \<times> policyBreaker" where
  "recordSuccess p b =
     (if ppDone p then (p, b)
      else (p\<lparr>ppDone := True\<rparr>,
        if ppGeneration p \<noteq> pbGeneration b then b
        else
          let wasOpen = (ppHalfOpen p \<or> pbOpenUntil b \<noteq> None);
              b1 = b\<lparr>pbFailures := 0, pbOpenUntil := None, pbHalfOpenInFlight := False\<rparr>
          in if wasOpen then b1\<lparr>pbGeneration := pbGeneration b1 + 1\<rparr> else b1))"

definition releaseNeutral :: "policyBreakerPermit \<Rightarrow> policyBreaker \<Rightarrow> policyBreakerPermit \<times> policyBreaker" where
  "releaseNeutral p b =
     (if ppDone p then (p, b)
      else (p\<lparr>ppDone := True\<rparr>,
        if \<not> ppHalfOpen p then b
        else if ppGeneration p = pbGeneration b then b\<lparr>pbHalfOpenInFlight := False\<rparr> else b))"

definition parsePolicyBreakerRetryAfter :: "(string \<Rightarrow> gotime option) \<Rightarrow> string \<Rightarrow> gotime \<Rightarrow> goduration option" where
  "parsePolicyBreakerRetryAfter parseTime value now = parseRetryAfterAt parseTime value now"

definition recordFailure :: "(string \<Rightarrow> gotime option) \<Rightarrow> gotime \<Rightarrow> policyClassifierFailure \<Rightarrow> policyBreakerPermit \<Rightarrow>
  policyBreaker \<Rightarrow> policyBreakerPermit \<times> policyBreaker" where
  "recordFailure parseTime now failure p b =
     (if \<not> cfaAffectsBreaker failure then releaseNeutral p b
      else if ppDone p then (p, b)
      else (p\<lparr>ppDone := True\<rparr>,
        if ppGeneration p \<noteq> pbGeneration b then b
        else
          let b1 = b\<lparr>pbHalfOpenInFlight := False\<rparr>;
              after = (if cfaCategory failure = policyClassifierFailureRateLimited
                then parsePolicyBreakerRetryAfter parseTime (cfaRetryAfter failure) now else None)
          in case after of
            Some delay \<Rightarrow> openLocked (now + delay) b1
          | None \<Rightarrow>
              if ppHalfOpen p then openLocked (now + policyBreakerCooldown) b1
              else
                let b2 = b1\<lparr>pbFailures := pbFailures b1 + 1\<rparr>
                in if pbFailures b2 \<ge> policyBreakerFailureThreshold then openLocked (now + policyBreakerCooldown) b2
                   else b2))"

definition policyStatsBreakerClosed :: string where "policyStatsBreakerClosed = ''closed''"
definition policyStatsBreakerOpen :: string where "policyStatsBreakerOpen = ''open''"
definition policyStatsBreakerHalfOpen :: string where "policyStatsBreakerHalfOpen = ''half_open''"

definition breakerState :: "gotime \<Rightarrow> policyBreaker \<Rightarrow> string" where
  "breakerState now b =
     (if pbHalfOpenInFlight b then policyStatsBreakerHalfOpen
      else case pbOpenUntil b of
        Some u \<Rightarrow> if now < u then policyStatsBreakerOpen else policyStatsBreakerHalfOpen
      | None \<Rightarrow> policyStatsBreakerClosed)"

text \<open>The choice both callers of the classifier make with its result.\<close>

definition completePolicyBreakerPermit :: "(string \<Rightarrow> gotime option) \<Rightarrow> gotime \<Rightarrow> policyClassifierResult \<Rightarrow>
  classifierError option \<Rightarrow> policyBreakerPermit \<Rightarrow> policyBreaker \<Rightarrow> policyBreakerPermit \<times> policyBreaker" where
  "completePolicyBreakerPermit parseTime now result err p b =
     (if err = None then recordSuccess p b
      else if cfaHTTPAccepted (crFailure result) then recordSuccess p b
      else if cfaAffectsBreaker (crFailure result) then recordFailure parseTime now (crFailure result) p b
      else releaseNeutral p b)"

section \<open>Admission\<close>

text \<open>A pool is its capacity and the number of taken slots; releasing an empty one panics.\<close>

record policyAdmissionPool =
  poolCap :: nat
  poolUsed :: nat

definition poolTryAcquire :: "policyAdmissionPool \<Rightarrow> policyAdmissionPool \<times> bool" where
  "poolTryAcquire p = (if poolUsed p < poolCap p then (p\<lparr>poolUsed := poolUsed p + 1\<rparr>, True) else (p, False))"

definition poolRelease :: "policyAdmissionPool \<Rightarrow> policyAdmissionPool option" where
  "poolRelease p = (if poolUsed p = 0 then None else Some (p\<lparr>poolUsed := poolUsed p - 1\<rparr>))"

definition policyDefaultGlobalConcurrency :: int where "policyDefaultGlobalConcurrency = 32"
definition policyDefaultProfileConcurrency :: int where "policyDefaultProfileConcurrency = 4"

text \<open>The admissions of a process share the global pool; each is a profile pool. A lease names its
  profile pool and whether it was released.\<close>

record policyAdmissions =
  adGlobal :: policyAdmissionPool
  adProfiles :: "policyAdmissionPool list"
  adLeases :: "(nat \<times> bool) list"

definition newPolicyAdmission :: "int \<Rightarrow> int \<Rightarrow> policyAdmissions" where
  "newPolicyAdmission globalCap profileCap =
     (let g = (if globalCap \<le> 0 then policyDefaultGlobalConcurrency else globalCap);
          p = (if profileCap \<le> 0 then policyDefaultProfileConcurrency else profileCap)
      in \<lparr>adGlobal = \<lparr>poolCap = nat g, poolUsed = 0\<rparr>, adProfiles = [\<lparr>poolCap = nat p, poolUsed = 0\<rparr>], adLeases = []\<rparr>)"

definition forProfile :: "int \<Rightarrow> policyAdmissions \<Rightarrow> policyAdmissions" where
  "forProfile profileCap a =
     (let p = (if profileCap \<le> 0 then policyDefaultProfileConcurrency else profileCap)
      in a\<lparr>adProfiles := adProfiles a @ [\<lparr>poolCap = nat p, poolUsed = 0\<rparr>]\<rparr>)"

text \<open>\<open>None\<close> is a panic; the lease is its index in the list.\<close>

definition admissionTryAcquire :: "nat \<Rightarrow> policyAdmissions \<Rightarrow>
  (policyAdmissions \<times> (policyClassifierFailureCategory + nat)) option" where
  "admissionTryAcquire i a =
     (case poolTryAcquire (adProfiles a ! i) of
        (p, False) \<Rightarrow> Some (a, Inl policyClassifierFailureProfileCapacity)
      | (p, True) \<Rightarrow>
          (case poolTryAcquire (adGlobal a) of
             (g, False) \<Rightarrow>
               (case poolRelease p of
                  None \<Rightarrow> None
                | Some p' \<Rightarrow> Some (a\<lparr>adProfiles := (adProfiles a)[i := p']\<rparr>, Inl policyClassifierFailureGlobalCapacity))
           | (g, True) \<Rightarrow>
               Some (a\<lparr>adGlobal := g, adProfiles := (adProfiles a)[i := p], adLeases := adLeases a @ [(i, False)]\<rparr>,
                 Inr (length (adLeases a)))))"

definition leaseRelease :: "nat \<Rightarrow> policyAdmissions \<Rightarrow> policyAdmissions option" where
  "leaseRelease k a =
     (case adLeases a ! k of
        (i, True) \<Rightarrow> Some a
      | (i, False) \<Rightarrow>
          (case poolRelease (adGlobal a) of
             None \<Rightarrow> None
           | Some g \<Rightarrow>
               (case poolRelease (adProfiles a ! i) of
                  None \<Rightarrow> None
                | Some p \<Rightarrow> Some (a\<lparr>adGlobal := g, adProfiles := (adProfiles a)[i := p],
                    adLeases := (adLeases a)[k := (i, True)]\<rparr>))))"

section \<open>Sampling and classifying\<close>

text \<open>A sample rate is a float64. The 53-bit hash value over \<open>2 ^ 53\<close> is exact as a float64, so the
  comparison is the one of the rationals.\<close>

datatype goFloat = FloatNaN | FloatNegInf | FloatPosInf | FloatFinite rat

definition bigEndian64 :: "string \<Rightarrow> nat" where
  "bigEndian64 bs = fold (\<lambda>c n. n * 256 + of_char c) (take 8 bs) 0"

definition samplePart :: "string \<Rightarrow> string" where
  "samplePart v = map (\<lambda>i. char_of (length v div 256 ^ (7 - i) mod 256)) [0..<8] @ v"

definition deterministicPolicySample :: "(string \<Rightarrow> string) \<Rightarrow> string \<Rightarrow> string \<Rightarrow> goFloat \<Rightarrow> bool" where
  "deterministicPolicySample sha operationID policyID rate =
     (case rate of
        FloatNaN \<Rightarrow> False
      | FloatNegInf \<Rightarrow> False
      | FloatPosInf \<Rightarrow> True
      | FloatFinite r \<Rightarrow>
          if r \<le> 0 then False
          else if r \<ge> 1 then True
          else
            let v = bigEndian64 (sha (samplePart operationID @ samplePart policyID)) div 2 ^ 11
            in of_nat v / 2 ^ 53 < r)"

text \<open>
  A classification up to the call of the classifier, and what follows it. \<open>canceled\<close> and \<open>deadline\<close> say
  whether the context has that error. \<open>Inl\<close> is a result without a call.
\<close>

definition classifyStart :: "bool \<Rightarrow> bool \<Rightarrow> nat \<Rightarrow> gotime \<Rightarrow> policyAdmissions \<Rightarrow> policyBreaker \<Rightarrow>
  (policyAdmissions \<times> policyBreaker \<times> (policyClassifierResult + (nat \<times> policyBreakerPermit))) option" where
  "classifyStart canceled deadline profile now a b =
     (if canceled \<or> deadline
      then Some (a, b, Inl (newPolicyClassifierResult noSignals (Some (ForeignError canceled deadline))))
      else case admissionTryAcquire profile a of
        None \<Rightarrow> None
      | Some (a1, Inl failure) \<Rightarrow>
          Some (a1, b, Inl \<lparr>crCategory = policyClassifierResultUnavailable, crSignals = noSignals,
            crFailure = classifierFailure failure, crAdmitted = False\<rparr>)
      | Some (a1, Inr lease) \<Rightarrow>
          (case breakerTryAcquire now b of
             (b1, None) \<Rightarrow>
               map_option (\<lambda>a2. (a2, b1, Inl \<lparr>crCategory = policyClassifierResultUnavailable, crSignals = noSignals,
                 crFailure = classifierFailure policyClassifierFailureBreakerOpen, crAdmitted = False\<rparr>))
                 (leaseRelease lease a1)
           | (b1, Some permit) \<Rightarrow> Some (a1, b1, Inr (lease, permit))))"

definition classifyFinish :: "(string \<Rightarrow> gotime option) \<Rightarrow> gotime \<Rightarrow> nat \<Rightarrow> policyBreakerPermit \<Rightarrow>
  policyClassifierSignals \<Rightarrow> classifierError option \<Rightarrow> policyAdmissions \<Rightarrow> policyBreaker \<Rightarrow>
  (policyAdmissions \<times> policyBreaker \<times> policyBreakerPermit \<times> policyClassifierResult) option" where
  "classifyFinish parseTime now lease permit signals err a b =
     (let result = (newPolicyClassifierResult signals err)\<lparr>crAdmitted := True\<rparr>
      in case completePolicyBreakerPermit parseTime now result err permit b of
        (permit', b') \<Rightarrow> map_option (\<lambda>a'. (a', b', permit', result)) (leaseRelease lease a))"

section \<open>The breaker with its permits\<close>

text \<open>The states after \<open>n\<close> steps: permits handed out are never forgotten, and each may report at any time.\<close>

inductive breaker_run :: "(string \<Rightarrow> gotime option) \<Rightarrow> nat \<Rightarrow> policyBreaker \<Rightarrow> policyBreakerPermit list \<Rightarrow> bool"
  for parseTime :: "string \<Rightarrow> gotime option" where
  run_start: "breaker_run parseTime 0 newPolicyBreaker []"
| run_acquire: "breaker_run parseTime n b ps \<Longrightarrow> breakerTryAcquire now b = (b', r) \<Longrightarrow>
     breaker_run parseTime (Suc n) b' (ps @ (case r of None \<Rightarrow> [] | Some p \<Rightarrow> [p]))"
| run_success: "breaker_run parseTime n b ps \<Longrightarrow> i < length ps \<Longrightarrow> recordSuccess (ps ! i) b = (p, b') \<Longrightarrow>
     breaker_run parseTime (Suc n) b' (ps[i := p])"
| run_failure: "breaker_run parseTime n b ps \<Longrightarrow> i < length ps \<Longrightarrow>
     recordFailure parseTime now failure (ps ! i) b = (p, b') \<Longrightarrow> breaker_run parseTime (Suc n) b' (ps[i := p])"
| run_neutral: "breaker_run parseTime n b ps \<Longrightarrow> i < length ps \<Longrightarrow> releaseNeutral (ps ! i) b = (p, b') \<Longrightarrow>
     breaker_run parseTime (Suc n) b' (ps[i := p])"

definition liveProbe :: "policyBreaker \<Rightarrow> policyBreakerPermit \<Rightarrow> bool" where
  "liveProbe b p \<longleftrightarrow> \<not> ppDone p \<and> ppHalfOpen p \<and> ppGeneration p = pbGeneration b"

definition liveProbes :: "policyBreaker \<Rightarrow> policyBreakerPermit list \<Rightarrow> nat" where
  "liveProbes b ps = length (filter (liveProbe b) ps)"

definition breaker_inv :: "nat \<Rightarrow> policyBreaker \<Rightarrow> policyBreakerPermit list \<Rightarrow> bool" where
  "breaker_inv n b ps \<longleftrightarrow>
     unat (pbGeneration b) \<le> n \<and>
     (\<forall>p \<in> set ps. unat (ppGeneration p) \<le> unat (pbGeneration b) \<and>
        (ppGeneration p = pbGeneration b \<longrightarrow> ppHalfOpen p = (pbOpenUntil b \<noteq> None))) \<and>
     liveProbes b ps = (if pbHalfOpenInFlight b then 1 else 0) \<and>
     (pbOpenUntil b = None \<longrightarrow> \<not> pbHalfOpenInFlight b \<and> 0 \<le> pbFailures b \<and> pbFailures b < policyBreakerFailureThreshold) \<and>
     (pbOpenUntil b \<noteq> None \<longrightarrow> pbFailures b = policyBreakerFailureThreshold)"

lemma liveProbes_update:
  assumes "i < length ps" "\<not> liveProbe b p"
  shows "liveProbes b (ps[i := p]) = (if liveProbe b (ps ! i) then liveProbes b ps - 1 else liveProbes b ps)"
proof -
  have split: "ps = take i ps @ ps ! i # drop (Suc i) ps" using assms(1) by (rule id_take_nth_drop)
  have "ps[i := p] = take i ps @ p # drop (Suc i) ps" using assms(1) by (rule upd_conv_take_nth_drop)
  then show ?thesis using assms(2) by (subst (2) split, subst (3) split) (simp add: liveProbes_def)
qed

lemma liveProbes_zero:
  "(\<And>p. p \<in> set ps \<Longrightarrow> \<not> liveProbe b p) \<Longrightarrow> liveProbes b ps = 0"
  by (simp add: liveProbes_def filter_empty_conv)

lemma next_generation:
  fixes g :: "64 word"
  assumes "unat g \<le> n" "n < 2 ^ 64 - 1"
  shows "unat (g + 1) = unat g + 1"
  using assms by (simp add: unat_word_ariths(1))

text \<open>A step that starts a new generation: no permit belongs to it.\<close>

lemma new_generation_inv:
  assumes "breaker_inv n b ps" "n < 2 ^ 64 - 1" "i < length ps" "ppGeneration p = ppGeneration (ps ! i)"
    "pbGeneration b' = pbGeneration b + 1" "\<not> pbHalfOpenInFlight b'"
    "pbOpenUntil b' = None \<longrightarrow> pbFailures b' = 0"
    "pbOpenUntil b' \<noteq> None \<longrightarrow> pbFailures b' = policyBreakerFailureThreshold"
  shows "breaker_inv (Suc n) b' (ps[i := p])"
proof -
  have gen: "unat (pbGeneration b') = unat (pbGeneration b) + 1"
    unfolding assms(5) using assms(1,2) by (intro next_generation) (auto simp: breaker_inv_def)
  have old: "unat (ppGeneration q) \<le> unat (pbGeneration b)" if "q \<in> set (ps[i := p])" for q
  proof -
    from that have "q = p \<or> q \<in> set ps" using set_update_subset_insert[of ps i p] by blast
    then show ?thesis using assms(1,3,4) nth_mem[OF assms(3)] by (auto simp: breaker_inv_def)
  qed
  then have "ppGeneration q \<noteq> pbGeneration b'" if "q \<in> set (ps[i := p])" for q using gen that by fastforce
  then have "liveProbes b' (ps[i := p]) = 0" by (intro liveProbes_zero) (auto simp: liveProbe_def)
  then show ?thesis
    using assms old gen \<open>\<And>q. q \<in> set (ps[i := p]) \<Longrightarrow> ppGeneration q \<noteq> pbGeneration b'\<close>
    by (fastforce simp: breaker_inv_def policyBreakerFailureThreshold_def)
qed

text \<open>A step of a permit that stays in its generation.\<close>

lemma same_generation_inv:
  assumes "breaker_inv n b ps" "i < length ps" "p = (ps ! i)\<lparr>ppDone := True\<rparr>"
    "pbGeneration b' = pbGeneration b" "pbOpenUntil b' = pbOpenUntil b"
    "pbHalfOpenInFlight b' = (pbHalfOpenInFlight b \<and> \<not> liveProbe b (ps ! i))"
    "pbOpenUntil b = None \<longrightarrow> 0 \<le> pbFailures b' \<and> pbFailures b' < policyBreakerFailureThreshold"
    "pbOpenUntil b \<noteq> None \<longrightarrow> pbFailures b' = pbFailures b"
  shows "breaker_inv (Suc n) b' (ps[i := p])"
proof -
  have live: "liveProbe b' q = liveProbe b q" for q using assms(4) by (simp add: liveProbe_def)
  have "\<not> liveProbe b p" by (simp add: assms(3) liveProbe_def)
  from liveProbes_update[OF assms(2) this] have "liveProbes b' (ps[i := p]) = (if pbHalfOpenInFlight b' then 1 else 0)"
    using assms(1,2,6) liveProbes_zero[of ps b] nth_mem[OF assms(2)]
    by (auto simp: breaker_inv_def liveProbes_def live[abs_def] filter_empty_conv split: if_splits)
  moreover have "q = p \<or> q \<in> set ps" if "q \<in> set (ps[i := p])" for q
    using that set_update_subset_insert[of ps i p] by blast
  ultimately show ?thesis
    using assms nth_mem[OF assms(2)] by (fastforce simp: breaker_inv_def)
qed

lemma acquire_inv:
  assumes "breaker_inv n b ps" "breakerTryAcquire now b = (b', r)"
  shows "breaker_inv (Suc n) b' (ps @ (case r of None \<Rightarrow> [] | Some p \<Rightarrow> [p]))"
proof -
  have live: "liveProbe (b\<lparr>pbHalfOpenInFlight := x\<rparr>) = liveProbe b" for x by (simp add: liveProbe_def fun_eq_iff)
  show ?thesis
    using assms
    by (auto simp: breakerTryAcquire_def breaker_inv_def liveProbes_def live split: option.splits if_splits)
      (auto simp: liveProbe_def)
qed

lemma unchanged_inv: "breaker_inv n b ps \<Longrightarrow> p = ps ! i \<and> b' = b \<Longrightarrow> breaker_inv (Suc n) b' (ps[i := p])"
  by (auto simp: breaker_inv_def)

lemma neutral_inv:
  assumes "breaker_inv n b ps" "i < length ps" "releaseNeutral (ps ! i) b = (p, b')"
  shows "breaker_inv (Suc n) b' (ps[i := p])"
proof (cases "ppDone (ps ! i)")
  case True
  then show ?thesis using assms(3) by (intro unchanged_inv[OF assms(1)]) (simp add: releaseNeutral_def)
next
  case False
  then show ?thesis using assms
    by (intro same_generation_inv[OF assms(1,2)])
      (auto simp: releaseNeutral_def liveProbe_def breaker_inv_def split: if_splits)
qed

lemma success_inv:
  assumes "breaker_inv n b ps" "i < length ps" "recordSuccess (ps ! i) b = (p, b')" "n < 2 ^ 64 - 1"
  shows "breaker_inv (Suc n) b' (ps[i := p])"
proof -
  have half: "ppGeneration (ps ! i) = pbGeneration b \<Longrightarrow> ppHalfOpen (ps ! i) = (pbOpenUntil b \<noteq> None)"
    using assms(1,2) by (simp add: breaker_inv_def)
  consider "ppDone (ps ! i)" | "\<not> ppDone (ps ! i)" "ppGeneration (ps ! i) \<noteq> pbGeneration b"
    | "\<not> ppDone (ps ! i)" "ppGeneration (ps ! i) = pbGeneration b" "pbOpenUntil b = None"
    | "\<not> ppDone (ps ! i)" "ppGeneration (ps ! i) = pbGeneration b" "pbOpenUntil b \<noteq> None" by blast
  then show ?thesis
  proof cases
    case 1
    then show ?thesis using assms(3) by (intro unchanged_inv[OF assms(1)]) (simp add: recordSuccess_def)
  next
    case 2
    then show ?thesis using assms
      by (intro same_generation_inv[OF assms(1,2)]) (auto simp: recordSuccess_def liveProbe_def breaker_inv_def)
  next
    case 3
    then show ?thesis using assms half
      by (intro same_generation_inv[OF assms(1,2)])
        (auto simp: recordSuccess_def Let_def liveProbe_def breaker_inv_def policyBreakerFailureThreshold_def)
  next
    case 4
    then show ?thesis using assms half
      by (intro new_generation_inv[OF assms(1,4,2)]) (auto simp: recordSuccess_def Let_def)
  qed
qed

lemma openLocked_facts:
  "pbGeneration (openLocked u b) = pbGeneration b + 1" "\<not> pbHalfOpenInFlight (openLocked u b)"
  "pbOpenUntil (openLocked u b) \<noteq> None" "pbFailures (openLocked u b) = policyBreakerFailureThreshold"
  by (auto simp: openLocked_def split: option.splits)

lemma recordFailure_live:
  assumes "cfaAffectsBreaker failure" "\<not> ppDone p" "ppGeneration p = pbGeneration b"
  obtains (opened) u b1 where "recordFailure parseTime now failure p b = (p\<lparr>ppDone := True\<rparr>, openLocked u b1)"
      "pbGeneration b1 = pbGeneration b" "pbOpenUntil b1 = pbOpenUntil b"
  | (counted) "recordFailure parseTime now failure p b =
      (p\<lparr>ppDone := True\<rparr>, b\<lparr>pbHalfOpenInFlight := False, pbFailures := pbFailures b + 1\<rparr>)"
      "\<not> ppHalfOpen p" "pbFailures b + 1 < policyBreakerFailureThreshold"
proof -
  let ?b = "b\<lparr>pbHalfOpenInFlight := False\<rparr>"
  let ?after = "if cfaCategory failure = policyClassifierFailureRateLimited
    then parsePolicyBreakerRetryAfter parseTime (cfaRetryAfter failure) now else None"
  consider d where "?after = Some d" | "?after = None" "ppHalfOpen p"
    | "?after = None" "\<not> ppHalfOpen p" "pbFailures b + 1 \<ge> policyBreakerFailureThreshold"
    | "?after = None" "\<not> ppHalfOpen p" "pbFailures b + 1 < policyBreakerFailureThreshold"
    by (cases ?after) force+
  then show thesis
  proof cases
    case 1
    then show ?thesis using assms by (intro opened[of "now + d" ?b]) (simp_all add: recordFailure_def Let_def)
  next
    case 2
    then show ?thesis using assms
      by (intro opened[of "now + policyBreakerCooldown" ?b]) (simp_all add: recordFailure_def Let_def)
  next
    case 3
    then show ?thesis using assms
      by (intro opened[of "now + policyBreakerCooldown" "?b\<lparr>pbFailures := pbFailures b + 1\<rparr>"])
        (simp_all add: recordFailure_def Let_def)
  next
    case 4
    then show ?thesis using assms by (intro counted) (simp_all add: recordFailure_def Let_def)
  qed
qed

lemma failure_inv:
  assumes "breaker_inv n b ps" "i < length ps" "recordFailure parseTime now failure (ps ! i) b = (p, b')" "n < 2 ^ 64 - 1"
  shows "breaker_inv (Suc n) b' (ps[i := p])"
proof -
  consider "\<not> cfaAffectsBreaker failure" | "cfaAffectsBreaker failure" "ppDone (ps ! i)"
    | "cfaAffectsBreaker failure" "\<not> ppDone (ps ! i)" "ppGeneration (ps ! i) \<noteq> pbGeneration b"
    | "cfaAffectsBreaker failure" "\<not> ppDone (ps ! i)" "ppGeneration (ps ! i) = pbGeneration b" by blast
  then show ?thesis
  proof cases
    case 1
    then show ?thesis using assms neutral_inv by (simp add: recordFailure_def)
  next
    case 2
    then show ?thesis using assms(3) by (intro unchanged_inv[OF assms(1)]) (simp add: recordFailure_def)
  next
    case 3
    then show ?thesis using assms
      by (intro same_generation_inv[OF assms(1,2)]) (auto simp: recordFailure_def liveProbe_def breaker_inv_def)
  next
    case 4
    have half: "ppHalfOpen (ps ! i) = (pbOpenUntil b \<noteq> None)"
      using assms(1,2) 4 by (simp add: breaker_inv_def)
    from 4(1,2,3) show ?thesis
    proof (cases rule: recordFailure_live[of failure "ps ! i" b parseTime now])
      case (opened u b1)
      then show ?thesis using assms(3)
        by (intro new_generation_inv[OF assms(1,4,2)]) (auto simp: openLocked_facts)
    next
      case counted
      then show ?thesis using assms half
        by (intro same_generation_inv[OF assms(1,2)]) (auto simp: liveProbe_def breaker_inv_def)
    qed
  qed
qed

lemma breaker_run_inv: "breaker_run parseTime n b ps \<Longrightarrow> n < 2 ^ 64 \<Longrightarrow> breaker_inv n b ps"
proof (induction rule: breaker_run.induct)
  case run_start
  then show ?case by (simp add: breaker_inv_def newPolicyBreaker_def liveProbes_def policyBreakerFailureThreshold_def)
qed (auto intro: acquire_inv success_inv failure_inv neutral_inv)

section \<open>The admissions\<close>

inductive admission_step :: "policyAdmissions \<Rightarrow> policyAdmissions \<Rightarrow> bool" where
  step_profile: "admission_step a (forProfile cap a)"
| step_acquire: "i < length (adProfiles a) \<Longrightarrow> admissionTryAcquire i a = Some (a', r) \<Longrightarrow> admission_step a a'"
| step_release: "k < length (adLeases a) \<Longrightarrow> leaseRelease k a = Some a' \<Longrightarrow> admission_step a a'"

definition heldLeases :: "policyAdmissions \<Rightarrow> (nat \<times> bool) list" where
  "heldLeases a = filter (\<lambda>l. \<not> snd l) (adLeases a)"

definition admission_inv :: "policyAdmissions \<Rightarrow> bool" where
  "admission_inv a \<longleftrightarrow>
     poolUsed (adGlobal a) = length (heldLeases a) \<and> poolUsed (adGlobal a) \<le> poolCap (adGlobal a) \<and>
     (\<forall>i < length (adProfiles a).
        poolUsed (adProfiles a ! i) = length (filter (\<lambda>l. fst l = i) (heldLeases a)) \<and>
        poolUsed (adProfiles a ! i) \<le> poolCap (adProfiles a ! i)) \<and>
     (\<forall>l \<in> set (adLeases a). fst l < length (adProfiles a))"

lemma held_release:
  assumes "k < length ls" "ls ! k = (i, False)"
  shows "length (filter (\<lambda>l. \<not> snd l \<and> P (fst l)) (ls[k := (i, True)])) =
      length (filter (\<lambda>l. \<not> snd l \<and> P (fst l)) ls) - (if P i then 1 else 0)"
    "P i \<Longrightarrow> 0 < length (filter (\<lambda>l. \<not> snd l \<and> P (fst l)) ls)"
proof -
  have split: "ls = take k ls @ (i, False) # drop (Suc k) ls" using id_take_nth_drop[OF assms(1)] assms(2) by simp
  have upd: "ls[k := (i, True)] = take k ls @ (i, True) # drop (Suc k) ls" using assms(1) by (rule upd_conv_take_nth_drop)
  show "length (filter (\<lambda>l. \<not> snd l \<and> P (fst l)) (ls[k := (i, True)])) =
      length (filter (\<lambda>l. \<not> snd l \<and> P (fst l)) ls) - (if P i then 1 else 0)"
    unfolding upd by (subst (3) split) simp
  show "P i \<Longrightarrow> 0 < length (filter (\<lambda>l. \<not> snd l \<and> P (fst l)) ls)"
    by (subst split) simp
qed

lemma acquire_total:
  assumes "admission_inv a" "i < length (adProfiles a)"
  shows "\<exists>a' r. admissionTryAcquire i a = Some (a', r) \<and> admission_inv a'"
proof (cases "poolUsed (adProfiles a ! i) < poolCap (adProfiles a ! i)")
  case False
  then show ?thesis using assms by (simp add: admissionTryAcquire_def poolTryAcquire_def)
next
  case True
  show ?thesis
  proof (cases "poolUsed (adGlobal a) < poolCap (adGlobal a)")
    case False
    then show ?thesis using True assms by (simp add: admissionTryAcquire_def poolTryAcquire_def poolRelease_def)
  next
    case g: True
    let ?a = "a\<lparr>adGlobal := (adGlobal a)\<lparr>poolUsed := poolUsed (adGlobal a) + 1\<rparr>,
      adProfiles := (adProfiles a)[i := (adProfiles a ! i)\<lparr>poolUsed := poolUsed (adProfiles a ! i) + 1\<rparr>],
      adLeases := adLeases a @ [(i, False)]\<rparr>"
    have "admissionTryAcquire i a = Some (?a, Inr (length (adLeases a)))"
      using True g by (simp add: admissionTryAcquire_def poolTryAcquire_def)
    moreover have "admission_inv ?a"
      using assms True g by (auto simp: admission_inv_def heldLeases_def nth_list_update)
    ultimately show ?thesis by blast
  qed
qed

lemma release_total:
  assumes "admission_inv a" "k < length (adLeases a)"
  shows "\<exists>a'. leaseRelease k a = Some a' \<and> admission_inv a'"
proof -
  obtain i d where l: "adLeases a ! k = (i, d)" by fastforce
  show ?thesis
  proof (cases d)
    case True
    then show ?thesis using l assms by (simp add: leaseRelease_def)
  next
    case False
    then have lk: "adLeases a ! k = (i, False)" using l by simp
    have i: "i < length (adProfiles a)" using assms lk nth_mem[OF assms(2)] by (auto simp: admission_inv_def)
    have eqs: "heldLeases b = filter (\<lambda>l. \<not> snd l \<and> True) (adLeases b)"
      "filter (\<lambda>l. fst l = j) (heldLeases b) = filter (\<lambda>l. \<not> snd l \<and> fst l = j) (adLeases b)" for b j
      by (simp_all add: heldLeases_def conj_commute)
    have g: "0 < poolUsed (adGlobal a)" "0 < poolUsed (adProfiles a ! i)"
      using assms i held_release(2)[OF assms(2) lk, of "\<lambda>_. True"] held_release(2)[OF assms(2) lk, of "\<lambda>x. x = i"]
      by (auto simp: admission_inv_def eqs)
    let ?a = "a\<lparr>adGlobal := (adGlobal a)\<lparr>poolUsed := poolUsed (adGlobal a) - 1\<rparr>,
      adProfiles := (adProfiles a)[i := (adProfiles a ! i)\<lparr>poolUsed := poolUsed (adProfiles a ! i) - 1\<rparr>],
      adLeases := (adLeases a)[k := (i, True)]\<rparr>"
    have step: "leaseRelease k a = Some ?a" using g lk by (simp add: leaseRelease_def poolRelease_def)
    have "fst l < length (adProfiles a)" if "l \<in> set ((adLeases a)[k := (i, True)])" for l
      using that assms(1) i set_update_subset_insert[of "adLeases a" k "(i, True)"] by (auto simp: admission_inv_def)
    then have "admission_inv ?a"
      using assms g held_release(1)[OF assms(2) lk, of "\<lambda>_. True"] held_release(1)[OF assms(2) lk, of "\<lambda>x. x = j" for j]
      by (auto simp: admission_inv_def eqs nth_list_update)
    then show ?thesis using step by blast
  qed
qed

lemma profile_inv: "admission_inv a \<Longrightarrow> admission_inv (forProfile cap a)"
proof -
  assume inv: "admission_inv a"
  have "filter (\<lambda>l. fst l = length (adProfiles a)) (heldLeases a) = []"
    using inv by (auto simp: admission_inv_def heldLeases_def filter_empty_conv)
  then show ?thesis using inv
    by (auto simp: admission_inv_def forProfile_def heldLeases_def Let_def nth_append less_Suc_eq)
qed

interpretation admission_machine: machine_invariant "\<lambda>a. \<exists>g p. a = newPolicyAdmission g p" admission_step admission_inv
proof unfold_locales
  fix a a' assume inv: "admission_inv a" and "admission_step a a'"
  from this(2) show "admission_inv a'"
    by cases (use inv acquire_total release_total profile_inv in fastforce)+
qed (auto simp: newPolicyAdmission_def admission_inv_def heldLeases_def Let_def)

section \<open>Properties\<close>

text \<open>C33. The breaker never gets stuck. In every state reachable in less than \<open>2 ^ 64\<close> steps, with
  permits reporting in any order and however late, an acquisition is refused only before the reset time or while
  the one probe that was let through is still out; there is never a second probe; and however the
  probe ends, the breaker moves on: success closes it, a neutral end lets the next probe through, an infrastructure failure
  opens it again with a new reset time.\<close>

theorem breaker_never_stuck:
  assumes "breaker_run parseTime n b ps" "n < 2 ^ 64"
  shows "(snd (breakerTryAcquire now b) = None \<longleftrightarrow>
       (\<exists>u. pbOpenUntil b = Some u \<and> (now < u \<or> (\<exists>p \<in> set ps. liveProbe b p)))) \<and>
    length (filter (liveProbe b) ps) \<le> 1 \<and>
    (\<forall>p \<in> set ps. liveProbe b p \<longrightarrow>
       pbOpenUntil (snd (recordSuccess p b)) = None \<and>
       pbOpenUntil (snd (releaseNeutral p b)) = pbOpenUntil b \<and> \<not> pbHalfOpenInFlight (snd (releaseNeutral p b)) \<and>
       (cfaAffectsBreaker failure \<longrightarrow> pbOpenUntil (snd (recordFailure parseTime now failure p b)) \<noteq> None \<and>
          \<not> pbHalfOpenInFlight (snd (recordFailure parseTime now failure p b))))"
proof -
  have inv: "breaker_inv n b ps" using breaker_run_inv assms by blast
  have live: "liveProbes b ps = (if pbHalfOpenInFlight b then 1 else 0)" using inv by (simp add: breaker_inv_def)
  then have probe: "(\<exists>p \<in> set ps. liveProbe b p) \<longleftrightarrow> pbHalfOpenInFlight b"
    using filter_empty_conv[of "liveProbe b" ps] by (cases "filter (liveProbe b) ps") (auto simp: liveProbes_def split: if_splits)
  have ended: "pbOpenUntil (snd (recordSuccess p b)) = None \<and>
       pbOpenUntil (snd (releaseNeutral p b)) = pbOpenUntil b \<and> \<not> pbHalfOpenInFlight (snd (releaseNeutral p b)) \<and>
       (cfaAffectsBreaker failure \<longrightarrow> pbOpenUntil (snd (recordFailure parseTime now failure p b)) \<noteq> None \<and>
          \<not> pbHalfOpenInFlight (snd (recordFailure parseTime now failure p b)))" if "liveProbe b p" for p
  proof -
    have p: "\<not> ppDone p" "ppGeneration p = pbGeneration b" "ppHalfOpen p" using that by (auto simp: liveProbe_def)
    have "pbOpenUntil (snd (recordFailure parseTime now failure p b)) \<noteq> None \<and>
        \<not> pbHalfOpenInFlight (snd (recordFailure parseTime now failure p b))" if "cfaAffectsBreaker failure"
      using recordFailure_live[OF that p(1,2), of parseTime now] p(3) openLocked_facts by (metis snd_conv)
    then show ?thesis using p by (simp add: recordSuccess_def releaseNeutral_def Let_def)
  qed
  show ?thesis using live probe ended
    by (auto simp: breakerTryAcquire_def liveProbes_def split: option.splits)
qed

lemma breaker_never_stuck_witness:
  "snd (breakerTryAcquire 7 newPolicyBreaker) \<noteq> None"
  using breaker_never_stuck[OF run_start, where now = 7] by (simp add: newPolicyBreaker_def)

text \<open>Admission is balanced. Whatever sequence of profiles, acquisitions and (repeated) releases,
  the taken slots of the global pool are the leases not yet released and stay within its capacity, those
  of each profile are its own unreleased leases and stay within its capacity, and neither an acquisition, with
  its rollback of the profile slot, nor a release can hit the panic on an empty pool.\<close>

theorem admission_balanced:
  assumes "admission_step\<^sup>*\<^sup>* (newPolicyAdmission g p) a"
  shows "poolUsed (adGlobal a) = length (filter (\<lambda>l. \<not> snd l) (adLeases a)) \<and>
    poolUsed (adGlobal a) \<le> poolCap (adGlobal a) \<and>
    (\<forall>i < length (adProfiles a).
       poolUsed (adProfiles a ! i) = length (filter (\<lambda>l. fst l = i) (filter (\<lambda>l. \<not> snd l) (adLeases a))) \<and>
       poolUsed (adProfiles a ! i) \<le> poolCap (adProfiles a ! i) \<and> admissionTryAcquire i a \<noteq> None) \<and>
    (\<forall>k < length (adLeases a). leaseRelease k a \<noteq> None)"
proof -
  have inv: "admission_inv a" using admission_machine.reachable_inv assms by blast
  then show ?thesis using acquire_total[OF inv] release_total[OF inv]
    by (fastforce simp: admission_inv_def heldLeases_def)
qed

lemma admission_balanced_witness:
  "poolUsed (adGlobal (forProfile 2 (newPolicyAdmission 1 1))) \<le> 1"
  using admission_balanced[of 1 1 "forProfile 2 (newPolicyAdmission 1 1)",
    OF r_into_rtranclp[of admission_step, OF step_profile]]
  by (simp add: forProfile_def newPolicyAdmission_def)

end
