(* ===== verification/Copilot_Traffic.thy ===== *)
theory Copilot_Traffic
  imports Retry_After Provider_Policy "HOL-Library.Multiset"
begin

text \<open>
  Rate-limit cooldowns of Copilot providers (\<open>proxy/copilot_traffic.go\<close>): fingerprints, the admission
  of an inference request, the permit that probes an expired cooldown, the observation of
  throttling answers and the body that observes one.

  Entries are shared by pointer, so they live in a heap by address; a probe channel is a number, closed when
  it is in \<open>tcClosed\<close>. \<open>encoding/json\<close> and the duplicate-key scan are the record \<open>trafficJson\<close>.
  The order in which Go walks the map is the order of the association list.
\<close>

section \<open>Requests and keys\<close>

datatype copilotThrottleScope =
  copilotThrottleUnknown | copilotThrottleModel | copilotThrottleAccount | copilotThrottleIntegration

record copilotCooldownKey =
  ckScope :: copilotThrottleScope
  ckIdentity :: string
  ckModel :: string

record copilotInferenceRequest =
  irKeys :: "copilotCooldownKey list"
  irEndpoint :: string


definition zeroHash :: string where "zeroHash = replicate 32 (CHR 0x00)"

text \<open>The bytes hashed by \<open>copilotTrafficFingerprint\<close>.\<close>

definition fingerprintBytes :: "string list \<Rightarrow> string" where
  "fingerprintBytes parts = concat (map (\<lambda>part. formatNat (length part) @ '':'' @ part) parts)"

definition copilotTrafficFingerprint :: "(string \<Rightarrow> string) \<Rightarrow> string list \<Rightarrow> string" where
  "copilotTrafficFingerprint sha parts = sha (fingerprintBytes parts)"

text \<open>What a request to a Copilot provider carries; \<open>bodyModel\<close> is the model found in the body.\<close>

record copilotRequestView =
  rvProviderID :: string
  rvOrigin :: string
  rvAuthorization :: string
  rvSourceFingerprint :: "string option"
  rvIntegrationID :: string
  rvOwnerModel :: "string option"
  rvBodyModel :: string

definition withCopilotInferenceRequest ::
  "(string \<Rightarrow> string) \<Rightarrow> copilotRequestView \<Rightarrow> string \<Rightarrow> copilotInferenceRequest option" where
  "withCopilotInferenceRequest sha req endpoint =
     (if endpoint \<notin> {providerEndpointChatCompletions, providerEndpointMessages, providerEndpointResponses} then None
      else
        let owner = (case rvOwnerModel req of Some m \<Rightarrow> trimSpace m | None \<Rightarrow> '''');
            model = (if owner = '''' then rvBodyModel req else owner);
            credential = (case rvSourceFingerprint req of Some f \<Rightarrow> f | None \<Rightarrow> sha (rvAuthorization req));
            account = copilotTrafficFingerprint sha [rvProviderID req, rvOrigin req, credential];
            integration = copilotTrafficFingerprint sha [rvProviderID req, rvOrigin req, rvIntegrationID req]
        in Some \<lparr>irKeys =
              [\<lparr>ckScope = copilotThrottleModel, ckIdentity = account, ckModel = sha model\<rparr>,
               \<lparr>ckScope = copilotThrottleAccount, ckIdentity = account, ckModel = zeroHash\<rparr>,
               \<lparr>ckScope = copilotThrottleIntegration, ckIdentity = integration, ckModel = zeroHash\<rparr>],
            irEndpoint = endpoint\<rparr>)"

section \<open>The controller\<close>

definition maxCopilotTrafficEntries :: nat where "maxCopilotTrafficEntries = 256"
definition maxCopilotProbeWaiters :: int where "maxCopilotProbeWaiters = 256"
definition maxCopilotThrottleEvidenceBytes :: nat where "maxCopilotThrottleEvidenceBytes = 4 * 1024"

text \<open>The zero \<open>time.Time\<close>, in nanoseconds of the Unix epoch.\<close>

definition zeroTime :: gotime where "zeroTime = - 62135596800 * 1000000000"

record copilotCooldown =
  cdUntil :: gotime
  cdCode :: string
  cdProbe :: "nat option"

record copilotTrafficController =
  tcHeap :: "(nat, copilotCooldown) gomap"
  tcCooldowns :: "(copilotCooldownKey, nat) gomap"
  tcWaiters :: int
  tcNextAddr :: nat
  tcNextChan :: nat
  tcClosed :: "nat list"

definition newCopilotTraffic :: copilotTrafficController where
  "newCopilotTraffic = \<lparr>tcHeap = [], tcCooldowns = [], tcWaiters = 0, tcNextAddr = 0, tcNextChan = 0, tcClosed = []\<rparr>"

type_synonym copilotProbeReservation = "copilotCooldownKey \<times> nat \<times> nat"

record copilotInferencePermit =
  ipProbes :: "copilotProbeReservation list"
  ipReleased :: bool

definition entryOf :: "copilotTrafficController \<Rightarrow> copilotCooldownKey \<Rightarrow> copilotCooldown option" where
  "entryOf c key = Option.bind (gm_get (tcCooldowns c) key) (gm_get (tcHeap c))"

text \<open>One reservation of a release; the clock is read anew for each.\<close>

definition releaseProbe :: "gotime \<Rightarrow> copilotProbeReservation \<Rightarrow> copilotTrafficController \<Rightarrow> copilotTrafficController" where
  "releaseProbe now reservation c =
     (case reservation of (key, addr, probe) \<Rightarrow>
        (case gm_get (tcHeap c) addr of
           None \<Rightarrow> c
         | Some entry \<Rightarrow>
             if cdProbe entry \<noteq> Some probe then c
             else c\<lparr>tcHeap := gm_put addr (entry\<lparr>cdProbe := None\<rparr>) (tcHeap c),
                    tcCooldowns := (if \<not> cdUntil entry > now \<and> gm_get (tcCooldowns c) key = Some addr
                      then gm_del key (tcCooldowns c) else tcCooldowns c),
                    tcClosed := probe # tcClosed c\<rparr>))"

fun releaseProbes :: "(nat \<Rightarrow> gotime) \<Rightarrow> nat \<Rightarrow> copilotProbeReservation list \<Rightarrow> copilotTrafficController \<Rightarrow>
  copilotTrafficController" where
  "releaseProbes clock i [] c = c"
| "releaseProbes clock i (r # rs) c = releaseProbes clock (Suc i) rs (releaseProbe (clock i) r c)"

definition permitRelease :: "(nat \<Rightarrow> gotime) \<Rightarrow> copilotInferencePermit \<Rightarrow> copilotTrafficController \<Rightarrow>
  copilotInferencePermit \<times> copilotTrafficController" where
  "permitRelease clock p c =
     (if ipReleased p then (p, c) else (p\<lparr>ipReleased := True\<rparr>, releaseProbes clock 0 (ipProbes p) c))"

text \<open>The loop over the keys: the cooldown that lasts longest, and the last probe seen.\<close>

fun scanKeys :: "copilotTrafficController \<Rightarrow> gotime \<Rightarrow> copilotCooldownKey list \<Rightarrow>
  copilotCooldown option \<Rightarrow> nat option \<Rightarrow> copilotCooldown option \<times> nat option" where
  "scanKeys c now [] active wait = (active, wait)"
| "scanKeys c now (key # keys) active wait =
     (case entryOf c key of
        None \<Rightarrow> scanKeys c now keys active wait
      | Some entry \<Rightarrow>
          scanKeys c now keys
            (if cdUntil entry > now \<and> (case active of None \<Rightarrow> True | Some a \<Rightarrow> cdUntil entry > cdUntil a)
             then Some entry else active)
            (case cdProbe entry of Some ch \<Rightarrow> Some ch | None \<Rightarrow> wait))"

text \<open>The loop that reserves the expired entries.\<close>

fun reserveProbes :: "copilotCooldownKey list \<Rightarrow> copilotTrafficController \<Rightarrow>
  copilotProbeReservation list \<times> copilotTrafficController" where
  "reserveProbes [] c = ([], c)"
| "reserveProbes (key # keys) c =
     (case gm_get (tcCooldowns c) key of
        None \<Rightarrow> reserveProbes keys c
      | Some addr \<Rightarrow>
          (case gm_get (tcHeap c) addr of
             None \<Rightarrow> reserveProbes keys c
           | Some entry \<Rightarrow>
               let ch = tcNextChan c;
                   c' = c\<lparr>tcHeap := gm_put addr (entry\<lparr>cdProbe := Some ch\<rparr>) (tcHeap c), tcNextChan := Suc ch\<rparr>
               in case reserveProbes keys c' of (rs, c'') \<Rightarrow> ((key, addr, ch) # rs, c'')))"

datatype acquireOutcome =
    AcquireThrottled string goduration
  | AcquireTooManyWaiters
  | AcquireWait nat
  | AcquireAdmitted "copilotInferencePermit option"

text \<open>One round of the admission loop under the mutex. \<open>AcquireWait\<close> counts the caller as a waiter;
  \<open>stopWaiting\<close> is what it does when woken, before the next round.\<close>

definition acquireRound :: "gotime \<Rightarrow> copilotInferenceRequest \<Rightarrow> copilotTrafficController \<Rightarrow>
  copilotTrafficController \<times> acquireOutcome" where
  "acquireRound now metadata c =
     (case scanKeys c now (irKeys metadata) None None of
        (Some active, wait) \<Rightarrow> (c, AcquireThrottled (cdCode active) (timeSub (cdUntil active) now))
      | (None, Some ch) \<Rightarrow>
          if tcWaiters c \<ge> maxCopilotProbeWaiters then (c, AcquireTooManyWaiters)
          else (c\<lparr>tcWaiters := tcWaiters c + 1\<rparr>, AcquireWait ch)
      | (None, None) \<Rightarrow>
          (case reserveProbes (irKeys metadata) c of
             (rs, c') \<Rightarrow> (c', AcquireAdmitted (if rs = [] then None else Some \<lparr>ipProbes = rs, ipReleased = False\<rparr>))))"

definition stopWaiting :: "copilotTrafficController \<Rightarrow> copilotTrafficController" where
  "stopWaiting c = c\<lparr>tcWaiters := tcWaiters c - 1\<rparr>"

text \<open>The answer to a throttled request: status, \<open>Retry-After\<close>, error code, and whether the envelope has
  the type member of the Messages endpoint.\<close>

record copilotCooldownAnswer =
  caStatus :: int
  caRetryAfter :: string
  caCode :: string
  caTyped :: bool

definition copilotCooldownResponse :: "string \<Rightarrow> string \<Rightarrow> goduration \<Rightarrow> copilotCooldownAnswer" where
  "copilotCooldownResponse endpoint code delay =
     \<lparr>caStatus = 429, caRetryAfter = formatInt (durationSecondsCeil delay), caCode = code,
      caTyped = (endpoint = providerEndpointMessages)\<rparr>"

section \<open>Observing throttling\<close>

record trafficJson =
  tjNoDuplicates :: "string \<Rightarrow> bool"
  tjEnvelope :: "string \<Rightarrow> (string \<times> string) option"
  tjCodeBody :: "string \<Rightarrow> string"

text \<open>\<open>tjEnvelope\<close> decodes \<open>code\<close> and \<open>error.code\<close>; \<open>tjCodeBody\<close> encodes an object with a code.\<close>

definition copilotThrottleCode :: "trafficJson \<Rightarrow> string \<Rightarrow> string \<times> copilotThrottleScope" where
  "copilotThrottleCode J body =
     (if body = '''' \<or> length body > maxCopilotThrottleEvidenceBytes \<or> \<not> tjNoDuplicates J body
      then ('''', copilotThrottleUnknown)
      else case tjEnvelope J body of
        None \<Rightarrow> ('''', copilotThrottleUnknown)
      | Some (outer, inner) \<Rightarrow>
          if outer \<noteq> '''' \<and> inner \<noteq> '''' \<and> outer \<noteq> inner then ('''', copilotThrottleUnknown)
          else
            let code = (if inner = '''' then outer else inner)
            in if code = ''user_model_rate_limited'' then (code, copilotThrottleModel)
               else if code \<in> {''user_global_rate_limited'', ''user_weekly_rate_limited''} then (code, copilotThrottleAccount)
               else if code = ''integration_rate_limited'' then (code, copilotThrottleIntegration)
               else ('''', copilotThrottleUnknown))"

fun keyOfScope :: "copilotThrottleScope \<Rightarrow> copilotCooldownKey list \<Rightarrow> copilotCooldownKey" where
  "keyOfScope scope [] = \<lparr>ckScope = copilotThrottleUnknown, ckIdentity = zeroHash, ckModel = zeroHash\<rparr>"
| "keyOfScope scope (candidate # keys) = (if ckScope candidate = scope then candidate else keyOfScope scope keys)"

text \<open>The search of the entry to evict: none of those being probed.\<close>

fun oldestEntry :: "copilotTrafficController \<Rightarrow> (copilotCooldownKey \<times> nat) list \<Rightarrow>
  (copilotCooldownKey \<times> gotime) option \<Rightarrow> (copilotCooldownKey \<times> gotime) option" where
  "oldestEntry c [] oldest = oldest"
| "oldestEntry c ((candidate, addr) # rest) oldest =
     (case gm_get (tcHeap c) addr of
        None \<Rightarrow> oldestEntry c rest oldest
      | Some stored \<Rightarrow>
          oldestEntry c rest
            (if cdProbe stored = None \<and> (case oldest of None \<Rightarrow> True | Some (_, u) \<Rightarrow> cdUntil stored < u)
             then Some (candidate, cdUntil stored) else oldest))"

definition raiseUntil :: "gotime \<Rightarrow> string \<Rightarrow> copilotCooldown \<Rightarrow> copilotCooldown" where
  "raiseUntil until code entry = (if until > cdUntil entry then entry\<lparr>cdUntil := until, cdCode := code\<rparr> else entry)"

definition insertEntry :: "copilotCooldownKey \<Rightarrow> copilotCooldown \<Rightarrow> copilotTrafficController \<Rightarrow> copilotTrafficController" where
  "insertEntry key entry c =
     c\<lparr>tcHeap := gm_put (tcNextAddr c) entry (tcHeap c), tcCooldowns := gm_put key (tcNextAddr c) (tcCooldowns c),
       tcNextAddr := Suc (tcNextAddr c)\<rparr>"

definition observeThrottle :: "trafficJson \<Rightarrow> (string \<Rightarrow> gotime option) \<Rightarrow> gotime \<Rightarrow> copilotInferenceRequest \<Rightarrow> int \<Rightarrow>
  string \<Rightarrow> string \<Rightarrow> copilotTrafficController \<Rightarrow> copilotTrafficController" where
  "observeThrottle J parseTime now metadata status retryAfter body c =
     (if status \<noteq> 429 then c
      else case copilotThrottleCode J body of (code, scope) \<Rightarrow>
        if scope = copilotThrottleUnknown then c
        else case parseRetryAfterAt parseTime retryAfter now of
          None \<Rightarrow> c
        | Some delay \<Rightarrow>
            let key = keyOfScope scope (irKeys metadata); until = now + delay
            in case gm_get (tcCooldowns c) key of
              Some addr \<Rightarrow>
                (case gm_get (tcHeap c) addr of
                   None \<Rightarrow> c
                 | Some entry \<Rightarrow> c\<lparr>tcHeap := gm_put addr (raiseUntil until code entry) (tcHeap c)\<rparr>)
            | None \<Rightarrow>
                let entry = raiseUntil until code \<lparr>cdUntil = zeroTime, cdCode = '''', cdProbe = None\<rparr>
                in if length (tcCooldowns c) \<ge> maxCopilotTrafficEntries
                   then case oldestEntry c (tcCooldowns c) None of
                     None \<Rightarrow> c
                   | Some (oldestKey, _) \<Rightarrow>
                       insertEntry key entry (c\<lparr>tcCooldowns := gm_del oldestKey (tcCooldowns c)\<rparr>)
                   else insertEntry key entry c)"

definition observeResponsesFailure :: "trafficJson \<Rightarrow> (string \<Rightarrow> gotime option) \<Rightarrow> (string \<Rightarrow> goduration option) \<Rightarrow>
  gotime \<Rightarrow> gotime \<Rightarrow> copilotInferenceRequest \<Rightarrow> string \<Rightarrow> header \<Rightarrow> copilotTrafficController \<Rightarrow> copilotTrafficController" where
  "observeResponsesFailure J parseTime parseDuration headersNow now metadata code headers c =
     observeThrottle J parseTime now metadata 429 (fst (selectResponsesRetryAfter parseTime parseDuration headersNow headers))
       (tjCodeBody J code) c"

section \<open>The body of an answer\<close>

text \<open>What \<open>finishCopilotInference\<close> does with an answer: release the permit, leave the body alone, or wrap it
  (with the size limit of one event where it is scanned as an event stream). \<open>metadata\<close> is that of the permit, if
  there is one, otherwise that of the request. The rewriting of Responses item identifiers is left out.\<close>

record copilotAnswerView =
  avStatus :: int
  avHeaders :: header
  avHasBody :: bool

datatype finishDecision = FinishRelease | FinishPass | FinishWrap copilotInferencePermit string "nat option"

definition openAIStreamScannerMaxBuffer :: nat where "openAIStreamScannerMaxBuffer = 8 * 1024 * 1024"

definition isEventStream :: "string \<Rightarrow> bool" where
  "isEventStream contentType \<longleftrightarrow>
     map toLowerC (trimSpace (takeWhile (\<lambda>c. c \<noteq> CHR '';'') contentType)) = ''text/event-stream''"

definition finishCopilotInference :: "(string \<Rightarrow> gotime option) \<Rightarrow> (string \<Rightarrow> goduration option) \<Rightarrow> gotime \<Rightarrow> gotime \<Rightarrow>
  copilotInferenceRequest option \<Rightarrow> bool \<Rightarrow> copilotAnswerView option \<Rightarrow> copilotInferencePermit option \<Rightarrow> finishDecision" where
  "finishCopilotInference parseTime parseDuration headersNow now metadata responsesChat answer permit =
     (case answer of
        None \<Rightarrow> FinishRelease
      | Some resp \<Rightarrow>
          if \<not> avHasBody resp then FinishRelease
          else case metadata of
            None \<Rightarrow> FinishPass
          | Some meta \<Rightarrow>
              let retryAfter = fst (selectResponsesRetryAfter parseTime parseDuration headersNow (avHeaders resp));
                  stream1 = ((irEndpoint meta \<noteq> providerEndpointResponses \<or> responsesChat) \<and> avStatus resp = 200 \<and>
                    isEventStream (headerGetCI (avHeaders resp) ''Content-Type''));
                  observeStream = (if stream1 \<and> irEndpoint meta \<noteq> providerEndpointResponses
                    then parseRetryAfterAt parseTime retryAfter now \<noteq> None else stream1);
                  limit = (if observeStream then Some (if irEndpoint meta = providerEndpointResponses
                    then openAIStreamScannerMaxBuffer else maxCopilotThrottleEvidenceBytes) else None)
              in case permit of
                Some p \<Rightarrow> FinishWrap p retryAfter limit
              | None \<Rightarrow>
                  if avStatus resp \<noteq> 429 \<and> \<not> observeStream then FinishPass
                  else FinishWrap \<lparr>ipProbes = [], ipReleased = False\<rparr> retryAfter limit)"

text \<open>The body that is not scanned as a stream. \<open>observe\<close> runs once; its second component is what it has
  the controller observe.\<close>

record copilotTrafficBody =
  tbStatus :: int
  tbRetryAfter :: string
  tbPrefix :: string
  tbComplete :: bool
  tbObserved :: bool
  tbClosed :: bool

definition bodyObserve :: "copilotTrafficBody \<Rightarrow> copilotTrafficBody \<times> string option \<times> bool" where
  "bodyObserve b =
     (if tbObserved b then (b, None, False)
      else (b\<lparr>tbObserved := True\<rparr>, if tbComplete b then Some (tbPrefix b) else None, True))"

text \<open>A read that gave the bytes \<open>p\<close>, with \<open>eof\<close> or another error; the result as of \<open>bodyObserve\<close>, whose last
  component says whether the permit is released.\<close>

definition bodyRead :: "string \<Rightarrow> bool \<Rightarrow> bool \<Rightarrow> copilotTrafficBody \<Rightarrow> copilotTrafficBody \<times> string option \<times> bool" where
  "bodyRead p eof failed b =
     (if tbStatus b = 429 then
        let b1 = b\<lparr>tbPrefix := tbPrefix b @ take (maxCopilotThrottleEvidenceBytes + 1 - length (tbPrefix b)) p,
              tbComplete := tbComplete b \<or> eof\<rparr>;
            overflow = length (tbPrefix b1) > maxCopilotThrottleEvidenceBytes
        in if eof \<or> failed \<or> overflow then bodyObserve b1 else (b1, None, False)
      else (b, None, False))"

definition bodyClose :: "copilotTrafficBody \<Rightarrow> copilotTrafficBody \<times> string option \<times> bool" where
  "bodyClose b =
     (if tbClosed b then (b, None, False)
      else case bodyObserve b of (b', seen, _) \<Rightarrow> (b'\<lparr>tbClosed := True\<rparr>, seen, True))"

section \<open>The controller with its permits and waiters\<close>

record copilotTrafficSystem =
  tsController :: copilotTrafficController
  tsPermits :: "copilotInferencePermit list"
  tsWaiting :: "nat list"

text \<open>A waiter may go on at any time (woken, canceled or shut down). The keys of a request are those
  of \<open>withCopilotInferenceRequest\<close>.\<close>

inductive traffic_step :: "copilotTrafficSystem \<Rightarrow> copilotTrafficSystem \<Rightarrow> bool" where
  ts_acquire: "withCopilotInferenceRequest sha req endpoint = Some metadata \<Longrightarrow>
     acquireRound now metadata (tsController s) = (c', outcome) \<Longrightarrow>
     traffic_step s \<lparr>tsController = c',
       tsPermits = tsPermits s @ (case outcome of AcquireAdmitted (Some p) \<Rightarrow> [p] | _ \<Rightarrow> []),
       tsWaiting = (case outcome of AcquireWait ch \<Rightarrow> ch # tsWaiting s | _ \<Rightarrow> tsWaiting s)\<rparr>"
| ts_leave: "ch \<in> set (tsWaiting s) \<Longrightarrow>
     traffic_step s (s\<lparr>tsController := stopWaiting (tsController s), tsWaiting := remove1 ch (tsWaiting s)\<rparr>)"
| ts_release: "i < length (tsPermits s) \<Longrightarrow> permitRelease clock (tsPermits s ! i) (tsController s) = (p, c') \<Longrightarrow>
     traffic_step s (s\<lparr>tsController := c', tsPermits := (tsPermits s)[i := p]\<rparr>)"
| ts_observe: "withCopilotInferenceRequest sha req endpoint = Some metadata \<Longrightarrow>
     traffic_step s (s\<lparr>tsController := observeThrottle J parseTime now metadata status retryAfter body (tsController s)\<rparr>)"

definition newTrafficSystem :: copilotTrafficSystem where
  "newTrafficSystem = \<lparr>tsController = newCopilotTraffic, tsPermits = [], tsWaiting = []\<rparr>"

definition chanOf :: "copilotProbeReservation \<Rightarrow> nat" where "chanOf r = snd (snd r)"

text \<open>The reservations of the permits still out.\<close>

definition liveReservations :: "copilotInferencePermit list \<Rightarrow> copilotProbeReservation list" where
  "liveReservations ps = concat (map ipProbes (filter (\<lambda>p. \<not> ipReleased p) ps))"

text \<open>The probe of the entry a key is bound to, in one function.\<close>

definition boundProbe :: "copilotTrafficController \<Rightarrow> copilotCooldownKey \<Rightarrow> (nat \<times> nat option) option" where
  "boundProbe c k = (case gm_get (tcCooldowns c) k of None \<Rightarrow> None
     | Some a \<Rightarrow> map_option (\<lambda>e. (a, cdProbe e)) (gm_get (tcHeap c) a))"

definition map_ok :: "copilotTrafficController \<Rightarrow> bool" where
  "map_ok c \<longleftrightarrow> distinct (map fst (tcCooldowns c)) \<and> length (tcCooldowns c) \<le> maxCopilotTrafficEntries \<and>
     (\<forall>k a. gm_get (tcCooldowns c) k = Some a \<longrightarrow> a < tcNextAddr c \<and> gm_get (tcHeap c) a \<noteq> None) \<and>
     (\<forall>k k' a. gm_get (tcCooldowns c) k = Some a \<longrightarrow> gm_get (tcCooldowns c) k' = Some a \<longrightarrow> k = k') \<and>
     (\<forall>ch \<in> set (tcClosed c). ch < tcNextChan c)"

definition live_ok :: "copilotTrafficController \<Rightarrow> copilotProbeReservation list \<Rightarrow> bool" where
  "live_ok c live \<longleftrightarrow> distinct (map chanOf live) \<and>
     (\<forall>k a ch. (k, a, ch) \<in> set live \<longleftrightarrow> boundProbe c k = Some (a, Some ch)) \<and>
     (\<forall>r \<in> set live. chanOf r < tcNextChan c \<and> chanOf r \<notin> set (tcClosed c))"

definition wait_ok :: "copilotTrafficController \<Rightarrow> copilotProbeReservation list \<Rightarrow> nat list \<Rightarrow> bool" where
  "wait_ok c live waiting \<longleftrightarrow> tcWaiters c = int (length waiting) \<and> tcWaiters c \<le> maxCopilotProbeWaiters \<and>
     (\<forall>ch \<in> set waiting. ch \<in> set (tcClosed c) \<or> ch \<in> chanOf ` set live)"

definition traffic_inv :: "copilotTrafficController \<Rightarrow> copilotProbeReservation list \<Rightarrow> nat list \<Rightarrow> bool" where
  "traffic_inv c live waiting \<longleftrightarrow> map_ok c \<and> live_ok c live \<and> wait_ok c live waiting"

lemma traffic_inv_perm:
  assumes "traffic_inv c live waiting" "mset live = mset live'"
  shows "traffic_inv c live' waiting"
proof -
  have "set live = set live'" using assms(2) by (metis set_mset_mset)
  moreover have "distinct (map chanOf live) = distinct (map chanOf live')"
    using assms(2) by (metis mset_eq_imp_distinct_iff mset_map)
  ultimately show ?thesis using assms(1) by (simp add: traffic_inv_def live_ok_def wait_ok_def)
qed

lemma boundProbe_heap:
  assumes "map_ok c" "gm_get (tcCooldowns c) k = Some a" "gm_get (tcHeap c) a = Some e"
    "tcCooldowns c' = tcCooldowns c" "tcHeap c' = gm_put a e' (tcHeap c)"
  shows "boundProbe c' = (boundProbe c)(k := Some (a, cdProbe e'))"
proof
  fix k'
  show "boundProbe c' k' = ((boundProbe c)(k := Some (a, cdProbe e'))) k'"
  proof (cases "k' = k")
    case True
    then show ?thesis using assms(2,4,5) by (simp add: boundProbe_def AList.update_conv')
  next
    case False
    then have "gm_get (tcCooldowns c) k' \<noteq> Some a" using assms(1,2) by (auto simp: map_ok_def)
    then show ?thesis using False assms(4,5)
      by (cases "gm_get (tcCooldowns c) k'") (simp_all add: boundProbe_def AList.update_conv')
  qed
qed

lemma map_ok_heap:
  assumes "map_ok c" "gm_get (tcHeap c) a = Some e"
    "tcCooldowns c' = tcCooldowns c" "tcHeap c' = gm_put a e' (tcHeap c)" "tcNextAddr c' = tcNextAddr c"
    "tcNextChan c \<le> tcNextChan c'" "set (tcClosed c') \<subseteq> set (tcClosed c) \<union> {ch. ch < tcNextChan c}"
  shows "map_ok c'"
  using assms unfolding map_ok_def by (fastforce simp: AList.update_conv')

lemma map_ok_del: "map_ok c \<Longrightarrow> map_ok (c\<lparr>tcCooldowns := gm_del k (tcCooldowns c)\<rparr>)"
  by (auto simp: map_ok_def AList.distinct_delete length_gm_del AList.delete_conv' split: if_splits)

lemma boundProbe_del: "boundProbe (c\<lparr>tcCooldowns := gm_del k (tcCooldowns c)\<rparr>) = (boundProbe c)(k := None)"
proof
  fix k'
  show "boundProbe (c\<lparr>tcCooldowns := gm_del k (tcCooldowns c)\<rparr>) k' = ((boundProbe c)(k := None)) k'"
    by (cases "gm_get (tcCooldowns c) k'") (simp_all add: boundProbe_def AList.delete_conv')
qed

lemma live_bound: "live_ok c live \<Longrightarrow> (k, a, ch) \<in> set live \<Longrightarrow> boundProbe c k = Some (a, Some ch)"
  by (simp add: live_ok_def)

lemma releaseProbe_inv:
  assumes "traffic_inv c (r # live) waiting"
  shows "traffic_inv (releaseProbe now r c) live waiting"
proof -
  obtain k a ch where r: "r = (k, a, ch)" by (cases r)
  have m: "map_ok c" and l: "live_ok c (r # live)" and w: "wait_ok c (r # live) waiting"
    using assms by (auto simp: traffic_inv_def)
  have "boundProbe c k = Some (a, Some ch)" using live_bound[OF l] r by simp
  then obtain e where e: "gm_get (tcCooldowns c) k = Some a" "gm_get (tcHeap c) a = Some e" "cdProbe e = Some ch"
    by (auto simp: boundProbe_def split: option.splits)
  have ch: "ch < tcNextChan c" "ch \<notin> chanOf ` set live" "ch \<notin> set (tcClosed c)"
    using l r by (auto simp: live_ok_def chanOf_def)
  define h where "h = c\<lparr>tcHeap := gm_put a (e\<lparr>cdProbe := None\<rparr>) (tcHeap c), tcClosed := ch # tcClosed c\<rparr>"
  define d where "d = h\<lparr>tcCooldowns := gm_del k (tcCooldowns h)\<rparr>"
  have rel: "releaseProbe now r c = (if \<not> cdUntil e > now then d else h)"
    using e r by (simp add: releaseProbe_def h_def d_def)
  have mh: "map_ok h" using m e(2) ch(1) by (intro map_ok_heap[OF m e(2)]) (auto simp: h_def)
  have bh: "boundProbe h = (boundProbe c)(k := Some (a, None))" using boundProbe_heap[OF m e(1,2), of h] by (simp add: h_def)
  have bd: "boundProbe d = (boundProbe c)(k := None)" unfolding d_def boundProbe_del bh by simp
  have "(k, a', ch') \<notin> set live" for a' ch'
  proof
    assume "(k, a', ch') \<in> set live"
    then have "boundProbe c k = Some (a', Some ch')" "ch' \<in> chanOf ` set live"
      using live_bound[OF l] by (simp, force simp: chanOf_def)
    then show False using \<open>boundProbe c k = Some (a, Some ch)\<close> ch(2) by auto
  qed
  moreover have "(k', a', ch') \<in> set (r # live) \<longleftrightarrow> boundProbe c k' = Some (a', Some ch')" for k' a' ch'
    using l unfolding live_ok_def by blast
  ultimately have rest: "(k', a', ch') \<in> set live \<longleftrightarrow> k' \<noteq> k \<and> boundProbe c k' = Some (a', Some ch')" for k' a' ch'
    unfolding r by (metis Pair_inject set_ConsD list.set_intros(2))
  have chans: "distinct (map chanOf live)" "\<forall>q \<in> set live. chanOf q < tcNextChan c \<and> chanOf q \<notin> set (ch # tcClosed c)"
    using l r ch by (auto simp: live_ok_def chanOf_def)
  have "live_ok h live" using rest chans by (simp add: live_ok_def bh) (auto simp: h_def)
  moreover have "live_ok d live" using rest chans by (simp add: live_ok_def bd) (auto simp: h_def d_def)
  moreover have "wait_ok h live waiting" "wait_ok d live waiting"
    using w r by (auto simp: wait_ok_def chanOf_def h_def d_def)
  moreover have "map_ok d" using map_ok_del[OF mh] by (simp add: d_def)
  ultimately show ?thesis using mh by (auto simp: rel traffic_inv_def)
qed

lemma releaseProbes_inv:
  "traffic_inv c (rs @ live) waiting \<Longrightarrow> traffic_inv (releaseProbes clock i rs c) live waiting"
  by (induction rs arbitrary: c i) (auto intro: releaseProbe_inv)

lemma releaseProbes_closed:
  "traffic_inv c (rs @ live) waiting \<Longrightarrow> chanOf ` set rs \<union> set (tcClosed c) \<subseteq> set (tcClosed (releaseProbes clock i rs c))"
proof (induction rs arbitrary: c i)
  case (Cons r rs)
  obtain k a ch where r: "r = (k, a, ch)" by (cases r)
  have "boundProbe c k = Some (a, Some ch)" using Cons.prems r live_bound by (fastforce simp: traffic_inv_def)
  then have "tcClosed (releaseProbe (clock i) r c) = ch # tcClosed c"
    using r by (auto simp: releaseProbe_def boundProbe_def split: option.splits)
  then show ?case
    using Cons.IH[OF releaseProbe_inv[of c r "rs @ live" waiting "clock i"], of "Suc i"] Cons.prems r by (auto simp: chanOf_def)
qed simp

lemma entryOf_probe: "entryOf c k = Some e \<Longrightarrow> \<exists>a. boundProbe c k = Some (a, cdProbe e)"
  by (cases "gm_get (tcCooldowns c) k") (auto simp: entryOf_def boundProbe_def)

lemma scanKeys_wait:
  "scanKeys c now keys active wait = (active', wait') \<Longrightarrow>
   (wait' = None \<longrightarrow> wait = None \<and> (\<forall>k \<in> set keys. \<forall>e. entryOf c k = Some e \<longrightarrow> cdProbe e = None)) \<and>
   (\<forall>ch. wait' = Some ch \<longrightarrow> wait = Some ch \<or> (\<exists>k e. entryOf c k = Some e \<and> cdProbe e = Some ch))"
proof (induction keys arbitrary: active wait)
  case (Cons key keys)
  show ?case
  proof (cases "entryOf c key")
    case None
    then show ?thesis using Cons.IH[of active wait] Cons.prems by simp
  next
    case (Some e)
    then obtain w where "w = (case cdProbe e of Some ch \<Rightarrow> Some ch | None \<Rightarrow> wait)"
      "scanKeys c now keys (if cdUntil e > now \<and> (case active of None \<Rightarrow> True | Some a \<Rightarrow> cdUntil e > cdUntil a)
         then Some e else active) w = (active', wait')"
      using Cons.prems by simp
    from Cons.IH[OF this(2)] this(1) Some show ?thesis by (auto split: option.splits)
  qed
qed simp

lemma entryOf_bound: "entryOf c k = None \<longleftrightarrow> boundProbe c k = None"
  by (cases "gm_get (tcCooldowns c) k") (auto simp: entryOf_def boundProbe_def)

lemma reserveProbes_inv:
  assumes "distinct keys" "\<forall>k \<in> set keys. \<forall>a ch. boundProbe c k \<noteq> Some (a, Some ch)" "traffic_inv c live waiting"
    "reserveProbes keys c = (rs, c')"
  shows "traffic_inv c' (rs @ live) waiting"
  using assms
proof (induction keys arbitrary: c live rs c')
  case (Cons key keys)
  have m: "map_ok c" and l: "live_ok c live" and w: "wait_ok c live waiting" using Cons.prems(3) by (auto simp: traffic_inv_def)
  show ?case
  proof (cases "\<exists>a e. gm_get (tcCooldowns c) key = Some a \<and> gm_get (tcHeap c) a = Some e")
    case False
    then have "reserveProbes keys c = (rs, c')" using Cons.prems(4) by (auto split: option.splits)
    then show ?thesis using Cons.IH[of c live rs c'] Cons.prems by simp
  next
    case True
    then obtain a e where e: "gm_get (tcCooldowns c) key = Some a" "gm_get (tcHeap c) a = Some e" by blast
    let ?ch = "tcNextChan c"
    define c1 where "c1 = c\<lparr>tcHeap := gm_put a (e\<lparr>cdProbe := Some ?ch\<rparr>) (tcHeap c), tcNextChan := Suc ?ch\<rparr>"
    obtain rs1 where rest: "reserveProbes keys c1 = (rs1, c')" "rs = (key, a, ?ch) # rs1"
      using Cons.prems(4) e by (auto simp: c1_def Let_def split: prod.splits)
    have b1: "boundProbe c1 = (boundProbe c)(key := Some (a, Some ?ch))"
      using boundProbe_heap[OF m e(1,2), of c1] by (simp add: c1_def)
    have m1: "map_ok c1" by (rule map_ok_heap[OF m e(2)]) (auto simp: c1_def)
    have none: "boundProbe c key = Some (a, cdProbe e)" "cdProbe e = None"
      using Cons.prems(2) e by (auto simp: boundProbe_def)
    have new: "?ch \<notin> chanOf ` set live" "?ch \<notin> set (tcClosed c)"
      using l m by (auto simp: live_ok_def map_ok_def)
    have "live_ok c1 ((key, a, ?ch) # live)"
      using l new none by (simp add: live_ok_def b1) (auto simp: c1_def chanOf_def less_SucI image_iff)
    moreover have "wait_ok c1 ((key, a, ?ch) # live) waiting" using w by (auto simp: wait_ok_def c1_def)
    ultimately have "traffic_inv c1 ((key, a, ?ch) # live) waiting" using m1 by (simp add: traffic_inv_def)
    moreover have "\<forall>k \<in> set keys. \<forall>a ch. boundProbe c1 k \<noteq> Some (a, Some ch)"
      using Cons.prems(1,2) by (auto simp: b1)
    ultimately have "traffic_inv c' (rs1 @ (key, a, ?ch) # live) waiting"
      using Cons.IH[OF _ _ _ rest(1)] Cons.prems(1) by simp
    then show ?thesis unfolding rest(2) by (rule traffic_inv_perm) simp
  qed
qed simp

lemma withCopilot_keys: "withCopilotInferenceRequest sha req endpoint = Some m \<Longrightarrow> distinct (irKeys m)"
  by (auto simp: withCopilotInferenceRequest_def Let_def split: if_splits)

lemma acquireRound_inv:
  assumes "distinct (irKeys m)" "traffic_inv c live waiting" "acquireRound now m c = (c', outcome)"
  shows "traffic_inv c' ((case outcome of AcquireAdmitted (Some p) \<Rightarrow> if ipReleased p then [] else ipProbes p | _ \<Rightarrow> []) @ live)
    (case outcome of AcquireWait ch \<Rightarrow> ch # waiting | _ \<Rightarrow> waiting)"
proof -
  obtain active wait where scan: "scanKeys c now (irKeys m) None None = (active, wait)" by fastforce
  note s = scanKeys_wait[OF scan]
  consider e where "active = Some e" | ch where "active = None" "wait = Some ch" | "active = None" "wait = None"
    by (cases active; cases wait) auto
  then show ?thesis
  proof cases
    case 1
    then show ?thesis using assms scan by (auto simp: acquireRound_def)
  next
    case 2
    then obtain k e where "entryOf c k = Some e" "cdProbe e = Some ch" using s by auto
    then obtain a where "boundProbe c k = Some (a, Some ch)" using entryOf_probe by fastforce
    then have "(k, a, ch) \<in> set live" using assms(2) by (simp add: traffic_inv_def live_ok_def)
    then have "ch \<in> chanOf ` set live" by (force simp: chanOf_def)
    moreover have "boundProbe (c\<lparr>tcWaiters := n\<rparr>) = boundProbe c" for n
      by (simp add: boundProbe_def fun_eq_iff cong: option.case_cong)
    ultimately show ?thesis using assms scan 2
      by (auto simp: acquireRound_def traffic_inv_def map_ok_def live_ok_def wait_ok_def split: if_splits)
  next
    case 3
    have "\<forall>k \<in> set (irKeys m). \<forall>a ch. boundProbe c k \<noteq> Some (a, Some ch)"
    proof (intro ballI allI notI)
      fix k a ch assume k: "k \<in> set (irKeys m)" "boundProbe c k = Some (a, Some ch)"
      then obtain e where e: "entryOf c k = Some e" by (metis entryOf_bound not_None_eq)
      from entryOf_probe[OF e] k have "cdProbe e = Some ch" by auto
      then show False using s 3 k e by auto
    qed
    moreover obtain rs c1 where rs: "reserveProbes (irKeys m) c = (rs, c1)" by fastforce
    ultimately have "traffic_inv c1 (rs @ live) waiting" by (intro reserveProbes_inv[OF assms(1) _ assms(2) rs])
    then show ?thesis using assms(3) scan 3 rs by (auto simp: acquireRound_def)
  qed
qed

text \<open>Binding a key to an entry without a probe, or unbinding one, does not touch the live reservations.\<close>

lemma live_ok_rebind:
  assumes "live_ok c live" "boundProbe c' = (boundProbe c)(k := b)" "\<forall>a ch. b \<noteq> Some (a, Some ch)"
    "\<forall>a ch. boundProbe c k \<noteq> Some (a, Some ch)" "tcNextChan c' = tcNextChan c" "tcClosed c' = tcClosed c"
  shows "live_ok c' live"
  using assms by (auto simp: live_ok_def)

lemma insertEntry_inv:
  assumes "traffic_inv c live waiting" "gm_get (tcCooldowns c) key = None" "cdProbe entry = None"
    "length (tcCooldowns c) < maxCopilotTrafficEntries"
  shows "traffic_inv (insertEntry key entry c) live waiting"
proof -
  let ?c = "insertEntry key entry c"
  have m: "map_ok c" and l: "live_ok c live" and w: "wait_ok c live waiting" using assms(1) by (auto simp: traffic_inv_def)
  have "\<forall>k a. gm_get (tcCooldowns c) k = Some a \<longrightarrow> a < tcNextAddr c" using m unfolding map_ok_def by blast
  then have fresh: "gm_get (tcCooldowns c) k \<noteq> Some (tcNextAddr c)" for k using less_irrefl by blast
  have "boundProbe ?c = (boundProbe c)(key := Some (tcNextAddr c, None))"
  proof
    fix k
    show "boundProbe ?c k = ((boundProbe c)(key := Some (tcNextAddr c, None))) k"
    proof (cases "k = key")
      case True
      then show ?thesis using assms(3) by (simp add: boundProbe_def insertEntry_def AList.update_conv')
    next
      case False
      then show ?thesis using fresh[of k]
        by (cases "gm_get (tcCooldowns c) k") (simp_all add: boundProbe_def insertEntry_def AList.update_conv')
    qed
  qed
  then have "live_ok ?c live"
    by (rule live_ok_rebind[OF l]) (simp_all add: boundProbe_def assms(2) insertEntry_def)
  moreover have "map_ok ?c"
  proof -
    have parts: "distinct (map fst (tcCooldowns c))" "length (tcCooldowns c) \<le> maxCopilotTrafficEntries"
      "\<And>k a. gm_get (tcCooldowns c) k = Some a \<Longrightarrow> a < tcNextAddr c \<and> gm_get (tcHeap c) a \<noteq> None"
      "\<And>k k' a. gm_get (tcCooldowns c) k = Some a \<Longrightarrow> gm_get (tcCooldowns c) k' = Some a \<Longrightarrow> k = k'"
      "\<forall>ch \<in> set (tcClosed c). ch < tcNextChan c"
      using m unfolding map_ok_def by blast+
    have get: "gm_get (tcCooldowns ?c) k = (if k = key then Some (tcNextAddr c) else gm_get (tcCooldowns c) k)" for k
      by (simp add: insertEntry_def AList.update_conv')
    have heap: "gm_get (tcHeap ?c) a = (if a = tcNextAddr c then Some entry else gm_get (tcHeap c) a)" for a
      by (simp add: insertEntry_def AList.update_conv')
    have a: "a < tcNextAddr ?c \<and> gm_get (tcHeap ?c) a \<noteq> None" if "gm_get (tcCooldowns ?c) k = Some a" for k a
      using that parts(3)[of k a] by (cases "k = key") (simp_all add: get heap, simp_all add: insertEntry_def)
    have b: "k = k'" if "gm_get (tcCooldowns ?c) k = Some a" "gm_get (tcCooldowns ?c) k' = Some a" for k k' a
      using that parts(4)[of k a k'] fresh[of k] fresh[of k'] by (auto simp: get split: if_splits)
    have c: "distinct (map fst (tcCooldowns ?c))" "length (tcCooldowns ?c) \<le> maxCopilotTrafficEntries"
      "\<forall>ch \<in> set (tcClosed ?c). ch < tcNextChan ?c"
      using parts(1,2,5) assms(4) by (simp_all add: insertEntry_def AList.distinct_update length_gm_put)
    show ?thesis unfolding map_ok_def using a b c by blast
  qed
  moreover have "wait_ok ?c live waiting" using w by (simp add: wait_ok_def insertEntry_def)
  ultimately show ?thesis by (simp add: traffic_inv_def)
qed

lemma oldestEntry_free:
  "oldestEntry c l oldest = Some (k, u) \<Longrightarrow>
   oldest = Some (k, u) \<or> (\<exists>a e. (k, a) \<in> set l \<and> gm_get (tcHeap c) a = Some e \<and> cdProbe e = None)"
proof (induction c l oldest rule: oldestEntry.induct)
  case (2 c candidate addr rest oldest)
  show ?case
  proof (cases "gm_get (tcHeap c) addr")
    case None
    then show ?thesis using 2 by auto
  next
    case (Some e)
    then show ?thesis using 2(2)[OF Some] 2(3) by (auto split: if_splits)
  qed
qed simp

lemma raiseUntil_probe: "cdProbe (raiseUntil until code e) = cdProbe e"
  by (simp add: raiseUntil_def)

lemma observeThrottle_inv:
  assumes "traffic_inv c live waiting"
  shows "traffic_inv (observeThrottle J parseTime now m status retryAfter body c) live waiting"
proof -
  have mc: "map_ok c" and l: "live_ok c live" and w: "wait_ok c live waiting" using assms by (auto simp: traffic_inv_def)
  obtain code scope where code: "copilotThrottleCode J body = (code, scope)" by fastforce
  let ?key = "keyOfScope scope (irKeys m)"
  consider "observeThrottle J parseTime now m status retryAfter body c = c"
    | delay a e where "gm_get (tcCooldowns c) ?key = Some a" "gm_get (tcHeap c) a = Some e"
        "observeThrottle J parseTime now m status retryAfter body c =
           c\<lparr>tcHeap := gm_put a (raiseUntil (now + delay) code e) (tcHeap c)\<rparr>"
    | entry where "gm_get (tcCooldowns c) ?key = None" "cdProbe entry = None"
        "length (tcCooldowns c) < maxCopilotTrafficEntries"
        "observeThrottle J parseTime now m status retryAfter body c = insertEntry ?key entry c"
    | entry old u where "gm_get (tcCooldowns c) ?key = None" "cdProbe entry = None"
        "oldestEntry c (tcCooldowns c) None = Some (old, u)"
        "observeThrottle J parseTime now m status retryAfter body c =
           insertEntry ?key entry (c\<lparr>tcCooldowns := gm_del old (tcCooldowns c)\<rparr>)"
  proof -
    assume c1: "observeThrottle J parseTime now m status retryAfter body c = c \<Longrightarrow> thesis"
      and c2: "\<And>a e delay. gm_get (tcCooldowns c) ?key = Some a \<Longrightarrow> gm_get (tcHeap c) a = Some e \<Longrightarrow>
        observeThrottle J parseTime now m status retryAfter body c =
           c\<lparr>tcHeap := gm_put a (raiseUntil (now + delay) code e) (tcHeap c)\<rparr> \<Longrightarrow> thesis"
      and c3: "\<And>entry. gm_get (tcCooldowns c) ?key = None \<Longrightarrow> cdProbe entry = None \<Longrightarrow>
        length (tcCooldowns c) < maxCopilotTrafficEntries \<Longrightarrow>
        observeThrottle J parseTime now m status retryAfter body c = insertEntry ?key entry c \<Longrightarrow> thesis"
      and c4: "\<And>entry old u. gm_get (tcCooldowns c) ?key = None \<Longrightarrow> cdProbe entry = None \<Longrightarrow>
        oldestEntry c (tcCooldowns c) None = Some (old, u) \<Longrightarrow>
        observeThrottle J parseTime now m status retryAfter body c =
           insertEntry ?key entry (c\<lparr>tcCooldowns := gm_del old (tcCooldowns c)\<rparr>) \<Longrightarrow> thesis"
    show thesis
    proof (cases "status \<noteq> 429 \<or> scope = copilotThrottleUnknown \<or> parseRetryAfterAt parseTime retryAfter now = None")
      case True
      then show thesis using code by (intro c1) (auto simp: observeThrottle_def)
    next
      case False
      then obtain delay where delay: "status = 429" "scope \<noteq> copilotThrottleUnknown"
        "parseRetryAfterAt parseTime retryAfter now = Some delay" by auto
      let ?e = "raiseUntil (now + delay) code \<lparr>cdUntil = zeroTime, cdCode = '''', cdProbe = None\<rparr>"
      show thesis
      proof (cases "gm_get (tcCooldowns c) ?key")
        case (Some a)
        then show thesis using code delay c1 c2[OF Some]
          by (cases "gm_get (tcHeap c) a") (simp_all add: observeThrottle_def Let_def)
      next
        case None
        show thesis
        proof (cases "length (tcCooldowns c) \<ge> maxCopilotTrafficEntries")
          case True
          then show thesis using code delay c1 None c4[OF None, of ?e]
            by (cases "oldestEntry c (tcCooldowns c) None") (auto simp: observeThrottle_def Let_def raiseUntil_probe)
        next
          case False
          then show thesis using code delay None
            by (intro c3[OF None, of ?e]) (simp_all add: observeThrottle_def Let_def raiseUntil_probe)
        qed
      qed
    qed
  qed
  then show ?thesis
  proof cases
    case (2 delay a e)
    let ?c = "c\<lparr>tcHeap := gm_put a (raiseUntil (now + delay) code e) (tcHeap c)\<rparr>"
    have "boundProbe ?c = (boundProbe c)(?key := Some (a, cdProbe e))"
      using boundProbe_heap[OF mc 2(1,2), of ?c] by (simp add: raiseUntil_probe)
    also have "\<dots> = boundProbe c" using 2(1,2) by (auto simp: boundProbe_def)
    finally have "live_ok ?c live" using l by (simp add: live_ok_def)
    moreover have "map_ok ?c" by (rule map_ok_heap[OF mc 2(2)]) auto
    moreover have "wait_ok ?c live waiting" using w by (simp add: wait_ok_def)
    ultimately show ?thesis using 2(3) by (simp add: traffic_inv_def)
  next
    case (3 entry)
    then show ?thesis using insertEntry_inv[OF assms] by simp
  next
    case (4 entry old u)
    let ?c = "c\<lparr>tcCooldowns := gm_del old (tcCooldowns c)\<rparr>"
    obtain a e where a: "(old, a) \<in> set (tcCooldowns c)" "gm_get (tcHeap c) a = Some e" "cdProbe e = None"
      using oldestEntry_free[OF 4(3)] by auto
    have old: "gm_get (tcCooldowns c) old = Some a" using a(1) mc by (auto simp: map_ok_def)
    have "live_ok ?c live"
      by (rule live_ok_rebind[OF l boundProbe_del]) (simp_all add: boundProbe_def old a)
    moreover have "map_ok ?c" by (rule map_ok_del[OF mc])
    moreover have "wait_ok ?c live waiting" using w by (simp add: wait_ok_def)
    ultimately have inv: "traffic_inv ?c live waiting" by (simp add: traffic_inv_def)
    have "old \<in> fst ` set (tcCooldowns c)" using a(1) by force
    then have "length (tcCooldowns ?c) = length (tcCooldowns c) - 1" "0 < length (tcCooldowns c)"
      using mc by (auto simp: map_ok_def length_gm_del)
    moreover have "length (tcCooldowns c) \<le> maxCopilotTrafficEntries" using mc by (simp add: map_ok_def)
    ultimately have "length (tcCooldowns ?c) < maxCopilotTrafficEntries" by linarith
    then show ?thesis using insertEntry_inv[OF inv _ 4(2)] 4(1,4) by (simp add: AList.delete_conv')
  qed (use assms in simp)
qed

section \<open>Properties\<close>

definition system_inv :: "copilotTrafficSystem \<Rightarrow> bool" where
  "system_inv s \<longleftrightarrow> traffic_inv (tsController s) (liveReservations (tsPermits s)) (tsWaiting s)"

lemma live_append: "liveReservations (ps @ qs) = liveReservations ps @ liveReservations qs"
  by (simp add: liveReservations_def)

lemma live_split:
  assumes "i < length ps" "\<not> ipReleased (ps ! i)"
  shows "mset (liveReservations ps) = mset (ipProbes (ps ! i) @ liveReservations (ps[i := p])) \<or> \<not> ipReleased p"
proof -
  have split: "ps = take i ps @ ps ! i # drop (Suc i) ps" using assms(1) by (rule id_take_nth_drop)
  have "ps[i := p] = take i ps @ p # drop (Suc i) ps" using assms(1) by (rule upd_conv_take_nth_drop)
  then show ?thesis using assms(2)
    by (subst (1) split) (simp add: liveReservations_def)
qed

lemma release_split:
  assumes "system_inv s" "i < length (tsPermits s)" "\<not> ipReleased (tsPermits s ! i)" "ipReleased p"
  shows "traffic_inv (tsController s) (ipProbes (tsPermits s ! i) @ liveReservations ((tsPermits s)[i := p])) (tsWaiting s)"
  using assms(1) live_split[OF assms(2,3), of p] assms(4) traffic_inv_perm by (auto simp: system_inv_def)

lemma release_inv:
  assumes "system_inv s" "i < length (tsPermits s)" "permitRelease clock (tsPermits s ! i) (tsController s) = (p, c')"
  shows "system_inv (s\<lparr>tsController := c', tsPermits := (tsPermits s)[i := p]\<rparr>)"
proof (cases "ipReleased (tsPermits s ! i)")
  case True
  then have "p = tsPermits s ! i" "c' = tsController s" using assms(3) by (simp_all add: permitRelease_def)
  then show ?thesis using assms(1) by (simp add: system_inv_def)
next
  case False
  then have p: "ipReleased p" "c' = releaseProbes clock 0 (ipProbes (tsPermits s ! i)) (tsController s)"
    using assms(3) by (auto simp: permitRelease_def)
  then show ?thesis using releaseProbes_inv[OF release_split[OF assms(1,2) False p(1)]] by (simp add: system_inv_def)
qed

lemma release_closes:
  assumes "system_inv s" "i < length (tsPermits s)" "\<not> ipReleased (tsPermits s ! i)"
    "ch \<in> chanOf ` set (ipProbes (tsPermits s ! i))"
  shows "ch \<in> set (tcClosed (snd (permitRelease clock (tsPermits s ! i) (tsController s))))"
proof -
  have "traffic_inv (tsController s) (ipProbes (tsPermits s ! i) @
      liveReservations ((tsPermits s)[i := (tsPermits s ! i)\<lparr>ipReleased := True\<rparr>])) (tsWaiting s)"
    by (rule release_split[OF assms(1-3)]) simp
  from releaseProbes_closed[OF this, where clock = clock and i = 0] assms(3,4) show ?thesis
    by (auto simp: permitRelease_def)
qed

lemma traffic_step_inv:
  assumes "system_inv s" "traffic_step s s'"
  shows "system_inv s'"
  using assms(2)
proof cases
  case (ts_acquire sha req endpoint metadata now c' outcome)
  let ?new = "case outcome of AcquireAdmitted (Some p) \<Rightarrow> [p] | _ \<Rightarrow> []"
  have "traffic_inv c' (liveReservations ?new @ liveReservations (tsPermits s))
      (case outcome of AcquireWait ch \<Rightarrow> ch # tsWaiting s | _ \<Rightarrow> tsWaiting s)"
    using acquireRound_inv[OF withCopilot_keys[OF ts_acquire(2)] assms(1)[unfolded system_inv_def] ts_acquire(3)]
    by (cases outcome) (auto simp: liveReservations_def split: option.splits if_splits)
  then show ?thesis unfolding ts_acquire(1) system_inv_def copilotTrafficSystem.simps live_append
    by (rule traffic_inv_perm) simp
next
  case (ts_leave ch)
  have "set (remove1 ch (tsWaiting s)) \<subseteq> set (tsWaiting s)" by (rule set_remove1_subset)
  moreover have "int (length (remove1 ch (tsWaiting s))) = int (length (tsWaiting s)) - 1"
    using ts_leave(2) length_pos_if_in_set[OF ts_leave(2)]
    by (simp only: length_remove1 if_True)
  moreover have "boundProbe (c\<lparr>tcWaiters := n\<rparr>) = boundProbe c" for c n
    by (simp add: boundProbe_def fun_eq_iff cong: option.case_cong)
  ultimately show ?thesis using assms(1) unfolding ts_leave(1)
    by (auto simp: system_inv_def traffic_inv_def map_ok_def live_ok_def wait_ok_def stopWaiting_def)
next
  case (ts_release i clock p c')
  then show ?thesis using release_inv(1)[OF assms(1) ts_release(2,3)] by simp
next
  case (ts_observe sha req endpoint metadata J parseTime now status retryAfter body)
  then show ?thesis using observeThrottle_inv assms(1) by (simp add: system_inv_def)
qed

interpretation traffic_machine: machine_invariant "\<lambda>s. s = newTrafficSystem" traffic_step system_inv
proof unfold_locales
  show "s = newTrafficSystem \<Longrightarrow> system_inv s" for s
    by (simp add: newTrafficSystem_def newCopilotTraffic_def system_inv_def traffic_inv_def map_ok_def live_ok_def
        wait_ok_def liveReservations_def boundProbe_def maxCopilotProbeWaiters_def)
qed (rule traffic_step_inv)

text \<open>C34. No waiter is lost. However requests are admitted, answers observed, waiters canceled and
  permits released: a request that waits for a probe either has been woken (the channel is closed) or
  waits for a permit that is still out, and releasing that permit wakes it. A cooldown being probed is
  held by exactly one permit and is never evicted, and neither the table nor the number of waiters exceeds 256.\<close>

theorem waiters_never_lost:
  assumes "traffic_step\<^sup>*\<^sup>* newTrafficSystem s"
  shows "(\<forall>ch \<in> set (tsWaiting s). ch \<in> set (tcClosed (tsController s)) \<or>
       (\<exists>i < length (tsPermits s). \<not> ipReleased (tsPermits s ! i) \<and> ch \<in> chanOf ` set (ipProbes (tsPermits s ! i)) \<and>
          (\<forall>clock. ch \<in> set (tcClosed (snd (permitRelease clock (tsPermits s ! i) (tsController s))))))) \<and>
    distinct (map chanOf (liveReservations (tsPermits s))) \<and>
    (\<forall>key entry ch. entryOf (tsController s) key = Some entry \<and> cdProbe entry = Some ch \<longleftrightarrow>
       (\<exists>addr. (key, addr, ch) \<in> set (liveReservations (tsPermits s)) \<and>
          entryOf (tsController s) key = Some entry)) \<and>
    length (tcCooldowns (tsController s)) \<le> 256 \<and>
    tcWaiters (tsController s) = int (length (tsWaiting s)) \<and> tcWaiters (tsController s) \<le> 256"
proof -
  let ?c = "tsController s" and ?live = "liveReservations (tsPermits s)"
  have sys: "system_inv s" using traffic_machine.reachable_inv assms by blast
  then have inv: "map_ok ?c" "live_ok ?c ?live" "wait_ok ?c ?live (tsWaiting s)"
    by (auto simp: system_inv_def traffic_inv_def)
  have woken: "ch \<in> set (tcClosed ?c) \<or>
       (\<exists>i < length (tsPermits s). \<not> ipReleased (tsPermits s ! i) \<and> ch \<in> chanOf ` set (ipProbes (tsPermits s ! i)) \<and>
          (\<forall>clock. ch \<in> set (tcClosed (snd (permitRelease clock (tsPermits s ! i) ?c)))))" if "ch \<in> set (tsWaiting s)" for ch
  proof (cases "ch \<in> set (tcClosed ?c)")
    case False
    then have "ch \<in> chanOf ` set ?live" using that inv(3) by (auto simp: wait_ok_def)
    then obtain p where p: "p \<in> set (tsPermits s)" "\<not> ipReleased p" "ch \<in> chanOf ` set (ipProbes p)"
      unfolding liveReservations_def by auto
    obtain i where "i < length (tsPermits s)" "tsPermits s ! i = p" using p(1) unfolding in_set_conv_nth by blast
    then have i: "i < length (tsPermits s)" "\<not> ipReleased (tsPermits s ! i)"
      "ch \<in> chanOf ` set (ipProbes (tsPermits s ! i))" using p(2,3) by simp_all
    have "ch \<in> set (tcClosed (snd (permitRelease clock (tsPermits s ! i) ?c)))" for clock
      by (rule release_closes[OF sys i])
    then show ?thesis using i by blast
  qed simp
  have "entryOf ?c key = Some entry \<and> cdProbe entry = Some ch \<longleftrightarrow>
      (\<exists>addr. (key, addr, ch) \<in> set ?live \<and> entryOf ?c key = Some entry)" for key entry ch
  proof (cases "entryOf ?c key = Some entry")
    case True
    then obtain a where a: "boundProbe ?c key = Some (a, cdProbe entry)" using entryOf_probe by blast
    have "(key, addr, ch) \<in> set ?live \<longleftrightarrow> boundProbe ?c key = Some (addr, Some ch)" for addr
      using inv(2) unfolding live_ok_def by blast
    then show ?thesis using True a by auto
  qed simp
  moreover have "distinct (map chanOf ?live)" using inv(2) by (simp add: live_ok_def)
  moreover have "length (tcCooldowns ?c) \<le> 256" using inv(1) by (simp add: map_ok_def maxCopilotTrafficEntries_def)
  moreover have "tcWaiters ?c = int (length (tsWaiting s)) \<and> tcWaiters ?c \<le> 256"
    using inv(3) by (simp add: wait_ok_def maxCopilotProbeWaiters_def)
  ultimately show ?thesis using woken by blast
qed

lemma waiters_never_lost_witness:
  "tcWaiters (tsController newTrafficSystem) \<le> 256"
  using waiters_never_lost[OF rtranclp.rtrancl_refl] by simp

end
