(* ===== verification/Spec2Isabelle.thy ===== *)
theory Spec2Isabelle
  imports State_Token_Properties Raw_Json_Properties Anthropic_Stream Stream_Pump Citation_Events Responses_Copy Route_Executor Tail_Buffer Envelope_Extractor Replay_Properties Policy_Runtime Copilot_Traffic
begin

text \<open>
  A verification library of vekil, a proxy in Go that serves one set of model APIs (chat
  completions, Messages, Responses) from several upstream providers.

  \<^bold>\<open>The program and its parts.\<close> A client request is turned into a logical operation on a route,
  the list of targets (provider, model) that can serve a public model. The route executor picks
  a target, asks admission control, sends, and decides from the answer whether the work may be
  tried again, on this target or another, without being done twice. State that a provider keeps
  (response ids, reasoning) is remembered in the state binding store, so that a later request
  goes back to the provider that owns it. Tool calls of Responses models served over chat
  completions are kept in the replay store. Providers that throttle are put into a cooldown by
  the Copilot traffic controller. A policy model asks a small classifier model which tier serves
  a request, behind its own admission control and circuit breaker. Everything is shared between
  request goroutines behind mutexes; a method under its mutex is one step here.

  \<^bold>\<open>Theories and sources\<close> (all under \<open>src/proxy/\<close>; the functions keep the names of the code).
  \<^item> \<open>Prelude\<close>: Go maps as association lists, least recently used lists next to a map, the
    locale \<open>machine_invariant\<close> from which every state machine gets its reachability induction.
    \<open>Go_Strings\<close>: decimal numbers, ASCII case folding and the UTF-8 decoding of \<open>strconv\<close>,
    \<open>strings\<close> and \<open>utf8\<close>, as far as the sources use them.
  \<^item> \<open>State_Binding\<close>: \<open>stateBindingStore\<close> of \<open>state_binding.go\<close> and the bootstrap reservations
    of \<open>route_state_binding.go\<close>. Lookup, binding, replacement, tombstones, expiry, capacity.
  \<^item> \<open>Durable_Binding\<close>, \<open>Durable_Properties\<close>: the store of \<open>state_binding_durable.go\<close> that keeps
    bindings in a file: records and their encoding, keys, opening, lookup, claims, closing.
  \<^item> \<open>State_Tokens\<close>, \<open>State_Token_Properties\<close>: which tokens of a request, a response or headers
    are state of a provider, and how a request is sent to the owner of its state
    (\<open>route_state_binding.go\<close>, \<open>route_state_durable_identity.go\<close>, \<open>compaction.go\<close>).
  \<^item> \<open>Provider_Policy\<close>: the endpoint policies of \<open>provider_endpoint_policy.go\<close> and the fields of
    \<open>providerRuntime\<close> (\<open>providers.go\<close>) and of routes (\<open>model_routes.go\<close>) that routing reads.
  \<^item> \<open>Route_Types\<close>: outcomes, deliveries, semantic progress and commitment of
    \<open>route_executor.go\<close> and \<open>streaming.go\<close>, whose merges are interpretations of the locale
    \<open>rank_merge\<close>.
  \<^item> \<open>Retry_After\<close>: the retry delay a header map gives (\<open>responses_failure_translate.go\<close>,
    \<open>retry.go\<close>), the retry budget and the backoff. \<open>Retry_Loop\<close>: \<open>doWithRetryMode\<close> of
    \<open>retry.go\<close>.
  \<^item> \<open>Route_Rejection\<close>: when a rejected attempt may be replayed (\<open>route_rejection.go\<close>,
    \<open>responses_failure_translate.go\<close>). \<open>Route_Operation\<close>: \<open>routeOperation\<close>, target selection,
    decisions after a failure, final failures (\<open>route_executor.go\<close>, \<open>route_retry.go\<close>,
    \<open>conversation_migration.go\<close>). \<open>Route_Executor\<close>: \<open>executeExplicitRouteRequestPath\<close>.
  \<^item> \<open>Tail_Buffer\<close>, \<open>Json_Validator\<close>, \<open>Envelope_Extractor\<close>: the bounded observation of response
    bodies of \<open>route_executor.go\<close>. The interface \<open>string_reader\<close> is what the extractor relies
    on when it reads a key, a value or a string inside a nested value; it is interpreted for each.
  \<^item> \<open>Raw_Json\<close>, \<open>Raw_Json_Grammar\<close>, \<open>Raw_Json_Properties\<close>: \<open>raw_json_fast.go\<close>, which reads and
    edits JSON in place: the strict and the lax scanner, cursors and scanners over objects and
    arrays, extraction and replacement of a field, the inspection of a chat completion.
  \<^item> \<open>Replay_Id\<close>, \<open>Replay_Store\<close>, \<open>Replay_Invariant\<close>, \<open>Replay_Properties\<close>: the identifiers and
    the store of \<open>responses_chat_replay.go\<close>.
  \<^item> \<open>Policy_Classifier\<close>, \<open>Policy_Runtime\<close>: \<open>chat_policy_classifier.go\<close>, the reading of answers in
    \<open>chat_policy_typesafe.go\<close>, the counters of
    \<open>chat_policy_facts.go\<close>, \<open>chat_policy_runtime.go\<close> and \<open>completePolicyBreakerPermit\<close> of
    \<open>policy_routing.go\<close>.
  \<^item> \<open>Copilot_Traffic\<close>: \<open>copilot_traffic.go\<close> on a heap of cooldown entries.
  \<^item> \<open>Sse_Stream\<close>: event streams as bytes: the reader of \<open>openai_stream_reader.go\<close> and the writers of
    events in \<open>streaming.go\<close>. \<open>Stream_Inspect\<close>: what the pre-commit inspection of \<open>streaming.go\<close>
    concludes from the first events, with the errors of \<open>upstream_error_detail.go\<close>.
    \<open>Stream_Pump\<close>: \<open>openAIStreamPump\<close> and the peeking of a stream before it is committed.
  \<^item> \<open>Chat_Aggregate\<close>: the collection of a chat stream into one completion (\<open>streaming.go\<close>).
    \<open>Anthropic_Stream\<close>: the translation of a chat stream into Messages events (\<open>streaming.go\<close>,
    \<open>MapStopReason\<close> and usage of \<open>translator.go\<close>, \<open>responses_usage.go\<close>).
  \<^item> \<open>Citation_Markers\<close>: markers of \<open>responses_citation_markers.go\<close>, their parsing over runes, the
    rewriting of text whole and in chunks, and the offsets of annotations. \<open>Citation_Events\<close>: the
    rewriter of that file on the events of a stream.
  \<^item> \<open>Responses_Rewrite\<close>: what is replaced in a Responses event: its data lines, the public model and
    stable item ids (\<open>response_model_normalization.go\<close>, \<open>responses_item_id_normalization.go\<close>).
    \<open>Responses_Copy\<close>: the rewriting body and the copying loop with its hook and
    transforms (\<open>responses_item_id_normalization.go\<close>, \<open>response_model_normalization.go\<close>).

  \<^bold>\<open>What the lemmas show.\<close> Stores: every reachable state is well formed (maps, recency lists,
  sizes, capacities, expiry), a binding is found again until it is withdrawn, a conflict is
  never resolved to an owner, a published turn is resolved again and anything else fails
  closed. The durable store refines a map from token keys to verdicts, in which an owner never
  becomes another one, nor after the store is closed or has failed. State tokens: exactly the state of a
  request is extracted, nothing an output holds is hidden from the durable binding, and a
  request with state of a live owner is only pinned to it. Executor: a request is sent again only when every send before it was refused or never
  delivered, sends stay within the budgets and go to targets of the route, the loop ends, the
  pin of an operation never moves, the reported failure is the worst. Observation: the tail
  buffer refines the last bytes of a stream, the validator accepts exactly the JSON objects
  within its depth, the extractor finds the last member of a selected name. Raw JSON: the strict
  scanner accepts exactly the values of the JSON grammar with at most 64 levels and valid UTF-8,
  a field is extracted or replaced only where it is the one member of its name and no name of the
  object has an escape, and an inspection
  that trusts its input answers as the one that validates it. Retry: the numbers
  of the headers are read exactly, with clamping at every width. Policy: a lightweight answer is
  earned by its facts, every admission is released, the breaker always admits a probe again.
  Cooldowns: no waiter is left behind by a probe that ends.
  Event streams: what a writer of events writes, the reader reads back; a target is switched only
  after events that show nothing to the client; a pump releases only a prefix of what was committed
  and a decision reached by peeking certifies silence; a collected completion holds the
  concatenation of the deltas; a translated stream is accepted by the automaton of the Messages
  protocol and loses no text for a client that takes every write. Citations: the text streamed in chunks is the rewriting of the whole
  text and the offsets of annotations follow it. Rewritten events read back with the new data and
  otherwise unchanged; the rewriting body loses no byte; an event is accepted by the hook and taken by every transform before the client sees it;
  an item keeps the id it was first given.

  \<^bold>\<open>Bounds and fuel.\<close> The executor loop runs on fuel: its measure is the targets not yet
  attempted and the sends left, and one turn more than that measure always suffices. JSON
  nesting is 128 in the validator and 64 in the raw scanner, the tail is 64 KiB, as in the code. \<open>nextGroupIDLoop\<close> has one turn for
  every stored group and two more: the identifiers tried are distinct, zero apart. The eviction loops run at most once for every
  element of the recency list. Generations and sequences are 64-bit words that wrap; the
  theorems on the breaker count fewer than \<open>2 ^ 64\<close> steps.

  \<^bold>\<open>Parameters.\<close> \<open>encoding/json\<close> (also \<open>json.Valid\<close> and the decoding of a quoted string), SHA-256, HMAC, \<open>http.ParseTime\<close>, \<open>time.ParseDuration\<close>, random
  sources and clocks are arguments; the transactions of \<open>bbolt\<close> are the environment \<open>boltEnv\<close>;
  the identity of a client request is an argument of the durable operations; the transport, request factories, admission and contexts are
  environment records with an answer for every question of a turn. The
  codecs of stream chunks, encoded events and event objects are the records \<open>streamJson\<close>,
  \<open>chatEncoder\<close> and \<open>eventJson\<close>, the links and hosts of citations are functions, and the writes to
  a client succeed or fail as an argument says. What the citation and item id theorems assume of
  \<open>encoding/json\<close> is \<open>jsonLaws\<close> of \<open>Responses_Rewrite\<close>: decoding gives the members of a nested value, the
  last of each name, and encoding gives compact members that decode again, down to the depth limit
  of the package.

  \<^bold>\<open>Not modelled.\<close> The path, lock and directory checks of the durable file, the hit and miss
  counters, the envelopes of durable errors; nil receivers; publication to statistics, logs and traffic observers; the
  event-stream observers of throttling; the passthrough of streams that are not translated, the
  pipe of \<open>chat_stream_events.go\<close>, stream lifecycle hooks other than a canceled transport, and the
  regular expression for sources of citations; the migration of a conversation that follows the
  executor's loop; the HTTP handlers, the translation between request schemas, websockets,
  authentication, launchers and the command line.
\<close>

end
